(* ===== verification/Prelude.thy ===== *)
theory Prelude
  imports Main "HOL-Library.Word"
begin

text \<open>
  Shared vocabulary of the development: the C integer types of the sources as fixed-width
  words, the error numbers of \<open>lib/include/uapi/asm-generic/errno-base.h\<close> and
  \<open>lib/include/linux/errno.h\<close>, and the list and word lemmas that several components use.
  A C function that returns \<open>int\<close> returns an \<^typ>\<open>int\<close> here, with the errors negated as
  in the sources.  An address (a C pointer used only for its identity) is a \<^typ>\<open>nat\<close>.
\<close>

unbundle bit_operations_syntax

section \<open>Types\<close>

type_synonym u8 = "8 word"
type_synonym u16 = "16 word"
type_synonym u32 = "32 word"
type_synonym u64 = "64 word"

type_synonym addr = nat

section \<open>Error numbers\<close>

abbreviation (input) EPERM :: int where "EPERM \<equiv> 1"
abbreviation (input) ENOENT :: int where "ENOENT \<equiv> 2"
abbreviation (input) ENXIO :: int where "ENXIO \<equiv> 6"
abbreviation (input) ENOMEM :: int where "ENOMEM \<equiv> 12"
abbreviation (input) EBUSY :: int where "EBUSY \<equiv> 16"
abbreviation (input) EEXIST :: int where "EEXIST \<equiv> 17"
abbreviation (input) ENODEV :: int where "ENODEV \<equiv> 19"
abbreviation (input) EINVAL :: int where "EINVAL \<equiv> 22"
abbreviation (input) ENOSPC :: int where "ENOSPC \<equiv> 28"
abbreviation (input) ERANGE :: int where "ERANGE \<equiv> 34"
abbreviation (input) EPROBE_DEFER :: int where "EPROBE_DEFER \<equiv> 517"

named_theorems wf_intros "introduction rules for the well-formedness predicates"
named_theorems kept "operations that keep a well-formedness predicate or a field"

section \<open>Lists\<close>

lemma sorted_wrt_remove1: "sorted_wrt P xs \<Longrightarrow> sorted_wrt P (remove1 x xs)"
  by (induction xs) (auto dest: notin_set_remove1)

lemma sorted_wrt_middle:
  "sorted_wrt P (xs @ ys @ zs) \<Longrightarrow> sorted_wrt P (xs @ zs)"
  by (auto simp: sorted_wrt_append)

lemma distinct_remove1_append:
  "x \<notin> set xs \<Longrightarrow> remove1 x (xs @ x # ys) = xs @ ys"
  by (simp add: remove1_append)

lemma while_first:
  "x \<notin> set pre \<Longrightarrow> takeWhile (\<lambda>n. n \<noteq> x) (pre @ x # rest) = pre"
  "x \<notin> set pre \<Longrightarrow> dropWhile (\<lambda>n. n \<noteq> x) (pre @ x # rest) = x # rest"
  by (induction pre) auto

section \<open>Words\<close>

lemma word_pred_less: "(x :: 'a::len word) < y \<Longrightarrow> y - 1 < y"
  by uint_arith

lemma word_less_Suc: "(x :: 'a::len word) < y \<Longrightarrow> x < x + 1"
  by uint_arith

lemma word_Suc_le: "(x :: 'a::len word) < y \<Longrightarrow> x + 1 \<le> y"
  by uint_arith

lemma word_less_pred: "(x :: 'a::len word) < y \<Longrightarrow> x \<le> y - 1"
  by uint_arith

lemma unat_take_bit: "unat (take_bit k (w :: 'a::len word)) = unat w mod 2 ^ k"
  by (simp add: unsigned_take_bit_eq flip: take_bit_eq_mod)

lemma and_not_mask_eq: "(w :: 'a::len word) AND NOT (mask k) = w - take_bit k w"
proof -
  have "w AND NOT (mask k) = push_bit k (drop_bit k w)"
    by (rule bit_eqI) (auto simp: bit_simps)
  with bits_ident [of k w] show ?thesis
    by (metis add_diff_cancel_right')
qed

lemma unat_and_not_mask: "unat ((w :: 'a::len word) AND NOT (mask k)) = unat w - unat w mod 2 ^ k"
proof -
  have "take_bit k w \<le> w"
    by (simp add: word_le_nat_alt unat_take_bit)
  then show ?thesis
    by (simp add: and_not_mask_eq unat_sub unat_take_bit)
qed

text \<open>Rounding up to a multiple of a power of two that does not exceed a given multiple.\<close>

lemma round_up_bounds:
  fixes X S M N :: nat
  assumes "X \<le> S" and "M dvd S" and "M dvd N" and "S < N" and "0 < M"
  shows "X + M - 1 < N" and "X \<le> X + M - 1 - (X + M - 1) mod M"
    and "X + M - 1 - (X + M - 1) mod M \<le> S"
proof -
  from assms(2-4) obtain s n where S: "S = M * s" "N = M * n" and "s < n"
    by (auto elim!: dvdE)
  then have "S + M \<le> N"
    by (metis Suc_leI mult_Suc_right mult_le_mono2 add.commute)
  with assms show "X + M - 1 < N" by linarith
  have "(X + M - 1) mod M < M"
    using assms(5) by simp
  then show "X \<le> X + M - 1 - (X + M - 1) mod M"
    using assms(5) by linarith
  have "(X + M - 1) div M \<le> s"
  proof -
    have "X + M - 1 \<le> S + (M - 1)" using assms(1,5) by linarith
    also have "\<dots> < M * Suc s" using assms(5) by (simp add: S)
    finally have "(X + M - 1) div M < Suc s"
      by (metis less_mult_imp_div_less mult.commute)
    then show ?thesis by simp
  qed
  then have "M * ((X + M - 1) div M) \<le> S"
    by (simp add: S)
  then show "X + M - 1 - (X + M - 1) mod M \<le> S"
    by (simp add: minus_mod_eq_mult_div)
qed

lemma unat_mask_word:
  assumes "k \<le> LENGTH('a)"
  shows "unat (mask k :: 'a::len word) = 2 ^ k - 1"
proof -
  have "(2::nat) ^ k \<le> 2 ^ LENGTH('a)"
    using assms by (simp add: power_increasing)
  then have "2 ^ k - 1 < (2::nat) ^ LENGTH('a)"
    by (metis diff_less less_le_trans zero_less_one zero_less_numeral zero_less_power)
  moreover have "(mask k :: 'a word) = word_of_nat (mask k)"
    by (simp add: of_nat_mask_eq)
  ultimately show ?thesis
    by (simp only: unat_of_nat) (simp add: mask_eq_exp_minus_1)
qed

lemma word_top: "\<not> (x :: 'a::len word) < x + 1 \<Longrightarrow> y \<le> x"
  by uint_arith

lemma unat_exp: "k < LENGTH('a) \<Longrightarrow> unat (2 ^ k :: 'a::len word) = 2 ^ k"
  by (metis of_nat_numeral of_nat_power power_strict_increasing_iff one_less_numeral_iff semiring_norm(76)
      unat_of_nat mod_less)

lemma unat_ucast_up:
  assumes "LENGTH('b) \<le> LENGTH('a)"
  shows "unat (ucast (x :: 'b::len word) :: 'a::len word) = unat x"
proof -
  have "unat x < 2 ^ LENGTH('b)" by (rule unsigned_less)
  also have "\<dots> \<le> 2 ^ LENGTH('a)" using assms by (intro power_increasing) simp_all
  finally show ?thesis by (simp add: unsigned_ucast_eq take_bit_nat_eq_self)
qed

lemma sint_small: "unat (w :: u32) < 2 ^ 31 \<Longrightarrow> sint w = int (unat w)"
proof -
  assume "unat w < 2 ^ 31"
  then have "uint w < 2 ^ 31" by (metis int_eq_iff_numeral of_nat_less_iff of_nat_numeral of_nat_power uint_nat)
  moreover have "- (2 ^ 31) \<le> uint w" by (rule order_trans [of _ 0]) simp_all
  ultimately have "signed_take_bit 31 (uint w) = uint w" by (intro signed_take_bit_int_eq_self)
  then show ?thesis by (simp add: sint_uint)
qed

end
