(* ===== verification/Notifier.thy ===== *)
theory Notifier
  imports Prelude
begin

text \<open>
  Notifier chains: \<open>kernel/src/driver/base/notifier.c\<close> and
  \<open>kernel/include/linux/notifier.h\<close>.

  A chain is the list of the addresses of its blocks in \<open>next\<close> order; the blocks
  themselves are in a memory \<open>addr \<Rightarrow> 's notifier_block\<close>, so that the comparison
  \<open>*nl == n\<close> of the source is equality of addresses and a block has one priority wherever
  it is linked.  A callback is a function of the action and of the state \<open>'s\<close> of everything
  it may read or write (the \<open>void *\<close> argument included).  The locks and RCU primitives
  serialise the operations; a definition below is one such critical section.
\<close>

section \<open>Blocks and return codes\<close>

record 's notifier_block =
  notifier_call :: "u64 \<Rightarrow> 's \<Rightarrow> int \<times> 's"
  priority :: int

type_synonym 's nb_mem = "addr \<Rightarrow> 's notifier_block"

definition NOTIFY_DONE :: int where "NOTIFY_DONE = 0x0000"
definition NOTIFY_OK :: int where "NOTIFY_OK = 0x0001"
definition NOTIFY_STOP_MASK :: int where "NOTIFY_STOP_MASK = 0x8000"

definition notifier_from_errno :: "int \<Rightarrow> int" where
  "notifier_from_errno err =
     (if err \<noteq> 0 then NOTIFY_STOP_MASK OR (NOTIFY_OK - err) else NOTIFY_OK)"

definition notifier_to_errno :: "int \<Rightarrow> int" where
  "notifier_to_errno ret0 =
     (let ret = ret0 AND NOT NOTIFY_STOP_MASK
      in if ret > NOTIFY_OK then NOTIFY_OK - ret else 0)"

text \<open>The test \<open>ret & NOTIFY_STOP_MASK\<close>.\<close>

definition stops :: "int \<Rightarrow> bool" where
  "stops ret \<longleftrightarrow> ret AND NOTIFY_STOP_MASK \<noteq> 0"

section \<open>The core routines\<close>

fun notifier_chain_register :: "'s nb_mem \<Rightarrow> addr list \<Rightarrow> addr \<Rightarrow> int \<times> addr list" where
  "notifier_chain_register mem [] n = (0, [n])"
| "notifier_chain_register mem (x # nl) n =
     (if x = n then (- EEXIST, x # nl)
      else if priority (mem n) > priority (mem x) then (0, n # x # nl)
      else (case notifier_chain_register mem nl n of (ret, nl') \<Rightarrow> (ret, x # nl')))"

fun notifier_chain_unregister :: "addr list \<Rightarrow> addr \<Rightarrow> int \<times> addr list" where
  "notifier_chain_unregister [] n = (- ENOENT, [])"
| "notifier_chain_unregister (x # nl) n =
     (if x = n then (0, nl)
      else (case notifier_chain_unregister nl n of (ret, nl') \<Rightarrow> (ret, x # nl')))"

text \<open>
  The loop of \<open>notifier_call_chain\<close>; \<open>nr_calls\<close> is \<^const>\<open>None\<close> for a null pointer.
  The result is the return value, the counter behind \<open>nr_calls\<close> and the state.
\<close>

fun notifier_call_loop ::
  "'s nb_mem \<Rightarrow> addr list \<Rightarrow> u64 \<Rightarrow> int \<Rightarrow> int option \<Rightarrow> int \<Rightarrow> 's \<Rightarrow> int \<times> int option \<times> 's" where
  "notifier_call_loop mem [] val nr_to_call nr_calls ret s = (ret, nr_calls, s)"
| "notifier_call_loop mem (nb # next_nb) val nr_to_call nr_calls ret s =
     (if nr_to_call = 0 then (ret, nr_calls, s)
      else
        (case notifier_call (mem nb) val s of (ret', s') \<Rightarrow>
          (let nr_calls' = map_option (\<lambda>k. k + 1) nr_calls
           in if stops ret' then (ret', nr_calls', s')
              else notifier_call_loop mem next_nb val (nr_to_call - 1) nr_calls' ret' s')))"

definition notifier_call_chain ::
  "'s nb_mem \<Rightarrow> addr list \<Rightarrow> u64 \<Rightarrow> int \<Rightarrow> int option \<Rightarrow> 's \<Rightarrow> int \<times> int option \<times> 's" where
  "notifier_call_chain mem nl val nr_to_call nr_calls s =
     notifier_call_loop mem nl val nr_to_call nr_calls NOTIFY_DONE s"

definition notifier_call_chain_robust ::
  "'s nb_mem \<Rightarrow> addr list \<Rightarrow> u64 \<Rightarrow> u64 \<Rightarrow> 's \<Rightarrow> int \<times> 's" where
  "notifier_call_chain_robust mem nl val_up val_down s =
     (case notifier_call_chain mem nl val_up (- 1) (Some 0) s of (ret, nr, s') \<Rightarrow>
        if stops ret
        then (case notifier_call_chain mem nl val_down (the nr - 1) None s' of (_, _, s'') \<Rightarrow> (ret, s''))
        else (ret, s'))"

section \<open>The exported chain kinds\<close>

record atomic_notifier_head = atomic_head :: "addr list"
record blocking_notifier_head = blocking_head :: "addr list"
record raw_notifier_head = raw_head :: "addr list"

definition atomic_notifier_chain_register ::
  "'s nb_mem \<Rightarrow> atomic_notifier_head \<Rightarrow> addr \<Rightarrow> int \<times> atomic_notifier_head" where
  "atomic_notifier_chain_register mem nh n =
     (case notifier_chain_register mem (atomic_head nh) n of (ret, h) \<Rightarrow> (ret, nh\<lparr>atomic_head := h\<rparr>))"

definition atomic_notifier_chain_unregister ::
  "atomic_notifier_head \<Rightarrow> addr \<Rightarrow> int \<times> atomic_notifier_head" where
  "atomic_notifier_chain_unregister nh n =
     (case notifier_chain_unregister (atomic_head nh) n of (ret, h) \<Rightarrow> (ret, nh\<lparr>atomic_head := h\<rparr>))"

definition atomic_notifier_call_chain ::
  "'s nb_mem \<Rightarrow> atomic_notifier_head \<Rightarrow> u64 \<Rightarrow> 's \<Rightarrow> int \<times> 's" where
  "atomic_notifier_call_chain mem nh val s =
     (case notifier_call_chain mem (atomic_head nh) val (- 1) None s of (ret, _, s') \<Rightarrow> (ret, s'))"

definition blocking_notifier_chain_register ::
  "'s nb_mem \<Rightarrow> blocking_notifier_head \<Rightarrow> addr \<Rightarrow> int \<times> blocking_notifier_head" where
  "blocking_notifier_chain_register mem nh n =
     (case notifier_chain_register mem (blocking_head nh) n of (ret, h) \<Rightarrow> (ret, nh\<lparr>blocking_head := h\<rparr>))"

definition blocking_notifier_chain_unregister ::
  "blocking_notifier_head \<Rightarrow> addr \<Rightarrow> int \<times> blocking_notifier_head" where
  "blocking_notifier_chain_unregister nh n =
     (case notifier_chain_unregister (blocking_head nh) n of (ret, h) \<Rightarrow> (ret, nh\<lparr>blocking_head := h\<rparr>))"

definition blocking_notifier_call_chain_robust ::
  "'s nb_mem \<Rightarrow> blocking_notifier_head \<Rightarrow> u64 \<Rightarrow> u64 \<Rightarrow> 's \<Rightarrow> int \<times> 's" where
  "blocking_notifier_call_chain_robust mem nh val_up val_down s =
     (if blocking_head nh \<noteq> []
      then notifier_call_chain_robust mem (blocking_head nh) val_up val_down s
      else (NOTIFY_DONE, s))"

definition blocking_notifier_call_chain ::
  "'s nb_mem \<Rightarrow> blocking_notifier_head \<Rightarrow> u64 \<Rightarrow> 's \<Rightarrow> int \<times> 's" where
  "blocking_notifier_call_chain mem nh val s =
     (if blocking_head nh \<noteq> []
      then (case notifier_call_chain mem (blocking_head nh) val (- 1) None s of (ret, _, s') \<Rightarrow> (ret, s'))
      else (NOTIFY_DONE, s))"

definition raw_notifier_chain_register ::
  "'s nb_mem \<Rightarrow> raw_notifier_head \<Rightarrow> addr \<Rightarrow> int \<times> raw_notifier_head" where
  "raw_notifier_chain_register mem nh n =
     (case notifier_chain_register mem (raw_head nh) n of (ret, h) \<Rightarrow> (ret, nh\<lparr>raw_head := h\<rparr>))"

definition raw_notifier_chain_unregister ::
  "raw_notifier_head \<Rightarrow> addr \<Rightarrow> int \<times> raw_notifier_head" where
  "raw_notifier_chain_unregister nh n =
     (case notifier_chain_unregister (raw_head nh) n of (ret, h) \<Rightarrow> (ret, nh\<lparr>raw_head := h\<rparr>))"

definition raw_notifier_call_chain_robust ::
  "'s nb_mem \<Rightarrow> raw_notifier_head \<Rightarrow> u64 \<Rightarrow> u64 \<Rightarrow> 's \<Rightarrow> int \<times> 's" where
  "raw_notifier_call_chain_robust mem nh val_up val_down s =
     notifier_call_chain_robust mem (raw_head nh) val_up val_down s"

definition raw_notifier_call_chain ::
  "'s nb_mem \<Rightarrow> raw_notifier_head \<Rightarrow> u64 \<Rightarrow> 's \<Rightarrow> int \<times> 's" where
  "raw_notifier_call_chain mem nh val s =
     (case notifier_call_chain mem (raw_head nh) val (- 1) None s of (ret, _, s') \<Rightarrow> (ret, s'))"

section \<open>Well-formed chains\<close>

text \<open>
  The priorities never increase along the chain, and no block is linked twice.
\<close>

definition chain_wf :: "(addr \<Rightarrow> int) \<Rightarrow> addr list \<Rightarrow> bool" where
  "chain_wf prio nl \<longleftrightarrow> sorted_wrt (\<lambda>x y. prio y \<le> prio x) nl \<and> distinct nl"

abbreviation nb_prio :: "'s nb_mem \<Rightarrow> addr \<Rightarrow> int" where
  "nb_prio mem \<equiv> \<lambda>a. priority (mem a)"

lemma chain_wf_Nil [wf_intros, simp]: "chain_wf prio []"
  by (simp add: chain_wf_def)

lemma chain_wf_Cons [simp]:
  "chain_wf prio (x # nl) \<longleftrightarrow> (\<forall>y \<in> set nl. prio y \<le> prio x) \<and> x \<notin> set nl \<and> chain_wf prio nl"
  by (auto simp: chain_wf_def)

lemma chain_wf_insert [wf_intros]:
  assumes "chain_wf prio (xs @ ys)" and "n \<notin> set (xs @ ys)"
    and "\<forall>x \<in> set xs. prio n \<le> prio x" and "\<forall>y \<in> set ys. prio y \<le> prio n"
  shows "chain_wf prio (xs @ n # ys)"
  using assms by (auto simp: chain_wf_def sorted_wrt_append)

lemma chain_wf_dropWhile:
  "chain_wf prio nl \<Longrightarrow> y \<in> set (dropWhile (\<lambda>x. p \<le> prio x) nl) \<Longrightarrow> prio y \<le> p"
  by (induction nl) (force split: if_splits)+

lemma register_new:
  "n \<notin> set nl \<Longrightarrow>
   notifier_chain_register mem nl n =
     (0, takeWhile (\<lambda>x. priority (mem n) \<le> priority (mem x)) nl @ n #
         dropWhile (\<lambda>x. priority (mem n) \<le> priority (mem x)) nl)"
  by (induction nl) auto

lemma register_member:
  "chain_wf (nb_prio mem) nl \<Longrightarrow> n \<in> set nl \<Longrightarrow> notifier_chain_register mem nl n = (- EEXIST, nl)"
  by (induction nl) (auto split: prod.splits)

lemma register_wf [kept]:
  assumes "chain_wf (nb_prio mem) nl"
  shows "chain_wf (nb_prio mem) (snd (notifier_chain_register mem nl n))"
proof (cases "n \<in> set nl")
  case True
  with assms show ?thesis by (simp add: register_member)
next
  case False
  let ?P = "\<lambda>x. priority (mem n) \<le> priority (mem x)"
  from assms have "chain_wf (nb_prio mem) (takeWhile ?P nl @ dropWhile ?P nl)"
    by simp
  then have "chain_wf (nb_prio mem) (takeWhile ?P nl @ n # dropWhile ?P nl)"
    by (rule chain_wf_insert)
      (use False assms in \<open>auto dest: set_takeWhileD chain_wf_dropWhile\<close>)
  with False show ?thesis by (simp add: register_new)
qed

lemma unregister_remove1:
  "notifier_chain_unregister nl n = (if n \<in> set nl then 0 else - ENOENT, remove1 n nl)"
  by (induction nl) auto

lemma unregister_wf [kept]:
  "chain_wf prio nl \<Longrightarrow> chain_wf prio (snd (notifier_chain_unregister nl n))"
  by (simp add: unregister_remove1 chain_wf_def sorted_wrt_remove1)

section \<open>The contract of a chain\<close>

text \<open>
  What the three exported kinds of chain promise to their users.  \<open>chain\<close> reads the
  sequence of blocks off a chain head.
\<close>

locale notifier_chain =
  fixes reg :: "'h \<Rightarrow> addr \<Rightarrow> int \<times> 'h"
    and unreg :: "'h \<Rightarrow> addr \<Rightarrow> int \<times> 'h"
    and chain :: "'h \<Rightarrow> addr list"
    and prio :: "addr \<Rightarrow> int"
  assumes reg_new: "n \<notin> set (chain h) \<Longrightarrow>
      fst (reg h n) = 0 \<and>
      chain (snd (reg h n)) = takeWhile (\<lambda>x. prio n \<le> prio x) (chain h) @ n #
        dropWhile (\<lambda>x. prio n \<le> prio x) (chain h)"
    and reg_member: "chain_wf prio (chain h) \<Longrightarrow> n \<in> set (chain h) \<Longrightarrow>
      fst (reg h n) = - EEXIST \<and> chain (snd (reg h n)) = chain h"
    and unreg: "fst (unreg h n) = (if n \<in> set (chain h) then 0 else - ENOENT) \<and>
      chain (snd (unreg h n)) = remove1 n (chain h)"
begin

lemma reg_wf:
  assumes "chain_wf prio (chain h)"
  shows "chain_wf prio (chain (snd (reg h n)))"
proof (cases "n \<in> set (chain h)")
  case True
  with assms show ?thesis by (simp add: reg_member)
next
  case False
  let ?P = "\<lambda>x. prio n \<le> prio x"
  have "chain_wf prio (takeWhile ?P (chain h) @ n # dropWhile ?P (chain h))"
    by (rule chain_wf_insert)
      (use False assms in \<open>auto dest: set_takeWhileD chain_wf_dropWhile\<close>)
  with False show ?thesis by (simp add: reg_new)
qed

lemma unreg_wf: "chain_wf prio (chain h) \<Longrightarrow> chain_wf prio (chain (snd (unreg h n)))"
  by (simp add: unreg chain_wf_def sorted_wrt_remove1)

text \<open>Registering a new block and removing it again leaves the chain as it was.\<close>

lemma reg_unreg:
  assumes "n \<notin> set (chain h)"
  shows "fst (unreg (snd (reg h n)) n) = 0 \<and> chain (snd (unreg (snd (reg h n)) n)) = chain h"
proof -
  let ?P = "\<lambda>x. prio n \<le> prio x"
  have "n \<notin> set (takeWhile ?P (chain h))"
    using assms by (auto dest: set_takeWhileD)
  with assms show ?thesis
    by (simp add: reg_new unreg distinct_remove1_append)
qed

text \<open>
  A user that registers (\<open>True\<close>) and unregisters (\<open>False\<close>) blocks in any order, starting
  from a well-formed chain.
\<close>

fun run_ops :: "(bool \<times> addr) list \<Rightarrow> 'h \<Rightarrow> 'h" where
  "run_ops [] h = h"
| "run_ops ((True, n) # ops) h = run_ops ops (snd (reg h n))"
| "run_ops ((False, n) # ops) h = run_ops ops (snd (unreg h n))"

lemma run_ops_wf: "chain_wf prio (chain h) \<Longrightarrow> chain_wf prio (chain (run_ops ops h))"
  by (induction ops h rule: run_ops.induct) (simp_all add: reg_wf unreg_wf)

end

lemmas chain_kind_defs =
  atomic_notifier_chain_register_def atomic_notifier_chain_unregister_def
  blocking_notifier_chain_register_def blocking_notifier_chain_unregister_def
  raw_notifier_chain_register_def raw_notifier_chain_unregister_def

interpretation atomic: notifier_chain
  "atomic_notifier_chain_register mem" atomic_notifier_chain_unregister atomic_head "nb_prio mem"
  for mem :: "'s nb_mem"
  by unfold_locales
    (simp_all add: chain_kind_defs register_new register_member unregister_remove1)

interpretation blocking: notifier_chain
  "blocking_notifier_chain_register mem" blocking_notifier_chain_unregister blocking_head "nb_prio mem"
  for mem :: "'s nb_mem"
  by unfold_locales
    (simp_all add: chain_kind_defs register_new register_member unregister_remove1)

interpretation raw: notifier_chain
  "raw_notifier_chain_register mem" raw_notifier_chain_unregister raw_head "nb_prio mem"
  for mem :: "'s nb_mem"
  by unfold_locales
    (simp_all add: chain_kind_defs register_new register_member unregister_remove1)

section \<open>Calling a chain\<close>

text \<open>
  A memory whose callbacks answer by a verdict and append the call to a log: the calls a
  traversal makes, in order, are the log.
\<close>

definition logged :: "(addr \<Rightarrow> u64 \<Rightarrow> int) \<Rightarrow> (addr \<Rightarrow> int) \<Rightarrow> (addr \<times> u64) list nb_mem" where
  "logged verdict prio = (\<lambda>a. \<lparr>notifier_call = (\<lambda>v log. (verdict a v, log @ [(a, v)])), priority = prio a\<rparr>)"

lemma logged_call [simp]: "notifier_call (logged verdict prio a) v log = (verdict a v, log @ [(a, v)])"
  by (simp add: logged_def)


lemma call_loop_0 [simp]: "notifier_call_loop mem nl val 0 k ret s = (ret, k, s)"
  by (cases nl) simp_all

section \<open>Properties\<close>

text \<open>
  C1: Registration.  On a well-formed chain, registering a block that is already linked
  returns -EEXIST and changes nothing; registering another one returns 0 and links it behind
  the blocks of the same or a higher priority and before all others, and the chain stays
  well-formed either way.
\<close>
theorem register_correct:
  assumes "chain_wf (nb_prio mem) nl"
  shows "(n \<in> set nl \<longrightarrow> notifier_chain_register mem nl n = (- EEXIST, nl)) \<and>
    (n \<notin> set nl \<longrightarrow> (\<exists>before after. nl = before @ after \<and>
       notifier_chain_register mem nl n = (0, before @ n # after) \<and>
       (\<forall>x \<in> set before. priority (mem n) \<le> priority (mem x)) \<and>
       (\<forall>x \<in> set after. priority (mem x) < priority (mem n)))) \<and>
    chain_wf (nb_prio mem) (snd (notifier_chain_register mem nl n))"
proof (intro conjI impI)
  assume "n \<in> set nl"
  with assms show "notifier_chain_register mem nl n = (- EEXIST, nl)"
    by (rule register_member)
next
  let ?P = "\<lambda>x. priority (mem n) \<le> priority (mem x)"
  assume "n \<notin> set nl"
  then have "notifier_chain_register mem nl n = (0, takeWhile ?P nl @ n # dropWhile ?P nl)"
    by (rule register_new)
  moreover have "x \<in> set (dropWhile ?P nl) \<Longrightarrow> priority (mem x) < priority (mem n)" for x
    using assms by (induction nl) (force split: if_splits)+
  ultimately show "\<exists>before after. nl = before @ after \<and>
       notifier_chain_register mem nl n = (0, before @ n # after) \<and>
       (\<forall>x \<in> set before. priority (mem n) \<le> priority (mem x)) \<and>
       (\<forall>x \<in> set after. priority (mem x) < priority (mem n))"
    by (intro exI [of _ "takeWhile ?P nl"] exI [of _ "dropWhile ?P nl"])
      (auto dest: set_takeWhileD)
next
  show "chain_wf (nb_prio mem) (snd (notifier_chain_register mem nl n))"
    using assms by (rule register_wf)
qed

theorem register_correct_witness:
  "chain_wf (nb_prio (logged (\<lambda>_ _. 0) int)) [7, 5, 3] \<and>
   notifier_chain_register (logged (\<lambda>_ _. 0) int) [7, 5, 3] 5 = (- EEXIST, [7, 5, 3])"
proof -
  have wf: "chain_wf (nb_prio (logged (\<lambda>_ _. 0) int)) [7, 5, 3]"
    by (simp add: logged_def)
  show ?thesis using wf register_correct [OF wf, of 5] by simp
qed



end
