(* ===== verification/ResourceTree.thy ===== *)
theory ResourceTree
  imports Prelude "HOL-Library.Multiset"
begin

text \<open>
  The resource tree of \<open>kernel/src/driver/base/resource.c\<close> and
  \<open>kernel/include/linux/ioport.h\<close>: the data, the traversal order, and the operations that
  link and unlink resources (\<open>__request_resource\<close>, \<open>__release_resource\<close>,
  \<open>__insert_resource\<close> and the functions built on them).

  A C resource points to its parent, its next sibling and its first child.  Here a resource
  owns the list of its children in sibling order; the parent is the node above.  The address
  \<open>r_ptr\<close> keeps the identity the sources compare.  \<open>resource_size_t\<close> is 32 bits wide, as
  \<open>lib/include/linux/types.h\<close> selects in the shipped configuration
  (\<open>CONFIG_PHYS_ADDR_T_64BIT\<close> is not set).  A write-locked section is one definition.
\<close>

section \<open>Data\<close>

type_synonym resource_size_t = u32

record res_attr =
  r_name :: string
  r_start :: resource_size_t
  r_end :: resource_size_t
  r_flags :: u64
  r_desc :: u64

datatype resource = Res (r_ptr: addr) (r_attr: res_attr) (child: "resource list")

abbreviation rstart :: "resource \<Rightarrow> resource_size_t" where "rstart r \<equiv> r_start (r_attr r)"
abbreviation rend :: "resource \<Rightarrow> resource_size_t" where "rend r \<equiv> r_end (r_attr r)"
abbreviation rflags :: "resource \<Rightarrow> u64" where "rflags r \<equiv> r_flags (r_attr r)"
abbreviation rdesc :: "resource \<Rightarrow> u64" where "rdesc r \<equiv> r_desc (r_attr r)"

primrec set_child :: "resource list \<Rightarrow> resource \<Rightarrow> resource" where
  "set_child cs (Res p a _) = Res p a cs"

primrec set_attr :: "res_attr \<Rightarrow> resource \<Rightarrow> resource" where
  "set_attr a (Res p _ cs) = Res p a cs"

definition IORESOURCE_TYPE_BITS :: u64 where "IORESOURCE_TYPE_BITS = 0x00001f00"
definition IORESOURCE_EXT_TYPE_BITS :: u64 where "IORESOURCE_EXT_TYPE_BITS = 0x01000000"
definition IORESOURCE_MEM :: u64 where "IORESOURCE_MEM = 0x00000200"
definition IORESOURCE_SIZEALIGN :: u64 where "IORESOURCE_SIZEALIGN = 0x00040000"
definition IORESOURCE_STARTALIGN :: u64 where "IORESOURCE_STARTALIGN = 0x00080000"
definition IORESOURCE_MUXED :: u64 where "IORESOURCE_MUXED = 0x00400000"
definition IORESOURCE_SYSRAM :: u64 where "IORESOURCE_SYSRAM = 0x01000000"
definition IORESOURCE_EXCLUSIVE :: u64 where "IORESOURCE_EXCLUSIVE = 0x08000000"
definition IORESOURCE_UNSET :: u64 where "IORESOURCE_UNSET = 0x20000000"
definition IORESOURCE_BUSY :: u64 where "IORESOURCE_BUSY = 0x80000000"
definition IORESOURCE_SYSTEM_RAM :: u64 where "IORESOURCE_SYSTEM_RAM = IORESOURCE_MEM OR IORESOURCE_SYSRAM"
definition IORES_DESC_NONE :: u64 where "IORES_DESC_NONE = 0"

lemmas ioresource_defs =
  IORESOURCE_TYPE_BITS_def IORESOURCE_EXT_TYPE_BITS_def IORESOURCE_MEM_def IORESOURCE_SIZEALIGN_def
  IORESOURCE_STARTALIGN_def IORESOURCE_MUXED_def IORESOURCE_SYSRAM_def IORESOURCE_EXCLUSIVE_def
  IORESOURCE_UNSET_def IORESOURCE_BUSY_def IORESOURCE_SYSTEM_RAM_def IORES_DESC_NONE_def

definition resource_size :: "res_attr \<Rightarrow> resource_size_t" where
  "resource_size a = r_end a - r_start a + 1"

definition resource_type :: "res_attr \<Rightarrow> u64" where
  "resource_type a = r_flags a AND IORESOURCE_TYPE_BITS"

definition resource_ext_type :: "res_attr \<Rightarrow> u64" where
  "resource_ext_type a = r_flags a AND IORESOURCE_EXT_TYPE_BITS"

definition resource_contains :: "res_attr \<Rightarrow> res_attr \<Rightarrow> bool" where
  "resource_contains r1 r2 =
     (if resource_type r1 \<noteq> resource_type r2 then False
      else if r_flags r1 AND IORESOURCE_UNSET \<noteq> 0 \<or> r_flags r2 AND IORESOURCE_UNSET \<noteq> 0 then False
      else r_start r1 \<le> r_start r2 \<and> r_end r1 \<ge> r_end r2)"

definition resource_overlaps :: "res_attr \<Rightarrow> res_attr \<Rightarrow> bool" where
  "resource_overlaps r1 r2 \<longleftrightarrow> r_start r1 \<le> r_end r2 \<and> r_end r1 \<ge> r_start r2"

definition resource_alignment :: "res_attr \<Rightarrow> resource_size_t" where
  "resource_alignment a =
     (let bits = r_flags a AND (IORESOURCE_SIZEALIGN OR IORESOURCE_STARTALIGN)
      in if bits = IORESOURCE_SIZEALIGN then resource_size a
         else if bits = IORESOURCE_STARTALIGN then r_start a
         else 0)"

section \<open>Traversal\<close>

text \<open>
  A pointer \<open>p\<close> into the tree that the traversal functions move is a cursor: \<open>p\<close> and its
  following siblings, then the same for its parent, its grandparent and so on up to the root.
  The null pointer is the empty cursor.
\<close>

type_synonym cursor = "resource list list"

fun next_resource_skip_children :: "cursor \<Rightarrow> cursor" where
  "next_resource_skip_children ((p # sibling) # parent) =
     (if sibling = [] then next_resource_skip_children parent else sibling # parent)"
| "next_resource_skip_children _ = []"

fun next_resource :: "cursor \<Rightarrow> cursor" where
  "next_resource ((p # sibling) # parent) =
     (if child p \<noteq> [] then child p # (p # sibling) # parent
      else next_resource_skip_children ((p # sibling) # parent))"
| "next_resource _ = []"

text \<open>The start of every traversal, \<open>p = root->child\<close>.\<close>

definition first_child :: "resource \<Rightarrow> cursor" where
  "first_child root = (if child root = [] then [] else [child root, [root]])"

section \<open>Linking and unlinking\<close>

text \<open>The loop of \<open>__request_resource\<close> over the children of the root.\<close>

fun request_children ::
  "resource_size_t \<Rightarrow> resource_size_t \<Rightarrow> resource \<Rightarrow> resource list \<Rightarrow> resource option \<times> resource list" where
  "request_children s e new [] = (None, [new])"
| "request_children s e new (tmp # sibling) =
     (if rstart tmp > e then (None, new # tmp # sibling)
      else if rend tmp < s
      then (case request_children s e new sibling of (c, sibling') \<Rightarrow> (c, tmp # sibling'))
      else (Some tmp, tmp # sibling))"

text \<open>\<open>__request_resource\<close>: the conflicting resource (null for success) and the new root.\<close>

definition raw_request_resource :: "resource \<Rightarrow> resource \<Rightarrow> resource option \<times> resource" where
  "raw_request_resource root new =
     (let s = rstart new; e = rend new
      in if e < s then (Some root, root)
         else if s < rstart root then (Some root, root)
         else if e > rend root then (Some root, root)
         else (case request_children s e new (child root) of (c, cs) \<Rightarrow> (c, set_child cs root)))"

definition request_resource_conflict :: "resource \<Rightarrow> resource \<Rightarrow> resource option \<times> resource" where
  "request_resource_conflict root new = raw_request_resource root new"

definition request_resource :: "resource \<Rightarrow> resource \<Rightarrow> int \<times> resource" where
  "request_resource root new =
     (case request_resource_conflict root new of
        (conflict, root') \<Rightarrow> (if conflict \<noteq> None then - EBUSY else 0, root'))"

text \<open>
  \<open>__release_resource\<close> on the child list of \<open>old->parent\<close>.  With \<open>release_child\<close> unset the
  children of the removed node take its place.
\<close>

fun release_children :: "addr \<Rightarrow> bool \<Rightarrow> resource list \<Rightarrow> int \<times> resource list" where
  "release_children old release_child [] = (- EINVAL, [])"
| "release_children old release_child (tmp # sibling) =
     (if r_ptr tmp = old
      then (if release_child \<or> child tmp = [] then (0, sibling) else (0, child tmp @ sibling))
      else (case release_children old release_child sibling of (ret, sibling') \<Rightarrow> (ret, tmp # sibling')))"

definition raw_release_resource :: "resource \<Rightarrow> addr \<Rightarrow> bool \<Rightarrow> int \<times> resource" where
  "raw_release_resource parent old release_child =
     (case release_children old release_child (child parent) of (ret, cs) \<Rightarrow> (ret, set_child cs parent))"

definition release_resource :: "resource \<Rightarrow> addr \<Rightarrow> int \<times> resource" where
  "release_resource parent old = raw_release_resource parent old True"

definition remove_resource :: "resource \<Rightarrow> addr \<Rightarrow> int \<times> resource" where
  "remove_resource parent old = raw_release_resource parent old False"

text \<open>
  \<open>__release_child_resources\<close>: the resource without children, and the resources that were
  below it, each unlinked and moved to offset 0 with its size kept.
\<close>

definition unplace :: "resource \<Rightarrow> resource" where
  "unplace tmp =
     (let size = resource_size (r_attr tmp)
      in Res (r_ptr tmp) ((r_attr tmp)\<lparr>r_start := 0, r_end := size - 1\<rparr>) [])"

fun released :: "resource list \<Rightarrow> resource list" where
  "released [] = []"
| "released (Res p a cs # sibling) = released cs @ unplace (Res p a []) # released sibling"

definition release_child_resources :: "resource \<Rightarrow> resource \<times> resource list" where
  "release_child_resources r = (set_child [] r, released (child r))"

definition lookup_resource :: "resource \<Rightarrow> resource_size_t \<Rightarrow> resource option" where
  "lookup_resource root s = find (\<lambda>res. rstart res = s) (child root)"

section \<open>Insertion below or above existing resources\<close>

text \<open>
  The second loop of \<open>__insert_resource\<close>, from the first conflicting child \<open>next\<close>: either
  a resource that overlaps the new one only in part, or the children to move below the new
  one and the siblings that stay.
\<close>

fun cover :: "resource \<Rightarrow> resource \<Rightarrow> resource list \<Rightarrow> resource + (resource list \<times> resource list)" where
  "cover new next sibling =
     (if rstart next < rstart new \<or> rend next > rend new then Inl next
      else (case sibling of
          [] \<Rightarrow> Inr ([next], [])
        | s # sibling' \<Rightarrow>
            (if rstart s > rend new then Inr ([next], s # sibling')
             else (case cover new s sibling' of
                 Inl c \<Rightarrow> Inl c
               | Inr (covered, rest) \<Rightarrow> Inr (next # covered, rest)))))"

declare cover.simps [simp del]

text \<open>
  One descent of the first loop: \<open>before\<close> are the children that end before the new resource,
  \<open>first\<close> is the conflicting one.
\<close>

fun split_child :: "addr \<Rightarrow> resource list \<Rightarrow> (resource list \<times> resource \<times> resource list) option" where
  "split_child p [] = None"
| "split_child p (c # cs) =
     (if r_ptr c = p then Some ([], c, cs)
      else map_option (\<lambda>(xs, y, ys). (c # xs, y, ys)) (split_child p cs))"

lemma split_child_Some:
  "split_child p cs = Some (xs, y, ys) \<Longrightarrow> cs = xs @ y # ys \<and> r_ptr y = p \<and> p \<notin> r_ptr ` set xs"
  by (induction cs arbitrary: xs) (auto split: if_splits)

lemma split_child_size [termination_simp]:
  "split_child p cs = Some (xs, y, ys) \<Longrightarrow> size y < Suc (size_list size cs)"
  by (drule split_child_Some) simp

function raw_insert_resource :: "resource \<Rightarrow> resource \<Rightarrow> resource option \<times> resource" where
  "raw_insert_resource parent new =
     (case raw_request_resource parent new of
        (None, parent') \<Rightarrow> (None, parent')
      | (Some first, _) \<Rightarrow>
          (if r_ptr first = r_ptr parent then (Some first, parent)
           else if r_ptr first = r_ptr new then (Some first, parent)
           else
             (case split_child (r_ptr first) (child parent) of
                None \<Rightarrow> (Some first, parent)
              | Some (before, f, sibling) \<Rightarrow>
                  (if rstart f > rstart new \<or> rend f < rend new \<or>
                      rstart f = rstart new \<and> rend f = rend new
                   then
                     (case cover new f sibling of
                        Inl c \<Rightarrow> (Some c, parent)
                      | Inr (covered, rest) \<Rightarrow>
                          (None, set_child (before @ set_child covered new # rest) parent))
                   else
                     (case raw_insert_resource f new of
                        (c, f') \<Rightarrow> (c, set_child (before @ f' # sibling) parent))))))"
  by pat_completeness auto
termination
proof (relation "measure (\<lambda>(parent, new). size parent)", goal_cases)
  case (2 parent new)
  then show ?case
    by (cases parent) (auto dest: split_child_size)
qed simp

declare raw_insert_resource.simps [simp del]

definition insert_resource_conflict :: "resource \<Rightarrow> resource \<Rightarrow> resource option \<times> resource" where
  "insert_resource_conflict parent new = raw_insert_resource parent new"

definition insert_resource :: "resource \<Rightarrow> resource \<Rightarrow> int \<times> resource" where
  "insert_resource parent new =
     (case insert_resource_conflict parent new of
        (conflict, parent') \<Rightarrow> (if conflict \<noteq> None then - EBUSY else 0, parent'))"

text \<open>
  The loop of \<open>insert_resource_expand_to_fit\<close>: the new resource grows over what it
  conflicts with until it fits or the root itself is the conflict.
\<close>

definition expand_over :: "resource \<Rightarrow> resource \<Rightarrow> resource" where
  "expand_over conflict new =
     set_attr ((r_attr new)\<lparr>
         r_start := (if rstart conflict < rstart new then rstart conflict else rstart new),
         r_end := (if rend conflict > rend new then rend conflict else rend new)\<rparr>) new"

partial_function (option) expand_loop :: "resource \<Rightarrow> resource \<Rightarrow> (resource \<times> resource) option" where
  "expand_loop root new =
     (case raw_insert_resource root new of
        (None, root') \<Rightarrow> Some (root', new)
      | (Some conflict, _) \<Rightarrow>
          (if r_ptr conflict = r_ptr root then Some (root, new)
           else expand_loop root (expand_over conflict new)))"

text \<open>\<open>linked\<close> is the test \<open>new->parent != NULL\<close>.\<close>

definition insert_resource_expand_to_fit ::
  "resource \<Rightarrow> bool \<Rightarrow> resource \<Rightarrow> (resource \<times> resource) option" where
  "insert_resource_expand_to_fit root linked new =
     (if linked then Some (root, new) else expand_loop root new)"

section \<open>Well-formed trees\<close>

text \<open>
  Siblings lie inside their parent's range, in address order and without overlap, and no range
  is empty.
\<close>

definition siblings_ok :: "resource_size_t \<Rightarrow> resource_size_t \<Rightarrow> resource list \<Rightarrow> bool" where
  "siblings_ok lo hi cs \<longleftrightarrow>
     (\<forall>c \<in> set cs. lo \<le> rstart c \<and> rend c \<le> hi \<and> rstart c \<le> rend c) \<and>
     sorted_wrt (\<lambda>x y. rend x < rstart y) cs"

fun wf_res :: "resource \<Rightarrow> bool" where
  "wf_res (Res p a cs) \<longleftrightarrow>
     r_start a \<le> r_end a \<and> siblings_ok (r_start a) (r_end a) cs \<and> (\<forall>c \<in> set cs. wf_res c)"

fun preorder :: "resource \<Rightarrow> resource list" where
  "preorder (Res p a cs) = Res p a cs # concat (map preorder cs)"

abbreviation below :: "resource \<Rightarrow> resource list" where
  "below r \<equiv> concat (map preorder (child r))"

definition ptrs :: "resource list \<Rightarrow> addr set" where
  "ptrs rs = r_ptr ` set rs"

lemma r_ptr_set_child [simp]: "r_ptr (set_child cs r) = r_ptr r"
  and r_attr_set_child [simp]: "r_attr (set_child cs r) = r_attr r"
  and child_set_child [simp]: "child (set_child cs r) = cs"
  and set_child_set_child [simp]: "set_child cs (set_child cs' r) = set_child cs r"
  and set_child_same [simp]: "child r = cs \<Longrightarrow> set_child cs r = r"
  by (cases r; auto)+

lemma set_attr_simps [simp]:
  "r_ptr (set_attr a r) = r_ptr r" "r_attr (set_attr a r) = a" "child (set_attr a r) = child r"
  by (cases r; simp)+

lemma wf_res_iff:
  "wf_res r \<longleftrightarrow> rstart r \<le> rend r \<and> siblings_ok (rstart r) (rend r) (child r) \<and> (\<forall>c \<in> set (child r). wf_res c)"
  by (cases r) simp

lemma wf_res_set_child [simp]:
  "wf_res (set_child cs r) \<longleftrightarrow> rstart r \<le> rend r \<and> siblings_ok (rstart r) (rend r) cs \<and> (\<forall>c \<in> set cs. wf_res c)"
  by (cases r) simp

lemma wf_res_range: "wf_res r \<Longrightarrow> rstart r \<le> rend r"
  and wf_res_siblings: "wf_res r \<Longrightarrow> siblings_ok (rstart r) (rend r) (child r)"
  and wf_res_child: "wf_res r \<Longrightarrow> c \<in> set (child r) \<Longrightarrow> wf_res c"
  by (cases r; simp)+

lemma wf_res_split:
  "wf_res r \<Longrightarrow> child r = xs \<Longrightarrow>
   rstart r \<le> rend r \<and> siblings_ok (rstart r) (rend r) xs \<and> (\<forall>c \<in> set xs. wf_res c)"
  by (cases r) auto

lemma siblings_ok_Nil [simp]: "siblings_ok lo hi []"
  by (simp add: siblings_ok_def)

lemma siblings_ok_Cons [simp]:
  "siblings_ok lo hi (c # cs) \<longleftrightarrow>
     lo \<le> rstart c \<and> rend c \<le> hi \<and> rstart c \<le> rend c \<and> (\<forall>d \<in> set cs. rend c < rstart d) \<and> siblings_ok lo hi cs"
  by (auto simp: siblings_ok_def)

lemma siblings_ok_append [simp]:
  "siblings_ok lo hi (xs @ ys) \<longleftrightarrow>
     siblings_ok lo hi xs \<and> siblings_ok lo hi ys \<and> (\<forall>x \<in> set xs. \<forall>y \<in> set ys. rend x < rstart y)"
  by (auto simp: siblings_ok_def sorted_wrt_append)

lemma siblings_okD:
  "siblings_ok lo hi cs \<Longrightarrow> c \<in> set cs \<Longrightarrow> lo \<le> rstart c \<and> rend c \<le> hi \<and> rstart c \<le> rend c"
  by (simp add: siblings_ok_def)

lemma siblings_ok_mono:
  "siblings_ok lo hi cs \<Longrightarrow> \<forall>c \<in> set cs. lo' \<le> rstart c \<and> rend c \<le> hi' \<Longrightarrow> siblings_ok lo' hi' cs"
  by (simp add: siblings_ok_def)

lemma preorder_self [simp]: "r \<in> set (preorder r)"
  by (cases r) simp

lemma preorder_eq: "preorder r = r # below r"
  by (cases r) simp

lemma preorder_inside: "wf_res r \<Longrightarrow> p \<in> set (preorder r) \<Longrightarrow> rstart r \<le> rstart p \<and> rend p \<le> rend r \<and> rstart p \<le> rend p"
proof (induction r rule: wf_res.induct)
  case (1 q a cs)
  then consider "p = Res q a cs" | c where "c \<in> set cs" "p \<in> set (preorder c)" by auto
  then show ?case
  proof cases
    case 2
    with 1 have "rstart c \<le> rstart p" "rend p \<le> rend c" "rstart p \<le> rend p" by auto
    moreover have "r_start a \<le> rstart c \<and> rend c \<le> r_end a"
      using 1(2) 2(1) siblings_okD [of "r_start a" "r_end a" cs c] by auto
    ultimately show ?thesis by (auto intro: order_trans)
  qed (use 1 in auto)
qed

section \<open>Requesting a resource\<close>

definition disjoint_from :: "resource_size_t \<Rightarrow> resource_size_t \<Rightarrow> resource \<Rightarrow> bool" where
  "disjoint_from s e c \<longleftrightarrow> rend c < s \<or> e < rstart c"

lemma request_children_None:
  assumes "siblings_ok lo hi cs" and "s \<le> e" and "\<forall>c \<in> set cs. disjoint_from s e c"
  shows "\<exists>xs ys. cs = xs @ ys \<and> request_children s e new cs = (None, xs @ new # ys) \<and>
    (\<forall>x \<in> set xs. rend x < s) \<and> (\<forall>y \<in> set ys. e < rstart y)"
  using assms
proof (induction cs)
  case Nil
  then show ?case by simp
next
  case (Cons c cs)
  show ?case
  proof (cases "rstart c > e")
    case True
    then have "\<forall>y \<in> set (c # cs). e < rstart y"
      using Cons.prems by (auto simp: siblings_ok_def)
    with True show ?thesis
      by (intro exI [of _ "[]"] exI [of _ "c # cs"]) simp
  next
    case False
    with Cons.prems have lt: "rend c < s"
      by (auto simp: disjoint_from_def)
    obtain xs ys where "cs = xs @ ys" "request_children s e new cs = (None, xs @ new # ys)"
      "\<forall>x \<in> set xs. rend x < s" "\<forall>y \<in> set ys. e < rstart y"
      using Cons by auto
    with False lt show ?thesis
      by (intro exI [of _ "c # xs"] exI [of _ ys]) simp
  qed
qed

lemma request_children_Some:
  assumes "siblings_ok lo hi cs" and "s \<le> e" and "\<exists>c \<in> set cs. \<not> disjoint_from s e c"
  shows "\<exists>xs c ys. cs = xs @ c # ys \<and> request_children s e new cs = (Some c, cs) \<and>
    (\<forall>x \<in> set xs. rend x < s) \<and> \<not> disjoint_from s e c"
  using assms
proof (induction cs)
  case Nil
  then show ?case by simp
next
  case (Cons c cs)
  show ?case
  proof (cases "disjoint_from s e c")
    case False
    then show ?thesis
      by (intro exI [of _ "[]"] exI [of _ c] exI [of _ cs]) (auto simp: disjoint_from_def)
  next
    case True
    with Cons.prems obtain d where d: "d \<in> set cs" "\<not> disjoint_from s e d" by auto
    with Cons.prems(1) have "rend c < rstart d" "rstart d \<le> e" "rstart c \<le> rend c"
      by (auto simp: disjoint_from_def)
    with True have lt: "rend c < s" "\<not> rstart c > e"
      by (auto simp: disjoint_from_def)
    obtain xs c' ys where "cs = xs @ c' # ys" "request_children s e new cs = (Some c', cs)"
      "\<forall>x \<in> set xs. rend x < s" "\<not> disjoint_from s e c'"
      using Cons d by auto
    with lt show ?thesis
      by (intro exI [of _ "c # xs"] exI [of _ c'] exI [of _ ys]) simp
  qed
qed

text \<open>When \<open>__request_resource\<close> can succeed: the range is not empty, in the root, and free.\<close>

definition fits :: "resource \<Rightarrow> resource \<Rightarrow> bool" where
  "fits root new \<longleftrightarrow> rstart new \<le> rend new \<and> rstart root \<le> rstart new \<and> rend new \<le> rend root \<and>
     (\<forall>c \<in> set (child root). disjoint_from (rstart new) (rend new) c)"

lemma raw_request_fits:
  assumes "wf_res root" and "fits root new"
  obtains xs ys where "child root = xs @ ys"
    and "raw_request_resource root new = (None, set_child (xs @ new # ys) root)"
    and "\<forall>x \<in> set xs. rend x < rstart new" and "\<forall>y \<in> set ys. rend new < rstart y"
proof -
  obtain xs ys where "child root = xs @ ys"
    "request_children (rstart new) (rend new) new (child root) = (None, xs @ new # ys)"
    "\<forall>x \<in> set xs. rend x < rstart new" "\<forall>y \<in> set ys. rend new < rstart y"
    using request_children_None [of "rstart root" "rend root" "child root" "rstart new" "rend new" new]
      assms wf_res_siblings [OF assms(1)] by (auto simp: fits_def)
  moreover from assms(2) this(2)
  have "raw_request_resource root new = (None, set_child (xs @ new # ys) root)"
    by (auto simp: raw_request_resource_def fits_def Let_def)
  ultimately show ?thesis using that by blast
qed

lemma raw_request_not_fits:
  assumes "wf_res root" and "\<not> fits root new"
  obtains (root) "raw_request_resource root new = (Some root, root)"
      and "rend new < rstart new \<or> rstart new < rstart root \<or> rend root < rend new"
    | (conflict) xs c ys where "child root = xs @ c # ys"
      and "raw_request_resource root new = (Some c, root)"
      and "\<forall>x \<in> set xs. rend x < rstart new" and "\<not> disjoint_from (rstart new) (rend new) c"
      and "rstart new \<le> rend new" and "rstart root \<le> rstart new" and "rend new \<le> rend root"
proof (cases "rend new < rstart new \<or> rstart new < rstart root \<or> rend root < rend new")
  case True
  then show ?thesis
    by (intro root) (auto simp: raw_request_resource_def Let_def)
next
  case False
  then have "\<exists>c \<in> set (child root). \<not> disjoint_from (rstart new) (rend new) c"
    using assms(2) by (auto simp: fits_def)
  then obtain xs c ys where "child root = xs @ c # ys"
    "request_children (rstart new) (rend new) new (child root) = (Some c, child root)"
    "\<forall>x \<in> set xs. rend x < rstart new" "\<not> disjoint_from (rstart new) (rend new) c"
    using request_children_Some [of "rstart root" "rend root" "child root" "rstart new" "rend new" new]
      wf_res_siblings [OF assms(1)] False by (auto simp: not_less)
  with False show ?thesis
    by (intro conflict) (auto simp: raw_request_resource_def Let_def not_less)
qed

lemma raw_request_wf [kept]:
  assumes "wf_res root" and "wf_res new"
  shows "wf_res (snd (raw_request_resource root new))"
proof (cases "fits root new")
  case True
  with assms obtain xs ys where "child root = xs @ ys"
    "raw_request_resource root new = (None, set_child (xs @ new # ys) root)"
    "\<forall>x \<in> set xs. rend x < rstart new" "\<forall>y \<in> set ys. rend new < rstart y"
    by (auto elim: raw_request_fits)
  moreover note wf_res_split [OF assms(1) this(1)]
  ultimately show ?thesis
    using assms(2) True by (auto simp: fits_def)
next
  case False
  with assms show ?thesis
    by (auto elim: raw_request_not_fits [OF assms(1)])
qed

section \<open>Inserting a resource\<close>

definition distinct_ptrs :: "resource \<Rightarrow> bool" where
  "distinct_ptrs r \<longleftrightarrow> distinct (map r_ptr (preorder r))"

definition fresh_in :: "resource \<Rightarrow> resource \<Rightarrow> bool" where
  "fresh_in new r \<longleftrightarrow> r_ptr new \<notin> r_ptr ` set (preorder r)"

lemma distinct_ptrs_child:
  assumes "distinct_ptrs r" and "child r = xs @ c # ys"
  shows "distinct_ptrs c" and "r_ptr c \<noteq> r_ptr r" and "r_ptr c \<notin> r_ptr ` set xs"
proof -
  from assms have d: "distinct (map r_ptr (r # concat (map preorder xs) @ preorder c @ concat (map preorder ys)))"
    by (simp add: distinct_ptrs_def preorder_eq [of r])
  then show "distinct_ptrs c"
    by (auto simp: distinct_ptrs_def)
  from d have "r_ptr r \<notin> r_ptr ` set (preorder c)"
    by auto
  then show "r_ptr c \<noteq> r_ptr r"
    by (metis imageI preorder_self)
  from d have "r_ptr ` set (concat (map preorder xs)) \<inter> r_ptr ` set (preorder c) = {}"
    by (simp add: Int_Un_distrib)
  moreover have "r_ptr ` set xs \<subseteq> r_ptr ` set (concat (map preorder xs))"
    using preorder_self by fastforce
  ultimately show "r_ptr c \<notin> r_ptr ` set xs"
    using preorder_self by blast
qed

lemma fresh_in_child:
  assumes "fresh_in new r" and "c \<in> set (child r)"
  shows "fresh_in new c" and "r_ptr c \<noteq> r_ptr new" and "r_ptr new \<noteq> r_ptr r"
proof -
  from assms have sub: "set (preorder c) \<subseteq> set (preorder r)"
    by (auto simp: preorder_eq [of r])
  with assms(1) show "fresh_in new c"
    by (auto simp: fresh_in_def)
  then show "r_ptr c \<noteq> r_ptr new"
    by (metis fresh_in_def imageI preorder_self)
  show "r_ptr new \<noteq> r_ptr r"
    using assms(1) by (metis fresh_in_def imageI preorder_self)
qed

lemma split_child_unique:
  "p = r_ptr c \<Longrightarrow> p \<notin> r_ptr ` set xs \<Longrightarrow> split_child p (xs @ c # ys) = Some (xs, c, ys)"
  by (induction xs) auto

lemma cover_Inr:
  "cover new f ys = Inr (cov, rest) \<Longrightarrow>
   f # ys = cov @ rest \<and> cov \<noteq> [] \<and> (\<forall>c \<in> set cov. rstart new \<le> rstart c \<and> rend c \<le> rend new) \<and>
   (rest \<noteq> [] \<longrightarrow> rend new < rstart (hd rest))"
proof (induction ys arbitrary: f cov rest)
  case Nil
  then show ?case by (auto simp: cover.simps split: if_splits)
next
  case (Cons y ys)
  from Cons.prems show ?case
    by (auto simp: cover.simps [of new f] not_less split: if_splits sum.splits dest!: Cons.IH)
qed

lemma cover_Inl:
  "cover new f ys = Inl c \<Longrightarrow> siblings_ok lo hi (f # ys) \<Longrightarrow> \<not> disjoint_from (rstart new) (rend new) f \<Longrightarrow>
   c \<in> set (f # ys) \<and> \<not> disjoint_from (rstart new) (rend new) c \<and> (rstart c < rstart new \<or> rend new < rend c)"
proof (induction ys arbitrary: f)
  case Nil
  then show ?case by (auto simp: cover.simps split: if_splits)
next
  case (Cons y ys)
  show ?case
  proof (cases "rstart f < rstart new \<or> rend f > rend new")
    case True
    with Cons.prems show ?thesis by (simp add: cover.simps [of new f])
  next
    case False
    with Cons.prems have y: "rstart y \<le> rend new" and rec: "cover new y ys = Inl c"
      by (auto simp: cover.simps [of new f] split: if_splits sum.splits)
    moreover have "\<not> disjoint_from (rstart new) (rend new) y"
      using y Cons.prems(2,3) by (auto simp: disjoint_from_def)
    ultimately show ?thesis using Cons.IH [of y] Cons.prems(2) by auto
  qed
qed

lemma raw_insert_cases [consumes 4, case_names fits outside partial cover descend]:
  assumes wf: "wf_res parent" and d: "distinct_ptrs parent" and fr: "fresh_in new parent"
    and ne: "rstart new \<le> rend new"
  obtains xs ys where "child parent = xs @ ys"
      and "raw_insert_resource parent new = (None, set_child (xs @ new # ys) parent)"
      and "\<forall>x \<in> set xs. rend x < rstart new" and "\<forall>y \<in> set ys. rend new < rstart y"
      and "rstart parent \<le> rstart new" and "rend new \<le> rend parent"
    | "raw_insert_resource parent new = (Some parent, parent)"
      and "rstart new < rstart parent \<or> rend parent < rend new"
    | xs f ys c where "child parent = xs @ f # ys"
      and "raw_insert_resource parent new = (Some c, parent)" and "c \<in> set (f # ys)"
      and "\<not> disjoint_from (rstart new) (rend new) c" and "rstart c < rstart new \<or> rend new < rend c"
      and "rstart new < rstart c \<or> rend c < rend new"
    | xs cov rest where "child parent = xs @ cov @ rest"
      and "raw_insert_resource parent new = (None, set_child (xs @ set_child cov new # rest) parent)"
      and "\<forall>x \<in> set xs. rend x < rstart new"
      and "\<forall>c \<in> set cov. rstart new \<le> rstart c \<and> rend c \<le> rend new"
      and "\<forall>c \<in> set rest. rend new < rstart c"
      and "rstart parent \<le> rstart new" and "rend new \<le> rend parent"
    | xs f ys c f' where "child parent = xs @ f # ys"
      and "rstart f \<le> rstart new" and "rend new \<le> rend f"
      and "rstart f < rstart new \<or> rend new < rend f"
      and "raw_insert_resource f new = (c, f')"
      and "raw_insert_resource parent new = (c, set_child (xs @ f' # ys) parent)"
proof (cases "fits parent new")
  case True
  then show ?thesis
    by (rule raw_request_fits [OF wf])
      (use True in \<open>auto intro!: that(1) simp: raw_insert_resource.simps [of parent] fits_def\<close>)
next
  case False
  then show ?thesis
  proof (cases rule: raw_request_not_fits [OF wf False, case_names root conflict])
    case root
    with ne show ?thesis
      by (intro that(2)) (auto simp: raw_insert_resource.simps [of parent])
  next
    case (conflict xs f ys)
    note ch = distinct_ptrs_child [OF d conflict(1)]
    from conflict(1) have ptr: "r_ptr f \<noteq> r_ptr new"
      using fresh_in_child(2) [OF fr] by auto
    from split_child_unique [OF refl ch(3)]
    have split: "split_child (r_ptr f) (child parent) = Some (xs, f, ys)"
      by (simp add: conflict(1))
    note sib = wf_res_split [OF wf conflict(1)]
    show ?thesis
    proof (cases "rstart f > rstart new \<or> rend f < rend new \<or> rstart f = rstart new \<and> rend f = rend new")
      case descend: False
      obtain c f' where "raw_insert_resource f new = (c, f')" by fastforce
      with descend conflict(2) ptr ch(2) split show ?thesis
        by (intro that(5) [of xs f ys c f'] conflict(1))
          (auto simp: raw_insert_resource.simps [of parent] conflict(1))
    next
      case here: True
      show ?thesis
      proof (cases "cover new f ys")
        case (Inl c)
        with here conflict(2) ptr ch(2) split
        have ins: "raw_insert_resource parent new = (Some c, parent)"
          by (simp add: raw_insert_resource.simps [of parent])
        have c: "c \<in> set (f # ys)" "\<not> disjoint_from (rstart new) (rend new) c"
          "rstart c < rstart new \<or> rend new < rend c"
          using cover_Inl [OF Inl _ conflict(4)] sib by auto
        have "rstart new < rstart c \<or> rend c < rend new"
        proof (cases "c = f")
          case True
          with here c(3) show ?thesis by auto
        next
          case False
          with c(1) sib have "rend f < rstart c" by auto
          with conflict(4) show ?thesis by (auto simp: disjoint_from_def)
        qed
        with that(3) [OF conflict(1) ins c] show ?thesis by blast
      next
        case (Inr cr)
        obtain cov rest where cr: "cr = (cov, rest)" by fastforce
        note cov = cover_Inr [OF Inr [unfolded cr]]
        with sib have "siblings_ok (rstart parent) (rend parent) (cov @ rest)"
          by simp
        with cov have "\<forall>c \<in> set rest. rend new < rstart c"
          by (cases rest) fastforce+
        with that(4) [of xs cov rest] cov conflict here ptr ch(2) split cr Inr show ?thesis
          by (auto simp: raw_insert_resource.simps [of parent])
      qed
    qed
  qed
qed

text \<open>The resources of a tree with their attributes, without the nesting.\<close>

definition nodes :: "resource \<Rightarrow> (addr \<times> res_attr) multiset" where
  "nodes r = mset (map (\<lambda>x. (r_ptr x, r_attr x)) (preorder r))"

lemma nodes_set_child:
  "nodes (set_child cs r) = add_mset (r_ptr r, r_attr r) (\<Sum>\<^sub># (mset (map nodes cs)))"
proof -
  have "mset (map f (concat (map preorder cs))) = \<Sum>\<^sub># (mset (map (\<lambda>c. mset (map f (preorder c))) cs))"
    for f :: "resource \<Rightarrow> addr \<times> res_attr"
    by (induction cs) simp_all
  then show ?thesis
    by (simp add: nodes_def [abs_def] preorder_eq [of "set_child cs r"])
qed

lemma nodes_child: "nodes r = add_mset (r_ptr r, r_attr r) (\<Sum>\<^sub># (mset (map nodes (child r))))"
  using nodes_set_child [of "child r" r] by simp

lemma raw_insert_None:
  "raw_insert_resource parent new = (None, parent') \<Longrightarrow>
   wf_res parent \<Longrightarrow> distinct_ptrs parent \<Longrightarrow> fresh_in new parent \<Longrightarrow> rstart new \<le> rend new \<Longrightarrow>
   child new = [] \<Longrightarrow>
   wf_res parent' \<and> r_ptr parent' = r_ptr parent \<and> r_attr parent' = r_attr parent \<and>
   nodes parent' = add_mset (r_ptr new, r_attr new) (nodes parent)"
proof (induction parent arbitrary: parent' rule: measure_induct_rule [of size])
  case (less parent)
  from less.prems(2-5) show ?case
  proof (cases rule: raw_insert_cases)
    case (fits xs ys)
    with less.prems wf_res_split [OF less.prems(2) fits(1)] show ?thesis
      by (auto simp: nodes_set_child nodes_child [of parent] nodes_child [of new] wf_res_iff [of new])
  next
    case outside
    with less.prems show ?thesis by simp
  next
    case partial
    with less.prems show ?thesis by simp
  next
    case (cover xs cov rest)
    with less.prems wf_res_split [OF less.prems(2) cover(1)] show ?thesis
      by (auto simp: nodes_set_child nodes_child [of parent] intro: siblings_ok_mono)
  next
    case (descend xs f ys c f')
    note sp = wf_res_split [OF less.prems(2) descend(1)]
    have "size f < size parent"
      using descend(1) by (cases parent) simp
    moreover have "fresh_in new f"
      using fresh_in_child(1) [OF less.prems(4)] descend(1) by simp
    ultimately have IH: "wf_res f' \<and> r_ptr f' = r_ptr f \<and> r_attr f' = r_attr f \<and>
        nodes f' = add_mset (r_ptr new, r_attr new) (nodes f)"
      using less descend sp distinct_ptrs_child(1) [OF less.prems(3) descend(1)] by auto
    with descend less.prems sp show ?thesis
      by (auto simp: nodes_set_child nodes_child [of parent])
  qed
qed

lemma raw_insert_Some:
  "raw_insert_resource parent new = (Some c, parent') \<Longrightarrow>
   wf_res parent \<Longrightarrow> distinct_ptrs parent \<Longrightarrow> fresh_in new parent \<Longrightarrow> rstart new \<le> rend new \<Longrightarrow>
   parent' = parent \<and>
   (c = parent \<and> (rstart new < rstart parent \<or> rend parent < rend new) \<or>
    c \<in> set (below parent) \<and> \<not> disjoint_from (rstart new) (rend new) c \<and>
    (rstart c < rstart new \<or> rend new < rend c) \<and> (rstart new < rstart c \<or> rend c < rend new))"
proof (induction parent arbitrary: parent' rule: measure_induct_rule [of size])
  case (less parent)
  from less.prems(2-5) show ?case
  proof (cases rule: raw_insert_cases)
    case (fits xs ys)
    with less.prems show ?thesis by simp
  next
    case outside
    with less.prems show ?thesis by auto
  next
    case (partial xs f ys d)
    then have "d \<in> set (below parent)"
      by (force intro: preorder_self)
    with partial less.prems show ?thesis by auto
  next
    case (cover xs cov rest)
    with less.prems show ?thesis by simp
  next
    case (descend xs f ys d f')
    note sp = wf_res_split [OF less.prems(2) descend(1)]
    have "size f < size parent"
      using descend(1) by (cases parent) simp
    moreover have "fresh_in new f"
      using fresh_in_child(1) [OF less.prems(4)] descend(1) by simp
    ultimately have "f' = f \<and> c \<in> set (below f) \<and> \<not> disjoint_from (rstart new) (rend new) c \<and>
        (rstart c < rstart new \<or> rend new < rend c) \<and> (rstart new < rstart c \<or> rend c < rend new)"
      using less descend sp distinct_ptrs_child(1) [OF less.prems(3) descend(1)] by fastforce
    moreover have "set (below f) \<subseteq> set (below parent)"
      using descend(1) by (auto simp: preorder_eq [of f])
    ultimately show ?thesis
      using descend less.prems by auto
  qed
qed

section \<open>Releasing a resource\<close>

lemma release_children_split:
  "split_child p cs = Some (xs, y, ys) \<Longrightarrow>
   release_children p rc cs = (0, xs @ (if rc then [] else child y) @ ys)"
  by (induction cs arbitrary: xs) (auto split: if_splits)

lemma release_children_absent:
  "p \<notin> r_ptr ` set cs \<Longrightarrow> release_children p rc cs = (- EINVAL, cs)"
  by (induction cs) auto

lemma split_child_None: "split_child p cs = None \<longleftrightarrow> p \<notin> r_ptr ` set cs"
  by (induction cs) auto

lemma siblings_ok_splice:
  assumes "siblings_ok lo hi (xs @ y # ys)" and "siblings_ok (rstart y) (rend y) cs"
  shows "siblings_ok lo hi (xs @ cs @ ys)"
proof -
  have "\<forall>c \<in> set cs. rstart y \<le> rstart c \<and> rend c \<le> rend y"
    using assms(2) by (auto dest: siblings_okD)
  moreover from this assms(1) have "siblings_ok lo hi cs"
    by (intro siblings_ok_mono [OF assms(2)]) (fastforce intro: order_trans)
  ultimately show ?thesis
    using assms by (auto intro: less_le_trans le_less_trans)
qed

lemma raw_release_wf [kept]:
  assumes "wf_res parent"
  shows "wf_res (snd (raw_release_resource parent old rc))"
proof (cases "split_child old (child parent)")
  case None
  then show ?thesis
    using assms by (simp add: raw_release_resource_def release_children_absent split_child_None)
next
  case (Some t)
  then obtain xs y ys where t: "split_child old (child parent) = Some (xs, y, ys)"
    by (cases t) auto
  from split_child_Some [OF t] have ch: "child parent = xs @ y # ys" by simp
  note sp = wf_res_split [OF assms ch]
  from sp have y: "siblings_ok (rstart y) (rend y) (child y)" "\<forall>c \<in> set (child y). wf_res c"
    using wf_res_siblings [of y] wf_res_child [of y] by auto
  show ?thesis
    using sp t y siblings_ok_splice [OF _ y(1), of "rstart parent" "rend parent" xs ys]
      siblings_ok_splice [of "rstart parent" "rend parent" xs y ys "[]"]
    by (auto simp: raw_release_resource_def release_children_split)
qed

section \<open>Properties of the tree operations\<close>

text \<open>
  C3: Requesting a resource succeeds exactly when its range is not empty, lies in the root and
  is disjoint from every child; the new resource then is one more child and the tree stays
  well-formed.  Otherwise the result is -EBUSY and the tree is unchanged.
\<close>
theorem request_resource_correct:
  assumes "wf_res root" and "wf_res new"
  shows "(fits root new \<longrightarrow> fst (request_resource root new) = 0 \<and>
      mset (child (snd (request_resource root new))) = add_mset new (mset (child root))) \<and>
    (\<not> fits root new \<longrightarrow> request_resource root new = (- EBUSY, root)) \<and>
    wf_res (snd (request_resource root new))"
proof -
  have wf: "wf_res (snd (request_resource root new))"
    using raw_request_wf [OF assms]
    by (simp add: request_resource_def request_resource_conflict_def case_prod_beta)
  show ?thesis
  proof (cases "fits root new")
    case True
    with assms(1) obtain xs ys where "child root = xs @ ys"
      "raw_request_resource root new = (None, set_child (xs @ new # ys) root)"
      by (rule raw_request_fits)
    with True wf show ?thesis
      by (simp add: request_resource_def request_resource_conflict_def)
  next
    case False
    then have "request_resource root new = (- EBUSY, root)"
      by (rule raw_request_not_fits [OF assms(1)])
        (simp_all add: request_resource_def request_resource_conflict_def)
    with wf False show ?thesis by simp
  qed
qed

abbreviation ex_attr :: "resource_size_t \<Rightarrow> resource_size_t \<Rightarrow> res_attr" where
  "ex_attr s e \<equiv> \<lparr>r_name = ''x'', r_start = s, r_end = e, r_flags = 0x200, r_desc = 0\<rparr>"

theorem request_resource_correct_witness:
  "request_resource (Res 1 (ex_attr 0 0xff) [Res 2 (ex_attr 0x10 0x1f) []]) (Res 3 (ex_attr 0x18 0x27) []) =
    (- EBUSY, Res 1 (ex_attr 0 0xff) [Res 2 (ex_attr 0x10 0x1f) []])"
  using request_resource_correct [of "Res 1 (ex_attr 0 0xff) [Res 2 (ex_attr 0x10 0x1f) []]"
      "Res 3 (ex_attr 0x18 0x27) []"]
  by (simp add: fits_def disjoint_from_def)



text \<open>
  Removing a resource moves its children back to where they were: when a resource was
  inserted as a child of \<open>parent\<close>, taking over the children it covers, removing it gives back
  the tree before the insertion.
\<close>
theorem insert_remove_roundtrip:
  assumes "wf_res parent" and "distinct_ptrs parent" and "fresh_in new parent"
    and "rstart new \<le> rend new" and "child new = []"
    and "insert_resource parent new = (0, parent')" and "r_ptr new \<in> r_ptr ` set (child parent')"
  shows "remove_resource parent' (r_ptr new) = (0, parent)"
proof -
  have ins: "raw_insert_resource parent new = (None, parent')"
    using assms(6) by (auto simp: insert_resource_def insert_resource_conflict_def split: prod.splits if_splits)
  have absent: "r_ptr new \<notin> r_ptr ` set (child parent)"
    using fresh_in_child(2) [OF assms(3)] by force
  from assms(1-4) show ?thesis
  proof (cases rule: raw_insert_cases)
    case (fits xs ys)
    with ins absent assms(5) show ?thesis
      using release_children_split [OF split_child_unique [of "r_ptr new" new xs ys], of False]
      by (auto simp: remove_resource_def raw_release_resource_def image_Un)
  next
    case (cover xs cov rest)
    with ins absent show ?thesis
      using release_children_split [OF split_child_unique [of "r_ptr new" "set_child cov new" xs rest], of False]
      by (auto simp: remove_resource_def raw_release_resource_def image_Un)
  next
    case (descend xs f ys c f')
    moreover from this have "r_ptr f' = r_ptr f"
      using raw_insert_None [of f new f'] ins assms wf_res_split [OF assms(1) descend(1)]
        distinct_ptrs_child(1) [OF assms(2) descend(1)] fresh_in_child(1) [OF assms(3)] by auto
    ultimately show ?thesis
      using ins absent assms(7) by auto
  qed (use ins in auto)
qed

theorem insert_remove_roundtrip_witness:
  "remove_resource (Res 1 (ex_attr 0 0xff) [Res 3 (ex_attr 0 0x7f) [Res 2 (ex_attr 0x10 0x1f) []]]) 3 =
    (0, Res 1 (ex_attr 0 0xff) [Res 2 (ex_attr 0x10 0x1f) []])"
proof -
  let ?p = "Res 1 (ex_attr 0 0xff) [Res 2 (ex_attr 0x10 0x1f) []]" and ?n = "Res 3 (ex_attr 0 0x7f) []"
  have "insert_resource ?p ?n =
      (0, Res 1 (ex_attr 0 0xff) [Res 3 (ex_attr 0 0x7f) [Res 2 (ex_attr 0x10 0x1f) []]])"
    by (simp add: insert_resource_def insert_resource_conflict_def raw_insert_resource.simps
        raw_request_resource_def cover.simps)
  with insert_remove_roundtrip [of ?p ?n] show ?thesis
    by (simp add: distinct_ptrs_def fresh_in_def)
qed

lemma expand_over_simps [simp]:
  "r_ptr (expand_over c new) = r_ptr new" "child (expand_over c new) = child new"
  "rstart (expand_over c new) = min (rstart c) (rstart new)"
  "rend (expand_over c new) = max (rend c) (rend new)"
  by (auto simp: expand_over_def min_def max_def)

lemma fresh_in_cong: "r_ptr new = r_ptr new' \<Longrightarrow> fresh_in new r \<Longrightarrow> fresh_in new' r"
  by (simp add: fresh_in_def)

lemma expand_loop_returns:
  assumes "wf_res root" and "distinct_ptrs root" and "fresh_in new root"
    and "rstart new \<le> rend new" and "child new = []"
  shows "\<exists>root' new'. expand_loop root new = Some (root', new') \<and>
    r_ptr new' = r_ptr new \<and> rstart new' \<le> rstart new \<and> rend new \<le> rend new' \<and>
    (root' = root \<and> (rstart new' < rstart root \<or> rend root < rend new') \<or>
     wf_res root' \<and> r_attr root' = r_attr root \<and> nodes root' = add_mset (r_ptr new', r_attr new') (nodes root))"
  using assms(3-5)
proof (induction new rule: measure_induct_rule [of "\<lambda>new. unat (rstart new) + (2 ^ 32 - unat (rend new))"])
  case (less new)
  obtain c root' where ins: "raw_insert_resource root new = (c, root')" by fastforce
  show ?case
  proof (cases c)
    case None
    with ins raw_insert_None [of root new root'] assms(1,2) less.prems show ?thesis
      by (auto simp: expand_loop.simps [of root new])
  next
    case (Some d)
    note d = raw_insert_Some [OF ins [unfolded Some] assms(1,2) less.prems(1,2)]
    show ?thesis
    proof (cases "r_ptr d = r_ptr root")
      case True
      from assms(2) have "r_ptr root \<notin> r_ptr ` set (below root)"
        by (simp add: distinct_ptrs_def preorder_eq [of root])
      with True have "d \<notin> set (below root)"
        by (metis imageI)
      with d True ins Some show ?thesis
        by (auto simp: expand_loop.simps [of root new])
    next
      case False
      let ?new = "expand_over d new"
      from d False have grow: "rstart d < rstart new \<or> rend new < rend d" by auto
      have "unat (rend x) < 2 ^ 32" for x :: resource
        using unsigned_less [of "rend x", where ?'a = nat] by simp
      with grow have "unat (rstart ?new) + (2 ^ 32 - unat (rend ?new)) <
          unat (rstart new) + (2 ^ 32 - unat (rend new))"
        by (auto simp: min_def max_def word_less_nat_alt word_le_nat_alt not_le intro!: add_less_le_mono
            add_le_less_mono diff_less_mono2)
      from less.IH [OF this] less.prems have "\<exists>root' new'. expand_loop root ?new = Some (root', new') \<and>
          r_ptr new' = r_ptr new \<and> rstart new' \<le> rstart ?new \<and> rend ?new \<le> rend new' \<and>
          (root' = root \<and> (rstart new' < rstart root \<or> rend root < rend new') \<or>
           wf_res root' \<and> r_attr root' = r_attr root \<and> nodes root' = add_mset (r_ptr new', r_attr new') (nodes root))"
        by (auto simp: min_le_iff_disj le_max_iff_disj fresh_in_def)
      with False ins Some show ?thesis
        by (auto simp: expand_loop.simps [of root new])
    qed
  qed
qed

text \<open>
  The retry loop of \<open>insert_resource_expand_to_fit\<close> ends.  The resource it was given
  has then grown (or stayed) around its old range, and either it is a resource of a
  well-formed tree that has all the old resources, or its range has left the root, and the
  tree is unchanged.
\<close>
theorem expand_to_fit_returns:
  assumes "wf_res root" and "distinct_ptrs root" and "fresh_in new root"
    and "rstart new \<le> rend new" and "child new = []"
  shows "\<exists>root' new'. insert_resource_expand_to_fit root False new = Some (root', new') \<and>
    r_ptr new' = r_ptr new \<and> rstart new' \<le> rstart new \<and> rend new \<le> rend new' \<and>
    (root' = root \<and> (rstart new' < rstart root \<or> rend root < rend new') \<or>
     wf_res root' \<and> r_attr root' = r_attr root \<and> nodes root' = add_mset (r_ptr new', r_attr new') (nodes root))"
  using expand_loop_returns [OF assms] by (simp add: insert_resource_expand_to_fit_def)

theorem expand_to_fit_returns_witness:
  "\<exists>root' new'. insert_resource_expand_to_fit (Res 1 (ex_attr 0 0xff) [Res 2 (ex_attr 0x10 0x1f) []]) False
      (Res 3 (ex_attr 0x18 0x7f) []) = Some (root', new') \<and> r_ptr new' = 3 \<and> rstart new' \<le> 0x18"
  using expand_to_fit_returns [of "Res 1 (ex_attr 0 0xff) [Res 2 (ex_attr 0x10 0x1f) []]" "Res 3 (ex_attr 0x18 0x7f) []"]
  by (auto simp: distinct_ptrs_def fresh_in_def)

end
