(* ===== verification/ResourceAlloc.thy ===== *)
theory ResourceAlloc
  imports ResourceTree
begin

text \<open>
  Allocation in the resource tree of \<open>kernel/src/driver/base/resource.c\<close>: the search for a
  free slot (\<open>__find_resource\<close>), \<open>allocate_resource\<close>, \<open>reallocate_resource\<close> and
  \<open>adjust_resource\<close>.  The alignment callback \<open>alignf\<close> with its data is a function of the
  available range, the size and the alignment.
\<close>

section \<open>Finding a slot\<close>

record resource_constraint =
  c_min :: resource_size_t
  c_max :: resource_size_t
  c_align :: resource_size_t
  alignf :: "res_attr \<Rightarrow> resource_size_t \<Rightarrow> resource_size_t \<Rightarrow> resource_size_t"

definition ALIGN :: "resource_size_t \<Rightarrow> resource_size_t \<Rightarrow> resource_size_t" where
  "ALIGN x a = (x + (a - 1)) AND NOT (a - 1)"

definition simple_align_resource :: "res_attr \<Rightarrow> resource_size_t \<Rightarrow> resource_size_t \<Rightarrow> resource_size_t" where
  "simple_align_resource avail sz align = r_start avail"

definition resource_clip :: "res_attr \<Rightarrow> resource_size_t \<Rightarrow> resource_size_t \<Rightarrow> res_attr" where
  "resource_clip res lo hi =
     (let res1 = (if r_start res < lo then res\<lparr>r_start := lo\<rparr> else res)
      in if r_end res1 > hi then res1\<lparr>r_end := hi\<rparr> else res1)"

text \<open>
  The body of the loop between the computation of \<open>tmp\<close> and the label \<open>next\<close>, for
  \<open>tmp.end >= tmp.start\<close> and a clipped \<open>tmp\<close>: the allocated range, if it fits.
  (\<open>arch_remove_reservations\<close> is empty.)
\<close>

definition try_slot ::
  "res_attr \<Rightarrow> res_attr \<Rightarrow> resource_size_t \<Rightarrow> resource_constraint \<Rightarrow> res_attr option" where
  "try_slot tmp new sz con =
     (let avail = tmp\<lparr>r_start := ALIGN (r_start tmp) (c_align con),
                      r_flags := r_flags new AND NOT IORESOURCE_UNSET\<rparr>
      in if r_start avail \<ge> r_start tmp
         then
           (let s = alignf con avail sz (c_align con);
                alloc = avail\<lparr>r_start := s, r_end := s + sz - 1\<rparr>
            in if r_start alloc \<le> r_end alloc \<and> resource_contains avail alloc
               then Some (new\<lparr>r_start := r_start alloc, r_end := r_end alloc\<rparr>)
               else None)
         else None)"

text \<open>
  The loop of \<open>__find_resource\<close>.  The list is \<open>this\<close> and its following siblings, \<open>old\<close> the
  address of the resource to be reallocated (\<^const>\<open>None\<close> for a null pointer).
\<close>

fun find_loop ::
  "res_attr \<Rightarrow> addr option \<Rightarrow> res_attr \<Rightarrow> resource_size_t \<Rightarrow> resource_constraint \<Rightarrow>
   res_attr \<Rightarrow> resource list \<Rightarrow> res_attr option" where
  "find_loop root old new sz con tmp [] =
     (let tmp1 = tmp\<lparr>r_end := r_end root\<rparr>
      in if r_end tmp1 < r_start tmp1 then None
         else try_slot (resource_clip tmp1 (c_min con) (c_max con)) new sz con)"
| "find_loop root old new sz con tmp (this # sibling) =
     (let is_old = (Some (r_ptr this) = old);
          tmp1 = tmp\<lparr>r_end := (if is_old then rend this else rstart this - 1)\<rparr>;
          tmp2 = (if r_end tmp1 < r_start tmp1 then tmp1 else resource_clip tmp1 (c_min con) (c_max con));
          slot = (if r_end tmp1 < r_start tmp1 then None else try_slot tmp2 new sz con)
      in case slot of
           Some r \<Rightarrow> Some r
         | None \<Rightarrow>
             (if rend this = r_end root then None
              else find_loop root old new sz con
                     (if is_old then tmp2 else tmp2\<lparr>r_start := rend this + 1\<rparr>) sibling))"

text \<open>\<open>__find_resource\<close>: the new attributes (the code returns 0), or \<^const>\<open>None\<close> (-EBUSY).\<close>

definition raw_find_resource ::
  "resource \<Rightarrow> addr option \<Rightarrow> res_attr \<Rightarrow> resource_size_t \<Rightarrow> resource_constraint \<Rightarrow> res_attr option" where
  "raw_find_resource root old new sz con =
     (let tmp = new\<lparr>r_start := rstart root\<rparr>
      in case child root of
           [] \<Rightarrow> find_loop (r_attr root) old new sz con tmp []
         | this # sibling \<Rightarrow>
             (if rstart this = rstart root
              then find_loop (r_attr root) old new sz con
                     (tmp\<lparr>r_start := (if Some (r_ptr this) = old then rstart this else rend this + 1)\<rparr>) sibling
              else find_loop (r_attr root) old new sz con tmp (this # sibling)))"

definition find_resource ::
  "resource \<Rightarrow> res_attr \<Rightarrow> resource_size_t \<Rightarrow> resource_constraint \<Rightarrow> res_attr option" where
  "find_resource root new sz con = raw_find_resource root None new sz con"

section \<open>Allocating and reallocating\<close>

datatype 'a outcome = Return int 'a | Bug

text \<open>
  \<open>reallocate_resource\<close> for a resource \<open>old\<close> that is a child of \<open>root\<close>; \<^const>\<open>Bug\<close> is the
  failure of \<open>BUG_ON(conflict)\<close>, and also stands for an \<open>old\<close> that is not there.
\<close>

definition reallocate_resource ::
  "resource \<Rightarrow> addr \<Rightarrow> resource_size_t \<Rightarrow> resource_constraint \<Rightarrow> resource outcome" where
  "reallocate_resource root oldp newsize con =
     (case split_child oldp (child root) of
        None \<Rightarrow> Bug
      | Some (before, old, sibling) \<Rightarrow>
          (case raw_find_resource root (Some oldp) (r_attr old) newsize con of
             None \<Rightarrow> Return (- EBUSY) root
           | Some new \<Rightarrow>
               (let moved = (r_attr old)\<lparr>r_start := r_start new, r_end := r_end new\<rparr>
                in if resource_contains new (r_attr old)
                   then Return 0 (set_child (before @ set_attr moved old # sibling) root)
                   else if child old \<noteq> [] then Return (- EBUSY) root
                   else if resource_contains (r_attr old) new
                   then Return 0 (set_child (before @ set_attr moved old # sibling) root)
                   else
                     (case raw_release_resource root oldp True of (_, root1) \<Rightarrow>
                        (case raw_request_resource root1 (set_attr new old) of
                           (None, root2) \<Rightarrow> Return 0 root2
                         | (Some conflict, _) \<Rightarrow> Bug)))))"

text \<open>
  \<open>allocate_resource\<close>: \<open>linked\<close> is \<open>new->parent != NULL\<close>.  The result has the new root;
  the new resource itself is in it on success.
\<close>

definition allocate_resource ::
  "resource \<Rightarrow> bool \<Rightarrow> resource \<Rightarrow> resource_size_t \<Rightarrow> resource_size_t \<Rightarrow> resource_size_t \<Rightarrow> resource_size_t \<Rightarrow>
   (res_attr \<Rightarrow> resource_size_t \<Rightarrow> resource_size_t \<Rightarrow> resource_size_t) option \<Rightarrow> resource outcome" where
  "allocate_resource root linked new sz lo hi align alf =
     (let con = \<lparr>c_min = lo, c_max = hi, c_align = align,
                 alignf = (case alf of None \<Rightarrow> simple_align_resource | Some f \<Rightarrow> f)\<rparr>
      in if linked then reallocate_resource root (r_ptr new) sz con
         else
           (case find_resource root (r_attr new) sz con of
              None \<Rightarrow> Return (- EBUSY) root
            | Some a \<Rightarrow>
                (case raw_request_resource root (set_attr a new) of
                   (None, root') \<Rightarrow> Return 0 root'
                 | (Some conflict, _) \<Rightarrow> Return (- EBUSY) root)))"

section \<open>Adjusting\<close>

text \<open>
  \<open>__adjust_resource\<close> of the child at address \<open>resp\<close>; \<open>None\<close> is the null dereference of the
  search for the previous sibling when the resource is not a child of its parent.
\<close>

definition children_inside :: "resource_size_t \<Rightarrow> resource_size_t \<Rightarrow> resource \<Rightarrow> bool" where
  "children_inside s e res \<longleftrightarrow> (\<forall>tmp \<in> set (child res). \<not> (rstart tmp < s \<or> rend tmp > e))"

definition set_range :: "resource_size_t \<Rightarrow> resource_size_t \<Rightarrow> resource \<Rightarrow> resource" where
  "set_range s e res = set_attr ((r_attr res)\<lparr>r_start := s, r_end := e\<rparr>) res"

definition raw_adjust_resource ::
  "resource \<Rightarrow> addr \<Rightarrow> resource_size_t \<Rightarrow> resource_size_t \<Rightarrow> (int \<times> resource) option" where
  "raw_adjust_resource parent resp s sz =
     (let e = s + sz - 1
      in case split_child resp (child parent) of
           None \<Rightarrow> None
         | Some (before, res, sibling) \<Rightarrow>
             Some
               (if s < rstart parent \<or> e > rend parent then (- EBUSY, parent)
                else if sibling \<noteq> [] \<and> rstart (hd sibling) \<le> e then (- EBUSY, parent)
                else if before \<noteq> [] \<and> s \<le> rend (last before) then (- EBUSY, parent)
                else if \<not> children_inside s e res then (- EBUSY, parent)
                else (0, set_child (before @ set_range s e res # sibling) parent)))"

text \<open>The same for a resource without a parent.\<close>

definition raw_adjust_root ::
  "resource \<Rightarrow> resource_size_t \<Rightarrow> resource_size_t \<Rightarrow> int \<times> resource" where
  "raw_adjust_root res s sz =
     (let e = s + sz - 1
      in if \<not> children_inside s e res then (- EBUSY, res) else (0, set_range s e res))"

definition adjust_resource ::
  "resource option \<Rightarrow> resource \<Rightarrow> resource_size_t \<Rightarrow> resource_size_t \<Rightarrow> (int \<times> resource) option" where
  "adjust_resource parent res s sz =
     (case parent of
        None \<Rightarrow> Some (raw_adjust_root res s sz)
      | Some p \<Rightarrow> raw_adjust_resource p (r_ptr res) s sz)"

section \<open>Soundness of the search\<close>

text \<open>A range the constraints allow, in the root and free of every child but \<open>old\<close>.\<close>

definition slot ::
  "res_attr \<Rightarrow> resource list \<Rightarrow> addr option \<Rightarrow> resource_constraint \<Rightarrow> resource_size_t \<Rightarrow>
   resource_size_t \<Rightarrow> resource_size_t \<Rightarrow> bool" where
  "slot root cs old con sz s e \<longleftrightarrow>
     r_start root \<le> s \<and> e \<le> r_end root \<and> c_min con \<le> s \<and> e \<le> c_max con \<and> s \<le> e \<and> e = s + sz - 1 \<and>
     (\<forall>c \<in> set cs. Some (r_ptr c) \<noteq> old \<longrightarrow> disjoint_from s e c)"

lemma resource_clip_simps [simp]:
  "r_start (resource_clip t lo hi) = max (r_start t) lo"
  "r_end (resource_clip t lo hi) = min (r_end t) hi"
  by (auto simp: resource_clip_def Let_def max_def min_def)

lemma try_slot_Some:
  assumes "try_slot tmp new sz con = Some a"
  shows "a = new\<lparr>r_start := r_start a, r_end := r_end a\<rparr>" and "r_start tmp \<le> r_start a"
    and "r_end a \<le> r_end tmp" and "r_start a \<le> r_end a" and "r_end a = r_start a + sz - 1"
    and "alignf con = simple_align_resource \<Longrightarrow> r_start a = ALIGN (r_start tmp) (c_align con)"
  using assms
  by (auto simp: try_slot_def Let_def resource_contains_def simple_align_resource_def
      split: if_splits intro: order_trans)

lemma find_loop_sound:
  assumes "find_loop root old new sz con tmp this = Some a"
    and "siblings_ok (r_start root) (r_end root) (pre @ this)"
    and "\<forall>c \<in> set this. r_start root < rstart c"
    and "r_start root \<le> r_start tmp"
    and "\<forall>c \<in> set pre. Some (r_ptr c) \<noteq> old \<longrightarrow> rend c < r_start tmp"
  shows "slot root (pre @ this) old con sz (r_start a) (r_end a) \<and>
    a = new\<lparr>r_start := r_start a, r_end := r_end a\<rparr> \<and>
    (alignf con = simple_align_resource \<longrightarrow> (\<exists>x. r_start a = ALIGN x (c_align con)))"
  using assms
proof (induction this arbitrary: tmp pre)
  case Nil
  then have t: "try_slot (resource_clip (tmp\<lparr>r_end := r_end root\<rparr>) (c_min con) (c_max con)) new sz con = Some a"
    by (auto simp: Let_def split: if_splits)
  from try_slot_Some [OF t] Nil.prems show ?case
    by (auto simp: slot_def disjoint_from_def)
next
  case (Cons t sibling)
  define is_old where "is_old = (Some (r_ptr t) = old)"
  define tmp1 where "tmp1 = tmp\<lparr>r_end := (if is_old then rend t else rstart t - 1)\<rparr>"
  define tmp2 where
    "tmp2 = (if r_end tmp1 < r_start tmp1 then tmp1 else resource_clip tmp1 (c_min con) (c_max con))"
  define sl where "sl = (if r_end tmp1 < r_start tmp1 then None else try_slot tmp2 new sz con)"
  have eq: "find_loop root old new sz con tmp (t # sibling) =
     (case sl of Some r \<Rightarrow> Some r
      | None \<Rightarrow> (if rend t = r_end root then None
          else find_loop root old new sz con (if is_old then tmp2 else tmp2\<lparr>r_start := rend t + 1\<rparr>) sibling))"
    unfolding find_loop.simps Let_def is_old_def tmp1_def tmp2_def sl_def by (rule refl)
  from Cons.prems(3) have pred: "rstart t - 1 < rstart t"
    by (auto intro: word_pred_less)
  have later: "\<forall>c \<in> set sibling. rend t < rstart c" and range: "rstart t \<le> rend t" "rend t \<le> r_end root"
    "r_start root \<le> rstart t" "\<forall>c \<in> set pre. rend c < rstart t"
    using Cons.prems(2) by auto
  have ge: "r_start tmp \<le> r_start tmp2"
    by (simp add: tmp2_def tmp1_def)
  show ?case
  proof (cases sl)
    case (Some r)
    with Cons.prems(1) eq have r: "r = a" by simp
    with Some have t: "try_slot tmp2 new sz con = Some a" "\<not> r_end tmp1 < r_start tmp1"
      by (auto simp: sl_def split: if_splits)
    note a = try_slot_Some [OF t(1)]
    from t(2) have tmp2: "r_start tmp2 = max (r_start tmp) (c_min con)"
      "r_end tmp2 = min (if is_old then rend t else rstart t - 1) (c_max con)"
      by (simp_all add: tmp2_def tmp1_def)
    with a(3) have e: "r_end a \<le> (if is_old then rend t else rstart t - 1)" "r_end a \<le> c_max con"
      by simp_all
    have "r_end a \<le> r_end root"
      using e(1) pred range by (auto split: if_splits)
    moreover have "disjoint_from (r_start a) (r_end a) c" if "c \<in> set sibling" for c
      using that later e(1) pred range by (fastforce simp: disjoint_from_def split: if_splits)
    moreover have "\<not> is_old \<Longrightarrow> disjoint_from (r_start a) (r_end a) t"
      using e(1) pred by (auto simp: disjoint_from_def)
    moreover have "disjoint_from (r_start a) (r_end a) c" if "c \<in> set pre" "Some (r_ptr c) \<noteq> old" for c
      using that Cons.prems(5) a(2) ge by (auto simp: disjoint_from_def intro: less_le_trans)
    ultimately show ?thesis
      using a tmp2 e(2) Cons.prems(4) by (auto simp: slot_def is_old_def)
  next
    case None
    with Cons.prems(1) eq have ne: "rend t \<noteq> r_end root"
      and rec: "find_loop root old new sz con (if is_old then tmp2 else tmp2\<lparr>r_start := rend t + 1\<rparr>) sibling = Some a"
      by (auto split: if_splits)
    from ne range have lt: "rend t < rend t + 1"
      by (intro word_less_Suc [of _ "r_end root"]) auto
    have "slot root ((pre @ [t]) @ sibling) old con sz (r_start a) (r_end a) \<and>
        a = new\<lparr>r_start := r_start a, r_end := r_end a\<rparr> \<and>
        (alignf con = simple_align_resource \<longrightarrow> (\<exists>x. r_start a = ALIGN x (c_align con)))"
    proof (rule Cons.IH [OF rec])
      show "r_start root \<le> r_start (if is_old then tmp2 else tmp2\<lparr>r_start := rend t + 1\<rparr>)"
        using Cons.prems(4) ge range lt by auto
      show "\<forall>c \<in> set (pre @ [t]). Some (r_ptr c) \<noteq> old \<longrightarrow>
          rend c < r_start (if is_old then tmp2 else tmp2\<lparr>r_start := rend t + 1\<rparr>)"
        using Cons.prems(5) ge range lt by (auto simp: is_old_def intro: less_le_trans)
    qed (use Cons.prems in auto)
    then show ?thesis by simp
  qed
qed

section \<open>Completeness of the search\<close>

text \<open>An address is aligned when the bits below the alignment, a power of two, are clear.\<close>

definition aligned :: "resource_size_t \<Rightarrow> resource_size_t \<Rightarrow> bool" where
  "aligned a s \<longleftrightarrow> s AND (a - 1) = 0"

lemma ALIGN_aligned: "aligned a (ALIGN x a)"
  by (simp add: aligned_def ALIGN_def and.assoc)

lemma ALIGN_least:
  assumes "k < 32" and "x \<le> s" and "aligned (2 ^ k) s"
  shows "x \<le> ALIGN x (2 ^ k)" and "ALIGN x (2 ^ k) \<le> s"
proof -
  let ?m = "mask k :: resource_size_t"
  have m: "?m = 2 ^ k - 1"
    by (simp add: mask_eq_exp_minus_1)
  have um: "unat ?m = 2 ^ k - 1"
    using assms(1) by (simp add: unat_mask_word)
  from assms(3) have "take_bit k s = 0"
    by (simp add: aligned_def take_bit_eq_mask m)
  then have dvd: "2 ^ k dvd unat s"
    by (metis dvd_eq_mod_eq_0 unat_0 unat_take_bit)
  have N: "(2::nat) ^ k dvd 2 ^ 32"
    using assms(1) by (intro le_imp_power_dvd) simp
  have S: "unat s < 2 ^ 32"
    using unsigned_less [of s, where ?'a = nat] by simp
  note b = round_up_bounds [OF assms(2) [unfolded word_le_nat_alt] dvd N S]
  have "unat (x + ?m) = unat x + 2 ^ k - 1"
    using b(1) um by (subst unat_add_lem [THEN iffD1]) simp_all
  then have "unat (ALIGN x (2 ^ k)) = unat x + 2 ^ k - 1 - (unat x + 2 ^ k - 1) mod 2 ^ k"
    by (simp add: ALIGN_def unat_and_not_mask flip: m)
  with b(2,3) show "x \<le> ALIGN x (2 ^ k)" and "ALIGN x (2 ^ k) \<le> s"
    by (simp_all add: word_le_nat_alt)
qed

lemma try_slot_complete:
  assumes "c_align con = 2 ^ k" and "k < 32" and "alignf con = simple_align_resource"
    and "aligned (2 ^ k) s" and "r_start tmp \<le> s" and "s + sz - 1 \<le> r_end tmp" and "s \<le> s + sz - 1"
  shows "try_slot tmp new sz con \<noteq> None"
proof -
  let ?a = "ALIGN (r_start tmp) (2 ^ k)"
  note a = ALIGN_least [OF assms(2,5,4)]
  have e: "?a \<le> ?a + sz - 1" "?a + sz - 1 \<le> s + sz - 1"
    using a assms(7) by uint_arith+
  have "resource_contains (tmp\<lparr>r_start := ?a, r_flags := r_flags new AND NOT IORESOURCE_UNSET\<rparr>)
      (tmp\<lparr>r_flags := r_flags new AND NOT IORESOURCE_UNSET, r_start := ?a, r_end := ?a + sz - 1\<rparr>)"
    using order_trans [OF e(2) assms(6)]
    by (simp add: resource_contains_def resource_type_def and.assoc)
  with a e(1) show ?thesis
    by (simp add: try_slot_def Let_def assms(1,3) simple_align_resource_def)
qed

lemma find_loop_complete:
  assumes con: "c_align con = 2 ^ k" "k < 32" "alignf con = simple_align_resource"
    and cand: "aligned (2 ^ k) s" "c_min con \<le> s" "s + sz - 1 \<le> c_max con" "s \<le> s + sz - 1"
      "s + sz - 1 \<le> r_end root"
    and "\<forall>c \<in> set this. disjoint_from s (s + sz - 1) c" and "r_start tmp \<le> s"
    and "siblings_ok (r_start root) (r_end root) this"
  shows "find_loop root None new sz con tmp this \<noteq> None"
  using assms(9-)
proof (induction this arbitrary: tmp)
  case Nil
  have "try_slot (resource_clip (tmp\<lparr>r_end := r_end root\<rparr>) (c_min con) (c_max con)) new sz con \<noteq> None"
    using Nil cand by (intro try_slot_complete [OF con cand(1)]) auto
  moreover have "\<not> r_end root < r_start tmp"
    using Nil cand by (meson leD le_less_trans order_trans)
  ultimately show ?case by (simp add: Let_def)
next
  case (Cons t sibling)
  show ?case
  proof (cases "s + sz - 1 < rstart t")
    case True
    then have le: "s + sz - 1 \<le> rstart t - 1"
      by (rule word_less_pred)
    have "try_slot (resource_clip (tmp\<lparr>r_end := rstart t - 1\<rparr>) (c_min con) (c_max con)) new sz con \<noteq> None"
      using Cons.prems cand le by (intro try_slot_complete [OF con cand(1)]) auto
    moreover have "\<not> rstart t - 1 < r_start tmp"
      using Cons.prems(2) cand(4) le by (meson leD le_less_trans order_trans)
    ultimately show ?thesis by (auto simp: Let_def)
  next
    case False
    with Cons.prems(1) have lt: "rend t < s" by (simp add: disjoint_from_def)
    moreover have "s \<le> r_end root" using cand(4,5) by (rule order_trans)
    ultimately have "rend t \<noteq> r_end root" by auto
    moreover have "rend t + 1 \<le> s" using lt by (rule word_Suc_le)
    ultimately show ?thesis
      using Cons by (auto simp: Let_def split: option.splits)
  qed
qed

section \<open>The search as a whole\<close>

text \<open>
  A first child that starts with the root and ends at the top of the address space: the
  computation of \<open>this->end + 1\<close> wraps around there.
\<close>

definition wraps :: "resource \<Rightarrow> addr option \<Rightarrow> bool" where
  "wraps root old \<longleftrightarrow>
     (case child root of [] \<Rightarrow> False
      | c # _ \<Rightarrow> rstart c = rstart root \<and> Some (r_ptr c) \<noteq> old \<and> \<not> rend c < rend c + 1)"

lemma wraps_covers:
  assumes "wraps root old" and "rstart root \<le> s" and "s \<le> e"
  obtains c where "c \<in> set (child root)" and "Some (r_ptr c) \<noteq> old" and "\<not> disjoint_from s e c"
proof (cases "child root")
  case Nil
  with assms(1) show ?thesis by (simp add: wraps_def)
next
  case (Cons c cs)
  with assms have "Some (r_ptr c) \<noteq> old" and "rstart c = rstart root" and "\<not> rend c < rend c + 1"
    by (auto simp: wraps_def)
  moreover from this(3) have "s \<le> rend c" by (rule word_top)
  moreover have "rstart root \<le> e" using assms(2,3) by (rule order_trans)
  ultimately show ?thesis
    using that [of c] Cons by (simp add: disjoint_from_def not_less)
qed

lemma raw_find_sound:
  assumes wf: "wf_res root" and f: "raw_find_resource root old new sz con = Some a" and nw: "\<not> wraps root old"
  shows "slot (r_attr root) (child root) old con sz (r_start a) (r_end a) \<and>
    a = new\<lparr>r_start := r_start a, r_end := r_end a\<rparr> \<and>
    (alignf con = simple_align_resource \<longrightarrow> (\<exists>x. r_start a = ALIGN x (c_align con)))"
proof (cases "child root")
  case Nil
  with f show ?thesis
    using find_loop_sound [of "r_attr root" old new sz con "new\<lparr>r_start := rstart root\<rparr>" "[]" a "[]"]
    by (simp add: raw_find_resource_def)
next
  case (Cons this sibling)
  note sib = wf_res_split [OF wf Cons]
  show ?thesis
  proof (cases "rstart this = rstart root")
    case True
    let ?tmp = "new\<lparr>r_start := (if Some (r_ptr this) = old then rstart this else rend this + 1)\<rparr>"
    have lt: "Some (r_ptr this) \<noteq> old \<Longrightarrow> rend this < rend this + 1"
      using nw True by (simp add: wraps_def Cons)
    have "find_loop (r_attr root) old new sz con ?tmp sibling = Some a"
      using f True by (simp add: raw_find_resource_def Cons cong: if_cong)
    moreover have "\<forall>c \<in> set sibling. rstart root < rstart c"
      using sib True by (auto intro: le_less_trans)
    moreover have "rstart root \<le> r_start ?tmp"
      using sib True lt by auto
    ultimately show ?thesis
      using find_loop_sound [of "r_attr root" old new sz con ?tmp sibling a "[this]"] sib lt
      by (simp add: Cons)
  next
    case False
    let ?tmp = "new\<lparr>r_start := rstart root\<rparr>"
    have "find_loop (r_attr root) old new sz con ?tmp (this # sibling) = Some a"
      using f False by (simp add: raw_find_resource_def Cons del: find_loop.simps)
    moreover from sib False have "rstart root < rstart this"
      by (metis order_le_less siblings_ok_Cons)
    moreover from this sib have "\<forall>c \<in> set sibling. rstart root < rstart c"
      by (auto intro: less_trans le_less_trans)
    ultimately show ?thesis
      using find_loop_sound [of "r_attr root" old new sz con ?tmp "this # sibling" a "[]"] sib
      by (simp add: Cons del: find_loop.simps)
  qed
qed

lemma find_resource_complete:
  assumes wf: "wf_res root" and con: "c_align con = 2 ^ k" "k < 32" "alignf con = simple_align_resource"
    and cand: "aligned (2 ^ k) s" "slot (r_attr root) (child root) None con sz s (s + sz - 1)"
  shows "find_resource root new sz con \<noteq> None"
proof (cases "child root")
  case Nil
  have "find_loop (r_attr root) None new sz con (new\<lparr>r_start := rstart root\<rparr>) [] \<noteq> None"
    using cand by (intro find_loop_complete [OF con, of s]) (auto simp: slot_def Nil)
  then show ?thesis
    by (simp add: find_resource_def raw_find_resource_def Nil)
next
  case (Cons this sibling)
  note sib = wf_res_split [OF wf Cons]
  show ?thesis
  proof (cases "rstart this = rstart root")
    case True
    have "\<not> s + sz - 1 < rstart this"
      using cand(2) True by (auto simp: slot_def dest: order_trans)
    with cand(2) have "rend this < s"
      by (auto simp: slot_def Cons disjoint_from_def)
    then have "rend this + 1 \<le> s" by (rule word_Suc_le)
    then have "find_loop (r_attr root) None new sz con (new\<lparr>r_start := rend this + 1\<rparr>) sibling \<noteq> None"
      using cand sib by (intro find_loop_complete [OF con, of s]) (auto simp: slot_def Cons)
    with True show ?thesis
      by (simp add: find_resource_def raw_find_resource_def Cons)
  next
    case False
    have "find_loop (r_attr root) None new sz con (new\<lparr>r_start := rstart root\<rparr>) (this # sibling) \<noteq> None"
      using cand sib by (intro find_loop_complete [OF con, of s]) (auto simp: slot_def Cons)
    with False show ?thesis
      by (simp add: find_resource_def raw_find_resource_def Cons del: find_loop.simps)
  qed
qed

section \<open>Properties of allocation\<close>

abbreviation plain_constraint ::
  "resource_size_t \<Rightarrow> resource_size_t \<Rightarrow> resource_size_t \<Rightarrow> resource_constraint" where
  "plain_constraint lo hi align \<equiv>
     \<lparr>c_min = lo, c_max = hi, c_align = align, alignf = simple_align_resource\<rparr>"

text \<open>
  C5: Allocation is sound and complete.  Without an alignment callback and with a power of two
  as alignment, \<open>allocate_resource\<close> of an unlinked resource returns 0 exactly when an aligned
  range of the requested size exists that satisfies the minimum and maximum, lies in the root and
  overlaps no child; the tree then has the resource at such a range and is well-formed.
  Otherwise it returns -EBUSY and the tree is unchanged.
\<close>
theorem allocate_resource_correct:
  assumes wf: "wf_res root" and new: "child new = []" and k: "k < 32"
  shows "(\<exists>root' s e.
      allocate_resource root False new sz lo hi (2 ^ k) None = Return 0 root' \<and> wf_res root' \<and>
      slot (r_attr root) (child root) None (plain_constraint lo hi (2 ^ k)) sz s e \<and> aligned (2 ^ k) s \<and>
      mset (child root') = add_mset (set_range s e new) (mset (child root))) \<or>
    allocate_resource root False new sz lo hi (2 ^ k) None = Return (- EBUSY) root \<and>
    (\<nexists>s. aligned (2 ^ k) s \<and>
      slot (r_attr root) (child root) None (plain_constraint lo hi (2 ^ k)) sz s (s + sz - 1))"
proof (cases "find_resource root (r_attr new) sz (plain_constraint lo hi (2 ^ k))")
  case None
  with find_resource_complete [OF wf, of "plain_constraint lo hi (2 ^ k)" k _ sz "r_attr new"] k
  show ?thesis by (auto simp: allocate_resource_def)
next
  case (Some a)
  let ?new = "set_attr a new"
  show ?thesis
  proof (cases "fits root ?new")
    case True
    have "\<not> wraps root None"
    proof
      assume "wraps root None"
      then obtain c where "c \<in> set (child root)" "\<not> disjoint_from (r_start a) (r_end a) c"
        using True by (auto simp: fits_def elim: wraps_covers [of root None "r_start a" "r_end a"])
      with True show False by (auto simp: fits_def)
    qed
    with Some raw_find_sound [OF wf, of None "r_attr new" sz "plain_constraint lo hi (2 ^ k)" a]
    have a: "slot (r_attr root) (child root) None (plain_constraint lo hi (2 ^ k)) sz (r_start a) (r_end a)"
      "a = (r_attr new)\<lparr>r_start := r_start a, r_end := r_end a\<rparr>" "aligned (2 ^ k) (r_start a)"
      by (auto simp: find_resource_def ALIGN_aligned)
    then have "set_range (r_start a) (r_end a) new = ?new"
      by (simp add: set_range_def)
    moreover obtain xs ys where xy: "child root = xs @ ys"
      and r: "raw_request_resource root ?new = (None, set_child (xs @ ?new # ys) root)"
      by (rule raw_request_fits [OF wf True])
    moreover have "wf_res (set_child (xs @ ?new # ys) root)"
      using raw_request_wf [OF wf, of ?new] True new r
      by (simp add: wf_res_iff [of ?new] fits_def del: wf_res_set_child)
    ultimately show ?thesis
      using Some a by (intro disjI1 exI [of _ "set_child (xs @ ?new # ys) root"]
          exI [of _ "r_start a"] exI [of _ "r_end a"]) (simp add: allocate_resource_def del: wf_res_set_child)
  next
    case False
    have "wraps root None"
    proof (rule ccontr)
      assume "\<not> wraps root None"
      with Some raw_find_sound [OF wf, of None "r_attr new" sz "plain_constraint lo hi (2 ^ k)" a]
      have "slot (r_attr root) (child root) None (plain_constraint lo hi (2 ^ k)) sz (r_start a) (r_end a)"
        by (auto simp: find_resource_def)
      with False show False by (auto simp: fits_def slot_def)
    qed
    then have "\<not> slot (r_attr root) (child root) None (plain_constraint lo hi (2 ^ k)) sz s (s + sz - 1)" for s
      by (auto simp: slot_def elim: wraps_covers [of root None s "s + sz - 1"])
    moreover from False have "\<exists>c. raw_request_resource root ?new = (Some c, root)"
      by (rule raw_request_not_fits [OF wf]) auto
    ultimately show ?thesis
      using Some by (auto simp: allocate_resource_def)
  qed
qed

theorem allocate_resource_correct_witness:
  "\<exists>root'. allocate_resource (Res 1 (ex_attr 0 0xff) [Res 2 (ex_attr 0 0x1f) []]) False (Res 3 (ex_attr 0 0) [])
      0x20 0x10 0xff 0x40 None = Return 0 root' \<and> wf_res root'"
proof -
  let ?r = "Res 1 (ex_attr 0 0xff) [Res 2 (ex_attr 0 0x1f) []]"
  have "aligned (2 ^ 6) 0x40 \<and> slot (r_attr ?r) (child ?r) None (plain_constraint 0x10 0xff (2 ^ 6)) 0x20 0x40
      (0x40 + 0x20 - 1)"
    by (simp add: aligned_def slot_def disjoint_from_def)
  then show ?thesis
    using allocate_resource_correct [where root = ?r and new = "Res 3 (ex_attr 0 0) []" and k = 6
        and sz = "0x20" and lo = "0x10" and hi = "0xff"] by auto
qed

end
