(* ===== verification/ResourceWalk.thy ===== *)
theory ResourceWalk
  imports ResourceTree
begin

text \<open>
  Searching and walking the resource tree of \<open>kernel/src/driver/base/resource.c\<close>: the
  traversal with \<open>next_resource\<close>, \<open>find_next_iomem_res\<close>, the walks over the ranges that
  match, \<open>region_intersects\<close> and \<open>iomem_is_exclusive\<close>.  The tree \<open>iomem_resource\<close> is an
  argument.  A callback gets the range found and the state of its argument, and returns an
  error code and the new state.
\<close>

section \<open>The traversal visits every resource once, in pre-order\<close>

text \<open>What is left to visit: from the resource at the cursor, and after it without its children.\<close>

fun rest_of :: "cursor \<Rightarrow> resource list" where
  "rest_of ((p # sibling) # parent) = concat (map preorder sibling) @ rest_of parent"
| "rest_of _ = []"

fun todo :: "cursor \<Rightarrow> resource list" where
  "todo ((p # sibling) # parent) = preorder p @ rest_of ((p # sibling) # parent)"
| "todo _ = []"

lemma todo_skip: "todo (next_resource_skip_children c) = rest_of c"
proof (induction c rule: next_resource_skip_children.induct)
  case (1 p sibling parent)
  then show ?case by (cases sibling) simp_all
qed simp_all

lemma todo_next: "todo (next_resource ((p # sibling) # parent)) = below p @ rest_of ((p # sibling) # parent)"
  by (cases "child p") (simp_all add: todo_skip del: next_resource_skip_children.simps)

lemma todo_step: "todo ((p # sibling) # parent) = p # todo (next_resource ((p # sibling) # parent))"
  by (simp only: todo_next todo.simps preorder_eq [of p] append_Cons)

lemma todo_first: "todo (first_child root) = below root"
  by (cases "child root") (simp_all add: first_child_def)

lemma todo_next_size [termination_simp]:
  "length (todo (next_resource ((p # sibling) # parent))) < length (todo ((p # sibling) # parent))"
  by (simp only: todo_step) simp

lemma todo_skip_size [termination_simp]:
  "length (todo (next_resource_skip_children ((p # sibling) # parent))) < length (todo ((p # sibling) # parent))"
  by (simp only: todo_skip todo.simps preorder_eq [of p]) simp

section \<open>Searching\<close>

text \<open>The two conditions on the flags and the descriptor.\<close>

definition is_type :: "u64 \<Rightarrow> u64 \<Rightarrow> resource \<Rightarrow> bool" where
  "is_type flags desc p \<longleftrightarrow>
     (rflags p AND flags) = flags \<and> (desc = IORES_DESC_NONE \<or> desc = rdesc p)"

text \<open>The loop of \<open>find_next_iomem_res\<close>.\<close>

function find_next_loop ::
  "resource_size_t \<Rightarrow> resource_size_t \<Rightarrow> u64 \<Rightarrow> u64 \<Rightarrow> cursor \<Rightarrow> resource option" where
  "find_next_loop s e flags desc ((p # sibling) # parent) =
     (if rstart p > e then None
      else if rend p < s then find_next_loop s e flags desc (next_resource ((p # sibling) # parent))
      else if (rflags p AND flags) \<noteq> flags then find_next_loop s e flags desc (next_resource ((p # sibling) # parent))
      else if desc \<noteq> IORES_DESC_NONE \<and> desc \<noteq> rdesc p
      then find_next_loop s e flags desc (next_resource ((p # sibling) # parent))
      else Some p)"
| "find_next_loop s e flags desc [] = None"
| "find_next_loop s e flags desc ([] # parent) = None"
  by pat_completeness auto
termination
  by (relation "measure (\<lambda>(s, e, flags, desc, c). length (todo c))")
    (simp_all only: in_measure prod.case todo_next_size wf_measure)

declare next_resource.simps [simp del]

text \<open>
  \<open>find_next_iomem_res\<close>: the part of the resource found that is in the range, or the error.
  (The result pointer is never null in this file.)
\<close>

definition find_next_iomem_res ::
  "resource \<Rightarrow> resource_size_t \<Rightarrow> resource_size_t \<Rightarrow> u64 \<Rightarrow> u64 \<Rightarrow> int + res_attr" where
  "find_next_iomem_res iomem s e flags desc =
     (if s \<ge> e then Inl (- EINVAL)
      else
        (case find_next_loop s e flags desc (first_child iomem) of
           Some p \<Rightarrow> Inr \<lparr>r_name = [], r_start = max s (rstart p), r_end = min e (rend p),
                       r_flags = rflags p, r_desc = rdesc p\<rparr>
         | None \<Rightarrow> Inl (- ENODEV)))"

section \<open>Walking\<close>

partial_function (option) walk_loop ::
  "resource \<Rightarrow> (res_attr \<Rightarrow> 'w \<Rightarrow> int \<times> 'w) \<Rightarrow> resource_size_t \<Rightarrow> u64 \<Rightarrow> u64 \<Rightarrow>
   int \<Rightarrow> resource_size_t \<Rightarrow> 'w \<Rightarrow> (int \<times> 'w) option" where
  "walk_loop iomem func e flags desc ret s w =
     (if s < e
      then
        (case find_next_iomem_res iomem s e flags desc of
           Inl _ \<Rightarrow> Some (ret, w)
         | Inr res \<Rightarrow>
             (case func res w of
                (ret', w') \<Rightarrow>
                  (if ret' \<noteq> 0 then Some (ret', w')
                   else walk_loop iomem func e flags desc ret' (r_end res + 1) w')))
      else Some (ret, w))"

definition raw_walk_iomem_res_desc ::
  "resource \<Rightarrow> resource_size_t \<Rightarrow> resource_size_t \<Rightarrow> u64 \<Rightarrow> u64 \<Rightarrow> 'w \<Rightarrow>
   (res_attr \<Rightarrow> 'w \<Rightarrow> int \<times> 'w) \<Rightarrow> (int \<times> 'w) option" where
  "raw_walk_iomem_res_desc iomem s e flags desc arg func =
     walk_loop iomem func e flags desc (- EINVAL) s arg"


definition walk_system_ram_res ::
  "resource \<Rightarrow> u64 \<Rightarrow> u64 \<Rightarrow> 'w \<Rightarrow> (res_attr \<Rightarrow> 'w \<Rightarrow> int \<times> 'w) \<Rightarrow> (int \<times> 'w) option" where
  "walk_system_ram_res iomem s e arg func =
     raw_walk_iomem_res_desc iomem (ucast s) (ucast e) (IORESOURCE_SYSTEM_RAM OR IORESOURCE_BUSY)
       IORES_DESC_NONE arg func"

definition walk_mem_res ::
  "resource \<Rightarrow> u64 \<Rightarrow> u64 \<Rightarrow> 'w \<Rightarrow> (res_attr \<Rightarrow> 'w \<Rightarrow> int \<times> 'w) \<Rightarrow> (int \<times> 'w) option" where
  "walk_mem_res iomem s e arg func =
     raw_walk_iomem_res_desc iomem (ucast s) (ucast e) (IORESOURCE_MEM OR IORESOURCE_BUSY)
       IORES_DESC_NONE arg func"

text \<open>
  \<open>walk_system_ram_range\<close>, in page frame numbers.  \<open>PFN_UP\<close> and \<open>PFN_DOWN\<close> are computed
  on \<open>resource_size_t\<close>.
\<close>

definition PAGE_SHIFT :: nat where "PAGE_SHIFT = 12"
definition PAGE_SIZE :: "'a::len word" where "PAGE_SIZE = 4096"
definition PAGE_MASK :: "'a::len word" where "PAGE_MASK = PAGE_SIZE - 1"

definition PFN_UP :: "resource_size_t \<Rightarrow> resource_size_t" where
  "PFN_UP x = drop_bit PAGE_SHIFT (x + PAGE_SIZE - 1)"

definition PFN_DOWN :: "resource_size_t \<Rightarrow> resource_size_t" where
  "PFN_DOWN x = drop_bit PAGE_SHIFT x"

partial_function (option) ram_range_loop ::
  "resource \<Rightarrow> (u64 \<Rightarrow> u64 \<Rightarrow> 'w \<Rightarrow> int \<times> 'w) \<Rightarrow> resource_size_t \<Rightarrow> u64 \<Rightarrow>
   int \<Rightarrow> resource_size_t \<Rightarrow> 'w \<Rightarrow> (int \<times> 'w) option" where
  "ram_range_loop iomem func e flags ret s w =
     (if s < e
      then
        (case find_next_iomem_res iomem s e flags IORES_DESC_NONE of
           Inl _ \<Rightarrow> Some (ret, w)
         | Inr res \<Rightarrow>
             (let pfn = ucast (PFN_UP (r_start res)); end_pfn = ucast (PFN_DOWN (r_end res + 1));
                  (ret', w') = (if end_pfn > pfn then func pfn (end_pfn - pfn) w else (ret, w))
              in if ret' \<noteq> 0 then Some (ret', w')
                 else ram_range_loop iomem func e flags ret' (r_end res + 1) w'))
      else Some (ret, w))"

definition walk_system_ram_range ::
  "resource \<Rightarrow> u64 \<Rightarrow> u64 \<Rightarrow> 'w \<Rightarrow> (u64 \<Rightarrow> u64 \<Rightarrow> 'w \<Rightarrow> int \<times> 'w) \<Rightarrow> (int \<times> 'w) option" where
  "walk_system_ram_range iomem start_pfn nr_pages arg func =
     (let s = ucast (push_bit PAGE_SHIFT start_pfn);
          e = ucast (push_bit PAGE_SHIFT (start_pfn + nr_pages) - 1)
      in ram_range_loop iomem func e (IORESOURCE_SYSTEM_RAM OR IORESOURCE_BUSY) (- EINVAL) s arg)"

definition is_ram :: "u64 \<Rightarrow> u64 \<Rightarrow> unit \<Rightarrow> int \<times> unit" where
  "is_ram pfn nr_pages arg = (1, arg)"

definition page_is_ram :: "resource \<Rightarrow> u64 \<Rightarrow> bool option" where
  "page_is_ram iomem pfn = map_option (\<lambda>(ret, w). ret = 1) (walk_system_ram_range iomem pfn 1 () is_ram)"

section \<open>Intersection and exclusiveness\<close>

datatype region = REGION_INTERSECTS | REGION_DISJOINT | REGION_MIXED

fun intersect_loop :: "res_attr \<Rightarrow> u64 \<Rightarrow> u64 \<Rightarrow> nat \<Rightarrow> nat \<Rightarrow> resource list \<Rightarrow> nat \<times> nat" where
  "intersect_loop res flags desc type other [] = (type, other)"
| "intersect_loop res flags desc type other (p # sibling) =
     (if resource_overlaps (r_attr p) res
      then (if is_type flags desc p then intersect_loop res flags desc (type + 1) other sibling
            else intersect_loop res flags desc type (other + 1) sibling)
      else intersect_loop res flags desc type other sibling)"

definition raw_region_intersects :: "resource \<Rightarrow> resource_size_t \<Rightarrow> u64 \<Rightarrow> u64 \<Rightarrow> u64 \<Rightarrow> region" where
  "raw_region_intersects iomem s sz flags desc =
     (let res = \<lparr>r_name = [], r_start = s, r_end = ucast (ucast s + sz - 1), r_flags = 0, r_desc = 0\<rparr>;
          (type, other) = intersect_loop res flags desc 0 0 (child iomem)
      in if type = 0 then REGION_DISJOINT
         else if other = 0 then REGION_INTERSECTS
         else REGION_MIXED)"

definition region_intersects :: "resource \<Rightarrow> resource_size_t \<Rightarrow> u64 \<Rightarrow> u64 \<Rightarrow> u64 \<Rightarrow> region" where
  "region_intersects iomem s sz flags desc = raw_region_intersects iomem s sz flags desc"

text \<open>
  \<open>iomem_is_exclusive\<close>: \<open>strict\<close> is \<open>strict_iomem_checks\<close>, \<open>io_strict\<close> is
  \<open>IS_ENABLED(CONFIG_IO_STRICT_DEVMEM)\<close>.  The addresses of the resources are extended to 64 bits.
\<close>

function exclusive_loop :: "bool \<Rightarrow> bool \<Rightarrow> u64 \<Rightarrow> cursor \<Rightarrow> bool" where
  "exclusive_loop strict io_strict a ((p # sibling) # parent) =
     (let ex_ram = IORESOURCE_SYSTEM_RAM OR IORESOURCE_EXCLUSIVE
      in if ucast (rstart p) \<ge> a + PAGE_SIZE then False
         else if ucast (rend p) < a
         then exclusive_loop strict io_strict a (next_resource_skip_children ((p # sibling) # parent))
         else if rflags p AND ex_ram = ex_ram then True
         else if \<not> strict \<or> rflags p AND IORESOURCE_BUSY = 0
         then exclusive_loop strict io_strict a (next_resource ((p # sibling) # parent))
         else if io_strict \<or> rflags p AND IORESOURCE_EXCLUSIVE \<noteq> 0 then True
         else exclusive_loop strict io_strict a (next_resource ((p # sibling) # parent)))"
| "exclusive_loop strict io_strict a [] = False"
| "exclusive_loop strict io_strict a ([] # parent) = False"
  by pat_completeness auto
termination
  by (relation "measure (\<lambda>(strict, io_strict, a, c). length (todo c))")
    (simp_all only: in_measure prod.case todo_next_size todo_skip_size wf_measure)

definition iomem_is_exclusive :: "bool \<Rightarrow> bool \<Rightarrow> resource \<Rightarrow> u64 \<Rightarrow> bool" where
  "iomem_is_exclusive strict io_strict iomem a =
     exclusive_loop strict io_strict (a AND PAGE_MASK) (first_child iomem)"

section \<open>The order of the traversal\<close>

lemma concat_preorder_sorted:
  assumes "siblings_ok lo hi cs" "\<forall>c\<in>set cs. wf_res c"
    and "\<And>c. c \<in> set cs \<Longrightarrow> sorted_wrt (\<lambda>x y. rstart x \<le> rstart y) (preorder c)"
  shows "sorted_wrt (\<lambda>x y. rstart x \<le> rstart y) (concat (map preorder cs))"
  using assms
proof (induction cs)
  case (Cons c cs)
  have "rstart x \<le> rstart y" if "x \<in> set (preorder c)" "d \<in> set cs" "y \<in> set (preorder d)" for x y d
  proof -
    have "rstart x \<le> rend c" "rstart d \<le> rstart y"
      using that Cons.prems(2) preorder_inside [of c x] preorder_inside [of d y] by auto
    moreover have "rend c < rstart d" using Cons.prems(1) that by auto
    ultimately show ?thesis by auto
  qed
  with Cons show ?case by (auto simp: sorted_wrt_append)
qed simp

lemma preorder_sorted: "wf_res r \<Longrightarrow> sorted_wrt (\<lambda>x y. rstart x \<le> rstart y) (preorder r)"
proof (induction r rule: wf_res.induct)
  case (1 q a cs)
  have "sorted_wrt (\<lambda>x y. rstart x \<le> rstart y) (concat (map preorder cs))"
    by (rule concat_preorder_sorted [of "r_start a" "r_end a"]) (use 1 in auto)
  moreover have "r_start a \<le> rstart p" if "c \<in> set cs" "p \<in> set (preorder c)" for c p
    using preorder_inside [of "Res q a cs" p] 1(2) that by auto
  ultimately show ?case by auto
qed

lemma below_sorted: "wf_res r \<Longrightarrow> sorted_wrt (\<lambda>x y. rstart x \<le> rstart y) (below r)"
  using preorder_sorted [of r] by (simp add: preorder_eq [of r])

definition hit :: "resource_size_t \<Rightarrow> resource_size_t \<Rightarrow> u64 \<Rightarrow> u64 \<Rightarrow> resource \<Rightarrow> bool" where
  "hit s e flags desc p \<longleftrightarrow> rstart p \<le> e \<and> s \<le> rend p \<and> is_type flags desc p"

lemma find_next_loop_eq:
  "sorted_wrt (\<lambda>x y. rstart x \<le> rstart y) (todo c) \<Longrightarrow>
     find_next_loop s e flags desc c = find (hit s e flags desc) (todo c)"
proof (induction s e flags desc c rule: find_next_loop.induct)
  case (1 s e flags desc p sibling parent)
  let ?c = "(p # sibling) # parent"
  have sorted: "sorted_wrt (\<lambda>x y. rstart x \<le> rstart y) (todo (next_resource ?c))"
    "\<forall>q \<in> set (todo (next_resource ?c)). rstart p \<le> rstart q"
    using 1(4) unfolding todo_step by auto
  have unfold: "find_next_loop s e flags desc ?c =
      (if rstart p > e then None else if hit s e flags desc p then Some p
       else find_next_loop s e flags desc (next_resource ?c))"
    by (auto simp: hit_def is_type_def not_less not_le)
  show ?case
  proof (cases "rstart p > e")
    case True
    have "\<not> hit s e flags desc q" if "q \<in> set (todo (next_resource ?c))" for q
      using sorted(2) that True by (auto simp: hit_def)
    then have "find (hit s e flags desc) (todo (next_resource ?c)) = None"
      by (simp only: find_None_iff) blast
    moreover have "\<not> hit s e flags desc p" using True by (auto simp: hit_def)
    ultimately show ?thesis
      using True unfolding unfold todo_step by simp
  next
    case False
    have "find_next_loop s e flags desc (next_resource ?c) = find (hit s e flags desc) (todo (next_resource ?c))"
      if "\<not> hit s e flags desc p"
    proof -
      from that False consider "rend p < s" | "\<not> rend p < s" "rflags p AND flags \<noteq> flags"
        | "\<not> rend p < s" "rflags p AND flags = flags" "desc \<noteq> IORES_DESC_NONE \<and> desc \<noteq> rdesc p"
        unfolding hit_def is_type_def by force
      then show ?thesis
        using 1(1-3) False sorted(1) by cases simp_all
    qed
    with False show ?thesis unfolding unfold todo_step by simp
  qed
qed simp_all

text \<open>The search finds the first resource below the root that matches, in pre-order.\<close>

lemma find_next_eq:
  "wf_res iomem \<Longrightarrow> find_next_loop s e flags desc (first_child iomem) = find (hit s e flags desc) (below iomem)"
  using find_next_loop_eq [of "first_child iomem" s e flags desc] below_sorted [of iomem]
  by (simp add: todo_first)

lemma find_next_Inl:
  "wf_res iomem \<Longrightarrow> s < e \<Longrightarrow>
     (\<exists>err. find_next_iomem_res iomem s e flags desc = Inl err) \<longleftrightarrow> (\<forall>p\<in>set (below iomem). \<not> hit s e flags desc p)"
proof -
  assume "wf_res iomem" "s < e"
  then have "(\<exists>err. find_next_iomem_res iomem s e flags desc = Inl err) \<longleftrightarrow> find (hit s e flags desc) (below iomem) = None"
    by (simp add: find_next_iomem_res_def find_next_eq not_le split: option.split)
  then show ?thesis by (simp only: find_None_iff) blast
qed

lemma find_next_Inr:
  assumes "wf_res iomem" "s < e" "find_next_iomem_res iomem s e flags desc = Inr res"
  obtains p where "p \<in> set (below iomem)" "hit s e flags desc p"
    "\<forall>q\<in>set (below iomem). hit s e flags desc q \<longrightarrow> rstart p \<le> rstart q"
    "r_start res = max s (rstart p)" "r_end res = min e (rend p)" "r_flags res = rflags p" "r_desc res = rdesc p"
proof -
  from assms obtain p where p: "find (hit s e flags desc) (below iomem) = Some p"
    and res: "res = \<lparr>r_name = [], r_start = max s (rstart p), r_end = min e (rend p), r_flags = rflags p, r_desc = rdesc p\<rparr>"
    by (auto simp: find_next_iomem_res_def find_next_eq not_le split: option.splits if_splits)
  from p obtain i where i: "i < length (below iomem)" "hit s e flags desc (below iomem ! i)" "p = below iomem ! i"
    "\<forall>j<i. \<not> hit s e flags desc (below iomem ! j)"
    by (auto simp: find_Some_iff)
  have "rstart p \<le> rstart q" if "q \<in> set (below iomem)" "hit s e flags desc q" for q
  proof -
    from that(1) obtain j where j: "j < length (below iomem)" "q = below iomem ! j"
      by (metis in_set_conv_nth)
    with that i have "i \<le> j" by (metis not_le)
    with i j below_sorted [OF assms(1)] show ?thesis
      by (cases "i = j") (auto simp: sorted_wrt_iff_nth_less)
  qed
  with i(2,3) nth_mem [OF i(1)] res show ?thesis by (intro that [of p]) simp_all
qed

section \<open>The walk\<close>





section \<open>Exclusive pages\<close>

definition exclusive :: "bool \<Rightarrow> bool \<Rightarrow> resource \<Rightarrow> bool" where
  "exclusive strict io_strict p \<longleftrightarrow>
     rflags p AND (IORESOURCE_SYSTEM_RAM OR IORESOURCE_EXCLUSIVE) = IORESOURCE_SYSTEM_RAM OR IORESOURCE_EXCLUSIVE \<or>
     strict \<and> rflags p AND IORESOURCE_BUSY \<noteq> 0 \<and> (io_strict \<or> rflags p AND IORESOURCE_EXCLUSIVE \<noteq> 0)"

definition touches :: "u64 \<Rightarrow> resource \<Rightarrow> bool" where
  "touches a p \<longleftrightarrow> ucast (rstart p) < a + PAGE_SIZE \<and> a \<le> ucast (rend p)"

lemma ucast_mono: "ucast (x :: u32) \<le> (ucast y :: u64) \<longleftrightarrow> x \<le> y"
proof -
  have "unat (ucast z :: u64) = unat z" for z :: u32
    using unsigned_less [of z, where ?'a = nat] by (simp add: unsigned_ucast_eq take_bit_nat_eq_self)
  then show ?thesis by (simp add: word_le_nat_alt)
qed

lemma exclusive_loop_eq:
  assumes "sorted_wrt (\<lambda>x y. rstart x \<le> rstart y) (todo c)"
    and "\<forall>ps\<in>set c. \<forall>p\<in>set ps. wf_res p"
  shows "exclusive_loop strict io_strict a c \<longleftrightarrow> (\<exists>p\<in>set (todo c). touches a p \<and> exclusive strict io_strict p)"
  using assms
proof (induction strict io_strict a c rule: exclusive_loop.induct)
  case (1 strict io_strict a p sibling parent)
  let ?c = "(p # sibling) # parent" and ?E = "\<lambda>p. touches a p \<and> exclusive strict io_strict p"
  have sorted: "sorted_wrt (\<lambda>x y. rstart x \<le> rstart y) (todo (next_resource ?c))"
    "\<forall>q \<in> set (todo ?c). rstart p \<le> rstart q"
    using 1(4) unfolding todo_step by auto
  have sorted_skip: "sorted_wrt (\<lambda>x y. rstart x \<le> rstart y) (todo (next_resource_skip_children ?c))"
    using 1(4) by (simp only: todo_skip todo.simps sorted_wrt_append)
  have wf: "\<forall>ps\<in>set (next_resource_skip_children c). \<forall>p\<in>set ps. wf_res p"
    if "\<forall>ps\<in>set c. \<forall>p\<in>set ps. wf_res p" for c
    using that by (induction c rule: next_resource_skip_children.induct) auto
  have wf_next: "\<forall>ps\<in>set (next_resource ?c). \<forall>p\<in>set ps. wf_res p"
    using 1(5) wf [OF 1(5)] wf_res_child [of p] by (auto simp: next_resource.simps simp del: next_resource_skip_children.simps)
  have "wf_res p" using 1(5) by simp
  have IH_next: "exclusive_loop strict io_strict a (next_resource ?c) \<longleftrightarrow> (\<exists>q\<in>set (todo (next_resource ?c)). ?E q)"
    if "\<not> ucast (rstart p) \<ge> a + PAGE_SIZE" "\<not> ucast (rend p) < a" "\<not> exclusive strict io_strict p"
  proof (cases "\<not> strict \<or> rflags p AND IORESOURCE_BUSY = 0")
    case True
    show ?thesis by (rule 1(2)) (use that True sorted(1) wf_next in \<open>simp_all add: exclusive_def\<close>)
  next
    case False
    have "rflags p AND (IORESOURCE_SYSTEM_RAM OR IORESOURCE_EXCLUSIVE) \<noteq> IORESOURCE_SYSTEM_RAM OR IORESOURCE_EXCLUSIVE"
      and "\<not> (io_strict \<or> rflags p AND IORESOURCE_EXCLUSIVE \<noteq> 0)"
      using that(3) False unfolding exclusive_def by blast+
    then show ?thesis by (rule 1(3) [OF refl that(1,2) _ False _ sorted(1) wf_next])
  qed
  show ?case
  proof (cases "ucast (rstart p) \<ge> a + PAGE_SIZE")
    case True
    have "\<not> touches a q" if "q \<in> set (todo ?c)" for q
    proof -
      have "ucast (rstart p) \<le> (ucast (rstart q) :: u64)"
        unfolding ucast_mono using sorted(2) that by blast
      with True show ?thesis by (auto simp: touches_def)
    qed
    with True show ?thesis by (simp del: todo.simps)
  next
    case False
    show ?thesis
    proof (cases "ucast (rend p) < a")
      case True
      have "\<not> touches a q" if "q \<in> set (preorder p)" for q
      proof -
        have "(ucast (rend q) :: u64) \<le> ucast (rend p)"
          unfolding ucast_mono using preorder_inside [OF \<open>wf_res p\<close> that] by simp
        with True show ?thesis by (auto simp: touches_def)
      qed
      moreover have "exclusive_loop strict io_strict a ?c = exclusive_loop strict io_strict a (next_resource_skip_children ?c)"
        using False True by (simp del: next_resource_skip_children.simps)
      moreover have "exclusive_loop strict io_strict a (next_resource_skip_children ?c) \<longleftrightarrow>
          (\<exists>q\<in>set (todo (next_resource_skip_children ?c)). ?E q)"
        by (rule 1(1)) (use False True sorted_skip wf [OF 1(5)] in simp_all)
      ultimately show ?thesis unfolding todo_skip todo.simps by auto
    next
      case nl: False
      then have "touches a p" using False by (simp add: touches_def not_le not_less)
      moreover have "exclusive_loop strict io_strict a ?c =
          (if exclusive strict io_strict p then True else exclusive_loop strict io_strict a (next_resource ?c))"
        using False nl by (auto simp: exclusive_def Let_def)
      ultimately show ?thesis
        using IH_next [OF False nl] unfolding todo_step by auto
    qed
  qed
qed simp_all

section \<open>Properties\<close>

text \<open>
  The search for the next range.  With a non-empty range, \<open>find_next_iomem_res\<close> returns
  -ENODEV exactly when no resource below the root overlaps the range and has the flags and
  the descriptor; otherwise it returns the part, within the range, of such a resource with
  the lowest start.
\<close>

theorem find_next_iomem_res_correct:
  assumes "wf_res iomem" "s < e"
  shows "(\<forall>err. find_next_iomem_res iomem s e flags desc = Inl err \<longleftrightarrow>
        err = - ENODEV \<and> (\<forall>p\<in>set (below iomem). \<not> (rstart p \<le> e \<and> s \<le> rend p \<and> is_type flags desc p))) \<and>
     (\<forall>res. find_next_iomem_res iomem s e flags desc = Inr res \<longrightarrow>
        (\<exists>p\<in>set (below iomem). rstart p \<le> e \<and> s \<le> rend p \<and> is_type flags desc p \<and>
           r_start res = max s (rstart p) \<and> r_end res = min e (rend p) \<and>
           r_flags res = rflags p \<and> r_desc res = rdesc p \<and>
           (\<forall>q\<in>set (below iomem). rstart q \<le> e \<and> s \<le> rend q \<and> is_type flags desc q \<longrightarrow> rstart p \<le> rstart q)))"
    (is "?A \<and> ?B")
proof
  have Inl: "find_next_iomem_res iomem s e flags desc = Inl err \<Longrightarrow> err = - ENODEV" for err
    using assms(2) by (auto simp: find_next_iomem_res_def not_le split: option.splits if_splits)
  show ?A
    using find_next_Inl [OF assms, of flags desc, unfolded hit_def] Inl by (metis (no_types, lifting))
  show ?B
  proof (intro allI impI)
    fix res assume "find_next_iomem_res iomem s e flags desc = Inr res"
    then obtain p where "p \<in> set (below iomem)" "hit s e flags desc p"
      "\<forall>q\<in>set (below iomem). hit s e flags desc q \<longrightarrow> rstart p \<le> rstart q"
      "r_start res = max s (rstart p)" "r_end res = min e (rend p)" "r_flags res = rflags p" "r_desc res = rdesc p"
      by (rule find_next_Inr [OF assms])
    then show "\<exists>p\<in>set (below iomem). rstart p \<le> e \<and> s \<le> rend p \<and> is_type flags desc p \<and>
           r_start res = max s (rstart p) \<and> r_end res = min e (rend p) \<and>
           r_flags res = rflags p \<and> r_desc res = rdesc p \<and>
           (\<forall>q\<in>set (below iomem). rstart q \<le> e \<and> s \<le> rend q \<and> is_type flags desc q \<longrightarrow> rstart p \<le> rstart q)"
      unfolding hit_def by (intro bexI [of _ p]) simp_all
  qed
qed

abbreviation ex_iomem :: resource where
  "ex_iomem \<equiv> Res 1 (ex_attr 0 0xffffffff)
     [Res 2 (ex_attr 0x1000 0x1fff) [Res 3 (ex_attr 0x1800 0x18ff) []], Res 4 (ex_attr 0x4000 0x4fff) []]"

theorem find_next_iomem_res_correct_witness:
  "wf_res ex_iomem \<and> find_next_iomem_res ex_iomem 0x2000 0x3000 0 0 = Inl (- ENODEV)"
proof
  show wf: "wf_res ex_iomem" by simp
  show "find_next_iomem_res ex_iomem 0x2000 0x3000 0 0 = Inl (- ENODEV)"
    using find_next_iomem_res_correct [OF wf, of "0x2000" "0x3000" 0 0] by simp
qed




text \<open>
  C12: The traversal that skips the children of resources below the page is complete: on a
  well-formed tree \<open>iomem_is_exclusive\<close> decides whether some resource below the root touches
  the page and is exclusive.  But the page is computed with a \<open>PAGE_MASK\<close> that keeps the offset
  within a page instead of the page: the answer for an address is that for its offset.
\<close>

theorem iomem_is_exclusive_correct:
  assumes "wf_res iomem"
  shows "(iomem_is_exclusive strict io_strict iomem a \<longleftrightarrow>
       (\<exists>p\<in>set (below iomem). touches (a AND 0xfff) p \<and> exclusive strict io_strict p)) \<and>
     iomem_is_exclusive strict io_strict iomem a = iomem_is_exclusive strict io_strict iomem (a AND 0xfff)"
proof -
  have "\<forall>ps\<in>set (first_child iomem). \<forall>p\<in>set ps. wf_res p"
    using assms wf_res_child [OF assms] by (auto simp: first_child_def)
  moreover have "sorted_wrt (\<lambda>x y. rstart x \<le> rstart y) (todo (first_child iomem))"
    using below_sorted [OF assms] by (simp add: todo_first)
  ultimately show ?thesis
    by (simp add: iomem_is_exclusive_def exclusive_loop_eq todo_first PAGE_MASK_def PAGE_SIZE_def and.assoc
        del: set_concat)
qed

theorem iomem_is_exclusive_correct_witness:
  "\<not> iomem_is_exclusive True True (Res 1 (ex_attr 0 0xffffffff)
      [Res 2 ((ex_attr 0x10000000 0x1fffffff)\<lparr>r_flags := 0x89000200\<rparr>) []]) 0x10000000"
  using iomem_is_exclusive_correct [of "Res 1 (ex_attr 0 0xffffffff)
      [Res 2 ((ex_attr 0x10000000 0x1fffffff)\<lparr>r_flags := 0x89000200\<rparr>) []]" True True "0x10000000"]
  by (simp add: touches_def PAGE_SIZE_def)

end
