(* ===== verification/ResourceRegion.thy ===== *)
theory ResourceRegion
  imports ResourceTree
begin

text \<open>
  Busy regions in the resource tree of \<open>kernel/src/driver/base/resource.c\<close>:
  \<open>__request_region\<close>, \<open>__release_region\<close> and \<open>reserve_region_with_split\<close>.  The results of
  \<open>alloc_resource\<close> are arguments: an address, or \<^const>\<open>None\<close> when the allocation fails.
\<close>

section \<open>Requesting a region\<close>

text \<open>
  How a round of \<open>__request_region_locked\<close> ends: the resource is linked, -EBUSY, or a conflict
  with a muxed region, where the code drops the lock and then tries again.
\<close>

datatype region_status = Granted | Busy | Muxed

text \<open>
  The loop of \<open>__request_region_locked\<close>, as long as the lock is held: it moves to a
  conflicting child that is not busy.  \<open>flags\<close> are the bits of the \<open>int\<close> argument.
\<close>

definition region_res :: "resource \<Rightarrow> addr \<Rightarrow> string \<Rightarrow> resource_size_t \<Rightarrow> resource_size_t \<Rightarrow> u32 \<Rightarrow> resource" where
  "region_res parent p name s n flags =
     Res p \<lparr>r_name = name, r_start = s, r_end = s + n - 1,
            r_flags = resource_type (r_attr parent) OR resource_ext_type (r_attr parent) OR
                      (IORESOURCE_BUSY OR ucast flags),
            r_desc = rdesc parent\<rparr> []"

function raw_request_region_locked ::
  "resource \<Rightarrow> addr \<Rightarrow> string \<Rightarrow> resource_size_t \<Rightarrow> resource_size_t \<Rightarrow> u32 \<Rightarrow> region_status \<times> resource" where
  "raw_request_region_locked parent p name s n flags =
     (case raw_request_resource parent (region_res parent p name s n flags) of
        (None, parent') \<Rightarrow> (Granted, parent')
      | (Some conflict, _) \<Rightarrow>
          (if r_ptr conflict \<noteq> r_ptr parent \<and> rflags conflict AND IORESOURCE_BUSY = 0
           then
             (case split_child (r_ptr conflict) (child parent) of
                None \<Rightarrow> (Busy, parent)
              | Some (before, c, sibling) \<Rightarrow>
                  (case raw_request_region_locked c p name s n flags of
                     (st, c') \<Rightarrow> (st, set_child (before @ c' # sibling) parent)))
           else if rflags conflict AND ucast flags AND IORESOURCE_MUXED \<noteq> 0 then (Muxed, parent)
           else (Busy, parent)))"
  by pat_completeness auto
termination
proof (relation "measure (\<lambda>(parent, p, name, s, n, flags). size parent)", goal_cases)
  case (2 parent p name s n flags)
  then show ?case by (cases parent) (auto dest: split_child_size)
qed simp

declare raw_request_region_locked.simps [simp del]

text \<open>
  \<open>__request_region\<close> up to the first release of the lock: the region and the new tree.
  (\<open>revoke_iomem\<close> is empty.)
\<close>

definition raw_request_region ::
  "addr option \<Rightarrow> resource \<Rightarrow> resource_size_t \<Rightarrow> resource_size_t \<Rightarrow> string \<Rightarrow> u32 \<Rightarrow> region_status \<times> resource" where
  "raw_request_region mem parent s n name flags =
     (case mem of
        None \<Rightarrow> (Busy, parent)
      | Some p \<Rightarrow> raw_request_region_locked parent p name s n flags)"

section \<open>Releasing a region\<close>

text \<open>
  The loop of \<open>__release_region\<close> over a list of children; the result is the resource to free
  and the new list.
\<close>

fun release_loop :: "resource_size_t \<Rightarrow> resource_size_t \<Rightarrow> resource list \<Rightarrow> (addr \<times> resource list) option" where
  "release_loop s e [] = None"
| "release_loop s e (Res p a cs # sibling) =
     (if r_start a \<le> s \<and> r_end a \<ge> e
      then
        (if r_flags a AND IORESOURCE_BUSY = 0
         then map_option (\<lambda>(f, cs'). (f, Res p a cs' # sibling)) (release_loop s e cs)
         else if r_start a \<noteq> s \<or> r_end a \<noteq> e then None
         else Some (p, sibling))
      else map_option (\<lambda>(f, sibling'). (f, Res p a cs # sibling')) (release_loop s e sibling))"

text \<open>\<open>__release_region\<close>: the new tree, and the address that is freed (none after the warning).\<close>

definition raw_release_region :: "resource \<Rightarrow> resource_size_t \<Rightarrow> resource_size_t \<Rightarrow> addr option \<times> resource" where
  "raw_release_region parent s n =
     (case release_loop s (s + n - 1) (child parent) of
        None \<Rightarrow> (None, parent)
      | Some (f, cs) \<Rightarrow> (Some f, set_child cs parent))"

section \<open>Reserving around what is there\<close>

text \<open>
  The loop of \<open>__reserve_region_with_split\<close>; \<open>mem\<close> are the results of the allocations to come,
  \<open>next_res\<close> the part behind the conflict.  The result has the tree.
\<close>

definition reserve_res :: "string \<Rightarrow> u64 \<Rightarrow> addr \<Rightarrow> resource_size_t \<Rightarrow> resource_size_t \<Rightarrow> resource" where
  "reserve_res name type p s e =
     Res p \<lparr>r_name = name, r_start = s, r_end = e, r_flags = type OR IORESOURCE_BUSY, r_desc = IORES_DESC_NONE\<rparr> []"

partial_function (option) split_loop ::
  "string \<Rightarrow> u64 \<Rightarrow> addr option list \<Rightarrow> resource \<Rightarrow> resource \<Rightarrow> resource option \<Rightarrow> resource option" where
  "split_loop name type mem root res next_res =
     (case raw_request_resource root res of
        (None, root') \<Rightarrow>
          (case next_res of
             None \<Rightarrow> Some root'
           | Some nr \<Rightarrow> split_loop name type mem root' nr None)
      | (Some conflict, _) \<Rightarrow>
          (if rstart conflict \<le> rstart res \<and> rend conflict \<ge> rend res then Some root
           else if rstart conflict > rstart res
           then
             (let res1 = set_attr ((r_attr res)\<lparr>r_end := rstart conflict - 1\<rparr>) res
              in if rend conflict < rend res
                 then
                   (case mem of
                      Some p # mem' \<Rightarrow>
                        split_loop name type mem' root res1
                          (Some (reserve_res name type p (rend conflict + 1) (rend res)))
                    | _ \<Rightarrow> Some root)
                 else split_loop name type mem root res1 next_res)
           else
             split_loop name type mem root
               (set_attr ((r_attr res)\<lparr>r_start := rend conflict + 1\<rparr>) res) next_res))"

definition raw_reserve_region_with_split ::
  "addr option list \<Rightarrow> resource \<Rightarrow> resource_size_t \<Rightarrow> resource_size_t \<Rightarrow> string \<Rightarrow> resource option" where
  "raw_reserve_region_with_split mem root s e name =
     (case mem of
        Some p # mem' \<Rightarrow>
          split_loop name (resource_type (r_attr root)) mem' root
            (reserve_res name (resource_type (r_attr root)) p s e) None
      | _ \<Rightarrow> Some root)"

definition reserve_region_with_split ::
  "addr option list \<Rightarrow> resource \<Rightarrow> resource_size_t \<Rightarrow> resource_size_t \<Rightarrow> string \<Rightarrow> resource option" where
  "reserve_region_with_split mem root s e name =
     (if rstart root > s \<or> rend root < e
      then
        (if s > rend root \<or> e < rstart root then Some root
         else raw_reserve_region_with_split mem root
                (if s < rstart root then rstart root else s)
                (if e > rend root then rend root else e) name)
      else raw_reserve_region_with_split mem root s e name)"

section \<open>Request and release\<close>

lemma region_res_simps [simp]:
  "rstart (region_res parent p name s n flags) = s" "rend (region_res parent p name s n flags) = s + n - 1"
  "r_ptr (region_res parent p name s n flags) = p" "child (region_res parent p name s n flags) = []"
  "wf_res (region_res parent p name s n flags) \<longleftrightarrow> s \<le> s + n - 1"
  by (simp_all add: region_res_def)

lemma region_res_busy: "rflags (region_res parent p name s n flags) AND IORESOURCE_BUSY \<noteq> 0"
proof
  assume "rflags (region_res parent p name s n flags) AND IORESOURCE_BUSY = 0"
  moreover have "bit (rflags (region_res parent p name s n flags) AND IORESOURCE_BUSY) 31"
  proof -
    have "bit IORESOURCE_BUSY 31" by (simp add: IORESOURCE_BUSY_def bit_iff_odd)
    then show ?thesis by (simp add: region_res_def bit_simps)
  qed
  ultimately show False by simp
qed

lemma release_loop_skip:
  "\<forall>x\<in>set xs. \<not> (rstart x \<le> s \<and> rend x \<ge> e) \<Longrightarrow>
     release_loop s e (xs @ ys) = map_option (\<lambda>(f, ys'). (f, xs @ ys')) (release_loop s e ys)"
proof (induction xs)
  case Nil
  then show ?case by (cases "release_loop s e ys") auto
next
  case (Cons x xs)
  then show ?case by (cases x; cases "release_loop s e ys") auto
qed

lemma release_loop_here:
  "rstart r = s \<Longrightarrow> rend r = e \<Longrightarrow> rflags r AND IORESOURCE_BUSY \<noteq> 0 \<Longrightarrow>
     release_loop s e (r # ys) = Some (r_ptr r, ys)"
  by (cases r) auto

lemma release_loop_inside:
  "rstart r \<le> s \<Longrightarrow> e \<le> rend r \<Longrightarrow> rflags r AND IORESOURCE_BUSY = 0 \<Longrightarrow>
     release_loop s e (child r) = Some (f, cs) \<Longrightarrow> release_loop s e (r # ys) = Some (f, set_child cs r # ys)"
  by (cases r) auto

text \<open>
  When a region can be had: the range is not empty and in the parent, and whatever overlaps
  it below the parent is not busy and contains it.
\<close>

definition grantable :: "resource \<Rightarrow> resource_size_t \<Rightarrow> resource_size_t \<Rightarrow> bool" where
  "grantable parent s e \<longleftrightarrow> s \<le> e \<and> rstart parent \<le> s \<and> e \<le> rend parent \<and>
     (\<forall>c\<in>set (below parent). disjoint_from s e c \<or>
        rflags c AND IORESOURCE_BUSY = 0 \<and> rstart c \<le> s \<and> e \<le> rend c)"

lemma below_disjoint:
  "wf_res r \<Longrightarrow> c \<in> set (child r) \<Longrightarrow> disjoint_from s e c \<Longrightarrow> d \<in> set (preorder c) \<Longrightarrow> disjoint_from s e d"
  using preorder_inside [of c d] wf_res_child [of r c]
  by (auto simp: disjoint_from_def dest: le_less_trans less_le_trans)

lemma grantable_fits:
  assumes "wf_res parent" "\<forall>c\<in>set (child parent). disjoint_from s e c"
  shows "grantable parent s e \<longleftrightarrow> s \<le> e \<and> rstart parent \<le> s \<and> e \<le> rend parent"
  using below_disjoint [OF assms(1)] assms(2) by (auto simp: grantable_def)

lemma grantable_conflict:
  assumes wf: "wf_res parent" and ch: "child parent = xs @ c # ys" and c: "\<not> disjoint_from s e c"
    and range: "s \<le> e" "rstart parent \<le> s" "e \<le> rend parent"
  shows "grantable parent s e \<longleftrightarrow> rflags c AND IORESOURCE_BUSY = 0 \<and> grantable c s e"
proof -
  have other: "disjoint_from s e d" if "d \<in> set xs \<union> set ys" "rstart c \<le> s" "e \<le> rend c" for d
    using wf_res_split [OF wf ch] that by (force simp: disjoint_from_def)
  have below: "set (below parent) = set (concat (map preorder xs)) \<union> (insert c (set (below c)) \<union> set (concat (map preorder ys)))"
    by (simp add: ch preorder_eq [of c])
  show ?thesis
  proof
    assume g: "grantable parent s e"
    then have "rflags c AND IORESOURCE_BUSY = 0" "rstart c \<le> s" "e \<le> rend c"
      using c below unfolding grantable_def by blast+
    moreover have "\<forall>d\<in>set (below c). disjoint_from s e d \<or> rflags d AND IORESOURCE_BUSY = 0 \<and> rstart d \<le> s \<and> e \<le> rend d"
      using g below unfolding grantable_def by blast
    ultimately show "rflags c AND IORESOURCE_BUSY = 0 \<and> grantable c s e"
      using range(1) unfolding grantable_def by blast
  next
    assume g: "rflags c AND IORESOURCE_BUSY = 0 \<and> grantable c s e"
    then have "disjoint_from s e d" if "d' \<in> set xs \<union> set ys" "d \<in> set (preorder d')" for d d'
      using below_disjoint [OF wf, of d' s e d] other [of d'] that ch by (auto simp: grantable_def)
    then have "disjoint_from s e d" if "d \<in> set (concat (map preorder xs)) \<union> set (concat (map preorder ys))" for d
      using that by auto
    with g range show "grantable parent s e"
      unfolding grantable_def below by blast
  qed
qed

lemma request_region_correct:
  assumes "wf_res parent" "distinct_ptrs parent"
  shows "case raw_request_region_locked parent p name s n flags of
     (st, parent') \<Rightarrow>
       (if st = Granted
        then grantable parent s (s + n - 1) \<and> wf_res parent' \<and> r_attr parent' = r_attr parent \<and>
             r_ptr parent' = r_ptr parent \<and> release_loop s (s + n - 1) (child parent') = Some (p, child parent)
        else \<not> grantable parent s (s + n - 1) \<and> parent' = parent)"
  using assms
proof (induction parent p name s n flags rule: raw_request_region_locked.induct)
  case (1 parent p name s n flags)
  let ?e = "s + n - 1" and ?new = "region_res parent p name s n flags"
  let ?busy = "\<lambda>c. rflags c AND IORESOURCE_BUSY \<noteq> 0"
  show ?case
  proof (cases "fits parent ?new")
    case True
    obtain xs ys where xy: "child parent = xs @ ys"
      "raw_request_resource parent ?new = (None, set_child (xs @ ?new # ys) parent)"
      "\<forall>x\<in>set xs. rend x < rstart ?new" "\<forall>y\<in>set ys. rend ?new < rstart y"
      by (rule raw_request_fits [OF 1(2) True])
    have "wf_res (set_child (xs @ ?new # ys) parent)"
      using raw_request_wf [OF 1(2), of ?new] xy(2) True by (simp add: fits_def del: wf_res_set_child)
    moreover have "release_loop s ?e (xs @ ?new # ys) = Some (p, xs @ ys)"
    proof -
      have "\<forall>x\<in>set xs. \<not> (rstart x \<le> s \<and> ?e \<le> rend x)"
        using xy(3) True by (auto simp: fits_def)
      then show ?thesis
        using release_loop_here [of ?new s ?e ys] region_res_busy by (simp add: release_loop_skip)
    qed
    moreover have "grantable parent s ?e"
      using True grantable_fits [OF 1(2), of s ?e] by (simp add: fits_def)
    ultimately show ?thesis
      using xy(1,2) by (simp add: raw_request_region_locked.simps [of parent] del: wf_res_set_child)
  next
    case False
    show ?thesis
    proof (cases rule: raw_request_not_fits [OF 1(2) False, case_names root conflict])
      case root
      have "\<not> grantable parent s ?e"
        using root(2) unfolding grantable_def region_res_simps by (meson leD)
      with root(1) show ?thesis by (simp add: raw_request_region_locked.simps [of parent])
    next
      case (conflict xs c ys)
      note dp = distinct_ptrs_child [OF 1(3) conflict(1)]
      have sc: "split_child (r_ptr c) (child parent) = Some (xs, c, ys)"
        using conflict(1) dp(3) by (simp add: split_child_unique)
      have g: "grantable parent s ?e \<longleftrightarrow> \<not> ?busy c \<and> grantable c s ?e"
        using grantable_conflict [OF 1(2) conflict(1), of s ?e] conflict by simp
      have wfc: "wf_res c" using wf_res_child [OF 1(2)] conflict(1) by simp
      show ?thesis
      proof (cases "?busy c")
        case True
        with g conflict(2) show ?thesis
          by (auto simp: raw_request_region_locked.simps [of parent])
      next
        case nb: False
        obtain st c' where rec: "raw_request_region_locked c p name s n flags = (st, c')" by fastforce
        have "case raw_request_region_locked c p name s n flags of (st, c') \<Rightarrow>
            (if st = Granted
             then grantable c s ?e \<and> wf_res c' \<and> r_attr c' = r_attr c \<and> r_ptr c' = r_ptr c \<and>
               release_loop s ?e (child c') = Some (p, child c)
             else \<not> grantable c s ?e \<and> c' = c)"
          by (rule 1(1) [OF conflict(2) [symmetric] refl _ sc refl refl])
            (use nb dp wfc in simp_all)
        with rec have IH: "if st = Granted
             then grantable c s ?e \<and> wf_res c' \<and> r_attr c' = r_attr c \<and> r_ptr c' = r_ptr c \<and>
               release_loop s ?e (child c') = Some (p, child c)
             else \<not> grantable c s ?e \<and> c' = c" by simp
        have eq: "raw_request_region_locked parent p name s n flags = (st, set_child (xs @ c' # ys) parent)"
          using conflict(2) nb dp sc rec by (simp add: raw_request_region_locked.simps [of parent])
        show ?thesis
        proof (cases "st = Granted")
          case False
          with IH eq g conflict(1) show ?thesis by simp
        next
          case True
          with IH have gc: "grantable c s ?e" "wf_res c'" "r_attr c' = r_attr c" "r_ptr c' = r_ptr c"
            "release_loop s ?e (child c') = Some (p, child c)" by simp_all
          have "\<forall>x\<in>set xs. \<not> (rstart x \<le> s \<and> ?e \<le> rend x)"
            using conflict by (auto dest: le_less_trans)
          moreover have "release_loop s ?e (c' # ys) = Some (p, set_child (child c) c' # ys)"
            by (rule release_loop_inside) (use gc nb in \<open>simp_all add: grantable_def\<close>)
          moreover have "set_child (child c) c' = c"
            using gc by (cases c; cases c') simp
          ultimately have "release_loop s ?e (xs @ c' # ys) = Some (p, xs @ c # ys)"
            by (simp add: release_loop_skip)
          moreover have "wf_res (set_child (xs @ c' # ys) parent)"
            using wf_res_split [OF 1(2) conflict(1)] gc by auto
          ultimately show ?thesis
            using True eq g nb gc(1) conflict(1) by (simp del: wf_res_set_child)
        qed
      qed
    qed
  qed
qed

section \<open>Reserving\<close>

lemma reserve_res_simps [simp]:
  "rstart (reserve_res name type p s e) = s" "rend (reserve_res name type p s e) = e"
  "r_ptr (reserve_res name type p s e) = p" "child (reserve_res name type p s e) = []"
  "set_attr ((r_attr (reserve_res name type p s e))\<lparr>r_end := e'\<rparr>) (reserve_res name type p s e) =
     reserve_res name type p s e'"
  "set_attr ((r_attr (reserve_res name type p s e))\<lparr>r_start := s'\<rparr>) (reserve_res name type p s e) =
     reserve_res name type p s' e"
  "wf_res (reserve_res name type p s e) \<longleftrightarrow> s \<le> e"
  by (simp_all add: reserve_res_def)

definition covered :: "resource \<Rightarrow> resource_size_t \<Rightarrow> bool" where
  "covered root a \<longleftrightarrow> (\<exists>c\<in>set (child root). rstart c \<le> a \<and> a \<le> rend c)"

text \<open>
  What a run of the loop from the range \<open>s\<close> to \<open>e\<close> achieves: a well-formed tree with the old
  children in it and nothing but busy regions new, and when no allocation failed every address
  of the range covered.
\<close>

definition reserved :: "resource \<Rightarrow> resource \<Rightarrow> bool" where
  "reserved root root' \<longleftrightarrow> wf_res root' \<and> r_attr root' = r_attr root \<and> r_ptr root' = r_ptr root \<and>
     set (child root) \<subseteq> set (child root') \<and>
     (\<forall>c\<in>set (child root') - set (child root). child c = [] \<and> r_desc (r_attr c) = IORES_DESC_NONE)"

lemma reserved_refl: "wf_res root \<Longrightarrow> reserved root root"
  by (simp add: reserved_def)

lemma reserved_trans:
  assumes "reserved a b" "reserved b c"
  shows "reserved a c"
proof -
  note ab = assms(1) [unfolded reserved_def] and bc = assms(2) [unfolded reserved_def]
  have "child d = [] \<and> r_desc (r_attr d) = IORES_DESC_NONE" if "d \<in> set (child c) - set (child a)" for d
    using ab bc that by (cases "d \<in> set (child b)") blast+
  moreover have "set (child a) \<subseteq> set (child c)" using ab bc by blast
  moreover have "r_attr c = r_attr a" "r_ptr c = r_ptr a" using ab bc by metis+
  ultimately show ?thesis using bc unfolding reserved_def by blast
qed

lemma reserved_covered: "reserved root root' \<Longrightarrow> covered root a \<Longrightarrow> covered root' a"
  unfolding reserved_def covered_def by blast

lemma reserve_fits:
  assumes wf: "wf_res root" and fits: "fits root (reserve_res name type p s e)"
  obtains root' where "raw_request_resource root (reserve_res name type p s e) = (None, root')"
    "reserved root root'" "\<And>a. s \<le> a \<Longrightarrow> a \<le> e \<Longrightarrow> covered root' a"
    "set (child root') = insert (reserve_res name type p s e) (set (child root))"
proof -
  let ?new = "reserve_res name type p s e"
  obtain xs ys where xy: "child root = xs @ ys"
    "raw_request_resource root ?new = (None, set_child (xs @ ?new # ys) root)"
    by (rule raw_request_fits [OF wf fits])
  have "wf_res (set_child (xs @ ?new # ys) root)"
    using raw_request_wf [OF wf, of ?new] xy(2) fits by (simp add: fits_def del: wf_res_set_child)
  moreover have "child ?new = [] \<and> r_desc (r_attr ?new) = IORES_DESC_NONE"
    by (simp add: reserve_res_def)
  ultimately show ?thesis
    using xy by (intro that [of "set_child (xs @ ?new # ys) root"])
      (auto simp: reserved_def covered_def simp del: wf_res_set_child)
qed

text \<open>The number of children that end at or behind an address: the loop moves past one with each round.\<close>

definition ahead :: "resource \<Rightarrow> resource_size_t \<Rightarrow> nat" where
  "ahead root s = length (filter (\<lambda>c. s \<le> rend c) (child root))"

lemma ahead_less:
  assumes "c \<in> set (child root)" "s \<le> rend c" "\<forall>d\<in>set (child root). rend c < rend d \<longrightarrow> P d"
  shows "length (filter (\<lambda>d. rend c < rend d) (child root)) < ahead root s"
proof -
  have "length (filter (\<lambda>d. rend c < rend d) cs) \<le> length (filter (\<lambda>d. s \<le> rend d) cs)" for cs
    using assms(2) by (induction cs) auto
  moreover have "length (filter (\<lambda>d. rend c < rend d) cs) < length (filter (\<lambda>d. s \<le> rend d) cs)"
    if "c \<in> set cs" for cs
    using that
  proof (induction cs)
    case (Cons d cs)
    with calculation [of cs] assms(2) show ?case by auto
  qed simp
  ultimately show ?thesis using assms(1) by (simp add: ahead_def)
qed

lemma ahead_after:
  assumes "rend c < rend c + 1"
  shows "ahead root (rend c + 1) = length (filter (\<lambda>d. rend c < rend d) (child root))"
proof -
  have "rend c + 1 \<le> x \<longleftrightarrow> rend c < x" for x
    using assms by (meson less_le_trans word_Suc_le)
  then show ?thesis by (simp add: ahead_def)
qed

text \<open>
  The loop ends, and reserves what it was asked for, if the allocations succeed; \<open>mem\<close> is then
  as long as the tree has children to go around.
\<close>

lemma split_loop_correct:
  assumes wf: "wf_res root" and range: "rstart root \<le> s" "e \<le> rend root"
    and mem: "ahead root s \<le> length mem" "None \<notin> set mem"
  shows "\<exists>root'. split_loop name type mem root (reserve_res name type p s e) None = Some root' \<and>
     reserved root root' \<and> (\<forall>a. s \<le> a \<and> a \<le> e \<longrightarrow> covered root' a)"
  using assms
proof (induction "ahead root s" arbitrary: root s mem p rule: less_induct)
  case less
  let ?res = "reserve_res name type p s e"
  note wf = less.prems(1)
  show ?case
  proof (cases "fits root ?res")
    case True
    obtain root' where r: "raw_request_resource root ?res = (None, root')" "reserved root root'"
      "\<And>a. s \<le> a \<Longrightarrow> a \<le> e \<Longrightarrow> covered root' a"
      by (rule reserve_fits [OF wf True]) blast
    then show ?thesis by (intro exI [of _ root']) (simp add: split_loop.simps)
  next
    case False
    show ?thesis
    proof (cases rule: raw_request_not_fits [OF wf False, case_names root conflict])
      case root
      then have lt: "e < s" using less.prems(2,3) by auto
      then have "s \<le> a \<and> a \<le> e \<longrightarrow> covered root a" for a by auto
      moreover have "split_loop name type mem root ?res None = Some root"
      proof -
        have "rstart root \<le> s" "e \<le> rend root" by fact+
        with root(1) show ?thesis by (simp add: split_loop.simps)
      qed
      ultimately show ?thesis using reserved_refl [OF wf] by blast
    next
      case (conflict xs c ys)
      let ?go = "rend c + 1"
      have se: "s \<le> e" using conflict(5) by simp
      have cin: "c \<in> set (child root)" using conflict(1) by simp
      have nd: "s \<le> rend c" "rstart c \<le> e" using conflict(4) by (auto simp: disjoint_from_def)
      have cw: "rstart c \<le> rend c" using siblings_okD [OF wf_res_siblings [OF wf] cin] by simp
      have step: "ahead root ?go < ahead root s" "?go \<le> e" "s \<le> ?go" "rend c < ?go" if "rend c < e"
      proof -
        show a: "rend c < ?go" by (rule word_less_Suc [OF that])
        show "ahead root ?go < ahead root s"
          unfolding ahead_after [OF a] using ahead_less [OF cin nd(1), of "\<lambda>_. True"] by simp
        show "?go \<le> e" by (rule word_Suc_le [OF that])
        show "s \<le> ?go" using nd(1) a by auto
      qed
      have rest: "\<exists>root2. split_loop name type mem' root1 (reserve_res name type p' ?go e) None = Some root2 \<and>
          reserved root1 root2 \<and> (\<forall>a. ?go \<le> a \<and> a \<le> e \<longrightarrow> covered root2 a)"
        if "rend c < e" "wf_res root1" "r_attr root1 = r_attr root" "ahead root1 ?go = ahead root ?go"
          "ahead root ?go \<le> length mem'" "None \<notin> set mem'" for root1 mem' p'
        using less.hyps [of root1 ?go mem' p'] that step less.prems(2,3) by (auto intro: order_trans)
      show ?thesis
      proof (cases "rstart c \<le> s")
        case True
        have cov: "s \<le> a \<and> a \<le> rend c \<Longrightarrow> covered root a" for a
          using True cin by (auto simp: covered_def intro: order_trans)
        show ?thesis
        proof (cases "e \<le> rend c")
          case True
          then have "split_loop name type mem root ?res None = Some root"
            using \<open>rstart c \<le> s\<close> conflict(2) by (simp add: split_loop.simps)
          with cov True reserved_refl [OF wf] show ?thesis by (intro exI [of _ root]) auto
        next
          case False
          then have lt: "rend c < e" by simp
          obtain root2 where r2: "split_loop name type mem root (reserve_res name type p ?go e) None = Some root2"
            "reserved root root2" "\<forall>a. ?go \<le> a \<and> a \<le> e \<longrightarrow> covered root2 a"
            using rest [OF lt wf refl refl, of mem p] less.prems(4,5) step(1) [OF lt] by auto
          moreover have "split_loop name type mem root ?res None = Some root2"
            using \<open>rstart c \<le> s\<close> [THEN leD] \<open>rstart c \<le> s\<close> False conflict(2) r2(1) by (subst split_loop.simps) simp
          moreover have "covered root2 a" if "s \<le> a" "a \<le> e" for a
          proof (cases "a \<le> rend c")
            case True
            with that cov r2(2) show ?thesis by (blast intro: reserved_covered)
          next
            case False
            then have "?go \<le> a" by (simp add: word_Suc_le not_le)
            with that r2(3) show ?thesis by blast
          qed
          ultimately show ?thesis by blast
        qed
      next
        case False
        then have sl: "s < rstart c" by simp
        let ?left = "\<lambda>p. reserve_res name type p s (rstart c - 1)"
        have left: "rstart c - 1 < rstart c" "s \<le> rstart c - 1" "rstart c - 1 \<le> rend root"
        proof -
          show a: "rstart c - 1 < rstart c" by (rule word_pred_less [OF sl])
          show "s \<le> rstart c - 1" by (rule word_less_pred [OF sl])
          show "rstart c - 1 \<le> rend root" using a nd(2) less.prems(3) by auto
        qed
        have fits: "fits root (?left p)"
        proof -
          have "disjoint_from s (rstart c - 1) d" if "d \<in> set (child root)" for d
            using that conflict(1,3) wf_res_split [OF wf conflict(1)] left(1)
            by (auto simp: disjoint_from_def intro: less_trans)
          with left less.prems(2) show ?thesis by (simp add: fits_def)
        qed
        obtain root1 where r1: "raw_request_resource root (?left p) = (None, root1)" "reserved root root1"
          "\<And>a. s \<le> a \<Longrightarrow> a \<le> rstart c - 1 \<Longrightarrow> covered root1 a"
          "set (child root1) = insert (?left p) (set (child root))"
          by (rule reserve_fits [OF wf fits]) blast
        have cov: "covered root1 a" if "s \<le> a" "a \<le> rend c" for a
        proof (cases "a < rstart c")
          case True
          with that r1(3) show ?thesis by (simp add: word_less_pred)
        next
          case False
          then have "covered root a" using cin that by (auto simp: covered_def not_less)
          with r1(2) show ?thesis by (rule reserved_covered)
        qed
        have nc: "\<not> (rstart c \<le> s \<and> e \<le> rend c)" using sl by auto
        show ?thesis
        proof (cases "rend c < e")
          case False
          then have "split_loop name type mem root ?res None = split_loop name type mem root (?left p) None"
            using sl nc conflict(2) by (subst split_loop.simps) auto
          moreover have "split_loop name type mem root (?left p) None = Some root1"
            using r1(1) by (simp add: split_loop.simps)
          ultimately show ?thesis
            using r1(2) cov False by (intro exI [of _ root1]) auto
        next
          case True
          from less.prems(4) step(1) [OF True] have "mem \<noteq> []" by auto
          with less.prems(5) obtain p' mem' where m: "mem = Some p' # mem'" by (cases mem; cases "hd mem") auto
          have "split_loop name type mem root ?res None =
              split_loop name type mem' root (?left p) (Some (reserve_res name type p' ?go e))"
            using sl nc conflict(2) True m by (subst split_loop.simps) auto
          moreover have "\<dots> = split_loop name type mem' root1 (reserve_res name type p' ?go e) None"
            using r1(1) by (subst split_loop.simps) simp
          moreover have "\<exists>root2. split_loop name type mem' root1 (reserve_res name type p' ?go e) None = Some root2 \<and>
              reserved root1 root2 \<and> (\<forall>a. ?go \<le> a \<and> a \<le> e \<longrightarrow> covered root2 a)"
          proof (rule rest [OF True])
            show "wf_res root1" "r_attr root1 = r_attr root"
              using r1(2) by (simp_all add: reserved_def)
            obtain as bs where ab: "child root = as @ bs" "child root1 = as @ ?left p # bs"
              using raw_request_fits [OF wf fits] r1(1) by (metis child_set_child snd_conv)
            have "\<not> ?go \<le> rstart c - 1" using step(4) [OF True] left(1) cw by auto
            with ab show "ahead root1 ?go = ahead root ?go" by (simp add: ahead_def)
            show "ahead root ?go \<le> length mem'" "None \<notin> set mem'"
              using m less.prems(4,5) step(1) [OF True] by auto
          qed
          ultimately obtain root2 where r2: "split_loop name type mem root ?res None = Some root2"
            "reserved root1 root2" "\<forall>a. ?go \<le> a \<and> a \<le> e \<longrightarrow> covered root2 a"
            by auto
          have "covered root2 a" if "s \<le> a" "a \<le> e" for a
          proof (cases "a \<le> rend c")
            case True
            with that cov r2(2) show ?thesis by (blast intro: reserved_covered)
          next
            case False
            then have "?go \<le> a" by (simp add: word_Suc_le not_le)
            with that r2(3) show ?thesis by blast
          qed
          with r2(1) reserved_trans [OF r1(2) r2(2)] show ?thesis by blast
        qed
      qed
    qed
  qed
qed

section \<open>Properties\<close>

text \<open>
  C13: Requesting a region.  On a well-formed tree the request is granted exactly when the range
  is not empty, lies in the parent, and every resource below the parent that overlaps it is
  not busy and contains it.  Then the tree stays well-formed, and releasing the region frees
  the resource and gives back the tree.  A request that is not granted changes nothing.
\<close>

theorem request_region_roundtrip:
  assumes "wf_res parent" "distinct_ptrs parent"
  shows "case raw_request_region (Some p) parent s n name flags of
     (st, parent') \<Rightarrow>
       (st = Granted \<longleftrightarrow>
          s \<le> s + n - 1 \<and> rstart parent \<le> s \<and> s + n - 1 \<le> rend parent \<and>
          (\<forall>c\<in>set (below parent). disjoint_from s (s + n - 1) c \<or>
             rflags c AND IORESOURCE_BUSY = 0 \<and> rstart c \<le> s \<and> s + n - 1 \<le> rend c)) \<and>
       (st = Granted \<longrightarrow> wf_res parent' \<and> raw_release_region parent' s n = (Some p, parent)) \<and>
       (st \<noteq> Granted \<longrightarrow> parent' = parent)"
proof -
  obtain st parent' where r: "raw_request_region_locked parent p name s n flags = (st, parent')" by fastforce
  have *: "if st = Granted
      then grantable parent s (s + n - 1) \<and> wf_res parent' \<and> r_attr parent' = r_attr parent \<and>
        r_ptr parent' = r_ptr parent \<and> release_loop s (s + n - 1) (child parent') = Some (p, child parent)
      else \<not> grantable parent s (s + n - 1) \<and> parent' = parent"
    using request_region_correct [OF assms, where p = p and name = name and s = s and n = n and flags = flags] r by simp
  then have "st = Granted \<longleftrightarrow> grantable parent s (s + n - 1)" "st = Granted \<longrightarrow> wf_res parent'"
    "st \<noteq> Granted \<longrightarrow> parent' = parent"
    by metis+
  moreover have "raw_release_region parent' s n = (Some p, parent)" if "st = Granted"
  proof -
    from * that have "set_child (child parent) parent' = parent"
      by (cases parent; cases parent') simp
    with * that show ?thesis by (simp add: raw_release_region_def)
  qed
  ultimately show ?thesis
    unfolding raw_request_region_def option.case r prod.case grantable_def by blast
qed

theorem request_region_roundtrip_witness:
  "fst (raw_request_region (Some 9) (Res 1 (ex_attr 0 0xffff) [Res 2 (ex_attr 0x1000 0x1fff) []]) 0x1800 0x100 ''dev'' 0) = Granted"
proof -
  let ?t = "Res 1 (ex_attr 0 0xffff) [Res 2 (ex_attr 0x1000 0x1fff) []]"
  have "wf_res ?t" "distinct_ptrs ?t" by (simp_all add: distinct_ptrs_def)
  from request_region_roundtrip [OF this, where p = 9 and s = "0x1800" and n = "0x100" and name = "''dev''" and flags = 0]
  show ?thesis by (auto simp: IORESOURCE_BUSY_def split: prod.splits)
qed

text \<open>
  Reserving a range that may overlap existing resources ends.  The old children stay, the
  new ones are leaves, the tree stays well-formed, and, when the allocations succeed, every
  address of the range that is in the root is covered by a child afterwards.
\<close>

theorem reserve_region_covers:
  assumes "wf_res root" "Suc (length (child root)) \<le> length mem" "None \<notin> set mem"
  shows "\<exists>root'. reserve_region_with_split mem root s e name = Some root' \<and>
     wf_res root' \<and> set (child root) \<subseteq> set (child root') \<and>
     (\<forall>c\<in>set (child root') - set (child root). child c = []) \<and>
     (\<forall>a. s \<le> a \<and> a \<le> e \<and> rstart root \<le> a \<and> a \<le> rend root \<longrightarrow>
        (\<exists>c\<in>set (child root'). rstart c \<le> a \<and> a \<le> rend c))"
proof -
  from assms(2,3) obtain p mem' where mem: "mem = Some p # mem'"
    by (cases mem; cases "hd mem") auto
  have ahead: "ahead root x \<le> length mem'" for x
    using assms(2) mem by (simp add: ahead_def) (meson le_trans length_filter_le)
  let ?s = "if s < rstart root then rstart root else s" and ?e = "if e > rend root then rend root else e"
  have "\<exists>root'. raw_reserve_region_with_split mem root ?s ?e name = Some root' \<and> reserved root root' \<and>
      (\<forall>a. ?s \<le> a \<and> a \<le> ?e \<longrightarrow> covered root' a)"
  proof -
    have "rstart root \<le> ?s" "?e \<le> rend root" by (auto simp: not_less)
    then show ?thesis
      using split_loop_correct [OF assms(1) _ _ ahead, where s = ?s and e = ?e and name = name
          and type = "resource_type (r_attr root)" and p = p] assms(3) mem
      by (simp add: raw_reserve_region_with_split_def)
  qed
  then obtain root' where r: "raw_reserve_region_with_split mem root ?s ?e name = Some root'" "reserved root root'"
    "\<forall>a. ?s \<le> a \<and> a \<le> ?e \<longrightarrow> covered root' a" by blast
  have wf0: "rstart root \<le> rend root" using assms(1) by (rule wf_res_range)
  show ?thesis
  proof (cases "(rstart root > s \<or> rend root < e) \<and> (s > rend root \<or> e < rstart root)")
    case True
    then have "reserve_region_with_split mem root s e name = Some root"
      by (simp add: reserve_region_with_split_def)
    moreover have "\<not> (s \<le> a \<and> a \<le> e \<and> rstart root \<le> a \<and> a \<le> rend root)" for a
      using True by auto
    ultimately show ?thesis using assms(1) by (intro exI [of _ root]) auto
  next
    case False
    have "reserve_region_with_split mem root s e name = raw_reserve_region_with_split mem root ?s ?e name"
      using False by (auto simp: reserve_region_with_split_def not_less)
    moreover have "covered root' a" if "s \<le> a" "a \<le> e" "rstart root \<le> a" "a \<le> rend root" for a
      using r(3) that by simp
    ultimately show ?thesis
      using r(1,2) unfolding reserved_def covered_def by (intro exI [of _ root'] conjI) (metis | blast)+
  qed
qed

theorem reserve_region_covers_witness:
  "\<exists>root'. reserve_region_with_split [Some 7, Some 8, Some 9]
      (Res 1 (ex_attr 0 0xffff) [Res 2 (ex_attr 0x1000 0x1fff) []]) 0x800 0x2fff ''res'' = Some root' \<and> wf_res root'"
  using reserve_region_covers [where root = "Res 1 (ex_attr 0 0xffff) [Res 2 (ex_attr 0x1000 0x1fff) []]"
      and mem = "[Some 7, Some 8, Some 9]" and s = "0x800" and e = "0x2fff" and name = "''res''"] by auto

end
