(* ===== verification/Devres.thy ===== *)
theory Devres
  imports Prelude
begin

text \<open>
  Managed device resources, \<open>kernel/src/driver/base/devres.c\<close>: the list of resources of a
  device, searching, adding and removing entries, resource groups, and the release of a range
  of the list with the two-pass colouring of \<open>remove_nodes\<close>.

  A release function is a value of type \<^typ>\<open>'r\<close> (the code compares function pointers only),
  the data of an entry is of type \<^typ>\<open>'d\<close>; what a release function does is the parameter
  \<open>run\<close>, a change of the state \<^typ>\<open>'w\<close> outside of the list.  A result \<^const>\<open>None\<close> means that a
  \<open>BUG_ON\<close> fires, or that a loop runs off the list it walks.  The lock makes every operation
  one step.  The names and sizes of entries only feed log messages and are left out.
\<close>

section \<open>State\<close>

record ('r, 'd) devres =
  dr_ptr :: addr
  dr_release :: 'r
  dr_data :: 'd

text \<open>
  A node of the list is the node of a devres or one of the two nodes of a group, \<open>node[0]\<close>
  (\<open>group_open_release\<close>) and \<open>node[1]\<close> (\<open>group_close_release\<close>) of the group at an address.
\<close>

datatype ('r, 'd) devres_node = Node "('r, 'd) devres" | Open addr | Close addr

text \<open>
  \<open>freed\<close> logs the calls of \<open>kfree\<close>, in order; \<open>head_init\<close> is \<open>devres_head.next != NULL\<close>.
  The fields of \<open>struct devres_group\<close> are maps from the address of the group.
\<close>

record ('r, 'd, 'w) device =
  head_init :: bool
  devres_head :: "('r, 'd) devres_node list"
  grp_id :: "addr \<Rightarrow> addr"
  color :: "addr \<Rightarrow> int"
  freed :: "addr list"
  world :: 'w

type_synonym 'd dr_match = "addr \<Rightarrow> 'd \<Rightarrow> bool"

text \<open>The address of a node: two nodes with the same one are the same node.\<close>

primrec node_id :: "('r, 'd) devres_node \<Rightarrow> addr \<times> nat" where
  "node_id (Node dr) = (dr_ptr dr, 0)"
| "node_id (Open g) = (g, 0)"
| "node_id (Close g) = (g, 1)"

primrec node_to_group :: "('r, 'd) devres_node \<Rightarrow> addr option" where
  "node_to_group (Node dr) = None"
| "node_to_group (Open g) = Some g"
| "node_to_group (Close g) = Some g"

section \<open>Entries\<close>

text \<open>\<open>sizeof(struct devres)\<close>: a list head, two pointers and a size, of 8 bytes each.\<close>

definition sizeof_devres :: u64 where "sizeof_devres = 40"

definition check_dr_size :: "u64 \<Rightarrow> u64 option" where
  "check_dr_size sz =
     (if 2 ^ 64 \<le> unat sizeof_devres + unat sz then None else Some (sizeof_devres + sz))"

text \<open>\<open>mem\<close> is the result of \<open>kmalloc\<close> and \<open>d\<close> what the memory of the data holds.\<close>

definition alloc_dr :: "(u64 \<Rightarrow> addr option) \<Rightarrow> 'r \<Rightarrow> u64 \<Rightarrow> 'd \<Rightarrow> ('r, 'd) devres option" where
  "alloc_dr kmalloc release sz d =
     (case check_dr_size sz of
        None \<Rightarrow> None
      | Some tot_size \<Rightarrow>
          (case kmalloc tot_size of
             None \<Rightarrow> None
           | Some p \<Rightarrow> Some \<lparr>dr_ptr = p, dr_release = release, dr_data = d\<rparr>))"

definition raw_devres_alloc_node :: "(u64 \<Rightarrow> addr option) \<Rightarrow> 'r \<Rightarrow> u64 \<Rightarrow> 'd \<Rightarrow> ('r, 'd) devres option" where
  "raw_devres_alloc_node kmalloc release sz d = alloc_dr kmalloc release sz d"

text \<open>\<open>!list_empty(&node->entry)\<close> for a node that is on no list but that of the device.\<close>

definition linked :: "('r, 'd, 'w) device \<Rightarrow> ('r, 'd) devres_node \<Rightarrow> bool" where
  "linked dev n \<longleftrightarrow> node_id n \<in> node_id ` set (devres_head dev)"

definition kfree :: "addr \<Rightarrow> ('r, 'd, 'w) device \<Rightarrow> ('r, 'd, 'w) device" where
  "kfree p dev = dev\<lparr>freed := freed dev @ [p]\<rparr>"

definition add_dr :: "('r, 'd, 'w) device \<Rightarrow> ('r, 'd) devres_node \<Rightarrow> ('r, 'd, 'w) device option" where
  "add_dr dev n =
     (if linked dev n then None else Some (dev\<lparr>devres_head := devres_head dev @ [n]\<rparr>))"

definition replace_dr ::
  "('r, 'd, 'w) device \<Rightarrow> ('r, 'd) devres_node \<Rightarrow> ('r, 'd) devres_node \<Rightarrow> ('r, 'd, 'w) device option" where
  "replace_dr dev old new =
     (if linked dev new then None
      else Some (dev\<lparr>devres_head := map (\<lambda>n. if node_id n = node_id old then new else n) (devres_head dev)\<rparr>))"

definition list_del_init :: "(addr \<times> nat) \<Rightarrow> ('r, 'd, 'w) device \<Rightarrow> ('r, 'd, 'w) device" where
  "list_del_init k dev = dev\<lparr>devres_head := filter (\<lambda>n. node_id n \<noteq> k) (devres_head dev)\<rparr>"

definition devres_free :: "('r, 'd, 'w) device \<Rightarrow> ('r, 'd) devres option \<Rightarrow> ('r, 'd, 'w) device option" where
  "devres_free dev res =
     (case res of
        None \<Rightarrow> Some dev
      | Some dr \<Rightarrow> (if linked dev (Node dr) then None else Some (kfree (dr_ptr dr) dev)))"

definition devres_add :: "('r, 'd, 'w) device \<Rightarrow> ('r, 'd) devres \<Rightarrow> ('r, 'd, 'w) device option" where
  "devres_add dev dr = add_dr dev (Node dr)"

text \<open>The condition of the two searches, \<open>devres_for_each_res\<close> and \<open>find_dr\<close>.\<close>

definition selects :: "'r \<Rightarrow> 'd dr_match option \<Rightarrow> ('r, 'd) devres \<Rightarrow> bool" where
  "selects release match dr \<longleftrightarrow>
     (if dr_release dr \<noteq> release then False
      else if (case match of None \<Rightarrow> False | Some m \<Rightarrow> \<not> m (dr_ptr dr) (dr_data dr)) then False
      else True)"

text \<open>
  \<open>devres_for_each_res\<close>, from the end of the list.  The callback can change the data of
  the entry and the state.
\<close>

fun for_each_loop ::
  "'r \<Rightarrow> 'd dr_match option \<Rightarrow> ('d \<Rightarrow> 'w \<Rightarrow> 'd \<times> 'w) \<Rightarrow> ('r, 'd) devres_node list \<Rightarrow> 'w \<Rightarrow>
   ('r, 'd) devres_node list \<times> 'w" where
  "for_each_loop release match f [] w = ([], w)"
| "for_each_loop release match f (n # ns) w =
     (let (n', w') = (case n of
          Node dr \<Rightarrow>
            (if selects release match dr
             then (case f (dr_data dr) w of (d, w1) \<Rightarrow> (Node (dr\<lparr>dr_data := d\<rparr>), w1))
             else (n, w))
        | _ \<Rightarrow> (n, w));
          (ns', w2) = for_each_loop release match f ns w'
      in (n' # ns', w2))"

definition devres_for_each_res ::
  "('r, 'd, 'w) device \<Rightarrow> 'r \<Rightarrow> 'd dr_match option \<Rightarrow> ('d \<Rightarrow> 'w \<Rightarrow> 'd \<times> 'w) option \<Rightarrow> ('r, 'd, 'w) device" where
  "devres_for_each_res dev release match fn =
     (case fn of
        None \<Rightarrow> dev
      | Some f \<Rightarrow>
          (case for_each_loop release match f (rev (devres_head dev)) (world dev) of
             (ns, w) \<Rightarrow> dev\<lparr>devres_head := rev ns, world := w\<rparr>))"

fun find_dr_loop :: "'r \<Rightarrow> 'd dr_match option \<Rightarrow> ('r, 'd) devres_node list \<Rightarrow> ('r, 'd) devres option" where
  "find_dr_loop release match [] = None"
| "find_dr_loop release match (Node dr # ns) =
     (if selects release match dr then Some dr else find_dr_loop release match ns)"
| "find_dr_loop release match (_ # ns) = find_dr_loop release match ns"

definition find_dr :: "('r, 'd, 'w) device \<Rightarrow> 'r \<Rightarrow> 'd dr_match option \<Rightarrow> ('r, 'd) devres option" where
  "find_dr dev release match = find_dr_loop release match (rev (devres_head dev))"

definition devres_find :: "('r, 'd, 'w) device \<Rightarrow> 'r \<Rightarrow> 'd dr_match option \<Rightarrow> ('r, 'd) devres option" where
  "devres_find dev release match = find_dr dev release match"

definition devres_get ::
  "('r, 'd, 'w) device \<Rightarrow> ('r, 'd) devres \<Rightarrow> 'd dr_match option \<Rightarrow>
   (('r, 'd) devres \<times> ('r, 'd, 'w) device) option" where
  "devres_get dev new_dr match =
     (case find_dr dev (dr_release new_dr) match of
        None \<Rightarrow>
          (case add_dr dev (Node new_dr) of
             None \<Rightarrow> None
           | Some dev1 \<Rightarrow> map_option (\<lambda>dev2. (new_dr, dev2)) (devres_free dev1 None))
      | Some dr \<Rightarrow> map_option (\<lambda>dev2. (dr, dev2)) (devres_free dev (Some new_dr)))"

definition devres_remove ::
  "('r, 'd, 'w) device \<Rightarrow> 'r \<Rightarrow> 'd dr_match option \<Rightarrow> ('r, 'd) devres option \<times> ('r, 'd, 'w) device" where
  "devres_remove dev release match =
     (case find_dr dev release match of
        None \<Rightarrow> (None, dev)
      | Some dr \<Rightarrow> (Some dr, list_del_init (node_id (Node dr)) dev))"

definition devres_destroy ::
  "('r, 'd, 'w) device \<Rightarrow> 'r \<Rightarrow> 'd dr_match option \<Rightarrow> (int \<times> ('r, 'd, 'w) device) option" where
  "devres_destroy dev release match =
     (case devres_remove dev release match of
        (None, dev1) \<Rightarrow> Some (- ENOENT, dev1)
      | (Some dr, dev1) \<Rightarrow> map_option (\<lambda>dev2. (0, dev2)) (devres_free dev1 (Some dr)))"

definition devres_release ::
  "('r \<Rightarrow> addr \<Rightarrow> 'd \<Rightarrow> 'w \<Rightarrow> 'w) \<Rightarrow> ('r, 'd, 'w) device \<Rightarrow> 'r \<Rightarrow> 'd dr_match option \<Rightarrow>
   (int \<times> ('r, 'd, 'w) device) option" where
  "devres_release run dev release match =
     (case devres_remove dev release match of
        (None, dev1) \<Rightarrow> Some (- ENOENT, dev1)
      | (Some dr, dev1) \<Rightarrow>
          map_option (\<lambda>dev2. (0, dev2))
            (devres_free (dev1\<lparr>world := run release (dr_ptr dr) (dr_data dr) (world dev1)\<rparr>) (Some dr)))"

section \<open>Releasing a range\<close>

text \<open>
  The first pass of \<open>remove_nodes\<close> over the nodes from \<open>first\<close> to \<open>end\<close>: the nodes that stay
  (group markers), those moved to \<open>todo\<close>, and the colours.  The counters \<open>nr_groups\<close> and
  \<open>cnt\<close> are the lengths of the two lists.
\<close>

fun first_pass ::
  "('r, 'd) devres_node list \<Rightarrow> (addr \<Rightarrow> int) \<Rightarrow>
   ('r, 'd) devres_node list \<times> ('r, 'd) devres_node list \<times> (addr \<Rightarrow> int)" where
  "first_pass [] col = ([], [], col)"
| "first_pass (n # ns) col =
     (case node_to_group n of
        Some g \<Rightarrow> (case first_pass ns (col(g := 0)) of (kept, todo, col') \<Rightarrow> (n # kept, todo, col'))
      | None \<Rightarrow> (case first_pass ns col of (kept, todo, col') \<Rightarrow> (kept, n # todo, col')))"

text \<open>
  The second pass.  The list of the device is \<open>bef @ aft @ post\<close>, with the current node at the
  start of \<open>aft\<close> and \<open>end\<close> at the start of \<open>post\<close>.  The loop has saved the node that follows
  the current one; were that one unlinked, the loop would leave the list (\<^const>\<open>None\<close>).
\<close>

definition unlink_group :: "addr \<Rightarrow> ('r, 'd) devres_node list \<Rightarrow> ('r, 'd) devres_node list" where
  "unlink_group g ns = filter (\<lambda>n. n \<noteq> Open g \<and> n \<noteq> Close g) ns"

lemma length_unlink_group [termination_simp]: "length (unlink_group g ns) < Suc (length ns)"
  by (simp add: unlink_group_def le_imp_less_Suc)

fun second_pass ::
  "('r, 'd) devres_node list \<Rightarrow> ('r, 'd) devres_node list \<Rightarrow> ('r, 'd) devres_node list \<Rightarrow>
   ('r, 'd) devres_node list \<Rightarrow> (addr \<Rightarrow> int) \<Rightarrow>
   (('r, 'd) devres_node list \<times> ('r, 'd) devres_node list \<times> (addr \<Rightarrow> int)) option" where
  "second_pass bef [] post todo col = Some (bef @ post, todo, col)"
| "second_pass bef (n # aft) post todo col =
     (case node_to_group n of
        None \<Rightarrow> None
      | Some g \<Rightarrow>
          (let whole = bef @ (n # aft) @ post
           in if Open g \<notin> set (whole @ todo) then None
              else
                (let c1 = col g + 1;
                     c2 = (if Close g \<notin> set whole then c1 + 1 else c1)
                 in if c2 \<le> 0 \<or> c2 > 2 then None
                    else if c2 = 2
                    then
                      (if aft @ post \<noteq> [] \<and> hd (aft @ post) \<in> {Open g, Close g} then None
                       else second_pass (unlink_group g bef) (unlink_group g aft) (unlink_group g post)
                              (todo @ [Open g]) (col(g := c2)))
                    else second_pass (bef @ [n]) aft post todo (col(g := c2)))))"

definition remove_nodes ::
  "('r, 'd, 'w) device \<Rightarrow> ('r, 'd) devres_node list \<Rightarrow> ('r, 'd) devres_node list \<Rightarrow>
   ('r, 'd) devres_node list \<Rightarrow> (int \<times> ('r, 'd) devres_node list \<times> ('r, 'd, 'w) device) option" where
  "remove_nodes dev pre rng post =
     (case first_pass rng (color dev) of
        (kept, todo, col) \<Rightarrow>
          (if length kept = 0
           then Some (int (length todo), todo, dev\<lparr>devres_head := pre @ post, color := col\<rparr>)
           else
             (case second_pass pre kept post todo col of
                None \<Rightarrow> None
              | Some (head, todo', col') \<Rightarrow>
                  Some (int (length todo), todo', dev\<lparr>devres_head := head, color := col'\<rparr>))))"

text \<open>\<open>release_nodes\<close>, from the end of \<open>todo\<close>; the release function of a group does nothing.\<close>

primrec release_node ::
  "('r \<Rightarrow> addr \<Rightarrow> 'd \<Rightarrow> 'w \<Rightarrow> 'w) \<Rightarrow> ('r, 'd) devres_node \<Rightarrow> ('r, 'd, 'w) device \<Rightarrow> ('r, 'd, 'w) device" where
  "release_node run (Node dr) dev =
     kfree (dr_ptr dr) (dev\<lparr>world := run (dr_release dr) (dr_ptr dr) (dr_data dr) (world dev)\<rparr>)"
| "release_node run (Open g) dev = kfree g dev"
| "release_node run (Close g) dev = kfree g dev"

definition release_nodes ::
  "('r \<Rightarrow> addr \<Rightarrow> 'd \<Rightarrow> 'w \<Rightarrow> 'w) \<Rightarrow> ('r, 'd, 'w) device \<Rightarrow> ('r, 'd) devres_node list \<Rightarrow> ('r, 'd, 'w) device" where
  "release_nodes run dev todo = fold (release_node run) (rev todo) dev"

definition devres_release_all ::
  "('r \<Rightarrow> addr \<Rightarrow> 'd \<Rightarrow> 'w \<Rightarrow> 'w) \<Rightarrow> ('r, 'd, 'w) device \<Rightarrow> (int \<times> ('r, 'd, 'w) device) option" where
  "devres_release_all run dev =
     (if \<not> head_init dev then Some (- ENODEV, dev)
      else if devres_head dev = [] then Some (0, dev)
      else
        (case remove_nodes dev [] (devres_head dev) [] of
           None \<Rightarrow> None
         | Some (cnt, todo, dev1) \<Rightarrow> Some (cnt, release_nodes run dev1 todo)))"

section \<open>Groups\<close>

text \<open>
  \<open>devres_open_group\<close> with \<open>id\<close> 0 for a null pointer; the result is the identifier, 0 when the
  allocation failed.
\<close>

definition devres_open_group ::
  "('r, 'd, 'w) device \<Rightarrow> addr \<Rightarrow> addr option \<Rightarrow> (addr \<times> ('r, 'd, 'w) device) option" where
  "devres_open_group dev gid mem =
     (case mem of
        None \<Rightarrow> Some (0, dev)
      | Some g \<Rightarrow>
          (let i = (if gid \<noteq> 0 then gid else g)
           in map_option (\<lambda>dev1. (i, dev1)) (add_dr (dev\<lparr>grp_id := (grp_id dev)(g := i)\<rparr>) (Open g))))"

fun find_group_loop ::
  "('r, 'd, 'w) device \<Rightarrow> addr \<Rightarrow> ('r, 'd) devres_node list \<Rightarrow> addr option" where
  "find_group_loop dev gid [] = None"
| "find_group_loop dev gid (n # ns) =
     (case n of
        Open g \<Rightarrow>
          (if gid \<noteq> 0 then (if grp_id dev g = gid then Some g else find_group_loop dev gid ns)
           else if \<not> linked dev (Close g) then Some g
           else find_group_loop dev gid ns)
      | _ \<Rightarrow> find_group_loop dev gid ns)"

definition find_group :: "('r, 'd, 'w) device \<Rightarrow> addr \<Rightarrow> addr option" where
  "find_group dev gid = find_group_loop dev gid (rev (devres_head dev))"

definition devres_close_group :: "('r, 'd, 'w) device \<Rightarrow> addr \<Rightarrow> ('r, 'd, 'w) device option" where
  "devres_close_group dev gid =
     (case find_group dev gid of
        Some g \<Rightarrow> add_dr dev (Close g)
      | None \<Rightarrow> Some dev)"

definition devres_remove_group :: "('r, 'd, 'w) device \<Rightarrow> addr \<Rightarrow> ('r, 'd, 'w) device" where
  "devres_remove_group dev gid =
     (case find_group dev gid of
        Some g \<Rightarrow> kfree g (list_del_init (g, 1) (list_del_init (g, 0) dev))
      | None \<Rightarrow> dev)"

text \<open>
  The part of the list from the opening marker of a group to its end; \<^const>\<open>None\<close> when the
  closing marker is not behind the opening one.
\<close>

definition group_range ::
  "('r, 'd, 'w) device \<Rightarrow> addr \<Rightarrow>
   (('r, 'd) devres_node list \<times> ('r, 'd) devres_node list \<times> ('r, 'd) devres_node list) option" where
  "group_range dev g =
     (let pre = takeWhile (\<lambda>n. n \<noteq> Open g) (devres_head dev);
          rest = dropWhile (\<lambda>n. n \<noteq> Open g) (devres_head dev)
      in if \<not> linked dev (Close g) then Some (pre, rest, [])
         else if Close g \<notin> set rest then None
         else Some (pre, takeWhile (\<lambda>n. n \<noteq> Close g) rest @ [Close g],
                    tl (dropWhile (\<lambda>n. n \<noteq> Close g) rest)))"

definition devres_release_group ::
  "('r \<Rightarrow> addr \<Rightarrow> 'd \<Rightarrow> 'w \<Rightarrow> 'w) \<Rightarrow> ('r, 'd, 'w) device \<Rightarrow> addr \<Rightarrow> (int \<times> ('r, 'd, 'w) device) option" where
  "devres_release_group run dev gid =
     (case find_group dev gid of
        None \<Rightarrow> Some (0, dev)
      | Some g \<Rightarrow>
          (case group_range dev g of
             None \<Rightarrow> None
           | Some (pre, rng, post) \<Rightarrow>
               (case remove_nodes dev pre rng post of
                  None \<Rightarrow> None
                | Some (cnt, todo, dev1) \<Rightarrow> Some (cnt, release_nodes run dev1 todo))))"

section \<open>Well-formed lists\<close>

text \<open>
  Every node is linked once, and the closing marker of a group stands behind its opening
  marker.
\<close>

fun markers_ok :: "addr list \<Rightarrow> ('r, 'd) devres_node list \<Rightarrow> bool" where
  "markers_ok opened [] = True"
| "markers_ok opened (Node dr # ns) = markers_ok opened ns"
| "markers_ok opened (Open g # ns) = markers_ok (g # opened) ns"
| "markers_ok opened (Close g # ns) = (g \<in> set opened \<and> markers_ok opened ns)"

definition list_wf :: "('r, 'd) devres_node list \<Rightarrow> bool" where
  "list_wf ns \<longleftrightarrow> distinct (map node_id ns) \<and> markers_ok [] ns"

abbreviation devres_wf :: "('r, 'd, 'w) device \<Rightarrow> bool" where
  "devres_wf dev \<equiv> list_wf (devres_head dev)"

primrec is_marker :: "('r, 'd) devres_node \<Rightarrow> bool" where
  "is_marker (Node dr) = False"
| "is_marker (Open g) = True"
| "is_marker (Close g) = True"

primrec entry_of :: "('r, 'd) devres_node \<Rightarrow> ('r, 'd) devres option" where
  "entry_of (Node dr) = Some dr"
| "entry_of (Open g) = None"
| "entry_of (Close g) = None"

text \<open>The entries of a list, without the markers.\<close>

definition entries :: "('r, 'd) devres_node list \<Rightarrow> ('r, 'd) devres list" where
  "entries ns = List.map_filter entry_of ns"

lemma entries_simps [simp]:
  "entries [] = []"
  "entries (Node dr # ns) = dr # entries ns"
  "entries (Open g # ns) = entries ns"
  "entries (Close g # ns) = entries ns"
  "entries (xs @ ys) = entries xs @ entries ys"
  by (simp_all add: entries_def List.map_filter_def)

lemma entries_rev: "entries (rev ns) = rev (entries ns)"
  by (induction ns) (simp, rename_tac n ns, case_tac n, simp_all)

lemma set_entries [simp]: "dr \<in> set (entries ns) \<longleftrightarrow> Node dr \<in> set ns"
  by (induction ns) (simp, rename_tac n ns, case_tac n, auto)

lemma markers_ok_append:
  "markers_ok ops (xs @ ys) \<longleftrightarrow>
     markers_ok ops xs \<and> markers_ok ([g. Open g \<leftarrow> rev xs] @ ops) ys"
  by (induction ops xs rule: markers_ok.induct) simp_all

lemma markers_ok_mono: "markers_ok ops ns \<Longrightarrow> set ops \<subseteq> set ops' \<Longrightarrow> markers_ok ops' ns"
proof (induction ops ns arbitrary: ops' rule: markers_ok.induct)
  case (3 opened g ns)
  from 3(1) [of "g # ops'"] 3(2,3) show ?case by auto
qed auto

lemma opened_iff: "g \<in> set [g. Open g \<leftarrow> rev xs] \<longleftrightarrow> Open g \<in> set xs"
  by (induction xs) (auto split: devres_node.splits)

lemma markers_ok_iff:
  "markers_ok ops ns \<longleftrightarrow>
     (\<forall>ys g zs. ns = ys @ Close g # zs \<longrightarrow> Open g \<in> set ys \<or> g \<in> set ops)"
proof
  assume "markers_ok ops ns"
  then show "\<forall>ys g zs. ns = ys @ Close g # zs \<longrightarrow> Open g \<in> set ys \<or> g \<in> set ops"
    by (auto simp: markers_ok_append opened_iff)
next
  assume *: "\<forall>ys g zs. ns = ys @ Close g # zs \<longrightarrow> Open g \<in> set ys \<or> g \<in> set ops"
  show "markers_ok ops ns"
    using * 
  proof (induction ops ns rule: markers_ok.induct)
    case (2 ops dr ns)
    have "Open g \<in> set ys \<or> g \<in> set ops" if "ns = ys @ Close g # zs" for ys g zs
      using 2(2) [rule_format, of "Node dr # ys" g zs] that by auto
    with 2(1) show ?case by auto
  next
    case (3 ops g ns)
    have "Open h \<in> set ys \<or> h \<in> set (g # ops)" if "ns = ys @ Close h # zs" for ys h zs
      using 3(2) [rule_format, of "Open g # ys" h zs] that by auto
    with 3(1) show ?case by auto
  next
    case (4 ops g ns)
    have "Open h \<in> set ys \<or> h \<in> set ops" if "ns = ys @ Close h # zs" for ys h zs
      using 4(2) [rule_format, of "Close g # ys" h zs] that by auto
    moreover have "g \<in> set ops"
      using 4(2) [rule_format, of "[]" g ns] by auto
    ultimately show ?case using 4(1) by auto
  qed simp
qed

lemma list_wf_Nil [simp]: "list_wf []"
  by (simp add: list_wf_def)

lemma list_wf_open_first:
  "list_wf (ys @ Close g # zs) \<Longrightarrow> Open g \<in> set ys"
  by (auto simp: list_wf_def markers_ok_append opened_iff)

lemma list_wf_distinct: "list_wf ns \<Longrightarrow> distinct ns"
  by (auto simp: list_wf_def dest: distinct_map [THEN iffD1])

lemma list_wf_snoc:
  "list_wf (ns @ [n]) \<longleftrightarrow>
     list_wf ns \<and> node_id n \<notin> node_id ` set ns \<and> (\<forall>g. n = Close g \<longrightarrow> Open g \<in> set ns)"
  by (cases n) (auto simp: list_wf_def markers_ok_append opened_iff)

text \<open>Nodes may go as long as no closing marker loses its opening one.\<close>

lemma list_wf_filter:
  assumes wf: "list_wf ns"
    and closed: "\<And>g. Close g \<in> set ns \<Longrightarrow> P (Close g) \<Longrightarrow> P (Open g)"
  shows "list_wf (filter P ns)"
proof -
  have "markers_ok [] (filter P ns)"
    using wf closed
  proof (induction ns rule: rev_induct)
    case (snoc n ns)
    then have "markers_ok [] (filter P ns)"
      by (simp add: list_wf_snoc)
    moreover have "markers_ok ([g. Open g \<leftarrow> rev (filter P ns)] @ []) [n]" if "P n"
    proof (cases n)
      case (Close g)
      with snoc(2,3) that have "Open g \<in> set (filter P ns)"
        by (auto simp: list_wf_snoc)
      then have "g \<in> set [g. Open g \<leftarrow> rev (filter P ns)]"
        by (simp only: opened_iff)
      with Close show ?thesis by simp
    qed simp_all
    ultimately show ?case
      by (simp add: markers_ok_append)
  qed simp
  with wf show ?thesis
    by (simp add: list_wf_def distinct_map_filter)
qed

section \<open>The two passes\<close>

text \<open>
  The groups that lie wholly in a part \<open>rng\<close> of the list \<open>ns\<close>: the opening marker is in the
  part, and so is the closing one unless the group is open.
\<close>

definition wholly :: "('r, 'd) devres_node list \<Rightarrow> ('r, 'd) devres_node list \<Rightarrow> addr \<Rightarrow> bool" where
  "wholly ns rng g \<longleftrightarrow> Open g \<in> set rng \<and> (Close g \<in> set rng \<or> Close g \<notin> set ns)"

text \<open>The nodes that a release of the part leaves: markers of the other groups.\<close>

definition stays :: "('r, 'd) devres_node list \<Rightarrow> ('r, 'd) devres_node list \<Rightarrow> ('r, 'd) devres_node \<Rightarrow> bool" where
  "stays ns rng n = (case node_to_group n of None \<Rightarrow> False | Some g \<Rightarrow> \<not> wholly ns rng g)"

text \<open>The colour of a group once the second pass has seen the nodes \<open>vis\<close>.\<close>

definition shade :: "('r, 'd) devres_node list \<Rightarrow> ('r, 'd) devres_node list \<Rightarrow> addr \<Rightarrow> int" where
  "shade ns vis g =
     (if Open g \<in> set vis then 1 else 0) + (if Close g \<in> set vis then 1 else 0) +
     (if Open g \<in> set vis \<and> Close g \<notin> set ns then 1 else 0)"

lemma first_pass_eq:
  "first_pass ns col =
     (filter is_marker ns, filter (\<lambda>n. \<not> is_marker n) ns,
      \<lambda>g. if Open g \<in> set ns \<or> Close g \<in> set ns then 0 else col g)"
proof (induction ns arbitrary: col)
  case (Cons n ns)
  then show ?case by (cases n) (auto simp: fun_eq_iff)
qed simp

lemma node_to_group_Some: "node_to_group n = Some g \<longleftrightarrow> n = Open g \<or> n = Close g"
  by (cases n) auto

lemma unlink_group_id [simp]: "Open g \<notin> set ns \<Longrightarrow> Close g \<notin> set ns \<Longrightarrow> unlink_group g ns = ns"
  by (auto simp: unlink_group_def filter_id_conv)

lemma unlink_group_append: "unlink_group g (xs @ ys) = unlink_group g xs @ unlink_group g ys"
  by (simp add: unlink_group_def)

lemma stays_snoc:
  assumes "n = Open g \<or> n = Close g" "n \<notin> set vis" "h \<noteq> g" "m = Open h \<or> m = Close h"
  shows "stays ns (vis @ [n]) m \<longleftrightarrow> stays ns vis m"
  using assms by (auto simp: stays_def wholly_def)

lemma filter_stays_snoc:
  assumes n: "n = Open g \<or> n = Close g" and vis: "\<forall>m\<in>set vis. is_marker m"
    and dist: "distinct (vis @ [n])"
  shows "wholly ns (vis @ [n]) g \<Longrightarrow>
      filter (stays ns (vis @ [n])) (vis @ [n]) = unlink_group g (filter (stays ns vis) vis)"
    and "\<not> wholly ns (vis @ [n]) g \<Longrightarrow>
      filter (stays ns (vis @ [n])) (vis @ [n]) = filter (stays ns vis) vis @ [n]"
proof -
  have other: "stays ns (vis @ [n]) m \<longleftrightarrow> stays ns vis m"
    if "m \<in> set vis" "m \<noteq> Open g" "m \<noteq> Close g" for m
  proof -
    from that vis have "is_marker m" by blast
    then obtain h where "m = Open h \<or> m = Close h"
      by (cases m) auto
    with that n dist show ?thesis
      by (intro stays_snoc [of n g _ h]) auto
  qed
  { assume w: "wholly ns (vis @ [n]) g"
    have "stays ns (vis @ [n]) m \<longleftrightarrow> stays ns vis m \<and> m \<noteq> Open g \<and> m \<noteq> Close g"
      if "m \<in> set vis" for m
      using other [OF that] w by (cases "m = Open g \<or> m = Close g") (auto simp: stays_def)
    moreover have "\<not> stays ns (vis @ [n]) n"
      using w n by (auto simp: stays_def)
    ultimately show "filter (stays ns (vis @ [n])) (vis @ [n]) = unlink_group g (filter (stays ns vis) vis)"
      by (simp add: unlink_group_def conj_commute cong: filter_cong) }
  { assume w: "\<not> wholly ns (vis @ [n]) g"
    then have "\<not> wholly ns vis g"
      by (auto simp: wholly_def)
    then have "stays ns (vis @ [n]) m \<longleftrightarrow> stays ns vis m" if "m \<in> set vis" for m
      using other [OF that] w by (cases "m = Open g \<or> m = Close g") (auto simp: stays_def)
    moreover have "stays ns (vis @ [n]) n"
      using w n by (auto simp: stays_def)
    ultimately show "filter (stays ns (vis @ [n])) (vis @ [n]) = filter (stays ns vis) vis @ [n]"
      by (simp cong: filter_cong) }
qed

lemma shade_snoc:
  assumes n: "n = Open g \<or> n = Close g" and fresh: "n \<notin> set vis"
  shows "h \<noteq> g \<Longrightarrow> shade ns (vis @ [n]) h = shade ns vis h"
    and "n = Open g \<Longrightarrow> Close g \<notin> set vis \<Longrightarrow>
      shade ns vis g = 0 \<and> shade ns (vis @ [n]) g = (if Close g \<in> set ns then 1 else 2)"
    and "n = Close g \<Longrightarrow> Close g \<in> set ns \<Longrightarrow>
      shade ns (vis @ [n]) g = shade ns vis g + 1 \<and> shade ns vis g = (if Open g \<in> set vis then 1 else 0)"
  using assms by (auto simp: shade_def)

lemma wholly_snoc:
  assumes n: "n = Open g \<or> n = Close g" and fresh: "n \<notin> set vis" and ns: "n \<in> set ns"
    and order: "n = Open g \<Longrightarrow> Close g \<notin> set vis"
  shows "wholly ns (vis @ [n]) h \<longleftrightarrow> wholly ns vis h \<or> h = g \<and> shade ns (vis @ [n]) g = 2"
    and "\<not> wholly ns vis g"
  using assms by (auto simp: wholly_def shade_def)

lemma second_pass_drop:
  assumes "node_to_group n = Some g" "Open g \<in> set (bef @ (n # aft) @ post)"
    and "(if Close g \<notin> set (bef @ (n # aft) @ post) then col g + 1 + 1 else col g + 1) = 2"
    and "\<not> (aft @ post \<noteq> [] \<and> hd (aft @ post) \<in> {Open g, Close g})"
  shows "second_pass bef (n # aft) post todo col =
     second_pass (unlink_group g bef) (unlink_group g aft) (unlink_group g post) (todo @ [Open g]) (col(g := 2))"
proof -
  have "Open g \<in> set ((bef @ (n # aft) @ post) @ todo)" using assms(2) by auto
  then show ?thesis
    unfolding second_pass.simps assms(1) option.case Let_def assms(3) using assms(4) by auto
qed

lemma second_pass_keep:
  assumes "node_to_group n = Some g" "Open g \<in> set (bef @ (n # aft) @ post)"
    and "(if Close g \<notin> set (bef @ (n # aft) @ post) then col g + 1 + 1 else col g + 1) = 1"
  shows "second_pass bef (n # aft) post todo col = second_pass (bef @ [n]) aft post todo (col(g := 1))"
proof -
  have "Open g \<in> set ((bef @ (n # aft) @ post) @ todo)" using assms(2) by auto
  then show ?thesis
    unfolding second_pass.simps assms(1) option.case Let_def assms(3) by simp
qed

text \<open>
  One step of the second pass, on a list that is well-formed: none of the \<open>BUG_ON\<close>s fires and
  the saved successor stays linked.
\<close>

lemma second_pass_step:
  assumes wf: "list_wf ns" and ns: "ns = pre @ vis @ n # aft @ post"
    and n: "n = Open g \<or> n = Close g" and vis: "\<forall>m\<in>set vis. is_marker m"
    and bef: "bef = pre @ filter (stays ns vis) vis" and col: "col g = shade ns vis g"
  shows "second_pass bef (n # aft) post todo col =
     second_pass (pre @ filter (stays ns (vis @ [n])) (vis @ [n])) aft post
       (todo @ (if shade ns (vis @ [n]) g = 2 then [Open g] else [])) (col(g := shade ns (vis @ [n]) g))"
proof -
  have dist: "distinct ns" by (rule list_wf_distinct [OF wf])
  have fresh: "n \<notin> set vis" "n \<notin> set pre" "n \<notin> set (aft @ post)" using dist ns by auto
  have dv: "distinct (vis @ [n])" using dist ns by auto
  have order: "Open g \<in> set (pre @ vis)" if "n = Close g"
    using list_wf_open_first [of "pre @ vis" g "aft @ post"] wf ns that by simp
  have order': "Close g \<notin> set (pre @ vis)" if "n = Open g"
  proof
    assume "Close g \<in> set (pre @ vis)"
    then obtain xs ys where xy: "pre @ vis = xs @ Close g # ys" by (metis in_set_conv_decomp)
    then have eq: "ns = xs @ Close g # ys @ n # aft @ post"
      by (simp add: ns flip: append_assoc)
    then have "Open g \<in> set xs" using wf by (intro list_wf_open_first [of xs g "ys @ n # aft @ post"]) simp
    with eq that dist show False by auto
  qed
  have nw: "\<not> wholly ns vis g"
    using n fresh order' by (intro wholly_snoc(2) [of n]) (auto simp: ns)
  have whole: "m \<in> set (bef @ (n # aft) @ post) \<longleftrightarrow> m \<in> set ns" if "m = Open g \<or> m = Close g" for m
    using that nw by (auto simp: bef ns stays_def)
  have w: "wholly ns (vis @ [n]) g \<longleftrightarrow> shade ns (vis @ [n]) g = 2"
    using nw n fresh order' wholly_snoc(1) [of n g vis ns g] by (auto simp: ns)
  have opened: "Open g \<in> set (bef @ (n # aft) @ post)"
    using order n by (subst whole) (auto simp: ns)
  have c2: "(if Close g \<notin> set (bef @ (n # aft) @ post) then col g + 1 + 1 else col g + 1) = shade ns (vis @ [n]) g"
    (is "?c = ?s")
    using n
  proof
    assume "n = Open g"
    with shade_snoc(2) [of n g vis ns] fresh(1) order' show ?thesis
      unfolding col whole [OF disjI2 [OF refl]] by auto
  next
    assume "n = Close g"
    moreover from this have "Close g \<in> set ns" by (simp add: ns)
    ultimately show ?thesis
      using shade_snoc(3) [of n g vis ns] fresh(1) unfolding col whole [OF disjI2 [OF refl]] by simp
  qed
  have s: "?s = 1 \<or> ?s = 2"
    using n fresh order' by (auto simp: shade_def ns)
  have next_ok: "\<not> (aft @ post \<noteq> [] \<and> hd (aft @ post) \<in> {Open g, Close g})"
    "unlink_group g pre = pre" "unlink_group g aft = aft" "unlink_group g post = post" if "?s = 2"
  proof -
    from that w have "wholly ns (vis @ [n]) g" by simp
    then have mem: "Open g \<notin> set pre" "Open g \<notin> set (aft @ post)" "Close g \<notin> set pre" "Close g \<notin> set (aft @ post)"
      using dist by (auto simp: wholly_def ns)
    then show "unlink_group g pre = pre" "unlink_group g aft = aft" "unlink_group g post = post"
      by simp_all
    show "\<not> (aft @ post \<noteq> [] \<and> hd (aft @ post) \<in> {Open g, Close g})"
      using mem hd_in_set [of "aft @ post"] by (metis insert_iff singletonD)
  qed
  have ng: "node_to_group n = Some g" using n by auto
  show ?thesis
  proof (cases "?s = 2")
    case True
    with w have "filter (stays ns (vis @ [n])) (vis @ [n]) = unlink_group g (filter (stays ns vis) vis)"
      by (intro filter_stays_snoc(1) [OF n vis dv]) simp
    with True show ?thesis
      using second_pass_drop [of n g bef aft post col todo, OF ng opened c2 [unfolded True] next_ok(1) [OF True]] next_ok(2,3,4)
      by (simp add: bef unlink_group_append)
  next
    case False
    with w have "filter (stays ns (vis @ [n])) (vis @ [n]) = filter (stays ns vis) vis @ [n]"
      by (intro filter_stays_snoc(2) [OF n vis dv]) simp
    moreover from False s have one: "?s = 1" by simp
    ultimately show ?thesis
      using second_pass_keep [of n g bef aft post col todo, OF ng opened c2 [unfolded one]] by (simp add: bef one)
  qed
qed

lemma second_pass_correct:
  assumes wf: "list_wf ns" and ns: "ns = pre @ rng @ post"
    and markers: "\<forall>m\<in>set rng. is_marker m" and rng: "rng = vis @ aft"
    and col: "\<forall>g. Open g \<in> set aft \<or> Close g \<in> set aft \<longrightarrow> col g = shade ns vis g"
  shows "\<exists>gs col'. second_pass (pre @ filter (stays ns vis) vis) aft post todo col =
      Some (pre @ filter (stays ns rng) rng @ post, todo @ map Open gs, col') \<and>
      distinct gs \<and> (\<forall>g. g \<in> set gs \<longleftrightarrow> wholly ns rng g \<and> \<not> wholly ns vis g)"
  using rng col
proof (induction aft arbitrary: vis todo col)
  case Nil
  then show ?case by (intro exI [of _ "[]"] exI [of _ col]) simp
next
  case (Cons n aft)
  from markers Cons.prems(1) have "is_marker n" by simp
  then obtain g where n: "n = Open g \<or> n = Close g" by (cases n) auto
  have split: "ns = pre @ vis @ n # aft @ post" using ns Cons.prems(1) by simp
  have dist: "distinct ns" by (rule list_wf_distinct [OF wf])
  let ?s = "shade ns (vis @ [n]) g"
  let ?now = "if ?s = 2 then [g] else []"
  have order: "Close g \<notin> set vis" if "n = Open g"
  proof
    assume "Close g \<in> set vis"
    then obtain xs ys where "vis = xs @ Close g # ys" by (auto simp: in_set_conv_decomp)
    with split wf have "Open g \<in> set (pre @ xs)"
      by (intro list_wf_open_first [of _ g "ys @ n # aft @ post"]) simp
    with that split dist \<open>vis = _\<close> show False by auto
  qed
  have fresh: "n \<notin> set vis" using split dist by auto
  have step: "second_pass (pre @ filter (stays ns vis) vis) (n # aft) post todo col =
      second_pass (pre @ filter (stays ns (vis @ [n])) (vis @ [n])) aft post (todo @ map Open ?now) (col(g := ?s))"
  proof -
    have "\<forall>m\<in>set vis. is_marker m" using markers Cons.prems(1) by simp
    moreover have "col g = shade ns vis g" using Cons.prems(2) n by auto
    ultimately show ?thesis
      by (subst second_pass_step [OF wf split n]) simp_all
  qed
  have cols: "(col(g := ?s)) h = shade ns (vis @ [n]) h" if "Open h \<in> set aft \<or> Close h \<in> set aft" for h
    using Cons.prems(2) that shade_snoc(1) [OF n fresh, of h ns] by (cases "h = g") auto
  have "\<exists>gs col'. second_pass (pre @ filter (stays ns (vis @ [n])) (vis @ [n])) aft post
        (todo @ map Open ?now) (col(g := ?s)) =
      Some (pre @ filter (stays ns rng) rng @ post, (todo @ map Open ?now) @ map Open gs, col') \<and>
      distinct gs \<and> (\<forall>h. h \<in> set gs \<longleftrightarrow> wholly ns rng h \<and> \<not> wholly ns (vis @ [n]) h)"
    by (rule Cons.IH) (use Cons.prems(1) in simp, use cols in blast)
  then obtain gs col' where IH: "second_pass (pre @ filter (stays ns (vis @ [n])) (vis @ [n])) aft post
        (todo @ map Open ?now) (col(g := ?s)) =
      Some (pre @ filter (stays ns rng) rng @ post, (todo @ map Open ?now) @ map Open gs, col')"
    and gs: "distinct gs" "\<And>h. h \<in> set gs \<longleftrightarrow> wholly ns rng h \<and> \<not> wholly ns (vis @ [n]) h"
    by blast
  note w = wholly_snoc [OF n fresh _ order, of ns]
  have mono: "wholly ns rng h" if "wholly ns (vis @ [n]) h" for h
    using that Cons.prems(1) by (auto simp: wholly_def)
  have "distinct (?now @ gs)"
    using gs w(1) [of g] split by auto
  moreover have "h \<in> set (?now @ gs) \<longleftrightarrow> wholly ns rng h \<and> \<not> wholly ns vis h" for h
    using gs(2) [of h] w split mono [of h] by auto
  moreover have "second_pass (pre @ filter (stays ns vis) vis) (n # aft) post todo col =
      Some (pre @ filter (stays ns rng) rng @ post, todo @ map Open (?now @ gs), col')"
    unfolding step IH by simp
  ultimately show ?case by blast
qed

text \<open>\<open>remove_nodes\<close> on a part of a well-formed list.\<close>

lemma remove_nodes_correct:
  assumes wf: "devres_wf dev" and split: "devres_head dev = pre @ rng @ post"
  shows "\<exists>gs col. remove_nodes dev pre rng post =
      Some (int (length (entries rng)), map Node (entries rng) @ map Open gs,
        dev\<lparr>devres_head := pre @ filter (stays (devres_head dev) rng) rng @ post, color := col\<rparr>) \<and>
      distinct gs \<and> (\<forall>g. g \<in> set gs \<longleftrightarrow> wholly (devres_head dev) rng g)"
proof -
  let ?R = "filter is_marker rng" and ?ns = "pre @ filter is_marker rng @ post"
  have regular: "filter (\<lambda>n. \<not> is_marker n) rng = map Node (entries rng)" for rng :: "('a, 'b) devres_node list"
    by (induction rng) (simp, rename_tac n ns, case_tac n, simp_all)
  have w: "wholly ?ns ?R g \<longleftrightarrow> wholly (devres_head dev) rng g" for g
    by (auto simp: wholly_def split)
  then have stays: "stays ?ns ?R n \<longleftrightarrow> stays (devres_head dev) rng n" for n
    by (cases "node_to_group n") (simp_all add: stays_def)
  have "list_wf (pre @ filter is_marker rng @ post)"
  proof -
    have "distinct (map node_id (pre @ rng @ post))"
      using wf by (simp add: list_wf_def split)
    moreover have "markers_ok ops (xs @ filter is_marker ys @ zs) = markers_ok ops (xs @ ys @ zs)" for ops xs ys zs
    proof -
      have "[g. Open g \<leftarrow> rev (filter is_marker ys)] = [g. Open g \<leftarrow> rev ys]"
        by (induction ys rule: rev_induct) (simp, rename_tac n ns, case_tac n, simp_all)
      moreover have "markers_ok ops (filter is_marker ys) = markers_ok ops ys" for ops
        by (induction ops ys rule: markers_ok.induct) simp_all
      ultimately show ?thesis by (simp add: markers_ok_append)
    qed
    ultimately show ?thesis
      using wf by (auto simp: list_wf_def split distinct_map_filter)
  qed
  then have "\<exists>gs col'. second_pass (pre @ filter (stays ?ns []) []) ?R post (map Node (entries rng))
        (\<lambda>g. if Open g \<in> set rng \<or> Close g \<in> set rng then 0 else color dev g) =
      Some (pre @ filter (stays ?ns ?R) ?R @ post, map Node (entries rng) @ map Open gs, col') \<and>
      distinct gs \<and> (\<forall>g. g \<in> set gs \<longleftrightarrow> wholly ?ns ?R g \<and> \<not> wholly ?ns [] g)"
    by (rule second_pass_correct) (simp_all add: shade_def)
  then obtain gs col where sp: "second_pass pre ?R post (map Node (entries rng))
        (\<lambda>g. if Open g \<in> set rng \<or> Close g \<in> set rng then 0 else color dev g) =
      Some (pre @ filter (stays ?ns ?R) ?R @ post, map Node (entries rng) @ map Open gs, col)"
    and gs: "distinct gs" "\<And>g. g \<in> set gs \<longleftrightarrow> wholly ?ns ?R g"
    by (simp only: filter.simps append_Nil2 wholly_def [of _ "[]"] list.set empty_iff simp_thms) blast
  have kept: "filter (stays ?ns ?R) ?R = filter (stays (devres_head dev) rng) rng"
    by (simp add: stays) (rule filter_cong, auto simp: stays_def node_to_group_Some split: option.splits)
  show ?thesis
  proof (cases "?R = []")
    case True
    then have "\<not> wholly ?ns ?R g" for g by (simp add: wholly_def)
    with gs have "gs = []" by (metis list.set_intros(1) neq_Nil_conv)
    have none: "filter (stays (devres_head dev) rng) rng = []"
      using kept True by simp
    from True have "(length ?R = 0) = True" by simp
    then have "remove_nodes dev pre rng post =
        Some (int (length (entries rng)), map Node (entries rng) @ map Open gs,
          dev\<lparr>devres_head := pre @ filter (stays (devres_head dev) rng) rng @ post,
            color := \<lambda>g. if Open g \<in> set rng \<or> Close g \<in> set rng then 0 else color dev g\<rparr>)"
      by (simp only: remove_nodes_def first_pass_eq prod.case regular none if_True length_map
          \<open>gs = []\<close> list.map append_Nil append_Nil2)
    with gs show ?thesis unfolding w by blast
  next
    case False
    then have "(length ?R = 0) = False" by simp
    then have "remove_nodes dev pre rng post =
        Some (int (length (entries rng)), map Node (entries rng) @ map Open gs,
          dev\<lparr>devres_head := pre @ filter (stays (devres_head dev) rng) rng @ post, color := col\<rparr>)"
      by (simp only: remove_nodes_def first_pass_eq prod.case regular sp kept option.case if_False length_map)
    with gs show ?thesis unfolding w by blast
  qed
qed

section \<open>Every operation keeps the list well-formed\<close>

lemma add_dr_Some:
  "add_dr dev n = Some dev' \<longleftrightarrow> \<not> linked dev n \<and> dev' = dev\<lparr>devres_head := devres_head dev @ [n]\<rparr>"
  by (auto simp: add_dr_def)

lemma linked_Node_if_in: "n \<in> set (devres_head dev) \<Longrightarrow> linked dev n"
  by (auto simp: linked_def)

lemma linked_Close: "linked dev (Close g) \<longleftrightarrow> Close g \<in> set (devres_head dev)"
proof
  assume "linked dev (Close g)"
  then obtain n where "n \<in> set (devres_head dev)" "node_id n = (g, 1)"
    by (auto simp: linked_def)
  moreover from this(2) have "n = Close g" by (cases n) auto
  ultimately show "Close g \<in> set (devres_head dev)" by simp
qed (rule linked_Node_if_in)

lemma add_dr_wf [kept]:
  assumes "devres_wf dev" "add_dr dev n = Some dev'" "\<And>g. n = Close g \<Longrightarrow> Open g \<in> set (devres_head dev)"
  shows "devres_wf dev'"
  using assms by (auto simp: add_dr_Some list_wf_snoc linked_def)

lemma decomp_marker:
  assumes "is_marker n"
  shows "(\<exists>xs ys. n # ns = xs @ Node dr # ys \<and> P (entries xs)) \<longleftrightarrow>
      (\<exists>xs ys. ns = xs @ Node dr # ys \<and> P (entries xs))" (is "?l = ?r")
proof
  assume ?l
  then obtain xs ys where xy: "n # ns = xs @ Node dr # ys" "P (entries xs)" by blast
  with assms obtain xs' where "xs = n # xs'" by (cases xs) auto
  with xy assms show ?r by (intro exI [of _ xs'] exI [of _ ys]) (cases n; simp)
next
  assume ?r
  then obtain xs ys where "ns = xs @ Node dr # ys" "P (entries xs)" by blast
  with assms show ?l by (intro exI [of _ "n # xs"] exI [of _ ys]) (cases n; simp)
qed

lemma find_dr_loop_Some:
  "find_dr_loop rel m ns = Some dr \<longleftrightarrow>
     (\<exists>xs ys. ns = xs @ Node dr # ys \<and> selects rel m dr \<and> (\<forall>e\<in>set (entries xs). \<not> selects rel m e))"
proof (induction rel m ns rule: find_dr_loop.induct [case_names nil entry start stop])
  case (entry rel m d ns)
  show ?case
  proof (cases "selects rel m d")
    case True
    have "dr = d" if "Node d # ns = xs @ Node dr # ys" "\<forall>e\<in>set (entries xs). \<not> selects rel m e" for xs ys
      using that True by (cases xs) auto
    moreover have "\<exists>xs ys. Node d # ns = xs @ Node d # ys \<and> (\<forall>e\<in>set (entries xs). \<not> selects rel m e)"
      by (intro exI [of _ "[]"] exI [of _ ns]) simp
    ultimately show ?thesis using True by (simp only: find_dr_loop.simps if_True option.inject) blast
  next
    case False
    have "(\<exists>xs ys. ns = xs @ Node dr # ys \<and> selects rel m dr \<and> (\<forall>e\<in>set (entries xs). \<not> selects rel m e)) \<longleftrightarrow>
        (\<exists>xs ys. Node d # ns = xs @ Node dr # ys \<and> selects rel m dr \<and> (\<forall>e\<in>set (entries xs). \<not> selects rel m e))"
      (is "?l = ?r")
    proof
      assume ?l
      then obtain xs ys where "ns = xs @ Node dr # ys" "selects rel m dr" "\<forall>e\<in>set (entries xs). \<not> selects rel m e"
        by blast
      with False show ?r by (intro exI [of _ "Node d # xs"] exI [of _ ys]) simp
    next
      assume ?r
      then obtain xs ys where *: "Node d # ns = xs @ Node dr # ys" "selects rel m dr"
        "\<forall>e\<in>set (entries xs). \<not> selects rel m e" by blast
      with False obtain xs' where "xs = Node d # xs'" by (cases xs) auto
      with * show ?l by (intro exI [of _ xs'] exI [of _ ys]) simp
    qed
    with False entry show ?thesis by simp
  qed
next
  case (start rel m g ns)
  then show ?case
    using decomp_marker [of "Open g" ns dr "\<lambda>es. selects rel m dr \<and> (\<forall>e\<in>set es. \<not> selects rel m e)"]
    by simp
next
  case (stop rel m g ns)
  then show ?case
    using decomp_marker [of "Close g" ns dr "\<lambda>es. selects rel m dr \<and> (\<forall>e\<in>set es. \<not> selects rel m e)"]
    by simp
qed simp

text \<open>\<open>find_dr\<close> finds the entry added last among those it selects.\<close>

lemma find_dr_Some:
  "find_dr dev rel m = Some dr \<longleftrightarrow>
     (\<exists>xs ys. devres_head dev = xs @ Node dr # ys \<and> selects rel m dr \<and>
        (\<forall>e\<in>set (entries ys). \<not> selects rel m e))"
proof -
  have "rev ns = xs @ Node dr # ys \<longleftrightarrow> ns = rev ys @ Node dr # rev xs" for xs ys and ns :: "('a, 'b) devres_node list"
    by (simp add: rev_swap)
  moreover have "(\<exists>xs ys. P (rev ys) (rev xs)) \<longleftrightarrow> (\<exists>xs ys. P xs ys)" for P :: "'e list \<Rightarrow> 'f list \<Rightarrow> bool"
    by (metis rev_rev_ident)
  from this [of "\<lambda>xs ys. devres_head dev = xs @ Node dr # ys \<and> selects rel m dr \<and>
      (\<forall>e\<in>set (entries ys). \<not> selects rel m e)"]
  have "(\<exists>xs ys. devres_head dev = rev ys @ Node dr # rev xs \<and> selects rel m dr \<and>
      (\<forall>e\<in>set (entries xs). \<not> selects rel m e)) \<longleftrightarrow>
    (\<exists>xs ys. devres_head dev = xs @ Node dr # ys \<and> selects rel m dr \<and>
      (\<forall>e\<in>set (entries ys). \<not> selects rel m e))"
    by (simp only: entries_rev set_rev)
  ultimately show ?thesis
    unfolding find_dr_def find_dr_loop_Some by simp
qed

lemma find_dr_loop_None: "find_dr_loop rel m ns = None \<longleftrightarrow> (\<forall>e\<in>set (entries ns). \<not> selects rel m e)"
  by (induction rel m ns rule: find_dr_loop.induct) auto

lemma find_dr_None: "find_dr dev rel m = None \<longleftrightarrow> (\<forall>e\<in>set (entries (devres_head dev)). \<not> selects rel m e)"
  by (simp add: find_dr_def find_dr_loop_None entries_rev del: set_entries)

text \<open>Unlinking a node of a well-formed list takes out that node and no other.\<close>

lemma filter_node_id:
  assumes "list_wf (xs @ n # ys)"
  shows "filter (\<lambda>m. node_id m \<noteq> node_id n) (xs @ n # ys) = xs @ ys"
proof -
  have "node_id n \<notin> node_id ` set xs" "node_id n \<notin> node_id ` set ys"
    using assms by (simp_all add: list_wf_def)
  then have "\<forall>m\<in>set xs. node_id m \<noteq> node_id n" "\<forall>m\<in>set ys. node_id m \<noteq> node_id n"
    by (metis image_eqI)+
  then show ?thesis by (simp add: filter_id_conv)
qed

lemma devres_remove_Some:
  assumes "devres_wf dev" "devres_remove dev rel m = (Some dr, dev')"
  obtains xs ys where "devres_head dev = xs @ Node dr # ys" "selects rel m dr"
    "\<forall>e\<in>set (entries ys). \<not> selects rel m e" "dev' = dev\<lparr>devres_head := xs @ ys\<rparr>"
    "devres_wf dev'" "\<not> linked dev' (Node dr)"
proof -
  from assms(2) have f: "find_dr dev rel m = Some dr"
    and d: "dev' = list_del_init (node_id (Node dr)) dev"
    by (auto simp: devres_remove_def split: option.splits)
  from f obtain xs ys where xy: "devres_head dev = xs @ Node dr # ys" "selects rel m dr"
    "\<forall>e\<in>set (entries ys). \<not> selects rel m e"
    by (auto simp: find_dr_Some)
  have fil: "filter (\<lambda>n. node_id n \<noteq> node_id (Node dr)) (xs @ Node dr # ys) = xs @ ys"
    by (rule filter_node_id) (use assms(1) xy(1) in simp)
  have "list_wf (filter (\<lambda>n. node_id n \<noteq> node_id (Node dr)) (devres_head dev))"
  proof (rule list_wf_filter [OF assms(1)])
    fix g assume "Close g \<in> set (devres_head dev)"
    then have "Open g \<in> set (devres_head dev)"
      using assms(1) list_wf_open_first by (metis in_set_conv_decomp Un_iff set_append)
    then show "node_id (Open g) \<noteq> node_id (Node dr)"
      using assms(1) xy(1) by (auto simp: list_wf_def image_iff)
  qed
  moreover have "Node dr \<notin> set (xs @ ys) \<and> node_id (Node dr) \<notin> node_id ` set (xs @ ys)"
    by (simp only: fil [symmetric]) auto
  ultimately show ?thesis
    using fil xy d by (intro that [of xs ys]) (simp_all add: list_del_init_def linked_def)
qed

text \<open>What a sequence of releases does to the state outside of the list.\<close>

definition release_fold ::
  "('r \<Rightarrow> addr \<Rightarrow> 'd \<Rightarrow> 'w \<Rightarrow> 'w) \<Rightarrow> ('r, 'd) devres list \<Rightarrow> 'w \<Rightarrow> 'w" where
  "release_fold run drs = fold (\<lambda>dr. run (dr_release dr) (dr_ptr dr) (dr_data dr)) drs"

lemma release_fold_simps [simp]:
  "release_fold run [] w = w"
  "release_fold run (dr # drs) w = release_fold run drs (run (dr_release dr) (dr_ptr dr) (dr_data dr) w)"
  "release_fold run (xs @ ys) w = release_fold run ys (release_fold run xs w)"
  by (simp_all add: release_fold_def)

lemma release_nodes_eq:
  "release_nodes run dev todo =
     dev\<lparr>freed := freed dev @ map (fst \<circ> node_id) (rev todo),
         world := release_fold run (rev (entries todo)) (world dev)\<rparr>"
proof -
  have "fold (release_node run) ns dev =
     dev\<lparr>freed := freed dev @ map (fst \<circ> node_id) ns, world := release_fold run (entries ns) (world dev)\<rparr>"
    for ns and dev :: "('a, 'b, 'c) device"
  proof (induction ns arbitrary: dev)
    case (Cons n ns)
    then show ?case by (cases n) (simp_all add: kfree_def)
  qed simp
  then show ?thesis by (simp add: release_nodes_def entries_rev)
qed

text \<open>The nodes a release of the part \<open>rng\<close> leaves are a well-formed list again.\<close>

lemma stays_wf:
  assumes wf: "list_wf ns" and ns: "ns = pre @ rng @ post"
  shows "list_wf (pre @ filter (stays ns rng) rng @ post)"
proof -
  have dist: "distinct ns" by (rule list_wf_distinct [OF wf])
  let ?P = "\<lambda>n. n \<in> set rng \<longrightarrow> stays ns rng n"
  have "list_wf (filter ?P ns)"
  proof (rule list_wf_filter [OF wf])
    fix g assume *: "Close g \<in> set ns" "?P (Close g)"
    show "?P (Open g)"
    proof
      assume "Open g \<in> set rng"
      with * show "stays ns rng (Open g)" by (auto simp: stays_def wholly_def)
    qed
  qed
  moreover have "filter ?P pre = pre" "filter ?P post = post"
    using dist by (auto simp: ns filter_id_conv)
  moreover have "filter ?P rng = filter (stays ns rng) rng"
    by (rule filter_cong) auto
  ultimately show ?thesis by (simp only: ns filter_append)
qed

lemma Node_id_in: "Node dr \<in> set ns \<Longrightarrow> (dr_ptr dr, 0) \<in> node_id ` set ns"
  by force

lemma release_range:
  assumes wf: "devres_wf dev" and split: "devres_head dev = pre @ rng @ post"
  shows "\<exists>todo dev1 fs. remove_nodes dev pre rng post = Some (int (length (entries rng)), todo, dev1) \<and>
     (let dev' = release_nodes run dev1 todo
      in devres_wf dev' \<and> devres_head dev' = pre @ filter (stays (devres_head dev) rng) rng @ post \<and>
         world dev' = release_fold run (rev (entries rng)) (world dev) \<and>
         freed dev' = freed dev @ fs \<and> distinct fs \<and>
         set fs = dr_ptr ` set (entries rng) \<union> {g. wholly (devres_head dev) rng g})"
proof -
  obtain gs col where r: "remove_nodes dev pre rng post =
      Some (int (length (entries rng)), map Node (entries rng) @ map Open gs,
        dev\<lparr>devres_head := pre @ filter (stays (devres_head dev) rng) rng @ post, color := col\<rparr>)"
    and gs: "distinct gs" "\<And>g. g \<in> set gs \<longleftrightarrow> wholly (devres_head dev) rng g"
    using remove_nodes_correct [OF wf split] by blast
  let ?fs = "rev gs @ rev (map dr_ptr (entries rng))"
  have ids: "distinct (map node_id rng)"
    using wf by (simp add: list_wf_def split)
  have "distinct (map dr_ptr (entries rng))"
    using ids by (induction rng) (simp, rename_tac n ns, case_tac n, auto dest: Node_id_in)
  moreover have "Open (dr_ptr dr) \<notin> set rng" if "Node dr \<in> set rng" for dr
  proof
    let ?g = "dr_ptr dr"
    assume "Open ?g \<in> set rng"
    have "node_id (Node dr) = node_id (Open ?g :: ('a, 'b) devres_node)" by simp
    with that \<open>Open ?g \<in> set rng\<close> ids have "Node dr = (Open ?g :: ('a, 'b) devres_node)"
      by (metis distinct_map inj_on_eq_iff)
    then show False by simp
  qed
  ultimately have "distinct ?fs"
    using gs by (auto simp: wholly_def)
  moreover have "entries (map Open gs :: ('a, 'b) devres_node list) = []"
    by (induction gs) simp_all
  moreover have "entries (map Node drs) = drs" for drs :: "('a, 'b) devres list"
    by (induction drs) simp_all
  moreover have "map (fst \<circ> node_id) (rev (map Node (entries rng) @ map Open gs)) = ?fs"
    by (simp add: rev_map comp_def)
  ultimately show ?thesis
    using gs(2) stays_wf [OF wf split]
    apply -
    by (rule exI, rule exI, rule exI [of _ ?fs], rule conjI, rule r,
        auto simp: release_nodes_eq Let_def)
qed

lemma find_group_loop_Some: "find_group_loop dev gid ns = Some g \<Longrightarrow> Open g \<in> set ns"
  by (induction dev gid ns rule: find_group_loop.induct) (auto split: devres_node.splits if_splits)

lemma find_group_in: "find_group dev gid = Some g \<Longrightarrow> Open g \<in> set (devres_head dev)"
  by (auto simp: find_group_def dest: find_group_loop_Some)

lemma group_range_Some:
  assumes wf: "devres_wf dev" and g: "Open g \<in> set (devres_head dev)"
  obtains pre inside post where "group_range dev g = Some (pre, Open g # inside, post)"
    "devres_head dev = pre @ (Open g # inside) @ post"
    "if Close g \<in> set (devres_head dev) then inside \<noteq> [] \<and> last inside = Close g \<and> Close g \<notin> set (butlast inside)
     else post = []"
proof -
  from g obtain pre rest where pr: "devres_head dev = pre @ Open g # rest" "Open g \<notin> set pre"
    by (metis split_list_first)
  have tw: "takeWhile (\<lambda>n. n \<noteq> Open g) (devres_head dev) = pre"
    "dropWhile (\<lambda>n. n \<noteq> Open g) (devres_head dev) = Open g # rest"
    using pr by (simp_all add: while_first)
  show ?thesis
  proof (cases "Close g \<in> set (devres_head dev)")
    case False
    with tw pr show ?thesis
      by (intro that [of pre rest "[]"]) (auto simp: group_range_def linked_Close)
  next
    case True
    have "Close g \<notin> set pre"
    proof
      assume "Close g \<in> set pre"
      then obtain xs ys where "pre = xs @ Close g # ys" by (metis split_list)
      moreover from this have "Open g \<in> set xs"
        using wf pr(1) list_wf_open_first [of xs g "ys @ Open g # rest"] by simp
      ultimately show False using pr(2) by simp
    qed
    with True pr(1) obtain xs ys where xy: "rest = xs @ Close g # ys" "Close g \<notin> set xs"
      by (auto dest!: split_list_first)
    then have "takeWhile (\<lambda>n. n \<noteq> Close g) (Open g # rest) = Open g # xs"
      "dropWhile (\<lambda>n. n \<noteq> Close g) (Open g # rest) = Close g # ys"
      by (simp_all add: while_first)
    with True tw pr xy show ?thesis
      by (intro that [of pre "xs @ [Close g]" ys]) (auto simp: group_range_def linked_Close)
  qed
qed

section \<open>Devices that a sequence of operations reaches\<close>

text \<open>
  One operation on a device.  The allocator hands out addresses that are not linked, and a
  group is closed once: these are the only conditions.
\<close>

inductive devres_step ::
  "('r \<Rightarrow> addr \<Rightarrow> 'd \<Rightarrow> 'w \<Rightarrow> 'w) \<Rightarrow> ('r, 'd, 'w) device \<Rightarrow> ('r, 'd, 'w) device \<Rightarrow> bool"
  for run where
  add: "\<not> linked dev (Node dr) \<Longrightarrow> devres_add dev dr = Some dev' \<Longrightarrow> devres_step run dev dev'"
| get: "\<not> linked dev (Node dr) \<Longrightarrow> devres_get dev dr m = Some (dr', dev') \<Longrightarrow> devres_step run dev dev'"
| remove: "devres_remove dev rel m = (res, dev') \<Longrightarrow> devres_step run dev dev'"
| destroy: "devres_destroy dev rel m = Some (ret, dev') \<Longrightarrow> devres_step run dev dev'"
| release: "devres_release run dev rel m = Some (ret, dev') \<Longrightarrow> devres_step run dev dev'"
| release_all: "devres_release_all run dev = Some (ret, dev') \<Longrightarrow> devres_step run dev dev'"
| open_group: "\<forall>g. mem = Some g \<longrightarrow> \<not> linked dev (Open g) \<and> \<not> linked dev (Close g) \<Longrightarrow>
    devres_open_group dev gid mem = Some (i, dev') \<Longrightarrow> devres_step run dev dev'"
| close_group: "\<forall>g. find_group dev gid = Some g \<longrightarrow> \<not> linked dev (Close g) \<Longrightarrow>
    devres_close_group dev gid = Some dev' \<Longrightarrow> devres_step run dev dev'"
| remove_group: "devres_remove_group dev gid = dev' \<Longrightarrow> devres_step run dev dev'"
| release_group: "devres_release_group run dev gid = Some (cnt, dev') \<Longrightarrow> devres_step run dev dev'"
| for_each: "devres_for_each_res dev rel m fn = dev' \<Longrightarrow> devres_step run dev dev'"

text \<open>\<open>device_initialize\<close> leaves an empty list.\<close>

inductive devres_reachable ::
  "('r \<Rightarrow> addr \<Rightarrow> 'd \<Rightarrow> 'w \<Rightarrow> 'w) \<Rightarrow> ('r, 'd, 'w) device \<Rightarrow> bool" for run where
  init: "head_init dev \<Longrightarrow> devres_head dev = [] \<Longrightarrow> devres_reachable run dev"
| step: "devres_reachable run dev \<Longrightarrow> devres_step run dev dev' \<Longrightarrow> devres_reachable run dev'"

lemma devres_free_Some:
  "devres_free dev (Some dr) = Some dev' \<longleftrightarrow> \<not> linked dev (Node dr) \<and> dev' = kfree (dr_ptr dr) dev"
  by (auto simp: devres_free_def)

lemma kfree_simps [simp]:
  "devres_head (kfree p dev) = devres_head dev" "head_init (kfree p dev) = head_init dev"
  "world (kfree p dev) = world dev" "freed (kfree p dev) = freed dev @ [p]"
  by (simp_all add: kfree_def)

lemma devres_remove_wf [kept]:
  assumes "devres_wf dev" "devres_remove dev rel m = (res, dev')"
  shows "devres_wf dev' \<and> head_init dev' = head_init dev"
proof (cases res)
  case None
  with assms show ?thesis by (auto simp: devres_remove_def split: option.splits)
next
  case (Some dr)
  with assms(2) have "devres_remove dev rel m = (Some dr, dev')" by simp
  then show ?thesis using assms(1) by (auto elim: devres_remove_Some)
qed

lemma for_each_loop_ids: "map node_id (fst (for_each_loop rel m f ns w)) = map node_id ns \<and>
    map node_to_group (fst (for_each_loop rel m f ns w)) = map node_to_group ns"
  by (induction rel m f ns w rule: for_each_loop.induct)
    (auto simp: Let_def split: prod.splits devres_node.splits if_splits)

lemma markers_ok_cong:
  "map node_id xs = map node_id ys \<Longrightarrow> map node_to_group xs = map node_to_group ys \<Longrightarrow>
     markers_ok ops xs = markers_ok ops ys"
proof (induction ops xs arbitrary: ys rule: markers_ok.induct)
  case (2 ops dr ns)
  then show ?case by (cases ys; cases "hd ys") auto
next
  case (3 ops g ns)
  then show ?case by (cases ys; cases "hd ys") auto
next
  case (4 ops g ns)
  then show ?case by (cases ys; cases "hd ys") auto
qed simp

lemma list_wf_cong:
  "map node_id xs = map node_id ys \<Longrightarrow> map node_to_group xs = map node_to_group ys \<Longrightarrow> list_wf xs = list_wf ys"
  using markers_ok_cong [of xs ys] by (auto simp: list_wf_def)

lemma for_each_wf [kept]:
  assumes "devres_wf dev"
  shows "devres_wf (devres_for_each_res dev rel m fn)"
proof (cases fn)
  case (Some f)
  obtain ns w where fe: "for_each_loop rel m f (rev (devres_head dev)) (world dev) = (ns, w)" by fastforce
  with for_each_loop_ids [of rel m f "rev (devres_head dev)" "world dev"]
  have "map node_id (rev ns) = map node_id (devres_head dev)"
    "map node_to_group (rev ns) = map node_to_group (devres_head dev)"
    by (simp_all add: rev_swap flip: rev_map)
  with fe Some assms list_wf_cong [of "rev ns" "devres_head dev"] show ?thesis
    by (simp add: devres_for_each_res_def)
qed (use assms in \<open>simp add: devres_for_each_res_def\<close>)

lemma release_group_correct:
  assumes wf: "devres_wf dev" and g: "find_group dev gid = Some g"
  shows "\<exists>pre inside post dev' fs. devres_head dev = pre @ (Open g # inside) @ post \<and>
     (if Close g \<in> set (devres_head dev) then inside \<noteq> [] \<and> last inside = Close g else post = []) \<and>
     devres_release_group run dev gid = Some (int (length (entries inside)), dev') \<and>
     devres_wf dev' \<and>
     devres_head dev' = pre @ filter (stays (devres_head dev) (Open g # inside)) inside @ post \<and>
     world dev' = release_fold run (rev (entries inside)) (world dev) \<and>
     freed dev' = freed dev @ fs \<and> distinct fs \<and>
     set fs = dr_ptr ` set (entries inside) \<union> {h. wholly (devres_head dev) (Open g # inside) h}"
proof -
  obtain pre inside post where gr: "group_range dev g = Some (pre, Open g # inside, post)"
    and split: "devres_head dev = pre @ (Open g # inside) @ post"
    and last: "if Close g \<in> set (devres_head dev)
      then inside \<noteq> [] \<and> last inside = Close g \<and> Close g \<notin> set (butlast inside) else post = []"
    by (rule group_range_Some [OF wf find_group_in [OF g]])
  obtain todo dev1 fs where rn: "remove_nodes dev pre (Open g # inside) post =
      Some (int (length (entries (Open g # inside))), todo, dev1)"
    and rest: "let dev' = release_nodes run dev1 todo
      in devres_wf dev' \<and> devres_head dev' = pre @ filter (stays (devres_head dev) (Open g # inside)) (Open g # inside) @ post \<and>
         world dev' = release_fold run (rev (entries (Open g # inside))) (world dev) \<and>
         freed dev' = freed dev @ fs \<and> distinct fs \<and>
         set fs = dr_ptr ` set (entries (Open g # inside)) \<union> {h. wholly (devres_head dev) (Open g # inside) h}"
    using release_range [OF wf split, of run] by blast
  have "wholly (devres_head dev) (Open g # inside) g"
    using last by (auto simp: wholly_def split: if_splits dest: last_in_set)
  then have nstays: "stays (devres_head dev) (Open g # inside) (Open g) = False"
    by (simp add: stays_def)
  let ?d = "release_nodes run dev1 todo"
  have rel: "devres_release_group run dev gid = Some (int (length (entries inside)), ?d)"
    using g gr rn by (simp add: devres_release_group_def)
  have r: "devres_wf ?d" "devres_head ?d = pre @ filter (stays (devres_head dev) (Open g # inside)) inside @ post"
    "world ?d = release_fold run (rev (entries inside)) (world dev)" "freed ?d = freed dev @ fs" "distinct fs"
    "set fs = dr_ptr ` set (entries inside) \<union> {h. wholly (devres_head dev) (Open g # inside) h}"
    using rest unfolding Let_def entries_simps filter.simps nstays if_False by blast+
  have last': "if Close g \<in> set (devres_head dev) then inside \<noteq> [] \<and> last inside = Close g else post = []"
    using last by (simp split: if_splits)
  show ?thesis
    by (intro exI conjI) (rule split last' rel r)+
qed

lemma release_all_correct:
  assumes wf: "devres_wf dev" and init: "head_init dev"
  shows "\<exists>dev' fs. devres_release_all run dev = Some (int (length (entries (devres_head dev))), dev') \<and>
     devres_wf dev' \<and> devres_head dev' = [] \<and> head_init dev' \<and>
     world dev' = release_fold run (rev (entries (devres_head dev))) (world dev) \<and>
     freed dev' = freed dev @ fs \<and> distinct fs \<and>
     set fs = dr_ptr ` set (entries (devres_head dev)) \<union> {g. Open g \<in> set (devres_head dev)}"
proof (cases "devres_head dev = []")
  case True
  with init show ?thesis
    by (intro exI [of _ dev] exI [of _ "[]"]) (simp add: devres_release_all_def)
next
  case False
  let ?h = "devres_head dev"
  obtain todo dev1 fs where rn: "remove_nodes dev [] ?h [] = Some (int (length (entries ?h)), todo, dev1)"
    and rest: "let dev' = release_nodes run dev1 todo
      in devres_wf dev' \<and> devres_head dev' = [] @ filter (stays ?h ?h) ?h @ [] \<and>
         world dev' = release_fold run (rev (entries ?h)) (world dev) \<and>
         freed dev' = freed dev @ fs \<and> distinct fs \<and>
         set fs = dr_ptr ` set (entries ?h) \<union> {h. wholly ?h ?h h}"
    using release_range [OF wf, of "[]" ?h "[]" run] by auto
  have w: "wholly ?h ?h g \<longleftrightarrow> Open g \<in> set ?h" for g
    by (auto simp: wholly_def)
  have opened: "Open g \<in> set ?h" if "Close g \<in> set ?h" for g
    using wf that list_wf_open_first by (metis in_set_conv_decomp Un_iff set_append)
  have none: "filter (stays ?h ?h) ?h = []"
  proof (rule filter_False, rule ballI)
    fix n assume "n \<in> set ?h"
    then have "node_to_group n = Some g \<Longrightarrow> wholly ?h ?h g" for g
      using opened [of g] by (auto simp: w node_to_group_Some)
    then show "\<not> stays ?h ?h n"
      by (auto simp: stays_def split: option.splits)
  qed
  let ?d = "release_nodes run dev1 todo"
  have rel: "devres_release_all run dev = Some (int (length (entries ?h)), ?d)"
    using init False rn by (simp add: devres_release_all_def)
  have "head_init ?d"
    using rn init by (auto simp: release_nodes_eq remove_nodes_def split: prod.splits if_splits option.splits)
  moreover have "devres_wf ?d" "devres_head ?d = []"
    "world ?d = release_fold run (rev (entries ?h)) (world dev)" "freed ?d = freed dev @ fs" "distinct fs"
    "set fs = dr_ptr ` set (entries ?h) \<union> {g. Open g \<in> set ?h}"
    using rest unfolding Let_def none w append_Nil by blast+
  ultimately show ?thesis
    using rel by blast
qed

lemma devres_step_wf:
  assumes "devres_step run dev dev'" "devres_wf dev" "head_init dev"
  shows "devres_wf dev' \<and> head_init dev'"
  using assms
proof (induction rule: devres_step.induct)
  case (add dev dr dev')
  then show ?case by (auto simp: devres_add_def add_dr_Some list_wf_snoc linked_def)
next
  case (get dev dr m dr' dev')
  then show ?case
    by (auto simp: devres_get_def devres_free_def add_dr_Some list_wf_snoc linked_def kfree_def split: option.splits if_splits)
next
  case (remove dev rel m res dev')
  then show ?case by (auto dest: devres_remove_wf)
next
  case (destroy dev rel m ret dev')
  then show ?case
    by (auto simp: devres_destroy_def devres_free_Some dest: devres_remove_wf split: prod.splits option.splits)
next
  case (release dev rel m ret dev')
  then show ?case
    by (auto simp: devres_release_def devres_free_Some dest: devres_remove_wf split: prod.splits option.splits)
next
  case (release_all dev ret dev')
  then show ?case using release_all_correct [of dev run] by auto
next
  case (open_group mem dev gid i dev')
  then show ?case
    by (auto simp: devres_open_group_def Let_def add_dr_Some list_wf_snoc linked_def split: option.splits)
next
  case (close_group dev gid dev')
  then show ?case
    by (auto simp: devres_close_group_def add_dr_Some list_wf_snoc linked_def dest: find_group_in split: option.splits)
next
  case (remove_group dev gid dev')
  have "list_wf (filter (\<lambda>n. node_id n \<noteq> (g, 1)) (filter (\<lambda>n. node_id n \<noteq> (g, 0)) (devres_head dev)))" for g
  proof -
    have "list_wf (filter (\<lambda>n. node_id n \<noteq> (g, 0) \<and> node_id n \<noteq> (g, 1)) (devres_head dev))"
      by (rule list_wf_filter [OF remove_group.prems(1)]) auto
    then show ?thesis by (simp add: conj_commute)
  qed
  then show ?case
    using remove_group by (auto simp: devres_remove_group_def list_del_init_def split: option.splits)
next
  case (release_group dev gid cnt dev')
  show ?case
  proof (cases "find_group dev gid")
    case (Some g)
    with release_group have "devres_wf dev'"
      using release_group_correct [of dev gid g run] by auto
    moreover from release_group have "head_init dev'"
      by (auto simp: devres_release_group_def release_nodes_eq remove_nodes_def split: prod.splits if_splits option.splits)
    ultimately show ?thesis by simp
  qed (use release_group in \<open>auto simp: devres_release_group_def\<close>)
next
  case (for_each dev rel m fn dev')
  have "head_init (devres_for_each_res dev rel m fn) = head_init dev"
    by (auto simp: devres_for_each_res_def split: option.splits prod.splits)
  with for_each show ?case using for_each_wf [of dev rel m fn] by auto
qed

lemma devres_reachable_wf: "devres_reachable run dev \<Longrightarrow> devres_wf dev \<and> head_init dev"
  by (induction rule: devres_reachable.induct) (auto dest: devres_step_wf)

section \<open>Properties\<close>

text \<open>
  C6: No assertion fires.  On every device that operations reach from an initialised one,
  \<open>devres_release_all\<close>, \<open>devres_release_group\<close>, \<open>devres_destroy\<close> and \<open>devres_release\<close> run
  to the end: no \<open>BUG_ON\<close> of \<open>remove_nodes\<close> or \<open>devres_free\<close> fires and no loop leaves its list.
  The colours of the second pass always stay within 1 and 2.
\<close>

theorem devres_never_bugs:
  assumes "devres_reachable run dev"
  shows "devres_release_all run dev \<noteq> None \<and> devres_release_group run dev gid \<noteq> None \<and>
     devres_destroy dev rel m \<noteq> None \<and> devres_release run dev rel m \<noteq> None"
proof -
  from assms have wf: "devres_wf dev" and init: "head_init dev"
    by (simp_all add: devres_reachable_wf)
  have "devres_release_group run dev gid \<noteq> None"
  proof (cases "find_group dev gid")
    case (Some g)
    with release_group_correct [OF wf, of gid g run] show ?thesis by auto
  qed (simp add: devres_release_group_def)
  moreover have "devres_destroy dev rel m \<noteq> None \<and> devres_release run dev rel m \<noteq> None"
  proof (cases "devres_remove dev rel m")
    case (Pair res dev1)
    then show ?thesis
    proof (cases res)
      case (Some dr)
      with Pair have r: "devres_remove dev rel m = (Some dr, dev1)" by simp
      then have "\<not> linked dev1 (Node dr)" by (auto elim: devres_remove_Some [OF wf])
      with r show ?thesis
        by (simp add: devres_destroy_def devres_release_def devres_free_def linked_def)
    qed (simp add: devres_destroy_def devres_release_def)
  qed
  ultimately show ?thesis
    using release_all_correct [OF wf init, of run] by auto
qed

abbreviation ex_dr :: "nat \<Rightarrow> (nat, nat) devres" where
  "ex_dr p \<equiv> \<lparr>dr_ptr = p, dr_release = 7, dr_data = p + 1000\<rparr>"

abbreviation ex_dev :: "(nat, nat) devres_node list \<Rightarrow> (nat, nat, nat list) device" where
  "ex_dev ns \<equiv> \<lparr>head_init = True, devres_head = ns, grp_id = \<lambda>g. g, color = \<lambda>g. 5, freed = [], world = []\<rparr>"

abbreviation ex_run :: "nat \<Rightarrow> addr \<Rightarrow> nat \<Rightarrow> nat list \<Rightarrow> nat list" where
  "ex_run r p d w \<equiv> w @ [d]"

theorem devres_never_bugs_witness:
  "devres_release_group ex_run (ex_dev [Node (ex_dr 1)]) 0 \<noteq> None"
proof -
  have "devres_reachable ex_run (ex_dev [Node (ex_dr 1)])"
  proof (rule devres_reachable.step [OF devres_reachable.init [of "ex_dev []"]])
    show "devres_step ex_run (ex_dev []) (ex_dev [Node (ex_dr 1)])"
      by (rule devres_step.add [of _ "ex_dr 1"]) (simp_all add: devres_add_def add_dr_def linked_def)
  qed simp_all
  from devres_never_bugs [OF this] show ?thesis by blast
qed

text \<open>
  C7: Release of everything.  On a well-formed list \<open>devres_release_all\<close> empties the list,
  returns the number of entries, calls the release function of every entry once and in the
  reverse of the order in which the entries were added, and frees every entry and every group
  once.
\<close>

theorem devres_release_all_lifo:
  assumes "devres_wf dev" "head_init dev"
  shows "\<exists>dev' fs. devres_release_all run dev = Some (int (length (entries (devres_head dev))), dev') \<and>
     devres_head dev' = [] \<and>
     world dev' = fold (\<lambda>dr. run (dr_release dr) (dr_ptr dr) (dr_data dr)) (rev (entries (devres_head dev))) (world dev) \<and>
     freed dev' = freed dev @ fs \<and> distinct fs \<and>
     set fs = dr_ptr ` set (entries (devres_head dev)) \<union> {g. Open g \<in> set (devres_head dev)}"
  using release_all_correct [OF assms, of run] unfolding release_fold_def by blast

theorem devres_release_all_lifo_witness:
  "\<exists>dev'. devres_release_all ex_run (ex_dev [Open 9, Node (ex_dr 1), Open 8, Node (ex_dr 2), Close 9]) =
     Some (2, dev') \<and> devres_head dev' = [] \<and> world dev' = [1002, 1001]"
  using devres_release_all_lifo [of "ex_dev [Open 9, Node (ex_dr 1), Open 8, Node (ex_dr 2), Close 9]" ex_run]
  by (simp add: list_wf_def) blast

text \<open>
  C8: Release of a group.  The part from the opening marker to the closing one (to the end of
  the list for an open group) loses its entries, which are released in reverse order, and the
  markers of every group that lies wholly in it; the markers of a group that overlaps it, and
  everything outside, stay in place, and the list stays well-formed.
\<close>

theorem devres_release_group_exact:
  assumes "devres_wf dev" "find_group dev gid = Some g"
  shows "\<exists>pre inside post dev' fs. devres_head dev = pre @ (Open g # inside) @ post \<and>
     (if Close g \<in> set (devres_head dev) then inside \<noteq> [] \<and> last inside = Close g else post = []) \<and>
     devres_release_group run dev gid = Some (int (length (entries inside)), dev') \<and>
     devres_wf dev' \<and>
     devres_head dev' = pre @ filter (stays (devres_head dev) (Open g # inside)) inside @ post \<and>
     world dev' = fold (\<lambda>dr. run (dr_release dr) (dr_ptr dr) (dr_data dr)) (rev (entries inside)) (world dev) \<and>
     freed dev' = freed dev @ fs \<and> distinct fs \<and>
     set fs = dr_ptr ` set (entries inside) \<union> {h. wholly (devres_head dev) (Open g # inside) h}"
  using release_group_correct [OF assms, of run] unfolding release_fold_def .

theorem devres_release_group_exact_witness:
  "\<exists>cnt dev'. devres_release_group ex_run (ex_dev [Node (ex_dr 1), Open 9, Node (ex_dr 2), Open 8, Close 9, Close 8]) 9 =
     Some (cnt, dev') \<and> devres_wf dev'"
proof -
  let ?d = "ex_dev [Node (ex_dr 1), Open 9, Node (ex_dr 2), Open 8, Close 9, Close 8]"
  have "devres_wf ?d" "find_group ?d 9 = Some 9"
    by (simp_all add: list_wf_def find_group_def)
  from devres_release_group_exact [OF this, of ex_run] show ?thesis by blast
qed

text \<open>
  The entry found is the one added last.  An entry that is added is what a search with a
  fitting release function and match function returns, and destroying it takes the list back
  to what it was; if no entry fits, destroying returns -ENOENT and changes nothing.
\<close>

theorem devres_add_destroy:
  assumes "devres_wf dev"
  shows "(\<not> linked dev (Node dr) \<and> selects rel m dr \<longrightarrow>
      (\<exists>dev1. devres_add dev dr = Some dev1 \<and> devres_find dev1 rel m = Some dr \<and>
        devres_destroy dev1 rel m = Some (0, dev\<lparr>freed := freed dev @ [dr_ptr dr]\<rparr>))) \<and>
    ((\<forall>e\<in>set (entries (devres_head dev)). \<not> selects rel m e) \<longrightarrow>
      devres_find dev rel m = None \<and> devres_destroy dev rel m = Some (- ENOENT, dev))"
proof (intro conjI impI)
  assume "\<not> linked dev (Node dr) \<and> selects rel m dr"
  then have l: "\<not> linked dev (Node dr)" and s: "selects rel m dr" by simp_all
  let ?d = "dev\<lparr>devres_head := devres_head dev @ [Node dr]\<rparr>"
  have f: "find_dr ?d rel m = Some dr"
    unfolding find_dr_Some using s by (intro exI [of _ "devres_head dev"] exI [of _ "[]"]) simp
  have fil: "filter (\<lambda>n. node_id n \<noteq> (dr_ptr dr, 0)) (devres_head dev) = devres_head dev"
    using l by (auto simp: linked_def filter_id_conv image_iff)
  have "devres_remove ?d rel m = (Some dr, dev)"
    by (simp add: devres_remove_def f list_del_init_def fil)
  with l f show "\<exists>dev1. devres_add dev dr = Some dev1 \<and> devres_find dev1 rel m = Some dr \<and>
      devres_destroy dev1 rel m = Some (0, dev\<lparr>freed := freed dev @ [dr_ptr dr]\<rparr>)"
    by (simp add: devres_add_def add_dr_def devres_find_def devres_destroy_def devres_free_def kfree_def)
next
  assume "\<forall>e\<in>set (entries (devres_head dev)). \<not> selects rel m e"
  then have "find_dr dev rel m = None" by (simp only: find_dr_None)
  then show "devres_find dev rel m = None" "devres_destroy dev rel m = Some (- ENOENT, dev)"
    by (simp_all add: devres_find_def devres_destroy_def devres_remove_def)
qed

theorem devres_add_destroy_witness:
  "(\<exists>dev1. devres_add (ex_dev [Node (ex_dr 1)]) (ex_dr 2) = Some dev1 \<and> devres_find dev1 7 None = Some (ex_dr 2)) \<and>
   devres_destroy (ex_dev []) 7 None = Some (- ENOENT, ex_dev [])"
proof
  have "devres_wf (ex_dev [Node (ex_dr 1)])" "\<not> linked (ex_dev [Node (ex_dr 1)]) (Node (ex_dr 2))" "selects 7 None (ex_dr 2)"
    by (simp_all add: list_wf_def linked_def selects_def)
  with devres_add_destroy [of "ex_dev [Node (ex_dr 1)]" "ex_dr 2" 7 None]
  show "\<exists>dev1. devres_add (ex_dev [Node (ex_dr 1)]) (ex_dr 2) = Some dev1 \<and> devres_find dev1 7 None = Some (ex_dr 2)"
    by blast
  show "devres_destroy (ex_dev []) 7 None = Some (- ENOENT, ex_dev [])"
    using devres_add_destroy [of "ex_dev []" "ex_dr 2" 7 None] by simp
qed

end
