(* ===== verification/Devm.thy ===== *)
theory Devm
  imports Devres ResourceRegion
begin

text \<open>
  The managed interfaces built on the resource list of a device: actions, memory and pages of
  \<open>kernel/src/driver/base/devres.c\<close>, and the managed requests for resources and regions of
  \<open>kernel/src/driver/base/resource.c\<close>.  The results of the allocators are arguments.  A pointer
  to the data of an entry is the address of the entry; 0 is the null pointer.
\<close>

section \<open>Release functions and data\<close>

text \<open>The release functions, and the data they are used with.\<close>

datatype release_fn =
  devm_action_release | devm_kmalloc_release | devm_pages_release | devm_percpu_release |
  devm_resource_release | devm_region_release

datatype devm_data =
  Action_devres (a_data: addr) (a_action: addr)
| Bytes "u8 list"
| Pages_devres (pg_addr: addr) (pg_order: u32)
| Percpu addr
| Resource_ptr addr
| Region_devres (rg_parent: addr) (rg_start: resource_size_t) (rg_n: resource_size_t)

text \<open>
  What the release functions act on: the resource tree, the actions that were called (with
  their argument), and the pages given back.
\<close>

record sys =
  iomem :: resource
  called :: "(addr \<times> addr) list"
  pages_freed :: "(addr \<times> u32) list"

type_synonym dev = "(release_fn, devm_data, sys) device"
type_synonym dr = "(release_fn, devm_data) devres"

fun run_release :: "release_fn \<Rightarrow> addr \<Rightarrow> devm_data \<Rightarrow> sys \<Rightarrow> sys" where
  "run_release devm_action_release p (Action_devres d act) w = w\<lparr>called := called w @ [(act, d)]\<rparr>"
| "run_release devm_pages_release p (Pages_devres a order) w = w\<lparr>pages_freed := pages_freed w @ [(a, order)]\<rparr>"
| "run_release devm_resource_release p (Resource_ptr r) w =
     w\<lparr>iomem := snd (release_resource (iomem w) r)\<rparr>"
| "run_release devm_region_release p (Region_devres parent s n) w =
     w\<lparr>iomem := snd (raw_release_region (iomem w) s n)\<rparr>"
| "run_release _ p _ w = w"

section \<open>Actions\<close>

definition devm_action_match :: "addr \<Rightarrow> addr \<Rightarrow> devm_data dr_match" where
  "devm_action_match act d p res = (case res of Action_devres d' act' \<Rightarrow> act' = act \<and> d' = d | _ \<Rightarrow> False)"

definition devm_add_action :: "(u64 \<Rightarrow> addr option) \<Rightarrow> dev \<Rightarrow> addr \<Rightarrow> addr \<Rightarrow> (int \<times> dev) option" where
  "devm_add_action kmalloc dev act d =
     (case raw_devres_alloc_node kmalloc devm_action_release 16 (Action_devres d act) of
        None \<Rightarrow> Some (- ENOMEM, dev)
      | Some dr \<Rightarrow> map_option (\<lambda>dev1. (0, dev1)) (devres_add dev dr))"

definition devm_remove_action :: "dev \<Rightarrow> addr \<Rightarrow> addr \<Rightarrow> dev option" where
  "devm_remove_action dev act d =
     map_option snd (devres_destroy dev devm_action_release (Some (devm_action_match act d)))"

definition devm_release_action :: "dev \<Rightarrow> addr \<Rightarrow> addr \<Rightarrow> dev option" where
  "devm_release_action dev act d =
     map_option snd (devres_release run_release dev devm_action_release (Some (devm_action_match act d)))"

section \<open>Memory\<close>

definition devm_kmalloc_match :: "addr \<Rightarrow> devm_data dr_match" where
  "devm_kmalloc_match d p res \<longleftrightarrow> p = d"

definition ZERO_SIZE_PTR :: addr where "ZERO_SIZE_PTR = 16"

text \<open>\<open>devm_kmalloc\<close>; \<open>junk\<close> is what the memory holds when it is handed out.\<close>

definition devm_kmalloc :: "(u64 \<Rightarrow> addr option) \<Rightarrow> u8 list \<Rightarrow> dev \<Rightarrow> u64 \<Rightarrow> (addr \<times> dev) option" where
  "devm_kmalloc kmalloc junk dev sz =
     (if sz = 0 then Some (ZERO_SIZE_PTR, dev)
      else
        (case alloc_dr kmalloc devm_kmalloc_release sz (Bytes junk) of
           None \<Rightarrow> Some (0, dev)
         | Some dr \<Rightarrow> map_option (\<lambda>dev1. (dr_ptr dr, dev1)) (devres_add dev dr)))"

text \<open>\<open>memcpy\<close> to the start of the data of an entry.\<close>

definition put_bytes :: "u8 list \<Rightarrow> devm_data \<Rightarrow> devm_data" where
  "put_bytes bs d = (case d of Bytes old \<Rightarrow> Bytes (bs @ drop (length bs) old) | _ \<Rightarrow> d)"

definition memcpy_to :: "dev \<Rightarrow> addr \<Rightarrow> u8 list \<Rightarrow> dev" where
  "memcpy_to dev p bs = dev\<lparr>devres_head := map (\<lambda>n. case n of
       Node dr \<Rightarrow> (if dr_ptr dr = p then Node (dr\<lparr>dr_data := put_bytes bs (dr_data dr)\<rparr>) else n)
     | _ \<Rightarrow> n) (devres_head dev)\<rparr>"

definition devm_kfree :: "dev \<Rightarrow> addr \<Rightarrow> (int \<times> dev) option" where
  "devm_kfree dev p = devres_destroy dev devm_kmalloc_release (Some (devm_kmalloc_match p))"

text \<open>
  \<open>devm_krealloc\<close>: \<open>ksize\<close> gives the number of bytes that were allocated for an address.  The
  result for the entry that is replaced keeps its place in the list.
\<close>

definition bytes_of :: "devm_data \<Rightarrow> u8 list" where
  "bytes_of d = (case d of Bytes bs \<Rightarrow> bs | _ \<Rightarrow> [])"

definition devm_krealloc ::
  "(u64 \<Rightarrow> addr option) \<Rightarrow> u8 list \<Rightarrow> (addr \<Rightarrow> u64) \<Rightarrow> dev \<Rightarrow> addr \<Rightarrow> u64 \<Rightarrow> (addr \<times> dev) option" where
  "devm_krealloc kmalloc junk ksize dev ptr new_size =
     (if new_size = 0 then map_option (\<lambda>(_, dev1). (ZERO_SIZE_PTR, dev1)) (devm_kfree dev ptr)
      else if ptr \<le> ZERO_SIZE_PTR then devm_kmalloc kmalloc junk dev new_size
      else
        (case check_dr_size new_size of
           None \<Rightarrow> Some (0, dev)
         | Some total_new_size \<Rightarrow>
             (let total_old_size = ksize ptr
              in if total_old_size = 0 then Some (0, dev)
                 else if total_new_size \<le> total_old_size then Some (ptr, dev)
                 else
                   (case alloc_dr kmalloc devm_kmalloc_release total_new_size (Bytes junk) of
                      None \<Rightarrow> Some (0, dev)
                    | Some new_dr \<Rightarrow>
                        (case find_dr dev devm_kmalloc_release (Some (devm_kmalloc_match ptr)) of
                           None \<Rightarrow> Some (0, kfree (dr_ptr new_dr) dev)
                         | Some old_dr \<Rightarrow>
                             (case replace_dr dev (Node old_dr) (Node new_dr) of
                                None \<Rightarrow> None
                              | Some dev1 \<Rightarrow>
                                  Some (dr_ptr new_dr,
                                    kfree (dr_ptr old_dr)
                                      (memcpy_to dev1 (dr_ptr new_dr)
                                        (take (unat (total_old_size - sizeof_devres)) (bytes_of (dr_data old_dr)))))))))))"

text \<open>The string is given with its terminating zero left out; \<^const>\<open>None\<close> is a null pointer.\<close>

definition devm_kstrdup ::
  "(u64 \<Rightarrow> addr option) \<Rightarrow> u8 list \<Rightarrow> dev \<Rightarrow> u8 list option \<Rightarrow> (addr \<times> dev) option" where
  "devm_kstrdup kmalloc junk dev str =
     (case str of
        None \<Rightarrow> Some (0, dev)
      | Some s \<Rightarrow>
          (case devm_kmalloc kmalloc junk dev (of_nat (length s + 1)) of
             None \<Rightarrow> None
           | Some (buf, dev1) \<Rightarrow> Some (buf, if buf \<noteq> 0 then memcpy_to dev1 buf (s @ [0]) else dev1)))"

definition devm_kstrdup_const ::
  "(u64 \<Rightarrow> addr option) \<Rightarrow> u8 list \<Rightarrow> dev \<Rightarrow> u8 list option \<Rightarrow> (addr \<times> dev) option" where
  "devm_kstrdup_const kmalloc junk dev str = devm_kstrdup kmalloc junk dev str"

definition devm_kmemdup ::
  "(u64 \<Rightarrow> addr option) \<Rightarrow> u8 list \<Rightarrow> dev \<Rightarrow> u8 list \<Rightarrow> (addr \<times> dev) option" where
  "devm_kmemdup kmalloc junk dev src =
     (case devm_kmalloc kmalloc junk dev (of_nat (length src)) of
        None \<Rightarrow> None
      | Some (p, dev1) \<Rightarrow> Some (p, if p \<noteq> 0 then memcpy_to dev1 p src else dev1))"

section \<open>Pages and per-CPU memory\<close>

definition devm_pages_match :: "addr \<Rightarrow> devm_data dr_match" where
  "devm_pages_match a p res = (case res of Pages_devres a' order \<Rightarrow> a' = a | _ \<Rightarrow> False)"

text \<open>\<open>pages\<close> is the result of \<open>__get_free_pages\<close>.\<close>

definition devm_get_free_pages ::
  "(u64 \<Rightarrow> addr option) \<Rightarrow> addr \<Rightarrow> dev \<Rightarrow> u32 \<Rightarrow> (addr \<times> dev) option" where
  "devm_get_free_pages kmalloc pages dev order =
     (if pages = 0 then Some (0, dev)
      else
        (case raw_devres_alloc_node kmalloc devm_pages_release 16 (Pages_devres pages order) of
           None \<Rightarrow> Some (0, dev\<lparr>world := (world dev)\<lparr>pages_freed := pages_freed (world dev) @ [(pages, order)]\<rparr>\<rparr>)
         | Some dr \<Rightarrow> map_option (\<lambda>dev1. (pages, dev1)) (devres_add dev dr)))"

definition devm_free_pages :: "dev \<Rightarrow> addr \<Rightarrow> dev option" where
  "devm_free_pages dev a =
     map_option snd (devres_release run_release dev devm_pages_release (Some (devm_pages_match a)))"

definition devm_percpu_match :: "addr \<Rightarrow> devm_data dr_match" where
  "devm_percpu_match a p res = (case res of Percpu a' \<Rightarrow> a' = a | _ \<Rightarrow> False)"

definition devm_free_percpu :: "dev \<Rightarrow> addr \<Rightarrow> dev option" where
  "devm_free_percpu dev a =
     map_option snd (devres_destroy dev devm_percpu_release (Some (devm_percpu_match a)))"

section \<open>Resources and regions\<close>

definition devm_request_resource :: "(u64 \<Rightarrow> addr option) \<Rightarrow> dev \<Rightarrow> resource \<Rightarrow> (int \<times> dev) option" where
  "devm_request_resource kmalloc dev new =
     (case raw_devres_alloc_node kmalloc devm_resource_release 8 (Resource_ptr (r_ptr new)) of
        None \<Rightarrow> Some (- ENOMEM, dev)
      | Some dr \<Rightarrow>
          (case request_resource_conflict (iomem (world dev)) new of
             (Some conflict, _) \<Rightarrow> map_option (\<lambda>dev1. (- EBUSY, dev1)) (devres_free dev (Some dr))
           | (None, root') \<Rightarrow>
               map_option (\<lambda>dev1. (0, dev1))
                 (devres_add (dev\<lparr>world := (world dev)\<lparr>iomem := root'\<rparr>\<rparr>) dr)))"

definition devm_resource_match :: "addr \<Rightarrow> devm_data dr_match" where
  "devm_resource_match a p res = (case res of Resource_ptr a' \<Rightarrow> a' = a | _ \<Rightarrow> False)"

definition devm_release_resource :: "dev \<Rightarrow> addr \<Rightarrow> dev option" where
  "devm_release_resource dev a =
     map_option snd (devres_release run_release dev devm_resource_release (Some (devm_resource_match a)))"

definition devm_region_match :: "addr \<Rightarrow> resource_size_t \<Rightarrow> resource_size_t \<Rightarrow> devm_data dr_match" where
  "devm_region_match parent s n p res =
     (case res of Region_devres parent' s' n' \<Rightarrow> parent' = parent \<and> s' = s \<and> n' = n | _ \<Rightarrow> False)"

text \<open>
  \<open>__devm_request_region\<close> on the whole tree, up to a muxed conflict (the request then waits and
  is repeated): whether a region was granted.  \<open>mem\<close> is the result of \<open>alloc_resource\<close>.
\<close>

definition raw_devm_request_region ::
  "(u64 \<Rightarrow> addr option) \<Rightarrow> addr option \<Rightarrow> dev \<Rightarrow> resource_size_t \<Rightarrow> resource_size_t \<Rightarrow> string \<Rightarrow>
   (region_status \<times> dev) option" where
  "raw_devm_request_region kmalloc mem dev s n name =
     (case raw_devres_alloc_node kmalloc devm_region_release 16 (Region_devres (r_ptr (iomem (world dev))) s n) of
        None \<Rightarrow> Some (Busy, dev)
      | Some dr \<Rightarrow>
          (case raw_request_region mem (iomem (world dev)) s n name 0 of
             (Granted, root') \<Rightarrow>
               map_option (\<lambda>dev1. (Granted, dev1))
                 (devres_add (dev\<lparr>world := (world dev)\<lparr>iomem := root'\<rparr>\<rparr>) dr)
           | (st, _) \<Rightarrow> map_option (\<lambda>dev1. (st, dev1)) (devres_free dev (Some dr))))"

definition raw_devm_release_region :: "dev \<Rightarrow> resource_size_t \<Rightarrow> resource_size_t \<Rightarrow> dev option" where
  "raw_devm_release_region dev s n =
     (let dev1 = dev\<lparr>world := (world dev)\<lparr>iomem := snd (raw_release_region (iomem (world dev)) s n)\<rparr>\<rparr>
      in map_option snd
           (devres_destroy dev1 devm_region_release
              (Some (devm_region_match (r_ptr (iomem (world dev))) s n))))"

section \<open>Acquiring and undoing\<close>

text \<open>
  What a managed acquisition promises: \<open>undo\<close> takes the state back to what it was when the
  key was acquired.  Then undoing a sequence of acquisitions in reverse order takes the state
  back to where the sequence started, whatever the acquisitions are.
\<close>

locale undoable =
  fixes acquire :: "'k \<Rightarrow> 'w \<Rightarrow> 'w option"
    and undo :: "'k \<Rightarrow> 'w \<Rightarrow> 'w"
    and good :: "'k \<Rightarrow> 'w \<Rightarrow> bool"
  assumes undo_acquire: "good k w \<Longrightarrow> acquire k w = Some w' \<Longrightarrow> undo k w' = w"
begin

fun acquire_all :: "'k list \<Rightarrow> 'w \<Rightarrow> 'w option" where
  "acquire_all [] w = Some w"
| "acquire_all (k # ks) w =
     (case acquire k w of None \<Rightarrow> None | Some w' \<Rightarrow> if good k w then acquire_all ks w' else None)"

lemma undo_all: "acquire_all ks w = Some w' \<Longrightarrow> fold undo (rev ks) w' = w"
proof (induction ks arbitrary: w)
  case (Cons k ks)
  then obtain w1 where "acquire k w = Some w1" "good k w" "acquire_all ks w1 = Some w'"
    by (auto split: option.splits if_splits)
  with Cons.IH undo_acquire show ?case by simp
qed simp

end

text \<open>The two kinds of acquisition that managed requests make in the resource tree.\<close>

datatype request = Req_resource resource | Req_region addr resource_size_t resource_size_t string

primrec tree_acquire :: "request \<Rightarrow> resource \<Rightarrow> resource option" where
  "tree_acquire (Req_resource new) t =
     (case request_resource_conflict t new of (None, t') \<Rightarrow> Some t' | (Some c, _) \<Rightarrow> None)"
| "tree_acquire (Req_region p s n name) t =
     (case raw_request_region (Some p) t s n name 0 of (st, t') \<Rightarrow> if st = Granted then Some t' else None)"

primrec tree_undo :: "request \<Rightarrow> resource \<Rightarrow> resource" where
  "tree_undo (Req_resource new) t = snd (release_resource t (r_ptr new))"
| "tree_undo (Req_region p s n name) t = snd (raw_release_region t s n)"

primrec tree_good :: "request \<Rightarrow> resource \<Rightarrow> bool" where
  "tree_good (Req_resource new) t \<longleftrightarrow> wf_res t \<and> r_ptr new \<notin> r_ptr ` set (child t)"
| "tree_good (Req_region p s n name) t \<longleftrightarrow> wf_res t \<and> distinct_ptrs t"

lemma request_release:
  assumes "wf_res t" "r_ptr new \<notin> r_ptr ` set (child t)" "raw_request_resource t new = (None, t')"
  shows "snd (release_resource t' (r_ptr new)) = t"
proof (cases "fits t new")
  case True
  obtain xs ys where xy: "child t = xs @ ys" "raw_request_resource t new = (None, set_child (xs @ new # ys) t)"
    by (rule raw_request_fits [OF assms(1) True])
  with assms(2) have "release_children (r_ptr new) True (xs @ new # ys) = (0, xs @ ys)"
    using release_children_split [OF split_child_unique [of "r_ptr new" new xs ys], of True] xy(1) by auto
  with xy assms(3) show ?thesis
    by (simp add: release_resource_def raw_release_resource_def)
next
  case False
  with assms show ?thesis by (auto elim: raw_request_not_fits [OF assms(1)])
qed

interpretation tree: undoable tree_acquire tree_undo tree_good
proof
  fix k t t' assume "tree_good k t" "tree_acquire k t = Some t'"
  then show "tree_undo k t' = t"
  proof (cases k)
    case (Req_resource new)
    with \<open>tree_good k t\<close> \<open>tree_acquire k t = Some t'\<close> show ?thesis
      by (auto simp: request_resource_conflict_def intro: request_release split: prod.splits option.splits)
  next
    case (Req_region p s n name)
    with \<open>tree_good k t\<close> have wf: "wf_res t" "distinct_ptrs t" by simp_all
    obtain st t1 where r: "raw_request_region_locked t p name s n 0 = (st, t1)" by fastforce
    with Req_region \<open>tree_acquire k t = Some t'\<close> have "st = Granted" "t1 = t'"
      by (auto simp: raw_request_region_def split: if_splits)
    with request_region_correct [OF wf, where p = p and name = name and s = s and n = n and flags = 0] r
    have "r_attr t' = r_attr t" "r_ptr t' = r_ptr t" "release_loop s (s + n - 1) (child t') = Some (p, child t)"
      by simp_all
    moreover from this have "set_child (child t) t' = t" by (cases t; cases t') simp
    ultimately show ?thesis using Req_region by (simp add: raw_release_region_def)
  qed
qed

section \<open>Managed requests\<close>

text \<open>
  A driver that makes a list of requests, each with the address that the allocator returns for
  the entry, and gives up at the first one that fails.
\<close>

primrec devm_request :: "addr \<Rightarrow> request \<Rightarrow> dev \<Rightarrow> (bool \<times> dev) option" where
  "devm_request p (Req_resource new) dev =
     map_option (\<lambda>(ret, dev1). (ret = 0, dev1)) (devm_request_resource (\<lambda>_. Some p) dev new)"
| "devm_request p (Req_region q s n name) dev =
     map_option (\<lambda>(st, dev1). (st = Granted, dev1)) (raw_devm_request_region (\<lambda>_. Some p) (Some q) dev s n name)"

fun devm_requests :: "(addr \<times> request) list \<Rightarrow> dev \<Rightarrow> (bool \<times> dev) option" where
  "devm_requests [] dev = Some (True, dev)"
| "devm_requests ((p, k) # ks) dev =
     (case devm_request p k dev of
        None \<Rightarrow> None
      | Some (success, dev1) \<Rightarrow> if success then devm_requests ks dev1 else Some (False, dev1))"

text \<open>The entry that a request adds undoes the request when it is released.\<close>

definition undoes :: "dr \<Rightarrow> request \<Rightarrow> bool" where
  "undoes dr k \<longleftrightarrow>
     (\<forall>w. run_release (dr_release dr) (dr_ptr dr) (dr_data dr) w = w\<lparr>iomem := tree_undo k (iomem w)\<rparr>)"

lemma devm_request_ok:
  assumes "tree_acquire k (iomem (world dev)) = Some t'" "(p, 0) \<notin> node_id ` set (devres_head dev)"
  shows "\<exists>dr. devm_request p k dev =
      Some (True, dev\<lparr>devres_head := devres_head dev @ [Node dr], world := (world dev)\<lparr>iomem := t'\<rparr>\<rparr>) \<and>
    dr_ptr dr = p \<and> undoes dr k"
proof (cases k)
  case (Req_resource new)
  let ?dr = "\<lparr>dr_ptr = p, dr_release = devm_resource_release, dr_data = Resource_ptr (r_ptr new)\<rparr>"
  have "undoes ?dr k" by (simp add: undoes_def Req_resource)
  with assms Req_resource show ?thesis
    by (intro exI [of _ ?dr])
      (auto simp: devm_request_resource_def raw_devres_alloc_node_def alloc_dr_def check_dr_size_def sizeof_devres_def
        devres_add_def add_dr_def linked_def split: prod.splits option.splits)
next
  case (Req_region q s n name)
  let ?dr = "\<lparr>dr_ptr = p, dr_release = devm_region_release, dr_data = Region_devres (r_ptr (iomem (world dev))) s n\<rparr>"
  have "undoes ?dr k" by (simp add: undoes_def Req_region)
  with assms Req_region show ?thesis
    by (intro exI [of _ ?dr])
      (auto simp: raw_devm_request_region_def raw_devres_alloc_node_def alloc_dr_def check_dr_size_def sizeof_devres_def
        devres_add_def add_dr_def linked_def split: prod.splits option.splits if_splits region_status.splits)
qed

lemma devm_requests_ok:
  assumes "tree.acquire_all (map snd ks) (iomem (world dev)) = Some t'"
    "distinct (map fst ks)" "\<forall>p\<in>set (map fst ks). (p, 0) \<notin> node_id ` set (devres_head dev)"
  shows "\<exists>drs. devm_requests ks dev =
      Some (True, dev\<lparr>devres_head := devres_head dev @ map Node drs, world := (world dev)\<lparr>iomem := t'\<rparr>\<rparr>) \<and>
    map dr_ptr drs = map fst ks \<and> list_all2 undoes drs (map snd ks)"
  using assms
proof (induction ks arbitrary: dev)
  case Nil
  then show ?case by simp
next
  case (Cons pk ks)
  obtain p k where pk: "pk = (p, k)" by fastforce
  with Cons.prems(1) obtain t1 where t1: "tree_acquire k (iomem (world dev)) = Some t1"
    "tree.acquire_all (map snd ks) t1 = Some t'"
    by (auto split: option.splits if_splits)
  have "(p, 0) \<notin> node_id ` set (devres_head dev)" using Cons.prems(3) pk by simp
  from devm_request_ok [OF t1(1) this] obtain dr where
    dr: "devm_request p k dev =
      Some (True, dev\<lparr>devres_head := devres_head dev @ [Node dr], world := (world dev)\<lparr>iomem := t1\<rparr>\<rparr>)"
    "dr_ptr dr = p" "undoes dr k" by blast
  let ?d = "dev\<lparr>devres_head := devres_head dev @ [Node dr], world := (world dev)\<lparr>iomem := t1\<rparr>\<rparr>"
  have "tree.acquire_all (map snd ks) (iomem (world ?d)) = Some t'" using t1(2) by simp
  moreover have "distinct (map fst ks)" using Cons.prems(2) by simp
  moreover have "\<forall>q\<in>set (map fst ks). (q, 0) \<notin> node_id ` set (devres_head ?d)"
    using Cons.prems(2,3) pk dr(2) by force
  ultimately obtain drs where "devm_requests ks ?d =
      Some (True, ?d\<lparr>devres_head := devres_head ?d @ map Node drs, world := (world ?d)\<lparr>iomem := t'\<rparr>\<rparr>)"
    "map dr_ptr drs = map fst ks" "list_all2 undoes drs (map snd ks)"
    using Cons.IH [of ?d] by blast
  with dr pk show ?case by (intro exI [of _ "dr # drs"]) simp
qed

lemma release_undoes:
  assumes "list_all2 undoes drs ks"
  shows "release_fold run_release drs w = w\<lparr>iomem := fold tree_undo ks (iomem w)\<rparr>"
  using assms
proof (induction drs ks arbitrary: w rule: list_all2_induct)
  case (Cons dr drs k ks)
  then show ?case by (simp add: undoes_def)
qed simp

section \<open>Properties\<close>

text \<open>
  C9: Managed requests are undone when the device goes.  A driver makes a list of managed
  requests for resources and regions that the tree can grant one after the other, on a device
  without entries.  All of them succeed; releasing the resources of the device then takes the
  resource tree back to what it was before the first request.
\<close>

theorem devm_requests_restored:
  assumes granted: "tree.acquire_all (map snd ks) (iomem (world dev)) = Some t'"
    and "distinct (map fst ks)" "devres_head dev = []" "head_init dev"
  shows "\<exists>dev1 dev2. devm_requests ks dev = Some (True, dev1) \<and> iomem (world dev1) = t' \<and>
     devres_release_all run_release dev1 = Some (int (length ks), dev2) \<and>
     devres_head dev2 = [] \<and> world dev2 = world dev"
proof -
  obtain drs where r: "devm_requests ks dev =
      Some (True, dev\<lparr>devres_head := devres_head dev @ map Node drs, world := (world dev)\<lparr>iomem := t'\<rparr>\<rparr>)"
    and ptrs: "map dr_ptr drs = map fst ks" and u: "list_all2 undoes drs (map snd ks)"
    using devm_requests_ok [OF granted assms(2)] assms(3) by auto
  let ?d = "dev\<lparr>devres_head := map Node drs, world := (world dev)\<lparr>iomem := t'\<rparr>\<rparr>"
  have len: "length drs = length ks" using u by (auto dest: list_all2_lengthD)
  have "distinct (map dr_ptr drs)" using ptrs assms(2) by simp
  then have "distinct (map (\<lambda>dr. (dr_ptr dr, 0::nat)) drs)" by (auto simp: distinct_map inj_on_def)
  moreover have "markers_ok [] (map Node drs)" by (induction drs) simp_all
  ultimately have wf: "devres_wf ?d" by (simp add: list_wf_def comp_def)
  have es: "entries (map Node drs) = drs" by (induction drs) simp_all
  obtain dev2 fs where r2: "devres_release_all run_release ?d = Some (int (length drs), dev2)" "devres_head dev2 = []"
    "world dev2 = release_fold run_release (rev drs) (world ?d)"
    using release_all_correct [OF wf, of run_release] assms(4) es by auto
  have "list_all2 undoes (rev drs) (rev (map snd ks))" using u by simp
  then have "world dev2 = (world ?d)\<lparr>iomem := fold tree_undo (rev (map snd ks)) (iomem (world ?d))\<rparr>"
    using r2(3) by (simp only: release_undoes)
  moreover have "fold tree_undo (rev (map snd ks)) t' = iomem (world dev)"
    by (rule tree.undo_all [OF granted])
  ultimately have "world dev2 = world dev" by simp
  with r r2 assms(3) len show ?thesis by simp
qed

abbreviation ex_tree :: resource where
  "ex_tree \<equiv> Res 1 (ex_attr 0 0xffff) [Res 2 (ex_attr 0x1000 0x1fff) []]"

abbreviation ex_sys :: dev where
  "ex_sys \<equiv> \<lparr>head_init = True, devres_head = [], grp_id = \<lambda>g. g, color = \<lambda>g. 0, freed = [],
     world = \<lparr>iomem = ex_tree, called = [], pages_freed = []\<rparr>\<rparr>"

theorem devm_requests_restored_witness:
  "\<exists>dev1 dev2. devm_requests [(100, Req_resource (Res 3 (ex_attr 0x4000 0x4fff) []))] ex_sys = Some (True, dev1) \<and>
     devres_release_all run_release dev1 = Some (1, dev2) \<and> world dev2 = world ex_sys"
proof -
  let ?ks = "[(100, Req_resource (Res 3 (ex_attr 0x4000 0x4fff) []))]"
  have "tree.acquire_all (map snd ?ks) (iomem (world ex_sys)) =
      Some (Res 1 (ex_attr 0 0xffff) [Res 2 (ex_attr 0x1000 0x1fff) [], Res 3 (ex_attr 0x4000 0x4fff) []])"
    by (simp add: request_resource_conflict_def raw_request_resource_def Let_def)
  from devm_requests_restored [OF this] show ?thesis by auto
qed

text \<open>
  Managed memory.  Duplicating a string gives an entry at the end of the list that holds
  the string with its terminating zero, and freeing the pointer takes the device back to where
  it was, with that one address freed.
\<close>

theorem devm_kstrdup_kfree:
  assumes "devres_wf dev" "(p, 0) \<notin> node_id ` set (devres_head dev)" "p \<noteq> 0"
    and "length s + 41 < 2 ^ 64" "length junk = length s + 1"
  shows "\<exists>dev1. devm_kstrdup (\<lambda>_. Some p) junk dev (Some s) = Some (p, dev1) \<and>
     devres_head dev1 = devres_head dev @ [Node \<lparr>dr_ptr = p, dr_release = devm_kmalloc_release, dr_data = Bytes (s @ [0])\<rparr>] \<and>
     devm_kfree dev1 p = Some (0, dev\<lparr>freed := freed dev @ [p]\<rparr>)"
proof -
  let ?sz = "of_nat (length s + 1) :: u64"
  have sz: "unat ?sz = length s + 1"
    using assms(4) by (simp add: unsigned_of_nat take_bit_nat_eq_self del: of_nat_add of_nat_Suc)
  then have "?sz \<noteq> 0" by auto
  have "check_dr_size ?sz \<noteq> None" using assms(4) sz by (simp add: check_dr_size_def sizeof_devres_def)
  then obtain tot where tot: "check_dr_size ?sz = Some tot" by blast
  let ?dr = "\<lambda>bs. \<lparr>dr_ptr = p, dr_release = devm_kmalloc_release, dr_data = Bytes bs\<rparr>"
  have km: "devm_kmalloc (\<lambda>_. Some p) junk dev ?sz = Some (p, dev\<lparr>devres_head := devres_head dev @ [Node (?dr junk)]\<rparr>)"
    using \<open>?sz \<noteq> 0\<close> tot assms(2) by (simp add: devm_kmalloc_def alloc_dr_def devres_add_def add_dr_def linked_def)
  have same: "map (\<lambda>n. case n of Node dr \<Rightarrow> (if dr_ptr dr = p then Node (dr\<lparr>dr_data := put_bytes bs (dr_data dr)\<rparr>) else n)
      | _ \<Rightarrow> n) (devres_head dev) = devres_head dev" for bs
  proof (rule map_idI)
    fix n assume "n \<in> set (devres_head dev)"
    then have "(p, 0) \<noteq> node_id n" using assms(2) by (metis imageI)
    then show "(case n of Node dr \<Rightarrow> (if dr_ptr dr = p then Node (dr\<lparr>dr_data := put_bytes bs (dr_data dr)\<rparr>) else n) | _ \<Rightarrow> n) = n"
      by (auto split: devres_node.splits)
  qed
  let ?d = "dev\<lparr>devres_head := devres_head dev @ [Node (?dr (s @ [0]))]\<rparr>"
  have dup: "devm_kstrdup (\<lambda>_. Some p) junk dev (Some s) = Some (p, ?d)"
    using km assms(3,5) by (simp add: devm_kstrdup_def memcpy_to_def same put_bytes_def)
  have "find_dr ?d devm_kmalloc_release (Some (devm_kmalloc_match p)) = Some (?dr (s @ [0]))"
    unfolding find_dr_Some
    by (intro exI [of _ "devres_head dev"] exI [of _ "[]"]) (simp add: selects_def devm_kmalloc_match_def)
  moreover have "filter (\<lambda>n. node_id n \<noteq> (p, 0)) (devres_head dev) = devres_head dev"
    using assms(2) by (auto simp: filter_id_conv image_iff)
  ultimately have "devm_kfree ?d p = Some (0, dev\<lparr>freed := freed dev @ [p]\<rparr>)"
    using assms(2) by (simp add: devm_kfree_def devres_destroy_def devres_remove_def list_del_init_def devres_free_def
        linked_def kfree_def)
  with dup show ?thesis by simp
qed

theorem devm_kstrdup_kfree_witness:
  "\<exists>dev1. devm_kstrdup (\<lambda>_. Some 100) [1, 2, 3] ex_sys (Some [65, 66]) = Some (100, dev1) \<and>
     devm_kfree dev1 100 = Some (0, ex_sys\<lparr>freed := [100]\<rparr>)"
  using devm_kstrdup_kfree [of ex_sys 100 "[65, 66]" "[1, 2, 3]"] by auto

end
