(* ===== verification/Hdmi.thy ===== *)
theory Hdmi
  imports Prelude
begin

text \<open>
  HDMI infoframes, \<open>kernel/src/driver/common/video/hdmi.c\<close>: initialising, checking, packing
  and unpacking of AVI, SPD, audio, vendor and dynamic range frames.  An enum is a 32-bit
  word (the 3D structure, with its value -1, an integer), a buffer is the list of its bytes and
  its size the length of the list.  A result \<^const>\<open>None\<close> is an access outside of the buffer.
\<close>

section \<open>Frames\<close>

abbreviation (input) HDMI_INFOFRAME_TYPE_VENDOR :: u32 where "HDMI_INFOFRAME_TYPE_VENDOR \<equiv> 0x81"
abbreviation (input) HDMI_INFOFRAME_TYPE_AVI :: u32 where "HDMI_INFOFRAME_TYPE_AVI \<equiv> 0x82"
abbreviation (input) HDMI_INFOFRAME_TYPE_SPD :: u32 where "HDMI_INFOFRAME_TYPE_SPD \<equiv> 0x83"
abbreviation (input) HDMI_INFOFRAME_TYPE_AUDIO :: u32 where "HDMI_INFOFRAME_TYPE_AUDIO \<equiv> 0x84"
abbreviation (input) HDMI_INFOFRAME_TYPE_DRM :: u32 where "HDMI_INFOFRAME_TYPE_DRM \<equiv> 0x87"
abbreviation (input) HDMI_IEEE_OUI :: u32 where "HDMI_IEEE_OUI \<equiv> 0x000c03"
abbreviation (input) HDMI_INFOFRAME_HEADER_SIZE :: nat where "HDMI_INFOFRAME_HEADER_SIZE \<equiv> 4"
abbreviation (input) HDMI_3D_STRUCTURE_INVALID :: int where "HDMI_3D_STRUCTURE_INVALID \<equiv> - 1"
abbreviation (input) HDMI_3D_STRUCTURE_SIDE_BY_SIDE_HALF :: int where "HDMI_3D_STRUCTURE_SIDE_BY_SIDE_HALF \<equiv> 8"

record any_infoframe =
  f_type :: u32
  f_version :: u8
  f_length :: u8

record hdmi_avi_infoframe = any_infoframe +
  colorspace :: u32
  scan_mode :: u32
  colorimetry :: u32
  picture_aspect :: u32
  active_aspect :: u32
  itc :: bool
  extended_colorimetry :: u32
  quantization_range :: u32
  nups :: u32
  video_code :: u8
  ycc_quantization_range :: u32
  content_type :: u32
  pixel_repeat :: u8
  top_bar :: u16
  bottom_bar :: u16
  left_bar :: u16
  right_bar :: u16

record hdmi_drm_infoframe = any_infoframe +
  eotf :: u32
  metadata_type :: u32
  display_primaries :: "(u16 \<times> u16) \<times> (u16 \<times> u16) \<times> (u16 \<times> u16)"
  white_point :: "u16 \<times> u16"
  max_display_mastering_luminance :: u16
  min_display_mastering_luminance :: u16
  max_cll :: u16
  max_fall :: u16

record hdmi_spd_infoframe = any_infoframe +
  vendor :: "u8 list"
  product :: "u8 list"
  sdi :: u32

record hdmi_audio_infoframe = any_infoframe +
  channels :: u8
  coding_type :: u32
  sample_size :: u32
  sample_frequency :: u32
  coding_type_ext :: u32
  channel_allocation :: u8
  level_shift_value :: u8
  downmix_inhibit :: bool

record hdmi_vendor_infoframe = any_infoframe +
  oui :: u32
  vic :: u8
  s3d_struct :: int
  s3d_ext_data :: u32

datatype hdmi_infoframe =
  Avi hdmi_avi_infoframe | Spd hdmi_spd_infoframe | Audio hdmi_audio_infoframe |
  Vendor hdmi_vendor_infoframe | Drm hdmi_drm_infoframe

section \<open>Checksum\<close>

definition hdmi_infoframe_checksum :: "u8 list \<Rightarrow> nat \<Rightarrow> u8" where
  "hdmi_infoframe_checksum ptr sz = 256 - foldl (+) 0 (take sz ptr)"

definition hdmi_infoframe_set_checksum :: "u8 list \<Rightarrow> nat \<Rightarrow> u8 list" where
  "hdmi_infoframe_set_checksum ptr sz = ptr[3 := hdmi_infoframe_checksum ptr sz]"

text \<open>
  What the packing functions have in common: the test of the size, clearing the buffer, the
  header with a zero checksum, the payload and the checksum over \<open>length\<close> bytes.  A payload
  that is longer than the rest of the buffer is a write behind its end.
\<close>

definition pack_frame :: "('a) any_infoframe_scheme \<Rightarrow> u8 list \<Rightarrow> u8 list \<Rightarrow> (int \<times> u8 list) option" where
  "pack_frame frame payload buffer =
     (let len = HDMI_INFOFRAME_HEADER_SIZE + unat (f_length frame)
      in if length buffer < len then Some (- ENOSPC, buffer)
         else if length buffer < HDMI_INFOFRAME_HEADER_SIZE + length payload then None
         else
           (let header = [ucast (f_type frame), f_version frame, f_length frame, 0];
                filled = header @ payload @ replicate (length buffer - (HDMI_INFOFRAME_HEADER_SIZE + length payload)) 0
            in Some (int len, hdmi_infoframe_set_checksum filled len)))"

section \<open>AVI\<close>

definition hdmi_avi_infoframe_init :: hdmi_avi_infoframe where
  "hdmi_avi_infoframe_init =
     \<lparr>f_type = HDMI_INFOFRAME_TYPE_AVI, f_version = 2, f_length = 13, colorspace = 0, scan_mode = 0,
      colorimetry = 0, picture_aspect = 0, active_aspect = 0, itc = False, extended_colorimetry = 0,
      quantization_range = 0, nups = 0, video_code = 0, ycc_quantization_range = 0, content_type = 0,
      pixel_repeat = 0, top_bar = 0, bottom_bar = 0, left_bar = 0, right_bar = 0\<rparr>"

definition hdmi_avi_infoframe_check_only :: "hdmi_avi_infoframe \<Rightarrow> int" where
  "hdmi_avi_infoframe_check_only frame =
     (if f_type frame \<noteq> HDMI_INFOFRAME_TYPE_AVI \<or> f_version frame \<noteq> 2 \<or> f_length frame \<noteq> 13 then - EINVAL
      else if picture_aspect frame > 2 then - EINVAL
      else 0)"

definition hdmi_avi_infoframe_check :: "hdmi_avi_infoframe \<Rightarrow> int" where
  "hdmi_avi_infoframe_check frame = hdmi_avi_infoframe_check_only frame"

definition avi_payload :: "hdmi_avi_infoframe \<Rightarrow> u8 list" where
  "avi_payload frame =
     [ucast (push_bit 5 (colorspace frame AND 0x3) OR (scan_mode frame AND 0x3))
        OR (if active_aspect frame AND 0xf \<noteq> 0 then 0x10 else 0)
        OR (if top_bar frame \<noteq> 0 \<or> bottom_bar frame \<noteq> 0 then 0x8 else 0)
        OR (if left_bar frame \<noteq> 0 \<or> right_bar frame \<noteq> 0 then 0x4 else 0),
      ucast (push_bit 6 (colorimetry frame AND 0x3) OR push_bit 4 (picture_aspect frame AND 0x3) OR
        (active_aspect frame AND 0xf)),
      ucast (push_bit 4 (extended_colorimetry frame AND 0x7) OR push_bit 2 (quantization_range frame AND 0x3) OR
        (nups frame AND 0x3)) OR (if itc frame then 0x80 else 0),
      video_code frame AND 0x7f,
      ucast (push_bit 6 (ycc_quantization_range frame AND 0x3) OR push_bit 4 (content_type frame AND 0x3) OR
        ucast (pixel_repeat frame AND 0xf)),
      ucast (top_bar frame AND 0xff), ucast (drop_bit 8 (top_bar frame) AND 0xff),
      ucast (bottom_bar frame AND 0xff), ucast (drop_bit 8 (bottom_bar frame) AND 0xff),
      ucast (left_bar frame AND 0xff), ucast (drop_bit 8 (left_bar frame) AND 0xff),
      ucast (right_bar frame AND 0xff), ucast (drop_bit 8 (right_bar frame) AND 0xff)]"

definition hdmi_avi_infoframe_pack_only :: "hdmi_avi_infoframe \<Rightarrow> u8 list \<Rightarrow> (int \<times> u8 list) option" where
  "hdmi_avi_infoframe_pack_only frame buffer =
     (let ret = hdmi_avi_infoframe_check_only frame
      in if ret \<noteq> 0 then Some (ret, buffer) else pack_frame frame (avi_payload frame) buffer)"

definition hdmi_avi_infoframe_pack :: "hdmi_avi_infoframe \<Rightarrow> u8 list \<Rightarrow> (int \<times> u8 list) option" where
  "hdmi_avi_infoframe_pack frame buffer =
     (let ret = hdmi_avi_infoframe_check frame
      in if ret \<noteq> 0 then Some (ret, buffer) else hdmi_avi_infoframe_pack_only frame buffer)"

text \<open>A 16-bit value from two bytes, as in \<open>(ptr[6] << 8) | ptr[5]\<close>.\<close>

definition le16 :: "u8 \<Rightarrow> u8 \<Rightarrow> u16" where
  "le16 lsb msb = push_bit 8 (ucast msb) OR ucast lsb"

definition hdmi_avi_infoframe_unpack :: "u8 list \<Rightarrow> int + hdmi_avi_infoframe" where
  "hdmi_avi_infoframe_unpack buffer =
     (if length buffer < HDMI_INFOFRAME_HEADER_SIZE + 13 then Inl (- EINVAL)
      else if buffer ! 0 \<noteq> 0x82 \<or> buffer ! 1 \<noteq> 2 \<or> buffer ! 2 \<noteq> 13 then Inl (- EINVAL)
      else if hdmi_infoframe_checksum buffer (HDMI_INFOFRAME_HEADER_SIZE + 13) \<noteq> 0 then Inl (- EINVAL)
      else
        (let ptr = drop HDMI_INFOFRAME_HEADER_SIZE buffer;
             horizontal = ptr ! 0 AND 0x8 \<noteq> 0; vertical = ptr ! 0 AND 0x4 \<noteq> 0
         in Inr (hdmi_avi_infoframe_init
              \<lparr>colorspace := ucast (drop_bit 5 (ptr ! 0) AND 0x3),
               top_bar := (if horizontal then le16 (ptr ! 5) (ptr ! 6) else 0),
               bottom_bar := (if horizontal then le16 (ptr ! 7) (ptr ! 8) else 0),
               left_bar := (if vertical then le16 (ptr ! 9) (ptr ! 10) else 0),
               right_bar := (if vertical then le16 (ptr ! 11) (ptr ! 12) else 0),
               scan_mode := ucast (ptr ! 0 AND 0x3),
               colorimetry := ucast (drop_bit 6 (ptr ! 1) AND 0x3),
               picture_aspect := ucast (drop_bit 4 (ptr ! 1) AND 0x3),
               active_aspect := ucast (ptr ! 1 AND 0xf),
               itc := (ptr ! 2 AND 0x80 \<noteq> 0),
               extended_colorimetry := ucast (drop_bit 4 (ptr ! 2) AND 0x7),
               quantization_range := ucast (drop_bit 2 (ptr ! 2) AND 0x3),
               nups := ucast (ptr ! 2 AND 0x3),
               video_code := ptr ! 3 AND 0x7f,
               ycc_quantization_range := ucast (drop_bit 6 (ptr ! 4) AND 0x3),
               content_type := ucast (drop_bit 4 (ptr ! 4) AND 0x3),
               pixel_repeat := ptr ! 4 AND 0xf\<rparr>)))"

section \<open>SPD\<close>

text \<open>\<open>strlen\<close> of the string at the start of some bytes; \<^const>\<open>None\<close> when it has no end there.\<close>

definition c_strlen :: "u8 list \<Rightarrow> nat option" where
  "c_strlen s = (if 0 \<in> set s then Some (length (takeWhile (\<lambda>b. b \<noteq> 0) s)) else None)"

definition zero_padded :: "nat \<Rightarrow> u8 list \<Rightarrow> nat \<Rightarrow> u8 list" where
  "zero_padded n s len = take (min len n) s @ replicate (n - min len n) 0"

definition hdmi_spd_infoframe_init :: "u8 list \<Rightarrow> u8 list \<Rightarrow> hdmi_spd_infoframe option" where
  "hdmi_spd_infoframe_init ven pro =
     (case c_strlen ven of
        None \<Rightarrow> None
      | Some l1 \<Rightarrow>
          (case c_strlen pro of
             None \<Rightarrow> None
           | Some l2 \<Rightarrow>
               Some \<lparr>f_type = HDMI_INFOFRAME_TYPE_SPD, f_version = 1, f_length = 25,
                     vendor = zero_padded 8 ven l1, product = zero_padded 16 pro l2, sdi = 0\<rparr>))"

definition hdmi_spd_infoframe_check_only :: "hdmi_spd_infoframe \<Rightarrow> int" where
  "hdmi_spd_infoframe_check_only frame =
     (if f_type frame \<noteq> HDMI_INFOFRAME_TYPE_SPD \<or> f_version frame \<noteq> 1 \<or> f_length frame \<noteq> 25 then - EINVAL else 0)"

definition hdmi_spd_infoframe_check :: "hdmi_spd_infoframe \<Rightarrow> int" where
  "hdmi_spd_infoframe_check frame = hdmi_spd_infoframe_check_only frame"

definition hdmi_spd_infoframe_pack_only :: "hdmi_spd_infoframe \<Rightarrow> u8 list \<Rightarrow> (int \<times> u8 list) option" where
  "hdmi_spd_infoframe_pack_only frame buffer =
     (let ret = hdmi_spd_infoframe_check_only frame
      in if ret \<noteq> 0 then Some (ret, buffer)
         else pack_frame frame (vendor frame @ product frame @ [ucast (sdi frame)]) buffer)"

definition hdmi_spd_infoframe_pack :: "hdmi_spd_infoframe \<Rightarrow> u8 list \<Rightarrow> (int \<times> u8 list) option" where
  "hdmi_spd_infoframe_pack frame buffer =
     (let ret = hdmi_spd_infoframe_check frame
      in if ret \<noteq> 0 then Some (ret, buffer) else hdmi_spd_infoframe_pack_only frame buffer)"

definition hdmi_spd_infoframe_unpack :: "u8 list \<Rightarrow> (int + hdmi_spd_infoframe) option" where
  "hdmi_spd_infoframe_unpack buffer =
     (if length buffer < HDMI_INFOFRAME_HEADER_SIZE + 25 then Some (Inl (- EINVAL))
      else if buffer ! 0 \<noteq> 0x83 \<or> buffer ! 1 \<noteq> 1 \<or> buffer ! 2 \<noteq> 25 then Some (Inl (- EINVAL))
      else if hdmi_infoframe_checksum buffer (HDMI_INFOFRAME_HEADER_SIZE + 25) \<noteq> 0 then Some (Inl (- EINVAL))
      else
        (let ptr = drop HDMI_INFOFRAME_HEADER_SIZE buffer
         in map_option (\<lambda>frame. Inr (frame\<lparr>sdi := ucast (ptr ! 24)\<rparr>)) (hdmi_spd_infoframe_init ptr (drop 8 ptr))))"

section \<open>Audio\<close>

definition hdmi_audio_infoframe_init :: hdmi_audio_infoframe where
  "hdmi_audio_infoframe_init =
     \<lparr>f_type = HDMI_INFOFRAME_TYPE_AUDIO, f_version = 1, f_length = 10, channels = 0, coding_type = 0,
      sample_size = 0, sample_frequency = 0, coding_type_ext = 0, channel_allocation = 0,
      level_shift_value = 0, downmix_inhibit = False\<rparr>"

definition hdmi_audio_infoframe_check_only :: "hdmi_audio_infoframe \<Rightarrow> int" where
  "hdmi_audio_infoframe_check_only frame =
     (if f_type frame \<noteq> HDMI_INFOFRAME_TYPE_AUDIO \<or> f_version frame \<noteq> 1 \<or> f_length frame \<noteq> 10 then - EINVAL else 0)"

definition hdmi_audio_infoframe_check :: "hdmi_audio_infoframe \<Rightarrow> int" where
  "hdmi_audio_infoframe_check frame = hdmi_audio_infoframe_check_only frame"

definition audio_payload :: "hdmi_audio_infoframe \<Rightarrow> u8 list" where
  "audio_payload frame =
     (let chan = (if channels frame \<ge> 2 then channels frame - 1 else 0)
      in [ucast (push_bit 4 (coding_type frame AND 0xf) OR ucast (chan AND 0x7)),
          ucast (push_bit 2 (sample_frequency frame AND 0x7) OR (sample_size frame AND 0x3)),
          ucast (coding_type_ext frame AND 0x1f),
          channel_allocation frame,
          push_bit 3 (level_shift_value frame AND 0xf) OR (if downmix_inhibit frame then 0x80 else 0)])"

definition hdmi_audio_infoframe_pack_only :: "hdmi_audio_infoframe \<Rightarrow> u8 list \<Rightarrow> (int \<times> u8 list) option" where
  "hdmi_audio_infoframe_pack_only frame buffer =
     (let ret = hdmi_audio_infoframe_check_only frame
      in if ret \<noteq> 0 then Some (ret, buffer) else pack_frame frame (audio_payload frame) buffer)"

definition hdmi_audio_infoframe_pack :: "hdmi_audio_infoframe \<Rightarrow> u8 list \<Rightarrow> (int \<times> u8 list) option" where
  "hdmi_audio_infoframe_pack frame buffer =
     (let ret = hdmi_audio_infoframe_check frame
      in if ret \<noteq> 0 then Some (ret, buffer) else hdmi_audio_infoframe_pack_only frame buffer)"

definition hdmi_audio_infoframe_unpack :: "u8 list \<Rightarrow> int + hdmi_audio_infoframe" where
  "hdmi_audio_infoframe_unpack buffer =
     (if length buffer < HDMI_INFOFRAME_HEADER_SIZE + 10 then Inl (- EINVAL)
      else if buffer ! 0 \<noteq> 0x84 \<or> buffer ! 1 \<noteq> 1 \<or> buffer ! 2 \<noteq> 10 then Inl (- EINVAL)
      else if hdmi_infoframe_checksum buffer (HDMI_INFOFRAME_HEADER_SIZE + 10) \<noteq> 0 then Inl (- EINVAL)
      else
        (let ptr = drop HDMI_INFOFRAME_HEADER_SIZE buffer
         in Inr (hdmi_audio_infoframe_init
              \<lparr>channels := ptr ! 0 AND 0x7,
               coding_type := ucast (drop_bit 4 (ptr ! 0) AND 0xf),
               sample_size := ucast (ptr ! 1 AND 0x3),
               sample_frequency := ucast (drop_bit 2 (ptr ! 1) AND 0x7),
               coding_type_ext := ucast (ptr ! 2 AND 0x1f),
               channel_allocation := ptr ! 3,
               level_shift_value := drop_bit 3 (ptr ! 4) AND 0xf,
               downmix_inhibit := (ptr ! 4 AND 0x80 \<noteq> 0)\<rparr>)))"

section \<open>Vendor\<close>

definition hdmi_vendor_infoframe_init :: hdmi_vendor_infoframe where
  "hdmi_vendor_infoframe_init =
     \<lparr>f_type = HDMI_INFOFRAME_TYPE_VENDOR, f_version = 1, f_length = 4, oui = HDMI_IEEE_OUI, vic = 0,
      s3d_struct = HDMI_3D_STRUCTURE_INVALID, s3d_ext_data = 0\<rparr>"

definition hdmi_vendor_infoframe_length :: "hdmi_vendor_infoframe \<Rightarrow> u8" where
  "hdmi_vendor_infoframe_length frame =
     (if s3d_struct frame \<ge> HDMI_3D_STRUCTURE_SIDE_BY_SIDE_HALF then 6
      else if vic frame \<noteq> 0 \<or> s3d_struct frame \<noteq> HDMI_3D_STRUCTURE_INVALID then 5
      else 4)"

definition hdmi_vendor_infoframe_check_only :: "hdmi_vendor_infoframe \<Rightarrow> int" where
  "hdmi_vendor_infoframe_check_only frame =
     (if f_type frame \<noteq> HDMI_INFOFRAME_TYPE_VENDOR \<or> f_version frame \<noteq> 1 \<or> oui frame \<noteq> HDMI_IEEE_OUI then - EINVAL
      else if vic frame \<noteq> 0 \<and> s3d_struct frame \<noteq> HDMI_3D_STRUCTURE_INVALID then - EINVAL
      else if f_length frame \<noteq> hdmi_vendor_infoframe_length frame then - EINVAL
      else 0)"

text \<open>\<open>hdmi_vendor_infoframe_check\<close> sets the length of the frame.\<close>

definition hdmi_vendor_infoframe_check :: "hdmi_vendor_infoframe \<Rightarrow> int \<times> hdmi_vendor_infoframe" where
  "hdmi_vendor_infoframe_check frame =
     (let frame' = frame\<lparr>f_length := hdmi_vendor_infoframe_length frame\<rparr>
      in (hdmi_vendor_infoframe_check_only frame', frame'))"

definition vendor_payload :: "hdmi_vendor_infoframe \<Rightarrow> u8 list" where
  "vendor_payload frame =
     [0x03, 0x0c, 0x00] @
     (if s3d_struct frame \<noteq> HDMI_3D_STRUCTURE_INVALID
      then [0x40, ucast (push_bit 4 (word_of_int (s3d_struct frame) AND 0xf :: u32))] @
           (if s3d_struct frame \<ge> HDMI_3D_STRUCTURE_SIDE_BY_SIDE_HALF
            then [ucast (push_bit 4 (s3d_ext_data frame AND 0xf))] else [])
      else if vic frame \<noteq> 0 then [0x20, vic frame]
      else [0x00])"

definition hdmi_vendor_infoframe_pack_only :: "hdmi_vendor_infoframe \<Rightarrow> u8 list \<Rightarrow> (int \<times> u8 list) option" where
  "hdmi_vendor_infoframe_pack_only frame buffer =
     (let ret = hdmi_vendor_infoframe_check_only frame
      in if ret \<noteq> 0 then Some (ret, buffer) else pack_frame frame (vendor_payload frame) buffer)"

definition hdmi_vendor_infoframe_pack :: "hdmi_vendor_infoframe \<Rightarrow> u8 list \<Rightarrow> (int \<times> u8 list) option" where
  "hdmi_vendor_infoframe_pack frame buffer =
     (case hdmi_vendor_infoframe_check frame of
        (ret, frame') \<Rightarrow>
          (if ret \<noteq> 0 then Some (ret, buffer) else hdmi_vendor_infoframe_pack_only frame' buffer))"

definition hdmi_vendor_any_infoframe_check_only :: "hdmi_vendor_infoframe \<Rightarrow> int" where
  "hdmi_vendor_any_infoframe_check_only frame =
     (if f_type frame \<noteq> HDMI_INFOFRAME_TYPE_VENDOR \<or> f_version frame \<noteq> 1 then - EINVAL else 0)"

definition hdmi_vendor_any_infoframe_check :: "hdmi_vendor_infoframe \<Rightarrow> int \<times> hdmi_vendor_infoframe" where
  "hdmi_vendor_any_infoframe_check frame =
     (let ret = hdmi_vendor_any_infoframe_check_only frame
      in if ret \<noteq> 0 then (ret, frame)
         else if oui frame \<noteq> HDMI_IEEE_OUI then (- EINVAL, frame)
         else hdmi_vendor_infoframe_check frame)"

definition hdmi_vendor_any_infoframe_pack_only ::
  "hdmi_vendor_infoframe \<Rightarrow> u8 list \<Rightarrow> (int \<times> u8 list) option" where
  "hdmi_vendor_any_infoframe_pack_only frame buffer =
     (let ret = hdmi_vendor_any_infoframe_check_only frame
      in if ret \<noteq> 0 then Some (ret, buffer)
         else if oui frame \<noteq> HDMI_IEEE_OUI then Some (- EINVAL, buffer)
         else hdmi_vendor_infoframe_pack_only frame buffer)"

definition hdmi_vendor_any_infoframe_pack :: "hdmi_vendor_infoframe \<Rightarrow> u8 list \<Rightarrow> (int \<times> u8 list) option" where
  "hdmi_vendor_any_infoframe_pack frame buffer =
     (case hdmi_vendor_any_infoframe_check frame of
        (ret, frame') \<Rightarrow>
          (if ret \<noteq> 0 then Some (ret, buffer) else hdmi_vendor_any_infoframe_pack_only frame' buffer))"

definition hdmi_vendor_any_infoframe_unpack :: "u8 list \<Rightarrow> int + hdmi_vendor_infoframe" where
  "hdmi_vendor_any_infoframe_unpack buffer =
     (if length buffer < HDMI_INFOFRAME_HEADER_SIZE then Inl (- EINVAL)
      else if buffer ! 0 \<noteq> 0x81 \<or> buffer ! 1 \<noteq> 1 \<or>
              (buffer ! 2 \<noteq> 4 \<and> buffer ! 2 \<noteq> 5 \<and> buffer ! 2 \<noteq> 6) then Inl (- EINVAL)
      else
        (let len = buffer ! 2
         in if length buffer < HDMI_INFOFRAME_HEADER_SIZE + unat len then Inl (- EINVAL)
            else if hdmi_infoframe_checksum buffer (HDMI_INFOFRAME_HEADER_SIZE + unat len) \<noteq> 0 then Inl (- EINVAL)
            else
              (let ptr = drop HDMI_INFOFRAME_HEADER_SIZE buffer; hdmi_video_format = drop_bit 5 (ptr ! 3)
               in if ptr ! 0 \<noteq> 0x03 \<or> ptr ! 1 \<noteq> 0x0c \<or> ptr ! 2 \<noteq> 0x00 then Inl (- EINVAL)
                  else if hdmi_video_format > 0x2 then Inl (- EINVAL)
                  else
                    (let hvf = hdmi_vendor_infoframe_init\<lparr>f_length := len\<rparr>
                     in if hdmi_video_format = 0x2
                        then
                          (if len \<noteq> 5 \<and> len \<noteq> 6 then Inl (- EINVAL)
                           else
                             (let s = uint (drop_bit 4 (ptr ! 4))
                              in if s \<ge> HDMI_3D_STRUCTURE_SIDE_BY_SIDE_HALF
                                 then (if len \<noteq> 6 then Inl (- EINVAL)
                                       else Inr (hvf\<lparr>s3d_struct := s, s3d_ext_data := ucast (drop_bit 4 (ptr ! 5))\<rparr>))
                                 else Inr (hvf\<lparr>s3d_struct := s\<rparr>)))
                        else if hdmi_video_format = 0x1
                        then (if len \<noteq> 5 then Inl (- EINVAL) else Inr (hvf\<lparr>vic := ptr ! 4\<rparr>))
                        else (if len \<noteq> 4 then Inl (- EINVAL) else Inr hvf)))))"

section \<open>Dynamic range and mastering\<close>

definition hdmi_drm_infoframe_init :: hdmi_drm_infoframe where
  "hdmi_drm_infoframe_init =
     \<lparr>f_type = HDMI_INFOFRAME_TYPE_DRM, f_version = 1, f_length = 26, eotf = 0, metadata_type = 0,
      display_primaries = ((0, 0), (0, 0), (0, 0)), white_point = (0, 0),
      max_display_mastering_luminance = 0, min_display_mastering_luminance = 0, max_cll = 0, max_fall = 0\<rparr>"

definition hdmi_drm_infoframe_check_only :: "hdmi_drm_infoframe \<Rightarrow> int" where
  "hdmi_drm_infoframe_check_only frame =
     (if f_type frame \<noteq> HDMI_INFOFRAME_TYPE_DRM \<or> f_version frame \<noteq> 1 then - EINVAL
      else if f_length frame \<noteq> 26 then - EINVAL
      else 0)"

definition hdmi_drm_infoframe_check :: "hdmi_drm_infoframe \<Rightarrow> int" where
  "hdmi_drm_infoframe_check frame = hdmi_drm_infoframe_check_only frame"

text \<open>The two bytes that \<open>*ptr++ = v; *ptr++ = v >> 8\<close> writes.\<close>

definition put16 :: "u16 \<Rightarrow> u8 list" where
  "put16 v = [ucast v, ucast (drop_bit 8 v)]"

definition put_point :: "u16 \<times> u16 \<Rightarrow> u8 list" where
  "put_point p = put16 (fst p) @ put16 (snd p)"

definition drm_payload :: "hdmi_drm_infoframe \<Rightarrow> u8 list" where
  "drm_payload frame =
     [ucast (eotf frame), ucast (metadata_type frame)] @
     (case display_primaries frame of (a, b, c) \<Rightarrow> put_point a @ put_point b @ put_point c) @
     put_point (white_point frame) @
     put16 (max_display_mastering_luminance frame) @ put16 (min_display_mastering_luminance frame) @
     put16 (max_cll frame) @ put16 (max_fall frame)"

definition hdmi_drm_infoframe_pack_only :: "hdmi_drm_infoframe \<Rightarrow> u8 list \<Rightarrow> (int \<times> u8 list) option" where
  "hdmi_drm_infoframe_pack_only frame buffer = pack_frame frame (drm_payload frame) buffer"

definition hdmi_drm_infoframe_pack :: "hdmi_drm_infoframe \<Rightarrow> u8 list \<Rightarrow> (int \<times> u8 list) option" where
  "hdmi_drm_infoframe_pack frame buffer =
     (let ret = hdmi_drm_infoframe_check frame
      in if ret \<noteq> 0 then Some (ret, buffer) else hdmi_drm_infoframe_pack_only frame buffer)"

definition get_point :: "u8 list \<Rightarrow> nat \<Rightarrow> u16 \<times> u16" where
  "get_point ptr i = (le16 (ptr ! i) (ptr ! (i + 1)), le16 (ptr ! (i + 2)) (ptr ! (i + 3)))"

definition hdmi_drm_infoframe_unpack_only :: "u8 list \<Rightarrow> int + hdmi_drm_infoframe" where
  "hdmi_drm_infoframe_unpack_only ptr =
     (if length ptr < 26 then Inl (- EINVAL)
      else
        Inr (hdmi_drm_infoframe_init
          \<lparr>eotf := ucast (ptr ! 0 AND 0x7),
           metadata_type := ucast (ptr ! 1 AND 0x7),
           display_primaries := (get_point ptr 2, get_point ptr 6, get_point ptr 10),
           white_point := (le16 (ptr ! 14) (ptr ! 15), le16 (ptr ! 16) (ptr ! 17)),
           max_display_mastering_luminance := le16 (ptr ! 18) (ptr ! 19),
           min_display_mastering_luminance := le16 (ptr ! 20) (ptr ! 21),
           max_cll := le16 (ptr ! 22) (ptr ! 23),
           max_fall := le16 (ptr ! 24) (ptr ! 25)\<rparr>))"

definition hdmi_drm_infoframe_unpack :: "u8 list \<Rightarrow> int + hdmi_drm_infoframe" where
  "hdmi_drm_infoframe_unpack buffer =
     (if length buffer < HDMI_INFOFRAME_HEADER_SIZE + 26 then Inl (- EINVAL)
      else if buffer ! 0 \<noteq> 0x87 \<or> buffer ! 1 \<noteq> 1 \<or> buffer ! 2 \<noteq> 26 then Inl (- EINVAL)
      else if hdmi_infoframe_checksum buffer (HDMI_INFOFRAME_HEADER_SIZE + 26) \<noteq> 0 then Inl (- EINVAL)
      else hdmi_drm_infoframe_unpack_only (drop HDMI_INFOFRAME_HEADER_SIZE buffer))"

section \<open>Any frame\<close>

text \<open>
  The functions on \<open>union hdmi_infoframe\<close>.  The constructor is the member that the type field
  of the frame names.
\<close>

primrec hdmi_infoframe_check :: "hdmi_infoframe \<Rightarrow> int \<times> hdmi_infoframe" where
  "hdmi_infoframe_check (Avi f) = (hdmi_avi_infoframe_check f, Avi f)"
| "hdmi_infoframe_check (Spd f) = (hdmi_spd_infoframe_check f, Spd f)"
| "hdmi_infoframe_check (Audio f) = (hdmi_audio_infoframe_check f, Audio f)"
| "hdmi_infoframe_check (Vendor f) = (case hdmi_vendor_any_infoframe_check f of (ret, f') \<Rightarrow> (ret, Vendor f'))"
| "hdmi_infoframe_check (Drm f) = (- EINVAL, Drm f)"

primrec hdmi_infoframe_pack_only :: "hdmi_infoframe \<Rightarrow> u8 list \<Rightarrow> (int \<times> u8 list) option" where
  "hdmi_infoframe_pack_only (Avi f) buffer = hdmi_avi_infoframe_pack_only f buffer"
| "hdmi_infoframe_pack_only (Drm f) buffer = hdmi_drm_infoframe_pack_only f buffer"
| "hdmi_infoframe_pack_only (Spd f) buffer = hdmi_spd_infoframe_pack_only f buffer"
| "hdmi_infoframe_pack_only (Audio f) buffer = hdmi_audio_infoframe_pack_only f buffer"
| "hdmi_infoframe_pack_only (Vendor f) buffer = hdmi_vendor_any_infoframe_pack_only f buffer"

primrec hdmi_infoframe_pack :: "hdmi_infoframe \<Rightarrow> u8 list \<Rightarrow> (int \<times> u8 list) option" where
  "hdmi_infoframe_pack (Avi f) buffer = hdmi_avi_infoframe_pack f buffer"
| "hdmi_infoframe_pack (Drm f) buffer = hdmi_drm_infoframe_pack f buffer"
| "hdmi_infoframe_pack (Spd f) buffer = hdmi_spd_infoframe_pack f buffer"
| "hdmi_infoframe_pack (Audio f) buffer = hdmi_audio_infoframe_pack f buffer"
| "hdmi_infoframe_pack (Vendor f) buffer = hdmi_vendor_any_infoframe_pack f buffer"

definition hdmi_infoframe_unpack :: "u8 list \<Rightarrow> (int + hdmi_infoframe) option" where
  "hdmi_infoframe_unpack buffer =
     (if length buffer < HDMI_INFOFRAME_HEADER_SIZE then Some (Inl (- EINVAL))
      else if buffer ! 0 = 0x82 then Some (map_sum id Avi (hdmi_avi_infoframe_unpack buffer))
      else if buffer ! 0 = 0x87 then Some (map_sum id Drm (hdmi_drm_infoframe_unpack buffer))
      else if buffer ! 0 = 0x83 then map_option (map_sum id Spd) (hdmi_spd_infoframe_unpack buffer)
      else if buffer ! 0 = 0x84 then Some (map_sum id Audio (hdmi_audio_infoframe_unpack buffer))
      else if buffer ! 0 = 0x81 then Some (map_sum id Vendor (hdmi_vendor_any_infoframe_unpack buffer))
      else Some (Inl (- EINVAL)))"

section \<open>Packed frames\<close>

lemma foldl_plus: "foldl (+) a xs = a + sum_list (xs :: u8 list)"
  by (induction xs arbitrary: a) (simp_all add: add.assoc)

lemma checksum_eq: "hdmi_infoframe_checksum ptr sz = - sum_list (take sz ptr)"
  by (simp add: hdmi_infoframe_checksum_def foldl_plus)

text \<open>A packed frame: its header, payload and padding, with the checksum right.\<close>

lemma take_header: "take (4 + n) ([a, b, c, d] @ r) = [a, b, c, d] @ take n r"
  by (subst take_append) simp

lemma pack_frame_ok:
  assumes "4 + unat (f_length frame) \<le> length buffer" "4 + length payload \<le> length buffer"
  obtains c where "pack_frame frame payload buffer = Some (int (4 + unat (f_length frame)),
      [ucast (f_type frame), f_version frame, f_length frame, c] @ payload @ replicate (length buffer - (4 + length payload)) 0)"
    "hdmi_infoframe_checksum ([ucast (f_type frame), f_version frame, f_length frame, c] @ payload @
      replicate (length buffer - (4 + length payload)) 0) (4 + unat (f_length frame)) = 0"
proof -
  let ?rest = "payload @ replicate (length buffer - (4 + length payload)) 0"
  let ?h = "\<lambda>c. [ucast (f_type frame), f_version frame, f_length frame, c]"
  let ?len = "4 + unat (f_length frame)"
  let ?c = "hdmi_infoframe_checksum (?h 0 @ ?rest) ?len"
  have take: "take ?len (?h c @ ?rest) = ?h c @ take (unat (f_length frame)) ?rest" for c
    by (rule take_header)
  have "hdmi_infoframe_checksum (?h ?c @ ?rest) ?len = 0"
    unfolding checksum_eq take by simp
  moreover have "pack_frame frame payload buffer = Some (int ?len, ?h ?c @ ?rest)"
    using assms by (simp add: pack_frame_def hdmi_infoframe_set_checksum_def Let_def eval_nat_numeral)
  ultimately show ?thesis by (intro that)
qed

lemma pack_frame_small:
  "length buffer < 4 + unat (f_length frame) \<Longrightarrow> pack_frame frame payload buffer = Some (- ENOSPC, buffer)"
  by (simp add: pack_frame_def)

text \<open>What a successful packing and a failed one leave in the buffer.\<close>

definition packed :: "u8 list \<Rightarrow> int \<times> u8 list \<Rightarrow> bool" where
  "packed buffer r \<longleftrightarrow> (case r of (n, buffer') \<Rightarrow>
     (if n < 0 then buffer' = buffer
      else nat n \<le> length buffer \<and> length buffer' = length buffer \<and> n = 4 + uint (buffer' ! 2) \<and>
           sum_list (take (nat n) buffer') = 0))"

lemma pack_frame_packed:
  assumes "length payload \<le> unat (f_length frame)"
  shows "\<exists>r. pack_frame frame payload buffer = Some r \<and> packed buffer r \<and>
     (fst r < 0 \<longleftrightarrow> length buffer < 4 + unat (f_length frame))"
proof (cases "length buffer < 4 + unat (f_length frame)")
  case True
  then show ?thesis by (auto simp: pack_frame_small packed_def)
next
  case False
  then have "4 + unat (f_length frame) \<le> length buffer" "4 + length payload \<le> length buffer"
    using assms by simp_all
  then obtain c where c: "pack_frame frame payload buffer = Some (int (4 + unat (f_length frame)),
      [ucast (f_type frame), f_version frame, f_length frame, c] @ payload @ replicate (length buffer - (4 + length payload)) 0)"
    "hdmi_infoframe_checksum ([ucast (f_type frame), f_version frame, f_length frame, c] @ payload @
      replicate (length buffer - (4 + length payload)) 0) (4 + unat (f_length frame)) = 0"
    by (rule pack_frame_ok)
  have "packed buffer (int (4 + unat (f_length frame)),
      [ucast (f_type frame), f_version frame, f_length frame, c] @ payload @ replicate (length buffer - (4 + length payload)) 0)"
    using c(2) False \<open>4 + length payload \<le> length buffer\<close>
    unfolding checksum_eq packed_def prod.case nat_int
    by (simp add: not_less [of _ "0 :: int", THEN iffD2, OF add_nonneg_nonneg])
  moreover have "\<not> int (4 + unat (f_length frame)) < 0" by (simp only: not_less of_nat_0_le_iff)
  ultimately show ?thesis using c(1) False by (metis fst_conv)
qed

lemma packed_error: "r < 0 \<Longrightarrow> packed buffer (r, buffer)"
  by (simp add: packed_def)

definition frame_ok :: "hdmi_infoframe \<Rightarrow> bool" where
  "frame_ok f \<longleftrightarrow> (case f of Spd s \<Rightarrow> length (vendor s) = 8 \<and> length (product s) = 16 | _ \<Rightarrow> True)"

lemma length_payloads [simp]:
  "length (avi_payload a) = 13" "length (audio_payload b) = 5" "length (drm_payload d) = 26"
  "length (vendor_payload v) = (if s3d_struct v \<ge> 8 then 6 else if s3d_struct v \<noteq> -1 \<or> vic v \<noteq> 0 then 5 else 4)"
  by (auto simp: avi_payload_def audio_payload_def drm_payload_def vendor_payload_def Let_def put_point_def
      put16_def split: prod.split)

section \<open>Bits of the fields\<close>

lemma mask_numerals:
  "(3 :: 'a::len word) = mask 2" "(7 :: 'a::len word) = mask 3" "(15 :: 'a::len word) = mask 4"
  "(31 :: 'a::len word) = mask 5" "(127 :: 'a::len word) = mask 7" "(255 :: 'a::len word) = mask 8"
  by (simp_all add: mask_eq_decr_exp)

lemma and_mask_less: "unat (x :: 'a::len word) < 2 ^ k \<Longrightarrow> x AND mask k = x"
  by (rule word_unat_eq_iff [THEN iffD2]) (simp add: unat_take_bit flip: take_bit_eq_mask)

lemma le16_put16: "le16 (ucast v) (ucast (drop_bit 8 v)) = v"
  unfolding le16_def by (rule bit_word_eqI) (auto simp: bit_simps)


lemma bit_u8_numerals:
  "bit (4 :: int) n \<longleftrightarrow> n = 2" "bit (8 :: int) n \<longleftrightarrow> n = 3" "bit (16 :: int) n \<longleftrightarrow> n = 4" "bit (128 :: int) n \<longleftrightarrow> n = 7"
  "bit (32 :: int) n \<longleftrightarrow> n = 5"
  using bit_exp_iff [where 'a = int, of 5 n] bit_exp_iff [where 'a = int, of 2 n] bit_exp_iff [where 'a = int, of 3 n]
    bit_exp_iff [where 'a = int, of 4 n] bit_exp_iff [where 'a = int, of 7 n]
  by auto

lemma test_bit_u8:
  "(b :: u8) AND 0x4 \<noteq> 0 \<longleftrightarrow> bit b 2" "b AND 0x8 \<noteq> 0 \<longleftrightarrow> bit b 3" "b AND 0x80 \<noteq> 0 \<longleftrightarrow> bit b 7"
  using and_exp_eq_0_iff_not_bit [of b 2] and_exp_eq_0_iff_not_bit [of b 3] and_exp_eq_0_iff_not_bit [of b 7]
  by simp_all





lemma audio_bytes:
  fixes c f z :: u32 and h l :: u8 and d :: bool
  defines "b0 \<equiv> ucast (push_bit 4 (c AND 0xf) OR ucast (h AND 0x7)) :: u8"
    and "b1 \<equiv> ucast (push_bit 2 (f AND 0x7) OR (z AND 0x3)) :: u8"
    and "b4 \<equiv> push_bit 3 (l AND 0xf) OR (if d then 0x80 else 0) :: u8"
  shows "b0 AND 0x7 = h AND 0x7" "ucast (drop_bit 4 b0 AND 0xf) = c AND 0xf" "ucast (b1 AND 0x3) = z AND 0x3"
    "ucast (drop_bit 2 b1 AND 0x7) = f AND 0x7" "drop_bit 3 b4 AND 0xf = l AND 0xf" "b4 AND 0x80 \<noteq> 0 \<longleftrightarrow> d"
proof -
  show "b0 AND 0x7 = h AND 0x7" "ucast (drop_bit 4 b0 AND 0xf) = c AND 0xf" "ucast (b1 AND 0x3) = z AND 0x3"
    "ucast (drop_bit 2 b1 AND 0x7) = f AND 0x7"  "drop_bit 3 b4 AND 0xf = l AND 0xf"
    unfolding b0_def b1_def b4_def mask_numerals by (rule bit_word_eqI; auto simp: bit_simps bit_u8_numerals)+
  show "b4 AND 0x80 \<noteq> 0 \<longleftrightarrow> d"
    unfolding test_bit_u8 b4_def mask_numerals by (auto simp: bit_simps bit_u8_numerals)
qed

section \<open>Properties\<close>

lemmas check_defs =
  hdmi_avi_infoframe_check_def hdmi_avi_infoframe_check_only_def hdmi_spd_infoframe_check_def
  hdmi_spd_infoframe_check_only_def hdmi_audio_infoframe_check_def hdmi_audio_infoframe_check_only_def
  hdmi_vendor_infoframe_check_def hdmi_vendor_infoframe_check_only_def hdmi_vendor_any_infoframe_check_def
  hdmi_vendor_any_infoframe_check_only_def hdmi_drm_infoframe_check_def hdmi_drm_infoframe_check_only_def

lemmas pack_defs =
  hdmi_avi_infoframe_pack_def hdmi_avi_infoframe_pack_only_def hdmi_spd_infoframe_pack_def
  hdmi_spd_infoframe_pack_only_def hdmi_audio_infoframe_pack_def hdmi_audio_infoframe_pack_only_def
  hdmi_vendor_any_infoframe_pack_def hdmi_vendor_any_infoframe_pack_only_def hdmi_vendor_infoframe_pack_only_def
  hdmi_drm_infoframe_pack_def hdmi_drm_infoframe_pack_only_def

lemma pack_frame_returns:
  assumes "length payload \<le> unat (f_length frame)"
  shows "\<exists>r. pack_frame frame payload buffer = Some r \<and> packed buffer r"
  using pack_frame_packed [OF assms, of buffer] by blast

lemma vendor_pack_returns: "\<exists>r. hdmi_vendor_any_infoframe_pack v buffer = Some r \<and> packed buffer r"
proof -
  let ?v = "v\<lparr>f_length := hdmi_vendor_infoframe_length v\<rparr>"
  have "length (vendor_payload ?v) \<le> unat (f_length ?v)"
    by (simp add: hdmi_vendor_infoframe_length_def)
  from pack_frame_returns [OF this, of buffer] show ?thesis
    by (auto simp: pack_defs check_defs Let_def packed_error)
qed

text \<open>
  C14: A packed frame is valid.  \<open>hdmi_infoframe_pack\<close> never writes outside of the buffer.  When
  it succeeds, it returns the number of bytes of the frame, which is the header size plus the
  length byte in the buffer and at most the size of the buffer, and these bytes sum up to 0
  modulo 256; when it fails, the buffer is as before.
\<close>

theorem hdmi_infoframe_pack_valid:
  assumes "frame_ok f"
  shows "\<exists>n buffer'. hdmi_infoframe_pack f buffer = Some (n, buffer') \<and>
     (if n < 0 then buffer' = buffer
      else nat n \<le> length buffer \<and> length buffer' = length buffer \<and> n = 4 + uint (buffer' ! 2) \<and>
           sum_list (take (nat n) buffer') = 0)"
proof -
  have "\<exists>r. hdmi_infoframe_pack f buffer = Some r \<and> packed buffer r"
  proof (cases f)
    case (Avi a)
    have "f_length a = 13 \<Longrightarrow> length (avi_payload a) \<le> unat (f_length a)" by simp
    then show ?thesis using pack_frame_returns [of "avi_payload a" a buffer] Avi
      by (auto simp: pack_defs check_defs packed_error)
  next
    case (Spd s)
    have "f_length s = 25 \<Longrightarrow> length (vendor s @ product s @ [ucast (sdi s) :: u8]) \<le> unat (f_length s)"
      using assms Spd by (simp add: frame_ok_def)
    then show ?thesis using pack_frame_returns [of "vendor s @ product s @ [ucast (sdi s)]" s buffer] Spd
      by (auto simp: pack_defs check_defs packed_error)
  next
    case (Audio a)
    have "f_length a = 10 \<Longrightarrow> length (audio_payload a) \<le> unat (f_length a)" by simp
    then show ?thesis using pack_frame_returns [of "audio_payload a" a buffer] Audio
      by (auto simp: pack_defs check_defs packed_error)
  next
    case (Vendor v)
    with vendor_pack_returns show ?thesis by simp
  next
    case (Drm d)
    have "f_length d = 26 \<Longrightarrow> length (drm_payload d) \<le> unat (f_length d)" by simp
    then show ?thesis using pack_frame_returns [of "drm_payload d" d buffer] Drm
      by (auto simp: pack_defs check_defs packed_error)
  qed
  then show ?thesis by (auto simp: packed_def split: prod.splits)
qed

theorem hdmi_infoframe_pack_valid_witness:
  "\<exists>n buffer'. hdmi_infoframe_pack (Avi hdmi_avi_infoframe_init) (replicate 20 7) = Some (n, buffer') \<and>
     (n < 0 \<longrightarrow> buffer' = replicate 20 7)"
  using hdmi_infoframe_pack_valid [of "Avi hdmi_avi_infoframe_init" "replicate 20 7"]
  by (auto simp: frame_ok_def split: if_splits)





lemma pack_frame_fits:
  assumes "length payload \<le> unat (f_length frame)" "4 + unat (f_length frame) \<le> length buffer"
  obtains c z where "pack_frame frame payload buffer = Some (int (4 + unat (f_length frame)),
      [ucast (f_type frame), f_version frame, f_length frame, c] @ payload @ z)"
    "hdmi_infoframe_checksum ([ucast (f_type frame), f_version frame, f_length frame, c] @ payload @ z)
      (4 + unat (f_length frame)) = 0"
    "z = replicate (length buffer - (4 + length payload)) 0"
  using pack_frame_ok [of frame buffer payload thesis] assms by fastforce



lemma low_bits: "unat (x :: u32) < 8 \<Longrightarrow> ucast (ucast x AND 0x7 :: u8) = x"
proof -
  assume "unat x < 8"
  then have "x AND mask 3 = x" by (intro and_mask_less) simp
  moreover have "ucast (ucast x AND mask 3 :: u8) = x AND mask 3" by (rule bit_word_eqI) (auto simp: bit_simps)
  ultimately show ?thesis by (simp add: mask_numerals)
qed

lemma drm_unpack_payload:
  assumes "unat (eotf f) < 8" "unat (metadata_type f) < 8" "f_type f = 0x87" "f_version f = 1" "f_length f = 26"
  shows "hdmi_drm_infoframe_unpack_only (drm_payload f @ z) = Inr f"
proof -
  define lo :: "u16 \<Rightarrow> u8" where "lo v = ucast v" for v
  define hi :: "u16 \<Rightarrow> u8" where "hi v = ucast (drop_bit 8 v)" for v
  have le: "le16 (lo v) (hi v) = v" for v unfolding lo_def hi_def by (rule le16_put16)
  have put: "put16 v = [lo v, hi v]" for v by (simp add: put16_def lo_def hi_def)
  obtain a b c where p: "display_primaries f = (a, b, c)" by (cases "display_primaries f")
  have "length (drm_payload f @ z) \<ge> 26" by simp
  moreover have "drm_payload f @ z = [ucast (eotf f), ucast (metadata_type f), lo (fst a), hi (fst a), lo (snd a), hi (snd a),
      lo (fst b), hi (fst b), lo (snd b), hi (snd b), lo (fst c), hi (fst c), lo (snd c), hi (snd c),
      lo (fst (white_point f)), hi (fst (white_point f)), lo (snd (white_point f)), hi (snd (white_point f)),
      lo (max_display_mastering_luminance f), hi (max_display_mastering_luminance f),
      lo (min_display_mastering_luminance f), hi (min_display_mastering_luminance f),
      lo (max_cll f), hi (max_cll f), lo (max_fall f), hi (max_fall f)] @ z"
    by (simp add: drm_payload_def put_point_def put p)
  ultimately show ?thesis
    unfolding hdmi_drm_infoframe_unpack_only_def
    by (simp add: get_point_def le low_bits assms(1,2) hdmi_drm_infoframe_init_def assms(3-5) [symmetric] p [symmetric])
qed

text \<open>
  Dynamic range frames survive the round trip.  A frame that passes the check and whose
  transfer function and metadata type are in range is what unpacking the packed bytes returns.
\<close>

theorem hdmi_drm_infoframe_roundtrip:
  assumes "hdmi_drm_infoframe_check f = 0" "unat (eotf f) < 8" "unat (metadata_type f) < 8" "30 \<le> length buffer"
  shows "\<exists>buffer'. hdmi_infoframe_pack (Drm f) buffer = Some (30, buffer') \<and>
     hdmi_infoframe_unpack buffer' = Some (Inr (Drm f))"
proof -
  have head: "f_type f = 0x87" "f_version f = 1" "f_length f = 26"
    using assms(1) by (auto simp: check_defs split: if_splits)
  from assms(4) head obtain c z where z:
    "pack_frame f (drm_payload f) buffer = Some (30, [0x87, 1, 26, c] @ drm_payload f @ z)"
    "hdmi_infoframe_checksum ([0x87, 1, 26, c] @ drm_payload f @ z) 30 = 0"
    by (auto intro: pack_frame_fits [of "drm_payload f" f buffer])
  then have "hdmi_infoframe_unpack ([0x87, 1, 26, c] @ drm_payload f @ z) =
      Some (map_sum id Drm (hdmi_drm_infoframe_unpack_only (drm_payload f @ z)))"
    by (simp add: hdmi_infoframe_unpack_def hdmi_drm_infoframe_unpack_def)
  then show ?thesis
    using z(1) assms(1) drm_unpack_payload [OF assms(2,3) head] by (simp add: pack_defs)
qed

theorem hdmi_drm_infoframe_roundtrip_witness:
  "\<exists>buffer'. hdmi_infoframe_pack (Drm (hdmi_drm_infoframe_init\<lparr>eotf := 2, max_cll := 1000, white_point := (15635, 16450)\<rparr>))
       (replicate 31 0xff) = Some (30, buffer') \<and>
     hdmi_infoframe_unpack buffer' =
       Some (Inr (Drm (hdmi_drm_infoframe_init\<lparr>eotf := 2, max_cll := 1000, white_point := (15635, 16450)\<rparr>)))"
  by (rule hdmi_drm_infoframe_roundtrip) (simp_all add: check_defs hdmi_drm_infoframe_init_def)

definition audio_in_range :: "hdmi_audio_infoframe \<Rightarrow> bool" where
  "audio_in_range f \<longleftrightarrow> unat (channels f) \<le> 8 \<and> unat (coding_type f) < 16 \<and> unat (sample_size f) < 4 \<and>
     unat (sample_frequency f) < 8 \<and> unat (coding_type_ext f) < 32 \<and> unat (level_shift_value f) < 16"

lemma low_bits5: "ucast ((ucast (x AND 0x1f) :: u8) AND 0x1f) = (x :: u32) AND 0x1f"
  unfolding mask_numerals by (rule bit_word_eqI) (auto simp: bit_simps)

lemma audio_fields:
  assumes "audio_in_range f"
  shows "(if channels f \<ge> 2 then channels f - 1 else 0) AND 0x7 = (if channels f \<ge> 2 then channels f - 1 else 0)"
    "coding_type f AND 0xf = coding_type f" "sample_size f AND 0x3 = sample_size f"
    "sample_frequency f AND 0x7 = sample_frequency f" "coding_type_ext f AND 0x1f = coding_type_ext f"
    "level_shift_value f AND 0xf = level_shift_value f"
proof -
  have "unat (channels f - 1) = unat (channels f) - 1" if "2 \<le> channels f"
    using that by (intro unat_minus_one) auto
  then have "unat (if channels f \<ge> 2 then channels f - 1 else 0) < 2 ^ 3"
    using assms by (auto simp: audio_in_range_def)
  then show "(if channels f \<ge> 2 then channels f - 1 else 0) AND 0x7 = (if channels f \<ge> 2 then channels f - 1 else 0)"
    unfolding mask_numerals by (rule and_mask_less)
  show "coding_type f AND 0xf = coding_type f" "sample_size f AND 0x3 = sample_size f"
    "sample_frequency f AND 0x7 = sample_frequency f" "coding_type_ext f AND 0x1f = coding_type_ext f"
    "level_shift_value f AND 0xf = level_shift_value f"
    using assms unfolding audio_in_range_def mask_numerals by (intro and_mask_less; simp)+
qed

text \<open>
  Audio frames do not survive the round trip.  Every field in range is restored, but the
  channel count comes back as the encoded value: one less than it was, and 0 for a count of 1.
\<close>

theorem hdmi_audio_infoframe_roundtrip:
  assumes "hdmi_audio_infoframe_check f = 0" "audio_in_range f" "14 \<le> length buffer"
  shows "\<exists>buffer'. hdmi_infoframe_pack (Audio f) buffer = Some (14, buffer') \<and>
     hdmi_infoframe_unpack buffer' =
       Some (Inr (Audio (f\<lparr>channels := (if channels f \<ge> 2 then channels f - 1 else 0)\<rparr>)))"
proof -
  let ?ch = "if channels f \<ge> 2 then channels f - 1 else 0"
  have head: "f_type f = 0x84" "f_version f = 1" "f_length f = 10"
    using assms(1) by (auto simp: check_defs split: if_splits)
  from assms(3) head obtain c z where z:
    "pack_frame f (audio_payload f) buffer = Some (14, [0x84, 1, 10, c] @ audio_payload f @ z)"
    "hdmi_infoframe_checksum ([0x84, 1, 10, c] @ audio_payload f @ z) 14 = 0" "z = replicate (length buffer - 9) 0"
    by (auto intro: pack_frame_fits [of "audio_payload f" f buffer])
  obtain b0 b1 b2 b4 where b: "audio_payload f = [b0, b1, b2, channel_allocation f, b4]"
    "b0 AND 0x7 = ?ch" "ucast (drop_bit 4 b0 AND 0xf) = coding_type f" "ucast (b1 AND 0x3) = sample_size f"
    "ucast (drop_bit 2 b1 AND 0x7) = sample_frequency f" "ucast (b2 AND 0x1f) = coding_type_ext f"
    "drop_bit 3 b4 AND 0xf = level_shift_value f" "b4 AND 0x80 \<noteq> 0 \<longleftrightarrow> downmix_inhibit f"
  proof (rule that)
    show "audio_payload f = [ucast (push_bit 4 (coding_type f AND 0xf) OR ucast (?ch AND 0x7)),
          ucast (push_bit 2 (sample_frequency f AND 0x7) OR (sample_size f AND 0x3)), ucast (coding_type_ext f AND 0x1f),
          channel_allocation f,
          push_bit 3 (level_shift_value f AND 0xf) OR (if downmix_inhibit f then 0x80 else 0)]"
      by (simp only: audio_payload_def Let_def)
  qed (simp_all only: audio_bytes low_bits5, simp_all only: audio_fields [OF assms(2)])
  have "hdmi_infoframe_unpack ([0x84, 1, 10, c] @ audio_payload f @ z) = Some (Inr (Audio (f\<lparr>channels := ?ch\<rparr>)))"
    using z(2,3) assms(3) head unfolding b(1) hdmi_infoframe_unpack_def hdmi_audio_infoframe_unpack_def
    by (cases f) (simp add: b(2-) hdmi_audio_infoframe_init_def)
  then show ?thesis using z(1) assms(1) by (simp add: pack_defs hdmi_audio_infoframe_check_def)
qed

theorem hdmi_audio_infoframe_roundtrip_witness:
  "\<exists>buffer'. hdmi_infoframe_pack (Audio (hdmi_audio_infoframe_init\<lparr>channels := 6\<rparr>)) (replicate 14 0) = Some (14, buffer') \<and>
     hdmi_infoframe_unpack buffer' = Some (Inr (Audio (hdmi_audio_infoframe_init\<lparr>channels := 5\<rparr>)))"
  using hdmi_audio_infoframe_roundtrip [where f = "hdmi_audio_infoframe_init\<lparr>channels := 6\<rparr>" and buffer = "replicate 14 0"]
  by (simp add: check_defs audio_in_range_def hdmi_audio_infoframe_init_def)

definition vendor_in_range :: "hdmi_vendor_infoframe \<Rightarrow> bool" where
  "vendor_in_range f \<longleftrightarrow> s3d_struct f \<ge> - 1 \<and> s3d_struct f < 16 \<and> unat (s3d_ext_data f) < 16 \<and>
     (s3d_struct f < 8 \<longrightarrow> s3d_ext_data f = 0)"

lemma nibble: "drop_bit 4 (ucast (push_bit 4 (x AND 0xf)) :: u8) = ucast ((x :: u32) AND 0xf)"
  unfolding mask_numerals by (rule bit_word_eqI) (auto simp: bit_simps)

lemma vendor_nibbles:
  assumes "vendor_in_range f"
  shows "s3d_struct f \<noteq> - 1 \<Longrightarrow>
      uint (drop_bit 4 (ucast (push_bit 4 (word_of_int (s3d_struct f) AND 0xf :: u32)) :: u8)) = s3d_struct f"
    "ucast (drop_bit 4 (ucast (push_bit 4 (s3d_ext_data f AND 0xf)) :: u8)) = s3d_ext_data f"
proof -
  show "uint (drop_bit 4 (ucast (push_bit 4 (word_of_int (s3d_struct f) AND 0xf :: u32)) :: u8)) = s3d_struct f"
    if "s3d_struct f \<noteq> - 1"
  proof -
    have r: "0 \<le> s3d_struct f" "s3d_struct f < 16" using assms that by (simp_all add: vendor_in_range_def)
    have "uint (ucast ((word_of_int i :: u32) AND 0xf) :: u8) = take_bit 4 i" for i
      unfolding mask_numerals by (rule bit_eqI) (auto simp: bit_simps)
    with r show ?thesis by (simp only: nibble) (simp add: take_bit_int_eq_self)
  qed
  have "s3d_ext_data f AND 0xf = s3d_ext_data f"
    unfolding mask_numerals using assms by (intro and_mask_less) (simp add: vendor_in_range_def)
  moreover have "ucast (ucast (x AND 0xf) :: u8) = x AND 0xf" for x :: u32
    unfolding mask_numerals by (rule bit_word_eqI) (auto simp: bit_simps)
  ultimately show "ucast (drop_bit 4 (ucast (push_bit 4 (s3d_ext_data f AND 0xf)) :: u8)) = s3d_ext_data f"
    by (metis nibble)
qed

lemma vendor_unpack_payload:
  assumes "vendor_in_range f" "vic f \<noteq> 0 \<longrightarrow> s3d_struct f = - 1" "f_type f = 0x81" "f_version f = 1" "oui f = 0x000c03"
    "f_length f = hdmi_vendor_infoframe_length f"
    "hdmi_infoframe_checksum ([0x81, 1, f_length f, c] @ vendor_payload f @ z) (4 + unat (f_length f)) = 0"
  shows "hdmi_vendor_any_infoframe_unpack ([0x81, 1, f_length f, c] @ vendor_payload f @ z) = Inr f"
proof -
  consider (none) "s3d_struct f = - 1" "vic f = 0" | (vic) "s3d_struct f = - 1" "vic f \<noteq> 0"
    | (s3d) "0 \<le> s3d_struct f" "s3d_struct f < 8" "vic f = 0" | (ext) "8 \<le> s3d_struct f" "vic f = 0"
    using assms(1,2) by (auto simp: vendor_in_range_def) linarith
  then show ?thesis
  proof cases
    case none
    with assms show ?thesis
      by (cases f) (simp add: hdmi_vendor_any_infoframe_unpack_def vendor_payload_def hdmi_vendor_infoframe_length_def
          hdmi_vendor_infoframe_init_def vendor_in_range_def)
  next
    case vic
    with assms show ?thesis
      by (cases f) (simp add: hdmi_vendor_any_infoframe_unpack_def vendor_payload_def hdmi_vendor_infoframe_length_def
          hdmi_vendor_infoframe_init_def vendor_in_range_def)
  next
    case s3d
    define b :: u8 where "b = ucast (push_bit 4 (word_of_int (s3d_struct f) AND 0xf :: u32))"
    have "uint (drop_bit 4 b) = s3d_struct f" using s3d vendor_nibbles(1) [OF assms(1)] by (simp add: b_def)
    moreover have "vendor_payload f = [0x03, 0x0c, 0x00, 0x40, b]" using s3d by (simp add: vendor_payload_def b_def)
    moreover have "s3d_ext_data f = 0" using s3d assms(1) by (simp add: vendor_in_range_def)
    ultimately show ?thesis using s3d assms(3-)
      by (cases f) (simp add: hdmi_vendor_any_infoframe_unpack_def hdmi_vendor_infoframe_length_def
          hdmi_vendor_infoframe_init_def)
  next
    case ext
    define b :: u8 where "b = ucast (push_bit 4 (word_of_int (s3d_struct f) AND 0xf :: u32))"
    define e :: u8 where "e = ucast (push_bit 4 (s3d_ext_data f AND 0xf))"
    have "uint (drop_bit 4 b) = s3d_struct f" "ucast (drop_bit 4 e) = s3d_ext_data f"
      using ext vendor_nibbles [OF assms(1)] by (simp_all add: b_def e_def)
    moreover have "vendor_payload f = [0x03, 0x0c, 0x00, 0x40, b, e]" using ext by (simp add: vendor_payload_def b_def e_def)
    ultimately show ?thesis using ext assms(3-)
      by (cases f) (simp add: hdmi_vendor_any_infoframe_unpack_def hdmi_vendor_infoframe_length_def
          hdmi_vendor_infoframe_init_def)
  qed
qed

text \<open>
  Vendor frames survive the round trip.  Packing sets the length of the frame from its
  content; a frame that passes the check and whose 3D fields are in range is, with this length,
  what unpacking the packed bytes returns.
\<close>

theorem hdmi_vendor_infoframe_roundtrip:
  assumes "fst (hdmi_infoframe_check (Vendor f)) = 0" "vendor_in_range f" "10 \<le> length buffer"
  shows "\<exists>n buffer'. hdmi_infoframe_pack (Vendor f) buffer = Some (n, buffer') \<and>
     hdmi_infoframe_unpack buffer' = Some (Inr (Vendor (f\<lparr>f_length := hdmi_vendor_infoframe_length f\<rparr>)))"
proof -
  let ?f = "f\<lparr>f_length := hdmi_vendor_infoframe_length f\<rparr>"
  have head: "f_type ?f = 0x81" "f_version ?f = 1" "oui ?f = 0x000c03" "vic ?f \<noteq> 0 \<longrightarrow> s3d_struct ?f = - 1"
    using assms(1) by (auto simp: check_defs Let_def split: if_splits)
  have len: "f_length ?f = hdmi_vendor_infoframe_length ?f" "unat (f_length ?f) \<le> 6"
    "length (vendor_payload ?f) \<le> unat (f_length ?f)"
    by (simp_all add: hdmi_vendor_infoframe_length_def)
  have "4 + unat (f_length ?f) \<le> length buffer" using len(2) assms(3) by linarith
  moreover have type: "ucast (f_type ?f) = (0x81 :: u8)" unfolding head(1) by simp
  ultimately obtain c z where z:
    "pack_frame ?f (vendor_payload ?f) buffer =
       Some (int (4 + unat (f_length ?f)), [0x81, 1, f_length ?f, c] @ vendor_payload ?f @ z)"
    "hdmi_infoframe_checksum ([0x81, 1, f_length ?f, c] @ vendor_payload ?f @ z) (4 + unat (f_length ?f)) = 0"
    using pack_frame_fits [OF len(3), unfolded type head(2)] by blast
  have "vendor_in_range ?f" using assms(2) by (simp add: vendor_in_range_def)
  from vendor_unpack_payload [OF this head(4,1-3) len(1) z(2)]
  have "hdmi_infoframe_unpack ([0x81, 1, f_length ?f, c] @ vendor_payload ?f @ z) = Some (Inr (Vendor ?f))"
    by (simp add: hdmi_infoframe_unpack_def)
  moreover have "hdmi_infoframe_pack (Vendor f) buffer = pack_frame ?f (vendor_payload ?f) buffer"
    using assms(1) head len(1) by (auto simp: pack_defs check_defs Let_def split: if_splits)
  ultimately show ?thesis using z(1) by auto
qed

theorem hdmi_vendor_infoframe_roundtrip_witness:
  "\<exists>n buffer'. hdmi_infoframe_pack (Vendor (hdmi_vendor_infoframe_init\<lparr>s3d_struct := 8, s3d_ext_data := 3\<rparr>))
       (replicate 12 0xff) = Some (n, buffer') \<and>
     hdmi_infoframe_unpack buffer' =
       Some (Inr (Vendor (hdmi_vendor_infoframe_init\<lparr>f_length := 6, s3d_struct := 8, s3d_ext_data := 3\<rparr>)))"
  using hdmi_vendor_infoframe_roundtrip
    [where f = "hdmi_vendor_infoframe_init\<lparr>s3d_struct := 8, s3d_ext_data := 3\<rparr>" and buffer = "replicate 12 0xff"]
  by (simp add: check_defs vendor_in_range_def hdmi_vendor_infoframe_init_def hdmi_vendor_infoframe_length_def)

text \<open>A string with nothing but zeros behind its end.\<close>

definition zero_tail :: "u8 list \<Rightarrow> bool" where
  "zero_tail s \<longleftrightarrow> (let k = length (takeWhile (\<lambda>b. b \<noteq> 0) s) in drop k s = replicate (length s - k) 0)"

lemma zero_padded_strlen:
  assumes "zero_tail s" "length s = n" "c_strlen (s @ r) = Some l"
  shows "zero_padded n (s @ r) l = s"
proof (cases "0 \<in> set s")
  case True
  let ?k = "length (takeWhile (\<lambda>b. b \<noteq> 0) s)"
  have l: "l = ?k" using assms(3) True by (simp add: c_strlen_def takeWhile_append1)
  have k: "?k \<le> n" using assms(2) length_takeWhile_le by blast
  then have "zero_padded n (s @ r) l = take ?k s @ replicate (length s - ?k) 0"
    using assms(2) by (simp add: zero_padded_def l min_absorb1)
  also have "\<dots> = take ?k s @ drop ?k s" using assms(1) by (simp only: zero_tail_def Let_def)
  finally show ?thesis by (simp only: append_take_drop_id)
next
  case False
  then have "takeWhile (\<lambda>b. b \<noteq> 0) (s @ r) = s @ takeWhile (\<lambda>b. b \<noteq> 0) r"
    by (intro takeWhile_append2) auto
  then have "n \<le> l" using assms(2,3) by (auto simp: c_strlen_def split: if_splits)
  then show ?thesis using assms(2) by (simp add: zero_padded_def)
qed

lemma c_strlen_zero: "0 \<in> set s \<Longrightarrow> \<exists>l. c_strlen s = Some l"
  by (simp add: c_strlen_def)

definition spd_ok :: "hdmi_spd_infoframe \<Rightarrow> bool" where
  "spd_ok f \<longleftrightarrow> length (vendor f) = 8 \<and> length (product f) = 16 \<and> zero_tail (vendor f) \<and> zero_tail (product f) \<and>
     unat (sdi f) < 256"

text \<open>
  SPD frames survive the round trip.  Vendor and product are padded with zeros to their full
  length and may fill it; the buffer has a byte to spare, so that \<open>strlen\<close> stops in it.
\<close>

theorem hdmi_spd_infoframe_roundtrip:
  assumes "hdmi_spd_infoframe_check f = 0" "spd_ok f" "30 \<le> length buffer"
  shows "\<exists>buffer'. hdmi_infoframe_pack (Spd f) buffer = Some (29, buffer') \<and>
     hdmi_infoframe_unpack buffer' = Some (Inr (Spd f))"
proof -
  let ?p = "vendor f @ product f @ [ucast (sdi f)]"
  have head: "f_type f = 0x83" "f_version f = 1" "f_length f = 25"
    using assms(1) by (auto simp: check_defs split: if_splits)
  have len: "length (vendor f) = 8" "length (product f) = 16" using assms(2) by (simp_all add: spd_ok_def)
  from assms(3) head len obtain c z where z: "pack_frame f ?p buffer = Some (29, [0x83, 1, 25, c] @ ?p @ z)"
    "hdmi_infoframe_checksum ([0x83, 1, 25, c] @ ?p @ z) 29 = 0" "z = replicate (length buffer - 29) 0"
    by (auto intro: pack_frame_fits [of ?p f buffer])
  have "0 \<in> set z" using z(3) assms(3) by simp
  then obtain l1 l2 where l: "c_strlen (?p @ z) = Some l1" "c_strlen (product f @ [ucast (sdi f)] @ z) = Some l2"
    using c_strlen_zero by (metis UnCI set_append)
  have nth: "(?p @ z) ! 24 = ucast (sdi f)" "drop 8 (?p @ z) = product f @ [ucast (sdi f)] @ z"
    using len by (simp_all add: nth_append)
  have "sdi f AND mask 8 = sdi f" using assms(2) by (intro and_mask_less) (simp add: spd_ok_def)
  moreover have "ucast (ucast (sdi f) :: u8) = sdi f AND mask 8" by (rule bit_word_eqI) (auto simp: bit_simps)
  ultimately have "ucast (ucast (sdi f) :: u8) = sdi f" by simp
  then have init: "map_option (\<lambda>frame. Inr (frame\<lparr>sdi := ucast ((?p @ z) ! 24)\<rparr>))
      (hdmi_spd_infoframe_init (?p @ z) (drop 8 (?p @ z))) = Some (Inr f)"
    unfolding nth hdmi_spd_infoframe_init_def l option.case
    using zero_padded_strlen [of "vendor f" 8 _ l1] zero_padded_strlen [of "product f" 16 _ l2] assms(2) head l
    by (cases f) (simp add: spd_ok_def)
  have "hdmi_infoframe_unpack ([0x83, 1, 25, c] @ ?p @ z) = Some (Inr (Spd f))"
    using z(2) len init by (auto simp: hdmi_infoframe_unpack_def hdmi_spd_infoframe_unpack_def Let_def)
  then show ?thesis using z(1) assms(1) by (simp add: pack_defs hdmi_spd_infoframe_check_def)
qed

theorem hdmi_spd_infoframe_roundtrip_witness:
  "\<exists>buffer'. hdmi_infoframe_pack
       (Spd \<lparr>f_type = 0x83, f_version = 1, f_length = 25, vendor = replicate 8 65, product = 66 # replicate 15 0, sdi = 9\<rparr>)
       (replicate 31 0xff) = Some (29, buffer') \<and>
     hdmi_infoframe_unpack buffer' = Some (Inr
       (Spd \<lparr>f_type = 0x83, f_version = 1, f_length = 25, vendor = replicate 8 65, product = 66 # replicate 15 0, sdi = 9\<rparr>))"
  by (rule hdmi_spd_infoframe_roundtrip) (simp_all add: check_defs spd_ok_def zero_tail_def)

text \<open>
  C16: Two functions leave the buffer.  \<open>hdmi_drm_infoframe_pack_only\<close> does not check the frame:
  with a length field smaller than 26 and a buffer that has room for that length only, it writes
  behind the end.  \<open>hdmi_spd_infoframe_unpack\<close> takes the bytes of a valid frame for strings: when
  none of the 25 bytes of the payload is 0 and the buffer ends with the frame, it reads behind
  the end.
\<close>

theorem hdmi_buffer_overruns:
  "(4 + unat (f_length d) \<le> length b \<and> length b < 30 \<longrightarrow> hdmi_infoframe_pack_only (Drm d) b = None) \<and>
   (length p = 25 \<and> 0 \<notin> set p \<and> hdmi_infoframe_checksum ([0x83, 1, 25, c] @ p) 29 = 0 \<longrightarrow>
     hdmi_infoframe_unpack ([0x83, 1, 25, c] @ p) = None)"
  by (simp_all add: hdmi_drm_infoframe_pack_only_def pack_frame_def hdmi_infoframe_unpack_def
      hdmi_spd_infoframe_unpack_def hdmi_spd_infoframe_init_def c_strlen_def)

theorem hdmi_buffer_overruns_witness:
  "hdmi_infoframe_pack_only (Drm (hdmi_drm_infoframe_init\<lparr>f_length := 0\<rparr>)) (replicate 4 0) = None \<and>
   hdmi_infoframe_unpack ([0x83, 1, 25, 74] @ replicate 25 1) = None"
  using hdmi_buffer_overruns
    [where d = "hdmi_drm_infoframe_init\<lparr>f_length := 0\<rparr>" and b = "replicate 4 0" and p = "replicate 25 1" and c = 74]
  by (simp add: checksum_eq sum_list_replicate)

end
