(* ===== verification/Component.thy ===== *)
theory Component
  imports Devres "HOL-Library.Monad_Syntax"
begin

text \<open>
  Aggregate devices, \<open>kernel/src/driver/base/component.c\<close>: the list of registered components,
  the list of aggregate devices with their match arrays, attaching components to aggregate
  devices, bringing an aggregate device up and down, and binding its components inside of
  devres groups.

  Structures live in stores indexed by their address; 0 is the null pointer.  A result
  \<^const>\<open>None\<close> is an access through a pointer that is null or freed, or a \<open>BUG_ON\<close> of the devres
  list.  The mutex makes every entry point one step.  The callbacks of the drivers and the
  compare functions are parameters; \<open>calls\<close> logs the callbacks in order.  \<open>mem\<close> lists what the
  allocator will return, \<^const>\<open>None\<close> for a failure.
\<close>

section \<open>State\<close>

record component =
  comp_adev :: addr
  comp_bound :: bool
  comp_ops :: addr
  subcomponent :: int
  comp_dev :: addr

record component_match_array =
  mc_data :: addr
  mc_compare :: addr
  mc_compare_typed :: addr
  mc_release :: addr
  mc_component :: addr
  mc_duplicate :: bool

text \<open>\<open>num\<close> is the length of the list of the entries in use.\<close>

record component_match =
  mt_alloc :: nat
  mt_entries :: "component_match_array list"

record aggregate_device =
  ad_bound :: bool
  ad_ops :: addr
  ad_parent :: addr
  ad_match :: addr

datatype call = Bind addr | Unbind addr | MasterBind addr | MasterUnbind addr | MatchRelease addr addr

record ('r, 'd, 'w) cstate =
  component_list :: "addr list"
  aggregate_devices :: "addr list"
  comps :: "addr \<rightharpoonup> component"
  adevs :: "addr \<rightharpoonup> aggregate_device"
  matches :: "addr \<rightharpoonup> component_match"
  devs :: "addr \<Rightarrow> ('r, 'd, 'w) device"
  mem :: "addr option list"
  calls :: "call list"

text \<open>
  What is not in the file: compare functions, the operations of component and aggregate
  drivers by their address, and the release functions of devres entries.
\<close>

record ('r, 'd, 'w) drivers =
  compare :: "addr \<Rightarrow> addr \<Rightarrow> addr \<Rightarrow> bool"
  compare_typed :: "addr \<Rightarrow> addr \<Rightarrow> int \<Rightarrow> addr \<Rightarrow> bool"
  op_bind :: "addr \<Rightarrow> addr \<Rightarrow> addr \<Rightarrow> addr \<Rightarrow> ('r, 'd, 'w) cstate \<Rightarrow> int \<times> ('r, 'd, 'w) cstate"
  has_unbind :: "addr \<Rightarrow> bool"
  op_unbind :: "addr \<Rightarrow> addr \<Rightarrow> addr \<Rightarrow> addr \<Rightarrow> ('r, 'd, 'w) cstate \<Rightarrow> ('r, 'd, 'w) cstate"
  master_bind :: "addr \<Rightarrow> addr \<Rightarrow> ('r, 'd, 'w) cstate \<Rightarrow> (int \<times> ('r, 'd, 'w) cstate) option"
  master_unbind :: "addr \<Rightarrow> addr \<Rightarrow> ('r, 'd, 'w) cstate \<Rightarrow> ('r, 'd, 'w) cstate option"
  run_release :: "'r \<Rightarrow> addr \<Rightarrow> 'd \<Rightarrow> 'w \<Rightarrow> 'w"
  match_release :: 'r
  match_data :: 'd

definition kalloc :: "('r, 'd, 'w) cstate \<Rightarrow> addr option \<times> ('r, 'd, 'w) cstate" where
  "kalloc s = (case mem s of [] \<Rightarrow> (None, s) | a # m \<Rightarrow> (a, s\<lparr>mem := m\<rparr>))"

definition log :: "call \<Rightarrow> ('r, 'd, 'w) cstate \<Rightarrow> ('r, 'd, 'w) cstate" where
  "log c s = s\<lparr>calls := calls s @ [c]\<rparr>"

definition set_dev :: "addr \<Rightarrow> ('r, 'd, 'w) device \<Rightarrow> ('r, 'd, 'w) cstate \<Rightarrow> ('r, 'd, 'w) cstate" where
  "set_dev d dev s = s\<lparr>devs := (devs s)(d := dev)\<rparr>"

definition set_comp :: "addr \<Rightarrow> component \<Rightarrow> ('r, 'd, 'w) cstate \<Rightarrow> ('r, 'd, 'w) cstate" where
  "set_comp c x s = s\<lparr>comps := (comps s)(c \<mapsto> x)\<rparr>"

definition set_adev :: "addr \<Rightarrow> aggregate_device \<Rightarrow> ('r, 'd, 'w) cstate \<Rightarrow> ('r, 'd, 'w) cstate" where
  "set_adev a x s = s\<lparr>adevs := (adevs s)(a \<mapsto> x)\<rparr>"

definition set_match :: "addr \<Rightarrow> component_match \<Rightarrow> ('r, 'd, 'w) cstate \<Rightarrow> ('r, 'd, 'w) cstate" where
  "set_match m x s = s\<lparr>matches := (matches s)(m \<mapsto> x)\<rparr>"

section \<open>Devres groups of a device\<close>

definition open_group :: "addr \<Rightarrow> addr \<Rightarrow> ('r, 'd, 'w) cstate \<Rightarrow> (addr \<times> ('r, 'd, 'w) cstate) option" where
  "open_group d gid s =
     (case kalloc s of
        (g, s1) \<Rightarrow> do {
          (i, dev) \<leftarrow> devres_open_group (devs s1 d) gid g;
          Some (i, set_dev d dev s1)
        })"

definition close_group :: "addr \<Rightarrow> addr \<Rightarrow> ('r, 'd, 'w) cstate \<Rightarrow> ('r, 'd, 'w) cstate option" where
  "close_group d gid s = do {
     dev \<leftarrow> devres_close_group (devs s d) gid;
     Some (set_dev d dev s)
   }"

definition remove_group :: "addr \<Rightarrow> addr \<Rightarrow> ('r, 'd, 'w) cstate \<Rightarrow> ('r, 'd, 'w) cstate" where
  "remove_group d gid s = set_dev d (devres_remove_group (devs s d) gid) s"

definition release_group ::
  "('r, 'd, 'w) drivers \<Rightarrow> addr \<Rightarrow> addr \<Rightarrow> ('r, 'd, 'w) cstate \<Rightarrow> ('r, 'd, 'w) cstate option" where
  "release_group env d gid s = do {
     (cnt, dev) \<leftarrow> devres_release_group (run_release env) (devs s d) gid;
     Some (set_dev d dev s)
   }"

section \<open>Finding components\<close>

fun aggregate_find_loop :: "('r, 'd, 'w) cstate \<Rightarrow> addr \<Rightarrow> addr \<Rightarrow> addr list \<Rightarrow> addr option" where
  "aggregate_find_loop s parent ops [] = Some 0"
| "aggregate_find_loop s parent ops (m # ms) = do {
     ad \<leftarrow> adevs s m;
     if ad_parent ad = parent \<and> (ops = 0 \<or> ad_ops ad = ops) then Some m
     else aggregate_find_loop s parent ops ms
   }"

definition aggregate_find :: "('r, 'd, 'w) cstate \<Rightarrow> addr \<Rightarrow> addr \<Rightarrow> addr option" where
  "aggregate_find s parent ops = aggregate_find_loop s parent ops (aggregate_devices s)"

fun find_component_loop ::
  "('r, 'd, 'w) drivers \<Rightarrow> ('r, 'd, 'w) cstate \<Rightarrow> addr \<Rightarrow> component_match_array \<Rightarrow> addr list \<Rightarrow> addr option" where
  "find_component_loop env s adev mc [] = Some 0"
| "find_component_loop env s adev mc (c # cs) = do {
     x \<leftarrow> comps s c;
     if comp_adev x \<noteq> 0 \<and> comp_adev x \<noteq> adev then find_component_loop env s adev mc cs
     else if mc_compare mc \<noteq> 0 \<and> compare env (mc_compare mc) (comp_dev x) (mc_data mc) then Some c
     else if mc_compare_typed mc \<noteq> 0 \<and>
             compare_typed env (mc_compare_typed mc) (comp_dev x) (subcomponent x) (mc_data mc) then Some c
     else find_component_loop env s adev mc cs
   }"

definition find_component ::
  "('r, 'd, 'w) drivers \<Rightarrow> ('r, 'd, 'w) cstate \<Rightarrow> addr \<Rightarrow> component_match_array \<Rightarrow> addr option" where
  "find_component env s adev mc = find_component_loop env s adev mc (component_list s)"

fun find_components_loop ::
  "('r, 'd, 'w) drivers \<Rightarrow> addr \<Rightarrow> addr \<Rightarrow> nat list \<Rightarrow> ('r, 'd, 'w) cstate \<Rightarrow>
   (int \<times> ('r, 'd, 'w) cstate) option" where
  "find_components_loop env adev mp [] s = Some (0, s)"
| "find_components_loop env adev mp (i # is) s = do {
     match \<leftarrow> matches s mp;
     let mc = mt_entries match ! i;
     if mc_component mc \<noteq> 0 then find_components_loop env adev mp is s
     else do {
       c \<leftarrow> find_component env s adev mc;
       if c = 0 then Some (- ENXIO, s)
       else do {
         x \<leftarrow> comps s c;
         let mc' = mc\<lparr>mc_duplicate := comp_adev x \<noteq> 0, mc_component := c\<rparr>;
         find_components_loop env adev mp is
           (set_comp c (x\<lparr>comp_adev := adev\<rparr>)
             (set_match mp (match\<lparr>mt_entries := (mt_entries match)[i := mc']\<rparr>) s))
       }
     }
   }"

definition find_components ::
  "('r, 'd, 'w) drivers \<Rightarrow> addr \<Rightarrow> ('r, 'd, 'w) cstate \<Rightarrow> (int \<times> ('r, 'd, 'w) cstate) option" where
  "find_components env adev s = do {
     ad \<leftarrow> adevs s adev;
     match \<leftarrow> matches s (ad_match ad);
     find_components_loop env adev (ad_match ad) [0..<length (mt_entries match)] s
   }"

definition forget :: "addr \<Rightarrow> component_match_array \<Rightarrow> component_match_array" where
  "forget c mc = (if mc_component mc = c then mc\<lparr>mc_component := 0\<rparr> else mc)"

definition remove_component :: "addr \<Rightarrow> addr \<Rightarrow> ('r, 'd, 'w) cstate \<Rightarrow> ('r, 'd, 'w) cstate option" where
  "remove_component adev c s = do {
     ad \<leftarrow> adevs s adev;
     match \<leftarrow> matches s (ad_match ad);
     Some (set_match (ad_match ad) (match\<lparr>mt_entries := map (forget c) (mt_entries match)\<rparr>) s)
   }"

section \<open>Bringing aggregate devices up and down\<close>

definition try_to_bring_up_aggregate_device ::
  "('r, 'd, 'w) drivers \<Rightarrow> addr \<Rightarrow> addr \<Rightarrow> ('r, 'd, 'w) cstate \<Rightarrow> (int \<times> ('r, 'd, 'w) cstate) option" where
  "try_to_bring_up_aggregate_device env adev component s = do {
     (incomplete, s1) \<leftarrow> find_components env adev s;
     if incomplete \<noteq> 0 then Some (0, s1)
     else do {
       mine \<leftarrow> (if component = 0 then Some True
                else do { x \<leftarrow> comps s1 component; Some (comp_adev x = adev) });
       if \<not> mine then Some (0, s1)
       else do {
         ad \<leftarrow> adevs s1 adev;
         (grp, s2) \<leftarrow> open_group (ad_parent ad) adev s1;
         if grp = 0 then Some (- ENOMEM, s2)
         else do {
           (ret, s3) \<leftarrow> master_bind env (ad_ops ad) (ad_parent ad) (log (MasterBind adev) s2);
           if ret < 0 then do {
             s4 \<leftarrow> release_group env (ad_parent ad) 0 s3;
             Some (ret, s4)
           }
           else do {
             s4 \<leftarrow> close_group (ad_parent ad) 0 s3;
             ad' \<leftarrow> adevs s4 adev;
             Some (1, set_adev adev (ad'\<lparr>ad_bound := True\<rparr>) s4)
           }
         }
       }
     }
   }"

fun bring_up_loop ::
  "('r, 'd, 'w) drivers \<Rightarrow> addr \<Rightarrow> addr list \<Rightarrow> ('r, 'd, 'w) cstate \<Rightarrow> (int \<times> ('r, 'd, 'w) cstate) option" where
  "bring_up_loop env component [] s = Some (0, s)"
| "bring_up_loop env component (a # as) s = do {
     ad \<leftarrow> adevs s a;
     if ad_bound ad then bring_up_loop env component as s
     else do {
       (ret, s1) \<leftarrow> try_to_bring_up_aggregate_device env a component s;
       if ret \<noteq> 0 then Some (ret, s1) else bring_up_loop env component as s1
     }
   }"

definition try_to_bring_up_masters ::
  "('r, 'd, 'w) drivers \<Rightarrow> addr \<Rightarrow> ('r, 'd, 'w) cstate \<Rightarrow> (int \<times> ('r, 'd, 'w) cstate) option" where
  "try_to_bring_up_masters env component s = bring_up_loop env component (aggregate_devices s) s"

definition take_down_aggregate_device ::
  "('r, 'd, 'w) drivers \<Rightarrow> addr \<Rightarrow> ('r, 'd, 'w) cstate \<Rightarrow> ('r, 'd, 'w) cstate option" where
  "take_down_aggregate_device env adev s = do {
     ad \<leftarrow> adevs s adev;
     if \<not> ad_bound ad then Some s
     else do {
       s1 \<leftarrow> master_unbind env (ad_ops ad) (ad_parent ad) (log (MasterUnbind adev) s);
       s2 \<leftarrow> release_group env (ad_parent ad) adev s1;
       ad' \<leftarrow> adevs s2 adev;
       Some (set_adev adev (ad'\<lparr>ad_bound := False\<rparr>) s2)
     }
   }"

section \<open>Match arrays\<close>

definition devm_component_match_release ::
  "addr \<Rightarrow> addr \<Rightarrow> ('r, 'd, 'w) cstate \<Rightarrow> ('r, 'd, 'w) cstate option" where
  "devm_component_match_release parent mp s = do {
     match \<leftarrow> matches s mp;
     let s1 = fold (\<lambda>mc. if mc_release mc \<noteq> 0 then log (MatchRelease parent (mc_data mc)) else (\<lambda>s. s)) (mt_entries match) s;
     Some (s1\<lparr>matches := (matches s1)(mp := None)\<rparr>)
   }"

definition component_match_realloc ::
  "addr \<Rightarrow> nat \<Rightarrow> ('r, 'd, 'w) cstate \<Rightarrow> (int \<times> ('r, 'd, 'w) cstate) option" where
  "component_match_realloc mp num s = do {
     match \<leftarrow> matches s mp;
     if mt_alloc match = num then Some (0, s)
     else case kalloc s of
            (None, s1) \<Rightarrow> Some (- ENOMEM, s1)
          | (Some p, s1) \<Rightarrow>
              Some (0, set_match mp (match\<lparr>mt_alloc := num, mt_entries := take num (mt_entries match)\<rparr>) s1)
   }"

text \<open>A match pointer of an aggregate driver is an error pointer or an address.\<close>

datatype matchptr = ERR_PTR int | Match addr

definition raw_component_match_add ::
  "('r, 'd, 'w) drivers \<Rightarrow> bool \<Rightarrow> addr \<Rightarrow> matchptr \<Rightarrow> addr \<Rightarrow> addr \<Rightarrow> addr \<Rightarrow> addr \<Rightarrow>
   ('r, 'd, 'w) cstate \<Rightarrow> (matchptr \<times> ('r, 'd, 'w) cstate) option" where
  "raw_component_match_add env junk parent ptr release cmp cmp_typed compare_data s =
     (case ptr of
        ERR_PTR e \<Rightarrow> Some (ptr, s)
      | Match m0 \<Rightarrow> do {
          (ptr1, s1) \<leftarrow>
            (if m0 \<noteq> 0 then Some (Match m0, s)
             else case kalloc s of
                    (None, s1) \<Rightarrow> Some (ERR_PTR (- ENOMEM), s1)
                  | (Some p, s1) \<Rightarrow> do {
                      dev \<leftarrow> devres_add (devs s1 parent) \<lparr>dr_ptr = p, dr_release = match_release env, dr_data = match_data env\<rparr>;
                      Some (Match p, set_match p \<lparr>mt_alloc = 0, mt_entries = []\<rparr> (set_dev parent dev s1))
                    });
          case ptr1 of
            ERR_PTR e \<Rightarrow> Some (ptr1, s1)
          | Match mp \<Rightarrow> do {
              match \<leftarrow> matches s1 mp;
              (ret, s2) \<leftarrow>
                (if length (mt_entries match) = mt_alloc match
                 then component_match_realloc mp (mt_alloc match + 16) s1 else Some (0, s1));
              if ret \<noteq> 0 then Some (ERR_PTR ret, s2)
              else do {
                match' \<leftarrow> matches s2 mp;
                let mc = \<lparr>mc_data = compare_data, mc_compare = cmp, mc_compare_typed = cmp_typed,
                          mc_release = release, mc_component = 0, mc_duplicate = junk\<rparr>;
                Some (Match mp, set_match mp (match'\<lparr>mt_entries := mt_entries match' @ [mc]\<rparr>) s2)
              }
            }
        })"

definition component_match_add_release ::
  "('r, 'd, 'w) drivers \<Rightarrow> bool \<Rightarrow> addr \<Rightarrow> matchptr \<Rightarrow> addr \<Rightarrow> addr \<Rightarrow> addr \<Rightarrow>
   ('r, 'd, 'w) cstate \<Rightarrow> (matchptr \<times> ('r, 'd, 'w) cstate) option" where
  "component_match_add_release env junk parent ptr release cmp compare_data s =
     raw_component_match_add env junk parent ptr release cmp 0 compare_data s"

definition component_match_add_typed ::
  "('r, 'd, 'w) drivers \<Rightarrow> bool \<Rightarrow> addr \<Rightarrow> matchptr \<Rightarrow> addr \<Rightarrow> addr \<Rightarrow>
   ('r, 'd, 'w) cstate \<Rightarrow> (matchptr \<times> ('r, 'd, 'w) cstate) option" where
  "component_match_add_typed env junk parent ptr cmp_typed compare_data s =
     raw_component_match_add env junk parent ptr 0 0 cmp_typed compare_data s"

definition component_match_add ::
  "('r, 'd, 'w) drivers \<Rightarrow> bool \<Rightarrow> addr \<Rightarrow> matchptr \<Rightarrow> addr \<Rightarrow> addr \<Rightarrow>
   ('r, 'd, 'w) cstate \<Rightarrow> (matchptr \<times> ('r, 'd, 'w) cstate) option" where
  "component_match_add env junk parent ptr cmp compare_data s =
     component_match_add_release env junk parent ptr 0 cmp compare_data s"

section \<open>Aggregate drivers\<close>

fun detach_loop :: "addr list \<Rightarrow> ('r, 'd, 'w) cstate \<Rightarrow> ('r, 'd, 'w) cstate option" where
  "detach_loop [] s = Some s"
| "detach_loop (c # cs) s =
     (if c = 0 then detach_loop cs s
      else do {
        x \<leftarrow> comps s c;
        detach_loop cs (set_comp c (x\<lparr>comp_adev := 0\<rparr>) s)
      })"

definition free_aggregate_device :: "addr \<Rightarrow> ('r, 'd, 'w) cstate \<Rightarrow> ('r, 'd, 'w) cstate option" where
  "free_aggregate_device adev s = do {
     ad \<leftarrow> adevs s adev;
     let s1 = s\<lparr>aggregate_devices := remove1 adev (aggregate_devices s)\<rparr>;
     s2 \<leftarrow> (if ad_match ad = 0 then Some s1
           else do {
             match \<leftarrow> matches s1 (ad_match ad);
             detach_loop (map mc_component (mt_entries match)) s1
           });
     Some (s2\<lparr>adevs := (adevs s2)(adev := None)\<rparr>)
   }"

definition component_master_add_with_match ::
  "('r, 'd, 'w) drivers \<Rightarrow> addr \<Rightarrow> addr \<Rightarrow> addr \<Rightarrow> ('r, 'd, 'w) cstate \<Rightarrow> (int \<times> ('r, 'd, 'w) cstate) option" where
  "component_master_add_with_match env parent ops mp s = do {
     match \<leftarrow> matches s mp;
     (ret, s1) \<leftarrow> component_match_realloc mp (length (mt_entries match)) s;
     if ret \<noteq> 0 then Some (ret, s1)
     else case kalloc s1 of
            (None, s2) \<Rightarrow> Some (- ENOMEM, s2)
          | (Some adev, s2) \<Rightarrow> do {
              let s3 = set_adev adev \<lparr>ad_bound = False, ad_ops = ops, ad_parent = parent, ad_match = mp\<rparr>
                         (s2\<lparr>aggregate_devices := adev # aggregate_devices s2\<rparr>);
              (ret, s4) \<leftarrow> try_to_bring_up_aggregate_device env adev 0 s3;
              if ret < 0 then do {
                s5 \<leftarrow> free_aggregate_device adev s4;
                Some (ret, s5)
              }
              else Some (0, s4)
            }
   }"

definition component_master_del ::
  "('r, 'd, 'w) drivers \<Rightarrow> addr \<Rightarrow> addr \<Rightarrow> ('r, 'd, 'w) cstate \<Rightarrow> ('r, 'd, 'w) cstate option" where
  "component_master_del env parent ops s = do {
     adev \<leftarrow> aggregate_find s parent ops;
     if adev = 0 then Some s
     else do {
       s1 \<leftarrow> take_down_aggregate_device env adev s;
       free_aggregate_device adev s1
     }
   }"

section \<open>Binding components\<close>

definition component_unbind ::
  "('r, 'd, 'w) drivers \<Rightarrow> addr \<Rightarrow> addr \<Rightarrow> addr \<Rightarrow> ('r, 'd, 'w) cstate \<Rightarrow> ('r, 'd, 'w) cstate option" where
  "component_unbind env c adev data s = do {
     x \<leftarrow> comps s c;
     ad \<leftarrow> adevs s adev;
     let s1 = log (Unbind c) s;
     let s2 = (if comp_ops x \<noteq> 0 \<and> has_unbind env (comp_ops x)
               then op_unbind env (comp_ops x) (comp_dev x) (ad_parent ad) data s1 else s1);
     x' \<leftarrow> comps s2 c;
     release_group env (comp_dev x) c (set_comp c (x'\<lparr>comp_bound := False\<rparr>) s2)
   }"

text \<open>The loops over the match array, over the entries that are left.\<close>

fun unbind_loop ::
  "('r, 'd, 'w) drivers \<Rightarrow> addr \<Rightarrow> addr \<Rightarrow> component_match_array list \<Rightarrow> ('r, 'd, 'w) cstate \<Rightarrow>
   ('r, 'd, 'w) cstate option" where
  "unbind_loop env adev data [] s = Some s"
| "unbind_loop env adev data (mc # mcs) s =
     (if mc_duplicate mc then unbind_loop env adev data mcs s
      else do {
        s1 \<leftarrow> component_unbind env (mc_component mc) adev data s;
        unbind_loop env adev data mcs s1
      })"

definition component_unbind_all ::
  "('r, 'd, 'w) drivers \<Rightarrow> addr \<Rightarrow> addr \<Rightarrow> ('r, 'd, 'w) cstate \<Rightarrow> ('r, 'd, 'w) cstate option" where
  "component_unbind_all env parent data s = do {
     adev \<leftarrow> aggregate_find s parent 0;
     if adev = 0 then Some s
     else do {
       ad \<leftarrow> adevs s adev;
       match \<leftarrow> matches s (ad_match ad);
       unbind_loop env adev data (rev (mt_entries match)) s
     }
   }"

definition component_bind ::
  "('r, 'd, 'w) drivers \<Rightarrow> addr \<Rightarrow> addr \<Rightarrow> addr \<Rightarrow> ('r, 'd, 'w) cstate \<Rightarrow> (int \<times> ('r, 'd, 'w) cstate) option" where
  "component_bind env c adev data s = do {
     ad \<leftarrow> adevs s adev;
     (g1, s1) \<leftarrow> open_group (ad_parent ad) 0 s;
     if g1 = 0 then Some (- ENOMEM, s1)
     else do {
       x \<leftarrow> comps s1 c;
       (g2, s2) \<leftarrow> open_group (comp_dev x) c s1;
       if g2 = 0 then do {
         s3 \<leftarrow> release_group env (ad_parent ad) 0 s2;
         Some (- ENOMEM, s3)
       }
       else if comp_ops x = 0 then None
       else case op_bind env (comp_ops x) (comp_dev x) (ad_parent ad) data (log (Bind c) s2) of
              (ret, s3) \<Rightarrow>
                if ret = 0 then do {
                  x' \<leftarrow> comps s3 c;
                  s4 \<leftarrow> close_group (comp_dev x) 0 (set_comp c (x'\<lparr>comp_bound := True\<rparr>) s3);
                  Some (0, remove_group (ad_parent ad) 0 s4)
                }
                else do {
                  s4 \<leftarrow> release_group env (comp_dev x) 0 s3;
                  s5 \<leftarrow> release_group env (ad_parent ad) 0 s4;
                  Some (ret, s5)
                }
     }
   }"

text \<open>\<open>bind_loop\<close> returns the entries before the one that failed, last first.\<close>

fun bind_loop ::
  "('r, 'd, 'w) drivers \<Rightarrow> addr \<Rightarrow> addr \<Rightarrow> component_match_array list \<Rightarrow> component_match_array list \<Rightarrow>
   ('r, 'd, 'w) cstate \<Rightarrow> (int \<times> component_match_array list \<times> ('r, 'd, 'w) cstate) option" where
  "bind_loop env adev data before [] s = Some (0, before, s)"
| "bind_loop env adev data before (mc # mcs) s =
     (if mc_duplicate mc then bind_loop env adev data (mc # before) mcs s
      else do {
        (ret, s1) \<leftarrow> component_bind env (mc_component mc) adev data s;
        if ret \<noteq> 0 then Some (ret, before, s1)
        else bind_loop env adev data (mc # before) mcs s1
      })"

definition component_bind_all ::
  "('r, 'd, 'w) drivers \<Rightarrow> addr \<Rightarrow> addr \<Rightarrow> ('r, 'd, 'w) cstate \<Rightarrow> (int \<times> ('r, 'd, 'w) cstate) option" where
  "component_bind_all env parent data s = do {
     adev \<leftarrow> aggregate_find s parent 0;
     if adev = 0 then Some (- EINVAL, s)
     else do {
       ad \<leftarrow> adevs s adev;
       match \<leftarrow> matches s (ad_match ad);
       (ret, before, s1) \<leftarrow> bind_loop env adev data [] (mt_entries match) s;
       if ret \<noteq> 0 then do {
         s2 \<leftarrow> unbind_loop env adev data before s1;
         Some (ret, s2)
       }
       else Some (0, s1)
     }
   }"

section \<open>Components\<close>

definition raw_component_add ::
  "('r, 'd, 'w) drivers \<Rightarrow> addr \<Rightarrow> addr \<Rightarrow> int \<Rightarrow> ('r, 'd, 'w) cstate \<Rightarrow> (int \<times> ('r, 'd, 'w) cstate) option" where
  "raw_component_add env dev ops sub s =
     (case kalloc s of
        (None, s1) \<Rightarrow> Some (- ENOMEM, s1)
      | (Some c, s1) \<Rightarrow> do {
          let s2 = set_comp c \<lparr>comp_adev = 0, comp_bound = False, comp_ops = ops, subcomponent = sub, comp_dev = dev\<rparr>
                     (s1\<lparr>component_list := component_list s1 @ [c]\<rparr>);
          (ret, s3) \<leftarrow> try_to_bring_up_masters env c s2;
          if ret < 0 then do {
            x \<leftarrow> comps s3 c;
            s4 \<leftarrow> (if comp_adev x \<noteq> 0 then remove_component (comp_adev x) c s3 else Some s3);
            Some (ret, s4\<lparr>component_list := remove1 c (component_list s4), comps := (comps s4)(c := None)\<rparr>)
          }
          else Some (0, s3)
        })"

definition component_add_typed ::
  "('r, 'd, 'w) drivers \<Rightarrow> addr \<Rightarrow> addr \<Rightarrow> int \<Rightarrow> ('r, 'd, 'w) cstate \<Rightarrow> (int \<times> ('r, 'd, 'w) cstate) option" where
  "component_add_typed env dev ops sub s =
     (if sub = 0 then Some (- EINVAL, s) else raw_component_add env dev ops sub s)"

definition component_add ::
  "('r, 'd, 'w) drivers \<Rightarrow> addr \<Rightarrow> addr \<Rightarrow> ('r, 'd, 'w) cstate \<Rightarrow> (int \<times> ('r, 'd, 'w) cstate) option" where
  "component_add env dev ops s = raw_component_add env dev ops 0 s"

fun component_lookup :: "('r, 'd, 'w) cstate \<Rightarrow> addr \<Rightarrow> addr \<Rightarrow> addr list \<Rightarrow> addr option" where
  "component_lookup s dev ops [] = Some 0"
| "component_lookup s dev ops (c # cs) = do {
     x \<leftarrow> comps s c;
     if comp_dev x = dev \<and> comp_ops x = ops then Some c else component_lookup s dev ops cs
   }"

definition component_del ::
  "('r, 'd, 'w) drivers \<Rightarrow> addr \<Rightarrow> addr \<Rightarrow> ('r, 'd, 'w) cstate \<Rightarrow> ('r, 'd, 'w) cstate option" where
  "component_del env dev ops s = do {
     c \<leftarrow> component_lookup s dev ops (component_list s);
     if c = 0 then Some s
     else do {
       let s1 = s\<lparr>component_list := remove1 c (component_list s)\<rparr>;
       x \<leftarrow> comps s1 c;
       s2 \<leftarrow> (if comp_adev x = 0 then Some s1
             else do {
               s2 \<leftarrow> take_down_aggregate_device env (comp_adev x) s1;
               x' \<leftarrow> comps s2 c;
               remove_component (comp_adev x') c s2
             });
       Some (s2\<lparr>comps := (comps s2)(c := None)\<rparr>)
     }
   }"

section \<open>Sane memory\<close>

text \<open>
  The allocator returns addresses that are neither null nor in use, each once, and the devres
  lists of all devices are well-formed.
\<close>

definition avail :: "('r, 'd, 'w) cstate \<Rightarrow> addr list" where
  "avail s = List.map_filter (\<lambda>a. a) (mem s)"

definition dev_addrs :: "('r, 'd, 'w) device \<Rightarrow> addr set" where
  "dev_addrs dev = fst ` node_id ` set (devres_head dev)"

definition used :: "('r, 'd, 'w) cstate \<Rightarrow> addr set" where
  "used s = dom (comps s) \<union> dom (adevs s) \<union> dom (matches s) \<union> (\<Union>d. dev_addrs (devs s d))"

lemma dev_addrs_ids: "a \<notin> dev_addrs dev \<Longrightarrow> (a, k) \<notin> node_id ` set (devres_head dev)"
  unfolding dev_addrs_def by (metis fst_conv imageI)

definition sane :: "('r, 'd, 'w) cstate \<Rightarrow> bool" where
  "sane s \<longleftrightarrow> distinct (avail s) \<and> 0 \<notin> set (avail s) \<and> set (avail s) \<inter> used s = {} \<and> (\<forall>d. devres_wf (devs s d))"

lemma avail_Cons:
  "mem s = Some a # m \<Longrightarrow> avail s = a # avail (s\<lparr>mem := m\<rparr>)"
  "mem s = None # m \<Longrightarrow> avail s = avail (s\<lparr>mem := m\<rparr>)"
  by (simp_all add: avail_def List.map_filter_def)

lemma kalloc_sane:
  assumes "sane s"
  obtains m where "kalloc s = (None, s\<lparr>mem := m\<rparr>)" "sane (s\<lparr>mem := m\<rparr>)"
  | a m where "kalloc s = (Some a, s\<lparr>mem := m\<rparr>)" "sane (s\<lparr>mem := m\<rparr>)" "a \<noteq> 0" "a \<notin> used s" "a \<notin> set (avail (s\<lparr>mem := m\<rparr>))"
proof (cases "mem s")
  case Nil
  then have "kalloc s = (None, s\<lparr>mem := []\<rparr>)" "s\<lparr>mem := []\<rparr> = s" by (simp_all add: kalloc_def)
  with assms show ?thesis by (intro that(1) [of "[]"]) simp_all
next
  case (Cons b m)
  have u: "used (s\<lparr>mem := m\<rparr>) = used s" by (simp add: used_def)
  show ?thesis
  proof (cases b)
    case None
    with Cons have "sane (s\<lparr>mem := m\<rparr>)" using assms avail_Cons(2) [of s m] by (simp add: sane_def u)
    with Cons None show ?thesis by (intro that(1) [of m]) (simp_all add: kalloc_def)
  next
    case (Some a)
    with Cons have "avail s = a # avail (s\<lparr>mem := m\<rparr>)" by (simp add: avail_Cons(1))
    with Cons Some assms show ?thesis by (intro that(2) [of a m]) (auto simp: kalloc_def sane_def u)
  qed
qed

text \<open>A change of one device that adds no address but allocated ones keeps the memory sane.\<close>

lemma set_dev_fields [simp]:
  "component_list (set_dev d dev s) = component_list s" "aggregate_devices (set_dev d dev s) = aggregate_devices s"
  "comps (set_dev d dev s) = comps s" "adevs (set_dev d dev s) = adevs s" "matches (set_dev d dev s) = matches s"
  "calls (set_dev d dev s) = calls s" "mem (set_dev d dev s) = mem s" "devs (set_dev d dev s) = (devs s)(d := dev)"
  by (simp_all add: set_dev_def)

lemma set_dev_sane:
  assumes "sane s" "devres_wf dev"
    "dev_addrs dev \<subseteq> dev_addrs (devs s d) \<union> A"
    "A \<inter> set (avail s) = {}"
  shows "sane (set_dev d dev s)"
proof -
  have "used (set_dev d dev s) \<subseteq> used s \<union> A"
    using assms(3) unfolding used_def by (auto split: if_splits)
  then have "set (avail s) \<inter> used (set_dev d dev s) = {}"
    using assms(1,4) unfolding sane_def by blast
  moreover have "avail (set_dev d dev s) = avail s" by (simp add: avail_def)
  ultimately show ?thesis using assms(1,2) by (simp add: sane_def)
qed

text \<open>
  An operation or a callback ran: it left the registry but for the components as it was, set the
  components to \<open>cp\<close> and made the calls \<open>cl\<close>.
\<close>

definition ran :: "('r, 'd, 'w) cstate \<Rightarrow> ('r, 'd, 'w) cstate \<Rightarrow> (addr \<rightharpoonup> component) \<Rightarrow> call list \<Rightarrow> bool" where
  "ran s s' cp cl \<longleftrightarrow>
     component_list s' = component_list s \<and> aggregate_devices s' = aggregate_devices s \<and> adevs s' = adevs s \<and>
     matches s' = matches s \<and> comps s' = cp \<and> calls s' = calls s @ cl \<and> sane s'"

lemma ran_fields:
  assumes "ran s s' cp cl"
  shows "component_list s' = component_list s" "aggregate_devices s' = aggregate_devices s" "adevs s' = adevs s"
    "matches s' = matches s" "comps s' = cp" "calls s' = calls s @ cl" "sane s'"
  using assms by (simp_all add: ran_def)

lemma ran_trans: "ran s s' cp cl \<Longrightarrow> ran s' s'' cp' cl' \<Longrightarrow> ran s s'' cp' (cl @ cl')"
  by (simp add: ran_def)

lemma ran_then: "ran s s' cp cl \<Longrightarrow> ran s' s'' (comps s') [] \<Longrightarrow> ran s s'' cp cl"
  by (simp add: ran_def)

lemma set_dev_ran: "sane (set_dev d dev s) \<Longrightarrow> ran s (set_dev d dev s) (comps s) []"
  by (simp add: ran_def)

lemma log_ran: "sane s \<Longrightarrow> ran s (log c s) (comps s) [c]"
  by (simp add: ran_def log_def sane_def used_def avail_def)

lemma open_group_ran:
  assumes "sane s"
  obtains i s' where "open_group d gid s = Some (i, s')" "ran s s' (comps s) []"
proof (cases rule: kalloc_sane [OF assms])
  case (1 m)
  then show ?thesis
    by (intro that [of 0 "s\<lparr>mem := m\<rparr>"]) (simp_all add: open_group_def devres_open_group_def set_dev_def ran_def)
next
  case (2 a m)
  let ?s = "s\<lparr>mem := m\<rparr>" and ?i = "if gid \<noteq> 0 then gid else a"
  let ?dev = "(devs s d)\<lparr>grp_id := (grp_id (devs s d))(a := ?i), devres_head := devres_head (devs s d) @ [Open a]\<rparr>"
  have "a \<notin> dev_addrs (devs s d)" using 2(4) by (auto simp: used_def)
  then have "(a, 0) \<notin> node_id ` set (devres_head (devs s d))" by (rule dev_addrs_ids)
  then have "open_group d gid s = Some (?i, set_dev d ?dev ?s)"
    by (simp add: open_group_def 2(1) devres_open_group_def add_dr_def linked_def)
  moreover have "sane (set_dev d ?dev ?s)"
  proof (rule set_dev_sane [where A = "{a}"])
    show "devres_wf ?dev"
      using assms \<open>(a, 0) \<notin> _\<close> by (simp add: sane_def list_wf_snoc)
  qed (use 2 in \<open>auto simp: dev_addrs_def\<close>)
  ultimately show ?thesis by (intro that) (auto simp: ran_def)
qed

lemma close_group_ran:
  assumes "sane s"
  obtains s' where "close_group d 0 s = Some s'" "ran s s' (comps s) []"
proof (cases "find_group (devs s d) 0")
  case None
  then have "close_group d 0 s = Some (set_dev d (devs s d) s)" by (simp add: close_group_def devres_close_group_def)
  with assms show ?thesis by (intro that) (auto simp: set_dev_def ran_def)
next
  case (Some g)
  have open0: "\<not> linked dev (Close g)" if "find_group_loop dev 0 ns = Some g" for dev :: "('a, 'b, 'c) device" and ns
    using that by (induction dev "0 :: addr" ns rule: find_group_loop.induct) (auto split: devres_node.splits if_splits)
  have g: "Open g \<in> set (devres_head (devs s d))" "\<not> linked (devs s d) (Close g)"
    using find_group_in [OF Some] open0 Some by (auto simp: find_group_def)
  let ?dev = "(devs s d)\<lparr>devres_head := devres_head (devs s d) @ [Close g]\<rparr>"
  have "close_group d 0 s = Some (set_dev d ?dev s)"
    by (simp add: close_group_def devres_close_group_def Some add_dr_def g)
  moreover have "sane (set_dev d ?dev s)"
  proof (rule set_dev_sane [OF assms, where A = "{}"])
    show "devres_wf ?dev" using assms g by (auto simp: sane_def list_wf_snoc linked_def)
    show "dev_addrs ?dev \<subseteq> dev_addrs (devs s d) \<union> {}"
      using g(1) by (force simp: dev_addrs_def image_iff)
  qed simp
  ultimately show ?thesis using set_dev_ran that by blast
qed

lemma release_group_ran:
  assumes "sane s"
  obtains s' where "release_group env d gid s = Some s'" "ran s s' (comps s) []"
proof (cases "find_group (devs s d) gid")
  case None
  then have "release_group env d gid s = Some (set_dev d (devs s d) s)"
    by (simp add: release_group_def devres_release_group_def)
  with assms show ?thesis by (intro that) (auto simp: set_dev_def ran_def)
next
  case (Some g)
  have "devres_wf (devs s d)" using assms by (simp add: sane_def)
  from release_group_correct [OF this Some, of "run_release env"] obtain pre inside post dev' n where
    r: "devres_head (devs s d) = pre @ (Open g # inside) @ post" "devres_wf dev'"
      "devres_release_group (run_release env) (devs s d) gid = Some (n, dev')"
      "devres_head dev' = pre @ filter (stays (devres_head (devs s d)) (Open g # inside)) inside @ post"
    by blast
  then have "sane (set_dev d dev' s)"
    by (intro set_dev_sane [OF assms, where A = "{}"]) (auto simp: dev_addrs_def)
  moreover have "release_group env d gid s = Some (set_dev d dev' s)" using r(3) by (simp add: release_group_def)
  ultimately show ?thesis using set_dev_ran that by blast
qed

lemma remove_group_ran:
  assumes "sane s"
  shows "ran s (remove_group d gid s) (comps s) []"
proof -
  have "devres_wf (devs s d)" using assms by (simp add: sane_def)
  then have "devres_wf (devres_remove_group (devs s d) gid)"
    by (auto simp: devres_remove_group_def list_del_init_def kfree_def intro!: list_wf_filter split: option.splits)
  then have "sane (set_dev d (devres_remove_group (devs s d) gid) s)"
    by (rule set_dev_sane [OF assms, where A = "{}"])
      (auto simp: dev_addrs_def devres_remove_group_def list_del_init_def kfree_def split: option.splits)
  then show ?thesis unfolding remove_group_def by (rule set_dev_ran)
qed

section \<open>Registered components and aggregate devices\<close>

definition adev_of :: "('r, 'd, 'w) cstate \<Rightarrow> addr \<rightharpoonup> addr" where
  "adev_of s c = map_option comp_adev (comps s c)"

definition ops_of :: "('r, 'd, 'w) cstate \<Rightarrow> addr \<rightharpoonup> addr" where
  "ops_of s c = map_option comp_ops (comps s c)"

definition entries_of :: "('r, 'd, 'w) cstate \<Rightarrow> addr \<Rightarrow> component_match_array list" where
  "entries_of s a =
     (case adevs s a of
        None \<Rightarrow> []
      | Some ad \<Rightarrow> (case matches s (ad_match ad) of None \<Rightarrow> [] | Some m \<Rightarrow> mt_entries m))"

definition complete :: "('r, 'd, 'w) cstate \<Rightarrow> addr \<Rightarrow> bool" where
  "complete s a \<longleftrightarrow> (\<forall>mc\<in>set (entries_of s a). mc_component mc \<noteq> 0)"

text \<open>The entry that binds a component: the one that is not a duplicate.\<close>

definition binds :: "addr \<Rightarrow> component_match_array list \<Rightarrow> nat \<Rightarrow> bool" where
  "binds c es j \<longleftrightarrow> j < length es \<and> mc_component (es ! j) = c \<and> \<not> mc_duplicate (es ! j)"

text \<open>
  The registry is consistent: the lists hold allocated structures once, aggregate devices have
  their own parent and match array, an entry of a match array and the component it names refer
  to each other, an attached component has one binding entry, and an aggregate device is only
  bound when all its entries have a component.
\<close>

definition lists_ok :: "('r, 'd, 'w) cstate \<Rightarrow> bool" where
  "lists_ok s \<longleftrightarrow>
     distinct (component_list s) \<and> set (component_list s) \<subseteq> dom (adev_of s) \<and> adev_of s 0 = None \<and>
     distinct (aggregate_devices s) \<and> set (aggregate_devices s) = dom (adevs s) \<and> adevs s 0 = None"

definition adevs_ok :: "('r, 'd, 'w) cstate \<Rightarrow> bool" where
  "adevs_ok s \<longleftrightarrow>
     (\<forall>a ad. adevs s a = Some ad \<longrightarrow> ad_match ad \<noteq> 0 \<and> matches s (ad_match ad) \<noteq> None \<and> (ad_bound ad \<longrightarrow> complete s a)) \<and>
     (\<forall>a b ad bd. adevs s a = Some ad \<and> adevs s b = Some bd \<and> (ad_match ad = ad_match bd \<or> ad_parent ad = ad_parent bd) \<longrightarrow> a = b)"

definition links_ok :: "('r, 'd, 'w) cstate \<Rightarrow> bool" where
  "links_ok s \<longleftrightarrow>
     (\<forall>a. \<forall>mc\<in>set (entries_of s a). mc_component mc \<noteq> 0 \<longrightarrow> adev_of s (mc_component mc) = Some a) \<and>
     (\<forall>c a. adev_of s c = Some a \<and> a \<noteq> 0 \<longrightarrow> (\<exists>!j. binds c (entries_of s a) j)) \<and>
     (\<forall>c. ops_of s c \<noteq> Some 0)"

definition reg_ok :: "('r, 'd, 'w) cstate \<Rightarrow> bool" where
  "reg_ok s \<longleftrightarrow> lists_ok s \<and> adevs_ok s \<and> links_ok s"

lemma entries_of_cong: "adevs s' = adevs s \<Longrightarrow> matches s' = matches s \<Longrightarrow> entries_of s' = entries_of s"
  by (rule ext) (simp add: entries_of_def split: option.split)

text \<open>Setting the \<open>bound\<close> flag of some components.\<close>

definition flagged :: "bool \<Rightarrow> addr list \<Rightarrow> (addr \<rightharpoonup> component) \<Rightarrow> addr \<rightharpoonup> component" where
  "flagged b cs cp c = (if c \<in> set cs then map_option (\<lambda>x. x\<lparr>comp_bound := b\<rparr>) (cp c) else cp c)"

lemma flagged_simps [simp]:
  "flagged b [] cp = cp"
  "flagged b cs (flagged b ds cp) = flagged b (ds @ cs) cp"
  "flagged b (cs @ cs) cp = flagged b cs cp"
  "dom (flagged b cs cp) = dom cp"
  "map_option comp_adev (flagged b cs cp c) = map_option comp_adev (cp c)"
  "map_option comp_ops (flagged b cs cp c) = map_option comp_ops (cp c)"
  by (auto simp: flagged_def fun_eq_iff option.map_comp comp_def map_option_case dom_def split: option.splits if_splits)

lemma flagged_undo: "flagged False cs (flagged True cs cp) = flagged False cs cp"
  by (auto simp: flagged_def fun_eq_iff option.map_comp comp_def)

lemma ran_reg_ok:
  assumes "ran s s' cp cl" "map_option comp_adev \<circ> cp = adev_of s" "map_option comp_ops \<circ> cp = ops_of s"
  shows "reg_ok s' \<longleftrightarrow> reg_ok s" "complete s' = complete s" "entries_of s' = entries_of s"
proof -
  have "adev_of s' = adev_of s" "ops_of s' = ops_of s"
    using assms by (auto simp: ran_def adev_of_def ops_of_def fun_eq_iff)
  moreover show "entries_of s' = entries_of s"
    using assms(1) by (intro entries_of_cong) (simp_all add: ran_def)
  moreover from this show "complete s' = complete s" by (simp add: complete_def fun_eq_iff)
  ultimately show "reg_ok s' \<longleftrightarrow> reg_ok s"
    using assms(1) unfolding reg_ok_def lists_ok_def adevs_ok_def links_ok_def ran_def by simp
qed

lemma set_comp_sane [simp]: "comps s c \<noteq> None \<Longrightarrow> sane (set_comp c x s) \<longleftrightarrow> sane s"
  by (auto simp: sane_def used_def avail_def set_comp_def)

lemma set_bound_ran:
  "sane s \<Longrightarrow> comps s c = Some x \<Longrightarrow> ran s (set_comp c (x\<lparr>comp_bound := b\<rparr>) s) (flagged b [c] (comps s)) []"
  using set_comp_sane [of s c "x\<lparr>comp_bound := b\<rparr>"]
  by (auto simp: ran_def set_comp_def flagged_def fun_eq_iff)

lemma lists_okD:
  assumes "reg_ok s"
  shows "distinct (component_list s)" "set (component_list s) \<subseteq> dom (adev_of s)" "adev_of s 0 = None"
    "distinct (aggregate_devices s)" "set (aggregate_devices s) = dom (adevs s)" "adevs s 0 = None"
  using assms unfolding reg_ok_def lists_ok_def by simp_all

lemma adevs_okD:
  assumes "reg_ok s" "adevs s a = Some ad"
  shows "ad_match ad \<noteq> 0" "\<exists>m. matches s (ad_match ad) = Some m \<and> entries_of s a = mt_entries m"
    "ad_bound ad \<Longrightarrow> complete s a"
    "adevs s b = Some bd \<Longrightarrow> ad_match bd = ad_match ad \<or> ad_parent bd = ad_parent ad \<Longrightarrow> b = a" "a \<noteq> 0"
proof -
  have ok: "adevs_ok s" using assms(1) by (simp add: reg_ok_def)
  then show "ad_match ad \<noteq> 0" "ad_bound ad \<Longrightarrow> complete s a"
    using assms(2) unfolding adevs_ok_def by (blast, blast)
  have "matches s (ad_match ad) \<noteq> None" using ok assms(2) unfolding adevs_ok_def by blast
  then show "\<exists>m. matches s (ad_match ad) = Some m \<and> entries_of s a = mt_entries m"
    using assms(2) by (auto simp: entries_of_def)
  show "adevs s b = Some bd \<Longrightarrow> ad_match bd = ad_match ad \<or> ad_parent bd = ad_parent ad \<Longrightarrow> b = a"
    using ok assms(2) unfolding adevs_ok_def by blast
  show "a \<noteq> 0" using lists_okD(6) [OF assms(1)] assms(2) by (auto intro: ccontr)
qed

lemma adevs_okI:
  assumes "\<And>a ad. adevs s a = Some ad \<Longrightarrow> ad_match ad \<noteq> 0" "\<And>a ad. adevs s a = Some ad \<Longrightarrow> matches s (ad_match ad) \<noteq> None"
    "\<And>a ad. adevs s a = Some ad \<Longrightarrow> ad_bound ad \<Longrightarrow> complete s a"
    "\<And>a ad b bd. adevs s a = Some ad \<Longrightarrow> adevs s b = Some bd \<Longrightarrow> ad_match ad = ad_match bd \<or> ad_parent ad = ad_parent bd \<Longrightarrow> a = b"
  shows "adevs_ok s"
  unfolding adevs_ok_def using assms by blast

lemma links_okD:
  assumes "reg_ok s"
  shows "mc \<in> set (entries_of s a) \<Longrightarrow> mc_component mc \<noteq> 0 \<Longrightarrow> adev_of s (mc_component mc) = Some a"
    "adev_of s c = Some a \<Longrightarrow> a \<noteq> 0 \<Longrightarrow> \<exists>!j. binds c (entries_of s a) j"
    "ops_of s c \<noteq> Some 0"
  using assms unfolding reg_ok_def links_ok_def by (blast, blast, blast)

lemma reg_ok_component:
  assumes "reg_ok s" "mc \<in> set (entries_of s a)" "mc_component mc \<noteq> 0"
  shows "\<exists>x. comps s (mc_component mc) = Some x \<and> comp_adev x = a \<and> comp_ops x \<noteq> 0"
  using links_okD(1) [OF assms] links_okD(3) [OF assms(1), of "mc_component mc"] by (auto simp: adev_of_def ops_of_def)

lemma aggregate_find_loop_ok:
  assumes "set as \<subseteq> dom (adevs s)" "0 \<notin> set as"
  shows "\<exists>a. aggregate_find_loop s parent ops as = Some a \<and>
     (a = 0 \<longrightarrow> (\<forall>b\<in>set as. \<forall>bd. adevs s b = Some bd \<longrightarrow> \<not> (ad_parent bd = parent \<and> (ops = 0 \<or> ad_ops bd = ops)))) \<and>
     (a \<noteq> 0 \<longrightarrow> (\<exists>ad. adevs s a = Some ad \<and> ad_parent ad = parent \<and> (ops = 0 \<or> ad_ops ad = ops)))"
  using assms
proof (induction as)
  case (Cons b as)
  then obtain bd where "adevs s b = Some bd" by auto
  with Cons show ?case by (cases "ad_parent bd = parent \<and> (ops = 0 \<or> ad_ops bd = ops)") auto
qed simp

lemma aggregate_find_ok:
  assumes "reg_ok s"
  obtains "aggregate_find s parent ops = Some 0"
      "\<And>b bd. adevs s b = Some bd \<Longrightarrow> \<not> (ad_parent bd = parent \<and> (ops = 0 \<or> ad_ops bd = ops))"
  | a ad where "aggregate_find s parent ops = Some a" "a \<noteq> 0" "adevs s a = Some ad" "ad_parent ad = parent" "ops = 0 \<or> ad_ops ad = ops"
proof -
  have "set (aggregate_devices s) = dom (adevs s)" "0 \<notin> set (aggregate_devices s)"
    using lists_okD(5,6) [OF assms] by (simp_all add: domIff)
  with aggregate_find_loop_ok [of "aggregate_devices s" s parent ops] show ?thesis
    unfolding aggregate_find_def using that [unfolded aggregate_find_def] by (metis domI order_refl)
qed

lemma aggregate_find_parent:
  assumes "reg_ok s" "adevs s a = Some ad"
  shows "aggregate_find s (ad_parent ad) 0 = Some a"
  using aggregate_find_ok [OF assms(1), of "ad_parent ad" 0] adevs_okD(4) [OF assms] assms(2) by metis

section \<open>Binding all components\<close>

text \<open>The components that the entries bind, in order.\<close>

definition to_bind :: "component_match_array list \<Rightarrow> addr list" where
  "to_bind mcs = map mc_component (filter (\<lambda>mc. \<not> mc_duplicate mc) mcs)"

text \<open>
  What the model takes for granted of the operations of a component driver: they change devices
  and allocate memory in the ways that keep the memory sane, and leave the registry alone.
\<close>

locale component_driver =
  fixes env :: "('r, 'd, 'w) drivers"
  assumes op_bind_ran: "sane s \<Longrightarrow> ran s (snd (op_bind env ops dev par data s)) (comps s) []"
    and op_unbind_ran: "sane s \<Longrightarrow> ran s (op_unbind env ops dev par data s) (comps s) []"
begin

lemma component_unbind_ran:
  assumes "sane s" "comps s c \<noteq> None" "adevs s adev = Some ad"
  shows "\<exists>s'. component_unbind env c adev data s = Some s' \<and> ran s s' (flagged False [c] (comps s)) [Unbind c]"
proof -
  obtain x where x: "comps s c = Some x" using assms(2) by blast
  note s1 = log_ran [OF assms(1), of "Unbind c"]
  define s2 where "s2 = (if comp_ops x \<noteq> 0 \<and> has_unbind env (comp_ops x)
      then op_unbind env (comp_ops x) (comp_dev x) (ad_parent ad) data (log (Unbind c) s) else log (Unbind c) s)"
  have "ran (log (Unbind c) s) s2 (comps (log (Unbind c) s)) []"
    using op_unbind_ran ran_fields(7) [OF s1] unfolding s2_def by (auto simp: ran_def)
  then have s2: "ran s s2 (comps s) [Unbind c]"
    using ran_trans [OF s1] by (fastforce simp: ran_fields(5) [OF s1])
  then have x2: "comps s2 c = Some x" "comps s2 = comps s" using x by (simp_all add: ran_fields(5) [OF s2])
  note s3 = set_bound_ran [OF ran_fields(7) [OF s2] x2(1), of False]
  obtain s4 where s4: "release_group env (comp_dev x) c (set_comp c (x\<lparr>comp_bound := False\<rparr>) s2) = Some s4"
    "ran (set_comp c (x\<lparr>comp_bound := False\<rparr>) s2) s4 (comps (set_comp c (x\<lparr>comp_bound := False\<rparr>) s2)) []"
    using release_group_ran [OF ran_fields(7) [OF s3]] by blast
  have "component_unbind env c adev data s = Some s4"
    unfolding component_unbind_def x assms(3) Let_def Option.bind.simps s2_def [symmetric] x2(1) by (rule s4(1))
  moreover have "ran s s4 (flagged False [c] (comps s)) [Unbind c]"
    using ran_trans [OF ran_trans [OF s2 s3] s4(2)] by (simp add: ran_fields(5) [OF s3] x2(2))
  ultimately show ?thesis by blast
qed

lemma component_bind_ran:
  assumes "sane s" "comps s c = Some x" "comp_ops x \<noteq> 0" "adevs s adev = Some ad"
  shows "\<exists>r s' cl. component_bind env c adev data s = Some (r, s') \<and>
     ran s s' (if r = 0 then flagged True [c] (comps s) else comps s) cl \<and> (cl = [Bind c] \<or> cl = [] \<and> r \<noteq> 0)"
proof -
  obtain g1 s1 where s1: "open_group (ad_parent ad) 0 s = Some (g1, s1)" "ran s s1 (comps s) []"
    using open_group_ran [OF assms(1)] by blast
  have x1: "comps s1 c = Some x" using assms(2) by (simp add: ran_fields(5) [OF s1(2)])
  obtain g2 s2 where s2: "open_group (comp_dev x) c s1 = Some (g2, s2)" "ran s1 s2 (comps s1) []"
    using open_group_ran [OF ran_fields(7) [OF s1(2)]] by blast
  note r2 = ran_then [OF s1(2) s2(2)]
  show ?thesis
  proof (cases "g1 = 0 \<or> g2 = 0")
    case True
    obtain s3 where s3: "release_group env (ad_parent ad) 0 s2 = Some s3" "ran s2 s3 (comps s2) []"
      using release_group_ran [OF ran_fields(7) [OF r2]] by blast
    show ?thesis
    proof (cases "g1 = 0")
      case True
      with s1 assms(4) show ?thesis
        by (intro exI [of _ "- 12"] exI [of _ s1] exI [of _ "[]"]) (simp add: component_bind_def)
    next
      case False
      with \<open>g1 = 0 \<or> g2 = 0\<close> s1 s2 s3 x1 assms(4) ran_then [OF r2 s3(2)] show ?thesis
        by (intro exI [of _ "- 12"] exI [of _ s3] exI [of _ "[]"]) (simp add: component_bind_def)
    qed
  next
    case False
    note r3 = ran_trans [OF r2 log_ran [OF ran_fields(7) [OF r2], of "Bind c"], simplified, unfolded ran_fields(5) [OF r2]]
    obtain ret s3 where s3: "op_bind env (comp_ops x) (comp_dev x) (ad_parent ad) data (log (Bind c) s2) = (ret, s3)"
      by fastforce
    then have "ran (log (Bind c) s2) s3 (comps (log (Bind c) s2)) []"
      using op_bind_ran [OF ran_fields(7) [OF r3]] by (metis snd_conv)
    note r4 = ran_then [OF r3 this]
    have x3: "comps s3 c = Some x" using assms(2) by (simp add: ran_fields(5) [OF r4])
    show ?thesis
    proof (cases "ret = 0")
      case True
      let ?s4 = "set_comp c (x\<lparr>comp_bound := True\<rparr>) s3"
      note r5 = ran_trans [OF r4 set_bound_ran [OF ran_fields(7) [OF r4] x3, of True], unfolded ran_fields(5) [OF r4]]
      obtain s5 where s5: "close_group (comp_dev x) 0 ?s4 = Some s5" "ran ?s4 s5 (comps ?s4) []"
        using close_group_ran [OF ran_fields(7) [OF r5]] by blast
      note r6 = ran_then [OF r5 s5(2)]
      note r7 = ran_then [OF r6 remove_group_ran [OF ran_fields(7) [OF r6], of "ad_parent ad" 0]]
      have "component_bind env c adev data s = Some (0, remove_group (ad_parent ad) 0 s5)"
        using s1(1) s2(1) s3 s5(1) x1 x3 True False assms by (simp add: component_bind_def)
      with r7 show ?thesis by auto
    next
      case fail: False
      obtain s4 where s4: "release_group env (comp_dev x) 0 s3 = Some s4" "ran s3 s4 (comps s3) []"
        using release_group_ran [OF ran_fields(7) [OF r4]] by blast
      note r5 = ran_then [OF r4 s4(2)]
      obtain s5 where s5: "release_group env (ad_parent ad) 0 s4 = Some s5" "ran s4 s5 (comps s4) []"
        using release_group_ran [OF ran_fields(7) [OF r5]] by blast
      have "component_bind env c adev data s = Some (ret, s5)"
        using s1(1) s2(1) s3 s4(1) s5(1) x1 x3 fail False assms by (simp add: component_bind_def)
      with ran_then [OF r5 s5(2)] fail show ?thesis by auto
    qed
  qed
qed

lemma unbind_loop_ran:
  assumes "sane s" "adevs s adev = Some ad" "\<And>c. c \<in> set (to_bind mcs) \<Longrightarrow> comps s c \<noteq> None"
  shows "\<exists>s'. unbind_loop env adev data mcs s = Some s' \<and>
     ran s s' (flagged False (to_bind mcs) (comps s)) (map Unbind (to_bind mcs))"
  using assms
proof (induction mcs arbitrary: s)
  case Nil
  then show ?case by (simp add: to_bind_def ran_def)
next
  case (Cons mc mcs)
  show ?case
  proof (cases "mc_duplicate mc")
    case True
    with Cons show ?thesis by (simp add: to_bind_def)
  next
    case False
    then have tb: "to_bind (mc # mcs) = mc_component mc # to_bind mcs" by (simp add: to_bind_def)
    obtain s1 where s1: "component_unbind env (mc_component mc) adev data s = Some s1"
      "ran s s1 (flagged False [mc_component mc] (comps s)) [Unbind (mc_component mc)]"
      using component_unbind_ran [OF Cons.prems(1) _ Cons.prems(2)] Cons.prems(3) tb by (metis list.set_intros(1))
    have "adevs s1 adev = Some ad" "sane s1" using s1(2) Cons.prems(2) by (simp_all add: ran_def)
    moreover have "\<And>c. c \<in> set (to_bind mcs) \<Longrightarrow> comps s1 c \<noteq> None"
      using Cons.prems(3) tb by (auto simp: ran_fields(5) [OF s1(2)] flagged_def)
    ultimately obtain s2 where s2: "unbind_loop env adev data mcs s1 = Some s2"
      "ran s1 s2 (flagged False (to_bind mcs) (comps s1)) (map Unbind (to_bind mcs))"
      using Cons.IH [of s1] by blast
    have "unbind_loop env adev data (mc # mcs) s = Some s2" using False s1(1) s2(1) by simp
    with ran_trans [OF s1(2) s2(2)] show ?thesis by (simp add: tb ran_fields(5) [OF s1(2)])
  qed
qed

lemma bind_loop_ran:
  assumes "sane s" "adevs s adev = Some ad"
    "\<And>c. c \<in> set (to_bind mcs) \<Longrightarrow> \<exists>x. comps s c = Some x \<and> comp_ops x \<noteq> 0"
  shows "\<exists>r pre post s' cl. bind_loop env adev data before mcs s = Some (r, rev pre @ before, s') \<and> mcs = pre @ post \<and>
     ran s s' (flagged True (to_bind pre) (comps s)) (map Bind (to_bind pre) @ cl) \<and>
     (if r = 0 then post = [] \<and> cl = []
      else \<exists>c cs. to_bind post = c # cs \<and> (cl = [Bind c] \<or> cl = []))"
  using assms
proof (induction mcs arbitrary: s before)
  case Nil
  then show ?case by (simp add: to_bind_def ran_def)
next
  case (Cons mc mcs)
  show ?case
  proof (cases "mc_duplicate mc")
    case True
    then have tb: "to_bind (mc # ms) = to_bind ms" for ms by (simp add: to_bind_def)
    obtain r pre post s' cl where "bind_loop env adev data (mc # before) mcs s = Some (r, rev pre @ mc # before, s')"
      "mcs = pre @ post" "ran s s' (flagged True (to_bind pre) (comps s)) (map Bind (to_bind pre) @ cl)"
      "if r = 0 then post = [] \<and> cl = [] else \<exists>c cs. to_bind post = c # cs \<and> (cl = [Bind c] \<or> cl = [])"
      using Cons.IH [OF Cons.prems(1,2), of "mc # before"] Cons.prems(3) unfolding tb by blast
    with True show ?thesis
      by (intro exI [of _ r] exI [of _ "mc # pre"] exI [of _ post] exI [of _ s'] exI [of _ cl]) (simp add: tb)
  next
    case False
    then have tb: "to_bind (mc # ms) = mc_component mc # to_bind ms" for ms by (simp add: to_bind_def)
    obtain x where x: "comps s (mc_component mc) = Some x" "comp_ops x \<noteq> 0" using Cons.prems(3) tb by fastforce
    obtain r s1 cl where b: "component_bind env (mc_component mc) adev data s = Some (r, s1)"
      "ran s s1 (if r = 0 then flagged True [mc_component mc] (comps s) else comps s) cl"
      "cl = [Bind (mc_component mc)] \<or> cl = [] \<and> r \<noteq> 0"
      using component_bind_ran [OF Cons.prems(1) x Cons.prems(2)] by blast
    show ?thesis
    proof (cases "r = 0")
      case False
      with b \<open>\<not> mc_duplicate mc\<close> show ?thesis
        by (intro exI [of _ r] exI [of _ "[]"] exI [of _ "mc # mcs"] exI [of _ s1] exI [of _ cl])
          (auto simp: to_bind_def)
    next
      case True
      with b have b2: "ran s s1 (flagged True [mc_component mc] (comps s)) [Bind (mc_component mc)]" by auto
      have "adevs s1 adev = Some ad" "sane s1" using b2 Cons.prems(2) by (simp_all add: ran_def)
      moreover have "\<exists>x. comps s1 c = Some x \<and> comp_ops x \<noteq> 0" if "c \<in> set (to_bind mcs)" for c
        using Cons.prems(3) [of c] that tb by (auto simp: ran_fields(5) [OF b2] flagged_def)
      ultimately obtain r' pre post s' cl where l: "bind_loop env adev data (mc # before) mcs s1 = Some (r', rev pre @ mc # before, s')"
        "mcs = pre @ post" "ran s1 s' (flagged True (to_bind pre) (comps s1)) (map Bind (to_bind pre) @ cl)"
        "if r' = 0 then post = [] \<and> cl = [] else \<exists>c cs. to_bind post = c # cs \<and> (cl = [Bind c] \<or> cl = [])"
        using Cons.IH [of s1 "mc # before"] by blast
      from ran_trans [OF b2 l(3)] have "ran s s' (flagged True (to_bind (mc # pre)) (comps s)) (map Bind (to_bind (mc # pre)) @ cl)"
        by (simp add: tb ran_fields(5) [OF b2])
      with l(1,2,4) b(1) True \<open>\<not> mc_duplicate mc\<close> show ?thesis
        by (intro exI [of _ r'] exI [of _ "mc # pre"] exI [of _ post] exI [of _ s'] exI [of _ cl]) simp
    qed
  qed
qed

lemma component_bind_all_ran:
  assumes "reg_ok s" "sane s" "adevs s a = Some ad" "complete s a"
  shows "\<exists>r s'. component_bind_all env (ad_parent ad) data s = Some (r, s') \<and>
     (if r = 0
      then ran s s' (flagged True (to_bind (entries_of s a)) (comps s)) (map Bind (to_bind (entries_of s a)))
      else \<exists>bound c rest cl. to_bind (entries_of s a) = bound @ c # rest \<and> (cl = [Bind c] \<or> cl = []) \<and>
        ran s s' (flagged False bound (comps s)) (map Bind bound @ cl @ map Unbind (rev bound)))"
proof -
  obtain match where m: "matches s (ad_match ad) = Some match" "entries_of s a = mt_entries match"
    using adevs_okD(2) [OF assms(1,3)] by blast
  have cs: "\<exists>x. comps s c = Some x \<and> comp_ops x \<noteq> 0" if "c \<in> set (to_bind (entries_of s a))" for c
    using reg_ok_component [OF assms(1), of _ a] assms(4) that unfolding to_bind_def complete_def by force
  obtain r pre post s1 cl where l: "bind_loop env a data [] (entries_of s a) s = Some (r, rev pre @ [], s1)"
    "entries_of s a = pre @ post" "ran s s1 (flagged True (to_bind pre) (comps s)) (map Bind (to_bind pre) @ cl)"
    "if r = 0 then post = [] \<and> cl = [] else \<exists>c cs. to_bind post = c # cs \<and> (cl = [Bind c] \<or> cl = [])"
    using bind_loop_ran [OF assms(2,3) cs, of _ data "[]"] by blast
  have find: "aggregate_find s (ad_parent ad) 0 = Some a" "a \<noteq> 0"
    using aggregate_find_parent [OF assms(1,3)] adevs_okD(5) [OF assms(1,3)] by auto
  show ?thesis
  proof (cases "r = 0")
    case True
    with find m l assms(3) show ?thesis by (intro exI [of _ 0] exI [of _ s1]) (simp add: component_bind_all_def)
  next
    case False
    have "adevs s1 a = Some ad" using l(3) assms(3) by (simp add: ran_def)
    moreover have "comps s1 c \<noteq> None" if "c \<in> set (to_bind (rev pre))" for c
      using cs [of c] that l(2) by (auto simp: ran_fields(5) [OF l(3)] flagged_def to_bind_def)
    ultimately obtain s2 where s2: "unbind_loop env a data (rev pre) s1 = Some s2"
      "ran s1 s2 (flagged False (to_bind (rev pre)) (comps s1)) (map Unbind (to_bind (rev pre)))"
      using unbind_loop_ran [OF ran_fields(7) [OF l(3)]] by blast
    have rv: "to_bind (rev pre) = rev (to_bind pre)" by (simp add: to_bind_def rev_filter rev_map)
    have fl: "flagged False (rev (to_bind pre)) (flagged True (to_bind pre) (comps s)) = flagged False (to_bind pre) (comps s)"
      by (auto simp: flagged_def fun_eq_iff option.map_comp comp_def)
    obtain c rest where c: "to_bind post = c # rest" "cl = [Bind c] \<or> cl = []" using l(4) False by auto
    have "to_bind (entries_of s a) = to_bind pre @ c # rest" unfolding l(2) using c(1) by (simp add: to_bind_def)
    moreover have "component_bind_all env (ad_parent ad) data s = Some (r, s2)"
      using find m l(1) s2(1) False assms(3) by (simp add: component_bind_all_def)
    moreover have "ran s s2 (flagged False (to_bind pre) (comps s)) (map Bind (to_bind pre) @ cl @ map Unbind (rev (to_bind pre)))"
      using ran_trans [OF l(3) s2(2)] by (simp add: ran_fields(5) [OF l(3)] rv fl)
    ultimately show ?thesis using c(2) False by auto
  qed
qed

lemma component_unbind_all_ran:
  assumes "reg_ok s" "sane s" "adevs s a = Some ad" "complete s a"
  shows "\<exists>s'. component_unbind_all env (ad_parent ad) data s = Some s' \<and>
     ran s s' (flagged False (rev (to_bind (entries_of s a))) (comps s)) (map Unbind (rev (to_bind (entries_of s a))))"
proof -
  obtain match where m: "matches s (ad_match ad) = Some match" "entries_of s a = mt_entries match"
    using adevs_okD(2) [OF assms(1,3)] by blast
  have "comps s c \<noteq> None" if "c \<in> set (to_bind (rev (entries_of s a)))" for c
    using reg_ok_component [OF assms(1), of _ a] assms(4) that unfolding to_bind_def complete_def by force
  then obtain s' where s': "unbind_loop env a data (rev (entries_of s a)) s = Some s'"
    "ran s s' (flagged False (to_bind (rev (entries_of s a))) (comps s)) (map Unbind (to_bind (rev (entries_of s a))))"
    using unbind_loop_ran [OF assms(2,3)] by blast
  have "to_bind (rev (entries_of s a)) = rev (to_bind (entries_of s a))" by (simp add: to_bind_def rev_filter rev_map)
  moreover have "component_unbind_all env (ad_parent ad) data s = Some s'"
    using aggregate_find_parent [OF assms(1,3)] adevs_okD(5) [OF assms(1,3)] assms(3) m s'(1)
    by (auto simp: component_unbind_all_def)
  ultimately show ?thesis using s'(2) by auto
qed

end

text \<open>
  A component driver in the style of the \<open>devm\<close> interfaces: binding allocates an entry of the
  devres list of its device, and unbinding leaves the release to the list.
\<close>

definition devm_driver :: "('r, 'd, 'w) drivers \<Rightarrow> ('r, 'd, 'w) drivers" where
  "devm_driver env = env
     \<lparr>op_bind := (\<lambda>ops dev par data s.
        case kalloc s of
          (None, s1) \<Rightarrow> (- ENOMEM, s1)
        | (Some p, s1) \<Rightarrow>
            (case devres_add (devs s1 dev) \<lparr>dr_ptr = p, dr_release = match_release env, dr_data = match_data env\<rparr> of
               None \<Rightarrow> (- EINVAL, s1)
             | Some d \<Rightarrow> (0, set_dev dev d s1))),
      op_unbind := (\<lambda>ops dev par data s. s)\<rparr>"

lemma devres_add_sane:
  assumes "sane s" "a \<notin> used s" "a \<notin> set (avail s)"
  shows "\<exists>d. devres_add (devs s dev) \<lparr>dr_ptr = a, dr_release = r, dr_data = x\<rparr> = Some d \<and> sane (set_dev dev d s)"
proof -
  let ?n = "Node \<lparr>dr_ptr = a, dr_release = r, dr_data = x\<rparr>"
  let ?d = "(devs s dev)\<lparr>devres_head := devres_head (devs s dev) @ [?n]\<rparr>"
  have "a \<notin> dev_addrs (devs s dev)" using assms(2) by (auto simp: used_def)
  from dev_addrs_ids [OF this] have n: "node_id ?n \<notin> node_id ` set (devres_head (devs s dev))" by simp
  then have "devres_wf ?d" using assms(1) by (simp add: sane_def list_wf_snoc)
  then have "sane (set_dev dev ?d s)"
    using assms(1,3) by (intro set_dev_sane [where A = "{a}"]) (auto simp: dev_addrs_def)
  with n show ?thesis by (auto simp: devres_add_def add_dr_def linked_def)
qed

interpretation devm: component_driver "devm_driver env"
proof
  fix ops dev par data and s :: "('a, 'b, 'c) cstate"
  assume s: "sane s"
  then show "ran s (op_unbind (devm_driver env) ops dev par data s) (comps s) []"
    by (simp add: devm_driver_def ran_def)
  show "ran s (snd (op_bind (devm_driver env) ops dev par data s)) (comps s) []"
  proof (cases rule: kalloc_sane [OF s])
    case (1 m)
    then show ?thesis by (simp add: devm_driver_def ran_def)
  next
    case (2 a m)
    have "a \<notin> used (s\<lparr>mem := m\<rparr>)" using 2(4) by (simp add: used_def)
    from devres_add_sane [OF 2(2) this 2(5), of dev "match_release env" "match_data env"] 2(1) show ?thesis
      by (auto simp: devm_driver_def ran_def)
  qed
qed

section \<open>Properties\<close>

text \<open>
  C17: Binding is all or nothing.  For an aggregate device that has all its components,
  \<open>component_bind_all\<close> returns without touching freed or null memory.  It calls the bind
  operation of every component once, in match order; when one of them fails (or its devres group
  cannot be allocated), the components bound before are unbound in reverse order, and the error
  is returned.  The \<open>bound\<close> flags are set accordingly, and nothing else of the registry changes.
\<close>

theorem component_bind_all_correct:
  assumes "component_driver env" "reg_ok s" "sane s" "adevs s a = Some ad" "complete s a"
  shows "\<exists>r s'. component_bind_all env (ad_parent ad) data s = Some (r, s') \<and> reg_ok s' \<and> sane s' \<and>
     (if r = 0
      then calls s' = calls s @ map Bind (to_bind (entries_of s a)) \<and>
           comps s' = flagged True (to_bind (entries_of s a)) (comps s)
      else \<exists>bound c rest tried. to_bind (entries_of s a) = bound @ c # rest \<and> (tried = [Bind c] \<or> tried = []) \<and>
           calls s' = calls s @ map Bind bound @ tried @ map Unbind (rev bound) \<and>
           comps s' = flagged False bound (comps s))"
proof -
  obtain r s' where r: "component_bind_all env (ad_parent ad) data s = Some (r, s')"
    "if r = 0
     then ran s s' (flagged True (to_bind (entries_of s a)) (comps s)) (map Bind (to_bind (entries_of s a)))
     else \<exists>bound c rest cl. to_bind (entries_of s a) = bound @ c # rest \<and> (cl = [Bind c] \<or> cl = []) \<and>
        ran s s' (flagged False bound (comps s)) (map Bind bound @ cl @ map Unbind (rev bound))"
    using component_driver.component_bind_all_ran [OF assms, of data] by blast
  then obtain b cs cl where "ran s s' (flagged b cs (comps s)) cl" by (auto split: if_splits)
  note f = this
  have "map_option comp_adev \<circ> flagged b cs (comps s) = adev_of s" "map_option comp_ops \<circ> flagged b cs (comps s) = ops_of s"
    by (simp_all add: adev_of_def ops_of_def fun_eq_iff)
  from ran_reg_ok(1) [OF f this] ran_fields(7) [OF f] assms(2) have "reg_ok s' \<and> sane s'" by simp
  with r show ?thesis
    by (intro exI [of _ r] exI [of _ s'] conjI) (auto simp: ran_def split: if_splits)
qed

definition ex_dev0 :: "(unit, unit, unit) device" where
  "ex_dev0 = \<lparr>head_init = True, devres_head = [], grp_id = (\<lambda>_. 0), color = (\<lambda>_. 0), freed = [], world = ()\<rparr>"

definition ex_env :: "(unit, unit, unit) drivers" where
  "ex_env = \<lparr>compare = (\<lambda>f d x. d = x), compare_typed = (\<lambda>f d n x. False), op_bind = (\<lambda>o1 d p x s. (0, s)),
     has_unbind = (\<lambda>o1. True), op_unbind = (\<lambda>o1 d p x s. s), master_bind = (\<lambda>o1 p s. Some (0, s)),
     master_unbind = (\<lambda>o1 p s. Some s), run_release = (\<lambda>r p d w. w), match_release = (), match_data = ()\<rparr>"

definition ex_entry :: "addr \<Rightarrow> addr \<Rightarrow> component_match_array" where
  "ex_entry d c = \<lparr>mc_data = d, mc_compare = 1, mc_compare_typed = 0, mc_release = 0, mc_component = c, mc_duplicate = False\<rparr>"

definition ex_state :: "(unit, unit, unit) cstate" where
  "ex_state = \<lparr>component_list = [1, 2], aggregate_devices = [3],
     comps = [1 \<mapsto> \<lparr>comp_adev = 3, comp_bound = False, comp_ops = 5, subcomponent = 0, comp_dev = 21\<rparr>,
              2 \<mapsto> \<lparr>comp_adev = 3, comp_bound = False, comp_ops = 6, subcomponent = 0, comp_dev = 22\<rparr>],
     adevs = [3 \<mapsto> \<lparr>ad_bound = False, ad_ops = 7, ad_parent = 20, ad_match = 4\<rparr>],
     matches = [4 \<mapsto> \<lparr>mt_alloc = 2, mt_entries = [ex_entry 21 1, ex_entry 22 2]\<rparr>],
     devs = (\<lambda>d. ex_dev0), mem = [Some 11, Some 12, Some 13, Some 14, None], calls = []\<rparr>"

lemma ex_state_ok: "reg_ok ex_state" "sane ex_state" "complete ex_state 3"
  "adevs ex_state 3 = Some \<lparr>ad_bound = False, ad_ops = 7, ad_parent = 20, ad_match = 4\<rparr>"
proof -
  have es: "entries_of ex_state a = (if a = 3 then [ex_entry 21 1, ex_entry 22 2] else [])" for a
    by (simp add: entries_of_def ex_state_def)
  have av: "adev_of ex_state = [1 \<mapsto> 3, 2 \<mapsto> 3]" by (auto simp: adev_of_def ex_state_def fun_eq_iff)
  have ov: "ops_of ex_state = [1 \<mapsto> 5, 2 \<mapsto> 6]" by (auto simp: ops_of_def ex_state_def fun_eq_iff)
  show ad: "adevs ex_state 3 = Some \<lparr>ad_bound = False, ad_ops = 7, ad_parent = 20, ad_match = 4\<rparr>"
    by (simp add: ex_state_def)
  show "complete ex_state 3" by (simp add: complete_def es ex_entry_def)
  have lists: "lists_ok ex_state" unfolding lists_ok_def av by (auto simp: ex_state_def)
  have adevs: "adevs_ok ex_state" by (auto simp: adevs_ok_def ex_state_def split: if_splits)
  have bnd: "binds c [ex_entry 21 1, ex_entry 22 2] j \<longleftrightarrow> (c = 1 \<and> j = 0) \<or> (c = 2 \<and> j = 1)" for c j
    by (cases j; cases "j - 1") (auto simp: binds_def ex_entry_def)
  have b: "\<exists>!j. binds c [ex_entry 21 1, ex_entry 22 2] j" if "c = 1 \<or> c = 2" for c
    using that unfolding bnd by (elim disjE) simp_all
  have "adev_of ex_state c = Some a \<Longrightarrow> a = 3 \<and> (c = 1 \<or> c = 2)" for a c by (auto simp: av split: if_splits)
  then have "\<exists>!j. binds c (entries_of ex_state a) j" if "adev_of ex_state c = Some a" for a c
    using b that by (metis es)
  moreover have "adev_of ex_state (mc_component mc) = Some a" if "mc \<in> set (entries_of ex_state a)" for mc a
    using that by (auto simp: es av ex_entry_def split: if_splits)
  moreover have "ops_of ex_state c \<noteq> Some 0" for c by (simp add: ov)
  ultimately have "links_ok ex_state" unfolding links_ok_def by blast
  with lists adevs show "reg_ok ex_state" by (simp add: reg_ok_def)
  show "sane ex_state"
    by (auto simp: sane_def avail_def used_def dev_addrs_def ex_state_def ex_dev0_def List.map_filter_def split: if_splits)
qed

theorem component_bind_all_correct_witness:
  "\<exists>r s'. component_bind_all (devm_driver ex_env) 20 9 ex_state = Some (r, s') \<and> reg_ok s' \<and> sane s'"
  using component_bind_all_correct [OF devm.component_driver_axioms [of ex_env] ex_state_ok(1,2,4,3), of 9] by auto

end
