(* ===== verification/ComponentRegistry.thy ===== *)
theory ComponentRegistry
  imports Component
begin

text \<open>
  The registry of \<open>kernel/src/driver/base/component.c\<close> over sequences of operations: what the
  model takes for granted of an aggregate driver, that every entry point keeps the registry
  consistent, and the invariant of the reachable states.  The definitions are in the theory
  of the binding of components.
\<close>

section \<open>Attaching and detaching components\<close>

lemma set_fields [simp]:
  "component_list (set_comp c x s) = component_list s" "aggregate_devices (set_comp c x s) = aggregate_devices s"
  "comps (set_comp c x s) = (comps s)(c \<mapsto> x)" "adevs (set_comp c x s) = adevs s" "matches (set_comp c x s) = matches s"
  "component_list (set_match m y s) = component_list s" "aggregate_devices (set_match m y s) = aggregate_devices s"
  "comps (set_match m y s) = comps s" "adevs (set_match m y s) = adevs s" "matches (set_match m y s) = (matches s)(m \<mapsto> y)"
  "component_list (set_adev a z s) = component_list s" "aggregate_devices (set_adev a z s) = aggregate_devices s"
  "comps (set_adev a z s) = comps s" "adevs (set_adev a z s) = (adevs s)(a \<mapsto> z)" "matches (set_adev a z s) = matches s"
  by (simp_all add: set_comp_def set_match_def set_adev_def)

lemma set_match_sane [simp]: "matches s m \<noteq> None \<Longrightarrow> sane (set_match m x s) \<longleftrightarrow> sane s"
  by (auto simp: sane_def used_def avail_def set_match_def)

lemma set_adev_sane [simp]: "adevs s a \<noteq> None \<Longrightarrow> sane (set_adev a x s) \<longleftrightarrow> sane s"
  by (auto simp: sane_def used_def avail_def set_adev_def)

lemma binds_update:
  "binds d (es[i := v]) j \<longleftrightarrow>
     (if j = i then i < length es \<and> mc_component v = d \<and> \<not> mc_duplicate v else binds d es j)"
  by (auto simp: binds_def nth_list_update)

lemma find_component_loop_ok:
  assumes "set cs \<subseteq> dom (comps s)" "0 \<notin> set cs"
  shows "\<exists>c. find_component_loop env s adev mc cs = Some c \<and>
     (c \<noteq> 0 \<longrightarrow> (\<exists>x. comps s c = Some x \<and> (comp_adev x = 0 \<or> comp_adev x = adev)))"
  using assms
proof (induction cs)
  case (Cons c cs)
  then obtain x where "comps s c = Some x" by auto
  with Cons show ?case by auto
qed simp

text \<open>One turn of the loop of \<open>find_components\<close>: attaching a component to an empty entry.\<close>

lemma attach_ok:
  assumes ok: "reg_ok s" and ad: "adevs s a = Some ad" "matches s (ad_match ad) = Some match"
    and i: "i < length (mt_entries match)" "mc_component (mt_entries match ! i) = 0"
    and x: "c \<noteq> 0" "comps s c = Some x" "comp_adev x = 0 \<or> comp_adev x = a"
  defines "mc \<equiv> (mt_entries match ! i)\<lparr>mc_duplicate := comp_adev x \<noteq> 0, mc_component := c\<rparr>"
  defines "s' \<equiv> set_comp c (x\<lparr>comp_adev := a\<rparr>) (set_match (ad_match ad) (match\<lparr>mt_entries := (mt_entries match)[i := mc]\<rparr>) s)"
  shows "reg_ok s'" "entries_of s' a = (entries_of s a)[i := mc]" "adev_of s' = (adev_of s)(c \<mapsto> a)"
proof -
  let ?es = "entries_of s a"
  have es: "?es = mt_entries match" using ad by (simp add: entries_of_def)
  show ea: "entries_of s' a = ?es[i := mc]" using ad by (simp add: s'_def entries_of_def)
  have eb: "entries_of s' b = entries_of s b" if "b \<noteq> a" for b
    using that adevs_okD(4) [OF ok ad(1), of b] by (auto simp: s'_def entries_of_def split: option.splits)
  show av: "adev_of s' = (adev_of s)(c \<mapsto> a)" by (auto simp: s'_def adev_of_def fun_eq_iff)
  have ov: "ops_of s' = ops_of s" using x(2) by (auto simp: s'_def ops_of_def fun_eq_iff)
  have ac: "adev_of s c = Some (comp_adev x)" using x(2) by (simp add: adev_of_def)
  have a0: "a \<noteq> 0" using adevs_okD(5) [OF ok ad(1)] .
  have unbound: "\<not> ad_bound ad" using adevs_okD(3) [OF ok ad(1)] i(2) es nth_mem [OF i(1)] unfolding complete_def by metis
  have free: "mc_component (?es ! j) \<noteq> c" if "comp_adev x = 0" "j < length ?es" for j
    using links_okD(1) [OF ok nth_mem [OF that(2)]] ac x(1) that(1) a0 by auto
  have "lists_ok s'"
    using ok x ac unfolding reg_ok_def lists_ok_def av by (auto simp: s'_def)
  moreover have "adevs_ok s'"
  proof -
    have "complete s' b" if "adevs s b = Some bd" "ad_bound bd" for b bd
      using that adevs_okD(3) [OF ok that] ad(1) unbound eb [of b] by (cases "b = a") (simp_all add: complete_def)
    moreover have "matches s' (ad_match bd) \<noteq> None" if "adevs s b = Some bd" for b bd
      using adevs_okD(2) [OF ok that] by (auto simp: s'_def)
    ultimately show ?thesis using adevs_okD(1,4) [OF ok] unfolding adevs_ok_def by (simp add: s'_def)
  qed
  moreover have "links_ok s'"
    unfolding links_ok_def
  proof (intro conjI allI ballI impI)
    fix b m assume m: "m \<in> set (entries_of s' b)" "mc_component m \<noteq> 0"
    show "adev_of s' (mc_component m) = Some b"
    proof (cases "b = a")
      case True
      then have "m = mc \<or> m \<in> set ?es" using m(1) set_update_subset_insert [of ?es i mc] by (auto simp: ea)
      then show ?thesis using links_okD(1) [OF ok, of m a] m(2) True by (auto simp: av mc_def)
    next
      case False
      with m have "adev_of s (mc_component m) = Some b" using links_okD(1) [OF ok, of m b] by (simp add: eb)
      moreover have "entries_of s 0 = []" using lists_okD(6) [OF ok] by (simp add: entries_of_def)
      then have "b \<noteq> 0" using m(1) eb [OF False] by (metis empty_iff list.set(1))
      ultimately show ?thesis using False ac x(3) by (auto simp: av)
    qed
  next
    fix d b assume d: "adev_of s' d = Some b \<and> b \<noteq> 0"
    show "\<exists>!j. binds d (entries_of s' b) j"
    proof (cases "d = c")
      case True
      with d have b: "b = a" by (simp add: av)
      show ?thesis
      proof (cases "comp_adev x = 0")
        case True
        then have "binds c (?es[i := mc]) j \<longleftrightarrow> j = i" for j
          unfolding binds_update using free i es by (auto simp: binds_def mc_def)
        with \<open>d = c\<close> b show ?thesis by (simp add: ea)
      next
        case False
        then have "binds c (?es[i := mc]) j \<longleftrightarrow> binds c ?es j" for j
          unfolding binds_update using i es x(1) by (auto simp: binds_def mc_def)
        with False \<open>d = c\<close> b ac x(3) links_okD(2) [OF ok, of c a] a0 show ?thesis by (simp add: ea)
      qed
    next
      case False
      with d have d': "adev_of s d = Some b" "b \<noteq> 0" by (simp_all add: av)
      then have "d \<noteq> 0" using lists_okD(3) [OF ok] by (metis option.distinct(1))
      then have "binds d (?es[i := mc]) j \<longleftrightarrow> binds d ?es j" for j
        unfolding binds_update using False i es by (auto simp: binds_def mc_def)
      with links_okD(2) [OF ok d'] show ?thesis by (cases "b = a") (simp_all add: ea eb)
    qed
  next
    fix d show "ops_of s' d \<noteq> Some 0" unfolding ov by (rule links_okD(3) [OF ok])
  qed
  ultimately show "reg_ok s'" by (simp add: reg_ok_def)
qed

text \<open>What \<open>find_components\<close> and bringing up may change of the links.\<close>

definition attached_to :: "addr \<Rightarrow> ('r, 'd, 'w) cstate \<Rightarrow> ('r, 'd, 'w) cstate \<Rightarrow> bool" where
  "attached_to a s s' \<longleftrightarrow>
     component_list s' = component_list s \<and> aggregate_devices s' = aggregate_devices s \<and> dom (matches s') = dom (matches s) \<and>
     ops_of s' = ops_of s \<and> dom (adev_of s') = dom (adev_of s) \<and>
     (\<forall>c. adev_of s' c = adev_of s c \<or> adev_of s' c = Some a)"

lemma attached_to_trans: "attached_to a s s' \<Longrightarrow> attached_to a s' s'' \<Longrightarrow> attached_to a s s''"
  unfolding attached_to_def by metis

lemma find_components_loop_ok:
  assumes "reg_ok s" "sane s" "adevs s a = Some ad" "\<And>i. i \<in> set is \<Longrightarrow> i < length (entries_of s a)"
  shows "\<exists>r s'. find_components_loop env a (ad_match ad) is s = Some (r, s') \<and> reg_ok s' \<and> sane s' \<and>
     adevs s' = adevs s \<and> attached_to a s s' \<and> length (entries_of s' a) = length (entries_of s a) \<and>
     (\<forall>j<length (entries_of s a). mc_component (entries_of s a ! j) \<noteq> 0 \<longrightarrow> mc_component (entries_of s' a ! j) \<noteq> 0) \<and>
     (r = 0 \<longrightarrow> (\<forall>i\<in>set is. mc_component (entries_of s' a ! i) \<noteq> 0))"
  using assms
proof (induction "is" arbitrary: s)
  case Nil
  then show ?case by (simp add: attached_to_def)
next
  case (Cons i js)
  obtain match where m: "matches s (ad_match ad) = Some match" "entries_of s a = mt_entries match"
    using adevs_okD(2) [OF Cons.prems(1,3)] by blast
  have i: "i < length (mt_entries match)" using Cons.prems(4) m by simp
  let ?mc = "mt_entries match ! i"
  show ?case
  proof (cases "mc_component ?mc = 0")
    case False
    obtain r s' where "find_components_loop env a (ad_match ad) js s = Some (r, s')" "reg_ok s'" "sane s'" "adevs s' = adevs s"
      "attached_to a s s'" "length (entries_of s' a) = length (entries_of s a)"
      "\<forall>j<length (entries_of s a). mc_component (entries_of s a ! j) \<noteq> 0 \<longrightarrow> mc_component (entries_of s' a ! j) \<noteq> 0"
      "r = 0 \<longrightarrow> (\<forall>i\<in>set js. mc_component (entries_of s' a ! i) \<noteq> 0)"
      using Cons.IH [OF Cons.prems(1-3)] Cons.prems(4) by auto
    with False i m show ?thesis by (intro exI [of _ r] exI [of _ s']) (auto simp: Let_def)
  next
    case True
    have "set (component_list s) \<subseteq> dom (comps s)" "0 \<notin> set (component_list s)"
      using lists_okD(2,3) [OF Cons.prems(1)] by (auto simp: adev_of_def dom_def)
    then obtain c where c: "find_component env s a ?mc = Some c"
      "c \<noteq> 0 \<Longrightarrow> \<exists>x. comps s c = Some x \<and> (comp_adev x = 0 \<or> comp_adev x = a)"
      using find_component_loop_ok [of "component_list s" s env a ?mc] unfolding find_component_def by blast
    show ?thesis
    proof (cases "c = 0")
      case True
      with \<open>mc_component ?mc = 0\<close> c(1) m(1) Cons.prems(1,2) show ?thesis
        by (intro exI [of _ "- 6"] exI [of _ s]) (simp add: Let_def attached_to_def)
    next
      case False
      with c(2) obtain x where x: "comps s c = Some x" "comp_adev x = 0 \<or> comp_adev x = a" by blast
      let ?mc' = "?mc\<lparr>mc_duplicate := comp_adev x \<noteq> 0, mc_component := c\<rparr>"
      define s1 where "s1 = set_comp c (x\<lparr>comp_adev := a\<rparr>)
        (set_match (ad_match ad) (match\<lparr>mt_entries := (mt_entries match)[i := ?mc']\<rparr>) s)"
      note att = attach_ok [OF Cons.prems(1,3) m(1) i True False x, folded s1_def]
      have sane: "sane s1" using Cons.prems(2) x(1) m(1) by (simp add: s1_def)
      have "component_list s1 = component_list s" "aggregate_devices s1 = aggregate_devices s"
        "dom (matches s1) = dom (matches s)" "ops_of s1 = ops_of s" "adevs s1 = adevs s"
        using x(1) m(1) by (auto simp: s1_def ops_of_def fun_eq_iff)
      then have to: "attached_to a s s1" "adevs s1 = adevs s"
        using x(1) by (auto simp: attached_to_def att(3)) (auto simp: adev_of_def)
      have "j \<in> set js \<Longrightarrow> j < length (entries_of s1 a)" for j using Cons.prems(4) [of j] by (simp add: att(2))
      then obtain r s' where l: "find_components_loop env a (ad_match ad) js s1 = Some (r, s')" "reg_ok s'" "sane s'"
        "adevs s' = adevs s1" "attached_to a s1 s'" "length (entries_of s' a) = length (entries_of s1 a)"
        "\<forall>j<length (entries_of s1 a). mc_component (entries_of s1 a ! j) \<noteq> 0 \<longrightarrow> mc_component (entries_of s' a ! j) \<noteq> 0"
        "r = 0 \<longrightarrow> (\<forall>i\<in>set js. mc_component (entries_of s' a ! i) \<noteq> 0)"
        using Cons.IH [OF att(1) sane] Cons.prems(3) to(2) by auto
      have "find_components_loop env a (ad_match ad) (i # js) s = Some (r, s')"
        using m(1) True c(1) False x(1) l(1) by (simp add: Let_def s1_def)
      moreover have "mc_component (entries_of s' a ! j) \<noteq> 0"
        if "j < length (entries_of s a)" "mc_component (entries_of s a ! j) \<noteq> 0 \<or> j = i" for j
        using that False i m(2) l(7) [rule_format, of j] by (auto simp: att(2) nth_list_update split: if_splits)
      moreover have "length (entries_of s' a) = length (entries_of s a)" using l(6) by (simp add: att(2))
      ultimately show ?thesis
        using l(2-4,8) attached_to_trans [OF to(1) l(5)] to(2) i m(2)
        by (intro exI [of _ r] exI [of _ s']) (simp del: find_components_loop.simps)
    qed
  qed
qed

lemma find_components_ok:
  assumes "reg_ok s" "sane s" "adevs s a = Some ad"
  obtains r s' where "find_components env a s = Some (r, s')" "reg_ok s'" "sane s'" "adevs s' = adevs s"
    "attached_to a s s'" "r = 0 \<Longrightarrow> complete s' a"
proof -
  obtain match where m: "matches s (ad_match ad) = Some match" "entries_of s a = mt_entries match"
    using adevs_okD(2) [OF assms(1,3)] by blast
  obtain r s' where "find_components_loop env a (ad_match ad) [0..<length (entries_of s a)] s = Some (r, s')" "reg_ok s'" "sane s'"
    "adevs s' = adevs s" "attached_to a s s'" "length (entries_of s' a) = length (entries_of s a)"
    "r = 0 \<longrightarrow> (\<forall>i\<in>set [0..<length (entries_of s a)]. mc_component (entries_of s' a ! i) \<noteq> 0)"
    using find_components_loop_ok [OF assms, of "[0..<length (entries_of s a)]" env] by auto
  then show ?thesis
    using m assms(3) by (intro that [of r s']) (auto simp: find_components_def complete_def in_set_conv_nth)
qed

definition same_links :: "('r, 'd, 'w) cstate \<Rightarrow> (addr \<rightharpoonup> component) \<Rightarrow> bool" where
  "same_links s cp \<longleftrightarrow> map_option comp_adev \<circ> cp = adev_of s \<and> map_option comp_ops \<circ> cp = ops_of s"

lemma same_links_comps [simp]: "same_links s (comps s)" "same_links s (flagged b cs (comps s))"
  by (simp_all add: same_links_def adev_of_def ops_of_def fun_eq_iff)

lemma ran_links:
  assumes "ran s s' cp cl" "same_links s cp"
  shows "reg_ok s' \<longleftrightarrow> reg_ok s" "complete s' = complete s" "entries_of s' = entries_of s"
    "adev_of s' = adev_of s" "ops_of s' = ops_of s" "attached_to a s s'"
proof -
  show "reg_ok s' \<longleftrightarrow> reg_ok s" "complete s' = complete s" "entries_of s' = entries_of s"
    using ran_reg_ok [OF assms(1)] assms(2) unfolding same_links_def by blast+
  show "adev_of s' = adev_of s" "ops_of s' = ops_of s"
    using assms by (auto simp: ran_def same_links_def adev_of_def ops_of_def fun_eq_iff)
  then show "attached_to a s s'" using assms(1) by (simp add: attached_to_def ran_def)
qed

lemma set_bound_ok:
  assumes "reg_ok s" "adevs s a = Some ad" "b \<Longrightarrow> complete s a"
  shows "reg_ok (set_adev a (ad\<lparr>ad_bound := b\<rparr>) s)" "attached_to c s (set_adev a (ad\<lparr>ad_bound := b\<rparr>) s)"
    "entries_of (set_adev a (ad\<lparr>ad_bound := b\<rparr>) s) = entries_of s"
    "adev_of (set_adev a (ad\<lparr>ad_bound := b\<rparr>) s) = adev_of s"
proof -
  let ?s = "set_adev a (ad\<lparr>ad_bound := b\<rparr>) s"
  show es: "entries_of ?s = entries_of s" using assms(2) by (auto simp: entries_of_def fun_eq_iff split: option.split)
  show av: "adev_of ?s = adev_of s" by (simp add: adev_of_def fun_eq_iff)
  have cp: "complete ?s = complete s" by (simp add: complete_def es fun_eq_iff)
  have ov: "ops_of ?s = ops_of s" by (simp add: ops_of_def fun_eq_iff)
  show "attached_to c s ?s" using av ov by (simp add: attached_to_def)
  have "lists_ok ?s"
    using assms(1,2) adevs_okD(5) [OF assms(1,2)] unfolding reg_ok_def lists_ok_def av by (auto simp: domIff)
  moreover have "adevs_ok ?s"
  proof -
    have "complete ?s d" if "adevs ?s d = Some dd" "ad_bound dd" for d dd
      unfolding cp using that assms adevs_okD(3) [OF assms(1), of d] by (cases "d = a") auto
    moreover have "ad_match dd \<noteq> 0 \<and> matches ?s (ad_match dd) \<noteq> None" if "adevs ?s d = Some dd" for d dd
      using that assms(2) adevs_okD(1,2) [OF assms(1), of d] by (cases "d = a") auto
    moreover have "d = e" if "adevs ?s d = Some dd" "adevs ?s e = Some ee" "ad_match dd = ad_match ee \<or> ad_parent dd = ad_parent ee"
      for d dd e ee
      using that adevs_okD(4) [OF assms(1)] assms(2) by (fastforce split: if_splits)
    ultimately show ?thesis unfolding adevs_ok_def by blast
  qed
  moreover have "links_ok ?s" using assms(1) unfolding reg_ok_def links_ok_def es av ov by simp
  ultimately show "reg_ok ?s" by (simp add: reg_ok_def)
qed

text \<open>
  What is taken for granted of an aggregate driver: on a consistent registry and for an
  aggregate device that has all its components, binding and unbinding return, and change of the
  registry nothing but the flags of components.
\<close>

locale aggregate_driver = component_driver env for env :: "('r, 'd, 'w) drivers" +
  assumes master_bind_ran: "reg_ok s \<Longrightarrow> sane s \<Longrightarrow> adevs s a = Some ad \<Longrightarrow> complete s a \<Longrightarrow>
      \<exists>r s' cp cl. master_bind env (ad_ops ad) (ad_parent ad) s = Some (r, s') \<and> ran s s' cp cl \<and> same_links s cp"
    and master_unbind_ran: "reg_ok s \<Longrightarrow> sane s \<Longrightarrow> adevs s a = Some ad \<Longrightarrow> complete s a \<Longrightarrow>
      \<exists>s' cp cl. master_unbind env (ad_ops ad) (ad_parent ad) s = Some s' \<and> ran s s' cp cl \<and> same_links s cp"
begin

lemma bring_up_ok:
  assumes "reg_ok s" "sane s" "adevs s a = Some ad" "c = 0 \<or> comps s c \<noteq> None"
  obtains r s' where "try_to_bring_up_aggregate_device env a c s = Some (r, s')" "reg_ok s'" "sane s'" "attached_to a s s'"
    "adevs s' = (if r \<le> 0 then adevs s else (adevs s)(a \<mapsto> ad\<lparr>ad_bound := True\<rparr>))"
proof -
  obtain r1 s1 where s1: "find_components env a s = Some (r1, s1)" "reg_ok s1" "sane s1" "adevs s1 = adevs s"
    "attached_to a s s1" "r1 = 0 \<Longrightarrow> complete s1 a"
    using find_components_ok [OF assms(1-3)] by blast
  have "dom (comps s1) = dom (comps s)" using s1(5) by (simp add: attached_to_def adev_of_def dom_def)
  then obtain mine where mine:
    "(if c = 0 then Some True else do { x \<leftarrow> comps s1 c; Some (comp_adev x = a) }) = Some mine"
    using assms(4) that by (cases "c = 0"; cases "comps s1 c") (auto dest: domI)
  show ?thesis
  proof (cases "r1 \<noteq> 0 \<or> \<not> mine")
    case True
    with s1 mine show ?thesis by (intro that [of 0 s1]) (auto simp: try_to_bring_up_aggregate_device_def)
  next
    case False
    obtain g s2 where s2: "open_group (ad_parent ad) a s1 = Some (g, s2)" "ran s1 s2 (comps s1) []"
      using open_group_ran [OF s1(3)] by blast
    note l2 = ran_links [OF s2(2) same_links_comps(1)]
    show ?thesis
    proof (cases "g = 0")
      case True
      with False s1 s2 mine assms(3) l2 attached_to_trans [OF s1(5) l2(6)] show ?thesis
        by (intro that [of "- 12" s2]) (auto simp: try_to_bring_up_aggregate_device_def ran_fields [OF s2(2)])
    next
      case g: False
      note s3 = log_ran [OF ran_fields(7) [OF s2(2)], of "MasterBind a"]
      note l3 = ran_links [OF s3 same_links_comps(1)]
      have "reg_ok (log (MasterBind a) s2)" "complete (log (MasterBind a) s2) a" "adevs (log (MasterBind a) s2) a = Some ad"
        using l2 l3 s1 False assms(3) by (simp_all add: ran_fields(3) [OF s3] ran_fields(3) [OF s2(2)])
      then obtain ret s4 cp cl where s4: "master_bind env (ad_ops ad) (ad_parent ad) (log (MasterBind a) s2) = Some (ret, s4)"
        "ran (log (MasterBind a) s2) s4 cp cl" "same_links (log (MasterBind a) s2) cp"
        using master_bind_ran ran_fields(7) [OF s3] by blast
      note l4 = ran_links [OF s4(2,3)]
      have s4': "reg_ok s4" "sane s4" "attached_to a s s4" "adevs s4 = adevs s" "complete s4 a"
        using s1 l2 l3 l4 False attached_to_trans [OF s1(5) attached_to_trans [OF l2(6) attached_to_trans [OF l3(6) l4(6)]]]
        by (simp_all add: ran_fields [OF s4(2)] ran_fields(3) [OF s3] ran_fields(3) [OF s2(2)])
      show ?thesis
      proof (cases "ret < 0")
        case True
        obtain s5 where s5: "release_group env (ad_parent ad) 0 s4 = Some s5" "ran s4 s5 (comps s4) []"
          using release_group_ran [OF s4'(2)] by blast
        note l5 = ran_links [OF s5(2) same_links_comps(1)]
        have "try_to_bring_up_aggregate_device env a c s = Some (ret, s5)"
          using False g True s1(1,4) s2(1) s4(1) s5(1) mine assms(3) by (simp add: try_to_bring_up_aggregate_device_def)
        with True show ?thesis using s4' l5 attached_to_trans [OF s4'(3) l5(6)]
          by (intro that [of ret s5]) (simp_all add: ran_fields [OF s5(2)])
      next
        case ok: False
        obtain s5 where s5: "close_group (ad_parent ad) 0 s4 = Some s5" "ran s4 s5 (comps s4) []"
          using close_group_ran [OF s4'(2)] by blast
        note l5 = ran_links [OF s5(2) same_links_comps(1)]
        have a5: "adevs s5 a = Some ad" "reg_ok s5" "complete s5 a" "sane s5"
          using assms(3) s4' l5 by (simp_all add: ran_fields [OF s5(2)])
        note l6 = set_bound_ok [OF a5(2,1,3)]
        have "try_to_bring_up_aggregate_device env a c s = Some (1, set_adev a (ad\<lparr>ad_bound := True\<rparr>) s5)"
          using False g ok s1(1,4) s2(1) s4(1) s5(1) mine assms(3) a5(1) by (simp add: try_to_bring_up_aggregate_device_def)
        then show ?thesis
          using l6(1) [where b = True] a5 s4'(4)
            attached_to_trans [OF s4'(3) attached_to_trans [OF l5(6) l6(2) [where b = True and c = a]]]
          by (intro that [of 1 "set_adev a (ad\<lparr>ad_bound := True\<rparr>) s5"]) (simp_all add: ran_fields [OF s5(2)])
      qed
    qed
  qed
qed

end

section \<open>Registering and unregistering\<close>

text \<open>Bringing up any of the aggregate devices: components get attached to unbound ones only.\<close>

definition brought_up :: "('r, 'd, 'w) cstate \<Rightarrow> ('r, 'd, 'w) cstate \<Rightarrow> bool" where
  "brought_up s s' \<longleftrightarrow>
     component_list s' = component_list s \<and> aggregate_devices s' = aggregate_devices s \<and> dom (matches s') = dom (matches s) \<and>
     ops_of s' = ops_of s \<and> dom (adev_of s') = dom (adev_of s)"

definition to_unbound :: "('r, 'd, 'w) cstate \<Rightarrow> ('r, 'd, 'w) cstate \<Rightarrow> bool" where
  "to_unbound s s' \<longleftrightarrow> adevs s' = adevs s \<and>
     (\<forall>d. adev_of s' d = adev_of s d \<or> (\<exists>a ad. adev_of s' d = Some a \<and> adevs s a = Some ad \<and> \<not> ad_bound ad))"

context aggregate_driver
begin

lemma bring_up_loop_ok:
  assumes "reg_ok s" "sane s" "set as \<subseteq> dom (adevs s)" "comps s c \<noteq> None"
  shows "\<exists>r s'. bring_up_loop env c as s = Some (r, s') \<and> reg_ok s' \<and> sane s' \<and> brought_up s s' \<and> (r \<le> 0 \<longrightarrow> to_unbound s s')"
  using assms
proof (induction as arbitrary: s)
  case Nil
  then show ?case by (simp add: brought_up_def to_unbound_def)
next
  case (Cons a as)
  then obtain ad where ad: "adevs s a = Some ad" by auto
  show ?case
  proof (cases "ad_bound ad")
    case True
    with Cons ad show ?thesis by simp
  next
    case False
    obtain r s1 where s1: "try_to_bring_up_aggregate_device env a c s = Some (r, s1)" "reg_ok s1" "sane s1" "attached_to a s s1"
      "adevs s1 = (if r \<le> 0 then adevs s else (adevs s)(a \<mapsto> ad\<lparr>ad_bound := True\<rparr>))"
      using bring_up_ok [OF Cons.prems(1,2) ad] Cons.prems(4) by blast
    have b1: "brought_up s s1" using s1(4) by (simp add: brought_up_def attached_to_def)
    have u1: "to_unbound s s1" if "r \<le> 0"
      using s1(4,5) ad False that by (auto simp: to_unbound_def attached_to_def)
    show ?thesis
    proof (cases "r = 0")
      case r: False
      with False s1 ad b1 u1 show ?thesis by (intro exI [of _ r] exI [of _ s1]) simp
    next
      case True
      have "set as \<subseteq> dom (adevs s1)" "comps s1 c \<noteq> None"
        using Cons.prems(3,4) s1(5) b1 True by (auto simp: brought_up_def adev_of_def dom_def)
      then obtain r' s' where s': "bring_up_loop env c as s1 = Some (r', s')" "reg_ok s'" "sane s'" "brought_up s1 s'"
        "r' \<le> 0 \<Longrightarrow> to_unbound s1 s'"
        using Cons.IH [OF s1(2,3)] by blast
      have "to_unbound s s'" if "r' \<le> 0"
        using s'(5) [OF that] u1 True unfolding to_unbound_def by (metis order_refl)
      with s' b1 False True s1(1) ad show ?thesis
        by (intro exI [of _ r'] exI [of _ s']) (simp add: brought_up_def)
    qed
  qed
qed

lemma take_down_ok:
  assumes "reg_ok s" "sane s" "adevs s a = Some ad"
  obtains s' where "take_down_aggregate_device env a s = Some s'" "reg_ok s'" "sane s'" "attached_to b s s'"
    "adevs s' = (adevs s)(a \<mapsto> ad\<lparr>ad_bound := False\<rparr>)" "adev_of s' = adev_of s" "entries_of s' = entries_of s"
proof (cases "ad_bound ad")
  case False
  then have "ad\<lparr>ad_bound := False\<rparr> = ad" by (cases ad) simp
  with False assms show ?thesis
    by (intro that [of s]) (auto simp: take_down_aggregate_device_def attached_to_def)
next
  case True
  note s1 = log_ran [OF assms(2), of "MasterUnbind a"]
  note l1 = ran_links [OF s1 same_links_comps(1)]
  have "reg_ok (log (MasterUnbind a) s)" "complete (log (MasterUnbind a) s) a" "adevs (log (MasterUnbind a) s) a = Some ad"
    using l1 assms adevs_okD(3) [OF assms(1,3) True] by (simp_all add: ran_fields(3) [OF s1])
  then obtain s2 cp cl where s2: "master_unbind env (ad_ops ad) (ad_parent ad) (log (MasterUnbind a) s) = Some s2"
    "ran (log (MasterUnbind a) s) s2 cp cl" "same_links (log (MasterUnbind a) s) cp"
    using master_unbind_ran ran_fields(7) [OF s1] by blast
  note l2 = ran_links [OF s2(2,3)]
  obtain s3 where s3: "release_group env (ad_parent ad) a s2 = Some s3" "ran s2 s3 (comps s2) []"
    using release_group_ran [OF ran_fields(7) [OF s2(2)]] by blast
  note l3 = ran_links [OF s3(2) same_links_comps(1)]
  have r3: "reg_ok s3" "adevs s3 = adevs s" "sane s3" "adev_of s3 = adev_of s" "entries_of s3 = entries_of s"
    using assms(1) l1 l2 l3 by (simp_all add: ran_fields [OF s3(2)] ran_fields(3) [OF s2(2)] ran_fields(3) [OF s1])
  then have ad3: "adevs s3 a = Some ad" using assms(3) by simp
  note l4 = set_bound_ok [OF r3(1) ad3, of False]
  have "take_down_aggregate_device env a s = Some (set_adev a (ad\<lparr>ad_bound := False\<rparr>) s3)"
    using True assms(3) s2(1) s3(1) ad3 by (simp add: take_down_aggregate_device_def)
  then show ?thesis
    using l4 r3 ad3 attached_to_trans [OF l1(6) attached_to_trans [OF l2(6) attached_to_trans [OF l3(6) l4(2)]]]
    by (intro that [of "set_adev a (ad\<lparr>ad_bound := False\<rparr>) s3"]) simp_all
qed

end

text \<open>Freeing a component that is detached from its unbound aggregate device.\<close>

lemma sane_subset:
  assumes "sane s" "mem s' = mem s" "devs s' = devs s" "dom (comps s') \<subseteq> dom (comps s)" "dom (adevs s') \<subseteq> dom (adevs s)"
    "dom (matches s') \<subseteq> dom (matches s)"
  shows "sane s'"
proof -
  have "avail s' = avail s" using assms(2) by (simp add: avail_def)
  moreover have "used s' \<subseteq> used s" using assms(3-6) by (auto simp: used_def)
  ultimately show ?thesis using assms(1,3) unfolding sane_def by auto
qed

lemma forget_simps [simp]:
  "mc_component (forget c mc) = (if mc_component mc = c then 0 else mc_component mc)"
  "mc_duplicate (forget c mc) = mc_duplicate mc"
  by (simp_all add: forget_def)

lemma forget_id: "mc_component mc \<noteq> c \<Longrightarrow> forget c mc = mc"
  by (simp add: forget_def)

lemma drop_component_ok:
  assumes ok: "reg_ok s" and x: "comps s c = Some x"
    and fields: "component_list s' = remove1 c (component_list s)" "aggregate_devices s' = aggregate_devices s"
      "adevs s' = adevs s" "comps s' = (comps s)(c := None)"
    and matches: "if comp_adev x = 0 then matches s' = matches s
      else \<exists>ad match. adevs s (comp_adev x) = Some ad \<and> \<not> ad_bound ad \<and> matches s (ad_match ad) = Some match \<and>
        matches s' = (matches s)(ad_match ad \<mapsto> match\<lparr>mt_entries := map (forget c) (mt_entries match)\<rparr>)"
  shows "reg_ok s'"
proof -
  have av: "adev_of s' = (adev_of s)(c := None)" "ops_of s' = (ops_of s)(c := None)"
    using fields(4) by (auto simp: adev_of_def ops_of_def fun_eq_iff)
  have ac: "adev_of s c = Some (comp_adev x)" using x by (simp add: adev_of_def)
  then have c0: "c \<noteq> 0" using lists_okD(3) [OF ok] by (metis option.distinct(1))
  have other: "map (forget c) (entries_of s a) = entries_of s a" if "a \<noteq> comp_adev x" for a
    using links_okD(1) [OF ok, of _ a] ac c0 that by (intro map_idI forget_id) force
  have es0: "entries_of s 0 = []" using lists_okD(6) [OF ok] by (simp add: entries_of_def)
  have es: "entries_of s' a = map (forget c) (entries_of s a)" for a
  proof (cases "comp_adev x = 0")
    case True
    then have "entries_of s' a = entries_of s a" using matches fields(3) entries_of_cong [of s' s] by simp
    then show ?thesis using other [of a] True es0 by (cases "a = 0") simp_all
  next
    case False
    then obtain ad match where m: "adevs s (comp_adev x) = Some ad" "matches s (ad_match ad) = Some match"
      "matches s' = (matches s)(ad_match ad \<mapsto> match\<lparr>mt_entries := map (forget c) (mt_entries match)\<rparr>)"
      using matches by auto
    show ?thesis
    proof (cases "a = comp_adev x")
      case True
      with m fields(3) show ?thesis by (simp add: entries_of_def)
    next
      case False
      then have "entries_of s' a = entries_of s a"
        using m fields(3) adevs_okD(4) [OF ok m(1), of a] by (auto simp: entries_of_def split: option.splits)
      with other [OF False] show ?thesis by simp
    qed
  qed
  have "lists_ok s'" using ok unfolding reg_ok_def lists_ok_def av fields by auto
  moreover have "adevs_ok s'"
  proof -
    have "complete s' a" if "adevs s a = Some ad" "ad_bound ad" for a ad
    proof -
      have "a \<noteq> comp_adev x" using that matches adevs_okD(5) [OF ok that(1)] by (auto split: if_splits)
      with other adevs_okD(3) [OF ok that] show ?thesis by (simp add: complete_def es)
    qed
    moreover have "matches s' m \<noteq> None" if "matches s m \<noteq> None" for m
      using that matches by (auto split: if_splits)
    ultimately show ?thesis
      using ok unfolding reg_ok_def adevs_ok_def fields by blast
  qed
  moreover have "links_ok s'"
    unfolding links_ok_def
  proof (intro conjI allI ballI impI)
    fix a mc assume "mc \<in> set (entries_of s' a)" "mc_component mc \<noteq> 0"
    then obtain mc0 where "mc0 \<in> set (entries_of s a)" "mc = forget c mc0" "mc_component mc0 \<noteq> c" "mc_component mc0 \<noteq> 0"
      by (auto simp: es split: if_splits)
    with links_okD(1) [OF ok, of mc0 a] show "adev_of s' (mc_component mc) = Some a" by (simp add: av forget_id)
  next
    fix d a assume d: "adev_of s' d = Some a \<and> a \<noteq> 0"
    then have d': "adev_of s d = Some a" "a \<noteq> 0" "d \<noteq> c" by (auto simp: av split: if_splits)
    then have "d \<noteq> 0" using lists_okD(3) [OF ok] by (metis option.distinct(1))
    then have "binds d (entries_of s' a) j \<longleftrightarrow> binds d (entries_of s a) j" for j
      using d'(3) by (auto simp: binds_def es)
    with links_okD(2) [OF ok d'(1,2)] show "\<exists>!j. binds d (entries_of s' a) j" by simp
  next
    fix d show "ops_of s' d \<noteq> Some 0" using links_okD(3) [OF ok, of d] by (simp add: av)
  qed
  ultimately show ?thesis by (simp add: reg_ok_def)
qed

text \<open>Freeing an aggregate device detaches its components.\<close>

lemma detach_loop_ok:
  assumes "\<And>c. c \<in> set cs \<Longrightarrow> c \<noteq> 0 \<Longrightarrow> comps s c \<noteq> None"
  shows "\<exists>cp. detach_loop cs s = Some (s\<lparr>comps := cp\<rparr>) \<and>
     (\<forall>c. cp c = (if c \<in> set cs \<and> c \<noteq> 0 then map_option (\<lambda>x. x\<lparr>comp_adev := 0\<rparr>) (comps s c) else comps s c))"
  using assms
proof (induction cs arbitrary: s)
  case Nil
  then show ?case by (intro exI [of _ "comps s"]) simp
next
  case (Cons c cs)
  show ?case
  proof (cases "c = 0")
    case True
    with Cons.IH [of s] Cons.prems show ?thesis by auto
  next
    case False
    with Cons.prems obtain x where x: "comps s c = Some x" by fastforce
    let ?s = "set_comp c (x\<lparr>comp_adev := 0\<rparr>) s"
    obtain cp where cp: "detach_loop cs ?s = Some (?s\<lparr>comps := cp\<rparr>)"
      "\<forall>d. cp d = (if d \<in> set cs \<and> d \<noteq> 0 then map_option (\<lambda>x. x\<lparr>comp_adev := 0\<rparr>) (comps ?s d) else comps ?s d)"
    proof -
      have "comps ?s d \<noteq> None" if "d \<in> set cs" "d \<noteq> 0" for d using Cons.prems [of d] that by auto
      then show ?thesis using Cons.IH [of ?s] that by blast
    qed
    have "?s\<lparr>comps := cp\<rparr> = s\<lparr>comps := cp\<rparr>" by (simp add: set_comp_def)
    then have "detach_loop (c # cs) s = Some (s\<lparr>comps := cp\<rparr>)" using cp(1) False x by simp
    moreover have "cp d = (if d \<in> set (c # cs) \<and> d \<noteq> 0 then map_option (\<lambda>x. x\<lparr>comp_adev := 0\<rparr>) (comps s d) else comps s d)" for d
      using cp(2) [rule_format, of d] x False by auto
    ultimately show ?thesis by blast
  qed
qed

lemma free_aggregate_device_ok:
  assumes ok: "reg_ok s" "sane s" and ad: "adevs s a = Some ad"
  obtains s' where "free_aggregate_device a s = Some s'" "reg_ok s'" "sane s'" "component_list s' = component_list s"
    "dom (comps s') = dom (comps s)" "adevs s' = (adevs s)(a := None)" "matches s' = matches s"
proof -
  obtain match where m: "matches s (ad_match ad) = Some match" "entries_of s a = mt_entries match"
    using adevs_okD(2) [OF ok(1) ad] by blast
  let ?cs = "map mc_component (entries_of s a)" and ?s1 = "s\<lparr>aggregate_devices := remove1 a (aggregate_devices s)\<rparr>"
  have att: "c \<in> set ?cs \<and> c \<noteq> 0 \<longleftrightarrow> adev_of s c = Some a" for c
  proof
    assume "c \<in> set ?cs \<and> c \<noteq> 0"
    then show "adev_of s c = Some a" using links_okD(1) [OF ok(1), of _ a] by auto
  next
    assume c: "adev_of s c = Some a"
    then have "c \<noteq> 0" using lists_okD(3) [OF ok(1)] by (metis option.distinct(1))
    moreover obtain j where "binds c (entries_of s a) j" using links_okD(2) [OF ok(1) c adevs_okD(5) [OF ok(1) ad]] by blast
    ultimately show "c \<in> set ?cs \<and> c \<noteq> 0" by (force simp: binds_def)
  qed
  then have "comps ?s1 c \<noteq> None" if "c \<in> set ?cs" "c \<noteq> 0" for c using that by (auto simp: adev_of_def)
  from detach_loop_ok [of ?cs ?s1, OF this] obtain cp where cp: "detach_loop ?cs ?s1 = Some (?s1\<lparr>comps := cp\<rparr>)"
    "\<And>c. cp c = (if adev_of s c = Some a then map_option (\<lambda>x. x\<lparr>comp_adev := 0\<rparr>) (comps s c) else comps s c)"
    unfolding att by auto
  define s' where "s' = ?s1\<lparr>comps := cp, adevs := (adevs s)(a := None)\<rparr>"
  have free: "free_aggregate_device a s = Some s'"
    using ad m cp(1) adevs_okD(1) [OF ok(1) ad] by (simp add: free_aggregate_device_def s'_def Let_def)
  have dc: "dom cp = dom (comps s)" by (auto simp: cp(2) dom_def)
  have av: "adev_of s' c = (if adev_of s c = Some a then Some 0 else adev_of s c)" "ops_of s' c = ops_of s c" for c
    by (auto simp: s'_def adev_of_def ops_of_def cp(2) option.map_comp comp_def)
  have es: "entries_of s' b = (if b = a then [] else entries_of s b)" for b
    by (auto simp: s'_def entries_of_def split: option.splits)
  have dav: "dom (adev_of s') = dom (adev_of s)" by (auto simp: dom_def av)
  have "lists_ok s'"
    unfolding lists_ok_def dav using lists_okD [OF ok(1)] av(1) [of 0] by (auto simp: s'_def)
  moreover have "adevs_ok s'"
  proof -
    have old: "adevs s b = Some bd" "b \<noteq> a" if "adevs s' b = Some bd" for b bd
      using that by (auto simp: s'_def split: if_splits)
    have m: "matches s' = matches s" by (simp add: s'_def)
    show ?thesis
    proof (rule adevs_okI)
      fix b bd assume b: "adevs s' b = Some bd"
      show "ad_match bd \<noteq> 0" "matches s' (ad_match bd) \<noteq> None" using adevs_okD(1,2) [OF ok(1) old(1) [OF b]] by (auto simp: m)
      show "complete s' b" if "ad_bound bd"
        using adevs_okD(3) [OF ok(1) old(1) [OF b] that] old(2) [OF b] by (simp add: complete_def es)
      show "b = c" if "adevs s' c = Some cd" "ad_match bd = ad_match cd \<or> ad_parent bd = ad_parent cd" for c cd
        using adevs_okD(4) [OF ok(1) old(1) [OF that(1)] old(1) [OF b]] that(2) by simp
    qed
  qed
  moreover have "links_ok s'"
    unfolding links_ok_def
  proof (intro conjI allI ballI impI)
    fix b mc assume "mc \<in> set (entries_of s' b)" "mc_component mc \<noteq> 0"
    with links_okD(1) [OF ok(1), of mc b] show "adev_of s' (mc_component mc) = Some b" by (auto simp: es av split: if_splits)
  next
    fix d b assume "adev_of s' d = Some b \<and> b \<noteq> 0"
    then have "adev_of s d = Some b" "b \<noteq> 0" "b \<noteq> a" by (auto simp: av split: if_splits)
    with links_okD(2) [OF ok(1), of d b] show "\<exists>!j. binds d (entries_of s' b) j" by (simp add: es)
  next
    fix d show "ops_of s' d \<noteq> Some 0" unfolding av by (rule links_okD(3) [OF ok(1)])
  qed
  moreover have "sane s'" using dc by (intro sane_subset [OF ok(2)]) (auto simp: s'_def)
  ultimately show ?thesis using free dc by (intro that [of s']) (simp_all add: reg_ok_def, simp_all add: s'_def)
qed

lemma mem_links:
  assumes "sane (s\<lparr>mem := m\<rparr>)"
  shows "reg_ok (s\<lparr>mem := m\<rparr>) \<longleftrightarrow> reg_ok s" "entries_of (s\<lparr>mem := m\<rparr>) = entries_of s" "adev_of (s\<lparr>mem := m\<rparr>) = adev_of s"
proof -
  have "ran s (s\<lparr>mem := m\<rparr>) (comps s) []" using assms by (simp add: ran_def)
  from ran_links [OF this] show "reg_ok (s\<lparr>mem := m\<rparr>) \<longleftrightarrow> reg_ok s" "entries_of (s\<lparr>mem := m\<rparr>) = entries_of s"
    "adev_of (s\<lparr>mem := m\<rparr>) = adev_of s" by simp_all
qed

lemma dom_adev_of: "dom (adev_of s) = dom (comps s)"
  by (auto simp: adev_of_def)

lemma new_component_ok:
  assumes "reg_ok s" "sane s" "c \<notin> used s" "c \<notin> set (avail s)" "c \<noteq> 0" "comp_ops x \<noteq> 0" "comp_adev x = 0"
  defines "s' \<equiv> set_comp c x (s\<lparr>component_list := component_list s @ [c]\<rparr>)"
  shows "reg_ok s'" "sane s'" "adev_of s' = (adev_of s)(c \<mapsto> 0)"
proof -
  have c: "comps s c = None" using assms(3) by (auto simp: used_def)
  show av: "adev_of s' = (adev_of s)(c \<mapsto> 0)" using assms(7) by (auto simp: s'_def adev_of_def fun_eq_iff)
  have ov: "ops_of s' = (ops_of s)(c \<mapsto> comp_ops x)" by (auto simp: s'_def ops_of_def fun_eq_iff)
  have es: "entries_of s' = entries_of s" by (intro entries_of_cong) (simp_all add: s'_def)
  have "c \<notin> set (component_list s)" using lists_okD(2) [OF assms(1)] c by (auto simp: adev_of_def)
  then have "lists_ok s'"
    using lists_okD [OF assms(1)] assms(5) unfolding lists_ok_def av by (auto simp: s'_def)
  moreover have "adevs_ok s'"
  proof -
    have eqs: "adevs s' = adevs s" "matches s' = matches s" by (simp_all add: s'_def)
    have "complete s' = complete s" by (rule ext) (simp only: complete_def es)
    with eqs have "adevs_ok s' \<longleftrightarrow> adevs_ok s" by (simp only: adevs_ok_def)
    then show ?thesis using assms(1) by (simp add: reg_ok_def)
  qed
  moreover have "links_ok s'"
    unfolding links_ok_def es
  proof (intro conjI allI ballI impI)
    fix a mc assume "mc \<in> set (entries_of s a)" "mc_component mc \<noteq> 0"
    from links_okD(1) [OF assms(1) this] c show "adev_of s' (mc_component mc) = Some a" by (auto simp: av adev_of_def)
  next
    fix d a assume "adev_of s' d = Some a \<and> a \<noteq> 0"
    then show "\<exists>!j. binds d (entries_of s a) j" using links_okD(2) [OF assms(1), of d a] by (auto simp: av split: if_splits)
  next
    fix d show "ops_of s' d \<noteq> Some 0" using links_okD(3) [OF assms(1), of d] assms(6) by (simp add: ov)
  qed
  ultimately show "reg_ok s'" by (simp add: reg_ok_def)
  have "avail s' = avail s" "used s' = insert c (used s)" "devs s' = devs s"
    by (auto simp: s'_def avail_def used_def set_comp_def)
  then show "sane s'" using assms(2,4) by (auto simp: sane_def)
qed

lemma new_aggregate_ok:
  fixes ops :: addr
  assumes "reg_ok s" "sane s" "a \<notin> used s" "a \<notin> set (avail s)" "a \<noteq> 0" "mp \<noteq> 0" "matches s mp = Some match"
    "\<And>mc. mc \<in> set (mt_entries match) \<Longrightarrow> mc_component mc = 0"
    "\<And>b bd. adevs s b = Some bd \<Longrightarrow> ad_match bd \<noteq> mp \<and> ad_parent bd \<noteq> parent"
  defines "s' \<equiv> set_adev a \<lparr>ad_bound = False, ad_ops = ops, ad_parent = parent, ad_match = mp\<rparr>
    (s\<lparr>aggregate_devices := a # aggregate_devices s\<rparr>)"
  shows "reg_ok s'" "sane s'"
proof -
  have a: "adevs s a = None" using assms(3) by (auto simp: used_def)
  have av: "adev_of s' = adev_of s" "ops_of s' = ops_of s" by (auto simp: s'_def adev_of_def ops_of_def fun_eq_iff)
  have es: "entries_of s' b = (if b = a then mt_entries match else entries_of s b)" for b
    using assms(7) by (simp add: s'_def entries_of_def split: option.split)
  have "lists_ok s'"
    using lists_okD [OF assms(1)] assms(5) a unfolding lists_ok_def av by (auto simp: s'_def)
  moreover have "adevs_ok s'"
  proof (rule adevs_okI)
    fix b bd assume b: "adevs s' b = Some bd"
    then have "b = a \<and> bd = \<lparr>ad_bound = False, ad_ops = ops, ad_parent = parent, ad_match = mp\<rparr> \<or> b \<noteq> a \<and> adevs s b = Some bd"
      by (auto simp: s'_def split: if_splits)
    note bcases = this
    show "ad_match bd \<noteq> 0" "matches s' (ad_match bd) \<noteq> None"
      using bcases assms(6,7) adevs_okD(1,2) [OF assms(1), of b bd] by (auto simp: s'_def)
    show "complete s' b" if "ad_bound bd"
      using bcases that adevs_okD(3) [OF assms(1), of b bd] by (auto simp: complete_def es)
    show "b = c" if "adevs s' c = Some cd" "ad_match bd = ad_match cd \<or> ad_parent bd = ad_parent cd" for c cd
    proof -
      from that(1) have "c = a \<and> cd = \<lparr>ad_bound = False, ad_ops = ops, ad_parent = parent, ad_match = mp\<rparr> \<or> c \<noteq> a \<and> adevs s c = Some cd"
        by (auto simp: s'_def split: if_splits)
      with bcases that(2) assms(9) [of b bd] assms(9) [of c cd] adevs_okD(4) [OF assms(1), of c cd b bd] show ?thesis by auto
    qed
  qed
  moreover have "links_ok s'"
    unfolding links_ok_def av
  proof (intro conjI allI ballI impI)
    fix b mc assume "mc \<in> set (entries_of s' b)" "mc_component mc \<noteq> 0"
    then show "adev_of s (mc_component mc) = Some b"
      using assms(8) links_okD(1) [OF assms(1), of mc b] by (auto simp: es split: if_splits)
  next
    fix d b assume d: "adev_of s d = Some b \<and> b \<noteq> 0"
    then have u: "\<exists>!j. binds d (entries_of s b) j" using links_okD(2) [OF assms(1), of d b] by blast
    moreover have "entries_of s a = []" using a by (simp add: entries_of_def)
    ultimately have "b \<noteq> a" by (auto simp: binds_def)
    with u show "\<exists>!j. binds d (entries_of s' b) j" by (simp add: es)
  next
    fix d show "ops_of s d \<noteq> Some 0" by (rule links_okD(3) [OF assms(1)])
  qed
  ultimately show "reg_ok s'" by (simp add: reg_ok_def)
  have "avail s' = avail s" "used s' = insert a (used s)" "devs s' = devs s"
    by (auto simp: s'_def avail_def used_def set_adev_def)
  then show "sane s'" using assms(2,4) by (auto simp: sane_def)
qed

text \<open>Between two operations the registered components are exactly the allocated ones.\<close>

definition at_rest :: "('r, 'd, 'w) cstate \<Rightarrow> bool" where
  "at_rest s \<longleftrightarrow> reg_ok s \<and> sane s \<and> set (component_list s) = dom (comps s)"

lemma at_rest_mem: "at_rest s \<Longrightarrow> sane (s\<lparr>mem := m\<rparr>) \<Longrightarrow> at_rest (s\<lparr>mem := m\<rparr>)"
  by (simp add: at_rest_def mem_links)

lemma unlink_component_ok:
  assumes "reg_ok s" "sane s"
  shows "reg_ok (s\<lparr>component_list := remove1 c (component_list s)\<rparr>)" "sane (s\<lparr>component_list := remove1 c (component_list s)\<rparr>)"
proof -
  let ?s = "s\<lparr>component_list := remove1 c (component_list s)\<rparr>"
  have eqs: "adevs ?s = adevs s" "matches ?s = matches s" "adev_of ?s = adev_of s" "ops_of ?s = ops_of s"
    by (simp_all add: adev_of_def ops_of_def fun_eq_iff)
  have es: "entries_of ?s = entries_of s" by (intro entries_of_cong) simp_all
  then have cs: "complete ?s = complete s" by (intro ext) (simp only: complete_def)
  have "lists_ok ?s" using lists_okD [OF assms(1)] by (auto simp: lists_ok_def eqs dest: notin_set_remove1)
  moreover have "adevs_ok ?s \<longleftrightarrow> adevs_ok s" "links_ok ?s \<longleftrightarrow> links_ok s"
    by (simp_all only: adevs_ok_def links_ok_def eqs es cs)
  ultimately show "reg_ok ?s" using assms(1) by (simp add: reg_ok_def)
  show "sane ?s" by (rule sane_subset [OF assms(2)]) simp_all
qed

lemma component_lookup_ok:
  assumes "set cs \<subseteq> dom (comps s)" "0 \<notin> set cs"
  shows "\<exists>c. component_lookup s dev ops cs = Some c \<and>
     (c = 0 \<longrightarrow> (\<forall>d\<in>set cs. \<forall>x. comps s d = Some x \<longrightarrow> \<not> (comp_dev x = dev \<and> comp_ops x = ops))) \<and>
     (c \<noteq> 0 \<longrightarrow> c \<in> set cs \<and> (\<exists>x. comps s c = Some x \<and> comp_dev x = dev \<and> comp_ops x = ops))"
  using assms
proof (induction cs)
  case (Cons d cs)
  then obtain x where "comps s d = Some x" by auto
  with Cons show ?case by (cases "comp_dev x = dev \<and> comp_ops x = ops") auto
qed simp

lemma remove_component_ok:
  assumes "reg_ok s" "adevs s a = Some ad"
  obtains match where "matches s (ad_match ad) = Some match"
    "remove_component a c s = Some (set_match (ad_match ad) (match\<lparr>mt_entries := map (forget c) (mt_entries match)\<rparr>) s)"
  using adevs_okD(2) [OF assms] assms(2) by (auto simp: remove_component_def)

lemma attached_adev:
  assumes "reg_ok s" "adev_of s c = Some a" "a \<noteq> 0"
  obtains ad where "adevs s a = Some ad"
  using links_okD(2) [OF assms] that by (cases "adevs s a") (auto simp: binds_def entries_of_def)

context aggregate_driver
begin

lemma component_add_ok:
  assumes "at_rest s" "ops \<noteq> 0"
  obtains r s' where "raw_component_add env dev ops sub s = Some (r, s')" "r \<le> 0" "at_rest s'"
proof -
  have ok: "reg_ok s" "sane s" "set (component_list s) = dom (comps s)" using assms(1) by (simp_all add: at_rest_def)
  show ?thesis
  proof (cases rule: kalloc_sane [OF ok(2)])
    case (1 m)
    with at_rest_mem [OF assms(1) 1(2)] show ?thesis
      by (intro that [of "- 12" "s\<lparr>mem := m\<rparr>"]) (simp_all add: raw_component_add_def)
  next
    case (2 c m)
    let ?t = "s\<lparr>mem := m\<rparr>" and ?x = "\<lparr>comp_adev = 0, comp_bound = False, comp_ops = ops, subcomponent = sub, comp_dev = dev\<rparr>"
    define s2 where "s2 = set_comp c ?x (?t\<lparr>component_list := component_list ?t @ [c]\<rparr>)"
    have t: "reg_ok ?t" "c \<notin> used ?t" using ok(1) mem_links(1) [OF 2(2)] 2(4) by (simp_all add: used_def)
    have s2: "reg_ok s2" "sane s2" "adev_of s2 = (adev_of s)(c \<mapsto> 0)"
      using new_component_ok [OF t(1) 2(2) t(2) 2(5,3), of ?x] assms(2) mem_links(3) [OF 2(2)] by (simp_all add: s2_def)
    have l2: "component_list s2 = component_list s @ [c]" "comps s2 = (comps s)(c \<mapsto> ?x)" "comps s2 c \<noteq> None"
      by (simp_all add: s2_def)
    obtain r s3 where s3: "try_to_bring_up_masters env c s2 = Some (r, s3)" "reg_ok s3" "sane s3" "brought_up s2 s3"
      "r \<le> 0 \<Longrightarrow> to_unbound s2 s3"
      using bring_up_loop_ok [OF s2(1,2) _ l2(3), of "aggregate_devices s2"] lists_okD(5) [OF s2(1)]
      unfolding try_to_bring_up_masters_def by auto
    have d3: "component_list s3 = component_list s @ [c]" "dom (comps s3) = insert c (dom (comps s))"
      using s3(4) l2 dom_adev_of [of s3] dom_adev_of [of s2] by (simp_all add: brought_up_def)
    have add: "raw_component_add env dev ops sub s = do {
        (ret, s3) \<leftarrow> try_to_bring_up_masters env c s2;
        if ret < 0 then do {
          x \<leftarrow> comps s3 c;
          s4 \<leftarrow> (if comp_adev x \<noteq> 0 then remove_component (comp_adev x) c s3 else Some s3);
          Some (ret, s4\<lparr>component_list := remove1 c (component_list s4), comps := (comps s4)(c := None)\<rparr>)
        } else Some (0, s3) }"
      by (simp add: raw_component_add_def 2(1) s2_def Let_def)
    show ?thesis
    proof (cases "r < 0")
      case False
      then show ?thesis using add s3 d3 ok(3) by (intro that [of 0 s3]) (simp_all add: at_rest_def)
    next
      case True
      obtain x where x: "comps s3 c = Some x" using d3(2) by blast
      have cl: "c \<notin> set (component_list s)" using lists_okD(1) [OF s3(2)] d3(1) by simp
      have "adev_of s3 c = Some (comp_adev x)" using x by (simp add: adev_of_def)
      then have ub: "comp_adev x = 0 \<or> (\<exists>ad. adevs s3 (comp_adev x) = Some ad \<and> \<not> ad_bound ad)"
        using s3(5) True s2(3) by (auto simp: to_unbound_def dest!: spec [where x = c])
      obtain s4 where s4: "(if comp_adev x \<noteq> 0 then remove_component (comp_adev x) c s3 else Some s3) = Some s4"
        "component_list s4 = component_list s3" "aggregate_devices s4 = aggregate_devices s3" "adevs s4 = adevs s3"
        "comps s4 = comps s3" "dom (matches s4) = dom (matches s3)" "mem s4 = mem s3" "devs s4 = devs s3"
        "if comp_adev x = 0 then matches s4 = matches s3
         else \<exists>ad match. adevs s3 (comp_adev x) = Some ad \<and> \<not> ad_bound ad \<and> matches s3 (ad_match ad) = Some match \<and>
           matches s4 = (matches s3)(ad_match ad \<mapsto> match\<lparr>mt_entries := map (forget c) (mt_entries match)\<rparr>)"
      proof (cases "comp_adev x = 0")
        case True
        then show ?thesis by (intro that [of s3]) simp_all
      next
        case False
        with ub obtain ad where ad: "adevs s3 (comp_adev x) = Some ad" "\<not> ad_bound ad" by blast
        obtain match where "matches s3 (ad_match ad) = Some match"
          "remove_component (comp_adev x) c s3 =
             Some (set_match (ad_match ad) (match\<lparr>mt_entries := map (forget c) (mt_entries match)\<rparr>) s3)"
          by (rule remove_component_ok [OF s3(2) ad(1)])
        with ad False show ?thesis
          by (intro that [of "set_match (ad_match ad) (match\<lparr>mt_entries := map (forget c) (mt_entries match)\<rparr>) s3"])
            (auto simp: set_match_def)
      qed
      let ?s5 = "s4\<lparr>component_list := remove1 c (component_list s4), comps := (comps s4)(c := None)\<rparr>"
      have "reg_ok ?s5" using s4 by (intro drop_component_ok [OF s3(2) x]) (auto split: if_splits)
      moreover have "sane ?s5" using s4 by (intro sane_subset [OF s3(3)]) auto
      moreover have "set (component_list ?s5) = dom (comps ?s5)"
        using s4 d3 ok(3) cl by (auto simp: remove1_append)
      ultimately show ?thesis using add s3(1) x s4(1) True by (intro that [of r ?s5]) (simp_all add: at_rest_def)
    qed
  qed
qed

end

text \<open>No aggregate device uses a match array.\<close>

definition unowned :: "('r, 'd, 'w) cstate \<Rightarrow> addr \<Rightarrow> bool" where
  "unowned s mp \<longleftrightarrow> (\<forall>a\<in>set (aggregate_devices s). \<forall>ad. adevs s a = Some ad \<longrightarrow> ad_match ad \<noteq> mp)"

lemma set_unowned_match:
  assumes "reg_ok s" "unowned s mp" "matches s' = (matches s)(mp := m)" "component_list s' = component_list s"
    "aggregate_devices s' = aggregate_devices s" "adevs s' = adevs s" "comps s' = comps s"
  shows "reg_ok s'" "entries_of s' = entries_of s"
proof -
  have ne: "ad_match ad \<noteq> mp" if "adevs s a = Some ad" for a ad
    using assms(1,2) that lists_okD(5) [OF assms(1)] by (auto simp: unowned_def)
  show es: "entries_of s' = entries_of s"
    using assms(3,6) ne by (auto simp: entries_of_def fun_eq_iff split: option.split)
  have eqs: "adev_of s' = adev_of s" "ops_of s' = ops_of s" using assms(7) by (simp_all add: adev_of_def ops_of_def fun_eq_iff)
  have cs: "complete s' = complete s" by (rule ext) (simp only: complete_def es)
  have "lists_ok s' \<longleftrightarrow> lists_ok s" "links_ok s' \<longleftrightarrow> links_ok s"
    by (simp_all only: lists_ok_def links_ok_def eqs es assms(4-6))
  moreover have "adevs_ok s'"
  proof (rule adevs_okI)
    fix a ad assume "adevs s' a = Some ad"
    then have a: "adevs s a = Some ad" by (simp only: assms(6))
    show "ad_match ad \<noteq> 0" "matches s' (ad_match ad) \<noteq> None" using adevs_okD(1,2) [OF assms(1) a] ne [OF a] by (auto simp: assms(3))
    show "complete s' a" if "ad_bound ad" unfolding cs by (rule adevs_okD(3) [OF assms(1) a that])
    show "a = b" if "adevs s' b = Some bd" "ad_match ad = ad_match bd \<or> ad_parent ad = ad_parent bd" for b bd
      using adevs_okD(4) [OF assms(1) _ a, of b bd] that by (simp only: assms(6))
  qed
  ultimately show "reg_ok s'" using assms(1) by (simp add: reg_ok_def)
qed

context aggregate_driver
begin

lemma component_del_ok:
  assumes "at_rest s"
  obtains "component_lookup s dev ops (component_list s) = Some 0" "component_del env dev ops s = Some s"
  | c x s' where "component_lookup s dev ops (component_list s) = Some c" "c \<noteq> 0" "comps s c = Some x"
      "component_del env dev ops s = Some s'" "at_rest s'" "comps s' c = None"
      "\<And>ad. adevs s (comp_adev x) = Some ad \<Longrightarrow> \<exists>ad'. adevs s' (comp_adev x) = Some ad' \<and> \<not> ad_bound ad'"
proof -
  have ok: "reg_ok s" "sane s" "set (component_list s) = dom (comps s)" using assms by (simp_all add: at_rest_def)
  have "0 \<notin> set (component_list s)" using lists_okD(2,3) [OF ok(1)] by auto
  then obtain c where c: "component_lookup s dev ops (component_list s) = Some c" "c \<noteq> 0 \<Longrightarrow> c \<in> dom (comps s)"
    using component_lookup_ok [of "component_list s" s dev ops] ok(3) by blast
  show ?thesis
  proof (cases "c = 0")
    case True
    with c(1) show ?thesis by (intro that(1)) (simp_all add: component_del_def)
  next
    case False
    with c(2) obtain x where x: "comps s c = Some x" by blast
    let ?s1 = "s\<lparr>component_list := remove1 c (component_list s)\<rparr>"
    note s1 = unlink_component_ok [OF ok(1,2), of c]
    have nc: "c \<notin> set (remove1 c (component_list s))" "set (remove1 c (component_list s)) = dom (comps s) - {c}"
      using lists_okD(1) [OF ok(1)] ok(3) by auto
    have del: "component_del env dev ops s = do {
        s2 \<leftarrow> (if comp_adev x = 0 then Some ?s1
              else do {
                s2 \<leftarrow> take_down_aggregate_device env (comp_adev x) ?s1;
                x' \<leftarrow> comps s2 c;
                remove_component (comp_adev x') c s2 });
        Some (s2\<lparr>comps := (comps s2)(c := None)\<rparr>) }"
      using c(1) False x by (simp add: component_del_def Let_def)
    show ?thesis
    proof (cases "comp_adev x = 0")
      case True
      let ?s' = "?s1\<lparr>comps := (comps ?s1)(c := None)\<rparr>"
      have "reg_ok ?s'" using True x nc(1) by (intro drop_component_ok [OF s1(1)]) (auto simp: remove1_idem)
      moreover have "sane ?s'" by (rule sane_subset [OF s1(2)]) auto
      moreover have "adevs s (comp_adev x) = None" using True lists_okD(6) [OF ok(1)] by simp
      ultimately show ?thesis using True del nc(2)
        by (intro that(2) [OF c(1) False x, of ?s']) (auto simp: at_rest_def)
    next
      case att: False
      have av: "adev_of ?s1 c = Some (comp_adev x)" using x by (simp add: adev_of_def)
      obtain ad where ad: "adevs ?s1 (comp_adev x) = Some ad" using attached_adev [OF s1(1) av att] by blast
      obtain s2 where s2: "take_down_aggregate_device env (comp_adev x) ?s1 = Some s2" "reg_ok s2" "sane s2" "attached_to 0 ?s1 s2"
        "adevs s2 = (adevs ?s1)(comp_adev x \<mapsto> ad\<lparr>ad_bound := False\<rparr>)" "adev_of s2 = adev_of ?s1"
        using take_down_ok [OF s1 ad, of 0] by blast
      have "adev_of s2 c = Some (comp_adev x)" using s2(6) av by simp
      then obtain x' where x': "comps s2 c = Some x'" "comp_adev x' = comp_adev x" by (auto simp: adev_of_def)
      have ad2: "adevs s2 (comp_adev x') = Some (ad\<lparr>ad_bound := False\<rparr>)" using s2(5) x'(2) by simp
      obtain match where m: "matches s2 (ad_match ad) = Some match"
        "remove_component (comp_adev x') c s2 =
           Some (set_match (ad_match ad) (match\<lparr>mt_entries := map (forget c) (mt_entries match)\<rparr>) s2)"
        using remove_component_ok [OF s2(2) ad2, of c] by auto
      let ?s3 = "set_match (ad_match ad) (match\<lparr>mt_entries := map (forget c) (mt_entries match)\<rparr>) s2"
      let ?s' = "?s3\<lparr>comps := (comps ?s3)(c := None)\<rparr>"
      have l2: "component_list s2 = remove1 c (component_list s)" using s2(4) by (simp add: attached_to_def)
      have d2: "dom (comps s2) = dom (comps s)" using s2(6) dom_adev_of [of s2] dom_adev_of [of ?s1] by simp
      have "reg_ok ?s'"
        using att ad2 m(1) x' nc(1) l2 by (intro drop_component_ok [OF s2(2) x'(1)]) (auto simp: remove1_idem)
      moreover have "sane ?s'" using m(1) by (intro sane_subset [OF s2(3)]) (auto simp: set_match_def)
      moreover have "component_del env dev ops s = Some ?s'" using del att s2(1) x'(1) m(2) by simp
      ultimately show ?thesis using l2 d2 nc(2) ad2 x'(2)
        by (intro that(2) [OF c(1) False x, of ?s']) (auto simp: at_rest_def)
    qed
  qed
qed

lemma component_master_del_ok:
  assumes "at_rest s"
  obtains "aggregate_find s parent ops = Some 0" "component_master_del env parent ops s = Some s"
  | a s' where "aggregate_find s parent ops = Some a" "a \<noteq> 0" "component_master_del env parent ops s = Some s'" "at_rest s'"
      "adevs s' = (adevs s)(a := None)" "component_list s' = component_list s"
proof -
  have ok: "reg_ok s" "sane s" "set (component_list s) = dom (comps s)" using assms by (simp_all add: at_rest_def)
  show ?thesis
  proof (cases rule: aggregate_find_ok [OF ok(1), of parent ops])
    case 1
    then show ?thesis by (intro that(1)) (simp_all add: component_master_del_def)
  next
    case (2 a ad)
    obtain s1 where s1: "take_down_aggregate_device env a s = Some s1" "reg_ok s1" "sane s1" "attached_to 0 s s1"
      "adevs s1 = (adevs s)(a \<mapsto> ad\<lparr>ad_bound := False\<rparr>)" "adev_of s1 = adev_of s"
      using take_down_ok [OF ok(1,2) 2(3), of 0] by blast
    have ad1: "adevs s1 a = Some (ad\<lparr>ad_bound := False\<rparr>)" using s1(5) by simp
    obtain s' where s': "free_aggregate_device a s1 = Some s'" "reg_ok s'" "sane s'" "component_list s' = component_list s1"
      "dom (comps s') = dom (comps s1)" "adevs s' = (adevs s1)(a := None)"
      by (rule free_aggregate_device_ok [OF s1(2,3) ad1])
    have dl: "dom (comps s1) = dom (comps s)" "component_list s1 = component_list s"
      using s1(4,6) dom_adev_of [of s1] dom_adev_of [of s] by (simp_all add: attached_to_def)
    have "component_master_del env parent ops s = Some s'" using 2(1,2) s1(1) s'(1) by (simp add: component_master_del_def)
    moreover have "at_rest s'" using s' dl ok(3) by (simp add: at_rest_def)
    moreover have "adevs s' = (adevs s)(a := None)" using s'(6) s1(5) by simp
    ultimately show ?thesis using 2(1,2) s'(4) dl(2) by (intro that(2) [of a s']) simp_all
  qed
qed

end

lemma match_realloc_ok:
  assumes "at_rest s" "matches s mp = Some match" "unowned s mp" "length (mt_entries match) \<le> num"
  obtains r s' match' where "component_match_realloc mp num s = Some (r, s')" "r = 0 \<or> r = - 12" "at_rest s'" "unowned s' mp"
    "adevs s' = adevs s" "matches s' = (matches s)(mp \<mapsto> match')" "mt_entries match' = mt_entries match"
proof (cases "mt_alloc match = num")
  case True
  with assms show ?thesis by (intro that [of 0 s match]) (auto simp: component_match_realloc_def)
next
  case False
  have ok: "reg_ok s" "sane s" using assms(1) by (simp_all add: at_rest_def)
  show ?thesis
  proof (cases rule: kalloc_sane [OF ok(2)])
    case (1 m)
    with at_rest_mem [OF assms(1) 1(2)] False assms show ?thesis
      by (intro that [of "- 12" "s\<lparr>mem := m\<rparr>" match]) (auto simp: component_match_realloc_def unowned_def)
  next
    case (2 p m)
    let ?m = "match\<lparr>mt_alloc := num, mt_entries := take num (mt_entries match)\<rparr>"
    let ?s = "set_match mp ?m (s\<lparr>mem := m\<rparr>)"
    have "reg_ok ?s" by (rule set_unowned_match(1) [OF ok(1) assms(3), of _ "Some ?m"]) simp_all
    moreover have "sane ?s" using 2(2) assms(2) by simp
    ultimately have "at_rest ?s" using assms(1) by (simp add: at_rest_def)
    with 2(1) False assms show ?thesis
      by (intro that [of 0 ?s ?m]) (auto simp: component_match_realloc_def unowned_def)
  qed
qed

lemma set_match_fresh_sane: "sane s \<Longrightarrow> p \<notin> set (avail s) \<Longrightarrow> sane (set_match p x s)"
proof -
  assume s: "sane s" "p \<notin> set (avail s)"
  have "avail (set_match p x s) = avail s" "used (set_match p x s) = insert p (used s)" "devs (set_match p x s) = devs s"
    by (auto simp: avail_def used_def set_match_def)
  with s show ?thesis by (auto simp: sane_def)
qed

lemma unowned_fresh:
  assumes "reg_ok s" "matches s p = None"
  shows "unowned s p"
  using adevs_okD(2) [OF assms(1)] assms(2) by (fastforce simp: unowned_def)

lemma new_match_ok:
  assumes "at_rest s" "kalloc s = (Some p, s\<lparr>mem := m\<rparr>)" "sane (s\<lparr>mem := m\<rparr>)" "p \<notin> used s" "p \<notin> set (avail (s\<lparr>mem := m\<rparr>))"
  obtains dev s1 where "devres_add (devs (s\<lparr>mem := m\<rparr>) parent) \<lparr>dr_ptr = p, dr_release = rel, dr_data = dat\<rparr> = Some dev"
    "s1 = set_match p \<lparr>mt_alloc = 0, mt_entries = []\<rparr> (set_dev parent dev (s\<lparr>mem := m\<rparr>))" "at_rest s1" "unowned s1 p"
    "matches s1 p = Some \<lparr>mt_alloc = 0, mt_entries = []\<rparr>"
proof -
  let ?t = "s\<lparr>mem := m\<rparr>"
  have "p \<notin> used ?t" using assms(4) by (simp add: used_def)
  from devres_add_sane [OF assms(3) this assms(5), of parent rel dat] obtain dev where
    dev: "devres_add (devs ?t parent) \<lparr>dr_ptr = p, dr_release = rel, dr_data = dat\<rparr> = Some dev" "sane (set_dev parent dev ?t)"
    by blast
  let ?s1 = "set_match p \<lparr>mt_alloc = 0, mt_entries = []\<rparr> (set_dev parent dev ?t)"
  have ok: "reg_ok s" "matches s p = None" using assms(1,4) by (auto simp: at_rest_def used_def)
  note un = unowned_fresh [OF ok]
  have "reg_ok ?s1" by (rule set_unowned_match(1) [OF ok(1) un, of _ "Some \<lparr>mt_alloc = 0, mt_entries = []\<rparr>"]) simp_all
  moreover have "avail (set_dev parent dev ?t) = avail ?t" by (simp add: avail_def)
  then have "sane ?s1" using dev(2) assms(5) by (intro set_match_fresh_sane) simp_all
  ultimately have "at_rest ?s1" using assms(1) by (simp add: at_rest_def)
  moreover have "unowned ?s1 p" using un by (simp add: unowned_def)
  ultimately show ?thesis using dev(1) by (intro that [of dev ?s1]) simp_all
qed

definition ptr_ok :: "('r, 'd, 'w) cstate \<Rightarrow> matchptr \<Rightarrow> bool" where
  "ptr_ok s ptr \<longleftrightarrow> (case ptr of ERR_PTR e \<Rightarrow> True | Match m \<Rightarrow> m = 0 \<or> matches s m \<noteq> None \<and> unowned s m)"

lemma append_match_ok:
  assumes "at_rest s" "matches s mp = Some match" "unowned s mp"
  shows "\<exists>ptr' s'. do {
      (ret, s2) \<leftarrow> (if length (mt_entries match) = mt_alloc match
        then component_match_realloc mp (mt_alloc match + 16) s else Some (0, s));
      if ret \<noteq> 0 then Some (ERR_PTR ret, s2)
      else do {
        match' \<leftarrow> matches s2 mp;
        Some (Match mp, set_match mp (match'\<lparr>mt_entries := mt_entries match' @ [mc]\<rparr>) s2)
      } } = Some (ptr', s') \<and> at_rest s' \<and> ptr_ok s' ptr'"
proof -
  obtain r s2 match2 where s2: "(if length (mt_entries match) = mt_alloc match
      then component_match_realloc mp (mt_alloc match + 16) s else Some (0, s)) = Some (r, s2)" "at_rest s2" "unowned s2 mp"
    "matches s2 mp = Some match2"
  proof (cases "length (mt_entries match) = mt_alloc match")
    case True
    then obtain r s' match' where "component_match_realloc mp (mt_alloc match + 16) s = Some (r, s')" "at_rest s'" "unowned s' mp"
      "matches s' = (matches s)(mp \<mapsto> match')"
      using match_realloc_ok [OF assms, of "mt_alloc match + 16" thesis] that by auto
    with True show ?thesis by (intro that [of r s' match']) simp_all
  next
    case False
    with assms show ?thesis by (intro that [of 0 s match]) simp_all
  qed
  let ?m = "match2\<lparr>mt_entries := mt_entries match2 @ [mc]\<rparr>"
  let ?s = "set_match mp ?m s2"
  have ok: "reg_ok s2" "sane s2" using s2(2) by (simp_all add: at_rest_def)
  have "reg_ok ?s" by (rule set_unowned_match(1) [OF ok(1) s2(3), of _ "Some ?m"]) simp_all
  moreover have "sane ?s" using ok(2) s2(4) by simp
  ultimately have "at_rest ?s" "unowned ?s mp" using s2(2,3) by (simp_all add: at_rest_def unowned_def)
  then show ?thesis using s2 by (cases "r = 0") (auto simp: ptr_ok_def)
qed

lemma component_match_add_ok:
  assumes "at_rest s" "ptr_ok s ptr"
  shows "\<exists>ptr' s'. raw_component_match_add env junk parent ptr release cmp cmpt dat s = Some (ptr', s') \<and> at_rest s' \<and> ptr_ok s' ptr'"
proof (cases ptr)
  case (ERR_PTR e)
  with assms show ?thesis by (simp add: raw_component_match_add_def ptr_ok_def)
next
  case (Match m0)
  let ?mc = "\<lparr>mc_data = dat, mc_compare = cmp, mc_compare_typed = cmpt, mc_release = release, mc_component = 0, mc_duplicate = junk\<rparr>"
  show ?thesis
  proof (cases "m0 = 0")
    case False
    with assms Match obtain match where m: "matches s m0 = Some match" "unowned s m0" by (auto simp: ptr_ok_def)
    from append_match_ok [OF assms(1) m, of ?mc] m(1) False Match show ?thesis
      unfolding raw_component_match_add_def Let_def by (simp split del: if_split)
  next
    case True
    have sane: "sane s" using assms(1) by (simp add: at_rest_def)
    show ?thesis
    proof (cases rule: kalloc_sane [OF sane])
      case (1 m)
      with at_rest_mem [OF assms(1) 1(2)] True Match show ?thesis by (simp add: raw_component_match_add_def ptr_ok_def)
    next
      case (2 p m)
      obtain dev s1 where s1: "devres_add (devs (s\<lparr>mem := m\<rparr>) parent) \<lparr>dr_ptr = p, dr_release = match_release env, dr_data = match_data env\<rparr> = Some dev"
        "s1 = set_match p \<lparr>mt_alloc = 0, mt_entries = []\<rparr> (set_dev parent dev (s\<lparr>mem := m\<rparr>))" "at_rest s1" "unowned s1 p"
        "matches s1 p = Some \<lparr>mt_alloc = 0, mt_entries = []\<rparr>"
        by (rule new_match_ok [OF assms(1) 2(1,2,4,5)])
      from append_match_ok [OF s1(3,5,4), of ?mc] True Match 2(1) s1(1,5) show ?thesis
        unfolding raw_component_match_add_def Let_def by (simp add: s1(2) [symmetric] del: set_fields split del: if_split)
    qed
  qed
qed

lemma match_release_ok:
  assumes "at_rest s" "unowned s mp" "devm_component_match_release parent mp s = Some s'"
  shows "at_rest s'"
proof -
  obtain match where m: "matches s mp = Some match" using assms(3) by (cases "matches s mp") (simp_all add: devm_component_match_release_def)
  define s1 where "s1 = fold (\<lambda>mc. if mc_release mc \<noteq> 0 then log (MatchRelease parent (mc_data mc)) else (\<lambda>s. s)) (mt_entries match) s"
  have "\<exists>cl. fold (\<lambda>mc. if mc_release mc \<noteq> 0 then log (MatchRelease parent (mc_data mc)) else (\<lambda>s. s)) es s = s\<lparr>calls := cl\<rparr>" for es
  proof (induction es arbitrary: s)
    case Nil
    show ?case by (intro exI [of _ "calls s"]) simp
  next
    case (Cons mc es)
    show ?case using Cons [of s] Cons [of "log (MatchRelease parent (mc_data mc)) s"] by (simp add: log_def)
  qed
  then obtain cl where s1: "s1 = s\<lparr>calls := cl\<rparr>" unfolding s1_def by blast
  have s': "s' = s1\<lparr>matches := (matches s1)(mp := None)\<rparr>"
    using assms(3) m unfolding devm_component_match_release_def Let_def s1_def by simp
  have "reg_ok s" "sane s" using assms(1) by (simp_all add: at_rest_def)
  then have "reg_ok s'" by (intro set_unowned_match(1) [OF _ assms(2), of s' None]) (simp_all add: s' s1)
  moreover have "sane s'" using \<open>sane s\<close> by (rule sane_subset) (auto simp: s' s1)
  ultimately show ?thesis using assms(1) by (simp add: at_rest_def s' s1)
qed

context aggregate_driver
begin

lemma component_master_add_ok:
  assumes "at_rest s" "mp \<noteq> 0" "matches s mp = Some match" "unowned s mp"
    "\<And>mc. mc \<in> set (mt_entries match) \<Longrightarrow> mc_component mc = 0"
    "\<And>b bd. adevs s b = Some bd \<Longrightarrow> ad_parent bd \<noteq> parent"
  obtains r s' where "component_master_add_with_match env parent ops mp s = Some (r, s')" "r \<le> 0" "at_rest s'"
proof -
  obtain r1 s1 match1 where s1: "component_match_realloc mp (length (mt_entries match)) s = Some (r1, s1)" "r1 = 0 \<or> r1 = - 12"
    "at_rest s1" "unowned s1 mp" "adevs s1 = adevs s" "matches s1 = (matches s)(mp \<mapsto> match1)" "mt_entries match1 = mt_entries match"
    using match_realloc_ok [OF assms(1,3,4) order_refl] by blast
  have ok1: "reg_ok s1" "sane s1" "set (component_list s1) = dom (comps s1)" using s1(3) by (simp_all add: at_rest_def)
  show ?thesis
  proof (cases "r1 = 0")
    case False
    with s1 assms(3) show ?thesis by (intro that [of r1 s1]) (auto simp: component_master_add_with_match_def)
  next
    case True
    show ?thesis
    proof (cases rule: kalloc_sane [OF ok1(2)])
      case (1 m)
      with at_rest_mem [OF s1(3) 1(2)] True s1(1) assms(3) show ?thesis
        by (intro that [of "- 12" "s1\<lparr>mem := m\<rparr>"]) (auto simp: component_master_add_with_match_def)
    next
      case (2 a m)
      let ?t = "s1\<lparr>mem := m\<rparr>"
      define ad where "ad = \<lparr>ad_bound = False, ad_ops = ops, ad_parent = parent, ad_match = mp\<rparr>"
      define s3 where "s3 = set_adev a ad (?t\<lparr>aggregate_devices := a # aggregate_devices ?t\<rparr>)"
      have t: "reg_ok ?t" "a \<notin> used ?t" using ok1(1) mem_links(1) [OF 2(2)] 2(4) by (simp_all add: used_def)
      have un: "ad_match bd \<noteq> mp \<and> ad_parent bd \<noteq> parent" if "adevs ?t b = Some bd" for b bd
        using that s1(4,5) assms(6) lists_okD(5) [OF ok1(1)] by (auto simp: unowned_def)
      have s3: "reg_ok s3" "sane s3" unfolding s3_def ad_def
        by (rule new_aggregate_ok [OF t(1) 2(2) t(2) 2(5,3) assms(2), of match1];
            use s1(6,7) assms(5) un in simp)+
      have l3: "adevs s3 a = Some ad" "component_list s3 = component_list s1" "comps s3 = comps s1" by (simp_all add: s3_def)
      obtain r s4 where s4: "try_to_bring_up_aggregate_device env a 0 s3 = Some (r, s4)" "reg_ok s4" "sane s4" "attached_to a s3 s4"
        "adevs s4 = (if r \<le> 0 then adevs s3 else (adevs s3)(a \<mapsto> ad\<lparr>ad_bound := True\<rparr>))"
        using bring_up_ok [OF s3 l3(1), of 0] by blast
      have r4: "at_rest s4"
        using s4(2-4) l3 ok1(3) dom_adev_of [of s3] dom_adev_of [of s4] by (simp add: at_rest_def attached_to_def)
      have add: "component_master_add_with_match env parent ops mp s =
          (if r < 0 then map_option (\<lambda>s5. (r, s5)) (free_aggregate_device a s4) else Some (0, s4))"
        using s4(1) s1(1) True 2(1) assms(3)
        by (simp add: component_master_add_with_match_def s3_def ad_def Let_def map_conv_bind_option comp_def)
      show ?thesis
      proof (cases "r < 0")
        case False
        with add r4 show ?thesis by (intro that [of 0 s4]) simp_all
      next
        case True
        then have ad4: "adevs s4 a = Some ad" using s4(5) l3(1) by simp
        obtain s5 where s5: "free_aggregate_device a s4 = Some s5" "reg_ok s5" "sane s5" "component_list s5 = component_list s4"
          "dom (comps s5) = dom (comps s4)"
          by (rule free_aggregate_device_ok [OF s4(2,3) ad4])
        with add True r4 show ?thesis by (intro that [of r s5]) (simp_all add: at_rest_def)
      qed
    qed
  qed
qed

end

section \<open>Sequences of operations\<close>

text \<open>
  The entry points that change the registry.  Their callers keep to a few rules: a component has
  operations; a match array that is handed over belongs to no aggregate device yet and has not
  been used before; a device is the parent of one aggregate device; and a match array is not
  released while it is in use.
\<close>

definition fresh_match :: "('r, 'd, 'w) cstate \<Rightarrow> addr \<Rightarrow> addr \<Rightarrow> bool" where
  "fresh_match s parent mp \<longleftrightarrow> mp \<noteq> 0 \<and> unowned s mp \<and>
     (\<exists>match. matches s mp = Some match \<and> (\<forall>mc\<in>set (mt_entries match). mc_component mc = 0)) \<and>
     (\<forall>b bd. adevs s b = Some bd \<longrightarrow> ad_parent bd \<noteq> parent)"

inductive comp_step :: "('r, 'd, 'w) drivers \<Rightarrow> ('r, 'd, 'w) cstate \<Rightarrow> ('r, 'd, 'w) cstate \<Rightarrow> bool" for env where
  match_add: "ptr_ok s ptr \<Longrightarrow> raw_component_match_add env junk parent ptr release cmp cmpt dat s = Some (ptr', s') \<Longrightarrow>
    comp_step env s s'"
| match_release: "unowned s mp \<Longrightarrow> devm_component_match_release parent mp s = Some s' \<Longrightarrow> comp_step env s s'"
| master_add: "fresh_match s parent mp \<Longrightarrow> component_master_add_with_match env parent ops mp s = Some (r, s') \<Longrightarrow>
    comp_step env s s'"
| master_del: "component_master_del env parent ops s = Some s' \<Longrightarrow> comp_step env s s'"
| add: "ops \<noteq> 0 \<Longrightarrow> raw_component_add env dev ops sub s = Some (r, s') \<Longrightarrow> comp_step env s s'"
| del: "component_del env dev ops s = Some s' \<Longrightarrow> comp_step env s s'"

inductive comp_reachable :: "('r, 'd, 'w) drivers \<Rightarrow> ('r, 'd, 'w) cstate \<Rightarrow> bool" for env where
  start: "component_list s = [] \<Longrightarrow> aggregate_devices s = [] \<Longrightarrow> comps s = Map.empty \<Longrightarrow> adevs s = Map.empty \<Longrightarrow>
    matches s = Map.empty \<Longrightarrow> sane s \<Longrightarrow> comp_reachable env s"
| step: "comp_reachable env s \<Longrightarrow> comp_step env s s' \<Longrightarrow> comp_reachable env s'"

context aggregate_driver
begin

lemma master_add_fresh:
  assumes "at_rest s" "fresh_match s parent mp"
  obtains r s' where "component_master_add_with_match env parent ops mp s = Some (r, s')" "r \<le> 0" "at_rest s'"
proof -
  obtain match where m: "matches s mp = Some match" "\<And>mc. mc \<in> set (mt_entries match) \<Longrightarrow> mc_component mc = 0"
    "mp \<noteq> 0" "unowned s mp" "\<And>b bd. adevs s b = Some bd \<Longrightarrow> ad_parent bd \<noteq> parent"
    using assms(2) by (auto simp: fresh_match_def)
  show ?thesis
    by (rule component_master_add_ok [where ops = ops, OF assms(1) m(3,1,4)]; (rule m(2,5) that; assumption)?)
qed

lemma comp_step_at_rest: "comp_step env s s' \<Longrightarrow> at_rest s \<Longrightarrow> at_rest s'"
proof (induction rule: comp_step.induct)
  case (match_add s ptr junk parent release cmp cmpt dat ptr' s')
  with component_match_add_ok [of s ptr env junk parent release cmp cmpt dat] show ?case by auto
next
  case (match_release s mp parent s')
  then show ?case by (simp only: match_release_ok)
next
  case (master_add s parent mp ops r s')
  with master_add_fresh [of s parent mp ops] show ?case by (metis Pair_inject option.inject)
next
  case (master_del parent ops s s')
  then show ?case by (cases rule: component_master_del_ok [OF master_del(2), of parent ops]) simp_all
next
  case (add ops dev sub s r s')
  with component_add_ok [of s ops dev sub] show ?case by (metis Pair_inject option.inject)
next
  case (del dev ops s s')
  then show ?case by (cases rule: component_del_ok [OF del(2), of dev ops]) simp_all
qed

lemma reachable_at_rest: "comp_reachable env s \<Longrightarrow> at_rest s"
proof (induction rule: comp_reachable.induct)
  case (start s)
  then have "adev_of s = Map.empty" "ops_of s = Map.empty" "entries_of s = (\<lambda>a. [])"
    by (simp_all add: adev_of_def ops_of_def entries_of_def fun_eq_iff)
  with start show ?case
    by (simp add: at_rest_def reg_ok_def lists_ok_def adevs_ok_def links_ok_def)
next
  case (step s s')
  then show ?case by (auto intro: comp_step_at_rest)
qed

lemma entry_points_return:
  assumes "at_rest s"
  shows "component_del env dev ops s \<noteq> None" "component_master_del env parent ops s \<noteq> None"
    "ops \<noteq> 0 \<Longrightarrow> raw_component_add env dev ops sub s \<noteq> None"
    "fresh_match s parent mp \<Longrightarrow> component_master_add_with_match env parent ops mp s \<noteq> None"
proof -
  show "component_del env dev ops s \<noteq> None" by (cases rule: component_del_ok [OF assms, of dev ops]) simp_all
  show "component_master_del env parent ops s \<noteq> None"
    by (cases rule: component_master_del_ok [OF assms, of parent ops]) simp_all
  show "raw_component_add env dev ops sub s \<noteq> None" if "ops \<noteq> 0"
    using component_add_ok [OF assms that, of dev sub] by (metis option.distinct(1))
  show "component_master_add_with_match env parent ops mp s \<noteq> None" if "fresh_match s parent mp"
    using master_add_fresh [OF assms that, of ops] by (metis option.distinct(1))
qed

end

text \<open>
  An aggregate driver whose operations bind and unbind all components, as the documentation of
  \<open>struct component_master_ops\<close> asks for.
\<close>

definition all_driver :: "('r, 'd, 'w) drivers \<Rightarrow> ('r, 'd, 'w) drivers" where
  "all_driver env = env
     \<lparr>master_bind := (\<lambda>ops parent s. component_bind_all env parent 0 s),
      master_unbind := (\<lambda>ops parent s. component_unbind_all env parent 0 s)\<rparr>"

lemma all_driver_bind:
  assumes "component_driver env" "reg_ok s" "sane s" "adevs s a = Some ad" "complete s a"
  shows "\<exists>r s' cp cl. master_bind (all_driver env) (ad_ops ad) (ad_parent ad) s = Some (r, s') \<and> ran s s' cp cl \<and> same_links s cp"
    "\<exists>s' cp cl. master_unbind (all_driver env) (ad_ops ad) (ad_parent ad) s = Some s' \<and> ran s s' cp cl \<and> same_links s cp"
proof -
  obtain r s' where r: "component_bind_all env (ad_parent ad) 0 s = Some (r, s')"
    "if r = 0
     then ran s s' (flagged True (to_bind (entries_of s a)) (comps s)) (map Bind (to_bind (entries_of s a)))
     else \<exists>bound c rest cl. to_bind (entries_of s a) = bound @ c # rest \<and> (cl = [Bind c] \<or> cl = []) \<and>
        ran s s' (flagged False bound (comps s)) (map Bind bound @ cl @ map Unbind (rev bound))"
    using component_driver.component_bind_all_ran [OF assms, of 0] by blast
  then show "\<exists>r s' cp cl. master_bind (all_driver env) (ad_ops ad) (ad_parent ad) s = Some (r, s') \<and> ran s s' cp cl \<and> same_links s cp"
    using same_links_comps(2) [of s] by (cases "r = 0") (fastforce simp: all_driver_def)+
  show "\<exists>s' cp cl. master_unbind (all_driver env) (ad_ops ad) (ad_parent ad) s = Some s' \<and> ran s s' cp cl \<and> same_links s cp"
    using component_driver.component_unbind_all_ran [OF assms, of 0] same_links_comps(2) [of s]
    by (fastforce simp: all_driver_def)
qed

interpretation allc: aggregate_driver "all_driver (devm_driver env)"
proof (intro aggregate_driver.intro aggregate_driver_axioms.intro)
  show "component_driver (all_driver (devm_driver env))"
    using devm.op_bind_ran devm.op_unbind_ran by unfold_locales (simp_all add: all_driver_def)
qed (rule all_driver_bind; (rule devm.component_driver_axioms | assumption))+

section \<open>Properties\<close>


definition ex_start :: "(unit, unit, unit) cstate" where
  "ex_start = \<lparr>component_list = [], aggregate_devices = [], comps = Map.empty, adevs = Map.empty, matches = Map.empty,
     devs = (\<lambda>d. ex_dev0), mem = map Some [11..<60], calls = []\<rparr>"

definition ex_one :: "(unit, unit, unit) cstate" where
  "ex_one = ex_start\<lparr>component_list := [11], mem := map Some [12..<60],
     comps := [11 \<mapsto> \<lparr>comp_adev = 0, comp_bound = False, comp_ops = 5, subcomponent = 0, comp_dev = 21\<rparr>]\<rparr>"

abbreviation "ex_drivers \<equiv> all_driver (devm_driver ex_env)"

lemma ex_start_reachable: "comp_reachable ex_drivers ex_start"
  by (rule comp_reachable.start)
    (auto simp: ex_start_def sane_def avail_def used_def dev_addrs_def ex_dev0_def List.map_filter_def comp_def)

lemma ex_one_reachable: "comp_reachable ex_drivers ex_one"
proof (rule comp_reachable.step [OF ex_start_reachable], rule comp_step.add [of 5 _ 21 0])
  have "map Some [11..<60] = Some 11 # map Some [12..<60]" by (simp add: upt_conv_Cons)
  then show "raw_component_add ex_drivers 21 5 0 ex_start = Some (0, ex_one)"
    by (simp add: raw_component_add_def kalloc_def ex_start_def ex_one_def try_to_bring_up_masters_def set_comp_def)
qed simp


text \<open>
  Unregistering a component.  \<open>component_del\<close> takes the aggregate device that uses the
  component down before the component is freed: afterwards the component is gone, no match array
  refers to it, and the aggregate device it was attached to is not bound.
\<close>

theorem component_del_detaches:
  assumes "aggregate_driver env" "comp_reachable env s" "component_lookup s dev ops (component_list s) = Some c"
    "c \<noteq> 0" "comps s c = Some x"
  shows "\<exists>s'. component_del env dev ops s = Some s' \<and> comps s' c = None \<and> c \<notin> set (component_list s') \<and>
     (\<forall>a. \<forall>mc\<in>set (entries_of s' a). mc_component mc \<noteq> c) \<and>
     (comp_adev x \<noteq> 0 \<longrightarrow> (\<exists>ad. adevs s' (comp_adev x) = Some ad \<and> \<not> ad_bound ad))"
proof -
  have rest: "at_rest s" by (rule aggregate_driver.reachable_at_rest [OF assms(1,2)])
  show ?thesis
  proof (cases rule: aggregate_driver.component_del_ok [OF assms(1) rest, of dev ops])
    case 1
    with assms(3,4) show ?thesis by simp
  next
    case (2 c' x' s')
    then have [simp]: "c' = c" "x' = x" using assms(3,5) by simp_all
    have ok: "reg_ok s'" "set (component_list s') = dom (comps s')" using 2(5) by (simp_all add: at_rest_def)
    have "mc_component mc \<noteq> c" if "mc \<in> set (entries_of s' a)" for mc a
      using links_okD(1) [OF ok(1) that] 2(6) assms(4) by (auto simp: adev_of_def)
    moreover have "\<exists>ad. adevs s' (comp_adev x) = Some ad \<and> \<not> ad_bound ad" if "comp_adev x \<noteq> 0"
    proof -
      have "reg_ok s" "adev_of s c = Some (comp_adev x)" using rest assms(5) by (simp_all add: at_rest_def adev_of_def)
      from attached_adev [OF this that] obtain ad where "adevs s (comp_adev x) = Some ad" .
      with 2(7) show ?thesis by simp
    qed
    ultimately show ?thesis using 2(4,6) ok(2) by (intro exI [of _ s']) auto
  qed
qed

theorem component_del_detaches_witness:
  "\<exists>s'. component_del ex_drivers 21 5 ex_one = Some s' \<and> comps s' 11 = None \<and> 11 \<notin> set (component_list s')"
  using component_del_detaches [OF allc.aggregate_driver_axioms ex_one_reachable, of 21 5 11]
  by (auto simp: ex_one_def)



end
