(* ===== verification/Simulation.thy ===== *)
theory Simulation
  imports Prelude
begin

text \<open>
  Forward simulation between a program state and its specification, the interface that the
  refinement properties use.  A step of the program takes an operation and may fail
  (\<^const>\<open>None\<close>: an access outside of a buffer, or undefined behaviour); a step of the
  specification is a total function.  \<open>permitted\<close> is what the caller owes the operation.
\<close>

primrec run :: "('s \<Rightarrow> 'op \<Rightarrow> ('out \<times> 's) option) \<Rightarrow> 's \<Rightarrow> 'op list \<Rightarrow> ('out list \<times> 's) option" where
  "run step s [] = Some ([], s)"
| "run step s (op # ops) =
     (case step s op of
        None \<Rightarrow> None
      | Some (out, s') \<Rightarrow> map_option (\<lambda>(outs, t). (out # outs, t)) (run step s' ops))"

primrec arun :: "('a \<Rightarrow> 'op \<Rightarrow> 'out \<times> 'a) \<Rightarrow> 'a \<Rightarrow> 'op list \<Rightarrow> 'out list \<times> 'a" where
  "arun astep a [] = ([], a)"
| "arun astep a (op # ops) =
     (let (out, a') = astep a op; (outs, b) = arun astep a' ops in (out # outs, b))"

primrec permitted_run :: "('a \<Rightarrow> 'op \<Rightarrow> bool) \<Rightarrow> ('a \<Rightarrow> 'op \<Rightarrow> 'out \<times> 'a) \<Rightarrow> 'a \<Rightarrow> 'op list \<Rightarrow> bool" where
  "permitted_run permitted astep a [] = True"
| "permitted_run permitted astep a (op # ops) =
     (permitted a op \<and> permitted_run permitted astep (snd (astep a op)) ops)"

locale simulation =
  fixes step :: "'s \<Rightarrow> 'op \<Rightarrow> ('out \<times> 's) option"
    and astep :: "'a \<Rightarrow> 'op \<Rightarrow> 'out \<times> 'a"
    and permitted :: "'a \<Rightarrow> 'op \<Rightarrow> bool"
    and rel :: "'s \<Rightarrow> 'a \<Rightarrow> bool"
  assumes step_sim:
    "rel s a \<Longrightarrow> permitted a op \<Longrightarrow> \<exists>s'. step s op = Some (fst (astep a op), s') \<and> rel s' (snd (astep a op))"
begin

lemma run_sim:
  assumes "rel s a" and "permitted_run permitted astep a ops"
  shows "\<exists>s'. run step s ops = Some (fst (arun astep a ops), s') \<and> rel s' (snd (arun astep a ops))"
  using assms
proof (induction ops arbitrary: s a)
  case Nil
  then show ?case by simp
next
  case (Cons op ops)
  from Cons.prems step_sim obtain s' where
    s': "step s op = Some (fst (astep a op), s')" "rel s' (snd (astep a op))"
    by fastforce
  with Cons.prems Cons.IH obtain t where
    "run step s' ops = Some (fst (arun astep (snd (astep a op)) ops), t)"
    "rel t (snd (arun astep (snd (astep a op)) ops))"
    by fastforce
  with s' show ?case
    by (simp add: Let_def split_beta)
qed

end

end
