(* ===== verification/Kfifo.thy ===== *)
theory Kfifo
  imports Simulation
begin

text \<open>
  The ring buffer \<open>lib/src/linux/kfifo.c\<close> with the accessors of \<open>lib/include/linux/kfifo.h\<close>:
  elements of a fixed size, and records with their length in front.  The indices are 32-bit
  words that run on and wrap around; the data is the list of its bytes (\<^const>\<open>None\<close> for a null
  pointer).  A result \<^const>\<open>None\<close> is an access outside of a buffer, or a shift by the width of
  the type.  The functions for user space and scatter lists are disabled in the source.
\<close>

section \<open>State and operations\<close>

record kfifo =
  kf_in :: u32
  kf_out :: u32
  kf_mask :: u32
  kf_esize :: u32
  kf_data :: "u8 list option"

text \<open>
  \<open>fls_long\<close> is the position of the highest bit, counted from 1, and 0 for 0.  A shift of
  \<open>1UL\<close> by it is undefined from 64 on.
\<close>

fun fls :: "nat \<Rightarrow> nat" where
  "fls n = (if n = 0 then 0 else Suc (fls (n div 2)))"

declare fls.simps [simp del]

lemma fls_0 [simp]: "fls 0 = 0"
  by (simp add: fls.simps)

definition shl1 :: "int \<Rightarrow> u64 option" where
  "shl1 k = (if 0 \<le> k \<and> k < 64 then Some (push_bit (nat k) 1) else None)"

definition roundup_pow_of_two :: "u64 \<Rightarrow> u64 option" where
  "roundup_pow_of_two n = shl1 (int (fls (unat (n - 1))))"

definition rounddown_pow_of_two :: "u64 \<Rightarrow> u64 option" where
  "rounddown_pow_of_two n = shl1 (int (fls (unat n)) - 1)"

definition is_power_of_2 :: "u64 \<Rightarrow> bool" where
  "is_power_of_2 n \<longleftrightarrow> n \<noteq> 0 \<and> n AND (n - 1) = 0"

definition kfifo_unused :: "kfifo \<Rightarrow> u32" where
  "kfifo_unused fifo = (kf_mask fifo + 1) - (kf_in fifo - kf_out fifo)"

text \<open>\<open>kmalloc_array\<close> is a parameter: the bytes of the memory it returns.\<close>

definition kfifo_alloc :: "(u64 \<Rightarrow> u32 \<Rightarrow> u8 list option) \<Rightarrow> kfifo \<Rightarrow> u32 \<Rightarrow> u64 \<Rightarrow> (int \<times> kfifo) option" where
  "kfifo_alloc kmalloc_array fifo sz esize =
     (case roundup_pow_of_two (ucast sz) of
        None \<Rightarrow> None
      | Some p \<Rightarrow>
          (let sz = ucast p;
               fifo1 = fifo\<lparr>kf_in := 0, kf_out := 0, kf_esize := ucast esize\<rparr>
           in if sz < 2 then Some (- EINVAL, fifo1\<lparr>kf_data := None, kf_mask := 0\<rparr>)
              else
                (case kmalloc_array esize sz of
                   None \<Rightarrow> Some (- ENOMEM, fifo1\<lparr>kf_data := None, kf_mask := 0\<rparr>)
                 | Some d \<Rightarrow> Some (0, fifo1\<lparr>kf_data := Some d, kf_mask := sz - 1\<rparr>))))"

definition kfifo_free :: "kfifo \<Rightarrow> kfifo" where
  "kfifo_free fifo = fifo\<lparr>kf_in := 0, kf_out := 0, kf_esize := 0, kf_data := None, kf_mask := 0\<rparr>"

text \<open>The division by \<open>esize\<close> traps when it is 0.\<close>

definition kfifo_init :: "kfifo \<Rightarrow> u8 list \<Rightarrow> u32 \<Rightarrow> u64 \<Rightarrow> (int \<times> kfifo) option" where
  "kfifo_init fifo buffer sz esize =
     (if esize = 0 then None
      else
        (let n = ucast sz div esize
         in case (if is_power_of_2 n then Some n else rounddown_pow_of_two n) of
              None \<Rightarrow> None
            | Some p \<Rightarrow>
                (let sz1 = ucast p;
                     fifo1 = fifo\<lparr>kf_in := 0, kf_out := 0, kf_esize := ucast esize, kf_data := Some buffer\<rparr>
                 in if sz1 < 2 then Some (- EINVAL, fifo1\<lparr>kf_mask := 0\<rparr>)
                    else Some (0, fifo1\<lparr>kf_mask := sz1 - 1\<rparr>))))"

text \<open>\<open>memcpy\<close> into a buffer at an offset, and from it.\<close>

definition memcpy_to :: "u8 list \<Rightarrow> u32 \<Rightarrow> u8 list \<Rightarrow> u32 \<Rightarrow> u8 list option" where
  "memcpy_to data off src n =
     (if unat off + unat n \<le> length data \<and> unat n \<le> length src
      then Some (take (unat off) data @ take (unat n) src @ drop (unat off + unat n) data)
      else None)"

definition memcpy_from :: "u8 list \<Rightarrow> u32 \<Rightarrow> u32 \<Rightarrow> u8 list option" where
  "memcpy_from data off n =
     (if unat off + unat n \<le> length data then Some (take (unat n) (drop (unat off) data)) else None)"

text \<open>The offset, size and length in bytes that the two copy functions compute.\<close>

definition in_bytes :: "kfifo \<Rightarrow> u32 \<Rightarrow> u32 \<Rightarrow> u32 \<times> u32 \<times> u32" where
  "in_bytes fifo len off =
     (let sz = kf_mask fifo + 1; esize = kf_esize fifo; off1 = off AND kf_mask fifo
      in if esize \<noteq> 1 then (off1 * esize, sz * esize, len * esize) else (off1, sz, len))"

definition kfifo_copy_in :: "kfifo \<Rightarrow> u8 list \<Rightarrow> u32 \<Rightarrow> u32 \<Rightarrow> kfifo option" where
  "kfifo_copy_in fifo src len off =
     (case in_bytes fifo len off of
        (off1, sz, len1) \<Rightarrow>
          (let l = min len1 (sz - off1)
           in case kf_data fifo of
                None \<Rightarrow> None
              | Some data \<Rightarrow>
                  (case memcpy_to data off1 src l of
                     None \<Rightarrow> None
                   | Some data1 \<Rightarrow>
                       map_option (\<lambda>data2. fifo\<lparr>kf_data := Some data2\<rparr>)
                         (memcpy_to data1 0 (drop (unat l) src) (len1 - l)))))"

definition raw_kfifo_in :: "kfifo \<Rightarrow> u8 list \<Rightarrow> u32 \<Rightarrow> (u32 \<times> kfifo) option" where
  "raw_kfifo_in fifo buf len =
     (let l = kfifo_unused fifo; n = (if len > l then l else len)
      in map_option (\<lambda>fifo1. (n, fifo1\<lparr>kf_in := kf_in fifo1 + n\<rparr>)) (kfifo_copy_in fifo buf n (kf_in fifo)))"

text \<open>The bytes that \<open>kfifo_copy_out\<close> writes to its destination.\<close>

definition kfifo_copy_out :: "kfifo \<Rightarrow> u32 \<Rightarrow> u32 \<Rightarrow> u8 list option" where
  "kfifo_copy_out fifo len off =
     (case in_bytes fifo len off of
        (off1, sz, len1) \<Rightarrow>
          (let l = min len1 (sz - off1)
           in case kf_data fifo of
                None \<Rightarrow> None
              | Some data \<Rightarrow>
                  (case memcpy_from data off1 l of
                     None \<Rightarrow> None
                   | Some d1 \<Rightarrow> map_option (\<lambda>d2. d1 @ d2) (memcpy_from data 0 (len1 - l)))))"

definition kfifo_out_peek :: "kfifo \<Rightarrow> u32 \<Rightarrow> (u32 \<times> u8 list) option" where
  "kfifo_out_peek fifo len =
     (let l = kf_in fifo - kf_out fifo; n = (if len > l then l else len)
      in map_option (\<lambda>d. (n, d)) (kfifo_copy_out fifo n (kf_out fifo)))"

definition raw_kfifo_out :: "kfifo \<Rightarrow> u32 \<Rightarrow> (u32 \<times> u8 list \<times> kfifo) option" where
  "raw_kfifo_out fifo len =
     (case kfifo_out_peek fifo len of
        None \<Rightarrow> None
      | Some (n, d) \<Rightarrow> Some (n, d, fifo\<lparr>kf_out := kf_out fifo + n\<rparr>))"

definition kfifo_reset :: "kfifo \<Rightarrow> kfifo" where
  "kfifo_reset fifo = fifo\<lparr>kf_in := 0, kf_out := 0\<rparr>"

definition kfifo_reset_out :: "kfifo \<Rightarrow> kfifo" where
  "kfifo_reset_out fifo = fifo\<lparr>kf_out := kf_in fifo\<rparr>"

definition kfifo_len :: "kfifo \<Rightarrow> u32" where
  "kfifo_len fifo = kf_in fifo - kf_out fifo"

definition kfifo_is_empty :: "kfifo \<Rightarrow> bool" where
  "kfifo_is_empty fifo \<longleftrightarrow> kf_in fifo = kf_out fifo"

definition kfifo_is_full :: "kfifo \<Rightarrow> bool" where
  "kfifo_is_full fifo \<longleftrightarrow> kfifo_len fifo > kf_mask fifo"

section \<open>Records\<close>

text \<open>\<open>recsize\<close> is the number of bytes of the length in front of a record, 1 or 2.\<close>

definition kfifo_max_r :: "u32 \<Rightarrow> nat \<Rightarrow> u32" where
  "kfifo_max_r len recsize =
     (let max = push_bit (8 * recsize) 1 - 1 in if len > max then max else len)"

definition KFIFO_PEEK :: "u8 list \<Rightarrow> u32 \<Rightarrow> u32 \<Rightarrow> u8 option" where
  "KFIFO_PEEK data out msk = (let i = unat (out AND msk) in if i < length data then Some (data ! i) else None)"

definition KFIFO_POKE :: "u8 list \<Rightarrow> u32 \<Rightarrow> u32 \<Rightarrow> u8 \<Rightarrow> u8 list option" where
  "KFIFO_POKE data inp msk v = (let i = unat (inp AND msk) in if i < length data then Some (data[i := v]) else None)"

definition kfifo_peek_n :: "kfifo \<Rightarrow> nat \<Rightarrow> u32 option" where
  "kfifo_peek_n fifo recsize =
     (case kf_data fifo of
        None \<Rightarrow> None
      | Some data \<Rightarrow>
          (case KFIFO_PEEK data (kf_out fifo) (kf_mask fifo) of
             None \<Rightarrow> None
           | Some b \<Rightarrow>
               (if recsize \<noteq> 1
                then map_option (\<lambda>b2. ucast b OR push_bit 8 (ucast b2)) (KFIFO_PEEK data (kf_out fifo + 1) (kf_mask fifo))
                else Some (ucast b))))"

definition kfifo_poke_n :: "kfifo \<Rightarrow> u32 \<Rightarrow> nat \<Rightarrow> kfifo option" where
  "kfifo_poke_n fifo n recsize =
     (case kf_data fifo of
        None \<Rightarrow> None
      | Some data \<Rightarrow>
          (case KFIFO_POKE data (kf_in fifo) (kf_mask fifo) (ucast n) of
             None \<Rightarrow> None
           | Some data1 \<Rightarrow>
               (if recsize > 1
                then map_option (\<lambda>data2. fifo\<lparr>kf_data := Some data2\<rparr>)
                       (KFIFO_POKE data1 (kf_in fifo + 1) (kf_mask fifo) (ucast (drop_bit 8 n)))
                else Some (fifo\<lparr>kf_data := Some data1\<rparr>))))"

definition kfifo_len_r :: "kfifo \<Rightarrow> nat \<Rightarrow> u32 option" where
  "kfifo_len_r fifo recsize = kfifo_peek_n fifo recsize"

definition kfifo_in_r :: "kfifo \<Rightarrow> u8 list \<Rightarrow> u32 \<Rightarrow> nat \<Rightarrow> (u32 \<times> kfifo) option" where
  "kfifo_in_r fifo buf len recsize =
     (if unat len + recsize > unat (kfifo_unused fifo) then Some (0, fifo)
      else
        (case kfifo_poke_n fifo len recsize of
           None \<Rightarrow> None
         | Some fifo1 \<Rightarrow>
             map_option (\<lambda>fifo2. (len, fifo2\<lparr>kf_in := kf_in fifo2 + (len + of_nat recsize)\<rparr>))
               (kfifo_copy_in fifo1 buf len (kf_in fifo1 + of_nat recsize))))"

definition kfifo_out_copy_r :: "kfifo \<Rightarrow> u32 \<Rightarrow> nat \<Rightarrow> (u32 \<times> u8 list \<times> u32) option" where
  "kfifo_out_copy_r fifo len recsize =
     (case kfifo_peek_n fifo recsize of
        None \<Rightarrow> None
      | Some n \<Rightarrow>
          (let len1 = (if len > n then n else len)
           in map_option (\<lambda>d. (len1, d, n)) (kfifo_copy_out fifo len1 (kf_out fifo + of_nat recsize))))"

definition kfifo_out_peek_r :: "kfifo \<Rightarrow> u32 \<Rightarrow> nat \<Rightarrow> (u32 \<times> u8 list) option" where
  "kfifo_out_peek_r fifo len recsize =
     (if kf_in fifo = kf_out fifo then Some (0, [])
      else map_option (\<lambda>(l, d, n). (l, d)) (kfifo_out_copy_r fifo len recsize))"

definition kfifo_out_r :: "kfifo \<Rightarrow> u32 \<Rightarrow> nat \<Rightarrow> (u32 \<times> u8 list \<times> kfifo) option" where
  "kfifo_out_r fifo len recsize =
     (if kf_in fifo = kf_out fifo then Some (0, [], fifo)
      else
        map_option (\<lambda>(l, d, n). (l, d, fifo\<lparr>kf_out := kf_out fifo + (n + of_nat recsize)\<rparr>))
          (kfifo_out_copy_r fifo len recsize))"

definition kfifo_skip_r :: "kfifo \<Rightarrow> nat \<Rightarrow> kfifo option" where
  "kfifo_skip_r fifo recsize =
     map_option (\<lambda>n. fifo\<lparr>kf_out := kf_out fifo + (n + of_nat recsize)\<rparr>) (kfifo_peek_n fifo recsize)"

definition kfifo_avail :: "kfifo \<Rightarrow> nat \<Rightarrow> u32" where
  "kfifo_avail fifo recsize =
     (let avail = (kf_mask fifo + 1) - kfifo_len fifo
      in if recsize \<noteq> 0
         then (if unat avail \<le> recsize then 0 else kfifo_max_r (avail - of_nat recsize) recsize)
         else avail)"

definition kfifo_skip :: "kfifo \<Rightarrow> nat \<Rightarrow> kfifo option" where
  "kfifo_skip fifo recsize =
     (if recsize \<noteq> 0 then kfifo_skip_r fifo recsize else Some (fifo\<lparr>kf_out := kf_out fifo + 1\<rparr>))"

section \<open>Bytes in a ring\<close>

text \<open>
  A read or write of \<open>n\<close> bytes at offset \<open>off\<close> of a ring of \<open>L\<close> bytes is split at the end of
  the ring.  Seen from the offset, that is, on the rotated list, it is one piece.
\<close>

definition ring_read :: "'a list \<Rightarrow> nat \<Rightarrow> nat \<Rightarrow> 'a list" where
  "ring_read r off n = take n (rotate off r)"

definition ring_write :: "'a list \<Rightarrow> nat \<Rightarrow> 'a list \<Rightarrow> 'a list" where
  "ring_write r off xs =
     (let l = min (length xs) (length r - off); d = take off r @ take l xs @ drop (off + l) r
      in drop l xs @ drop (length xs - l) d)"

lemma ring_read_split:
  assumes "off < length r" and "n \<le> length r"
  shows "take (min n (length r - off)) (drop off r) @ take (n - min n (length r - off)) r = ring_read r off n"
  using assms by (auto simp: ring_read_def rotate_drop_take min_def)

lemma ring_write_pieces:
  assumes "n \<le> length src" and "l = min n (length r - off)"
  shows "take (n - l) (drop l src) @ drop (n - l) (take off r @ take l src @ drop (off + l) r)
    = ring_write r off (take n src)"
proof -
  have "l \<le> n" and "length (take n src) = n"
    using assms by simp_all
  then have "take l (take n src) = take l src" and "drop l (take n src) = take (n - l) (drop l src)"
    by (simp_all add: drop_take)
  with \<open>length (take n src) = n\<close> show ?thesis
    unfolding ring_write_def Let_def by (simp only: assms(2) [symmetric])
qed

lemma length_ring_write:
  "off < length r \<Longrightarrow> length xs \<le> length r \<Longrightarrow> length (ring_write r off xs) = length r"
  by (auto simp: ring_write_def Let_def min_def)

lemma rotate_ring_write:
  assumes "off < length r" and "length xs \<le> length r"
  shows "rotate off (ring_write r off xs) = xs @ drop (length xs) (rotate off r)"
proof (cases "length xs \<le> length r - off")
  case True
  with assms show ?thesis
    by (simp add: ring_write_def rotate_drop_take Let_def add.commute)
next
  case False
  with assms show ?thesis
    by (simp add: ring_write_def rotate_drop_take Let_def min_def)
qed

lemma rotate_le_length: "m \<le> length xs \<Longrightarrow> rotate m xs = drop m xs @ take m xs"
  by (cases "m = length xs") (simp_all add: rotate_drop_take)

lemma ring_write_append:
  assumes m: "m + length xs \<le> length r" and r: "s < length r"
  shows "ring_read (ring_write r ((s + m) mod length r) xs) s (m + length xs) = ring_read r s m @ xs"
proof -
  let ?off = "(s + m) mod length r"
  let ?w = "ring_write r ?off xs"
  from r have off: "?off < length r"
    by (intro mod_less_divisor) linarith
  with m have len: "length ?w = length r"
    by (simp add: length_ring_write)
  have rot: "rotate ?off q = drop m (rotate s q) @ take m (rotate s q)" if "length q = length r" for q :: "'a list"
  proof -
    have "rotate ?off q = rotate m (rotate s q)"
      by (metis add.commute rotate_conv_mod rotate_rotate that)
    moreover have "rotate m (rotate s q) = drop m (rotate s q) @ take m (rotate s q)"
      using m that by (simp add: rotate_le_length)
    ultimately show ?thesis by simp
  qed
  from m have "drop m (rotate s ?w) @ take m (rotate s ?w)
      = (xs @ drop (m + length xs) (rotate s r)) @ take m (rotate s r)"
    using rotate_ring_write [OF off, of xs] rot [of r] rot [OF len] by (simp add: add.commute)
  moreover have "length (drop m (rotate s ?w)) = length (xs @ drop (m + length xs) (rotate s r))"
    using m len by simp
  ultimately have "drop m (rotate s ?w) = xs @ drop (m + length xs) (rotate s r)"
    and "take m (rotate s ?w) = take m (rotate s r)"
    by (metis append_eq_append_conv)+
  then show ?thesis
    unfolding ring_read_def by (metis append_eq_conv_conj take_add)
qed

section \<open>Invariant and contents\<close>

text \<open>
  The size is a power of two of at least 2, the buffer holds that many elements, the bytes
  of the buffer are counted by 32 bits, and not more elements are in the buffer than fit.
\<close>

definition fifo_size :: "kfifo \<Rightarrow> nat" where
  "fifo_size f = unat (kf_mask f) + 1"

definition fifo_bytes :: "kfifo \<Rightarrow> nat" where
  "fifo_bytes f = fifo_size f * unat (kf_esize f)"

definition fifo_ok :: "kfifo \<Rightarrow> bool" where
  "fifo_ok f \<longleftrightarrow>
     (\<exists>k\<in>{1..31}. kf_mask f = mask k) \<and> kf_esize f \<noteq> 0 \<and> fifo_bytes f < 2 ^ 32
     \<and> (case kf_data f of None \<Rightarrow> False | Some d \<Rightarrow> fifo_bytes f \<le> length d)
     \<and> unat (kf_in f - kf_out f) \<le> fifo_size f"

definition fifo_pos :: "kfifo \<Rightarrow> u32 \<Rightarrow> nat" where
  "fifo_pos f i = unat (i AND kf_mask f) * unat (kf_esize f)"

definition fifo_ring :: "kfifo \<Rightarrow> u8 list" where
  "fifo_ring f = (case kf_data f of None \<Rightarrow> [] | Some d \<Rightarrow> take (fifo_bytes f) d)"

definition contents :: "kfifo \<Rightarrow> u8 list" where
  "contents f = ring_read (fifo_ring f) (fifo_pos f (kf_out f)) (unat (kfifo_len f) * unat (kf_esize f))"

lemma fifo_size_exp:
  assumes "kf_mask f = mask k" and "k \<in> {1..31}"
  shows "fifo_size f = 2 ^ k"
  using assms by (simp add: fifo_size_def unat_mask_word)

lemma unat_and_fifo_mask:
  assumes "fifo_ok f"
  shows "unat (i AND kf_mask f) = unat i mod fifo_size f"
proof -
  from assms obtain k where k: "kf_mask f = mask k" "k \<in> {1..31}"
    by (auto simp: fifo_ok_def)
  have "i AND mask k = take_bit k i"
    by (simp add: take_bit_eq_mask)
  then show ?thesis
    by (simp add: k(1) fifo_size_exp [OF k] unat_take_bit)
qed

lemma fifo_okD:
  assumes "fifo_ok f"
  shows "0 < unat (kf_esize f)" and "fifo_bytes f < 2 ^ 32" and "2 \<le> fifo_size f" and "fifo_size f \<le> 2 ^ 31"
    and "length (fifo_ring f) = fifo_bytes f" and "unat (kfifo_len f) \<le> fifo_size f"
    and "fifo_pos f i < fifo_bytes f" and "0 < fifo_bytes f"
proof -
  from assms obtain k where k: "kf_mask f = mask k" "k \<in> {1..31}"
    by (auto simp: fifo_ok_def)
  have "(2::nat) ^ 1 \<le> 2 ^ k" "(2::nat) ^ k \<le> 2 ^ 31"
    using k(2) by (intro power_increasing; simp)+
  then show sz: "2 \<le> fifo_size f" "fifo_size f \<le> 2 ^ 31"
    by (simp_all only: fifo_size_exp [OF k] power_one_right)
  show e: "0 < unat (kf_esize f)"
    using assms by (simp add: fifo_ok_def unat_gt_0)
  show "fifo_bytes f < 2 ^ 32" "length (fifo_ring f) = fifo_bytes f" "unat (kfifo_len f) \<le> fifo_size f"
    using assms by (auto simp: fifo_ok_def fifo_ring_def kfifo_len_def split: option.splits)
  have "unat (i AND kf_mask f) < fifo_size f"
    using sz by (simp add: unat_and_fifo_mask [OF assms])
  with e show "fifo_pos f i < fifo_bytes f"
    by (simp add: fifo_pos_def fifo_bytes_def)
  from sz e show "0 < fifo_bytes f"
    by (simp add: fifo_bytes_def)
qed

text \<open>Indices that run on as 32-bit words select the positions of the ring in turn.\<close>

lemma fifo_pos_add:
  assumes "fifo_ok f"
  shows "fifo_pos f (i + n) = (fifo_pos f i + unat n * unat (kf_esize f)) mod fifo_bytes f"
proof -
  from assms obtain k where k: "kf_mask f = mask k" "k \<in> {1..31}"
    by (auto simp: fifo_ok_def)
  have d: "fifo_size f dvd 2 ^ 32"
    using k(2) unfolding fifo_size_exp [OF k] by (intro le_imp_power_dvd) simp
  have "unat (i + n) mod fifo_size f = (unat i mod fifo_size f + unat n) mod fifo_size f"
    using d by (simp add: unat_word_ariths mod_mod_cancel mod_add_left_eq)
  then show ?thesis
    by (simp add: fifo_pos_def fifo_bytes_def unat_and_fifo_mask [OF assms] mult_mod_left distrib_right)
qed

lemma fifo_bytes_mono:
  "n \<le> fifo_size f \<Longrightarrow> n * unat (kf_esize f) \<le> fifo_bytes f"
  by (simp add: fifo_bytes_def)

lemma in_bytes_unat:
  assumes "fifo_ok f" and "unat n \<le> fifo_size f"
  obtains off sz len where "in_bytes f n i = (off, sz, len)"
    and "unat off = fifo_pos f i" and "unat sz = fifo_bytes f" and "unat len = unat n * unat (kf_esize f)"
proof -
  let ?off = "(i AND kf_mask f) * kf_esize f"
  let ?sz = "(kf_mask f + 1) * kf_esize f"
  let ?len = "n * kf_esize f"
  have "in_bytes f n i = (?off, ?sz, ?len)"
    by (simp add: in_bytes_def Let_def)
  moreover note ok = fifo_okD [OF assms(1)]
  have "unat ?off = fifo_pos f i"
    using ok(2) ok(7) [of i] by (simp add: unat_word_ariths fifo_pos_def)
  moreover have "unat (kf_mask f + 1) = fifo_size f"
    using ok(4) by (simp add: unat_word_ariths fifo_size_def)
  then have "unat ?sz = fifo_bytes f"
    using ok(2) by (simp add: unat_word_ariths fifo_bytes_def)
  moreover have "unat ?len = unat n * unat (kf_esize f)"
    using ok(2) fifo_bytes_mono [OF assms(2)] by (simp add: unat_word_ariths)
  ultimately show thesis
    by (rule that)
qed

lemma fifo_data:
  assumes "fifo_ok f"
  obtains d where "kf_data f = Some (fifo_ring f @ d)"
proof -
  from assms obtain d where "kf_data f = Some d" "fifo_bytes f \<le> length d"
    by (auto simp: fifo_ok_def split: option.splits)
  then have "kf_data f = Some (fifo_ring f @ drop (fifo_bytes f) d)"
    by (simp add: fifo_ring_def)
  then show thesis by (rule that)
qed

lemma unat_min: "unat (min a b :: 'a::len word) = min (unat a) (unat b)"
  by (simp add: min_def word_le_nat_alt)

lemma ring_split:
  assumes ok: "fifo_ok f" and n: "unat n \<le> fifo_size f"
  obtains off sz len l where "in_bytes f n i = (off, sz, len)" and "l = min len (sz - off)"
    and "unat off = fifo_pos f i" and "unat len = unat n * unat (kf_esize f)"
    and "unat off < length (fifo_ring f)" and "unat len \<le> length (fifo_ring f)"
    and "unat l = min (unat len) (length (fifo_ring f) - unat off)" and "unat (len - l) = unat len - unat l"
proof -
  from in_bytes_unat [OF ok n, of i] obtain off sz len where
    b: "in_bytes f n i = (off, sz, len)"
    "unat off = fifo_pos f i" "unat sz = fifo_bytes f" "unat len = unat n * unat (kf_esize f)" .
  let ?l = "min len (sz - off)"
  have off: "unat off < length (fifo_ring f)" and len: "unat len \<le> length (fifo_ring f)"
    using fifo_okD(5,7) [OF ok] fifo_bytes_mono [OF n] b by simp_all
  have "unat (sz - off) = length (fifo_ring f) - unat off"
    using off b fifo_okD(5) [OF ok] by (simp add: unat_sub word_le_nat_alt)
  then have "unat ?l = min (unat len) (length (fifo_ring f) - unat off)"
    by (simp add: unat_min)
  moreover have "unat (len - ?l) = unat len - unat ?l"
    by (simp add: unat_sub word_le_nat_alt unat_min)
  ultimately show thesis
    using b off len by (intro that [of off sz len ?l]) simp_all
qed

lemma kfifo_copy_out_ring:
  assumes ok: "fifo_ok f" and n: "unat n \<le> fifo_size f"
  shows "kfifo_copy_out f n i = Some (ring_read (fifo_ring f) (fifo_pos f i) (unat n * unat (kf_esize f)))"
proof -
  from ring_split [OF ok n, of i] obtain off sz len l where
    b: "in_bytes f n i = (off, sz, len)" and l_def: "l = min len (sz - off)"
    and u: "unat off = fifo_pos f i" "unat len = unat n * unat (kf_esize f)"
    and off: "unat off < length (fifo_ring f)" and len: "unat len \<le> length (fifo_ring f)"
    and l: "unat l = min (unat len) (length (fifo_ring f) - unat off)" and ll: "unat (len - l) = unat len - unat l" .
  from fifo_data [OF ok] obtain d where d: "kf_data f = Some (fifo_ring f @ d)" .
  from l ll len off have "memcpy_from (fifo_ring f @ d) off l = Some (take (unat l) (drop (unat off) (fifo_ring f)))"
    and "memcpy_from (fifo_ring f @ d) 0 (len - l) = Some (take (unat len - unat l) (fifo_ring f))"
    by (auto simp: memcpy_from_def)
  with ring_read_split [OF off len] show ?thesis
    by (simp add: kfifo_copy_out_def b d Let_def flip: l_def) (simp add: l u ll)
qed

lemma kfifo_copy_in_ring:
  assumes ok: "fifo_ok f" and n: "unat n \<le> fifo_size f" and src: "unat n * unat (kf_esize f) \<le> length src"
  obtains d where "kfifo_copy_in f src n i
    = Some (f\<lparr>kf_data := Some (ring_write (fifo_ring f) (fifo_pos f i) (take (unat n * unat (kf_esize f)) src) @ d)\<rparr>)"
proof -
  from ring_split [OF ok n, of i] obtain off sz len l where
    b: "in_bytes f n i = (off, sz, len)" and l_def: "l = min len (sz - off)"
    and u: "unat off = fifo_pos f i" "unat len = unat n * unat (kf_esize f)"
    and off: "unat off < length (fifo_ring f)" and len: "unat len \<le> length (fifo_ring f)"
    and l: "unat l = min (unat len) (length (fifo_ring f) - unat off)" and ll: "unat (len - l) = unat len - unat l" .
  from fifo_data [OF ok] obtain d where d: "kf_data f = Some (fifo_ring f @ d)" .
  define w where "w = take (unat off) (fifo_ring f) @ take (unat l) src @ drop (unat off + unat l) (fifo_ring f)"
  have lw: "length w = length (fifo_ring f)"
    using l off src u by (simp add: w_def)
  have "memcpy_to (fifo_ring f @ d) off src l = Some (w @ d)"
    using l off src u unfolding memcpy_to_def w_def by (simp; linarith)
  moreover have "memcpy_to (w @ d) 0 (drop (unat l) src) (len - l)
      = Some ((take (unat len - unat l) (drop (unat l) src) @ drop (unat len - unat l) w) @ d)"
  proof -
    have "unat len - unat l \<le> length w" and "unat len - unat l \<le> length src - unat l"
      using src len u by (simp_all add: lw diff_le_mono)
    then show ?thesis
      by (simp add: memcpy_to_def ll)
  qed
  moreover have "take (unat len - unat l) (drop (unat l) src) @ drop (unat len - unat l) w
      = ring_write (fifo_ring f) (unat off) (take (unat len) src)"
    unfolding w_def using ring_write_pieces [OF _ l, of src] src by (simp only: u)
  ultimately have "kfifo_copy_in f src n i
    = Some (f\<lparr>kf_data := Some (ring_write (fifo_ring f) (fifo_pos f i) (take (unat n * unat (kf_esize f)) src) @ d)\<rparr>)"
    by (simp add: kfifo_copy_in_def b d u Let_def flip: l_def)
  then show thesis by (rule that)
qed

lemma unat_kfifo_unused:
  assumes "fifo_ok f"
  shows "unat (kfifo_unused f) = fifo_size f - unat (kfifo_len f)"
proof -
  have "unat (kf_mask f + 1) = fifo_size f"
    using fifo_okD(4) [OF assms] by (simp add: unat_word_ariths fifo_size_def)
  with fifo_okD(6) [OF assms] show ?thesis
    by (simp add: kfifo_unused_def kfifo_len_def unat_sub word_le_nat_alt)
qed

lemma length_contents:
  assumes "fifo_ok f"
  shows "length (contents f) = unat (kfifo_len f) * unat (kf_esize f)"
  using fifo_okD(5,6) [OF assms] fifo_bytes_mono [of "unat (kfifo_len f)" f]
  by (simp add: contents_def ring_read_def)

lemma fifo_pos_in:
  assumes "fifo_ok f"
  shows "fifo_pos f (kf_in f) = (fifo_pos f (kf_out f) + length (contents f)) mod fifo_bytes f"
  using fifo_pos_add [OF assms, of "kf_out f" "kfifo_len f"]
  by (simp add: kfifo_len_def length_contents [OF assms])

text \<open>
  A write behind the elements that are in the buffer, with the new index, appends them.
\<close>

lemma fifo_append:
  assumes ok: "fifo_ok f" and n: "unat (kfifo_len f) + unat n \<le> fifo_size f"
    and xs: "length xs = unat n * unat (kf_esize f)"
    and g: "g = f\<lparr>kf_data := Some (ring_write (fifo_ring f) (fifo_pos f (kf_in f)) xs @ d), kf_in := kf_in f + n\<rparr>"
  shows "fifo_ok g" and "contents g = contents f @ xs" and "fifo_size g = fifo_size f" and "kf_esize g = kf_esize f"
proof -
  have total: "(unat (kfifo_len f) + unat n) * unat (kf_esize f) \<le> fifo_bytes f"
    using n by (rule fifo_bytes_mono)
  have len: "unat (kfifo_len g) = unat (kfifo_len f) + unat n"
  proof -
    have "kfifo_len g = kfifo_len f + n" by (simp add: g kfifo_len_def)
    with n fifo_okD(4) [OF ok] show ?thesis by (simp add: unat_word_ariths)
  qed
  have lw: "length (ring_write (fifo_ring f) (fifo_pos f (kf_in f)) xs) = fifo_bytes f"
    using fifo_okD(5,7) [OF ok] total xs by (simp add: length_ring_write add_mult_distrib)
  show eqs: "fifo_size g = fifo_size f" "kf_esize g = kf_esize f"
    by (simp_all add: g fifo_size_def)
  then have bytes: "fifo_bytes g = fifo_bytes f"
    by (simp add: fifo_bytes_def)
  show "fifo_ok g"
    using ok n len lw eqs bytes by (simp add: fifo_ok_def kfifo_len_def g)
  have ring: "fifo_ring g = ring_write (fifo_ring f) (fifo_pos f (kf_in f)) xs"
    using bytes lw by (simp add: fifo_ring_def g)
  have pos: "fifo_pos g (kf_out g) = fifo_pos f (kf_out f)"
    by (simp add: g fifo_pos_def)
  have "length (contents f) + length xs \<le> length (fifo_ring f)"
    and "fifo_pos f (kf_out f) < length (fifo_ring f)"
    using total xs fifo_okD(5,7) [OF ok] by (simp_all add: length_contents [OF ok] add_mult_distrib)
  from ring_write_append [OF this] have
    "ring_read (fifo_ring g) (fifo_pos g (kf_out g)) (length (contents f) + length xs) = contents f @ xs"
    by (simp add: ring pos fifo_pos_in [OF ok] fifo_okD(5) [OF ok] length_contents [OF ok]) (simp add: contents_def)
  then show "contents g = contents f @ xs"
    by (simp add: contents_def [of g] eqs len xs length_contents [OF ok] add_mult_distrib)
qed

text \<open>Moving the output index on removes elements from the front.\<close>

lemma ring_read_drop:
  assumes "m \<le> n" and "n \<le> length r"
  shows "ring_read r ((s + m) mod length r) (n - m) = drop m (ring_read r s n)"
proof -
  have "rotate ((s + m) mod length r) r = rotate m (rotate s r)"
    by (metis add.commute rotate_conv_mod rotate_rotate)
  with assms show ?thesis
    by (simp add: ring_read_def rotate_le_length drop_take)
qed

lemma fifo_drop:
  assumes ok: "fifo_ok f" and n: "unat n \<le> unat (kfifo_len f)"
    and g: "g = f\<lparr>kf_out := kf_out f + n\<rparr>"
  shows "fifo_ok g" and "contents g = drop (unat n * unat (kf_esize f)) (contents f)"
    and "fifo_size g = fifo_size f" and "kf_esize g = kf_esize f"
proof -
  have len: "unat (kfifo_len g) = unat (kfifo_len f) - unat n"
  proof -
    have "kfifo_len g = kfifo_len f - n" by (simp add: g kfifo_len_def)
    with n show ?thesis by (simp add: unat_sub word_le_nat_alt)
  qed
  show eqs: "fifo_size g = fifo_size f" "kf_esize g = kf_esize f"
    by (simp_all add: g fifo_size_def)
  then have bytes: "fifo_bytes g = fifo_bytes f"
    by (simp add: fifo_bytes_def)
  show "fifo_ok g"
    using ok len eqs bytes by (cases "kf_data f") (auto simp: fifo_ok_def kfifo_len_def g)
  have "fifo_ring g = fifo_ring f"
    using bytes by (cases "kf_data f") (simp_all add: fifo_ring_def g)
  moreover have "fifo_pos g (kf_out g) = (fifo_pos f (kf_out f) + unat n * unat (kf_esize f)) mod length (fifo_ring f)"
    using fifo_pos_add [OF ok, of "kf_out f" n] fifo_okD(5) [OF ok] by (simp add: g fifo_pos_def)
  moreover have "unat n * unat (kf_esize f) \<le> unat (kfifo_len f) * unat (kf_esize f)"
    and "unat (kfifo_len f) * unat (kf_esize f) \<le> length (fifo_ring f)"
    using n fifo_okD(5,6) [OF ok] by (simp_all add: fifo_bytes_mono)
  note ring_read_drop [OF this, of "fifo_pos f (kf_out f)"]
  ultimately show "contents g = drop (unat n * unat (kf_esize f)) (contents f)"
    by (simp add: contents_def eqs len diff_mult_distrib)
qed

section \<open>Elements: refinement of a bounded queue\<close>

text \<open>The specification: a queue of elements of \<open>q_esize\<close> bytes, of which \<open>q_cap\<close> fit.\<close>

record queue =
  q_cap :: nat
  q_esize :: nat
  q_bytes :: "u8 list"

definition q_len :: "queue \<Rightarrow> nat" where
  "q_len q = length (q_bytes q) div q_esize q"

datatype fifo_op = OpIn "u8 list" u32 | OpPeek u32 | OpOut u32 | OpSkip | OpLen | OpAvail | OpEmpty | OpFull | OpReset | OpResetOut

definition of_bool32 :: "bool \<Rightarrow> u32" where
  "of_bool32 b = (if b then 1 else 0)"

fun queue_step :: "queue \<Rightarrow> fifo_op \<Rightarrow> (u32 \<times> u8 list) \<times> queue" where
  "queue_step q (OpIn buf len) =
     (let n = min (unat len) (q_cap q - q_len q)
      in ((of_nat n, []), q\<lparr>q_bytes := q_bytes q @ take (n * q_esize q) buf\<rparr>))"
| "queue_step q (OpPeek len) =
     (let n = min (unat len) (q_len q) in ((of_nat n, take (n * q_esize q) (q_bytes q)), q))"
| "queue_step q (OpOut len) =
     (let n = min (unat len) (q_len q)
      in ((of_nat n, take (n * q_esize q) (q_bytes q)), q\<lparr>q_bytes := drop (n * q_esize q) (q_bytes q)\<rparr>))"
| "queue_step q OpSkip = ((0, []), q\<lparr>q_bytes := drop (q_esize q) (q_bytes q)\<rparr>)"
| "queue_step q OpLen = ((of_nat (q_len q), []), q)"
| "queue_step q OpAvail = ((of_nat (q_cap q - q_len q), []), q)"
| "queue_step q OpEmpty = ((of_bool32 (q_bytes q = []), []), q)"
| "queue_step q OpFull = ((of_bool32 (q_len q = q_cap q), []), q)"
| "queue_step q OpReset = ((0, []), q\<lparr>q_bytes := []\<rparr>)"
| "queue_step q OpResetOut = ((0, []), q\<lparr>q_bytes := []\<rparr>)"

text \<open>The caller supplies as many bytes as it announces, and does not skip in an empty buffer.\<close>

fun queue_permits :: "queue \<Rightarrow> fifo_op \<Rightarrow> bool" where
  "queue_permits q (OpIn buf len) \<longleftrightarrow> unat len * q_esize q \<le> length buf"
| "queue_permits q OpSkip \<longleftrightarrow> q_bytes q \<noteq> []"
| "queue_permits q _ \<longleftrightarrow> True"

fun fifo_step :: "kfifo \<Rightarrow> fifo_op \<Rightarrow> ((u32 \<times> u8 list) \<times> kfifo) option" where
  "fifo_step f (OpIn buf len) = map_option (\<lambda>(n, g). ((n, []), g)) (raw_kfifo_in f buf len)"
| "fifo_step f (OpPeek len) = map_option (\<lambda>(n, d). ((n, d), f)) (kfifo_out_peek f len)"
| "fifo_step f (OpOut len) = map_option (\<lambda>(n, d, g). ((n, d), g)) (raw_kfifo_out f len)"
| "fifo_step f OpSkip = map_option (\<lambda>g. ((0, []), g)) (kfifo_skip f 0)"
| "fifo_step f OpLen = Some ((kfifo_len f, []), f)"
| "fifo_step f OpAvail = Some ((kfifo_avail f 0, []), f)"
| "fifo_step f OpEmpty = Some ((of_bool32 (kfifo_is_empty f), []), f)"
| "fifo_step f OpFull = Some ((of_bool32 (kfifo_is_full f), []), f)"
| "fifo_step f OpReset = Some ((0, []), kfifo_reset f)"
| "fifo_step f OpResetOut = Some ((0, []), kfifo_reset_out f)"

definition queue_of :: "kfifo \<Rightarrow> queue" where
  "queue_of f = \<lparr>q_cap = fifo_size f, q_esize = unat (kf_esize f), q_bytes = contents f\<rparr>"

definition fifo_rel :: "kfifo \<Rightarrow> queue \<Rightarrow> bool" where
  "fifo_rel f q \<longleftrightarrow> fifo_ok f \<and> q = queue_of f"

lemma q_len_queue_of: "fifo_ok f \<Longrightarrow> q_len (queue_of f) = unat (kfifo_len f)"
  using fifo_okD(1) by (simp add: q_len_def queue_of_def length_contents)

lemma queue_of_sel [simp]:
  "q_cap (queue_of f) = fifo_size f" "q_esize (queue_of f) = unat (kf_esize f)" "q_bytes (queue_of f) = contents f"
  by (simp_all add: queue_of_def)

lemma queue_of_update:
  "fifo_size g = fifo_size f \<Longrightarrow> kf_esize g = kf_esize f \<Longrightarrow> queue_of g = (queue_of f)\<lparr>q_bytes := contents g\<rparr>"
  by (simp add: queue_of_def)

lemma raw_kfifo_in_queue:
  assumes ok: "fifo_ok f" and buf: "unat len * unat (kf_esize f) \<le> length buf"
  defines "n \<equiv> min (unat len) (fifo_size f - unat (kfifo_len f))"
  obtains g where "raw_kfifo_in f buf len = Some (of_nat n, g)" and "fifo_ok g"
    and "contents g = contents f @ take (n * unat (kf_esize f)) buf"
    and "fifo_size g = fifo_size f" and "kf_esize g = kf_esize f"
proof -
  define m where "m = (if len > kfifo_unused f then kfifo_unused f else len)"
  have m: "unat m = n"
    by (simp add: m_def n_def unat_kfifo_unused [OF ok] word_less_nat_alt min_def)
  have fits: "unat (kfifo_len f) + unat m \<le> fifo_size f"
    using fifo_okD(6) [OF ok] by (simp add: m n_def)
  have enough: "unat m * unat (kf_esize f) \<le> length buf"
  proof -
    have "unat m \<le> unat len" by (simp add: m n_def)
    from order_trans [OF mult_le_mono1 [OF this] buf] show ?thesis .
  qed
  from fits have "unat m \<le> fifo_size f" by simp
  from kfifo_copy_in_ring [OF ok this enough] obtain d where
    c: "kfifo_copy_in f buf m (kf_in f) = Some (f\<lparr>kf_data := Some (ring_write (fifo_ring f) (fifo_pos f (kf_in f)) (take (unat m * unat (kf_esize f)) buf) @ d)\<rparr>)" .
  define g where "g = f\<lparr>kf_data := Some (ring_write (fifo_ring f) (fifo_pos f (kf_in f)) (take (unat m * unat (kf_esize f)) buf) @ d),
    kf_in := kf_in f + m\<rparr>"
  have "raw_kfifo_in f buf len = Some (m, g)"
    by (simp add: raw_kfifo_in_def Let_def c g_def flip: m_def)
  then have "raw_kfifo_in f buf len = Some (of_nat n, g)"
    by (simp flip: m)
  moreover have "length (take (unat m * unat (kf_esize f)) buf) = unat m * unat (kf_esize f)"
    using enough by simp
  note fifo_append [OF ok fits this g_def, unfolded m]
  ultimately show thesis
    by (rule that)
qed

lemma kfifo_out_peek_queue:
  assumes ok: "fifo_ok f"
  defines "n \<equiv> \<lambda>len. min (unat len) (unat (kfifo_len f))"
  shows "kfifo_out_peek f len = Some (of_nat (n len), take (n len * unat (kf_esize f)) (contents f))"
proof -
  define m where "m = (if len > kf_in f - kf_out f then kf_in f - kf_out f else len)"
  have m: "unat m = n len"
    by (simp add: m_def n_def kfifo_len_def word_less_nat_alt min_def)
  then have le: "unat m \<le> unat (kfifo_len f)"
    by (simp add: n_def)
  then have "unat m \<le> fifo_size f"
    using fifo_okD(6) [OF ok] by simp
  from kfifo_copy_out_ring [OF ok this] le have
    "kfifo_copy_out f m (kf_out f) = Some (take (n len * unat (kf_esize f)) (contents f))"
    by (simp add: contents_def ring_read_def m min_absorb1)
  moreover have "m = of_nat (n len)"
    by (simp flip: m)
  ultimately show ?thesis
    by (simp add: kfifo_out_peek_def Let_def flip: m_def)
qed

lemma raw_kfifo_out_queue:
  assumes ok: "fifo_ok f"
  defines "n \<equiv> \<lambda>len. min (unat len) (unat (kfifo_len f))"
  shows "raw_kfifo_out f len = Some (of_nat (n len), take (n len * unat (kf_esize f)) (contents f),
    f\<lparr>kf_out := kf_out f + of_nat (n len)\<rparr>)"
  using kfifo_out_peek_queue [OF ok, of len] by (simp add: raw_kfifo_out_def n_def)

lemma unat_of_nat_min [simp]: "unat (of_nat (min (unat (a :: u32)) m) :: u32) = min (unat a) m"
  using unsigned_less [where ?'a = nat and w = a] by (simp add: unat_of_nat)

lemma fifo_step_sim:
  assumes "fifo_ok f" and "queue_permits (queue_of f) op"
  shows "\<exists>g. fifo_step f op = Some (fst (queue_step (queue_of f) op), g)
    \<and> fifo_ok g \<and> snd (queue_step (queue_of f) op) = queue_of g"
proof (cases op)
  case (OpIn buf len)
  with assms have "unat len * unat (kf_esize f) \<le> length buf" by simp
  from raw_kfifo_in_queue [OF assms(1) this] obtain g where
    g: "raw_kfifo_in f buf len = Some (of_nat (min (unat len) (fifo_size f - unat (kfifo_len f))), g)" "fifo_ok g"
    "contents g = contents f @ take (min (unat len) (fifo_size f - unat (kfifo_len f)) * unat (kf_esize f)) buf"
    "fifo_size g = fifo_size f" "kf_esize g = kf_esize f" .
  from g OpIn assms(1) queue_of_update [OF g(4,5)] show ?thesis
    by (simp add: q_len_queue_of Let_def)
next
  case (OpPeek len)
  with assms show ?thesis
    by (simp add: q_len_queue_of Let_def kfifo_out_peek_queue)
next
  case (OpOut len)
  let ?n = "of_nat (min (unat len) (unat (kfifo_len f))) :: u32"
  have "unat ?n \<le> unat (kfifo_len f)" by simp
  note g = fifo_drop [OF assms(1) this refl]
  from g OpOut assms(1) queue_of_update [OF g(3,4)] show ?thesis
    by (simp add: q_len_queue_of Let_def raw_kfifo_out_queue)
next
  case OpSkip
  with assms have "contents f \<noteq> []" by simp
  then have "unat (1 :: u32) \<le> unat (kfifo_len f)"
    using length_contents [OF assms(1)] by (cases "kfifo_len f = 0") (auto simp: unat_gt_0 Suc_le_eq)
  note g = fifo_drop [OF assms(1) this refl]
  from g OpSkip queue_of_update [OF g(3,4)] show ?thesis
    by (simp add: kfifo_skip_def)
next
  case OpLen
  with assms(1) show ?thesis by (simp add: q_len_queue_of)
next
  case OpAvail
  have "kfifo_avail f 0 = of_nat (fifo_size f - unat (kfifo_len f))"
    by (simp flip: unat_kfifo_unused [OF assms(1)]) (simp add: kfifo_avail_def kfifo_unused_def kfifo_len_def)
  with OpAvail assms(1) show ?thesis
    by (simp add: q_len_queue_of)
next
  case OpEmpty
  have "contents f = [] \<longleftrightarrow> kf_in f = kf_out f"
    using length_contents [OF assms(1)] fifo_okD(1) [OF assms(1)] by (auto simp: kfifo_len_def unat_eq_0)
  with OpEmpty assms(1) show ?thesis by (simp add: kfifo_is_empty_def)
next
  case OpFull
  have "kfifo_len f > kf_mask f \<longleftrightarrow> unat (kfifo_len f) = fifo_size f"
    using fifo_okD(6) [OF assms(1)] by (auto simp: word_less_nat_alt fifo_size_def)
  with OpFull assms(1) show ?thesis by (simp add: kfifo_is_full_def q_len_queue_of)
next
  case OpReset
  with assms(1) show ?thesis
    by (auto simp: kfifo_reset_def queue_of_def fifo_ok_def fifo_size_def fifo_bytes_def contents_def kfifo_len_def
        ring_read_def split: option.splits)
next
  case OpResetOut
  with assms(1) show ?thesis
    by (auto simp: kfifo_reset_out_def queue_of_def fifo_ok_def fifo_size_def fifo_bytes_def contents_def kfifo_len_def
        ring_read_def split: option.splits)
qed

interpretation elements: simulation fifo_step queue_step queue_permits fifo_rel
  by unfold_locales (use fifo_step_sim in \<open>auto simp: fifo_rel_def\<close>)

text \<open>A fresh buffer satisfies the invariant: the size is rounded to a power of two.\<close>

lemma fls_bounds: "0 < n \<Longrightarrow> 0 < fls n \<and> 2 ^ (fls n - 1) \<le> n \<and> n < 2 ^ fls n"
proof (induction n rule: less_induct)
  case (less n)
  show ?case
  proof (cases "n = 1")
    case True
    then show ?thesis by (simp add: fls.simps [of "Suc 0"])
  next
    case False
    with less.prems have "0 < n div 2" "n div 2 < n" by auto
    with less.IH have ih: "0 < fls (n div 2)" "2 ^ (fls (n div 2) - 1) \<le> n div 2" "n div 2 < 2 ^ fls (n div 2)"
      by auto
    have "fls n = Suc (fls (n div 2))"
      using less.prems by (subst fls.simps) simp
    moreover have "(2::nat) ^ fls (n div 2) = 2 * 2 ^ (fls (n div 2) - 1)"
      using ih(1) by (cases "fls (n div 2)") simp_all
    ultimately show ?thesis
      using ih by (simp; linarith)
  qed
qed

lemma fls_less: "0 < n \<Longrightarrow> n < 2 ^ k \<Longrightarrow> fls n \<le> k"
proof -
  assume "0 < n" and "n < 2 ^ k"
  from fls_bounds [OF this(1)] have "0 < fls n" "(2::nat) ^ (fls n - 1) \<le> n"
    by simp_all
  with \<open>n < 2 ^ k\<close> have "(2::nat) ^ (fls n - 1) < 2 ^ k" by linarith
  then have "fls n - 1 < k" by (rule power_less_imp_less_exp [rotated]) simp
  with \<open>0 < fls n\<close> show ?thesis by simp
qed

text \<open>The least power of two that is not below the argument, and the greatest not above it.\<close>

lemma roundup_pow_of_two_spec:
  assumes "0 < unat n" and "unat n \<le> 2 ^ 63"
  obtains k where "roundup_pow_of_two n = Some (2 ^ k)" and "k \<le> 63" and "unat n \<le> 2 ^ k"
    and "\<And>j. unat n \<le> 2 ^ j \<Longrightarrow> k \<le> j"
proof -
  define m where "m = unat n - 1"
  have m: "unat (n - 1) = m"
    using assms(1) by (simp add: m_def unat_minus_one unat_gt_0)
  have "fls m \<le> 63"
    using assms by (cases "m = 0") (simp_all add: fls_less m_def)
  moreover have "unat n \<le> 2 ^ fls m"
    using fls_bounds [of m] assms(1) by (cases "m = 0") (auto simp: m_def)
  moreover have "fls m \<le> j" if "unat n \<le> 2 ^ j" for j
    using that assms(1) by (cases "m = 0") (auto simp: m_def intro!: fls_less)
  ultimately show thesis
    by (intro that [of "fls m"]) (auto simp: roundup_pow_of_two_def m shl1_def push_bit_eq_mult)
qed

lemma rounddown_pow_of_two_spec:
  assumes "0 < unat n"
  obtains k where "rounddown_pow_of_two n = Some (2 ^ k)" and "2 ^ k \<le> unat n" and "unat n < 2 ^ Suc k" and "k < 64"
proof -
  note b = fls_bounds [OF assms]
  have "fls (unat n) \<le> 64"
    using assms unsigned_less [where ?'a = nat and w = n] by (intro fls_less) simp_all
  with b show thesis
    by (intro that [of "fls (unat n) - 1"])
      (auto simp: rounddown_pow_of_two_def shl1_def push_bit_eq_mult nat_diff_distrib)
qed

lemma fresh_fifo:
  assumes "kf_mask f = mask k" and "k \<in> {1..31}" and "kf_esize f \<noteq> 0" and "2 ^ k * unat (kf_esize f) < 2 ^ 32"
    and "kf_data f = Some d" and "2 ^ k * unat (kf_esize f) \<le> length d" and "kf_in f = kf_out f"
  shows "fifo_rel f \<lparr>q_cap = 2 ^ k, q_esize = unat (kf_esize f), q_bytes = []\<rparr>"
proof -
  have "fifo_ok f"
    using assms fifo_size_exp [OF assms(1,2)] by (auto simp: fifo_ok_def fifo_bytes_def)
  moreover have "contents f = []"
    using assms(7) by (simp add: contents_def kfifo_len_def ring_read_def)
  ultimately show ?thesis
    using fifo_size_exp [OF assms(1,2)] by (simp add: fifo_rel_def queue_of_def)
qed

lemma ucast_exp_minus_1: "k \<le> 31 \<Longrightarrow> ucast (2 ^ k :: u64) - 1 = (mask k :: u32)"
proof -
  have "ucast (2 ^ k :: u64) = (2 ^ k :: u32)"
    by (rule bit_word_eqI) (auto simp: bit_simps)
  then show ?thesis by (simp add: mask_eq_exp_minus_1)
qed

lemma kfifo_alloc_result:
  assumes "unat sz \<le> 2 ^ k" and "\<And>j. unat sz \<le> 2 ^ j \<Longrightarrow> k \<le> j" and "roundup_pow_of_two (ucast sz) = Some (2 ^ k)"
    and "1 < unat sz" and "unat sz \<le> 2 ^ 31"
  shows "kfifo_alloc m f sz esize =
    (case m esize (2 ^ k) of
       None \<Rightarrow> Some (- ENOMEM, f\<lparr>kf_in := 0, kf_out := 0, kf_esize := ucast esize, kf_data := None, kf_mask := 0\<rparr>)
     | Some d \<Rightarrow> Some (0, f\<lparr>kf_in := 0, kf_out := 0, kf_esize := ucast esize, kf_data := Some d, kf_mask := mask k\<rparr>))"
proof -
  from assms(2,5) have "k \<le> 31" by blast
  have u: "ucast (2 ^ k :: u64) = (2 ^ k :: u32)"
    by (rule bit_word_eqI) (auto simp: bit_simps)
  have "k \<noteq> 0"
    using assms(1,4) by (intro notI) simp
  then have "\<not> (2 ^ k :: u32) < 2"
    using \<open>k \<le> 31\<close> power_increasing [of 1 k "2::nat"] by (simp add: word_less_nat_alt unat_exp)
  with u assms(3) ucast_exp_minus_1 [OF \<open>k \<le> 31\<close>] show ?thesis
    by (simp add: kfifo_alloc_def Let_def split: option.split)
qed

lemma kfifo_alloc_EINVAL:
  assumes "sz \<noteq> 0" and "sz = 1 \<or> 2 ^ 31 < unat sz"
  shows "kfifo_alloc m f sz esize
    = Some (- EINVAL, f\<lparr>kf_in := 0, kf_out := 0, kf_esize := ucast esize, kf_data := None, kf_mask := 0\<rparr>)"
proof -
  have b: "0 < unat (ucast sz :: u64)" "unat (ucast sz :: u64) \<le> 2 ^ 32" "unat (ucast sz :: u64) = unat sz"
    using assms(1) unsigned_less [where ?'a = nat and w = sz] by (simp_all add: unat_gt_0 unat_ucast_up)
  then have "unat (ucast sz :: u64) \<le> 2 ^ 63" by simp
  from roundup_pow_of_two_spec [OF b(1) this] obtain k where
    k: "roundup_pow_of_two (ucast sz) = Some (2 ^ k)" "unat sz \<le> 2 ^ k" "\<And>j. unat sz \<le> 2 ^ j \<Longrightarrow> k \<le> j"
    unfolding b(3) by blast
  have "ucast (2 ^ k :: u64) < (2 :: u32)"
  proof (cases "sz = 1")
    case True
    with k(3) [of 0] show ?thesis by simp
  next
    case False
    with assms(2) k(2) have "(2::nat) ^ 31 < 2 ^ k" by linarith
    then have "31 < k" by (rule power_less_imp_less_exp [rotated]) simp
    then have "ucast (2 ^ k :: u64) = (0 :: u32)"
      by (intro bit_word_eqI) (auto simp: bit_simps)
    then show ?thesis by simp
  qed
  with k(1) show ?thesis
    by (simp add: kfifo_alloc_def Let_def)
qed

lemma is_power_of_2_exp:
  assumes "is_power_of_2 n" and "2 ^ k \<le> unat n" and "unat n < 2 ^ Suc k" and "k < 64"
  shows "n = 2 ^ k"
proof (rule ccontr)
  assume "n \<noteq> 2 ^ k"
  then have "unat n \<noteq> unat (2 ^ k :: u64)"
    by (auto dest: unsigned_word_eqI)
  with assms(2,4) have "2 ^ k < unat n"
    by (simp add: unat_exp)
  moreover from this have "unat (n - 1) = unat n - 1"
    by (intro unat_minus_one) auto
  moreover have bit: "bit w k" if "2 ^ k \<le> unat w" "unat w < 2 ^ Suc k" for w :: u64
  proof -
    have "unat w div 2 ^ k = 1"
      using that by (intro div_nat_eqI) simp_all
    then have "bit (unat w) k" by (simp add: bit_iff_odd)
    then show ?thesis by (simp add: bit_unsigned_iff)
  qed
  ultimately have "bit (n AND (n - 1)) k"
    using assms(2,3) by (auto simp: bit_and_iff intro!: bit)
  with assms(1) show False
    by (simp add: is_power_of_2_def)
qed

lemma kfifo_init_result:
  assumes "esize \<noteq> 0" and "n = unat sz div unat esize" and "0 < n"
  obtains k where "2 ^ k \<le> n" and "n < 2 ^ Suc k" and "k \<le> 31"
    and "kfifo_init f buffer sz esize =
      (let g = f\<lparr>kf_in := 0, kf_out := 0, kf_esize := ucast esize, kf_data := Some buffer\<rparr>
       in Some (if n = 1 then (- EINVAL, g\<lparr>kf_mask := 0\<rparr>) else (0, g\<lparr>kf_mask := mask k\<rparr>)))"
proof -
  define m where "m = (ucast sz :: u64) div esize"
  have m: "unat m = n"
    by (simp add: m_def unat_div_distrib unat_ucast_up assms(2))
  with assms(3) have "0 < unat m" by simp
  from rounddown_pow_of_two_spec [OF this] obtain k where
    k: "rounddown_pow_of_two m = Some (2 ^ k)" "2 ^ k \<le> n" "n < 2 ^ Suc k" "k < 64"
    unfolding m .
  have "n \<le> unat sz" by (simp add: assms(2))
  also have "unat sz < 2 ^ 32" using unsigned_less [where ?'a = nat and w = sz] by simp
  finally have "(2::nat) ^ k < 2 ^ 32" using k(2) by simp
  then have "k < 32" by (rule power_less_imp_less_exp [rotated]) simp
  then have k31: "k \<le> 31" by simp
  have p: "(if is_power_of_2 m then Some m else rounddown_pow_of_two m) = Some (2 ^ k)"
    using k is_power_of_2_exp [of m k] m by simp
  have "ucast (2 ^ k :: u64) = (2 ^ k :: u32)"
    by (rule bit_word_eqI) (auto simp: bit_simps)
  moreover have "(2 ^ k :: u32) < 2 \<longleftrightarrow> n = 1"
  proof
    assume "(2 ^ k :: u32) < 2"
    with \<open>k < 32\<close> have "(2::nat) ^ k < 2 ^ 1" by (simp add: word_less_nat_alt unat_exp)
    then have "k < 1" by (rule power_less_imp_less_exp [rotated]) simp
    with k show "n = 1" by simp
  next
    assume "n = 1"
    with k(2) have "(2::nat) ^ k \<le> 2 ^ 0" by simp
    then have "k = 0" using power_le_imp_le_exp [of "2::nat" k 0] by simp
    then show "(2 ^ k :: u32) < 2" by simp
  qed
  ultimately have "kfifo_init f buffer sz esize =
      (let g = f\<lparr>kf_in := 0, kf_out := 0, kf_esize := ucast esize, kf_data := Some buffer\<rparr>
       in Some (if n = 1 then (- EINVAL, g\<lparr>kf_mask := 0\<rparr>) else (0, g\<lparr>kf_mask := mask k\<rparr>)))"
    using assms(1) p ucast_exp_minus_1 [OF k31] by (simp add: kfifo_init_def Let_def flip: m_def)
  with k(2,3) k31 show thesis by (rule that)
qed

end
