(* ===== verification/KfifoRecord.thy ===== *)
theory KfifoRecord
  imports Kfifo
begin

text \<open>
  The record operations of \<open>lib/src/linux/kfifo.c\<close>: a record is its length, in one or two
  bytes, and its bytes.  They refine a queue of byte strings that is bounded by the bytes of
  the buffer; the refinement holds for records whose length the header can count, and
  \<open>__kfifo_in_r\<close> does not check that.
\<close>

section \<open>Single bytes\<close>

lemma ring_write_byte:
  "i < length r \<Longrightarrow> ring_write r i [v] = r[i := v]"
  by (simp add: ring_write_def Let_def upd_conv_take_nth_drop min_def)

lemma fifo_pos_byte: "kf_esize f = 1 \<Longrightarrow> fifo_pos f i = unat (i AND kf_mask f)"
  by (simp add: fifo_pos_def)

lemma KFIFO_POKE_append:
  assumes ok: "fifo_ok f" and e: "kf_esize f = 1" and room: "length (contents f) < fifo_size f"
    and d: "kf_data f = Some data"
  obtains data' g where "KFIFO_POKE data (kf_in f) (kf_mask f) v = Some data'"
    and "g = f\<lparr>kf_data := Some data', kf_in := kf_in f + 1\<rparr>"
    and "fifo_ok g" and "contents g = contents f @ [v]" and "fifo_size g = fifo_size f" and "kf_esize g = 1"
proof -
  from fifo_data [OF ok] d obtain r where r: "data = fifo_ring f @ r" by auto
  have i: "unat (kf_in f AND kf_mask f) < length (fifo_ring f)"
    using fifo_okD(5,7) [OF ok] by (simp flip: fifo_pos_byte [OF e])
  define data' where "data' = ring_write (fifo_ring f) (fifo_pos f (kf_in f)) [v] @ r"
  have poke: "KFIFO_POKE data (kf_in f) (kf_mask f) v = Some data'"
    using i by (simp add: KFIFO_POKE_def Let_def r data'_def fifo_pos_byte [OF e] ring_write_byte list_update_append)
  have n: "unat (kfifo_len f) + unat (1 :: u32) \<le> fifo_size f"
    and l: "length [v] = unat (1 :: u32) * unat (kf_esize f)"
    using room by (simp_all add: length_contents [OF ok] e)
  define g where "g = f\<lparr>kf_data := Some data', kf_in := kf_in f + 1\<rparr>"
  note fifo_append [OF ok n l g_def [unfolded data'_def]]
  with e have "fifo_ok g" "contents g = contents f @ [v]" "fifo_size g = fifo_size f" "kf_esize g = 1"
    by simp_all
  with poke g_def show thesis by (rule that)
qed

lemma KFIFO_PEEK_hd:
  assumes ok: "fifo_ok f" and e: "kf_esize f = 1" and ne: "contents f \<noteq> []" and d: "kf_data f = Some data"
  shows "KFIFO_PEEK data (kf_out f) (kf_mask f) = Some (hd (contents f))"
proof -
  from fifo_data [OF ok] d obtain r where r: "data = fifo_ring f @ r" by auto
  define i where "i = unat (kf_out f AND kf_mask f)"
  have i: "i < length (fifo_ring f)"
    using fifo_okD(5,7) [OF ok] by (simp add: i_def flip: fifo_pos_byte [OF e])
  have "hd (contents f) = hd (rotate i (fifo_ring f))"
    using ne by (simp add: contents_def ring_read_def fifo_pos_byte [OF e] i_def hd_take)
  also have "\<dots> = fifo_ring f ! i"
    using i by (subst hd_rotate_conv_nth) auto
  finally show ?thesis
    using i by (simp add: KFIFO_PEEK_def Let_def r nth_append i_def)
qed

lemma in_bytes_update: "in_bytes (f\<lparr>kf_in := x\<rparr>) = in_bytes f" "in_bytes (f\<lparr>kf_out := x\<rparr>) = in_bytes f"
  by (simp_all add: in_bytes_def fun_eq_iff)

lemma kfifo_copy_in_update: "kfifo_copy_in (f\<lparr>kf_in := x\<rparr>) src n i = map_option (\<lambda>g. g\<lparr>kf_in := x\<rparr>) (kfifo_copy_in f src n i)"
  unfolding kfifo_copy_in_def in_bytes_update
  by (cases f) (simp add: Let_def option.map_comp comp_def split: option.split prod.split)

lemma kfifo_copy_out_update: "kfifo_copy_out (f\<lparr>kf_out := x\<rparr>) n i = kfifo_copy_out f n i"
  unfolding kfifo_copy_out_def in_bytes_update by simp

section \<open>Records: refinement of a queue of byte strings\<close>

record rec_queue =
  rq_cap :: nat
  rq_recs :: "u8 list list"

definition header :: "nat \<Rightarrow> nat \<Rightarrow> u8 list" where
  "header recsize n = (if recsize = 1 then [of_nat n] else [of_nat n, of_nat (n div 256)])"

definition encode :: "nat \<Rightarrow> u8 list \<Rightarrow> u8 list" where
  "encode recsize r = header recsize (length r) @ r"

definition rq_used :: "nat \<Rightarrow> rec_queue \<Rightarrow> nat" where
  "rq_used recsize q = sum_list (map (\<lambda>r. recsize + length r) (rq_recs q))"

datatype rec_op = RecIn "u8 list" u32 | RecPeek u32 | RecOut u32 | RecLen | RecSkip | RecAvail

fun rec_queue_step :: "nat \<Rightarrow> rec_queue \<Rightarrow> rec_op \<Rightarrow> (u32 \<times> u8 list) \<times> rec_queue" where
  "rec_queue_step recsize q (RecIn buf len) =
     (if unat len + recsize > rq_cap q - rq_used recsize q then ((0, []), q)
      else ((len, []), q\<lparr>rq_recs := rq_recs q @ [take (unat len) buf]\<rparr>))"
| "rec_queue_step recsize q (RecPeek len) =
     (case rq_recs q of
        [] \<Rightarrow> ((0, []), q)
      | r # rs \<Rightarrow> ((of_nat (min (unat len) (length r)), take (unat len) r), q))"
| "rec_queue_step recsize q (RecOut len) =
     (case rq_recs q of
        [] \<Rightarrow> ((0, []), q)
      | r # rs \<Rightarrow> ((of_nat (min (unat len) (length r)), take (unat len) r), q\<lparr>rq_recs := rs\<rparr>))"
| "rec_queue_step recsize q RecLen = ((of_nat (length (hd (rq_recs q))), []), q)"
| "rec_queue_step recsize q RecSkip = ((0, []), q\<lparr>rq_recs := tl (rq_recs q)\<rparr>)"
| "rec_queue_step recsize q RecAvail =
     ((of_nat (min (rq_cap q - rq_used recsize q - recsize) (256 ^ recsize - 1)), []), q)"

text \<open>
  The caller supplies the bytes it announces and no record longer than the header counts,
  and asks for the length of a record or skips one only when there is one.
\<close>

fun rec_permits :: "nat \<Rightarrow> rec_queue \<Rightarrow> rec_op \<Rightarrow> bool" where
  "rec_permits recsize q (RecIn buf len) \<longleftrightarrow> unat len \<le> length buf \<and> unat len < 256 ^ recsize"
| "rec_permits recsize q RecLen \<longleftrightarrow> rq_recs q \<noteq> []"
| "rec_permits recsize q RecSkip \<longleftrightarrow> rq_recs q \<noteq> []"
| "rec_permits recsize q _ \<longleftrightarrow> True"

fun rec_step :: "nat \<Rightarrow> kfifo \<Rightarrow> rec_op \<Rightarrow> ((u32 \<times> u8 list) \<times> kfifo) option" where
  "rec_step recsize f (RecIn buf len) = map_option (\<lambda>(n, g). ((n, []), g)) (kfifo_in_r f buf len recsize)"
| "rec_step recsize f (RecPeek len) = map_option (\<lambda>(n, d). ((n, d), f)) (kfifo_out_peek_r f len recsize)"
| "rec_step recsize f (RecOut len) = map_option (\<lambda>(n, d, g). ((n, d), g)) (kfifo_out_r f len recsize)"
| "rec_step recsize f RecLen = map_option (\<lambda>n. ((n, []), f)) (kfifo_len_r f recsize)"
| "rec_step recsize f RecSkip = map_option (\<lambda>g. ((0, []), g)) (kfifo_skip f recsize)"
| "rec_step recsize f RecAvail = Some ((kfifo_avail f recsize, []), f)"

definition rec_rel :: "nat \<Rightarrow> kfifo \<Rightarrow> rec_queue \<Rightarrow> bool" where
  "rec_rel recsize f q \<longleftrightarrow>
     fifo_ok f \<and> kf_esize f = 1 \<and> rq_cap q = fifo_size f
     \<and> contents f = concat (map (encode recsize) (rq_recs q))
     \<and> (\<forall>r\<in>set (rq_recs q). length r < 256 ^ recsize)"

lemma length_header: "recsize \<in> {1, 2} \<Longrightarrow> length (header recsize n) = recsize"
  by (auto simp: header_def)

lemma rq_used_contents:
  assumes "recsize \<in> {1, 2}" and "rec_rel recsize f q"
  shows "rq_used recsize q = unat (kfifo_len f)"
proof -
  have "length (contents f) = rq_used recsize q"
    using assms by (simp add: rec_rel_def rq_used_def length_concat comp_def encode_def length_header)
  moreover have "fifo_ok f" "kf_esize f = 1"
    using assms(2) by (simp_all add: rec_rel_def)
  ultimately show ?thesis
    by (simp add: length_contents)
qed

text \<open>The length goes in front of the bytes.\<close>

lemma kfifo_poke_n_append:
  assumes ok: "fifo_ok f" and e: "kf_esize f = 1" and rs: "recsize \<in> {1, 2}"
    and room: "length (contents f) + recsize \<le> fifo_size f"
  obtains h g where "kfifo_poke_n f n recsize = Some h" and "g = h\<lparr>kf_in := kf_in f + of_nat recsize\<rparr>"
    and "kf_in h = kf_in f" and "fifo_ok g" and "contents g = contents f @ header recsize (unat n)"
    and "fifo_size g = fifo_size f" and "kf_esize g = 1"
proof -
  from fifo_data [OF ok] obtain data where d: "kf_data f = Some data" by auto
  have "length (contents f) < fifo_size f" using room rs by auto
  from KFIFO_POKE_append [OF ok e this d, of "ucast n"] obtain data1 g1 where
    p1: "KFIFO_POKE data (kf_in f) (kf_mask f) (ucast n) = Some data1"
    and g1: "g1 = f\<lparr>kf_data := Some data1, kf_in := kf_in f + 1\<rparr>" "fifo_ok g1"
    "contents g1 = contents f @ [ucast n]" "fifo_size g1 = fifo_size f" "kf_esize g1 = 1" .
  have low: "(of_nat (unat n) :: u8) = ucast n"
    by (simp add: of_nat_unat)
  show thesis
  proof (cases "recsize = 1")
    case True
    with p1 g1 d low show thesis
      by (intro that [of "f\<lparr>kf_data := Some data1\<rparr>" g1]) (auto simp: kfifo_poke_n_def header_def)
  next
    case False
    with rs have rs2: "recsize = 2" by auto
    have "kf_data g1 = Some data1" by (simp add: g1)
    moreover have "length (contents g1) < fifo_size g1"
      using room rs2 by (simp add: g1(3,4))
    ultimately obtain data2 g2 where
      p2: "KFIFO_POKE data1 (kf_in g1) (kf_mask g1) (ucast (drop_bit 8 n)) = Some data2"
      and g2: "g2 = g1\<lparr>kf_data := Some data2, kf_in := kf_in g1 + 1\<rparr>" "fifo_ok g2"
      "contents g2 = contents g1 @ [ucast (drop_bit 8 n)]" "fifo_size g2 = fifo_size g1" "kf_esize g2 = 1"
      using KFIFO_POKE_append [OF g1(2) g1(5)] by metis
    have high: "(of_nat (unat n div 256) :: u8) = ucast (drop_bit 8 n)"
    proof -
      have "unat n div 256 = unat (drop_bit 8 n)"
        by (simp add: unat_drop_bit_eq) (simp add: drop_bit_eq_div unat_div_distrib)
      then show ?thesis by (simp only: of_nat_unat)
    qed
    have "kfifo_poke_n f n recsize = Some (f\<lparr>kf_data := Some data2\<rparr>)"
      using p1 p2 by (simp add: kfifo_poke_n_def d rs2 g1(1))
    then show thesis
      using g1 g2 rs2 low high
      by (intro that [of "f\<lparr>kf_data := Some data2\<rparr>" g2]) (auto simp: header_def)
  qed
qed

lemma kfifo_in_r_spec:
  assumes ok: "fifo_ok f" and e: "kf_esize f = 1" and rs: "recsize \<in> {1, 2}" and buf: "unat len \<le> length buf"
    and room: "length (contents f) + (unat len + recsize) \<le> fifo_size f"
  obtains g where "kfifo_in_r f buf len recsize = Some (len, g)" and "fifo_ok g"
    and "contents g = contents f @ header recsize (unat len) @ take (unat len) buf"
    and "fifo_size g = fifo_size f" and "kf_esize g = 1"
proof -
  from room have "length (contents f) + recsize \<le> fifo_size f" by simp
  from kfifo_poke_n_append [OF ok e rs this, of len] obtain h g where
    h: "kfifo_poke_n f len recsize = Some h" "g = h\<lparr>kf_in := kf_in f + of_nat recsize\<rparr>" "kf_in h = kf_in f"
    and g: "fifo_ok g" "contents g = contents f @ header recsize (unat len)" "fifo_size g = fifo_size f" "kf_esize g = 1" .
  have fits: "unat (kfifo_len g) + unat len \<le> fifo_size g"
    using room length_contents [OF g(1)] by (simp add: g length_header [OF rs])
  then have n: "unat len \<le> fifo_size g" by simp
  have enough: "unat len * unat (kf_esize g) \<le> length buf" using buf by (simp add: g)
  from kfifo_copy_in_ring [OF g(1) n enough, of "kf_in g"] obtain d where
    c: "kfifo_copy_in g buf len (kf_in g)
      = Some (g\<lparr>kf_data := Some (ring_write (fifo_ring g) (fifo_pos g (kf_in g)) (take (unat len) buf) @ d)\<rparr>)"
    by (auto simp: g(4))
  have l: "length (take (unat len) buf) = unat len * unat (kf_esize g)" using buf by (simp add: g)
  define k where "k = g\<lparr>kf_data := Some (ring_write (fifo_ring g) (fifo_pos g (kf_in g)) (take (unat len) buf) @ d),
    kf_in := kf_in g + len\<rparr>"
  note fifo_append [OF g(1) fits l k_def]
  moreover have "kfifo_in_r f buf len recsize = Some (len, k)"
  proof -
    have "\<not> unat len + recsize > unat (kfifo_unused f)"
      using room length_contents [OF ok] by (simp add: unat_kfifo_unused [OF ok] e)
    moreover from c obtain h' where h': "kfifo_copy_in h buf len (kf_in f + of_nat recsize) = Some h'"
      "h'\<lparr>kf_in := kf_in g\<rparr> = k\<lparr>kf_in := kf_in g\<rparr>"
      by (auto simp: h kfifo_copy_in_update k_def)
    moreover have "kf_in h' = kf_in f"
      using h'(1) h(3) by (auto simp: kfifo_copy_in_def Let_def split: option.splits prod.splits)
    then have "kf_in h' + (len + of_nat recsize) = kf_in k"
      by (simp add: k_def h(2))
    moreover have "h'\<lparr>kf_in := kf_in k\<rparr> = k"
      using arg_cong [OF h'(2), of "kf_in_update (\<lambda>_. kf_in k)"] by simp
    ultimately show ?thesis
      using h by (simp add: kfifo_in_r_def)
  qed
  ultimately show thesis
    by (intro that [of k]) (simp_all add: g)
qed

text \<open>The length of the first record, and its bytes behind the header.\<close>

lemma header_value:
  fixes n :: nat
  assumes "recsize \<in> {1, 2}" and "n < 256 ^ recsize"
  shows "recsize = 1 \<Longrightarrow> ucast (of_nat n :: u8) = (of_nat n :: u32)"
    and "recsize = 2 \<Longrightarrow> ucast (of_nat n :: u8) OR push_bit 8 (ucast (of_nat (n div 256) :: u8)) = (of_nat n :: u32)"
proof -
  show "ucast (of_nat n :: u8) = (of_nat n :: u32)" if "recsize = 1"
    using assms that by (intro unsigned_word_eqI [where ?'a = nat]) (simp add: unat_ucast_up unat_of_nat)
  define q where "q = n div 256"
  have q: "bit q j \<longleftrightarrow> bit n (8 + j)" for j
    using fun_cong [OF bit_drop_bit_eq [of 8 n], of j] by (simp add: drop_bit_eq_div q_def)
  have "(ucast (of_nat n :: u8) OR push_bit 8 (ucast (of_nat q :: u8)) :: u32) = of_nat n" if "recsize = 2"
  proof (rule bit_word_eqI)
    fix i assume i: "i < LENGTH(32)"
    have "n < 2 ^ 16" using assms that by simp
    then have high: "\<not> bit n i" if "16 \<le> i"
      using order_less_le_trans [OF \<open>n < 2 ^ 16\<close> power_increasing [OF that, of "2::nat"]] by (simp add: bit_iff_odd)
    have "bit (ucast (of_nat n :: u8) OR push_bit 8 (ucast (of_nat q :: u8)) :: u32) i
        \<longleftrightarrow> i < 8 \<and> bit n i \<or> 8 \<le> i \<and> i - 8 < 8 \<and> bit q (i - 8)"
      using i by (auto simp: bit_or_iff bit_unsigned_iff bit_push_bit_iff bit_of_nat_iff)
    also have "\<dots> \<longleftrightarrow> bit n i"
      using high by (cases "8 \<le> i"; cases "16 \<le> i") (auto simp: q not_le)
    finally show "bit (ucast (of_nat n :: u8) OR push_bit 8 (ucast (of_nat q :: u8)) :: u32) i \<longleftrightarrow> bit (of_nat n :: u32) i"
      using i by (simp add: bit_of_nat_iff)
  qed
  then show "ucast (of_nat n :: u8) OR push_bit 8 (ucast (of_nat (n div 256) :: u8)) = (of_nat n :: u32)" if "recsize = 2"
    using that by (simp only: q_def)
qed

lemma kfifo_peek_n_header:
  assumes ok: "fifo_ok f" and e: "kf_esize f = 1" and rs: "recsize \<in> {1, 2}"
    and c: "contents f = header recsize n @ rest" and n: "n < 256 ^ recsize"
  shows "kfifo_peek_n f recsize = Some (of_nat n)"
proof -
  from fifo_data [OF ok] obtain data where d: "kf_data f = Some data" by auto
  have ne: "contents f \<noteq> []" and hd: "hd (contents f) = of_nat n"
    using c by (simp_all add: header_def split: if_splits)
  note p1 = KFIFO_PEEK_hd [OF ok e ne d, unfolded hd]
  show ?thesis
  proof (cases "recsize = 1")
    case True
    with p1 header_value(1) [OF rs n] show ?thesis
      by (simp add: kfifo_peek_n_def d)
  next
    case False
    with rs have rs2: "recsize = 2" by auto
    define g where "g = f\<lparr>kf_out := kf_out f + 1\<rparr>"
    have "unat (1 :: u32) \<le> unat (kfifo_len f)"
      using length_contents [OF ok] ne by (cases "unat (kfifo_len f)") (simp_all add: e)
    note g = fifo_drop [OF ok this g_def]
    have "contents g = of_nat (n div 256) # rest"
      using g(2) c rs2 by (simp add: e header_def)
    with KFIFO_PEEK_hd [OF g(1), of data] e d have
      "KFIFO_PEEK data (kf_out f + 1) (kf_mask f) = Some (of_nat (n div 256))"
      by (simp add: g_def)
    with p1 header_value(2) [OF rs n rs2] rs2 show ?thesis
      by (simp add: kfifo_peek_n_def d)
  qed
qed

lemma kfifo_out_copy_r_spec:
  assumes ok: "fifo_ok f" and e: "kf_esize f = 1" and rs: "recsize \<in> {1, 2}"
    and c: "contents f = encode recsize r @ rest" and n: "length r < 256 ^ recsize"
  shows "kfifo_out_copy_r f len recsize = Some (of_nat (min (unat len) (length r)), take (unat len) r, of_nat (length r))"
proof -
  define m :: u32 where "m = of_nat (length r)"
  have "length r \<le> unat (kfifo_len f)"
    using length_contents [OF ok] c by (simp add: e encode_def)
  then have m: "unat m = length r"
    using fifo_okD(4,6) [OF ok] by (simp add: m_def unat_of_nat)
  define l where "l = (if len > m then m else len)"
  have l: "unat l = min (unat len) (length r)"
    by (simp add: l_def m word_less_nat_alt min_def)
  define g where "g = f\<lparr>kf_out := kf_out f + of_nat recsize\<rparr>"
  have urs: "unat (of_nat recsize :: u32) = recsize" using rs by auto
  then have "unat (of_nat recsize :: u32) \<le> unat (kfifo_len f)"
    using length_contents [OF ok] c by (simp add: e encode_def length_header [OF rs])
  note g = fifo_drop [OF ok this g_def]
  have cg: "contents g = r @ rest"
    using g(2) c by (simp add: urs e encode_def length_header [OF rs])
  then have "unat l \<le> unat (kfifo_len g)"
    using length_contents [OF g(1)] by (simp add: e g l)
  then have "kfifo_copy_out g l (kf_out g) = Some (take (unat l) (contents g))"
    using kfifo_copy_out_ring [OF g(1), of l "kf_out g"] fifo_okD(6) [OF g(1)]
    by (simp add: contents_def ring_read_def g(4) e min_absorb1)
  then have "kfifo_copy_out f l (kf_out f + of_nat recsize) = Some (take (unat len) r)"
    by (simp add: g_def kfifo_copy_out_update cg [unfolded g_def] l min_def)
  moreover have "l = of_nat (min (unat len) (length r))"
    by (simp flip: l)
  moreover have "kfifo_peek_n f recsize = Some m"
    using kfifo_peek_n_header [OF ok e rs, of "length r" "r @ rest"] c n by (simp add: encode_def m_def)
  ultimately show ?thesis
    by (simp add: kfifo_out_copy_r_def Let_def flip: l_def) (simp add: m_def)
qed

lemma rec_rel_ConsD:
  assumes "rec_rel recsize f q" and "rq_recs q = r # rs"
  shows "contents f = encode recsize r @ concat (map (encode recsize) rs)" and "length r < 256 ^ recsize"
    and "contents f \<noteq> []"
  using assms by (auto simp: rec_rel_def encode_def header_def)

text \<open>Removing the first record: the index moves on behind it.\<close>

lemma rec_rel_drop:
  assumes rel: "rec_rel recsize f q" and rs: "recsize \<in> {1, 2}" and recs: "rq_recs q = r # rest"
    and g: "g = f\<lparr>kf_out := kf_out f + (of_nat (length r) + of_nat recsize)\<rparr>"
  shows "rec_rel recsize g (q\<lparr>rq_recs := rest\<rparr>)"
proof -
  from rel have ok: "fifo_ok f" and e: "kf_esize f = 1" by (simp_all add: rec_rel_def)
  note c = rec_rel_ConsD [OF rel recs]
  define n :: u32 where "n = of_nat (length r) + of_nat recsize"
  have "length r + recsize \<le> unat (kfifo_len f)"
    using length_contents [OF ok] c(1) by (simp add: e encode_def length_header [OF rs])
  moreover from this have "unat n = length r + recsize"
    using fifo_okD(4,6) [OF ok] unfolding n_def by (simp add: unat_of_nat flip: of_nat_add)
  ultimately have "unat n \<le> unat (kfifo_len f)" and un: "unat n = length r + recsize" by simp_all
  from fifo_drop [OF ok this(1), of g] g n_def have
    "fifo_ok g" "contents g = drop (unat n) (contents f)" "fifo_size g = fifo_size f" "kf_esize g = 1"
    by (simp_all add: e)
  with rel recs c(1) show ?thesis
    by (simp add: rec_rel_def un encode_def length_header [OF rs])
qed

lemma kfifo_avail_records:
  assumes rs: "recsize \<in> {1, 2}" and ok: "fifo_ok f"
  shows "kfifo_avail f recsize = of_nat (min (fifo_size f - unat (kfifo_len f) - recsize) (256 ^ recsize - 1))"
proof -
  define a where "a = kf_mask f + 1 - kfifo_len f"
  have a: "unat a = fifo_size f - unat (kfifo_len f)"
    using unat_kfifo_unused [OF ok] by (simp add: a_def kfifo_unused_def kfifo_len_def)
  have urs: "unat (of_nat recsize :: u32) = recsize" using rs by auto
  define M :: u32 where "M = push_bit (8 * recsize) 1 - 1"
  have mx: "unat M = 256 ^ recsize - 1"
    using rs by (auto simp: M_def)
  show ?thesis
  proof (cases "unat a \<le> recsize")
    case True
    then show ?thesis
      using rs by (auto simp: kfifo_avail_def simp flip: a_def a)
  next
    case False
    then have "unat (a - of_nat recsize) = unat a - recsize"
      by (simp add: unat_sub word_le_nat_alt urs)
    then have max_len: "min (unat a - recsize) (256 ^ recsize - 1) = unat (kfifo_max_r (a - of_nat recsize) recsize)"
      unfolding kfifo_max_r_def Let_def M_def [symmetric] by (simp add: word_less_nat_alt mx min_def)
    then have "kfifo_max_r (a - of_nat recsize) recsize = of_nat (min (unat a - recsize) (256 ^ recsize - 1))"
      by (simp add: max_len)
    with False rs show ?thesis
      by (auto simp: kfifo_avail_def Let_def a simp flip: a_def)
  qed
qed

lemma rec_step_sim:
  assumes rs: "recsize \<in> {1, 2}" and rel: "rec_rel recsize f q" and permits: "rec_permits recsize q op"
  shows "\<exists>g. rec_step recsize f op = Some (fst (rec_queue_step recsize q op), g) \<and> rec_rel recsize g (snd (rec_queue_step recsize q op))"
proof -
  from rel have ok: "fifo_ok f" and e: "kf_esize f = 1" and cap: "rq_cap q = fifo_size f"
    by (simp_all add: rec_rel_def)
  have empty: "rq_recs q = [] \<longleftrightarrow> kf_in f = kf_out f"
  proof -
    have "rq_recs q = [] \<longleftrightarrow> contents f = []"
      using rel rec_rel_ConsD(3) [OF rel] by (cases "rq_recs q") (auto simp: rec_rel_def)
    also have "\<dots> \<longleftrightarrow> kf_in f = kf_out f"
      using length_contents [OF ok] by (auto simp: e kfifo_len_def unat_eq_0)
    finally show ?thesis .
  qed
  have used: "rq_used recsize q = unat (kfifo_len f)"
    by (rule rq_used_contents [OF rs rel])
  have out: "kfifo_out_copy_r f len recsize = Some (of_nat (min (unat len) (length r)), take (unat len) r, of_nat (length r))"
    if "rq_recs q = r # rest" for r rest len
    by (rule kfifo_out_copy_r_spec [OF ok e rs rec_rel_ConsD(1,2) [OF rel that]])
  have len: "kfifo_peek_n f recsize = Some (of_nat (length r))" if "rq_recs q = r # rest" for r rest
    using kfifo_peek_n_header [OF ok e rs _ rec_rel_ConsD(2) [OF rel that]] rec_rel_ConsD(1) [OF rel that]
    by (simp add: encode_def)
  show ?thesis
  proof (cases op)
    case (RecIn buf n)
    show ?thesis
    proof (cases "unat n + recsize > fifo_size f - unat (kfifo_len f)")
      case True
      with RecIn rel show ?thesis
        by (simp add: kfifo_in_r_def unat_kfifo_unused [OF ok] cap used)
    next
      case False
      then have "length (contents f) + (unat n + recsize) \<le> fifo_size f"
        using fifo_okD(6) [OF ok] length_contents [OF ok] by (simp add: e)
      moreover from permits RecIn have "unat n \<le> length buf" "unat n < 256 ^ recsize" by simp_all
      ultimately obtain g where "kfifo_in_r f buf n recsize = Some (n, g)" "fifo_ok g"
        "contents g = contents f @ header recsize (unat n) @ take (unat n) buf" "fifo_size g = fifo_size f" "kf_esize g = 1"
        using kfifo_in_r_spec [OF ok e rs] by metis
      with RecIn rel False \<open>unat n \<le> length buf\<close> \<open>unat n < 256 ^ recsize\<close> show ?thesis
        by (simp add: cap used) (simp add: rec_rel_def encode_def)
    qed
  next
    case (RecPeek n)
    with rel empty out show ?thesis
      by (cases "rq_recs q") (auto simp: kfifo_out_peek_r_def)
  next
    case (RecOut n)
    show ?thesis
    proof (cases "rq_recs q")
      case Nil
      with RecOut rel empty show ?thesis by (simp add: kfifo_out_r_def)
    next
      case (Cons r rest)
      with RecOut empty out rec_rel_drop [OF rel rs Cons refl] show ?thesis
        by (simp add: kfifo_out_r_def)
    qed
  next
    case RecLen
    with permits rel len show ?thesis
      by (cases "rq_recs q") (simp_all add: kfifo_len_r_def)
  next
    case RecSkip
    with permits obtain r rest where recs: "rq_recs q = r # rest" by (cases "rq_recs q") auto
    from rs have "recsize \<noteq> 0" by auto
    with RecSkip recs len rec_rel_drop [OF rel rs recs refl] show ?thesis
      by (simp add: kfifo_skip_def kfifo_skip_r_def)
  next
    case RecAvail
    with rel show ?thesis
      by (simp add: kfifo_avail_records [OF rs ok] cap used)
  qed
qed

interpretation records1: simulation "rec_step 1" "rec_queue_step 1" "rec_permits 1" "rec_rel 1"
  by unfold_locales (rule rec_step_sim; simp)

interpretation records2: simulation "rec_step 2" "rec_queue_step 2" "rec_permits 2" "rec_rel 2"
  by unfold_locales (rule rec_step_sim; simp)

lemma fresh_records:
  assumes "fifo_rel f \<lparr>q_cap = c, q_esize = 1, q_bytes = []\<rparr>"
  shows "rec_rel recsize f \<lparr>rq_cap = c, rq_recs = []\<rparr>"
proof -
  from assms have "unat (kf_esize f) = unat (1 :: u32)" "fifo_ok f" "contents f = []" "fifo_size f = c"
    by (simp_all add: fifo_rel_def queue_of_def)
  then show ?thesis
    using unsigned_word_eqI [of "kf_esize f" 1, where ?'a = nat] by (simp add: rec_rel_def)
qed

section \<open>Properties\<close>


definition demo_fifo :: kfifo where
  "demo_fifo = \<lparr>kf_in = 0xFFFFFFFF, kf_out = 0xFFFFFFFE, kf_mask = 1, kf_esize = 2, kf_data = Some [7, 8, 9, 9]\<rparr>"



text \<open>
  C21: records of up to 255 or 65535 bytes, by the size of the header, come out as they went
  in, whole, one at a time and in order; a record that does not fit leaves the buffer as it is.
\<close>

theorem kfifo_records_refine_queue:
  assumes "recsize \<in> {1, 2}" and "rec_rel recsize f q"
    and "permitted_run (rec_permits recsize) (rec_queue_step recsize) q ops"
  shows "\<exists>g. run (rec_step recsize) f ops = Some (fst (arun (rec_queue_step recsize) q ops), g)
    \<and> rec_rel recsize g (snd (arun (rec_queue_step recsize) q ops))"
proof -
  from assms(1) consider "recsize = 1" | "recsize = 2" by auto
  then show ?thesis
  proof cases
    case 1
    then show ?thesis using records1.run_sim [OF assms(2,3) [unfolded 1]] by (simp only: 1)
  next
    case 2
    then show ?thesis using records2.run_sim [OF assms(2,3) [unfolded 2]] by (simp only: 2)
  qed
qed

definition demo_rec_fifo :: kfifo where
  "demo_rec_fifo = \<lparr>kf_in = 0xFFFFFFFE, kf_out = 0xFFFFFFFE, kf_mask = 7, kf_esize = 1, kf_data = Some (replicate 8 0)\<rparr>"

lemma demo_rec_fifo_rel: "rec_rel 2 demo_rec_fifo \<lparr>rq_cap = 8, rq_recs = []\<rparr>"
proof -
  have m: "(7 :: u32) = mask 3" by (simp add: mask_eq_exp_minus_1)
  have "fifo_rel demo_rec_fifo \<lparr>q_cap = 2 ^ 3, q_esize = unat (kf_esize demo_rec_fifo), q_bytes = []\<rparr>"
    by (rule fresh_fifo [where d = "replicate 8 0"]) (simp_all add: demo_rec_fifo_def m)
  then have "fifo_rel demo_rec_fifo \<lparr>q_cap = 8, q_esize = 1, q_bytes = []\<rparr>"
    by (simp add: demo_rec_fifo_def)
  then show ?thesis by (rule fresh_records)
qed

theorem kfifo_records_refine_queue_witness:
  "\<exists>g. run (rec_step 2) demo_rec_fifo [RecIn [1, 2, 3] 3, RecIn [4, 5] 2, RecOut 9, RecIn [4, 5] 2, RecOut 1]
    = Some ([(3, []), (0, []), (3, [1, 2, 3]), (2, []), (1, [4])], g)"
  using kfifo_records_refine_queue [OF _ demo_rec_fifo_rel,
      of "[RecIn [1, 2, 3] 3, RecIn [4, 5] 2, RecOut 9, RecIn [4, 5] 2, RecOut 1]"]
  by (auto simp: rq_used_def)

text \<open>
  \<open>__kfifo_alloc\<close> rounds the size up to the next power of two and gives an empty buffer of
  that capacity; a size of 1 or of more than \<open>2 ^ 31\<close> is \<open>-EINVAL\<close>, a failed allocation
  \<open>-ENOMEM\<close>, and both leave no buffer.  The elements are counted by 32-bit byte offsets, so
  the buffer must be smaller than \<open>2 ^ 32\<close> bytes.
\<close>

theorem kfifo_alloc_correct:
  assumes "sz \<noteq> 0" and "esize \<noteq> 0"
    and "\<And>n d. m esize n = Some d \<Longrightarrow> length d = unat esize * unat n"
  shows "\<exists>r g. kfifo_alloc m f sz esize = Some (r, g) \<and>
    (if sz = 1 \<or> 2 ^ 31 < unat sz then r = - EINVAL \<and> kf_data g = None
     else \<exists>k. unat sz \<le> 2 ^ k \<and> (\<forall>j. unat sz \<le> 2 ^ j \<longrightarrow> k \<le> j) \<and>
       (if m esize (2 ^ k) = None then r = - ENOMEM \<and> kf_data g = None
        else r = 0 \<and> (2 ^ k * unat esize < 2 ^ 32 \<longrightarrow>
          fifo_rel g \<lparr>q_cap = 2 ^ k, q_esize = unat esize, q_bytes = []\<rparr>)))"
proof (cases "sz = 1 \<or> 2 ^ 31 < unat sz")
  case True
  with kfifo_alloc_EINVAL [OF assms(1) True, of m f esize] show ?thesis by simp
next
  case False
  have sz: "unat (ucast sz :: u64) = unat sz" by (simp add: unat_ucast_up)
  have "0 < unat sz" "unat sz \<noteq> 1" and le: "unat sz \<le> 2 ^ 31"
    using assms(1) False unsigned_word_eqI [of sz 1, where ?'a = nat] by (auto simp: unat_gt_0)
  then have gt: "1 < unat sz" by simp
  with le have "0 < unat (ucast sz :: u64)" "unat (ucast sz :: u64) \<le> 2 ^ 63" by (simp_all add: sz)
  from roundup_pow_of_two_spec [OF this] obtain k where
    k: "roundup_pow_of_two (ucast sz) = Some (2 ^ k)" "unat sz \<le> 2 ^ k" "\<And>j. unat sz \<le> 2 ^ j \<Longrightarrow> k \<le> j"
    unfolding sz by blast
  from k(3) [OF le] have "k \<le> 31" .
  have "k \<noteq> 0" using gt k(2) by (intro notI) simp
  note r = kfifo_alloc_result [OF k(2,3,1) gt le, of m f esize]
  show ?thesis
  proof (cases "m esize (2 ^ k)")
    case None
    with r k(2,3) False show ?thesis by auto
  next
    case (Some d)
    have len: "length d = unat esize * 2 ^ k"
      using assms(3) [OF Some] \<open>k \<le> 31\<close> by (simp add: unat_exp)
    define g where "g = f\<lparr>kf_in := 0, kf_out := 0, kf_esize := ucast esize, kf_data := Some d, kf_mask := mask k\<rparr>"
    have "fifo_rel g \<lparr>q_cap = 2 ^ k, q_esize = unat esize, q_bytes = []\<rparr>" if small: "2 ^ k * unat esize < 2 ^ 32"
    proof -
      have "unat esize \<le> 2 ^ k * unat esize" by simp
      with small have "unat esize < 2 ^ 32" by linarith
      then have e: "unat (kf_esize g) = unat esize"
        by (simp add: g_def unsigned_ucast_eq take_bit_nat_eq_self)
      with assms(2) have "kf_esize g \<noteq> 0" by (auto simp: unat_eq_0)
      have "fifo_rel g \<lparr>q_cap = 2 ^ k, q_esize = unat (kf_esize g), q_bytes = []\<rparr>"
        by (rule fresh_fifo [of g k d])
          (use \<open>k \<le> 31\<close> \<open>k \<noteq> 0\<close> small len \<open>kf_esize g \<noteq> 0\<close> in \<open>simp_all only: e\<close>, simp_all add: g_def mult.commute)
      with e show ?thesis by simp
    qed
    with r k(2,3) False Some show ?thesis
      by (auto simp: g_def)
  qed
qed

theorem kfifo_alloc_correct_witness:
  "\<exists>r g. kfifo_alloc (\<lambda>e n. Some (replicate (unat e * unat n) 0)) demo_fifo 3 2 = Some (r, g) \<and> r = 0"
  using kfifo_alloc_correct [of 3 2 "\<lambda>e n. Some (replicate (unat e * unat n) 0)" demo_fifo] by auto

text \<open>
  the length of a record is not checked against its header: a record of 256 bytes with a
  one-byte header is taken, announced as 256 bytes written, and read back as an empty record;
  its bytes are then taken for records.
\<close>

theorem kfifo_in_r_overlong_record:
  assumes "rec_rel 1 f \<lparr>rq_cap = c, rq_recs = []\<rparr>" and "257 \<le> c" and "length buf = 256"
  shows "\<exists>g. kfifo_in_r f buf 256 1 = Some (256, g) \<and> kfifo_len_r g 1 = Some 0
    \<and> contents (the (kfifo_skip_r g 1)) = buf"
proof -
  from assms(1) have ok: "fifo_ok f" and e: "kf_esize f = 1" and c: "contents f = []" "fifo_size f = c"
    by (simp_all add: rec_rel_def)
  have room: "length (contents f) + (unat (256 :: u32) + 1) \<le> fifo_size f" and buf: "unat (256 :: u32) \<le> length buf"
    using assms by (simp_all add: c)
  have "(1::nat) \<in> {1, 2}" by simp
  from kfifo_in_r_spec [OF ok e this buf room] obtain g where
    g': "kfifo_in_r f buf 256 1 = Some (256, g)" "fifo_ok g"
    "contents g = contents f @ header 1 (unat (256 :: u32)) @ take (unat (256 :: u32)) buf" "kf_esize g = 1" .
  have "contents g = 0 # buf"
    using g'(3) assms(3) by (simp add: c header_def)
  note g = g'(1,2) this g'(4)
  have "contents g = header 1 0 @ buf" by (simp add: g header_def)
  then have p: "kfifo_peek_n g 1 = Some 0"
    using kfifo_peek_n_header [OF g(2,4), of 1 0 buf] by simp
  have "unat (1 :: u32) \<le> unat (kfifo_len g)"
    using length_contents [OF g(2)] g(3,4) by simp
  from fifo_drop(2) [OF g(2) this refl] have "contents (g\<lparr>kf_out := kf_out g + 1\<rparr>) = buf"
    by (simp add: g)
  with g(1) p show ?thesis
    by (simp add: kfifo_len_r_def kfifo_skip_r_def)
qed

theorem kfifo_in_r_overlong_record_witness:
  "\<exists>f g buf. length buf = 256 \<and> kfifo_in_r f buf 256 1 = Some (256, g) \<and> kfifo_len_r g 1 = Some 0"
proof -
  let ?f = "\<lparr>kf_in = 0, kf_out = 0, kf_mask = mask 9, kf_esize = 1, kf_data = Some (replicate 512 0)\<rparr>"
  have "fifo_rel ?f \<lparr>q_cap = 2 ^ 9, q_esize = unat (kf_esize ?f), q_bytes = []\<rparr>"
    by (rule fresh_fifo [where d = "replicate 512 0"]) simp_all
  then have "fifo_rel ?f \<lparr>q_cap = 512, q_esize = 1, q_bytes = []\<rparr>" by simp
  note rel = fresh_records [OF this, of 1]
  have "(257::nat) \<le> 512" by simp
  from kfifo_in_r_overlong_record [OF rel this length_replicate [of 256 1]] obtain g where
    "kfifo_in_r ?f (replicate 256 1) 256 1 = Some (256, g)" "kfifo_len_r g 1 = Some 0"
    by (elim exE conjE)
  then show ?thesis
    by (intro exI [of _ ?f] exI [of _ g] exI [of _ "replicate 256 1"] conjI [OF length_replicate] conjI)
qed

end
