(* ===== verification/Refcount.thy ===== *)
theory Refcount
  imports Prelude
begin

text \<open>
  Reference counters that saturate: \<open>lib/include/linux/refcount.h\<close>, \<open>lib/src/linux/refcount.c\<close>
  and \<open>lib/include/linux/kref.h\<close>.  The counter is a 32-bit word that the code reads as a signed
  integer; the warnings that were printed are kept in order.  The sequential operations are
  functions; for the interleaving of several processors an operation is split at its atomic
  accesses.
\<close>

section \<open>Operations\<close>

datatype refcount_saturation_type =
  REFCOUNT_ADD_NOT_ZERO_OVF | REFCOUNT_ADD_OVF | REFCOUNT_ADD_UAF | REFCOUNT_SUB_UAF | REFCOUNT_DEC_LEAK

record refcount =
  refs :: u32
  warnings :: "refcount_saturation_type list"

definition REFCOUNT_MAX :: u32 where "REFCOUNT_MAX = 0x7FFFFFFF"

definition REFCOUNT_SATURATED :: u32 where "REFCOUNT_SATURATED = 0xC0000000"

definition refcount_set :: "refcount \<Rightarrow> u32 \<Rightarrow> refcount" where
  "refcount_set r n = r\<lparr>refs := n\<rparr>"

definition refcount_read :: "refcount \<Rightarrow> u32" where
  "refcount_read r = refs r"

definition refcount_warn_saturate :: "refcount \<Rightarrow> refcount_saturation_type \<Rightarrow> refcount" where
  "refcount_warn_saturate r t = (refcount_set r REFCOUNT_SATURATED)\<lparr>warnings := warnings r @ [t]\<rparr>"

text \<open>
  What an operation makes of the old value that its atomic access returned: the saturation
  event it reports, if any.
\<close>

definition add_not_zero_check :: "u32 \<Rightarrow> u32 \<Rightarrow> refcount_saturation_type option" where
  "add_not_zero_check i old =
     (if sint old < 0 \<or> sint (old + i) < 0 then Some REFCOUNT_ADD_NOT_ZERO_OVF else None)"

definition add_check :: "u32 \<Rightarrow> u32 \<Rightarrow> refcount_saturation_type option" where
  "add_check i old =
     (if old = 0 then Some REFCOUNT_ADD_UAF
      else if sint old < 0 \<or> sint (old + i) < 0 then Some REFCOUNT_ADD_OVF
      else None)"

definition sub_check :: "u32 \<Rightarrow> u32 \<Rightarrow> refcount_saturation_type option" where
  "sub_check i old =
     (if old = i then None
      else if sint old < 0 \<or> sint (old - i) < 0 then Some REFCOUNT_SUB_UAF
      else None)"


definition saturate :: "refcount \<Rightarrow> refcount_saturation_type option \<Rightarrow> refcount" where
  "saturate r w = (case w of None \<Rightarrow> r | Some t \<Rightarrow> refcount_warn_saturate r t)"

definition raw_refcount_add_not_zero :: "u32 \<Rightarrow> refcount \<Rightarrow> bool \<times> refcount" where
  "raw_refcount_add_not_zero i r =
     (let old = refcount_read r;
          r1 = (if old = 0 then r else refcount_set r (old + i))
      in (old \<noteq> 0, saturate r1 (add_not_zero_check i old)))"

definition raw_refcount_add :: "u32 \<Rightarrow> refcount \<Rightarrow> refcount" where
  "raw_refcount_add i r =
     (let old = refcount_read r in saturate (refcount_set r (old + i)) (add_check i old))"

definition raw_refcount_sub_and_test :: "u32 \<Rightarrow> refcount \<Rightarrow> bool \<times> refcount" where
  "raw_refcount_sub_and_test i r =
     (let old = refcount_read r in (old = i, saturate (refcount_set r (old - i)) (sub_check i old)))"


definition refcount_inc :: "refcount \<Rightarrow> refcount" where
  "refcount_inc r = raw_refcount_add 1 r"

definition refcount_inc_not_zero :: "refcount \<Rightarrow> bool \<times> refcount" where
  "refcount_inc_not_zero r = raw_refcount_add_not_zero 1 r"

definition refcount_dec_and_test :: "refcount \<Rightarrow> bool \<times> refcount" where
  "refcount_dec_and_test r = raw_refcount_sub_and_test 1 r"

definition refcount_dec_if_one :: "refcount \<Rightarrow> bool \<times> refcount" where
  "refcount_dec_if_one r = (if refs r = 1 then (True, refcount_set r 0) else (False, r))"

text \<open>The warning of this function does not saturate the counter.\<close>

definition refcount_dec_not_one :: "refcount \<Rightarrow> bool \<times> refcount" where
  "refcount_dec_not_one r =
     (let val = refcount_read r
      in if val = REFCOUNT_SATURATED then (True, r)
         else if val = 1 then (False, r)
         else if val - 1 > val then (True, r\<lparr>warnings := warnings r @ [REFCOUNT_SUB_UAF]\<rparr>)
         else (True, refcount_set r (val - 1)))"

text \<open>The result says that the lock is held when the function returns.\<close>

definition refcount_dec_and_lock :: "refcount \<Rightarrow> bool \<times> refcount" where
  "refcount_dec_and_lock r =
     (case refcount_dec_not_one r of
        (True, r1) \<Rightarrow> (False, r1)
      | (False, r1) \<Rightarrow> refcount_dec_and_test r1)"

definition refcount_dec_and_mutex_lock :: "refcount \<Rightarrow> bool \<times> refcount" where
  "refcount_dec_and_mutex_lock r =
     (case refcount_dec_not_one r of
        (True, r1) \<Rightarrow> (False, r1)
      | (False, r1) \<Rightarrow> refcount_dec_and_test r1)"

definition refcount_dec_and_lock_irqsave :: "refcount \<Rightarrow> bool \<times> refcount" where
  "refcount_dec_and_lock_irqsave r =
     (case refcount_dec_not_one r of
        (True, r1) \<Rightarrow> (False, r1)
      | (False, r1) \<Rightarrow> refcount_dec_and_test r1)"

definition kref_init :: "refcount \<Rightarrow> refcount" where
  "kref_init r = refcount_set r 1"

definition kref_get :: "refcount \<Rightarrow> refcount" where
  "kref_get r = refcount_inc r"

text \<open>The result of \<open>kref_put\<close>: the object is released.\<close>

definition kref_put :: "refcount \<Rightarrow> bool \<times> refcount" where
  "kref_put r = refcount_dec_and_test r"

definition kref_get_unless_zero :: "refcount \<Rightarrow> bool \<times> refcount" where
  "kref_get_unless_zero r = refcount_inc_not_zero r"

section \<open>Counting\<close>

text \<open>The counter stands for a number of references between 0 and the maximum.\<close>

definition counts :: "refcount \<Rightarrow> nat \<Rightarrow> bool" where
  "counts r n \<longleftrightarrow> n \<le> unat REFCOUNT_MAX \<and> refs r = of_nat n"

lemma sint_of_count: "n < 2 ^ 31 \<Longrightarrow> sint (of_nat n :: u32) = int n"
  by (simp add: signed_of_nat signed_take_bit_int_eq_self)

lemma of_count_inject:
  "n < 2 ^ 31 \<Longrightarrow> m < 2 ^ 31 \<Longrightarrow> (of_nat n :: u32) = of_nat m \<longleftrightarrow> n = m"
  by (simp add: word_of_nat_eq_iff take_bit_nat_eq_self)

lemma counts_set [simp]: "counts (refcount_set r 1) 1"
  by (simp add: counts_def refcount_set_def REFCOUNT_MAX_def)

lemma counts_inc:
  assumes "counts r n" and "0 < n" and "Suc n < 2 ^ 31"
  shows "counts (kref_get r) (Suc n)" and "warnings (kref_get r) = warnings r"
proof -
  have "(of_nat n :: u32) \<noteq> 0"
    using of_count_inject [of n 0] assms by simp
  moreover have "sint (of_nat n :: u32) = int n" "sint (of_nat n + 1 :: u32) = int (Suc n)"
    using sint_of_count [of n] sint_of_count [of "Suc n"] assms by (simp_all add: ac_simps)
  ultimately have "kref_get r = refcount_set r (of_nat (Suc n))"
    using assms(1) by (simp add: kref_get_def refcount_inc_def raw_refcount_add_def refcount_read_def
        counts_def add_check_def saturate_def ac_simps)
  then show "counts (kref_get r) (Suc n)" "warnings (kref_get r) = warnings r"
    using assms(3) by (simp_all add: counts_def refcount_set_def REFCOUNT_MAX_def)
qed

lemma counts_inc_not_zero:
  assumes "counts r n" and "Suc n < 2 ^ 31"
  shows "kref_get_unless_zero r = (0 < n, if n = 0 then r else kref_get r)"
proof -
  have z: "(of_nat n :: u32) = 0 \<longleftrightarrow> n = 0"
    using of_count_inject [of n 0] assms by simp
  have "sint (of_nat n :: u32) = int n" "sint (of_nat n + 1 :: u32) = int (Suc n)"
    using sint_of_count [of n] sint_of_count [of "Suc n"] assms by (simp_all add: ac_simps)
  with z assms(1) show ?thesis
    by (auto simp: kref_get_unless_zero_def refcount_inc_not_zero_def raw_refcount_add_not_zero_def Let_def
        kref_get_def refcount_inc_def raw_refcount_add_def refcount_read_def counts_def add_check_def
        add_not_zero_check_def saturate_def)
qed

lemma counts_dec:
  assumes "counts r (Suc n)"
  shows "\<exists>r'. kref_put r = (n = 0, r') \<and> counts r' n \<and> warnings r' = warnings r"
proof -
  from assms have n: "Suc n < 2 ^ 31"
    by (simp add: counts_def REFCOUNT_MAX_def)
  have one: "(of_nat (Suc n) :: u32) = 1 \<longleftrightarrow> n = 0"
    using of_count_inject [of "Suc n" 1] n by simp
  have "sint (of_nat (Suc n) :: u32) = int (Suc n)" "sint (of_nat n :: u32) = int n"
    using sint_of_count [of n] sint_of_count [of "Suc n"] n by simp_all
  with one assms show ?thesis
    by (simp add: kref_put_def refcount_dec_and_test_def raw_refcount_sub_and_test_def Let_def refcount_read_def
        counts_def sub_check_def saturate_def refcount_set_def)
qed

section \<open>Interleaving\<close>












section \<open>Properties\<close>



end
