(* ===== verification/Klist.thy ===== *)
theory Klist
  imports Refcount Simulation
begin

text \<open>
  Lists with reference-counted nodes that may be removed while they are iterated:
  \<open>lib/src/linux/klist.c\<close>.  The model has one list; a node is an address with the pointer to
  its list, whose lowest bit marks a removed node, and its reference counter.  A result
  \<^const>\<open>None\<close> is an access through a null pointer, or a list operation on a node that is not in
  the list (or, for an insertion, already is), which destroys the links of the list.  The calls
  of the \<open>get\<close> and \<open>put\<close> functions of the list are recorded, and whether a \<open>WARN_ON\<close> fired.
  Waiting for a node to go away is disabled in the source (\<open>klist_remove\<close>).
\<close>

section \<open>State and operations\<close>

record klist_node =
  n_klist :: u64
  n_ref :: refcount

datatype kl_call = Get addr | Put addr

record klist =
  k_addr :: u64
  k_list :: "addr list"
  k_get :: bool
  k_put :: bool
  knodes :: "addr \<Rightarrow> klist_node"
  k_calls :: "kl_call list"
  k_warned :: bool

definition KNODE_DEAD :: u64 where "KNODE_DEAD = 1"

definition KNODE_KLIST_MASK :: u64 where "KNODE_KLIST_MASK = NOT KNODE_DEAD"

definition knode_klist :: "klist_node \<Rightarrow> u64" where
  "knode_klist n = n_klist n AND KNODE_KLIST_MASK"

definition knode_dead :: "klist_node \<Rightarrow> bool" where
  "knode_dead n \<longleftrightarrow> n_klist n AND KNODE_DEAD \<noteq> 0"

definition set_node :: "addr \<Rightarrow> klist_node \<Rightarrow> klist \<Rightarrow> klist" where
  "set_node p n k = k\<lparr>knodes := (knodes k)(p := n)\<rparr>"

definition warn_on :: "bool \<Rightarrow> klist \<Rightarrow> klist" where
  "warn_on b k = (if b then k\<lparr>k_warned := True\<rparr> else k)"

definition knode_set_klist :: "addr \<Rightarrow> u64 \<Rightarrow> klist \<Rightarrow> klist" where
  "knode_set_klist p l k =
     (let n = (knodes k p)\<lparr>n_klist := l\<rparr> in warn_on (knode_dead n) (set_node p n k))"

definition knode_kill :: "addr \<Rightarrow> klist \<Rightarrow> klist" where
  "knode_kill p k =
     (let k1 = warn_on (knode_dead (knodes k p)) k; n = knodes k1 p
      in set_node p (n\<lparr>n_klist := n_klist n OR KNODE_DEAD\<rparr>) k1)"

definition klist_init :: "klist \<Rightarrow> bool \<Rightarrow> bool \<Rightarrow> klist" where
  "klist_init k get put = k\<lparr>k_list := [], k_get := get, k_put := put\<rparr>"

definition klist_node_init :: "addr \<Rightarrow> klist \<Rightarrow> klist option" where
  "klist_node_init p k =
     (if p \<in> set (k_list k) then None
      else
        (let k1 = set_node p ((knodes k p)\<lparr>n_ref := kref_init (n_ref (knodes k p))\<rparr>) k;
             k2 = knode_set_klist p (k_addr k) k1
         in Some (if k_get k then k2\<lparr>k_calls := k_calls k2 @ [Get p]\<rparr> else k2)))"

definition add_head :: "addr \<Rightarrow> klist \<Rightarrow> klist" where
  "add_head p k = k\<lparr>k_list := p # k_list k\<rparr>"

definition add_tail :: "addr \<Rightarrow> klist \<Rightarrow> klist" where
  "add_tail p k = k\<lparr>k_list := k_list k @ [p]\<rparr>"

definition klist_add_head :: "addr \<Rightarrow> klist \<Rightarrow> klist option" where
  "klist_add_head p k = map_option (add_head p) (klist_node_init p k)"

definition klist_add_tail :: "addr \<Rightarrow> klist \<Rightarrow> klist option" where
  "klist_add_tail p k = map_option (add_tail p) (klist_node_init p k)"

text \<open>The nodes in front of a node and behind it.\<close>

definition upto_node :: "addr \<Rightarrow> addr list \<Rightarrow> addr list" where
  "upto_node p xs = takeWhile (\<lambda>q. q \<noteq> p) xs"

definition behind_node :: "addr \<Rightarrow> addr list \<Rightarrow> addr list" where
  "behind_node p xs = tl (dropWhile (\<lambda>q. q \<noteq> p) xs)"

definition klist_add_behind :: "addr \<Rightarrow> addr \<Rightarrow> klist \<Rightarrow> klist option" where
  "klist_add_behind p pos k =
     (if knode_klist (knodes k pos) \<noteq> k_addr k \<or> pos \<notin> set (k_list k) then None
      else
        map_option (\<lambda>k1. k1\<lparr>k_list := upto_node pos (k_list k1) @ pos # p # behind_node pos (k_list k1)\<rparr>)
          (klist_node_init p k))"

definition klist_add_before :: "addr \<Rightarrow> addr \<Rightarrow> klist \<Rightarrow> klist option" where
  "klist_add_before p pos k =
     (if knode_klist (knodes k pos) \<noteq> k_addr k \<or> pos \<notin> set (k_list k) then None
      else
        map_option (\<lambda>k1. k1\<lparr>k_list := upto_node pos (k_list k1) @ p # pos # behind_node pos (k_list k1)\<rparr>)
          (klist_node_init p k))"

definition klist_release :: "addr \<Rightarrow> klist \<Rightarrow> klist option" where
  "klist_release p k =
     (let k1 = warn_on (\<not> knode_dead (knodes k p)) k
      in if p \<notin> set (k_list k1) then None
         else Some (knode_set_klist p 0 (k1\<lparr>k_list := remove1 p (k_list k1)\<rparr>)))"

definition klist_dec_and_del :: "addr \<Rightarrow> klist \<Rightarrow> (bool \<times> klist) option" where
  "klist_dec_and_del p k =
     (case kref_put (n_ref (knodes k p)) of
        (released, r) \<Rightarrow>
          (let k1 = set_node p ((knodes k p)\<lparr>n_ref := r\<rparr>) k
           in if released then map_option (\<lambda>k2. (True, k2)) (klist_release p k1) else Some (False, k1)))"

definition call_put :: "bool \<Rightarrow> addr \<Rightarrow> klist \<Rightarrow> klist" where
  "call_put released p k = (if released \<and> k_put k then k\<lparr>k_calls := k_calls k @ [Put p]\<rparr> else k)"

definition klist_put :: "addr \<Rightarrow> bool \<Rightarrow> klist \<Rightarrow> klist option" where
  "klist_put p kill k =
     (if knode_klist (knodes k p) \<noteq> k_addr k then None
      else
        map_option (\<lambda>(released, k1). call_put released p k1)
          (klist_dec_and_del p (if kill then knode_kill p k else k)))"

definition klist_del :: "addr \<Rightarrow> klist \<Rightarrow> klist option" where
  "klist_del p k = klist_put p True k"

definition klist_remove :: "addr \<Rightarrow> klist \<Rightarrow> klist option" where
  "klist_remove p k = klist_del p k"

definition klist_node_attached :: "addr \<Rightarrow> klist \<Rightarrow> bool" where
  "klist_node_attached p k \<longleftrightarrow> n_klist (knodes k p) \<noteq> 0"

text \<open>An iterator is the node it is at, if any.\<close>

definition klist_iter_init_node :: "addr option \<Rightarrow> klist \<Rightarrow> addr option \<times> klist" where
  "klist_iter_init_node n k =
     (case n of
        None \<Rightarrow> (None, k)
      | Some p \<Rightarrow>
          (case kref_get_unless_zero (n_ref (knodes k p)) of
             (got, r) \<Rightarrow> (if got then Some p else None, set_node p ((knodes k p)\<lparr>n_ref := r\<rparr>) k)))"

definition klist_iter_init :: "klist \<Rightarrow> addr option \<times> klist" where
  "klist_iter_init k = klist_iter_init_node None k"

definition klist_iter_exit :: "addr option \<Rightarrow> klist \<Rightarrow> klist option" where
  "klist_iter_exit cur k = (case cur of None \<Rightarrow> Some k | Some p \<Rightarrow> klist_put p False k)"

text \<open>The first node of a list that is not removed becomes the node of the iterator.\<close>

fun first_live :: "klist \<Rightarrow> addr list \<Rightarrow> addr option" where
  "first_live k [] = None"
| "first_live k (p # ps) = (if knode_dead (knodes k p) then first_live k ps else Some p)"

definition get_node :: "addr option \<Rightarrow> klist \<Rightarrow> klist" where
  "get_node cur k =
     (case cur of
        None \<Rightarrow> k
      | Some p \<Rightarrow> set_node p ((knodes k p)\<lparr>n_ref := kref_get (n_ref (knodes k p))\<rparr>) k)"

text \<open>\<open>klist_next\<close> and \<open>klist_prev\<close> differ in the direction: the nodes that follow the current one.\<close>

definition klist_move :: "(addr \<Rightarrow> addr list \<Rightarrow> addr list) \<Rightarrow> addr list \<Rightarrow> addr option \<Rightarrow> klist \<Rightarrow> (addr option \<times> klist) option" where
  "klist_move following all cur k =
     (case cur of
        None \<Rightarrow> (let nxt = first_live k all in Some (nxt, get_node nxt k))
      | Some cur_node \<Rightarrow>
          (if cur_node \<notin> set (k_list k) then None
           else
             (let rest = following cur_node (k_list k)
              in map_option (\<lambda>(released, k1). let nxt = first_live k1 rest in (nxt, call_put released cur_node (get_node nxt k1)))
                   (klist_dec_and_del cur_node k))))"

definition klist_next :: "addr option \<Rightarrow> klist \<Rightarrow> (addr option \<times> klist) option" where
  "klist_next cur k = klist_move behind_node (k_list k) cur k"

definition klist_prev :: "addr option \<Rightarrow> klist \<Rightarrow> (addr option \<times> klist) option" where
  "klist_prev cur k = klist_move (\<lambda>p xs. rev (upto_node p xs)) (rev (k_list k)) cur k"

section \<open>Invariant\<close>

text \<open>
  \<open>held p\<close> is the number of references to a node.  A node is in the list as long as there is
  one; a node that is not in the list has no list pointer.
\<close>

definition is_dead :: "klist \<Rightarrow> addr \<Rightarrow> bool" where
  "is_dead k p \<longleftrightarrow> knode_dead (knodes k p)"

definition kl_inv :: "klist \<Rightarrow> (addr \<Rightarrow> nat) \<Rightarrow> bool" where
  "kl_inv k held \<longleftrightarrow>
     k_addr k \<noteq> 0 \<and> \<not> bit (k_addr k) 0 \<and> distinct (k_list k) \<and> \<not> k_warned k
     \<and> (\<forall>p. counts (n_ref (knodes k p)) (held p) \<and> warnings (n_ref (knodes k p)) = [])
     \<and> (\<forall>p. p \<in> set (k_list k) \<longleftrightarrow> 0 < held p)
     \<and> (\<forall>p\<in>set (k_list k). n_klist (knodes k p) \<in> {k_addr k, k_addr k OR KNODE_DEAD})
     \<and> (\<forall>p. p \<notin> set (k_list k) \<longrightarrow> n_klist (knodes k p) = 0)"

lemma kl_invD:
  assumes "kl_inv k held"
  shows "k_addr k \<noteq> 0" "\<not> bit (k_addr k) 0" "distinct (k_list k)" "\<not> k_warned k"
    and "counts (n_ref (knodes k p)) (held p)" "warnings (n_ref (knodes k p)) = []"
    and "p \<in> set (k_list k) \<longleftrightarrow> 0 < held p"
    and "p \<in> set (k_list k) \<Longrightarrow> n_klist (knodes k p) = k_addr k \<or> n_klist (knodes k p) = k_addr k OR KNODE_DEAD"
    and "p \<notin> set (k_list k) \<Longrightarrow> n_klist (knodes k p) = 0"
  using assms by (auto simp: kl_inv_def)

lemma word_and_1: "(w :: u64) AND 1 \<noteq> 0 \<longleftrightarrow> bit w 0"
  by (simp add: bit_0 and_one_eq odd_iff_mod_2_eq_one)

lemma knode_dead_bit: "knode_dead n \<longleftrightarrow> bit (n_klist n) 0"
  by (simp add: knode_dead_def KNODE_DEAD_def word_and_1)

lemma knode_klist_attached:
  assumes "kl_inv k held" and "p \<in> set (k_list k)"
  shows "knode_klist (knodes k p) = k_addr k"
proof -
  have "k_addr k AND NOT 1 = k_addr k"
    using kl_invD(2) [OF assms(1)] by (intro bit_word_eqI) (auto simp: bit_simps intro!: gr0I)
  moreover have "(k_addr k OR 1) AND NOT 1 = k_addr k AND NOT 1"
    by (intro bit_word_eqI) (auto simp: bit_simps)
  ultimately show ?thesis
    using kl_invD(8) [OF assms] by (auto simp: knode_klist_def KNODE_KLIST_MASK_def KNODE_DEAD_def)
qed

lemma dead_attached:
  assumes "kl_inv k held" and "p \<in> set (k_list k)"
  shows "is_dead k p \<longleftrightarrow> n_klist (knodes k p) = k_addr k OR KNODE_DEAD"
proof -
  have "\<not> bit (k_addr k) 0" by (rule kl_invD(2) [OF assms(1)])
  moreover have "bit (k_addr k OR 1) 0" by (simp add: bit_simps)
  ultimately show ?thesis
    using kl_invD(8) [OF assms] by (auto simp: is_dead_def knode_dead_bit KNODE_DEAD_def)
qed

lemma not_dead_detached: "kl_inv k held \<Longrightarrow> p \<notin> set (k_list k) \<Longrightarrow> \<not> is_dead k p"
  by (simp add: is_dead_def knode_dead_bit kl_invD(9))

text \<open>Fields that the updates of a node leave alone.\<close>

lemma set_node_sel [simp]:
  "k_addr (set_node p n k) = k_addr k" "k_list (set_node p n k) = k_list k" "k_get (set_node p n k) = k_get k"
  "k_put (set_node p n k) = k_put k" "k_calls (set_node p n k) = k_calls k" "k_warned (set_node p n k) = k_warned k"
  "knodes (set_node p n k) = (knodes k)(p := n)"
  by (simp_all add: set_node_def)

lemma warn_on_False [simp]: "warn_on False k = k"
  by (simp add: warn_on_def)

text \<open>Taking a reference.\<close>

lemma get_node_inv:
  assumes inv: "kl_inv k held" and p: "p \<in> set (k_list k)" and small: "Suc (held p) < 2 ^ 31"
  shows "kl_inv (get_node (Some p) k) (held(p := Suc (held p)))" and "is_dead (get_node (Some p) k) = is_dead k"
proof -
  have h: "0 < held p" using kl_invD(7) [OF inv] p by blast
  note g = counts_inc [OF kl_invD(5) [OF inv] h small]
  show "kl_inv (get_node (Some p) k) (held(p := Suc (held p)))"
    using inv p g kl_invD(6) [OF inv, of p] by (auto simp: kl_inv_def get_node_def)
  show "is_dead (get_node (Some p) k) = is_dead k"
    by (auto simp: get_node_def is_dead_def knode_dead_def fun_eq_iff)
qed

text \<open>Dropping a reference: the node leaves the list with the last one.\<close>

lemma klist_dec_and_del_inv:
  assumes inv: "kl_inv k held" and p: "p \<in> set (k_list k)" and last_dead: "held p = 1 \<Longrightarrow> is_dead k p"
  obtains k' where "klist_dec_and_del p k = Some (held p = 1, k')"
    and "kl_inv k' (held(p := held p - 1))"
    and "k_list k' = (if held p = 1 then remove1 p (k_list k) else k_list k)"
    and "\<forall>q. is_dead k' q \<longleftrightarrow> is_dead k q \<and> \<not> (q = p \<and> held p = 1)"
    and "k_calls k' = k_calls k" and "k_get k' = k_get k" and "k_put k' = k_put k" and "k_addr k' = k_addr k"
proof -
  from kl_invD(7) [OF inv] p obtain n where n: "held p = Suc n" by (cases "held p") auto
  from counts_dec [OF kl_invD(5) [OF inv, of p, unfolded n]] obtain r where
    r: "kref_put (n_ref (knodes k p)) = (n = 0, r)" "counts r n" "warnings r = []"
    using kl_invD(6) [OF inv, of p] by auto
  let ?k1 = "set_node p ((knodes k p)\<lparr>n_ref := r\<rparr>) k"
  show thesis
  proof (cases "n = 0")
    case False
    show thesis
    proof (rule that [of ?k1])
      show "klist_dec_and_del p k = Some (held p = 1, ?k1)"
        using False r n by (simp add: klist_dec_and_del_def)
      show "kl_inv ?k1 (held(p := held p - 1))"
        using inv p r False n by (auto simp: kl_inv_def)
    qed (use False n in \<open>auto simp: is_dead_def knode_dead_def\<close>)
  next
    case True
    with last_dead n have dead: "knode_dead (knodes k p)" by (simp add: is_dead_def)
    let ?k2 = "set_node p (((knodes k p)\<lparr>n_ref := r\<rparr>)\<lparr>n_klist := 0\<rparr>) (k\<lparr>k_list := remove1 p (k_list k)\<rparr>)"
    have "klist_release p ?k1 = Some ?k2"
      using dead p by (simp add: klist_release_def knode_set_klist_def Let_def knode_dead_def set_node_def)
    then have dec: "klist_dec_and_del p k = Some (held p = 1, ?k2)"
      using True r n by (simp add: klist_dec_and_del_def)
    have dist: "distinct (k_list k)" by (rule kl_invD(3) [OF inv])
    show thesis
    proof (rule that [of ?k2, OF dec])
      show "kl_inv ?k2 (held(p := held p - 1))"
        using inv p r True n dist by (auto simp: kl_inv_def)
    qed (use True n dist in \<open>auto simp: is_dead_def knode_dead_def\<close>)
  qed
qed

text \<open>A new node, with one reference, and the removal mark.\<close>

lemma klist_node_init_inv:
  assumes inv: "kl_inv k held" and p: "p \<notin> set (k_list k)"
  obtains k' where "klist_node_init p k = Some k'"
    and "k_list k' = k_list k" and "k_addr k' = k_addr k" and "k_get k' = k_get k" and "k_put k' = k_put k"
    and "k_calls k' = k_calls k @ (if k_get k then [Get p] else [])" and "is_dead k' = is_dead k"
    and "\<And>xs. distinct xs \<Longrightarrow> set xs = insert p (set (k_list k)) \<Longrightarrow> kl_inv (k'\<lparr>k_list := xs\<rparr>) (held(p := 1))"
proof -
  let ?n = "((knodes k p)\<lparr>n_ref := kref_init (n_ref (knodes k p))\<rparr>)\<lparr>n_klist := k_addr k\<rparr>"
  define k' where "k' = (set_node p ?n k)\<lparr>k_calls := k_calls k @ (if k_get k then [Get p] else [])\<rparr>"
  have alive: "\<not> knode_dead ?n"
    using kl_invD(2) [OF inv] by (simp add: knode_dead_bit)
  then have eq: "klist_node_init p k = Some k'"
    using p by (simp add: klist_node_init_def knode_set_klist_def Let_def k'_def set_node_def)
  have r: "counts (kref_init (n_ref (knodes k p))) 1" "warnings (kref_init (n_ref (knodes k p))) = []"
    using kl_invD(6) [OF inv, of p] by (simp_all add: kref_init_def refcount_set_def counts_def REFCOUNT_MAX_def)
  have dead: "is_dead k' = is_dead k"
    using alive not_dead_detached [OF inv p] by (auto simp: k'_def is_dead_def fun_eq_iff)
  have "kl_inv (k'\<lparr>k_list := xs\<rparr>) (held(p := 1))" if "distinct xs" "set xs = insert p (set (k_list k))" for xs
    using inv p r that by (auto simp: kl_inv_def k'_def)
  with eq dead show thesis
    by (intro that [of k']) (simp_all add: k'_def)
qed

lemma knode_kill_inv:
  assumes inv: "kl_inv k held" and p: "p \<in> set (k_list k)" and alive: "\<not> is_dead k p"
  shows "kl_inv (knode_kill p k) held" and "k_list (knode_kill p k) = k_list k"
    and "k_calls (knode_kill p k) = k_calls k" and "k_get (knode_kill p k) = k_get k"
    and "k_put (knode_kill p k) = k_put k" and "k_addr (knode_kill p k) = k_addr k"
    and "is_dead (knode_kill p k) q \<longleftrightarrow> is_dead k q \<or> q = p"
proof -
  have eq: "knode_kill p k = set_node p ((knodes k p)\<lparr>n_klist := k_addr k OR KNODE_DEAD\<rparr>) k"
    using alive kl_invD(8) [OF inv p] dead_attached [OF inv p]
    by (auto simp: knode_kill_def Let_def is_dead_def)
  show "kl_inv (knode_kill p k) held"
    using inv p unfolding eq by (auto simp: kl_inv_def)
  show "is_dead (knode_kill p k) q \<longleftrightarrow> is_dead k q \<or> q = p"
    unfolding eq by (auto simp: is_dead_def knode_dead_bit KNODE_DEAD_def bit_simps)
qed (auto simp: knode_kill_def Let_def warn_on_def)

section \<open>Specification\<close>

text \<open>
  The specification has no reference counts: a list of nodes, the nodes that were removed, and
  the iterators.  A removed node stays in the list while an iterator is at it.
\<close>

record nodelist =
  al :: "addr list"
  adead :: "addr set"
  aits :: "addr option list"
  aget :: bool
  aput :: bool

datatype kl_op =
    AddHead addr | AddTail addr | AddBehind addr addr | AddBefore addr addr | Del addr
  | Attached addr | IterInit "addr option" | IterNext nat | IterPrev nat | IterExit nat

type_synonym kl_out = "addr option \<times> kl_call list"

definition unused :: "nodelist \<Rightarrow> addr \<Rightarrow> bool" where
  "unused a p \<longleftrightarrow> p \<in> adead a \<and> Some p \<notin> set (aits a)"

text \<open>Nodes that are removed and not iterated any more go away, and are put.\<close>

definition collect :: "nodelist \<Rightarrow> kl_call list \<times> nodelist" where
  "collect a =
     (if aput a then map Put (filter (unused a) (al a)) else [],
      a\<lparr>al := filter (\<lambda>p. \<not> unused a p) (al a), adead := {p \<in> adead a. \<not> unused a p}\<rparr>)"

definition a_add :: "addr \<Rightarrow> addr list \<Rightarrow> nodelist \<Rightarrow> kl_out \<times> nodelist" where
  "a_add p xs a = ((None, if aget a then [Get p] else []), a\<lparr>al := xs\<rparr>)"

fun a_first_live :: "nodelist \<Rightarrow> addr list \<Rightarrow> addr option" where
  "a_first_live a [] = None"
| "a_first_live a (p # ps) = (if p \<in> adead a then a_first_live a ps else Some p)"

definition a_move :: "nodelist \<Rightarrow> nat \<Rightarrow> addr list \<Rightarrow> kl_out \<times> nodelist" where
  "a_move a j rest =
     (let nxt = a_first_live a rest; (cs, b) = collect (a\<lparr>aits := (aits a)[j := nxt]\<rparr>) in ((nxt, cs), b))"

fun nodelist_step :: "nodelist \<Rightarrow> kl_op \<Rightarrow> kl_out \<times> nodelist" where
  "nodelist_step a (AddHead p) = a_add p (p # al a) a"
| "nodelist_step a (AddTail p) = a_add p (al a @ [p]) a"
| "nodelist_step a (AddBehind p pos) = a_add p (upto_node pos (al a) @ pos # p # behind_node pos (al a)) a"
| "nodelist_step a (AddBefore p pos) = a_add p (upto_node pos (al a) @ p # pos # behind_node pos (al a)) a"
| "nodelist_step a (Del p) = (let (cs, b) = collect (a\<lparr>adead := insert p (adead a)\<rparr>) in ((None, cs), b))"
| "nodelist_step a (Attached p) = ((if p \<in> set (al a) then Some p else None, []), a)"
| "nodelist_step a (IterInit n) =
     (let cur = (case n of None \<Rightarrow> None | Some p \<Rightarrow> if p \<in> set (al a) then Some p else None)
      in ((cur, []), a\<lparr>aits := aits a @ [cur]\<rparr>))"
| "nodelist_step a (IterNext j) =
     a_move a j (case aits a ! j of None \<Rightarrow> al a | Some p \<Rightarrow> behind_node p (al a))"
| "nodelist_step a (IterPrev j) =
     a_move a j (case aits a ! j of None \<Rightarrow> rev (al a) | Some p \<Rightarrow> rev (upto_node p (al a)))"
| "nodelist_step a (IterExit j) = (let (cs, b) = collect (a\<lparr>aits := (aits a)[j := None]\<rparr>) in ((None, cs), b))"

text \<open>
  What the callers owe: a node is added once, next to a node in the list; it is removed once;
  an iterator is used after its initialisation; and there are fewer than \<open>2 ^ 30\<close> iterators.
\<close>

fun nodelist_permits :: "nodelist \<Rightarrow> kl_op \<Rightarrow> bool" where
  "nodelist_permits a (AddHead p) \<longleftrightarrow> p \<notin> set (al a)"
| "nodelist_permits a (AddTail p) \<longleftrightarrow> p \<notin> set (al a)"
| "nodelist_permits a (AddBehind p pos) \<longleftrightarrow> p \<notin> set (al a) \<and> pos \<in> set (al a)"
| "nodelist_permits a (AddBefore p pos) \<longleftrightarrow> p \<notin> set (al a) \<and> pos \<in> set (al a)"
| "nodelist_permits a (Del p) \<longleftrightarrow> p \<in> set (al a) \<and> p \<notin> adead a"
| "nodelist_permits a (Attached p) \<longleftrightarrow> True"
| "nodelist_permits a (IterInit n) \<longleftrightarrow> Suc (length (aits a)) < 2 ^ 30"
| "nodelist_permits a (IterNext j) \<longleftrightarrow> j < length (aits a)"
| "nodelist_permits a (IterPrev j) \<longleftrightarrow> j < length (aits a)"
| "nodelist_permits a (IterExit j) \<longleftrightarrow> j < length (aits a)"

text \<open>The program: the list and the iterators of its users.\<close>

definition moved :: "addr option list \<Rightarrow> nat \<Rightarrow> (addr option \<times> klist) option \<Rightarrow> (kl_out \<times> klist \<times> addr option list) option" where
  "moved its j res = map_option (\<lambda>(cur, k). ((cur, k_calls k), k, its[j := cur])) res"

definition updated :: "addr option list \<Rightarrow> klist option \<Rightarrow> (kl_out \<times> klist \<times> addr option list) option" where
  "updated its res = map_option (\<lambda>k. ((None, k_calls k), k, its)) res"

definition klist_step :: "klist \<times> addr option list \<Rightarrow> kl_op \<Rightarrow> (kl_out \<times> klist \<times> addr option list) option" where
  "klist_step s op =
     (let k = (fst s)\<lparr>k_calls := []\<rparr>; its = snd s
      in case op of
           AddHead p \<Rightarrow> updated its (klist_add_head p k)
         | AddTail p \<Rightarrow> updated its (klist_add_tail p k)
         | AddBehind p pos \<Rightarrow> updated its (klist_add_behind p pos k)
         | AddBefore p pos \<Rightarrow> updated its (klist_add_before p pos k)
         | Del p \<Rightarrow> updated its (klist_del p k)
         | Attached p \<Rightarrow> Some ((if klist_node_attached p k then Some p else None, []), k, its)
         | IterInit n \<Rightarrow> (case klist_iter_init_node n k of (cur, k1) \<Rightarrow> Some ((cur, k_calls k1), k1, its @ [cur]))
         | IterNext j \<Rightarrow> moved its j (klist_next (its ! j) k)
         | IterPrev j \<Rightarrow> moved its j (klist_prev (its ! j) k)
         | IterExit j \<Rightarrow> updated (its[j := None]) (klist_iter_exit (its ! j) k))"

section \<open>Refinement\<close>

definition holds :: "klist \<Rightarrow> addr option list \<Rightarrow> addr \<Rightarrow> nat" where
  "holds k its p = (if p \<in> set (k_list k) \<and> \<not> is_dead k p then 1 else 0) + count_list its (Some p)"

definition kl_rel :: "klist \<times> addr option list \<Rightarrow> nodelist \<Rightarrow> bool" where
  "kl_rel s a = (case s of (k, its) \<Rightarrow>
     kl_inv k (holds k its) \<and> al a = k_list k \<and> adead a = {p. is_dead k p} \<and> aits a = its
     \<and> aget a = k_get k \<and> aput a = k_put k \<and> length its < 2 ^ 30)"

lemma kl_relI:
  assumes "kl_inv k held" and "\<And>p. held p = holds k its p" and "al a = k_list k"
    and "\<And>p. p \<in> adead a \<longleftrightarrow> is_dead k p" and "aits a = its" and "aget a = k_get k" and "aput a = k_put k"
    and "length its < 2 ^ 30"
  shows "kl_rel (k, its) a"
proof -
  have "held = holds k its" using assms(2) by (rule ext)
  with assms show ?thesis by (auto simp: kl_rel_def)
qed

lemma count_list_update:
  "j < length xs \<Longrightarrow>
   count_list (xs[j := x]) y + (if xs ! j = y then 1 else 0) = count_list xs y + (if x = y then 1 else 0)"
proof -
  assume "j < length xs"
  from id_take_nth_drop [OF this] have
    c: "count_list xs y = count_list (take j xs @ xs ! j # drop (Suc j) xs) y" by simp
  from upd_conv_take_nth_drop [OF \<open>j < length xs\<close>] show ?thesis
    unfolding c by simp
qed

lemma count_list_pos: "0 < count_list xs y \<longleftrightarrow> y \<in> set xs"
  by (metis count_list_0_iff gr0I less_irrefl)

lemma unused_count: "unused a p \<longleftrightarrow> p \<in> adead a \<and> count_list (aits a) (Some p) = 0"
  by (simp add: unused_def count_list_0_iff)

lemma holds_small: "length its < 2 ^ 30 \<Longrightarrow> Suc (holds k its p) < 2 ^ 31"
  using count_le_length [of its "Some p"] by (simp add: holds_def)

text \<open>Between two operations no node is removed and unused.\<close>

lemma kl_rel_facts:
  assumes "kl_rel (k, its) a"
  shows "distinct (al a)" and "adead a \<subseteq> set (al a)" and "q \<in> set (al a) \<Longrightarrow> \<not> unused a q"
    and "Some q \<in> set its \<Longrightarrow> q \<in> set (al a)"
proof -
  from assms have inv: "kl_inv k (holds k its)" and eq: "al a = k_list k" "adead a = {p. is_dead k p}" "aits a = its"
    by (auto simp: kl_rel_def)
  show "distinct (al a)" using kl_invD(3) [OF inv] by (simp add: eq)
  show "adead a \<subseteq> set (al a)" using not_dead_detached [OF inv] by (auto simp: eq)
  show "\<not> unused a q" if "q \<in> set (al a)"
    using kl_invD(7) [OF inv, of q] that by (auto simp: eq unused_def holds_def count_list_pos split: if_splits)
  show "q \<in> set (al a)" if "Some q \<in> set its"
    using kl_invD(7) [OF inv, of q] that by (auto simp: eq holds_def count_list_pos)
qed

lemma collect_none:
  assumes "\<And>q. q \<in> set (al a) \<Longrightarrow> \<not> unused a q" and "adead a \<subseteq> set (al a)"
  shows "collect a = ([], a)"
proof -
  have "filter (unused a) (al a) = []" "filter (\<lambda>p. \<not> unused a p) (al a) = al a"
    using assms(1) by (auto simp: filter_empty_conv filter_id_conv)
  moreover have "{p \<in> adead a. \<not> unused a p} = adead a"
    using assms by auto
  ultimately show ?thesis
    by (simp add: collect_def)
qed

lemma filter_single: "distinct xs \<Longrightarrow> p \<in> set xs \<Longrightarrow> filter (\<lambda>q. q = p) xs = [p]"
  by (induction xs) (auto simp: filter_empty_conv)

lemma collect_one:
  assumes "\<And>q. q \<in> set (al a) \<Longrightarrow> q \<noteq> p \<Longrightarrow> \<not> unused a q" and "adead a \<subseteq> set (al a)"
    and "distinct (al a)" and "p \<in> set (al a)"
  shows "collect a =
    (if unused a p then (if aput a then [Put p] else [], a\<lparr>al := remove1 p (al a), adead := adead a - {p}\<rparr>) else ([], a))"
proof (cases "unused a p")
  case False
  with assms collect_none [of a] show ?thesis by metis
next
  case True
  then have "filter (unused a) (al a) = filter (\<lambda>q. q = p) (al a)" "filter (\<lambda>q. \<not> unused a q) (al a) = filter (\<lambda>q. q \<noteq> p) (al a)"
    using assms(1) by (auto intro!: filter_cong)
  moreover have "{q \<in> adead a. \<not> unused a q} = adead a - {p}"
    using assms(1,2) True by auto
  ultimately show ?thesis
    using True filter_single [OF assms(3,4)] distinct_remove1_removeAll [OF assms(3), of p]
    by (simp add: collect_def removeAll_filter_not_eq neq_commute)
qed

lemma first_live_abs:
  assumes "\<And>q. q \<in> set xs \<Longrightarrow> q \<in> adead a \<longleftrightarrow> is_dead k q"
  shows "first_live k xs = a_first_live a xs"
  using assms by (induction xs) (auto simp: is_dead_def)

lemma first_live_set: "first_live k xs = Some p \<Longrightarrow> p \<in> set xs \<and> \<not> is_dead k p"
  by (induction xs) (auto simp: is_dead_def split: if_splits)

text \<open>Dropping the reference of an iterator, and the reference that a node in the list has.\<close>

lemma exit_step:
  assumes rel: "kl_rel (k, its) a" and j: "j < length its" and cur: "its ! j = Some p"
  obtains k' where "klist_dec_and_del p k = Some (holds k its p = 1, k')"
    and "kl_inv k' ((holds k its)(p := holds k its p - 1))"
    and "k_list k' = (if holds k its p = 1 then remove1 p (k_list k) else k_list k)"
    and "\<forall>q. is_dead k' q \<longleftrightarrow> is_dead k q \<and> \<not> (q = p \<and> holds k its p = 1)"
    and "k_calls k' = k_calls k" and "k_get k' = k_get k" and "k_put k' = k_put k" and "k_addr k' = k_addr k"
    and "p \<in> set (k_list k)" and "holds k its p = 1 \<longleftrightarrow> is_dead k p \<and> count_list its (Some p) = 1"
proof -
  from rel have inv: "kl_inv k (holds k its)" and eq: "al a = k_list k" by (auto simp: kl_rel_def)
  have "Some p \<in> set its" using j cur by (metis nth_mem)
  then have p: "p \<in> set (k_list k)" and c: "0 < count_list its (Some p)"
    using kl_rel_facts(4) [OF rel] by (simp_all add: eq count_list_pos)
  then have one: "holds k its p = 1 \<longleftrightarrow> is_dead k p \<and> count_list its (Some p) = 1"
    by (auto simp: holds_def)
  show thesis
  proof (rule klist_dec_and_del_inv [OF inv p])
    show "is_dead k p" if "holds k its p = 1" using that one by simp
  qed (rule that, (assumption | rule p one)+)
qed

lemma drop_cur:
  assumes rel: "kl_rel (k, its) a" and j: "j < length its" and Some: "its ! j = Some p"
  obtains released k' b where "klist_dec_and_del p k = Some (released, k')" and "kl_rel (k', its[j := None]) b"
    and "collect (a\<lparr>aits := its[j := None]\<rparr>) = (if released \<and> k_put k then [Put p] else [], b)"
    and "k_calls k' = k_calls k" and "k_put k' = k_put k" and "p \<in> set (k_list k)"
    and "\<forall>q. q \<noteq> p \<longrightarrow> is_dead k' q = is_dead k q" and "set (k_list k) - {p} \<subseteq> set (k_list k')"
proof -
  from rel have inv: "kl_inv k (holds k its)"
    and eq: "al a = k_list k" "adead a = {p. is_dead k p}" "aits a = its" "aget a = k_get k" "aput a = k_put k"
    and len: "length its < 2 ^ 30"
    by (auto simp: kl_rel_def)
  let ?its = "its[j := None]"
  let ?a = "a\<lparr>aits := ?its\<rparr>"
  have cnt: "count_list ?its (Some q) = (if q = p then count_list its (Some p) - 1 else count_list its (Some q))" for q
    using count_list_update [OF j, of None "Some q"] Some by (auto split: if_splits)
  obtain k' where
    d: "klist_dec_and_del p k = Some (holds k its p = 1, k')"
    and k': "kl_inv k' ((holds k its)(p := holds k its p - 1))"
    "k_list k' = (if holds k its p = 1 then remove1 p (k_list k) else k_list k)"
    "\<forall>q. is_dead k' q \<longleftrightarrow> is_dead k q \<and> \<not> (q = p \<and> holds k its p = 1)"
    "k_calls k' = k_calls k" "k_get k' = k_get k" "k_put k' = k_put k" "k_addr k' = k_addr k"
    and p: "p \<in> set (k_list k)" and one: "holds k its p = 1 \<longleftrightarrow> is_dead k p \<and> count_list its (Some p) = 1"
    by (rule exit_step [OF rel j Some])
  have unused: "unused ?a q \<longleftrightarrow> q = p \<and> holds k its p = 1" if "q \<in> set (k_list k)" for q
  proof -
    have "0 < count_list its (Some p)" using Some nth_mem [OF j] by (simp add: count_list_pos)
    then have "count_list its (Some p) - 1 = 0 \<longleftrightarrow> count_list its (Some p) = 1" by linarith
    then show ?thesis
      using kl_rel_facts(3) [OF rel, of q] that one by (auto simp: unused_count eq cnt)
  qed
  have coll: "collect ?a = (if holds k its p = 1
      then (if k_put k then [Put p] else [], ?a\<lparr>al := remove1 p (k_list k), adead := adead a - {p}\<rparr>) else ([], ?a))"
    using collect_one [of ?a p] unused kl_rel_facts(1,2) [OF rel] p by (auto simp: eq)
  have dist: "distinct (k_list k)" by (rule kl_invD(3) [OF inv])
  have h: "((holds k its)(p := holds k its p - 1)) q = holds k' ?its q" for q
    using cnt [of q] one p dist by (auto simp: holds_def k'(2,3))
  have rel': "kl_rel (k', ?its) (snd (collect ?a))"
    by (rule kl_relI [OF k'(1) h]) (use len k' in \<open>auto simp: coll eq\<close>)
  have calls: "collect ?a = (if holds k its p = 1 \<and> k_put k then [Put p] else [], snd (collect ?a))"
    by (simp add: coll)
  have "\<forall>q. q \<noteq> p \<longrightarrow> is_dead k' q = is_dead k q" "set (k_list k) - {p} \<subseteq> set (k_list k')"
    using k'(2,3) dist by auto
  with d rel' calls k'(4,6) p show thesis
    by (rule that)
qed

lemma kl_rel_calls: "kl_rel (k\<lparr>k_calls := c\<rparr>, its) a \<longleftrightarrow> kl_rel (k, its) a"
proof -
  have "is_dead (k\<lparr>k_calls := c\<rparr>) = is_dead k" "holds (k\<lparr>k_calls := c\<rparr>) its = holds k its"
    "kl_inv (k\<lparr>k_calls := c\<rparr>) = kl_inv k"
    by (simp_all add: fun_eq_iff is_dead_def holds_def kl_inv_def)
  then show ?thesis by (simp add: kl_rel_def)
qed

lemma call_put_eq: "call_put released p k = k\<lparr>k_calls := k_calls k @ (if released \<and> k_put k then [Put p] else [])\<rparr>"
  by (simp add: call_put_def)

lemma iter_exit_sim:
  assumes rel: "kl_rel (k, its) a" and j: "j < length its" and calls: "k_calls k = []"
  shows "\<exists>k'. klist_iter_exit (its ! j) k = Some k'
    \<and> (case collect (a\<lparr>aits := its[j := None]\<rparr>) of (cs, b) \<Rightarrow> k_calls k' = cs \<and> kl_rel (k', its[j := None]) b)"
proof (cases "its ! j")
  case None
  then have "its[j := None] = its" by (metis list_update_id)
  moreover from this rel have "a\<lparr>aits := its[j := None]\<rparr> = a" by (auto simp: kl_rel_def)
  ultimately show ?thesis
    using None rel calls collect_none [OF kl_rel_facts(3) [OF rel] kl_rel_facts(2) [OF rel]]
    by (simp add: klist_iter_exit_def)
next
  case (Some p)
  from rel have inv: "kl_inv k (holds k its)" by (auto simp: kl_rel_def)
  from drop_cur [OF rel j Some] obtain released k' b where
    "klist_dec_and_del p k = Some (released, k')" "kl_rel (k', its[j := None]) b"
    "collect (a\<lparr>aits := its[j := None]\<rparr>) = (if released \<and> k_put k then [Put p] else [], b)"
    "k_calls k' = k_calls k" "k_put k' = k_put k" "p \<in> set (k_list k)" .
  with Some calls knode_klist_attached [OF inv] show ?thesis
    by (simp add: klist_iter_exit_def klist_put_def call_put_eq kl_rel_calls)
qed

text \<open>Taking the reference of an iterator.\<close>

lemma kl_rel_get:
  assumes rel: "kl_rel (k, its) a" and j: "j < length its" and none: "its ! j = None" and q: "q \<in> set (k_list k)"
  shows "kl_rel (get_node (Some q) k, its[j := Some q]) (a\<lparr>aits := its[j := Some q]\<rparr>)"
proof -
  from rel have inv: "kl_inv k (holds k its)" and len: "length its < 2 ^ 30"
    and eq: "al a = k_list k" "adead a = {p. is_dead k p}" "aget a = k_get k" "aput a = k_put k"
    by (auto simp: kl_rel_def)
  note g = get_node_inv [OF inv q holds_small [OF len]]
  have sel: "k_list (get_node (Some q) k) = k_list k" "k_get (get_node (Some q) k) = k_get k" "k_put (get_node (Some q) k) = k_put k"
    by (simp_all add: get_node_def)
  show ?thesis
  proof (rule kl_relI [OF g(1)])
    show "((holds k its)(q := Suc (holds k its q))) r = holds (get_node (Some q) k) (its[j := Some q]) r" for r
      using count_list_update [OF j, of "Some q" "Some r"] none by (auto simp: holds_def g(2) sel split: if_splits)
  qed (use len in \<open>auto simp: eq sel g(2)\<close>)
qed

lemma collect_get:
  assumes "nxt = None \<or> the nxt \<notin> adead a" and j: "j < length (aits a)"
  shows "collect (a\<lparr>aits := (aits a)[j := nxt]\<rparr>)
    = (case collect (a\<lparr>aits := (aits a)[j := None]\<rparr>) of (cs, b) \<Rightarrow> (cs, b\<lparr>aits := (aits a)[j := nxt]\<rparr>))"
proof -
  have "unused (a\<lparr>aits := (aits a)[j := nxt]\<rparr>) q \<longleftrightarrow> unused (a\<lparr>aits := (aits a)[j := None]\<rparr>) q" for q
    using assms(1) count_list_update [OF j, of nxt "Some q"] count_list_update [OF j, of None "Some q"]
    by (auto simp: unused_count split: if_splits)
  then have "unused (a\<lparr>aits := (aits a)[j := nxt]\<rparr>) = unused (a\<lparr>aits := (aits a)[j := None]\<rparr>)"
    by (rule ext)
  then show ?thesis by (simp add: collect_def)
qed

lemma a_first_live_dead: "a_first_live a xs = Some p \<Longrightarrow> p \<in> set xs \<and> p \<notin> adead a"
  by (induction xs) (auto split: if_splits)

lemma get_node_None [simp]: "get_node None k = k"
  by (simp add: get_node_def)

lemma get_node_calls [simp]: "k_calls (get_node q k) = k_calls k" "k_put (get_node q k) = k_put k"
  by (simp_all add: get_node_def split: option.split)

text \<open>A move of an iterator drops the node it is at and takes the next one that is not removed.\<close>

lemma move_sim:
  assumes rel: "kl_rel (k, its) a" and j: "j < length its" and calls: "k_calls k = []"
    and all: "set all \<subseteq> set (k_list k)"
    and rest: "\<And>p. p \<in> set (k_list k) \<Longrightarrow> set (following p (k_list k)) \<subseteq> set (k_list k) - {p}"
  defines "todo \<equiv> case its ! j of None \<Rightarrow> all | Some p \<Rightarrow> following p (k_list k)"
  shows "\<exists>k'. klist_move following all (its ! j) k = Some (a_first_live a todo, k')
    \<and> k_calls k' = snd (fst (a_move a j todo)) \<and> kl_rel (k', its[j := a_first_live a todo]) (snd (a_move a j todo))"
proof -
  define nxt where "nxt = a_first_live a todo"
  from rel have its: "aits a = its" and eq: "al a = k_list k" "adead a = {p. is_dead k p}" by (auto simp: kl_rel_def)
  have alive: "nxt = None \<or> the nxt \<notin> adead a"
    using a_first_live_dead [of a todo] by (cases nxt) (auto simp: nxt_def)
  have move: "a_move a j todo = (case collect (a\<lparr>aits := its[j := None]\<rparr>) of (cs, b) \<Rightarrow> ((nxt, cs), b\<lparr>aits := its[j := nxt]\<rparr>))"
    using collect_get [OF alive] j by (simp add: a_move_def Let_def its flip: nxt_def split: prod.split)
  have take_nxt: "kl_rel (get_node nxt k1, its[j := nxt]) (b\<lparr>aits := its[j := nxt]\<rparr>)"
    if "kl_rel (k1, its[j := None]) b" "nxt \<noteq> None \<Longrightarrow> the nxt \<in> set (k_list k1)" for k1 b
  proof (cases nxt)
    case None
    moreover have "b\<lparr>aits := its[j := None]\<rparr> = b" using that(1) by (auto simp: kl_rel_def)
    ultimately show ?thesis using that(1) by simp
  next
    case (Some q)
    with kl_rel_get [OF that(1), of j q] that(2) j show ?thesis by simp
  qed
  show ?thesis
  proof (cases "its ! j")
    case None
    then have [simp]: "its[j := None] = its" by (metis list_update_id)
    have "a\<lparr>aits := its\<rparr> = a" using its by auto
    then have none: "collect (a\<lparr>aits := its[j := None]\<rparr>) = ([], a)"
      using collect_none [OF kl_rel_facts(3) [OF rel] kl_rel_facts(2) [OF rel]] by simp
    have "first_live k all = nxt"
      using first_live_abs [of all a k] None by (simp add: nxt_def todo_def eq)
    moreover have "nxt \<noteq> None \<Longrightarrow> the nxt \<in> set (k_list k)"
      using a_first_live_dead [of a todo] None all by (auto simp: nxt_def todo_def)
    ultimately show ?thesis
      using take_nxt [of k a] rel None calls unfolding move none nxt_def [symmetric]
      by (simp add: klist_move_def Let_def)
  next
    case (Some p)
    from drop_cur [OF rel j Some] obtain released k' b where
      d: "klist_dec_and_del p k = Some (released, k')" "kl_rel (k', its[j := None]) b"
      "collect (a\<lparr>aits := its[j := None]\<rparr>) = (if released \<and> k_put k then [Put p] else [], b)"
      "k_calls k' = k_calls k" "k_put k' = k_put k" and p: "p \<in> set (k_list k)"
      and k': "\<forall>q. q \<noteq> p \<longrightarrow> is_dead k' q = is_dead k q" "set (k_list k) - {p} \<subseteq> set (k_list k')" .
    have todo: "todo = following p (k_list k)" by (simp add: todo_def Some)
    have "first_live k' todo = nxt"
      using first_live_abs [of todo a k'] rest [OF p] k'(1) by (auto simp: nxt_def todo eq)
    moreover have "nxt \<noteq> None \<Longrightarrow> the nxt \<in> set (k_list k')"
      using a_first_live_dead [of a todo] rest [OF p] k'(2) by (fastforce simp: nxt_def todo)
    ultimately show ?thesis
      using take_nxt [OF d(2)] d calls Some p unfolding move nxt_def [symmetric]
      by (simp add: klist_move_def Let_def todo call_put_eq kl_rel_calls)
  qed
qed

lemma behind_node_set:
  "distinct xs \<Longrightarrow> p \<in> set xs \<Longrightarrow> set (behind_node p xs) \<subseteq> set xs - {p}"
  by (auto simp: behind_node_def dest!: split_list simp: while_first)

lemma upto_node_set: "set (upto_node p xs) \<subseteq> set xs - {p}"
  by (auto simp: upto_node_def dest: set_takeWhileD)

lemma insert_at_node:
  assumes "distinct xs" and "pos \<in> set xs" and "p \<notin> set xs"
  shows "distinct (upto_node pos xs @ pos # p # behind_node pos xs)"
    and "set (upto_node pos xs @ pos # p # behind_node pos xs) = insert p (set xs)"
    and "distinct (upto_node pos xs @ p # pos # behind_node pos xs)"
    and "set (upto_node pos xs @ p # pos # behind_node pos xs) = insert p (set xs)"
proof -
  from assms(2) obtain ys zs where xs: "xs = ys @ pos # zs" by (meson split_list)
  with assms(1) have "pos \<notin> set ys" by auto
  then have "upto_node pos xs = ys" "behind_node pos xs = zs"
    by (simp_all add: xs upto_node_def behind_node_def while_first)
  with assms show "distinct (upto_node pos xs @ pos # p # behind_node pos xs)"
    "set (upto_node pos xs @ pos # p # behind_node pos xs) = insert p (set xs)"
    "distinct (upto_node pos xs @ p # pos # behind_node pos xs)"
    "set (upto_node pos xs @ p # pos # behind_node pos xs) = insert p (set xs)"
    by (auto simp: xs)
qed

lemma add_sim:
  assumes rel: "kl_rel (k, its) a" and p: "p \<notin> set (k_list k)" and calls: "k_calls k = []"
    and xs: "distinct xs" "set xs = insert p (set (k_list k))"
    and res: "res = map_option (\<lambda>k1. k1\<lparr>k_list := xs\<rparr>) (klist_node_init p k)"
  shows "\<exists>k'. updated its res = Some (fst (a_add p xs a), k', its) \<and> kl_rel (k', its) (snd (a_add p xs a))"
proof -
  from rel have inv: "kl_inv k (holds k its)" and len: "length its < 2 ^ 30"
    and eq: "al a = k_list k" "adead a = {p. is_dead k p}" "aits a = its" "aget a = k_get k" "aput a = k_put k"
    by (auto simp: kl_rel_def)
  from klist_node_init_inv [OF inv p] obtain k1 where
    k1: "klist_node_init p k = Some k1" "k_list k1 = k_list k" "k_get k1 = k_get k" "k_put k1 = k_put k"
    "k_calls k1 = k_calls k @ (if k_get k then [Get p] else [])" "is_dead k1 = is_dead k"
    "\<And>xs. distinct xs \<Longrightarrow> set xs = insert p (set (k_list k)) \<Longrightarrow> kl_inv (k1\<lparr>k_list := xs\<rparr>) ((holds k its)(p := 1))"
    by metis
  let ?k = "k1\<lparr>k_list := xs\<rparr>"
  have dead: "is_dead ?k = is_dead k" using k1(6) by (simp add: is_dead_def fun_eq_iff)
  have "Some p \<notin> set its" using kl_rel_facts(4) [OF rel, of p] p eq by auto
  then have "count_list its (Some p) = 0" by (simp add: count_list_0_iff)
  then have h: "((holds k its)(p := 1)) q = holds ?k its q" for q
    using xs(2) p not_dead_detached [OF inv p] by (auto simp: holds_def dead)
  have "kl_rel (?k, its) (snd (a_add p xs a))"
    by (rule kl_relI [OF k1(7) [OF xs] h]) (use len k1 in \<open>auto simp: a_add_def eq dead\<close>)
  then show ?thesis
    using k1 calls by (simp add: updated_def res a_add_def eq)
qed

lemma del_sim:
  assumes rel: "kl_rel (k, its) a" and p: "p \<in> set (k_list k)" and alive: "\<not> is_dead k p" and calls: "k_calls k = []"
  shows "\<exists>k'. klist_del p k = Some k'
    \<and> (case collect (a\<lparr>adead := insert p (adead a)\<rparr>) of (cs, b) \<Rightarrow> k_calls k' = cs \<and> kl_rel (k', its) b)"
proof -
  from rel have inv: "kl_inv k (holds k its)" and len: "length its < 2 ^ 30"
    and eq: "al a = k_list k" "adead a = {p. is_dead k p}" "aits a = its" "aget a = k_get k" "aput a = k_put k"
    by (auto simp: kl_rel_def)
  let ?a = "a\<lparr>adead := insert p (adead a)\<rparr>"
  let ?k = "knode_kill p k"
  note kill = knode_kill_inv [OF inv p alive]
  have one: "holds k its p = 1 \<longleftrightarrow> count_list its (Some p) = 0"
    using p alive by (simp add: holds_def)
  have pk: "p \<in> set (k_list ?k)" and dk: "is_dead ?k p" using p kill by simp_all
  from klist_dec_and_del_inv [OF kill(1) pk dk] obtain k' where
    d: "klist_dec_and_del p ?k = Some (holds k its p = 1, k')"
    and k': "kl_inv k' ((holds k its)(p := holds k its p - 1))"
    "k_list k' = (if holds k its p = 1 then remove1 p (k_list ?k) else k_list ?k)"
    "\<forall>q. is_dead k' q \<longleftrightarrow> is_dead ?k q \<and> \<not> (q = p \<and> holds k its p = 1)"
    "k_calls k' = k_calls ?k" "k_get k' = k_get ?k" "k_put k' = k_put ?k" .
  have dist: "distinct (k_list k)" by (rule kl_invD(3) [OF inv])
  have unused: "unused ?a q \<longleftrightarrow> q = p \<and> holds k its p = 1" if "q \<in> set (k_list k)" for q
    using kl_rel_facts(3) [OF rel, of q] that one by (auto simp: unused_count eq)
  have coll: "collect ?a = (if holds k its p = 1
      then (if k_put k then [Put p] else [], ?a\<lparr>al := remove1 p (k_list k), adead := insert p (adead a) - {p}\<rparr>) else ([], ?a))"
    using collect_one [of ?a p] unused kl_rel_facts(1,2) [OF rel] p by (auto simp: eq)
  have h: "((holds k its)(p := holds k its p - 1)) q = holds k' its q" for q
    using one p dist alive by (auto simp: holds_def k'(2,3) kill)
  have rel': "kl_rel (k', its) (snd (collect ?a))"
    unfolding coll
    by (rule kl_relI [OF k'(1) h]) (use len in \<open>auto simp: eq k'(2,3,5,6) kill(2,4,5,7)\<close>)
  have "klist_del p k = Some (call_put (holds k its p = 1) p k')"
    using d knode_klist_attached [OF inv p] by (simp add: klist_del_def klist_put_def)
  moreover have "k_calls (call_put (holds k its p = 1) p k') = fst (collect ?a)"
    using calls k'(4,6) kill by (simp add: call_put_eq coll)
  ultimately show ?thesis
    using rel' by (simp add: call_put_eq kl_rel_calls split_beta)
qed

lemma iter_init_sim:
  fixes n :: "addr option"
  assumes rel: "kl_rel (k, its) a" and len: "Suc (length its) < 2 ^ 30"
  defines "cur \<equiv> case n of None \<Rightarrow> None | Some p \<Rightarrow> if p \<in> set (k_list k) then Some p else None"
  shows "\<exists>k'. klist_iter_init_node n k = (cur, k') \<and> k_calls k' = k_calls k \<and> kl_rel (k', its @ [cur]) (a\<lparr>aits := its @ [cur]\<rparr>)"
proof -
  from rel have inv: "kl_inv k (holds k its)" and len': "length its < 2 ^ 30"
    and eq: "al a = k_list k" "adead a = {p. is_dead k p}" "aget a = k_get k" "aput a = k_put k"
    by (auto simp: kl_rel_def)
  have none: "kl_rel (k, its @ [None]) (a\<lparr>aits := its @ [None]\<rparr>)"
    by (rule kl_relI [OF inv]) (use len eq in \<open>auto simp: holds_def\<close>)
  show ?thesis
  proof (cases n)
    case None
    with none show ?thesis by (simp add: cur_def klist_iter_init_node_def)
  next
    case (Some p)
    note got = counts_inc_not_zero [OF kl_invD(5) [OF inv] holds_small [OF len'], of p]
    show ?thesis
    proof (cases "p \<in> set (k_list k)")
      case True
      then have "0 < holds k its p" using kl_invD(7) [OF inv, of p] by simp
      with got have "klist_iter_init_node n k = (Some p, get_node (Some p) k)"
        by (simp add: Some klist_iter_init_node_def get_node_def)
      moreover have "kl_rel (get_node (Some p) k, its @ [Some p]) (a\<lparr>aits := its @ [Some p]\<rparr>)"
        using kl_rel_get [OF none, of "length its" p] True by simp
      ultimately show ?thesis
        using True by (simp add: cur_def Some)
    next
      case False
      then have "holds k its p = 0" using kl_invD(7) [OF inv, of p] by simp
      with got have "klist_iter_init_node n k = (None, k)"
        by (simp add: Some klist_iter_init_node_def set_node_def)
      with none False show ?thesis
        by (simp add: cur_def Some)
    qed
  qed
qed

lemma klist_add_eq:
  assumes "p \<notin> set (k_list k)"
  shows "klist_add_head p k = map_option (\<lambda>k1. k1\<lparr>k_list := p # k_list k\<rparr>) (klist_node_init p k)"
    and "klist_add_tail p k = map_option (\<lambda>k1. k1\<lparr>k_list := k_list k @ [p]\<rparr>) (klist_node_init p k)"
    and "knode_klist (knodes k pos) = k_addr k \<Longrightarrow> pos \<in> set (k_list k) \<Longrightarrow> klist_add_behind p pos k
      = map_option (\<lambda>k1. k1\<lparr>k_list := upto_node pos (k_list k) @ pos # p # behind_node pos (k_list k)\<rparr>) (klist_node_init p k)"
    and "knode_klist (knodes k pos) = k_addr k \<Longrightarrow> pos \<in> set (k_list k) \<Longrightarrow> klist_add_before p pos k
      = map_option (\<lambda>k1. k1\<lparr>k_list := upto_node pos (k_list k) @ p # pos # behind_node pos (k_list k)\<rparr>) (klist_node_init p k)"
proof -
  have "k_list k1 = k_list k" if "klist_node_init p k = Some k1" for k1
    using that assms by (auto simp: klist_node_init_def knode_set_klist_def Let_def warn_on_def split: if_splits)
  then show "klist_add_head p k = map_option (\<lambda>k1. k1\<lparr>k_list := p # k_list k\<rparr>) (klist_node_init p k)"
    "klist_add_tail p k = map_option (\<lambda>k1. k1\<lparr>k_list := k_list k @ [p]\<rparr>) (klist_node_init p k)"
    "knode_klist (knodes k pos) = k_addr k \<Longrightarrow> pos \<in> set (k_list k) \<Longrightarrow> klist_add_behind p pos k
      = map_option (\<lambda>k1. k1\<lparr>k_list := upto_node pos (k_list k) @ pos # p # behind_node pos (k_list k)\<rparr>) (klist_node_init p k)"
    "knode_klist (knodes k pos) = k_addr k \<Longrightarrow> pos \<in> set (k_list k) \<Longrightarrow> klist_add_before p pos k
      = map_option (\<lambda>k1. k1\<lparr>k_list := upto_node pos (k_list k) @ p # pos # behind_node pos (k_list k)\<rparr>) (klist_node_init p k)"
    by (auto simp: klist_add_head_def klist_add_tail_def klist_add_behind_def klist_add_before_def add_head_def add_tail_def
        intro!: option.map_cong)
qed

lemma klist_step_sim:
  assumes rel: "kl_rel s a" and permits: "nodelist_permits a op"
  shows "\<exists>s'. klist_step s op = Some (fst (nodelist_step a op), s') \<and> kl_rel s' (snd (nodelist_step a op))"
proof -
  obtain k0 its where s: "s = (k0, its)" by (cases s)
  define k where "k = k0\<lparr>k_calls := []\<rparr>"
  have calls: "k_calls k = []" by (simp add: k_def)
  have rel: "kl_rel (k, its) a" using rel by (simp add: s k_def kl_rel_calls)
  then have inv: "kl_inv k (holds k its)" and eq: "al a = k_list k" "adead a = {p. is_dead k p}" "aits a = its"
    by (auto simp: kl_rel_def)
  have dist: "distinct (k_list k)" by (rule kl_invD(3) [OF inv])
  have step: "klist_step s op = klist_step (k, its) op" and kk: "k\<lparr>k_calls := []\<rparr> = k"
    by (simp_all add: klist_step_def s k_def)
  have add: "\<exists>s'. updated its res = Some (fst (a_add p xs a), s') \<and> kl_rel s' (snd (a_add p xs a))"
    if "p \<notin> set (k_list k)" "distinct xs" "set xs = insert p (set (k_list k))"
      "res = map_option (\<lambda>k1. k1\<lparr>k_list := xs\<rparr>) (klist_node_init p k)" for p xs res
    using add_sim [OF rel that(1) calls that(2-4)] by blast
  show ?thesis
  proof (cases op)
    case (AddHead p)
    with permits show ?thesis
      unfolding step using add [of p "p # k_list k"] dist by (simp add: kk klist_step_def Let_def calls eq klist_add_eq)
  next
    case (AddTail p)
    with permits show ?thesis
      unfolding step using add [of p "k_list k @ [p]"] dist by (simp add: kk klist_step_def Let_def calls eq klist_add_eq)
  next
    case (AddBehind p pos)
    with permits have p: "p \<notin> set (k_list k)" "pos \<in> set (k_list k)" by (simp_all add: eq)
    note ins = insert_at_node(1,2) [OF dist p(2,1)]
    from add [OF p(1) ins] AddBehind show ?thesis
      unfolding step by (simp add: kk klist_step_def Let_def calls eq klist_add_eq [OF p(1)] knode_klist_attached [OF inv p(2)] p(2))
  next
    case (AddBefore p pos)
    with permits have p: "p \<notin> set (k_list k)" "pos \<in> set (k_list k)" by (simp_all add: eq)
    note ins = insert_at_node(3,4) [OF dist p(2,1)]
    from add [OF p(1) ins] AddBefore show ?thesis
      unfolding step by (simp add: kk klist_step_def Let_def calls eq klist_add_eq [OF p(1)] knode_klist_attached [OF inv p(2)] p(2))
  next
    case (Del p)
    with permits have "p \<in> set (k_list k)" "\<not> is_dead k p" by (simp_all add: eq)
    from del_sim [OF rel this calls] Del show ?thesis
      unfolding step by (auto simp: kk klist_step_def Let_def calls updated_def split_beta)
  next
    case (Attached p)
    have "klist_node_attached p k \<longleftrightarrow> p \<in> set (k_list k)"
    proof
      show "klist_node_attached p k" if "p \<in> set (k_list k)"
        using knode_klist_attached [OF inv that] kl_invD(1) [OF inv]
        by (auto simp: klist_node_attached_def knode_klist_def)
      show "p \<in> set (k_list k)" if "klist_node_attached p k"
        using that kl_invD(9) [OF inv, of p] by (auto simp: klist_node_attached_def)
    qed
    with Attached rel show ?thesis
      unfolding step by (simp add: kk klist_step_def Let_def calls eq)
  next
    case (IterInit n)
    with permits have "Suc (length its) < 2 ^ 30" by (simp add: eq)
    from iter_init_sim [OF rel this, of n] IterInit show ?thesis
      unfolding step by (cases n) (auto simp: kk klist_step_def Let_def calls eq)
  next
    case (IterNext j)
    with permits have j: "j < length its" by (simp add: eq)
    from move_sim [OF rel j calls, of "k_list k" behind_node] behind_node_set [OF dist] IterNext show ?thesis
      unfolding step by (cases "its ! j") (auto simp: kk klist_step_def Let_def calls eq moved_def klist_next_def a_move_def split_beta)
  next
    case (IterPrev j)
    with permits have j: "j < length its" by (simp add: eq)
    from move_sim [OF rel j calls, of "rev (k_list k)" "\<lambda>p xs. rev (upto_node p xs)"] upto_node_set IterPrev show ?thesis
      unfolding step by (cases "its ! j") (auto simp: kk klist_step_def Let_def calls eq moved_def klist_prev_def a_move_def split_beta)
  next
    case (IterExit j)
    with permits have j: "j < length its" by (simp add: eq)
    from iter_exit_sim [OF rel j calls] IterExit show ?thesis
      unfolding step by (auto simp: kk klist_step_def Let_def calls eq updated_def split_beta)
  qed
qed

interpretation nodes: simulation klist_step nodelist_step nodelist_permits kl_rel
  by unfold_locales (rule klist_step_sim)

end
