(* ===== verification/KlistIter.thy ===== *)
theory KlistIter
  imports Klist "HOL-Library.Sublist"
begin

text \<open>
  Iteration over a \<open>klist\<close> while nodes are removed and other iterations run: the loop
  \<open>while ((n = klist_next(&i)))\<close> of the users, with any sequence of removals and of operations
  of other iterators between two steps.
\<close>

section \<open>The loop\<close>

fun klist_iterate ::
  "kl_op list list \<Rightarrow> nat \<Rightarrow> klist \<times> addr option list \<Rightarrow> (addr list \<times> bool \<times> klist \<times> addr option list) option" where
  "klist_iterate [] j s = Some ([], False, s)"
| "klist_iterate (env # envs) j s =
     (case run klist_step s env of
        None \<Rightarrow> None
      | Some (outs, s1) \<Rightarrow>
          (case klist_step s1 (IterNext j) of
             None \<Rightarrow> None
           | Some ((None, cs), s2) \<Rightarrow> Some ([], True, s2)
           | Some ((Some p, cs), s2) \<Rightarrow> map_option (\<lambda>(vs, rest). (p # vs, rest)) (klist_iterate envs j s2)))"

text \<open>Operations that neither add nodes nor move the iterator of the loop.\<close>

fun harmless :: "nat \<Rightarrow> kl_op \<Rightarrow> bool" where
  "harmless j (Del p) \<longleftrightarrow> True"
| "harmless j (Attached p) \<longleftrightarrow> True"
| "harmless j (IterInit n) \<longleftrightarrow> True"
| "harmless j (IterNext i) \<longleftrightarrow> i \<noteq> j"
| "harmless j (IterPrev i) \<longleftrightarrow> i \<noteq> j"
| "harmless j (IterExit i) \<longleftrightarrow> i \<noteq> j"
| "harmless j _ \<longleftrightarrow> False"

fun envs_permitted :: "nat \<Rightarrow> nodelist \<Rightarrow> kl_op list list \<Rightarrow> bool" where
  "envs_permitted j a [] \<longleftrightarrow> True"
| "envs_permitted j a (env # envs) \<longleftrightarrow>
     permitted_run nodelist_permits nodelist_step a env \<and> list_all (harmless j) env
     \<and> (case nodelist_step (snd (arun nodelist_step a env)) (IterNext j) of
          ((cur, cs), b) \<Rightarrow> cur = None \<or> envs_permitted j b envs)"

section \<open>What is left to visit\<close>

definition live :: "nodelist \<Rightarrow> addr list" where
  "live a = filter (\<lambda>p. p \<notin> adead a) (al a)"

definition todo :: "nodelist \<Rightarrow> nat \<Rightarrow> addr list" where
  "todo a j = (case aits a ! j of None \<Rightarrow> al a | Some p \<Rightarrow> behind_node p (al a))"

definition remaining :: "nodelist \<Rightarrow> nat \<Rightarrow> addr list" where
  "remaining a j = filter (\<lambda>p. p \<notin> adead a) (todo a j)"

lemma behind_node_filter:
  assumes "p \<in> set xs" and "P p" and "distinct xs"
  shows "behind_node p (filter P xs) = filter P (behind_node p xs)"
proof -
  from assms(1) obtain ys zs where xs: "xs = ys @ p # zs" by (meson split_list)
  with assms(3) have "p \<notin> set ys" by auto
  with assms(2) show ?thesis
    by (simp add: xs behind_node_def while_first)
qed

lemma collect_sel:
  "al (snd (collect a)) = filter (\<lambda>p. \<not> unused a p) (al a)" "aits (snd (collect a)) = aits a"
  "p \<in> adead (snd (collect a)) \<longleftrightarrow> p \<in> adead a \<and> \<not> unused a p"
  by (simp_all add: collect_def)

text \<open>A change of the removed nodes and of other iterators, with the collection that follows.\<close>

lemma collect_remaining:
  assumes a: "distinct (al a)" "\<And>q. aits a ! j = Some q \<Longrightarrow> q \<in> set (al a)"
    and j: "j < length (aits b)" "aits b ! j = aits a ! j" and b: "al b = al a" "adead a \<subseteq> adead b"
  shows "remaining (snd (collect b)) j = filter (\<lambda>p. p \<notin> adead b) (remaining a j)"
    and "live (snd (collect b)) = filter (\<lambda>p. p \<notin> adead b) (live a)"
proof -
  have dead: "unused b p \<Longrightarrow> p \<in> adead b" for p by (simp add: unused_def)
  have cur: "\<not> unused b q" if "aits a ! j = Some q" for q
    using that j by (auto simp: unused_def in_set_conv_nth)
  have "todo (snd (collect b)) j = filter (\<lambda>p. \<not> unused b p) (todo a j)"
    using cur a by (auto simp: todo_def collect_sel j b behind_node_filter split: option.split)
  then show "remaining (snd (collect b)) j = filter (\<lambda>p. p \<notin> adead b) (remaining a j)"
    using dead b(2) by (auto simp: remaining_def collect_sel intro!: filter_cong)
  show "live (snd (collect b)) = filter (\<lambda>p. p \<notin> adead b) (live a)"
    using dead b(2) by (auto simp: live_def collect_sel b(1) intro!: filter_cong)
qed

lemma harmless_collect:
  assumes rel: "kl_rel s a" and "nodelist_permits a op" and "harmless j op" and j: "j < length (aits a)"
  obtains b where "snd (nodelist_step a op) = snd (collect b)" and "j < length (aits b)" and "aits b ! j = aits a ! j"
    and "al b = al a" and "adead a \<subseteq> adead b"
proof -
  obtain k its where s: "s = (k, its)" by (cases s)
  note f = kl_rel_facts [OF rel [unfolded s]]
  note that' = that
  show thesis
  proof (cases op)
    case (Del p)
    then show thesis
      using j by (intro that' [of "a\<lparr>adead := insert p (adead a)\<rparr>"]) (auto simp: split_beta)
  next
    case (Attached p)
    then show thesis
      using j collect_none [OF f(3,2)] by (intro that' [of a]) auto
  next
    case (IterInit n)
    let ?b = "a\<lparr>aits := aits a @ [case n of None \<Rightarrow> None | Some p \<Rightarrow> if p \<in> set (al a) then Some p else None]\<rparr>"
    have "collect ?b = ([], ?b)"
      using f(2,3) by (intro collect_none) (auto simp: unused_def)
    with IterInit j show thesis
      by (intro that' [of ?b]) (auto simp: Let_def nth_append)
  next
    case (IterNext i)
    with assms(3) j show thesis
      by (intro that' [of "a\<lparr>aits := (aits a)[i := a_first_live a (todo a i)]\<rparr>"])
        (auto simp: a_move_def Let_def split_beta todo_def)
  next
    case (IterPrev i)
    with assms(3) j show thesis
      by (intro that' [of "a\<lparr>aits := (aits a)[i := a_first_live a
          (case aits a ! i of None \<Rightarrow> rev (al a) | Some p \<Rightarrow> rev (upto_node p (al a)))]\<rparr>"])
        (auto simp: a_move_def Let_def split_beta)
  next
    case (IterExit i)
    with assms(3) j show thesis
      by (intro that' [of "a\<lparr>aits := (aits a)[i := None]\<rparr>"]) (auto simp: split_beta)
  qed (use assms(3) in auto)
qed

lemma remaining_live:
  assumes "kl_rel s a" and "j < length (aits a)"
  shows "set (remaining a j) \<subseteq> set (live a)" and "distinct (al a)" and "aits a ! j = Some q \<Longrightarrow> q \<in> set (al a)"
proof -
  obtain k its where s: "s = (k, its)" by (cases s)
  note f = kl_rel_facts [OF assms(1) [unfolded s]]
  from assms(1) s have its: "aits a = its" by (auto simp: kl_rel_def)
  have cur: "q \<in> set (al a)" if "aits a ! j = Some q" for q
    using f(4) that nth_mem [OF assms(2)] by (simp add: its)
  then show "aits a ! j = Some q \<Longrightarrow> q \<in> set (al a)" .
  show "distinct (al a)" by (rule f(1))
  show "set (remaining a j) \<subseteq> set (live a)"
    using cur behind_node_set [OF f(1)] by (auto simp: remaining_def live_def todo_def split: option.splits)
qed

lemma harmless_step:
  assumes rel: "kl_rel s a" and permits: "nodelist_permits a op" and harmless: "harmless j op" and j: "j < length (aits a)"
  defines "a' \<equiv> snd (nodelist_step a op)"
  shows "remaining a' j = filter (\<lambda>p. p \<in> set (live a')) (remaining a j)"
    and "set (live a') \<subseteq> set (live a)" and "j < length (aits a')"
proof -
  from harmless_collect [OF rel permits harmless j] obtain b where
    b: "a' = snd (collect b)" "j < length (aits b)" "aits b ! j = aits a ! j" "al b = al a" "adead a \<subseteq> adead b"
    unfolding a'_def .
  note r = remaining_live [OF rel j]
  note c = collect_remaining [OF r(2,3) b(2-5)]
  show "remaining a' j = filter (\<lambda>p. p \<in> set (live a')) (remaining a j)"
    using r(1) by (auto simp: b(1) c intro!: filter_cong)
  show "set (live a') \<subseteq> set (live a)" by (auto simp: b(1) c)
  show "j < length (aits a')" using b(1,2) by (simp add: collect_sel)
qed

text \<open>A sequence of such operations.\<close>

lemma harmless_run:
  assumes "kl_rel s a" and "permitted_run nodelist_permits nodelist_step a env" and "list_all (harmless j) env"
    and "j < length (aits a)"
  defines "a' \<equiv> snd (arun nodelist_step a env)"
  shows "\<exists>s'. run klist_step s env = Some (fst (arun nodelist_step a env), s') \<and> kl_rel s' a'
    \<and> remaining a' j = filter (\<lambda>p. p \<in> set (live a')) (remaining a j) \<and> set (live a') \<subseteq> set (live a) \<and> j < length (aits a')"
  unfolding a'_def using assms(1-4)
proof (induction env arbitrary: s a)
  case Nil
  have "filter (\<lambda>p. p \<in> set (live a)) (remaining a j) = remaining a j"
    using remaining_live(1) [OF Nil(1,4)] by (simp add: filter_id_conv subset_iff)
  with Nil show ?case by simp
next
  case (Cons op env)
  let ?a1 = "snd (nodelist_step a op)"
  from Cons.prems have p: "nodelist_permits a op" "harmless j op" by simp_all
  from klist_step_sim [OF Cons.prems(1) p(1)] obtain s1 where
    s1: "klist_step s op = Some (fst (nodelist_step a op), s1)" "kl_rel s1 ?a1" by blast
  note h = harmless_step [OF Cons.prems(1) p Cons.prems(4)]
  from Cons.IH [OF s1(2) _ _ h(3)] Cons.prems obtain s' where
    ih: "run klist_step s1 env = Some (fst (arun nodelist_step ?a1 env), s')" "kl_rel s' (snd (arun nodelist_step ?a1 env))"
    "remaining (snd (arun nodelist_step ?a1 env)) j
      = filter (\<lambda>p. p \<in> set (live (snd (arun nodelist_step ?a1 env)))) (remaining ?a1 j)"
    "set (live (snd (arun nodelist_step ?a1 env))) \<subseteq> set (live ?a1)"
    "j < length (aits (snd (arun nodelist_step ?a1 env)))"
    by auto
  have arun: "arun nodelist_step a (op # env)
      = (fst (nodelist_step a op) # fst (arun nodelist_step ?a1 env), snd (arun nodelist_step ?a1 env))"
    by (simp add: Let_def split_beta)
  have "filter (\<lambda>p. p \<in> set (live (snd (arun nodelist_step ?a1 env)))) (remaining ?a1 j)
      = filter (\<lambda>p. p \<in> set (live (snd (arun nodelist_step ?a1 env)))) (remaining a j)"
    using ih(4) h(1) by (auto intro!: filter_cong)
  with s1 ih h(2) show ?case
    unfolding arun by auto
qed

text \<open>A step of the loop takes the first node of what is left.\<close>

lemma a_first_live_filter:
  "a_first_live a xs = (case filter (\<lambda>p. p \<notin> adead a) xs of [] \<Rightarrow> None | p # ps \<Rightarrow> Some p)"
  by (induction xs) auto

lemma todo_suffix: "\<exists>ys. al a = ys @ todo a j"
proof (cases "aits a ! j")
  case None
  then show ?thesis by (simp add: todo_def)
next
  case (Some p)
  have "al a = takeWhile (\<lambda>q. q \<noteq> p) (al a) @ dropWhile (\<lambda>q. q \<noteq> p) (al a)" by simp
  moreover have "\<exists>zs. xs = zs @ tl xs" for xs :: "addr list"
    by (rule exI [of _ "take 1 xs"]) (cases xs; simp)
  ultimately show ?thesis
    unfolding todo_def Some behind_node_def by (metis append.assoc option.simps(5))
qed

lemma behind_todo:
  assumes "distinct (al a)" and "todo a j = pre @ p # post"
  shows "behind_node p (al a) = post" and "p \<in> set (al a)"
proof -
  from todo_suffix obtain ys where "al a = ys @ todo a j" by blast
  with assms have al: "al a = (ys @ pre) @ p # post" by simp
  with assms(1) have "p \<notin> set (ys @ pre)" by auto
  from while_first(2) [OF this, of post] show "behind_node p (al a) = post"
    unfolding al behind_node_def by simp
  show "p \<in> set (al a)" by (simp add: al)
qed

lemma next_step:
  assumes rel: "kl_rel s a" and j: "j < length (aits a)"
  defines "a' \<equiv> snd (nodelist_step a (IterNext j))"
  shows "fst (fst (nodelist_step a (IterNext j))) = (case remaining a j of [] \<Rightarrow> None | p # ps \<Rightarrow> Some p)"
    and "live a' = live a" and "j < length (aits a')"
    and "remaining a j = p # ps \<Longrightarrow> remaining a' j = ps"
    and "remaining a j = [] \<Longrightarrow> aits a' ! j = None"
proof -
  define nxt where "nxt = a_first_live a (todo a j)"
  define b where "b = a\<lparr>aits := (aits a)[j := nxt]\<rparr>"
  have step: "nodelist_step a (IterNext j) = ((nxt, fst (collect b)), snd (collect b))"
    by (simp add: a_move_def nxt_def b_def todo_def Let_def split_beta)
  have nxt: "nxt = (case remaining a j of [] \<Rightarrow> None | p # ps \<Rightarrow> Some p)"
    by (simp add: nxt_def a_first_live_filter remaining_def)
  show "fst (fst (nodelist_step a (IterNext j))) = (case remaining a j of [] \<Rightarrow> None | p # ps \<Rightarrow> Some p)"
    by (simp add: step nxt del: nodelist_step.simps)
  have a': "a' = snd (collect b)" by (simp add: a'_def step del: nodelist_step.simps)
  have dead: "unused b q \<Longrightarrow> q \<in> adead a" for q by (simp add: unused_def b_def)
  show "live a' = live a"
    using dead by (auto simp: a' live_def collect_sel b_def intro!: filter_cong)
  show "j < length (aits a')" using j by (simp add: a' collect_sel b_def)
  show "remaining a j = [] \<Longrightarrow> aits a' ! j = None"
    using j nxt by (simp add: a' collect_sel b_def)
  assume r: "remaining a j = p # ps"
  with nxt have "nxt = Some p" by simp
  from r obtain pre post where todo: "todo a j = pre @ p # post" and ps: "ps = filter (\<lambda>p. p \<notin> adead a) post"
    by (auto simp: remaining_def filter_eq_Cons_iff)
  have alive: "p \<notin> adead a" using r by (auto simp: remaining_def filter_eq_Cons_iff)
  note r = remaining_live [OF rel j] and bt = behind_todo [OF remaining_live(2) [OF rel j] todo]
  have "\<not> unused b p" using alive by (auto simp: unused_def b_def)
  then have "todo a' j = filter (\<lambda>q. \<not> unused b q) post"
    using behind_node_filter [OF bt(2), of "\<lambda>q. \<not> unused b q"] r(2) bt(1) j
    by (simp add: todo_def a' collect_sel b_def \<open>nxt = Some p\<close>)
  then show "remaining a' j = ps"
    using dead by (auto simp: remaining_def a' collect_sel b_def ps intro!: filter_cong)
qed

text \<open>The loop ends, visits live nodes in order, and every node that is still live at the end.\<close>

lemma subseq_filter_ConsI: "subseq vs ps \<Longrightarrow> filter P xs = p # ps \<Longrightarrow> subseq (p # vs) xs"
  by (metis subseq_Cons2 subseq_filter_left subseq_order.order_trans)

lemma klist_iterate_spec:
  assumes "kl_rel s a" and "j < length (aits a)" and "envs_permitted j a envs" and "length (remaining a j) < length envs"
  shows "\<exists>vs s' a'. klist_iterate envs j s = Some (vs, True, s') \<and> kl_rel s' a' \<and> aits a' ! j = None
    \<and> subseq vs (remaining a j) \<and> set (live a') \<subseteq> set (live a) \<and> set (live a') \<inter> set (remaining a j) \<subseteq> set vs"
  using assms
proof (induction envs arbitrary: s a)
  case Nil
  then show ?case by simp
next
  case (Cons env envs)
  define b where "b = snd (arun nodelist_step a env)"
  from harmless_run [OF Cons.prems(1) _ _ Cons.prems(2), of env] Cons.prems(3) obtain s1 where
    e: "run klist_step s env = Some (fst (arun nodelist_step a env), s1)" "kl_rel s1 b"
    "remaining b j = filter (\<lambda>p. p \<in> set (live b)) (remaining a j)" "set (live b) \<subseteq> set (live a)" "j < length (aits b)"
    by (auto simp: b_def)
  define c where "c = snd (nodelist_step b (IterNext j))"
  have "nodelist_permits b (IterNext j)" using e(5) by simp
  from klist_step_sim [OF e(2) this] obtain s2 where
    s2: "klist_step s1 (IterNext j) = Some (fst (nodelist_step b (IterNext j)), s2)" "kl_rel s2 c"
    by (auto simp: c_def)
  note n = next_step [OF e(2,5), folded c_def]
  show ?case
  proof (cases "remaining b j")
    case Nil
    then have "klist_iterate (env # envs) j s = Some ([], True, s2)"
      using e(1) s2(1) n(1) by (cases "nodelist_step b (IterNext j)") (auto split: prod.splits)
    moreover have "set (live c) \<inter> set (remaining a j) = {}"
      using Nil e(3) n(2) by (auto simp: filter_empty_conv)
    ultimately show ?thesis
      using s2(2) n(2) n(5) [OF Nil] e(4)
      by (intro exI [of _ "[]"] exI [of _ s2] exI [of _ c]) (simp del: klist_iterate.simps)
  next
    case (Cons p ps)
    from n(4) [OF Cons] have rc: "remaining c j = ps" .
    have "length (p # ps) \<le> length (remaining a j)"
      using e(3) Cons by (metis length_filter_le)
    with Cons.prems(4) have len: "length ps < length envs" by simp
    have env: "envs_permitted j c envs"
      using Cons.prems(3) n(1) Cons by (auto simp: b_def c_def split: prod.splits simp del: nodelist_step.simps)
    from Cons.IH [OF s2(2) n(3) env] len rc obtain vs s' a' where
      ih: "klist_iterate envs j s2 = Some (vs, True, s')" "kl_rel s' a'" "aits a' ! j = None" "subseq vs ps"
      "set (live a') \<subseteq> set (live c)" "set (live a') \<inter> set ps \<subseteq> set vs"
      by auto
    have "klist_iterate (env # envs) j s = Some (p # vs, True, s')"
      using e(1) s2(1) n(1) Cons ih(1) by (cases "nodelist_step b (IterNext j)") (auto split: prod.splits)
    moreover have "subseq (p # vs) (remaining a j)"
      using e(3) Cons by (intro subseq_filter_ConsI [OF ih(4), where P = "\<lambda>p. p \<in> set (live b)"]) simp
    moreover have "set (live a') \<inter> set (remaining a j) \<subseteq> set (p # vs)"
    proof
      fix q assume q: "q \<in> set (live a') \<inter> set (remaining a j)"
      then have "q \<in> set (live b)" using ih(5) n(2) by auto
      with q e(3) have "q \<in> set (remaining b j)" by simp
      with q ih(6) Cons show "q \<in> set (p # vs)" by auto
    qed
    moreover have "set (live a') \<subseteq> set (live a)"
      using ih(5) n(2) e(4) by auto
    ultimately show ?thesis
      using ih(2,3) by (intro exI [of _ "p # vs"] exI [of _ s'] exI [of _ a'] conjI)
  qed
qed

section \<open>Properties\<close>

text \<open>
  C23: the reference counts of a \<open>klist\<close> implement a list without them.  Every sequence of
  insertions, removals and operations of any number of iterators, interleaved as they may be,
  runs without a warning and without an access through a null pointer or outside of the list;
  it returns what the specification returns, and a node leaves the list, and is put exactly
  once, when it was removed and no iterator is at it any more.
\<close>

theorem klist_refines_nodelist:
  assumes "kl_rel s a" and "permitted_run nodelist_permits nodelist_step a ops"
  shows "\<exists>s'. run klist_step s ops = Some (fst (arun nodelist_step a ops), s') \<and> kl_rel s' (snd (arun nodelist_step a ops))
    \<and> \<not> k_warned (fst s')"
proof -
  from nodes.run_sim [OF assms] obtain s' where
    s': "run klist_step s ops = Some (fst (arun nodelist_step a ops), s')" "kl_rel s' (snd (arun nodelist_step a ops))"
    by blast
  moreover obtain k its where "s' = (k, its)" by (cases s')
  ultimately show ?thesis
    by (auto simp: kl_rel_def dest: kl_invD(4))
qed

definition fresh_klist :: klist where
  "fresh_klist = klist_init \<lparr>k_addr = 0x1000, k_list = [], k_get = False, k_put = False,
     knodes = (\<lambda>p. \<lparr>n_klist = 0, n_ref = \<lparr>refs = 0, warnings = []\<rparr>\<rparr>), k_calls = [], k_warned = False\<rparr> True True"

definition fresh_nodelist :: nodelist where
  "fresh_nodelist = \<lparr>al = [], adead = {}, aits = [], aget = True, aput = True\<rparr>"

lemma fresh_klist_rel: "kl_rel (fresh_klist, []) fresh_nodelist"
proof (rule kl_relI)
  show "kl_inv fresh_klist (\<lambda>p. 0)"
    by (simp add: kl_inv_def fresh_klist_def klist_init_def counts_def bit_numeral_rec)
qed (simp_all add: fresh_klist_def klist_init_def fresh_nodelist_def holds_def is_dead_def knode_dead_def)

lemmas eval_nodelist = fresh_nodelist_def a_add_def a_move_def collect_def unused_def behind_node_def upto_node_def
  Let_def

theorem klist_refines_nodelist_witness:
  "\<exists>s'. run klist_step (fresh_klist, []) [AddTail 1, AddTail 2, IterInit None, IterNext 0, Del 1, IterNext 0]
    = Some ([(None, [Get 1]), (None, [Get 2]), (None, []), (Some 1, []), (None, []), (Some 2, [Put 1])], s')"
  using klist_refines_nodelist [OF fresh_klist_rel, of "[AddTail 1, AddTail 2, IterInit None, IterNext 0, Del 1, IterNext 0]"]
  by (auto simp: eval_nodelist)

text \<open>
  C24: iteration is robust against removal.  A loop over the list with \<open>klist_next\<close>, between
  whose steps nodes are removed and other iterators are used in any way, ends after at most one
  step more than there are live nodes.  It visits nodes that were live at the start, in order
  and once, and every node that is live when it ends.
\<close>

theorem klist_iteration_complete:
  assumes "kl_rel s a" and "j < length (aits a)" and "aits a ! j = None"
    and "envs_permitted j a envs" and "length (live a) < length envs"
  shows "\<exists>vs s' a'. klist_iterate envs j s = Some (vs, True, s') \<and> kl_rel s' a'
    \<and> subseq vs (live a) \<and> set (live a') \<subseteq> set vs"
proof -
  have "remaining a j = live a"
    using assms(3) by (simp add: remaining_def live_def todo_def)
  with klist_iterate_spec [OF assms(1,2,4)] assms(5) obtain vs s' a' where
    "klist_iterate envs j s = Some (vs, True, s')" "kl_rel s' a'" "subseq vs (live a)"
    "set (live a') \<subseteq> set (live a)" "set (live a') \<inter> set (live a) \<subseteq> set vs"
    by auto
  then show ?thesis by blast
qed

lemma three_nodes_rel:
  "\<exists>s. kl_rel s \<lparr>al = [1, 2, 3], adead = {}, aits = [None], aget = True, aput = True\<rparr>"
  using nodes.run_sim [OF fresh_klist_rel, of "[AddTail 1, AddTail 2, AddTail 3, IterInit None]"]
  by (auto simp: eval_nodelist)

theorem klist_iteration_complete_witness:
  "\<exists>s vs s'. klist_iterate [[], [Del 1, Del 2], [], []] 0 s = Some (vs, True, s')"
proof -
  let ?a = "\<lparr>al = [1, 2, 3], adead = {}, aits = [None], aget = True, aput = True\<rparr>"
  let ?envs = "[[], [Del 1, Del 2], [], []]"
  obtain s where rel: "kl_rel s ?a"
    using three_nodes_rel by blast
  have "0 < length (aits ?a)" "aits ?a ! 0 = None" "envs_permitted 0 ?a ?envs" "length (live ?a) < length ?envs"
    by (simp_all add: eval_nodelist live_def)
  from klist_iteration_complete [OF rel this] obtain vs s' where "klist_iterate ?envs 0 s = Some (vs, True, s')"
    by blast
  then show ?thesis by blast
qed

end
