(* ===== verification/HeapSort.thy ===== *)
theory HeapSort
  imports Prelude "HOL-Library.Multiset"
begin

text \<open>
  The bottom-up heapsort of \<open>lib/src/linux/sort.c\<close> on array indices: the reference for the
  version with byte offsets, and the proof that it sorts.  Elements of the part below \<open>n\<close> form
  a heap; the parent of index \<open>j\<close> is \<open>(j - 1) div 2\<close>.  The comparison returns an integer whose
  sign says how its arguments are ordered.
\<close>

section \<open>The algorithm on indices\<close>

definition par :: "nat \<Rightarrow> nat" where
  "par j = (j - 1) div 2"

definition swap :: "nat \<Rightarrow> nat \<Rightarrow> 'a list \<Rightarrow> 'a list" where
  "swap i j xs = xs[i := xs ! j, j := xs ! i]"

text \<open>Down to a leaf along the greater children, back up to the place of the element, shift.\<close>

function descend :: "('a \<Rightarrow> 'a \<Rightarrow> int) \<Rightarrow> 'a list \<Rightarrow> nat \<Rightarrow> nat \<Rightarrow> nat" where
  "descend cmp xs n b =
     (if 2 * b + 2 < n
      then descend cmp xs n (if cmp (xs ! (2 * b + 1)) (xs ! (2 * b + 2)) \<ge> 0 then 2 * b + 1 else 2 * b + 2)
      else if 2 * b + 2 = n then 2 * b + 1 else b)"
  by pat_completeness auto
termination
  by (relation "measure (\<lambda>(cmp, xs, n, b). n - b)") auto

declare descend.simps [simp del]

lemma par_less: "0 < j \<Longrightarrow> par j < j"
  by (auto simp: par_def)

function backtrack :: "('a \<Rightarrow> 'a \<Rightarrow> int) \<Rightarrow> 'a list \<Rightarrow> nat \<Rightarrow> nat \<Rightarrow> nat" where
  "backtrack cmp xs a b = (if a < b \<and> cmp (xs ! a) (xs ! b) \<ge> 0 then backtrack cmp xs a (par b) else b)"
  by pat_completeness auto
termination
  by (relation "measure (\<lambda>(cmp, xs, a, b). b)") (auto intro: par_less)

declare backtrack.simps [simp del]

function shift :: "nat \<Rightarrow> nat \<Rightarrow> nat \<Rightarrow> 'a list \<Rightarrow> 'a list" where
  "shift a b c xs = (if a < b then shift a (par b) c (swap (par b) c xs) else xs)"
  by pat_completeness auto
termination
  by (relation "measure (\<lambda>(a, b, c, xs). b)") (auto intro: par_less)

declare shift.simps [simp del]

definition sift :: "('a \<Rightarrow> 'a \<Rightarrow> int) \<Rightarrow> nat \<Rightarrow> nat \<Rightarrow> 'a list \<Rightarrow> 'a list" where
  "sift cmp n a xs = (let c = backtrack cmp xs a (descend cmp xs n a) in shift a c c xs)"

function heapsort :: "('a \<Rightarrow> 'a \<Rightarrow> int) \<Rightarrow> nat \<Rightarrow> nat \<Rightarrow> 'a list \<Rightarrow> 'a list" where
  "heapsort cmp a n xs =
     (if 0 < a then heapsort cmp (a - 1) n (sift cmp n (a - 1) xs)
      else if 1 < n then heapsort cmp 0 (n - 1) (sift cmp (n - 1) 0 (swap 0 (n - 1) xs))
      else xs)"
  by pat_completeness auto
termination
  by (relation "measure (\<lambda>(cmp, a, n, xs). a + n)") auto

declare heapsort.simps [simp del]

text \<open>What a comparison function owes: a total preorder.\<close>

definition cmp_preorder :: "('a \<Rightarrow> 'a \<Rightarrow> int) \<Rightarrow> bool" where
  "cmp_preorder cmp \<longleftrightarrow>
     (\<forall>x. cmp x x \<ge> 0) \<and> (\<forall>x y. cmp x y < 0 \<longrightarrow> cmp y x \<ge> 0)
     \<and> (\<forall>x y z. cmp x y \<ge> 0 \<longrightarrow> cmp y z \<ge> 0 \<longrightarrow> cmp x z \<ge> 0)"

definition heap_from :: "('a \<Rightarrow> 'a \<Rightarrow> int) \<Rightarrow> nat \<Rightarrow> nat \<Rightarrow> 'a list \<Rightarrow> bool" where
  "heap_from cmp a n xs \<longleftrightarrow> (\<forall>j. 0 < j \<longrightarrow> j < n \<longrightarrow> a \<le> par j \<longrightarrow> cmp (xs ! par j) (xs ! j) \<ge> 0)"

lemma cmp_preorderD:
  assumes "cmp_preorder cmp"
  shows "cmp x x \<ge> 0" and "cmp x y < 0 \<Longrightarrow> cmp y x \<ge> 0" and "cmp x y \<ge> 0 \<Longrightarrow> cmp y z \<ge> 0 \<Longrightarrow> cmp x z \<ge> 0"
  using assms unfolding cmp_preorder_def by blast+

section \<open>Paths\<close>

text \<open>\<open>anc a b\<close>: the index \<open>a\<close> is \<open>b\<close> or above it.\<close>

function anc :: "nat \<Rightarrow> nat \<Rightarrow> bool" where
  "anc a b = (if b = a then True else if a < b then anc a (par b) else False)"
  by pat_completeness auto
termination
  by (relation "measure (\<lambda>(a, b). b)") (auto intro: par_less)

declare anc.simps [simp del]

lemma anc_refl [simp]: "anc a a"
  by (subst anc.simps) simp

lemma anc_le: "anc a b \<Longrightarrow> a \<le> b"
  by (subst (asm) anc.simps) (auto split: if_splits)

lemma anc_step: "a \<noteq> b \<Longrightarrow> anc a b \<longleftrightarrow> a < b \<and> anc a (par b)"
  by (subst anc.simps) auto

lemma anc_par_iff: "a < b \<Longrightarrow> anc a b \<longleftrightarrow> anc a (par b)"
  by (subst anc.simps) auto

lemma anc_trans: "anc a b \<Longrightarrow> anc b c \<Longrightarrow> anc a c"
proof (induction c rule: less_induct)
  case (less c)
  show ?case
  proof (cases "b = c")
    case False
    with less.prems have "b < c" "anc b (par c)" by (simp_all add: anc_step)
    with less.IH [OF par_less] less.prems have "anc a (par c)" by simp
    with \<open>b < c\<close> anc_le [OF less.prems(1)] show ?thesis by (subst anc.simps) auto
  qed (use less in simp)
qed

lemma anc_chain: "anc p c \<Longrightarrow> anc q c \<Longrightarrow> p \<le> q \<Longrightarrow> anc p q"
proof (induction c rule: less_induct)
  case (less c)
  show ?case
  proof (cases "q = c")
    case False
    with less.prems have "q < c" "anc q (par c)" by (simp_all add: anc_step)
    moreover from \<open>q < c\<close> less.prems have "p < c" by simp
    with less.prems have "anc p (par c)" by (simp add: anc_par_iff)
    ultimately show ?thesis using less.IH [OF par_less] less.prems by simp
  qed (use less in simp)
qed

lemma anc_par: "anc a q \<Longrightarrow> q \<noteq> a \<Longrightarrow> anc a (par q) \<and> a < q"
  by (simp add: anc_step)

lemma par_children [simp]: "par (2 * b + 1) = b" "par (2 * b + 2) = b" "par (Suc (2 * b)) = b" "par (Suc (Suc (2 * b))) = b"
  by (simp_all add: par_def)

lemma par_cases: "0 < j \<Longrightarrow> j = 2 * par j + 1 \<or> j = 2 * par j + 2"
  unfolding par_def by presburger

text \<open>The leaf that the descent reaches: each index on the way is not below its sibling.\<close>

definition best :: "('a \<Rightarrow> 'a \<Rightarrow> int) \<Rightarrow> nat \<Rightarrow> 'a list \<Rightarrow> nat \<Rightarrow> bool" where
  "best cmp n xs p \<longleftrightarrow> (\<forall>s. 0 < s \<longrightarrow> s < n \<longrightarrow> par s = par p \<longrightarrow> cmp (xs ! p) (xs ! s) \<ge> 0)"

lemma children: "0 < s \<Longrightarrow> par s = b \<Longrightarrow> s = 2 * b + 1 \<or> s = 2 * b + 2"
  using par_cases [of s] by auto

lemma best_child:
  assumes "cmp_preorder cmp" and "2 * b + 2 < n"
  shows "best cmp n xs (if cmp (xs ! (2 * b + 1)) (xs ! (2 * b + 2)) \<ge> 0 then 2 * b + 1 else 2 * b + 2)" (is "best _ _ _ ?q")
  unfolding best_def
proof (intro allI impI)
  fix s assume "0 < s" "par s = par ?q"
  then have "0 < s" "par s = b" by (simp_all split: if_splits)
  from children [OF this] cmp_preorderD(1,2) [OF assms(1)] show "cmp (xs ! ?q) (xs ! s) \<ge> 0"
    by auto
qed

lemma best_only_child:
  assumes "cmp_preorder cmp" and "2 * b + 2 = n"
  shows "best cmp n xs (2 * b + 1)"
  unfolding best_def
proof (intro allI impI)
  fix s assume "0 < s" "s < n" "par s = par (2 * b + 1)"
  then have "s = 2 * b + 1" using children [of s b] assms(2) by auto
  with cmp_preorderD(1) [OF assms(1)] show "cmp (xs ! (2 * b + 1)) (xs ! s) \<ge> 0" by simp
qed

lemma descend_spec:
  assumes "cmp_preorder cmp" and "b < n"
  shows "anc b (descend cmp xs n b) \<and> descend cmp xs n b < n
    \<and> (\<forall>j. 0 < j \<longrightarrow> par j = descend cmp xs n b \<longrightarrow> n \<le> j)
    \<and> (\<forall>p. anc b p \<longrightarrow> anc p (descend cmp xs n b) \<longrightarrow> p \<noteq> b \<longrightarrow> best cmp n xs p)"
  using assms
proof (induction cmp xs n b rule: descend.induct)
  case (1 cmp xs n b)
  consider (down) "2 * b + 2 < n" | (only) "2 * b + 2 = n" | (leaf) "n < 2 * b + 2" by linarith
  then show ?case
  proof cases
    case down
    define q where "q = (if cmp (xs ! (2 * b + 1)) (xs ! (2 * b + 2)) \<ge> 0 then 2 * b + 1 else 2 * b + 2)"
    have q: "par q = b" "b < q" "q < n" using down by (auto simp: q_def)
    have d: "descend cmp xs n b = descend cmp xs n q"
      using down by (subst descend.simps) (simp add: q_def)
    from 1(1) [OF down, folded q_def] 1(2) q(3) have
      ih: "anc q (descend cmp xs n q)" "descend cmp xs n q < n" "\<forall>j. 0 < j \<longrightarrow> par j = descend cmp xs n q \<longrightarrow> n \<le> j"
      "\<And>p. anc q p \<Longrightarrow> anc p (descend cmp xs n q) \<Longrightarrow> p \<noteq> q \<Longrightarrow> best cmp n xs p"
      by blast+
    have "anc b q" using q by (simp add: anc_par_iff)
    moreover have "best cmp n xs p" if p: "anc b p" "anc p (descend cmp xs n q)" "p \<noteq> b" for p
    proof (cases "p < q")
      case True
      from anc_chain [OF p(2) ih(1)] True have "anc p q" by simp
      with True q have "anc p b" using anc_par_iff by metis
      with p anc_le show ?thesis by (metis le_antisym)
    next
      case False
      with anc_chain [OF ih(1) p(2)] have "anc q p" by simp
      with ih(4) p(2) best_child [OF 1(2) down, of xs, folded q_def] show ?thesis by (cases "p = q") auto
    qed
    ultimately show ?thesis
      using ih(1-3) anc_trans [of b q] by (simp add: d)
  next
    case only
    have d: "descend cmp xs n b = 2 * b + 1" using only by (subst descend.simps) simp
    have "anc b (2 * b + 1)" by (subst anc_par_iff) simp_all
    moreover have "n \<le> j" if "0 < j" "par j = 2 * b + 1" for j
      using par_cases [OF that(1)] that(2) only by linarith
    moreover have "best cmp n xs p" if "anc b p" "anc p (2 * b + 1)" "p \<noteq> b" for p
    proof -
      have "p = 2 * b + 1"
      proof (rule ccontr)
        assume "p \<noteq> 2 * b + 1"
        with that(2) have "anc p b" by (auto simp: anc_step)
        with that anc_le show False by (metis le_antisym)
      qed
      with best_only_child [OF 1(2) only] show ?thesis by simp
    qed
    ultimately show ?thesis using only by (simp add: d)
  next
    case leaf
    then have d: "descend cmp xs n b = b" by (subst descend.simps) simp
    have "n \<le> j" if "0 < j" "par j = b" for j
      using par_cases [OF that(1)] that(2) leaf by linarith
    moreover have "p = b" if "anc b p" "anc p b" for p
      using that anc_le by (metis le_antisym)
    ultimately show ?thesis using 1(3) by (simp add: d)
  qed
qed

text \<open>Back up: the lowest place on the way where the element fits.\<close>

lemma backtrack_spec:
  assumes "anc a b"
  shows "anc a (backtrack cmp xs a b) \<and> anc (backtrack cmp xs a b) b
    \<and> (backtrack cmp xs a b = a \<or> cmp (xs ! a) (xs ! backtrack cmp xs a b) < 0)
    \<and> (\<forall>p. anc (backtrack cmp xs a b) p \<longrightarrow> anc p b \<longrightarrow> p \<noteq> backtrack cmp xs a b \<longrightarrow> cmp (xs ! a) (xs ! p) \<ge> 0)"
  using assms
proof (induction cmp xs a b rule: backtrack.induct)
  case (1 cmp xs a b)
  show ?case
  proof (cases "a < b \<and> cmp (xs ! a) (xs ! b) \<ge> 0")
    case True
    define r where "r = backtrack cmp xs a (par b)"
    have e: "backtrack cmp xs a b = r" using True by (subst backtrack.simps) (simp add: r_def)
    have "anc a (par b)" using 1(2) True by (simp add: anc_par_iff)
    from 1(1) [OF True this] have ih: "anc a r" "anc r (par b)" "r = a \<or> cmp (xs ! a) (xs ! r) < 0"
      "\<And>p. anc r p \<Longrightarrow> anc p (par b) \<Longrightarrow> p \<noteq> r \<Longrightarrow> cmp (xs ! a) (xs ! p) \<ge> 0"
      by (simp_all add: r_def)
    have "r < b" using anc_le [OF ih(2)] par_less [of b] True by linarith
    then have "anc r b" using ih(2) by (simp add: anc_par_iff)
    moreover have "cmp (xs ! a) (xs ! p) \<ge> 0" if "anc r p" "anc p b" "p \<noteq> r" for p
      using ih(4) that True by (cases "p = b") (auto simp: anc_step)
    ultimately show ?thesis using ih by (simp add: e)
  next
    case False
    then have e: "backtrack cmp xs a b = b" by (subst backtrack.simps) (simp only: if_False)
    have "p = b" if "anc b p" "anc p b" for p
      using that anc_le by (metis le_antisym)
    moreover have "b = a \<or> cmp (xs ! a) (xs ! b) < 0"
      using False anc_le [OF 1(2)] by linarith
    ultimately show ?thesis using 1(2) by (simp add: e)
  qed
qed

section \<open>Shifting along a path\<close>

lemma length_swap [simp]: "length (swap i j xs) = length xs"
  by (simp add: swap_def)

lemma swap_nth:
  assumes "i < length xs" and "j < length xs"
  shows "swap i j xs ! k = (if k = j then xs ! i else if k = i then xs ! j else xs ! k)"
  using assms by (cases "k = j"; cases "k = i") (simp_all add: swap_def)

lemma swap_take:
  assumes "i < n" and "j < n" and "n \<le> length xs"
  shows "take n (swap i j xs) = swap i j (take n xs)" and "drop n (swap i j xs) = drop n xs"
  using assms by (simp_all add: swap_def take_update_swap)

lemma mset_swap: "i < length xs \<Longrightarrow> j < length xs \<Longrightarrow> mset (swap i j xs) = mset xs"
  by (simp add: swap_def mset_swap)

lemma shift_rel:
  assumes "c < n" and "n \<le> length xs" and "b \<le> c"
  shows "length (shift a b c xs) = length xs" and "mset (take n (shift a b c xs)) = mset (take n xs)"
    and "drop n (shift a b c xs) = drop n xs"
proof -
  have "length (shift a b c xs) = length xs \<and> mset (take n (shift a b c xs)) = mset (take n xs)
      \<and> drop n (shift a b c xs) = drop n xs"
    using assms
  proof (induction a b c xs rule: shift.induct)
    case (1 a b c xs)
    show ?case
    proof (cases "a < b")
      case True
      have "par b < n" "par b \<le> c" using True 1(2,4) par_less [of b] by linarith+
      with 1(1) [OF True] 1(2-4) have "length (shift a (par b) c (swap (par b) c xs)) = length xs
          \<and> mset (take n (shift a (par b) c (swap (par b) c xs))) = mset (take n (swap (par b) c xs))
          \<and> drop n (shift a (par b) c (swap (par b) c xs)) = drop n (swap (par b) c xs)"
        by simp
      with True \<open>par b < n\<close> 1(2,3) show ?thesis
        by (subst (1 2 3) shift.simps) (simp add: swap_take mset_swap)
    qed (subst (1 2 3) shift.simps, simp)
  qed
  then show "length (shift a b c xs) = length xs" "mset (take n (shift a b c xs)) = mset (take n xs)"
    "drop n (shift a b c xs) = drop n xs" by simp_all
qed

text \<open>Every element on the path moves up to the parent, and the first one goes to the end.\<close>

lemma shift_nth:
  assumes "anc a b" and "anc b c" and "b \<noteq> a" and "c < length xs"
  defines "ys \<equiv> shift a b c xs"
  shows "ys ! c = xs ! a \<and> ys ! par b = xs ! c
    \<and> (\<forall>q. anc a q \<longrightarrow> anc q (par b) \<longrightarrow> q \<noteq> a \<longrightarrow> ys ! par q = xs ! q)
    \<and> (\<forall>i. i \<noteq> c \<longrightarrow> \<not> (anc a i \<and> anc i (par b)) \<longrightarrow> ys ! i = xs ! i)"
  unfolding ys_def using assms(1-4)
proof (induction a b c xs rule: shift.induct)
  case (1 a b c xs)
  have ab: "a < b" using 1(2,4) by (simp add: anc_step)
  have bc: "b \<le> c" by (rule anc_le [OF 1(3)])
  define p where "p = par b"
  have p: "p < b" "p < c" "p < length xs" using par_less [of b] ab bc 1(5) by (simp_all add: p_def)
  have ap: "anc a p" using 1(2) ab by (simp add: anc_par_iff p_def)
  define xs' where "xs' = swap p c xs"
  have nth: "xs' ! k = (if k = c then xs ! p else if k = p then xs ! c else xs ! k)" for k
    using swap_nth [OF p(3) 1(5)] by (simp add: xs'_def)
  have eq: "shift a b c xs = shift a p c xs'"
    using ab by (subst shift.simps) (simp add: p_def xs'_def)
  show ?case
  proof (cases "p = a")
    case True
    have "shift a p c xs' = xs'" using True by (subst shift.simps) simp
    moreover have "q = a" if "anc a q" "anc q a" for q using that anc_le by (metis le_antisym)
    ultimately show ?thesis
      using True nth by (auto simp: eq simp flip: p_def)
  next
    case False
    have "anc p c"
      using 1(3) p(1) anc_trans [of p b c] by (simp add: p_def anc_par_iff)
    from 1(1) [OF ab, folded p_def xs'_def] ap this False 1(5) have
      ih: "shift a p c xs' ! c = xs' ! a" "shift a p c xs' ! par p = xs' ! c"
      "\<And>q. anc a q \<Longrightarrow> anc q (par p) \<Longrightarrow> q \<noteq> a \<Longrightarrow> shift a p c xs' ! par q = xs' ! q"
      "\<And>i. i \<noteq> c \<Longrightarrow> \<not> (anc a i \<and> anc i (par p)) \<Longrightarrow> shift a p c xs' ! i = xs' ! i"
      by (simp_all add: xs'_def)
    have ap': "a < p" using ap False by (simp add: anc_step)
    then have pp: "par p < p" by (intro par_less) simp
    have above: "i < p" if "anc i (par p)" for i using anc_le [OF that] pp by linarith
    have 1: "shift a p c xs' ! p = xs ! c"
      using ih(4) [of p] above [of p] p(2) nth [of p] by auto
    have 2: "shift a p c xs' ! c = xs ! a"
      using ih(1) nth [of a] False ap' p(2) by simp
    have 3: "shift a p c xs' ! par q = xs ! q" if "anc a q" "anc q p" "q \<noteq> a" for q
    proof (cases "q = p")
      case True
      with ih(2) nth [of c] show ?thesis by simp
    next
      case False
      then have "anc q (par p)" using that(2) by (simp add: anc_step)
      with ih(3) [OF that(1) this that(3)] above [OF this] p(2) nth [of q] show ?thesis by simp
    qed
    have 4: "shift a p c xs' ! i = xs ! i" if "i \<noteq> c" "\<not> (anc a i \<and> anc i p)" for i
    proof -
      have "i \<noteq> p" using that(2) ap by auto
      moreover have "\<not> (anc a i \<and> anc i (par p))"
        using that(2) anc_trans [of i "par p" p] pp by (auto simp: anc_par_iff)
      ultimately show ?thesis using ih(4) [OF that(1)] nth [of i] that(1) by simp
    qed
    from 1 2 3 4 show ?thesis by (simp add: eq flip: p_def)
  qed
qed

section \<open>The heap\<close>

text \<open>
  A new element at \<open>a\<close>, above a heap: it is sifted to its place, and the heap starts at \<open>a\<close>.
\<close>

lemma anc_next:
  "anc c l \<Longrightarrow> c \<noteq> l \<Longrightarrow> \<exists>q. anc c q \<and> anc q l \<and> c < q \<and> par q = c"
proof (induction l rule: less_induct)
  case (less l)
  then have "c < l" "anc c (par l)" by (simp_all add: anc_step)
  show ?case
  proof (cases "par l = c")
    case True
    with less.prems \<open>c < l\<close> show ?thesis by auto
  next
    case False
    with less.IH [of "par l"] \<open>anc c (par l)\<close> par_less [of l] \<open>c < l\<close> obtain q where
      q: "anc c q" "anc q (par l)" "c < q" "par q = c" by auto
    then have "q < l" using anc_le [of q "par l"] par_less [of l] \<open>c < l\<close> by linarith
    then have "anc q l" using q(2) by (simp add: anc_par_iff)
    with q show ?thesis by blast
  qed
qed

lemma anc_next_unique:
  assumes "anc q c" and "anc j c" and "par q = i" and "par j = i" and "i < q" and "i < j"
  shows "j = q"
proof (rule ccontr)
  assume "j \<noteq> q"
  then consider "j < q" | "q < j" by linarith
  then show False
  proof cases
    case 1
    with anc_chain [OF assms(2,1)] have "anc j (par q)" by (simp add: anc_par_iff)
    with anc_le assms show False by fastforce
  next
    case 2
    with anc_chain [OF assms(1,2)] have "anc q (par j)" by (simp add: anc_par_iff)
    with anc_le assms show False by fastforce
  qed
qed

text \<open>A parent and a child after the shift, by their places on or off the path.\<close>

lemma sift_pair:
  assumes pre: "cmp_preorder cmp" and j: "0 < j" "j < n" "a \<le> par j"
    and c: "anc a c" "cmp (xs ! a) (xs ! c) < 0" "a < c" "c < n"
    and up: "\<And>q. anc a q \<Longrightarrow> anc q c \<Longrightarrow> q \<noteq> a \<Longrightarrow> ys ! par q = xs ! q"
    and off: "\<And>i. \<not> (anc a i \<and> anc i c) \<Longrightarrow> ys ! i = xs ! i" and moved: "ys ! c = xs ! a"
    and below: "par j = c \<Longrightarrow> cmp (xs ! a) (xs ! j) \<ge> 0"
    and best: "\<And>p. anc a p \<Longrightarrow> anc p c \<Longrightarrow> p \<noteq> a \<Longrightarrow> par j = par p \<Longrightarrow> cmp (xs ! p) (xs ! j) \<ge> 0"
    and heap: "\<And>k. 0 < k \<Longrightarrow> k < n \<Longrightarrow> a < par k \<Longrightarrow> cmp (xs ! par k) (xs ! k) \<ge> 0"
  shows "cmp (ys ! par j) (ys ! j) \<ge> 0"
proof -
  have pj: "par j < j" using j(1) by (rule par_less)
  consider (here) "par j = c" | (on) "par j \<noteq> c" "anc a (par j)" "anc (par j) c" | (out) "\<not> (anc a (par j) \<and> anc (par j) c)"
    by blast
  then show ?thesis
  proof cases
    case here
    have "\<not> anc j c" using anc_le [of j c] pj here by auto
    with off [of j] below here moved show ?thesis by simp
  next
    case on
    with anc_next [of "par j" c] obtain q where q: "anc (par j) q" "anc q c" "par j < q" "par q = par j" by auto
    have aq: "anc a q" "q \<noteq> a" using anc_trans [OF on(2) q(1)] q(3) j(3) by auto
    have yi: "ys ! par j = xs ! q" using up [OF aq(1) q(2) aq(2)] q(4) by simp
    show ?thesis
    proof (cases "j = q")
      case False
      have "\<not> anc j c" using anc_next_unique [OF q(2) _ q(4) refl q(3) pj] False by auto
      with off [of j] best [OF aq(1) q(2) aq(2)] q(4) yi show ?thesis by simp
    next
      case True
      show ?thesis
      proof (cases "q = c")
        case True
        with \<open>j = q\<close> yi moved cmp_preorderD(2) [OF pre c(2)] show ?thesis by simp
      next
        case False
        with anc_next [OF q(2)] obtain r where r: "anc q r" "anc r c" "q < r" "par r = q" by auto
        have "anc a r" "r \<noteq> a" using anc_trans [OF aq(1) r(1)] r(3) anc_le [OF aq(1)] by auto
        with up [of r] r have "ys ! j = xs ! r" using \<open>j = q\<close> by simp
        moreover have "cmp (xs ! q) (xs ! r) \<ge> 0"
          using heap [of r] r anc_le [OF r(2)] c(4) aq anc_le [OF aq(1)] by simp
        ultimately show ?thesis using yi by simp
      qed
    qed
  next
    case out
    have "par j \<noteq> a" using out c(1) by auto
    then have "a < par j" using j(3) by simp
    have "\<not> (anc a j \<and> anc j c)"
    proof
      assume "anc a j \<and> anc j c"
      then have "anc a (par j)" "anc (par j) c"
        using j(3) pj anc_trans [of "par j" j c] by (auto simp: anc_par_iff)
      with out show False by simp
    qed
    with off [of j] off [OF out] heap [OF j(1,2) \<open>a < par j\<close>] show ?thesis by simp
  qed
qed

lemma sift_heap:
  assumes pre: "cmp_preorder cmp" and heap: "heap_from cmp (Suc a) n xs" and a: "a < n" and n: "n \<le> length xs"
  shows "heap_from cmp a n (sift cmp n a xs)" and "length (sift cmp n a xs) = length xs"
    and "mset (take n (sift cmp n a xs)) = mset (take n xs)" and "drop n (sift cmp n a xs) = drop n xs"
proof -
  define l where "l = descend cmp xs n a"
  define c where "c = backtrack cmp xs a l"
  define ys where "ys = shift a c c xs"
  have sift: "sift cmp n a xs = ys" by (simp add: sift_def l_def c_def ys_def Let_def)
  from descend_spec [OF pre a, of xs] have
    l: "anc a l" "l < n" "\<And>j. 0 < j \<Longrightarrow> par j = l \<Longrightarrow> n \<le> j"
    and bst: "\<And>p. anc a p \<Longrightarrow> anc p l \<Longrightarrow> p \<noteq> a \<Longrightarrow> best cmp n xs p"
    by (simp_all add: l_def)
  from backtrack_spec [OF l(1), of cmp xs] have
    c: "anc a c" "anc c l" "c = a \<or> cmp (xs ! a) (xs ! c) < 0"
    and above: "\<And>p. anc c p \<Longrightarrow> anc p l \<Longrightarrow> p \<noteq> c \<Longrightarrow> cmp (xs ! a) (xs ! p) \<ge> 0"
    by (simp_all add: c_def)
  have cn: "c < n" using anc_le [OF c(2)] l(2) by simp
  show "length (sift cmp n a xs) = length xs" "mset (take n (sift cmp n a xs)) = mset (take n xs)"
    "drop n (sift cmp n a xs) = drop n xs"
    using shift_rel [OF cn n order_refl] by (simp_all add: sift ys_def)
  note order = cmp_preorderD [OF pre]
  have bestD: "cmp (xs ! p) (xs ! j) \<ge> 0" if "anc a p" "anc p l" "p \<noteq> a" "0 < j" "j < n" "par j = par p" for p j
    using bst [OF that(1-3)] that(4-6) by (simp add: best_def)
  have heapD: "cmp (xs ! par j) (xs ! j) \<ge> 0" if "0 < j" "j < n" "a < par j" for j
    using heap that by (simp add: heap_from_def)
  text \<open>The element fits above the children of its place.\<close>
  have below: "cmp (xs ! a) (xs ! j) \<ge> 0" if j: "0 < j" "j < n" "par j = c" for j
  proof -
    have "c \<noteq> l" using l(3) [OF j(1)] j by auto
    with anc_next [OF c(2)] obtain q where q: "anc c q" "anc q l" "c < q" "par q = c" by auto
    have "cmp (xs ! a) (xs ! q) \<ge> 0" using above q by simp
    moreover have "cmp (xs ! q) (xs ! j) \<ge> 0"
      using bestD [of q j] q j anc_trans [OF c(1)] anc_le [OF c(1)] by simp
    ultimately show ?thesis by (rule order(3))
  qed
  show "heap_from cmp a n (sift cmp n a xs)"
    unfolding heap_from_def sift
  proof (intro allI impI)
    fix j assume j: "0 < j" "j < n" "a \<le> par j"
    show "cmp (ys ! par j) (ys ! j) \<ge> 0"
    proof (cases "c = a")
      case True
      then have "ys = xs" by (simp add: ys_def shift.simps [of a a])
      with below [OF j(1,2)] heapD [OF j(1,2)] j(3) True show ?thesis
        by (cases "par j = a") auto
    next
      case False
      have ac: "a < c" using c(1) False by (simp add: anc_step)
      have pc: "par c < c" using ac by (intro par_less) simp
      from shift_nth [OF c(1) anc_refl False, of xs] cn n have
        s: "ys ! c = xs ! a" "ys ! par c = xs ! c"
        "\<And>q. anc a q \<Longrightarrow> anc q (par c) \<Longrightarrow> q \<noteq> a \<Longrightarrow> ys ! par q = xs ! q"
        and same: "\<And>i. i \<noteq> c \<Longrightarrow> \<not> (anc a i \<and> anc i (par c)) \<Longrightarrow> ys ! i = xs ! i"
        by (simp_all add: ys_def)
      have up: "ys ! par q = xs ! q" if "anc a q" "anc q c" "q \<noteq> a" for q
        using s(2,3) that by (cases "q = c") (auto simp: anc_step)
      have "anc (par c) c" using pc by (simp add: anc_par_iff)
      have off: "ys ! i = xs ! i" if "\<not> (anc a i \<and> anc i c)" for i
      proof -
        have "i \<noteq> c" using that c(1) by auto
        moreover have "\<not> (anc a i \<and> anc i (par c))"
          using that anc_trans [OF _ \<open>anc (par c) c\<close>] by blast
        ultimately show ?thesis by (rule same)
      qed
      show ?thesis
      proof (rule sift_pair [OF pre j c(1) _ ac cn up off s(1)])
        show "cmp (xs ! a) (xs ! c) < 0" using c(3) False by simp
        show "cmp (xs ! p) (xs ! j) \<ge> 0" if "anc a p" "anc p c" "p \<noteq> a" "par j = par p" for p
          using bestD [OF that(1) anc_trans [OF that(2) c(2)] that(3) j(1,2) that(4)] .
      qed (use below [OF j(1,2)] heapD in auto)
    qed
  qed
qed

section \<open>Sorting\<close>

lemma heap_root:
  assumes pre: "cmp_preorder cmp" and heap: "heap_from cmp 0 n xs"
  shows "i < n \<Longrightarrow> cmp (xs ! 0) (xs ! i) \<ge> 0"
proof (induction i rule: less_induct)
  case (less i)
  show ?case
  proof (cases "i = 0")
    case True
    then show ?thesis using cmp_preorderD(1) [OF pre] by simp
  next
    case False
    then have "par i < i" by (intro par_less) simp
    with less have "cmp (xs ! 0) (xs ! par i) \<ge> 0" by simp
    moreover have "cmp (xs ! par i) (xs ! i) \<ge> 0"
      using heap False less.prems by (simp add: heap_from_def)
    ultimately show ?thesis by (rule cmp_preorderD(3) [OF pre])
  qed
qed

text \<open>The part from \<open>n\<close> on is in order, and nothing below \<open>n\<close> is greater.\<close>

definition done_from :: "('a \<Rightarrow> 'a \<Rightarrow> int) \<Rightarrow> nat \<Rightarrow> 'a list \<Rightarrow> bool" where
  "done_from cmp n xs \<longleftrightarrow> (\<forall>i j. i < j \<longrightarrow> n \<le> j \<longrightarrow> j < length xs \<longrightarrow> cmp (xs ! j) (xs ! i) \<ge> 0)"

lemma done_from_cong:
  assumes "done_from cmp n xs" and "mset (take n ys) = mset (take n xs)" and "drop n ys = drop n xs"
    and "length ys = length xs" and "n \<le> length xs"
  shows "done_from cmp n ys"
  unfolding done_from_def
proof (intro allI impI)
  fix i j assume ij: "i < j" "n \<le> j" "j < length ys"
  have high: "ys ! k = xs ! k" if "n \<le> k" "k < length xs" for k
    using arg_cong [OF assms(3), of "\<lambda>zs. zs ! (k - n)"] that assms(4) by simp
  show "cmp (ys ! j) (ys ! i) \<ge> 0"
  proof (cases "i < n")
    case True
    then have "ys ! i \<in> set (take n ys)"
      using assms(4,5) by (auto simp: in_set_conv_nth intro!: exI [of _ i])
    then have "ys ! i \<in> set (take n xs)"
      using assms(2) by (metis set_mset_mset)
    then obtain k where "k < n" "ys ! i = xs ! k"
      using assms(5) by (auto simp: in_set_conv_nth)
    with assms(1) ij high [of j] assms(4) show ?thesis by (simp add: done_from_def)
  next
    case False
    with assms(1) ij high [of i] high [of j] assms(4) show ?thesis by (simp add: done_from_def)
  qed
qed

lemma extract_root:
  assumes pre: "cmp_preorder cmp" and heap: "heap_from cmp 0 n xs" and dn: "done_from cmp n xs" and n: "1 < n" "n \<le> length xs"
  defines "ys \<equiv> swap 0 (n - 1) xs"
  shows "heap_from cmp (Suc 0) (n - 1) ys" and "done_from cmp (n - 1) ys"
proof -
  have nth: "ys ! k = (if k = n - 1 then xs ! 0 else if k = 0 then xs ! (n - 1) else xs ! k)" for k
    unfolding ys_def using n by (intro swap_nth) auto
  show "heap_from cmp (Suc 0) (n - 1) ys"
    unfolding heap_from_def
  proof (intro allI impI)
    fix j assume j: "0 < j" "j < n - 1" "Suc 0 \<le> par j"
    with par_less [OF j(1)] have "par j < n - 1" by linarith
    with heap j show "cmp (ys ! par j) (ys ! j) \<ge> 0" by (simp add: nth heap_from_def)
  qed
  show "done_from cmp (n - 1) ys"
    unfolding done_from_def
  proof (intro allI impI)
    fix i j assume ij: "i < j" "n - 1 \<le> j" "j < length ys"
    have len: "length ys = length xs" by (simp add: ys_def)
    have from_xs: "\<exists>k. ys ! i = xs ! k \<and> (if i < n then k < n else k = i)"
      using n nth [of i] by (intro exI [of _ "if i = n - 1 then 0 else if i = 0 then n - 1 else i"]) auto
    show "cmp (ys ! j) (ys ! i) \<ge> 0"
    proof (cases "j = n - 1")
      case True
      then have "ys ! j = xs ! 0" and "\<exists>k<n. ys ! i = xs ! k"
        using ij n nth [of j] from_xs by (auto split: if_splits)
      with heap_root [OF pre heap] show ?thesis by auto
    next
      case False
      then have "n \<le> j" using ij by simp
      with nth [of j] n have "ys ! j = xs ! j" by simp
      moreover have "\<exists>k<j. ys ! i = xs ! k"
        using from_xs ij \<open>n \<le> j\<close> by (auto split: if_splits intro: less_le_trans)
      ultimately show ?thesis using dn \<open>n \<le> j\<close> ij len by (auto simp: done_from_def)
    qed
  qed
qed

lemma heapsort_spec:
  assumes pre: "cmp_preorder cmp" and "heap_from cmp a n xs" and "done_from cmp n xs" and "n \<le> length xs" and "a \<le> n"
  shows "mset (heapsort cmp a n xs) = mset xs \<and> length (heapsort cmp a n xs) = length xs \<and> done_from cmp 1 (heapsort cmp a n xs)"
  using assms(2-5)
proof (induction "a + n" arbitrary: a n xs rule: less_induct)
  case less
  have total: "mset ys = mset xs" if "mset (take n ys) = mset (take n xs)" "drop n ys = drop n xs" for ys
    using that by (metis append_take_drop_id mset_append)
  consider (build) "0 < a" | (pop) "a = 0" "1 < n" | (finished) "a = 0" "n \<le> 1" by linarith
  then show ?case
  proof cases
    case build
    then have "a - 1 < n" "Suc (a - 1) = a" using less.prems(4) by simp_all
    have "heap_from cmp (Suc (a - 1)) n xs" using less.prems(1) by (simp only: \<open>Suc (a - 1) = a\<close>)
    note s = sift_heap [OF pre this \<open>a - 1 < n\<close> less.prems(3)]
    let ?ys = "sift cmp n (a - 1) xs"
    have "done_from cmp n ?ys"
      by (rule done_from_cong [OF less.prems(2) s(3,4,2) less.prems(3)])
    with less.hyps [of "a - 1" n ?ys] s(1,2) less.prems(3) \<open>a - 1 < n\<close> build total [OF s(3,4)] show ?thesis
      by (subst (1 2 3) heapsort.simps) simp
  next
    case pop
    let ?zs = "swap 0 (n - 1) xs"
    let ?ys = "sift cmp (n - 1) 0 ?zs"
    note e = extract_root [OF pre less.prems(1) [unfolded pop(1)] less.prems(2) pop(2) less.prems(3)]
    have n: "0 < n - 1" "n - 1 \<le> length ?zs" using pop(2) less.prems(3) by simp_all
    note s = sift_heap [OF pre e(1) n]
    have "done_from cmp (n - 1) ?ys"
      by (rule done_from_cong [OF e(2) s(3,4,2) n(2)])
    moreover have "mset ?ys = mset xs"
    proof -
      have "mset ?ys = mset ?zs"
        using s(3,4) by (metis append_take_drop_id mset_append)
      also have "\<dots> = mset xs" using pop(2) less.prems(3) by (intro mset_swap) auto
      finally show ?thesis .
    qed
    ultimately show ?thesis
      using less.hyps [of 0 "n - 1" ?ys] s(1,2) n pop
      by (subst (1 2 3) heapsort.simps) simp
  next
    case finished
    then have "heapsort cmp a n xs = xs" by (subst heapsort.simps) simp
    moreover have "done_from cmp 1 xs"
      using less.prems(2) finished(2) by (auto simp: done_from_def)
    ultimately show ?thesis by simp
  qed
qed

lemma heapsort_sorted:
  assumes "cmp_preorder cmp"
  shows "mset (heapsort cmp (length xs div 2) (length xs) xs) = mset xs"
    and "sorted_wrt (\<lambda>x y. cmp y x \<ge> 0) (heapsort cmp (length xs div 2) (length xs) xs)"
proof -
  have "heap_from cmp (length xs div 2) (length xs) xs"
    by (auto simp: heap_from_def par_def)
  moreover have "done_from cmp (length xs) xs" by (simp add: done_from_def)
  ultimately have h: "mset (heapsort cmp (length xs div 2) (length xs) xs) = mset xs"
    "done_from cmp 1 (heapsort cmp (length xs div 2) (length xs) xs)"
    using heapsort_spec [OF assms] by auto
  then show "mset (heapsort cmp (length xs div 2) (length xs) xs) = mset xs" by simp
  from h(2) show "sorted_wrt (\<lambda>x y. cmp y x \<ge> 0) (heapsort cmp (length xs div 2) (length xs) xs)"
    by (auto simp: sorted_wrt_iff_nth_less done_from_def)
qed

end
