(* ===== verification/Sort.thy ===== *)
theory Sort
  imports HeapSort "HOL-Library.Monad_Syntax"
begin

text \<open>
  The heapsort \<open>lib/src/linux/sort.c\<close> as it is written: on byte offsets in 64-bit words, with
  the exchange of elements in words or bytes and the branch-free computation of the parent.
  Memory is the list of its bytes, and an address an index of it.  A result \<^const>\<open>None\<close> is an
  access outside of the memory, a call that does not return, or a private pointer that is not
  the wrapper the code takes it for.  The proofs relate it to the index version of \<open>HeapSort\<close>.
\<close>

type_synonym mem = "u8 list"

section \<open>Exchange of elements\<close>

definition is_aligned :: "bool \<Rightarrow> addr \<Rightarrow> u64 \<Rightarrow> u8 \<Rightarrow> bool" where
  "is_aligned unaligned_access base sz align =
     (let lsbits = ucast sz;
          lsbits = (if unaligned_access then lsbits else lsbits OR of_nat base)
      in lsbits AND (align - 1) = 0)"

text \<open>Loads and stores of \<open>k\<close> bytes.\<close>

definition load :: "nat \<Rightarrow> mem \<Rightarrow> addr \<Rightarrow> u8 list option" where
  "load k m p = (if p + k \<le> length m then Some (take k (drop p m)) else None)"

definition store :: "mem \<Rightarrow> addr \<Rightarrow> u8 list \<Rightarrow> mem option" where
  "store m p v = (if p + length v \<le> length m then Some (take p m @ v @ drop (p + length v) m) else None)"

definition exchange :: "nat \<Rightarrow> mem \<Rightarrow> addr \<Rightarrow> addr \<Rightarrow> mem option" where
  "exchange k m a b =
     do {
       t \<leftarrow> load k m a;
       u \<leftarrow> load k m b;
       m \<leftarrow> store m a u;
       store m b t
     }"

partial_function (option) swap_words_32 :: "mem \<Rightarrow> addr \<Rightarrow> addr \<Rightarrow> u64 \<Rightarrow> mem option" where
  "swap_words_32 m a b n =
     (let n = n - 4
      in do {
           m \<leftarrow> exchange 4 m (a + unat n) (b + unat n);
           if n \<noteq> 0 then swap_words_32 m a b n else Some m
         })"

partial_function (option) swap_words_64 :: "bool \<Rightarrow> mem \<Rightarrow> addr \<Rightarrow> addr \<Rightarrow> u64 \<Rightarrow> mem option" where
  "swap_words_64 config_64bit m a b n =
     (if config_64bit
      then
        (let n = n - 8
         in do {
              m \<leftarrow> exchange 8 m (a + unat n) (b + unat n);
              if n \<noteq> 0 then swap_words_64 config_64bit m a b n else Some m
            })
      else
        (let n = n - 4; n' = n - 4
         in do {
              m \<leftarrow> exchange 4 m (a + unat n) (b + unat n);
              m \<leftarrow> exchange 4 m (a + unat n') (b + unat n');
              if n' \<noteq> 0 then swap_words_64 config_64bit m a b n' else Some m
            }))"

partial_function (option) swap_bytes :: "mem \<Rightarrow> addr \<Rightarrow> addr \<Rightarrow> u64 \<Rightarrow> mem option" where
  "swap_bytes m a b n =
     (let n = n - 1
      in do {
           m \<leftarrow> exchange 1 m (a + unat n) (b + unat n);
           if n \<noteq> 0 then swap_bytes m a b n else Some m
         })"

text \<open>
  The swap function of the caller is one of the small constants or a pointer to a function;
  \<open>SWAP_WORDS_64\<close> is also the null pointer.  The private pointer is the wrapper that \<open>sort\<close>
  builds, or whatever the caller of \<open>sort_r\<close> passes on to its functions.
\<close>

record wrapper =
  w_cmp :: "mem \<Rightarrow> addr \<Rightarrow> addr \<Rightarrow> int"
  w_swap :: "(mem \<Rightarrow> addr \<Rightarrow> addr \<Rightarrow> int \<Rightarrow> mem) option"

datatype 'p priv = Wrapper wrapper | Priv 'p

datatype 'p swap_r_func =
  SWAP_WORDS_64 | SWAP_WORDS_32 | SWAP_BYTES | SWAP_WRAPPER
  | Swap_Func "mem \<Rightarrow> addr \<Rightarrow> addr \<Rightarrow> int \<Rightarrow> 'p priv \<Rightarrow> mem"

datatype 'p cmp_r_func = CMP_WRAPPER | Cmp_Func "mem \<Rightarrow> addr \<Rightarrow> addr \<Rightarrow> 'p priv \<Rightarrow> int"

definition int_of_size :: "u64 \<Rightarrow> int" where
  "int_of_size sz = sint (ucast sz :: 32 word)"

definition do_swap :: "bool \<Rightarrow> mem \<Rightarrow> addr \<Rightarrow> addr \<Rightarrow> u64 \<Rightarrow> 'p swap_r_func \<Rightarrow> 'p priv \<Rightarrow> mem option" where
  "do_swap config_64bit m a b sz swap_func priv =
     (case swap_func of
        SWAP_WRAPPER \<Rightarrow>
          (case priv of
             Wrapper w \<Rightarrow> map_option (\<lambda>f. f m a b (int_of_size sz)) (w_swap w)
           | Priv _ \<Rightarrow> None)
      | SWAP_WORDS_64 \<Rightarrow> swap_words_64 config_64bit m a b sz
      | SWAP_WORDS_32 \<Rightarrow> swap_words_32 m a b sz
      | SWAP_BYTES \<Rightarrow> swap_bytes m a b sz
      | Swap_Func f \<Rightarrow> Some (f m a b (int_of_size sz) priv))"

definition do_cmp :: "mem \<Rightarrow> addr \<Rightarrow> addr \<Rightarrow> 'p cmp_r_func \<Rightarrow> 'p priv \<Rightarrow> int option" where
  "do_cmp m a b cmp priv =
     (case cmp of
        CMP_WRAPPER \<Rightarrow> (case priv of Wrapper w \<Rightarrow> Some (w_cmp w m a b) | Priv _ \<Rightarrow> None)
      | Cmp_Func f \<Rightarrow> Some (f m a b priv))"

section \<open>The sort\<close>

definition parent :: "u64 \<Rightarrow> u32 \<Rightarrow> u64 \<Rightarrow> u64" where
  "parent i lsbit sz =
     (let i = i - sz;
          i = i - (sz AND - (i AND ucast lsbit))
      in i div 2)"

text \<open>
  The three inner loops of \<open>sort_r\<close>: down to a leaf, where the loop leaves \<open>b\<close>, \<open>c\<close> and \<open>d\<close>,
  back to the place of the element, and the exchanges that move it there.
\<close>

partial_function (option) sort_descend ::
  "mem \<Rightarrow> addr \<Rightarrow> u64 \<Rightarrow> 'p cmp_r_func \<Rightarrow> 'p priv \<Rightarrow> u64 \<Rightarrow> u64 \<Rightarrow> u64 option" where
  "sort_descend m base sz cmp_func priv n b =
     (let c = 2 * b + sz; d = c + sz
      in if d < n
         then do {
           r \<leftarrow> do_cmp m (base + unat c) (base + unat d) cmp_func priv;
           sort_descend m base sz cmp_func priv n (if r \<ge> 0 then c else d)
         }
         else if d = n then Some c
         else Some b)"

partial_function (option) sort_backtrack ::
  "mem \<Rightarrow> addr \<Rightarrow> u64 \<Rightarrow> 'p cmp_r_func \<Rightarrow> 'p priv \<Rightarrow> u32 \<Rightarrow> u64 \<Rightarrow> u64 \<Rightarrow> u64 option" where
  "sort_backtrack m base sz cmp_func priv lsbit a b =
     (if b \<noteq> a
      then do {
        r \<leftarrow> do_cmp m (base + unat a) (base + unat b) cmp_func priv;
        if r \<ge> 0 then sort_backtrack m base sz cmp_func priv lsbit a (parent b lsbit sz) else Some b
      }
      else Some b)"

partial_function (option) sort_shift ::
  "bool \<Rightarrow> addr \<Rightarrow> u64 \<Rightarrow> 'p swap_r_func \<Rightarrow> 'p priv \<Rightarrow> u32 \<Rightarrow> u64 \<Rightarrow> u64 \<Rightarrow> u64 \<Rightarrow> mem \<Rightarrow> mem option" where
  "sort_shift config_64bit base sz swap_func priv lsbit a c b m =
     (if b \<noteq> a
      then
        (let b = parent b lsbit sz
         in do {
              m \<leftarrow> do_swap config_64bit m (base + unat b) (base + unat c) sz swap_func priv;
              sort_shift config_64bit base sz swap_func priv lsbit a c b m
            })
      else Some m)"

definition sort_sift ::
  "bool \<Rightarrow> addr \<Rightarrow> u64 \<Rightarrow> 'p cmp_r_func \<Rightarrow> 'p swap_r_func \<Rightarrow> 'p priv \<Rightarrow> u32 \<Rightarrow> u64 \<Rightarrow> u64 \<Rightarrow> mem \<Rightarrow> mem option" where
  "sort_sift config_64bit base sz cmp_func swap_func priv lsbit a n m =
     do {
       b \<leftarrow> sort_descend m base sz cmp_func priv n a;
       c \<leftarrow> sort_backtrack m base sz cmp_func priv lsbit a b;
       sort_shift config_64bit base sz swap_func priv lsbit a c c m
     }"

partial_function (option) sort_loop ::
  "bool \<Rightarrow> addr \<Rightarrow> u64 \<Rightarrow> 'p cmp_r_func \<Rightarrow> 'p swap_r_func \<Rightarrow> 'p priv \<Rightarrow> u32 \<Rightarrow> u64 \<Rightarrow> u64 \<Rightarrow> mem \<Rightarrow> mem option" where
  "sort_loop config_64bit base sz cmp_func swap_func priv lsbit a n m =
     (if a \<noteq> 0
      then
        (let a = a - sz
         in do {
              m \<leftarrow> sort_sift config_64bit base sz cmp_func swap_func priv lsbit a n m;
              sort_loop config_64bit base sz cmp_func swap_func priv lsbit a n m
            })
      else
        (let n = n - sz
         in if n \<noteq> 0
            then do {
              m \<leftarrow> do_swap config_64bit m base (base + unat n) sz swap_func priv;
              m \<leftarrow> sort_sift config_64bit base sz cmp_func swap_func priv lsbit a n m;
              sort_loop config_64bit base sz cmp_func swap_func priv lsbit a n m
            }
            else Some m))"

text \<open>The choice of the built-in exchange; the private pointer is read only for \<open>SWAP_WRAPPER\<close>.\<close>

definition pick_swap :: "bool \<Rightarrow> addr \<Rightarrow> u64 \<Rightarrow> 'p swap_r_func \<Rightarrow> 'p priv \<Rightarrow> 'p swap_r_func option" where
  "pick_swap unaligned_access base sz swap_func priv =
     do {
       swap_func \<leftarrow>
         (case swap_func of
            SWAP_WRAPPER \<Rightarrow>
              (case priv of
                 Wrapper w \<Rightarrow> Some (if w_swap w = None then SWAP_WORDS_64 else SWAP_WRAPPER)
               | Priv _ \<Rightarrow> None)
          | _ \<Rightarrow> Some swap_func);
       Some (case swap_func of
               SWAP_WORDS_64 \<Rightarrow>
                 if is_aligned unaligned_access base sz 8 then SWAP_WORDS_64
                 else if is_aligned unaligned_access base sz 4 then SWAP_WORDS_32
                 else SWAP_BYTES
             | _ \<Rightarrow> swap_func)
     }"

definition sort_r ::
  "bool \<Rightarrow> bool \<Rightarrow> addr \<Rightarrow> u64 \<Rightarrow> u64 \<Rightarrow> 'p cmp_r_func \<Rightarrow> 'p swap_r_func \<Rightarrow> 'p priv \<Rightarrow> mem \<Rightarrow> mem option" where
  "sort_r config_64bit unaligned_access base num sz cmp_func swap_func priv m =
     (let n = num * sz; a = (num div 2) * sz; lsbit = ucast (sz AND - sz)
      in if a = 0 then Some m
         else do {
           swap_func \<leftarrow> pick_swap unaligned_access base sz swap_func priv;
           sort_loop config_64bit base sz cmp_func swap_func priv lsbit a n m
         })"

definition sort ::
  "bool \<Rightarrow> bool \<Rightarrow> addr \<Rightarrow> u64 \<Rightarrow> u64 \<Rightarrow> (mem \<Rightarrow> addr \<Rightarrow> addr \<Rightarrow> int) \<Rightarrow>
     (mem \<Rightarrow> addr \<Rightarrow> addr \<Rightarrow> int \<Rightarrow> mem) option \<Rightarrow> mem \<Rightarrow> mem option" where
  "sort config_64bit unaligned_access base num sz cmp_func swap_func m =
     sort_r config_64bit unaligned_access base num sz CMP_WRAPPER SWAP_WRAPPER
       (Wrapper \<lparr>w_cmp = cmp_func, w_swap = swap_func\<rparr> :: unit priv) m"

declare swap_words_32.simps [simp del] swap_words_64.simps [simp del] swap_bytes.simps [simp del]
  sort_descend.simps [simp del] sort_backtrack.simps [simp del] sort_shift.simps [simp del]
  sort_loop.simps [simp del]

declare swap_words_32.simps [code] swap_words_64.simps [code] swap_bytes.simps [code]
  sort_descend.simps [code] sort_backtrack.simps [code] sort_shift.simps [code]
  sort_loop.simps [code]

section \<open>Exchanges of blocks\<close>

text \<open>The bytes from \<open>lo\<close> to \<open>hi\<close> of the blocks at \<open>a\<close> and \<open>b\<close> change places.\<close>

definition exchanged :: "addr \<Rightarrow> addr \<Rightarrow> nat \<Rightarrow> nat \<Rightarrow> mem \<Rightarrow> mem" where
  "exchanged a b lo hi m =
     map (\<lambda>x. if a + lo \<le> x \<and> x < a + hi then m ! (x - a + b)
              else if b + lo \<le> x \<and> x < b + hi then m ! (x - b + a)
              else m ! x) [0..<length m]"

lemma length_exchanged [simp]: "length (exchanged a b lo hi m) = length m"
  by (simp add: exchanged_def)

lemma exchanged_nth:
  "x < length m \<Longrightarrow> exchanged a b lo hi m ! x =
     (if a + lo \<le> x \<and> x < a + hi then m ! (x - a + b)
      else if b + lo \<le> x \<and> x < b + hi then m ! (x - b + a) else m ! x)"
  by (simp add: exchanged_def)

lemma exchanged_none: "exchanged a b hi hi m = m"
  by (rule nth_equalityI) (auto simp: exchanged_nth)

lemma store_nth:
  assumes "store m p v = Some m'" and "x < length m"
  shows "length m' = length m" and "m' ! x = (if p \<le> x \<and> x < p + length v then v ! (x - p) else m ! x)"
  using assms by (auto simp: store_def nth_append split: if_splits)

definition apart :: "addr \<Rightarrow> addr \<Rightarrow> nat \<Rightarrow> bool" where
  "apart a b s \<longleftrightarrow> a + s \<le> b \<or> b + s \<le> a"

lemma exchange_step:
  assumes "apart a b hi" and "lo + k \<le> hi" and "a + hi \<le> length m" and "b + hi \<le> length m"
  shows "exchange k (exchanged a b (lo + k) hi m) (a + lo) (b + lo) = Some (exchanged a b lo hi m)"
proof -
  let ?m = "exchanged a b (lo + k) hi m"
  have t: "load k ?m (a + lo) = Some (take k (drop (a + lo) ?m))" (is "_ = Some ?t")
    and u: "load k ?m (b + lo) = Some (take k (drop (b + lo) ?m))" (is "_ = Some ?u")
    using assms by (simp_all add: load_def)
  have len: "length ?t = k" "length ?u = k" using assms by auto
  obtain m1 where m1: "store ?m (a + lo) ?u = Some m1" and l1: "length m1 = length m"
    using assms len by (simp add: store_def)
  obtain m2 where m2: "store m1 (b + lo) ?t = Some m2" and l2: "length m2 = length m"
    using assms len l1 by (simp add: store_def)
  have tn: "?t ! i = m ! (a + lo + i)" and un: "?u ! i = m ! (b + lo + i)" if "i < k" for i
    using that assms by (auto simp: apart_def exchanged_nth)
  have "m2 = exchanged a b lo hi m"
  proof (rule nth_equalityI)
    fix x assume "x < length m2"
    with l1 l2 have x: "x < length m" "x < length m1" "x < length ?m" by simp_all
    note eq = store_nth(2) [OF m2 x(2)] store_nth(2) [OF m1 x(3)] len exchanged_nth [OF x(1)]
    consider "b + lo \<le> x \<and> x < b + lo + k" | "a + lo \<le> x \<and> x < a + lo + k"
      | "\<not> (b + lo \<le> x \<and> x < b + lo + k)" "\<not> (a + lo \<le> x \<and> x < a + lo + k)"
      by blast
    then show "m2 ! x = exchanged a b lo hi m ! x"
    proof cases
      case 1
      then have "x - (b + lo) < k" "a + lo + (x - (b + lo)) = x - b + a" by linarith+
      moreover have "\<not> (a + lo \<le> x \<and> x < a + hi)" "b + lo \<le> x \<and> x < b + hi"
        using 1 assms by (auto simp: apart_def)
      ultimately show ?thesis using 1 tn [of "x - (b + lo)"] unfolding eq by auto
    next
      case 2
      then have "x - (a + lo) < k" "b + lo + (x - (a + lo)) = x - a + b" by linarith+
      moreover have "\<not> (b + lo \<le> x \<and> x < b + lo + k)" "a + lo \<le> x \<and> x < a + hi"
        using 2 assms by (auto simp: apart_def)
      ultimately show ?thesis using 2 un [of "x - (a + lo)"] unfolding eq by auto
    next
      case 3
      then have "a + (lo + k) \<le> x \<longleftrightarrow> a + lo \<le> x" "b + (lo + k) \<le> x \<longleftrightarrow> b + lo \<le> x"
        by linarith+
      moreover from 3 have "m2 ! x = ?m ! x" unfolding eq(1,2) len by presburger
      ultimately show ?thesis unfolding eq(5) exchanged_nth [OF x(1)] by presburger
    qed
  qed (simp add: l2)
  with m1 m2 t u show ?thesis
    by (simp add: exchange_def)
qed

text \<open>
  A loop that exchanges \<open>k\<close> bytes in each round, from the end of the blocks: the contract the
  three built-in exchanges have in common.
\<close>

locale exchange_loop =
  fixes loop :: "mem \<Rightarrow> addr \<Rightarrow> addr \<Rightarrow> u64 \<Rightarrow> mem option"
    and round :: "mem \<Rightarrow> addr \<Rightarrow> addr \<Rightarrow> u64 \<Rightarrow> mem option"
    and k :: nat
  assumes loop_unfold:
      "loop m a b n = do { m \<leftarrow> round m a b n; if n - word_of_nat k \<noteq> 0 then loop m a b (n - word_of_nat k) else Some m }"
    and round_exchanges:
      "apart a b hi \<Longrightarrow> lo + k \<le> hi \<Longrightarrow> a + hi \<le> length m \<Longrightarrow> b + hi \<le> length m \<Longrightarrow> hi < 2 ^ 64 \<Longrightarrow>
         round (exchanged a b (lo + k) hi m) a b (word_of_nat (lo + k)) = Some (exchanged a b lo hi m)"
    and k_pos: "0 < k"
begin

lemma loop_exchanges_from:
  assumes "apart a b hi" and "a + hi \<le> length m" and "b + hi \<le> length m" and "hi < 2 ^ 64"
  shows "k * Suc j \<le> hi \<Longrightarrow> loop (exchanged a b (k * Suc j) hi m) a b (word_of_nat (k * Suc j)) = Some (exchanged a b 0 hi m)"
proof (induction j)
  case 0
  with round_exchanges [of a b hi 0 m] assms show ?case
    by (subst loop_unfold) simp
next
  case (Suc j)
  let ?lo = "k * Suc j"
  have "(word_of_nat (k * Suc (Suc j)) :: u64) = word_of_nat (?lo + k)"
    by (simp add: algebra_simps)
  moreover have "(word_of_nat (?lo + k) :: u64) - word_of_nat k = word_of_nat ?lo"
    by simp
  moreover have "(word_of_nat ?lo :: u64) \<noteq> 0"
  proof -
    have "unat (word_of_nat ?lo :: u64) = ?lo"
      using Suc.prems assms(4) by (simp only: unat_of_nat) simp
    with k_pos show ?thesis by (metis mult_eq_0_iff nat.distinct(1) neq0_conv unsigned_0)
  qed
  moreover have "round (exchanged a b (k * Suc (Suc j)) hi m) a b (word_of_nat (?lo + k)) = Some (exchanged a b ?lo hi m)"
    using round_exchanges [of a b hi ?lo m] Suc.prems assms by (simp add: algebra_simps)
  ultimately show ?case
    using Suc.IH Suc.prems by (subst loop_unfold) simp
qed

lemma loop_exchanges:
  assumes "apart a b (unat n)" and "a + unat n \<le> length m" and "b + unat n \<le> length m"
    and "k dvd unat n" and "n \<noteq> 0"
  shows "loop m a b n = Some (exchanged a b 0 (unat n) m)"
proof -
  from assms(4) obtain q where q: "unat n = k * q" by (auto elim: dvdE)
  with assms(5) obtain j where "q = Suc j"
    by (metis mult_0_right not0_implies_Suc unsigned_eq_0_iff)
  with q have n: "k * Suc j = unat n" by simp
  from loop_exchanges_from [OF assms(1-3), of j] unsigned_less [where ?'a = nat and w = n]
  show ?thesis unfolding n by (simp add: exchanged_none)
qed

end

text \<open>The round of a built-in exchange is one exchange below the counter.\<close>

lemma exchange_round:
  assumes "apart a b hi" and "lo + k \<le> hi" and "a + hi \<le> length m" and "b + hi \<le> length m" and "hi < 2 ^ 64"
  shows "(let n = word_of_nat (lo + k) - word_of_nat k :: u64
          in exchange k (exchanged a b (lo + k) hi m) (a + unat n) (b + unat n)) = Some (exchanged a b lo hi m)"
proof -
  have "(word_of_nat (lo + k) :: u64) - word_of_nat k = word_of_nat lo" by simp
  moreover have "unat (word_of_nat lo :: u64) = lo"
    using assms by (simp only: unat_of_nat) simp
  ultimately show ?thesis
    using exchange_step [OF assms(1-4)] by (simp only: Let_def)
qed

interpretation bytes: exchange_loop swap_bytes
  "\<lambda>m a b n. let n = n - word_of_nat 1 in exchange 1 m (a + unat n) (b + unat n)" 1
  by unfold_locales (subst swap_bytes.simps, simp add: Let_def cong: if_cong, erule (4) exchange_round, simp)

interpretation words_32: exchange_loop swap_words_32
  "\<lambda>m a b n. let n = n - word_of_nat 4 in exchange 4 m (a + unat n) (b + unat n)" 4
  by unfold_locales (subst swap_words_32.simps, simp add: Let_def cong: if_cong, erule (4) exchange_round, simp)

interpretation words_64: exchange_loop "swap_words_64 True"
  "\<lambda>m a b n. let n = n - word_of_nat 8 in exchange 8 m (a + unat n) (b + unat n)" 8
  by unfold_locales (subst swap_words_64.simps, simp add: Let_def cong: if_cong, erule (4) exchange_round, simp)

lemma exchange_round_twice:
  assumes "apart a b hi" and "lo + 8 \<le> hi" and "a + hi \<le> length m" and "b + hi \<le> length m" and "hi < 2 ^ 64"
  shows "(let n = word_of_nat (lo + 8) - 4 :: u64; n' = n - 4
          in do { m \<leftarrow> exchange 4 (exchanged a b (lo + 8) hi m) (a + unat n) (b + unat n);
                  exchange 4 m (a + unat n') (b + unat n') }) = Some (exchanged a b lo hi m)"
proof -
  note first = exchange_round [where lo = "lo + 4" and k = 4, OF assms(1) _ assms(3-5)]
  note second = exchange_round [where lo = lo and k = 4, OF assms(1) _ assms(3-5)]
  have "(word_of_nat (lo + 8) :: u64) - 4 = word_of_nat (lo + 4)" by simp
  with first second assms(2) show ?thesis
    by (simp add: Let_def add.assoc)
qed

interpretation half_words_64: exchange_loop "swap_words_64 False"
  "\<lambda>m a b n. let n = n - 4; n' = n - 4
     in do { m \<leftarrow> exchange 4 m (a + unat n) (b + unat n); exchange 4 m (a + unat n') (b + unat n') }" 8
  by unfold_locales (subst swap_words_64.simps, simp add: Let_def cong: if_cong, erule (4) exchange_round_twice, simp)

section \<open>The parent of an offset\<close>

lemma lowest_bit:
  assumes "(w :: 'a::len word) \<noteq> 0"
  obtains k where "k < LENGTH('a)" and "bit w k" and "\<forall>i<k. \<not> bit w i"
proof -
  from assms have "\<exists>k. bit w k" by (auto simp: bit_eq_iff)
  then obtain k where "bit w k" "\<forall>i<k. \<not> bit w i"
    using exists_least_iff [of "bit w"] by blast
  with that show ?thesis by (meson bit_imp_le_length)
qed

lemma dec_bits:
  assumes "bit (w :: 'a::len word) k" and "\<forall>i<k. \<not> bit w i"
  shows "w - 1 = (w AND NOT (mask (Suc k))) OR mask k"
proof -
  let ?h = "w AND NOT (mask (Suc k))"
  have "w = ?h OR 2 ^ k"
    using assms by (intro bit_word_eqI) (auto simp: bit_simps not_less less_Suc_eq_le le_less)
  also have "\<dots> = ?h + 2 ^ k"
    by (intro disjunctive_add_eq_or [symmetric] bit_word_eqI) (auto simp: bit_simps)
  finally have "w - 1 = ?h + mask k" by (simp add: mask_eq_exp_minus_1)
  also have "\<dots> = ?h OR mask k"
    by (intro disjunctive_add_eq_or bit_word_eqI) (auto simp: bit_simps)
  finally show ?thesis .
qed

lemma and_neg_lowest:
  assumes "bit (w :: 'a::len word) k" and "\<forall>i<k. \<not> bit w i"
  shows "w AND - w = 2 ^ k"
  unfolding minus_eq_not_minus_1 [of w] dec_bits [OF assms]
  using assms by (intro bit_word_eqI) (auto simp: bit_simps not_less less_Suc_eq_le le_less)

lemma and_neg_exp:
  assumes "\<forall>i<k. \<not> bit (w :: 'a::len word) i"
  shows "w AND - (2 ^ k) = w"
  using assms by (intro bit_word_eqI) (auto simp: bit_simps minus_exp_eq_not_mask not_less)

lemma lowest_bit_dvd:
  assumes "\<forall>i<k. \<not> bit (w :: 'a::len word) i" and "bit w k"
  shows "2 ^ k dvd unat w" and "odd (unat w div 2 ^ k)"
proof -
  have "take_bit k w = 0" using assms by (intro bit_word_eqI) (auto simp: bit_simps)
  then have "unat w mod 2 ^ k = 0" by (metis unat_take_bit unsigned_0)
  then show "2 ^ k dvd unat w" by auto
  have "bit (unat w) k" using assms(2) by (simp add: bit_unsigned_iff)
  then show "odd (unat w div 2 ^ k)" by (simp add: bit_iff_odd)
qed

text \<open>Offsets are the indices times the size of an element.\<close>

definition off :: "u64 \<Rightarrow> nat \<Rightarrow> u64" where
  "off sz j = word_of_nat (j * unat sz)"

lemma unat_off: "j * unat sz < 2 ^ 64 \<Longrightarrow> unat (off sz j) = j * unat sz"
  unfolding off_def by (simp only: unat_of_nat) simp

lemma off_add: "off sz (i + j) = off sz i + off sz j"
  by (simp add: off_def algebra_simps)

lemma off_1: "off sz 1 = sz"
  by (simp add: off_def)

lemma off_diff: "j \<le> i \<Longrightarrow> off sz (i - j) = off sz i - off sz j"
  using off_add [of sz "i - j" j] by simp

lemma off_inject:
  "i * unat sz < 2 ^ 64 \<Longrightarrow> j * unat sz < 2 ^ 64 \<Longrightarrow> sz \<noteq> 0 \<Longrightarrow> off sz i = off sz j \<longleftrightarrow> i = j"
  by (metis unat_off mult_cancel2 unsigned_eq_0_iff)

lemma parent_off:
  assumes "0 < j" and "j * unat sz < 2 ^ 64" and "\<not> 2 ^ 32 dvd unat sz"
  shows "parent (off sz j) (ucast (sz AND - sz)) sz = off sz (par j)"
proof -
  from assms(3) have "sz \<noteq> 0" by auto
  then obtain k where k: "k < 64" "bit sz k" and low: "\<forall>i<k. \<not> bit sz i"
    using lowest_bit [of sz] by auto
  note S = lowest_bit_dvd [OF low k(2)]
  have "k < 32"
    using S(1) assms(3) by (metis le_imp_power_dvd dvd_trans not_le)
  have lsbit: "(ucast (ucast (sz AND - sz) :: u32) :: u64) = 2 ^ k"
    unfolding and_neg_lowest [OF k(2) low] using \<open>k < 32\<close>
    by (intro bit_word_eqI) (auto simp: bit_simps)
  let ?i = "off sz (j - 1)"
  have small: "(j - 1) * unat sz < 2 ^ 64"
    using assms(2) by (meson diff_le_self le_less_trans mult_le_mono1)
  have i: "off sz j - sz = ?i" using assms(1) by (simp add: off_diff off_1 [simplified])
  from S(1) have "(j - 1) * unat sz div 2 ^ k = (j - 1) * (unat sz div 2 ^ k)"
    by (rule div_mult_swap [symmetric])
  with S(2) have "bit (unat ?i) k \<longleftrightarrow> odd (j - 1)"
    unfolding bit_iff_odd unat_off [OF small] by (simp only: even_mult_iff) simp
  then have "bit ?i k \<longleftrightarrow> odd (j - 1)" by (simp add: bit_unsigned_iff)
  then have "?i AND 2 ^ k = (if odd (j - 1) then 2 ^ k else 0)"
    by (intro bit_word_eqI) (auto simp: bit_simps)
  then have "sz AND - (?i AND 2 ^ k) = off sz ((j - 1) mod 2)"
  proof (cases "odd (j - 1)")
    case True
    then have "(j - 1) mod 2 = 1" by presburger
    with True and_neg_exp [OF low] \<open>?i AND 2 ^ k = _\<close> show ?thesis by (simp only: off_1 not_False_eq_True if_True)
  next
    case False
    then have "(j - 1) mod 2 = 0" by presburger
    with False \<open>?i AND 2 ^ k = _\<close> show ?thesis by (simp only: if_False) (simp add: off_def)
  qed
  then have "parent (off sz j) (ucast (sz AND - sz)) sz = off sz (j - 1 - (j - 1) mod 2) div 2"
    unfolding parent_def Let_def lsbit i by (simp only: off_diff [OF mod_less_eq_dividend])
  also have "\<dots> = off sz (par j)"
  proof (rule unsigned_word_eqI [where ?'a = nat])
    have e: "j - 1 - (j - 1) mod 2 = 2 * par j" unfolding par_def by (rule minus_mod_eq_mult_div)
    have "2 * par j * unat sz < 2 ^ 64"
      unfolding e [symmetric] using small by (meson diff_le_self le_less_trans mult_le_mono1)
    moreover from this have "par j * unat sz < 2 ^ 64" by simp
    ultimately show "unat (off sz (j - 1 - (j - 1) mod 2) div 2) = unat (off sz (par j))"
      unfolding e by (simp add: unat_div unat_off)
  qed
  finally show ?thesis .
qed

end
