(* ===== verification/SortCorrect.thy ===== *)
theory SortCorrect
  imports Sort
begin

text \<open>
  The heapsort on byte offsets implements the one on indices: the elements of the array are
  the equally long slices of the memory, and each loop of \<open>sort_r\<close> does on them what its
  counterpart of \<open>HeapSort\<close> does, without leaving the array.  Hence \<open>sort_r\<close> and \<open>sort\<close> return
  with the array sorted and the rest of the memory as it was.
\<close>

section \<open>The elements of the array\<close>

definition elem :: "addr \<Rightarrow> nat \<Rightarrow> mem \<Rightarrow> nat \<Rightarrow> u8 list" where
  "elem base s m i = take s (drop (base + i * s) m)"

definition elems :: "addr \<Rightarrow> nat \<Rightarrow> nat \<Rightarrow> mem \<Rightarrow> u8 list list" where
  "elems base s num m = map (elem base s m) [0..<num]"

definition same_outside :: "addr \<Rightarrow> nat \<Rightarrow> mem \<Rightarrow> mem \<Rightarrow> bool" where
  "same_outside base n m m' \<longleftrightarrow>
     length m' = length m \<and> take base m' = take base m \<and> drop (base + n) m' = drop (base + n) m"

lemma length_elems [simp]: "length (elems base s num m) = num"
  by (simp add: elems_def)

lemma elems_nth [simp]: "i < num \<Longrightarrow> elems base s num m ! i = elem base s m i"
  by (simp add: elems_def)

lemma index_end: "i < num \<Longrightarrow> i * s + s \<le> num * (s :: nat)"
  by (metis Suc_leI add.commute mult_Suc mult_le_mono1)

lemma same_slice:
  "r < s \<Longrightarrow> i * s \<le> k * s + r \<and> k * s + r < i * s + s \<longleftrightarrow> i = (k :: nat)"
proof
  assume "r < s" and "i * s \<le> k * s + r \<and> k * s + r < i * s + s"
  moreover from this have "(k * s + r) div s = i"
    by (intro div_nat_eqI) (simp_all add: mult.commute)
  ultimately show "i = k" by simp
qed simp

lemma slices_apart: "i \<noteq> j \<Longrightarrow> apart (base + i * s) (base + j * s) s"
proof -
  assume "i \<noteq> j"
  then consider "i < j" | "j < i" by linarith
  then show ?thesis
    unfolding apart_def using index_end [of i j s] index_end [of j i s] by cases auto
qed

lemma elems_exchanged:
  assumes "i < num" and "j < num" and "base + num * s \<le> length m"
  shows "elems base s num (exchanged (base + i * s) (base + j * s) 0 s m) = swap i j (elems base s num m)"
proof (rule nth_equalityI)
  fix k assume "k < length (elems base s num (exchanged (base + i * s) (base + j * s) 0 s m))"
  then have k: "k < num" by simp
  have "elem base s (exchanged (base + i * s) (base + j * s) 0 s m) k =
        elem base s m (if k = i then j else if k = j then i else k)" (is "_ = elem _ _ _ ?k")
  proof (rule nth_equalityI)
    have "?k < num" using assms k by simp
    then have len: "base + k * s + s \<le> length m" "base + ?k * s + s \<le> length m"
      using index_end [OF k, of s] index_end [of ?k num s] assms(3) by linarith+
    then show "length (elem base s (exchanged (base + i * s) (base + j * s) 0 s m) k) = length (elem base s m ?k)"
      by (simp add: elem_def)
    fix r assume "r < length (elem base s (exchanged (base + i * s) (base + j * s) 0 s m) k)"
    then have r: "r < s" by (simp add: elem_def)
    with len have x: "base + k * s + r < length m" by linarith
    have slice: "base + l * s + 0 \<le> base + k * s + r \<and> base + k * s + r < base + l * s + s \<longleftrightarrow> l = k" for l
      using same_slice [OF r, of l k] by auto
    have "elem base s (exchanged (base + i * s) (base + j * s) 0 s m) k ! r
        = exchanged (base + i * s) (base + j * s) 0 s m ! (base + k * s + r)"
      using r len by (simp add: elem_def)
    also have "\<dots> = m ! (base + ?k * s + r)"
      unfolding exchanged_nth [OF x] slice by (auto simp: add.commute add.left_commute)
    also have "\<dots> = elem base s m ?k ! r"
      using r len by (simp add: elem_def)
    finally show "elem base s (exchanged (base + i * s) (base + j * s) 0 s m) k ! r = elem base s m ?k ! r" .
  qed
  then show "elems base s num (exchanged (base + i * s) (base + j * s) 0 s m) ! k = swap i j (elems base s num m) ! k"
    using assms k by (simp add: swap_nth)
qed simp

lemma exchanged_outside:
  assumes "i < num" and "j < num" and "base + num * s \<le> length m"
  shows "same_outside base (num * s) m (exchanged (base + i * s) (base + j * s) 0 s m)"
  using assms(3) index_end [OF assms(1), of s] index_end [OF assms(2), of s]
  by (auto simp: same_outside_def exchanged_nth intro!: nth_equalityI)

lemma same_outside_refl: "same_outside base n m m"
  by (simp add: same_outside_def)

lemma same_outside_trans:
  "same_outside base n m m1 \<Longrightarrow> same_outside base n m1 m2 \<Longrightarrow> same_outside base n m m2"
  by (simp add: same_outside_def)

section \<open>What the functions of the caller owe\<close>

text \<open>A comparison looks at the bytes of the two elements only; an exchange swaps them.\<close>

definition compares_by :: "'p cmp_r_func \<Rightarrow> 'p priv \<Rightarrow> nat \<Rightarrow> (u8 list \<Rightarrow> u8 list \<Rightarrow> int) \<Rightarrow> bool" where
  "compares_by cmp_func priv s f \<longleftrightarrow>
     (\<forall>m a b. a + s \<le> length m \<longrightarrow> b + s \<le> length m \<longrightarrow>
        do_cmp m a b cmp_func priv = Some (f (take s (drop a m)) (take s (drop b m))))"

definition exchanges :: "nat \<Rightarrow> (mem \<Rightarrow> addr \<Rightarrow> addr \<Rightarrow> mem) \<Rightarrow> bool" where
  "exchanges s f \<longleftrightarrow>
     (\<forall>m a b. apart a b s \<longrightarrow> a + s \<le> length m \<longrightarrow> b + s \<le> length m \<longrightarrow> f m a b = exchanged a b 0 s m)"

definition swaps_elements :: "'p swap_r_func \<Rightarrow> 'p priv \<Rightarrow> u64 \<Rightarrow> bool" where
  "swaps_elements swap_func priv sz \<longleftrightarrow>
     (case swap_func of
        SWAP_WORDS_64 \<Rightarrow> True
      | SWAP_WORDS_32 \<Rightarrow> 4 dvd unat sz
      | SWAP_BYTES \<Rightarrow> True
      | SWAP_WRAPPER \<Rightarrow>
          (case priv of
             Wrapper w \<Rightarrow> (\<forall>f. w_swap w = Some f \<longrightarrow> exchanges (unat sz) (\<lambda>m a b. f m a b (int_of_size sz)))
           | Priv _ \<Rightarrow> False)
      | Swap_Func f \<Rightarrow> exchanges (unat sz) (\<lambda>m a b. f m a b (int_of_size sz) priv))"

definition does_exchange :: "bool \<Rightarrow> 'p swap_r_func \<Rightarrow> 'p priv \<Rightarrow> u64 \<Rightarrow> bool" where
  "does_exchange config_64bit swap_func priv sz \<longleftrightarrow>
     (\<forall>m a b. apart a b (unat sz) \<longrightarrow> a + unat sz \<le> length m \<longrightarrow> b + unat sz \<le> length m \<longrightarrow>
        do_swap config_64bit m a b sz swap_func priv = Some (exchanged a b 0 (unat sz) m))"

lemma is_aligned_dvd:
  assumes "is_aligned ua base sz (2 ^ k)" and "k < 8"
  shows "2 ^ k dvd unat sz"
proof -
  have "(2 ^ k :: u8) - 1 = mask k" by (simp add: mask_eq_exp_minus_1)
  with assms(1) have "(ucast sz :: u8) AND mask k = 0 \<or> ((ucast sz :: u8) OR of_nat base) AND mask k = 0"
    by (auto simp: is_aligned_def Let_def split: if_splits)
  then have "\<not> bit (ucast sz :: u8) i" if "i < k" for i
    using that assms(2) by (auto simp: bit_eq_iff bit_simps dest: spec [of _ i])
  with assms(2) have "take_bit k sz = 0"
    by (intro bit_word_eqI) (auto simp: bit_simps)
  then have "unat sz mod 2 ^ k = 0" by (metis unat_take_bit unsigned_0)
  then show ?thesis by auto
qed

text \<open>The exchange that \<open>sort_r\<close> picks swaps elements, in each configuration.\<close>

lemma builtin_exchange:
  assumes "sz \<noteq> 0"
  shows "8 dvd unat sz \<Longrightarrow> does_exchange c64 SWAP_WORDS_64 priv sz"
    and "4 dvd unat sz \<Longrightarrow> does_exchange c64 SWAP_WORDS_32 priv sz"
    and "does_exchange c64 SWAP_BYTES priv sz"
  by (cases c64) (simp_all add: assms does_exchange_def do_swap_def words_64.loop_exchanges
      half_words_64.loop_exchanges words_32.loop_exchanges bytes.loop_exchanges)

lemma pick_swap_exchanges:
  assumes "swaps_elements swap_func priv sz" and "sz \<noteq> 0"
  obtains sf where "pick_swap ua base sz swap_func priv = Some sf" and "does_exchange c64 sf priv sz"
proof -
  let ?pick = "if is_aligned ua base sz 8 then SWAP_WORDS_64
    else if is_aligned ua base sz 4 then SWAP_WORDS_32 else SWAP_BYTES"
  have pick: "does_exchange c64 ?pick priv sz"
    using is_aligned_dvd [of ua base sz 3] is_aligned_dvd [of ua base sz 2]
    by (simp add: builtin_exchange [OF assms(2)])
  show thesis
  proof (cases swap_func)
    case SWAP_WORDS_64
    with pick that [of ?pick] show thesis by (simp add: pick_swap_def)
  next
    case SWAP_WORDS_32
    with that [of swap_func] assms builtin_exchange(2) [OF assms(2), where priv = priv] show thesis
      by (simp add: pick_swap_def swaps_elements_def)
  next
    case SWAP_BYTES
    with that [of swap_func] builtin_exchange(3) [OF assms(2), where priv = priv] show thesis
      by (simp add: pick_swap_def)
  next
    case SWAP_WRAPPER
    with assms(1) obtain w where w: "priv = Wrapper w"
      "\<forall>f. w_swap w = Some f \<longrightarrow> exchanges (unat sz) (\<lambda>m a b. f m a b (int_of_size sz))"
      by (auto simp: swaps_elements_def split: priv.splits)
    show thesis
    proof (cases "w_swap w")
      case None
      with SWAP_WRAPPER w pick that [of ?pick] show thesis by (simp add: pick_swap_def)
    next
      case (Some f)
      with w SWAP_WRAPPER have "does_exchange c64 swap_func priv sz"
        by (simp add: does_exchange_def do_swap_def exchanges_def)
      with Some SWAP_WRAPPER w that [of swap_func] show thesis by (simp add: pick_swap_def)
    qed
  next
    case (Swap_Func f)
    with assms(1) have "does_exchange c64 swap_func priv sz"
      by (simp add: does_exchange_def do_swap_def exchanges_def swaps_elements_def)
    with Swap_Func that [of swap_func] show thesis by (simp add: pick_swap_def)
  qed
qed

section \<open>The loops on indices\<close>

text \<open>An array that fits: what \<open>sort_r\<close> needs of its arguments.\<close>

definition array_fits :: "addr \<Rightarrow> nat \<Rightarrow> u64 \<Rightarrow> mem \<Rightarrow> bool" where
  "array_fits base num sz m \<longleftrightarrow>
     base + num * unat sz \<le> length m \<and> num * unat sz < 2 ^ 63 \<and> \<not> 2 ^ 32 dvd unat sz"

lemma array_fits_kept: "array_fits base num sz m \<Longrightarrow> same_outside base n m m' \<Longrightarrow> array_fits base num sz m'"
  by (simp add: array_fits_def same_outside_def)

lemma fits_nonzero: "array_fits base num sz m \<Longrightarrow> sz \<noteq> 0"
  by (auto simp: array_fits_def)

lemma fits_mult:
  assumes "array_fits base num sz m" and "i \<le> 2 * num"
  shows "i * unat sz < 2 ^ 64"
proof -
  have "i * unat sz \<le> 2 * num * unat sz" using assms(2) by (rule mult_le_mono1)
  also have "\<dots> < 2 ^ 64" using assms(1) by (simp add: array_fits_def)
  finally show ?thesis .
qed

lemma fits_off:
  assumes "array_fits base num sz m" and "i \<le> 2 * num" and "j \<le> 2 * num"
  shows "unat (off sz i) = i * unat sz" and "off sz i < off sz j \<longleftrightarrow> i < j" and "off sz i = off sz j \<longleftrightarrow> i = j"
proof -
  note u = unat_off [OF fits_mult [OF assms(1,2)]] unat_off [OF fits_mult [OF assms(1,3)]]
  have "0 < unat sz" using fits_nonzero [OF assms(1)] by (simp add: unsigned_eq_0_iff flip: neq0_conv)
  then show "off sz i < off sz j \<longleftrightarrow> i < j" by (simp add: word_less_nat_alt u)
  from u show "unat (off sz i) = i * unat sz" by simp
  from fits_mult [OF assms(1)] assms fits_nonzero [OF assms(1)]
  show "off sz i = off sz j \<longleftrightarrow> i = j" by (simp add: off_inject)
qed

lemma cmp_elems:
  assumes "compares_by cmp_func priv (unat sz) f" and "array_fits base num sz m" and "i < num" and "j < num"
  shows "do_cmp m (base + unat (off sz i)) (base + unat (off sz j)) cmp_func priv
    = Some (f (elems base (unat sz) num m ! i) (elems base (unat sz) num m ! j))"
proof -
  have "base + i * unat sz + unat sz \<le> length m" "base + j * unat sz + unat sz \<le> length m"
    using index_end [OF assms(3), of "unat sz"] index_end [OF assms(4), of "unat sz"] assms(2)
    by (simp_all add: array_fits_def)
  with assms show ?thesis
    by (simp add: compares_by_def elem_def fits_off(1) [OF assms(2) _ le0])
qed

lemma do_swap_elems:
  assumes "does_exchange c64 swap_func priv sz" and "array_fits base num sz m" and "i < num" and "j < num" and "i \<noteq> j"
  shows "do_swap c64 m (base + unat (off sz i)) (base + unat (off sz j)) sz swap_func priv
    = Some (exchanged (base + i * unat sz) (base + j * unat sz) 0 (unat sz) m)"
proof -
  have "base + i * unat sz + unat sz \<le> length m" "base + j * unat sz + unat sz \<le> length m"
    using index_end [OF assms(3), of "unat sz"] index_end [OF assms(4), of "unat sz"] assms(2)
    by (simp_all add: array_fits_def)
  with assms slices_apart [OF assms(5)] show ?thesis
    by (simp add: does_exchange_def fits_off(1) [OF assms(2) _ le0])
qed

lemma sort_descend_off:
  assumes "compares_by cmp_func priv (unat sz) f" and "array_fits base num sz m" and "n \<le> num"
  shows "b < num \<Longrightarrow> sort_descend m base sz cmp_func priv (off sz n) (off sz b)
    = Some (off sz (descend f (elems base (unat sz) num m) n b))"
proof (induction "num - b" arbitrary: b rule: less_induct)
  case less
  have c: "2 * off sz b + sz = off sz (2 * b + 1)" and d: "off sz (2 * b + 1) + sz = off sz (2 * b + 2)"
    by (simp_all add: off_def algebra_simps)
  have lt: "off sz (2 * b + 2) < off sz n \<longleftrightarrow> 2 * b + 2 < n" and eq: "off sz (2 * b + 2) = off sz n \<longleftrightarrow> 2 * b + 2 = n"
    using less.prems assms(3) fits_off(2,3) [OF assms(2), of "2 * b + 2" n] by simp_all
  show ?case
  proof (cases "2 * b + 2 < n")
    case True
    then have i: "2 * b + 1 < num" "2 * b + 2 < num" using assms(3) by simp_all
    let ?b = "if f (elems base (unat sz) num m ! (2 * b + 1)) (elems base (unat sz) num m ! (2 * b + 2)) \<ge> 0
      then 2 * b + 1 else 2 * b + 2"
    have "num - ?b < num - b" "?b < num" using i by auto
    note less.hyps [OF this]
    with True show ?thesis
      by (subst sort_descend.simps, subst descend.simps)
        (simp only: Let_def c d lt if_True cmp_elems [OF assms(1,2) i] Option.bind.bind_lunit if_distrib [of "off sz"])
  next
    case False
    then show ?thesis
      by (subst sort_descend.simps, subst descend.simps) (simp only: Let_def c d lt eq if_False if_distrib [of "off sz"] if_distrib [of Some])
  qed
qed

lemma sort_backtrack_off:
  assumes "compares_by cmp_func priv (unat sz) f" and "array_fits base num sz m" and "a < num"
  shows "anc a b \<Longrightarrow> b < num \<Longrightarrow>
    sort_backtrack m base sz cmp_func priv (ucast (sz AND - sz)) (off sz a) (off sz b)
    = Some (off sz (backtrack f (elems base (unat sz) num m) a b))"
proof (induction b rule: less_induct)
  case (less b)
  show ?case
  proof (cases "b = a")
    case True
    then show ?thesis by (subst sort_backtrack.simps, subst backtrack.simps) simp
  next
    case False
    with less.prems have b: "a < b" "anc a (par b)" "par b < b" by (auto simp: anc_step intro: par_less)
    note fits = fits_mult [OF assms(2), of b] assms(2) [unfolded array_fits_def]
    have "parent (off sz b) (ucast (sz AND - sz)) sz = off sz (par b)"
      using b less.prems fits by (intro parent_off) auto
    moreover have "off sz b \<noteq> off sz a"
      using False less.prems assms(3) fits_off(3) [OF assms(2), of b a] by simp
    ultimately show ?thesis
      using b less cmp_elems [OF assms(1,2,3) less.prems(2)]
      by (subst sort_backtrack.simps, subst backtrack.simps) simp
  qed
qed

lemma sort_shift_off:
  assumes "does_exchange c64 swap_func priv sz" and "a < num" and "c < num"
  shows "anc a b \<Longrightarrow> b \<le> c \<Longrightarrow> array_fits base num sz m \<Longrightarrow>
    \<exists>m'. sort_shift c64 base sz swap_func priv (ucast (sz AND - sz)) (off sz a) (off sz c) (off sz b) m = Some m'
      \<and> elems base (unat sz) num m' = shift a b c (elems base (unat sz) num m)
      \<and> same_outside base (num * unat sz) m m'"
proof (induction b arbitrary: m rule: less_induct)
  case (less b)
  show ?case
  proof (cases "b = a")
    case True
    then show ?thesis by (subst sort_shift.simps, subst shift.simps) (simp add: same_outside_refl)
  next
    case False
    with less.prems have b: "a < b" "anc a (par b)" "par b < b" by (auto simp: anc_step intro: par_less)
    then have i: "par b < num" "par b \<noteq> c" "b < num" using less.prems(2) assms(3) by auto
    let ?m = "exchanged (base + par b * unat sz) (base + c * unat sz) 0 (unat sz) m"
    have par: "parent (off sz b) (ucast (sz AND - sz)) sz = off sz (par b)"
      using b i less.prems fits_mult [OF less.prems(3), of b] by (intro parent_off) (auto simp: array_fits_def)
    have ne: "off sz b \<noteq> off sz a"
      using False i assms(2) fits_off(3) [OF less.prems(3), of b a] by simp
    have "do_swap c64 m (base + unat (off sz (par b))) (base + unat (off sz c)) sz swap_func priv = Some ?m"
      by (rule do_swap_elems [OF assms(1) less.prems(3) i(1) assms(3) i(2)])
    moreover have out: "same_outside base (num * unat sz) m ?m" and el: "elems base (unat sz) num ?m = swap (par b) c (elems base (unat sz) num m)"
      using exchanged_outside [OF i(1) assms(3)] elems_exchanged [OF i(1) assms(3)] less.prems(3)
      by (simp_all add: array_fits_def)
    moreover obtain m' where "sort_shift c64 base sz swap_func priv (ucast (sz AND - sz)) (off sz a) (off sz c) (off sz (par b)) ?m = Some m'"
        and "elems base (unat sz) num m' = shift a (par b) c (elems base (unat sz) num ?m)"
        and "same_outside base (num * unat sz) ?m m'"
      using less.IH [OF b(3,2), of ?m] b less.prems array_fits_kept [OF less.prems(3) out] by auto
    ultimately show ?thesis
      using b ne par by (subst sort_shift.simps, subst shift.simps) (auto intro: same_outside_trans)
  qed
qed

lemma sort_sift_off:
  assumes "compares_by cmp_func priv (unat sz) f" and "does_exchange c64 swap_func priv sz" and "cmp_preorder f"
    and "array_fits base num sz m" and "a < n" and "n \<le> num"
  shows "\<exists>m'. sort_sift c64 base sz cmp_func swap_func priv (ucast (sz AND - sz)) (off sz a) (off sz n) m = Some m'
      \<and> elems base (unat sz) num m' = sift f n a (elems base (unat sz) num m)
      \<and> same_outside base (num * unat sz) m m'"
proof -
  let ?xs = "elems base (unat sz) num m"
  let ?b = "descend f ?xs n a" and ?c = "backtrack f ?xs a (descend f ?xs n a)"
  have a: "a < num" using assms(5,6) by simp
  have b: "anc a ?b" "?b < num" using descend_spec [OF assms(3,5), of ?xs] assms(6) by auto
  have c: "anc a ?c" "?c < num" using backtrack_spec [OF b(1), of f ?xs] anc_le [of ?c ?b] b(2) by auto
  from sort_descend_off [OF assms(1,4,6) a] sort_backtrack_off [OF assms(1,4) a b]
    sort_shift_off [OF assms(2) a c(2,1) order_refl assms(4)]
  show ?thesis by (auto simp: sort_sift_def sift_def Let_def)
qed

lemma sort_loop_off:
  assumes "compares_by cmp_func priv (unat sz) f" and "does_exchange c64 swap_func priv sz" and "cmp_preorder f"
  shows "array_fits base num sz m \<Longrightarrow> a \<le> n \<Longrightarrow> 0 < n \<Longrightarrow> n \<le> num \<Longrightarrow>
    \<exists>m'. sort_loop c64 base sz cmp_func swap_func priv (ucast (sz AND - sz)) (off sz a) (off sz n) m = Some m'
      \<and> elems base (unat sz) num m' = heapsort f a n (elems base (unat sz) num m)
      \<and> same_outside base (num * unat sz) m m'"
proof (induction "a + n" arbitrary: a n m rule: less_induct)
  case less
  note fits = less.prems(1)
  have zero: "off sz i = 0 \<longleftrightarrow> i = 0" if "i \<le> num" for i
    using fits_off(3) [OF fits, of i 0] that by (simp add: off_def)
  have dec: "off sz i - sz = off sz (i - 1)" if "0 < i" for i
    using that by (simp add: off_diff off_1 [simplified])
  let ?sift = "sort_sift c64 base sz cmp_func swap_func priv (ucast (sz AND - sz))"
  let ?loop = "sort_loop c64 base sz cmp_func swap_func priv (ucast (sz AND - sz))"
  consider "0 < a" | "a = 0" "1 < n" | "a = 0" "n = 1" using less.prems(3) by linarith
  then show ?case
  proof cases
    case 1
    then have a: "a - 1 < n" using less.prems(2) by simp
    obtain m1 where m1: "?sift (off sz (a - 1)) (off sz n) m = Some m1"
        "elems base (unat sz) num m1 = sift f n (a - 1) (elems base (unat sz) num m)" "same_outside base (num * unat sz) m m1"
      using sort_sift_off [OF assms fits a less.prems(4)] by blast
    from 1 less.hyps [OF _ array_fits_kept [OF fits m1(3)] less_imp_le [OF a] less.prems(3,4)]
    obtain m2 where "?loop (off sz (a - 1)) (off sz n) m1 = Some m2"
        "elems base (unat sz) num m2 = heapsort f (a - 1) n (elems base (unat sz) num m1)" "same_outside base (num * unat sz) m1 m2"
      by auto
    with 1 m1 zero [of a] dec [of a] less.prems show ?thesis
      by (subst sort_loop.simps, subst heapsort.simps) (auto intro: same_outside_trans)
  next
    case 2
    let ?m = "exchanged (base + 0 * unat sz) (base + (n - 1) * unat sz) 0 (unat sz) m"
    have i: "0 < num" "n - 1 < num" "0 \<noteq> n - 1" using 2 less.prems by auto
    have sw: "do_swap c64 m base (base + unat (off sz (n - 1))) sz swap_func priv = Some ?m"
      using do_swap_elems [OF assms(2) fits i] by (simp add: off_def)
    have out: "same_outside base (num * unat sz) m ?m"
      and el: "elems base (unat sz) num ?m = swap 0 (n - 1) (elems base (unat sz) num m)"
      using exchanged_outside [OF i(1,2)] elems_exchanged [OF i(1,2)] fits by (auto simp: array_fits_def)
    obtain m1 where m1: "?sift (off sz 0) (off sz (n - 1)) ?m = Some m1"
        "elems base (unat sz) num m1 = sift f (n - 1) 0 (elems base (unat sz) num ?m)" "same_outside base (num * unat sz) ?m m1"
      using sort_sift_off [OF assms array_fits_kept [OF fits out], of 0 "n - 1"] i by auto
    from 2 i(3) less.hyps [OF _ array_fits_kept [OF array_fits_kept [OF fits out] m1(3)] le0 _ less_imp_le [OF i(2)]]
    obtain m2 where "?loop (off sz 0) (off sz (n - 1)) m1 = Some m2"
        "elems base (unat sz) num m2 = heapsort f 0 (n - 1) (elems base (unat sz) num m1)" "same_outside base (num * unat sz) m1 m2"
      by auto
    with 2 m1 sw out el zero [of "n - 1"] zero [of 0] dec [of n] i show ?thesis
      by (subst sort_loop.simps, subst heapsort.simps) (auto simp: Let_def intro: same_outside_trans)
  next
    case 3
    with zero [of 0] dec [of 1] show ?thesis
      by (subst sort_loop.simps, subst heapsort.simps) (simp add: Let_def same_outside_refl)
  qed
qed

text \<open>What it means to have sorted the array.\<close>

definition sorts :: "addr \<Rightarrow> nat \<Rightarrow> nat \<Rightarrow> (u8 list \<Rightarrow> u8 list \<Rightarrow> int) \<Rightarrow> mem \<Rightarrow> mem option \<Rightarrow> bool" where
  "sorts base s num f m r \<longleftrightarrow>
     (\<exists>m'. r = Some m' \<and> same_outside base (num * s) m m'
       \<and> mset (elems base s num m') = mset (elems base s num m)
       \<and> sorted_wrt (\<lambda>x y. f y x \<ge> 0) (elems base s num m'))"

lemma sort_r_sorts:
  assumes "array_fits base (unat num) sz m" and "compares_by cmp_func priv (unat sz) f" and "cmp_preorder f"
    and "swaps_elements swap_func priv sz"
  shows "sorts base (unat sz) (unat num) f m (sort_r c64 ua base num sz cmp_func swap_func priv m)"
proof -
  let ?num = "unat num" let ?xs = "elems base (unat sz) ?num m"
  have u: "off sz ?num = num * sz" "off sz (?num div 2) = num div 2 * sz"
    by (simp_all add: off_def flip: unat_div [of num 2, simplified])
  show ?thesis
  proof (cases "?num < 2")
    case True
    then have "num div 2 * sz = 0" using u(2) by (simp add: off_def)
    moreover have "sorted_wrt P ?xs" for P using True by (cases ?num) (auto simp: elems_def)
    ultimately show ?thesis by (simp add: sort_r_def sorts_def same_outside_refl)
  next
    case False
    from pick_swap_exchanges [OF assms(4) fits_nonzero [OF assms(1)]]
    obtain sf where sf: "pick_swap ua base sz swap_func priv = Some sf" "does_exchange c64 sf priv sz" by blast
    have "num div 2 * sz \<noteq> 0"
      using False fits_off(3) [OF assms(1), of "?num div 2" 0] u(2) by (simp add: off_def)
    with sort_loop_off [OF assms(2) sf(2) assms(3,1), of "?num div 2" ?num] False sf(1)
      heapsort_sorted [OF assms(3), of ?xs]
    show ?thesis by (auto simp: sort_r_def sorts_def Let_def u)
  qed
qed

section \<open>Properties\<close>

text \<open>
  C25: \<open>sort_r\<close> returns with the array sorted, for every comparison that is a total preorder on
  the bytes of the elements, for the built-in exchanges and for one of the caller's, in each
  configuration: the elements are a permutation of what they were, each is not above a later
  one, and the memory outside of the array is unchanged.  The array has less than \<open>2 ^ 63\<close> bytes and the size of its
  elements is not a multiple of 4 GiB.
\<close>

theorem sort_r_correct:
  assumes "array_fits base (unat num) sz m" and "compares_by cmp_func priv (unat sz) f" and "cmp_preorder f"
    and "swaps_elements swap_func priv sz"
  shows "\<exists>m'. sort_r c64 ua base num sz cmp_func swap_func priv m = Some m'
    \<and> same_outside base (unat num * unat sz) m m'
    \<and> mset (elems base (unat sz) (unat num) m') = mset (elems base (unat sz) (unat num) m)
    \<and> sorted_wrt (\<lambda>x y. f y x \<ge> 0) (elems base (unat sz) (unat num) m')"
  using sort_r_sorts [OF assms] by (simp add: sorts_def)

lemma first_byte_order:
  "cmp_preorder (\<lambda>x y. uint (hd x :: u8) - uint (hd y))"
  by (auto simp: cmp_preorder_def)

lemma first_byte_compares:
  "0 < s \<Longrightarrow> compares_by (Cmp_Func (\<lambda>m a b _. uint (m ! a) - uint (m ! b))) priv s (\<lambda>x y. uint (hd x) - uint (hd y))"
  by (simp add: compares_by_def do_cmp_def hd_drop_conv_nth)

theorem sort_r_correct_witness:
  "\<exists>m'. sort_r True False 1 3 2 (Cmp_Func (\<lambda>m a b _. uint (m ! a) - uint (m ! b))) SWAP_WORDS_64 (Priv ()) [9, 3, 0, 1, 0, 2, 0] = Some m'
    \<and> same_outside 1 (unat (3 :: u64) * unat (2 :: u64)) [9, 3, 0, 1, 0, 2, 0] m'
    \<and> mset (elems 1 (unat (2 :: u64)) (unat (3 :: u64)) m') = mset (elems 1 (unat (2 :: u64)) (unat (3 :: u64)) [9, 3, 0, 1, 0, 2, 0])
    \<and> sorted_wrt (\<lambda>x y. uint (hd y) - uint (hd x) \<ge> 0) (elems 1 (unat (2 :: u64)) (unat (3 :: u64)) m')"
  by (rule sort_r_correct) (simp_all add: array_fits_def first_byte_compares first_byte_order swaps_elements_def)

text \<open>
  the same for \<open>sort\<close>, whose comparison and exchange get no private pointer: without an
  exchange it picks a built-in one for the alignment of the array.
\<close>

theorem sort_correct:
  assumes "array_fits base (unat num) sz m" and "cmp_preorder f"
    and "\<forall>m a b. a + unat sz \<le> length m \<longrightarrow> b + unat sz \<le> length m \<longrightarrow>
      cmp_func m a b = f (take (unat sz) (drop a m)) (take (unat sz) (drop b m))"
    and "\<forall>g. swap_func = Some g \<longrightarrow> exchanges (unat sz) (\<lambda>m a b. g m a b (int_of_size sz))"
  shows "\<exists>m'. sort c64 ua base num sz cmp_func swap_func m = Some m'
    \<and> same_outside base (unat num * unat sz) m m'
    \<and> mset (elems base (unat sz) (unat num) m') = mset (elems base (unat sz) (unat num) m)
    \<and> sorted_wrt (\<lambda>x y. f y x \<ge> 0) (elems base (unat sz) (unat num) m')"
proof -
  let ?w = "Wrapper \<lparr>w_cmp = cmp_func, w_swap = swap_func\<rparr> :: unit priv"
  have "compares_by CMP_WRAPPER ?w (unat sz) f"
    using assms(3) by (simp add: compares_by_def do_cmp_def)
  moreover have "swaps_elements SWAP_WRAPPER ?w sz"
    using assms(4) by (simp add: swaps_elements_def)
  ultimately show ?thesis
    using sort_r_sorts [OF assms(1) _ assms(2)] by (simp add: sort_def sorts_def)
qed

theorem sort_correct_witness:
  "\<exists>m'. sort True True 0 3 1 (\<lambda>m a b. uint (m ! a) - uint (m ! b)) (Some (\<lambda>m a b n. exchanged a b 0 (nat n) m)) [3, 1, 2] = Some m'
    \<and> same_outside 0 (unat (3 :: u64) * unat (1 :: u64)) [3, 1, 2] m'
    \<and> mset (elems 0 (unat (1 :: u64)) (unat (3 :: u64)) m') = mset (elems 0 (unat (1 :: u64)) (unat (3 :: u64)) [3, 1, 2])
    \<and> sorted_wrt (\<lambda>x y. uint (hd y) - uint (hd x) \<ge> 0) (elems 0 (unat (1 :: u64)) (unat (3 :: u64)) m')"
  by (rule sort_correct)
    (simp_all add: array_fits_def first_byte_order exchanges_def int_of_size_def hd_drop_conv_nth take_Suc)

text \<open>
  With elements of 4 GiB the bit that \<open>sort_r\<close> keeps in an \<open>unsigned int\<close> is lost, and the
  parent of the third element is not the offset of an element.
\<close>

lemma parent_4gib: "parent (off (2 ^ 32) 2) (ucast ((2 ^ 32 :: u64) AND - (2 ^ 32))) (2 ^ 32) = 2 ^ 31"
  by (simp add: parent_def off_def)

lemma sort_r_example:
  "sort_r True False 1 3 2 (Cmp_Func (\<lambda>m a b _. uint (m ! a) - uint (m ! b))) SWAP_WORDS_64 (Priv ()) [9, 3, 0, 1, 0, 2, 0]
     = Some [9, 1, 0, 2, 0, 3, 0]"
  by code_simp

end
