(* ===== verification/Bitops.thy ===== *)
theory Bitops
  imports Prelude "HOL-Library.Monad_Syntax"
begin

text \<open>
  Bits of words and of arrays of words: \<open>lib/include/linux/bits.h\<close> and the non-atomic operations
  \<open>lib/include/asm-generic/bitops/non-atomic.h\<close>.  \<open>unsigned long\<close> has 64 bits.  The arrays live in a
  heap from addresses to lists of words, so that two arguments of a function may be the same
  array; a result \<^const>\<open>None\<close> is an access outside of an array.
\<close>

section \<open>Arrays of words\<close>

type_synonym heap = "addr \<rightharpoonup> u64 list"

definition rd :: "heap \<Rightarrow> addr \<Rightarrow> nat \<Rightarrow> u64 option" where
  "rd h p k = (case h p of None \<Rightarrow> None | Some ws \<Rightarrow> if k < length ws then Some (ws ! k) else None)"

definition wr :: "heap \<Rightarrow> addr \<Rightarrow> nat \<Rightarrow> u64 \<Rightarrow> heap option" where
  "wr h p k w =
     (case h p of None \<Rightarrow> None | Some ws \<Rightarrow> if k < length ws then Some (h(p \<mapsto> ws[k := w])) else None)"

text \<open>A loop that counts up, and one that stops at the first index with a property.\<close>

function for_up :: "nat \<Rightarrow> nat \<Rightarrow> (nat \<Rightarrow> 's \<Rightarrow> 's option) \<Rightarrow> 's \<Rightarrow> 's option" where
  "for_up k lim body s = (if k < lim then do { s \<leftarrow> body k s; for_up (k + 1) lim body s } else Some s)"
  by pat_completeness auto
termination
  by (relation "measure (\<lambda>(k, lim, body, s). lim - k)") auto

function any_up :: "nat \<Rightarrow> nat \<Rightarrow> (nat \<Rightarrow> bool option) \<Rightarrow> bool option" where
  "any_up k lim test =
     (if k < lim then do { b \<leftarrow> test k; if b then Some True else any_up (k + 1) lim test } else Some False)"
  by pat_completeness auto
termination
  by (relation "measure (\<lambda>(k, lim, test). lim - k)") auto

declare for_up.simps [simp del] any_up.simps [simp del]

definition BIT_WORD :: "u32 \<Rightarrow> nat" where
  "BIT_WORD nr = unat nr div 64"

definition BIT_MASK :: "u32 \<Rightarrow> u64" where
  "BIT_MASK nr = push_bit (unat nr mod 64) 1"

definition BITS_TO_LONGS :: "u32 \<Rightarrow> nat" where
  "BITS_TO_LONGS nr = (unat nr + 63) div 64"

section \<open>Operations on a bit\<close>

definition set_bit :: "u32 \<Rightarrow> addr \<Rightarrow> heap \<Rightarrow> heap option" where
  "set_bit nr p h = do { w \<leftarrow> rd h p (BIT_WORD nr); wr h p (BIT_WORD nr) (w OR BIT_MASK nr) }"

definition clear_bit :: "u32 \<Rightarrow> addr \<Rightarrow> heap \<Rightarrow> heap option" where
  "clear_bit nr p h = do { w \<leftarrow> rd h p (BIT_WORD nr); wr h p (BIT_WORD nr) (w AND NOT (BIT_MASK nr)) }"

definition change_bit :: "u32 \<Rightarrow> addr \<Rightarrow> heap \<Rightarrow> heap option" where
  "change_bit nr p h = do { w \<leftarrow> rd h p (BIT_WORD nr); wr h p (BIT_WORD nr) (w XOR BIT_MASK nr) }"

definition test_and_set_bit :: "u32 \<Rightarrow> addr \<Rightarrow> heap \<Rightarrow> (bool \<times> heap) option" where
  "test_and_set_bit nr p h =
     do { w \<leftarrow> rd h p (BIT_WORD nr); h \<leftarrow> wr h p (BIT_WORD nr) (w OR BIT_MASK nr); Some (w AND BIT_MASK nr \<noteq> 0, h) }"

definition test_and_clear_bit :: "u32 \<Rightarrow> addr \<Rightarrow> heap \<Rightarrow> (bool \<times> heap) option" where
  "test_and_clear_bit nr p h =
     do { w \<leftarrow> rd h p (BIT_WORD nr); h \<leftarrow> wr h p (BIT_WORD nr) (w AND NOT (BIT_MASK nr)); Some (w AND BIT_MASK nr \<noteq> 0, h) }"

definition test_and_change_bit :: "u32 \<Rightarrow> addr \<Rightarrow> heap \<Rightarrow> (bool \<times> heap) option" where
  "test_and_change_bit nr p h =
     do { w \<leftarrow> rd h p (BIT_WORD nr); h \<leftarrow> wr h p (BIT_WORD nr) (w XOR BIT_MASK nr); Some (w AND BIT_MASK nr \<noteq> 0, h) }"

definition test_bit :: "u32 \<Rightarrow> addr \<Rightarrow> heap \<Rightarrow> bool option" where
  "test_bit nr p h = do { w \<leftarrow> rd h p (BIT_WORD nr); Some (1 AND drop_bit (unat (nr AND 63)) w \<noteq> 0) }"

end
