(* ===== verification/FindBit.thy ===== *)
theory FindBit
  imports Bitops
begin

text \<open>
  Searching bits: \<open>lib/src/linux/find_bit.c\<close> with the wrappers of \<open>lib/include/linux/find.h\<close>, on the
  path they take when the size is not a small compile-time constant.  The searches are shown
  equal to a reference that looks at one bit after the other.
\<close>

section \<open>Operations\<close>

text \<open>\<open>__ffs\<close> and \<open>__fls\<close> are compiler built-ins; they are undefined for 0.\<close>

definition ffs :: "u64 \<Rightarrow> nat" where
  "ffs w = length (takeWhile (\<lambda>i. \<not> bit w i) [0..<64])"

definition raw_fls :: "u64 \<Rightarrow> nat" where
  "raw_fls w = 63 - length (takeWhile (\<lambda>i. \<not> bit w i) (rev [0..<64]))"

definition ffz :: "u64 \<Rightarrow> nat" where
  "ffz w = ffs (NOT w)"

definition BITMAP_FIRST_WORD_MASK :: "u64 \<Rightarrow> u64" where
  "BITMAP_FIRST_WORD_MASK start = push_bit (unat (start AND 63)) (- 1)"

definition BITMAP_LAST_WORD_MASK :: "u64 \<Rightarrow> u64" where
  "BITMAP_LAST_WORD_MASK nbits = drop_bit (unat (- nbits AND 63)) (- 1)"

text \<open>Reversal of the bytes of a word; only the big-endian configuration asks for it.\<close>

definition swab :: "u64 \<Rightarrow> u64" where
  "swab x =
     push_bit 56 (x AND 0xff) OR push_bit 40 (x AND 0xff00) OR push_bit 24 (x AND 0xff0000)
     OR push_bit 8 (x AND 0xff000000) OR drop_bit 8 (x AND 0xff00000000) OR drop_bit 24 (x AND 0xff0000000000)
     OR drop_bit 40 (x AND 0xff000000000000) OR drop_bit 56 (x AND 0xff00000000000000)"

definition fetch :: "heap \<Rightarrow> addr \<Rightarrow> addr option \<Rightarrow> u64 \<Rightarrow> u64 \<Rightarrow> u64 option" where
  "fetch h addr1 addr2 invert start =
     do {
       tmp \<leftarrow> rd h addr1 (unat start div 64);
       tmp \<leftarrow> (case addr2 of
                None \<Rightarrow> Some tmp
              | Some a \<Rightarrow> do { w \<leftarrow> rd h a (unat start div 64); Some (tmp AND w) });
       Some (tmp XOR invert)
     }"

partial_function (option) find_next_loop ::
  "heap \<Rightarrow> addr \<Rightarrow> addr option \<Rightarrow> u64 \<Rightarrow> u64 \<Rightarrow> bool \<Rightarrow> u64 \<Rightarrow> u64 \<Rightarrow> u64 option" where
  "find_next_loop h addr1 addr2 nbits invert le start tmp =
     (if tmp = 0
      then
        (let start = start + 64
         in if start \<ge> nbits then Some nbits
            else do {
              tmp \<leftarrow> fetch h addr1 addr2 invert start;
              find_next_loop h addr1 addr2 nbits invert le start tmp
            })
      else
        (let tmp = (if le then swab tmp else tmp)
         in Some (min (start + word_of_nat (ffs tmp)) nbits)))"

definition raw_find_next_bit ::
  "heap \<Rightarrow> addr \<Rightarrow> addr option \<Rightarrow> u64 \<Rightarrow> u64 \<Rightarrow> u64 \<Rightarrow> bool \<Rightarrow> u64 option" where
  "raw_find_next_bit h addr1 addr2 nbits start invert le =
     (if start \<ge> nbits then Some nbits
      else do {
        tmp \<leftarrow> fetch h addr1 addr2 invert start;
        let mask = BITMAP_FIRST_WORD_MASK start;
        let mask = (if le then swab mask else mask);
        find_next_loop h addr1 addr2 nbits invert le (start AND NOT 63) (tmp AND mask)
      })"

definition find_next_bit :: "heap \<Rightarrow> addr \<Rightarrow> u64 \<Rightarrow> u64 \<Rightarrow> u64 option" where
  "find_next_bit h addr size0 offset = raw_find_next_bit h addr None size0 offset 0 False"

definition find_next_and_bit :: "heap \<Rightarrow> addr \<Rightarrow> addr \<Rightarrow> u64 \<Rightarrow> u64 \<Rightarrow> u64 option" where
  "find_next_and_bit h addr1 addr2 size0 offset = raw_find_next_bit h addr1 (Some addr2) size0 offset 0 False"

definition find_next_zero_bit :: "heap \<Rightarrow> addr \<Rightarrow> u64 \<Rightarrow> u64 \<Rightarrow> u64 option" where
  "find_next_zero_bit h addr size0 offset = raw_find_next_bit h addr None size0 offset (- 1) False"

text \<open>The searches from the first bit, on a word that the caller computes for each index.\<close>

partial_function (option) find_first_loop ::
  "(nat \<Rightarrow> u64 option) \<Rightarrow> u64 \<Rightarrow> u64 \<Rightarrow> u64 option" where
  "find_first_loop word size0 idx =
     (if idx * 64 < size0
      then do {
        val \<leftarrow> word (unat idx);
        if val \<noteq> 0 then Some (min (idx * 64 + word_of_nat (ffs val)) size0)
        else find_first_loop word size0 (idx + 1)
      }
      else Some size0)"

definition raw_find_first_bit :: "heap \<Rightarrow> addr \<Rightarrow> u64 \<Rightarrow> u64 option" where
  "raw_find_first_bit h addr size0 = find_first_loop (rd h addr) size0 0"

definition raw_find_first_and_bit :: "heap \<Rightarrow> addr \<Rightarrow> addr \<Rightarrow> u64 \<Rightarrow> u64 option" where
  "raw_find_first_and_bit h addr1 addr2 size0 =
     find_first_loop (\<lambda>idx. do { v \<leftarrow> rd h addr1 idx; w \<leftarrow> rd h addr2 idx; Some (v AND w) }) size0 0"

text \<open>\<open>addr[idx] != ~0UL\<close> and \<open>ffz\<close> of it are the test and the search on the complement.\<close>

definition raw_find_first_zero_bit :: "heap \<Rightarrow> addr \<Rightarrow> u64 \<Rightarrow> u64 option" where
  "raw_find_first_zero_bit h addr size0 = find_first_loop (\<lambda>idx. map_option (\<lambda>w. NOT w) (rd h addr idx)) size0 0"

primrec find_last_loop :: "heap \<Rightarrow> addr \<Rightarrow> u64 \<Rightarrow> u64 \<Rightarrow> nat \<Rightarrow> u64 option" where
  "find_last_loop h addr size0 val 0 =
     do {
       w \<leftarrow> rd h addr 0;
       Some (if val AND w \<noteq> 0 then word_of_nat (raw_fls (val AND w)) else size0)
     }"
| "find_last_loop h addr size0 val (Suc idx) =
     do {
       w \<leftarrow> rd h addr (Suc idx);
       if val AND w \<noteq> 0 then Some (word_of_nat (Suc idx) * 64 + word_of_nat (raw_fls (val AND w)))
       else find_last_loop h addr size0 (- 1) idx
     }"

definition raw_find_last_bit :: "heap \<Rightarrow> addr \<Rightarrow> u64 \<Rightarrow> u64 option" where
  "raw_find_last_bit h addr size0 =
     (if size0 \<noteq> 0
      then find_last_loop h addr size0 (BITMAP_LAST_WORD_MASK size0) (unat (size0 - 1) div 64)
      else Some size0)"

definition bitmap_get_value8 :: "heap \<Rightarrow> addr \<Rightarrow> u64 \<Rightarrow> u64 option" where
  "bitmap_get_value8 h map0 start =
     do { w \<leftarrow> rd h map0 (unat start div 64); Some (drop_bit (unat start mod 64) w AND 0xFF) }"

definition find_next_clump8 :: "heap \<Rightarrow> addr \<Rightarrow> u64 \<Rightarrow> u64 \<Rightarrow> (u64 \<times> u64 option) option" where
  "find_next_clump8 h addr size0 offset =
     do {
       offset \<leftarrow> find_next_bit h addr size0 offset;
       if offset = size0 then Some (size0, None)
       else do {
         let offset = offset AND NOT 7;
         clump \<leftarrow> bitmap_get_value8 h addr offset;
         Some (offset, Some clump)
       }
     }"

declare find_next_loop.simps [simp del] find_first_loop.simps [simp del]
declare find_next_loop.simps [code] find_first_loop.simps [code]

section \<open>Bits of an array\<close>

definition has :: "heap \<Rightarrow> addr \<Rightarrow> nat \<Rightarrow> bool" where
  "has h p n \<longleftrightarrow> (\<exists>ws. h p = Some ws \<and> n \<le> 64 * length ws)"

definition word_at :: "heap \<Rightarrow> addr \<Rightarrow> nat \<Rightarrow> u64" where
  "word_at h p k = the (h p) ! k"

definition is_set :: "heap \<Rightarrow> addr \<Rightarrow> nat \<Rightarrow> bool" where
  "is_set h p i \<longleftrightarrow> bit (word_at h p (i div 64)) (i mod 64)"

lemma rd_has: "has h p n \<Longrightarrow> 64 * k < n \<Longrightarrow> rd h p k = Some (word_at h p k)"
  by (auto simp: has_def rd_def word_at_def)

lemma is_set_word: "j < 64 \<Longrightarrow> is_set h p (64 * k + j) \<longleftrightarrow> bit (word_at h p k) j"
  by (simp add: is_set_def)

section \<open>Words\<close>

lemma ffs_spec:
  assumes "w \<noteq> 0"
  shows "ffs w < 64" and "bit w (ffs w)" and "i < ffs w \<Longrightarrow> \<not> bit w i"
proof -
  let ?P = "\<lambda>i. \<not> bit w i"
  obtain k where k: "bit w k" "k < 64"
    using assms bit_imp_le_length [of w] by (auto simp: bit_eq_iff)
  then have lt: "ffs w < length [0..<64]"
    unfolding ffs_def
    by (metis (no_types, lifting) atLeastLessThan_iff le0 length_takeWhile_le nat_less_le set_takeWhileD
        set_upt takeWhile_eq_all_conv takeWhile_eq_take take_all_iff order_refl)
  then show "ffs w < 64" by simp
  from nth_length_takeWhile [of ?P "[0..<64]"] lt show "bit w (ffs w)"
    unfolding ffs_def by simp
  assume "i < ffs w"
  with lt show "\<not> bit w i"
    using nth_mem [of i "takeWhile ?P [0..<64]"] takeWhile_nth [of i ?P "[0..<64]"] set_takeWhileD [of _ ?P "[0..<64]"]
    unfolding ffs_def by auto
qed

section \<open>The reference\<close>

definition next_bit :: "(nat \<Rightarrow> bool) \<Rightarrow> nat \<Rightarrow> nat \<Rightarrow> nat" where
  "next_bit P s n = (case find P [s..<n] of Some i \<Rightarrow> i | None \<Rightarrow> n)"

lemma next_bit_eqI:
  assumes "\<And>i. s \<le> i \<Longrightarrow> i < r \<Longrightarrow> \<not> P i" and "s \<le> r \<or> r = n" and "r \<le> n" and "r < n \<Longrightarrow> P r"
  shows "next_bit P s n = r"
proof (cases "r = n")
  case True
  with assms(1) have "find P [s..<n] = None" by (auto simp: find_None_iff)
  with True show ?thesis by (simp add: next_bit_def)
next
  case False
  with assms have r: "s \<le> r" "r < n" "P r" by auto
  with assms(1) have "find P [s..<n] = Some r"
    unfolding find_Some_iff by (intro exI [of _ "r - s"]) auto
  then show ?thesis by (simp add: next_bit_def)
qed

lemma next_bit_cases:
  obtains (Found) "s \<le> next_bit P s n" and "next_bit P s n < n" and "P (next_bit P s n)"
      and "\<forall>i. s \<le> i \<longrightarrow> i < next_bit P s n \<longrightarrow> \<not> P i"
    | (NotFound) "next_bit P s n = n" and "\<forall>i. s \<le> i \<longrightarrow> i < n \<longrightarrow> \<not> P i"
proof (cases "find P [s..<n]")
  case None
  then have "\<forall>i. s \<le> i \<longrightarrow> i < n \<longrightarrow> \<not> P i" by (auto simp: find_None_iff)
  with None show ?thesis by (intro NotFound) (simp_all add: next_bit_def)
next
  case (Some r)
  then obtain k where k: "k < n - s" "P r" "r = s + k" "\<forall>j<k. \<not> P (s + j)"
    by (auto simp: find_Some_iff)
  have "\<not> P i" if "s \<le> i" "i < r" for i
    using k(3,4) that by (metis le_Suc_ex nat_add_left_cancel_less)
  with Some k show ?thesis by (intro Found) (auto simp: next_bit_def)
qed

lemma next_bit_less_iff: "next_bit P s n < n \<longleftrightarrow> (\<exists>i. s \<le> i \<and> i < n \<and> P i)"
  by (rule next_bit_cases [of s P n]) auto

lemma next_bit_le: "next_bit P s n \<le> n"
  by (rule next_bit_cases [of s P n]) auto

lemma next_bit_cong:
  assumes "\<And>i. s \<le> i \<Longrightarrow> i < n \<Longrightarrow> P i = Q i"
  shows "next_bit P s n = next_bit Q s n"
proof -
  have "find P [s..<n] = find Q [s..<n]" using assms by (intro find_cong) auto
  then show ?thesis by (simp add: next_bit_def)
qed

section \<open>Searches for the next bit\<close>

definition seen :: "heap \<Rightarrow> addr \<Rightarrow> addr option \<Rightarrow> bool \<Rightarrow> nat \<Rightarrow> bool" where
  "seen h a b neg i \<longleftrightarrow> (is_set h a i \<and> (\<forall>q. b = Some q \<longrightarrow> is_set h q i)) \<noteq> neg"

lemma fetch_is_set:
  assumes "has h a n" and "\<forall>q. b = Some q \<longrightarrow> has h q n" and "64 * k < n" and "64 * k < 2 ^ 64" and "j < 64"
  obtains w where "fetch h a b (if neg then - 1 else 0) (word_of_nat (64 * k + j)) = Some w"
    and "\<forall>i<64. bit w i \<longleftrightarrow> seen h a b neg (64 * k + i)"
proof -
  have "64 * k + j < 2 ^ 64" using assms(4,5) by simp
  then have k: "unat (word_of_nat (64 * k + j) :: u64) div 64 = k"
    using assms(5) by (simp only: unat_of_nat) simp
  note r = rd_has [OF assms(1,3)]
  show ?thesis
  proof (cases b)
    case None
    with that [of "word_at h a k XOR (if neg then - 1 else 0)"] r show ?thesis
      unfolding fetch_def k by (cases neg) (auto simp: seen_def is_set_word bit_simps)
  next
    case (Some q)
    with assms have "rd h q k = Some (word_at h q k)" by (simp add: rd_has)
    with Some that [of "(word_at h a k AND word_at h q k) XOR (if neg then - 1 else 0)"] r show ?thesis
      unfolding fetch_def k by (cases neg) (auto simp: seen_def is_set_word bit_simps)
  qed
qed

lemma find_next_loop_0:
  "find_next_loop h a b n v le start 0 =
     (if start + 64 \<ge> n then Some n
      else do { tmp \<leftarrow> fetch h a b v (start + 64); find_next_loop h a b n v le (start + 64) tmp })"
  by (subst find_next_loop.simps) (simp add: Let_def)

lemma find_next_loop_spec:
  assumes "has h a n" and "\<forall>q. b = Some q \<longrightarrow> has h q n" and "n + 64 \<le> 2 ^ 64"
  shows "64 * k < n \<Longrightarrow> s \<le> 64 * k + 63 \<Longrightarrow> s < n \<Longrightarrow> \<forall>i<64. bit tmp i \<longleftrightarrow> s \<le> 64 * k + i \<and> seen h a b neg (64 * k + i) \<Longrightarrow>
    \<forall>i. s \<le> i \<longrightarrow> i < 64 * k \<longrightarrow> \<not> seen h a b neg i \<Longrightarrow>
    find_next_loop h a b (word_of_nat n) (if neg then - 1 else 0) False (word_of_nat (64 * k)) tmp
      = Some (word_of_nat (next_bit (seen h a b neg) s n))"
proof (induction "n - 64 * k" arbitrary: k tmp rule: less_induct)
  case less
  let ?P = "seen h a b neg"
  have wn: "unat (word_of_nat m :: u64) = m" if "m < 2 ^ 64" for m using that by (simp only: unat_of_nat) simp
  show ?case
  proof (cases "tmp = 0")
    case False
    note f = ffs_spec [OF False]
    let ?r = "min (64 * k + ffs tmp) n"
    have "next_bit ?P s n = ?r"
    proof (rule next_bit_eqI)
      fix i assume i: "s \<le> i" "i < ?r"
      show "\<not> ?P i"
      proof (cases "i < 64 * k")
        case False
        then obtain j where "i = 64 * k + j" by (metis le_Suc_ex not_less)
        with i f less.prems(4) show ?thesis by auto
      qed (use less.prems(5) i in blast)
    qed (use f less.prems in auto)
    moreover have "(word_of_nat (64 * k) :: u64) + word_of_nat (ffs tmp) = word_of_nat (64 * k + ffs tmp)" by simp
    moreover have "min (word_of_nat (64 * k + ffs tmp) :: u64) (word_of_nat n) = word_of_nat ?r"
      using f(1) less.prems(1) assms(3) wn [of n] wn [of "64 * k + ffs tmp"] by (simp add: min_def word_le_nat_alt)
    ultimately show ?thesis
      using False by (subst find_next_loop.simps) (simp only: Let_def if_False)
  next
    case True
    then have none: "\<forall>i<64. s \<le> 64 * k + i \<longrightarrow> \<not> ?P (64 * k + i)" using less.prems(4) by simp
    have next': "\<not> ?P i" if "s \<le> i" "i < 64 * Suc k" for i
    proof (cases "i < 64 * k")
      case False
      then obtain j where "i = 64 * k + j" by (metis le_Suc_ex not_less)
      with that none show ?thesis by auto
    qed (use less.prems(5) that in blast)
    have add: "(word_of_nat (64 * k) :: u64) + 64 = word_of_nat (64 * Suc k)" by simp
    have ge: "(word_of_nat n :: u64) \<le> word_of_nat (64 * Suc k) \<longleftrightarrow> n \<le> 64 * Suc k"
      using less.prems(1) assms(3) wn [of n] wn [of "64 * Suc k"] by (simp add: word_le_nat_alt)
    show ?thesis
    proof (cases "n \<le> 64 * Suc k")
      case True
      with next' have "next_bit ?P s n = n" by (intro next_bit_eqI) auto
      with True \<open>tmp = 0\<close> ge show ?thesis
        by (simp only: find_next_loop_0 add if_True)
    next
      case False
      then have "64 * Suc k < n" "64 * Suc k < 2 ^ 64" using assms(3) by simp_all
      from fetch_is_set [OF assms(1,2) this, of 0 neg]
      obtain w where w: "fetch h a b (if neg then - 1 else 0) (word_of_nat (64 * Suc k)) = Some w"
          "\<forall>i<64. bit w i \<longleftrightarrow> ?P (64 * Suc k + i)" by auto
      have "find_next_loop h a b (word_of_nat n) (if neg then - 1 else 0) False (word_of_nat (64 * Suc k)) w
          = Some (word_of_nat (next_bit ?P s n))"
        using less.hyps [of "Suc k" w] less.prems(2,3) False next' w(2) by auto
      with False \<open>tmp = 0\<close> ge w(1) show ?thesis
        by (simp only: find_next_loop_0 add if_False Option.bind.bind_lunit)
    qed
  qed
qed

lemma next_bit_past: "n \<le> s \<Longrightarrow> next_bit P s n = n"
  by (simp add: next_bit_def)

lemma and_63: "unat ((w :: 'a::len word) AND 63) = unat w mod 64"
proof -
  have "w AND 63 = take_bit 6 w" by (simp add: take_bit_eq_mask mask_numeral)
  then show ?thesis by (simp add: unat_take_bit)
qed

lemma and_not_63: "unat ((w :: 'a::len word) AND NOT 63) = 64 * (unat w div 64)"
proof -
  have "w AND NOT 63 = w AND NOT (mask 6)" by (simp add: mask_numeral)
  then show ?thesis by (simp add: unat_and_not_mask minus_mod_eq_mult_div)
qed

lemma bit_first_word_mask: "i < 64 \<Longrightarrow> bit (BITMAP_FIRST_WORD_MASK start) i \<longleftrightarrow> unat start mod 64 \<le> i"
  by (auto simp: BITMAP_FIRST_WORD_MASK_def and_63 bit_simps)

lemma raw_find_next_bit_spec:
  assumes "has h a (unat nbits)" and "\<forall>q. b = Some q \<longrightarrow> has h q (unat nbits)" and "unat nbits + 64 \<le> 2 ^ 64"
  shows "raw_find_next_bit h a b nbits start (if neg then - 1 else 0) False
    = Some (word_of_nat (next_bit (seen h a b neg) (unat start) (unat nbits)))"
proof (cases "start \<ge> nbits")
  case True
  then have "next_bit P (unat start) (unat nbits) = unat nbits" for P
    by (simp add: next_bit_past word_le_nat_alt)
  with True show ?thesis by (simp add: raw_find_next_bit_def)
next
  case False
  then have s: "unat start < unat nbits" by (simp add: word_le_nat_alt)
  let ?k = "unat start div 64" and ?j = "unat start mod 64"
  have k: "64 * ?k < unat nbits" "64 * ?k < 2 ^ 64" using s assms(3) by linarith+
  have start: "word_of_nat (64 * ?k + ?j) = start" by simp
  obtain w where w: "fetch h a b (if neg then - 1 else 0) start = Some w"
      "\<forall>i<64. bit w i \<longleftrightarrow> seen h a b neg (64 * ?k + i)"
    using fetch_is_set [OF assms(1,2) k, of ?j neg] unfolding start by auto
  have round: "start AND NOT 63 = word_of_nat (64 * ?k)"
    by (rule unsigned_word_eqI [where ?'a = nat], unfold and_not_63 unat_of_nat) (use k in simp)
  have "find_next_loop h a b (word_of_nat (unat nbits)) (if neg then - 1 else 0) False (word_of_nat (64 * ?k)) (w AND BITMAP_FIRST_WORD_MASK start)
      = Some (word_of_nat (next_bit (seen h a b neg) (unat start) (unat nbits)))"
  proof (rule find_next_loop_spec [OF assms])
    show "\<forall>i<64. bit (w AND BITMAP_FIRST_WORD_MASK start) i \<longleftrightarrow> unat start \<le> 64 * ?k + i \<and> seen h a b neg (64 * ?k + i)"
    proof -
      have "unat start \<le> 64 * ?k + i \<longleftrightarrow> ?j \<le> i" for i
        using mult_div_mod_eq [of 64 "unat start"] by linarith
      with w(2) show ?thesis by (simp add: bit_and_iff bit_first_word_mask conj_commute)
    qed
    have "64 * ?k \<le> unat start" "unat start \<le> 64 * ?k + 63"
      using mult_div_mod_eq [of 64 "unat start"] mod_less_divisor [of 64 "unat start"] by linarith+
    then show "unat start \<le> 64 * ?k + 63" "\<forall>i. unat start \<le> i \<longrightarrow> i < 64 * ?k \<longrightarrow> \<not> seen h a b neg i" by auto
  qed (use s k in simp_all)
  with False w(1) round show ?thesis
    by (simp add: raw_find_next_bit_def)
qed

section \<open>Searches for the first bit\<close>

lemma find_first_loop_spec:
  assumes word: "\<forall>k. 64 * k < n \<longrightarrow> (\<exists>w. word k = Some w \<and> (\<forall>i<64. bit w i \<longleftrightarrow> P (64 * k + i)))" and "n + 64 \<le> 2 ^ 64"
  shows "64 * k \<le> n + 63 \<Longrightarrow> \<forall>i<64 * k. \<not> P i \<Longrightarrow>
    find_first_loop word (word_of_nat n) (word_of_nat k) = Some (word_of_nat (next_bit P 0 n))"
proof (induction "n + 64 - 64 * k" arbitrary: k rule: less_induct)
  case less
  have wn: "unat (word_of_nat m :: u64) = m" if "m < 2 ^ 64" for m using that by (simp only: unat_of_nat) simp
  have mult: "(word_of_nat k :: u64) * 64 = word_of_nat (64 * k)" by simp
  have lt: "(word_of_nat (64 * k) :: u64) < word_of_nat n \<longleftrightarrow> 64 * k < n"
    using less.prems(1) assms(2) by (simp only: word_less_nat_alt wn)
  show ?case
  proof (cases "64 * k < n")
    case False
    with less.prems(2) have "next_bit P 0 n = n" by (intro next_bit_eqI) auto
    with False lt show ?thesis by (subst find_first_loop.simps) (simp only: mult if_False)
  next
    case True
    with word obtain w where w: "word k = Some w" "\<forall>i<64. bit w i \<longleftrightarrow> P (64 * k + i)" by blast
    have k: "unat (word_of_nat k :: u64) = k" using True assms(2) by (intro wn) simp
    show ?thesis
    proof (cases "w = 0")
      case True
      with w less.prems(2) have "\<not> P i" if "i < 64 * Suc k" for i
        using that by (cases "i < 64 * k") (auto simp: not_less dest!: le_Suc_ex)
      then have "find_first_loop word (word_of_nat n) (word_of_nat (Suc k)) = Some (word_of_nat (next_bit P 0 n))"
        using less.hyps [of "Suc k"] \<open>64 * k < n\<close> by simp
      moreover have "(word_of_nat k :: u64) + 1 = word_of_nat (Suc k)" by simp
      ultimately show ?thesis
        using True lt \<open>64 * k < n\<close> w(1) by (subst find_first_loop.simps) (simp only: mult k if_True Option.bind.bind_lunit not_True_eq_False if_False simp_thms)
    next
      case False
      note f = ffs_spec [OF False]
      let ?r = "min (64 * k + ffs w) n"
      have "next_bit P 0 n = ?r"
      proof (rule next_bit_eqI)
        fix i assume "i < ?r"
        with f w less.prems(2) show "\<not> P i"
          by (cases "i < 64 * k") (auto simp: not_less dest!: le_Suc_ex)
      qed (use f w in auto)
      moreover have "(word_of_nat (64 * k) :: u64) + word_of_nat (ffs w) = word_of_nat (64 * k + ffs w)" by simp
      moreover have "min (word_of_nat (64 * k + ffs w) :: u64) (word_of_nat n) = word_of_nat ?r"
        using f(1) True assms(2) wn [of n] wn [of "64 * k + ffs w"] by (simp add: min_def word_le_nat_alt)
      ultimately show ?thesis
        using False lt \<open>64 * k < n\<close> w(1) by (subst find_first_loop.simps) (simp only: mult k if_True Option.bind.bind_lunit not_False_eq_True simp_thms)
    qed
  qed
qed

lemma find_first_spec:
  assumes "\<forall>k. 64 * k < unat nbits \<longrightarrow> (\<exists>w. word k = Some w \<and> (\<forall>i<64. bit w i \<longleftrightarrow> P (64 * k + i)))"
    and "unat nbits + 64 \<le> 2 ^ 64"
  shows "find_first_loop word nbits 0 = Some (word_of_nat (next_bit P 0 (unat nbits)))"
  using find_first_loop_spec [OF assms, of 0] by simp

text \<open>The wrappers, on the bits of their arrays.\<close>

lemma find_next_bit_spec:
  assumes "has h p (unat n)" and "unat n + 64 \<le> 2 ^ 64"
  shows "find_next_bit h p n s = Some (word_of_nat (next_bit (is_set h p) (unat s) (unat n)))"
  using raw_find_next_bit_spec [OF assms(1) _ assms(2), where b = None and neg = False and start = s]
  by (simp add: find_next_bit_def seen_def [abs_def])

lemma find_next_zero_bit_spec:
  assumes "has h p (unat n)" and "unat n + 64 \<le> 2 ^ 64"
  shows "find_next_zero_bit h p n s = Some (word_of_nat (next_bit (\<lambda>i. \<not> is_set h p i) (unat s) (unat n)))"
  using raw_find_next_bit_spec [OF assms(1) _ assms(2), where b = None and neg = True and start = s]
  by (simp add: find_next_zero_bit_def seen_def [abs_def])

lemma find_next_and_bit_spec:
  assumes "has h p (unat n)" and "has h q (unat n)" and "unat n + 64 \<le> 2 ^ 64"
  shows "find_next_and_bit h p q n s = Some (word_of_nat (next_bit (\<lambda>i. is_set h p i \<and> is_set h q i) (unat s) (unat n)))"
  using raw_find_next_bit_spec [OF assms(1) _ assms(3), where b = "Some q" and neg = False and start = s] assms(2)
  by (simp add: find_next_and_bit_def seen_def [abs_def])

lemma find_first_bit_spec:
  assumes "has h p (unat n)" and "unat n + 64 \<le> 2 ^ 64"
  shows "raw_find_first_bit h p n = Some (word_of_nat (next_bit (is_set h p) 0 (unat n)))"
  unfolding raw_find_first_bit_def
  by (rule find_first_spec [OF _ assms(2)]) (simp add: rd_has [OF assms(1)] is_set_word)

lemma find_first_zero_bit_spec:
  assumes "has h p (unat n)" and "unat n + 64 \<le> 2 ^ 64"
  shows "raw_find_first_zero_bit h p n = Some (word_of_nat (next_bit (\<lambda>i. \<not> is_set h p i) 0 (unat n)))"
  unfolding raw_find_first_zero_bit_def
  by (rule find_first_spec [OF _ assms(2)]) (simp add: rd_has [OF assms(1)] is_set_word bit_not_iff)

lemma find_first_and_bit_spec:
  assumes "has h p (unat n)" and "has h q (unat n)" and "unat n + 64 \<le> 2 ^ 64"
  shows "raw_find_first_and_bit h p q n = Some (word_of_nat (next_bit (\<lambda>i. is_set h p i \<and> is_set h q i) 0 (unat n)))"
  unfolding raw_find_first_and_bit_def
  by (rule find_first_spec [OF _ assms(3)]) (simp add: rd_has [OF assms(1)] rd_has [OF assms(2)] is_set_word bit_and_iff)

section \<open>Search for the last bit\<close>

definition last_bit :: "(nat \<Rightarrow> bool) \<Rightarrow> nat \<Rightarrow> nat" where
  "last_bit P n = (case find P (rev [0..<n]) of Some i \<Rightarrow> i | None \<Rightarrow> n)"

lemma last_bit_eqI:
  assumes "P r" and "r < n" and "\<And>i. r < i \<Longrightarrow> i < n \<Longrightarrow> \<not> P i"
  shows "last_bit P n = r"
proof -
  have "find P (rev [0..<n]) = Some r"
    unfolding find_Some_iff using assms by (intro exI [of _ "n - Suc r"]) (auto simp: rev_nth)
  then show ?thesis by (simp add: last_bit_def)
qed

lemma last_bit_none: "(\<And>i. i < n \<Longrightarrow> \<not> P i) \<Longrightarrow> last_bit P n = n"
  unfolding last_bit_def by (subst find_None_iff [THEN iffD2]) auto

lemma raw_fls_spec:
  assumes "w \<noteq> 0"
  shows "raw_fls w < 64" and "bit w (raw_fls w)" and "raw_fls w < i \<Longrightarrow> \<not> bit w i"
proof -
  let ?P = "\<lambda>i. \<not> bit w i"
  let ?m = "length (takeWhile ?P (rev [0..<64]))"
  obtain k where k: "bit w k" "k < 64"
    using assms bit_imp_le_length [of w] by (auto simp: bit_eq_iff)
  have lt: "?m < length (rev [0..<64])"
  proof (rule ccontr)
    assume "\<not> ?thesis"
    then have "takeWhile ?P (rev [0..<64]) = rev [0..<64]"
      by (metis length_takeWhile_le nat_less_le takeWhile_eq_take take_all_iff not_less)
    with k show False by (auto simp: takeWhile_eq_all_conv)
  qed
  then show "raw_fls w < 64" by (simp add: raw_fls_def)
  from nth_length_takeWhile [of ?P "rev [0..<64]"] lt show "bit w (raw_fls w)"
    by (simp add: raw_fls_def rev_nth)
  assume i: "raw_fls w < i"
  show "\<not> bit w i"
  proof (cases "i < 64")
    case True
    with i have "63 - i < ?m" by (simp add: raw_fls_def)
    moreover from this lt True have "takeWhile ?P (rev [0..<64]) ! (63 - i) = i"
      by (subst takeWhile_nth) (simp_all add: rev_nth)
    ultimately have "i \<in> set (takeWhile ?P (rev [0..<64]))" by (metis nth_mem)
    then show ?thesis by (auto dest: set_takeWhileD)
  qed (use bit_imp_le_length [of w i] in auto)
qed

lemma find_last_loop_spec:
  assumes "has h p n" and "n < 2 ^ 64"
  shows "64 * idx < n \<Longrightarrow> \<forall>j<64. bit (val AND word_at h p idx) j \<longleftrightarrow> 64 * idx + j < n \<and> is_set h p (64 * idx + j) \<Longrightarrow>
    \<forall>i. 64 * Suc idx \<le> i \<longrightarrow> i < n \<longrightarrow> \<not> is_set h p i \<Longrightarrow>
    find_last_loop h p (word_of_nat n) val idx = Some (word_of_nat (last_bit (is_set h p) n))"
proof (induction idx arbitrary: val)
  case 0
  let ?w = "val AND word_at h p 0"
  have r: "rd h p 0 = Some (word_at h p 0)" using 0 by (simp add: rd_has [OF assms(1)])
  show ?case
  proof (cases "?w = 0")
    case True
    have "last_bit (is_set h p) n = n"
    proof (rule last_bit_none)
      fix i assume "i < n"
      with 0 True show "\<not> is_set h p i" by (cases "i < 64") auto
    qed
    with True r show ?thesis by simp
  next
    case False
    note f = raw_fls_spec [OF False]
    have "last_bit (is_set h p) n = raw_fls ?w"
    proof (rule last_bit_eqI)
      fix i assume "raw_fls ?w < i" "i < n"
      with 0 f(3) show "\<not> is_set h p i" by (cases "i < 64") auto
    qed (use 0 f in auto)
    with False r show ?thesis by simp
  qed
next
  case (Suc idx)
  let ?w = "val AND word_at h p (Suc idx)"
  have r: "rd h p (Suc idx) = Some (word_at h p (Suc idx))" using Suc.prems(1) by (simp add: rd_has [OF assms(1)])
  have word: "i < 64 * Suc (Suc idx) \<Longrightarrow> 64 * Suc idx \<le> i \<Longrightarrow> \<exists>j<64. i = 64 * Suc idx + j" for i
    by (auto dest!: le_Suc_ex)
  show ?case
  proof (cases "?w = 0")
    case True
    have "\<not> is_set h p i" if "64 * Suc idx \<le> i" "i < n" for i
      using Suc.prems(2,3) True that word [of i] by (cases "i < 64 * Suc (Suc idx)") auto
    with Suc.IH [of "- 1"] Suc.prems(1) True r show ?thesis
      by (simp add: is_set_word)
  next
    case False
    note f = raw_fls_spec [OF False]
    have "last_bit (is_set h p) n = 64 * Suc idx + raw_fls ?w"
    proof (rule last_bit_eqI)
      fix i assume "64 * Suc idx + raw_fls ?w < i" "i < n"
      with Suc.prems(2,3) f(3) word [of i] show "\<not> is_set h p i"
        by (cases "i < 64 * Suc (Suc idx)") auto
    qed (use Suc.prems f in auto)
    with False r show ?thesis by (simp add: algebra_simps)
  qed
qed

lemma mod_complement:
  assumes "(x + y) mod 64 = 0" and "x < 64" and "y < (64 :: nat)"
  shows "x = (64 - y) mod 64"
proof (cases "x + y < 64")
  case False
  with assms have "x + y - 64 = 0" by (metis le_mod_geq mod_less less_diff_conv2 not_less add_less_mono)
  with assms False show ?thesis by (cases "y = 0") auto
qed (use assms in simp)

lemma bit_last_word_mask:
  assumes "i < 64"
  shows "bit (BITMAP_LAST_WORD_MASK nbits) i \<longleftrightarrow> unat nbits mod 64 = 0 \<or> i < unat nbits mod 64"
proof -
  have "unat (- nbits AND 63) = (64 - unat nbits mod 64) mod 64"
  proof -
    have "(unat (- nbits) + unat nbits) mod 2 ^ 64 = 0"
      using unat_word_ariths(1) [of "- nbits" nbits] by simp
    then have "2 ^ 64 dvd unat (- nbits) + unat nbits" by (rule mod_0_imp_dvd)
    then have "64 dvd unat (- nbits) + unat nbits" by (rule dvd_trans [rotated]) simp
    then have "(unat (- nbits) mod 64 + unat nbits mod 64) mod 64 = 0" by (simp add: mod_add_eq)
    then have "unat (- nbits) mod 64 = (64 - unat nbits mod 64) mod 64" by (rule mod_complement) simp_all
    then show ?thesis by (simp add: and_63)
  qed
  with assms show ?thesis
    by (cases "unat nbits mod 64 = 0") (auto simp: BITMAP_LAST_WORD_MASK_def bit_simps)
qed

lemma find_last_bit_spec:
  assumes "has h p (unat n)"
  shows "raw_find_last_bit h p n = Some (word_of_nat (last_bit (is_set h p) (unat n)))"
proof (cases "n = 0")
  case True
  then show ?thesis by (simp add: raw_find_last_bit_def last_bit_def)
next
  case False
  then have n: "0 < unat n" by (simp add: unsigned_eq_0_iff flip: neq0_conv)
  let ?idx = "unat (n - 1) div 64"
  have idx: "?idx = (unat n - 1) div 64" using False by (simp add: unat_minus_one)
  have "(unat n - 1) mod 64 < 64" by simp
  then have lo: "64 * ?idx < unat n" and hi: "unat n \<le> 64 * ?idx + 64"
    using n mult_div_mod_eq [of 64 "unat n - 1"] unfolding idx by linarith+
  have last: "64 * ?idx + j < unat n \<longleftrightarrow> unat n mod 64 = 0 \<or> j < unat n mod 64" if j: "j < 64" for j
  proof -
    obtain r where r: "unat n = 64 * ?idx + r" "0 < r" "r \<le> 64"
      using lo hi by (intro that [of "unat n - 64 * ?idx"]) linarith+
    then have "unat n mod 64 = r mod 64" by simp
    with r j show ?thesis by (cases "r = 64") auto
  qed
  have "find_last_loop h p (word_of_nat (unat n)) (BITMAP_LAST_WORD_MASK n) ?idx = Some (word_of_nat (last_bit (is_set h p) (unat n)))"
    using lo hi last unsigned_less [where ?'a = nat and w = n]
    by (intro find_last_loop_spec [OF assms]) (auto simp: bit_and_iff bit_last_word_mask is_set_word)
  with False show ?thesis by (simp add: raw_find_last_bit_def)
qed

end
