(* ===== verification/Hweight.thy ===== *)
theory Hweight
  imports Prelude
begin

text \<open>
  The population count \<open>lib/src/linux/hweight.c\<close>, which adds up the bits of a word in parallel, in
  both configurations (\<open>CONFIG_ARCH_HAS_FAST_MULTIPLIER\<close> is an argument), and the proof that it
  counts the bits.  The words are taken apart into bytes: the first three steps work on each
  byte alone.
\<close>

section \<open>Population count\<close>

definition sw_hweight32 :: "bool \<Rightarrow> u32 \<Rightarrow> u32" where
  "sw_hweight32 fast_multiplier w =
     (if fast_multiplier
      then
        (let w = w - (drop_bit 1 w AND 0x55555555);
             w = (w AND 0x33333333) + (drop_bit 2 w AND 0x33333333);
             w = (w + drop_bit 4 w) AND 0x0f0f0f0f
         in drop_bit 24 (w * 0x01010101))
      else
        (let res = w - (drop_bit 1 w AND 0x55555555);
             res = (res AND 0x33333333) + (drop_bit 2 res AND 0x33333333);
             res = (res + drop_bit 4 res) AND 0x0F0F0F0F;
             res = res + drop_bit 8 res
         in (res + drop_bit 16 res) AND 0x000000FF))"

definition sw_hweight16 :: "u32 \<Rightarrow> u32" where
  "sw_hweight16 w =
     (let res = w - (drop_bit 1 w AND 0x5555);
          res = (res AND 0x3333) + (drop_bit 2 res AND 0x3333);
          res = (res + drop_bit 4 res) AND 0x0F0F
      in (res + drop_bit 8 res) AND 0x00FF)"

definition sw_hweight8 :: "u32 \<Rightarrow> u32" where
  "sw_hweight8 w =
     (let res = w - (drop_bit 1 w AND 0x55);
          res = (res AND 0x33) + (drop_bit 2 res AND 0x33)
      in (res + drop_bit 4 res) AND 0x0F)"

definition sw_hweight64 :: "bool \<Rightarrow> u64 \<Rightarrow> u64" where
  "sw_hweight64 fast_multiplier w =
     (if fast_multiplier
      then
        (let w = w - (drop_bit 1 w AND 0x5555555555555555);
             w = (w AND 0x3333333333333333) + (drop_bit 2 w AND 0x3333333333333333);
             w = (w + drop_bit 4 w) AND 0x0f0f0f0f0f0f0f0f
         in drop_bit 56 (w * 0x0101010101010101))
      else
        (let res = w - (drop_bit 1 w AND 0x5555555555555555);
             res = (res AND 0x3333333333333333) + (drop_bit 2 res AND 0x3333333333333333);
             res = (res + drop_bit 4 res) AND 0x0F0F0F0F0F0F0F0F;
             res = res + drop_bit 8 res;
             res = res + drop_bit 16 res
         in (res + drop_bit 32 res) AND 0x00000000000000FF))"

section \<open>Bytes\<close>

definition bval :: "nat list \<Rightarrow> nat" where
  "bval bs = foldr (\<lambda>b x. b + 256 * x) bs 0"

lemma val_simps [simp]: "bval [] = 0" "bval (b # bs) = b + 256 * bval bs"
  by (simp_all add: bval_def)

definition all_bytes :: "nat list \<Rightarrow> bool" where
  "all_bytes bs \<longleftrightarrow> (\<forall>b\<in>set bs. b < 256)"

definition popcount :: "nat \<Rightarrow> nat \<Rightarrow> nat" where
  "popcount n x = length (filter (bit x) [0..<n])"

lemma no_high_bit: "m < (2 :: nat) ^ f \<Longrightarrow> f \<le> i \<Longrightarrow> \<not> bit m i"
  by (metis bit_take_bit_iff not_le take_bit_nat_eq_self)

text \<open>A number below \<open>2 ^ f\<close> with another one behind it: bits, and masks of a field each.\<close>

lemma bit_field:
  assumes "b < (2 :: nat) ^ f"
  shows "bit (b + 2 ^ f * y) n \<longleftrightarrow> (if n < f then bit b n else bit y (n - f))"
proof -
  note hi = no_high_bit [OF assms]
  have "b AND push_bit f y = 0"
    using hi by (auto simp: bit_eq_iff bit_simps)
  then have "b + push_bit f y = b OR push_bit f y"
    by (rule disjunctive_add_eq_or)
  moreover have "b + 2 ^ f * y = b + push_bit f y"
    by (simp add: push_bit_eq_mult)
  ultimately show ?thesis using hi by (auto simp: bit_simps not_less)
qed

lemma and_less_field: "m < (2 :: nat) ^ f \<Longrightarrow> x AND m < 2 ^ f"
  by (metis take_bit_and take_bit_nat_eq_self take_bit_nat_less_exp and.assoc and.right_idem bit.conj_cancel_right
      take_bit_eq_mask and.commute)

lemma and_field:
  assumes "b < (2 :: nat) ^ f" and "m < 2 ^ (f - k)" and "k \<le> f"
  shows "drop_bit k (b + 2 ^ f * y) AND (m + 2 ^ f * n) = (drop_bit k b AND m) + 2 ^ f * (drop_bit k y AND n)"
proof (rule bit_eqI)
  fix i
  have m: "m < 2 ^ f" using assms(2) by (rule less_le_trans) (simp add: power_increasing)
  show "bit (drop_bit k (b + 2 ^ f * y) AND (m + 2 ^ f * n)) i =
      bit ((drop_bit k b AND m) + 2 ^ f * (drop_bit k y AND n)) i"
    using assms(3) no_high_bit [OF assms(2)]
    by (auto simp: bit_and_iff bit_drop_bit_eq bit_field [OF assms(1)] bit_field [OF m] bit_field [OF and_less_field [OF m]] add.commute)
qed

lemmas and_byte = and_field [where f = 8, simplified]
lemmas and_nibble = and_field [where f = 4, simplified]

section \<open>The first three steps on bytes\<close>

definition hw1 :: "nat \<Rightarrow> nat" where "hw1 b = b - (drop_bit 1 b AND 0x55)"

definition hw2 :: "nat \<Rightarrow> nat" where "hw2 b = (b AND 0x33) + (drop_bit 2 b AND 0x33)"

definition hw3 :: "nat \<Rightarrow> nat" where "hw3 b = (b + drop_bit 4 b) AND 0x0F"

text \<open>The first two of them work on each nibble alone.\<close>

definition nb1 :: "nat \<Rightarrow> nat" where "nb1 n = n - (drop_bit 1 n AND 5)"

definition nb2 :: "nat \<Rightarrow> nat" where "nb2 n = (n AND 3) + (drop_bit 2 n AND 3)"

lemma nibble_steps:
  assumes "n < 16"
  shows "drop_bit 1 n AND 5 \<le> n" and "nb1 n < 16" and "nb2 (nb1 n) = popcount 4 n" and "popcount 4 n \<le> 4"
proof -
  have four: "[0..<4] = [0, 1, 2, 3 :: nat]" by (simp add: upt_rec)
  have "\<forall>n\<in>set [0, 1, 2, 3, 4, 5, 6, 7, 8, 9, 10, 11, 12, 13, 14, 15 :: nat].
      drop_bit 1 n AND 5 \<le> n \<and> nb2 (nb1 n) = popcount 4 n"
    by (simp add: four nb1_def nb2_def popcount_def bit_0)
  moreover have "n \<in> set [0, 1, 2, 3, 4, 5, 6, 7, 8, 9, 10, 11, 12, 13, 14, 15]"
    using assms by (simp; presburger)
  ultimately have "drop_bit 1 n AND 5 \<le> n \<and> nb2 (nb1 n) = popcount 4 n" by (rule bspec)
  then show "drop_bit 1 n AND 5 \<le> n" "nb2 (nb1 n) = popcount 4 n" by simp_all
  show "nb1 n < 16" using assms by (simp add: nb1_def)
  show "popcount 4 n \<le> 4" unfolding popcount_def by (rule order_trans [OF length_filter_le]) simp
qed

lemma pop_field:
  assumes "b < 2 ^ f"
  shows "popcount (f + g) (b + 2 ^ f * y) = popcount f b + popcount g y"
proof -
  have "[0..<f + g] = [0..<f] @ map (\<lambda>i. f + i) [0..<g]"
    by (simp add: upt_add_eq_append [of 0 f g, simplified] map_add_upt add.commute)
  moreover have "filter (bit (b + 2 ^ f * y)) [0..<f] = filter (bit b) [0..<f]"
    by (rule filter_cong) (simp_all add: bit_field [OF assms])
  moreover have "filter (bit (b + 2 ^ f * y) \<circ> (\<lambda>i. f + i)) [0..<g] = filter (bit y) [0..<g]"
    by (rule filter_cong) (simp_all add: bit_field [OF assms])
  ultimately show ?thesis
    by (simp add: popcount_def filter_map)
qed

lemma nibbles_of_byte:
  assumes "b < (256 :: nat)"
  obtains l h where "b = l + 16 * h" and "l < 16" and "h < 16"
proof -
  have "b = b mod 16 + 16 * (b div 16)" by simp
  with that [of "b mod 16" "b div 16"] assms show ?thesis by simp
qed

lemma and_15: "(x :: nat) AND 15 = x mod 16"
proof -
  have "(15 :: nat) = mask 4" by (simp add: mask_eq_exp_minus_1)
  then show ?thesis by (simp only: take_bit_eq_mask [symmetric] take_bit_eq_mod) simp
qed

lemma byte_steps:
  assumes "b < 256"
  shows "drop_bit 1 b AND 0x55 \<le> b" and "hw1 b < 256" and "hw2 (hw1 b) < 256" and "hw2 (hw1 b) mod 16 \<le> 4"
    and "hw2 (hw1 b) div 16 \<le> 4" and "hw3 (hw2 (hw1 b)) = popcount 8 b" and "popcount 8 b \<le> 8"
proof -
  obtain l h where b: "b = l + 16 * h" "l < 16" "h < 16" using assms by (rule nibbles_of_byte)
  note l = nibble_steps [OF b(2)] and h = nibble_steps [OF b(3)]
  have a: "drop_bit 1 b AND 0x55 = (drop_bit 1 l AND 5) + 16 * (drop_bit 1 h AND 5)"
    using and_nibble [OF b(2), of 5 1 h 5] by (simp add: b)
  with l(1) h(1) b(1) show "drop_bit 1 b AND 0x55 \<le> b" by linarith
  have hw1: "hw1 b = nb1 l + 16 * nb1 h"
    unfolding hw1_def a nb1_def using l(1) h(1) b(1) by linarith
  have "hw2 (hw1 b) = nb2 (nb1 l) + 16 * nb2 (nb1 h)"
    unfolding hw1 hw2_def nb2_def
    using and_nibble [OF l(2), of 3 0 "nb1 h" 3] and_nibble [OF l(2), of 3 2 "nb1 h" 3] by simp
  with l h have hw2: "hw2 (hw1 b) = popcount 4 l + 16 * popcount 4 h" by simp
  with l(4) h(4) show "hw2 (hw1 b) mod 16 \<le> 4" "hw2 (hw1 b) div 16 \<le> 4" "hw2 (hw1 b) < 256" by simp_all
  have popcount: "popcount 8 b = popcount 4 l + popcount 4 h"
    using pop_field [of l 4 4 h] b by simp
  with l(4) h(4) show "popcount 8 b \<le> 8" by simp
  show "hw3 (hw2 (hw1 b)) = popcount 8 b"
  proof -
    have "hw2 (hw1 b) + drop_bit 4 (hw2 (hw1 b)) = (popcount 4 l + popcount 4 h) + 16 * popcount 4 h"
      using l(4) by (simp add: hw2 drop_bit_eq_div)
    then show ?thesis
      unfolding hw3_def and_15 popcount using l(4) h(4) by (simp only: mod_mult_self2) simp
  qed
  show "hw1 b < 256" using assms by (simp add: hw1_def)
qed

abbreviation brep :: "nat \<Rightarrow> nat list \<Rightarrow> nat" where
  "brep m bs \<equiv> bval (map (\<lambda>_. m) bs)"

lemma val_s1:
  "all_bytes bs \<Longrightarrow> drop_bit 1 (bval bs) AND brep 0x55 bs \<le> bval bs
     \<and> bval bs - (drop_bit 1 (bval bs) AND brep 0x55 bs) = bval (map hw1 bs)"
proof (induction bs)
  case (Cons b bs)
  then have b: "b < 256" and IH: "drop_bit 1 (bval bs) AND brep 0x55 bs \<le> bval bs"
      "bval bs - (drop_bit 1 (bval bs) AND brep 0x55 bs) = bval (map hw1 bs)"
    by (auto simp: all_bytes_def)
  have "drop_bit 1 (bval (b # bs)) AND brep 0x55 (b # bs)
      = (drop_bit 1 b AND 0x55) + 256 * (drop_bit 1 (bval bs) AND brep 0x55 bs)"
    using and_byte [OF b, of "0x55" 1] by simp
  with IH byte_steps(1) [OF b] show ?case by (simp add: hw1_def [of b])
qed simp

lemma val_s2:
  "all_bytes bs \<Longrightarrow> (bval bs AND brep 0x33 bs) + (drop_bit 2 (bval bs) AND brep 0x33 bs) = bval (map hw2 bs)"
proof (induction bs)
  case (Cons b bs)
  then have b: "b < 256"
      and IH: "(bval bs AND brep 0x33 bs) + (drop_bit 2 (bval bs) AND brep 0x33 bs) = bval (map hw2 bs)"
    by (auto simp: all_bytes_def)
  show ?case
    using IH and_byte [OF b, of "0x33" 2 "bval bs" "brep 0x33 bs"] and_byte [OF b, of "0x33" 0 "bval bs" "brep 0x33 bs"]
    by (simp add: hw2_def [of b])
qed simp

lemma val_s3:
  assumes "\<forall>b\<in>set bs. b mod 16 \<le> 4 \<and> b div 16 \<le> 4"
  shows "(bval bs + drop_bit 4 (bval bs)) AND brep 0x0F bs = bval (map hw3 bs)"
  using assms
proof (induction bs)
  case (Cons b bs)
  let ?y = "bval bs"
  have b: "b mod 16 \<le> 4" "b div 16 \<le> 4" using Cons.prems by simp_all
  have y: "?y mod 16 \<le> 4"
  proof (cases bs)
    case (Cons c cs)
    then have "?y = c + 16 * (16 * bval cs)" by simp
    then have "?y mod 16 = c mod 16" by (simp only: mod_mult_self2)
    with Cons \<open>\<forall>b\<in>set (b # bs). _\<close> show ?thesis by simp
  qed simp
  let ?l = "b + b div 16 + 16 * (?y mod 16)"
  have l: "?l < 256" using b y by linarith
  have "(b + 256 * ?y) div 16 = b div 16 + 16 * ?y" by simp
  also have "16 * ?y = 16 * (?y mod 16) + 256 * (?y div 16)"
    using div_mult_mod_eq [of ?y 16] by linarith
  finally have "bval (b # bs) + drop_bit 4 (bval (b # bs)) = ?l + 256 * (?y + drop_bit 4 ?y)"
    by (simp add: drop_bit_eq_div)
  then have "(bval (b # bs) + drop_bit 4 (bval (b # bs))) AND brep 0x0F (b # bs)
      = (?l + 256 * (?y + drop_bit 4 ?y)) AND (15 + 256 * brep 0x0F bs)"
    by (simp only: val_simps list.map)
  also have "\<dots> = (?l AND 15) + 256 * ((?y + drop_bit 4 ?y) AND brep 0x0F bs)"
    using and_byte [OF l, of 15 0 "?y + drop_bit 4 ?y" "brep 0x0F bs"] by simp
  finally have "(bval (b # bs) + drop_bit 4 (bval (b # bs))) AND brep 0x0F (b # bs)
      = (?l AND 15) + 256 * ((?y + drop_bit 4 ?y) AND brep 0x0F bs)" .
  moreover have "?l AND 15 = hw3 b"
    by (simp add: hw3_def and_15 drop_bit_eq_div mod_simps)
  ultimately show ?case using Cons by simp
qed simp

lemma val_steps:
  fixes x :: nat
  assumes "all_bytes bs"
  defines "y \<equiv> bval bs - (drop_bit 1 (bval bs) AND brep 0x55 bs)"
  defines "z \<equiv> (y AND brep 0x33 bs) + (drop_bit 2 y AND brep 0x33 bs)"
  shows "drop_bit 1 (bval bs) AND brep 0x55 bs \<le> bval bs" and "y = bval (map hw1 bs)" and "z = bval (map (hw2 \<circ> hw1) bs)"
    and "(z + drop_bit 4 z) AND brep 0x0F bs = bval (map (popcount 8) bs)"
proof -
  note b = assms(1) [unfolded all_bytes_def]
  show "drop_bit 1 (bval bs) AND brep 0x55 bs \<le> bval bs" and y: "y = bval (map hw1 bs)"
    using val_s1 [OF assms(1)] by (simp_all add: y_def)
  show z: "z = bval (map (hw2 \<circ> hw1) bs)"
    using val_s2 [of "map hw1 bs"] b byte_steps(2) by (simp add: z_def y all_bytes_def o_def)
  have "bval (map (hw3 \<circ> (hw2 \<circ> hw1)) bs) = bval (map (popcount 8) bs)"
    using b byte_steps(6) by (intro arg_cong [where f = bval] map_cong) simp_all
  then show "(z + drop_bit 4 z) AND brep 0x0F bs = bval (map (popcount 8) bs)"
    using val_s3 [of "map (hw2 \<circ> hw1) bs"] b byte_steps(4,5) by (simp add: z comp_def [of "\<lambda>_. 15"])
qed

section \<open>Words\<close>

fun bytes_of :: "nat \<Rightarrow> nat \<Rightarrow> nat list" where
  "bytes_of 0 x = []"
| "bytes_of (Suc n) x = (x mod 256) # bytes_of n (x div 256)"

lemma bytes_of_bytes: "all_bytes (bytes_of n x)"
  by (induction n x rule: bytes_of.induct) (simp_all add: all_bytes_def)

lemma length_bytes_of [simp]: "length (bytes_of n x) = n"
  by (induction n x rule: bytes_of.induct) simp_all

lemma val_bytes_of: "bval (bytes_of n x) = x mod 256 ^ n"
  by (induction n x rule: bytes_of.induct) (simp_all add: mod_mult2_eq add.commute)

lemma val_less: "all_bytes bs \<Longrightarrow> bval bs < 256 ^ length bs"
  by (induction bs) (auto simp: all_bytes_def)

lemma val_twice_less: "\<forall>b\<in>set bs. b < 128 \<Longrightarrow> 2 * bval bs < 256 ^ length bs"
  by (induction bs) auto

lemma pop_val: "all_bytes bs \<Longrightarrow> popcount (8 * length bs) (bval bs) = sum_list (map (popcount 8) bs)"
proof (induction bs)
  case (Cons b bs)
  then show ?case using pop_field [of b 8 "8 * length bs" "bval bs"] by (simp add: all_bytes_def)
qed (simp add: popcount_def)

lemma unat_and: "unat (v AND w) = unat v AND unat (w :: 'a::len word)"
  by (simp add: unsigned_and_eq)

lemma unat_drop: "unat (drop_bit k w) = drop_bit k (unat (w :: 'a::len word))"
  by (simp add: unsigned_drop_bit_eq take_bit_nat_eq_self unsigned_less)

lemma byte_sums:
  fixes w :: "'a::len word"
  assumes len: "unat w < 256 ^ n" "8 * n \<le> LENGTH('a)" and m5: "unat m5 = brep 0x55 bs" and m3: "unat m3 = brep 0x33 bs"
    and mf: "unat mf = brep 0x0F bs" and bs: "bs = bytes_of n (unat w)"
  defines "y \<equiv> w - (drop_bit 1 w AND m5)"
  defines "z \<equiv> (y AND m3) + (drop_bit 2 y AND m3)"
  shows "unat ((z + drop_bit 4 z) AND mf) = bval (map (popcount 8) bs)"
proof -
  have "(256 :: nat) ^ n = 2 ^ (8 * n)" by (simp add: power_mult)
  also have "\<dots> \<le> 2 ^ LENGTH('a)" using len(2) by (intro power_increasing) simp_all
  finally have fits: "m mod 2 ^ LENGTH('a) = m" if "m < 256 ^ n" for m :: nat using that by simp
  have b: "all_bytes bs" "length bs = n" by (simp_all add: bs bytes_of_bytes)
  have w: "unat w = bval bs" using len(1) by (simp add: bs val_bytes_of)
  note steps = val_steps [OF b(1)] and ok = b(1) [unfolded all_bytes_def]
  have "drop_bit 1 w AND m5 \<le> w"
    using steps(1) by (simp add: word_le_nat_alt unat_and unat_drop m5 w)
  then have y: "unat y = bval (map hw1 bs)"
    unfolding y_def using steps(2) by (simp add: unat_sub unat_and unat_drop m5 w)
  have "bval (map (hw2 \<circ> hw1) bs) < 256 ^ n"
    using val_less [of "map (hw2 \<circ> hw1) bs"] ok byte_steps(3) b(2) by (simp add: all_bytes_def)
  then have z: "unat z = bval (map (hw2 \<circ> hw1) bs)"
    unfolding z_def using steps(3) by (simp add: unat_word_ariths unat_and unat_drop m3 y fits flip: steps(2))
  have "\<forall>b\<in>set (map (hw2 \<circ> hw1) bs). b < 128"
  proof
    fix c assume "c \<in> set (map (hw2 \<circ> hw1) bs)"
    then obtain b where "c = hw2 (hw1 b)" "b < 256" using ok by auto
    with byte_steps(4,5) [of b] show "c < 128" by linarith
  qed
  from val_twice_less [OF this] have "2 * unat z < 256 ^ n" by (simp add: z b(2))
  then have "unat z + drop_bit 4 (unat z) < 256 ^ n" by (simp add: drop_bit_eq_div)
  then show ?thesis
    using steps(4) [unfolded steps(3)] by (simp add: unat_word_ariths unat_and unat_drop mf fits z)
qed

lemma eight:
  assumes "length xs = 8"
  obtains a b c d e f g h where "xs = [a, b, c, d, e, f, g, h]"
proof -
  have "8 = Suc (Suc (Suc (Suc (Suc (Suc (Suc (Suc 0)))))))" by simp
  with assms that show ?thesis by (auto simp: length_Suc_conv)
qed

text \<open>Adding up eight counts by a multiplication, and by shifts.\<close>

lemma sum_by_multiplication:
  fixes c0 :: nat
  assumes "c0 \<le> 8" and "c1 \<le> 8" and "c2 \<le> 8" and "c3 \<le> 8" and "c4 \<le> 8" and "c5 \<le> 8" and "c6 \<le> 8" and "c7 \<le> 8"
  shows "bval [c0, c1, c2, c3, c4, c5, c6, c7] * 0x0101010101010101 mod 2 ^ 64 div 2 ^ 56 = c0 + c1 + c2 + c3 + c4 + c5 + c6 + c7"
proof -
  let ?a = "1 * (c0) + 256 * (c0 + c1) + 65536 * (c0 + c1 + c2) + 16777216 * (c0 + c1 + c2 + c3) + 4294967296 * (c0 + c1 + c2 + c3 + c4) + 1099511627776 * (c0 + c1 + c2 + c3 + c4 + c5) + 281474976710656 * (c0 + c1 + c2 + c3 + c4 + c5 + c6)"
  let ?t = "1 * (c1 + c2 + c3 + c4 + c5 + c6 + c7) + 256 * (c2 + c3 + c4 + c5 + c6 + c7) + 65536 * (c3 + c4 + c5 + c6 + c7) + 16777216 * (c4 + c5 + c6 + c7) + 4294967296 * (c5 + c6 + c7) + 1099511627776 * (c6 + c7) + 281474976710656 * (c7)"
  have "bval [c0, c1, c2, c3, c4, c5, c6, c7] * 0x0101010101010101 = ?a + 2 ^ 56 * (c0 + c1 + c2 + c3 + c4 + c5 + c6 + c7) + 2 ^ 64 * ?t"
    by (simp add: algebra_simps)
  moreover have "?a < 2 ^ 56" "?a + 2 ^ 56 * (c0 + c1 + c2 + c3 + c4 + c5 + c6 + c7) < 2 ^ 64" using assms by simp_all
  ultimately show ?thesis
    by (simp only: mod_mult_self2 mod_less div_mult_self2 [OF power_not_zero [OF numeral_neq_zero]] div_less)
qed

lemma val_div:
  "a < 256 \<Longrightarrow> b < 256 \<Longrightarrow> bval (a # b # xs) div 2 ^ 16 = bval xs"
  "a < 256 \<Longrightarrow> b < 256 \<Longrightarrow> c < 256 \<Longrightarrow> d < 256 \<Longrightarrow> bval (a # b # c # d # xs) div 2 ^ 32 = bval xs"
proof -
  assume ab: "a < 256" "b < 256"
  have "bval (a # b # xs) = (a + 256 * b) + 2 ^ 16 * bval xs" by simp
  with ab show "bval (a # b # xs) div 2 ^ 16 = bval xs"
    by (simp only: div_mult_self2 [OF power_not_zero [OF numeral_neq_zero]] div_less) simp
  assume cd: "c < 256" "d < 256"
  have "bval (a # b # c # d # xs) = (a + 256 * b + 65536 * c + 16777216 * d) + 2 ^ 32 * bval xs" by simp
  with ab cd show "bval (a # b # c # d # xs) div 2 ^ 32 = bval xs"
    by (simp only: div_mult_self2 [OF power_not_zero [OF numeral_neq_zero]] div_less) simp
qed

lemma val_mod: "a < 256 \<Longrightarrow> bval (a # xs) mod 2 ^ 8 = a"
  by simp

lemma and_255: "(x :: nat) AND 255 = x mod 256"
proof -
  have "(255 :: nat) = mask 8" by (simp add: mask_eq_exp_minus_1)
  then show ?thesis by (simp only: take_bit_eq_mask [symmetric] take_bit_eq_mod) simp
qed

lemma sum_by_shifts:
  fixes c0 :: nat
  assumes "c0 \<le> 8" and "c1 \<le> 8" and "c2 \<le> 8" and "c3 \<le> 8" and "c4 \<le> 8" and "c5 \<le> 8" and "c6 \<le> 8" and "c7 \<le> 8"
  defines "x \<equiv> bval [c0, c1, c2, c3, c4, c5, c6, c7]"
  defines "r1 \<equiv> x + x div 2 ^ 8"
  defines "r2 \<equiv> r1 + r1 div 2 ^ 16"
  shows "(r2 + r2 div 2 ^ 32) mod 2 ^ 8 = c0 + c1 + c2 + c3 + c4 + c5 + c6 + c7" and "r1 < 2 ^ 64" and "r2 < 2 ^ 64" and "r2 + r2 div 2 ^ 32 < 2 ^ 64"
proof -
  have r1: "r1 = bval [c0 + c1, c1 + c2, c2 + c3, c3 + c4, c4 + c5, c5 + c6, c6 + c7, c7]"
    unfolding r1_def x_def using assms(1) by (simp add: div_mult2_eq)
  have "r1 div 2 ^ 16 = bval [c2 + c3, c3 + c4, c4 + c5, c5 + c6, c6 + c7, c7]"
    unfolding r1 using assms(1-8) by (intro val_div) simp_all
  then have r2: "r2 = bval [c0 + c1 + c2 + c3, c1 + c2 + c3 + c4, c2 + c3 + c4 + c5, c3 + c4 + c5 + c6, c4 + c5 + c6 + c7, c5 + c6 + c7, c6 + c7, c7]"
    unfolding r2_def r1 by simp
  have "r2 div 2 ^ 32 = bval [c4 + c5 + c6 + c7, c5 + c6 + c7, c6 + c7, c7]"
    unfolding r2 using assms(1-8) by (intro val_div) simp_all
  then have r3: "r2 + r2 div 2 ^ 32 = bval [c0 + c1 + c2 + c3 + c4 + c5 + c6 + c7, c1 + c2 + c3 + c4 + c5 + c6 + c7, c2 + c3 + c4 + c5 + c6 + c7, c3 + c4 + c5 + c6 + c7, c4 + c5 + c6 + c7, c5 + c6 + c7, c6 + c7, c7]"
    unfolding r2 by simp
  show "(r2 + r2 div 2 ^ 32) mod 2 ^ 8 = c0 + c1 + c2 + c3 + c4 + c5 + c6 + c7"
    unfolding r3 using assms(1-8) by (intro val_mod) simp
  show "r1 < 2 ^ 64" "r2 < 2 ^ 64" "r2 + r2 div 2 ^ 32 < 2 ^ 64"
    unfolding r3 r1 r2 using assms(1-8) by simp_all
qed

lemma sw_hweight64_pop: "unat (sw_hweight64 fast w) = popcount 64 (unat w)"
proof -
  define bs where "bs = bytes_of 8 (unat w)"
  have b: "length bs = 8" "all_bytes bs" by (simp_all add: bs_def bytes_of_bytes)
  have "map (\<lambda>_. m) bs = [m, m, m, m, m, m, m, m]" for m :: nat
    using b(1) by (auto simp: numeral_eq_Suc length_Suc_conv)
  then have masks: "unat (0x5555555555555555 :: u64) = brep 0x55 bs" "unat (0x3333333333333333 :: u64) = brep 0x33 bs"
    "unat (0x0F0F0F0F0F0F0F0F :: u64) = brep 0x0F bs"
    by simp_all
  define y where "y = w - (drop_bit 1 w AND 0x5555555555555555)"
  define z where "z = (y AND 0x3333333333333333) + (drop_bit 2 y AND 0x3333333333333333)"
  define u where "u = (z + drop_bit 4 z) AND 0x0F0F0F0F0F0F0F0F"
  have u: "unat u = bval (map (popcount 8) bs)"
    unfolding u_def z_def y_def using unsigned_less [where ?'a = nat and w = w] by (intro byte_sums [OF _ _ masks bs_def]) simp_all
  obtain c0 c1 c2 c3 c4 c5 c6 c7 where c: "map (popcount 8) bs = [c0, c1, c2, c3, c4, c5, c6, c7]"
      "c0 \<le> 8" "c1 \<le> 8" "c2 \<le> 8" "c3 \<le> 8" "c4 \<le> 8" "c5 \<le> 8" "c6 \<le> 8" "c7 \<le> 8"
  proof -
    have "length (map (popcount 8) bs) = 8" by (simp add: b(1))
    then obtain c0 c1 c2 c3 c4 c5 c6 c7 where m: "map (popcount 8) bs = [c0, c1, c2, c3, c4, c5, c6, c7]"
      by (rule eight)
    have "\<forall>x\<in>set (map (popcount 8) bs). x \<le> 8" using b(2) byte_steps(7) by (auto simp: all_bytes_def)
    with that [OF m] show ?thesis by (simp add: m)
  qed
  have "popcount 64 (unat w) = c0 + c1 + c2 + c3 + c4 + c5 + c6 + c7"
  proof -
    have "bval bs = unat w"
      using unsigned_less [where ?'a = nat and w = w] by (simp add: bs_def val_bytes_of)
    with pop_val [OF b(2)] show ?thesis by (simp add: b(1) c(1))
  qed
  moreover have "unat (drop_bit 56 (u * 0x0101010101010101)) = c0 + c1 + c2 + c3 + c4 + c5 + c6 + c7"
    using sum_by_multiplication [OF c(2-)] by (simp add: unat_drop unat_word_ariths u c(1) drop_bit_eq_div)
  moreover have "unat (let res = u + drop_bit 8 u; res = res + drop_bit 16 res in (res + drop_bit 32 res) AND 0xFF)
      = c0 + c1 + c2 + c3 + c4 + c5 + c6 + c7"
    using sum_by_shifts [OF c(2-)]
    by (simp add: Let_def unat_drop unat_word_ariths unat_and u c(1) drop_bit_eq_div and_255 del: val_simps)
  ultimately show ?thesis
    by (simp add: sw_hweight64_def Let_def y_def z_def u_def)
qed

lemma four:
  assumes "length xs = 4"
  obtains a b c d where "xs = [a, b, c, d]"
proof -
  have "4 = Suc (Suc (Suc (Suc 0)))" by simp
  with assms that show ?thesis by (auto simp: length_Suc_conv)
qed

lemma sum_of_four:
  fixes c0 :: nat
  assumes "c0 \<le> 8" and "c1 \<le> 8" and "c2 \<le> 8" and "c3 \<le> 8"
  defines "x \<equiv> bval [c0, c1, c2, c3]"
  defines "r \<equiv> x + x div 2 ^ 8"
  shows "x * 0x01010101 mod 2 ^ 32 div 2 ^ 24 = c0 + c1 + c2 + c3"
    and "(r + r div 2 ^ 16) mod 2 ^ 8 = c0 + c1 + c2 + c3" and "r < 2 ^ 32" and "r + r div 2 ^ 16 < 2 ^ 32"
proof -
  let ?a = "c0 + 256 * (c0 + c1) + 65536 * (c0 + c1 + c2)"
  let ?t = "(c1 + c2 + c3) + 256 * (c2 + c3) + 65536 * c3"
  have "x * 0x01010101 = ?a + 2 ^ 24 * (c0 + c1 + c2 + c3) + 2 ^ 32 * ?t"
    by (simp add: x_def algebra_simps)
  moreover have "?a < 2 ^ 24" "?a + 2 ^ 24 * (c0 + c1 + c2 + c3) < 2 ^ 32" using assms(1-4) by simp_all
  ultimately show "x * 0x01010101 mod 2 ^ 32 div 2 ^ 24 = c0 + c1 + c2 + c3"
    by (simp only: mod_mult_self2 mod_less div_mult_self2 [OF power_not_zero [OF numeral_neq_zero]] div_less)
  have r: "r = bval [c0 + c1, c1 + c2, c2 + c3, c3]"
    unfolding r_def x_def using assms(1) by simp
  have "r div 2 ^ 16 = bval [c2 + c3, c3]"
    unfolding r using assms(1-4) by (intro val_div) simp_all
  then have r2: "r + r div 2 ^ 16 = bval [c0 + c1 + c2 + c3, c1 + c2 + c3, c2 + c3, c3]"
    unfolding r by simp
  show "(r + r div 2 ^ 16) mod 2 ^ 8 = c0 + c1 + c2 + c3"
    unfolding r2 using assms(1-4) by (intro val_mod) simp
  show "r < 2 ^ 32" "r + r div 2 ^ 16 < 2 ^ 32"
    unfolding r2 r using assms(1-4) by simp_all
qed

lemma sw_hweight32_pop: "unat (sw_hweight32 fast w) = popcount 32 (unat w)"
proof -
  define bs where "bs = bytes_of 4 (unat w)"
  have b: "length bs = 4" "all_bytes bs" by (simp_all add: bs_def bytes_of_bytes)
  have "map (\<lambda>_. m) bs = [m, m, m, m]" for m :: nat
    by (rule four [OF b(1)]) simp
  then have masks: "unat (0x55555555 :: u32) = brep 0x55 bs" "unat (0x33333333 :: u32) = brep 0x33 bs"
    "unat (0x0F0F0F0F :: u32) = brep 0x0F bs"
    by simp_all
  define y where "y = w - (drop_bit 1 w AND 0x55555555)"
  define z where "z = (y AND 0x33333333) + (drop_bit 2 y AND 0x33333333)"
  define u where "u = (z + drop_bit 4 z) AND 0x0F0F0F0F"
  have u: "unat u = bval (map (popcount 8) bs)"
    unfolding u_def z_def y_def using unsigned_less [where ?'a = nat and w = w] by (intro byte_sums [OF _ _ masks bs_def]) simp_all
  obtain c0 c1 c2 c3 where c: "map (popcount 8) bs = [c0, c1, c2, c3]" "c0 \<le> 8" "c1 \<le> 8" "c2 \<le> 8" "c3 \<le> 8"
  proof -
    have "length (map (popcount 8) bs) = 4" by (simp add: b(1))
    then obtain c0 c1 c2 c3 where m: "map (popcount 8) bs = [c0, c1, c2, c3]" by (rule four)
    have "\<forall>x\<in>set (map (popcount 8) bs). x \<le> 8" using b(2) byte_steps(7) by (auto simp: all_bytes_def)
    with that [OF m] show ?thesis by (simp add: m)
  qed
  have "bval bs = unat w"
    using unsigned_less [where ?'a = nat and w = w] by (simp add: bs_def val_bytes_of)
  with pop_val [OF b(2)] have "popcount 32 (unat w) = c0 + c1 + c2 + c3" by (simp add: b(1) c(1))
  moreover have "unat (drop_bit 24 (u * 0x01010101)) = c0 + c1 + c2 + c3"
    using sum_of_four(1) [OF c(2-)] by (simp add: unat_drop unat_word_ariths u c(1) drop_bit_eq_div)
  moreover have "unat (let res = u + drop_bit 8 u in (res + drop_bit 16 res) AND 0xFF) = c0 + c1 + c2 + c3"
    using sum_of_four(2-) [OF c(2-)]
    by (simp add: Let_def unat_drop unat_word_ariths unat_and u c(1) drop_bit_eq_div and_255 del: val_simps)
  ultimately show ?thesis
    by (simp add: sw_hweight32_def Let_def y_def z_def u_def)
qed

text \<open>The counts of smaller words take an argument that has no higher bits.\<close>

lemma sw_hweight8_pop:
  assumes "unat w < 2 ^ 8"
  shows "unat (sw_hweight8 w) = popcount 8 (unat w)"
proof -
  have "unat (sw_hweight8 w) = bval (map (popcount 8) (bytes_of (Suc 0) (unat w)))"
    unfolding sw_hweight8_def Let_def
    by (rule byte_sums [where n = "Suc 0"]) (use assms in simp_all)
  then show ?thesis using assms by simp
qed

lemma sw_hweight16_pop:
  assumes "unat w < 2 ^ 16"
  shows "unat (sw_hweight16 w) = popcount 16 (unat w)"
proof -
  define bs where "bs = bytes_of 2 (unat w)"
  obtain a b where ab: "bs = [a, b]" "a < 256" "b < 256"
    using bytes_of_bytes [of 2 "unat w"] by (auto simp: bs_def numeral_2_eq_2 all_bytes_def)
  have masks: "unat (0x5555 :: u32) = brep 0x55 bs" "unat (0x3333 :: u32) = brep 0x33 bs" "unat (0x0F0F :: u32) = brep 0x0F bs"
    by (simp_all add: ab(1))
  define y where "y = w - (drop_bit 1 w AND 0x5555)"
  define z where "z = (y AND 0x3333) + (drop_bit 2 y AND 0x3333)"
  define u where "u = (z + drop_bit 4 z) AND 0x0F0F"
  have u: "unat u = popcount 8 a + 256 * popcount 8 b"
    unfolding u_def z_def y_def using assms by (subst byte_sums [OF _ _ masks bs_def]) (simp_all add: ab(1))
  have le: "popcount 8 a \<le> 8" "popcount 8 b \<le> 8" using byte_steps(7) ab by simp_all
  have "bval bs = unat w" using assms by (simp add: bs_def val_bytes_of)
  moreover have "all_bytes bs" by (simp add: bs_def bytes_of_bytes)
  ultimately have "popcount 16 (unat w) = popcount 8 a + popcount 8 b" using pop_val [of bs] by (simp add: ab(1))
  moreover have "(popcount 8 a + 256 * popcount 8 b + (popcount 8 a + 256 * popcount 8 b) div 256) mod 256 = popcount 8 a + popcount 8 b"
  proof -
    have "(popcount 8 a + 256 * popcount 8 b) div 256 = popcount 8 b" using le by simp
    moreover have "popcount 8 a + 256 * popcount 8 b + popcount 8 b = popcount 8 a + popcount 8 b + 256 * popcount 8 b" by simp
    ultimately show ?thesis using le by (simp only: mod_mult_self2) simp
  qed
  moreover have "sw_hweight16 w = (u + drop_bit 8 u) AND 0xFF" by (simp add: sw_hweight16_def Let_def y_def z_def u_def)
  ultimately show ?thesis using le by (simp add: unat_word_ariths unat_and unat_drop u drop_bit_eq_div and_255)
qed

lemma pop_card: "popcount n x = card {i. i < n \<and> bit x i}"
proof -
  have "popcount n x = card ({i. bit x i} \<inter> set [0..<n])"
    unfolding popcount_def by (rule distinct_length_filter) simp
  also have "{i. bit x i} \<inter> set [0..<n] = {i. i < n \<and> bit x i}" by auto
  finally show ?thesis .
qed

lemma pop_word: "popcount LENGTH('a) (unat w) = card {i. bit (w :: 'a::len word) i}"
  unfolding pop_card by (rule arg_cong [where f = card]) (auto simp: bit_unsigned_iff dest: bit_imp_le_length)

text \<open>
  The parallel population counts return the number of bits that are set, for every word and
  in both configurations.
\<close>

theorem hweight_counts_bits:
  "unat (sw_hweight64 fast w) = card {i. bit w i} \<and> unat (sw_hweight32 fast v) = card {i. bit v i}
    \<and> unat (sw_hweight16 (ucast (x :: u16))) = card {i. bit x i} \<and> unat (sw_hweight8 (ucast (y :: u8))) = card {i. bit y i}"
proof -
  have x: "unat (ucast x :: u32) = unat x" and y: "unat (ucast y :: u32) = unat y" by (simp_all add: unat_ucast_up)
  then have "unat (ucast x :: u32) < 2 ^ 16" "unat (ucast y :: u32) < 2 ^ 8"
    using unsigned_less [where ?'a = nat and w = x] unsigned_less [where ?'a = nat and w = y] by simp_all
  then show ?thesis
    using pop_word [of w] pop_word [of v] pop_word [of x] pop_word [of y]
    by (simp add: sw_hweight64_pop sw_hweight32_pop sw_hweight16_pop sw_hweight8_pop x y)
qed

end
