(* ===== verification/Bitmap.thy ===== *)
theory Bitmap
  imports FindBit Hweight
begin

text \<open>
  Bitmaps: \<open>lib/src/linux/bitmap.c\<close> and the inline functions of \<open>lib/include/linux/bitmap.h\<close>, on the
  path they take when the number of bits is not a small compile-time constant.  Arguments may
  name the same array.  The loops of the source over the words of a bitmap are \<^const>\<open>for_up\<close>, those
  with an early return \<^const>\<open>any_up\<close>.
\<close>

abbreviation last_mask :: "u32 \<Rightarrow> u64" where
  "last_mask bits \<equiv> BITMAP_LAST_WORD_MASK (ucast bits)"

section \<open>Filling and copying\<close>

primrec memset_words :: "addr \<Rightarrow> nat \<Rightarrow> u64 \<Rightarrow> nat \<Rightarrow> heap \<Rightarrow> heap option" where
  "memset_words p k w 0 h = Some h"
| "memset_words p k w (Suc n) h = do { h \<leftarrow> wr h p k w; memset_words p (k + 1) w n h }"

definition bitmap_zero :: "addr \<Rightarrow> u32 \<Rightarrow> heap \<Rightarrow> heap option" where
  "bitmap_zero dst nbits h = memset_words dst 0 0 (BITS_TO_LONGS nbits) h"

definition bitmap_fill :: "addr \<Rightarrow> u32 \<Rightarrow> heap \<Rightarrow> heap option" where
  "bitmap_fill dst nbits h = memset_words dst 0 (- 1) (BITS_TO_LONGS nbits) h"

definition bitmap_copy :: "addr \<Rightarrow> addr \<Rightarrow> u32 \<Rightarrow> heap \<Rightarrow> heap option" where
  "bitmap_copy dst src nbits h =
     for_up 0 (BITS_TO_LONGS nbits) (\<lambda>k h. do { w \<leftarrow> rd h src k; wr h dst k w }) h"

definition bitmap_copy_clear_tail :: "addr \<Rightarrow> addr \<Rightarrow> u32 \<Rightarrow> heap \<Rightarrow> heap option" where
  "bitmap_copy_clear_tail dst src nbits h =
     do {
       h \<leftarrow> bitmap_copy dst src nbits h;
       if unat nbits mod 64 \<noteq> 0
       then do {
         w \<leftarrow> rd h dst (unat nbits div 64);
         wr h dst (unat nbits div 64) (w AND last_mask nbits)
       }
       else Some h
     }"

section \<open>Comparisons\<close>

definition bitmap_equal :: "addr \<Rightarrow> addr \<Rightarrow> u32 \<Rightarrow> heap \<Rightarrow> bool option" where
  "bitmap_equal bitmap1 bitmap2 bits h =
     do {
       let lim = unat bits div 64;
       differ \<leftarrow> any_up 0 lim (\<lambda>k. do { v \<leftarrow> rd h bitmap1 k; w \<leftarrow> rd h bitmap2 k; Some (v \<noteq> w) });
       if differ then Some False
       else if unat bits mod 64 \<noteq> 0
       then do {
         v \<leftarrow> rd h bitmap1 lim;
         w \<leftarrow> rd h bitmap2 lim;
         Some ((v XOR w) AND last_mask bits = 0)
       }
       else Some True
     }"

definition bitmap_or_equal :: "addr \<Rightarrow> addr \<Rightarrow> addr \<Rightarrow> u32 \<Rightarrow> heap \<Rightarrow> bool option" where
  "bitmap_or_equal bitmap1 bitmap2 bitmap3 bits h =
     do {
       let lim = unat bits div 64;
       differ \<leftarrow> any_up 0 lim
         (\<lambda>k. do { u \<leftarrow> rd h bitmap1 k; v \<leftarrow> rd h bitmap2 k; w \<leftarrow> rd h bitmap3 k; Some ((u OR v) \<noteq> w) });
       if differ then Some False
       else if unat bits mod 64 = 0 then Some True
       else do {
         u \<leftarrow> rd h bitmap1 lim;
         v \<leftarrow> rd h bitmap2 lim;
         w \<leftarrow> rd h bitmap3 lim;
         Some (((u OR v) XOR w) AND last_mask bits = 0)
       }
     }"

definition bitmap_intersects :: "addr \<Rightarrow> addr \<Rightarrow> u32 \<Rightarrow> heap \<Rightarrow> bool option" where
  "bitmap_intersects bitmap1 bitmap2 bits h =
     do {
       let lim = unat bits div 64;
       found \<leftarrow> any_up 0 lim (\<lambda>k. do { v \<leftarrow> rd h bitmap1 k; w \<leftarrow> rd h bitmap2 k; Some (v AND w \<noteq> 0) });
       if found then Some True
       else if unat bits mod 64 \<noteq> 0
       then do {
         v \<leftarrow> rd h bitmap1 lim;
         w \<leftarrow> rd h bitmap2 lim;
         Some ((v AND w) AND last_mask bits \<noteq> 0)
       }
       else Some False
     }"

definition bitmap_subset :: "addr \<Rightarrow> addr \<Rightarrow> u32 \<Rightarrow> heap \<Rightarrow> bool option" where
  "bitmap_subset bitmap1 bitmap2 bits h =
     do {
       let lim = unat bits div 64;
       found \<leftarrow> any_up 0 lim (\<lambda>k. do { v \<leftarrow> rd h bitmap1 k; w \<leftarrow> rd h bitmap2 k; Some (v AND NOT w \<noteq> 0) });
       if found then Some False
       else if unat bits mod 64 \<noteq> 0
       then do {
         v \<leftarrow> rd h bitmap1 lim;
         w \<leftarrow> rd h bitmap2 lim;
         Some ((v AND NOT w) AND last_mask bits = 0)
       }
       else Some True
     }"

definition bitmap_empty :: "addr \<Rightarrow> u32 \<Rightarrow> heap \<Rightarrow> bool option" where
  "bitmap_empty src nbits h = map_option (\<lambda>r. r = ucast nbits) (raw_find_first_bit h src (ucast nbits))"

definition bitmap_full :: "addr \<Rightarrow> u32 \<Rightarrow> heap \<Rightarrow> bool option" where
  "bitmap_full src nbits h = map_option (\<lambda>r. r = ucast nbits) (raw_find_first_zero_bit h src (ucast nbits))"

text \<open>The weight is an \<open>int\<close> that grows by an \<open>unsigned long\<close>.\<close>

definition bitmap_weight :: "bool \<Rightarrow> addr \<Rightarrow> u32 \<Rightarrow> heap \<Rightarrow> int option" where
  "bitmap_weight fast_multiplier bitmap bits h =
     do {
       let lim = unat bits div 64;
       w \<leftarrow> for_up 0 lim (\<lambda>k w. do { v \<leftarrow> rd h bitmap k; Some (w + ucast (sw_hweight64 fast_multiplier v)) }) (0 :: 32 word);
       if unat bits mod 64 \<noteq> 0
       then do {
         v \<leftarrow> rd h bitmap lim;
         Some (sint (w + ucast (sw_hweight64 fast_multiplier (v AND last_mask bits))))
       }
       else Some (sint w)
     }"

section \<open>Operations on all bits\<close>

definition bitmap_complement :: "addr \<Rightarrow> addr \<Rightarrow> u32 \<Rightarrow> heap \<Rightarrow> heap option" where
  "bitmap_complement dst src bits h =
     for_up 0 (BITS_TO_LONGS bits) (\<lambda>k h. do { w \<leftarrow> rd h src k; wr h dst k (NOT w) }) h"

definition bitmap_or :: "addr \<Rightarrow> addr \<Rightarrow> addr \<Rightarrow> u32 \<Rightarrow> heap \<Rightarrow> heap option" where
  "bitmap_or dst bitmap1 bitmap2 bits h =
     for_up 0 (BITS_TO_LONGS bits) (\<lambda>k h. do { v \<leftarrow> rd h bitmap1 k; w \<leftarrow> rd h bitmap2 k; wr h dst k (v OR w) }) h"

definition bitmap_xor :: "addr \<Rightarrow> addr \<Rightarrow> addr \<Rightarrow> u32 \<Rightarrow> heap \<Rightarrow> heap option" where
  "bitmap_xor dst bitmap1 bitmap2 bits h =
     for_up 0 (BITS_TO_LONGS bits) (\<lambda>k h. do { v \<leftarrow> rd h bitmap1 k; w \<leftarrow> rd h bitmap2 k; wr h dst k (v XOR w) }) h"

definition bitmap_replace :: "addr \<Rightarrow> addr \<Rightarrow> addr \<Rightarrow> addr \<Rightarrow> u32 \<Rightarrow> heap \<Rightarrow> heap option" where
  "bitmap_replace dst old new maskp nbits h =
     for_up 0 (BITS_TO_LONGS nbits)
       (\<lambda>k h. do {
          u \<leftarrow> rd h old k;
          v \<leftarrow> rd h new k;
          m \<leftarrow> rd h maskp k;
          wr h dst k ((u AND NOT m) OR (v AND m))
        }) h"

text \<open>\<open>__bitmap_and\<close> and \<open>__bitmap_andnot\<close> also tell whether a bit of the result is set.\<close>

definition and_loop :: "(u64 \<Rightarrow> u64 \<Rightarrow> u64) \<Rightarrow> addr \<Rightarrow> addr \<Rightarrow> addr \<Rightarrow> u32 \<Rightarrow> heap \<Rightarrow> (bool \<times> heap) option" where
  "and_loop f dst bitmap1 bitmap2 bits h =
     do {
       let lim = unat bits div 64;
       (result, h) \<leftarrow> for_up 0 lim
         (\<lambda>k (result, h). do {
            v \<leftarrow> rd h bitmap1 k;
            w \<leftarrow> rd h bitmap2 k;
            h \<leftarrow> wr h dst k (f v w);
            Some (result OR f v w, h)
          }) (0, h);
       if unat bits mod 64 \<noteq> 0
       then do {
         v \<leftarrow> rd h bitmap1 lim;
         w \<leftarrow> rd h bitmap2 lim;
         h \<leftarrow> wr h dst lim (f v w AND last_mask bits);
         Some (result OR (f v w AND last_mask bits) \<noteq> 0, h)
       }
       else Some (result \<noteq> 0, h)
     }"

definition bitmap_and :: "addr \<Rightarrow> addr \<Rightarrow> addr \<Rightarrow> u32 \<Rightarrow> heap \<Rightarrow> (bool \<times> heap) option" where
  "bitmap_and = and_loop (\<lambda>v w. v AND w)"

definition bitmap_andnot :: "addr \<Rightarrow> addr \<Rightarrow> addr \<Rightarrow> u32 \<Rightarrow> heap \<Rightarrow> (bool \<times> heap) option" where
  "bitmap_andnot = and_loop (\<lambda>v w. v AND NOT w)"

section \<open>Shifts\<close>

text \<open>A \<open>memset\<close> before the start of the array writes outside of it.\<close>

definition bitmap_shift_right :: "addr \<Rightarrow> addr \<Rightarrow> u32 \<Rightarrow> u32 \<Rightarrow> heap \<Rightarrow> heap option" where
  "bitmap_shift_right dst src shift nbits h =
     do {
       let lim = BITS_TO_LONGS nbits;
       let off = unat shift div 64;
       let rem = unat shift mod 64;
       let lmask = last_mask nbits;
       h \<leftarrow> for_up 0 (lim - off)
         (\<lambda>k h. do {
            upper \<leftarrow>
              (if rem = 0 \<or> off + k + 1 \<ge> lim then Some 0
               else do {
                 u \<leftarrow> rd h src (off + k + 1);
                 Some (push_bit (64 - rem) (if off + k + 1 = lim - 1 then u AND lmask else u))
               });
            l \<leftarrow> rd h src (off + k);
            let lower = drop_bit rem (if off + k = lim - 1 then l AND lmask else l);
            wr h dst k (lower OR upper)
          }) h;
       if off \<noteq> 0 then (if off \<le> lim then memset_words dst (lim - off) 0 off h else None) else Some h
     }"

primrec shift_left_loop :: "addr \<Rightarrow> addr \<Rightarrow> nat \<Rightarrow> nat \<Rightarrow> nat \<Rightarrow> heap \<Rightarrow> heap option" where
  "shift_left_loop dst src off rem 0 h = Some h"
| "shift_left_loop dst src off rem (Suc k) h =
     do {
       lower \<leftarrow> (if rem \<noteq> 0 \<and> k > 0 then map_option (drop_bit (64 - rem)) (rd h src (k - 1)) else Some 0);
       u \<leftarrow> rd h src k;
       h \<leftarrow> wr h dst (k + off) (lower OR push_bit rem u);
       shift_left_loop dst src off rem k h
     }"

text \<open>The loop runs from index \<open>lim - off - 1\<close> down to 0; \<open>shift_left_loop\<close> counts its rounds.\<close>

definition bitmap_shift_left :: "addr \<Rightarrow> addr \<Rightarrow> u32 \<Rightarrow> u32 \<Rightarrow> heap \<Rightarrow> heap option" where
  "bitmap_shift_left dst src shift nbits h =
     do {
       let lim = BITS_TO_LONGS nbits;
       let off = unat shift div 64;
       let rem = unat shift mod 64;
       h \<leftarrow> shift_left_loop dst src off rem (lim - off) h;
       if off \<noteq> 0 then memset_words dst 0 0 off h else Some h
     }"

section \<open>Ranges\<close>

partial_function (option) range_loop ::
  "(u64 \<Rightarrow> u64 \<Rightarrow> u64) \<Rightarrow> addr \<Rightarrow> u32 \<Rightarrow> nat \<Rightarrow> int \<Rightarrow> int \<Rightarrow> u64 \<Rightarrow> heap \<Rightarrow> heap option" where
  "range_loop upd map0 size0 p len bits wmask h =
     (if len - bits \<ge> 0
      then do {
        w \<leftarrow> rd h map0 p;
        h \<leftarrow> wr h map0 p (upd w wmask);
        range_loop upd map0 size0 (p + 1) (len - bits) 64 (- 1) h
      }
      else if len \<noteq> 0
      then do {
        w \<leftarrow> rd h map0 p;
        wr h map0 p (upd w (wmask AND last_mask size0))
      }
      else Some h)"

declare range_loop.simps [simp del]
declare range_loop.simps [code]

definition bitmap_range :: "(u64 \<Rightarrow> u64 \<Rightarrow> u64) \<Rightarrow> addr \<Rightarrow> u32 \<Rightarrow> int \<Rightarrow> heap \<Rightarrow> heap option" where
  "bitmap_range upd map0 start len h =
     range_loop upd map0 (start + word_of_int len) (BIT_WORD start) len (64 - int (unat start mod 64))
       (BITMAP_FIRST_WORD_MASK (ucast start)) h"

definition bitmap_set :: "addr \<Rightarrow> u32 \<Rightarrow> int \<Rightarrow> heap \<Rightarrow> heap option" where
  "bitmap_set = bitmap_range (\<lambda>w m. w OR m)"

definition bitmap_clear :: "addr \<Rightarrow> u32 \<Rightarrow> int \<Rightarrow> heap \<Rightarrow> heap option" where
  "bitmap_clear = bitmap_range (\<lambda>w m. w AND NOT m)"

end
