(* ===== verification/BitmapWords.thy ===== *)
theory BitmapWords
  imports Bitmap
begin

text \<open>
  What the operations on bitmaps do to the bits of their arrays, for arguments that may name the
  same array: each lemma gives the bits of the destination below the number of bits, and that
  nothing else has changed.
\<close>

section \<open>Words of the heap\<close>

definition put :: "heap \<Rightarrow> addr \<Rightarrow> nat \<Rightarrow> u64 \<Rightarrow> heap" where
  "put h p k w = h(p \<mapsto> (the (h p))[k := w])"

definition same_shape :: "heap \<Rightarrow> heap \<Rightarrow> bool" where
  "same_shape h h' \<longleftrightarrow> (\<forall>q n. has h' q n \<longleftrightarrow> has h q n)"

lemma same_shape_refl [simp]: "same_shape h h"
  by (simp add: same_shape_def)

lemma same_shape_trans: "same_shape h1 h2 \<Longrightarrow> same_shape h2 h3 \<Longrightarrow> same_shape h1 h3"
  by (simp add: same_shape_def)

lemma same_shape_has: "same_shape h h' \<Longrightarrow> has h' q n \<longleftrightarrow> has h q n"
  by (simp add: same_shape_def)

lemma wr_has: "has h p n \<Longrightarrow> 64 * k < n \<Longrightarrow> wr h p k w = Some (put h p k w)"
  by (auto simp: has_def wr_def put_def)

lemma word_at_put:
  "has h p n \<Longrightarrow> 64 * k < n \<Longrightarrow> word_at (put h p k w) q j = (if q = p \<and> j = k then w else word_at h q j)"
  by (auto simp: has_def word_at_def put_def)

lemma same_shape_put: "has h p n \<Longrightarrow> same_shape h (put h p k w)"
  by (auto simp: same_shape_def has_def put_def)

lemma less_longs: "k < BITS_TO_LONGS n \<longleftrightarrow> 64 * k < unat n"
proof -
  have "k < (m + 63) div 64 \<longleftrightarrow> 64 * k < m" for m :: nat by linarith
  then show ?thesis by (simp add: BITS_TO_LONGS_def)
qed

text \<open>The words of \<open>dst\<close> in a range of indices have new values, and nothing else has changed.\<close>

definition changes :: "addr \<Rightarrow> nat set \<Rightarrow> (nat \<Rightarrow> u64) \<Rightarrow> heap \<Rightarrow> heap \<Rightarrow> bool" where
  "changes dst K g h h' \<longleftrightarrow> same_shape h h'
     \<and> (\<forall>q j. word_at h' q j = (if q = dst \<and> j \<in> K then g j else word_at h q j))"

lemma changes_refl: "changes dst {} g h h"
  by (simp add: changes_def)

lemma changes_word: "changes dst K g h h' \<Longrightarrow> word_at h' q j = (if q = dst \<and> j \<in> K then g j else word_at h q j)"
  by (simp add: changes_def)

lemma changes_shape: "changes dst K g h h' \<Longrightarrow> same_shape h h'"
  by (simp add: changes_def)

lemma changes_put:
  assumes "changes dst K g h h1" and "has h dst n" and "64 * k < n" and "w = g k"
  shows "changes dst (insert k K) g h (put h1 dst k w)"
proof -
  have "has h1 dst n" using assms(1,2) by (simp add: changes_def same_shape_def)
  with assms(1,3,4) show ?thesis
    unfolding changes_def by (auto simp: word_at_put intro: same_shape_trans [OF _ same_shape_put])
qed

lemma changes_trans:
  assumes "changes dst K g h h1" and "changes dst L f h1 h2"
  shows "changes dst (K \<union> L) (\<lambda>j. if j \<in> L then f j else g j) h h2"
  using assms by (auto simp: changes_def intro: same_shape_trans)

section \<open>Loops\<close>

lemma for_up_inv:
  assumes "P k s" and "k \<le> lim" and "\<And>j t. k \<le> j \<Longrightarrow> j < lim \<Longrightarrow> P j t \<Longrightarrow> \<exists>t'. body j t = Some t' \<and> P (Suc j) t'"
  shows "\<exists>s'. for_up k lim body s = Some s' \<and> P lim s'"
  using assms
proof (induction "lim - k" arbitrary: k s)
  case 0
  then show ?case by (subst for_up.simps) simp
next
  case (Suc d)
  from Suc.hyps(2) have k: "k < lim" by simp
  with Suc.prems obtain s' where s': "body k s = Some s'" "P (Suc k) s'" by blast
  then have "\<exists>t. for_up (Suc k) lim body s' = Some t \<and> P lim t"
    using Suc.hyps(2) k Suc.prems(3) by (intro Suc.hyps(1)) auto
  with k s' show ?case by (subst for_up.simps) simp
qed

lemma any_up_spec:
  assumes "\<And>j. k \<le> j \<Longrightarrow> j < lim \<Longrightarrow> test j = Some (P j)"
  shows "any_up k lim test = Some (\<exists>j. k \<le> j \<and> j < lim \<and> P j)"
  using assms
proof (induction "lim - k" arbitrary: k)
  case 0
  then show ?case by (subst any_up.simps) auto
next
  case (Suc d)
  from Suc.hyps(2) have k: "k < lim" by simp
  have "any_up (Suc k) lim test = Some (\<exists>j. Suc k \<le> j \<and> j < lim \<and> P j)"
    using Suc.hyps(2) Suc.prems by (intro Suc.hyps(1)) auto
  moreover have "(\<exists>j. k \<le> j \<and> j < lim \<and> P j) \<longleftrightarrow> P k \<or> (\<exists>j. Suc k \<le> j \<and> j < lim \<and> P j)"
    using k by (metis le_eq_less_or_eq Suc_le_eq less_imp_le)
  ultimately show ?case
    using k Suc.prems [of k] by (subst any_up.simps) auto
qed

text \<open>
  A loop that writes the words of \<open>dst\<close> in ascending order and reads only words at or behind
  the one it writes, so that \<open>dst\<close> may be one of the arrays it reads.
\<close>

lemma for_up_words:
  assumes "has h dst n" and "64 * lim < n + 64"
    and body: "\<And>k h1. k < lim \<Longrightarrow> same_shape h h1 \<Longrightarrow> body k h1 = Some (put h1 dst k (f k (word_at h1)))"
    and local: "\<And>k v w. k < lim \<Longrightarrow> (\<And>q j. k \<le> j \<Longrightarrow> v q j = w q j) \<Longrightarrow> f k v = f k w"
  shows "\<exists>h'. for_up 0 lim body h = Some h' \<and> changes dst {..<lim} (\<lambda>k. f k (word_at h)) h h'"
proof (rule for_up_inv [where P = "\<lambda>k h1. changes dst {..<k} (\<lambda>k. f k (word_at h)) h h1"])
  fix k h1
  assume k: "k < lim" and h1: "changes dst {..<k} (\<lambda>k. f k (word_at h)) h h1"
  have "f k (word_at h1) = f k (word_at h)"
    using k by (rule local) (simp add: changes_word [OF h1])
  moreover have "64 * k < n" using k assms(2) by linarith
  ultimately show "\<exists>h2. body k h1 = Some h2 \<and> changes dst {..<Suc k} (\<lambda>k. f k (word_at h)) h h2"
    using body [OF k changes_shape [OF h1]] changes_put [OF h1 assms(1)] by (simp add: lessThan_Suc)
qed (simp_all add: changes_refl)

lemma memset_words_spec:
  assumes "has h p m" and "64 * (k + n) < m + 64"
  shows "\<exists>h'. memset_words p k w n h = Some h' \<and> changes p {k..<k + n} (\<lambda>_. w) h h'"
  using assms
proof (induction n arbitrary: k h)
  case 0
  then show ?case by (simp add: changes_refl)
next
  case (Suc n)
  have k: "64 * k < m" using Suc.prems(2) by simp
  have c: "changes p {k} (\<lambda>_. w) h (put h p k w)"
    by (rule changes_put [OF changes_refl Suc.prems(1) k]) simp
  then have "has (put h p k w) p m" using Suc.prems(1) by (simp add: changes_def same_shape_def)
  with Suc.IH [of "put h p k w" "Suc k"] Suc.prems(2) obtain h' where
    h': "memset_words p (Suc k) w n (put h p k w) = Some h'" "changes p {Suc k..<Suc k + n} (\<lambda>_. w) (put h p k w) h'"
    by auto
  have "{k} \<union> {Suc k..<Suc k + n} = {k..<k + Suc n}" by auto
  with changes_trans [OF c h'(2)] h'(1) wr_has [OF Suc.prems(1) k] show ?case
    by (simp add: if_distrib cong: if_cong)
qed

section \<open>Bits\<close>

text \<open>The bits of \<open>dst\<close> below \<open>n\<close> are those of \<open>P\<close>; the other arrays have not changed.\<close>

definition becomes :: "addr \<Rightarrow> nat \<Rightarrow> (nat \<Rightarrow> bool) \<Rightarrow> heap \<Rightarrow> heap \<Rightarrow> bool" where
  "becomes dst n P h h' \<longleftrightarrow> same_shape h h'
     \<and> (\<forall>q i. q \<noteq> dst \<longrightarrow> is_set h' q i = is_set h q i) \<and> (\<forall>i<n. is_set h' dst i = P i)"

lemma changes_becomes:
  assumes "changes dst K g h h'" and "\<And>i. i < n \<Longrightarrow> (if i div 64 \<in> K then bit (g (i div 64)) (i mod 64) else is_set h dst i) = P i"
  shows "becomes dst n P h h'"
proof -
  have "is_set h' q i = (if q = dst \<and> i div 64 \<in> K then bit (g (i div 64)) (i mod 64) else is_set h q i)" for q i
    by (simp add: is_set_def changes_word [OF assms(1)])
  with assms(2) changes_shape [OF assms(1)] show ?thesis
    by (simp add: becomes_def)
qed

lemma div_less_longs: "i < unat n \<Longrightarrow> i div 64 < BITS_TO_LONGS n"
  by (simp add: less_longs)

lemma longs_bound: "64 * BITS_TO_LONGS n < unat n + 64"
  by (simp add: BITS_TO_LONGS_def)

lemma for_up_becomes:
  assumes "has h dst (unat n)"
    and "\<And>k h1. 64 * k < unat n \<Longrightarrow> same_shape h h1 \<Longrightarrow> body k h1 = Some (put h1 dst k (f (\<lambda>q. word_at h1 q k)))"
    and "\<And>i. i < unat n \<Longrightarrow> bit (f (\<lambda>q. word_at h q (i div 64))) (i mod 64) = P i"
  shows "\<exists>h'. for_up 0 (BITS_TO_LONGS n) body h = Some h' \<and> becomes dst (unat n) P h h'"
proof -
  have "\<exists>h'. for_up 0 (BITS_TO_LONGS n) body h = Some h'
      \<and> changes dst {..<BITS_TO_LONGS n} (\<lambda>k. f (\<lambda>q. word_at h q k)) h h'"
    using assms(1) longs_bound
    by (rule for_up_words) (simp_all add: assms(2) less_longs cong: arg_cong [where f = f])
  then obtain h' where h': "for_up 0 (BITS_TO_LONGS n) body h = Some h'"
    "changes dst {..<BITS_TO_LONGS n} (\<lambda>k. f (\<lambda>q. word_at h q k)) h h'" by blast
  have "becomes dst (unat n) P h h'"
    using h'(2) by (rule changes_becomes) (simp add: div_less_longs assms(3))
  with h'(1) show ?thesis by blast
qed

text \<open>A read in the course of a loop.\<close>

lemma rd_shape: "same_shape h h1 \<Longrightarrow> has h p n \<Longrightarrow> 64 * k < n \<Longrightarrow> rd h1 p k = Some (word_at h1 p k)"
  by (simp add: rd_has same_shape_has)

lemma wr_shape: "same_shape h h1 \<Longrightarrow> has h p n \<Longrightarrow> 64 * k < n \<Longrightarrow> wr h1 p k w = Some (put h1 p k w)"
  by (simp add: wr_has same_shape_has)

lemmas loop_rules = rd_shape wr_shape

lemma bitmap_zero_spec:
  assumes "has h dst (unat n)"
  shows "\<exists>h'. bitmap_zero dst n h = Some h' \<and> becomes dst (unat n) (\<lambda>_. False) h h'"
proof -
  from memset_words_spec [OF assms, of 0 "BITS_TO_LONGS n" 0] longs_bound [of n]
  obtain h' where h': "memset_words dst 0 0 (BITS_TO_LONGS n) h = Some h'"
    "changes dst {0..<BITS_TO_LONGS n} (\<lambda>_. 0) h h'" by auto
  have "becomes dst (unat n) (\<lambda>_. False) h h'"
    using h'(2) by (rule changes_becomes) (simp add: div_less_longs)
  with h'(1) show ?thesis by (simp add: bitmap_zero_def)
qed

lemma bitmap_fill_spec:
  assumes "has h dst (unat n)"
  shows "\<exists>h'. bitmap_fill dst n h = Some h' \<and> becomes dst (unat n) (\<lambda>_. True) h h'"
proof -
  from memset_words_spec [OF assms, of 0 "BITS_TO_LONGS n" "- 1"] longs_bound [of n]
  obtain h' where h': "memset_words dst 0 (- 1) (BITS_TO_LONGS n) h = Some h'"
    "changes dst {0..<BITS_TO_LONGS n} (\<lambda>_. - 1) h h'" by auto
  have "becomes dst (unat n) (\<lambda>_. True) h h'"
    using h'(2) by (rule changes_becomes) (simp add: div_less_longs)
  with h'(1) show ?thesis by (simp add: bitmap_fill_def)
qed

lemma bitmap_copy_spec:
  assumes "has h dst (unat n)" and "has h src (unat n)"
  shows "\<exists>h'. bitmap_copy dst src n h = Some h' \<and> becomes dst (unat n) (is_set h src) h h'"
  unfolding bitmap_copy_def
  by (rule for_up_becomes [where f = "\<lambda>w. w src", OF assms(1)])
    (simp_all add: is_set_def rd_shape [OF _ assms(2)] wr_shape [OF _ assms(1)])

lemma bitmap_complement_spec:
  assumes "has h dst (unat n)" and "has h src (unat n)"
  shows "\<exists>h'. bitmap_complement dst src n h = Some h' \<and> becomes dst (unat n) (\<lambda>i. \<not> is_set h src i) h h'"
  unfolding bitmap_complement_def
  by (rule for_up_becomes [where f = "\<lambda>w. NOT (w src)", OF assms(1)])
    (simp_all add: is_set_def bit_not_iff rd_shape [OF _ assms(2)] wr_shape [OF _ assms(1)])

lemma bitmap_or_spec:
  assumes "has h dst (unat n)" and "has h p (unat n)" and "has h q (unat n)"
  shows "\<exists>h'. bitmap_or dst p q n h = Some h' \<and> becomes dst (unat n) (\<lambda>i. is_set h p i \<or> is_set h q i) h h'"
  unfolding bitmap_or_def
  by (rule for_up_becomes [where f = "\<lambda>w. w p OR w q", OF assms(1)])
    (simp_all add: is_set_def bit_or_iff rd_shape [OF _ assms(2)] rd_shape [OF _ assms(3)] wr_shape [OF _ assms(1)])

lemma bitmap_xor_spec:
  assumes "has h dst (unat n)" and "has h p (unat n)" and "has h q (unat n)"
  shows "\<exists>h'. bitmap_xor dst p q n h = Some h' \<and> becomes dst (unat n) (\<lambda>i. is_set h p i \<noteq> is_set h q i) h h'"
  unfolding bitmap_xor_def
  by (rule for_up_becomes [where f = "\<lambda>w. w p XOR w q", OF assms(1)])
    (simp_all add: is_set_def bit_xor_iff rd_shape [OF _ assms(2)] rd_shape [OF _ assms(3)] wr_shape [OF _ assms(1)])

lemma bitmap_replace_spec:
  assumes "has h dst (unat n)" and "has h old (unat n)" and "has h new (unat n)" and "has h m (unat n)"
  shows "\<exists>h'. bitmap_replace dst old new m n h = Some h'
    \<and> becomes dst (unat n) (\<lambda>i. if is_set h m i then is_set h new i else is_set h old i) h h'"
  unfolding bitmap_replace_def
  by (rule for_up_becomes [where f = "\<lambda>w. (w old AND NOT (w m)) OR (w new AND w m)", OF assms(1)])
    (simp_all add: is_set_def bit_simps rd_shape [OF _ assms(2)] rd_shape [OF _ assms(3)] rd_shape [OF _ assms(4)]
      wr_shape [OF _ assms(1)])

section \<open>Comparisons\<close>

lemma unat_ucast_32_64 [simp]: "unat (ucast (n :: u32) :: u64) = unat n"
  by (rule unat_ucast_up) simp

lemma bit_last_mask: "j < 64 \<Longrightarrow> bit (last_mask n) j \<longleftrightarrow> unat n mod 64 = 0 \<or> j < unat n mod 64"
  by (simp add: bit_last_word_mask)

lemma word_ne_0: "(w :: u64) \<noteq> 0 \<longleftrightarrow> (\<exists>j<64. bit w j)"
  by (auto simp: bit_eq_iff dest: bit_imp_le_length)

text \<open>A bit below \<open>n\<close> is in one of the full words or in the masked last one.\<close>

lemma exists_bit:
  assumes "\<And>i. i < unat n \<Longrightarrow> bit (w (i div 64)) (i mod 64) = P i"
  shows "(\<exists>i<unat n. P i) \<longleftrightarrow>
    (\<exists>k<unat n div 64. w k \<noteq> 0) \<or> unat n mod 64 \<noteq> 0 \<and> w (unat n div 64) AND last_mask n \<noteq> 0" (is "?l \<longleftrightarrow> ?a \<or> ?b")
proof
  assume ?l
  then obtain i where i: "i < unat n" "P i" by blast
  with assms have b: "bit (w (i div 64)) (i mod 64)" by simp
  show "?a \<or> ?b"
  proof (cases "i div 64 < unat n div 64")
    case True
    moreover from b have "w (i div 64) \<noteq> 0" by (auto simp: word_ne_0 intro!: exI [of _ "i mod 64"])
    ultimately show ?thesis by blast
  next
    case False
    with i(1) have "i div 64 = unat n div 64" by (simp add: div_le_mono le_antisym not_less)
    moreover from this i(1) have "i mod 64 < unat n mod 64"
      by (metis div_mult_mod_eq nat_add_left_cancel_less)
    ultimately have ?b using b
      by (auto simp: word_ne_0 bit_and_iff bit_last_mask intro!: exI [of _ "i mod 64"])
    then show ?thesis ..
  qed
next
  have full: "64 * k + j < unat n" if "k < unat n div 64" "j < 64" for k j
    using that mult_div_mod_eq [of 64 "unat n"] by linarith
  assume "?a \<or> ?b"
  then obtain k j where kj: "bit (w k) j" "j < 64" "64 * k + j < unat n"
  proof
    assume ?a
    then show ?thesis using that full by (auto simp: word_ne_0)
  next
    assume ?b
    then obtain j where "j < 64" "bit (w (unat n div 64)) j" "j < unat n mod 64"
      by (auto simp: word_ne_0 bit_and_iff bit_last_mask)
    moreover from this have "64 * (unat n div 64) + j < unat n"
      using mult_div_mod_eq [of 64 "unat n"] by linarith
    ultimately show ?thesis using that by blast
  qed
  with assms [OF kj(3)] show ?l by (intro exI [of _ "64 * k + j"]) simp
qed

lemma full_word: "k < unat n div 64 \<Longrightarrow> 64 * k < unat (n :: u32)"
  using mult_div_mod_eq [of 64 "unat n"] by linarith

lemma part_word: "unat n mod 64 \<noteq> 0 \<Longrightarrow> 64 * (unat n div 64) < unat (n :: u32)"
  using mult_div_mod_eq [of 64 "unat n"] by linarith

lemma xor_eq_0_iff: "(v :: u64) XOR w = 0 \<longleftrightarrow> v = w"
  by (auto simp: bit_eq_iff bit_xor_iff)

lemma any_full_word:
  fixes n :: u32
  assumes "\<And>k. 64 * k < unat n \<Longrightarrow> test k = Some (w k \<noteq> (0 :: u64))"
  shows "any_up 0 (unat n div 64) test = Some (\<exists>k<unat n div 64. w k \<noteq> 0)"
  using any_up_spec [of 0 "unat n div 64" test "\<lambda>k. w k \<noteq> 0"] assms full_word [of _ n] by simp

lemma bitmap_equal_spec:
  assumes "has h p (unat n)" and "has h q (unat n)"
  shows "bitmap_equal p q n h = Some (\<forall>i<unat n. is_set h p i = is_set h q i)"
proof -
  let ?w = "\<lambda>k. word_at h p k XOR word_at h q k"
  note rd = rd_has [OF assms(1)] rd_has [OF assms(2)]
  have scan: "any_up 0 (unat n div 64) (\<lambda>k. do { v \<leftarrow> rd h p k; w \<leftarrow> rd h q k; Some (v \<noteq> w) })
      = Some (\<exists>k<unat n div 64. ?w k \<noteq> 0)"
    by (rule any_full_word) (simp add: rd xor_eq_0_iff)
  have found: "(\<exists>i<unat n. is_set h p i \<noteq> is_set h q i) \<longleftrightarrow>
      (\<exists>k<unat n div 64. ?w k \<noteq> 0) \<or> unat n mod 64 \<noteq> 0 \<and> ?w (unat n div 64) AND last_mask n \<noteq> 0"
    by (rule exists_bit) (simp add: is_set_def bit_xor_iff)
  have all: "(\<forall>i<unat n. is_set h p i = is_set h q i) \<longleftrightarrow> \<not> (\<exists>i<unat n. is_set h p i \<noteq> is_set h q i)" by auto
  show ?thesis
    unfolding bitmap_equal_def Let_def scan all found
    by (cases "unat n mod 64 = 0") (simp_all add: rd part_word)
qed

lemma bitmap_or_equal_spec:
  assumes "has h p (unat n)" and "has h q (unat n)" and "has h r (unat n)"
  shows "bitmap_or_equal p q r n h = Some (\<forall>i<unat n. (is_set h p i \<or> is_set h q i) = is_set h r i)"
proof -
  let ?w = "\<lambda>k. (word_at h p k OR word_at h q k) XOR word_at h r k"
  note rd = rd_has [OF assms(1)] rd_has [OF assms(2)] rd_has [OF assms(3)]
  have scan: "any_up 0 (unat n div 64) (\<lambda>k. do { u \<leftarrow> rd h p k; v \<leftarrow> rd h q k; w \<leftarrow> rd h r k; Some ((u OR v) \<noteq> w) })
      = Some (\<exists>k<unat n div 64. ?w k \<noteq> 0)"
    by (rule any_full_word) (simp add: rd xor_eq_0_iff)
  have found: "(\<exists>i<unat n. (is_set h p i \<or> is_set h q i) \<noteq> is_set h r i) \<longleftrightarrow>
      (\<exists>k<unat n div 64. ?w k \<noteq> 0) \<or> unat n mod 64 \<noteq> 0 \<and> ?w (unat n div 64) AND last_mask n \<noteq> 0"
    by (rule exists_bit) (simp add: is_set_def bit_xor_iff bit_or_iff)
  have all: "(\<forall>i<unat n. (is_set h p i \<or> is_set h q i) = is_set h r i) \<longleftrightarrow>
      \<not> (\<exists>i<unat n. (is_set h p i \<or> is_set h q i) \<noteq> is_set h r i)" by auto
  show ?thesis
    unfolding bitmap_or_equal_def Let_def scan all found
    by (cases "unat n mod 64 = 0") (simp_all add: rd part_word)
qed

lemma bitmap_intersects_spec:
  assumes "has h p (unat n)" and "has h q (unat n)"
  shows "bitmap_intersects p q n h = Some (\<exists>i<unat n. is_set h p i \<and> is_set h q i)"
proof -
  let ?w = "\<lambda>k. word_at h p k AND word_at h q k"
  note rd = rd_has [OF assms(1)] rd_has [OF assms(2)]
  have scan: "any_up 0 (unat n div 64) (\<lambda>k. do { v \<leftarrow> rd h p k; w \<leftarrow> rd h q k; Some (v AND w \<noteq> 0) })
      = Some (\<exists>k<unat n div 64. ?w k \<noteq> 0)"
    by (rule any_full_word) (simp add: rd)
  have found: "(\<exists>i<unat n. is_set h p i \<and> is_set h q i) \<longleftrightarrow>
      (\<exists>k<unat n div 64. ?w k \<noteq> 0) \<or> unat n mod 64 \<noteq> 0 \<and> ?w (unat n div 64) AND last_mask n \<noteq> 0"
    by (rule exists_bit) (simp add: is_set_def bit_and_iff)
  show ?thesis
    unfolding bitmap_intersects_def Let_def scan found
    by (cases "unat n mod 64 = 0") (auto simp: rd part_word)
qed

lemma bitmap_subset_spec:
  assumes "has h p (unat n)" and "has h q (unat n)"
  shows "bitmap_subset p q n h = Some (\<forall>i<unat n. is_set h p i \<longrightarrow> is_set h q i)"
proof -
  let ?w = "\<lambda>k. word_at h p k AND NOT (word_at h q k)"
  note rd = rd_has [OF assms(1)] rd_has [OF assms(2)]
  have scan: "any_up 0 (unat n div 64) (\<lambda>k. do { v \<leftarrow> rd h p k; w \<leftarrow> rd h q k; Some (v AND NOT w \<noteq> 0) })
      = Some (\<exists>k<unat n div 64. ?w k \<noteq> 0)"
    by (rule any_full_word) (simp add: rd)
  have found: "(\<exists>i<unat n. is_set h p i \<and> \<not> is_set h q i) \<longleftrightarrow>
      (\<exists>k<unat n div 64. ?w k \<noteq> 0) \<or> unat n mod 64 \<noteq> 0 \<and> ?w (unat n div 64) AND last_mask n \<noteq> 0"
    by (rule exists_bit) (simp add: is_set_def bit_and_iff bit_not_iff)
  have all: "(\<forall>i<unat n. is_set h p i \<longrightarrow> is_set h q i) \<longleftrightarrow> \<not> (\<exists>i<unat n. is_set h p i \<and> \<not> is_set h q i)" by auto
  show ?thesis
    unfolding bitmap_subset_def Let_def scan all found
    by (cases "unat n mod 64 = 0") (simp_all add: rd part_word)
qed

lemma next_bit_unat:
  fixes n :: u32
  shows "unat (word_of_nat (next_bit P s (unat n)) :: u64) = next_bit P s (unat n)"
    and "(word_of_nat (next_bit P s (unat n)) :: u64) = ucast n \<longleftrightarrow> (\<forall>i. s \<le> i \<longrightarrow> i < unat n \<longrightarrow> \<not> P i)"
proof -
  have le: "next_bit P s (unat n) \<le> unat n" by (rule next_bit_le)
  moreover have "unat n < 2 ^ 32" using unsigned_less [where ?'a = nat and w = n] by simp
  ultimately show u: "unat (word_of_nat (next_bit P s (unat n)) :: u64) = next_bit P s (unat n)"
    by (simp only: unat_of_nat) simp
  have "(word_of_nat (next_bit P s (unat n)) :: u64) = ucast n \<longleftrightarrow> next_bit P s (unat n) = unat n"
    using u by (metis unat_ucast_32_64 unsigned_word_eqI)
  then show "(word_of_nat (next_bit P s (unat n)) :: u64) = ucast n \<longleftrightarrow> (\<forall>i. s \<le> i \<longrightarrow> i < unat n \<longrightarrow> \<not> P i)"
    using next_bit_less_iff [of P s "unat n"] le by (metis le_neq_implies_less less_irrefl)
qed

lemma bits_below_64: "unat (ucast (n :: u32) :: u64) + 64 \<le> 2 ^ 64"
  using unsigned_less [where ?'a = nat and w = n] by simp

lemma bitmap_empty_spec:
  "has h p (unat n) \<Longrightarrow> bitmap_empty p n h = Some (\<forall>i<unat n. \<not> is_set h p i)"
  by (simp add: bitmap_empty_def find_first_bit_spec [OF _ bits_below_64] next_bit_unat)

lemma bitmap_full_spec:
  "has h p (unat n) \<Longrightarrow> bitmap_full p n h = Some (\<forall>i<unat n. is_set h p i)"
  by (simp add: bitmap_full_def find_first_zero_bit_spec [OF _ bits_below_64] next_bit_unat)

section \<open>Conjunction and difference\<close>

lemma or_ne_0: "(v :: u64) OR w \<noteq> 0 \<longleftrightarrow> v \<noteq> 0 \<or> w \<noteq> 0"
  by (auto simp: word_ne_0 bit_or_iff)

lemma and_loop_full:
  fixes f :: "u64 \<Rightarrow> u64 \<Rightarrow> u64"
  assumes "has h dst (unat n)" and "has h p (unat n)" and "has h q (unat n)"
  defines "g \<equiv> \<lambda>k. f (word_at h p k) (word_at h q k)"
  shows "\<exists>result h'. for_up 0 (unat n div 64)
      (\<lambda>k (result, h). do {
         v \<leftarrow> rd h p k;
         w \<leftarrow> rd h q k;
         h \<leftarrow> wr h dst k (f v w);
         Some (result OR f v w, h)
       }) (0, h) = Some (result, h')
    \<and> changes dst {..<unat n div 64} g h h' \<and> (result \<noteq> 0 \<longleftrightarrow> (\<exists>k<unat n div 64. g k \<noteq> 0))"
proof -
  let ?P = "\<lambda>k (result :: u64, h1). changes dst {..<k} g h h1 \<and> (result \<noteq> 0 \<longleftrightarrow> (\<exists>j<k. g j \<noteq> 0))"
  let ?body = "\<lambda>k (result, h). do { v \<leftarrow> rd h p k; w \<leftarrow> rd h q k; h \<leftarrow> wr h dst k (f v w); Some (result OR f v w, h) }"
  have "\<exists>s'. for_up 0 (unat n div 64) ?body (0, h) = Some s' \<and> ?P (unat n div 64) s'"
  proof (rule for_up_inv [where P = ?P])
    fix k and s :: "u64 \<times> heap" assume "k < unat n div 64" and s: "?P k s"
    then have k: "64 * k < unat n" by (simp add: full_word)
    obtain r h1 where s1: "s = (r, h1)" "changes dst {..<k} g h h1" "r \<noteq> 0 \<longleftrightarrow> (\<exists>j<k. g j \<noteq> 0)"
      using s by (cases s) auto
    have same: "word_at h1 a k = word_at h a k" for a by (simp add: changes_word [OF s1(2)])
    note shape = changes_shape [OF s1(2)]
    have "?body k s = Some (r OR g k, put h1 dst k (g k))"
      by (simp add: s1(1) rd_shape [OF shape assms(2) k] rd_shape [OF shape assms(3) k] wr_shape [OF shape assms(1) k] same g_def)
    moreover have "changes dst {..<Suc k} g h (put h1 dst k (g k))"
      unfolding lessThan_Suc by (rule changes_put [OF s1(2) assms(1) k]) simp
    moreover have "r OR g k \<noteq> 0 \<longleftrightarrow> (\<exists>j<Suc k. g j \<noteq> 0)"
      unfolding or_ne_0 s1(3) by (auto simp: less_Suc_eq)
    ultimately show "\<exists>t. ?body k s = Some t \<and> ?P (Suc k) t" by simp
  qed (simp_all add: changes_refl)
  then show ?thesis by fast
qed

lemma and_loop_spec:
  assumes "has h dst (unat n)" and "has h p (unat n)" and "has h q (unat n)"
    and P: "\<And>i. i < unat n \<Longrightarrow> bit (f (word_at h p (i div 64)) (word_at h q (i div 64))) (i mod 64) = P i"
  shows "\<exists>h'. and_loop f dst p q n h = Some (\<exists>i<unat n. P i, h') \<and> becomes dst (unat n) P h h'"
proof -
  let ?g = "\<lambda>k. f (word_at h p k) (word_at h q k)" and ?lim = "unat n div 64"
  obtain r h1 where loop: "for_up 0 ?lim
      (\<lambda>k (result, h). do { v \<leftarrow> rd h p k; w \<leftarrow> rd h q k; h \<leftarrow> wr h dst k (f v w); Some (result OR f v w, h) }) (0, h) = Some (r, h1)"
      "changes dst {..<?lim} ?g h h1" "r \<noteq> 0 \<longleftrightarrow> (\<exists>k<?lim. ?g k \<noteq> 0)"
    using and_loop_full [OF assms(1-3)] by blast
  have found: "(\<exists>i<unat n. P i) \<longleftrightarrow> (\<exists>k<?lim. ?g k \<noteq> 0) \<or> unat n mod 64 \<noteq> 0 \<and> ?g ?lim AND last_mask n \<noteq> 0"
    by (rule exists_bit) (rule P)
  show ?thesis
  proof (cases "unat n mod 64 = 0")
    case True
    then have "i div 64 < ?lim" if "i < unat n" for i
      using that True mult_div_mod_eq [of 64 "unat n"] by (simp add: less_mult_imp_div_less)
    then have "becomes dst (unat n) P h h1"
      by (intro changes_becomes [OF loop(2)]) (simp add: P)
    with True loop found show ?thesis by (simp add: and_loop_def)
  next
    case False
    note k = part_word [OF False] and shape = changes_shape [OF loop(2)]
    let ?l = "?g ?lim AND last_mask n"
    have same: "word_at h1 a ?lim = word_at h a ?lim" for a by (simp add: changes_word [OF loop(2)])
    have "changes dst {..<?lim} (\<lambda>j. if j = ?lim then ?l else ?g j) h h1"
      using loop(2) by (simp add: changes_def)
    from changes_put [OF this assms(1) k] have ch: "changes dst (insert ?lim {..<?lim}) (\<lambda>j. if j = ?lim then ?l else ?g j) h (put h1 dst ?lim ?l)"
      by simp
    have "becomes dst (unat n) P h (put h1 dst ?lim ?l)"
    proof (rule changes_becomes [OF ch])
      fix i assume i: "i < unat n"
      then have "i div 64 \<le> ?lim" by (simp add: div_le_mono)
      moreover have "i mod 64 < unat n mod 64" if "i div 64 = ?lim"
        using that i by (metis div_mult_mod_eq nat_add_left_cancel_less)
      ultimately show "(if i div 64 \<in> insert ?lim {..<?lim} then bit (if i div 64 = ?lim then ?l else ?g (i div 64)) (i mod 64) else is_set h dst i) = P i"
        using P [OF i] by (auto simp: bit_and_iff bit_last_mask)
    qed
    moreover have "(r OR ?l \<noteq> 0) = (\<exists>i<unat n. P i)"
      unfolding or_ne_0 loop(3) found using False by simp
    ultimately show ?thesis
      using False by (simp add: and_loop_def Let_def loop(1) rd_shape [OF shape assms(2) k] rd_shape [OF shape assms(3) k]
          wr_shape [OF shape assms(1) k] same)
  qed
qed

lemma bitmap_and_spec:
  assumes "has h dst (unat n)" and "has h p (unat n)" and "has h q (unat n)"
  shows "\<exists>h'. bitmap_and dst p q n h = Some (\<exists>i<unat n. is_set h p i \<and> is_set h q i, h')
    \<and> becomes dst (unat n) (\<lambda>i. is_set h p i \<and> is_set h q i) h h'"
  unfolding bitmap_and_def by (rule and_loop_spec [OF assms]) (simp add: is_set_def bit_and_iff)

lemma bitmap_andnot_spec:
  assumes "has h dst (unat n)" and "has h p (unat n)" and "has h q (unat n)"
  shows "\<exists>h'. bitmap_andnot dst p q n h = Some (\<exists>i<unat n. is_set h p i \<and> \<not> is_set h q i, h')
    \<and> becomes dst (unat n) (\<lambda>i. is_set h p i \<and> \<not> is_set h q i) h h'"
  unfolding bitmap_andnot_def by (rule and_loop_spec [OF assms]) (simp add: is_set_def bit_and_iff bit_not_iff)

section \<open>Weight\<close>

lemma card_word:
  fixes w :: u64
  assumes "\<And>j. j < 64 \<Longrightarrow> bit w j \<longleftrightarrow> j < r \<and> P (64 * k + j)" and "r \<le> 64"
  shows "card {i. i < 64 * k + r \<and> P i} = card {i. i < 64 * k \<and> P i} + card {j. bit w j}"
proof -
  have "{i. i < 64 * k + r \<and> P i} = {i. i < 64 * k \<and> P i} \<union> (\<lambda>j. 64 * k + j) ` {j. bit w j}"
  proof (intro set_eqI iffI)
    fix i assume i: "i \<in> {i. i < 64 * k + r \<and> P i}"
    show "i \<in> {i. i < 64 * k \<and> P i} \<union> (\<lambda>j. 64 * k + j) ` {j. bit w j}"
    proof (cases "i < 64 * k")
      case False
      then obtain j where "i = 64 * k + j" by (metis le_Suc_ex not_less)
      with i assms show ?thesis by auto
    qed (use i in simp)
  next
    fix i assume "i \<in> {i. i < 64 * k \<and> P i} \<union> (\<lambda>j. 64 * k + j) ` {j. bit w j}"
    then consider "i < 64 * k" "P i" | j where "i = 64 * k + j" "bit w j" by blast
    then show "i \<in> {i. i < 64 * k + r \<and> P i}"
    proof cases
      case (2 j)
      then have "j < 64" using bit_imp_le_length [of w j] by simp
      with 2 assms(1) [of j] show ?thesis by simp
    qed simp
  qed
  moreover have "finite {j. bit w j}"
    by (rule finite_subset [of _ "{..<64}"]) (auto dest: bit_imp_le_length)
  then have "card ({i. i < 64 * k \<and> P i} \<union> (\<lambda>j. 64 * k + j) ` {j. bit w j})
      = card {i. i < 64 * k \<and> P i} + card ((\<lambda>j. 64 * k + j) ` {j. bit w j})"
    by (intro card_Un_disjoint) auto
  moreover have "card ((\<lambda>j. 64 * k + j) ` {j. bit w j}) = card {j. bit w j}"
    by (rule card_image) simp
  ultimately show ?thesis by (simp only:)
qed

lemma hweight_word: "(ucast (sw_hweight64 fast w) :: 32 word) = word_of_nat (card {j. bit w j})"
proof -
  have "unat (sw_hweight64 fast w) = card {j. bit w j}"
    using pop_word [of w] by (simp add: sw_hweight64_pop)
  then show ?thesis by (metis of_nat_unat)
qed

lemma bitmap_weight_spec:
  assumes "has h p (unat n)" and "unat n < 2 ^ 31"
  shows "bitmap_weight fast p n h = Some (int (card {i. i < unat n \<and> is_set h p i}))"
proof -
  let ?c = "\<lambda>m. card {i. i < m \<and> is_set h p i}" and ?lim = "unat n div 64"
  have "\<exists>w. for_up 0 ?lim (\<lambda>k w. do { v \<leftarrow> rd h p k; Some (w + ucast (sw_hweight64 fast v)) }) (0 :: 32 word) = Some w
      \<and> w = word_of_nat (?c (64 * ?lim))"
  proof (rule for_up_inv [where P = "\<lambda>k w. w = word_of_nat (?c (64 * k))"])
    fix k and w :: "32 word" assume "k < ?lim" and w: "w = word_of_nat (?c (64 * k))"
    then have k: "64 * k < unat n" by (simp add: full_word)
    have "?c (64 * k + 64) = ?c (64 * k) + card {j. bit (word_at h p k) j}"
      by (rule card_word) (simp_all add: is_set_word)
    then show "\<exists>w'. do { v \<leftarrow> rd h p k; Some (w + ucast (sw_hweight64 fast v)) } = Some w' \<and> w' = word_of_nat (?c (64 * Suc k))"
      by (simp add: rd_has [OF assms(1) k] w hweight_word add.commute)
  qed simp_all
  then have loop: "for_up 0 ?lim (\<lambda>k w. do { v \<leftarrow> rd h p k; Some (w + ucast (sw_hweight64 fast v)) }) (0 :: 32 word)
      = Some (word_of_nat (?c (64 * ?lim)))" by simp
  have "?c (unat n) \<le> unat n"
    using card_mono [of "{..<unat n}" "{i. i < unat n \<and> is_set h p i}"] by auto
  with assms(2) have sint: "sint (word_of_nat (?c (unat n)) :: 32 word) = int (?c (unat n))"
    by (simp add: signed_of_nat signed_take_bit_int_eq_self)
  show ?thesis
  proof (cases "unat n mod 64 = 0")
    case True
    then have "64 * ?lim = unat n" using mult_div_mod_eq [of 64 "unat n"] by simp
    with True loop sint show ?thesis by (simp add: bitmap_weight_def)
  next
    case False
    have "?c (64 * ?lim + unat n mod 64) = ?c (64 * ?lim) + card {j. bit (word_at h p ?lim AND last_mask n) j}"
      by (rule card_word) (use False in \<open>auto simp: bit_and_iff bit_last_mask is_set_word\<close>)
    then have "?c (unat n) = ?c (64 * ?lim) + card {j. bit (word_at h p ?lim AND last_mask n) j}" by simp
    with False loop sint show ?thesis
      by (simp add: bitmap_weight_def Let_def rd_has [OF assms(1) part_word [OF False]] hweight_word)
  qed
qed

section \<open>Single bits\<close>

lemma bit_BIT_MASK: "bit (BIT_MASK nr) j \<longleftrightarrow> j = unat nr mod 64"
  by (auto simp: BIT_MASK_def bit_simps)

lemma bit_update:
  assumes "has h p n" and "unat nr < n"
    and "\<And>j. j < 64 \<Longrightarrow> bit w j = (if j = unat nr mod 64 then b else bit (word_at h p (unat nr div 64)) j)"
  shows "\<exists>h'. wr h p (BIT_WORD nr) w = Some h' \<and> same_shape h h'
    \<and> (\<forall>q i. is_set h' q i = (if q = p \<and> i = unat nr then b else is_set h q i))"
proof -
  have k: "64 * (unat nr div 64) < n" using assms(2) mult_div_mod_eq [of 64 "unat nr"] by linarith
  have "i div 64 = unat nr div 64 \<and> i mod 64 = unat nr mod 64 \<longleftrightarrow> i = unat nr" for i
    by (metis div_mult_mod_eq)
  then have "is_set (put h p (unat nr div 64) w) q i = (if q = p \<and> i = unat nr then b else is_set h q i)" for q i
    using assms(3) [of "i mod 64"] by (auto simp: is_set_def word_at_put [OF assms(1) k])
  with wr_has [OF assms(1) k] same_shape_put [OF assms(1)] show ?thesis
    by (simp add: BIT_WORD_def)
qed

lemma rd_bit: "has h p n \<Longrightarrow> unat nr < n \<Longrightarrow> rd h p (BIT_WORD nr) = Some (word_at h p (unat nr div 64))"
  unfolding BIT_WORD_def by (erule rd_has) (use mult_div_mod_eq [of 64 "unat nr"] in linarith)

lemma set_bit_spec:
  assumes "has h p n" and "unat nr < n"
  shows "\<exists>h'. set_bit nr p h = Some h' \<and> same_shape h h'
    \<and> (\<forall>q i. is_set h' q i = (if q = p \<and> i = unat nr then True else is_set h q i))"
  using bit_update [OF assms, of "word_at h p (unat nr div 64) OR BIT_MASK nr" True]
  by (simp add: set_bit_def rd_bit [OF assms] bit_or_iff bit_BIT_MASK)

lemma clear_bit_spec:
  assumes "has h p n" and "unat nr < n"
  shows "\<exists>h'. clear_bit nr p h = Some h' \<and> same_shape h h'
    \<and> (\<forall>q i. is_set h' q i = (if q = p \<and> i = unat nr then False else is_set h q i))"
  using bit_update [OF assms, of "word_at h p (unat nr div 64) AND NOT (BIT_MASK nr)" False]
  by (simp add: clear_bit_def rd_bit [OF assms] bit_and_iff bit_not_iff bit_BIT_MASK)

lemma change_bit_spec:
  assumes "has h p n" and "unat nr < n"
  shows "\<exists>h'. change_bit nr p h = Some h' \<and> same_shape h h'
    \<and> (\<forall>q i. is_set h' q i = (if q = p \<and> i = unat nr then \<not> is_set h p (unat nr) else is_set h q i))"
  using bit_update [OF assms, of "word_at h p (unat nr div 64) XOR BIT_MASK nr" "\<not> is_set h p (unat nr)"]
  by (simp add: change_bit_def rd_bit [OF assms] bit_xor_iff bit_BIT_MASK is_set_def)

lemma and_BIT_MASK: "word_at h p (unat nr div 64) AND BIT_MASK nr \<noteq> 0 \<longleftrightarrow> is_set h p (unat nr)"
  by (auto simp: word_ne_0 bit_and_iff bit_BIT_MASK is_set_def)

lemma test_and_set_bit_spec:
  assumes "has h p n" and "unat nr < n"
  shows "\<exists>h'. test_and_set_bit nr p h = Some (is_set h p (unat nr), h') \<and> set_bit nr p h = Some h'"
  using set_bit_spec [OF assms] by (auto simp: test_and_set_bit_def set_bit_def rd_bit [OF assms] and_BIT_MASK)

lemma test_and_clear_bit_spec:
  assumes "has h p n" and "unat nr < n"
  shows "\<exists>h'. test_and_clear_bit nr p h = Some (is_set h p (unat nr), h') \<and> clear_bit nr p h = Some h'"
  using clear_bit_spec [OF assms] by (auto simp: test_and_clear_bit_def clear_bit_def rd_bit [OF assms] and_BIT_MASK)

lemma test_and_change_bit_spec:
  assumes "has h p n" and "unat nr < n"
  shows "\<exists>h'. test_and_change_bit nr p h = Some (is_set h p (unat nr), h') \<and> change_bit nr p h = Some h'"
  using change_bit_spec [OF assms] by (auto simp: test_and_change_bit_def change_bit_def rd_bit [OF assms] and_BIT_MASK)

lemma test_bit_spec:
  assumes "has h p n" and "unat nr < n"
  shows "test_bit nr p h = Some (is_set h p (unat nr))"
  by (auto simp: test_bit_def rd_bit [OF assms] is_set_def and_63 word_ne_0 bit_simps)

section \<open>Shifts\<close>

lemma longs_le: "unat n \<le> 64 * BITS_TO_LONGS n"
  by (metis less_longs less_irrefl not_le)

text \<open>A word of the bitmap without the bits from \<open>n\<close> on.\<close>

lemma longs_word:
  assumes "m < BITS_TO_LONGS n" and "j < 64"
  shows "64 * m + j < unat n \<longleftrightarrow> m \<noteq> BITS_TO_LONGS n - 1 \<or> unat n mod 64 = 0 \<or> j < unat n mod 64"
proof -
  let ?l = "BITS_TO_LONGS n"
  have m: "64 * m < unat n" using assms(1) by (simp add: less_longs)
  note hi = longs_le [of n]
  show ?thesis
  proof (cases "m = ?l - 1")
    case False
    with assms(1) have "m + 1 < ?l" by simp
    then have "64 * (m + 1) < unat n" by (simp add: less_longs)
    with assms(2) False show ?thesis by simp
  next
    case True
    then have l: "unat n \<le> 64 * m + 64" using hi assms(1) by simp
    then obtain r where r: "unat n = 64 * m + r" "0 < r" "r \<le> 64"
      using m by (metis add_le_cancel_left le_add_diff_inverse less_imp_le zero_less_diff)
    have "r mod 64 = unat n mod 64" by (simp add: r(1))
    with r True assms(2) show ?thesis by (cases "r = 64") auto
  qed
qed

lemma masked_bit:
  assumes "m < BITS_TO_LONGS n" and "j < 64"
  shows "bit (if m = BITS_TO_LONGS n - 1 then word_at h p m AND last_mask n else word_at h p m) j
    \<longleftrightarrow> 64 * m + j < unat n \<and> is_set h p (64 * m + j)"
  using longs_word [OF assms] assms(2) by (auto simp: bit_and_iff bit_last_mask is_set_word)

lemma shift_off_le: "unat s \<le> unat n \<Longrightarrow> unat s div 64 \<le> BITS_TO_LONGS n"
  using longs_le [of n] mult_div_mod_eq [of 64 "unat s"] by linarith

definition shr_word :: "addr \<Rightarrow> nat \<Rightarrow> nat \<Rightarrow> u32 \<Rightarrow> nat \<Rightarrow> (addr \<Rightarrow> nat \<Rightarrow> u64) \<Rightarrow> u64" where
  "shr_word src off rem n k w =
     (let lim = BITS_TO_LONGS n; mw = (\<lambda>m. if m = lim - 1 then w src m AND last_mask n else w src m)
      in drop_bit rem (mw (off + k)) OR (if rem = 0 \<or> off + k + 1 \<ge> lim then 0 else push_bit (64 - rem) (mw (off + k + 1))))"

lemma shr_word_bit:
  assumes "off + k < BITS_TO_LONGS n" and "j < 64" and "rem < 64"
  shows "bit (shr_word src off rem n k (word_at h)) j
    \<longleftrightarrow> 64 * (off + k) + j + rem < unat n \<and> is_set h src (64 * (off + k) + j + rem)"
proof -
  let ?lim = "BITS_TO_LONGS n"
  let ?mw = "\<lambda>m. if m = ?lim - 1 then word_at h src m AND last_mask n else word_at h src m"
  have low: "bit (drop_bit rem (?mw (off + k))) j \<longleftrightarrow>
      j + rem < 64 \<and> 64 * (off + k) + (j + rem) < unat n \<and> is_set h src (64 * (off + k) + (j + rem))"
  proof (cases "j + rem < 64")
    case True
    then show ?thesis using masked_bit [OF assms(1) True] by (simp add: bit_drop_bit_eq add.commute)
  next
    case False
    then have "\<not> bit (?mw (off + k)) (j + rem)" using bit_imp_le_length [of "?mw (off + k)" "j + rem"] by auto
    with False show ?thesis by (simp add: bit_drop_bit_eq add.commute)
  qed
  have up: "bit (if rem = 0 \<or> off + k + 1 \<ge> ?lim then 0 else push_bit (64 - rem) (?mw (off + k + 1))) j \<longleftrightarrow>
      64 \<le> j + rem \<and> 64 * (off + k) + (j + rem) < unat n \<and> is_set h src (64 * (off + k) + (j + rem))"
  proof (cases "off + k + 1 \<ge> ?lim")
    case True
    then have "unat n \<le> 64 * (off + k) + 64" using longs_le [of n] by simp
    with True show ?thesis by auto
  next
    case False
    show ?thesis
    proof (cases "64 \<le> j + rem")
      case True
      with assms have j: "j - (64 - rem) < 64" "rem \<noteq> 0" by simp_all
      have eq: "64 * (off + k + 1) + (j - (64 - rem)) = 64 * (off + k) + (j + rem)" using True assms by simp
      have "off + k + 1 < ?lim" using False by simp
      from masked_bit [OF this j(1), of h src, unfolded eq] have "bit (?mw (off + k + 1)) (j - (64 - rem)) \<longleftrightarrow>
          64 * (off + k) + (j + rem) < unat n \<and> is_set h src (64 * (off + k) + (j + rem))" .
      moreover have "bit (push_bit (64 - rem) w) j \<longleftrightarrow> bit w (j - (64 - rem))" for w :: u64
        using True assms(2) by (auto simp: bit_push_bit_iff)
      moreover have "(rem = 0 \<or> off + k + 1 \<ge> ?lim) = False" using False j(2) by simp
      ultimately show ?thesis using True by (simp only: if_False simp_thms)
    next
      case False
      then have "\<not> 64 - rem \<le> j" by linarith
      with False show ?thesis by (simp add: bit_push_bit_iff)
    qed
  qed
  show ?thesis
    unfolding shr_word_def Let_def bit_or_iff low up by (auto simp: add.assoc)
qed

lemma bitmap_shift_right_spec:
  assumes "has h dst (unat n)" and "has h src (unat n)" and "unat s \<le> unat n"
  shows "\<exists>h'. bitmap_shift_right dst src s n h = Some h'
    \<and> becomes dst (unat n) (\<lambda>i. i + unat s < unat n \<and> is_set h src (i + unat s)) h h'"
proof -
  let ?lim = "BITS_TO_LONGS n" and ?off = "unat s div 64" and ?rem = "unat s mod 64"
  let ?body = "\<lambda>k h. do {
      upper \<leftarrow> (if ?rem = 0 \<or> ?off + k + 1 \<ge> ?lim then Some 0
               else do { u \<leftarrow> rd h src (?off + k + 1);
                         Some (push_bit (64 - ?rem) (if ?off + k + 1 = ?lim - 1 then u AND last_mask n else u)) });
      l \<leftarrow> rd h src (?off + k);
      let lower = drop_bit ?rem (if ?off + k = ?lim - 1 then l AND last_mask n else l);
      wr h dst k (lower OR upper) }"
  note off = shift_off_le [OF assms(3)]
  have "\<exists>h1. for_up 0 (?lim - ?off) ?body h = Some h1
      \<and> changes dst {..<?lim - ?off} (\<lambda>k. shr_word src ?off ?rem n k (word_at h)) h h1"
  proof (rule for_up_words [OF assms(1)])
    show "64 * (?lim - ?off) < unat n + 64" using longs_bound [of n] by linarith
    show "?body k h1 = Some (put h1 dst k (shr_word src ?off ?rem n k (word_at h1)))"
      if k: "k < ?lim - ?off" and shape: "same_shape h h1" for k h1
    proof -
      have "k < ?lim" "?off + k < ?lim" using k by simp_all
      then have i: "64 * k < unat n" "64 * (?off + k) < unat n" by (simp_all only: less_longs)
      have i1: "?off + k + 1 < ?lim \<Longrightarrow> 64 * (?off + k + 1) < unat n" by (simp only: less_longs)
      note rd = rd_shape [OF shape assms(2) i(2)]
      show ?thesis
      proof (cases "?rem = 0 \<or> ?off + k + 1 \<ge> ?lim")
        case True
        then show ?thesis
          by (simp only: shr_word_def Let_def if_True rd wr_shape [OF shape assms(1) i(1)] Option.bind.bind_lunit)
      next
        case False
        with i1 have "rd h1 src (?off + k + 1) = Some (word_at h1 src (?off + k + 1))"
          by (intro rd_shape [OF shape assms(2)]) (simp only: de_Morgan_disj not_le)
        with False show ?thesis
          by (simp only: shr_word_def Let_def if_False rd wr_shape [OF shape assms(1) i(1)] Option.bind.bind_lunit)
      qed
    qed
    show "shr_word src ?off ?rem n k v = shr_word src ?off ?rem n k w" if "\<And>q j. k \<le> j \<Longrightarrow> v q j = w q j" for k v w
    proof -
      have "v src (?off + k) = w src (?off + k)" "v src (?off + k + 1) = w src (?off + k + 1)" by (simp_all add: that)
      then show ?thesis by (simp only: shr_word_def Let_def)
    qed
  qed
  then obtain h1 where h1: "for_up 0 (?lim - ?off) ?body h = Some h1"
    "changes dst {..<?lim - ?off} (\<lambda>k. shr_word src ?off ?rem n k (word_at h)) h h1" by blast
  have "has h1 dst (unat n)" using assms(1) changes_shape [OF h1(2)] by (simp add: same_shape_has)
  from memset_words_spec [OF this, of "?lim - ?off" ?off 0] off longs_bound [of n]
  obtain h2 where h2: "memset_words dst (?lim - ?off) 0 ?off h1 = Some h2" "changes dst {?lim - ?off..<?lim} (\<lambda>_. 0) h1 h2"
    by auto
  let ?g = "\<lambda>j. if j \<in> {?lim - ?off..<?lim} then 0 else shr_word src ?off ?rem n j (word_at h)"
  have ch: "changes dst ({..<?lim - ?off} \<union> {?lim - ?off..<?lim}) ?g h h2"
    by (rule changes_trans [OF h1(2) h2(2)])
  have "becomes dst (unat n) (\<lambda>i. i + unat s < unat n \<and> is_set h src (i + unat s)) h h2"
  proof (rule changes_becomes [OF ch])
    fix i assume i: "i < unat n"
    let ?k = "i div 64" and ?j = "i mod 64"
    have k: "?k < ?lim" using i by (rule div_less_longs)
    have x: "64 * (?off + ?k) + ?j + ?rem = i + unat s"
    proof -
      have "64 * (?off + ?k) + ?j + ?rem = (64 * ?k + ?j) + (64 * ?off + ?rem)" by simp
      then show ?thesis by (simp only: mult_div_mod_eq)
    qed
    show "(if ?k \<in> {..<?lim - ?off} \<union> {?lim - ?off..<?lim} then bit (?g ?k) ?j else is_set h dst i)
        \<longleftrightarrow> i + unat s < unat n \<and> is_set h src (i + unat s)"
    proof (cases "?k < ?lim - ?off")
      case True
      then have "?off + ?k < ?lim" by simp
      from shr_word_bit [OF this, of ?j ?rem src h, unfolded x] True show ?thesis by simp
    next
      case False
      then have "64 * ?lim \<le> 64 * (?off + ?k)" by simp
      with x longs_le [of n] have "unat n \<le> i + unat s" by linarith
      with False k show ?thesis by simp
    qed
  qed
  moreover have "bitmap_shift_right dst src s n h = Some h2"
    unfolding bitmap_shift_right_def Let_def h1(1) [unfolded Let_def] Option.bind.bind_lunit
    using h2(1) off by (cases "?off = 0") simp_all
  ultimately show ?thesis by blast
qed

definition shl_word :: "addr \<Rightarrow> nat \<Rightarrow> nat \<Rightarrow> (addr \<Rightarrow> nat \<Rightarrow> u64) \<Rightarrow> u64" where
  "shl_word src rem k w =
     (if rem \<noteq> 0 \<and> k > 0 then drop_bit (64 - rem) (w src (k - 1)) else 0) OR push_bit rem (w src k)"

lemma shl_word_bit:
  assumes "j < 64" and "rem < 64"
  shows "bit (shl_word src rem k (word_at h)) j \<longleftrightarrow> rem \<le> 64 * k + j \<and> is_set h src (64 * k + j - rem)"
proof (cases "rem \<le> j")
  case True
  have "\<not> bit (if rem \<noteq> 0 \<and> k > 0 then drop_bit (64 - rem) (word_at h src (k - 1)) else 0) j"
    using True assms bit_imp_le_length [of "word_at h src (k - 1)" "64 - rem + j"] by (auto simp: bit_drop_bit_eq)
  moreover have "64 * k + j - rem = 64 * k + (j - rem)" using True by simp
  moreover have "bit (push_bit rem (word_at h src k)) j \<longleftrightarrow> is_set h src (64 * k + (j - rem))"
    using True assms is_set_word [of "j - rem" h src k] by (simp add: bit_push_bit_iff)
  ultimately show ?thesis
    using True unfolding shl_word_def bit_or_iff by simp
next
  case False
  then have up: "\<not> bit (push_bit rem (word_at h src k)) j" by (simp add: bit_push_bit_iff)
  show ?thesis
  proof (cases "k = 0")
    case True
    with False up show ?thesis unfolding shl_word_def bit_or_iff by simp
  next
    case k: False
    then obtain m where m: "k = Suc m" by (cases k) auto
    have "64 * k + j - rem = 64 * m + (64 - rem + j)" "64 - rem + j < 64" using False assms m by simp_all
    moreover from this have "is_set h src (64 * m + (64 - rem + j)) \<longleftrightarrow> bit (word_at h src m) (64 - rem + j)"
      by (simp add: is_set_word)
    ultimately show ?thesis
      using False up m assms unfolding shl_word_def bit_or_iff by (simp add: bit_drop_bit_eq)
  qed
qed

lemma shift_left_loop_spec:
  assumes "has h dst (unat n)" and "has h src (unat n)"
  shows "m + off \<le> BITS_TO_LONGS n \<Longrightarrow> changes dst {m + off..<BITS_TO_LONGS n} (\<lambda>j. shl_word src rem (j - off) (word_at h)) h h1 \<Longrightarrow>
    \<exists>h'. shift_left_loop dst src off rem m h1 = Some h'
      \<and> changes dst {off..<BITS_TO_LONGS n} (\<lambda>j. shl_word src rem (j - off) (word_at h)) h h'"
proof (induction m arbitrary: h1)
  case 0
  then show ?case by simp
next
  case (Suc k)
  let ?lim = "BITS_TO_LONGS n" and ?g = "\<lambda>j. shl_word src rem (j - off) (word_at h)"
  note shape = changes_shape [OF Suc.prems(2)]
  have "k + off < ?lim" "k < ?lim" "k - 1 < ?lim" using Suc.prems(1) by simp_all
  then have k: "64 * (k + off) < unat n" "64 * k < unat n" "64 * (k - 1) < unat n" by (simp_all only: less_longs)
  have same: "word_at h1 src k = word_at h src k" "word_at h1 src (k - 1) = word_at h src (k - 1)"
    by (auto simp: changes_word [OF Suc.prems(2)])
  let ?h = "put h1 dst (k + off) (?g (k + off))"
  have step: "shift_left_loop dst src off rem (Suc k) h1 = shift_left_loop dst src off rem k ?h"
    by (cases "rem \<noteq> 0 \<and> k > 0")
      (auto simp: rd_shape [OF shape assms(2)] rd_shape [OF shape assms(2) k(3), simplified] k
        wr_shape [OF shape assms(1) k(1)] same same(2) [simplified] shl_word_def)
  have "insert (k + off) {Suc k + off..<?lim} = {k + off..<?lim}" using Suc.prems(1) by auto
  with changes_put [OF Suc.prems(2) assms(1) k(1)] have "changes dst {k + off..<?lim} ?g h ?h" by simp
  with Suc.IH [of ?h] Suc.prems(1) step show ?case by simp
qed

lemma bitmap_shift_left_spec:
  assumes "has h dst (unat n)" and "has h src (unat n)" and "unat s \<le> unat n"
  shows "\<exists>h'. bitmap_shift_left dst src s n h = Some h'
    \<and> becomes dst (unat n) (\<lambda>i. unat s \<le> i \<and> is_set h src (i - unat s)) h h'"
proof -
  let ?lim = "BITS_TO_LONGS n" and ?off = "unat s div 64" and ?rem = "unat s mod 64"
  note off = shift_off_le [OF assms(3)]
  let ?g = "\<lambda>j. shl_word src ?rem (j - ?off) (word_at h)"
  have "changes dst {?lim - ?off + ?off..<?lim} ?g h h" using off by (simp add: changes_refl)
  from shift_left_loop_spec [OF assms(1,2) _ this] off
  obtain h1 where h1: "shift_left_loop dst src ?off ?rem (?lim - ?off) h = Some h1" "changes dst {?off..<?lim} ?g h h1"
    by auto
  have "has h1 dst (unat n)" using assms(1) changes_shape [OF h1(2)] by (simp add: same_shape_has)
  from memset_words_spec [OF this, of 0 ?off 0] off longs_bound [of n]
  obtain h2 where h2: "memset_words dst 0 0 ?off h1 = Some h2" "changes dst {0..<?off} (\<lambda>_. 0) h1 h2"
    by fastforce
  let ?f = "\<lambda>j. if j \<in> {0..<?off} then 0 else ?g j"
  have ch: "changes dst ({?off..<?lim} \<union> {0..<?off}) ?f h h2"
    by (rule changes_trans [OF h1(2) h2(2)])
  have "becomes dst (unat n) (\<lambda>i. unat s \<le> i \<and> is_set h src (i - unat s)) h h2"
  proof (rule changes_becomes [OF ch])
    fix i assume i: "i < unat n"
    let ?k = "i div 64" and ?j = "i mod 64"
    have k: "?k < ?lim" using i by (rule div_less_longs)
    show "(if ?k \<in> {?off..<?lim} \<union> {0..<?off} then bit (?f ?k) ?j else is_set h dst i)
        \<longleftrightarrow> unat s \<le> i \<and> is_set h src (i - unat s)"
    proof (cases "?k < ?off")
      case True
      then have "\<not> unat s \<le> i" using div_le_mono [of "unat s" i 64] by auto
      with True show ?thesis by simp
    next
      case False
      then obtain m where m: "?k = ?off + m" by (metis le_Suc_ex not_less)
      have "i = 64 * ?off + (64 * m + ?j)"
        using mult_div_mod_eq [of 64 i] unfolding m by simp
      moreover have "unat s = 64 * ?off + ?rem" by simp
      ultimately have "i - unat s = 64 * m + ?j - ?rem" "unat s \<le> i \<longleftrightarrow> ?rem \<le> 64 * m + ?j" by linarith+
      with False k m shl_word_bit [of ?j ?rem src m h] show ?thesis by simp
    qed
  qed
  moreover have "bitmap_shift_left dst src s n h = Some h2"
    unfolding bitmap_shift_left_def Let_def h1(1) Option.bind.bind_lunit
    using h2(1) by (cases "?off = 0") simp_all
  ultimately show ?thesis by blast
qed

section \<open>Ranges\<close>

lemma range_loop_spec:
  assumes upd: "\<And>w m j. bit (upd w m :: u64) j = (if bit m j then v else bit w j)" and e: "unat e mod 64 = fin mod 64"
  shows "has h p n \<Longrightarrow> 0 < b \<Longrightarrow> b \<le> 64 \<Longrightarrow> fin = 64 * k + 64 - b + len \<Longrightarrow> fin \<le> n \<Longrightarrow>
    \<forall>j<64. bit wmask j \<longleftrightarrow> 64 - b \<le> j \<Longrightarrow>
    \<exists>h'. range_loop upd p e k (int len) (int b) wmask h = Some h' \<and> same_shape h h'
      \<and> (\<forall>q i. is_set h' q i = (if q = p \<and> 64 * k + 64 - b \<le> i \<and> i < fin then v else is_set h q i))"
proof (induction len arbitrary: h k b wmask rule: less_induct)
  case (less len)
  have high: "\<not> bit wmask j" if "64 \<le> j" for j using that bit_imp_le_length [of wmask j] by auto
  have idx: "i div 64 = k \<longleftrightarrow> 64 * k \<le> i \<and> i < 64 * k + 64" for i by linarith
  show ?case
  proof (cases "b \<le> len")
    case True
    let ?h = "put h p k (upd (word_at h p k) wmask)"
    have k: "64 * k < n" using less.prems(2-5) True by linarith
    have shape: "same_shape h ?h" by (rule same_shape_put [OF less.prems(1)])
    have first: "is_set ?h q i = (if q = p \<and> 64 * k + 64 - b \<le> i \<and> i < 64 * k + 64 then v else is_set h q i)" for q i
    proof -
      have "64 - b \<le> i mod 64 \<longleftrightarrow> 64 * k + 64 - b \<le> i" if "i div 64 = k"
        using mult_div_mod_eq [of 64 i] less.prems(3) unfolding that by linarith
      then show ?thesis
        using less.prems(3,6) idx [of i]
        by (auto simp: is_set_def word_at_put [OF less.prems(1) k] upd)
    qed
    have "\<exists>h'. range_loop upd p e (Suc k) (int (len - b)) (int 64) (- 1) ?h = Some h' \<and> same_shape ?h h'
      \<and> (\<forall>q i. is_set h' q i = (if q = p \<and> 64 * Suc k + 64 - 64 \<le> i \<and> i < fin then v else is_set ?h q i))"
      using less.prems True
      by (intro less.IH) (auto simp: same_shape_has [OF shape])
    then obtain h' where h': "range_loop upd p e (k + 1) (int len - int b) 64 (- 1) ?h = Some h'" "same_shape ?h h'"
      "\<forall>q i. is_set h' q i = (if q = p \<and> 64 * k + 64 \<le> i \<and> i < fin then v else is_set ?h q i)"
      using True by (auto simp: of_nat_diff)
    have "range_loop upd p e k (int len) (int b) wmask h = Some h'"
      using True h'(1) by (subst range_loop.simps) (simp add: rd_has [OF less.prems(1) k] wr_has [OF less.prems(1) k])
    moreover have "is_set h' q i = (if q = p \<and> 64 * k + 64 - b \<le> i \<and> i < fin then v else is_set h q i)" for q i
      using h'(3) first [of q i] less.prems(3,4) True by auto
    ultimately show ?thesis using same_shape_trans [OF shape h'(2)] by blast
  next
    case False
    show ?thesis
    proof (cases "len = 0")
      case True
      with less.prems have "range_loop upd p e k (int len) (int b) wmask h = Some h"
        by (subst range_loop.simps) simp
      with True less.prems(4) show ?thesis by auto
    next
      case pos: False
      let ?m = "wmask AND last_mask e"
      let ?h = "put h p k (upd (word_at h p k) ?m)"
      have k: "64 * k < n" using less.prems(3-5) pos by linarith
      obtain r where r: "fin = 64 * k + r" "r < 64" "0 < r" "r = 64 - b + len"
        using less.prems(3,4) False pos by (intro that [of "64 - b + len"]) linarith+
      have er: "unat e mod 64 = r" using e r by simp
      have m: "bit ?m j \<longleftrightarrow> 64 - b \<le> j \<and> j < r" if "j < 64" for j
        using that less.prems(6) r(3) by (auto simp: bit_and_iff bit_last_mask er)
      have "is_set ?h q i = (if q = p \<and> 64 * k + 64 - b \<le> i \<and> i < fin then v else is_set h q i)" for q i
      proof -
        have outside: "i div 64 = k" if "64 * k + 64 - b \<le> i" "i < fin"
          using that idx [of i] less.prems(3) r by linarith
        have "64 - b \<le> i mod 64 \<and> i mod 64 < r \<longleftrightarrow> 64 * k + 64 - b \<le> i \<and> i < fin" if "i div 64 = k"
          using mult_div_mod_eq [of 64 i] less.prems(3) r(1) unfolding that by linarith
        then show ?thesis
          using m [of "i mod 64"] outside unfolding is_set_def word_at_put [OF less.prems(1) k]
          by (cases "i div 64 = k") (auto simp: upd)
      qed
      moreover have "range_loop upd p e k (int len) (int b) wmask h = Some ?h"
        using False pos by (subst range_loop.simps) (simp add: rd_has [OF less.prems(1) k] wr_has [OF less.prems(1) k])
      ultimately show ?thesis using same_shape_put [OF less.prems(1)] by blast
    qed
  qed
qed

lemma bitmap_range_spec:
  assumes upd: "\<And>w m j. bit (upd w m :: u64) j = (if bit m j then v else bit w j)"
    and "has h p n" and "unat start + len \<le> n" and "n < 2 ^ 32"
  shows "\<exists>h'. bitmap_range upd p start (int len) h = Some h' \<and> same_shape h h'
    \<and> (\<forall>q i. is_set h' q i = (if q = p \<and> unat start \<le> i \<and> i < unat start + len then v else is_set h q i))"
proof -
  let ?k = "unat start div 64" and ?b = "64 - unat start mod 64"
  have s: "64 * ?k + 64 - ?b = unat start" using mult_div_mod_eq [of 64 "unat start"] by linarith
  have "unat (start + word_of_int (int len)) = unat start + len"
    using assms(3,4) by (simp add: unat_word_ariths unat_of_nat)
  then have e: "unat (start + word_of_int (int len)) mod 64 = (unat start + len) mod 64" by simp
  have "\<exists>h'. range_loop upd p (start + word_of_int (int len)) ?k (int len) (int ?b) (BITMAP_FIRST_WORD_MASK (ucast start)) h = Some h'
      \<and> same_shape h h'
      \<and> (\<forall>q i. is_set h' q i = (if q = p \<and> 64 * ?k + 64 - ?b \<le> i \<and> i < unat start + len then v else is_set h q i))"
    using s assms(3)
    by (intro range_loop_spec [OF upd e assms(2)]) (auto simp: bit_first_word_mask)
  moreover have "int ?b = 64 - int (unat start mod 64)" by (simp add: of_nat_diff)
  ultimately show ?thesis
    by (simp only: bitmap_range_def BIT_WORD_def s)
qed

lemma bitmap_set_spec:
  assumes "has h p n" and "unat start + len \<le> n" and "n < 2 ^ 32"
  shows "\<exists>h'. bitmap_set p start (int len) h = Some h' \<and> same_shape h h'
    \<and> (\<forall>q i. is_set h' q i = (if q = p \<and> unat start \<le> i \<and> i < unat start + len then True else is_set h q i))"
  unfolding bitmap_set_def by (rule bitmap_range_spec [OF _ assms]) (simp add: bit_or_iff)

lemma bitmap_clear_spec:
  assumes "has h p n" and "unat start + len \<le> n" and "n < 2 ^ 32"
  shows "\<exists>h'. bitmap_clear p start (int len) h = Some h' \<and> same_shape h h'
    \<and> (\<forall>q i. is_set h' q i = (if q = p \<and> unat start \<le> i \<and> i < unat start + len then False else is_set h q i))"
  unfolding bitmap_clear_def by (rule bitmap_range_spec [OF _ assms]) (auto simp: bit_simps dest: bit_imp_le_length)


section \<open>Clearing the tail\<close>

text \<open>The bits of the last word from \<open>n\<close> on can be cleared without a change to the bitmap.\<close>

lemma becomes_masked:
  fixes n :: u32
  assumes b: "becomes dst (unat n) P h h1" and "has h dst (unat n)" and r: "unat n mod 64 \<noteq> 0"
  defines "h' \<equiv> put h1 dst (unat n div 64) (word_at h1 dst (unat n div 64) AND last_mask n)"
  shows "becomes dst (unat n) P h h'" and "\<forall>i. unat n \<le> i \<longrightarrow> i < 64 * BITS_TO_LONGS n \<longrightarrow> \<not> is_set h' dst i"
proof -
  let ?k = "unat n div 64"
  note k = part_word [OF r]
  have shape: "same_shape h h1" using b by (simp add: becomes_def)
  then have d: "has h1 dst (unat n)" using assms(2) by (simp add: same_shape_has)
  have bits: "is_set h' q i = (is_set h1 q i \<and> (q = dst \<and> i div 64 = ?k \<longrightarrow> i mod 64 < unat n mod 64))" for q i
    unfolding h'_def using r by (auto simp: is_set_def word_at_put [OF d k] bit_and_iff bit_last_mask)
  have low: "i mod 64 < unat n mod 64" if "i < unat n" "i div 64 = ?k" for i
    using that by (metis div_mult_mod_eq nat_add_left_cancel_less)
  show "becomes dst (unat n) P h h'"
    unfolding becomes_def
  proof (intro conjI allI impI)
    show "same_shape h h'" unfolding h'_def by (rule same_shape_trans [OF shape same_shape_put [OF d]])
  qed (use b low in \<open>simp_all add: becomes_def bits\<close>)
  have "i div 64 = ?k \<and> \<not> i mod 64 < unat n mod 64" if "unat n \<le> i" "i < 64 * BITS_TO_LONGS n" for i
  proof -
    have "BITS_TO_LONGS n = Suc ?k"
      using r longs_le [of n] longs_bound [of n] mult_div_mod_eq [of 64 "unat n"] by linarith
    then have "i div 64 = ?k" using that div_le_mono [OF that(1), of 64] by (simp add: less_mult_imp_div_less le_antisym)
    with that(1) show ?thesis by (metis div_mult_mod_eq linorder_not_less nat_add_left_cancel_less)
  qed
  then show "\<forall>i. unat n \<le> i \<longrightarrow> i < 64 * BITS_TO_LONGS n \<longrightarrow> \<not> is_set h' dst i"
    unfolding bits by blast
qed

lemma bitmap_copy_clear_tail_spec:
  assumes "has h dst (unat n)" and "has h src (unat n)"
  shows "\<exists>h'. bitmap_copy_clear_tail dst src n h = Some h' \<and> becomes dst (unat n) (is_set h src) h h'
    \<and> (\<forall>i. unat n \<le> i \<longrightarrow> i < 64 * BITS_TO_LONGS n \<longrightarrow> \<not> is_set h' dst i)"
proof -
  from bitmap_copy_spec [OF assms] obtain h1 where
    h1: "bitmap_copy dst src n h = Some h1" "becomes dst (unat n) (is_set h src) h h1" by blast
  show ?thesis
  proof (cases "unat n mod 64 = 0")
    case True
    then have "64 * BITS_TO_LONGS n = unat n"
      using mult_div_mod_eq [of 64 "unat n"] longs_bound [of n] longs_le [of n] by presburger
    with True h1 show ?thesis by (simp add: bitmap_copy_clear_tail_def)
  next
    case False
    note k = part_word [OF False]
    have "has h1 dst (unat n)" using h1(2) assms(1) by (simp add: becomes_def same_shape_def)
    then have "bitmap_copy_clear_tail dst src n h = Some (put h1 dst (unat n div 64) (word_at h1 dst (unat n div 64) AND last_mask n))"
      unfolding bitmap_copy_clear_tail_def h1(1) using False by (simp add: rd_has [OF _ k] wr_has [OF _ k])
    with becomes_masked [OF h1(2) assms(1) False] show ?thesis by blast
  qed
qed

end
