(* ===== verification/BitmapSets.thy ===== *)
theory BitmapSets
  imports BitmapWords Simulation
begin

text \<open>
  Bitmaps as sets: every sequence of operations on any number of bitmaps of one size behaves as
  the operations on sets of numbers below the size, with arguments that may name the same
  bitmap, and whatever the unused bits of the last words are.
\<close>

section \<open>Specification\<close>

record bm_spec =
  sp_bits :: nat
  sp_sets :: "addr \<rightharpoonup> nat set"

datatype bm_op =
  Zero addr | Fill addr | Copy addr addr | Copy_clear_tail addr addr | Complement addr addr | Or addr addr addr
  | Xor addr addr addr | Replace addr addr addr addr | Shift_right addr addr u32 | Shift_left addr addr u32
  | Set addr u32 nat | Clear addr u32 nat | Set_bit u32 addr | Clear_bit u32 addr | Change_bit u32 addr
  | And addr addr addr | Andnot addr addr addr | Test_and_set_bit u32 addr | Test_and_clear_bit u32 addr
  | Test_and_change_bit u32 addr | Test_bit u32 addr | Equal addr addr | Or_equal addr addr addr
  | Intersects addr addr | Subset addr addr | Empty addr | Full addr | Weight addr
  | Find_next addr u32 | Find_next_zero addr u32 | Find_next_and addr addr u32
  | Find_first addr | Find_first_zero addr | Find_first_and addr addr | Find_last addr

datatype bm_out = Done | Answer bool | Number int

definition the_set :: "bm_spec \<Rightarrow> addr \<Rightarrow> nat set" where
  "the_set a p = the (sp_sets a p)"

definition upd_set :: "bm_spec \<Rightarrow> addr \<Rightarrow> nat set \<Rightarrow> bm_spec" where
  "upd_set a p S = a\<lparr>sp_sets := (sp_sets a)(p \<mapsto> S)\<rparr>"

definition toggle :: "nat \<Rightarrow> nat set \<Rightarrow> nat set" where
  "toggle i S = (if i \<in> S then S - {i} else insert i S)"

fun sets_step :: "bm_spec \<Rightarrow> bm_op \<Rightarrow> bm_out \<times> bm_spec" where
  "sets_step a (Zero d) = (Done, upd_set a d {})"
| "sets_step a (Fill d) = (Done, upd_set a d {..<sp_bits a})"
| "sets_step a (Copy d p) = (Done, upd_set a d (the_set a p))"
| "sets_step a (Copy_clear_tail d p) = (Done, upd_set a d (the_set a p))"
| "sets_step a (Complement d p) = (Done, upd_set a d ({..<sp_bits a} - the_set a p))"
| "sets_step a (Or d p q) = (Done, upd_set a d (the_set a p \<union> the_set a q))"
| "sets_step a (Xor d p q) = (Done, upd_set a d ((the_set a p - the_set a q) \<union> (the_set a q - the_set a p)))"
| "sets_step a (Replace d p q m) = (Done, upd_set a d ((the_set a p - the_set a m) \<union> (the_set a q \<inter> the_set a m)))"
| "sets_step a (Shift_right d p s) = (Done, upd_set a d ((\<lambda>i. i - unat s) ` (the_set a p - {..<unat s})))"
| "sets_step a (Shift_left d p s) = (Done, upd_set a d ((\<lambda>i. i + unat s) ` the_set a p \<inter> {..<sp_bits a}))"
| "sets_step a (Set p s l) = (Done, upd_set a p (the_set a p \<union> {unat s..<unat s + l}))"
| "sets_step a (Clear p s l) = (Done, upd_set a p (the_set a p - {unat s..<unat s + l}))"
| "sets_step a (Set_bit i p) = (Done, upd_set a p (insert (unat i) (the_set a p)))"
| "sets_step a (Clear_bit i p) = (Done, upd_set a p (the_set a p - {unat i}))"
| "sets_step a (Change_bit i p) = (Done, upd_set a p (toggle (unat i) (the_set a p)))"
| "sets_step a (And d p q) = (Answer (the_set a p \<inter> the_set a q \<noteq> {}), upd_set a d (the_set a p \<inter> the_set a q))"
| "sets_step a (Andnot d p q) = (Answer (\<not> the_set a p \<subseteq> the_set a q), upd_set a d (the_set a p - the_set a q))"
| "sets_step a (Test_and_set_bit i p) = (Answer (unat i \<in> the_set a p), upd_set a p (insert (unat i) (the_set a p)))"
| "sets_step a (Test_and_clear_bit i p) = (Answer (unat i \<in> the_set a p), upd_set a p (the_set a p - {unat i}))"
| "sets_step a (Test_and_change_bit i p) = (Answer (unat i \<in> the_set a p), upd_set a p (toggle (unat i) (the_set a p)))"
| "sets_step a (Test_bit i p) = (Answer (unat i \<in> the_set a p), a)"
| "sets_step a (Equal p q) = (Answer (the_set a p = the_set a q), a)"
| "sets_step a (Or_equal p q r) = (Answer (the_set a p \<union> the_set a q = the_set a r), a)"
| "sets_step a (Intersects p q) = (Answer (the_set a p \<inter> the_set a q \<noteq> {}), a)"
| "sets_step a (Subset p q) = (Answer (the_set a p \<subseteq> the_set a q), a)"
| "sets_step a (Empty p) = (Answer (the_set a p = {}), a)"
| "sets_step a (Full p) = (Answer (the_set a p = {..<sp_bits a}), a)"
| "sets_step a (Weight p) = (Number (int (card (the_set a p))), a)"
| "sets_step a (Find_next p s) = (Number (int (next_bit (\<lambda>i. i \<in> the_set a p) (unat s) (sp_bits a))), a)"
| "sets_step a (Find_next_zero p s) = (Number (int (next_bit (\<lambda>i. i \<notin> the_set a p) (unat s) (sp_bits a))), a)"
| "sets_step a (Find_next_and p q s) = (Number (int (next_bit (\<lambda>i. i \<in> the_set a p \<inter> the_set a q) (unat s) (sp_bits a))), a)"
| "sets_step a (Find_first p) = (Number (int (next_bit (\<lambda>i. i \<in> the_set a p) 0 (sp_bits a))), a)"
| "sets_step a (Find_first_zero p) = (Number (int (next_bit (\<lambda>i. i \<notin> the_set a p) 0 (sp_bits a))), a)"
| "sets_step a (Find_first_and p q) = (Number (int (next_bit (\<lambda>i. i \<in> the_set a p \<inter> the_set a q) 0 (sp_bits a))), a)"
| "sets_step a (Find_last p) = (Number (int (last_bit (\<lambda>i. i \<in> the_set a p) (sp_bits a))), a)"

text \<open>What the caller owes: bitmaps that exist, positions and ranges below the size.\<close>

primrec pointers :: "bm_op \<Rightarrow> addr set" where
  "pointers (Zero d) = {d}" | "pointers (Fill d) = {d}" | "pointers (Copy d p) = {d, p}"
| "pointers (Copy_clear_tail d p) = {d, p}" | "pointers (Complement d p) = {d, p}" | "pointers (Or d p q) = {d, p, q}"
| "pointers (Xor d p q) = {d, p, q}" | "pointers (Replace d p q m) = {d, p, q, m}" | "pointers (Shift_right d p s) = {d, p}"
| "pointers (Shift_left d p s) = {d, p}" | "pointers (Set p s l) = {p}" | "pointers (Clear p s l) = {p}"
| "pointers (Set_bit i p) = {p}" | "pointers (Clear_bit i p) = {p}" | "pointers (Change_bit i p) = {p}"
| "pointers (And d p q) = {d, p, q}" | "pointers (Andnot d p q) = {d, p, q}" | "pointers (Test_and_set_bit i p) = {p}"
| "pointers (Test_and_clear_bit i p) = {p}" | "pointers (Test_and_change_bit i p) = {p}" | "pointers (Test_bit i p) = {p}"
| "pointers (Equal p q) = {p, q}" | "pointers (Or_equal p q r) = {p, q, r}" | "pointers (Intersects p q) = {p, q}"
| "pointers (Subset p q) = {p, q}" | "pointers (Empty p) = {p}" | "pointers (Full p) = {p}" | "pointers (Weight p) = {p}"
| "pointers (Find_next p s) = {p}" | "pointers (Find_next_zero p s) = {p}" | "pointers (Find_next_and p q s) = {p, q}"
| "pointers (Find_first p) = {p}" | "pointers (Find_first_zero p) = {p}" | "pointers (Find_first_and p q) = {p, q}"
| "pointers (Find_last p) = {p}"

fun in_range :: "nat \<Rightarrow> bm_op \<Rightarrow> bool" where
  "in_range n (Shift_right d p s) \<longleftrightarrow> unat s \<le> n"
| "in_range n (Shift_left d p s) \<longleftrightarrow> unat s \<le> n"
| "in_range n (Set p s l) \<longleftrightarrow> unat s + l \<le> n"
| "in_range n (Clear p s l) \<longleftrightarrow> unat s + l \<le> n"
| "in_range n (Set_bit i p) \<longleftrightarrow> unat i < n"
| "in_range n (Clear_bit i p) \<longleftrightarrow> unat i < n"
| "in_range n (Change_bit i p) \<longleftrightarrow> unat i < n"
| "in_range n (Test_and_set_bit i p) \<longleftrightarrow> unat i < n"
| "in_range n (Test_and_clear_bit i p) \<longleftrightarrow> unat i < n"
| "in_range n (Test_and_change_bit i p) \<longleftrightarrow> unat i < n"
| "in_range n (Test_bit i p) \<longleftrightarrow> unat i < n"
| "in_range n (Weight p) \<longleftrightarrow> n < 2 ^ 31"
| "in_range n _ \<longleftrightarrow> True"

definition sets_permits :: "bm_spec \<Rightarrow> bm_op \<Rightarrow> bool" where
  "sets_permits a op \<longleftrightarrow> pointers op \<subseteq> dom (sp_sets a) \<and> in_range (sp_bits a) op"

section \<open>The operations on arrays\<close>

record bm_state =
  bm_fast :: bool
  bm_bits :: u32
  bm_heap :: heap

definition updating :: "bm_state \<Rightarrow> heap option \<Rightarrow> (bm_out \<times> bm_state) option" where
  "updating s r = map_option (\<lambda>h. (Done, s\<lparr>bm_heap := h\<rparr>)) r"

definition answering :: "bm_state \<Rightarrow> (bool \<times> heap) option \<Rightarrow> (bm_out \<times> bm_state) option" where
  "answering s r = map_option (\<lambda>(b, h). (Answer b, s\<lparr>bm_heap := h\<rparr>)) r"

definition telling :: "bm_state \<Rightarrow> bool option \<Rightarrow> (bm_out \<times> bm_state) option" where
  "telling s r = map_option (\<lambda>b. (Answer b, s)) r"

definition finding :: "bm_state \<Rightarrow> u64 option \<Rightarrow> (bm_out \<times> bm_state) option" where
  "finding s r = map_option (\<lambda>w. (Number (uint w), s)) r"

fun bitmap_step :: "bm_state \<Rightarrow> bm_op \<Rightarrow> (bm_out \<times> bm_state) option" where
  "bitmap_step s (Zero d) = updating s (bitmap_zero d (bm_bits s) (bm_heap s))"
| "bitmap_step s (Fill d) = updating s (bitmap_fill d (bm_bits s) (bm_heap s))"
| "bitmap_step s (Copy d p) = updating s (bitmap_copy d p (bm_bits s) (bm_heap s))"
| "bitmap_step s (Copy_clear_tail d p) = updating s (bitmap_copy_clear_tail d p (bm_bits s) (bm_heap s))"
| "bitmap_step s (Complement d p) = updating s (bitmap_complement d p (bm_bits s) (bm_heap s))"
| "bitmap_step s (Or d p q) = updating s (bitmap_or d p q (bm_bits s) (bm_heap s))"
| "bitmap_step s (Xor d p q) = updating s (bitmap_xor d p q (bm_bits s) (bm_heap s))"
| "bitmap_step s (Replace d p q m) = updating s (bitmap_replace d p q m (bm_bits s) (bm_heap s))"
| "bitmap_step s (Shift_right d p c) = updating s (bitmap_shift_right d p c (bm_bits s) (bm_heap s))"
| "bitmap_step s (Shift_left d p c) = updating s (bitmap_shift_left d p c (bm_bits s) (bm_heap s))"
| "bitmap_step s (Set p i l) = updating s (bitmap_set p i (int l) (bm_heap s))"
| "bitmap_step s (Clear p i l) = updating s (bitmap_clear p i (int l) (bm_heap s))"
| "bitmap_step s (Set_bit i p) = updating s (set_bit i p (bm_heap s))"
| "bitmap_step s (Clear_bit i p) = updating s (clear_bit i p (bm_heap s))"
| "bitmap_step s (Change_bit i p) = updating s (change_bit i p (bm_heap s))"
| "bitmap_step s (And d p q) = answering s (bitmap_and d p q (bm_bits s) (bm_heap s))"
| "bitmap_step s (Andnot d p q) = answering s (bitmap_andnot d p q (bm_bits s) (bm_heap s))"
| "bitmap_step s (Test_and_set_bit i p) = answering s (test_and_set_bit i p (bm_heap s))"
| "bitmap_step s (Test_and_clear_bit i p) = answering s (test_and_clear_bit i p (bm_heap s))"
| "bitmap_step s (Test_and_change_bit i p) = answering s (test_and_change_bit i p (bm_heap s))"
| "bitmap_step s (Test_bit i p) = telling s (test_bit i p (bm_heap s))"
| "bitmap_step s (Equal p q) = telling s (bitmap_equal p q (bm_bits s) (bm_heap s))"
| "bitmap_step s (Or_equal p q r) = telling s (bitmap_or_equal p q r (bm_bits s) (bm_heap s))"
| "bitmap_step s (Intersects p q) = telling s (bitmap_intersects p q (bm_bits s) (bm_heap s))"
| "bitmap_step s (Subset p q) = telling s (bitmap_subset p q (bm_bits s) (bm_heap s))"
| "bitmap_step s (Empty p) = telling s (bitmap_empty p (bm_bits s) (bm_heap s))"
| "bitmap_step s (Full p) = telling s (bitmap_full p (bm_bits s) (bm_heap s))"
| "bitmap_step s (Weight p) = map_option (\<lambda>w. (Number w, s)) (bitmap_weight (bm_fast s) p (bm_bits s) (bm_heap s))"
| "bitmap_step s (Find_next p i) = finding s (find_next_bit (bm_heap s) p (ucast (bm_bits s)) (ucast i))"
| "bitmap_step s (Find_next_zero p i) = finding s (find_next_zero_bit (bm_heap s) p (ucast (bm_bits s)) (ucast i))"
| "bitmap_step s (Find_next_and p q i) = finding s (find_next_and_bit (bm_heap s) p q (ucast (bm_bits s)) (ucast i))"
| "bitmap_step s (Find_first p) = finding s (raw_find_first_bit (bm_heap s) p (ucast (bm_bits s)))"
| "bitmap_step s (Find_first_zero p) = finding s (raw_find_first_zero_bit (bm_heap s) p (ucast (bm_bits s)))"
| "bitmap_step s (Find_first_and p q) = finding s (raw_find_first_and_bit (bm_heap s) p q (ucast (bm_bits s)))"
| "bitmap_step s (Find_last p) = finding s (raw_find_last_bit (bm_heap s) p (ucast (bm_bits s)))"

text \<open>The sets that the arrays hold.\<close>

definition bm_abs :: "bm_state \<Rightarrow> bm_spec" where
  "bm_abs s = \<lparr>sp_bits = unat (bm_bits s),
     sp_sets = (\<lambda>p. if has (bm_heap s) p (unat (bm_bits s)) then Some {i. i < unat (bm_bits s) \<and> is_set (bm_heap s) p i} else None)\<rparr>"

definition bm_rel :: "bm_state \<Rightarrow> bm_spec \<Rightarrow> bool" where
  "bm_rel s a \<longleftrightarrow> a = bm_abs s"

section \<open>Simulation\<close>

definition bm_sim :: "bm_state \<Rightarrow> bm_spec \<Rightarrow> bm_op \<Rightarrow> bool" where
  "bm_sim s a op \<longleftrightarrow> (\<exists>s'. bitmap_step s op = Some (fst (sets_step a op), s') \<and> bm_rel s' (snd (sets_step a op)))"

lemma rel_bits: "bm_rel s a \<Longrightarrow> sp_bits a = unat (bm_bits s)"
  by (simp add: bm_rel_def bm_abs_def)

lemma rel_has: "bm_rel s a \<Longrightarrow> p \<in> dom (sp_sets a) \<Longrightarrow> has (bm_heap s) p (unat (bm_bits s))"
  by (auto simp: bm_rel_def bm_abs_def split: if_splits)

lemma rel_set: "bm_rel s a \<Longrightarrow> p \<in> dom (sp_sets a) \<Longrightarrow> the_set a p = {i. i < unat (bm_bits s) \<and> is_set (bm_heap s) p i}"
  using rel_has [of s a p] by (simp add: bm_rel_def bm_abs_def the_set_def)

lemma rel_becomes:
  assumes "bm_rel s a" and "d \<in> dom (sp_sets a)" and "becomes d (unat (bm_bits s)) P (bm_heap s) h"
    and "S = {i. i < unat (bm_bits s) \<and> P i}"
  shows "bm_rel (s\<lparr>bm_heap := h\<rparr>) (upd_set a d S)"
proof -
  have shape: "same_shape (bm_heap s) h" using assms(3) by (simp add: becomes_def)
  have "has (bm_heap s) d (unat (bm_bits s))" by (rule rel_has [OF assms(1,2)])
  with assms(1,3,4) show ?thesis
    by (auto simp: bm_rel_def bm_abs_def upd_set_def becomes_def same_shape_has [OF shape] fun_eq_iff)
qed

text \<open>
  What an operation may use of its arguments: the arrays exist and hold the sets of the specification, and the positions are in range.
\<close>

definition knows :: "bm_state \<Rightarrow> bm_spec \<Rightarrow> bm_op \<Rightarrow> bool" where
  "knows s a op \<longleftrightarrow> sp_bits a = unat (bm_bits s) \<and> in_range (unat (bm_bits s)) op
     \<and> (\<forall>p\<in>pointers op. has (bm_heap s) p (unat (bm_bits s))
          \<and> the_set a p = {i. i < unat (bm_bits s) \<and> is_set (bm_heap s) p i})"

lemma knowsI: "bm_rel s a \<Longrightarrow> sets_permits a op \<Longrightarrow> knows s a op"
  using rel_bits rel_has rel_set by (auto simp: knows_def sets_permits_def subset_iff)

text \<open>The shapes of an operation: one that updates a bitmap, with or without an answer, a question and a search.\<close>

lemma sim_update:
  assumes "bm_rel s a" and "sets_permits a op"
    and "bitmap_step s op = updating s r" and "sets_step a op = (Done, upd_set a d S)" and "d \<in> pointers op"
    and "knows s a op \<Longrightarrow> \<exists>h. r = Some h \<and> becomes d (unat (bm_bits s)) P (bm_heap s) h"
    and "knows s a op \<Longrightarrow> S = {i. i < unat (bm_bits s) \<and> P i}"
  shows "bm_sim s a op"
proof -
  note k = knowsI [OF assms(1,2)]
  have "d \<in> dom (sp_sets a)" using assms(2,5) by (auto simp: sets_permits_def)
  from assms(3,4) assms(6) [OF k] rel_becomes [OF assms(1) this _ assms(7) [OF k]] show ?thesis
    by (auto simp: bm_sim_def updating_def)
qed

lemma sim_answer:
  assumes "bm_rel s a" and "sets_permits a op"
    and "bitmap_step s op = answering s r" and "sets_step a op = (Answer c, upd_set a d S)" and "d \<in> pointers op"
    and "knows s a op \<Longrightarrow> \<exists>h. r = Some (b, h) \<and> becomes d (unat (bm_bits s)) P (bm_heap s) h"
    and "knows s a op \<Longrightarrow> S = {i. i < unat (bm_bits s) \<and> P i}" and "knows s a op \<Longrightarrow> b = c"
  shows "bm_sim s a op"
proof -
  note k = knowsI [OF assms(1,2)]
  have "d \<in> dom (sp_sets a)" using assms(2,5) by (auto simp: sets_permits_def)
  from assms(3,4) assms(6) [OF k] assms(8) [OF k] rel_becomes [OF assms(1) this _ assms(7) [OF k]] show ?thesis
    by (auto simp: bm_sim_def answering_def)
qed

lemma sim_tell:
  assumes "bm_rel s a" and "sets_permits a op"
    and "bitmap_step s op = telling s r" and "sets_step a op = (Answer c, a)"
    and "knows s a op \<Longrightarrow> r = Some b" and "knows s a op \<Longrightarrow> b = c"
  shows "bm_sim s a op"
  using assms knowsI [OF assms(1,2)] by (simp add: bm_sim_def telling_def)

lemma sim_find:
  assumes "bm_rel s a" and "sets_permits a op"
    and "bitmap_step s op = finding s r" and "sets_step a op = (Number (int k), a)"
    and "knows s a op \<Longrightarrow> r = Some (word_of_nat m)" and "knows s a op \<Longrightarrow> m = k" and "m \<le> unat (bm_bits s)"
  shows "bm_sim s a op"
proof -
  have "m < 2 ^ 64" using assms(7) unsigned_less [where ?'a = nat and w = "bm_bits s"] by simp
  with assms knowsI [OF assms(1,2)] show ?thesis
    by (simp add: bm_sim_def finding_def unsigned_of_nat take_bit_nat_eq_self)
qed

text \<open>An operation that sets or clears some of the bits.\<close>

lemma becomes_at:
  assumes "\<exists>h. r = Some h \<and> same_shape h0 h \<and> (\<forall>q i. is_set h q i = (if q = p \<and> C i then B i else is_set h0 q i))"
  shows "\<exists>h. r = Some h \<and> becomes p n (\<lambda>i. if C i then B i else is_set h0 p i) h0 h"
  using assms by (auto simp: becomes_def)

lemma becomes_test_at:
  assumes "\<exists>h. t = Some (b, h) \<and> r = Some h"
    and "\<exists>h. r = Some h \<and> same_shape h0 h \<and> (\<forall>q i. is_set h q i = (if q = p \<and> C i then B i else is_set h0 q i))"
  shows "\<exists>h. t = Some (b, h) \<and> becomes p n (\<lambda>i. if C i then B i else is_set h0 p i) h0 h"
  using becomes_at [OF assms(2)] assms(1) by fastforce

lemma bits_32: "unat (n :: u32) < 2 ^ 32"
  using unsigned_less [where ?'a = nat and w = n] by simp

lemma last_bit_cong:
  assumes "\<And>i. i < n \<Longrightarrow> P i = Q i"
  shows "last_bit P n = last_bit Q n"
proof -
  have "find P (rev [0..<n]) = find Q (rev [0..<n])" using assms by (intro find_cong) auto
  then show ?thesis by (simp add: last_bit_def)
qed

lemma last_bit_le: "last_bit P n \<le> n"
  by (auto simp: last_bit_def find_Some_iff rev_nth split: option.splits)

lemma bitmap_copy_clear_tail_becomes:
  assumes "has h dst (unat n)" and "has h src (unat n)"
  shows "\<exists>h'. bitmap_copy_clear_tail dst src n h = Some h' \<and> becomes dst (unat n) (is_set h src) h h'"
  using bitmap_copy_clear_tail_spec [OF assms] by blast


lemma next_bit_eq: "n = m \<Longrightarrow> s = t \<Longrightarrow> (\<And>i. i < m \<Longrightarrow> P i = Q i) \<Longrightarrow> next_bit P s n = next_bit Q t m"
  by (simp add: next_bit_cong [of t m P Q])

lemma last_bit_eq: "n = m \<Longrightarrow> (\<And>i. i < m \<Longrightarrow> P i = Q i) \<Longrightarrow> last_bit P n = last_bit Q m"
  by (simp add: last_bit_cong [of m P Q])

lemma shift_right_set:
  "(\<lambda>i. i - c) ` ({i. i < n \<and> P i} - {..<c}) = {i. i < n \<and> (i + c < n \<and> P (i + c))}" for c n :: nat
proof (intro set_eqI iffI)
  fix i assume "i \<in> {i. i < n \<and> (i + c < n \<and> P (i + c))}"
  then have "i + c \<in> {i. i < n \<and> P i} - {..<c}" by simp
  then show "i \<in> (\<lambda>i. i - c) ` ({i. i < n \<and> P i} - {..<c})" by (rule rev_image_eqI) simp
qed auto

lemma shift_left_set:
  "(\<lambda>i. i + c) ` {i. i < n \<and> P i} \<inter> {..<n} = {i. i < n \<and> (c \<le> i \<and> P (i - c))}" for c n :: nat
proof (intro set_eqI iffI)
  fix i assume "i \<in> {i. i < n \<and> (c \<le> i \<and> P (i - c))}"
  then have "i - c \<in> {i. i < n \<and> P i}" "i = i - c + c" "i < n" by auto
  then show "i \<in> (\<lambda>i. i + c) ` {i. i < n \<and> P i} \<inter> {..<n}" by (auto simp only: image_iff)
qed auto


lemma range_set:
  assumes "c + l \<le> (n :: nat)"
  shows "{i. i < n \<and> P i} \<union> {c..<c + l} = {i. i < n \<and> (if c \<le> i \<and> i < c + l then True else P i)}"
    and "{i. i < n \<and> P i} - {c..<c + l} = {i. i < n \<and> (if c \<le> i \<and> i < c + l then False else P i)}"
  using assms by auto


named_theorems bm_steps \<open>every operation keeps the relation and gives the answer of the specification\<close>

lemma sim_zero [bm_steps]: "bm_rel s a \<Longrightarrow> sets_permits a (Zero d) \<Longrightarrow> bm_sim s a (Zero d)"
  by (erule (1) sim_update, rule bitmap_step.simps, rule sets_step.simps, simp, rule bitmap_zero_spec)
    (auto simp: knows_def)

lemma sim_fill [bm_steps]: "bm_rel s a \<Longrightarrow> sets_permits a (Fill d) \<Longrightarrow> bm_sim s a (Fill d)"
  by (erule (1) sim_update, rule bitmap_step.simps, rule sets_step.simps, simp, rule bitmap_fill_spec)
    (auto simp: knows_def)

lemma sim_copy [bm_steps]: "bm_rel s a \<Longrightarrow> sets_permits a (Copy d p) \<Longrightarrow> bm_sim s a (Copy d p)"
  by (erule (1) sim_update, rule bitmap_step.simps, rule sets_step.simps, simp, rule bitmap_copy_spec)
    (auto simp: knows_def)

lemma sim_complement [bm_steps]: "bm_rel s a \<Longrightarrow> sets_permits a (Complement d p) \<Longrightarrow> bm_sim s a (Complement d p)"
  by (erule (1) sim_update, rule bitmap_step.simps, rule sets_step.simps, simp, rule bitmap_complement_spec)
    (auto simp: knows_def)

lemma sim_or [bm_steps]: "bm_rel s a \<Longrightarrow> sets_permits a (Or d p q) \<Longrightarrow> bm_sim s a (Or d p q)"
  by (erule (1) sim_update, rule bitmap_step.simps, rule sets_step.simps, simp, rule bitmap_or_spec)
    (auto simp: knows_def)

lemma sim_xor [bm_steps]: "bm_rel s a \<Longrightarrow> sets_permits a (Xor d p q) \<Longrightarrow> bm_sim s a (Xor d p q)"
  by (erule (1) sim_update, rule bitmap_step.simps, rule sets_step.simps, simp, rule bitmap_xor_spec)
    (auto simp: knows_def)

lemma sim_replace [bm_steps]: "bm_rel s a \<Longrightarrow> sets_permits a (Replace d p q m) \<Longrightarrow> bm_sim s a (Replace d p q m)"
  by (erule (1) sim_update, rule bitmap_step.simps, rule sets_step.simps, simp, rule bitmap_replace_spec)
    (auto simp: knows_def)

lemma sim_copy_clear_tail [bm_steps]: "bm_rel s a \<Longrightarrow> sets_permits a (Copy_clear_tail d p) \<Longrightarrow> bm_sim s a (Copy_clear_tail d p)"
  by (erule (1) sim_update, rule bitmap_step.simps, rule sets_step.simps, simp, rule bitmap_copy_clear_tail_becomes)
    (auto simp: knows_def)

lemma sim_shift_right [bm_steps]: "bm_rel s a \<Longrightarrow> sets_permits a (Shift_right d p c) \<Longrightarrow> bm_sim s a (Shift_right d p c)"
  by (erule (1) sim_update, rule bitmap_step.simps, rule sets_step.simps, simp, rule bitmap_shift_right_spec)
    (simp_all add: knows_def shift_right_set)

lemma sim_shift_left [bm_steps]: "bm_rel s a \<Longrightarrow> sets_permits a (Shift_left d p c) \<Longrightarrow> bm_sim s a (Shift_left d p c)"
  by (erule (1) sim_update, rule bitmap_step.simps, rule sets_step.simps, simp, rule bitmap_shift_left_spec)
    (simp_all add: knows_def shift_left_set)

lemma sim_set [bm_steps]: "bm_rel s a \<Longrightarrow> sets_permits a (Set p c l) \<Longrightarrow> bm_sim s a (Set p c l)"
  by (erule (1) sim_update, rule bitmap_step.simps, rule sets_step.simps, simp, rule becomes_at, rule bitmap_set_spec [where n = \<open>unat (bm_bits s)\<close>])
    (simp add: knows_def, simp add: knows_def, rule bits_32, simp only: knows_def in_range.simps pointers.simps ball_simps range_set)

lemma sim_clear [bm_steps]: "bm_rel s a \<Longrightarrow> sets_permits a (Clear p c l) \<Longrightarrow> bm_sim s a (Clear p c l)"
  by (erule (1) sim_update, rule bitmap_step.simps, rule sets_step.simps, simp, rule becomes_at, rule bitmap_clear_spec [where n = \<open>unat (bm_bits s)\<close>])
    (simp add: knows_def, simp add: knows_def, rule bits_32, simp only: knows_def in_range.simps pointers.simps ball_simps range_set)

lemma sim_set_bit [bm_steps]: "bm_rel s a \<Longrightarrow> sets_permits a (Set_bit i p) \<Longrightarrow> bm_sim s a (Set_bit i p)"
  by (erule (1) sim_update, rule bitmap_step.simps, rule sets_step.simps, simp, rule becomes_at, rule set_bit_spec [where n = \<open>unat (bm_bits s)\<close>])
    (auto simp: knows_def toggle_def)

lemma sim_clear_bit [bm_steps]: "bm_rel s a \<Longrightarrow> sets_permits a (Clear_bit i p) \<Longrightarrow> bm_sim s a (Clear_bit i p)"
  by (erule (1) sim_update, rule bitmap_step.simps, rule sets_step.simps, simp, rule becomes_at, rule clear_bit_spec [where n = \<open>unat (bm_bits s)\<close>])
    (auto simp: knows_def toggle_def)

lemma sim_change_bit [bm_steps]: "bm_rel s a \<Longrightarrow> sets_permits a (Change_bit i p) \<Longrightarrow> bm_sim s a (Change_bit i p)"
  by (erule (1) sim_update, rule bitmap_step.simps, rule sets_step.simps, simp, rule becomes_at, rule change_bit_spec [where n = \<open>unat (bm_bits s)\<close>])
    (auto simp: knows_def toggle_def)

lemma sim_and [bm_steps]: "bm_rel s a \<Longrightarrow> sets_permits a (And d p q) \<Longrightarrow> bm_sim s a (And d p q)"
  by (erule (1) sim_answer, rule bitmap_step.simps, rule sets_step.simps, simp, rule bitmap_and_spec)
    (auto simp: knows_def)

lemma sim_andnot [bm_steps]: "bm_rel s a \<Longrightarrow> sets_permits a (Andnot d p q) \<Longrightarrow> bm_sim s a (Andnot d p q)"
  by (erule (1) sim_answer, rule bitmap_step.simps, rule sets_step.simps, simp, rule bitmap_andnot_spec)
    (auto simp: knows_def)

lemma sim_test_and_set_bit [bm_steps]: "bm_rel s a \<Longrightarrow> sets_permits a (Test_and_set_bit i p) \<Longrightarrow> bm_sim s a (Test_and_set_bit i p)"
  by (erule (1) sim_answer, rule bitmap_step.simps, rule sets_step.simps, simp, rule becomes_test_at, rule test_and_set_bit_spec [where n = \<open>unat (bm_bits s)\<close>])
    (simp add: knows_def, simp add: knows_def, rule set_bit_spec [where n = \<open>unat (bm_bits s)\<close>], auto simp: knows_def toggle_def)

lemma sim_test_and_clear_bit [bm_steps]: "bm_rel s a \<Longrightarrow> sets_permits a (Test_and_clear_bit i p) \<Longrightarrow> bm_sim s a (Test_and_clear_bit i p)"
  by (erule (1) sim_answer, rule bitmap_step.simps, rule sets_step.simps, simp, rule becomes_test_at, rule test_and_clear_bit_spec [where n = \<open>unat (bm_bits s)\<close>])
    (simp add: knows_def, simp add: knows_def, rule clear_bit_spec [where n = \<open>unat (bm_bits s)\<close>], auto simp: knows_def toggle_def)

lemma sim_test_and_change_bit [bm_steps]: "bm_rel s a \<Longrightarrow> sets_permits a (Test_and_change_bit i p) \<Longrightarrow> bm_sim s a (Test_and_change_bit i p)"
  by (erule (1) sim_answer, rule bitmap_step.simps, rule sets_step.simps, simp, rule becomes_test_at, rule test_and_change_bit_spec [where n = \<open>unat (bm_bits s)\<close>])
    (simp add: knows_def, simp add: knows_def, rule change_bit_spec [where n = \<open>unat (bm_bits s)\<close>], auto simp: knows_def toggle_def)

lemma sim_test_bit [bm_steps]: "bm_rel s a \<Longrightarrow> sets_permits a (Test_bit i p) \<Longrightarrow> bm_sim s a (Test_bit i p)"
  by (erule (1) sim_tell, rule bitmap_step.simps, rule sets_step.simps, rule test_bit_spec [where n = \<open>unat (bm_bits s)\<close>])
    (auto simp: knows_def)

lemma sim_equal [bm_steps]: "bm_rel s a \<Longrightarrow> sets_permits a (Equal p q) \<Longrightarrow> bm_sim s a (Equal p q)"
  by (erule (1) sim_tell, rule bitmap_step.simps, rule sets_step.simps, rule bitmap_equal_spec)
    (auto simp: knows_def)

lemma sim_or_equal [bm_steps]: "bm_rel s a \<Longrightarrow> sets_permits a (Or_equal p q r) \<Longrightarrow> bm_sim s a (Or_equal p q r)"
  by (erule (1) sim_tell, rule bitmap_step.simps, rule sets_step.simps, rule bitmap_or_equal_spec)
    (auto simp: knows_def)

lemma sim_intersects [bm_steps]: "bm_rel s a \<Longrightarrow> sets_permits a (Intersects p q) \<Longrightarrow> bm_sim s a (Intersects p q)"
  by (erule (1) sim_tell, rule bitmap_step.simps, rule sets_step.simps, rule bitmap_intersects_spec)
    (auto simp: knows_def)

lemma sim_subset [bm_steps]: "bm_rel s a \<Longrightarrow> sets_permits a (Subset p q) \<Longrightarrow> bm_sim s a (Subset p q)"
  by (erule (1) sim_tell, rule bitmap_step.simps, rule sets_step.simps, rule bitmap_subset_spec)
    (auto simp: knows_def)

lemma sim_empty [bm_steps]: "bm_rel s a \<Longrightarrow> sets_permits a (Empty p) \<Longrightarrow> bm_sim s a (Empty p)"
  by (erule (1) sim_tell, rule bitmap_step.simps, rule sets_step.simps, rule bitmap_empty_spec)
    (auto simp: knows_def)

lemma sim_full [bm_steps]: "bm_rel s a \<Longrightarrow> sets_permits a (Full p) \<Longrightarrow> bm_sim s a (Full p)"
  by (erule (1) sim_tell, rule bitmap_step.simps, rule sets_step.simps, rule bitmap_full_spec)
    (auto simp: knows_def)

lemma sim_find_next [bm_steps]: "bm_rel s a \<Longrightarrow> sets_permits a (Find_next p c) \<Longrightarrow> bm_sim s a (Find_next p c)"
  by (erule (1) sim_find, rule bitmap_step.simps, rule sets_step.simps, rule find_next_bit_spec)
    (simp add: knows_def, rule bits_below_64, rule next_bit_eq, simp_all add: knows_def next_bit_le last_bit_le)

lemma sim_find_next_zero [bm_steps]: "bm_rel s a \<Longrightarrow> sets_permits a (Find_next_zero p c) \<Longrightarrow> bm_sim s a (Find_next_zero p c)"
  by (erule (1) sim_find, rule bitmap_step.simps, rule sets_step.simps, rule find_next_zero_bit_spec)
    (simp add: knows_def, rule bits_below_64, rule next_bit_eq, simp_all add: knows_def next_bit_le last_bit_le)

lemma sim_find_next_and [bm_steps]: "bm_rel s a \<Longrightarrow> sets_permits a (Find_next_and p q c) \<Longrightarrow> bm_sim s a (Find_next_and p q c)"
  by (erule (1) sim_find, rule bitmap_step.simps, rule sets_step.simps, rule find_next_and_bit_spec)
    (simp add: knows_def, simp add: knows_def, rule bits_below_64, rule next_bit_eq, simp_all add: knows_def next_bit_le last_bit_le)

lemma sim_find_first [bm_steps]: "bm_rel s a \<Longrightarrow> sets_permits a (Find_first p) \<Longrightarrow> bm_sim s a (Find_first p)"
  by (erule (1) sim_find, rule bitmap_step.simps, rule sets_step.simps, rule find_first_bit_spec)
    (simp add: knows_def, rule bits_below_64, rule next_bit_eq, simp_all add: knows_def next_bit_le last_bit_le)

lemma sim_find_first_zero [bm_steps]: "bm_rel s a \<Longrightarrow> sets_permits a (Find_first_zero p) \<Longrightarrow> bm_sim s a (Find_first_zero p)"
  by (erule (1) sim_find, rule bitmap_step.simps, rule sets_step.simps, rule find_first_zero_bit_spec)
    (simp add: knows_def, rule bits_below_64, rule next_bit_eq, simp_all add: knows_def next_bit_le last_bit_le)

lemma sim_find_first_and [bm_steps]: "bm_rel s a \<Longrightarrow> sets_permits a (Find_first_and p q) \<Longrightarrow> bm_sim s a (Find_first_and p q)"
  by (erule (1) sim_find, rule bitmap_step.simps, rule sets_step.simps, rule find_first_and_bit_spec)
    (simp add: knows_def, simp add: knows_def, rule bits_below_64, rule next_bit_eq, simp_all add: knows_def next_bit_le last_bit_le)

lemma sim_find_last [bm_steps]: "bm_rel s a \<Longrightarrow> sets_permits a (Find_last p) \<Longrightarrow> bm_sim s a (Find_last p)"
  by (erule (1) sim_find, rule bitmap_step.simps, rule sets_step.simps, rule find_last_bit_spec)
    (simp add: knows_def, rule last_bit_eq, simp_all add: knows_def next_bit_le last_bit_le)

lemma sim_weight [bm_steps]:
  assumes "bm_rel s a" and "sets_permits a (Weight p)"
  shows "bm_sim s a (Weight p)"
  using assms(1) knowsI [OF assms] bitmap_weight_spec [of "bm_heap s" p "bm_bits s"]
  by (simp add: bm_sim_def knows_def)







end
