(* ===== verification/BitmapAlloc.thy ===== *)
theory BitmapAlloc
  imports BitmapWords
begin

text \<open>
  Allocation from bitmaps, \<open>lib/src/linux/bitmap.c\<close>: the search for an aligned area of free bits and
  the regions whose size is a power of two.
\<close>

section \<open>Operations\<close>

definition ALIGN_MASK :: "u64 \<Rightarrow> u64 \<Rightarrow> u64" where
  "ALIGN_MASK x m = (x + m) AND NOT m"

partial_function (option) bitmap_find_next_zero_area_off ::
  "heap \<Rightarrow> addr \<Rightarrow> u64 \<Rightarrow> u64 \<Rightarrow> u32 \<Rightarrow> u64 \<Rightarrow> u64 \<Rightarrow> u64 option" where
  "bitmap_find_next_zero_area_off h map0 size0 start nr align_mask align_offset =
     do {
       index \<leftarrow> find_next_zero_bit h map0 size0 start;
       let index = ALIGN_MASK (index + align_offset) align_mask - align_offset;
       let stop = index + ucast nr;
       if stop > size0 then Some stop
       else do {
         i \<leftarrow> find_next_bit h map0 stop index;
         if i < stop
         then bitmap_find_next_zero_area_off h map0 size0 (i + 1) nr align_mask align_offset
         else Some index
       }
     }"

definition bitmap_find_next_zero_area :: "heap \<Rightarrow> addr \<Rightarrow> u64 \<Rightarrow> u64 \<Rightarrow> u32 \<Rightarrow> u64 \<Rightarrow> u64 option" where
  "bitmap_find_next_zero_area h map0 size0 start nr align_mask =
     bitmap_find_next_zero_area_off h map0 size0 start nr align_mask 0"

declare bitmap_find_next_zero_area_off.simps [simp del]
declare bitmap_find_next_zero_area_off.simps [code]

datatype reg_kind = REG_OP_ISFREE | REG_OP_ALLOC | REG_OP_RELEASE

text \<open>A shift of the \<open>int\<close> 1 by 31 or more is undefined.\<close>

definition reg_op :: "addr \<Rightarrow> u32 \<Rightarrow> nat \<Rightarrow> reg_kind \<Rightarrow> heap \<Rightarrow> (int \<times> heap) option" where
  "reg_op bitmap pos order kind h =
     (if order \<ge> 31 then None
      else let
        nbits_reg = 2 ^ order :: nat;
        index = unat pos div 64;
        offset = unat pos - index * 64;
        nlongs_reg = (nbits_reg + 63) div 64;
        nbitsinlong = min nbits_reg 64;
        m = push_bit (nbitsinlong - 1) 1 :: u64;
        m = m + (m - 1);
        m = push_bit offset m
      in case kind of
        REG_OP_ISFREE \<Rightarrow>
          do {
            busy \<leftarrow> any_up 0 nlongs_reg (\<lambda>i. do { w \<leftarrow> rd h bitmap (index + i); Some (w AND m \<noteq> 0) });
            Some (if busy then 0 else 1, h)
          }
      | REG_OP_ALLOC \<Rightarrow>
          do {
            h \<leftarrow> for_up 0 nlongs_reg (\<lambda>i h. do { w \<leftarrow> rd h bitmap (index + i); wr h bitmap (index + i) (w OR m) }) h;
            Some (0, h)
          }
      | REG_OP_RELEASE \<Rightarrow>
          do {
            h \<leftarrow> for_up 0 nlongs_reg (\<lambda>i h. do { w \<leftarrow> rd h bitmap (index + i); wr h bitmap (index + i) (w AND NOT m) }) h;
            Some (0, h)
          })"

partial_function (option) find_free_loop :: "addr \<Rightarrow> u32 \<Rightarrow> nat \<Rightarrow> u32 \<Rightarrow> heap \<Rightarrow> (int \<times> heap) option" where
  "find_free_loop bitmap bits order pos h =
     (let stop = pos + push_bit order 1
      in if stop \<le> bits
         then do {
           (free, h) \<leftarrow> reg_op bitmap pos order REG_OP_ISFREE h;
           if free = 0 then find_free_loop bitmap bits order stop h
           else do {
             (_, h) \<leftarrow> reg_op bitmap pos order REG_OP_ALLOC h;
             Some (sint pos, h)
           }
         }
         else Some (- ENOMEM, h))"

declare find_free_loop.simps [simp del]
declare find_free_loop.simps [code]

definition bitmap_find_free_region :: "addr \<Rightarrow> u32 \<Rightarrow> nat \<Rightarrow> heap \<Rightarrow> (int \<times> heap) option" where
  "bitmap_find_free_region bitmap bits order h = find_free_loop bitmap bits order 0 h"

definition bitmap_release_region :: "addr \<Rightarrow> u32 \<Rightarrow> nat \<Rightarrow> heap \<Rightarrow> heap option" where
  "bitmap_release_region bitmap pos order h = map_option snd (reg_op bitmap pos order REG_OP_RELEASE h)"

definition bitmap_allocate_region :: "addr \<Rightarrow> u32 \<Rightarrow> nat \<Rightarrow> heap \<Rightarrow> (int \<times> heap) option" where
  "bitmap_allocate_region bitmap pos order h =
     do {
       (free, h) \<leftarrow> reg_op bitmap pos order REG_OP_ISFREE h;
       if free = 0 then Some (- EBUSY, h)
       else reg_op bitmap pos order REG_OP_ALLOC h
     }"

section \<open>Areas\<close>

text \<open>An area of free bits at \<open>i\<close> with the alignment, inside of the bitmap.\<close>

definition zero_area :: "heap \<Rightarrow> addr \<Rightarrow> nat \<Rightarrow> nat \<Rightarrow> nat \<Rightarrow> nat \<Rightarrow> nat \<Rightarrow> bool" where
  "zero_area h p n nr k off i \<longleftrightarrow> 2 ^ k dvd i + off \<and> i + nr \<le> n \<and> (\<forall>j\<in>{i..<i + nr}. \<not> is_set h p j)"

lemma round_up:
  fixes x k :: nat
  defines "r \<equiv> x + (2 ^ k - 1) - (x + (2 ^ k - 1)) mod 2 ^ k"
  shows "2 ^ k dvd r" and "x \<le> r" and "r < x + 2 ^ k" and "x \<le> y \<Longrightarrow> 2 ^ k dvd y \<Longrightarrow> r \<le> y"
proof -
  let ?s = "x + (2 ^ k - 1)"
  have r: "r = ?s div 2 ^ k * 2 ^ k" unfolding r_def by (rule minus_mod_eq_div_mult)
  then show "2 ^ k dvd r" by simp
  have p: "(0 :: nat) < 2 ^ k" by simp
  then have m: "?s mod 2 ^ k < 2 ^ k" by (rule mod_less_divisor)
  show "x \<le> r" unfolding r_def using m by linarith
  show "r < x + 2 ^ k" unfolding r_def using p by linarith
  assume y: "x \<le> y" "2 ^ k dvd y"
  then obtain q where q: "y = q * 2 ^ k" by (metis dvd_div_mult_self)
  then have "?s < q * 2 ^ k + 2 ^ k" using y(1) p by linarith
  then have "?s div 2 ^ k < Suc q" by (intro less_mult_imp_div_less) simp
  then show "r \<le> y" unfolding r q by simp
qed


lemma aligned_index:
  fixes z off :: u64
  assumes "k < 64" and "unat z + unat off + 2 ^ k \<le> 2 ^ 64"
  defines "idx \<equiv> unat (ALIGN_MASK (z + off) (mask k) - off)"
  shows "2 ^ k dvd idx + unat off" and "unat z \<le> idx" and "idx + unat off < unat z + unat off + 2 ^ k"
    and "unat z \<le> y \<Longrightarrow> 2 ^ k dvd y + unat off \<Longrightarrow> idx \<le> y"
proof -
  let ?x = "unat z + unat off"
  let ?r = "?x + (2 ^ k - 1) - (?x + (2 ^ k - 1)) mod 2 ^ k"
  note r = round_up [where k = k and x = ?x]
  have um: "unat (mask k :: u64) = 2 ^ k - 1"
    using assms(1) by (simp add: unat_mask_word)
  have p: "(0 :: nat) < 2 ^ k" by simp
  have s: "unat (z + off) = ?x"
    by (rule unat_add_lem [THEN iffD1]) (use assms(2) p in \<open>simp; linarith\<close>)
  have "unat (z + off + mask k) = ?x + (2 ^ k - 1)"
    unfolding s [symmetric] um [symmetric]
    by (rule unat_add_lem [THEN iffD1]) (unfold s um, use assms(2) p in \<open>simp; linarith\<close>)
  then have a: "unat (ALIGN_MASK (z + off) (mask k)) = ?r"
    by (simp add: ALIGN_MASK_def unat_and_not_mask)
  have "off \<le> ALIGN_MASK (z + off) (mask k)"
    unfolding word_le_nat_alt a using r(2) by linarith
  then have idx: "idx = ?r - unat off" by (simp only: idx_def unat_sub_if' word_le_nat_alt a if_True)
  have ge: "unat off \<le> ?r" using r(2) by linarith
  then have sum: "idx + unat off = ?r" using idx by simp
  show "2 ^ k dvd idx + unat off" unfolding sum by (rule r(1))
  show "unat z \<le> idx" using sum r(2) by linarith
  show "idx + unat off < unat z + unat off + 2 ^ k" unfolding sum by (rule r(3))
  assume "unat z \<le> y" "2 ^ k dvd y + unat off"
  then have "?r \<le> y + unat off" by (intro r(4)) simp_all
  then show "idx \<le> y" using sum by linarith
qed

text \<open>The first area from \<open>s\<close> on, or a position behind the end when there is none.\<close>

definition first_area :: "heap \<Rightarrow> addr \<Rightarrow> nat \<Rightarrow> nat \<Rightarrow> nat \<Rightarrow> nat \<Rightarrow> nat \<Rightarrow> nat \<Rightarrow> bool" where
  "first_area h p n nr k off s r \<longleftrightarrow>
     (if \<exists>i\<ge>s. zero_area h p n nr k off i
      then s \<le> r \<and> zero_area h p n nr k off r \<and> (\<forall>i\<ge>s. zero_area h p n nr k off i \<longrightarrow> r \<le> i)
      else r > n)"

lemma first_area_none:
  assumes "\<And>i. s \<le> i \<Longrightarrow> zero_area h p n nr k off i \<Longrightarrow> idx \<le> i" and "n < idx + nr"
  shows "first_area h p n nr k off s (idx + nr)"
proof -
  have "\<not> zero_area h p n nr k off i" if "s \<le> i" for i
    using assms(1) [OF that] assms(2) by (auto simp: zero_area_def)
  with assms(2) show ?thesis by (auto simp: first_area_def)
qed

lemma first_area_later:
  assumes first: "\<And>i. s \<le> i \<Longrightarrow> zero_area h p n nr k off i \<Longrightarrow> idx \<le> i"
    and i: "idx \<le> i" "i < idx + nr" "is_set h p i" "s \<le> i" and "first_area h p n nr k off (i + 1) r"
  shows "first_area h p n nr k off s r"
proof -
  let ?A = "zero_area h p n nr k off"
  have skip: "i + 1 \<le> j" if j: "s \<le> j" "?A j" for j
  proof (rule ccontr)
    assume "\<not> i + 1 \<le> j"
    then have "i \<in> {j..<j + nr}" using first [OF j] i(2) by simp
    with j(2) i(3) show False by (auto simp: zero_area_def)
  qed
  then have "(\<exists>j\<ge>s. ?A j) \<longleftrightarrow> (\<exists>j\<ge>i + 1. ?A j)"
    using i(4) by (meson le_trans le_add1)
  with assms(6) skip i(4) show ?thesis by (auto simp: first_area_def split: if_splits)
qed

lemma first_area_here:
  assumes "\<And>i. s \<le> i \<Longrightarrow> zero_area h p n nr k off i \<Longrightarrow> idx \<le> i" and "zero_area h p n nr k off idx" and "s \<le> idx"
  shows "first_area h p n nr k off s idx"
  using assms by (auto simp: first_area_def)

lemma unat_of_nat_64: "i \<le> unat (w :: u64) \<Longrightarrow> unat (word_of_nat i :: u64) = i"
  using unsigned_less [where ?'a = nat and w = w] by (simp add: unsigned_of_nat take_bit_nat_eq_self)

lemma zero_area_loop:
  fixes off size0 :: u64 and nr :: u32
  assumes "has h p (unat size0)" and "k < 64" and "unat size0 + unat off + unat nr + 2 ^ k \<le> 2 ^ 64" and "0 < unat nr"
    and "unat size0 + 64 \<le> 2 ^ 64"
  shows "\<exists>r. bitmap_find_next_zero_area_off h p size0 start nr (mask k) off = Some r
    \<and> first_area h p (unat size0) (unat nr) k (unat off) (unat start) (unat r)"
proof (induction "unat size0 - unat start" arbitrary: start rule: less_induct)
  case less
  let ?n = "unat size0" and ?m = "unat nr" and ?A = "zero_area h p (unat size0) (unat nr) k (unat off)"
  define z where "z = next_bit (\<lambda>i. \<not> is_set h p i) (unat start) ?n"
  have zn: "z \<le> ?n" by (simp add: z_def next_bit_le)
  have sz: "unat start \<le> z \<or> z = ?n"
    unfolding z_def by (cases rule: next_bit_cases [of "unat start" "\<lambda>i. \<not> is_set h p i" ?n]) auto
  note uz = unat_of_nat_64 [OF zn]
  define index where "index = ALIGN_MASK (word_of_nat z + off) (mask k) - off"
  have "unat (word_of_nat z :: u64) + unat off + 2 ^ k \<le> 2 ^ 64" using assms(3) zn uz by linarith
  note idx = aligned_index [OF assms(2) this, folded index_def, unfolded uz]
  have um: "unat (ucast nr :: u64) = ?m" by simp
  have stop: "unat (index + ucast nr) = unat index + ?m"
    unfolding um [symmetric] by (rule unat_add_lem [THEN iffD1]) (unfold um, use assms(3) idx(3) zn in \<open>simp; linarith\<close>)
  have first: "unat index \<le> i" if "unat start \<le> i" "?A i" for i
  proof (rule idx(4))
    from that(2) assms(4) have i: "i < ?n" "\<not> is_set h p i" by (auto simp: zero_area_def)
    show "z \<le> i"
      using i that(1) unfolding z_def
      by (cases rule: next_bit_cases [of "unat start" "\<lambda>i. \<not> is_set h p i" ?n]) (auto simp: not_less [symmetric])
  qed (use that in \<open>simp add: zero_area_def\<close>)
  have search: "find_next_zero_bit h p size0 start = Some (word_of_nat z)"
    unfolding z_def by (rule find_next_zero_bit_spec [OF assms(1,5)])
  note unfold = bitmap_find_next_zero_area_off.simps [of h p size0 start nr "mask k" off, unfolded search Option.bind.bind_lunit Let_def, folded index_def]
  show ?case
  proof (cases "?n < unat index + ?m")
    case True
    with first_area_none [OF first True] show ?thesis
      by (simp add: unfold word_less_nat_alt stop)
  next
    case False
    define i where "i = next_bit (is_set h p) (unat index) (unat index + ?m)"
    have "i \<le> ?n" using False next_bit_le [of "is_set h p" "unat index" "unat index + ?m"] by (simp add: i_def)
    note ui = unat_of_nat_64 [OF this]
    have "has h p (unat (index + ucast nr))" using assms(1) False stop by (auto simp: has_def)
    moreover have "unat (index + ucast nr) + 64 \<le> 2 ^ 64" using stop False assms(5) by linarith
    ultimately have search2: "find_next_bit h p (index + ucast nr) index = Some (word_of_nat i)"
      by (simp add: find_next_bit_spec i_def stop)
    have start: "unat start \<le> unat index" using sz idx(2) zn False assms(4) by linarith
    show ?thesis
    proof (cases "i < unat index + ?m")
      case True
      then have i: "unat index \<le> i" "is_set h p i"
        using next_bit_cases [of "unat index" "is_set h p" "unat index + ?m"] unfolding i_def by auto
      have s1: "unat (word_of_nat i + 1 :: u64) = i + 1"
        using True False unsigned_less [where ?'a = nat and w = size0] ui by (subst unat_add_lem [THEN iffD1]) simp_all
      have "?n - unat (word_of_nat i + 1 :: u64) < ?n - unat start"
        using s1 True False start i(1) by linarith
      from less [OF this] obtain r where r: "bitmap_find_next_zero_area_off h p size0 (word_of_nat i + 1) nr (mask k) off = Some r"
        "first_area h p ?n ?m k (unat off) (i + 1) (unat r)"
        unfolding s1 by blast
      with first_area_later [OF first i(1) True i(2) _ r(2)] start i(1) True False show ?thesis
        by (simp add: unfold word_less_nat_alt stop search2 ui)
    next
      case no: False
      then have "\<not> is_set h p j" if "unat index \<le> j" "j < unat index + ?m" for j
        using that next_bit_cases [of "unat index" "is_set h p" "unat index + ?m"] unfolding i_def by auto
      then have "?A (unat index)" using idx(1) False by (simp add: zero_area_def)
      with first_area_here [OF first _ start] no False show ?thesis
        by (simp add: unfold word_less_nat_alt stop search2 ui)
    qed
  qed
qed


text \<open>
  The search for an area of free bits always returns; when some area of the wanted
  length with the wanted alignment exists at or after \<open>start\<close>, the result is the first such area, and
  otherwise it is a position behind the end of the bitmap.
\<close>

theorem bitmap_find_next_zero_area_off_correct:
  fixes size0 start align_mask align_offset :: u64 and nr :: u32
  assumes "has h p (unat size0)" and "align_mask = 2 ^ k - 1" and "k < 64" and "0 < unat nr"
    and "unat size0 + unat align_offset + unat nr + 2 ^ k \<le> 2 ^ 64" and "unat size0 + 64 \<le> 2 ^ 64"
  shows "\<exists>r. bitmap_find_next_zero_area_off h p size0 start nr align_mask align_offset = Some r
    \<and> first_area h p (unat size0) (unat nr) k (unat align_offset) (unat start) (unat r)"
  using zero_area_loop [OF assms(1,3,5,4,6)] assms(2) by (simp add: mask_eq_exp_minus_1)

theorem bitmap_find_next_zero_area_off_correct_witness:
  "\<exists>r. bitmap_find_next_zero_area_off [1 \<mapsto> [0xF0F, 0]] 1 100 2 5 3 1 = Some r
    \<and> first_area [1 \<mapsto> [0xF0F, 0]] 1 100 5 2 1 2 (unat r)"
proof -
  have "has [1 \<mapsto> [0xF0F, 0]] 1 (unat (100 :: u64))" by (simp add: has_def)
  from bitmap_find_next_zero_area_off_correct [OF this, of 3 2 5 1 2] show ?thesis by simp
qed

section \<open>Regions\<close>

lemma region_mask:
  assumes "0 < n" and "n \<le> 64"
  shows "push_bit (n - 1) 1 + (push_bit (n - 1) 1 - 1) = (mask n :: u64)"
proof -
  have "(2 :: u64) ^ n = 2 * 2 ^ (n - 1)" using assms(1) by (simp flip: power_Suc)
  then show ?thesis by (simp add: push_bit_eq_mult mask_eq_exp_minus_1 algebra_simps)
qed

text \<open>The words that \<open>__reg_op\<close> visits, and the mask it uses in each of them, are the bits of the region.\<close>

definition region_longs :: "nat \<Rightarrow> nat" where
  "region_longs order = (2 ^ order + 63) div 64"

definition region_word :: "nat \<Rightarrow> nat \<Rightarrow> u64" where
  "region_word pos order = push_bit (pos mod 64) (mask (min (2 ^ order) 64))"


lemma bit_region_word:
  assumes "j < 64"
  shows "bit (region_word pos order) j \<longleftrightarrow> pos mod 64 \<le> j \<and> j < pos mod 64 + min (2 ^ order) 64"
  using assms by (auto simp: region_word_def bit_push_bit_iff bit_mask_iff)

lemma region_fits:
  assumes "(2 :: nat) ^ order dvd pos" and "order < 6"
  shows "pos mod 64 + 2 ^ order \<le> 64"
proof -
  have 64: "(2 :: nat) ^ order dvd 64"
    using le_imp_power_dvd [of order 6 "2 :: nat"] assms(2) by simp
  have "2 ^ order dvd pos mod 64" using assms(1) 64 by (simp add: dvd_mod)
  then have "2 ^ order dvd 64 - pos mod 64" by (rule dvd_diff_nat [OF 64])
  moreover have "0 < 64 - pos mod 64" by simp
  ultimately have "2 ^ order \<le> 64 - pos mod 64" by (rule dvd_imp_le)
  then show ?thesis using mod_less_divisor [of 64 pos] by linarith
qed

lemma in_one_word:
  fixes P Q a b B :: nat
  assumes "a + B \<le> 64" and "b < 64"
  shows "P \<le> Q \<and> Q < P + 1 \<and> a \<le> b \<and> b < a + B \<longleftrightarrow> 64 * P + a \<le> 64 * Q + b \<and> 64 * Q + b < 64 * P + a + B"
proof -
  have "P \<le> Q \<and> Q < P + 1" if "64 * P + a \<le> 64 * Q + b" "64 * Q + b < 64 * P + a + B"
    using that assms by linarith
  moreover have "a \<le> b \<longleftrightarrow> 64 * P + a \<le> 64 * Q + b" "b < a + B \<longleftrightarrow> 64 * Q + b < 64 * P + a + B" if "P = Q" for P
    using that by simp_all
  ultimately show ?thesis by (metis Suc_eq_plus1 le_antisym less_Suc_eq_le)
qed

lemma region_bits:
  assumes "2 ^ order dvd pos"
  shows "pos div 64 \<le> q div 64 \<and> q div 64 < pos div 64 + region_longs order \<and> bit (region_word pos order) (q mod 64)
    \<longleftrightarrow> pos \<le> q \<and> q < pos + 2 ^ order"
proof (cases "order < 6")
  case True
  note fits = region_fits [OF assms True]
  then have "(2 :: nat) ^ order \<le> 64" "(0 :: nat) < 2 ^ order" by simp_all
  then have l: "region_longs order = 1" "min (2 ^ order) 64 = (2 :: nat) ^ order"
    unfolding region_longs_def by (simp_all add: min_absorb1 div_nat_eqI)
  have "(pos div 64 \<le> q div 64 \<and> q div 64 < pos div 64 + 1 \<and> pos mod 64 \<le> q mod 64 \<and> q mod 64 < pos mod 64 + 2 ^ order)
      \<longleftrightarrow> pos \<le> q \<and> q < pos + 2 ^ order"
    using in_one_word [OF fits, of "q mod 64" "pos div 64" "q div 64"] by simp
  then show ?thesis by (simp add: bit_region_word l)
next
  case False
  then have "(64 :: nat) dvd 2 ^ order"
    using le_imp_power_dvd [of 6 order "2 :: nat"] by simp
  then obtain L :: nat where L: "2 ^ order = 64 * L" by (rule dvdE)
  then have pos: "pos mod 64 = 0" using assms by (metis dvd_mult_left dvd_imp_mod_0)
  have "0 < L" using L by (metis mult_0_right neq0_conv power_not_zero zero_neq_numeral)
  then have l: "region_longs order = L" "min (64 * L) 64 = 64" by (simp_all add: region_longs_def L)
  have "(pos div 64 \<le> q div 64 \<and> q div 64 < pos div 64 + L) \<longleftrightarrow> pos \<le> q \<and> q < pos + 64 * L"
    using pos mult_div_mod_eq [of 64 pos] mult_div_mod_eq [of 64 q] mod_less_divisor [of 64 q] by linarith
  then show ?thesis by (simp add: bit_region_word l L pos)
qed

text \<open>The body of \<open>__reg_op\<close> with the index and the mask of the region.\<close>

lemma reg_op_region:
  assumes "order < 31"
  shows "reg_op p pos order kind h =
     (let index = unat pos div 64; m = region_word (unat pos) order
      in case kind of
        REG_OP_ISFREE \<Rightarrow>
          do {
            busy \<leftarrow> any_up 0 (region_longs order) (\<lambda>i. do { w \<leftarrow> rd h p (index + i); Some (w AND m \<noteq> 0) });
            Some (if busy then 0 else 1, h)
          }
      | REG_OP_ALLOC \<Rightarrow>
          map_option (Pair 0) (for_up 0 (region_longs order) (\<lambda>i h. do { w \<leftarrow> rd h p (index + i); wr h p (index + i) (w OR m) }) h)
      | REG_OP_RELEASE \<Rightarrow>
          map_option (Pair 0) (for_up 0 (region_longs order) (\<lambda>i h. do { w \<leftarrow> rd h p (index + i); wr h p (index + i) (w AND NOT m) }) h))"
proof -
  have off: "unat pos - unat pos div 64 * 64 = unat pos mod 64" by (rule minus_div_mult_eq_mod)
  have m: "push_bit (min (2 ^ order) 64 - 1) 1 + (push_bit (min (2 ^ order) 64 - 1) 1 - 1) = (mask (min (2 ^ order) 64) :: u64)"
    by (rule region_mask) simp_all
  show ?thesis
    using assms unfolding reg_op_def Let_def off m region_word_def region_longs_def
    by (auto split: reg_kind.split Option.bind_split)
qed

lemma region_longs_le:
  assumes "2 ^ order dvd pos" and "pos + 2 ^ order \<le> n" and "i < region_longs order"
  shows "64 * (pos div 64 + i) < n"
proof (cases "i = 0")
  case True
  have "(0 :: nat) < 2 ^ order" by simp
  then have "pos < n" using assms(2) by (rule less_le_trans [OF less_add_same_cancel1 [THEN iffD2]])
  then show ?thesis using True mult_div_mod_eq [of 64 pos] by simp
next
  case False
  have "pos + (64 * i) < pos + 2 ^ order"
    using assms(3) less_mult_imp_div_less by (auto simp: region_longs_def)
  then have "pos + 64 * i < n" using assms(2) by (rule less_le_trans)
  moreover have "64 * (pos div 64 + i) \<le> pos + 64 * i" by (simp add: add_mult_distrib2)
  ultimately show ?thesis by (rule le_less_trans [rotated])
qed


definition region :: "u32 \<Rightarrow> nat \<Rightarrow> nat set" where
  "region pos order = {unat pos..<unat pos + 2 ^ order}"

lemma region_iff:
  assumes "2 ^ order dvd unat pos"
  shows "q \<in> region pos order \<longleftrightarrow> unat pos div 64 \<le> q div 64 \<and> q div 64 < unat pos div 64 + region_longs order
    \<and> bit (region_word (unat pos) order) (q mod 64)"
  using region_bits [OF assms, of q] by (simp add: region_def)

lemma reg_isfree_spec:
  assumes "order < 31" and "2 ^ order dvd unat pos" and "has h p n" and "unat pos + 2 ^ order \<le> n"
  shows "reg_op p pos order REG_OP_ISFREE h = Some (if \<exists>q\<in>region pos order. is_set h p q then 0 else 1, h)"
proof -
  let ?k = "unat pos div 64" and ?m = "region_word (unat pos) order"
  have rd: "rd h p (?k + i) = Some (word_at h p (?k + i))" if "i < region_longs order" for i
    by (rule rd_has [OF assms(3) region_longs_le [OF assms(2,4) that]])
  have "any_up 0 (region_longs order) (\<lambda>i. do { w \<leftarrow> rd h p (?k + i); Some (w AND ?m \<noteq> 0) })
      = Some (\<exists>i. 0 \<le> i \<and> i < region_longs order \<and> word_at h p (?k + i) AND ?m \<noteq> 0)"
    by (rule any_up_spec) (simp add: rd)
  moreover have "(\<exists>i. 0 \<le> i \<and> i < region_longs order \<and> word_at h p (?k + i) AND ?m \<noteq> 0) \<longleftrightarrow> (\<exists>q\<in>region pos order. is_set h p q)"
  proof
    assume "\<exists>i. 0 \<le> i \<and> i < region_longs order \<and> word_at h p (?k + i) AND ?m \<noteq> 0"
    then obtain i j where i: "i < region_longs order" "j < 64" "bit (word_at h p (?k + i)) j" "bit ?m j"
      by (auto simp: word_ne_0 bit_and_iff)
    let ?q = "64 * (?k + i) + j"
    have d: "?q div 64 = ?k + i" "?q mod 64 = j" using i(2) by (simp_all only: mod_mult_self4 div_mult_self4 mod_less div_less add_0_right zero_neq_numeral not_False_eq_True)
    have "?q \<in> region pos order" unfolding region_iff [OF assms(2)] d using i by simp
    moreover have "is_set h p ?q" unfolding is_set_def d by (rule i(3))
    ultimately show "\<exists>q\<in>region pos order. is_set h p q" by blast
  next
    assume "\<exists>q\<in>region pos order. is_set h p q"
    then obtain q where "q \<in> region pos order" "is_set h p q" by blast
    then have "q div 64 = ?k + (q div 64 - ?k)" "q div 64 - ?k < region_longs order" "bit (word_at h p (q div 64) AND ?m) (q mod 64)"
      by (auto simp: region_iff [OF assms(2)] is_set_def bit_and_iff)
    then show "\<exists>i. 0 \<le> i \<and> i < region_longs order \<and> word_at h p (?k + i) AND ?m \<noteq> 0"
      by (metis bit_0_eq bot_apply bot_bool_def le0)
  qed
  ultimately show ?thesis by (simp add: reg_op_region [OF assms(1)] Let_def)
qed

lemma reg_update_spec:
  assumes "2 ^ order dvd unat pos" and "has h p n" and "unat pos + 2 ^ order \<le> n"
    and f: "\<And>w m j. j < 64 \<Longrightarrow> bit (f w m) j = (if bit (m :: u64) j then b else bit w j)"
  shows "\<exists>h'. for_up 0 (region_longs order) (\<lambda>i h. do { w \<leftarrow> rd h p (unat pos div 64 + i); wr h p (unat pos div 64 + i) (f w (region_word (unat pos) order)) }) h = Some h'
    \<and> same_shape h h' \<and> (\<forall>q i. is_set h' q i = (if q = p \<and> i \<in> region pos order then b else is_set h q i))"
proof -
  let ?k = "unat pos div 64" and ?m = "region_word (unat pos) order"
  let ?g = "\<lambda>j. f (word_at h p j) ?m"
  have "\<exists>h'. for_up 0 (region_longs order) (\<lambda>i h. do { w \<leftarrow> rd h p (?k + i); wr h p (?k + i) (f w ?m) }) h = Some h'
      \<and> changes p {?k..<?k + region_longs order} ?g h h'"
  proof (rule for_up_inv [where P = "\<lambda>i h1. changes p {?k..<?k + i} ?g h h1"])
    fix i h1
    assume i: "i < region_longs order" and ch: "changes p {?k..<?k + i} ?g h h1"
    note le = region_longs_le [OF assms(1,3) i] and shape = changes_shape [OF ch]
    have "insert (?k + i) {?k..<?k + i} = {?k..<?k + Suc i}" by auto
    with changes_put [OF ch assms(2) le refl] show "\<exists>h2. (do { w \<leftarrow> rd h1 p (?k + i); wr h1 p (?k + i) (f w ?m) }) = Some h2
        \<and> changes p {?k..<?k + Suc i} ?g h h2"
      by (simp add: rd_shape [OF shape assms(2) le] wr_shape [OF shape assms(2) le] changes_word [OF ch])
  qed (simp_all add: changes_refl)
  then obtain h' where h': "for_up 0 (region_longs order) (\<lambda>i h. do { w \<leftarrow> rd h p (?k + i); wr h p (?k + i) (f w ?m) }) h = Some h'"
    "changes p {?k..<?k + region_longs order} ?g h h'" by blast
  have "is_set h' q i = (if q = p \<and> i \<in> region pos order then b else is_set h q i)" for q i
    unfolding is_set_def changes_word [OF h'(2)] region_iff [OF assms(1)] by (simp add: f)
  with h'(1) changes_shape [OF h'(2)] show ?thesis by blast
qed

lemma reg_alloc_spec:
  assumes "order < 31" and "2 ^ order dvd unat pos" and "has h p n" and "unat pos + 2 ^ order \<le> n"
  shows "\<exists>h'. reg_op p pos order REG_OP_ALLOC h = Some (0, h')
    \<and> same_shape h h' \<and> (\<forall>q i. is_set h' q i = (if q = p \<and> i \<in> region pos order then True else is_set h q i))"
  using reg_update_spec [OF assms(2-4), of "\<lambda>w m. w OR m" True]
  by (auto simp: reg_op_region [OF assms(1)] Let_def bit_or_iff)

lemma reg_release_spec:
  assumes "order < 31" and "2 ^ order dvd unat pos" and "has h p n" and "unat pos + 2 ^ order \<le> n"
  shows "\<exists>h'. reg_op p pos order REG_OP_RELEASE h = Some (0, h')
    \<and> same_shape h h' \<and> (\<forall>q i. is_set h' q i = (if q = p \<and> i \<in> region pos order then False else is_set h q i))"
  using reg_update_spec [OF assms(2-4), of "\<lambda>w m. w AND NOT m" False]
  by (auto simp: reg_op_region [OF assms(1)] Let_def bit_simps)


lemma zero_area_region: "zero_area h p n (2 ^ order) order 0 (unat pos) \<longleftrightarrow>
    2 ^ order dvd unat pos \<and> unat pos + 2 ^ order \<le> n \<and> \<not> (\<exists>q\<in>region pos order. is_set h p q)"
  by (auto simp: zero_area_def region_def)

text \<open>The first free region has been taken, or there is none and nothing has changed.\<close>

definition takes_region :: "addr \<Rightarrow> nat \<Rightarrow> nat \<Rightarrow> heap \<Rightarrow> int \<Rightarrow> heap \<Rightarrow> bool" where
  "takes_region p n order h r h' \<longleftrightarrow>
     (if \<exists>i. zero_area h p n (2 ^ order) order 0 i
      then \<exists>pos. r = int (unat pos) \<and> zero_area h p n (2 ^ order) order 0 (unat pos)
        \<and> (\<forall>i. zero_area h p n (2 ^ order) order 0 i \<longrightarrow> unat pos \<le> i)
        \<and> (\<forall>q i. is_set h' q i = (if q = p \<and> i \<in> region pos order then True else is_set h q i))
      else r = - ENOMEM \<and> h' = h)"

lemma unat_add_region:
  fixes pos bits :: u32
  assumes "order < 31" and "unat pos \<le> unat bits" and "unat bits \<le> 2 ^ 31"
  shows "unat (pos + 2 ^ order) = unat pos + 2 ^ order"
proof -
  have o: "(2 :: nat) ^ order \<le> 2 ^ 30" using assms(1) by (intro power_increasing) simp_all
  have "unat (2 ^ order :: u32) = 2 ^ order"
    using assms(1) unsigned_of_nat [where ?'a = nat and ?'b = 32 and n = "2 ^ order"]
    by (simp only: of_nat_power of_nat_numeral take_bit_of_exp) simp
  moreover from this o assms(2,3) have "unat pos + unat (2 ^ order :: u32) < 2 ^ 32" by simp
  ultimately show ?thesis by (simp add: unat_word_ariths)
qed

lemma find_free_loop_spec:
  fixes pos bits :: u32
  assumes "has h p (unat bits)" and "order < 31" and "unat bits \<le> 2 ^ 31"
  shows "2 ^ order dvd unat pos \<Longrightarrow> unat pos \<le> unat bits \<Longrightarrow>
    \<forall>i. zero_area h p (unat bits) (2 ^ order) order 0 i \<longrightarrow> unat pos \<le> i \<Longrightarrow>
    \<exists>r h'. find_free_loop p bits order pos h = Some (r, h') \<and> takes_region p (unat bits) order h r h'"
proof (induction "unat bits - unat pos" arbitrary: pos rule: less_induct)
  case less
  let ?A = "zero_area h p (unat bits) (2 ^ order) order 0"
  note stop = unat_add_region [OF assms(2) less.prems(2) assms(3)]
  note loop = find_free_loop.simps [of p bits order pos h, unfolded push_bit_of_1 Let_def word_le_nat_alt stop]
  have next': "\<forall>i. ?A i \<longrightarrow> unat pos + 2 ^ order \<le> i" if "\<not> ?A (unat pos)"
  proof (intro allI impI)
    fix i assume i: "?A i"
    with that less.prems(3) have "unat pos < i" by (metis le_neq_implies_less)
    moreover have "2 ^ order dvd i" using i by (simp add: zero_area_def)
    ultimately show "unat pos + 2 ^ order \<le> i"
      using less.prems(1) dvd_imp_le [OF dvd_diff_nat [of "2 ^ order" i "unat pos"]] by simp
  qed
  show ?case
  proof (cases "unat pos + 2 ^ order \<le> unat bits")
    case False
    have "\<not> ?A i" for i
    proof
      assume i: "?A i"
      have "\<not> ?A (unat pos)" using False by (simp add: zero_area_def)
      with next' i have "unat pos + 2 ^ order \<le> i" by blast
      moreover have "i \<le> unat bits" using i by (simp add: zero_area_def)
      ultimately show False using False by simp
    qed
    then show ?thesis
      using False by (simp add: loop takes_region_def)
  next
    case True
    note free = reg_isfree_spec [OF assms(2) less.prems(1) assms(1) True]
    show ?thesis
    proof (cases "\<exists>q\<in>region pos order. is_set h p q")
      case busy: True
      then have later: "\<forall>i. ?A i \<longrightarrow> unat (pos + 2 ^ order) \<le> i"
        unfolding stop by (intro next') (simp add: zero_area_region)
      have "unat bits - unat (pos + 2 ^ order) < unat bits - unat pos"
        using True unfolding stop by (intro diff_less_mono2) (simp, rule less_le_trans [of _ "unat pos + 2 ^ order"], simp_all)
      then have "\<exists>r h'. find_free_loop p bits order (pos + 2 ^ order) h = Some (r, h') \<and> takes_region p (unat bits) order h r h'"
        by (rule less.hyps) (use True less.prems(1) later in \<open>simp_all add: stop\<close>)
      then show ?thesis
        using True busy by (simp add: loop free)
    next
      case idle: False
      from reg_alloc_spec [OF assms(2) less.prems(1) assms(1) True] obtain h' where
        h': "reg_op p pos order REG_OP_ALLOC h = Some (0, h')"
          "\<forall>q i. is_set h' q i = (if q = p \<and> i \<in> region pos order then True else is_set h q i)" by blast
      have A: "?A (unat pos)" using True less.prems(1) idle by (simp add: zero_area_region)
      have "unat pos < unat pos + 2 ^ order" by simp
      also note True
      also note assms(3)
      finally have "unat pos < 2 ^ 31" .
      then have s: "sint pos = int (unat pos)" by (rule sint_small)
      show ?thesis
        using True idle h' A less.prems(3) s
        by (auto simp: loop free takes_region_def)
    qed
  qed
qed


text \<open>
  C27: Taking a region returns the first aligned free region of the wanted order and sets exactly its
  bits, or fails with \<open>-ENOMEM\<close> and changes nothing when there is none.
\<close>

theorem bitmap_find_free_region_correct:
  fixes bits :: u32
  assumes "has h p (unat bits)" and "order < 31" and "unat bits \<le> 2 ^ 31"
  shows "\<exists>r h'. bitmap_find_free_region p bits order h = Some (r, h') \<and> takes_region p (unat bits) order h r h'"
  using find_free_loop_spec [OF assms, of 0] by (simp add: bitmap_find_free_region_def)

theorem bitmap_find_free_region_correct_witness:
  "\<exists>r h'. bitmap_find_free_region 1 100 3 [1 \<mapsto> [0x100F0F, 7]] = Some (r, h')
    \<and> takes_region 1 100 3 [1 \<mapsto> [0x100F0F, 7]] r h'"
proof -
  have "has [1 \<mapsto> [0x100F0F, 7]] 1 (unat (100 :: u32))" by (simp add: has_def)
  from bitmap_find_free_region_correct [OF this, of 3] show ?thesis by simp
qed

text \<open>
  Allocating a given region succeeds exactly when its bits are free, fails with
  \<open>-EBUSY\<close> without a change otherwise, and a release of the region restores every bit of every
  bitmap.
\<close>

theorem bitmap_region_roundtrip:
  assumes "has h p n" and "order < 31" and "2 ^ order dvd unat pos" and "unat pos + 2 ^ order \<le> n"
  shows "if \<exists>i\<in>region pos order. is_set h p i
    then bitmap_allocate_region p pos order h = Some (- EBUSY, h)
    else \<exists>h1 h2. bitmap_allocate_region p pos order h = Some (0, h1)
      \<and> (\<forall>q i. is_set h1 q i = (if q = p \<and> i \<in> region pos order then True else is_set h q i))
      \<and> bitmap_release_region p pos order h1 = Some h2 \<and> (\<forall>q i. is_set h2 q i = is_set h q i)"
proof (cases "\<exists>i\<in>region pos order. is_set h p i")
  case True
  then show ?thesis
    by (simp add: bitmap_allocate_region_def reg_isfree_spec [OF assms(2,3,1,4)])
next
  case False
  from reg_alloc_spec [OF assms(2,3,1,4)] obtain h1 where
    h1: "reg_op p pos order REG_OP_ALLOC h = Some (0, h1)" "same_shape h h1"
      "\<forall>q i. is_set h1 q i = (if q = p \<and> i \<in> region pos order then True else is_set h q i)" by blast
  have "has h1 p n" using h1(2) assms(1) by (simp add: same_shape_has)
  from reg_release_spec [OF assms(2,3) this assms(4)] obtain h2 where
    h2: "reg_op p pos order REG_OP_RELEASE h1 = Some (0, h2)"
      "\<forall>q i. is_set h2 q i = (if q = p \<and> i \<in> region pos order then False else is_set h1 q i)" by blast
  have "is_set h2 q i = is_set h q i" for q i
    using False by (cases "q = p \<and> i \<in> region pos order") (auto simp: h2(2) h1(3))
  with False h1 h2 show ?thesis
    by (simp add: bitmap_allocate_region_def bitmap_release_region_def reg_isfree_spec [OF assms(2,3,1,4)])
qed

theorem bitmap_region_roundtrip_witness:
  "if \<exists>i\<in>region 64 6. is_set [1 \<mapsto> [5, 0]] 1 i
    then bitmap_allocate_region 1 64 6 [1 \<mapsto> [5, 0]] = Some (- EBUSY, [1 \<mapsto> [5, 0]])
    else \<exists>h1 h2. bitmap_allocate_region 1 64 6 [1 \<mapsto> [5, 0]] = Some (0, h1)
      \<and> (\<forall>q i. is_set h1 q i = (if q = 1 \<and> i \<in> region 64 6 then True else is_set [1 \<mapsto> [5, 0]] q i))
      \<and> bitmap_release_region 1 64 6 h1 = Some h2 \<and> (\<forall>q i. is_set h2 q i = is_set [1 \<mapsto> [5, 0]] q i)"
proof (rule bitmap_region_roundtrip)
  show "has [1 \<mapsto> [5, 0]] 1 128" by (simp add: has_def)
qed simp_all

end
