(* ===== verification/BitmapOrder.thy ===== *)
theory BitmapOrder
  imports BitmapWords "HOL-Library.Signed_Division"
begin

text \<open>
  Positions and ordinals of the set bits of a bitmap, and the maps between bit positions that two
  bitmaps define: \<open>bitmap_pos_to_ord\<close>, \<open>bitmap_ord_to_pos\<close>, \<open>bitmap_remap\<close> and \<open>bitmap_bitremap\<close> of
  \<open>lib/src/linux/bitmap.c\<close>.
\<close>

section \<open>Operations\<close>

definition bitmap_pos_to_ord :: "bool \<Rightarrow> heap \<Rightarrow> addr \<Rightarrow> u32 \<Rightarrow> u32 \<Rightarrow> int option" where
  "bitmap_pos_to_ord fast h buf pos nbits =
     (if pos \<ge> nbits then Some (- 1)
      else do {
        b \<leftarrow> test_bit pos buf h;
        if \<not> b then Some (- 1) else bitmap_weight fast buf pos h
      })"

partial_function (option) ord_loop :: "heap \<Rightarrow> addr \<Rightarrow> u32 \<Rightarrow> u32 \<Rightarrow> u32 \<Rightarrow> u32 option" where
  "ord_loop h buf nbits pos ord =
     (if pos < nbits \<and> ord \<noteq> 0
      then do {
        pos \<leftarrow> find_next_bit h buf (ucast nbits) (ucast (pos + 1));
        ord_loop h buf nbits (ucast pos) (ord - 1)
      }
      else Some pos)"

definition bitmap_ord_to_pos :: "heap \<Rightarrow> addr \<Rightarrow> u32 \<Rightarrow> u32 \<Rightarrow> u32 option" where
  "bitmap_ord_to_pos h buf ord nbits =
     do { pos \<leftarrow> raw_find_first_bit h buf (ucast nbits); ord_loop h buf nbits (ucast pos) ord }"

text \<open>The loop \<open>for_each_set_bit\<close>: it finds the next bit in the bitmap as it is after the body.\<close>

partial_function (option) for_each_set_bit :: "addr \<Rightarrow> u32 \<Rightarrow> (u32 \<Rightarrow> heap \<Rightarrow> heap option) \<Rightarrow> u32 \<Rightarrow> heap \<Rightarrow> heap option" where
  "for_each_set_bit map0 size0 body i h =
     (if i < size0
      then do {
        h \<leftarrow> body i h;
        i \<leftarrow> find_next_bit h map0 (ucast size0) (ucast (i + 1));
        for_each_set_bit map0 size0 body (ucast i) h
      }
      else Some h)"

text \<open>The body of the loop over the bits of \<open>src\<close>; \<open>w\<close> is the weight of \<open>new\<close>.\<close>

definition remap_body :: "bool \<Rightarrow> addr \<Rightarrow> addr \<Rightarrow> addr \<Rightarrow> u32 \<Rightarrow> u32 \<Rightarrow> u32 \<Rightarrow> heap \<Rightarrow> heap option" where
  "remap_body fast dst old new nbits w oldbit h =
     do {
       n \<leftarrow> bitmap_pos_to_ord fast h old oldbit nbits;
       if n < 0 \<or> w = 0 then set_bit oldbit dst h
       else do { pos \<leftarrow> bitmap_ord_to_pos h new (word_of_int n mod w) nbits; set_bit pos dst h }
     }"

definition bitmap_remap :: "bool \<Rightarrow> addr \<Rightarrow> addr \<Rightarrow> addr \<Rightarrow> addr \<Rightarrow> u32 \<Rightarrow> heap \<Rightarrow> heap option" where
  "bitmap_remap fast dst src old new nbits h =
     (if dst = src then Some h
      else do {
        h \<leftarrow> bitmap_zero dst nbits h;
        w \<leftarrow> bitmap_weight fast new nbits h;
        i \<leftarrow> find_next_bit h src (ucast nbits) 0;
        for_each_set_bit src nbits (remap_body fast dst old new nbits (word_of_int w)) (ucast i) h
      })"

definition bitmap_bitremap :: "bool \<Rightarrow> heap \<Rightarrow> u32 \<Rightarrow> addr \<Rightarrow> addr \<Rightarrow> u32 \<Rightarrow> int option" where
  "bitmap_bitremap fast h oldbit old new bits =
     do {
       w \<leftarrow> bitmap_weight fast new bits h;
       n \<leftarrow> bitmap_pos_to_ord fast h old oldbit bits;
       if n < 0 \<or> w = 0 then Some (sint oldbit)
       else do { pos \<leftarrow> bitmap_ord_to_pos h new (word_of_int (n smod w)) bits; Some (sint pos) }
     }"

declare ord_loop.simps [simp del] for_each_set_bit.simps [simp del]
declare ord_loop.simps [code] for_each_set_bit.simps [code]


section \<open>Ordinals\<close>

text \<open>The positions of the set bits in ascending order.\<close>

definition bits_list :: "heap \<Rightarrow> addr \<Rightarrow> nat \<Rightarrow> nat list" where
  "bits_list h p n = filter (is_set h p) [0..<n]"

lemma upt_split: "s \<le> i \<Longrightarrow> i < n \<Longrightarrow> [s..<n] = [s..<i] @ i # [Suc i..<n]"
  using upt_add_eq_append [of s i "n - i"] by (simp add: upt_conv_Cons)

lemma filter_next:
  "next_bit P s n < n \<Longrightarrow> filter P [s..<n] = next_bit P s n # filter P [Suc (next_bit P s n)..<n]"
  "\<not> next_bit P s n < n \<Longrightarrow> filter P [s..<n] = []"
proof -
  let ?i = "next_bit P s n"
  assume lt: "?i < n"
  then have i: "s \<le> ?i" "P ?i" "\<forall>j. s \<le> j \<longrightarrow> j < ?i \<longrightarrow> \<not> P j"
    using next_bit_cases [of s P n] by auto
  then have "[s..<n] = [s..<?i] @ ?i # [Suc ?i..<n]"
    using lt by (intro upt_split)
  moreover have "filter P [s..<?i] = []" using i(3) by (simp add: filter_empty_conv)
  ultimately show "filter P [s..<n] = ?i # filter P [Suc ?i..<n]" using i(2) by simp
next
  assume "\<not> next_bit P s n < n"
  then show "filter P [s..<n] = []"
    using next_bit_less_iff [of P s n] by (auto simp: filter_empty_conv)
qed

lemma ucast_next:
  fixes n :: u32
  shows "(ucast (word_of_nat (next_bit P s (unat n)) :: u64) :: u32) = word_of_nat (next_bit P s (unat n))"
    and "unat (word_of_nat (next_bit P s (unat n)) :: u32) = next_bit P s (unat n)"
proof -
  have "next_bit P s (unat n) < 2 ^ 32"
    using next_bit_le [of P s "unat n"] unsigned_less [where ?'a = nat and w = n] by simp
  then show "unat (word_of_nat (next_bit P s (unat n)) :: u32) = next_bit P s (unat n)"
    by (simp add: unsigned_of_nat take_bit_nat_eq_self)
  show "(ucast (word_of_nat (next_bit P s (unat n)) :: u64) :: u32) = word_of_nat (next_bit P s (unat n))"
    by (metis of_nat_unat next_bit_unat(1))
qed

lemma unat_suc:
  fixes i n :: u32
  assumes "unat i < unat n"
  shows "unat (i + 1) = Suc (unat i)"
  using assms unsigned_less [where ?'a = nat and w = n] by (simp add: unat_word_ariths)

lemma find_next_from:
  fixes n i :: u32
  assumes "has h p (unat n)" and "unat i < unat n"
  shows "find_next_bit h p (ucast n) (ucast (i + 1)) = Some (word_of_nat (next_bit (is_set h p) (Suc (unat i)) (unat n)))"
  using find_next_bit_spec [OF _ bits_below_64, of h p n "ucast (i + 1)"] assms(1) unat_suc [OF assms(2)] by simp

lemma ord_loop_spec:
  fixes n ord :: u32
  assumes "has h p (unat n)"
  shows "ord_loop h p n (word_of_nat (next_bit (is_set h p) s (unat n))) ord
    = Some (let L = filter (is_set h p) [s..<unat n] in if unat ord < length L then word_of_nat (L ! unat ord) else n)"
proof (induction "unat ord" arbitrary: ord s)
  case 0
  let ?i = "next_bit (is_set h p) s (unat n)"
  from 0 have "ord = 0" by (simp add: unat_eq_zero)
  then have "ord_loop h p n pos ord = Some pos" for pos by (subst ord_loop.simps) simp
  moreover have "?i < unat n \<or> ?i = unat n" using next_bit_le [of "is_set h p" s "unat n"] by linarith
  ultimately show ?case
    using filter_next [of "is_set h p" s "unat n"] \<open>ord = 0\<close> by (auto simp: Let_def)
next
  case (Suc k)
  let ?i = "next_bit (is_set h p) s (unat n)" and ?L = "filter (is_set h p) [s..<unat n]"
  have ne: "ord \<noteq> 0" using Suc.hyps(2) by auto
  then have ord: "ord \<noteq> 0" "unat (ord - 1) = k" using Suc.hyps(2) unat_minus_one [OF ne] by simp_all
  show ?case
  proof (cases "?i < unat n")
    case True
    with Suc.hyps(1) [of "ord - 1" "Suc ?i"] ord(2) filter_next(1) [OF True] Suc.hyps(2) [symmetric] show ?thesis
      by (subst ord_loop.simps) (simp add: ord(1) word_less_nat_alt ucast_next find_next_from [OF assms] Let_def)
  next
    case False
    then have "?i = unat n" using next_bit_le [of "is_set h p" s "unat n"] by simp
    with filter_next(2) [OF False] show ?thesis
      by (subst ord_loop.simps) (simp add: Let_def)
  qed
qed

lemma bitmap_ord_to_pos_spec:
  assumes "has h p (unat n)"
  shows "bitmap_ord_to_pos h p ord n
    = Some (if unat ord < length (bits_list h p (unat n)) then word_of_nat (bits_list h p (unat n) ! unat ord) else n)"
  using ord_loop_spec [OF assms, of 0 ord] find_first_bit_spec [OF _ bits_below_64, of h p n] assms
  by (simp add: bitmap_ord_to_pos_def ucast_next bits_list_def Let_def)

lemma length_filter_card: "length (filter P [0..<n]) = card {i. i < n \<and> P i}"
  by (simp add: length_filter_conv_card conj_commute cong: conj_cong)

lemma bitmap_pos_to_ord_spec:
  fixes pos n :: u32
  assumes "has h p (unat n)" and "unat n < 2 ^ 31"
  shows "bitmap_pos_to_ord fast h p pos n
    = Some (if unat pos < unat n \<and> is_set h p (unat pos) then int (length (bits_list h p (unat pos))) else - 1)"
proof (cases "unat pos < unat n")
  case True
  have "has h p (unat pos)" using assms(1) True by (auto simp: has_def)
  then have "bitmap_weight fast p pos h = Some (int (length (bits_list h p (unat pos))))"
    using bitmap_weight_spec [of h p pos fast] True assms(2) by (simp add: bits_list_def length_filter_card)
  with True test_bit_spec [OF assms(1) True] show ?thesis
    by (simp add: bitmap_pos_to_ord_def word_le_nat_alt)
qed (simp add: bitmap_pos_to_ord_def word_le_nat_alt)

text \<open>The ordinal of a set bit is its index in the list, and its position is found again.\<close>

lemma bits_list_nth:
  assumes "i < n" and "is_set h p i"
  shows "length (bits_list h p i) < length (bits_list h p n)" and "bits_list h p n ! length (bits_list h p i) = i"
proof -
  have "[0..<n] = [0..<i] @ i # [Suc i..<n]"
    using assms(1) by (intro upt_split) simp_all
  then have "bits_list h p n = bits_list h p i @ i # filter (is_set h p) [Suc i..<n]"
    using assms(2) by (simp add: bits_list_def)
  then show "length (bits_list h p i) < length (bits_list h p n)" "bits_list h p n ! length (bits_list h p i) = i"
    by (simp_all add: nth_append)
qed


section \<open>Remapping\<close>

lemma for_each_set_bit_spec:
  fixes n :: u32
  assumes body: "\<And>i h. i < unat n \<Longrightarrow> P i \<Longrightarrow> I (filter P [0..<i]) h
      \<Longrightarrow> \<exists>h'. body (word_of_nat i) h = Some h' \<and> I (filter P [0..<i] @ [i]) h'"
    and bits: "\<And>xs h. I xs h \<Longrightarrow> has h p (unat n) \<and> (\<forall>i<unat n. is_set h p i = P i)"
  shows "s \<le> unat n \<Longrightarrow> I (filter P [0..<s]) h \<Longrightarrow>
    \<exists>h'. for_each_set_bit p n body (word_of_nat (next_bit P s (unat n))) h = Some h' \<and> I (filter P [0..<unat n]) h'"
proof (induction "unat n - s" arbitrary: s h rule: less_induct)
  case less
  let ?i = "next_bit P s (unat n)"
  show ?case
  proof (cases "?i < unat n")
    case True
    then have i: "s \<le> ?i" "P ?i" "\<forall>j. s \<le> j \<longrightarrow> j < ?i \<longrightarrow> \<not> P j"
      using next_bit_cases [of s P "unat n"] by auto
    have "filter P [0..<?i] = filter P [0..<s]"
      using upt_add_eq_append [of 0 s "?i - s"] i(1,3) by (simp add: filter_empty_conv)
    with body [OF True i(2)] less.prems(2) obtain h1 where
      h1: "body (word_of_nat ?i) h = Some h1" "I (filter P [0..<?i] @ [?i]) h1" by auto
    then have "I (filter P [0..<Suc ?i]) h1" using i(2) by simp
    then have "\<exists>h'. for_each_set_bit p n body (word_of_nat (next_bit P (Suc ?i) (unat n))) h1 = Some h' \<and> I (filter P [0..<unat n]) h'"
      by (rule less.hyps [rotated 2]) (use True i(1) in simp_all)
    moreover have "next_bit (is_set h1 p) (Suc ?i) (unat n) = next_bit P (Suc ?i) (unat n)"
      using bits [OF h1(2)] by (intro next_bit_cong) simp
    ultimately show ?thesis
      using True h1(1) bits [OF h1(2)] find_next_from [of h1 p n "word_of_nat ?i"]
      by (subst for_each_set_bit.simps) (simp add: word_less_nat_alt ucast_next)
  next
    case False
    then have "filter P [0..<unat n] = filter P [0..<s]"
      using upt_add_eq_append [of 0 s "unat n - s"] less.prems(1) filter_next(2) [OF False] by simp
    with False less.prems(2) show ?thesis
      by (subst for_each_set_bit.simps) (simp add: word_less_nat_alt ucast_next)
  qed
qed

definition remap_pos :: "heap \<Rightarrow> addr \<Rightarrow> addr \<Rightarrow> nat \<Rightarrow> nat \<Rightarrow> nat" where
  "remap_pos h old new n i =
     (if is_set h old i \<and> bits_list h new n \<noteq> []
      then bits_list h new n ! (length (bits_list h old i) mod length (bits_list h new n))
      else i)"

lemma bits_list_less: "i \<in> set (bits_list h p n) \<Longrightarrow> i < n"
  by (simp add: bits_list_def)

lemma remap_pos_less: "i < n \<Longrightarrow> remap_pos h old new n i < n"
  using bits_list_less [OF nth_mem] by (auto simp: remap_pos_def)

lemma becomes_has: "becomes dst n P h h' \<Longrightarrow> has h' q m \<longleftrightarrow> has h q m"
  by (simp add: becomes_def same_shape_def)

lemma becomes_bits_list: "becomes dst n P h h' \<Longrightarrow> q \<noteq> dst \<Longrightarrow> bits_list h' q m = bits_list h q m"
  by (auto simp: becomes_def bits_list_def intro!: filter_cong)

lemma becomes_remap_pos: "becomes dst n P h h' \<Longrightarrow> old \<noteq> dst \<Longrightarrow> new \<noteq> dst \<Longrightarrow> remap_pos h' old new m i = remap_pos h old new m i"
  using becomes_bits_list by (auto simp: remap_pos_def becomes_def)

lemma becomes_set_bit:
  assumes "becomes dst (unat n) P h h1" and "has h dst (unat n)" and "unat pos < unat n"
  shows "\<exists>h2. set_bit pos dst h1 = Some h2 \<and> becomes dst (unat n) (\<lambda>j. P j \<or> j = unat pos) h h2"
proof -
  have "has h1 dst (unat n)" using assms(2) by (simp add: becomes_has [OF assms(1)])
  from set_bit_spec [OF this assms(3)] obtain h2 where h2: "set_bit pos dst h1 = Some h2" "same_shape h1 h2"
    "\<forall>q i. is_set h2 q i = (if q = dst \<and> i = unat pos then True else is_set h1 q i)" by blast
  with assms(1) have "becomes dst (unat n) (\<lambda>j. P j \<or> j = unat pos) h h2"
    by (auto simp: becomes_def intro: same_shape_trans)
  with h2(1) show ?thesis by blast
qed


lemma length_bits_list: "length (bits_list h p n) \<le> n"
  using length_filter_le [of "is_set h p" "[0..<n]"] by (simp add: bits_list_def)

lemma unat_of_nat_32: "m \<le> unat (n :: u32) \<Longrightarrow> unat (word_of_nat m :: u32) = m"
  using unsigned_less [where ?'a = nat and w = n] by (simp add: unsigned_of_nat take_bit_nat_eq_self)

lemma remap_target:
  fixes n :: u32
  assumes "has h old (unat n)" and "has h new (unat n)" and "unat n < 2 ^ 31" and "i < unat n"
    and "w = word_of_nat (length (bits_list h new (unat n)))"
  shows "(do {
      k \<leftarrow> bitmap_pos_to_ord fast h old (word_of_nat i) n;
      if k < 0 \<or> w = 0 then f (word_of_nat i)
      else do { pos \<leftarrow> bitmap_ord_to_pos h new (word_of_int k mod w) n; f pos }
    }) = f (word_of_nat (remap_pos h old new (unat n) i) :: u32)"
proof -
  let ?k = "length (bits_list h old i)" and ?L = "bits_list h new (unat n)"
  have i: "unat (word_of_nat i :: u32) = i" using assms(4) by (intro unat_of_nat_32 [of _ n]) simp
  have uw: "unat w = length ?L" unfolding assms(5) by (rule unat_of_nat_32) (rule length_bits_list)
  then have w0: "w = 0 \<longleftrightarrow> ?L = []" by (metis length_0_conv unat_eq_zero)
  have "?k \<le> unat n" using length_bits_list [of h old i] assms(4) by linarith
  from unat_of_nat_32 [OF this] have "unat (word_of_nat ?k mod w) = ?k mod length ?L" by (simp add: unat_mod uw)
  moreover have "?k mod length ?L < length ?L" if "?L \<noteq> []" using that by simp
  ultimately show ?thesis
    using assms(4) by (simp add: bitmap_pos_to_ord_spec [OF assms(1,3)] bitmap_ord_to_pos_spec [OF assms(2)] remap_pos_def i w0)
qed

lemma bitmap_weight_list:
  assumes "has h p (unat n)" and "unat n < 2 ^ 31"
  shows "bitmap_weight fast p n h = Some (int (length (bits_list h p (unat n))))"
  using bitmap_weight_spec [OF assms] by (simp add: bits_list_def length_filter_card)

lemma bitmap_bitremap_spec:
  fixes n oldbit :: u32
  assumes "has h old (unat n)" and "has h new (unat n)" and "unat n < 2 ^ 31" and "unat oldbit < unat n"
  shows "bitmap_bitremap fast h oldbit old new n = Some (int (remap_pos h old new (unat n) (unat oldbit)))"
proof -
  let ?L = "bits_list h new (unat n)" and ?r = "remap_pos h old new (unat n) (unat oldbit)"
  let ?k = "length (bits_list h old (unat oldbit))"
  have r: "?r < unat n" by (rule remap_pos_less [OF assms(4)])
  then have ur: "sint (word_of_nat ?r :: u32) = int ?r" using assms(3) by (simp add: signed_of_nat signed_take_bit_int_eq_self)
  have uo: "sint oldbit = int (unat oldbit)"
    by (rule sint_small) (use assms(3,4) in linarith)
  have "?k mod length ?L \<le> unat n"
    using length_bits_list [of h old "unat oldbit"] assms(4) mod_less_eq_dividend [of ?k "length ?L"] by linarith
  then have "unat (word_of_nat (?k mod length ?L) :: u32) = ?k mod length ?L" by (rule unat_of_nat_32)
  moreover have "int ?k smod int (length ?L) = int (?k mod length ?L)" if "?L \<noteq> []"
    using that by (cases "bits_list h old (unat oldbit) = []") (simp_all add: signed_modulo_int_def zmod_int)
  moreover have "?k mod length ?L < length ?L" if "?L \<noteq> []" using that by simp
  ultimately show ?thesis
    using ur uo assms(4)
    by (auto simp: bitmap_bitremap_def bitmap_weight_list [OF assms(2,3)] bitmap_pos_to_ord_spec [OF assms(1,3)]
        bitmap_ord_to_pos_spec [OF assms(2)] remap_pos_def)
qed


lemma becomes_cong: "becomes dst n P h h' \<Longrightarrow> (\<And>i. i < n \<Longrightarrow> P i = Q i) \<Longrightarrow> becomes dst n Q h h'"
  by (simp add: becomes_def)

lemma remap_body_spec:
  fixes n :: u32
  assumes "has h dst (unat n)" and "has h old (unat n)" and "has h new (unat n)" and "old \<noteq> dst" and "new \<noteq> dst" and "unat n < 2 ^ 31"
    and i: "i < unat n" and h1: "becomes dst (unat n) (\<lambda>j. \<exists>i\<in>set xs. remap_pos h old new (unat n) i = j) h h1"
  shows "\<exists>h2. remap_body fast dst old new n (word_of_nat (length (bits_list h new (unat n)))) (word_of_nat i) h1 = Some h2
    \<and> becomes dst (unat n) (\<lambda>j. \<exists>i\<in>set (xs @ [i]). remap_pos h old new (unat n) i = j) h h2"
proof -
  let ?r = "remap_pos h old new (unat n)"
  have r: "?r i < unat n" by (rule remap_pos_less [OF i])
  note ur = unat_of_nat_32 [OF less_imp_le [OF r]]
  have "remap_body fast dst old new n (word_of_nat (length (bits_list h new (unat n)))) (word_of_nat i) h1 = set_bit (word_of_nat (?r i)) dst h1"
    unfolding remap_body_def
    by (subst remap_target [of h1 old n new i _ fast "\<lambda>pos. set_bit pos dst h1", OF _ _ assms(6) i])
      (simp_all add: becomes_has [OF h1] becomes_bits_list [OF h1] becomes_remap_pos [OF h1] assms(2-5))
  moreover have "(\<lambda>j. (\<exists>i\<in>set xs. ?r i = j) \<or> j = ?r i) = (\<lambda>j. \<exists>i\<in>set (xs @ [i]). ?r i = j)" by auto
  ultimately show ?thesis
    using becomes_set_bit [OF h1 assms(1), of "word_of_nat (?r i)"] r by (simp add: ur)
qed

lemma bitmap_remap_spec:
  fixes n :: u32
  assumes hd: "has h dst (unat n)" and hs: "has h src (unat n)" and ho: "has h old (unat n)" and hn: "has h new (unat n)"
    and "dst \<notin> {src, old, new}" and n: "unat n < 2 ^ 31"
  shows "\<exists>h'. bitmap_remap fast dst src old new n h = Some h'
    \<and> becomes dst (unat n) (\<lambda>j. \<exists>i<unat n. is_set h src i \<and> remap_pos h old new (unat n) i = j) h h'"
proof -
  let ?N = "unat n" and ?r = "remap_pos h old new (unat n)"
  let ?I = "\<lambda>xs. becomes dst ?N (\<lambda>j. \<exists>i\<in>set xs. ?r i = j) h"
  let ?body = "remap_body fast dst old new n (word_of_nat (length (bits_list h new ?N)))"
  have dst: "src \<noteq> dst" "old \<noteq> dst" "new \<noteq> dst" using assms(5) by auto
  from bitmap_zero_spec [OF hd] obtain h0 where h0: "bitmap_zero dst n h = Some h0" "becomes dst ?N (\<lambda>_. False) h h0" by blast
  have "\<exists>h'. for_each_set_bit src n ?body (word_of_nat (next_bit (is_set h src) 0 ?N)) h0 = Some h' \<and> ?I (filter (is_set h src) [0..<?N]) h'"
  proof (rule for_each_set_bit_spec [where I = ?I])
    show "has h1 src ?N \<and> (\<forall>i<?N. is_set h1 src i = is_set h src i)" if "?I xs h1" for xs h1
      using that hs dst(1) by (simp add: becomes_has [OF that]) (simp add: becomes_def)
    show "\<exists>h2. ?body (word_of_nat i) h1 = Some h2 \<and> ?I (filter (is_set h src) [0..<i] @ [i]) h2"
      if "i < ?N" "?I (filter (is_set h src) [0..<i]) h1" for i h1
      by (rule remap_body_spec [OF hd ho hn dst(2,3) n that])
  qed (use h0(2) in simp_all)
  then obtain h' where h': "for_each_set_bit src n ?body (word_of_nat (next_bit (is_set h src) 0 ?N)) h0 = Some h'"
      "?I (filter (is_set h src) [0..<?N]) h'" by blast
  have "next_bit (is_set h0 src) 0 ?N = next_bit (is_set h src) 0 ?N"
    by (rule next_bit_cong) (use h0(2) dst(1) in \<open>simp add: becomes_def\<close>)
  moreover have "has h0 src ?N" using hs by (simp add: becomes_has [OF h0(2)])
  ultimately have first: "find_next_bit h0 src (ucast n) 0 = Some (word_of_nat (next_bit (is_set h src) 0 ?N))"
    using find_next_bit_spec [OF _ bits_below_64, of h0 src n 0] by simp
  have weight: "bitmap_weight fast new n h0 = Some (int (length (bits_list h new ?N)))"
    using bitmap_weight_list [OF _ n, of h0 new fast] hn by (simp add: becomes_has [OF h0(2)] becomes_bits_list [OF h0(2) dst(3)])
  have "bitmap_remap fast dst src old new n h = Some h'"
    using h'(1) dst(1) by (simp add: bitmap_remap_def h0(1) weight first ucast_next)
  with becomes_cong [OF h'(2)] show ?thesis by auto
qed


text \<open>
  \<open>bitmap_remap\<close> moves every bit of \<open>src\<close> to the position that the pair \<open>old\<close> and \<open>new\<close>
  assigns to it, clears every other bit of \<open>dst\<close> and leaves the other bitmaps alone;
  \<open>bitmap_bitremap\<close> computes the same position for one bit.
\<close>

theorem bitmap_remap_correct:
  fixes n :: u32
  assumes "has h dst (unat n)" and "has h src (unat n)" and "has h old (unat n)" and "has h new (unat n)"
    and "dst \<notin> {src, old, new}" and "unat n < 2 ^ 31"
  shows "\<exists>h' f. bitmap_remap fast dst src old new n h = Some h'
    \<and> becomes dst (unat n) (\<lambda>j. \<exists>i<unat n. is_set h src i \<and> f i = j) h h'
    \<and> (\<forall>i. unat i < unat n \<longrightarrow> bitmap_bitremap fast h i old new n = Some (int (f (unat i)))
         \<and> (\<not> is_set h old (unat i) \<or> bits_list h new (unat n) = [] \<longrightarrow> f (unat i) = unat i)
         \<and> (is_set h old (unat i) \<and> bits_list h new (unat n) \<noteq> [] \<longrightarrow>
              f (unat i) = bits_list h new (unat n) ! (length (bits_list h old (unat i)) mod length (bits_list h new (unat n)))))"
proof -
  from bitmap_remap_spec [OF assms] obtain h' where
    "bitmap_remap fast dst src old new n h = Some h'"
    "becomes dst (unat n) (\<lambda>j. \<exists>i<unat n. is_set h src i \<and> remap_pos h old new (unat n) i = j) h h'" by blast
  then show ?thesis
    using bitmap_bitremap_spec [OF assms(3,4,6)]
    by (intro exI [of _ h'] exI [of _ "remap_pos h old new (unat n)"]) (simp add: remap_pos_def)
qed

definition remap_example :: heap where
  "remap_example = [1 \<mapsto> [- 1, 7], 2 \<mapsto> [0xA2, 1], 3 \<mapsto> [0xF0, 0], 4 \<mapsto> [0xF000, 1]]"

theorem bitmap_remap_correct_witness:
  "\<exists>h' f. bitmap_remap True 1 2 3 4 70 remap_example = Some h'
    \<and> becomes 1 70 (\<lambda>j. \<exists>i<70. is_set remap_example 2 i \<and> f i = j) remap_example h'
    \<and> (\<forall>i. unat i < 70 \<longrightarrow> bitmap_bitremap True remap_example i 3 4 70 = Some (int (f (unat i)))
         \<and> (\<not> is_set remap_example 3 (unat i) \<or> bits_list remap_example 4 70 = [] \<longrightarrow> f (unat i) = unat i)
         \<and> (is_set remap_example 3 (unat i) \<and> bits_list remap_example 4 70 \<noteq> [] \<longrightarrow>
              f (unat i) = bits_list remap_example 4 70 ! (length (bits_list remap_example 3 (unat i)) mod length (bits_list remap_example 4 70))))"
proof -
  have "has remap_example q (unat (70 :: u32))" if "q \<in> {1, 2, 3, 4}" for q
    using that by (auto simp: has_def remap_example_def)
  then show ?thesis using bitmap_remap_correct [of remap_example 1 "70 :: u32" 2 3 4 True] by simp
qed

lemma bits_list_index:
  assumes "k < length (bits_list h p n)"
  shows "is_set h p (bits_list h p n ! k)" and "length (bits_list h p (bits_list h p n ! k)) = k"
proof -
  let ?i = "bits_list h p n ! k"
  have "?i \<in> set (bits_list h p n)" using assms by (rule nth_mem)
  then have i: "?i < n" "is_set h p ?i" by (simp_all add: bits_list_def)
  then show "is_set h p ?i" by simp
  have "distinct (bits_list h p n)" by (simp add: bits_list_def)
  with bits_list_nth [OF i] assms show "length (bits_list h p ?i) = k" by (simp add: nth_eq_iff_index_eq)
qed

text \<open>
  Between two bitmaps with the same number of bits, mapping the position of a set bit there and
  back gives the position again.
\<close>

theorem bitmap_bitremap_roundtrip:
  fixes n i :: u32
  assumes "has h old (unat n)" and "has h new (unat n)" and "unat n < 2 ^ 31"
    and "unat i < unat n" and "is_set h old (unat i)"
    and "bitmap_weight fast old n h = bitmap_weight fast new n h"
  shows "\<exists>j. bitmap_bitremap fast h i old new n = Some (sint j) \<and> unat j < unat n \<and> is_set h new (unat j)
    \<and> bitmap_bitremap fast h j new old n = Some (sint i)"
proof -
  let ?O = "bits_list h old (unat n)" and ?N = "bits_list h new (unat n)" and ?k = "length (bits_list h old (unat i))"
  have len: "length ?O = length ?N"
    using assms(6) by (simp add: bitmap_weight_list [OF assms(1,3)] bitmap_weight_list [OF assms(2,3)])
  have k: "?k < length ?O" "?O ! ?k = unat i" using bits_list_nth [OF assms(4,5)] by simp_all
  then have kN: "?k < length ?N" using len by simp
  let ?j = "?N ! ?k"
  have j: "?j < unat n" using bits_list_less [OF nth_mem [OF kN]] .
  note uj = unat_of_nat_32 [OF less_imp_le [OF j]]
  have there: "remap_pos h old new (unat n) (unat i) = ?j" using assms(5) kN by (auto simp: remap_pos_def)
  have again: "remap_pos h new old (unat n) ?j = unat i"
    using bits_list_index [OF kN] k by (auto simp: remap_pos_def)
  have small: "sint (w :: u32) = int (unat w)" if "unat w < unat n" for w
    by (rule sint_small) (use that assms(3) in linarith)
  show ?thesis
    using bitmap_bitremap_spec [OF assms(1-4), of fast] bitmap_bitremap_spec [OF assms(2,1,3), of "word_of_nat ?j" fast]
      there again bits_list_index(1) [OF kN] small [OF assms(4)] small [of "word_of_nat ?j"] j
    by (intro exI [of _ "word_of_nat ?j"]) (simp add: uj)
qed

theorem bitmap_bitremap_roundtrip_witness:
  "\<exists>j. bitmap_bitremap True [1 \<mapsto> [0xF0], 2 \<mapsto> [0xF000]] 5 1 2 60 = Some (sint j) \<and> unat j < 60
    \<and> is_set [1 \<mapsto> [0xF0], 2 \<mapsto> [0xF000]] 2 (unat j)
    \<and> bitmap_bitremap True [1 \<mapsto> [0xF0], 2 \<mapsto> [0xF000]] j 2 1 60 = Some (sint (5 :: u32))"
proof -
  let ?h = "[1 \<mapsto> [0xF0], 2 \<mapsto> [0xF000]] :: heap"
  have has: "has ?h 1 (unat (60 :: u32))" "has ?h 2 (unat (60 :: u32))" by (simp_all add: has_def)
  have "is_set ?h 1 (unat (5 :: u32))" by (simp add: is_set_def word_at_def)
  moreover have "bitmap_weight True 1 60 ?h = bitmap_weight True 2 60 ?h"
    by (subst for_up.simps | simp add: bitmap_weight_def rd_def sw_hweight64_def BITMAP_LAST_WORD_MASK_def mask_eq_exp_minus_1 Let_def)+
  ultimately show ?thesis using bitmap_bitremap_roundtrip [OF has, of 5 True] by simp
qed

end
