(* ===== verification/BitmapConv.thy ===== *)
theory BitmapConv
  imports BitmapWords
begin

text \<open>
  Conversion of bitmaps to and from arrays of 32-bit words, and cutting bits out of a bitmap:
  \<open>bitmap_from_arr32\<close>, \<open>bitmap_to_arr32\<close> and \<open>bitmap_cut\<close> of \<open>lib/src/linux/bitmap.c\<close>.  An array of 32-bit
  words is a list.
\<close>

section \<open>Operations\<close>

definition get :: "'a list \<Rightarrow> nat \<Rightarrow> 'a option" where
  "get xs i = (if i < length xs then Some (xs ! i) else None)"

definition put32 :: "u32 list \<Rightarrow> nat \<Rightarrow> u32 \<Rightarrow> u32 list option" where
  "put32 xs i v = (if i < length xs then Some (xs[i := v]) else None)"

definition halfwords :: "u32 \<Rightarrow> nat" where
  "halfwords nbits = (unat nbits + 31) div 32"

function from_arr32_loop :: "addr \<Rightarrow> u32 list \<Rightarrow> nat \<Rightarrow> nat \<Rightarrow> heap \<Rightarrow> heap option" where
  "from_arr32_loop bitmap buf lim i h =
     (if i < lim
      then do {
        v \<leftarrow> get buf i;
        h \<leftarrow> wr h bitmap (i div 2) (ucast v);
        h \<leftarrow> (if i + 1 < lim
              then do {
                w \<leftarrow> rd h bitmap ((i + 1) div 2);
                v \<leftarrow> get buf (i + 1);
                wr h bitmap ((i + 1) div 2) (w OR push_bit 32 (ucast v))
              }
              else Some h);
        from_arr32_loop bitmap buf lim (i + 2) h
      }
      else Some h)"
  by pat_completeness auto
termination
  by (relation "measure (\<lambda>(bitmap, buf, lim, i, h). lim - i)") auto

definition bitmap_from_arr32 :: "addr \<Rightarrow> u32 list \<Rightarrow> u32 \<Rightarrow> heap \<Rightarrow> heap option" where
  "bitmap_from_arr32 bitmap buf nbits h =
     do {
       h \<leftarrow> from_arr32_loop bitmap buf (halfwords nbits) 0 h;
       if unat nbits mod 64 \<noteq> 0
       then do {
         w \<leftarrow> rd h bitmap ((halfwords nbits - 1) div 2);
         wr h bitmap ((halfwords nbits - 1) div 2) (w AND last_mask nbits)
       }
       else Some h
     }"

function to_arr32_loop :: "heap \<Rightarrow> addr \<Rightarrow> nat \<Rightarrow> nat \<Rightarrow> u32 list \<Rightarrow> u32 list option" where
  "to_arr32_loop h bitmap lim i buf =
     (if i < lim
      then do {
        w \<leftarrow> rd h bitmap (i div 2);
        buf \<leftarrow> put32 buf i (ucast (w AND 0xFFFFFFFF));
        buf \<leftarrow> (if i + 1 < lim
                then do { w \<leftarrow> rd h bitmap ((i + 1) div 2); put32 buf (i + 1) (ucast (drop_bit 32 w)) }
                else Some buf);
        to_arr32_loop h bitmap lim (i + 2) buf
      }
      else Some buf)"
  by pat_completeness auto
termination
  by (relation "measure (\<lambda>(h, bitmap, lim, i, buf). lim - i)") auto

definition bitmap_to_arr32 :: "heap \<Rightarrow> u32 list \<Rightarrow> addr \<Rightarrow> u32 \<Rightarrow> u32 list option" where
  "bitmap_to_arr32 h buf bitmap nbits =
     do {
       buf \<leftarrow> to_arr32_loop h bitmap (halfwords nbits) 0 buf;
       if unat nbits mod 64 \<noteq> 0
       then do {
         v \<leftarrow> get buf (halfwords nbits - 1);
         put32 buf (halfwords nbits - 1) (v AND drop_bit (unat (- nbits AND 31)) (- 1))
       }
       else Some buf
     }"

declare from_arr32_loop.simps [simp del] to_arr32_loop.simps [simp del]

text \<open>One round of \<open>bitmap_cut\<close> shifts the words from \<open>k\<close> on by a bit.\<close>

definition cut_round :: "addr \<Rightarrow> nat \<Rightarrow> nat \<Rightarrow> heap \<Rightarrow> heap option" where
  "cut_round dst k len h =
     for_up k len
       (\<lambda>i h. do {
          carry \<leftarrow> (if i < len - 1 then map_option (\<lambda>w. w AND 1) (rd h dst (i + 1)) else Some 0);
          w \<leftarrow> rd h dst i;
          wr h dst i (drop_bit 1 w OR push_bit 63 carry)
        }) h"

primrec cut_rounds :: "nat \<Rightarrow> addr \<Rightarrow> nat \<Rightarrow> nat \<Rightarrow> heap \<Rightarrow> heap option" where
  "cut_rounds 0 dst k len h = Some h"
| "cut_rounds (Suc c) dst k len h = do { h \<leftarrow> cut_round dst k len h; cut_rounds c dst k len h }"

definition bitmap_cut :: "addr \<Rightarrow> addr \<Rightarrow> u32 \<Rightarrow> u32 \<Rightarrow> u32 \<Rightarrow> heap \<Rightarrow> heap option" where
  "bitmap_cut dst src first count nbits h =
     do {
       let len = BITS_TO_LONGS nbits;
       let k = unat first div 64;
       let f = unat first mod 64;
       keep \<leftarrow> (if f \<noteq> 0 then map_option (\<lambda>w. w AND drop_bit (64 - f) (- 1)) (rd h src k) else Some 0);
       h \<leftarrow> bitmap_copy dst src nbits h;
       h \<leftarrow> cut_rounds (unat count) dst k len h;
       w \<leftarrow> rd h dst k;
       h \<leftarrow> wr h dst k (w AND push_bit f (- 1));
       w \<leftarrow> rd h dst k;
       wr h dst k (w OR keep)
     }"

section \<open>Cutting\<close>

lemma changes_is_set:
  "changes dst K g h h' \<Longrightarrow> is_set h' q i = (if q = dst \<and> i div 64 \<in> K then bit (g (i div 64)) (i mod 64) else is_set h q i)"
  by (simp add: is_set_def changes_word)

lemma cut_word_bit:
  assumes "i < 64 * len"
  shows "bit (drop_bit 1 (word_at h dst (i div 64)) OR push_bit 63 (if i div 64 < len - 1 then word_at h dst (i div 64 + 1) AND 1 else 0)) (i mod 64)
    \<longleftrightarrow> i + 1 < 64 * len \<and> is_set h dst (i + 1)"
proof (cases "i mod 64 = 63")
  case True
  then have "(i + 1) div 64 = i div 64 + 1" "(i + 1) mod 64 = 0" by (simp_all add: div_Suc mod_Suc)
  moreover from this have "i div 64 < len - 1 \<longleftrightarrow> i + 1 < 64 * len"
    using mult_div_mod_eq [of 64 "i + 1"] by linarith
  ultimately show ?thesis
    using True by (auto simp: bit_or_iff bit_drop_bit_eq bit_push_bit_iff bit_and_iff is_set_def bit_1_iff dest: bit_imp_le_length)
next
  case False
  then have lt: "i mod 64 < 63" using mod_less_divisor [of 64 i] by linarith
  moreover from False have "(i + 1) div 64 = i div 64" "(i + 1) mod 64 = i mod 64 + 1" by (simp_all add: div_Suc mod_Suc)
  moreover have "i div 64 < len" using assms by (simp add: div_less_iff_less_mult mult.commute)
  then have "i + 1 < 64 * len" using mult_div_mod_eq [of 64 i] lt by linarith
  ultimately show ?thesis by (simp add: bit_or_iff bit_drop_bit_eq bit_push_bit_iff is_set_def)
qed

lemma cut_round_spec:
  assumes "has h dst n" and "64 * len < n + 64" and "k \<le> len"
  shows "\<exists>h'. cut_round dst k len h = Some h' \<and> same_shape h h'
    \<and> (\<forall>q i. is_set h' q i = (if q = dst \<and> 64 * k \<le> i \<and> i < 64 * len then i + 1 < 64 * len \<and> is_set h dst (i + 1) else is_set h q i))"
proof -
  let ?g = "\<lambda>i. drop_bit 1 (word_at h dst i) OR push_bit 63 (if i < len - 1 then word_at h dst (i + 1) AND 1 else 0)"
  have "\<exists>h'. cut_round dst k len h = Some h' \<and> changes dst {k..<len} ?g h h'"
    unfolding cut_round_def
  proof (rule for_up_inv [where P = "\<lambda>i. changes dst {k..<i} ?g h"])
    fix i h1 assume i: "k \<le> i" "i < len" and ch: "changes dst {k..<i} ?g h h1"
    note shape = changes_shape [OF ch]
    have le: "64 * i < n" using i(2) assms(2) by linarith
    have up: "rd h1 dst (i + 1) = Some (word_at h1 dst (i + 1))" if "i < len - 1"
    proof (rule rd_shape [OF shape assms(1)])
      from that have "i + 2 \<le> len" by simp
      then show "64 * (i + 1) < n" using assms(2) by simp
    qed
    have carry: "(if i < len - 1 then map_option (\<lambda>w. w AND 1) (rd h1 dst (i + 1)) else Some 0)
        = Some (if i < len - 1 then word_at h dst (i + 1) AND 1 else 0)"
      using up by (simp add: changes_word [OF ch])
    have same: "word_at h1 dst i = word_at h dst i" by (simp add: changes_word [OF ch])
    have "insert i {k..<i} = {k..<Suc i}" using i(1) by auto
    with changes_put [OF ch assms(1) le refl] have "changes dst {k..<Suc i} ?g h (put h1 dst i (?g i))" by simp
    then show "\<exists>h2. (do {
          carry \<leftarrow> (if i < len - 1 then map_option (\<lambda>w. w AND 1) (rd h1 dst (i + 1)) else Some 0);
          w \<leftarrow> rd h1 dst i; wr h1 dst i (drop_bit 1 w OR push_bit 63 carry) }) = Some h2 \<and> changes dst {k..<Suc i} ?g h h2"
      unfolding carry rd_shape [OF shape assms(1) le] wr_shape [OF shape assms(1) le] same Option.bind.bind_lunit by blast
  qed (simp_all add: changes_refl assms(3))
  then obtain h' where h': "cut_round dst k len h = Some h'" "changes dst {k..<len} ?g h h'" by blast
  have "i div 64 \<in> {k..<len} \<longleftrightarrow> 64 * k \<le> i \<and> i < 64 * len" for i
    by (auto simp: less_eq_div_iff_mult_less_eq div_less_iff_less_mult mult.commute)
  then have "is_set h' q i = (if q = dst \<and> 64 * k \<le> i \<and> i < 64 * len then i + 1 < 64 * len \<and> is_set h dst (i + 1) else is_set h q i)" for q i
    using cut_word_bit [of i len h dst] unfolding changes_is_set [OF h'(2)] by presburger
  with h'(1) changes_shape [OF h'(2)] show ?thesis by blast
qed


lemma cut_rounds_spec:
  assumes "has h dst n" and "64 * len < n + 64" and "k \<le> len"
  shows "\<exists>h'. cut_rounds c dst k len h = Some h' \<and> same_shape h h'
    \<and> (\<forall>q i. is_set h' q i = (if q = dst \<and> 64 * k \<le> i \<and> i < 64 * len then i + c < 64 * len \<and> is_set h dst (i + c) else is_set h q i))"
  using assms(1)
proof (induction c arbitrary: h)
  case 0
  show ?case by auto
next
  case (Suc c)
  from cut_round_spec [OF Suc.prems assms(2,3)] obtain h1 where
    h1: "cut_round dst k len h = Some h1" "same_shape h h1"
      "\<And>q i. is_set h1 q i = (if q = dst \<and> 64 * k \<le> i \<and> i < 64 * len then i + 1 < 64 * len \<and> is_set h dst (i + 1) else is_set h q i)"
    by blast
  have "has h1 dst n" using Suc.prems same_shape_has [OF h1(2)] by simp
  from Suc.IH [OF this] obtain h2 where
    h2: "cut_rounds c dst k len h1 = Some h2" "same_shape h1 h2"
      "\<And>q i. is_set h2 q i = (if q = dst \<and> 64 * k \<le> i \<and> i < 64 * len then i + c < 64 * len \<and> is_set h1 dst (i + c) else is_set h1 q i)"
    by blast
  have "is_set h2 q i = (if q = dst \<and> 64 * k \<le> i \<and> i < 64 * len then i + Suc c < 64 * len \<and> is_set h dst (i + Suc c) else is_set h q i)" for q i
    unfolding h2(3) h1(3) by auto
  with h1 h2 show ?case by (auto intro: same_shape_trans)
qed

lemma bit_keep:
  fixes v w :: u64
  assumes "j < 64" and "f < 64"
  shows "bit ((w AND push_bit f (- 1)) OR (if f \<noteq> 0 then v AND drop_bit (64 - f) (- 1) else 0)) j
    \<longleftrightarrow> (if j < f then bit v j else bit w j)"
  using assms by (auto simp: bit_or_iff bit_and_iff bit_mask_iff bit_not_iff)

lemma less_by_words: "i < m \<longleftrightarrow> i < 64 * (m div 64) \<or> i div 64 = m div 64 \<and> i mod 64 < m mod 64" for i m :: nat
proof (cases "i div 64 = m div 64")
  case True
  have "\<not> i < 64 * (m div 64)" using mult_div_mod_eq [of 64 i] True by linarith
  moreover have "i < m \<longleftrightarrow> i mod 64 < m mod 64"
    using mult_div_mod_eq [of 64 i] mult_div_mod_eq [of 64 m] True by linarith
  ultimately show ?thesis using True by simp
next
  case False
  have "i < m \<longleftrightarrow> i div 64 < m div 64"
    using mult_div_mod_eq [of 64 i] mult_div_mod_eq [of 64 m] False mod_less_divisor [of 64 i] mod_less_divisor [of 64 m] by linarith
  then show ?thesis using False by (simp add: div_less_iff_less_mult mult.commute)
qed

text \<open>
  The result of \<open>bitmap_cut\<close>: the bits below \<open>first\<close> stay, the others come from
  \<open>count\<close> positions higher, from all bits of the words that hold the bitmap.
\<close>

lemma bitmap_cut_spec:
  fixes first count n :: u32
  assumes "has h dst (unat n)" and "has h src (unat n)" and "unat first < unat n"
  shows "\<exists>h'. bitmap_cut dst src first count n h = Some h' \<and> same_shape h h'
    \<and> (\<forall>q i. q \<noteq> dst \<longrightarrow> is_set h' q i = is_set h q i)
    \<and> (\<forall>i < 64 * BITS_TO_LONGS n. is_set h' dst i =
         (if i < unat first then is_set h src i
          else i + unat count < 64 * BITS_TO_LONGS n \<and> is_set h src (i + unat count)))"
proof -
  let ?len = "BITS_TO_LONGS n" and ?k = "unat first div 64" and ?f = "unat first mod 64"
  have k64: "64 * ?k < unat n" using assms(3) mult_div_mod_eq [of 64 "unat first"] by linarith
  then have k: "?k < ?len" by (simp add: less_longs)
  from for_up_words [OF assms(1) longs_bound, of "\<lambda>k h. do { w \<leftarrow> rd h src k; wr h dst k w }" "\<lambda>k w. w src k"]
  obtain h1 where h1: "bitmap_copy dst src n h = Some h1" "changes dst {..<?len} (word_at h src) h h1"
    by (auto simp: bitmap_copy_def less_longs rd_shape [OF _ assms(2)] wr_shape [OF _ assms(1)])
  have "has h1 dst (unat n)" using assms(1) same_shape_has [OF changes_shape [OF h1(2)]] by simp
  from cut_rounds_spec [OF this longs_bound less_imp_le [OF k], of "unat count"] obtain h2 where
    h2: "cut_rounds (unat count) dst ?k ?len h1 = Some h2" "same_shape h1 h2"
      "\<And>q i. is_set h2 q i = (if q = dst \<and> 64 * ?k \<le> i \<and> i < 64 * ?len
          then i + unat count < 64 * ?len \<and> is_set h1 dst (i + unat count) else is_set h1 q i)"
    by blast
  have shape2: "same_shape h h2" using changes_shape [OF h1(2)] h2(2) by (rule same_shape_trans)
  have copied: "is_set h1 q i = (if q = dst \<and> i < 64 * ?len then is_set h src i else is_set h q i)" for q i
    unfolding changes_is_set [OF h1(2)] by (auto simp: is_set_def div_less_iff_less_mult mult.commute)
  define keep :: u64 where "keep = (if ?f \<noteq> 0 then word_at h src ?k AND drop_bit (64 - ?f) (- 1) else 0)"
  have keep: "(if ?f \<noteq> 0 then map_option (\<lambda>w. w AND drop_bit (64 - ?f) (- 1)) (rd h src ?k) else Some 0) = Some keep"
    by (simp add: keep_def rd_has [OF assms(2) k64])
  have d2: "has h2 dst (unat n)" using assms(1) same_shape_has [OF shape2] by simp
  let ?w = "word_at h2 dst ?k"
  let ?h3 = "put h2 dst ?k (?w AND push_bit ?f (- 1))"
  have d3: "has ?h3 dst (unat n)" using d2 same_shape_has [OF same_shape_put [OF d2]] by simp
  let ?h4 = "put ?h3 dst ?k ((?w AND push_bit ?f (- 1)) OR keep)"
  have run: "bitmap_cut dst src first count n h = Some ?h4"
    by (simp only: bitmap_cut_def Let_def keep h1(1) Option.bind.bind_lunit simp_thms if_True h2(1) rd_has [OF d2 k64] wr_has [OF d2 k64] rd_has [OF d3 k64] wr_has [OF d3 k64]
        word_at_put [OF d2 k64])
  have shape4: "same_shape h ?h4"
    by (rule same_shape_trans [OF shape2 same_shape_trans [OF same_shape_put [OF d2] same_shape_put [OF d3]]])
  have bits: "is_set ?h4 q i = (if q = dst \<and> i div 64 = ?k then (if i mod 64 < ?f then is_set h src i else is_set h2 dst i) else is_set h2 q i)" for q i
  proof -
    have "word_at ?h4 q j = (if q = dst \<and> j = ?k then (?w AND push_bit ?f (- 1)) OR keep else word_at h2 q j)" for j
      unfolding word_at_put [OF d3 k64] word_at_put [OF d2 k64] by simp
    then show ?thesis using bit_keep [of "i mod 64" ?f ?w "word_at h src ?k"] by (simp only: is_set_def keep_def) auto
  qed
  have "is_set ?h4 dst i = (if i < unat first then is_set h src i else i + unat count < 64 * ?len \<and> is_set h src (i + unat count))"
    if i: "i < 64 * ?len" for i
  proof -
    have split: "i < unat first \<longleftrightarrow> i < 64 * ?k \<or> i div 64 = ?k \<and> i mod 64 < ?f"
      by (rule less_by_words)
    have low: "64 * ?k \<le> i" if "i div 64 = ?k" using that mult_div_mod_eq [of 64 i] by linarith
    show ?thesis unfolding bits h2(3) copied split using i low by auto
  qed
  moreover have "is_set ?h4 q i = is_set h q i" if "q \<noteq> dst" for q i
    unfolding bits h2(3) copied using that by simp
  ultimately show ?thesis using run shape4 by blast
qed


text \<open>
  \<open>bitmap_cut\<close> takes bits behind the end of the bitmap for valid ones: two bitmaps of four bits that
  are equal give different results.
\<close>

lemma bitmap_cut_unused_bits:
  "\<exists>h1 h2. (\<forall>i<4. is_set [1 \<mapsto> [0]] 1 i = is_set [1 \<mapsto> [0x10]] 1 i)
    \<and> bitmap_cut 1 1 0 1 4 [1 \<mapsto> [0]] = Some h1 \<and> bitmap_cut 1 1 0 1 4 [1 \<mapsto> [0x10]] = Some h2
    \<and> \<not> is_set h1 1 3 \<and> is_set h2 1 3"
proof -
  have len: "BITS_TO_LONGS 4 = 1" by (simp add: BITS_TO_LONGS_def)
  have eq: "\<forall>i<4. is_set [1 \<mapsto> [0]] 1 i = is_set [1 \<mapsto> [0x10]] 1 i"
  proof (intro allI impI)
    fix i :: nat assume "i < 4"
    then have "i = 0 \<or> i = 1 \<or> i = 2 \<or> i = 3" by linarith
    then show "is_set [1 \<mapsto> [0]] 1 i = is_set [1 \<mapsto> [0x10]] 1 i"
      by (elim disjE) (simp_all add: is_set_def word_at_def)
  qed
  have cut4: "\<exists>h1. bitmap_cut 1 1 0 1 4 [1 \<mapsto> [w]] = Some h1 \<and> is_set h1 1 3 = is_set [1 \<mapsto> [w]] 1 4" for w
    using bitmap_cut_spec [of "[1 \<mapsto> [w]]" 1 4 1 0 1] by (auto simp: has_def len)
  from cut4 [of 0] cut4 [of 16] eq show ?thesis by (auto simp: is_set_def word_at_def)
qed

section \<open>Arrays of 32-bit words\<close>

text \<open>The word that two consecutive elements make.\<close>

definition arr_word :: "u32 list \<Rightarrow> nat \<Rightarrow> nat \<Rightarrow> u64" where
  "arr_word buf lim j = (if 2 * j + 1 < lim then ucast (buf ! (2 * j)) OR push_bit 32 (ucast (buf ! (2 * j + 1))) else ucast (buf ! (2 * j)))"

lemma changes_put_put:
  assumes "has h p n" and "64 * j < n"
  shows "changes p {j} (\<lambda>_. b) h (put (put h p j a) p j b)"
proof -
  have d: "has (put h p j a) p n" using assms(1) same_shape_has [OF same_shape_put [OF assms(1)]] by simp
  then show ?thesis
    unfolding changes_def
    by (auto simp: word_at_put [OF d assms(2)] word_at_put [OF assms]
        intro: same_shape_trans [OF same_shape_put [OF assms(1)] same_shape_put [OF d]])
qed

lemma from_arr32_step:
  assumes "has h p n" and "64 * j < n" and "lim \<le> length buf" and "2 * j < lim"
  shows "\<exists>h1. from_arr32_loop p buf lim (2 * j) h = from_arr32_loop p buf lim (2 * Suc j) h1
    \<and> changes p {j} (\<lambda>_. arr_word buf lim j) h h1"
proof -
  have d: "has (put h p j a) p n" for a using assms(1) same_shape_has [OF same_shape_put [OF assms(1)]] by simp
  have idx: "(2 * j + 1) div 2 = j" "2 * j div 2 = j" by simp_all
  show ?thesis
  proof (cases "2 * j + 1 < lim")
    case True
    let ?h = "put (put h p j (ucast (buf ! (2 * j)))) p j (arr_word buf lim j)"
    have "from_arr32_loop p buf lim (2 * j) h = from_arr32_loop p buf lim (2 * Suc j) ?h"
      using assms(3,4) True
      by (subst from_arr32_loop.simps)
        (simp add: get_def idx wr_has [OF assms(1,2)] wr_has [OF d assms(2)] rd_has [OF d assms(2)] word_at_put [OF assms(1,2)] arr_word_def)
    with changes_put_put [OF assms(1,2)] show ?thesis by blast
  next
    case False
    let ?h = "put h p j (arr_word buf lim j)"
    have "from_arr32_loop p buf lim (2 * j) h = from_arr32_loop p buf lim (2 * Suc j) ?h"
      using assms(3,4) False
      by (subst from_arr32_loop.simps) (simp add: get_def idx wr_has [OF assms(1,2)] arr_word_def)
    with changes_put [OF changes_refl assms(1,2) refl] show ?thesis by blast
  qed
qed

lemma from_arr32_loop_spec:
  assumes "has h p n" and "32 * lim < n + 32" and "lim \<le> length buf"
  shows "\<exists>h'. from_arr32_loop p buf lim (2 * j) h = Some h' \<and> changes p {j..<(lim + 1) div 2} (arr_word buf lim) h h'"
  using assms(1)
proof (induction "lim - 2 * j" arbitrary: j h rule: less_induct)
  case less
  show ?case
  proof (cases "2 * j < lim")
    case True
    then have "64 * j < n" using assms(2) by linarith
    from from_arr32_step [OF less.prems this assms(3) True] obtain h1 where
      h1: "from_arr32_loop p buf lim (2 * j) h = from_arr32_loop p buf lim (2 * Suc j) h1"
        "changes p {j} (\<lambda>_. arr_word buf lim j) h h1" by blast
    have "has h1 p n" using less.prems same_shape_has [OF changes_shape [OF h1(2)]] by simp
    then have "\<exists>h'. from_arr32_loop p buf lim (2 * Suc j) h1 = Some h' \<and> changes p {Suc j..<(lim + 1) div 2} (arr_word buf lim) h1 h'"
      by (rule less.hyps [rotated]) (use True in simp)
    then obtain h' where h': "from_arr32_loop p buf lim (2 * Suc j) h1 = Some h'"
      "changes p {Suc j..<(lim + 1) div 2} (arr_word buf lim) h1 h'" by blast
    have "changes p {j..<(lim + 1) div 2} (arr_word buf lim) h h'"
      using h1(2) h'(2) True by (auto simp: changes_def intro: same_shape_trans)
    with h1(1) h'(1) show ?thesis by simp
  next
    case False
    then show ?thesis
      by (subst from_arr32_loop.simps) (simp add: changes_refl)
  qed
qed


lemma halfword_index:
  fixes q :: nat
  shows "q mod 64 < 32 \<Longrightarrow> q div 32 = 2 * (q div 64) \<and> q mod 32 = q mod 64"
    and "\<not> q mod 64 < 32 \<Longrightarrow> q div 32 = 2 * (q div 64) + 1 \<and> q mod 64 = q mod 32 + 32"
proof -
  have q: "q = 64 * (q div 64) + q mod 64" by simp
  have a: "q div 32 = 2 * (q div 64) + q mod 64 div 32"
    by (subst q) (simp only: div_mult_self4 mult.assoc [of 32 2, simplified])
  have b: "q mod 32 = q mod 64 mod 32" by (simp add: mod_mod_cancel)
  show "q div 32 = 2 * (q div 64) \<and> q mod 32 = q mod 64" if "q mod 64 < 32" using a b that by simp
  assume n: "\<not> q mod 64 < 32"
  define r where "r = q mod 64 - 32"
  have r: "q mod 64 = 32 + r" "r < 32" using n mod_less_divisor [of 64 q] by (simp_all add: r_def)
  show "q div 32 = 2 * (q div 64) + 1 \<and> q mod 64 = q mod 32 + 32" using a b r by simp
qed

lemma arr_word_bit:
  assumes "q div 32 < lim"
  shows "bit (arr_word buf lim (q div 64)) (q mod 64) \<longleftrightarrow> bit (buf ! (q div 32)) (q mod 32)"
proof (cases "q mod 64 < 32")
  case True
  with halfword_index(1) [OF True] show ?thesis
    by (auto simp: arr_word_def bit_or_iff bit_push_bit_iff bit_ucast_iff)
next
  case False
  with halfword_index(2) [OF False] assms show ?thesis
    by (auto simp: arr_word_def bit_or_iff bit_push_bit_iff bit_ucast_iff dest: bit_imp_le_length)
qed

lemma halfwords_bounds:
  shows "32 * halfwords n < unat n + 32" and "unat n \<le> 32 * halfwords n"
    and "(halfwords n + 1) div 2 = BITS_TO_LONGS n"
    and "unat n mod 64 \<noteq> 0 \<Longrightarrow> (halfwords n - 1) div 2 = unat n div 64"
    and "unat n \<noteq> 0 \<Longrightarrow> halfwords n - 1 = (unat n - 1) div 32"
proof -
  define h where "h = halfwords n"
  have "h = (unat n + 31) div 32" by (simp add: h_def halfwords_def)
  then have lo: "32 * h < unat n + 32" and hi: "unat n \<le> 32 * h"
    using mult_div_mod_eq [of 32 "unat n + 31"] mod_less_divisor [of 32 "unat n + 31"] by linarith+
  then show "32 * halfwords n < unat n + 32" "unat n \<le> 32 * halfwords n" by (simp_all add: h_def)
  note l = longs_le [of n] longs_bound [of n]
  have "2 * BITS_TO_LONGS n \<le> h + 1" "h + 1 < 2 * BITS_TO_LONGS n + 2" using lo hi l by linarith+
  then show "(halfwords n + 1) div 2 = BITS_TO_LONGS n"
    unfolding h_def [symmetric] by (intro div_nat_eqI) simp_all
  show "(halfwords n - 1) div 2 = unat n div 64" if "unat n mod 64 \<noteq> 0"
  proof (unfold h_def [symmetric], rule div_nat_eqI)
    have m: "0 < unat n mod 64" "unat n mod 64 < 64" using that by simp_all
    have "2 * (unat n div 64) < h" "h < 2 * (unat n div 64) + 3"
      using lo hi m mult_div_mod_eq [of 64 "unat n"] by linarith+
    then show "2 * (unat n div 64) \<le> h - 1" "h - 1 < 2 * Suc (unat n div 64)" by simp_all
  qed
  assume "unat n \<noteq> 0"
  then obtain g where g: "h = Suc g" using hi by (cases h) simp_all
  then show "halfwords n - 1 = (unat n - 1) div 32"
    unfolding h_def [symmetric] using lo hi by (intro div_nat_eqI [symmetric]) simp_all
qed

lemma bitmap_from_arr32_spec:
  assumes "has h p (unat n)" and "halfwords n \<le> length buf"
  shows "\<exists>h'. bitmap_from_arr32 p buf n h = Some h' \<and> becomes p (unat n) (\<lambda>q. bit (buf ! (q div 32)) (q mod 32)) h h'"
proof -
  note hw = halfwords_bounds [of n]
  from from_arr32_loop_spec [OF assms(1) hw(1) assms(2), of 0] obtain h1 where
    h1: "from_arr32_loop p buf (halfwords n) 0 h = Some h1" "changes p {0..<BITS_TO_LONGS n} (arr_word buf (halfwords n)) h h1"
    unfolding hw(3) by auto
  have b1: "becomes p (unat n) (\<lambda>q. bit (buf ! (q div 32)) (q mod 32)) h h1"
  proof (rule changes_becomes [OF h1(2)])
    fix q assume q: "q < unat n"
    then have "q div 32 < halfwords n" using hw(2) by (intro less_mult_imp_div_less) linarith
    with div_less_longs [OF q] show "(if q div 64 \<in> {0..<BITS_TO_LONGS n} then bit (arr_word buf (halfwords n) (q div 64)) (q mod 64) else is_set h p q) = bit (buf ! (q div 32)) (q mod 32)"
      by (simp add: arr_word_bit)
  qed
  show ?thesis
  proof (cases "unat n mod 64 = 0")
    case True
    with h1(1) b1 show ?thesis by (simp add: bitmap_from_arr32_def)
  next
    case False
    note k = part_word [OF False]
    have d: "has h1 p (unat n)" using assms(1) same_shape_has [OF changes_shape [OF h1(2)]] by simp
    have "bitmap_from_arr32 p buf n h = Some (put h1 p (unat n div 64) (word_at h1 p (unat n div 64) AND last_mask n))"
      using False hw(4) [OF False] by (simp add: bitmap_from_arr32_def h1(1) rd_has [OF d k] wr_has [OF d k])
    with becomes_masked [OF b1 assms(1) False] show ?thesis by blast
  qed
qed


definition half_word :: "heap \<Rightarrow> addr \<Rightarrow> nat \<Rightarrow> u32" where
  "half_word h p i = (if even i then ucast (word_at h p (i div 2) AND 0xFFFFFFFF) else ucast (drop_bit 32 (word_at h p (i div 2))))"

lemma half_word_bit:
  assumes "b < 32"
  shows "bit (half_word h p i) b \<longleftrightarrow> is_set h p (32 * i + b)"
proof (cases "even i")
  case True
  then obtain j where j: "i = 2 * j" by blast
  have m: "(0xFFFFFFFF :: u64) = mask 32" by (simp add: mask_eq_exp_minus_1)
  have "bit (0xFFFFFFFF :: u64) b" unfolding m using assms by (simp add: bit_mask_iff)
  moreover have "(32 * i + b) div 64 = j" "(32 * i + b) mod 64 = b" using assms j by simp_all
  ultimately show ?thesis
    using assms j by (simp add: half_word_def bit_ucast_iff bit_and_iff is_set_def)
next
  case False
  then obtain j where j: "i = 2 * j + 1" by (rule oddE)
  have "(32 * i + b) div 64 = j" "(32 * i + b) mod 64 = 32 + b" using assms j by (simp_all add: div_nat_eqI mod_nat_eqI)
  then show ?thesis
    using assms j by (simp add: half_word_def bit_ucast_iff bit_drop_bit_eq is_set_def)
qed

lemma to_arr32_loop_spec:
  assumes "has h p n" and "32 * lim < n + 32"
  shows "lim \<le> length buf \<Longrightarrow> \<exists>buf'. to_arr32_loop h p lim (2 * j) buf = Some buf' \<and> length buf' = length buf
    \<and> (\<forall>i<length buf. buf' ! i = (if 2 * j \<le> i \<and> i < lim then half_word h p i else buf ! i))"
proof (induction "lim - 2 * j" arbitrary: j buf rule: less_induct)
  case less
  show ?case
  proof (cases "2 * j < lim")
    case True
    have "64 * j < n" using True assms(2) by linarith
    note rd = rd_has [OF assms(1) this]
    let ?b = "buf[2 * j := half_word h p (2 * j)]"
    let ?c = "if 2 * j + 1 < lim then ?b[2 * j + 1 := half_word h p (2 * j + 1)] else ?b"
    have "to_arr32_loop h p lim (2 * j) buf = to_arr32_loop h p lim (2 * Suc j) ?c"
      using True less.prems by (subst to_arr32_loop.simps) (simp add: rd put32_def half_word_def)
    moreover have "\<exists>buf'. to_arr32_loop h p lim (2 * Suc j) ?c = Some buf' \<and> length buf' = length ?c
        \<and> (\<forall>i<length ?c. buf' ! i = (if 2 * Suc j \<le> i \<and> i < lim then half_word h p i else ?c ! i))"
      by (rule less.hyps) (use True less.prems in auto)
    moreover have "(if 2 * Suc j \<le> i \<and> i < lim then half_word h p i else ?c ! i) = (if 2 * j \<le> i \<and> i < lim then half_word h p i else buf ! i)"
      if "i < length buf" for i
    proof -
      consider "i < 2 * j" | "i = 2 * j" | "i = 2 * j + 1" | "2 * Suc j \<le> i" by atomize_elim arith
      then show ?thesis using that True by cases (auto simp: nth_list_update)
    qed
    ultimately show ?thesis by (auto split: if_splits)
  next
    case False
    then show ?thesis by (subst to_arr32_loop.simps) auto
  qed
qed

lemma tail_mask_32:
  fixes n :: u32
  assumes "b < 32"
  shows "bit (drop_bit (unat (- n AND 31)) (- 1) :: u32) b \<longleftrightarrow> unat n mod 32 = 0 \<or> b < unat n mod 32"
proof -
  have a: "unat (- n AND 31) = unat (- n) mod 32"
    using unat_take_bit [of 5 "- n"] by (simp add: take_bit_eq_mask mask_eq_exp_minus_1)
  have "(unat (- n) + unat n) mod 2 ^ 32 = 0"
    using unat_word_ariths(1) [of "- n" n] by simp
  then have "2 ^ 32 dvd unat (- n) + unat n" by (rule mod_0_imp_dvd)
  then have "32 dvd unat (- n) + unat n" by (rule dvd_trans [rotated]) simp
  then have "32 dvd unat (- n) mod 32 + unat n mod 32" by (metis dvd_eq_mod_eq_0 mod_add_eq)
  then obtain k where k: "unat (- n) mod 32 + unat n mod 32 = 32 * k" by (rule dvdE)
  moreover have "unat (- n) mod 32 + unat n mod 32 < 32 * 2" by (simp add: add_strict_mono [of _ 32 _ 32, simplified])
  ultimately have "k = 0 \<or> k = 1" by linarith
  with k have "unat (- n) mod 32 = (if unat n mod 32 = 0 then 0 else 32 - unat n mod 32)"
    using mod_less_divisor [of 32 "unat (- n)"] by (auto simp del: mod_less_divisor)
  with a assms show ?thesis by (auto simp: bit_mask_iff)
qed

lemma tail_32:
  assumes "i < halfwords n" and "b < 32" and "unat n \<noteq> 0"
  shows "32 * i + b < unat n \<longleftrightarrow> i \<noteq> halfwords n - 1 \<or> unat n mod 32 = 0 \<or> b < unat n mod 32"
proof -
  note hw = halfwords_bounds(1,2) [of n]
  obtain l where l: "halfwords n = Suc l" using assms(1) by (cases "halfwords n") simp_all
  obtain r where r: "unat n = 32 * l + r" "0 < r" "r \<le> 32"
    using hw unfolding l by (intro that [of "unat n - 32 * l"]) simp_all
  then have "unat n mod 32 = r mod 32" by simp
  moreover have "32 * i + b < unat n" if "i \<noteq> l" using that assms(1,2) r(1) unfolding l by linarith
  ultimately show ?thesis using r assms(2) unfolding l by (cases "r = 32"; cases "i = l") auto
qed

text \<open>The words of the array hold the bits of the bitmap, with zeros behind the end.\<close>

lemma bitmap_to_arr32_spec:
  assumes "has h p (unat n)" and "halfwords n \<le> length buf"
  shows "\<exists>buf'. bitmap_to_arr32 h buf p n = Some buf' \<and> length buf' = length buf
    \<and> (\<forall>i<length buf. halfwords n \<le> i \<longrightarrow> buf' ! i = buf ! i)
    \<and> (\<forall>i<halfwords n. \<forall>b<32. bit (buf' ! i) b \<longleftrightarrow> 32 * i + b < unat n \<and> is_set h p (32 * i + b))"
proof -
  note hw = halfwords_bounds [of n]
  from to_arr32_loop_spec [OF assms(1) hw(1) assms(2), of 0] obtain b1 where
    b1: "to_arr32_loop h p (halfwords n) 0 buf = Some b1" "length b1 = length buf"
      "\<And>i. i < length buf \<Longrightarrow> b1 ! i = (if i < halfwords n then half_word h p i else buf ! i)" by auto
  show ?thesis
  proof (cases "unat n mod 64 = 0")
    case True
    have "32 * i + b < unat n" if "i < halfwords n" "b < 32" for i b
    proof -
      have "64 dvd unat n" using True by (rule mod_0_imp_dvd)
      then obtain k where "unat n = 64 * k" by (rule dvdE)
      then have "unat n = 32 * halfwords n" using hw(1,2) by presburger
      with that show ?thesis by linarith
    qed
    with True b1 assms(2) show ?thesis by (simp add: bitmap_to_arr32_def half_word_bit)
  next
    case False
    let ?l = "halfwords n - 1" and ?m = "drop_bit (unat (- n AND 31)) (- 1) :: u32"
    have n: "unat n \<noteq> 0" using False by (metis mod_0)
    then have l: "?l < halfwords n" using hw(2) by (cases "halfwords n") simp_all
    have "bitmap_to_arr32 h buf p n = Some (b1[?l := (b1 ! ?l) AND ?m])"
      using False l assms(2) b1(1,2) by (simp add: bitmap_to_arr32_def get_def put32_def)
    moreover have "32 * i + b < unat n \<longleftrightarrow> i \<noteq> ?l \<or> bit ?m b" if "i < halfwords n" "b < 32" for i b
      unfolding tail_mask_32 [OF that(2)] by (rule tail_32 [OF that n])
    ultimately show ?thesis
      using b1(2,3) assms(2) l by (auto simp: half_word_bit nth_list_update bit_and_iff)
  qed
qed


section \<open>Properties\<close>

text \<open>
  An array of 32-bit words that is copied into a bitmap and back has its bits below the
  number of bits again, zeros from there to the end of the last element, and its other elements
  untouched; no access is outside of the arrays.
\<close>

theorem bitmap_arr32_roundtrip:
  assumes "has h p (unat n)" and "halfwords n \<le> length buf" and "halfwords n \<le> length out"
  shows "\<exists>h' out'. bitmap_from_arr32 p buf n h = Some h' \<and> bitmap_to_arr32 h' out p n = Some out'
    \<and> length out' = length out
    \<and> (\<forall>i<halfwords n. \<forall>b<32. bit (out' ! i) b \<longleftrightarrow> 32 * i + b < unat n \<and> bit (buf ! i) b)
    \<and> (\<forall>i<length out. halfwords n \<le> i \<longrightarrow> out' ! i = out ! i)"
proof -
  from bitmap_from_arr32_spec [OF assms(1,2)] obtain h' where
    h': "bitmap_from_arr32 p buf n h = Some h'" "becomes p (unat n) (\<lambda>q. bit (buf ! (q div 32)) (q mod 32)) h h'" by blast
  have d: "has h' p (unat n)" using h'(2) assms(1) by (simp add: becomes_def same_shape_def)
  from bitmap_to_arr32_spec [OF d assms(3)] obtain out' where
    out': "bitmap_to_arr32 h' out p n = Some out'" "length out' = length out"
      "\<forall>i<length out. halfwords n \<le> i \<longrightarrow> out' ! i = out ! i"
      "\<forall>i<halfwords n. \<forall>b<32. bit (out' ! i) b \<longleftrightarrow> 32 * i + b < unat n \<and> is_set h' p (32 * i + b)" by blast
  have "is_set h' p (32 * i + b) \<longleftrightarrow> bit (buf ! i) b" if "32 * i + b < unat n" "b < 32" for i b
    using h'(2) that by (simp add: becomes_def)
  with out' h'(1) show ?thesis by blast
qed

theorem bitmap_arr32_roundtrip_witness:
  "\<exists>h' out'. bitmap_from_arr32 1 [7, 8, 0xFF] 70 [1 \<mapsto> [5, 6]] = Some h' \<and> bitmap_to_arr32 h' [1, 2, 3, 4] 1 70 = Some out'
    \<and> length out' = length [1, 2, 3, 4 :: u32]
    \<and> (\<forall>i<halfwords 70. \<forall>b<32. bit (out' ! i) b \<longleftrightarrow> 32 * i + b < unat (70 :: u32) \<and> bit ([7, 8, 0xFF :: u32] ! i) b)
    \<and> (\<forall>i<length [1, 2, 3, 4 :: u32]. halfwords 70 \<le> i \<longrightarrow> out' ! i = [1, 2, 3, 4] ! i)"
  by (rule bitmap_arr32_roundtrip) (simp_all add: has_def halfwords_def)

text \<open>
  \<open>bitmap_cut\<close> of a bitmap whose unused bits are clear keeps the bits below \<open>first\<close>, moves the
  bits behind the cut down and fills up with zeros.
\<close>

theorem bitmap_cut_correct:
  fixes first count n :: u32
  assumes "has h dst (unat n)" and "has h src (unat n)" and "unat first < unat n"
    and "\<forall>i\<in>{unat n..<64 * BITS_TO_LONGS n}. \<not> is_set h src i"
  shows "\<exists>h'. bitmap_cut dst src first count n h = Some h'
    \<and> becomes dst (unat n) (\<lambda>i. if i < unat first then is_set h src i
        else i + unat count < unat n \<and> is_set h src (i + unat count)) h h'"
proof -
  from bitmap_cut_spec [OF assms(1-3), of count] obtain h' where
    h': "bitmap_cut dst src first count n h = Some h'" "same_shape h h'"
      "\<forall>q i. q \<noteq> dst \<longrightarrow> is_set h' q i = is_set h q i"
      "\<And>i. i < 64 * BITS_TO_LONGS n \<Longrightarrow> is_set h' dst i = (if i < unat first then is_set h src i
          else i + unat count < 64 * BITS_TO_LONGS n \<and> is_set h src (i + unat count))" by blast
  have "(i + unat count < 64 * BITS_TO_LONGS n \<and> is_set h src (i + unat count))
      \<longleftrightarrow> (i + unat count < unat n \<and> is_set h src (i + unat count))" for i
    using assms(4) longs_le [of n] by (meson atLeastLessThan_iff le_trans not_less)
  moreover have "i < 64 * BITS_TO_LONGS n" if "i < unat n" for i using that longs_le [of n] by linarith
  ultimately show ?thesis using h' by (auto simp: becomes_def)
qed

theorem bitmap_cut_correct_witness:
  "\<exists>h'. bitmap_cut 2 1 3 66 70 [1 \<mapsto> [0x5F, 9], 2 \<mapsto> [0, 1]] = Some h'
    \<and> becomes 2 70 (\<lambda>i. if i < 3 then is_set [1 \<mapsto> [0x5F, 9], 2 \<mapsto> [0, 1]] 1 i
        else i + 66 < 70 \<and> is_set [1 \<mapsto> [0x5F, 9], 2 \<mapsto> [0, 1]] 1 (i + 66)) [1 \<mapsto> [0x5F, 9], 2 \<mapsto> [0, 1]] h'"
proof -
  let ?h = "[1 \<mapsto> [0x5F, 9], 2 \<mapsto> [0, 1]] :: heap"
  have "\<not> is_set ?h 1 i" if "i \<in> {unat (70 :: u32)..<64 * BITS_TO_LONGS 70}" for i
  proof -
    from that have i: "70 \<le> i" "i < 128" by (simp_all add: BITS_TO_LONGS_def)
    then have "i div 64 = 1" "4 \<le> i mod 64" by (simp_all add: div_nat_eqI mod_nat_eqI le_mod_geq)
    moreover have "take_bit 4 9 = (9 :: u64)" by simp
    then have "\<not> bit (9 :: u64) j" if "4 \<le> j" for j using that by (metis bit_take_bit_iff not_less)
    ultimately show ?thesis by (simp add: is_set_def word_at_def)
  qed
  then show ?thesis
    using bitmap_cut_correct [of ?h 2 70 1 3 66] by (simp add: has_def cong: if_cong)
qed

end
