(* ===== verification/Fdt.thy ===== *)
theory Fdt
  imports Prelude "HOL-Library.Monad_Syntax"
begin

text \<open>
  The flattened device tree: \<open>lib/src/linux/libfdt/fdt.c\<close> with the accessors of \<open>libfdt.h\<close> and
  \<open>libfdt_internal.h\<close>.  A blob is the memory from the address of the header on; nothing is known
  about its contents.  A pointer into the blob is its distance from the header, \<^const>\<open>None\<close> is
  \<open>NULL\<close>.  An \<open>int\<close> is a 32-bit word that is read with \<^const>\<open>sint\<close> where the source compares it with 0,
  so that its arithmetic and the conversions from and to \<open>unsigned\<close> wrap.  The outer option of a
  function is \<^const>\<open>None\<close> for a read outside of the memory and for a loop that does not end.  None of
  the assumptions of \<open>FDT_ASSUME_MASK\<close> is enabled.
\<close>

type_synonym s32 = "32 word"

record blob =
  blob_addr :: u64
  blob_mem :: "u8 list"

section \<open>Constants\<close>

abbreviation (input) FDT_ERR_NOTFOUND :: s32 where "FDT_ERR_NOTFOUND \<equiv> 1"
abbreviation (input) FDT_ERR_NOSPACE :: s32 where "FDT_ERR_NOSPACE \<equiv> 3"
abbreviation (input) FDT_ERR_BADOFFSET :: s32 where "FDT_ERR_BADOFFSET \<equiv> 4"
abbreviation (input) FDT_ERR_BADPATH :: s32 where "FDT_ERR_BADPATH \<equiv> 5"
abbreviation (input) FDT_ERR_BADPHANDLE :: s32 where "FDT_ERR_BADPHANDLE \<equiv> 6"
abbreviation (input) FDT_ERR_BADSTATE :: s32 where "FDT_ERR_BADSTATE \<equiv> 7"
abbreviation (input) FDT_ERR_TRUNCATED :: s32 where "FDT_ERR_TRUNCATED \<equiv> 8"
abbreviation (input) FDT_ERR_BADMAGIC :: s32 where "FDT_ERR_BADMAGIC \<equiv> 9"
abbreviation (input) FDT_ERR_BADVERSION :: s32 where "FDT_ERR_BADVERSION \<equiv> 10"
abbreviation (input) FDT_ERR_BADSTRUCTURE :: s32 where "FDT_ERR_BADSTRUCTURE \<equiv> 11"
abbreviation (input) FDT_ERR_INTERNAL :: s32 where "FDT_ERR_INTERNAL \<equiv> 13"
abbreviation (input) FDT_ERR_BADVALUE :: s32 where "FDT_ERR_BADVALUE \<equiv> 15"
abbreviation (input) FDT_ERR_NOPHANDLES :: s32 where "FDT_ERR_NOPHANDLES \<equiv> 17"
abbreviation (input) FDT_ERR_ALIGNMENT :: s32 where "FDT_ERR_ALIGNMENT \<equiv> 19"

abbreviation (input) FDT_BEGIN_NODE :: u32 where "FDT_BEGIN_NODE \<equiv> 1"
abbreviation (input) FDT_END_NODE :: u32 where "FDT_END_NODE \<equiv> 2"
abbreviation (input) FDT_PROP :: u32 where "FDT_PROP \<equiv> 3"
abbreviation (input) FDT_NOP :: u32 where "FDT_NOP \<equiv> 4"
abbreviation (input) FDT_END :: u32 where "FDT_END \<equiv> 9"

abbreviation (input) FDT_MAGIC :: u32 where "FDT_MAGIC \<equiv> 0xd00dfeed"
abbreviation (input) FDT_SW_MAGIC :: u32 where "FDT_SW_MAGIC \<equiv> NOT FDT_MAGIC"
abbreviation (input) FDT_FIRST_SUPPORTED_VERSION :: u32 where "FDT_FIRST_SUPPORTED_VERSION \<equiv> 2"
abbreviation (input) FDT_LAST_SUPPORTED_VERSION :: u32 where "FDT_LAST_SUPPORTED_VERSION \<equiv> 0x11"

section \<open>Reading\<close>

definition ld8 :: "blob \<Rightarrow> nat \<Rightarrow> u8 option" where
  "ld8 fdt p = (if p < length (blob_mem fdt) then Some (blob_mem fdt ! p) else None)"

definition fdt32_ld :: "blob \<Rightarrow> nat \<Rightarrow> u32 option" where
  "fdt32_ld fdt p =
     do {
       b0 \<leftarrow> ld8 fdt p;
       b1 \<leftarrow> ld8 fdt (p + 1);
       b2 \<leftarrow> ld8 fdt (p + 2);
       b3 \<leftarrow> ld8 fdt (p + 3);
       Some (push_bit 24 (ucast b0) OR push_bit 16 (ucast b1) OR push_bit 8 (ucast b2) OR ucast b3)
     }"

definition fdt64_ld :: "blob \<Rightarrow> nat \<Rightarrow> u64 option" where
  "fdt64_ld fdt p =
     do { hi \<leftarrow> fdt32_ld fdt p; lo \<leftarrow> fdt32_ld fdt (p + 4); Some (push_bit 32 (ucast hi) OR ucast lo) }"

definition fdt_magic :: "blob \<Rightarrow> u32 option" where "fdt_magic fdt = fdt32_ld fdt 0"
definition fdt_totalsize :: "blob \<Rightarrow> u32 option" where "fdt_totalsize fdt = fdt32_ld fdt 4"
definition fdt_off_dt_struct :: "blob \<Rightarrow> u32 option" where "fdt_off_dt_struct fdt = fdt32_ld fdt 8"
definition fdt_off_dt_strings :: "blob \<Rightarrow> u32 option" where "fdt_off_dt_strings fdt = fdt32_ld fdt 12"
definition fdt_off_mem_rsvmap :: "blob \<Rightarrow> u32 option" where "fdt_off_mem_rsvmap fdt = fdt32_ld fdt 16"
definition fdt_version :: "blob \<Rightarrow> u32 option" where "fdt_version fdt = fdt32_ld fdt 20"
definition fdt_last_comp_version :: "blob \<Rightarrow> u32 option" where "fdt_last_comp_version fdt = fdt32_ld fdt 24"
definition fdt_size_dt_strings :: "blob \<Rightarrow> u32 option" where "fdt_size_dt_strings fdt = fdt32_ld fdt 32"
definition fdt_size_dt_struct :: "blob \<Rightarrow> u32 option" where "fdt_size_dt_struct fdt = fdt32_ld fdt 36"

section \<open>The header\<close>

definition fdt_ro_probe :: "blob \<Rightarrow> s32 option" where
  "fdt_ro_probe fdt =
     do {
       totalsize \<leftarrow> fdt_totalsize fdt;
       let total = (if totalsize < 0x7FFFFFFF then totalsize else - FDT_ERR_TRUNCATED);
       if blob_addr fdt AND 7 \<noteq> 0 then Some (- FDT_ERR_ALIGNMENT)
       else do {
         magic \<leftarrow> fdt_magic fdt;
         if magic = FDT_MAGIC
         then do {
           v \<leftarrow> fdt_version fdt;
           l \<leftarrow> fdt_last_comp_version fdt;
           if v < FDT_FIRST_SUPPORTED_VERSION then Some (- FDT_ERR_BADVERSION)
           else if l > FDT_LAST_SUPPORTED_VERSION then Some (- FDT_ERR_BADVERSION)
           else Some total
         }
         else if magic = FDT_SW_MAGIC
         then do {
           s \<leftarrow> fdt_size_dt_struct fdt;
           if s = 0 then Some (- FDT_ERR_BADSTATE) else Some total
         }
         else Some (- FDT_ERR_BADMAGIC)
       }
     }"

definition check_off :: "u32 \<Rightarrow> u32 \<Rightarrow> u32 \<Rightarrow> bool" where
  "check_off hdrsize totalsize off \<longleftrightarrow> off \<ge> hdrsize \<and> off \<le> totalsize"

definition check_block :: "u32 \<Rightarrow> u32 \<Rightarrow> u32 \<Rightarrow> u32 \<Rightarrow> bool" where
  "check_block hdrsize totalsize base sz \<longleftrightarrow>
     check_off hdrsize totalsize base \<and> \<not> base + sz < base \<and> check_off hdrsize totalsize (base + sz)"

definition raw_fdt_header_size :: "u32 \<Rightarrow> u32" where
  "raw_fdt_header_size version =
     (if version \<le> 1 then 28 else if version \<le> 2 then 32 else if version \<le> 3 then 36
      else if version \<le> 16 then 36 else 40)"

definition fdt_header_size :: "blob \<Rightarrow> u32 option" where
  "fdt_header_size fdt = map_option raw_fdt_header_size (fdt_version fdt)"

definition fdt_check_header :: "blob \<Rightarrow> s32 option" where
  "fdt_check_header fdt =
     (if blob_addr fdt AND 7 \<noteq> 0 then Some (- FDT_ERR_ALIGNMENT)
      else do {
        magic \<leftarrow> fdt_magic fdt;
        if magic \<noteq> FDT_MAGIC then Some (- FDT_ERR_BADMAGIC)
        else do {
          v \<leftarrow> fdt_version fdt;
          l \<leftarrow> fdt_last_comp_version fdt;
          if v < FDT_FIRST_SUPPORTED_VERSION \<or> l > FDT_LAST_SUPPORTED_VERSION then Some (- FDT_ERR_BADVERSION)
          else if v < l then Some (- FDT_ERR_BADVERSION)
          else do {
            hdrsize \<leftarrow> fdt_header_size fdt;
            totalsize \<leftarrow> fdt_totalsize fdt;
            if totalsize < hdrsize \<or> totalsize > 0x7FFFFFFF then Some (- FDT_ERR_TRUNCATED)
            else do {
              rsv \<leftarrow> fdt_off_mem_rsvmap fdt;
              if \<not> check_off hdrsize totalsize rsv then Some (- FDT_ERR_TRUNCATED)
              else do {
                ds \<leftarrow> fdt_off_dt_struct fdt;
                ok \<leftarrow> (if v < 17 then Some (check_off hdrsize totalsize ds)
                      else do { sz \<leftarrow> fdt_size_dt_struct fdt; Some (check_block hdrsize totalsize ds sz) });
                if \<not> ok then Some (- FDT_ERR_TRUNCATED)
                else do {
                  st \<leftarrow> fdt_off_dt_strings fdt;
                  sz \<leftarrow> fdt_size_dt_strings fdt;
                  if \<not> check_block hdrsize totalsize st sz then Some (- FDT_ERR_TRUNCATED) else Some 0
                }
              }
            }
          }
        }
      })"

section \<open>Tags\<close>

definition raw_fdt_offset_ptr :: "blob \<Rightarrow> s32 \<Rightarrow> nat option" where
  "raw_fdt_offset_ptr fdt offset = do { s \<leftarrow> fdt_off_dt_struct fdt; Some (unat s + unat offset) }"

definition fdt_offset_ptr :: "blob \<Rightarrow> s32 \<Rightarrow> u32 \<Rightarrow> nat option option" where
  "fdt_offset_ptr fdt offset len =
     do {
       s \<leftarrow> fdt_off_dt_struct fdt;
       let absoffset = offset + s;
       if sint offset < 0 then Some None
       else do {
         total \<leftarrow> fdt_totalsize fdt;
         if absoffset < offset \<or> absoffset + len < absoffset \<or> absoffset + len > total then Some None
         else do {
           v \<leftarrow> fdt_version fdt;
           if v \<ge> 0x11
           then do {
             sz \<leftarrow> fdt_size_dt_struct fdt;
             if offset + len < offset \<or> offset + len > sz then Some None
             else map_option Some (raw_fdt_offset_ptr fdt offset)
           }
           else map_option Some (raw_fdt_offset_ptr fdt offset)
         }
       }
     }"

text \<open>The loop that skips the name of a node: the offset behind it, and whether its end was found.\<close>

partial_function (option) skip_name :: "blob \<Rightarrow> s32 \<Rightarrow> (s32 \<times> bool) option" where
  "skip_name fdt offset =
     do {
       p \<leftarrow> fdt_offset_ptr fdt offset 1;
       case p of
         None \<Rightarrow> Some (offset + 1, False)
       | Some q \<Rightarrow> do { c \<leftarrow> ld8 fdt q; if c \<noteq> 0 then skip_name fdt (offset + 1) else Some (offset + 1, True) }
     }"

declare skip_name.simps [simp del]
declare skip_name.simps [code]

definition FDT_TAGALIGN :: "s32 \<Rightarrow> s32" where
  "FDT_TAGALIGN x = (x + 3) AND NOT 3"

text \<open>The offset behind a token with the given tag, \<^const>\<open>None\<close> when it is broken.\<close>

definition tag_end :: "blob \<Rightarrow> u32 \<Rightarrow> s32 \<Rightarrow> s32 option option" where
  "tag_end fdt tag offset =
     (if tag = FDT_BEGIN_NODE
      then do { (offset, found) \<leftarrow> skip_name fdt offset; Some (if found then Some offset else None) }
      else if tag = FDT_PROP
      then do {
        lenp \<leftarrow> fdt_offset_ptr fdt offset 4;
        case lenp of
          None \<Rightarrow> Some None
        | Some q \<Rightarrow>
            do {
              len \<leftarrow> fdt32_ld fdt q;
              v \<leftarrow> fdt_version fdt;
              let offset = offset + 8 + len;
              Some (Some (if v < 0x10 \<and> len \<ge> 8 \<and> (offset - len) mod 8 \<noteq> 0 then offset + 4 else offset))
            }
      }
      else if tag = FDT_END \<or> tag = FDT_END_NODE \<or> tag = FDT_NOP then Some (Some offset)
      else Some None)"

definition fdt_next_tag :: "blob \<Rightarrow> s32 \<Rightarrow> (u32 \<times> s32) option" where
  "fdt_next_tag fdt startoffset =
     do {
       tagp \<leftarrow> fdt_offset_ptr fdt startoffset 4;
       case tagp of
         None \<Rightarrow> Some (FDT_END, - FDT_ERR_TRUNCATED)
       | Some q \<Rightarrow>
           do {
             tag \<leftarrow> fdt32_ld fdt q;
             stop \<leftarrow> tag_end fdt tag (startoffset + 4);
             case stop of
               None \<Rightarrow> Some (FDT_END, - FDT_ERR_BADSTRUCTURE)
             | Some offset \<Rightarrow>
                 do {
                   p \<leftarrow> fdt_offset_ptr fdt startoffset (offset - startoffset);
                   case p of
                     None \<Rightarrow> Some (FDT_END, - FDT_ERR_BADSTRUCTURE)
                   | Some _ \<Rightarrow> Some (tag, FDT_TAGALIGN offset)
                 }
           }
     }"

definition check_tag_offset :: "u32 \<Rightarrow> blob \<Rightarrow> s32 \<Rightarrow> s32 option" where
  "check_tag_offset wanted fdt offset =
     (if sint offset < 0 \<or> offset AND 3 \<noteq> 0 then Some (- FDT_ERR_BADOFFSET)
      else do {
        (tag, offset) \<leftarrow> fdt_next_tag fdt offset;
        if tag \<noteq> wanted then Some (- FDT_ERR_BADOFFSET) else Some offset
      })"

definition fdt_check_node_offset :: "blob \<Rightarrow> s32 \<Rightarrow> s32 option" where
  "fdt_check_node_offset = check_tag_offset FDT_BEGIN_NODE"

definition fdt_check_prop_offset :: "blob \<Rightarrow> s32 \<Rightarrow> s32 option" where
  "fdt_check_prop_offset = check_tag_offset FDT_PROP"

section \<open>Nodes\<close>

text \<open>The depth is \<^const>\<open>None\<close> when the caller passes no pointer for it.\<close>

partial_function (option) next_node_loop :: "blob \<Rightarrow> s32 \<Rightarrow> s32 option \<Rightarrow> (s32 \<times> s32 option) option" where
  "next_node_loop fdt offset depth =
     do {
       (tag, nextoffset) \<leftarrow> fdt_next_tag fdt offset;
       if tag = FDT_PROP \<or> tag = FDT_NOP then next_node_loop fdt nextoffset depth
       else if tag = FDT_BEGIN_NODE then Some (offset, map_option (\<lambda>d. d + 1) depth)
       else if tag = FDT_END_NODE
       then (case depth of
               None \<Rightarrow> next_node_loop fdt nextoffset depth
             | Some d \<Rightarrow>
                 if sint (d - 1) < 0 then Some (nextoffset, Some (d - 1))
                 else next_node_loop fdt nextoffset (Some (d - 1)))
       else if tag = FDT_END
       then (if sint nextoffset \<ge> 0 \<or> nextoffset = - FDT_ERR_TRUNCATED \<and> depth = None
             then Some (- FDT_ERR_NOTFOUND, depth)
             else Some (nextoffset, depth))
       else next_node_loop fdt nextoffset depth
     }"

declare next_node_loop.simps [simp del]
declare next_node_loop.simps [code]

definition fdt_next_node :: "blob \<Rightarrow> s32 \<Rightarrow> s32 option \<Rightarrow> (s32 \<times> s32 option) option" where
  "fdt_next_node fdt offset depth =
     (if sint offset \<ge> 0
      then do {
        nextoffset \<leftarrow> fdt_check_node_offset fdt offset;
        if sint nextoffset < 0 then Some (nextoffset, depth) else next_node_loop fdt nextoffset depth
      }
      else next_node_loop fdt 0 depth)"

definition fdt_first_subnode :: "blob \<Rightarrow> s32 \<Rightarrow> s32 option" where
  "fdt_first_subnode fdt offset =
     do {
       (offset, depth) \<leftarrow> fdt_next_node fdt offset (Some 0);
       Some (if sint offset < 0 \<or> depth \<noteq> Some 1 then - FDT_ERR_NOTFOUND else offset)
     }"

partial_function (option) next_subnode_loop :: "blob \<Rightarrow> s32 \<Rightarrow> s32 \<Rightarrow> s32 option" where
  "next_subnode_loop fdt offset depth =
     do {
       (offset, depth) \<leftarrow> fdt_next_node fdt offset (Some depth);
       let d = the depth;
       if sint offset < 0 \<or> sint d < 1 then Some (- FDT_ERR_NOTFOUND)
       else if sint d > 1 then next_subnode_loop fdt offset d
       else Some offset
     }"

declare next_subnode_loop.simps [simp del]
declare next_subnode_loop.simps [code]

definition fdt_next_subnode :: "blob \<Rightarrow> s32 \<Rightarrow> s32 option" where
  "fdt_next_subnode fdt offset = next_subnode_loop fdt offset 1"


section \<open>Bounds\<close>

text \<open>
  The memory holds the header of the latest version and as many bytes as the header says, a number that
  is an \<open>int\<close>.
\<close>

definition field :: "blob \<Rightarrow> nat \<Rightarrow> nat" where
  "field fdt p = unat (the (fdt32_ld fdt p))"

abbreviation total_size :: "blob \<Rightarrow> nat" where "total_size fdt \<equiv> field fdt 4"
abbreviation struct_off :: "blob \<Rightarrow> nat" where "struct_off fdt \<equiv> field fdt 8"
abbreviation version :: "blob \<Rightarrow> nat" where "version fdt \<equiv> field fdt 20"
abbreviation struct_size :: "blob \<Rightarrow> nat" where "struct_size fdt \<equiv> field fdt 36"

definition readable :: "blob \<Rightarrow> bool" where
  "readable fdt \<longleftrightarrow> 40 \<le> length (blob_mem fdt) \<and> total_size fdt \<le> length (blob_mem fdt) \<and> total_size fdt < 2 ^ 31"

lemma fdt32_ld_in: "p + 4 \<le> length (blob_mem fdt) \<Longrightarrow> \<exists>w. fdt32_ld fdt p = Some w"
  by (simp add: fdt32_ld_def ld8_def)

lemma header_in:
  assumes "readable fdt" and "p \<le> 36"
  shows "fdt32_ld fdt p = Some (word_of_nat (field fdt p))"
proof -
  have "\<exists>w. fdt32_ld fdt p = Some w"
    using assms by (intro fdt32_ld_in) (simp add: readable_def)
  then show ?thesis by (auto simp: field_def)
qed

lemma field_less: "field fdt p < 2 ^ 32"
  using unsigned_less [where ?'a = nat and w = "the (fdt32_ld fdt p)"] by (simp add: field_def)

lemma unat_field: "unat (word_of_nat (field fdt p) :: u32) = field fdt p"
  using field_less [of fdt p] by (simp add: unsigned_of_nat take_bit_nat_eq_self)

lemmas header_defs = fdt_magic_def fdt_totalsize_def fdt_off_dt_struct_def fdt_off_dt_strings_def fdt_off_mem_rsvmap_def
  fdt_version_def fdt_last_comp_version_def fdt_size_dt_strings_def fdt_size_dt_struct_def

text \<open>The \<open>len\<close> bytes at an offset of the structure block are inside of it.\<close>

definition inside :: "blob \<Rightarrow> s32 \<Rightarrow> nat \<Rightarrow> bool" where
  "inside fdt offset len \<longleftrightarrow> 0 \<le> sint offset \<and> struct_off fdt + unat offset + len \<le> total_size fdt
     \<and> (17 \<le> version fdt \<longrightarrow> unat offset + len \<le> struct_size fdt)"

lemma no_wrap:
  fixes a b c :: u32
  shows "\<not> a + b < a \<longleftrightarrow> unat a + unat b < 2 ^ 32"
    and "unat a + unat b < 2 ^ 32 \<Longrightarrow> unat (a + b) = unat a + unat b"
proof -
  have a: "unat a < 2 ^ 32" and b: "unat b < 2 ^ 32"
    using unsigned_less [where ?'a = nat and w = a] unsigned_less [where ?'a = nat and w = b] by simp_all
  show sum: "unat (a + b) = unat a + unat b" if "unat a + unat b < 2 ^ 32"
    using that by (simp add: unat_word_ariths)
  show "\<not> a + b < a \<longleftrightarrow> unat a + unat b < 2 ^ 32"
  proof (cases "unat a + unat b < 2 ^ 32")
    case False
    then have "unat (a + b) = unat a + unat b - 2 ^ 32"
      using a b by (simp add: unat_word_ariths mod_if)
    with False a b show ?thesis by (simp add: word_less_nat_alt)
  qed (simp add: sum word_less_nat_alt)
qed

lemma fits_iff:
  fixes a b c t :: u32
  shows "\<not> (a + b < a \<or> a + b + c < a + b \<or> a + b + c > t) \<longleftrightarrow> unat a + unat b + unat c \<le> unat t"
proof -
  have t: "unat t < 2 ^ 32" using unsigned_less [where ?'a = nat and w = t] by simp
  show ?thesis
  proof (cases "unat a + unat b < 2 ^ 32 \<and> unat a + unat b + unat c < 2 ^ 32")
    case True
    then have "unat (a + b) = unat a + unat b" by (simp add: no_wrap(2))
    moreover from this True have "unat (a + b + c) = unat a + unat b + unat c" using no_wrap(2) [of "a + b" c] by simp
    ultimately show ?thesis using True no_wrap(1) [of a b] no_wrap(1) [of "a + b" c] by (simp add: word_less_nat_alt not_less)
  next
    case False
    have "a + b < a \<or> a + b + c < a + b"
      using False no_wrap(1) [of a b] no_wrap(1) [of "a + b" c] no_wrap(2) [of a b] by auto
    with False t show ?thesis by auto
  qed
qed

lemma fits2_iff:
  fixes a b t :: u32
  shows "\<not> (a + b < a \<or> a + b > t) \<longleftrightarrow> unat a + unat b \<le> unat t"
  using fits_iff [of a b 0 t] by simp

lemma fdt_offset_ptr_eq:
  assumes "readable fdt"
  shows "fdt_offset_ptr fdt offset len = Some (if inside fdt offset (unat len) then Some (struct_off fdt + unat offset) else None)"
proof -
  note h = header_in [OF assms] and u = unat_field
  have fits: "\<not> (offset + word_of_nat (struct_off fdt) < offset \<or> offset + word_of_nat (struct_off fdt) + len < offset + word_of_nat (struct_off fdt)
      \<or> offset + word_of_nat (struct_off fdt) + len > word_of_nat (total_size fdt)) \<longleftrightarrow> struct_off fdt + unat offset + unat len \<le> total_size fdt"
    unfolding fits_iff u by (simp add: add.commute)
  have fits2: "\<not> (offset + len < offset \<or> offset + len > word_of_nat (struct_size fdt)) \<longleftrightarrow> unat offset + unat len \<le> struct_size fdt"
    unfolding fits2_iff u by simp
  have v: "(word_of_nat (version fdt) :: u32) \<ge> 0x11 \<longleftrightarrow> 17 \<le> version fdt" by (simp add: word_le_nat_alt u)
  show ?thesis
    unfolding fdt_offset_ptr_def header_defs raw_fdt_offset_ptr_def
    using fits fits2 by (simp add: h Let_def v inside_def u) (auto simp: not_less)
qed


lemma inside_mono: "inside fdt offset n \<Longrightarrow> m \<le> n \<Longrightarrow> inside fdt offset m"
  by (auto simp: inside_def)

lemma inside_read:
  assumes "readable fdt" and "inside fdt offset n" and "i < n"
  shows "ld8 fdt (struct_off fdt + unat offset + i) = Some (blob_mem fdt ! (struct_off fdt + unat offset + i))"
  using assms by (auto simp: inside_def readable_def ld8_def)

lemma inside_read32:
  assumes "readable fdt" and "inside fdt offset n" and "i + 4 \<le> n"
  shows "fdt32_ld fdt (struct_off fdt + unat offset + i) = Some (word_of_nat (field fdt (struct_off fdt + unat offset + i)))"
proof -
  have "\<exists>w. fdt32_ld fdt (struct_off fdt + unat offset + i) = Some w"
    using assms by (intro fdt32_ld_in) (auto simp: inside_def readable_def)
  then show ?thesis by (auto simp: field_def)
qed

text \<open>An offset that is not negative as an \<open>int\<close> can be advanced by a small amount without a wrap of the word.\<close>

lemma sint_nonneg: "0 \<le> sint (x :: s32) \<longleftrightarrow> unat x < 2 ^ 31"
proof -
  have u: "uint x < 2 ^ 32" "0 \<le> uint x" using unsigned_less [where ?'a = int and w = x] by simp_all
  have "0 \<le> signed_take_bit 31 (uint x) \<longleftrightarrow> uint x < 2 ^ 31"
  proof (cases "uint x < 2 ^ 31")
    case True
    moreover have "- (2 ^ 31) \<le> uint x" by (rule order_trans [of _ 0]) simp_all
    ultimately have "signed_take_bit 31 (uint x) = uint x" by (intro signed_take_bit_int_eq_self)
    with True show ?thesis by simp
  next
    case False
    have "uint x div 2 ^ 31 = 1"
      by (rule int_div_pos_eq [where r = "uint x - 2 ^ 31"]) (use False u in simp_all)
    then have "bit (uint x) 31" by (simp add: bit_iff_odd)
    then have "signed_take_bit 31 (uint x) < 0" by simp
    with False show ?thesis by simp
  qed
  also have "uint x < 2 ^ 31 \<longleftrightarrow> unat x < 2 ^ 31" 
    using zless_nat_eq_int_zless [of "unat x" "2 ^ 31"] by (simp add: nat_less_iff flip: nat_uint_eq)
  finally show ?thesis by (simp add: sint_uint)
qed


abbreviation struct_byte :: "blob \<Rightarrow> nat \<Rightarrow> u8" where
  "struct_byte fdt i \<equiv> blob_mem fdt ! (struct_off fdt + i)"

lemma offset_Suc: "inside fdt offset (Suc n) \<Longrightarrow> unat (offset + 1) = Suc (unat offset)"
proof -
  assume "inside fdt offset (Suc n)"
  then have "unat offset < 2 ^ 31" by (simp add: inside_def sint_nonneg)
  then show ?thesis using no_wrap(2) [of offset 1] by simp
qed

text \<open>A string of \<open>n\<close> characters with its terminator, inside of the structure block.\<close>

definition name_at :: "blob \<Rightarrow> s32 \<Rightarrow> nat \<Rightarrow> bool" where
  "name_at fdt offset n \<longleftrightarrow> inside fdt offset (Suc n) \<and> struct_byte fdt (unat offset + n) = 0
     \<and> (\<forall>i<n. struct_byte fdt (unat offset + i) \<noteq> 0)"

lemma name_at_0: "inside fdt offset 1 \<Longrightarrow> struct_byte fdt (unat offset) = 0 \<Longrightarrow> name_at fdt offset 0"
  by (simp add: name_at_def)

lemma name_at_Suc:
  assumes "inside fdt offset 1" and "struct_byte fdt (unat offset) \<noteq> 0" and "name_at fdt (offset + 1) n"
  shows "name_at fdt offset (Suc n)"
proof -
  have suc: "unat (offset + 1) = Suc (unat offset)" using assms(1) offset_Suc [of fdt offset 0] by simp
  have "\<forall>i<Suc n. struct_byte fdt (unat offset + i) \<noteq> 0"
    using assms(2,3) by (auto simp: name_at_def suc less_Suc_eq_0_disj)
  with assms(1,3) show ?thesis by (simp add: name_at_def inside_def suc)
qed

lemma skip_name_spec:
  assumes "readable fdt"
  shows "(\<exists>n offset'. skip_name fdt offset = Some (offset', True) \<and> unat offset' = unat offset + Suc n \<and> name_at fdt offset n)
    \<or> (\<exists>offset'. skip_name fdt offset = Some (offset', False))"
proof (induction "total_size fdt - unat offset" arbitrary: offset rule: less_induct)
  case less
  note ptr = fdt_offset_ptr_eq [OF assms, of offset 1]
  show ?case
  proof (cases "inside fdt offset 1")
    case False
    then show ?thesis by (subst skip_name.simps, subst skip_name.simps) (simp add: ptr)
  next
    case True
    have rd: "ld8 fdt (struct_off fdt + unat offset) = Some (struct_byte fdt (unat offset))"
      using inside_read [OF assms True, of 0] by simp
    have suc: "unat (offset + 1) = Suc (unat offset)" using True offset_Suc [of fdt offset 0] by simp
    show ?thesis
    proof (cases "struct_byte fdt (unat offset) = 0")
      case zero: True
      then have "skip_name fdt offset = Some (offset + 1, True)"
        using True by (subst skip_name.simps) (simp add: ptr rd)
      with name_at_0 [OF True zero] suc show ?thesis by force
    next
      case more: False
      then have step: "skip_name fdt offset = skip_name fdt (offset + 1)"
        using True by (subst skip_name.simps) (simp add: ptr rd)
      have "total_size fdt - unat (offset + 1) < total_size fdt - unat offset" using True suc by (auto simp: inside_def)
      from less [OF this] name_at_Suc [OF True more] show ?thesis
        unfolding step suc by (metis add_Suc add_Suc_right)
    qed
  qed
qed


section \<open>Tokens\<close>

text \<open>The 32-bit word at an offset of the structure block.\<close>

abbreviation struct_word :: "blob \<Rightarrow> nat \<Rightarrow> nat" where
  "struct_word fdt i \<equiv> field fdt (struct_off fdt + i)"

text \<open>The length of a property token before it is aligned: header, value and the padding of old versions.\<close>

definition prop_size :: "blob \<Rightarrow> nat \<Rightarrow> nat" where
  "prop_size fdt i = 12 + struct_word fdt (i + 4)
     + (if version fdt < 16 \<and> 8 \<le> struct_word fdt (i + 4) \<and> (i + 12) mod 8 \<noteq> 0 then 4 else 0)"

lemma of_nat_field_eq: "m < 2 ^ 32 \<Longrightarrow> (word_of_nat (field fdt p) = (word_of_nat m :: u32)) \<longleftrightarrow> field fdt p = m"
proof -
  assume m: "m < 2 ^ 32"
  have "field fdt p = m" if "word_of_nat (field fdt p) = (word_of_nat m :: u32)"
  proof -
    from that have "unat (word_of_nat (field fdt p) :: u32) = unat (word_of_nat m :: u32)" by simp
    with m show ?thesis by (simp add: unat_field) (simp add: unsigned_of_nat take_bit_nat_eq_self)
  qed
  then show ?thesis by blast
qed

lemma mod_8_word: "(x :: u32) mod 8 \<noteq> 0 \<longleftrightarrow> unat x mod 8 \<noteq> 0"
  by (simp add: unat_mod flip: unat_eq_zero)

lemma inside_less: "readable fdt \<Longrightarrow> inside fdt offset n \<Longrightarrow> unat offset + n < 2 ^ 31"
  by (simp add: readable_def inside_def)

lemma tag_end_prop:
  assumes "readable fdt" and "0 \<le> sint offset" and "unat offset + 4 < 2 ^ 31"
  shows "tag_end fdt 3 (offset + 4) = Some (if inside fdt offset 8 then Some (offset + word_of_nat (prop_size fdt (unat offset))) else None)"
proof -
  have o4: "unat (offset + 4) = unat offset + 4" using assms(3) no_wrap(2) [of offset 4] by simp
  have ins: "inside fdt (offset + 4) 4 \<longleftrightarrow> inside fdt offset 8"
    using assms(2,3) by (simp add: inside_def o4 sint_nonneg add_ac)
  have rd: "fdt32_ld fdt (struct_off fdt + unat (offset + 4)) = Some (word_of_nat (struct_word fdt (unat offset + 4)))"
    if "inside fdt offset 8" using inside_read32 [OF assms(1) that, of 4] by (simp add: o4 add.assoc)
  let ?len = "struct_word fdt (unat offset + 4)"
  have "offset + 4 + 8 + word_of_nat ?len - word_of_nat ?len = offset + 12" by simp
  moreover have "unat (offset + 12) mod 8 = (unat offset + 12) mod 8"
    using assms(3) no_wrap(2) [of offset 12] by simp
  ultimately have pad: "(offset + 4 + 8 + word_of_nat ?len - word_of_nat ?len) mod 8 \<noteq> (0 :: u32) \<longleftrightarrow> (unat offset + 12) mod 8 \<noteq> 0"
    unfolding mod_8_word by metis
  have v: "fdt_version fdt = Some (word_of_nat (version fdt))" using header_in [OF assms(1), of 20] by (simp add: fdt_version_def)
  have cmp: "(word_of_nat (version fdt) :: u32) < 0x10 \<longleftrightarrow> version fdt < 16" "(word_of_nat ?len :: u32) \<ge> 8 \<longleftrightarrow> 8 \<le> ?len"
    by (simp_all add: word_less_nat_alt word_le_nat_alt unat_field)
  show ?thesis
    unfolding tag_end_def fdt_offset_ptr_eq [OF assms(1)]
    using rd pad cmp by (simp add: ins v Let_def prop_size_def add.assoc)
qed

lemma fdt_next_tag_cases:
  assumes "readable fdt"
  obtains
    (Bad) err where "fdt_next_tag fdt offset = Some (9, err)" and "err = - 8 \<or> err = - 11"
  | (Node) n where "inside fdt offset (5 + n)" and "struct_word fdt (unat offset) = 1" and "name_at fdt (offset + 4) n"
      and "fdt_next_tag fdt offset = Some (1, FDT_TAGALIGN (offset + word_of_nat (5 + n)))"
  | (Prop) "inside fdt offset 8" and "struct_word fdt (unat offset) = 3"
      and "inside fdt offset (prop_size fdt (unat offset) mod 2 ^ 32)"
      and "fdt_next_tag fdt offset = Some (3, FDT_TAGALIGN (offset + word_of_nat (prop_size fdt (unat offset))))"
  | (Simple) t where "t \<in> {9, 2, 4}" and "inside fdt offset 4" and "struct_word fdt (unat offset) = t"
      and "fdt_next_tag fdt offset = Some (word_of_nat t, FDT_TAGALIGN (offset + 4))"
proof -
  note ptr = fdt_offset_ptr_eq [OF assms]
  show thesis
  proof (cases "inside fdt offset 4")
    case False
    then have "fdt_next_tag fdt offset = Some (9, - 8)" by (simp add: fdt_next_tag_def ptr)
    then show thesis by (rule Bad) simp
  next
    case True
    have rd: "fdt32_ld fdt (struct_off fdt + unat offset) = Some (word_of_nat (struct_word fdt (unat offset)))"
      using inside_read32 [OF assms True, of 0] by simp
    let ?t = "struct_word fdt (unat offset)"
    have next': "fdt_next_tag fdt offset = (do {
        stop \<leftarrow> tag_end fdt (word_of_nat ?t) (offset + 4);
        case stop of None \<Rightarrow> Some (9, - 11)
        | Some o' \<Rightarrow> if inside fdt offset (unat (o' - offset)) then Some (word_of_nat ?t, FDT_TAGALIGN o') else Some (9, - 11) })"
      using True by (auto simp: fdt_next_tag_def ptr rd split: Option.bind_split option.splits)
    have lt: "unat offset < 2 ^ 31" using True by (simp add: inside_def sint_nonneg)
    have o4: "unat (offset + 4) = unat offset + 4" using lt no_wrap(2) [of offset 4] by simp
    have pos: "0 \<le> sint offset" using True by (simp add: inside_def)
    note prop_end = tag_end_prop [OF assms pos inside_less [OF assms True]]
    consider "?t = 1" | "?t = 3" | "?t \<in> {9, 2, 4}" | "?t \<notin> {1, 3, 9, 2, 4}" by blast
    then show thesis
    proof cases
      case 1
      from skip_name_spec [OF assms, of "offset + 4"] show thesis
      proof (elim disjE exE conjE)
        fix o' assume "skip_name fdt (offset + 4) = Some (o', False)"
        then have "fdt_next_tag fdt offset = Some (9, - 11)" by (simp add: next' 1 tag_end_def)
        then show thesis by (rule Bad) simp
      next
        fix n o' assume skip: "skip_name fdt (offset + 4) = Some (o', True)" and o': "unat o' = unat (offset + 4) + Suc n"
          and name: "name_at fdt (offset + 4) n"
        have b: "unat offset + 5 + n < 2 ^ 32" using o' o4 unsigned_less [where ?'a = nat and w = o'] by simp
        then have un: "unat (word_of_nat (5 + n) :: u32) = 5 + n"
          by (subst unsigned_of_nat) (simp add: take_bit_nat_eq_self)
        have "unat (offset + word_of_nat (5 + n)) = unat offset + (5 + n)"
          using no_wrap(2) [of offset "word_of_nat (5 + n)"] b unfolding un by simp
        then have oeq: "o' = offset + word_of_nat (5 + n)"
          using o' o4 by (intro unsigned_word_eqI [where ?'a = nat]) simp
        have len: "unat (o' - offset) = 5 + n" unfolding oeq using un by simp
        have ins: "inside fdt offset (5 + n)"
          using name True by (simp add: name_at_def inside_def o4 add_ac)
        have "fdt_next_tag fdt offset = Some (1, FDT_TAGALIGN (offset + word_of_nat (5 + n)))"
          unfolding oeq [symmetric] using ins by (simp add: next' 1 tag_end_def skip len)
        with ins 1 name show thesis by (rule Node)
      qed
    next
      case 2
      show thesis
      proof (cases "inside fdt offset 8")
        case False
        then have "fdt_next_tag fdt offset = Some (9, - 11)" using True by (simp add: next' 2 prop_end)
        then show thesis by (rule Bad) simp
      next
        case ins8: True
        have len: "unat (word_of_nat (prop_size fdt (unat offset)) :: u32) = prop_size fdt (unat offset) mod 2 ^ 32"
          by (simp add: unsigned_of_nat take_bit_eq_mod)
        show thesis
        proof (cases "inside fdt offset (prop_size fdt (unat offset) mod 2 ^ 32)")
          case False
          then have "fdt_next_tag fdt offset = Some (9, - 11)" using True ins8 by (simp add: next' 2 prop_end len)
          then show thesis by (rule Bad) simp
        next
          case ins: True
          then have "fdt_next_tag fdt offset = Some (3, FDT_TAGALIGN (offset + word_of_nat (prop_size fdt (unat offset))))"
            using True ins8 by (simp add: next' 2 prop_end len)
          with ins8 2 ins show thesis by (rule Prop)
        qed
      qed
    next
      case 3
      then have "tag_end fdt (word_of_nat ?t) (offset + 4) = Some (Some (offset + 4))" by (auto simp: tag_end_def)
      then have "fdt_next_tag fdt offset = Some (word_of_nat ?t, FDT_TAGALIGN (offset + 4))" using True by (simp add: next')
      with 3 True show thesis by (intro Simple) simp_all
    next
      case 4
      have "(word_of_nat ?t :: u32) \<noteq> 1" "(word_of_nat ?t :: u32) \<noteq> 3" "(word_of_nat ?t :: u32) \<noteq> 9" "(word_of_nat ?t :: u32) \<noteq> 2" "(word_of_nat ?t :: u32) \<noteq> 4"
        using 4 of_nat_field_eq [of 1 fdt] of_nat_field_eq [of 3 fdt] of_nat_field_eq [of 9 fdt] of_nat_field_eq [of 2 fdt] of_nat_field_eq [of 4 fdt]
        by auto
      then have "fdt_next_tag fdt offset = Some (9, - 11)" by (simp add: next' tag_end_def)
      then show thesis by (rule Bad) simp
    qed
  qed
qed


lemma unat_TAGALIGN:
  assumes "unat x + 3 < 2 ^ 32"
  shows "unat (FDT_TAGALIGN x) = (unat x + 3) div 4 * 4"
proof -
  have "unat (x + 3) = unat x + 3" using no_wrap(2) [of x 3] assms by simp
  moreover have "FDT_TAGALIGN x = (x + 3) AND NOT (mask 2)" by (simp add: FDT_TAGALIGN_def mask_eq_exp_minus_1)
  ultimately show ?thesis
    by (simp only: unat_and_not_mask minus_mod_eq_div_mult power2_eq_square) simp
qed

lemma TAGALIGN_bounds:
  assumes "unat x + 3 < 2 ^ 32"
  shows "unat x \<le> unat (FDT_TAGALIGN x)" and "unat (FDT_TAGALIGN x) \<le> unat x + 3"
  unfolding unat_TAGALIGN [OF assms] using div_mult_mod_eq [of "unat x + 3" 4] mod_less_divisor [of 4 "unat x + 3"] by linarith+

text \<open>No property claims a length with which the end of its token wraps around.\<close>

definition lens_ok :: "blob \<Rightarrow> bool" where
  "lens_ok fdt \<longleftrightarrow> (\<forall>offset. inside fdt offset 8 \<longrightarrow> struct_word fdt (unat offset) = 3 \<longrightarrow> prop_size fdt (unat offset) < 2 ^ 32)"

lemma token_end:
  assumes "readable fdt" and "inside fdt offset n" and "0 < n"
  shows "unat offset < unat (FDT_TAGALIGN (offset + word_of_nat n))"
    and "unat (FDT_TAGALIGN (offset + word_of_nat n)) \<le> unat offset + n + 3"
proof -
  have b: "unat offset + n < 2 ^ 31" by (rule inside_less [OF assms(1,2)])
  then have un: "unat (word_of_nat n :: u32) = n" by (subst unsigned_of_nat) (simp add: take_bit_nat_eq_self)
  have sum: "unat (offset + word_of_nat n) = unat offset + n"
    using no_wrap(2) [of offset "word_of_nat n"] b unfolding un by simp
  with b have "unat (offset + word_of_nat n) + 3 < 2 ^ 32" by simp
  note t = TAGALIGN_bounds [OF this, unfolded sum]
  show "unat offset < unat (FDT_TAGALIGN (offset + word_of_nat n))" using t(1) assms(3) by linarith
  show "unat (FDT_TAGALIGN (offset + word_of_nat n)) \<le> unat offset + n + 3" by (rule t(2))
qed

lemma fdt_next_tag_returns:
  assumes "readable fdt"
  shows "\<exists>tag nextoffset. fdt_next_tag fdt offset = Some (tag, nextoffset)"
  by (rule fdt_next_tag_cases [OF assms, of offset]) auto

text \<open>A token that is not the end lies inside of the block, and the next one comes behind it.\<close>

lemma fdt_next_tag_progress:
  assumes "readable fdt" and "lens_ok fdt" and "fdt_next_tag fdt offset = Some (tag, nextoffset)" and "tag \<noteq> 9"
  shows "inside fdt offset 4" and "unat tag = struct_word fdt (unat offset)" and "unat offset < unat nextoffset"
proof -
  have "inside fdt offset 4 \<and> unat tag = struct_word fdt (unat offset) \<and> unat offset < unat nextoffset"
  proof (cases rule: fdt_next_tag_cases [OF assms(1), of offset, case_names Bad Node Prop Simple])
    case (Bad err)
    with assms(3,4) show ?thesis by simp
  next
    case (Node n)
    with assms(3) token_end(1) [OF assms(1) Node(1)] show ?thesis by (auto intro: inside_mono)
  next
    case Prop
    then have lt: "prop_size fdt (unat offset) < 2 ^ 32" using assms(2) by (simp add: lens_ok_def)
    then have "inside fdt offset (prop_size fdt (unat offset))" using Prop(3) by simp
    from token_end(1) [OF assms(1) this] assms(3) Prop show ?thesis
      by (auto simp: prop_size_def intro: inside_mono)
  next
    case (Simple t)
    with assms(3,4) token_end(1) [OF assms(1) Simple(2)] show ?thesis by auto
  qed
  then show "inside fdt offset 4" "unat tag = struct_word fdt (unat offset)" "unat offset < unat nextoffset" by auto
qed

lemma inside_decreases:
  assumes "inside fdt offset 4" and "unat offset < unat nextoffset"
  shows "total_size fdt - unat nextoffset < total_size fdt - unat offset"
  using assms by (auto simp: inside_def)

lemma next_node_loop_returns:
  assumes "readable fdt" and "lens_ok fdt"
  shows "\<exists>r d. next_node_loop fdt offset depth = Some (r, d)
    \<and> (0 \<le> sint r \<and> (\<forall>x. d = Some x \<longrightarrow> 0 \<le> sint x) \<longrightarrow> unat offset \<le> unat r \<and> inside fdt r 4 \<and> struct_word fdt (unat r) = 1)"
proof (induction "total_size fdt - unat offset" arbitrary: offset depth rule: less_induct)
  case less
  let ?goal = "\<lambda>offset res. \<exists>r d. res = Some (r, d) \<and> (0 \<le> sint r \<and> (\<forall>x. d = Some x \<longrightarrow> 0 \<le> sint x) \<longrightarrow>
      unat offset \<le> unat r \<and> inside fdt r 4 \<and> struct_word fdt (unat r) = 1)"
  obtain tag nxt where tag: "fdt_next_tag fdt offset = Some (tag, nxt)" using fdt_next_tag_returns [OF assms(1)] by blast
  show ?case
  proof (cases "tag = 9")
    case True
    then show ?thesis
      by (subst next_node_loop.simps) (auto simp: tag)
  next
    case False
    note p = fdt_next_tag_progress [OF assms tag False]
    have rec: "?goal offset (next_node_loop fdt nxt d)" for d
    proof -
      from less [OF inside_decreases [OF p(1,3)], of d] obtain r x where
        "next_node_loop fdt nxt d = Some (r, x)"
        "0 \<le> sint r \<and> (\<forall>y. x = Some y \<longrightarrow> 0 \<le> sint y) \<longrightarrow> unat nxt \<le> unat r \<and> inside fdt r 4 \<and> struct_word fdt (unat r) = 1"
        by blast
      with p(3) show ?thesis by (intro exI [of _ r] exI [of _ x]) auto
    qed
    show ?thesis
    proof (cases "tag = 1")
      case True
      then have "next_node_loop fdt offset depth = Some (offset, map_option (\<lambda>d. d + 1) depth)"
        by (subst next_node_loop.simps) (simp add: tag)
      moreover have "struct_word fdt (unat offset) = 1" using p(2) True by simp
      ultimately show ?thesis using p(1) by blast
    next
      case nt: False
      have neg: "?goal offset (Some (nxt, Some d))" if "sint d < 0" for d using that by auto
      show ?thesis
        using False nt rec neg by (subst next_node_loop.simps) (auto simp: tag split: option.split)
    qed
  qed
qed


lemma check_tag_offset_returns:
  assumes "readable fdt" and "lens_ok fdt" and "wanted \<noteq> 9"
  shows "\<exists>r. check_tag_offset wanted fdt offset = Some r
    \<and> (0 \<le> sint r \<longrightarrow> 0 \<le> sint offset \<and> unat offset < unat r \<and> inside fdt offset 4 \<and> struct_word fdt (unat offset) = unat wanted)"
proof -
  obtain tag nxt where tag: "fdt_next_tag fdt offset = Some (tag, nxt)" using fdt_next_tag_returns [OF assms(1)] by blast
  show ?thesis
    using fdt_next_tag_progress [OF assms(1,2) tag] assms(3) by (auto simp: check_tag_offset_def tag)
qed

lemma fdt_next_node_spec:
  assumes "readable fdt" and "lens_ok fdt"
  shows "\<exists>r d. fdt_next_node fdt offset depth = Some (r, d)
    \<and> (0 \<le> sint r \<and> (\<forall>x. d = Some x \<longrightarrow> 0 \<le> sint x) \<longrightarrow>
        (0 \<le> sint offset \<longrightarrow> unat offset < unat r) \<and> inside fdt r 4 \<and> struct_word fdt (unat r) = 1)"
proof (cases "0 \<le> sint offset")
  case True
  from check_tag_offset_returns [OF assms, of 1 offset] obtain n where
    n: "fdt_check_node_offset fdt offset = Some n" "0 \<le> sint n \<longrightarrow> unat offset < unat n"
    by (auto simp: fdt_check_node_offset_def)
  show ?thesis
  proof (cases "0 \<le> sint n")
    case n0: True
    from next_node_loop_returns [OF assms, of n depth] obtain r d where
      "next_node_loop fdt n depth = Some (r, d)"
      "0 \<le> sint r \<and> (\<forall>x. d = Some x \<longrightarrow> 0 \<le> sint x) \<longrightarrow> unat n \<le> unat r \<and> inside fdt r 4 \<and> struct_word fdt (unat r) = 1"
      by blast
    with True n n0 show ?thesis by (auto simp: fdt_next_node_def)
  qed (use True n(1) in \<open>simp add: fdt_next_node_def\<close>)
next
  case False
  with next_node_loop_returns [OF assms, of 0 depth] show ?thesis by (auto simp: fdt_next_node_def)
qed

end
