(* ===== verification/FdtRead.thy ===== *)
theory FdtRead
  imports Fdt
begin

text \<open>
  Reading a flattened device tree: \<open>lib/src/linux/libfdt/fdt_ro.c\<close>.  A string argument is the list of its
  characters without the terminator, and stands for the pointer and the length that the source passes.  A
  function that returns a pointer and stores a length or an error in \<open>*lenp\<close> returns both.
\<close>

type_synonym cstring = "u8 list"

section \<open>Memory functions\<close>

fun memchr :: "blob \<Rightarrow> nat \<Rightarrow> u8 \<Rightarrow> nat \<Rightarrow> nat option option" where
  "memchr fdt p c 0 = Some None"
| "memchr fdt p c (Suc n) = do { b \<leftarrow> ld8 fdt p; if b = c then Some (Some p) else memchr fdt (p + 1) c n }"

text \<open>
  Whether the bytes at \<open>p\<close> are those of a list: \<open>memcmp\<close> with the result 0, which may read all of them
  even when the first ones differ.
\<close>

definition memeq :: "blob \<Rightarrow> nat \<Rightarrow> u8 list \<Rightarrow> bool option" where
  "memeq fdt p s =
     (if p + length s \<le> length (blob_mem fdt) then Some (take (length s) (drop p (blob_mem fdt)) = s) else None)"

definition string_at :: "blob \<Rightarrow> nat \<Rightarrow> cstring option" where
  "string_at fdt p =
     (let s = takeWhile (\<lambda>b. b \<noteq> 0) (drop p (blob_mem fdt))
      in if p + length s < length (blob_mem fdt) then Some s else None)"

definition strlen :: "blob \<Rightarrow> nat \<Rightarrow> nat option" where
  "strlen fdt p = map_option length (string_at fdt p)"

definition strrchr :: "blob \<Rightarrow> nat \<Rightarrow> u8 \<Rightarrow> nat option option" where
  "strrchr fdt p c =
     do { s \<leftarrow> string_at fdt p; Some (if c \<in> set s then Some (p + (length s - 1 - length (takeWhile (\<lambda>b. b \<noteq> c) (rev s)))) else None) }"

section \<open>Strings\<close>

definition fdt_get_string :: "blob \<Rightarrow> s32 \<Rightarrow> (nat option \<times> s32) option" where
  "fdt_get_string fdt stroffset =
     do {
       totalsize \<leftarrow> fdt_ro_probe fdt;
       if sint totalsize < 0 then Some (None, totalsize)
       else do {
         st \<leftarrow> fdt_off_dt_strings fdt;
         let absoffset = stroffset + st;
         if absoffset \<ge> totalsize then Some (None, - FDT_ERR_BADOFFSET)
         else do {
           let len = totalsize - absoffset;
           magic \<leftarrow> fdt_magic fdt;
           limit \<leftarrow>
             (if magic = FDT_MAGIC
              then if sint stroffset < 0 then Some (Inl (- FDT_ERR_BADOFFSET))
                   else do {
                     v \<leftarrow> fdt_version fdt;
                     sz \<leftarrow> fdt_size_dt_strings fdt;
                     if v \<ge> 17
                     then if stroffset \<ge> sz then Some (Inl (- FDT_ERR_BADOFFSET)) else Some (Inr (min (sz - stroffset) len))
                     else Some (Inr len)
                   }
              else if magic = FDT_SW_MAGIC
              then do {
                sz \<leftarrow> fdt_size_dt_strings fdt;
                if sint stroffset \<ge> 0 \<or> - stroffset > sz then Some (Inl (- FDT_ERR_BADOFFSET))
                else Some (Inr (min (- stroffset) len))
              }
              else Some (Inl (- FDT_ERR_INTERNAL)));
           case limit of
             Inl err \<Rightarrow> Some (None, err)
           | Inr len \<Rightarrow>
               do {
                 n \<leftarrow> memchr fdt (unat absoffset) 0 (unat len);
                 case n of
                   None \<Rightarrow> Some (None, - FDT_ERR_TRUNCATED)
                 | Some q \<Rightarrow> Some (Some (unat absoffset), word_of_nat (q - unat absoffset))
               }
         }
       }
     }"

definition fdt_string_eq :: "blob \<Rightarrow> s32 \<Rightarrow> cstring \<Rightarrow> bool option" where
  "fdt_string_eq fdt stroffset s =
     do {
       (p, slen) \<leftarrow> fdt_get_string fdt stroffset;
       case p of
         None \<Rightarrow> Some False
       | Some q \<Rightarrow> if slen = word_of_nat (length s) then memeq fdt q s else Some False
     }"

section \<open>Names\<close>

definition fdt_get_name :: "blob \<Rightarrow> s32 \<Rightarrow> (nat option \<times> s32) option" where
  "fdt_get_name fdt nodeoffset =
     do {
       nh \<leftarrow> raw_fdt_offset_ptr fdt nodeoffset;
       err \<leftarrow> fdt_ro_probe fdt;
       if sint err < 0 then Some (None, err)
       else do {
         err \<leftarrow> fdt_check_node_offset fdt nodeoffset;
         if sint err < 0 then Some (None, err)
         else do {
           v \<leftarrow> fdt_version fdt;
           if v < 0x10
           then do {
             leaf \<leftarrow> strrchr fdt (nh + 4) 47;
             case leaf of
               None \<Rightarrow> Some (None, - FDT_ERR_BADSTRUCTURE)
             | Some q \<Rightarrow> do { n \<leftarrow> strlen fdt (q + 1); Some (Some (q + 1), word_of_nat n) }
           }
           else do { n \<leftarrow> strlen fdt (nh + 4); Some (Some (nh + 4), word_of_nat n) }
         }
       }
     }"

definition fdt_nodename_eq :: "blob \<Rightarrow> s32 \<Rightarrow> cstring \<Rightarrow> bool option" where
  "fdt_nodename_eq fdt offset s =
     do {
       (p, olen) \<leftarrow> fdt_get_name fdt offset;
       case p of
         None \<Rightarrow> Some False
       | Some q \<Rightarrow>
           if sint olen < int (length s) then Some False
           else do {
             same \<leftarrow> memeq fdt q s;
             if \<not> same then Some False
             else do { c \<leftarrow> ld8 fdt (q + length s); Some (c = 0 \<or> 64 \<notin> set s \<and> c = 64) }
           }
     }"

section \<open>Properties of a node\<close>

partial_function (option) nextprop :: "blob \<Rightarrow> s32 \<Rightarrow> s32 option" where
  "nextprop fdt offset =
     do {
       (tag, nextoffset) \<leftarrow> fdt_next_tag fdt offset;
       if tag = FDT_END then Some (if sint nextoffset \<ge> 0 then - FDT_ERR_BADSTRUCTURE else nextoffset)
       else if tag = FDT_PROP then Some offset
       else if tag = FDT_NOP then nextprop fdt nextoffset
       else Some (- FDT_ERR_NOTFOUND)
     }"

declare nextprop.simps [simp del]
declare nextprop.simps [code]

definition fdt_first_property_offset :: "blob \<Rightarrow> s32 \<Rightarrow> s32 option" where
  "fdt_first_property_offset fdt nodeoffset =
     do { offset \<leftarrow> fdt_check_node_offset fdt nodeoffset; if sint offset < 0 then Some offset else nextprop fdt offset }"

definition fdt_next_property_offset :: "blob \<Rightarrow> s32 \<Rightarrow> s32 option" where
  "fdt_next_property_offset fdt offset =
     do { offset \<leftarrow> fdt_check_prop_offset fdt offset; if sint offset < 0 then Some offset else nextprop fdt offset }"

definition raw_get_property_by_offset :: "blob \<Rightarrow> s32 \<Rightarrow> (nat option \<times> s32) option" where
  "raw_get_property_by_offset fdt offset =
     do {
       err \<leftarrow> fdt_check_prop_offset fdt offset;
       if sint err < 0 then Some (None, err)
       else do {
         prop \<leftarrow> raw_fdt_offset_ptr fdt offset;
         len \<leftarrow> fdt32_ld fdt (prop + 4);
         Some (Some prop, len)
       }
     }"

definition fdt_get_property_by_offset :: "blob \<Rightarrow> s32 \<Rightarrow> (nat option \<times> s32) option" where
  "fdt_get_property_by_offset fdt offset =
     do {
       v \<leftarrow> fdt_version fdt;
       if v < 0x10 then Some (None, - FDT_ERR_BADVERSION) else raw_get_property_by_offset fdt offset
     }"

text \<open>The loop over the properties; it also gives the offset of the property that it found.\<close>

partial_function (option) get_property_loop :: "blob \<Rightarrow> s32 \<Rightarrow> cstring \<Rightarrow> ((nat \<times> s32) option \<times> s32) option" where
  "get_property_loop fdt offset name =
     (if sint offset \<ge> 0
      then do {
        (prop, len) \<leftarrow> raw_get_property_by_offset fdt offset;
        case prop of
          None \<Rightarrow> Some (None, - FDT_ERR_INTERNAL)
        | Some q \<Rightarrow>
            do {
              nameoff \<leftarrow> fdt32_ld fdt (q + 8);
              eq \<leftarrow> fdt_string_eq fdt nameoff name;
              if eq then Some (Some (q, offset), len)
              else do { offset \<leftarrow> fdt_next_property_offset fdt offset; get_property_loop fdt offset name }
            }
      }
      else Some (None, offset))"

declare get_property_loop.simps [simp del]
declare get_property_loop.simps [code]

definition raw_get_property_namelen :: "blob \<Rightarrow> s32 \<Rightarrow> cstring \<Rightarrow> ((nat \<times> s32) option \<times> s32) option" where
  "raw_get_property_namelen fdt offset name =
     do { offset \<leftarrow> fdt_first_property_offset fdt offset; get_property_loop fdt offset name }"

definition fdt_get_property_namelen :: "blob \<Rightarrow> s32 \<Rightarrow> cstring \<Rightarrow> (nat option \<times> s32) option" where
  "fdt_get_property_namelen fdt offset name =
     do {
       v \<leftarrow> fdt_version fdt;
       if v < 0x10 then Some (None, - FDT_ERR_BADVERSION)
       else do { (prop, len) \<leftarrow> raw_get_property_namelen fdt offset name; Some (map_option fst prop, len) }
     }"

text \<open>The value of a property found at \<open>q\<close>; versions before 16 align it to 8 bytes.\<close>

definition prop_data :: "blob \<Rightarrow> nat \<Rightarrow> s32 \<Rightarrow> nat option" where
  "prop_data fdt q poffset =
     do {
       v \<leftarrow> fdt_version fdt;
       len \<leftarrow> fdt32_ld fdt (q + 4);
       Some (if v < 0x10 \<and> (poffset + 12) mod 8 \<noteq> 0 \<and> len \<ge> 8 then q + 12 + 4 else q + 12)
     }"

definition fdt_getprop_namelen :: "blob \<Rightarrow> s32 \<Rightarrow> cstring \<Rightarrow> (nat option \<times> s32) option" where
  "fdt_getprop_namelen fdt nodeoffset name =
     do {
       (prop, len) \<leftarrow> raw_get_property_namelen fdt nodeoffset name;
       case prop of
         None \<Rightarrow> Some (None, len)
       | Some (q, poffset) \<Rightarrow> do { d \<leftarrow> prop_data fdt q poffset; Some (Some d, len) }
     }"

text \<open>The value, the name and the length of the property at an offset.\<close>

definition fdt_getprop_by_offset :: "blob \<Rightarrow> s32 \<Rightarrow> (nat option \<times> nat option \<times> s32) option" where
  "fdt_getprop_by_offset fdt offset =
     do {
       (prop, len) \<leftarrow> raw_get_property_by_offset fdt offset;
       case prop of
         None \<Rightarrow> Some (None, None, len)
       | Some q \<Rightarrow>
           do {
             nameoff \<leftarrow> fdt32_ld fdt (q + 8);
             (name, namelen) \<leftarrow> fdt_get_string fdt nameoff;
             case name of
               None \<Rightarrow> Some (None, None, namelen)
             | Some nm \<Rightarrow> do { d \<leftarrow> prop_data fdt q offset; Some (Some d, Some nm, len) }
           }
     }"

definition fdt_get_phandle :: "blob \<Rightarrow> s32 \<Rightarrow> u32 option" where
  "fdt_get_phandle fdt nodeoffset =
     do {
       (php, len) \<leftarrow> fdt_getprop_namelen fdt nodeoffset [112, 104, 97, 110, 100, 108, 101];
       (php, len) \<leftarrow>
         (if php = None \<or> len \<noteq> 4
          then fdt_getprop_namelen fdt nodeoffset [108, 105, 110, 117, 120, 44, 112, 104, 97, 110, 100, 108, 101]
          else Some (php, len));
       case php of
         None \<Rightarrow> Some 0
       | Some q \<Rightarrow> if len \<noteq> 4 then Some 0 else fdt32_ld fdt q
     }"

section \<open>Phandles\<close>

partial_function (option) max_phandle_loop :: "blob \<Rightarrow> s32 \<Rightarrow> u32 \<Rightarrow> (s32 \<times> u32) option" where
  "max_phandle_loop fdt offset maximum =
     do {
       (offset, _) \<leftarrow> fdt_next_node fdt offset None;
       if sint offset < 0 then Some (if offset = - FDT_ERR_NOTFOUND then 0 else offset, maximum)
       else do {
         v \<leftarrow> fdt_get_phandle fdt offset;
         max_phandle_loop fdt offset (if v > maximum then v else maximum)
       }
     }"

declare max_phandle_loop.simps [simp del]
declare max_phandle_loop.simps [code]

text \<open>The error and the phandle, which is stored only when there is no error.\<close>

definition fdt_find_max_phandle :: "blob \<Rightarrow> (s32 \<times> u32 option) option" where
  "fdt_find_max_phandle fdt =
     do { (err, m) \<leftarrow> max_phandle_loop fdt (- 1) 0; Some (err, if err = 0 then Some m else None) }"

abbreviation (input) FDT_MAX_PHANDLE :: u32 where "FDT_MAX_PHANDLE \<equiv> 0xfffffffe"

definition fdt_generate_phandle :: "blob \<Rightarrow> (s32 \<times> u32 option) option" where
  "fdt_generate_phandle fdt =
     do {
       (err, m) \<leftarrow> fdt_find_max_phandle fdt;
       if sint err < 0 then Some (err, None)
       else if m = Some FDT_MAX_PHANDLE then Some (- FDT_ERR_NOPHANDLES, None)
       else Some (0, map_option (\<lambda>x. x + 1) m)
     }"

partial_function (option) by_phandle_loop :: "blob \<Rightarrow> s32 \<Rightarrow> u32 \<Rightarrow> s32 option" where
  "by_phandle_loop fdt offset phandle =
     (if sint offset \<ge> 0
      then do {
        v \<leftarrow> fdt_get_phandle fdt offset;
        if v = phandle then Some offset
        else do { (offset, _) \<leftarrow> fdt_next_node fdt offset None; by_phandle_loop fdt offset phandle }
      }
      else Some offset)"

declare by_phandle_loop.simps [simp del]
declare by_phandle_loop.simps [code]

definition fdt_node_offset_by_phandle :: "blob \<Rightarrow> u32 \<Rightarrow> s32 option" where
  "fdt_node_offset_by_phandle fdt phandle =
     (if phandle = 0 \<or> phandle = NOT 0 then Some (- FDT_ERR_BADPHANDLE)
      else do {
        err \<leftarrow> fdt_ro_probe fdt;
        if sint err < 0 then Some err
        else do { (offset, _) \<leftarrow> fdt_next_node fdt (- 1) None; by_phandle_loop fdt offset phandle }
      })"

section \<open>Reserved memory\<close>

text \<open>
  The entry with number \<open>n\<close>.  The check computes the offset of the entry as an \<open>unsigned int\<close>, the pointer
  is computed without a wrap; it may lie before the blob.
\<close>

definition fdt_mem_rsv :: "blob \<Rightarrow> s32 \<Rightarrow> int option option" where
  "fdt_mem_rsv fdt n =
     do {
       rsv \<leftarrow> fdt_off_mem_rsvmap fdt;
       total \<leftarrow> fdt_totalsize fdt;
       let absoffset = rsv + n * 16;
       if absoffset < rsv then Some None
       else if (ucast absoffset :: u64) > ucast total - 16 then Some None
       else Some (Some (uint rsv + sint n * 16))
     }"

definition rsv_ld64 :: "blob \<Rightarrow> int \<Rightarrow> u64 option" where
  "rsv_ld64 fdt p = (if p < 0 then None else fdt64_ld fdt (nat p))"

text \<open>The error, or the address and the size of the entry.\<close>

definition fdt_get_mem_rsv :: "blob \<Rightarrow> s32 \<Rightarrow> (s32 + u64 \<times> u64) option" where
  "fdt_get_mem_rsv fdt n =
     do {
       err \<leftarrow> fdt_ro_probe fdt;
       if sint err < 0 then Some (Inl err)
       else do {
         re \<leftarrow> fdt_mem_rsv fdt n;
         case re of
           None \<Rightarrow> Some (Inl (- FDT_ERR_BADOFFSET))
         | Some p \<Rightarrow> do { address \<leftarrow> rsv_ld64 fdt p; sz \<leftarrow> rsv_ld64 fdt (p + 8); Some (Inr (address, sz)) }
       }
     }"

partial_function (option) num_mem_rsv_loop :: "blob \<Rightarrow> s32 \<Rightarrow> s32 option" where
  "num_mem_rsv_loop fdt i =
     do {
       re \<leftarrow> fdt_mem_rsv fdt i;
       case re of
         None \<Rightarrow> Some (- FDT_ERR_TRUNCATED)
       | Some p \<Rightarrow> do { sz \<leftarrow> rsv_ld64 fdt (p + 8); if sz = 0 then Some i else num_mem_rsv_loop fdt (i + 1) }
     }"

declare num_mem_rsv_loop.simps [simp del]
declare num_mem_rsv_loop.simps [code]

definition fdt_num_mem_rsv :: "blob \<Rightarrow> s32 option" where
  "fdt_num_mem_rsv fdt = num_mem_rsv_loop fdt 0"

section \<open>Nodes by name\<close>

partial_function (option) subnode_offset_loop :: "blob \<Rightarrow> s32 \<Rightarrow> s32 \<Rightarrow> cstring \<Rightarrow> s32 option" where
  "subnode_offset_loop fdt offset depth name =
     (if sint offset \<ge> 0 \<and> sint depth \<ge> 0
      then do {
        eq \<leftarrow> (if depth = 1 then fdt_nodename_eq fdt offset name else Some False);
        if eq then Some offset
        else do {
          (offset, d) \<leftarrow> fdt_next_node fdt offset (Some depth);
          subnode_offset_loop fdt offset (the d) name
        }
      }
      else Some (if sint depth < 0 then - FDT_ERR_NOTFOUND else offset))"

declare subnode_offset_loop.simps [simp del]
declare subnode_offset_loop.simps [code]

definition fdt_subnode_offset_namelen :: "blob \<Rightarrow> s32 \<Rightarrow> cstring \<Rightarrow> s32 option" where
  "fdt_subnode_offset_namelen fdt offset name =
     do {
       err \<leftarrow> fdt_ro_probe fdt;
       if sint err < 0 then Some err else subnode_offset_loop fdt offset 0 name
     }"

text \<open>
  The loop over the components of a path: it skips slashes, and looks up the characters up to the next
  slash.
\<close>

function path_offset_loop :: "blob \<Rightarrow> cstring \<Rightarrow> s32 \<Rightarrow> s32 option" where
  "path_offset_loop fdt p offset =
     (let p = dropWhile (\<lambda>c. c = 47) p
      in if p = [] then Some offset
         else do {
           offset \<leftarrow> fdt_subnode_offset_namelen fdt offset (takeWhile (\<lambda>c. c \<noteq> 47) p);
           if sint offset < 0 then Some offset else path_offset_loop fdt (dropWhile (\<lambda>c. c \<noteq> 47) p) offset
         })"
  by auto
termination
proof (relation "measure (\<lambda>(fdt, p, offset). length p)")
  fix p x :: cstring and fdt :: blob and offset y :: s32
  assume x: "x = dropWhile (\<lambda>c. c = 47) p" and ne: "x \<noteq> []"
  have "hd x \<noteq> 47" using ne hd_dropWhile [of "\<lambda>c. c = 47" p] by (simp add: x)
  with ne have "length (dropWhile (\<lambda>c. c \<noteq> 47) x) < length x"
    by (cases x) (simp_all add: length_dropWhile_le less_Suc_eq_le)
  also have "\<dots> \<le> length p" by (simp add: x length_dropWhile_le)
  finally show "((fdt, dropWhile (\<lambda>c. c \<noteq> 47) x, y), fdt, p, offset) \<in> measure (\<lambda>(fdt, p, offset). length p)" by simp
qed simp

declare path_offset_loop.simps [simp del]

text \<open>
  A path that does not start with a slash starts with an alias, a property of the node \<open>/aliases\<close> that
  holds a path as a terminated string.  An empty path is followed by a character other than a slash.
\<close>

abbreviation (input) aliases_path :: cstring where "aliases_path \<equiv> [47, 97, 108, 105, 97, 115, 101, 115]"

partial_function (option) fdt_path_offset_namelen :: "blob \<Rightarrow> cstring \<Rightarrow> s32 option" where
  "fdt_path_offset_namelen fdt path =
     do {
       err \<leftarrow> fdt_ro_probe fdt;
       if sint err < 0 then Some err
       else if path = [] \<or> hd path \<noteq> 47
       then do {
         aliasoffset \<leftarrow> fdt_path_offset_namelen fdt aliases_path;
         alias \<leftarrow> (if sint aliasoffset < 0 then Some None
           else map_option fst (fdt_getprop_namelen fdt aliasoffset (takeWhile (\<lambda>c. c \<noteq> 47) path)));
         case alias of
           None \<Rightarrow> Some (- FDT_ERR_BADPATH)
         | Some q \<Rightarrow>
             do {
               target \<leftarrow> string_at fdt q;
               offset \<leftarrow> fdt_path_offset_namelen fdt target;
               path_offset_loop fdt (dropWhile (\<lambda>c. c \<noteq> 47) path) offset
             }
       }
       else path_offset_loop fdt path 0
     }"

declare fdt_path_offset_namelen.simps [simp del]
declare fdt_path_offset_namelen.simps [code]

definition fdt_get_alias_namelen :: "blob \<Rightarrow> cstring \<Rightarrow> nat option option" where
  "fdt_get_alias_namelen fdt name =
     do {
       aliasoffset \<leftarrow> fdt_path_offset_namelen fdt aliases_path;
       if sint aliasoffset < 0 then Some None else map_option fst (fdt_getprop_namelen fdt aliasoffset name)
     }"

section \<open>Ancestors\<close>

text \<open>The offset of the ancestor at a depth and the depth of the node, which is stored when the node is found.\<close>

partial_function (option) supernode_loop :: "blob \<Rightarrow> s32 \<Rightarrow> s32 \<Rightarrow> s32 \<Rightarrow> s32 \<Rightarrow> s32 \<Rightarrow> (s32 \<times> s32 option) option" where
  "supernode_loop fdt offset depth nodeoffset supernodedepth supernodeoffset =
     (if sint offset \<ge> 0 \<and> sint offset \<le> sint nodeoffset
      then let supernodeoffset = (if depth = supernodedepth then offset else supernodeoffset)
           in if offset = nodeoffset
              then Some (if sint supernodedepth > sint depth then - FDT_ERR_NOTFOUND else supernodeoffset, Some depth)
              else do {
                (offset, d) \<leftarrow> fdt_next_node fdt offset (Some depth);
                supernode_loop fdt offset (the d) nodeoffset supernodedepth supernodeoffset
              }
      else Some (if offset = - FDT_ERR_NOTFOUND \<or> sint offset \<ge> 0 then - FDT_ERR_BADOFFSET
                 else if offset = - FDT_ERR_BADOFFSET then - FDT_ERR_BADSTRUCTURE else offset, None))"

declare supernode_loop.simps [simp del]
declare supernode_loop.simps [code]

definition fdt_supernode_atdepth_offset :: "blob \<Rightarrow> s32 \<Rightarrow> s32 \<Rightarrow> (s32 \<times> s32 option) option" where
  "fdt_supernode_atdepth_offset fdt nodeoffset supernodedepth =
     do {
       err \<leftarrow> fdt_ro_probe fdt;
       if sint err < 0 then Some (err, None)
       else if sint supernodedepth < 0 then Some (- FDT_ERR_NOTFOUND, None)
       else supernode_loop fdt 0 0 nodeoffset supernodedepth (- FDT_ERR_INTERNAL)
     }"

text \<open>The depth is used only when the offset is 0, and then it has been stored.\<close>

definition fdt_node_depth :: "blob \<Rightarrow> s32 \<Rightarrow> s32 option" where
  "fdt_node_depth fdt nodeoffset =
     do {
       (err, nodedepth) \<leftarrow> fdt_supernode_atdepth_offset fdt nodeoffset 0;
       if err \<noteq> 0 then Some (if sint err < 0 then err else - FDT_ERR_INTERNAL) else nodedepth
     }"

definition fdt_parent_offset :: "blob \<Rightarrow> s32 \<Rightarrow> s32 option" where
  "fdt_parent_offset fdt nodeoffset =
     do {
       nodedepth \<leftarrow> fdt_node_depth fdt nodeoffset;
       if sint nodedepth < 0 then Some nodedepth
       else map_option fst (fdt_supernode_atdepth_offset fdt nodeoffset (nodedepth - 1))
     }"

section \<open>Nodes by property\<close>

partial_function (option) by_prop_value_loop :: "blob \<Rightarrow> s32 \<Rightarrow> cstring \<Rightarrow> u8 list \<Rightarrow> s32 option" where
  "by_prop_value_loop fdt offset propname propval =
     (if sint offset \<ge> 0
      then do {
        (val, len) \<leftarrow> fdt_getprop_namelen fdt offset propname;
        eq \<leftarrow> (case val of None \<Rightarrow> Some False
               | Some q \<Rightarrow> if len = word_of_nat (length propval) then memeq fdt q propval else Some False);
        if eq then Some offset
        else do { (offset, _) \<leftarrow> fdt_next_node fdt offset None; by_prop_value_loop fdt offset propname propval }
      }
      else Some offset)"

declare by_prop_value_loop.simps [simp del]
declare by_prop_value_loop.simps [code]

definition fdt_node_offset_by_prop_value :: "blob \<Rightarrow> s32 \<Rightarrow> cstring \<Rightarrow> u8 list \<Rightarrow> s32 option" where
  "fdt_node_offset_by_prop_value fdt startoffset propname propval =
     do {
       err \<leftarrow> fdt_ro_probe fdt;
       if sint err < 0 then Some err
       else do { (offset, _) \<leftarrow> fdt_next_node fdt startoffset None; by_prop_value_loop fdt offset propname propval }
     }"

section \<open>Lists of strings\<close>

text \<open>A list is the bytes at a position of the blob, usually the value of a property.\<close>

partial_function (option) fdt_stringlist_contains :: "blob \<Rightarrow> nat \<Rightarrow> s32 \<Rightarrow> cstring \<Rightarrow> bool option" where
  "fdt_stringlist_contains fdt strlist listlen str =
     (if sint listlen \<ge> int (length str)
      then do {
        eq \<leftarrow> memeq fdt strlist (str @ [0]);
        if eq then Some True
        else do {
          p \<leftarrow> memchr fdt strlist 0 (unat listlen);
          case p of
            None \<Rightarrow> Some False
          | Some q \<Rightarrow> fdt_stringlist_contains fdt (q + 1) (listlen - word_of_nat (q - strlist + 1)) str
        }
      }
      else Some False)"

declare fdt_stringlist_contains.simps [simp del]
declare fdt_stringlist_contains.simps [code]

definition strnlen :: "blob \<Rightarrow> nat \<Rightarrow> nat \<Rightarrow> nat option" where
  "strnlen fdt p n = map_option (\<lambda>r. case r of None \<Rightarrow> n | Some q \<Rightarrow> q - p) (memchr fdt p 0 n)"

partial_function (option) stringlist_count_loop :: "blob \<Rightarrow> nat \<Rightarrow> nat \<Rightarrow> s32 \<Rightarrow> s32 option" where
  "stringlist_count_loop fdt list stop count =
     (if list < stop
      then do {
        n \<leftarrow> strnlen fdt list (stop - list);
        if list + (n + 1) > stop then Some (- FDT_ERR_BADVALUE)
        else stringlist_count_loop fdt (list + (n + 1)) stop (count + 1)
      }
      else Some count)"

declare stringlist_count_loop.simps [simp del]
declare stringlist_count_loop.simps [code]

definition fdt_stringlist_count :: "blob \<Rightarrow> s32 \<Rightarrow> cstring \<Rightarrow> s32 option" where
  "fdt_stringlist_count fdt nodeoffset propname =
     do {
       (list, len) \<leftarrow> fdt_getprop_namelen fdt nodeoffset propname;
       case list of
         None \<Rightarrow> Some len
       | Some q \<Rightarrow> stringlist_count_loop fdt q (nat (int q + sint len)) 0
     }"

partial_function (option) stringlist_search_loop :: "blob \<Rightarrow> nat \<Rightarrow> nat \<Rightarrow> cstring \<Rightarrow> s32 \<Rightarrow> s32 option" where
  "stringlist_search_loop fdt list stop string idx =
     (if list < stop
      then do {
        n \<leftarrow> strnlen fdt list (stop - list);
        if list + (n + 1) > stop then Some (- FDT_ERR_BADVALUE)
        else do {
          eq \<leftarrow> (if n + 1 = length string + 1 then memeq fdt list (string @ [0]) else Some False);
          if eq then Some idx else stringlist_search_loop fdt (list + (n + 1)) stop string (idx + 1)
        }
      }
      else Some (- FDT_ERR_NOTFOUND))"

declare stringlist_search_loop.simps [simp del]
declare stringlist_search_loop.simps [code]

definition fdt_stringlist_search :: "blob \<Rightarrow> s32 \<Rightarrow> cstring \<Rightarrow> cstring \<Rightarrow> s32 option" where
  "fdt_stringlist_search fdt nodeoffset propname string =
     do {
       (list, len) \<leftarrow> fdt_getprop_namelen fdt nodeoffset propname;
       case list of
         None \<Rightarrow> Some len
       | Some q \<Rightarrow> stringlist_search_loop fdt q (nat (int q + sint len)) string 0
     }"

partial_function (option) stringlist_get_loop :: "blob \<Rightarrow> nat \<Rightarrow> nat \<Rightarrow> s32 \<Rightarrow> (nat option \<times> s32) option" where
  "stringlist_get_loop fdt list stop idx =
     (if list < stop
      then do {
        n \<leftarrow> strnlen fdt list (stop - list);
        if list + (n + 1) > stop then Some (None, - FDT_ERR_BADVALUE)
        else if idx = 0 then Some (Some list, word_of_nat n)
        else stringlist_get_loop fdt (list + (n + 1)) stop (idx - 1)
      }
      else Some (None, - FDT_ERR_NOTFOUND))"

declare stringlist_get_loop.simps [simp del]
declare stringlist_get_loop.simps [code]

definition fdt_stringlist_get :: "blob \<Rightarrow> s32 \<Rightarrow> cstring \<Rightarrow> s32 \<Rightarrow> (nat option \<times> s32) option" where
  "fdt_stringlist_get fdt nodeoffset propname idx =
     do {
       (list, len) \<leftarrow> fdt_getprop_namelen fdt nodeoffset propname;
       case list of
         None \<Rightarrow> Some (None, len)
       | Some q \<Rightarrow> stringlist_get_loop fdt q (nat (int q + sint len)) idx
     }"

definition fdt_node_check_compatible :: "blob \<Rightarrow> s32 \<Rightarrow> cstring \<Rightarrow> s32 option" where
  "fdt_node_check_compatible fdt nodeoffset compatible =
     do {
       (prop, len) \<leftarrow> fdt_getprop_namelen fdt nodeoffset [99, 111, 109, 112, 97, 116, 105, 98, 108, 101];
       case prop of
         None \<Rightarrow> Some len
       | Some q \<Rightarrow> map_option (\<lambda>b. if b then 0 else 1) (fdt_stringlist_contains fdt q len compatible)
     }"

partial_function (option) by_compatible_loop :: "blob \<Rightarrow> s32 \<Rightarrow> cstring \<Rightarrow> s32 option" where
  "by_compatible_loop fdt offset compatible =
     (if sint offset \<ge> 0
      then do {
        err \<leftarrow> fdt_node_check_compatible fdt offset compatible;
        if sint err < 0 \<and> err \<noteq> - FDT_ERR_NOTFOUND then Some err
        else if err = 0 then Some offset
        else do { (offset, _) \<leftarrow> fdt_next_node fdt offset None; by_compatible_loop fdt offset compatible }
      }
      else Some offset)"

declare by_compatible_loop.simps [simp del]
declare by_compatible_loop.simps [code]

definition fdt_node_offset_by_compatible :: "blob \<Rightarrow> s32 \<Rightarrow> cstring \<Rightarrow> s32 option" where
  "fdt_node_offset_by_compatible fdt startoffset compatible =
     do {
       err \<leftarrow> fdt_ro_probe fdt;
       if sint err < 0 then Some err
       else do { (offset, _) \<leftarrow> fdt_next_node fdt startoffset None; by_compatible_loop fdt offset compatible }
     }"

end
