(* ===== verification/FdtReadSafe.thy ===== *)
theory FdtReadSafe
  imports FdtRead
begin

text \<open>
  What the reading functions of \<open>fdt_ro.c\<close> guarantee for a blob with arbitrary contents: they return, and
  what they return lies inside of the blob.
\<close>

section \<open>Strings\<close>

lemma memchr_spec:
  assumes "p + n \<le> length (blob_mem fdt)"
  obtains (None) "memchr fdt p c n = Some None" and "\<forall>i<n. blob_mem fdt ! (p + i) \<noteq> c"
    | (Some) k where "memchr fdt p c n = Some (Some (p + k))" and "k < n" and "blob_mem fdt ! (p + k) = c"
        and "\<forall>i<k. blob_mem fdt ! (p + i) \<noteq> c"
proof -
  have "memchr fdt p c n = Some None \<and> (\<forall>i<n. blob_mem fdt ! (p + i) \<noteq> c)
    \<or> (\<exists>k<n. memchr fdt p c n = Some (Some (p + k)) \<and> blob_mem fdt ! (p + k) = c \<and> (\<forall>i<k. blob_mem fdt ! (p + i) \<noteq> c))"
    using assms
  proof (induction n arbitrary: p)
    case (Suc n)
    show ?case
    proof (cases "blob_mem fdt ! p = c")
      case True
      with Suc.prems have "memchr fdt p c (Suc n) = Some (Some (p + 0))" by (simp add: ld8_def)
      with True show ?thesis by auto
    next
      case False
      with Suc.prems have step: "memchr fdt p c (Suc n) = memchr fdt (p + 1) c n" by (simp add: ld8_def)
      have "p + 1 + n \<le> length (blob_mem fdt)" using Suc.prems by simp
      from Suc.IH [OF this] show ?thesis
      proof (elim disjE exE conjE)
        assume "memchr fdt (p + 1) c n = Some None" "\<forall>i<n. blob_mem fdt ! (p + 1 + i) \<noteq> c"
        with False show ?thesis unfolding step by (auto simp: less_Suc_eq_0_disj)
      next
        fix k assume "k < n" "memchr fdt (p + 1) c n = Some (Some (p + 1 + k))" "blob_mem fdt ! (p + 1 + k) = c"
          "\<forall>i<k. blob_mem fdt ! (p + 1 + i) \<noteq> c"
        with False show ?thesis unfolding step by (intro disjI2 exI [of _ "Suc k"]) (auto simp: less_Suc_eq_0_disj)
      qed
    qed
  qed simp
  then show thesis using None Some by blast
qed

text \<open>A string of \<open>n\<close> characters and its terminator at a position of the blob.\<close>

definition string_in :: "blob \<Rightarrow> nat \<Rightarrow> nat \<Rightarrow> bool" where
  "string_in fdt p n \<longleftrightarrow> p + n < total_size fdt \<and> blob_mem fdt ! (p + n) = 0 \<and> (\<forall>i<n. blob_mem fdt ! (p + i) \<noteq> 0)"

abbreviation bytes_at :: "blob \<Rightarrow> nat \<Rightarrow> nat \<Rightarrow> u8 list" where
  "bytes_at fdt p n \<equiv> take n (drop p (blob_mem fdt))"

lemma string_at_eq:
  assumes "readable fdt" and "string_in fdt p n"
  shows "string_at fdt p = Some (bytes_at fdt p n)"
proof -
  have len: "p + n < length (blob_mem fdt)" using assms by (simp add: readable_def string_in_def)
  then have split: "drop p (blob_mem fdt) = bytes_at fdt p n @ 0 # drop (Suc (p + n)) (blob_mem fdt)"
    using assms(2) append_take_drop_id [of n "drop p (blob_mem fdt)"] Cons_nth_drop_Suc [OF len]
    by (simp add: string_in_def add.commute)
  have nz: "\<forall>b\<in>set (bytes_at fdt p n). b \<noteq> 0"
    using assms(2) len by (auto simp: string_in_def in_set_conv_nth)
  have "takeWhile (\<lambda>b. b \<noteq> 0) (xs @ 0 # ys) = xs" if "\<forall>b\<in>set xs. b \<noteq> 0" for xs ys :: "u8 list"
    using that by (simp add: takeWhile_append2)
  from this [OF nz] have tw: "takeWhile (\<lambda>b. b \<noteq> 0) (drop p (blob_mem fdt)) = bytes_at fdt p n"
    by (subst split)
  show ?thesis unfolding string_at_def tw Let_def using len by simp
qed

lemma string_in_bytes: "readable fdt \<Longrightarrow> string_in fdt p n \<Longrightarrow> length (bytes_at fdt p n) = n \<and> 0 \<notin> set (bytes_at fdt p n)"
  by (auto simp: readable_def string_in_def in_set_conv_nth)

lemma strlen_eq: "readable fdt \<Longrightarrow> string_in fdt p n \<Longrightarrow> strlen fdt p = Some n"
  using string_in_bytes by (simp add: strlen_def string_at_eq)

lemma string_in_suffix: "string_in fdt p n \<Longrightarrow> k \<le> n \<Longrightarrow> string_in fdt (p + k) (n - k)"
  by (auto simp: string_in_def add.assoc)

lemma strrchr_spec:
  assumes "readable fdt" and "string_in fdt p n"
  shows "strrchr fdt p c = Some None \<or> (\<exists>k<n. strrchr fdt p c = Some (Some (p + k)))"
proof -
  have "length (bytes_at fdt p n) = n" using string_in_bytes [OF assms] by simp
  then have "length (bytes_at fdt p n) - 1 - m < n" if "c \<in> set (bytes_at fdt p n)" for m using that by (cases n) auto
  then show ?thesis by (auto simp: strrchr_def string_at_eq [OF assms])
qed

lemma memeq_in:
  assumes "p + length s \<le> length (blob_mem fdt)"
  shows "memeq fdt p s = Some (bytes_at fdt p (length s) = s)"
  using assms by (simp add: memeq_def)

section \<open>The strings block\<close>

lemma fdt_ro_probe_spec:
  assumes "readable fdt"
  shows "\<exists>r. fdt_ro_probe fdt = Some r \<and> (sint r < 0 \<or> r = word_of_nat (total_size fdt))"
proof -
  note h = header_in [OF assms]
  let ?t = "if (word_of_nat (total_size fdt) :: u32) < 0x7FFFFFFF then word_of_nat (total_size fdt) else - 8 :: s32"
  have neg: "sint (- 8 :: s32) < 0" "sint (- 19 :: s32) < 0" "sint (- 10 :: s32) < 0" "sint (- 7 :: s32) < 0" "sint (- 9 :: s32) < 0"
    by simp_all
  have t: "sint ?t < 0 \<or> ?t = word_of_nat (total_size fdt)" by simp
  show ?thesis
    unfolding fdt_ro_probe_def header_defs
    using neg t by (auto simp: h Let_def simp del: sint_numeral)
qed

lemma fdt_ro_probe_cases:
  assumes "readable fdt"
  obtains (Bad) r where "fdt_ro_probe fdt = Some r" and "sint r < 0"
    | (Ok) "fdt_ro_probe fdt = Some (word_of_nat (total_size fdt))" and "0 \<le> sint (word_of_nat (total_size fdt) :: s32)"
proof -
  have "total_size fdt < 2 ^ 31" using assms by (simp add: readable_def)
  then have "0 \<le> sint (word_of_nat (total_size fdt) :: s32)" unfolding sint_nonneg unat_field .
  with fdt_ro_probe_spec [OF assms] Bad Ok show thesis by auto
qed

abbreviation strings_off :: "blob \<Rightarrow> nat" where "strings_off fdt \<equiv> field fdt 12"
abbreviation strings_size :: "blob \<Rightarrow> nat" where "strings_size fdt \<equiv> field fdt 32"

text \<open>What \<open>fdt_get_string\<close> reports: an error, or a terminated string inside of the blob and its length.\<close>

definition string_result :: "blob \<Rightarrow> nat option \<times> s32 \<Rightarrow> bool" where
  "string_result fdt res \<longleftrightarrow>
     (case res of
        (None, err) \<Rightarrow> sint err < 0
      | (Some p, len) \<Rightarrow> string_in fdt p (unat len))"

lemma search_result:
  assumes "readable fdt" and "p + n \<le> total_size fdt"
  shows "\<exists>res. do { r \<leftarrow> memchr fdt p 0 n;
      case r of None \<Rightarrow> Some (None, - 8) | Some q \<Rightarrow> Some (Some p, word_of_nat (q - p)) } = Some res \<and> string_result fdt res"
proof -
  have len: "p + n \<le> length (blob_mem fdt)" and small: "total_size fdt < 2 ^ 31" using assms by (simp_all add: readable_def)
  show ?thesis
  proof (cases rule: memchr_spec [OF len, of 0, case_names None Some])
    case None
    then show ?thesis by (simp add: string_result_def)
  next
    case (Some k)
    have "unat (word_of_nat k :: s32) = k"
      using Some(2) small assms(2) by (subst unsigned_of_nat) (simp add: take_bit_nat_eq_self)
    with Some assms(2) show ?thesis by (simp add: string_result_def string_in_def)
  qed
qed

lemma fdt_get_string_spec:
  assumes "readable fdt"
  shows "\<exists>res. fdt_get_string fdt stroffset = Some res \<and> string_result fdt res"
proof (cases rule: fdt_ro_probe_cases [OF assms, case_names Bad Ok])
  case (Bad r)
  then show ?thesis by (simp add: fdt_get_string_def string_result_def)
next
  case Ok
  note h = header_in [OF assms]
  let ?t = "word_of_nat (total_size fdt) :: u32"
  let ?a = "stroffset + word_of_nat (strings_off fdt) :: u32"
  show ?thesis
  proof (cases "?a < ?t")
    case False
    then show ?thesis using Ok by (simp add: fdt_get_string_def header_defs h string_result_def Let_def not_less)
  next
    case True
    have ut: "unat ?t = total_size fdt" by (rule unat_field)
    have sub: "unat (?t - ?a) = total_size fdt - unat ?a" 
      using unat_sub [of ?a ?t] True unfolding ut by simp
    have lim: "unat ?a + unat l \<le> total_size fdt" if "l \<le> ?t - ?a" for l :: u32
      using that True sub ut unfolding word_le_nat_alt word_less_nat_alt by linarith
    have found: "\<exists>res. do { r \<leftarrow> memchr fdt (unat ?a) 0 (unat l);
        case r of None \<Rightarrow> Some (None, - 8) | Some q \<Rightarrow> Some (Some (unat ?a), word_of_nat (q - unat ?a)) } = Some res \<and> string_result fdt res"
      if "l \<le> ?t - ?a" for l :: u32
      by (rule search_result [OF assms lim [OF that]])
    have neg: "string_result fdt (None, - 4)" "string_result fdt (None, - 13)" by (simp_all add: string_result_def)
    show ?thesis
      using Ok True found [of "?t - ?a"] found [of "min x (?t - ?a)" for x] neg
      by (auto simp: fdt_get_string_def header_defs h Let_def not_le simp del: word_of_nat_eq_0_iff split: if_splits)
  qed
qed

lemma fdt_string_eq_spec:
  assumes "readable fdt" and "length s < 2 ^ 31"
  shows "\<exists>b. fdt_string_eq fdt stroffset s = Some b"
proof -
  obtain p len where get: "fdt_get_string fdt stroffset = Some (p, len)" and ok: "string_result fdt (p, len)"
    using fdt_get_string_spec [OF assms(1)] by (metis surj_pair)
  show ?thesis
  proof (cases p)
    case (Some q)
    have "\<exists>b. memeq fdt q s = Some b" if "len = word_of_nat (length s)"
    proof -
      have "unat len = length s" unfolding that using assms(2) by (subst unsigned_of_nat) (simp add: take_bit_nat_eq_self)
      with ok Some have "q + length s < total_size fdt" by (simp add: string_result_def string_in_def)
      with assms(1) show ?thesis by (simp add: memeq_def readable_def)
    qed
    then show ?thesis by (auto simp: fdt_string_eq_def get Some)
  qed (auto simp: fdt_string_eq_def get)
qed

section \<open>Properties of a node\<close>

text \<open>A whole property token at an offset.\<close>

definition prop_at :: "blob \<Rightarrow> s32 \<Rightarrow> bool" where
  "prop_at fdt offset \<longleftrightarrow> struct_word fdt (unat offset) = 3 \<and> inside fdt offset (prop_size fdt (unat offset))"

definition node_at :: "blob \<Rightarrow> s32 \<Rightarrow> bool" where
  "node_at fdt offset \<longleftrightarrow> struct_word fdt (unat offset) = 1 \<and> (\<exists>n. inside fdt offset (5 + n) \<and> name_at fdt (offset + 4) n)"

lemma fdt_next_tag_token:
  assumes "readable fdt" and "lens_ok fdt" and "fdt_next_tag fdt offset = Some (tag, nextoffset)"
  shows "tag = 3 \<Longrightarrow> prop_at fdt offset" and "tag = 1 \<Longrightarrow> node_at fdt offset"
proof -
  have "(tag = 3 \<longrightarrow> prop_at fdt offset) \<and> (tag = 1 \<longrightarrow> node_at fdt offset)"
  proof (cases rule: fdt_next_tag_cases [OF assms(1), of offset, case_names Bad Node Prop Simple])
    case (Bad err)
    with assms(3) show ?thesis by simp
  next
    case (Node n)
    with assms(3) show ?thesis by (auto simp: node_at_def)
  next
    case Prop
    then have "prop_size fdt (unat offset) < 2 ^ 32" using assms(2) by (simp add: lens_ok_def)
    then show ?thesis using Prop assms(3) by (simp add: prop_at_def)
  next
    case (Simple t)
    with assms(3) show ?thesis by auto
  qed
  then show "tag = 3 \<Longrightarrow> prop_at fdt offset" "tag = 1 \<Longrightarrow> node_at fdt offset" by auto
qed

lemma prop_at_nonneg: "prop_at fdt offset \<Longrightarrow> 0 \<le> sint offset"
  by (simp add: prop_at_def inside_def)

lemma nextprop_spec:
  assumes "readable fdt" and "lens_ok fdt"
  shows "\<exists>r. nextprop fdt offset = Some r \<and> (0 \<le> sint r \<longrightarrow> unat offset \<le> unat r \<and> prop_at fdt r)"
proof (induction "total_size fdt - unat offset" arbitrary: offset rule: less_induct)
  case less
  obtain tag nxt where tag: "fdt_next_tag fdt offset = Some (tag, nxt)" using fdt_next_tag_returns [OF assms(1)] by blast
  consider (Stop) "tag = 9" | (Found) "tag = 3" | (Skip) "tag = 4" | (Other) "tag \<notin> {9, 3, 4}" by auto
  then show ?case
  proof cases
    case Found
    with fdt_next_tag_token(1) [OF assms tag] show ?thesis by (subst nextprop.simps) (simp add: tag)
  next
    case Skip
    then have "nextprop fdt offset = nextprop fdt nxt" by (subst nextprop.simps) (simp add: tag)
    moreover note p = fdt_next_tag_progress [OF assms tag]
    ultimately show ?thesis using less [OF inside_decreases, of nxt] Skip by force
  qed (subst nextprop.simps; simp add: tag)+
qed

lemma check_prop_offset_spec:
  assumes "readable fdt" and "lens_ok fdt"
  shows "\<exists>r. fdt_check_prop_offset fdt offset = Some r \<and> (0 \<le> sint r \<longrightarrow> unat offset < unat r \<and> prop_at fdt offset)"
proof -
  obtain tag nxt where tag: "fdt_next_tag fdt offset = Some (tag, nxt)" using fdt_next_tag_returns [OF assms(1)] by blast
  show ?thesis
    using fdt_next_tag_progress(3) [OF assms tag] fdt_next_tag_token(1) [OF assms tag]
    by (auto simp: fdt_check_prop_offset_def check_tag_offset_def tag)
qed

lemma check_node_offset_spec:
  assumes "readable fdt" and "lens_ok fdt"
  shows "\<exists>r. fdt_check_node_offset fdt offset = Some r \<and> (0 \<le> sint r \<longrightarrow> unat offset < unat r \<and> node_at fdt offset)"
proof -
  obtain tag nxt where tag: "fdt_next_tag fdt offset = Some (tag, nxt)" using fdt_next_tag_returns [OF assms(1)] by blast
  show ?thesis
    using fdt_next_tag_progress(3) [OF assms tag] fdt_next_tag_token(2) [OF assms tag]
    by (auto simp: fdt_check_node_offset_def check_tag_offset_def tag)
qed

lemma fdt_first_property_offset_spec:
  assumes "readable fdt" and "lens_ok fdt"
  shows "\<exists>r. fdt_first_property_offset fdt offset = Some r \<and> (0 \<le> sint r \<longrightarrow> node_at fdt offset \<and> unat offset < unat r \<and> prop_at fdt r)"
proof -
  obtain r where r: "fdt_check_node_offset fdt offset = Some r" "0 \<le> sint r \<longrightarrow> unat offset < unat r \<and> node_at fdt offset"
    using check_node_offset_spec [OF assms] by blast
  obtain s where "nextprop fdt r = Some s" "0 \<le> sint s \<longrightarrow> unat r \<le> unat s \<and> prop_at fdt s"
    using nextprop_spec [OF assms] by blast
  with r show ?thesis by (simp add: fdt_first_property_offset_def) linarith
qed

lemma fdt_next_property_offset_spec:
  assumes "readable fdt" and "lens_ok fdt"
  shows "\<exists>r. fdt_next_property_offset fdt offset = Some r \<and> (0 \<le> sint r \<longrightarrow> unat offset < unat r \<and> prop_at fdt r)"
proof -
  obtain r where r: "fdt_check_prop_offset fdt offset = Some r" "0 \<le> sint r \<longrightarrow> unat offset < unat r \<and> prop_at fdt offset"
    using check_prop_offset_spec [OF assms] by blast
  obtain s where "nextprop fdt r = Some s" "0 \<le> sint s \<longrightarrow> unat r \<le> unat s \<and> prop_at fdt s"
    using nextprop_spec [OF assms] by blast
  with r show ?thesis by (simp add: fdt_next_property_offset_def) linarith
qed

lemma prop_at_read:
  assumes "readable fdt" and "prop_at fdt offset" and "i \<le> 8"
  shows "fdt32_ld fdt (struct_off fdt + unat offset + i) = Some (word_of_nat (struct_word fdt (unat offset + i)))"
proof -
  have "inside fdt offset 12" using assms(2) inside_mono by (auto simp: prop_at_def prop_size_def)
  from inside_read32 [OF assms(1) this, of i] assms(3) show ?thesis by (simp add: add.assoc)
qed

lemma raw_fdt_offset_ptr_eq: "readable fdt \<Longrightarrow> raw_fdt_offset_ptr fdt offset = Some (struct_off fdt + unat offset)"
  using header_in [of fdt 8] by (simp add: raw_fdt_offset_ptr_def fdt_off_dt_struct_def unat_field)

lemma raw_get_property_by_offset_spec:
  assumes "readable fdt" and "lens_ok fdt"
  obtains (Bad) err where "raw_get_property_by_offset fdt offset = Some (None, err)" and "sint err < 0"
    | (Found) "prop_at fdt offset"
        "raw_get_property_by_offset fdt offset = Some (Some (struct_off fdt + unat offset), word_of_nat (struct_word fdt (unat offset + 4)))"
proof -
  obtain r where r: "fdt_check_prop_offset fdt offset = Some r" "0 \<le> sint r \<longrightarrow> unat offset < unat r \<and> prop_at fdt offset"
    using check_prop_offset_spec [OF assms] by blast
  show thesis
  proof (cases "0 \<le> sint r")
    case True
    with r have at: "prop_at fdt offset" by simp
    from prop_at_read [OF assms(1) this, of 4] True r(1) show thesis
      by (intro Found [OF at]) (simp add: raw_get_property_by_offset_def raw_fdt_offset_ptr_eq [OF assms(1)])
  next
    case False
    with r(1) show thesis by (intro Bad [of r]) (simp_all add: raw_get_property_by_offset_def)
  qed
qed

text \<open>A property that the search found: its name is the one searched for.\<close>

definition found_prop :: "blob \<Rightarrow> cstring \<Rightarrow> s32 \<Rightarrow> bool" where
  "found_prop fdt name offset \<longleftrightarrow> prop_at fdt offset
     \<and> fdt_string_eq fdt (word_of_nat (struct_word fdt (unat offset + 8))) name = Some True"

lemma get_property_loop_spec:
  assumes "readable fdt" and "lens_ok fdt" and "length name < 2 ^ 31"
  shows "(\<exists>err. get_property_loop fdt offset name = Some (None, err) \<and> sint err < 0)
    \<or> (\<exists>p. get_property_loop fdt offset name = Some (Some (struct_off fdt + unat p, p), word_of_nat (struct_word fdt (unat p + 4)))
        \<and> found_prop fdt name p)"
proof (induction "total_size fdt - unat offset" arbitrary: offset rule: less_induct)
  case less
  show ?case
  proof (cases "0 \<le> sint offset")
    case False
    then show ?thesis by (subst get_property_loop.simps) simp
  next
    case True
    show ?thesis
    proof (cases rule: raw_get_property_by_offset_spec [OF assms(1,2), of offset, case_names Bad Found])
      case (Bad err)
      with True show ?thesis by (subst get_property_loop.simps) simp
    next
      case Found
      note rd = prop_at_read [OF assms(1) Found(1), of 8, simplified]
      obtain b where b: "fdt_string_eq fdt (word_of_nat (struct_word fdt (unat offset + 8))) name = Some b"
        using fdt_string_eq_spec [OF assms(1,3)] by blast
      obtain r where r: "fdt_next_property_offset fdt offset = Some r" "0 \<le> sint r \<longrightarrow> unat offset < unat r \<and> prop_at fdt r"
        using fdt_next_property_offset_spec [OF assms(1,2)] by blast
      show ?thesis
      proof (cases b)
        case True
        have "get_property_loop fdt offset name
            = Some (Some (struct_off fdt + unat offset, offset), word_of_nat (struct_word fdt (unat offset + 4)))"
          using \<open>0 \<le> sint offset\<close> True b by (subst get_property_loop.simps) (simp add: Found(2) rd)
        with b True Found(1) show ?thesis by (auto simp: found_prop_def)
      next
        case no: False
        have step: "get_property_loop fdt offset name = get_property_loop fdt r name"
          using True no b by (subst get_property_loop.simps) (simp add: Found(2) rd r(1))
        show ?thesis
        proof (cases "0 \<le> sint r")
          case True
          have "inside fdt offset 4" using Found(1) inside_mono by (auto simp: prop_at_def prop_size_def)
          from less [OF inside_decreases [OF this]] True r(2) show ?thesis unfolding step by simp
        next
          case False
          then show ?thesis unfolding step by (subst get_property_loop.simps) simp
        qed
      qed
    qed
  qed
qed

lemma raw_get_property_namelen_cases:
  assumes "readable fdt" and "lens_ok fdt" and "length name < 2 ^ 31"
  obtains (Bad) err where "raw_get_property_namelen fdt offset name = Some (None, err)" and "sint err < 0"
    | (Found) p where "raw_get_property_namelen fdt offset name = Some (Some (struct_off fdt + unat p, p), word_of_nat (struct_word fdt (unat p + 4)))"
        and "found_prop fdt name p"
proof -
  obtain r where r: "fdt_first_property_offset fdt offset = Some r" using fdt_first_property_offset_spec [OF assms(1,2)] by blast
  show thesis using get_property_loop_spec [OF assms, of r] Bad Found by (auto simp: raw_get_property_namelen_def r)
qed

lemma prop_data_inside:
  assumes "readable fdt" and "prop_at fdt p"
  shows "\<exists>d. prop_data fdt (struct_off fdt + unat p) p = Some d \<and> struct_off fdt + unat p + 12 \<le> d
    \<and> d + struct_word fdt (unat p + 4) \<le> total_size fdt"
proof -
  note h = header_in [OF assms(1)] and rd = prop_at_read [OF assms, of 4, simplified]
  let ?len = "struct_word fdt (unat p + 4)"
  have b: "struct_off fdt + unat p + prop_size fdt (unat p) \<le> total_size fdt" "unat p < 2 ^ 31"
    using assms(2) by (simp_all add: prop_at_def inside_def sint_nonneg)
  then have "unat (p + 12) = unat p + 12" using no_wrap(2) [of p 12] by simp
  then have pad: "(p + 12) mod 8 \<noteq> 0 \<longleftrightarrow> (unat p + 12) mod 8 \<noteq> 0" unfolding mod_8_word by simp
  have cmp: "(word_of_nat (version fdt) :: u32) < 0x10 \<longleftrightarrow> version fdt < 16" "(word_of_nat ?len :: u32) \<ge> 8 \<longleftrightarrow> 8 \<le> ?len"
    by (simp_all add: word_less_nat_alt word_le_nat_alt unat_field)
  show ?thesis
    using b(1) unfolding prop_data_def fdt_version_def prop_size_def
    by (auto simp: h rd pad cmp split: if_splits)
qed

text \<open>What a search for a value reports: an error, or the position and the length of bytes inside of the blob.\<close>

definition value_result :: "blob \<Rightarrow> nat option \<times> s32 \<Rightarrow> bool" where
  "value_result fdt res \<longleftrightarrow>
     (case res of
        (None, err) \<Rightarrow> sint err < 0
      | (Some d, len) \<Rightarrow> 0 \<le> sint len \<and> d + unat len \<le> total_size fdt)"

lemma fdt_getprop_namelen_spec:
  assumes "readable fdt" and "lens_ok fdt" and "length name < 2 ^ 31"
  shows "\<exists>res. fdt_getprop_namelen fdt offset name = Some res \<and> value_result fdt res"
proof (cases rule: raw_get_property_namelen_cases [OF assms, of offset, case_names Bad Found])
  case (Bad err)
  then show ?thesis by (simp add: fdt_getprop_namelen_def value_result_def)
next
  case (Found p)
  then obtain d where d: "prop_data fdt (struct_off fdt + unat p) p = Some d" "d + struct_word fdt (unat p + 4) \<le> total_size fdt"
    using prop_data_inside [OF assms(1), of p] by (auto simp: found_prop_def)
  moreover have "struct_word fdt (unat p + 4) < 2 ^ 31" using d(2) assms(1) by (simp add: readable_def)
  ultimately show ?thesis
    using Found(1) by (simp add: fdt_getprop_namelen_def value_result_def sint_nonneg unat_field)
qed

lemma fdt_getprop_by_offset_returns:
  assumes "readable fdt" and "lens_ok fdt"
  shows "\<exists>d nm len. fdt_getprop_by_offset fdt offset = Some (d, nm, len) \<and> value_result fdt (d, len)"
proof (cases rule: raw_get_property_by_offset_spec [OF assms, of offset, case_names Bad Found])
  case (Bad err)
  then show ?thesis by (simp add: fdt_getprop_by_offset_def value_result_def)
next
  case Found
  note rd = prop_at_read [OF assms(1) Found(1), of 8, simplified]
  obtain nm len where get: "fdt_get_string fdt (word_of_nat (struct_word fdt (unat offset + 8))) = Some (nm, len)" "string_result fdt (nm, len)"
    using fdt_get_string_spec [OF assms(1)] by (metis surj_pair)
  obtain d where d: "prop_data fdt (struct_off fdt + unat offset) offset = Some d" "d + struct_word fdt (unat offset + 4) \<le> total_size fdt"
    using prop_data_inside [OF assms(1) Found(1)] by blast
  have "struct_word fdt (unat offset + 4) < 2 ^ 31" using d(2) assms(1) by (simp add: readable_def)
  with get d Found(2) show ?thesis
    by (cases nm) (simp_all add: fdt_getprop_by_offset_def rd value_result_def string_result_def sint_nonneg unat_field)
qed

lemma fdt_get_phandle_returns:
  assumes "readable fdt" and "lens_ok fdt"
  shows "\<exists>v. fdt_get_phandle fdt offset = Some v"
proof -
  have rd: "\<exists>w. fdt32_ld fdt q = Some w" if "value_result fdt (Some q, 4)" for q
    using that assms(1) by (intro fdt32_ld_in) (simp add: value_result_def readable_def)
  obtain p len where g1: "fdt_getprop_namelen fdt offset [112, 104, 97, 110, 100, 108, 101] = Some (p, len)" "value_result fdt (p, len)"
    using fdt_getprop_namelen_spec [OF assms, of "[112, 104, 97, 110, 100, 108, 101]" offset] by auto
  obtain p' len' where g2: "fdt_getprop_namelen fdt offset [108, 105, 110, 117, 120, 44, 112, 104, 97, 110, 100, 108, 101] = Some (p', len')"
      "value_result fdt (p', len')"
    using fdt_getprop_namelen_spec [OF assms, of "[108, 105, 110, 117, 120, 44, 112, 104, 97, 110, 100, 108, 101]" offset] by auto
  show ?thesis
    using g1 g2 rd by (auto simp: fdt_get_phandle_def split: option.split)
qed

section \<open>Loops over nodes\<close>

text \<open>The next node lies behind the current one, so that every loop over the nodes ends.\<close>

lemma node_induct:
  assumes "readable fdt" and "lens_ok fdt" and "0 \<le> sint offset"
    and step: "\<And>offset. 0 \<le> sint offset \<Longrightarrow>
      (\<And>depth r d. fdt_next_node fdt offset depth = Some (r, d) \<Longrightarrow> 0 \<le> sint r \<Longrightarrow> \<forall>x. d = Some x \<longrightarrow> 0 \<le> sint x \<Longrightarrow> P r) \<Longrightarrow> P offset"
  shows "P offset"
  using assms(3)
proof (induction "total_size fdt - unat offset" arbitrary: offset rule: less_induct)
  case less
  show ?case
  proof (rule step [OF less.prems])
    fix depth r d
    assume nx: "fdt_next_node fdt offset depth = Some (r, d)" and r: "0 \<le> sint r" and d: "\<forall>x. d = Some x \<longrightarrow> 0 \<le> sint x"
    from fdt_next_node_spec [OF assms(1,2), of offset depth] nx r d less.prems
    have "unat offset < unat r" "inside fdt r 4" by auto
    then have "total_size fdt - unat r < total_size fdt - unat offset" by (auto simp: inside_def)
    from less.hyps [OF this r] show "P r" .
  qed
qed

lemma fdt_next_node_some:
  assumes "readable fdt" and "lens_ok fdt"
  obtains r d where "fdt_next_node fdt offset depth = Some (r, d)"
  using fdt_next_node_spec [OF assms] by blast

lemma next_node_no_depth:
  assumes "fdt_next_node fdt offset None = Some (r, d)"
  shows "d = None"
proof -
  have loop: "depth = None \<longrightarrow> snd res = None" if "next_node_loop fdt offset depth = Some res" for fdt offset depth res
    by (rule next_node_loop.raw_induct [OF _ that, where P = "\<lambda>fdt offset depth res. depth = None \<longrightarrow> snd res = None"])
      (force split: if_splits option.splits elim!: bind_eq_Some_conv [THEN iffD1, elim_format])
  with assms show ?thesis by (force simp: fdt_next_node_def bind_eq_Some_conv split: if_splits)
qed

lemma max_phandle_loop_spec:
  assumes "readable fdt" and "lens_ok fdt"
  shows "\<exists>err m. max_phandle_loop fdt offset a = Some (err, m) \<and> a \<le> m \<and> (err \<noteq> 0 \<longrightarrow> sint err < 0)"
proof -
  have step: "\<exists>err m. max_phandle_loop fdt offset a = Some (err, m) \<and> a \<le> m \<and> (err \<noteq> 0 \<longrightarrow> sint err < 0)"
    if rec: "\<And>depth r d a. fdt_next_node fdt offset depth = Some (r, d) \<Longrightarrow> 0 \<le> sint r \<Longrightarrow> \<forall>x. d = Some x \<longrightarrow> 0 \<le> sint x \<Longrightarrow>
      \<exists>err m. max_phandle_loop fdt r a = Some (err, m) \<and> a \<le> m \<and> (err \<noteq> 0 \<longrightarrow> sint err < 0)" for offset a
  proof -
    obtain r d where nx: "fdt_next_node fdt offset None = Some (r, d)" by (rule fdt_next_node_some [OF assms])
    note d = next_node_no_depth [OF nx]
    show ?thesis
    proof (cases "0 \<le> sint r")
      case True
      obtain v where v: "fdt_get_phandle fdt r = Some v" using fdt_get_phandle_returns [OF assms] by blast
      from rec [OF nx True, of "if v > a then v else a"] True d obtain err m where
        "max_phandle_loop fdt r (if v > a then v else a) = Some (err, m)" "(if v > a then v else a) \<le> m" "err \<noteq> 0 \<longrightarrow> sint err < 0" by auto
      with True show ?thesis
        by (subst max_phandle_loop.simps) (auto simp: nx v split: if_splits intro: order_trans [OF less_imp_le])
    next
      case False
      then show ?thesis by (subst max_phandle_loop.simps) (simp add: nx)
    qed
  qed
  have nonneg: "\<forall>a. \<exists>err m. max_phandle_loop fdt offset a = Some (err, m) \<and> a \<le> m \<and> (err \<noteq> 0 \<longrightarrow> sint err < 0)" if "0 \<le> sint offset" for offset
    by (rule node_induct [OF assms that]) (use step in blast)
  show ?thesis by (rule step) (use nonneg in blast)
qed

text \<open>The nodes that come behind an offset.\<close>

inductive comes_behind :: "blob \<Rightarrow> s32 \<Rightarrow> s32 \<Rightarrow> bool" for fdt where
  next_one: "fdt_next_node fdt offset None = Some (r, d) \<Longrightarrow> 0 \<le> sint r \<Longrightarrow> comes_behind fdt offset r"
| later: "fdt_next_node fdt offset None = Some (r, d) \<Longrightarrow> 0 \<le> sint r \<Longrightarrow> comes_behind fdt r s \<Longrightarrow> comes_behind fdt offset s"

inductive_cases comes_behindE: "comes_behind fdt offset r"

lemma max_phandle_loop_greatest:
  assumes "readable fdt" and "lens_ok fdt" and "comes_behind fdt offset r" and "max_phandle_loop fdt offset a = Some (err, m)"
  shows "\<exists>v. fdt_get_phandle fdt r = Some v \<and> v \<le> m"
  using assms(3,4)
proof (induction arbitrary: a)
  case (next_one offset r d)
  obtain v where v: "fdt_get_phandle fdt r = Some v" using fdt_get_phandle_returns [OF assms(1,2)] by blast
  have "max_phandle_loop fdt r (if v > a then v else a) = Some (err, m)"
    using next_one by (subst (asm) max_phandle_loop.simps) (simp add: v)
  with max_phandle_loop_spec [OF assms(1,2), of r "if v > a then v else a"] have "(if v > a then v else a) \<le> m" by auto
  with v show ?case by (auto split: if_splits)
next
  case (later offset r d s)
  obtain v where v: "fdt_get_phandle fdt r = Some v" using fdt_get_phandle_returns [OF assms(1,2)] by blast
  have "max_phandle_loop fdt r (if v > a then v else a) = Some (err, m)"
    using later by (subst (asm) max_phandle_loop.simps) (simp add: v)
  then show ?case by (rule later.IH)
qed

text \<open>The maximum is 0 or the phandle of a node.\<close>

lemma max_phandle_loop_attained:
  assumes "readable fdt" and "lens_ok fdt" and "0 \<le> sint offset \<or> offset = - 1"
  shows "\<forall>a err m. max_phandle_loop fdt offset a = Some (err, m) \<longrightarrow> m = a \<or> (\<exists>r. comes_behind fdt offset r \<and> fdt_get_phandle fdt r = Some m)"
proof -
  let ?P = "\<lambda>offset. \<forall>a err m. max_phandle_loop fdt offset a = Some (err, m) \<longrightarrow> m = a \<or> (\<exists>r. comes_behind fdt offset r \<and> fdt_get_phandle fdt r = Some m)"
  have step: "?P offset"
    if rec: "\<And>depth r d. fdt_next_node fdt offset depth = Some (r, d) \<Longrightarrow> 0 \<le> sint r \<Longrightarrow> \<forall>x. d = Some x \<longrightarrow> 0 \<le> sint x \<Longrightarrow> ?P r" for offset
  proof (intro allI impI)
    fix a err m assume loop: "max_phandle_loop fdt offset a = Some (err, m)"
    obtain r d where nx: "fdt_next_node fdt offset None = Some (r, d)" by (rule fdt_next_node_some [OF assms(1,2)])
    note d = next_node_no_depth [OF nx]
    obtain v where v: "fdt_get_phandle fdt r = Some v" using fdt_get_phandle_returns [OF assms(1,2)] by blast
    show "m = a \<or> (\<exists>r. comes_behind fdt offset r \<and> fdt_get_phandle fdt r = Some m)"
    proof (cases "0 \<le> sint r")
      case True
      then have "max_phandle_loop fdt r (if v > a then v else a) = Some (err, m)"
        using loop by (subst (asm) max_phandle_loop.simps) (simp add: v nx)
      moreover have "?P r" using rec [OF nx True] d by simp
      ultimately have "m = (if v > a then v else a) \<or> (\<exists>s. comes_behind fdt r s \<and> fdt_get_phandle fdt s = Some m)" by blast
      with v next_one [OF nx True] later [OF nx True] show ?thesis by (metis (full_types))
    next
      case False
      with loop show ?thesis by (subst (asm) max_phandle_loop.simps) (auto simp: nx)
    qed
  qed
  have nonneg: "?P offset" if "0 \<le> sint offset" for offset
    by (rule node_induct [OF assms(1,2) that]) (use step in blast)
  show ?thesis by (rule step) (use nonneg in blast)
qed

lemma fdt_generate_phandle_spec:
  assumes "readable fdt" and "lens_ok fdt"
  shows "(\<exists>err. fdt_generate_phandle fdt = Some (err, None) \<and> sint err < 0)
    \<or> (\<exists>p. fdt_generate_phandle fdt = Some (0, Some p)
        \<and> (p \<noteq> 0 \<longrightarrow> p \<noteq> NOT 0 \<and> (\<forall>r v. comes_behind fdt (- 1) r \<longrightarrow> fdt_get_phandle fdt r = Some v \<longrightarrow> v < p))
        \<and> (p = 0 \<longrightarrow> (\<exists>r. comes_behind fdt (- 1) r \<and> fdt_get_phandle fdt r = Some (NOT 0))))"
proof -
  obtain err m where loop: "max_phandle_loop fdt (- 1) 0 = Some (err, m)" "err \<noteq> 0 \<longrightarrow> sint err < 0"
    using max_phandle_loop_spec [OF assms] by blast
  have le: "v \<le> m" if "comes_behind fdt (- 1) r" "fdt_get_phandle fdt r = Some v" for r v
    using max_phandle_loop_greatest [OF assms that(1) loop(1)] that(2) by auto
  have att: "m = 0 \<or> (\<exists>r. comes_behind fdt (- 1) r \<and> fdt_get_phandle fdt r = Some m)"
    using max_phandle_loop_attained [OF assms, of "- 1"] loop(1) by blast
  have top: "x + 1 = 0 \<longleftrightarrow> x = NOT 0" for x :: u32 by (simp add: add_eq_0_iff2)
  have lt: "x < x + 1" if "x + 1 \<noteq> 0" for x :: u32 using that unatSuc [of x] by (simp add: word_less_nat_alt add.commute)
  show ?thesis
  proof (cases "err = 0")
    case False
    with loop show ?thesis by (simp add: fdt_generate_phandle_def fdt_find_max_phandle_def)
  next
    case True
    note gen = fdt_generate_phandle_def fdt_find_max_phandle_def loop(1)
    consider (Full) "m = 0xfffffffe" | (Wrap) "m = NOT 0" | (Fresh) "m \<noteq> 0xfffffffe" "m \<noteq> NOT 0" by blast
    then show ?thesis
    proof cases
      case Full
      with True show ?thesis by (simp add: gen)
    next
      case Wrap
      with True att show ?thesis by (simp add: gen)
    next
      case Fresh
      then have "m + 1 \<noteq> 0" "m + 1 \<noteq> NOT 0" using top [of m] by (auto simp: eq_diff_eq [symmetric])
      moreover have "v < m + 1" if "comes_behind fdt (- 1) r" "fdt_get_phandle fdt r = Some v" for r v
        using le [OF that] lt [OF \<open>m + 1 \<noteq> 0\<close>] by (rule order.strict_trans1)
      ultimately show ?thesis using True Fresh by (simp add: gen)
    qed
  qed
qed

section \<open>Names\<close>

lemma node_name_in:
  assumes "name_at fdt (offset + 4) n" and "inside fdt offset (5 + n)"
  shows "string_in fdt (struct_off fdt + unat offset + 4) n"
proof -
  have "unat offset < 2 ^ 31" using assms(2) by (simp add: inside_def sint_nonneg)
  then have "unat (offset + 4) = unat offset + 4" using no_wrap(2) [of offset 4] by simp
  with assms(1) show ?thesis by (simp add: name_at_def string_in_def inside_def add.assoc)
qed

lemma string_length: "readable fdt \<Longrightarrow> string_in fdt p n \<Longrightarrow> unat (word_of_nat n :: s32) = n"
  by (subst unsigned_of_nat) (simp add: take_bit_nat_eq_self readable_def string_in_def)

lemma fdt_get_name_spec:
  assumes "readable fdt" and "lens_ok fdt"
  shows "\<exists>res. fdt_get_name fdt offset = Some res \<and> string_result fdt res"
proof (cases rule: fdt_ro_probe_cases [OF assms(1), case_names Bad Ok])
  case (Bad r)
  then show ?thesis by (simp add: fdt_get_name_def raw_fdt_offset_ptr_eq [OF assms(1)] string_result_def)
next
  case Ok
  obtain r where r: "fdt_check_node_offset fdt offset = Some r" "0 \<le> sint r \<longrightarrow> node_at fdt offset"
    using check_node_offset_spec [OF assms] by blast
  note start = fdt_get_name_def raw_fdt_offset_ptr_eq [OF assms(1)] Ok r(1)
  show ?thesis
  proof (cases "0 \<le> sint r")
    case False
    then show ?thesis using Ok by (simp add: start string_result_def)
  next
    case True
    let ?p = "struct_off fdt + unat offset + 4"
    obtain n where n: "string_in fdt ?p n" using True r(2) node_name_in by (auto simp: node_at_def)
    have v: "fdt_version fdt = Some (word_of_nat (version fdt))" using header_in [OF assms(1), of 20] by (simp add: fdt_version_def)
    note str = strlen_eq [OF assms(1)] string_length [OF assms(1)]
    have "strrchr fdt ?p 47 = Some None \<or> (\<exists>k<n. strrchr fdt ?p 47 = Some (Some (?p + k)))"
      by (rule strrchr_spec [OF assms(1) n])
    then show ?thesis
    proof (elim disjE exE conjE)
      assume "strrchr fdt ?p 47 = Some None"
      then show ?thesis using Ok True n by (simp add: start v string_result_def str)
    next
      fix k assume "k < n" and k: "strrchr fdt ?p 47 = Some (Some (?p + k))"
      then have s: "string_in fdt (?p + k + 1) (n - (k + 1))" using string_in_suffix [OF n, of "k + 1"] by (simp add: add.assoc)
      show ?thesis using Ok True n s by (simp add: start v string_result_def str k)
    qed
  qed
qed

lemma string_result_len: "readable fdt \<Longrightarrow> string_result fdt (Some q, len) \<Longrightarrow> 0 \<le> sint len"
  by (simp add: string_result_def string_in_def readable_def sint_nonneg)

lemma sint_unat: "0 \<le> sint x \<Longrightarrow> sint x = int (unat (x :: s32))"
  using sint_nonneg [of x] by (simp add: sint_small)

lemma fdt_nodename_eq_returns:
  assumes "readable fdt" and "lens_ok fdt"
  shows "\<exists>b. fdt_nodename_eq fdt offset s = Some b"
proof -
  obtain p len where get: "fdt_get_name fdt offset = Some (p, len)" and ok: "string_result fdt (p, len)"
    using fdt_get_name_spec [OF assms] by (metis surj_pair)
  show ?thesis
  proof (cases p)
    case (Some q)
    have "q + length s < length (blob_mem fdt)" if "int (length s) \<le> sint len"
    proof -
      have "sint len = int (unat len)" using sint_unat [OF string_result_len [OF assms(1)], of q len] ok Some by simp
      with that have "length s \<le> unat len" by linarith
      with ok Some assms(1) show ?thesis by (simp add: string_result_def string_in_def readable_def)
    qed
    then show ?thesis by (cases "int (length s) \<le> sint len") (auto simp: fdt_nodename_eq_def get Some memeq_def ld8_def)
  qed (auto simp: fdt_nodename_eq_def get)
qed

section \<open>Searching nodes\<close>

text \<open>
  The loops that look at one node after the other until a test says what to return; an error of
  \<open>fdt_next_node\<close> ends the search and is returned.
\<close>

locale node_search =
  fixes ok :: "blob \<Rightarrow> bool"
    and test :: "blob \<Rightarrow> s32 \<Rightarrow> s32 option option"
    and search :: "blob \<Rightarrow> s32 \<Rightarrow> s32 option"
  assumes search_eq: "search fdt offset =
      (if sint offset \<ge> 0
       then do {
         stop \<leftarrow> test fdt offset;
         case stop of
           Some r \<Rightarrow> Some r
         | None \<Rightarrow> do { (offset, _) \<leftarrow> fdt_next_node fdt offset None; search fdt offset }
       }
       else Some offset)"
    and test_returns: "ok fdt \<Longrightarrow> readable fdt \<Longrightarrow> lens_ok fdt \<Longrightarrow> \<exists>stop. test fdt offset = Some stop"
begin

lemma search_spec:
  assumes "ok fdt" and "readable fdt" and "lens_ok fdt" and "0 \<le> sint offset"
  shows "\<exists>r. search fdt offset = Some r
    \<and> ((\<exists>s. (s = offset \<or> comes_behind fdt offset s) \<and> test fdt s = Some (Some r))
       \<or> sint r < 0 \<and> (\<forall>s. s = offset \<or> comes_behind fdt offset s \<longrightarrow> test fdt s = Some None))"
proof (rule node_induct [OF assms(2-4)])
  fix offset
  assume o: "0 \<le> sint offset"
    and rec: "\<And>depth r d. fdt_next_node fdt offset depth = Some (r, d) \<Longrightarrow> 0 \<le> sint r \<Longrightarrow> \<forall>x. d = Some x \<longrightarrow> 0 \<le> sint x \<Longrightarrow>
      \<exists>res. search fdt r = Some res
        \<and> ((\<exists>s. (s = r \<or> comes_behind fdt r s) \<and> test fdt s = Some (Some res))
           \<or> sint res < 0 \<and> (\<forall>s. s = r \<or> comes_behind fdt r s \<longrightarrow> test fdt s = Some None))"
  obtain stop where t: "test fdt offset = Some stop" using test_returns [OF assms(1-3)] by blast
  obtain n d where nx: "fdt_next_node fdt offset None = Some (n, d)" by (rule fdt_next_node_some [OF assms(2,3)])
  note d = next_node_no_depth [OF nx]
  show "\<exists>r. search fdt offset = Some r
    \<and> ((\<exists>s. (s = offset \<or> comes_behind fdt offset s) \<and> test fdt s = Some (Some r))
       \<or> sint r < 0 \<and> (\<forall>s. s = offset \<or> comes_behind fdt offset s \<longrightarrow> test fdt s = Some None))"
  proof (cases stop)
    case (Some r)
    then have "search fdt offset = Some r" using o t by (subst search_eq) simp
    with t Some show ?thesis by auto
  next
    case None
    then have step: "search fdt offset = search fdt n" using o t nx by (subst search_eq) simp
    show ?thesis
    proof (cases "0 \<le> sint n")
      case True
      have behind: "comes_behind fdt offset s \<longleftrightarrow> s = n \<or> comes_behind fdt n s" for s
        using next_one [OF nx True] later [OF nx True] nx by (auto elim: comes_behindE)
      from rec [OF nx True] d t None show ?thesis unfolding step behind by auto
    next
      case False
      then have "search fdt n = Some n" by (subst search_eq) simp
      moreover have "\<not> comes_behind fdt offset s" for s using False nx by (auto elim: comes_behindE)
      ultimately show ?thesis using False t None unfolding step by auto
    qed
  qed
qed

lemma search_returns: "ok fdt \<Longrightarrow> readable fdt \<Longrightarrow> lens_ok fdt \<Longrightarrow> \<exists>r. search fdt offset = Some r"
  using search_spec [of fdt offset] by (cases "0 \<le> sint offset") (auto simp: search_eq [of fdt offset])

end

definition phandle_test :: "u32 \<Rightarrow> blob \<Rightarrow> s32 \<Rightarrow> s32 option option" where
  "phandle_test phandle fdt offset = do { v \<leftarrow> fdt_get_phandle fdt offset; Some (if v = phandle then Some offset else None) }"

interpretation by_phandle: node_search "\<lambda>_. True" "phandle_test phandle" "\<lambda>fdt offset. by_phandle_loop fdt offset phandle" for phandle
proof unfold_locales
  show "by_phandle_loop fdt offset phandle =
      (if sint offset \<ge> 0
       then do {
         stop \<leftarrow> phandle_test phandle fdt offset;
         case stop of
           Some r \<Rightarrow> Some r
         | None \<Rightarrow> do { (offset, _) \<leftarrow> fdt_next_node fdt offset None; by_phandle_loop fdt offset phandle }
       }
       else Some offset)" for fdt offset
    by (subst by_phandle_loop.simps, cases "fdt_get_phandle fdt offset") (simp_all add: phandle_test_def)
  show "\<exists>stop. phandle_test phandle fdt offset = Some stop" if "readable fdt" "lens_ok fdt" for fdt offset
    using fdt_get_phandle_returns [OF that, of offset] by (auto simp: phandle_test_def)
qed

definition value_test :: "cstring \<Rightarrow> u8 list \<Rightarrow> blob \<Rightarrow> s32 \<Rightarrow> s32 option option" where
  "value_test propname propval fdt offset =
     do {
       (val, len) \<leftarrow> fdt_getprop_namelen fdt offset propname;
       eq \<leftarrow> (case val of None \<Rightarrow> Some False
              | Some q \<Rightarrow> if len = word_of_nat (length propval) then memeq fdt q propval else Some False);
       Some (if eq then Some offset else None)
     }"

lemma value_test_returns:
  assumes "readable fdt" and "lens_ok fdt" and "length propname < 2 ^ 31" and "length propval < 2 ^ 31"
  shows "\<exists>stop. value_test propname propval fdt offset = Some stop"
proof -
  obtain val len where get: "fdt_getprop_namelen fdt offset propname = Some (val, len)" and ok: "value_result fdt (val, len)"
    using fdt_getprop_namelen_spec [OF assms(1,2,3)] by (metis surj_pair)
  show ?thesis
  proof (cases val)
    case (Some q)
    have "q + length propval \<le> length (blob_mem fdt)" if "len = word_of_nat (length propval)"
    proof -
      have "unat len = length propval" unfolding that using assms(4) by (subst unsigned_of_nat) (simp add: take_bit_nat_eq_self)
      with ok Some assms(1) show ?thesis by (simp add: value_result_def readable_def)
    qed
    then show ?thesis by (cases "len = word_of_nat (length propval)") (simp_all add: value_test_def get Some memeq_def)
  qed (simp add: value_test_def get)
qed

interpretation by_value: node_search "\<lambda>_. length propname < 2 ^ 31 \<and> length propval < 2 ^ 31" "value_test propname propval"
    "\<lambda>fdt offset. by_prop_value_loop fdt offset propname propval" for propname propval
proof unfold_locales
  show "by_prop_value_loop fdt offset propname propval =
      (if sint offset \<ge> 0
       then do {
         stop \<leftarrow> value_test propname propval fdt offset;
         case stop of
           Some r \<Rightarrow> Some r
         | None \<Rightarrow> do { (offset, _) \<leftarrow> fdt_next_node fdt offset None; by_prop_value_loop fdt offset propname propval }
       }
       else Some offset)" for fdt offset
    by (subst by_prop_value_loop.simps)
      (auto simp: value_test_def bind_eq_None_conv split: option.split Option.bind_split)
  show "\<exists>stop. value_test propname propval fdt offset = Some stop"
    if "length propname < 2 ^ 31 \<and> length propval < 2 ^ 31" "readable fdt" "lens_ok fdt" for fdt offset
    using value_test_returns that by blast
qed

section \<open>Lists of strings\<close>

lemma stringlist_contains_returns:
  assumes "readable fdt" and "total_size fdt < length (blob_mem fdt)" and "p + unat len \<le> total_size fdt"
  shows "\<exists>b. fdt_stringlist_contains fdt p len str = Some b"
  using assms(3)
proof (induction "unat len" arbitrary: p len rule: less_induct)
  case less
  show ?case
  proof (cases "int (length str) \<le> sint len")
    case False
    then show ?thesis by (subst fdt_stringlist_contains.simps) auto
  next
    case True
    have l: "length str \<le> unat len" using True sint_unat [of len] by linarith
    have eq: "memeq fdt p (str @ [0]) = Some (bytes_at fdt p (length (str @ [0])) = str @ [0])"
      using l less.prems assms(2) by (intro memeq_in) simp
    have mem: "p + unat len \<le> length (blob_mem fdt)" using less.prems assms(2) by simp
    show ?thesis
    proof (cases rule: memchr_spec [OF mem, of 0, case_names None Some])
      case None
      then show ?thesis using True by (subst fdt_stringlist_contains.simps) (auto simp: eq)
    next
      case (Some k)
      let ?rest = "len - word_of_nat (k + 1)"
      have "unat (word_of_nat (k + 1) :: s32) = k + 1"
        using Some(2) unsigned_less [where ?'a = nat and w = len] by (subst unsigned_of_nat) (simp add: take_bit_nat_eq_self)
      then have rest: "unat ?rest = unat len - (k + 1)" using Some(2) unat_sub [of "word_of_nat (k + 1)" len]
        by (simp add: word_le_nat_alt)
      have "\<exists>b. fdt_stringlist_contains fdt (p + k + 1) ?rest str = Some b"
        by (rule less.hyps) (use rest Some(2) less.prems in simp_all)
      then show ?thesis using True Some(1) by (subst fdt_stringlist_contains.simps) (auto simp: eq)
    qed
  qed
qed

lemma strnlen_spec:
  assumes "p + n \<le> length (blob_mem fdt)"
  shows "\<exists>k\<le>n. strnlen fdt p n = Some k"
  by (cases rule: memchr_spec [OF assms, of 0, case_names None Some]) (auto simp: strnlen_def)

lemma stringlist_count_loop_returns:
  assumes "stop \<le> length (blob_mem fdt)"
  shows "\<exists>r. stringlist_count_loop fdt p stop c = Some r"
proof (induction "stop - p" arbitrary: p c rule: less_induct)
  case less
  show ?case
  proof (cases "p < stop")
    case True
    then obtain k where k: "k \<le> stop - p" "strnlen fdt p (stop - p) = Some k" using strnlen_spec [of p "stop - p" fdt] assms by auto
    show ?thesis
      using less [of "p + (k + 1)" "c + 1"] True k by (subst stringlist_count_loop.simps) auto
  qed (subst stringlist_count_loop.simps; simp)
qed

lemma stringlist_search_loop_returns:
  assumes "stop \<le> length (blob_mem fdt)"
  shows "\<exists>r. stringlist_search_loop fdt p stop s c = Some r"
proof (induction "stop - p" arbitrary: p c rule: less_induct)
  case less
  show ?case
  proof (cases "p < stop")
    case True
    then obtain k where k: "k \<le> stop - p" "strnlen fdt p (stop - p) = Some k" using strnlen_spec [of p "stop - p" fdt] assms by auto
    have eq: "\<exists>b. (if k + 1 = length s + 1 then memeq fdt p (s @ [0]) else Some False) = Some b" if "p + (k + 1) \<le> stop"
      using that assms by (auto simp: memeq_def)
    show ?thesis
      using less [of "p + (k + 1)" "c + 1"] True k eq by (subst stringlist_search_loop.simps) (auto simp: not_less)
  qed (subst stringlist_search_loop.simps; simp)
qed

lemma stringlist_get_loop_returns:
  assumes "stop \<le> length (blob_mem fdt)"
  shows "\<exists>r. stringlist_get_loop fdt p stop c = Some r"
proof (induction "stop - p" arbitrary: p c rule: less_induct)
  case less
  show ?case
  proof (cases "p < stop")
    case True
    then obtain k where k: "k \<le> stop - p" "strnlen fdt p (stop - p) = Some k" using strnlen_spec [of p "stop - p" fdt] assms by auto
    show ?thesis
      using less [of "p + (k + 1)" "c - 1"] True k by (subst stringlist_get_loop.simps) auto
  qed (subst stringlist_get_loop.simps; simp)
qed

lemma fdt_stringlists_return:
  assumes "readable fdt" and "lens_ok fdt" and "length propname < 2 ^ 31"
  shows "\<exists>r. fdt_stringlist_count fdt offset propname = Some r"
    and "\<exists>r. fdt_stringlist_search fdt offset propname s = Some r"
    and "\<exists>r. fdt_stringlist_get fdt offset propname idx = Some r"
proof -
  obtain val len where get: "fdt_getprop_namelen fdt offset propname = Some (val, len)" and ok: "value_result fdt (val, len)"
    using fdt_getprop_namelen_spec [OF assms] by (metis surj_pair)
  have stop: "nat (int q + sint len) \<le> length (blob_mem fdt)" if "val = Some q" for q
  proof -
    have "0 \<le> sint len" "q + unat len \<le> length (blob_mem fdt)" using ok that assms(1) by (simp_all add: value_result_def readable_def)
    then show ?thesis using sint_unat [of len] by linarith
  qed
  show "\<exists>r. fdt_stringlist_count fdt offset propname = Some r"
    using stringlist_count_loop_returns [OF stop] by (cases val) (auto simp: fdt_stringlist_count_def get)
  show "\<exists>r. fdt_stringlist_search fdt offset propname s = Some r"
    using stringlist_search_loop_returns [OF stop] by (cases val) (auto simp: fdt_stringlist_search_def get)
  show "\<exists>r. fdt_stringlist_get fdt offset propname idx = Some r"
    using stringlist_get_loop_returns [OF stop] by (cases val) (auto simp: fdt_stringlist_get_def get)
qed

section \<open>Nodes by name and depth\<close>

text \<open>Also the offset behind the end of the outermost node, which is returned with a negative depth, lies behind.\<close>

lemma fdt_next_tag_bound:
  assumes "readable fdt" and "lens_ok fdt" and "fdt_next_tag fdt offset = Some (tag, nextoffset)" and "tag \<noteq> 9"
  shows "unat nextoffset \<le> total_size fdt + 3"
proof -
  have lim: "unat (FDT_TAGALIGN (offset + word_of_nat n)) \<le> total_size fdt + 3" if "inside fdt offset n" "0 < n" for n
    using token_end(2) [OF assms(1) that] that(1) by (simp add: inside_def)
  show ?thesis
  proof (cases rule: fdt_next_tag_cases [OF assms(1), of offset, case_names Bad Node Prop Simple])
    case (Bad err)
    with assms(3,4) show ?thesis by simp
  next
    case (Node n)
    with assms(3) lim [OF Node(1)] show ?thesis by simp
  next
    case Prop
    then have lt: "prop_size fdt (unat offset) < 2 ^ 32" using assms(2) by (simp add: lens_ok_def)
    then have "inside fdt offset (prop_size fdt (unat offset))" using Prop(3) by simp
    from lim [OF this] assms(3) Prop show ?thesis by (simp add: prop_size_def)
  next
    case (Simple t)
    with assms(3,4) lim [OF Simple(2)] show ?thesis by auto
  qed
qed

lemma next_node_loop_bound:
  assumes "readable fdt" and "lens_ok fdt" and "unat offset \<le> total_size fdt + 3"
  shows "\<exists>r d. next_node_loop fdt offset depth = Some (r, d) \<and> (depth \<noteq> None \<longrightarrow> d \<noteq> None)
    \<and> (0 \<le> sint r \<longrightarrow> unat offset \<le> unat r \<and> unat r \<le> total_size fdt + 3)"
  using assms(3)
proof (induction "total_size fdt - unat offset" arbitrary: offset depth rule: less_induct)
  case less
  let ?goal = "\<lambda>res. \<exists>r d. res = Some (r, d) \<and> (depth \<noteq> None \<longrightarrow> d \<noteq> None)
    \<and> (0 \<le> sint r \<longrightarrow> unat offset \<le> unat r \<and> unat r \<le> total_size fdt + 3)"
  obtain tag nxt where tag: "fdt_next_tag fdt offset = Some (tag, nxt)" using fdt_next_tag_returns [OF assms(1)] by blast
  show ?case
  proof (cases "tag = 9")
    case True
    then show ?thesis by (subst next_node_loop.simps) (auto simp: tag)
  next
    case False
    note p = fdt_next_tag_progress [OF assms(1,2) tag False] and b = fdt_next_tag_bound [OF assms(1,2) tag False]
    have rec: "?goal (next_node_loop fdt nxt e)" if "e \<noteq> None \<or> depth = None" for e
      using less.hyps [OF inside_decreases [OF p(1,3)] b, of e] p(3) that by force
    have stop: "?goal (Some (nxt, Some e))" for e using p(3) b by simp
    have here: "?goal (Some (offset, map_option (\<lambda>d. d + 1) depth))" using less.prems by simp
    show ?thesis
      using False rec stop here by (subst next_node_loop.simps) (auto simp: tag split: option.split)
  qed
qed

lemma fdt_next_node_bound:
  assumes "readable fdt" and "lens_ok fdt" and "0 \<le> sint offset"
  shows "\<exists>r d. fdt_next_node fdt offset depth = Some (r, d) \<and> (depth \<noteq> None \<longrightarrow> d \<noteq> None)
    \<and> (0 \<le> sint r \<longrightarrow> unat offset < unat r \<and> unat r \<le> total_size fdt + 3)"
proof -
  obtain tag nxt where tag: "fdt_next_tag fdt offset = Some (tag, nxt)" using fdt_next_tag_returns [OF assms(1)] by blast
  show ?thesis
  proof (cases "tag = 1")
    case True
    have "unat offset < unat nxt" "unat nxt \<le> total_size fdt + 3"
      using fdt_next_tag_progress(3) [OF assms(1,2) tag] fdt_next_tag_bound [OF assms(1,2) tag] True by simp_all
    moreover from next_node_loop_bound [OF assms(1,2) this(2), of depth] obtain r d where
      "next_node_loop fdt nxt depth = Some (r, d)" "depth \<noteq> None \<longrightarrow> d \<noteq> None"
      "0 \<le> sint r \<longrightarrow> unat nxt \<le> unat r \<and> unat r \<le> total_size fdt + 3" by blast
    ultimately show ?thesis
      using assms(3) True by (auto simp: fdt_next_node_def fdt_check_node_offset_def check_tag_offset_def tag)
  qed (use assms(3) in \<open>auto simp: fdt_next_node_def fdt_check_node_offset_def check_tag_offset_def tag\<close>)
qed

lemma fdt_next_node_depth:
  assumes "readable fdt" and "lens_ok fdt" and "0 \<le> sint offset"
  obtains r d where "fdt_next_node fdt offset (Some depth) = Some (r, Some d)"
  using fdt_next_node_bound [OF assms, of "Some depth"] by auto

lemma node_induct_depth:
  assumes "readable fdt" and "lens_ok fdt" and "0 \<le> sint offset"
    and step: "\<And>offset. 0 \<le> sint offset \<Longrightarrow>
      (\<And>depth r d. fdt_next_node fdt offset depth = Some (r, d) \<Longrightarrow> 0 \<le> sint r \<Longrightarrow> P r) \<Longrightarrow> P offset"
  shows "P offset"
  using assms(3)
proof (induction "total_size fdt + 4 - unat offset" arbitrary: offset rule: less_induct)
  case less
  show ?case
  proof (rule step [OF less.prems])
    fix depth r d assume nx: "fdt_next_node fdt offset depth = Some (r, d)" and r: "0 \<le> sint r"
    from fdt_next_node_bound [OF assms(1,2) less.prems, of depth] nx r
    have "unat offset < unat r" "unat r \<le> total_size fdt + 3" by auto
    then show "P r" by (intro less.hyps r) linarith
  qed
qed

lemma subnode_offset_loop_returns:
  assumes "readable fdt" and "lens_ok fdt"
  shows "\<exists>r. subnode_offset_loop fdt offset depth name = Some r"
proof -
  have out: "\<exists>r. subnode_offset_loop fdt offset depth name = Some r" if "\<not> 0 \<le> sint offset" for offset depth
    using that by (subst subnode_offset_loop.simps) auto
  have "\<forall>depth. \<exists>r. subnode_offset_loop fdt offset depth name = Some r" if "0 \<le> sint offset" for offset
  proof (rule node_induct_depth [OF assms that], rule allI)
    fix offset depth
    assume o: "0 \<le> sint offset"
      and rec: "\<And>depth r d. fdt_next_node fdt offset depth = Some (r, d) \<Longrightarrow> 0 \<le> sint r \<Longrightarrow>
        \<forall>depth. \<exists>res. subnode_offset_loop fdt r depth name = Some res"
    obtain r d where nx: "fdt_next_node fdt offset (Some depth) = Some (r, Some d)" by (rule fdt_next_node_depth [OF assms o])
    have "\<exists>res. subnode_offset_loop fdt r d name = Some res" using rec [OF nx] out [of r d] by blast
    moreover obtain b where "(if depth = 1 then fdt_nodename_eq fdt offset name else Some False) = Some b"
      using fdt_nodename_eq_returns [OF assms] by (cases "depth = 1") auto
    ultimately show "\<exists>r. subnode_offset_loop fdt offset depth name = Some r"
      by (subst subnode_offset_loop.simps) (auto simp: nx)
  qed
  with out show ?thesis by blast
qed

lemma fdt_subnode_offset_returns:
  assumes "readable fdt" and "lens_ok fdt"
  shows "\<exists>r. fdt_subnode_offset_namelen fdt offset name = Some r"
  using fdt_ro_probe_spec [OF assms(1)] subnode_offset_loop_returns [OF assms] by (auto simp: fdt_subnode_offset_namelen_def)

lemma path_offset_loop_returns:
  assumes "readable fdt" and "lens_ok fdt"
  shows "\<exists>r. path_offset_loop fdt p offset = Some r"
  using assms
proof (induction fdt p offset rule: path_offset_loop.induct)
  case (1 fdt p offset)
  from fdt_subnode_offset_returns [OF 1(2,3)] obtain r where
    r: "fdt_subnode_offset_namelen fdt offset (takeWhile (\<lambda>c. c \<noteq> 47) (dropWhile (\<lambda>c. c = 47) p)) = Some r" by blast
  show ?case
  proof (cases "dropWhile (\<lambda>c. c = 47) p = []")
    case False
    from 1(1) [OF refl False, of r] 1(2,3) show ?thesis
      by (subst path_offset_loop.simps) (auto simp: Let_def r)
  qed (subst path_offset_loop.simps; simp)
qed

lemma fdt_path_offset_returns:
  assumes "readable fdt" and "lens_ok fdt" and "path = 47 # rest"
  shows "\<exists>r. fdt_path_offset_namelen fdt path = Some r"
  using fdt_ro_probe_spec [OF assms(1)] path_offset_loop_returns [OF assms(1,2)] assms(3)
  by (subst fdt_path_offset_namelen.simps) auto

lemma supernode_loop_returns:
  assumes "readable fdt" and "lens_ok fdt"
  shows "\<exists>r d. supernode_loop fdt offset depth nodeoffset sd so = Some (r, d) \<and> (d = None \<longrightarrow> sint r < 0)"
proof -
  let ?P = "\<lambda>offset depth so. \<exists>r d. supernode_loop fdt offset depth nodeoffset sd so = Some (r, d) \<and> (d = None \<longrightarrow> sint r < 0)"
  have out: "?P offset depth so" if "\<not> 0 \<le> sint offset" for offset depth so
    using that by (subst supernode_loop.simps) auto
  have "\<forall>depth so. ?P offset depth so" if "0 \<le> sint offset" for offset
  proof (rule node_induct_depth [OF assms that], intro allI)
    fix offset depth so
    assume o: "0 \<le> sint offset"
      and rec: "\<And>depth r d. fdt_next_node fdt offset depth = Some (r, d) \<Longrightarrow> 0 \<le> sint r \<Longrightarrow> \<forall>depth so. ?P r depth so"
    obtain r d where nx: "fdt_next_node fdt offset (Some depth) = Some (r, Some d)" by (rule fdt_next_node_depth [OF assms o])
    have "?P r d so'" for so' using rec [OF nx] out [of r d so'] by blast
    then show "?P offset depth so" by (subst supernode_loop.simps) (auto simp: nx Let_def)
  qed
  with out show ?thesis by blast
qed

lemma fdt_supernode_returns:
  assumes "readable fdt" and "lens_ok fdt"
  shows "\<exists>r d. fdt_supernode_atdepth_offset fdt nodeoffset sd = Some (r, d) \<and> (d = None \<longrightarrow> sint r < 0)"
  using fdt_ro_probe_spec [OF assms(1)] supernode_loop_returns [OF assms] by (auto simp: fdt_supernode_atdepth_offset_def)

lemma fdt_parent_offset_returns:
  assumes "readable fdt" and "lens_ok fdt"
  shows "\<exists>r. fdt_node_depth fdt nodeoffset = Some r" and "\<exists>r. fdt_parent_offset fdt nodeoffset = Some r"
proof -
  obtain r d where "fdt_supernode_atdepth_offset fdt nodeoffset 0 = Some (r, d)" "d = None \<longrightarrow> sint r < 0"
    using fdt_supernode_returns [OF assms] by blast
  then show depth: "\<exists>r. fdt_node_depth fdt nodeoffset = Some r" by (auto simp: fdt_node_depth_def)
  then obtain n where n: "fdt_node_depth fdt nodeoffset = Some n" by blast
  obtain s e where "fdt_supernode_atdepth_offset fdt nodeoffset (n - 1) = Some (s, e)" using fdt_supernode_returns [OF assms] by blast
  then show "\<exists>r. fdt_parent_offset fdt nodeoffset = Some r" by (auto simp: fdt_parent_offset_def n)
qed

section \<open>Compatible nodes\<close>

lemma fdt_node_check_compatible_returns:
  assumes "readable fdt" and "lens_ok fdt" and "total_size fdt < length (blob_mem fdt)"
  shows "\<exists>r. fdt_node_check_compatible fdt offset compatible = Some r"
proof -
  obtain val len where get: "fdt_getprop_namelen fdt offset [99, 111, 109, 112, 97, 116, 105, 98, 108, 101] = Some (val, len)"
      and ok: "value_result fdt (val, len)"
    using fdt_getprop_namelen_spec [OF assms(1,2), of "[99, 111, 109, 112, 97, 116, 105, 98, 108, 101]" offset] by auto
  show ?thesis
    using ok stringlist_contains_returns [OF assms(1,3)]
    by (cases val) (auto simp: fdt_node_check_compatible_def get value_result_def)
qed

definition compatible_test :: "cstring \<Rightarrow> blob \<Rightarrow> s32 \<Rightarrow> s32 option option" where
  "compatible_test compatible fdt offset =
     do {
       err \<leftarrow> fdt_node_check_compatible fdt offset compatible;
       Some (if sint err < 0 \<and> err \<noteq> - FDT_ERR_NOTFOUND then Some err else if err = 0 then Some offset else None)
     }"

interpretation by_compatible: node_search "\<lambda>fdt. total_size fdt < length (blob_mem fdt)" "compatible_test compatible"
    "\<lambda>fdt offset. by_compatible_loop fdt offset compatible" for compatible
proof unfold_locales
  show "by_compatible_loop fdt offset compatible =
      (if sint offset \<ge> 0
       then do {
         stop \<leftarrow> compatible_test compatible fdt offset;
         case stop of
           Some r \<Rightarrow> Some r
         | None \<Rightarrow> do { (offset, _) \<leftarrow> fdt_next_node fdt offset None; by_compatible_loop fdt offset compatible }
       }
       else Some offset)" for fdt offset
    by (subst by_compatible_loop.simps, cases "fdt_node_check_compatible fdt offset compatible") (simp_all add: compatible_test_def)
  show "\<exists>stop. compatible_test compatible fdt offset = Some stop"
    if "total_size fdt < length (blob_mem fdt)" "readable fdt" "lens_ok fdt" for fdt offset
    using fdt_node_check_compatible_returns [OF that(2,3,1), of offset compatible] by (auto simp: compatible_test_def)
qed

section \<open>Reserved memory\<close>

abbreviation rsv_off :: "blob \<Rightarrow> nat" where "rsv_off fdt \<equiv> field fdt 16"

lemma fdt_mem_rsv_eq:
  assumes "readable fdt" and "16 \<le> total_size fdt" and "unat n < 2 ^ 28"
  shows "fdt_mem_rsv fdt n =
    Some (if rsv_off fdt + 16 * unat n + 16 \<le> total_size fdt then Some (int (rsv_off fdt + 16 * unat n)) else None)"
proof -
  note h = header_in [OF assms(1)]
  let ?r = "word_of_nat (rsv_off fdt) :: u32"
  have t: "total_size fdt < 2 ^ 31" using assms(1) by (simp add: readable_def)
  have n16: "unat (n * 16) = 16 * unat n" using assms(3) by (simp add: unat_word_ariths)
  have wrap: "?r + n * 16 < ?r \<longleftrightarrow> \<not> rsv_off fdt + 16 * unat n < 2 ^ 32"
    using no_wrap(1) [of ?r "n * 16"] unfolding n16 unat_field by blast
  have sum: "unat (?r + n * 16) = rsv_off fdt + 16 * unat n" if "rsv_off fdt + 16 * unat n < 2 ^ 32"
    using no_wrap(2) [of ?r "n * 16"] that unfolding n16 unat_field .
  have uu: "unat (ucast (x :: u32) :: u64) = unat x" for x
    by (rule unat_ucast_up) simp
  let ?t64 = "ucast (word_of_nat (total_size fdt) :: u32) :: u64"
  have t64: "unat ?t64 = total_size fdt" unfolding uu by (rule unat_field)
  have sub: "unat (?t64 - 16) = total_size fdt - 16"
    using unat_sub [of 16 ?t64] assms(2) t64 by (simp add: word_le_nat_alt)
  have cmp: "(ucast (?r + n * 16) :: u64) > ?t64 - 16 \<longleftrightarrow> total_size fdt < rsv_off fdt + 16 * unat n + 16"
    if "rsv_off fdt + 16 * unat n < 2 ^ 32"
    unfolding word_less_nat_alt sub uu sum [OF that] using assms(2) by linarith
  have "sint n = int (unat n)" using assms(3) by (intro sint_small) simp
  moreover have "uint ?r = int (rsv_off fdt)" using unat_field [of fdt 16] by (metis uint_nat)
  ultimately have ptr: "uint ?r + sint n * 16 = int (rsv_off fdt + 16 * unat n)" by linarith
  show ?thesis
    unfolding fdt_mem_rsv_def fdt_off_mem_rsvmap_def fdt_totalsize_def
    using wrap cmp t by (simp add: h ptr Let_def del: of_nat_add of_nat_mult)
qed

lemma rsv_ld64_in:
  assumes "readable fdt" and "p + 8 \<le> total_size fdt"
  shows "\<exists>v. rsv_ld64 fdt (int p) = Some v"
proof -
  have "p + 8 \<le> length (blob_mem fdt)" using assms by (simp add: readable_def)
  with fdt32_ld_in [of p fdt] fdt32_ld_in [of "p + 4" fdt] show ?thesis by (auto simp: rsv_ld64_def fdt64_ld_def)
qed

lemma num_mem_rsv_loop_spec:
  assumes "readable fdt" and "16 \<le> total_size fdt" and "unat i < 2 ^ 28"
  shows "\<exists>r. num_mem_rsv_loop fdt i = Some r
    \<and> (0 \<le> sint r \<longrightarrow> unat i \<le> unat r \<and> rsv_off fdt + 16 * unat r + 16 \<le> total_size fdt)"
  using assms(3)
proof (induction "total_size fdt - 16 * unat i" arbitrary: i rule: less_induct)
  case less
  show ?case
  proof (cases "rsv_off fdt + 16 * unat i + 16 \<le> total_size fdt")
    case False
    then show ?thesis by (subst num_mem_rsv_loop.simps) (simp add: fdt_mem_rsv_eq [OF assms(1,2) less.prems])
  next
    case True
    then have "rsv_off fdt + 16 * unat i + 8 + 8 \<le> total_size fdt" by simp
    from rsv_ld64_in [OF assms(1) this] obtain v where v: "rsv_ld64 fdt (int (rsv_off fdt + 16 * unat i) + 8) = Some v"
      by (auto simp: add_ac)
    have suc: "unat (i + 1) = unat i + 1" using less.prems no_wrap(2) [of i 1] by simp
    have small: "unat (i + 1) < 2 ^ 28" using True assms(1) by (simp add: suc readable_def)
    have "total_size fdt - 16 * unat (i + 1) < total_size fdt - 16 * unat i" using True by (simp add: suc)
    from less.hyps [OF this small] True v show ?thesis
      by (subst num_mem_rsv_loop.simps) (auto simp: fdt_mem_rsv_eq [OF assms(1,2) less.prems] suc simp del: of_nat_add of_nat_mult)
  qed
qed

lemma fdt_get_mem_rsv_spec:
  assumes "readable fdt" and "16 \<le> total_size fdt" and "unat n < 2 ^ 28"
  shows "\<exists>res. fdt_get_mem_rsv fdt n = Some res"
proof (cases "rsv_off fdt + 16 * unat n + 16 \<le> total_size fdt")
  case True
  then have "rsv_off fdt + 16 * unat n + 8 \<le> total_size fdt" "rsv_off fdt + 16 * unat n + 8 + 8 \<le> total_size fdt" by simp_all
  from this [THEN rsv_ld64_in [OF assms(1)]] obtain v w where
    "rsv_ld64 fdt (int (rsv_off fdt + 16 * unat n)) = Some v" "rsv_ld64 fdt (int (rsv_off fdt + 16 * unat n) + 8) = Some w"
    by (auto simp: add_ac)
  with True fdt_ro_probe_spec [OF assms(1)] show ?thesis
    by (auto simp: fdt_get_mem_rsv_def fdt_mem_rsv_eq [OF assms] simp del: of_nat_add of_nat_mult)
next
  case False
  with fdt_ro_probe_spec [OF assms(1)] show ?thesis by (auto simp: fdt_get_mem_rsv_def fdt_mem_rsv_eq [OF assms])
qed


lemma comes_behind_nonneg: "comes_behind fdt offset r \<Longrightarrow> 0 \<le> sint r"
  by (induction rule: comes_behind.induct) auto

end
