(* ===== verification/FdtSafety.thy ===== *)
theory FdtSafety
  imports FdtReadSafe
begin

text \<open>
  Safety of reading a flattened device tree: walks over a blob with arbitrary contents return and stay
  inside of the memory, except for the wrap-around of the length of a property.
\<close>

section \<open>Properties\<close>

text \<open>
  In a blob whose memory holds the size its header gives, walking to the next node
  always returns and never reads outside of the memory, whatever the bytes are, unless a property
  claims a length that wraps around; an offset that is returned is that of a node inside of the blob and
  behind the one given.
\<close>

theorem fdt_next_node_returns:
  assumes "readable fdt" and "lens_ok fdt"
  shows "\<exists>r d. fdt_next_node fdt offset depth = Some (r, d)
    \<and> (0 \<le> sint r \<and> (\<forall>x. d = Some x \<longrightarrow> 0 \<le> sint x) \<longrightarrow>
        (0 \<le> sint offset \<longrightarrow> unat offset < unat r) \<and> inside fdt r 4 \<and> struct_word fdt (unat r) = 1)"
  by (rule fdt_next_node_spec [OF assms])

text \<open>A tree with a root that has one property \<open>a\<close> with the value 7, and a node \<open>b\<close>.\<close>

definition fdt_example :: blob where
  "fdt_example = \<lparr>blob_addr = 0x1000, blob_mem =
     [0xd0, 0x0d, 0xfe, 0xed, 0, 0, 0, 102, 0, 0, 0, 56, 0, 0, 0, 100, 0, 0, 0, 40, 0, 0, 0, 17, 0, 0, 0, 16, 0, 0, 0, 0,
      0, 0, 0, 2, 0, 0, 0, 44,
      0, 0, 0, 0, 0, 0, 0, 0, 0, 0, 0, 0, 0, 0, 0, 0,
      0, 0, 0, 1, 0, 0, 0, 0,
      0, 0, 0, 3, 0, 0, 0, 4, 0, 0, 0, 0, 0, 0, 0, 7,
      0, 0, 0, 1, 98, 0, 0, 0,
      0, 0, 0, 2,
      0, 0, 0, 2,
      0, 0, 0, 9,
      97, 0]\<rparr>"

lemma fdt_example_header: "fdt_check_header fdt_example = Some 0"
  by code_simp

lemma fdt_example_nodes:
  "fdt_next_node fdt_example (- 1) None = Some (0, None)" "fdt_next_node fdt_example 0 None = Some (24, None)"
  "fdt_next_node fdt_example 24 None = Some (- 1, None)"
  by code_simp+

lemma fieldI: "fdt32_ld fdt p = Some w \<Longrightarrow> field fdt p = unat w"
  by (simp add: field_def)

lemma lens_okI:
  assumes "readable fdt" and "fdt32_ld fdt 20 = Some 17"
    and "\<forall>i\<in>set [0..<struct_size fdt]. fdt32_ld fdt (struct_off fdt + i) = Some 3 \<longrightarrow>
      (case fdt32_ld fdt (struct_off fdt + i + 4) of None \<Rightarrow> True | Some l \<Rightarrow> l < 1000)"
  shows "lens_ok fdt"
  unfolding lens_ok_def
proof (intro allI impI)
  fix offset assume o: "inside fdt offset 8" "struct_word fdt (unat offset) = 3"
  have v: "version fdt = 17" using fieldI [OF assms(2)] by simp
  have w: "fdt32_ld fdt (struct_off fdt + unat offset) = Some 3"
    using inside_read32 [OF assms(1) o(1), of 0] o(2) by simp
  have l: "fdt32_ld fdt (struct_off fdt + unat offset + 4) = Some (word_of_nat (struct_word fdt (unat offset + 4)))"
    using inside_read32 [OF assms(1) o(1), of 4] by (simp add: add.assoc)
  have "unat offset \<in> set [0..<struct_size fdt]" using o(1) v by (simp add: inside_def)
  with assms(3) w l have "(word_of_nat (struct_word fdt (unat offset + 4)) :: u32) < 1000" by fastforce
  then have "struct_word fdt (unat offset + 4) < 1000" by (simp add: word_less_nat_alt unat_field)
  then show "prop_size fdt (unat offset) < 2 ^ 32" by (simp add: prop_size_def)
qed

lemma fdt_example_fields: "fdt32_ld fdt_example 4 = Some 102" "fdt32_ld fdt_example 8 = Some 56"
    "fdt32_ld fdt_example 20 = Some 17" "fdt32_ld fdt_example 36 = Some 44"
  by code_simp+

lemma fdt_example_readable: "readable fdt_example"
  unfolding readable_def fieldI [OF fdt_example_fields(1)] by (simp add: fdt_example_def)

lemma fdt_example_lens: "lens_ok fdt_example"
proof (rule lens_okI [OF fdt_example_readable fdt_example_fields(3)])
  have "\<forall>i\<in>set [0..<44]. fdt32_ld fdt_example (56 + i) = Some 3 \<longrightarrow>
      (case fdt32_ld fdt_example (56 + i + 4) of None \<Rightarrow> True | Some l \<Rightarrow> l < 1000)" by code_simp
  then show "\<forall>i\<in>set [0..<struct_size fdt_example]. fdt32_ld fdt_example (struct_off fdt_example + i) = Some 3 \<longrightarrow>
      (case fdt32_ld fdt_example (struct_off fdt_example + i + 4) of None \<Rightarrow> True | Some l \<Rightarrow> l < 1000)"
    by (simp add: fieldI [OF fdt_example_fields(2)] fieldI [OF fdt_example_fields(4)])
qed

theorem fdt_next_node_returns_witness:
  "\<exists>r d. fdt_next_node fdt_example 0 (Some 0) = Some (r, d)
    \<and> (0 \<le> sint r \<and> (\<forall>x. d = Some x \<longrightarrow> 0 \<le> sint x) \<longrightarrow>
        (0 \<le> sint (0 :: s32) \<longrightarrow> unat (0 :: s32) < unat r) \<and> inside fdt_example r 4 \<and> struct_word fdt_example (unat r) = 1)"
  by (rule fdt_next_node_returns [OF fdt_example_readable fdt_example_lens])

text \<open>
  The root of this tree has a property whose length field is \<open>0xfffffff4\<close>.  Its token ends where it
  begins: \<open>fdt_next_tag\<close> adds 12 and the length to an \<open>int\<close> without a check.
\<close>

definition fdt_wrapping :: blob where
  "fdt_wrapping = \<lparr>blob_addr = 0x1000, blob_mem =
     [0xd0, 0x0d, 0xfe, 0xed, 0, 0, 0, 86, 0, 0, 0, 56, 0, 0, 0, 84, 0, 0, 0, 40, 0, 0, 0, 17, 0, 0, 0, 16, 0, 0, 0, 0,
      0, 0, 0, 2, 0, 0, 0, 28,
      0, 0, 0, 0, 0, 0, 0, 0, 0, 0, 0, 0, 0, 0, 0, 0,
      0, 0, 0, 1, 0, 0, 0, 0,
      0, 0, 0, 3, 0xff, 0xff, 0xff, 0xf4, 0, 0, 0, 0,
      0, 0, 0, 2,
      0, 0, 0, 9,
      97, 0]\<rparr>"

lemma fdt_wrapping_tag: "fdt_next_tag fdt_wrapping 8 = Some (3, 8)"
  by code_simp

lemma fdt_wrapping_loop: "next_node_loop fdt_wrapping 8 depth = None"
proof -
  have "\<not> (fdt = fdt_wrapping \<and> offset = 8)" if "next_node_loop fdt offset depth = Some y" for fdt offset depth y
  proof (rule next_node_loop.raw_induct [OF _ that, where P = "\<lambda>fdt offset depth y. \<not> (fdt = fdt_wrapping \<and> offset = 8)"], goal_cases)
    case (1 loop fdt offset depth y)
    show ?case
    proof
      assume "fdt = fdt_wrapping \<and> offset = 8"
      with 1(2) have "loop fdt_wrapping 8 depth = Some y" by (simp add: fdt_wrapping_tag)
      from 1(1) [OF this] show False by simp
    qed
  qed
  then show ?thesis by (metis not_Some_eq)
qed

lemma fdt_wrapping_loops: "fdt_check_header fdt_wrapping = Some 0" "readable fdt_wrapping" "fdt_next_node fdt_wrapping 0 depth = None"
proof -
  show "fdt_check_header fdt_wrapping = Some 0" by code_simp
  have "fdt32_ld fdt_wrapping 4 = Some 86" by code_simp
  then show "readable fdt_wrapping" by (simp add: readable_def fieldI) (simp add: fdt_wrapping_def)
  have "fdt_check_node_offset fdt_wrapping 0 = Some 8" by code_simp
  then show "fdt_next_node fdt_wrapping 0 depth = None"
    by (simp add: fdt_next_node_def fdt_wrapping_loop)
qed

lemma ld8_outside: "length (blob_mem fdt) \<le> p \<Longrightarrow> ld8 fdt p = None"
  by (simp add: ld8_def)

lemma fdt_example_rsv: "fdt_get_mem_rsv fdt_example 0x10000000 = None"
proof -
  have "fdt_ro_probe fdt_example = Some 102" "fdt_mem_rsv fdt_example 0x10000000 = Some (Some (40 + 2 ^ 32))" by code_simp+
  moreover have "rsv_ld64 fdt_example (40 + 2 ^ 32) = None"
    by (simp add: rsv_ld64_def fdt64_ld_def fdt32_ld_def ld8_outside fdt_example_def)
  ultimately show ?thesis by (simp add: fdt_get_mem_rsv_def)
qed

text \<open>A tree whose node \<open>/aliases\<close> has the alias \<open>a\<close> for the path \<open>a\<close>.\<close>

definition fdt_self_alias :: blob where
  "fdt_self_alias = \<lparr>blob_addr = 0x1000, blob_mem =
     [0xd0, 0x0d, 0xfe, 0xed, 0, 0, 0, 106, 0, 0, 0, 56, 0, 0, 0, 104, 0, 0, 0, 40, 0, 0, 0, 17, 0, 0, 0, 16, 0, 0, 0, 0,
      0, 0, 0, 2, 0, 0, 0, 48,
      0, 0, 0, 0, 0, 0, 0, 0, 0, 0, 0, 0, 0, 0, 0, 0,
      0, 0, 0, 1, 0, 0, 0, 0,
      0, 0, 0, 1, 97, 108, 105, 97, 115, 101, 115, 0,
      0, 0, 0, 3, 0, 0, 0, 2, 0, 0, 0, 0, 97, 0, 0, 0,
      0, 0, 0, 2, 0, 0, 0, 2, 0, 0, 0, 9,
      97, 0]\<rparr>"

lemma fdt_self_alias_steps: "fdt_check_header fdt_self_alias = Some 0" "fdt_ro_probe fdt_self_alias = Some 106"
    "fdt_path_offset_namelen fdt_self_alias aliases_path = Some 8"
    "fdt_getprop_namelen fdt_self_alias 8 [97] = Some (Some 88, 2)" "string_at fdt_self_alias 88 = Some [97]"
    "fdt32_ld fdt_self_alias 4 = Some 106"
  by code_simp+

lemma fdt_self_alias_loop: "fdt_path_offset_namelen fdt_self_alias [97] = None"
proof -
  have "\<not> (fdt = fdt_self_alias \<and> path = [97]) \<and> (fdt = fdt_self_alias \<and> path = aliases_path \<longrightarrow> y = 8)"
    if "fdt_path_offset_namelen fdt path = Some y" for fdt path y
  proof (rule fdt_path_offset_namelen.raw_induct [OF _ that,
        where P = "\<lambda>fdt path y. \<not> (fdt = fdt_self_alias \<and> path = [97]) \<and> (fdt = fdt_self_alias \<and> path = aliases_path \<longrightarrow> y = 8)"], goal_cases)
    case (1 loop fdt path y)
    have "y = 8" if "fdt = fdt_self_alias" "path = aliases_path"
    proof -
      have "path_offset_loop fdt_self_alias aliases_path 0 = Some y" using 1(2) that by (simp add: fdt_self_alias_steps(2))
      moreover have "path_offset_loop fdt_self_alias aliases_path 0 = Some 8"
        using fdt_self_alias_steps(3) by (subst (asm) fdt_path_offset_namelen.simps) (simp add: fdt_self_alias_steps(2))
      ultimately show ?thesis by simp
    qed
    moreover have False if "fdt = fdt_self_alias" "path = [97]"
    proof -
      from 1(2) that obtain k where k: "loop fdt_self_alias aliases_path = Some k"
        by (auto simp: fdt_self_alias_steps(2) bind_eq_Some_conv)
      with 1(1) [OF k] have "k = 8" by simp
      with 1(2) that k obtain z where "loop fdt_self_alias [97] = Some z"
        by (auto simp: fdt_self_alias_steps bind_eq_Some_conv)
      from 1(1) [OF this] show False by simp
    qed
    ultimately show ?case by blast
  qed
  then show ?thesis by (metis not_Some_eq)
qed

text \<open>The value \<open>ab\<close> of the property \<open>compatible\<close> is not terminated and ends with the blob.\<close>

definition fdt_unterminated :: blob where
  "fdt_unterminated = \<lparr>blob_addr = 0x1000, blob_mem =
     [0xd0, 0x0d, 0xfe, 0xed, 0, 0, 0, 90, 0, 0, 0, 68, 0, 0, 0, 56, 0, 0, 0, 40, 0, 0, 0, 17, 0, 0, 0, 16, 0, 0, 0, 0,
      0, 0, 0, 11, 0, 0, 0, 22,
      0, 0, 0, 0, 0, 0, 0, 0, 0, 0, 0, 0, 0, 0, 0, 0,
      99, 111, 109, 112, 97, 116, 105, 98, 108, 101, 0, 0,
      0, 0, 0, 1, 0, 0, 0, 0,
      0, 0, 0, 3, 0, 0, 0, 2, 0, 0, 0, 0, 97, 98]\<rparr>"

lemma fdt_unterminated_steps: "fdt_check_header fdt_unterminated = Some 0"
    "fdt_node_check_compatible fdt_unterminated 0 [97, 98] = None" "fdt32_ld fdt_unterminated 4 = Some 90"
  by code_simp+

text \<open>The root has the phandle \<open>0xffffffff\<close>.\<close>

definition fdt_last_phandle :: blob where
  "fdt_last_phandle = \<lparr>blob_addr = 0x1000, blob_mem =
     [0xd0, 0x0d, 0xfe, 0xed, 0, 0, 0, 96, 0, 0, 0, 56, 0, 0, 0, 88, 0, 0, 0, 40, 0, 0, 0, 17, 0, 0, 0, 16, 0, 0, 0, 0,
      0, 0, 0, 8, 0, 0, 0, 32,
      0, 0, 0, 0, 0, 0, 0, 0, 0, 0, 0, 0, 0, 0, 0, 0,
      0, 0, 0, 1, 0, 0, 0, 0,
      0, 0, 0, 3, 0, 0, 0, 4, 0, 0, 0, 0, 0xff, 0xff, 0xff, 0xff,
      0, 0, 0, 2, 0, 0, 0, 9,
      112, 104, 97, 110, 100, 108, 101, 0]\<rparr>"

lemma fdt_last_phandle_steps: "fdt_check_header fdt_last_phandle = Some 0"
    "fdt_generate_phandle fdt_last_phandle = Some (0, Some 0)" "fdt32_ld fdt_last_phandle 4 = Some 96"
  by code_simp+

lemma hostile_readable: "readable fdt_self_alias" "readable fdt_unterminated" "readable fdt_last_phandle"
  using fdt_self_alias_steps(6) fdt_unterminated_steps(3) fdt_last_phandle_steps(3)
  by (simp_all add: readable_def fieldI) (simp_all add: fdt_self_alias_def fdt_unterminated_def fdt_last_phandle_def)

text \<open>
  C30: \<open>fdt_check_header\<close> accepts blobs on which the reading functions fail, although the blobs lie completely in
  memory: \<open>fdt_next_node\<close> runs forever when the length of a property wraps around, \<open>fdt_get_mem_rsv\<close> reads
  outside of the memory for the entry \<open>2\<^sup>2\<^sup>8\<close>, whose offset wraps around, a path through an
  alias for itself recurses forever, a list of strings is compared with the byte behind it, and with the
  phandle \<open>0xffffffff\<close> in use the invalid phandle 0 is generated.
\<close>

theorem fdt_accepted_blobs:
  "\<exists>wrapping entry alias list phandle.
     list_all (\<lambda>fdt. fdt_check_header fdt = Some 0 \<and> readable fdt) [wrapping, entry, alias, list, phandle]
     \<and> (\<forall>depth. fdt_next_node wrapping 0 depth = None)
     \<and> fdt_get_mem_rsv entry 0x10000000 = None
     \<and> (\<exists>path. fdt_path_offset_namelen alias path = None)
     \<and> (\<exists>compatible. fdt_node_check_compatible list 0 compatible = None)
     \<and> fdt_generate_phandle phandle = Some (0, Some 0)"
proof (intro exI conjI)
  show "list_all (\<lambda>fdt. fdt_check_header fdt = Some 0 \<and> readable fdt) [fdt_wrapping, fdt_example, fdt_self_alias, fdt_unterminated, fdt_last_phandle]"
    by (simp add: fdt_wrapping_loops(1,2) fdt_example_header fdt_example_readable fdt_self_alias_steps(1)
        fdt_unterminated_steps(1) fdt_last_phandle_steps(1) hostile_readable)
  show "\<forall>depth. fdt_next_node fdt_wrapping 0 depth = None" by (simp add: fdt_wrapping_loops(3))
qed (rule fdt_example_rsv fdt_self_alias_loop fdt_unterminated_steps(2) fdt_last_phandle_steps(2))+



text \<open>
  \<open>fdt_generate_phandle\<close> returns an error or a phandle that is larger than that of every node, and valid,
  unless a node has the phandle \<open>0xffffffff\<close>.
\<close>

theorem fdt_generate_phandle_fresh:
  assumes "readable fdt" and "lens_ok fdt"
  shows "(\<exists>err. fdt_generate_phandle fdt = Some (err, None) \<and> sint err < 0)
    \<or> (\<exists>p. fdt_generate_phandle fdt = Some (0, Some p)
        \<and> (p \<noteq> 0 \<longrightarrow> p \<noteq> NOT 0 \<and> (\<forall>r v. comes_behind fdt (- 1) r \<longrightarrow> fdt_get_phandle fdt r = Some v \<longrightarrow> v < p))
        \<and> (p = 0 \<longrightarrow> (\<exists>r. comes_behind fdt (- 1) r \<and> fdt_get_phandle fdt r = Some (NOT 0))))"
  by (rule fdt_generate_phandle_spec [OF assms])

theorem fdt_generate_phandle_fresh_witness:
  "(\<exists>err. fdt_generate_phandle fdt_example = Some (err, None) \<and> sint err < 0)
    \<or> (\<exists>p. fdt_generate_phandle fdt_example = Some (0, Some p)
        \<and> (p \<noteq> 0 \<longrightarrow> p \<noteq> NOT 0 \<and> (\<forall>r v. comes_behind fdt_example (- 1) r \<longrightarrow> fdt_get_phandle fdt_example r = Some v \<longrightarrow> v < p))
        \<and> (p = 0 \<longrightarrow> (\<exists>r. comes_behind fdt_example (- 1) r \<and> fdt_get_phandle fdt_example r = Some (NOT 0))))"
  by (rule fdt_generate_phandle_fresh [OF fdt_example_readable fdt_example_lens])



end
