(* ===== verification/RtcLib.thy ===== *)
theory RtcLib
  imports Prelude "HOL-Library.Signed_Division"
begin

text \<open>
  Dates of real-time clocks, \<open>kernel/src/driver/common/rtc/lib.c\<close>: the conversion of seconds to a date by
  multiplications and shifts, validity of a date, and the proof that the conversion gives the date of
  the Gregorian calendar.  \<open>mktime64\<close>, which the conversion in the other direction calls, is not part of
  the sources; it is an argument.
\<close>

record rtc_time =
  tm_sec :: "32 word"
  tm_min :: "32 word"
  tm_hour :: "32 word"
  tm_mday :: "32 word"
  tm_mon :: "32 word"
  tm_year :: "32 word"
  tm_wday :: "32 word"
  tm_yday :: "32 word"
  tm_isdst :: "32 word"

definition is_leap_year :: "u32 \<Rightarrow> bool" where
  "is_leap_year year \<longleftrightarrow> (year mod 4 = 0 \<and> year mod 100 \<noteq> 0) \<or> year mod 400 = 0"

definition rtc_days_in_month :: "u32 list" where
  "rtc_days_in_month = [31, 28, 31, 30, 31, 30, 31, 31, 30, 31, 30, 31]"

definition rtc_ydays :: "bool \<Rightarrow> u32 list" where
  "rtc_ydays leap =
     (if leap then [0, 31, 60, 91, 121, 152, 182, 213, 244, 274, 305, 335, 366]
      else [0, 31, 59, 90, 120, 151, 181, 212, 243, 273, 304, 334, 365])"

text \<open>An index outside of a table has no result.\<close>

definition rtc_month_days :: "u32 \<Rightarrow> u32 \<Rightarrow> u32 option" where
  "rtc_month_days month year =
     (if unat month < 12 then Some (rtc_days_in_month ! unat month + (if is_leap_year year \<and> month = 1 then 1 else 0)) else None)"

definition rtc_year_days :: "u32 \<Rightarrow> u32 \<Rightarrow> u32 \<Rightarrow> u32 option" where
  "rtc_year_days day month year =
     (if unat month < 13 then Some (rtc_ydays (is_leap_year year) ! unat month + day - 1) else None)"

definition upper_32_bits :: "u64 \<Rightarrow> u32" where "upper_32_bits n = ucast (drop_bit 16 (drop_bit 16 n))"
definition lower_32_bits :: "u64 \<Rightarrow> u32" where "lower_32_bits n = ucast (n AND 0xffffffff)"

definition rtc_time64_to_tm :: "64 word \<Rightarrow> rtc_time" where
  "rtc_time64_to_tm time =
     (let days = word_of_int (sint time sdiv 86400) :: 32 word;
          secs = word_of_int (sint time smod 86400) :: u32;
          wday = word_of_int (sint (days + 4) smod 7);
          udays = days + 719468;
          u32tmp = 4 * udays + 3;
          century = u32tmp div 146097;
          day_of_century = u32tmp mod 146097 div 4;
          u32tmp = 4 * day_of_century + 3;
          u64tmp = 2939745 * (ucast u32tmp :: u64);
          year_of_century = upper_32_bits u64tmp;
          day_of_year = lower_32_bits u64tmp div 2939745 div 4;
          year = 100 * century + year_of_century;
          leap = (if year_of_century \<noteq> 0 then year_of_century mod 4 = 0 else century mod 4 = 0);
          u32tmp = 2141 * day_of_year + 132377;
          month = drop_bit 16 u32tmp;
          day = ucast (ucast u32tmp :: u16) div 2141;
          is_Jan_or_Feb = day_of_year \<ge> 306;
          year = year + (if is_Jan_or_Feb then 1 else 0);
          month = (if is_Jan_or_Feb then month - 12 else month);
          day = day + 1;
          day_of_year = (if is_Jan_or_Feb then day_of_year - 306 else day_of_year + 31 + 28 + (if leap then 1 else 0));
          hour = secs div 3600;
          secs = secs - hour * 3600;
          mins = secs div 60
      in \<lparr>tm_sec = secs - mins * 60, tm_min = mins, tm_hour = hour, tm_mday = day, tm_mon = month,
          tm_year = year - 1900, tm_wday = wday, tm_yday = day_of_year + 1, tm_isdst = 0\<rparr>)"

text \<open>The error number, 0 for a valid date; the number of days is looked up only for a month that is in the table.\<close>

definition rtc_valid_tm :: "rtc_time \<Rightarrow> int" where
  "rtc_valid_tm tm =
     (if sint (tm_year tm) < 70 \<or> sint (tm_year tm) > 0x7fffffff - 1900 \<or> tm_mon tm \<ge> 12 \<or> sint (tm_mday tm) < 1
         \<or> (case rtc_month_days (tm_mon tm) (tm_year tm + 1900) of None \<Rightarrow> True | Some d \<Rightarrow> sint (tm_mday tm) > sint d)
         \<or> tm_hour tm \<ge> 24 \<or> tm_min tm \<ge> 60 \<or> tm_sec tm \<ge> 60
      then - EINVAL else 0)"

text \<open>\<open>mktime64\<close> takes the year, the month from 1 on, the day, the hour, the minute and the second.\<close>

definition rtc_tm_to_time64 :: "(u32 \<Rightarrow> u32 \<Rightarrow> u32 \<Rightarrow> u32 \<Rightarrow> u32 \<Rightarrow> u32 \<Rightarrow> 64 word) \<Rightarrow> rtc_time \<Rightarrow> 64 word" where
  "rtc_tm_to_time64 mktime64 tm = mktime64 (tm_year tm + 1900) (tm_mon tm + 1) (tm_mday tm) (tm_hour tm) (tm_min tm) (tm_sec tm)"

section \<open>The Gregorian calendar\<close>

text \<open>The reference: years and months are counted off one after the other from 1970 on.\<close>

definition leap :: "nat \<Rightarrow> bool" where
  "leap y \<longleftrightarrow> (4 dvd y \<and> \<not> 100 dvd y) \<or> 400 dvd y"

definition month_lens :: "bool \<Rightarrow> nat list" where
  "month_lens l = [31, if l then 29 else 28, 31, 30, 31, 30, 31, 31, 30, 31, 30, 31]"

definition year_start :: "nat \<Rightarrow> nat" where
  "year_start y = (\<Sum>i\<leftarrow>[1970..<y]. if leap i then 366 else 365)"

definition month_start :: "bool \<Rightarrow> nat \<Rightarrow> nat" where
  "month_start l m = sum_list (take m (month_lens l))"

text \<open>The day \<open>n\<close> from 1970-01-01 on is the day \<open>d\<close> (from 1 on) of the month \<open>m\<close> (from 0 on) of the year \<open>y\<close>.\<close>

definition is_date :: "nat \<Rightarrow> nat \<Rightarrow> nat \<Rightarrow> nat \<Rightarrow> bool" where
  "is_date n y m d \<longleftrightarrow> 1970 \<le> y \<and> m < 12 \<and> 1 \<le> d \<and> d \<le> month_lens (leap y) ! m
     \<and> n = year_start y + month_start (leap y) m + (d - 1)"

section \<open>Centuries, years and days of a year that starts in March\<close>

lemma split_years:
  fixes u k q :: nat
  assumes "0 < q" and "k = 4 * q + 1"
  defines "c \<equiv> (4 * u + 3) div k" and "d \<equiv> (4 * u + 3) mod k div 4"
  shows "u = q * c + c div 4 + d" and "d \<le> q" and "d = q \<Longrightarrow> c mod 4 = 3"
proof -
  define r where "r = (4 * u + 3) mod k"
  define a b s p where "a = c div 4" and "b = c mod 4" and "s = r mod 4" and "p = q * c"
  have n: "4 * u + 3 = k * c + r" unfolding c_def r_def by simp
  have rk: "r < 4 * q + 1" unfolding r_def assms(2) by simp
  have d: "r = 4 * d + s" "s < 4" unfolding d_def r_def [symmetric] s_def by simp_all
  have c: "c = 4 * a + b" "b < 4" unfolding a_def b_def by simp_all
  have kc: "k * c = 4 * p + c" unfolding p_def assms(2) by (simp add: algebra_simps)
  from n have "4 * u + 3 = 4 * p + c + r" unfolding kc .
  then have eq: "4 * u + 3 = 4 * (p + a + d) + (b + s)" using d(1) c(1) by simp
  have "u = p + a + d \<and> b + s = 3" using eq c(2) d(2) by presburger
  then show "u = q * c + c div 4 + d" and "d = q \<Longrightarrow> c mod 4 = 3"
    using d(1) rk by (simp_all add: p_def a_def b_def)
  show "d \<le> q" using d rk by linarith
qed

lemma split_century:
  fixes u :: nat
  defines "c \<equiv> (4 * u + 3) div 146097" and "d \<equiv> (4 * u + 3) mod 146097 div 4"
  shows "u = 36524 * c + c div 4 + d" and "d \<le> 36524" and "d = 36524 \<Longrightarrow> c mod 4 = 3"
  unfolding c_def d_def by (rule split_years [of 36524 146097 u]; simp)+

lemma split_year:
  fixes d :: nat
  assumes "d \<le> 36524"
  defines "y \<equiv> (4 * d + 3) div 1461" and "e \<equiv> (4 * d + 3) mod 1461 div 4"
  shows "d = 365 * y + y div 4 + e" and "e \<le> 365" and "e = 365 \<Longrightarrow> y mod 4 = 3" and "y \<le> 99" and "y = 99 \<Longrightarrow> e = 365 \<Longrightarrow> d = 36524"
proof -
  show 1: "d = 365 * y + y div 4 + e" and "e \<le> 365" and "e = 365 \<Longrightarrow> y mod 4 = 3"
    unfolding y_def e_def by (rule split_years [of 365 1461 d]; simp)+
  have "4 * d + 3 < 1461 * 100" using assms(1) by simp
  then show "y \<le> 99" unfolding y_def by (simp add: less_mult_imp_div_less mult.commute flip: less_Suc_eq_le)
  show "d = 36524" if "y = 99" "e = 365" using 1 that by simp
qed

text \<open>The first day of the year \<open>y\<close> that starts in March, from the year 0 on.\<close>

definition march_start :: "nat \<Rightarrow> nat" where
  "march_start y = 365 * y + y div 4 + y div 400 - y div 100"

lemma march_century:
  assumes "y \<le> 99"
  shows "march_start (100 * c + y) = 36524 * c + c div 4 + (365 * y + y div 4)"
proof -
  have "(100 * c + y) div 100 = c" using assms by simp
  moreover have "(100 * c + y) div 4 = 25 * c + y div 4"
    using div_mult_self4 [of 4 "y" "25 * c"] by (simp add: add.commute)
  moreover have "(100 * c + y) div 400 = c div 4"
  proof -
    have "(100 * c + y) div 400 = (100 * c + y) div 100 div 4" by (simp add: div_mult2_eq)
    with assms show ?thesis by simp
  qed
  ultimately show ?thesis by (simp add: march_start_def)
qed

lemma march_next: "march_start (Suc y) = march_start y + (if leap (Suc y) then 366 else 365)"
proof -
  have le: "y div 100 \<le> 365 * y" by (rule order_trans [of _ y]) simp_all
  have "Suc y div k = y div k + (if k dvd Suc y then 1 else 0)" for k by (simp add: div_Suc dvd_eq_mod_eq_0)
  moreover have "400 dvd Suc y \<Longrightarrow> 100 dvd Suc y" "100 dvd Suc y \<Longrightarrow> 4 dvd Suc y" by (auto elim: dvd_trans [rotated])
  ultimately show ?thesis using le by (auto simp: march_start_def leap_def)
qed

text \<open>The first of January comes 306 days after the first of March of the year before.\<close>

lemma year_start_march: "1970 \<le> y \<Longrightarrow> year_start y + 719468 = march_start (y - 1) + 306"
proof (induction y rule: nat_induct_at_least)
  case base
  show ?case by (simp add: year_start_def march_start_def)
next
  case (Suc y)
  have "year_start (Suc y) = year_start y + (if leap y then 366 else 365)" using Suc.hyps by (simp add: year_start_def)
  moreover have "march_start y = march_start (y - 1) + (if leap y then 366 else 365)"
    using march_next [of "y - 1"] Suc.hyps by simp
  ultimately show ?case using Suc.IH by simp
qed

section \<open>Months\<close>

text \<open>The multiplication that gives the month and the day, for each of the 366 days.\<close>

definition month_ok :: "int \<Rightarrow> bool" where
  "month_ok e = (let t = 2141 * e + 132377; m = t div 65536; d = t mod 65536 div 2141 in
     if e < 306 then 2 \<le> m \<and> m \<le> 11 \<and> e + 59 = [0, 31, 59, 90, 120, 151, 181, 212, 243, 273, 304, 334] ! nat m + d
       \<and> d < [31, 28, 31, 30, 31, 30, 31, 31, 30, 31, 30, 31] ! nat m
     else if e < 337 then m = 12 \<and> e - 306 = d
     else m = 13 \<and> e - 306 = 31 + d)"

lemma months_checked: "list_all month_ok [0..365]"
  by code_simp

lemma month_okD: "e \<le> 365 \<Longrightarrow> month_ok (int e)"
  using months_checked by (auto simp: list_all_iff)

lemma month_day:
  fixes e :: nat
  assumes "e \<le> 365"
  defines "m \<equiv> (2141 * e + 132377) div 65536" and "d \<equiv> (2141 * e + 132377) mod 65536 div 2141"
  shows "e < 306 \<Longrightarrow> 2 \<le> m \<and> m < 12 \<and> d < month_lens l ! m \<and> e + 59 + (if l then 1 else 0) = month_start l m + d"
    and "306 \<le> e \<Longrightarrow> 12 \<le> m \<and> m - 12 < 12 \<and> d < month_lens (l \<or> e = 365) ! (m - 12) \<and> e - 306 = month_start l' (m - 12) + d"
proof -
  have im: "int m = (2141 * int e + 132377) div 65536" and id: "int d = (2141 * int e + 132377) mod 65536 div 2141"
    by (simp_all add: m_def d_def zdiv_int zmod_int)
  note ok = month_okD [OF assms(1), unfolded month_ok_def Let_def, folded im id]
  show "2 \<le> m \<and> m < 12 \<and> d < month_lens l ! m \<and> e + 59 + (if l then 1 else 0) = month_start l m + d" if e: "e < 306"
  proof -
    from ok e have m: "2 \<le> m" "m < 12" by simp_all
    then have "m \<in> set [2..<12]" by (simp only: set_upt atLeastLessThan_iff)
    also have "[2..<12] = [2, 3, 4, 5, 6, 7, 8, 9, 10, 11 :: nat]" by (simp add: upt_rec)
    finally consider "m = 2" | "m = 3" | "m = 4" | "m = 5" | "m = 6" | "m = 7" | "m = 8" | "m = 9" | "m = 10" | "m = 11" by (simp only: list.set) blast
    then show ?thesis using ok e by cases (simp_all add: month_lens_def month_start_def)
  qed
  show "12 \<le> m \<and> m - 12 < 12 \<and> d < month_lens (l \<or> e = 365) ! (m - 12) \<and> e - 306 = month_start l' (m - 12) + d" if e: "306 \<le> e"
    using ok e assms(1) by (cases "e < 337") (auto simp: month_lens_def month_start_def)
qed

lemma march_mono: "x \<le> y \<Longrightarrow> march_start x \<le> march_start y"
  by (induction y rule: dec_induct) (auto simp: march_next intro: order_trans)

section \<open>The date of a day\<close>

text \<open>The algorithm on numbers without bounds: year, month and day of the month and of the year.\<close>

definition date_of :: "nat \<Rightarrow> nat \<times> nat \<times> nat \<times> nat" where
  "date_of n =
     (let u = n + 719468;
          c = (4 * u + 3) div 146097;
          d = (4 * u + 3) mod 146097 div 4;
          y = (4 * d + 3) div 1461;
          e = (4 * d + 3) mod 1461 div 4;
          t = 2141 * e + 132377;
          m = t div 65536;
          k = t mod 65536 div 2141
      in if 306 \<le> e then (100 * c + y + 1, m - 12, k + 1, e - 306 + 1)
         else (100 * c + y, m, k + 1, e + 59 + (if (if y \<noteq> 0 then y mod 4 = 0 else c mod 4 = 0) then 1 else 0) + 1))"

lemma leap_century:
  assumes "y \<le> 99"
  shows "leap (100 * c + y) \<longleftrightarrow> (if y \<noteq> 0 then y mod 4 = 0 else c mod 4 = 0)"
proof -
  have h: "100 dvd 100 * c + y \<longleftrightarrow> y = 0" using assms by (auto simp: dvd_add_right_iff dest: nat_dvd_not_less)
  have f: "4 dvd 100 * c + y \<longleftrightarrow> 4 dvd y" using dvd_add_right_iff [of 4 "100 * c" y] by (simp add: dvd_mult2)
  have "400 dvd 100 * c + y \<longleftrightarrow> y = 0 \<and> 4 dvd c"
  proof
    assume a: "400 dvd 100 * c + y"
    then have "100 dvd 100 * c + y" by (rule dvd_trans [rotated]) simp
    with a h show "y = 0 \<and> 4 dvd c" using nat_mult_dvd_cancel_disj [of 100 4 c] by simp
  qed auto
  with h f show ?thesis by (auto simp: leap_def dvd_eq_mod_eq_0)
qed

lemma date_of_correct:
  assumes "date_of n = (y, m, d, yd)"
  shows "is_date n y m d" and "yd = month_start (leap y) m + d"
proof -
  define u where "u = n + 719468"
  define c where "c = (4 * u + 3) div 146097"
  define dc where "dc = (4 * u + 3) mod 146097 div 4"
  define yc where "yc = (4 * dc + 3) div 1461"
  define e where "e = (4 * dc + 3) mod 1461 div 4"
  define mm where "mm = (2141 * e + 132377) div 65536"
  define k where "k = (2141 * e + 132377) mod 65536 div 2141"
  note C = split_century [of u, folded c_def dc_def]
  note Y = split_year [OF C(2), folded yc_def e_def]
  have start: "march_start (100 * c + yc) + e = n + 719468"
    using march_century [OF Y(4), of c] C(1) Y(1) by (simp add: u_def)
  have date: "(y, m, d, yd) = (if 306 \<le> e then (100 * c + yc + 1, mm - 12, k + 1, e - 306 + 1)
         else (100 * c + yc, mm, k + 1, e + 59 + (if leap (100 * c + yc) then 1 else 0) + 1))"
    using assms unfolding date_of_def Let_def leap_century [OF Y(4)] u_def [symmetric] c_def [symmetric] dc_def [symmetric]
      yc_def [symmetric] e_def [symmetric] mm_def [symmetric] k_def [symmetric] by simp
  have Ypos: "1969 \<le> 100 * c + yc"
  proof (rule ccontr)
    assume "\<not> ?thesis"
    then have "march_start (100 * c + yc) \<le> march_start 1968" by (intro march_mono) simp
    also have "march_start 1968 = 718797" by (simp add: march_start_def)
    finally show False using start Y(2) by simp
  qed
  show "is_date n y m d" and "yd = month_start (leap y) m + d"
  proof (atomize (full), cases "306 \<le> e")
    case True
    then have y: "y = Suc (100 * c + yc)" "m = mm - 12" "d = k + 1" "yd = e - 306 + 1" using date by simp_all
    have last: "leap y" if "e = 365"
    proof (cases "yc = 99")
      case True
      with Y(5) that C(3) have "c mod 4 = 3" by simp
      then have "Suc c mod 4 = 0" by (simp add: mod_Suc)
      with leap_century [of 0 "Suc c"] True y(1) show ?thesis by simp
    next
      case False
      with Y(3) [OF that] Y(4) have "Suc yc mod 4 = 0" "Suc yc \<le> 99" by (simp_all add: mod_Suc)
      with leap_century [of "Suc yc" c] y(1) show ?thesis by simp
    qed
    then have "(leap y \<or> e = 365) = leap y" by blast
    with month_day(2) [OF Y(2) True, folded mm_def k_def, of "leap y" "leap y"]
    have md: "m < 12" "k < month_lens (leap y) ! m" "e - 306 = month_start (leap y) m + k" by (simp_all add: y(2))
    have "year_start y + 719468 = march_start (100 * c + yc) + 306" using year_start_march [of y] Ypos by (simp add: y(1))
    with start True have "n = year_start y + (e - 306)" by linarith
    with md y Ypos show "is_date n y m d \<and> yd = month_start (leap y) m + d" by (simp add: is_date_def)
  next
    case False
    let ?l = "if leap y then 1 else 0 :: nat"
    from False have y: "y = 100 * c + yc" "m = mm" "d = k + 1" "yd = e + 59 + (if leap (100 * c + yc) then 1 else 0) + 1"
      using date by simp_all
    have md: "m < 12" "k < month_lens (leap y) ! m" "e + 59 + ?l = month_start (leap y) m + k"
      using month_day(1) [OF Y(2), folded mm_def k_def, of "leap y"] False by (simp_all add: y(2))
    have "march_start 1969 = 719162" by (simp add: march_start_def)
    then have "100 * c + yc \<noteq> 1969" using start False by auto
    with Ypos have big: "1970 \<le> y" by (simp add: y(1))
    have "march_start y = march_start (y - 1) + (if leap y then 366 else 365)" using march_next [of "y - 1"] big by simp
    with year_start_march [OF big] start have "n = year_start y + (e + 59 + ?l)" by (simp add: y(1) split: if_splits)
    with md y big show "is_date n y m d \<and> yd = month_start (leap y) m + d" by (simp add: is_date_def)
  qed
qed

section \<open>The computation on words\<close>

abbreviation w32 :: "nat \<Rightarrow> u32" where "w32 \<equiv> word_of_nat"

lemma unat_w32: "x < 2 ^ 32 \<Longrightarrow> unat (w32 x) = x"
  by (simp add: unsigned_of_nat take_bit_nat_eq_self)

lemma w32_div: "x < 2 ^ 32 \<Longrightarrow> y < 2 ^ 32 \<Longrightarrow> w32 x div w32 y = w32 (x div y)"
  by (rule unsigned_word_eqI [where ?'a = nat])
    (simp add: unat_div unat_w32, subst unat_w32, simp_all add: order.strict_trans1 [OF div_le_dividend])

lemma w32_mod: "x < 2 ^ 32 \<Longrightarrow> y < 2 ^ 32 \<Longrightarrow> w32 x mod w32 y = w32 (x mod y)"
  by (rule unsigned_word_eqI [where ?'a = nat])
    (simp add: unat_mod unat_w32, subst unat_w32, simp_all add: order.strict_trans1 [OF mod_less_eq_dividend])

lemma w32_eq: "x < 2 ^ 32 \<Longrightarrow> y < 2 ^ 32 \<Longrightarrow> w32 x = w32 y \<longleftrightarrow> x = y"
  by (metis unat_w32)

lemma w32_le: "x < 2 ^ 32 \<Longrightarrow> y < 2 ^ 32 \<Longrightarrow> w32 x \<le> w32 y \<longleftrightarrow> x \<le> y"
  by (simp add: word_le_nat_alt unat_w32)

lemma w32_sub: "y \<le> x \<Longrightarrow> w32 x - w32 y = w32 (x - y)"
  by (simp add: of_nat_diff)

text \<open>The division by 1461 as a multiplication.\<close>

lemma multiply_for_division:
  fixes r :: nat
  assumes "r < 146100"
  shows "2939745 * r div 2 ^ 32 = r div 1461" and "2939745 * r mod 2 ^ 32 div 2939745 = r mod 1461"
proof -
  define q k where "q = r div 1461" and "k = r mod 1461"
  have r: "r = 1461 * q + k" "k < 1461" by (simp_all add: q_def k_def)
  have q: "q < 100" using assms by (simp add: q_def less_mult_imp_div_less)
  have prod: "2939745 * r = 2 ^ 32 * q + (149 * q + 2939745 * k)" unfolding r(1) by simp
  have small: "149 * q + 2939745 * k < 2 ^ 32" using r(2) q by simp
  show "2939745 * r div 2 ^ 32 = r div 1461"
    unfolding prod q_def [symmetric] using small by (subst div_mult_self4) simp_all
  have "2939745 * r mod 2 ^ 32 = 149 * q + 2939745 * k"
    unfolding prod using small by (subst mod_mult_self4) simp_all
  also have "\<dots> div 2939745 = k" using q by (simp add: add.commute)
  finally show "2939745 * r mod 2 ^ 32 div 2939745 = r mod 1461" by (simp add: k_def)
qed

lemma ucast_w32: "ucast (x :: 64 word) = w32 (unat x)"
  by (rule unsigned_word_eqI [where ?'a = nat]) (simp add: unsigned_ucast_eq unsigned_of_nat)

lemma upper_lower_32:
  fixes x :: nat
  assumes "x < 2 ^ 64"
  shows "upper_32_bits (word_of_nat x) = w32 (x div 2 ^ 32)" and "lower_32_bits (word_of_nat x) = w32 (x mod 2 ^ 32)"
proof -
  have u: "unat (word_of_nat x :: u64) = x" using assms by (simp add: unsigned_of_nat take_bit_nat_eq_self)
  have lt: "x div 2 ^ 32 < 2 ^ 32" using assms by (intro less_mult_imp_div_less) simp
  have "unat (drop_bit 16 (drop_bit 16 (word_of_nat x :: u64))) = x div 2 ^ 32"
    unfolding unat_drop_bit_eq u drop_bit_drop_bit by (simp add: drop_bit_eq_div)
  then show "upper_32_bits (word_of_nat x) = w32 (x div 2 ^ 32)"
    by (simp add: upper_32_bits_def ucast_w32)
  have "(0xffffffff :: u64) = mask 32" by (simp add: mask_eq_exp_minus_1)
  then have "(word_of_nat x :: u64) AND 0xffffffff = take_bit 32 (word_of_nat x)" by (simp add: take_bit_eq_mask)
  then have "unat ((word_of_nat x :: u64) AND 0xffffffff) = x mod 2 ^ 32"
    by (simp only: unsigned_take_bit_eq u) (simp add: take_bit_eq_mod)
  then show "lower_32_bits (word_of_nat x) = w32 (x mod 2 ^ 32)"
    by (simp add: lower_32_bits_def ucast_w32)
qed

lemma low_half: "t < 2 ^ 32 \<Longrightarrow> (ucast (ucast (w32 t) :: u16) :: u32) = w32 (t mod 65536)"
  by (rule unsigned_word_eqI [where ?'a = nat])
    (simp add: unsigned_ucast_eq unat_w32 take_bit_eq_mod unsigned_of_nat)

lemma high_half:
  assumes "t < 2 ^ 32"
  shows "drop_bit 16 (w32 t) = w32 (t div 65536)"
proof (rule unsigned_word_eqI [where ?'a = nat])
  have "t div 65536 < 2 ^ 32" using assms by (intro order.strict_trans1 [OF div_le_dividend])
  then show "unat (drop_bit 16 (w32 t)) = unat (w32 (t div 65536))"
    unfolding unat_drop_bit_eq unat_w32 [OF assms] by (simp add: unat_w32 drop_bit_eq_div)
qed

lemma w32_div_num: "x < 2 ^ 32 \<Longrightarrow> (numeral k :: nat) < 2 ^ 32 \<Longrightarrow> w32 x div numeral k = w32 (x div numeral k)"
  using w32_div [of x "numeral k"] by simp

lemma w32_mod_num: "x < 2 ^ 32 \<Longrightarrow> (numeral k :: nat) < 2 ^ 32 \<Longrightarrow> w32 x mod numeral k = w32 (x mod numeral k)"
  using w32_mod [of x "numeral k"] by simp

lemma seconds_split:
  assumes "0 \<le> sint time"
  shows "(word_of_int (sint time sdiv 86400) :: u32) = w32 (unat time div 86400)"
    and "(word_of_int (sint (time :: 64 word) smod 86400) :: u32) = w32 (unat time mod 86400)"
proof -
  have u: "sint time = int (unat time)" 
  proof -
    have "sint time < 2 ^ 64" using sint_lt [of time] by (rule less_trans) simp
    with assms have "take_bit 64 (sint time) = sint time" by (intro take_bit_int_eq_self)
    moreover have "uint time = take_bit 64 (sint time)" using unsigned_of_int [where ?'a = int and ?'b = 64, of "sint time"] by simp
    ultimately show ?thesis unfolding uint_nat by metis
  qed
  have "int k sdiv 86400 = int (k div 86400)" "int k smod 86400 = int (k mod 86400)" for k
    by (cases k; simp add: signed_modulo_int_def signed_divide_int_def zdiv_int zmod_int minus_div_mult_eq_mod)+
  then show "(word_of_int (sint time sdiv 86400) :: u32) = w32 (unat time div 86400)"
    and "(word_of_int (sint time smod 86400) :: u32) = w32 (unat time mod 86400)"
    unfolding u by (simp_all only: of_int_of_nat_eq)
qed

lemma weekday:
  assumes "n + 4 < 2 ^ 31"
  shows "(word_of_int (sint (w32 n + 4) smod 7) :: u32) = w32 ((n + 4) mod 7)"
proof -
  have "w32 n + 4 = w32 (n + 4)" by simp
  moreover have un: "unat (w32 (n + 4)) = n + 4" by (rule unat_w32) (use assms in simp)
  moreover have "sint (w32 (n + 4)) = int (n + 4)" using sint_small [of "w32 (n + 4)"] assms unfolding un by blast
  moreover have "int (n + 4) smod 7 = int ((n + 4) mod 7)"
    by (simp add: signed_modulo_int_def signed_divide_int_def minus_div_mult_eq_mod zmod_int)
  ultimately show ?thesis by (simp only: of_int_of_nat_eq)
qed

lemma rtc_time64_to_tm_eq:
  assumes "0 \<le> sint time" and "unat time div 86400 < 2 ^ 30 - 719468" and "date_of (unat time div 86400) = (y, m, d, yd)"
  shows "rtc_time64_to_tm time =
    (let s = unat time mod 86400
     in \<lparr>tm_sec = w32 (s mod 3600 mod 60), tm_min = w32 (s mod 3600 div 60), tm_hour = w32 (s div 3600), tm_mday = w32 d, tm_mon = w32 m,
         tm_year = w32 y - 1900, tm_wday = w32 ((unat time div 86400 + 4) mod 7), tm_yday = w32 yd, tm_isdst = 0\<rparr>)"
proof -
  define n s where "n = unat time div 86400" and "s = unat time mod 86400"
  define u where "u = n + 719468"
  define c where "c = (4 * u + 3) div 146097"
  define dc where "dc = (4 * u + 3) mod 146097 div 4"
  define yc where "yc = (4 * dc + 3) div 1461"
  define e where "e = (4 * dc + 3) mod 1461 div 4"
  define t where "t = 2141 * e + 132377"
  note C = split_century [of u, folded c_def dc_def]
  note Y = split_year [OF C(2), folded yc_def e_def]
  have n: "u < 2 ^ 30" using assms(2) by (simp add: n_def u_def)
  have b: "4 * u + 3 < 2 ^ 32" using n by simp
  have c: "c < 2 ^ 32" using b unfolding c_def by (rule order.strict_trans1 [OF div_le_dividend])
  have big: "4 * dc + 3 < 146100" using C(2) by simp
  have tb: "t < 2 ^ 32" using Y(2) by (simp add: t_def)
  have u: "w32 n + 719468 = w32 u" by (simp add: u_def)
  have n1: "4 * w32 u + 3 = w32 (4 * u + 3)" by simp
  have cw: "w32 (4 * u + 3) div 146097 = w32 c" unfolding c_def by (rule w32_div_num [OF b]) simp
  have dw: "w32 (4 * u + 3) mod 146097 div 4 = w32 dc"
    unfolding dc_def by (subst w32_mod_num [OF b], simp, rule w32_div_num) (simp_all add: order.strict_trans1 [OF mod_less_eq_dividend b])
  have n2: "4 * w32 dc + 3 = w32 (4 * dc + 3)" by simp
  have "(ucast (w32 (4 * dc + 3)) :: u64) = word_of_nat (4 * dc + 3)"
    using big by (intro unsigned_word_eqI [where ?'a = nat]) (simp add: unat_ucast_up unat_w32 unsigned_of_nat take_bit_nat_eq_self del: of_nat_add of_nat_mult)
  then have u64: "2939745 * (ucast (w32 (4 * dc + 3)) :: u64) = word_of_nat (2939745 * (4 * dc + 3))" by simp
  have x64: "2939745 * (4 * dc + 3) < 2 ^ 64" using big by simp
  have up: "upper_32_bits (word_of_nat (2939745 * (4 * dc + 3))) = w32 yc"
    unfolding upper_lower_32(1) [OF x64] multiply_for_division(1) [OF big] yc_def ..
  have lo: "lower_32_bits (word_of_nat (2939745 * (4 * dc + 3))) div 2939745 div 4 = w32 e"
  proof -
    have "2939745 * (4 * dc + 3) mod 2 ^ 32 < 2 ^ 32" by simp
    then have "lower_32_bits (word_of_nat (2939745 * (4 * dc + 3))) div 2939745 = w32 ((4 * dc + 3) mod 1461)"
      unfolding upper_lower_32(2) [OF x64] by (subst w32_div_num) (simp_all only: multiply_for_division(2) [OF big], simp)
    moreover have "(4 * dc + 3) mod 1461 < 2 ^ 32" by (rule less_trans [of _ 1461]) simp_all
    ultimately show ?thesis using w32_div_num [of "(4 * dc + 3) mod 1461" "num.Bit0 (num.Bit0 num.One)"] by (simp only: e_def) simp
  qed
  have yw: "100 * w32 c + w32 yc = w32 (100 * c + yc)" by simp
  have z: "w32 x mod 4 = 0 \<longleftrightarrow> x mod 4 = 0" "w32 x = 0 \<longleftrightarrow> x = 0" if "x < 2 ^ 32" for x
    using w32_mod [OF that, of 4] w32_eq [of "x mod 4" 0] w32_eq [of x 0] that by simp_all
  have lw: "(if w32 yc \<noteq> 0 then w32 yc mod 4 = 0 else w32 c mod 4 = 0) \<longleftrightarrow> (if yc \<noteq> 0 then yc mod 4 = 0 else c mod 4 = 0)"
    using z [of yc] z [OF c] Y(4) by simp
  have tw: "2141 * w32 e + 132377 = w32 t" by (simp add: t_def)
  have kw: "(ucast (ucast (w32 t) :: u16) :: u32) div 2141 = w32 (t mod 65536 div 2141)"
    unfolding low_half [OF tb] by (rule w32_div_num) (simp_all add: less_trans [of _ 65536])
  have ew: "w32 e \<ge> 306 \<longleftrightarrow> 306 \<le> e" using w32_le [of 306 e] Y(2) by simp
  have mw: "w32 (t div 65536) - 12 = w32 (t div 65536 - 12)" if "306 \<le> e" using that w32_sub [of 12 "t div 65536"] by (simp add: t_def)
  have hw: "w32 s div 3600 = w32 (s div 3600)" "w32 s - w32 (s div 3600) * 3600 = w32 (s mod 3600)"
      "w32 (s mod 3600) div 60 = w32 (s mod 3600 div 60)" "w32 (s mod 3600) - w32 (s mod 3600 div 60) * 60 = w32 (s mod 3600 mod 60)"
  proof -
    have s: "s < 86400" by (simp add: s_def)
    show h: "w32 s div 3600 = w32 (s div 3600)" using s by (intro w32_div_num) simp_all
    have "w32 (s div 3600) * 3600 = w32 (s div 3600 * 3600)" by simp
    then show "w32 s - w32 (s div 3600) * 3600 = w32 (s mod 3600)"
      using w32_sub [of "s div 3600 * 3600" s] by (simp add: minus_div_mult_eq_mod)
    show "w32 (s mod 3600) div 60 = w32 (s mod 3600 div 60)" by (intro w32_div_num) (simp_all add: less_trans [of _ 3600])
    have "w32 (s mod 3600 div 60) * 60 = w32 (s mod 3600 div 60 * 60)" by simp
    then show "w32 (s mod 3600) - w32 (s mod 3600 div 60) * 60 = w32 (s mod 3600 mod 60)"
      using w32_sub [of "s mod 3600 div 60 * 60" "s mod 3600"] by (simp add: minus_div_mult_eq_mod)
  qed
  have date: "(y, m, d, yd) = (if 306 \<le> e then (100 * c + yc + 1, t div 65536 - 12, t mod 65536 div 2141 + 1, e - 306 + 1)
         else (100 * c + yc, t div 65536, t mod 65536 div 2141 + 1, e + 59 + (if (if yc \<noteq> 0 then yc mod 4 = 0 else c mod 4 = 0) then 1 else 0) + 1))"
    using assms(3) unfolding date_of_def Let_def n_def [symmetric] u_def [symmetric] c_def [symmetric] dc_def [symmetric]
      yc_def [symmetric] e_def [symmetric] t_def [symmetric] by (rule sym)
  note words = seconds_split [OF assms(1), folded n_def s_def] u n1 cw dw n2 u64 up lo yw lw tw high_half [OF tb] kw ew hw
  have wd: "(word_of_int (sint (w32 n + 4) smod 7) :: u32) = w32 ((n + 4) mod 7)" using n by (intro weekday) (simp add: u_def)
  show ?thesis
  proof (cases "306 \<le> e")
    case True
    then have "w32 e - 306 = w32 (e - 306)" using w32_sub [of 306 e] by simp
    with True date mw show ?thesis
      unfolding rtc_time64_to_tm_def Let_def n_def [symmetric] s_def [symmetric] words wd by (simp add: add.commute)
  next
    case False
    with date show ?thesis
      unfolding rtc_time64_to_tm_def Let_def n_def [symmetric] s_def [symmetric] words wd by (simp add: add.commute)
  qed
qed

section \<open>Valid dates\<close>

lemma is_leap_year_eq:
  assumes "y < 2 ^ 32"
  shows "is_leap_year (w32 y) \<longleftrightarrow> leap y"
proof -
  have "w32 y mod numeral k = 0 \<longleftrightarrow> numeral k dvd y" if "(numeral k :: nat) < 2 ^ 32" for k
  proof -
    have "y mod numeral k < 2 ^ 32" using assms by (rule order.strict_trans1 [OF mod_less_eq_dividend])
    then show ?thesis using w32_mod_num [OF assms that] w32_eq [of "y mod numeral k" 0] by (simp add: dvd_eq_mod_eq_0)
  qed
  then show ?thesis by (simp add: is_leap_year_def leap_def)
qed

lemma twelve_months:
  assumes "m < (12 :: nat)"
  shows "m = 0 \<or> m = 1 \<or> m = 2 \<or> m = 3 \<or> m = 4 \<or> m = 5 \<or> m = 6 \<or> m = 7 \<or> m = 8 \<or> m = 9 \<or> m = 10 \<or> m = 11"
proof -
  have "m \<in> set [0..<12]" using assms by (simp only: set_upt atLeastLessThan_iff) simp
  also have "[0..<12] = [0, 1, 2, 3, 4, 5, 6, 7, 8, 9, 10, 11 :: nat]" by (simp add: upt_rec)
  finally show ?thesis by (simp only: list.set) blast
qed

lemma rtc_month_days_eq:
  assumes "y < 2 ^ 32" and "m < 12"
  shows "rtc_month_days (w32 m) (w32 y) = Some (w32 (month_lens (leap y) ! m))"
  using twelve_months [OF assms(2)] unfolding rtc_month_days_def is_leap_year_eq [OF assms(1)]
  by (elim disjE) (simp_all add: rtc_days_in_month_def month_lens_def)

lemma month_start_le: "m < 12 \<Longrightarrow> month_start l m \<le> 335"
  by (drule twelve_months) (elim disjE; simp add: month_start_def month_lens_def)

lemma month_lens_le: "m < 12 \<Longrightarrow> month_lens l ! m \<le> 31"
proof -
  assume "m < 12"
  then have "month_lens l ! m \<in> set (month_lens l)" by (intro nth_mem) (simp add: month_lens_def)
  then show ?thesis by (auto simp: month_lens_def)
qed

lemma year_start_ge: "1970 \<le> y \<Longrightarrow> 365 * (y - 1970) \<le> year_start y"
  by (induction y rule: nat_induct_at_least) (auto simp: year_start_def Suc_diff_le)

lemma date_bounds:
  assumes "is_date n y m d" and "n < 2 ^ 30"
  shows "y < 2 ^ 22" and "1970 \<le> y" and "m < 12" and "1 \<le> d" and "d \<le> month_lens (leap y) ! m" and "d \<le> 31"
proof -
  show y: "1970 \<le> y" and m: "m < 12" "1 \<le> d" "d \<le> month_lens (leap y) ! m" using assms(1) by (simp_all add: is_date_def)
  have "year_start y \<le> n" using assms(1) unfolding is_date_def by linarith
  then have "365 * (y - 1970) < 2 ^ 30" using year_start_ge [OF y] assms(2) by linarith
  then show "y < 2 ^ 22" by simp
  show "d \<le> 31" using m(3) month_lens_le [OF m(1)] by (rule order_trans)
qed

lemma sint_w32: "x < 2 ^ 31 \<Longrightarrow> sint (w32 x) = int x"
  using sint_small [of "w32 x"] unat_w32 [of x] by simp

text \<open>
  C31: The conversion of seconds gives the date of the Gregorian calendar: the year, the month and the day are
  those that counting off years and months from 1970 on reaches, the day of the year, the day of the week
  and the time of the day belong to them, and the date is valid.
\<close>

theorem rtc_time64_to_tm_correct:
  assumes "0 \<le> sint time" and "unat time div 86400 < 2 ^ 30 - 719468" and "tm = rtc_time64_to_tm time"
  shows "is_date (unat time div 86400) (unat (tm_year tm + 1900)) (unat (tm_mon tm)) (unat (tm_mday tm))
    \<and> unat (tm_yday tm) = month_start (leap (unat (tm_year tm + 1900))) (unat (tm_mon tm)) + unat (tm_mday tm)
    \<and> unat (tm_wday tm) = (unat time div 86400 + 4) mod 7
    \<and> unat time mod 86400 = 3600 * unat (tm_hour tm) + 60 * unat (tm_min tm) + unat (tm_sec tm)
    \<and> rtc_valid_tm tm = 0"
proof -
  define n s where "n = unat time div 86400" and "s = unat time mod 86400"
  obtain y m d yd where date: "date_of n = (y, m, d, yd)" by (metis surj_pair)
  note ok = date_of_correct [OF date]
  have n: "n < 2 ^ 30" using assms(2) by (simp add: n_def)
  note b = date_bounds [OF ok(1) n]
  have tm: "tm = \<lparr>tm_sec = w32 (s mod 3600 mod 60), tm_min = w32 (s mod 3600 div 60), tm_hour = w32 (s div 3600), tm_mday = w32 d,
      tm_mon = w32 m, tm_year = w32 y - 1900, tm_wday = w32 ((n + 4) mod 7), tm_yday = w32 yd, tm_isdst = 0\<rparr>"
    unfolding assms(3) rtc_time64_to_tm_eq [OF assms(1,2) date [unfolded n_def]] Let_def s_def n_def ..
  have s: "s < 86400" by (simp add: s_def)
  have small: "s mod 3600 mod 60 < 60" "s mod 3600 div 60 < 60" "s div 3600 < 24" using s by (simp_all add: less_mult_imp_div_less)
  have sum: "s = 3600 * (s div 3600) + 60 * (s mod 3600 div 60) + s mod 3600 mod 60" by simp
  define q where "q = y - 1900"
  have year: "tm_year tm + 1900 = w32 y" "tm_year tm = w32 q" using w32_sub [of 1900 y] b(2) by (simp_all add: tm q_def)
  have mod7: "(n + 4) mod 7 < 7" by simp
  have "y < 2 ^ 32" "m < 2 ^ 32" "d < 2 ^ 32" "yd < 2 ^ 32" "(n + 4) mod 7 < 2 ^ 32" "s div 3600 < 2 ^ 32" "s mod 3600 div 60 < 2 ^ 32"
      "s mod 3600 mod 60 < 2 ^ 32" "q < 2 ^ 31" "q < 2 ^ 32" "70 \<le> q"
    using b(1) apply simp
    using b(3) apply simp
    using b(6) apply simp
    using b(6) ok(2) month_start_le [OF b(3), of "leap y"] apply simp
    using mod7 apply simp
    using small apply simp_all[3]
    using b(1,2) apply (simp_all add: q_def)
    done
  note lt = this
  note un = lt(1-8) [THEN unat_w32] unat_w32 [OF lt(10)]
  have len: "month_lens (leap y) ! m < 2 ^ 31" "d < 2 ^ 31" using month_lens_le [OF b(3), of "leap y"] b(6) by simp_all
  have f: "tm_mon tm = w32 m" "tm_mday tm = w32 d" "tm_hour tm = w32 (s div 3600)" "tm_min tm = w32 (s mod 3600 div 60)"
      "tm_sec tm = w32 (s mod 3600 mod 60)" "tm_yday tm = w32 yd" "tm_wday tm = w32 ((n + 4) mod 7)" by (simp_all add: tm)
  have "q < 2 ^ 22" using b(1) by (simp add: q_def)
  then have valid: "rtc_valid_tm tm = 0"
    unfolding rtc_valid_tm_def year(1) f rtc_month_days_eq [OF lt(1) b(3)] option.case
    unfolding year(2) word_le_nat_alt un sint_w32 [OF lt(9)] sint_w32 [OF len(1)] sint_w32 [OF len(2)]
    using b small lt(11) by (simp add: not_le not_less)
  show ?thesis
    unfolding year(1) f un n_def [symmetric] s_def [symmetric] by (intro conjI ok valid refl) (rule sum)
qed

theorem rtc_time64_to_tm_correct_witness:
  "is_date 19782 (unat (tm_year (rtc_time64_to_tm 1709210096) + 1900)) (unat (tm_mon (rtc_time64_to_tm 1709210096)))
      (unat (tm_mday (rtc_time64_to_tm 1709210096)))
    \<and> rtc_valid_tm (rtc_time64_to_tm 1709210096) = 0"
  using rtc_time64_to_tm_correct [of 1709210096 "rtc_time64_to_tm 1709210096"] by simp

text \<open>
  When \<open>mktime64\<close> does what it is documented to do, gives the seconds from 1970 on for a date and a time, a
  conversion to a date and back returns the seconds.
\<close>

theorem rtc_time_roundtrip:
  assumes "0 \<le> sint time" and "unat time div 86400 < 2 ^ 30 - 719468"
    and "\<And>n y m d hh mi s. is_date n y m d \<Longrightarrow> n < 2 ^ 30 \<Longrightarrow> hh < 24 \<Longrightarrow> mi < 60 \<Longrightarrow> s < 60 \<Longrightarrow>
      mktime64 (w32 y) (w32 (m + 1)) (w32 d) (w32 hh) (w32 mi) (w32 s) = word_of_nat (86400 * n + 3600 * hh + 60 * mi + s)"
  shows "rtc_tm_to_time64 mktime64 (rtc_time64_to_tm time) = time"
proof -
  define n s where "n = unat time div 86400" and "s = unat time mod 86400"
  obtain y m d yd where date: "date_of n = (y, m, d, yd)" by (metis surj_pair)
  have n: "n < 2 ^ 30" using assms(2) by (simp add: n_def)
  have s: "s < 86400" by (simp add: s_def)
  have small: "s mod 3600 mod 60 < 60" "s mod 3600 div 60 < 60" "s div 3600 < 24" using s by (simp_all add: less_mult_imp_div_less)
  have "rtc_tm_to_time64 mktime64 (rtc_time64_to_tm time)
      = mktime64 (w32 y) (w32 (m + 1)) (w32 d) (w32 (s div 3600)) (w32 (s mod 3600 div 60)) (w32 (s mod 3600 mod 60))"
    unfolding rtc_time64_to_tm_eq [OF assms(1,2) date [unfolded n_def]] Let_def s_def [symmetric]
    by (simp add: rtc_tm_to_time64_def add.commute)
  also have "\<dots> = word_of_nat (86400 * n + 3600 * (s div 3600) + 60 * (s mod 3600 div 60) + s mod 3600 mod 60)"
    by (rule assms(3) [OF date_of_correct(1) [OF date] n small(3,2,1)])
  also have "86400 * n + 3600 * (s div 3600) + 60 * (s mod 3600 div 60) + s mod 3600 mod 60 = unat time"
    by (simp add: n_def s_def add.assoc)
  finally show ?thesis by simp
qed

text \<open>A function that counts as documented.\<close>

definition counting_mktime64 :: "u32 \<Rightarrow> u32 \<Rightarrow> u32 \<Rightarrow> u32 \<Rightarrow> u32 \<Rightarrow> u32 \<Rightarrow> 64 word" where
  "counting_mktime64 year mon day hour mins sec =
     word_of_nat (86400 * (year_start (unat year) + month_start (leap (unat year)) (unat mon - 1) + (unat day - 1))
       + 3600 * unat hour + 60 * unat mins + unat sec)"

lemma counting_mktime64_eq:
  assumes "is_date n y m d" and "n < 2 ^ 30" and "hh < 24" and "mi < 60" and "s < 60"
  shows "counting_mktime64 (w32 y) (w32 (m + 1)) (w32 d) (w32 hh) (w32 mi) (w32 s) = word_of_nat (86400 * n + 3600 * hh + 60 * mi + s)"
proof -
  note b = date_bounds [OF assms(1,2)]
  have "y < 2 ^ 32" "m + 1 < 2 ^ 32" "d < 2 ^ 32" "hh < 2 ^ 32" "mi < 2 ^ 32" "s < 2 ^ 32"
    using b(1) apply simp
    using b(3,6) assms(3-) apply simp_all
    done
  note un = this [THEN unat_w32]
  have "n = year_start y + month_start (leap y) m + (d - 1)" using assms(1) by (simp add: is_date_def)
  then show ?thesis unfolding counting_mktime64_def un by simp
qed

theorem rtc_time_roundtrip_witness:
  "rtc_tm_to_time64 counting_mktime64 (rtc_time64_to_tm 1709210096) = 1709210096"
proof (rule rtc_time_roundtrip [where ?mktime64.0 = counting_mktime64])
  show "counting_mktime64 (w32 y) (w32 (m + 1)) (w32 d) (w32 hh) (w32 mi) (w32 s) = word_of_nat (86400 * n + 3600 * hh + 60 * mi + s)"
    if "is_date n y m d" "n < 2 ^ 30" "hh < 24" "mi < 60" "s < 60" for n y m d hh mi s
    by (rule counting_mktime64_eq [OF that])
qed simp_all

end
