(* ===== verification/Kstrtox.thy ===== *)
theory Kstrtox
  imports Prelude
begin

text \<open>
  Numbers in strings, \<open>lib/src/linux/kstrtox.c\<close>, with the character table of \<open>lib/src/linux/ctype.c\<close>.  A string is
  the list of its characters without the terminator, and the first character of a rest of it is 0 behind
  the last one; the sources never read behind the terminator.  A function returns an error number or the
  value that it stores.
\<close>

section \<open>Characters\<close>

abbreviation (input) CT_U :: u8 where "CT_U \<equiv> 0x01"
abbreviation (input) CT_L :: u8 where "CT_L \<equiv> 0x02"
abbreviation (input) CT_D :: u8 where "CT_D \<equiv> 0x04"
abbreviation (input) CT_C :: u8 where "CT_C \<equiv> 0x08"
abbreviation (input) CT_P :: u8 where "CT_P \<equiv> 0x10"
abbreviation (input) CT_S :: u8 where "CT_S \<equiv> 0x20"
abbreviation (input) CT_X :: u8 where "CT_X \<equiv> 0x40"
abbreviation (input) CT_SP :: u8 where "CT_SP \<equiv> 0x80"

definition ctype_table :: "u8 list" where
  "ctype_table =
     replicate 8 CT_C @ [CT_C] @ replicate 5 (CT_C OR CT_S) @ replicate 2 CT_C @ replicate 16 CT_C @
     [CT_S OR CT_SP] @ replicate 15 CT_P @
     replicate 10 CT_D @ replicate 6 CT_P @
     [CT_P] @ replicate 6 (CT_U OR CT_X) @ replicate 20 CT_U @ replicate 5 CT_P @
     [CT_P] @ replicate 6 (CT_L OR CT_X) @ replicate 20 CT_L @ replicate 4 CT_P @ [CT_C] @
     replicate 32 0 @
     [CT_S OR CT_SP] @ replicate 31 CT_P @
     replicate 23 CT_U @ [CT_P] @ replicate 7 CT_U @ [CT_L] @
     replicate 23 CT_L @ [CT_P] @ replicate 8 CT_L"

definition isxdigit :: "u8 \<Rightarrow> bool" where
  "isxdigit c \<longleftrightarrow> ctype_table ! unat c AND (CT_D OR CT_X) \<noteq> 0"

definition tolower_fast :: "u8 \<Rightarrow> u8" where
  "tolower_fast c = c OR 0x20"

definition first_char :: "u8 list \<Rightarrow> u8" where
  "first_char s = (case s of [] \<Rightarrow> 0 | c # _ \<Rightarrow> c)"

section \<open>Parsing\<close>

abbreviation (input) KSTRTOX_OVERFLOW :: u32 where "KSTRTOX_OVERFLOW \<equiv> 0x80000000"
abbreviation (input) ULLONG_MAX :: u64 where "ULLONG_MAX \<equiv> 0xffffffffffffffff"

definition parse_integer_fixup_radix :: "u8 list \<Rightarrow> u32 \<Rightarrow> u8 list \<times> u32" where
  "parse_integer_fixup_radix s base =
     (let base = (if base = 0
                  then if first_char s = 48
                       then if tolower_fast (first_char (drop 1 s)) = 120 \<and> isxdigit (first_char (drop 2 s)) then 16 else 8
                       else 10
                  else base);
          s = (if base = 16 \<and> first_char s = 48 \<and> tolower_fast (first_char (drop 1 s)) = 120 then drop 2 s else s)
      in (s, base))"

text \<open>
  The value of a digit; \<open>c\<close> is the character as an \<open>unsigned int\<close>.  Whether \<open>char\<close> is signed makes no
  difference: a character above 127 is no digit in either case.
\<close>

definition digit_of :: "u32 \<Rightarrow> u32 option" where
  "digit_of c =
     (let lc = c OR 0x20
      in if 48 \<le> c \<and> c \<le> 57 then Some (c - 48)
         else if 97 \<le> lc \<and> lc \<le> 102 then Some (lc - 97 + 10)
         else None)"

text \<open>The loop: the number that was read and the count of characters with the overflow bit.\<close>

fun parse_loop :: "u8 list \<Rightarrow> u32 \<Rightarrow> u64 \<Rightarrow> u32 \<Rightarrow> u64 \<Rightarrow> u64 \<times> u32" where
  "parse_loop [] base res rv max_chars = (res, rv)"
| "parse_loop (ch # s) base res rv max_chars =
     (if max_chars = 0 then (res, rv)
      else case digit_of (ucast ch) of
        None \<Rightarrow> (res, rv)
      | Some val \<Rightarrow>
          if val \<ge> base then (res, rv)
          else
            let rv = (if res AND push_bit 60 (NOT 0) \<noteq> 0 \<and> res > (ULLONG_MAX - ucast val) div ucast base
                      then rv OR KSTRTOX_OVERFLOW else rv)
            in parse_loop s base (res * ucast base + ucast val) (rv + 1) (max_chars - 1))"

definition parse_integer_limit :: "u8 list \<Rightarrow> u32 \<Rightarrow> u64 \<Rightarrow> u64 \<times> u32" where
  "parse_integer_limit s base max_chars = parse_loop s base 0 0 max_chars"

definition parse_integer :: "u8 list \<Rightarrow> u32 \<Rightarrow> u64 \<times> u32" where
  "parse_integer s base = parse_integer_limit s base 0x7fffffff"

definition raw_kstrtoull :: "u8 list \<Rightarrow> u32 \<Rightarrow> int + u64" where
  "raw_kstrtoull s base =
     (let (s, base) = parse_integer_fixup_radix s base;
          (res, rv) = parse_integer s base
      in if rv AND KSTRTOX_OVERFLOW \<noteq> 0 then Inl (- ERANGE)
         else if rv = 0 then Inl (- EINVAL)
         else
           let s = drop (unat rv) s;
               s = (if first_char s = 10 then drop 1 s else s)
           in if first_char s \<noteq> 0 then Inl (- EINVAL) else Inr res)"

definition kstrtoull :: "u8 list \<Rightarrow> u32 \<Rightarrow> int + u64" where
  "kstrtoull s base = raw_kstrtoull (if first_char s = 43 then drop 1 s else s) base"

definition kstrtoll :: "u8 list \<Rightarrow> u32 \<Rightarrow> int + 64 word" where
  "kstrtoll s base =
     (if first_char s = 45
      then case raw_kstrtoull (drop 1 s) base of
        Inl err \<Rightarrow> Inl err
      | Inr tmp \<Rightarrow> if sint (- tmp) > 0 then Inl (- ERANGE) else Inr (- tmp)
      else case kstrtoull s base of
        Inl err \<Rightarrow> Inl err
      | Inr tmp \<Rightarrow> if sint tmp < 0 then Inl (- ERANGE) else Inr tmp)"

text \<open>The functions for narrower types compare the number with itself after the conversion.\<close>

definition narrow :: "int + u64 \<Rightarrow> int + 'a::len word" where
  "narrow r = (case r of
     Inl err \<Rightarrow> Inl err
   | Inr tmp \<Rightarrow> if tmp \<noteq> ucast (ucast tmp :: 'a word) then Inl (- ERANGE) else Inr (ucast tmp))"

definition narrow_signed :: "int + 64 word \<Rightarrow> int + 'a::len word" where
  "narrow_signed r = (case r of
     Inl err \<Rightarrow> Inl err
   | Inr tmp \<Rightarrow> if tmp \<noteq> scast (scast tmp :: 'a word) then Inl (- ERANGE) else Inr (scast tmp))"

definition kstrtoul :: "u8 list \<Rightarrow> u32 \<Rightarrow> int + 64 word" where "kstrtoul s base = narrow (kstrtoull s base)"
definition kstrtol :: "u8 list \<Rightarrow> u32 \<Rightarrow> int + 64 word" where "kstrtol s base = narrow_signed (kstrtoll s base)"

text \<open>The argument is \<^const>\<open>None\<close> for \<open>NULL\<close>.\<close>

definition kstrtobool :: "u8 list option \<Rightarrow> int + bool" where
  "kstrtobool s =
     (case s of
        None \<Rightarrow> Inl (- EINVAL)
      | Some s \<Rightarrow>
          if first_char s \<in> {121, 89, 49} then Inr True
          else if first_char s \<in> {110, 78, 48} then Inr False
          else if first_char s \<in> {111, 79}
          then if first_char (drop 1 s) \<in> {110, 78} then Inr True
               else if first_char (drop 1 s) \<in> {102, 70} then Inr False
               else Inl (- EINVAL)
          else Inl (- EINVAL))"

section \<open>The reference: numbers without bounds\<close>

definition digit_value :: "u8 \<Rightarrow> nat option" where
  "digit_value c =
     (if 48 \<le> c \<and> c \<le> 57 then Some (unat (c - 48))
      else if 97 \<le> c \<and> c \<le> 102 then Some (unat (c - 87))
      else if 65 \<le> c \<and> c \<le> 70 then Some (unat (c - 55))
      else None)"


definition number :: "nat \<Rightarrow> nat \<Rightarrow> u8 list \<Rightarrow> nat" where
  "number base n cs = foldl (\<lambda>n c. n * base + the (digit_value c)) n cs"


section \<open>Digits\<close>

lemma all_chars: "(\<forall>i\<in>set [0..255]. P (word_of_int i)) \<Longrightarrow> P (c :: u8)"
proof -
  assume all: "\<forall>i\<in>set [0..255]. P (word_of_int i)"
  have "uint c \<in> set [0..255]" using unsigned_less [where ?'a = int and w = c] by simp
  with all have "P (word_of_int (uint c))" by blast
  then show ?thesis by simp
qed


lemma digit_values_checked: "\<forall>i\<in>set [0..255]. case digit_value (word_of_int i) of None \<Rightarrow> True | Some v \<Rightarrow> v < 16"
  by code_simp

lemma digit_value_less: "digit_value c = Some v \<Longrightarrow> v < 16"
  using all_chars [where P = "\<lambda>c. case digit_value c of None \<Rightarrow> True | Some v \<Rightarrow> v < 16" and c = c] digit_values_checked by simp



section \<open>The overflow check\<close>




section \<open>The loop\<close>


lemma number_Cons: "number b n (c # cs) = number b (n * b + the (digit_value c)) cs"
  by (simp add: number_def)

lemma number_mono: "0 < b \<Longrightarrow> n \<le> number b n cs"
proof (induction cs arbitrary: n)
  case (Cons c cs)
  have "n \<le> n * b + the (digit_value c)" using Cons.prems by (simp add: trans_le_add1)
  also have "\<dots> \<le> number b n (c # cs)" unfolding number_Cons by (rule Cons.IH [OF Cons.prems])
  finally show ?case .
qed (simp add: number_def)


section \<open>Whole strings\<close>














section \<open>Narrower types\<close>





end
