(* ===== verification/HexText.thy ===== *)
theory HexText
  imports Kstrtox "HOL-Library.Monad_Syntax"
begin

text \<open>
  Hexadecimal text, \<open>lib/src/linux/hexdump.c\<close>, and the text form of UUIDs, \<open>lib/src/linux/uuid.c\<close>.  Bytes are
  written to a list in the order of the writes; \<^const>\<open>None\<close> is a read behind the end of the source.
\<close>

section \<open>Hexadecimal text\<close>

definition hex_asc :: "u8 list" where
  "hex_asc = [48, 49, 50, 51, 52, 53, 54, 55, 56, 57, 97, 98, 99, 100, 101, 102]"

text \<open>The characters are promoted to \<open>int\<close>; the shift is one of an \<open>unsigned int\<close>.\<close>

definition hex_to_bin :: "u8 \<Rightarrow> 32 word" where
  "hex_to_bin ch =
     (let c = ucast ch :: 32 word;
          cu = ucast (ch AND 0xdf) :: 32 word
      in - 1
         + ((c - 48 + 1) AND drop_bit 8 ((c - 57 - 1) AND (48 - 1 - c)))
         + ((cu - 65 + 11) AND drop_bit 8 ((cu - 70 - 1) AND (65 - 1 - cu))))"

text \<open>The error number and the bytes that were stored.\<close>

fun hex2bin :: "u8 list \<Rightarrow> nat \<Rightarrow> (int \<times> u8 list) option" where
  "hex2bin src 0 = Some (0, [])"
| "hex2bin (a # b # src) (Suc count) =
     (let hi = hex_to_bin a; lo = hex_to_bin b
      in if sint hi < 0 then Some (- EINVAL, [])
         else if sint lo < 0 then Some (- EINVAL, [])
         else do { (err, dst) \<leftarrow> hex2bin src count; Some (err, ucast (push_bit 4 hi OR lo) # dst) })"
| "hex2bin [a] (Suc count) = (if sint (hex_to_bin a) < 0 then Some (- EINVAL, []) else None)"
| "hex2bin [] (Suc count) = None"

definition hex_byte_pack :: "u8 \<Rightarrow> u8 list" where
  "hex_byte_pack byte = [hex_asc ! unat (drop_bit 4 (byte AND 0xf0)), hex_asc ! unat (byte AND 0x0f)]"

definition bin2hex :: "u8 list \<Rightarrow> u8 list" where
  "bin2hex src = concat (map hex_byte_pack src)"

section \<open>UUIDs\<close>

text \<open>The character at a position of a terminated string.\<close>

definition char_at :: "u8 list \<Rightarrow> nat \<Rightarrow> u8" where
  "char_at s i = first_char (drop i s)"

definition uuid_is_valid :: "u8 list \<Rightarrow> bool" where
  "uuid_is_valid uuid \<longleftrightarrow>
     list_all (\<lambda>i. if i = 8 \<or> i = 13 \<or> i = 18 \<or> i = 23 then char_at uuid i = 45 else isxdigit (char_at uuid i)) [0..<36]"

definition guid_index :: "nat list" where
  "guid_index = [3, 2, 1, 0, 5, 4, 7, 6, 8, 9, 10, 11, 12, 13, 14, 15]"

definition uuid_index :: "nat list" where
  "uuid_index = [0, 1, 2, 3, 4, 5, 6, 7, 8, 9, 10, 11, 12, 13, 14, 15]"

definition uuid_si :: "nat list" where
  "uuid_si = [0, 2, 4, 6, 9, 11, 14, 16, 19, 21, 24, 26, 28, 30, 32, 34]"

definition raw_uuid_parse :: "u8 list \<Rightarrow> u8 list \<Rightarrow> nat list \<Rightarrow> int \<times> u8 list" where
  "raw_uuid_parse uuid b ei =
     (if \<not> uuid_is_valid uuid then (- EINVAL, b)
      else (0, fold (\<lambda>i b.
        let hi = hex_to_bin (char_at uuid (uuid_si ! i + 0));
            lo = hex_to_bin (char_at uuid (uuid_si ! i + 1))
        in b[ei ! i := ucast (push_bit 4 hi OR lo)]) [0..<16] b))"

definition guid_parse :: "u8 list \<Rightarrow> u8 list \<Rightarrow> int \<times> u8 list" where
  "guid_parse uuid u = raw_uuid_parse uuid u guid_index"

definition uuid_parse :: "u8 list \<Rightarrow> u8 list \<Rightarrow> int \<times> u8 list" where
  "uuid_parse uuid u = raw_uuid_parse uuid u uuid_index"

text \<open>The random bytes are left out in the sources; the version and the variant are set.\<close>

definition generate_random_uuid :: "u8 list \<Rightarrow> u8 list" where
  "generate_random_uuid uuid = uuid[6 := (uuid ! 6 AND 0x0F) OR 0x40, 8 := (uuid ! 8 AND 0x3F) OR 0x80]"

definition generate_random_guid :: "u8 list \<Rightarrow> u8 list" where
  "generate_random_guid guid = guid[7 := (guid ! 7 AND 0x0F) OR 0x40, 8 := (guid ! 8 AND 0x3F) OR 0x80]"

definition uuid_gen_common :: "u8 list \<Rightarrow> u8 list" where
  "uuid_gen_common b = b[8 := (b ! 8 AND 0x3F) OR 0x80]"

definition guid_gen :: "u8 list \<Rightarrow> u8 list" where
  "guid_gen lu = (let b = uuid_gen_common lu in b[7 := (b ! 7 AND 0x0F) OR 0x40])"

definition uuid_gen :: "u8 list \<Rightarrow> u8 list" where
  "uuid_gen bu = (let b = uuid_gen_common bu in b[6 := (b ! 6 AND 0x0F) OR 0x40])"

section \<open>Correctness\<close>

text \<open>The branch-free conversion of a digit agrees with the table of values, and is \<open>-1\<close> for other characters.\<close>

lemma hex_digits_checked:
  "\<forall>i\<in>set [0..255]. hex_to_bin (word_of_int i) = (case digit_of (ucast (word_of_int i :: u8)) of None \<Rightarrow> - 1 | Some v \<Rightarrow> v)"
  by code_simp

lemma hex_to_bin_eq: "hex_to_bin c = (case digit_of (ucast c) of None \<Rightarrow> - 1 | Some v \<Rightarrow> v)"
  using all_chars [where P = "\<lambda>c. hex_to_bin c = (case digit_of (ucast c) of None \<Rightarrow> - 1 | Some v \<Rightarrow> v)"] hex_digits_checked by blast

definition hex_hi :: "u8 \<Rightarrow> u8" where "hex_hi b = hex_asc ! unat (drop_bit 4 (b AND 0xf0))"
definition hex_lo :: "u8 \<Rightarrow> u8" where "hex_lo b = hex_asc ! unat (b AND 0x0f)"

lemma hex_byte_pack_eq: "hex_byte_pack b = [hex_hi b, hex_lo b]"
  by (simp add: hex_byte_pack_def hex_hi_def hex_lo_def)

lemma hex_asc_values: "\<forall>i\<in>set [0..15]. hex_to_bin (hex_asc ! nat i) = word_of_int i"
  by code_simp

lemma hex_to_bin_nibble:
  assumes "unat x < 16"
  shows "hex_to_bin (hex_asc ! unat x) = ucast (x :: u8)" and "hex_asc ! unat x \<in> set hex_asc"
proof -
  have "int n \<in> set [0..15]" if "n < 16" for n using that by simp
  from this [OF assms] hex_asc_values have "hex_to_bin (hex_asc ! nat (int (unat x))) = word_of_int (int (unat x))" by blast
  then show "hex_to_bin (hex_asc ! unat x) = ucast x"
    by (metis nat_int unsigned_ucast_eq of_int_of_nat_eq word_of_nat_eq_iff ucast_eq uint_nat)
  show "hex_asc ! unat x \<in> set hex_asc" using assms by (intro nth_mem) (simp add: hex_asc_def)
qed

lemma nibbles_checked: "\<forall>i\<in>set [0..255]. let b = word_of_int i :: u8 in
    ucast (push_bit 4 (ucast (drop_bit 4 (b AND 0xf0)) :: u32) OR ucast (b AND 0x0f)) = b
    \<and> drop_bit 4 (b AND 0xf0) < 16 \<and> b AND 0x0f < 16"
  by code_simp

lemma nibbles:
  "ucast (push_bit 4 (ucast (drop_bit 4 (b AND 0xf0)) :: u32) OR ucast (b AND 0x0f)) = (b :: u8)"
  "unat (drop_bit 4 (b AND 0xf0)) < 16" "unat (b AND 0x0f) < 16"
  using all_chars [where P = "\<lambda>b. ucast (push_bit 4 (ucast (drop_bit 4 (b AND 0xf0)) :: u32) OR ucast (b AND 0x0f)) = b
    \<and> drop_bit 4 (b AND 0xf0) < 16 \<and> b AND 0x0f < 16" and c = b] nibbles_checked
  by (simp_all add: Let_def word_less_nat_alt)

lemma hex_pair:
  "hex_hi b \<in> set hex_asc" "hex_lo b \<in> set hex_asc"
  "ucast (push_bit 4 (hex_to_bin (hex_hi b)) OR hex_to_bin (hex_lo b)) = b"
  using nibbles [of b] by (simp_all only: hex_hi_def hex_lo_def hex_to_bin_nibble)

lemma hex_asc_checked: "list_all (\<lambda>c. isxdigit c \<and> hex_to_bin c < 16 \<and> c \<noteq> 0) hex_asc"
  by code_simp

lemma hex_text_byte:
  "isxdigit (hex_hi b)" "isxdigit (hex_lo b)" "0 \<le> sint (hex_to_bin (hex_hi b))" "0 \<le> sint (hex_to_bin (hex_lo b))"
  "ucast (push_bit 4 (hex_to_bin (hex_hi b)) OR hex_to_bin (hex_lo b)) = b"
proof -
  have small: "0 \<le> sint w" if "w < 16" for w :: u32
    using that sint_small [of w] by (simp add: word_less_nat_alt)
  have c: "isxdigit c" "hex_to_bin c < 16" if "c \<in> set hex_asc" for c using hex_asc_checked that by (auto simp: list_all_iff)
  note p = hex_pair [of b]
  show "isxdigit (hex_hi b)" "isxdigit (hex_lo b)" using p c by auto
  show "0 \<le> sint (hex_to_bin (hex_hi b))" "0 \<le> sint (hex_to_bin (hex_lo b))" using p c(2) small by blast+
  show "ucast (push_bit 4 (hex_to_bin (hex_hi b)) OR hex_to_bin (hex_lo b)) = b" using p by blast
qed

lemma bin2hex_Cons: "bin2hex (b # bs) = hex_hi b # hex_lo b # bin2hex bs"
  by (simp add: bin2hex_def hex_byte_pack_eq)

lemma hex2bin_bin2hex: "hex2bin (bin2hex src @ rest) (length src) = Some (0, src)"
proof (induction src)
  case (Cons b src)
  then show ?case
    using hex_text_byte(3-5) [of b] by (simp add: bin2hex_Cons Let_def)
qed (simp add: bin2hex_def)

text \<open>The text form of a UUID, and the order of its bytes that a GUID has in memory.\<close>

definition uuid_text :: "u8 list \<Rightarrow> u8 list" where
  "uuid_text b =
     bin2hex (take 4 b) @ [45] @ bin2hex (take 2 (drop 4 b)) @ [45] @ bin2hex (take 2 (drop 6 b)) @ [45]
     @ bin2hex (take 2 (drop 8 b)) @ [45] @ bin2hex (drop 10 b)"

definition guid_order :: "u8 list \<Rightarrow> u8 list" where
  "guid_order b = rev (take 4 b) @ rev (take 2 (drop 4 b)) @ rev (take 2 (drop 6 b)) @ drop 8 b"

lemma sixteen:
  assumes "length xs = 16"
  obtains a b c d e f g h i j k l m n p q where "xs = [a, b, c, d, e, f, g, h, i, j, k, l, m, n, p, q]"
  using assms that by (auto simp: numeral_eq_Suc length_Suc_conv)


lemma uuid_text_chars:
  assumes "length b = 16"
  shows "\<forall>i<16. char_at (uuid_text b) (uuid_si ! i) = hex_hi (b ! i) \<and> char_at (uuid_text b) (uuid_si ! i + 1) = hex_lo (b ! i)"
    and "uuid_is_valid (uuid_text b)"
proof -
  from assms obtain b0 b1 b2 b3 b4 b5 b6 b7 b8 b9 b10 b11 b12 b13 b14 b15 where
    b: "b = [b0, b1, b2, b3, b4, b5, b6, b7, b8, b9, b10, b11, b12, b13, b14, b15]" by (rule sixteen)
  have t: "uuid_text b =
      [hex_hi b0, hex_lo b0, hex_hi b1, hex_lo b1, hex_hi b2, hex_lo b2, hex_hi b3, hex_lo b3, 45,
       hex_hi b4, hex_lo b4, hex_hi b5, hex_lo b5, 45, hex_hi b6, hex_lo b6, hex_hi b7, hex_lo b7, 45,
       hex_hi b8, hex_lo b8, hex_hi b9, hex_lo b9, 45, hex_hi b10, hex_lo b10, hex_hi b11, hex_lo b11, hex_hi b12, hex_lo b12,
       hex_hi b13, hex_lo b13, hex_hi b14, hex_lo b14, hex_hi b15, hex_lo b15]"
    by (simp add: b uuid_text_def bin2hex_Cons) (simp add: bin2hex_def)
  have "i < 16 \<longleftrightarrow> i \<in> set [0..<16]" for i :: nat by auto
  moreover have "[0..<16] = [0, 1, 2, 3, 4, 5, 6, 7, 8, 9, 10, 11, 12, 13, 14, 15 :: nat]" by (simp add: upt_rec)
  ultimately have sixteen: "(\<forall>i<16. P i) \<longleftrightarrow> list_all P [0, 1, 2, 3, 4, 5, 6, 7, 8, 9, 10, 11, 12, 13, 14, 15 :: nat]" for P
    unfolding list_all_iff by metis
  show "\<forall>i<16. char_at (uuid_text b) (uuid_si ! i) = hex_hi (b ! i) \<and> char_at (uuid_text b) (uuid_si ! i + 1) = hex_lo (b ! i)"
    unfolding sixteen t by (simp add: uuid_si_def b char_at_def first_char_def)
  show "uuid_is_valid (uuid_text b)"
    unfolding uuid_is_valid_def t by (simp add: upt_rec char_at_def first_char_def hex_text_byte(1,2))
qed

lemma raw_uuid_parse_text:
  assumes "length b = 16"
  shows "raw_uuid_parse (uuid_text b) u ei = (0, fold (\<lambda>i v. v[ei ! i := b ! i]) [0..<16] u)"
proof -
  have "fold (\<lambda>i v. let hi = hex_to_bin (char_at (uuid_text b) (uuid_si ! i + 0)); lo = hex_to_bin (char_at (uuid_text b) (uuid_si ! i + 1))
      in v[ei ! i := ucast (push_bit 4 hi OR lo)]) [0..<16] u = fold (\<lambda>i v. v[ei ! i := b ! i]) [0..<16] u"
    by (rule fold_cong) (use uuid_text_chars(1) [OF assms] hex_text_byte(5) in \<open>simp_all add: Let_def\<close>)
  then show ?thesis by (simp add: raw_uuid_parse_def uuid_text_chars(2) [OF assms])
qed

text \<open>
  C33: Text forms survive the round trip: bytes that are written as hexadecimal digits are read back, whatever
  follows them, the branch-free conversion of one digit agrees with the one by comparisons, and the text
  form of a UUID is valid and gives its bytes again, for a GUID in the order that it has in memory.
\<close>

theorem hex_text_roundtrip:
  "hex2bin (bin2hex src @ rest) (length src) = Some (0, src)
    \<and> hex_to_bin c = (case digit_of (ucast c) of None \<Rightarrow> - 1 | Some v \<Rightarrow> v)
    \<and> (length b = 16 \<and> length u = 16 \<longrightarrow> uuid_is_valid (uuid_text b) \<and> uuid_parse (uuid_text b) u = (0, b)
        \<and> guid_parse (uuid_text b) u = (0, guid_order b))"
proof (intro conjI impI)
  show "hex2bin (bin2hex src @ rest) (length src) = Some (0, src)" by (rule hex2bin_bin2hex)
  show "hex_to_bin c = (case digit_of (ucast c) of None \<Rightarrow> - 1 | Some v \<Rightarrow> v)" by (rule hex_to_bin_eq)
  assume len: "length b = 16 \<and> length u = 16"
  then show "uuid_is_valid (uuid_text b)" by (simp add: uuid_text_chars(2))
  from len obtain b0 b1 b2 b3 b4 b5 b6 b7 b8 b9 b10 b11 b12 b13 b14 b15 where
    b: "b = [b0, b1, b2, b3, b4, b5, b6, b7, b8, b9, b10, b11, b12, b13, b14, b15]" by (auto elim: sixteen)
  from len obtain u0 u1 u2 u3 u4 u5 u6 u7 u8 u9 u10 u11 u12 u13 u14 u15 where
    u: "u = [u0, u1, u2, u3, u4, u5, u6, u7, u8, u9, u10, u11, u12, u13, u14, u15]" by (auto elim: sixteen)
  show "uuid_parse (uuid_text b) u = (0, b)"
    using len by (simp add: uuid_parse_def raw_uuid_parse_text) (simp add: b u uuid_index_def upt_rec)
  show "guid_parse (uuid_text b) u = (0, guid_order b)"
    using len by (simp add: guid_parse_def raw_uuid_parse_text) (simp add: b u guid_index_def guid_order_def upt_rec)
qed

theorem hex_text_roundtrip_witness:
  "uuid_parse (uuid_text [0xde, 0xad, 0xbe, 0xef, 4, 5, 6, 7, 8, 9, 10, 11, 12, 13, 14, 0xff]) (replicate 16 0)
    = (0, [0xde, 0xad, 0xbe, 0xef, 4, 5, 6, 7, 8, 9, 10, 11, 12, 13, 14, 0xff])"
  using hex_text_roundtrip [of "[]" "[]" 0 "[0xde, 0xad, 0xbe, 0xef, 4, 5, 6, 7, 8, 9, 10, 11, 12, 13, 14, 0xff]" "replicate 16 0"] by simp

end
