(* ===== verification/ListHead.thy ===== *)
theory ListHead
  imports Prelude "HOL-Library.Monad_Syntax"
begin

text \<open>
  The circular doubly linked lists of \<open>lib/include/linux/list.h\<close>, on pointers: a \<open>list_head\<close> has an
  address of the type \<open>'p\<close>, and the memory gives the two pointers of every address.  A list that is kept
  this way is a \<open>ring\<close>: following \<open>next\<close> from its head visits the entries and comes back, and \<open>prev\<close> is the
  way back.  Every operation is shown to do on rings what it promises on lists, and to write only there.

  \<open>LIST_POISON1\<close> and \<open>LIST_POISON2\<close>, which \<open>list_del\<close> stores, are an argument, since addresses are
  abstract.  \<open>__list_add_valid\<close> and \<open>__list_del_entry_valid\<close> are true without \<open>CONFIG_DEBUG_LIST\<close>, which the
  configuration does not set; barriers have no effect here.
\<close>

section \<open>The operations\<close>

record 'p links =
  lnext :: "'p \<Rightarrow> 'p"
  lprev :: "'p \<Rightarrow> 'p"

definition set_next :: "'p \<Rightarrow> 'p \<Rightarrow> 'p links \<Rightarrow> 'p links" where
  "set_next p v l = l\<lparr>lnext := (lnext l)(p := v)\<rparr>"

definition set_prev :: "'p \<Rightarrow> 'p \<Rightarrow> 'p links \<Rightarrow> 'p links" where
  "set_prev p v l = l\<lparr>lprev := (lprev l)(p := v)\<rparr>"

definition INIT_LIST_HEAD :: "'p \<Rightarrow> 'p links \<Rightarrow> 'p links" where
  "INIT_LIST_HEAD list l = set_prev list list (set_next list list l)"

definition raw_list_add :: "'p \<Rightarrow> 'p \<Rightarrow> 'p \<Rightarrow> 'p links \<Rightarrow> 'p links" where
  "raw_list_add new prev next l =
     (let l = set_prev next new l;
          l = set_next new next l;
          l = set_prev new prev l
      in set_next prev new l)"

definition list_add :: "'p \<Rightarrow> 'p \<Rightarrow> 'p links \<Rightarrow> 'p links" where
  "list_add new head l = raw_list_add new head (lnext l head) l"

definition list_add_tail :: "'p \<Rightarrow> 'p \<Rightarrow> 'p links \<Rightarrow> 'p links" where
  "list_add_tail new head l = raw_list_add new (lprev l head) head l"

definition raw_list_del :: "'p \<Rightarrow> 'p \<Rightarrow> 'p links \<Rightarrow> 'p links" where
  "raw_list_del prev next l = set_next prev next (set_prev next prev l)"

definition list_del_entry :: "'p \<Rightarrow> 'p links \<Rightarrow> 'p links" where
  "list_del_entry entry l = raw_list_del (lprev l entry) (lnext l entry) l"

definition list_del_clearprev :: "'p \<Rightarrow> 'p \<Rightarrow> 'p links \<Rightarrow> 'p links" where
  "list_del_clearprev null entry l = set_prev entry null (raw_list_del (lprev l entry) (lnext l entry) l)"

definition list_del :: "'p \<times> 'p \<Rightarrow> 'p \<Rightarrow> 'p links \<Rightarrow> 'p links" where
  "list_del poison entry l =
     (let l = list_del_entry entry l;
          l = set_next entry (fst poison) l
      in set_prev entry (snd poison) l)"

definition list_replace :: "'p \<Rightarrow> 'p \<Rightarrow> 'p links \<Rightarrow> 'p links" where
  "list_replace old new l =
     (let l = set_next new (lnext l old) l;
          l = set_prev (lnext l new) new l;
          l = set_prev new (lprev l old) l
      in set_next (lprev l new) new l)"

definition list_replace_init :: "'p \<Rightarrow> 'p \<Rightarrow> 'p links \<Rightarrow> 'p links" where
  "list_replace_init old new l = INIT_LIST_HEAD old (list_replace old new l)"

definition list_swap :: "'p \<times> 'p \<Rightarrow> 'p \<Rightarrow> 'p \<Rightarrow> 'p links \<Rightarrow> 'p links" where
  "list_swap poison entry1 entry2 l =
     (let pos = lprev l entry2;
          l = list_del poison entry2 l;
          l = list_replace entry1 entry2 l;
          pos = (if pos = entry1 then entry2 else pos)
      in list_add entry1 pos l)"

definition list_del_init :: "'p \<Rightarrow> 'p links \<Rightarrow> 'p links" where
  "list_del_init entry l = INIT_LIST_HEAD entry (list_del_entry entry l)"

definition list_move :: "'p \<Rightarrow> 'p \<Rightarrow> 'p links \<Rightarrow> 'p links" where
  "list_move list head l = list_add list head (list_del_entry list l)"

definition list_move_tail :: "'p \<Rightarrow> 'p \<Rightarrow> 'p links \<Rightarrow> 'p links" where
  "list_move_tail list head l = list_add_tail list head (list_del_entry list l)"

definition list_bulk_move_tail :: "'p \<Rightarrow> 'p \<Rightarrow> 'p \<Rightarrow> 'p links \<Rightarrow> 'p links" where
  "list_bulk_move_tail head first last' l =
     (let l = set_next (lprev l first) (lnext l last') l;
          l = set_prev (lnext l last') (lprev l first) l;
          l = set_next (lprev l head) first l;
          l = set_prev first (lprev l head) l;
          l = set_next last' head l
      in set_prev head last' l)"

definition list_is_first :: "'p \<Rightarrow> 'p \<Rightarrow> 'p links \<Rightarrow> bool" where
  "list_is_first list head l \<longleftrightarrow> lprev l list = head"

definition list_is_last :: "'p \<Rightarrow> 'p \<Rightarrow> 'p links \<Rightarrow> bool" where
  "list_is_last list head l \<longleftrightarrow> lnext l list = head"

definition list_is_head :: "'p \<Rightarrow> 'p \<Rightarrow> bool" where
  "list_is_head list head \<longleftrightarrow> list = head"

definition list_empty :: "'p \<Rightarrow> 'p links \<Rightarrow> bool" where
  "list_empty head l \<longleftrightarrow> lnext l head = head"

definition list_del_init_careful :: "'p \<Rightarrow> 'p links \<Rightarrow> 'p links" where
  "list_del_init_careful entry l = set_next entry entry (set_prev entry entry (list_del_entry entry l))"

definition list_empty_careful :: "'p \<Rightarrow> 'p links \<Rightarrow> bool" where
  "list_empty_careful head l \<longleftrightarrow> (let next = lnext l head in list_is_head next head \<and> next = lprev l head)"

definition list_rotate_left :: "'p \<Rightarrow> 'p links \<Rightarrow> 'p links" where
  "list_rotate_left head l = (if list_empty head l then l else list_move_tail (lnext l head) head l)"

definition list_rotate_to_front :: "'p \<Rightarrow> 'p \<Rightarrow> 'p links \<Rightarrow> 'p links" where
  "list_rotate_to_front list head l = list_move_tail head list l"

definition list_is_singular :: "'p \<Rightarrow> 'p links \<Rightarrow> bool" where
  "list_is_singular head l \<longleftrightarrow> \<not> list_empty head l \<and> lnext l head = lprev l head"

definition raw_list_cut_position :: "'p \<Rightarrow> 'p \<Rightarrow> 'p \<Rightarrow> 'p links \<Rightarrow> 'p links" where
  "raw_list_cut_position list head entry l =
     (let new_first = lnext l entry;
          l = set_next list (lnext l head) l;
          l = set_prev (lnext l list) list l;
          l = set_prev list entry l;
          l = set_next entry list l;
          l = set_next head new_first l
      in set_prev new_first head l)"

definition list_cut_position :: "'p \<Rightarrow> 'p \<Rightarrow> 'p \<Rightarrow> 'p links \<Rightarrow> 'p links" where
  "list_cut_position list head entry l =
     (if list_empty head l then l
      else if list_is_singular head l \<and> \<not> list_is_head entry head \<and> entry \<noteq> lnext l head then l
      else if list_is_head entry head then INIT_LIST_HEAD list l
      else raw_list_cut_position list head entry l)"

definition list_cut_before :: "'p \<Rightarrow> 'p \<Rightarrow> 'p \<Rightarrow> 'p links \<Rightarrow> 'p links" where
  "list_cut_before list head entry l =
     (if lnext l head = entry then INIT_LIST_HEAD list l
      else
        let l = set_next list (lnext l head) l;
            l = set_prev (lnext l list) list l;
            l = set_prev list (lprev l entry) l;
            l = set_next (lprev l list) list l;
            l = set_next head entry l
        in set_prev entry head l)"

definition raw_list_splice :: "'p \<Rightarrow> 'p \<Rightarrow> 'p \<Rightarrow> 'p links \<Rightarrow> 'p links" where
  "raw_list_splice list prev next l =
     (let first = lnext l list;
          last = lprev l list;
          l = set_prev first prev l;
          l = set_next prev first l;
          l = set_next last next l
      in set_prev next last l)"

definition list_splice :: "'p \<Rightarrow> 'p \<Rightarrow> 'p links \<Rightarrow> 'p links" where
  "list_splice list head l = (if list_empty list l then l else raw_list_splice list head (lnext l head) l)"

definition list_splice_tail :: "'p \<Rightarrow> 'p \<Rightarrow> 'p links \<Rightarrow> 'p links" where
  "list_splice_tail list head l = (if list_empty list l then l else raw_list_splice list (lprev l head) head l)"

definition list_splice_init :: "'p \<Rightarrow> 'p \<Rightarrow> 'p links \<Rightarrow> 'p links" where
  "list_splice_init list head l =
     (if list_empty list l then l else INIT_LIST_HEAD list (raw_list_splice list head (lnext l head) l))"

definition list_splice_tail_init :: "'p \<Rightarrow> 'p \<Rightarrow> 'p links \<Rightarrow> 'p links" where
  "list_splice_tail_init list head l =
     (if list_empty list l then l else INIT_LIST_HEAD list (raw_list_splice list (lprev l head) head l))"

text \<open>
  The iterations: the entries that the cursor visits, \<^const>\<open>None\<close> for a loop that does not end.  The
  argument is the pointer that is followed.
\<close>

partial_function (option) list_walk :: "('p \<Rightarrow> 'p) \<Rightarrow> 'p \<Rightarrow> 'p \<Rightarrow> 'p list option" where
  "list_walk step head pos =
     (if list_is_head pos head then Some []
      else do { rest \<leftarrow> list_walk step head (step pos); Some (pos # rest) })"

definition list_for_each :: "'p \<Rightarrow> 'p links \<Rightarrow> 'p list option" where
  "list_for_each head l = list_walk (lnext l) head (lnext l head)"

definition list_for_each_continue :: "'p \<Rightarrow> 'p \<Rightarrow> 'p links \<Rightarrow> 'p list option" where
  "list_for_each_continue pos head l = list_walk (lnext l) head (lnext l pos)"

definition list_for_each_prev :: "'p \<Rightarrow> 'p links \<Rightarrow> 'p list option" where
  "list_for_each_prev head l = list_walk (lprev l) head (lprev l head)"

text \<open>The iteration that a body may remove the entry under the cursor from.\<close>

partial_function (option) safe_walk ::
    "('p \<Rightarrow> 'p links \<Rightarrow> 'p links) \<Rightarrow> 'p \<Rightarrow> 'p \<Rightarrow> 'p \<Rightarrow> 'p links \<Rightarrow> 'p links option" where
  "safe_walk body head pos n l =
     (if list_is_head pos head then Some l
      else let l = body pos l in safe_walk body head n (lnext l n) l)"

definition list_for_each_safe :: "('p \<Rightarrow> 'p links \<Rightarrow> 'p links) \<Rightarrow> 'p \<Rightarrow> 'p links \<Rightarrow> 'p links option" where
  "list_for_each_safe body head l = safe_walk body head (lnext l head) (lnext l (lnext l head)) l"

section \<open>Rings\<close>

definition linked :: "'p links \<Rightarrow> 'p \<Rightarrow> 'p \<Rightarrow> bool" where
  "linked l p q \<longleftrightarrow> lnext l p = q \<and> lprev l q = p"

definition seg :: "'p links \<Rightarrow> 'p list \<Rightarrow> bool" where
  "seg l xs \<longleftrightarrow> successively (linked l) xs"

lemma seg_simps [simp]: "seg l []" "seg l [x]" "seg l (x # y # xs) \<longleftrightarrow> linked l x y \<and> seg l (y # xs)"
  by (simp_all add: seg_def)

lemma seg_append: "seg l (xs @ ys) \<longleftrightarrow> seg l xs \<and> seg l ys \<and> (xs = [] \<or> ys = [] \<or> linked l (last xs) (hd ys))"
  by (simp add: seg_def successively_append_iff)

definition ring :: "'p links \<Rightarrow> 'p \<Rightarrow> 'p list \<Rightarrow> bool" where
  "ring l h xs \<longleftrightarrow> distinct (h # xs) \<and> seg l (h # xs @ [h])"

text \<open>All operations come down to making two addresses neighbours.\<close>

definition link :: "'p \<Rightarrow> 'p \<Rightarrow> 'p links \<Rightarrow> 'p links" where
  "link p q l = l\<lparr>lnext := (lnext l)(p := q), lprev := (lprev l)(q := p)\<rparr>"

lemma link_sels [simp]:
  "lnext (link p q l) x = (if x = p then q else lnext l x)"
  "lprev (link p q l) x = (if x = q then p else lprev l x)"
  by (simp_all add: link_def)

lemma set_sels [simp]:
  "lnext (set_next p v l) = (lnext l)(p := v)" "lprev (set_next p v l) = lprev l"
  "lprev (set_prev p v l) = (lprev l)(p := v)" "lnext (set_prev p v l) = lnext l"
  by (simp_all add: set_next_def set_prev_def)

lemma linked_link:
  "linked (link p q l) x y \<longleftrightarrow> (if x = p \<or> y = q then x = p \<and> y = q else linked l x y)"
  by (auto simp: linked_def)

lemma linkedD: "linked l p q \<Longrightarrow> lnext l p = q" "linked l p q \<Longrightarrow> lprev l q = p"
  by (simp_all add: linked_def)

text \<open>What a change outside of a segment leaves alone.\<close>

definition same_at :: "'p set \<Rightarrow> 'p links \<Rightarrow> 'p links \<Rightarrow> bool" where
  "same_at S l l' \<longleftrightarrow> (\<forall>x\<in>S. lnext l' x = lnext l x \<and> lprev l' x = lprev l x)"

lemma seg_link:
  assumes "p \<notin> set (butlast xs)" and "q \<notin> set (tl xs)"
  shows "seg (link p q l) xs \<longleftrightarrow> seg l xs"
  using assms by (induction xs rule: induct_list012) (auto simp: linked_link)

lemma seg_same:
  assumes "same_at (set xs) l l'"
  shows "seg l' xs \<longleftrightarrow> seg l xs"
  using assms unfolding seg_def by (intro successively_cong) (auto simp: same_at_def linked_def)

lemma ring_same: "same_at (set (h # xs)) l l' \<Longrightarrow> ring l' h xs \<longleftrightarrow> ring l h xs"
  using seg_same [of "h # xs @ [h]" l l'] by (simp add: ring_def same_at_def)

lemma seg_split: "seg l (xs @ p # ys) \<longleftrightarrow> seg l (xs @ [p]) \<and> seg l (p # ys)"
  by (induction xs rule: induct_list012) auto

text \<open>A ring may be entered at any of its addresses.\<close>

lemma ring_rotate: "ring l h (xs @ p # ys) \<longleftrightarrow> ring l p (ys @ h # xs)"
  using seg_split [of l "h # xs" p "ys @ [h]"] seg_split [of l "p # ys" h "xs @ [p]"]
  by (auto simp: ring_def)

lemma ring_ends:
  assumes "ring l h xs"
  shows "lnext l h = hd (xs @ [h])" and "lprev l h = last (h # xs)"
proof -
  show "lnext l h = hd (xs @ [h])" using assms by (cases xs) (auto simp: ring_def linked_def)
  show "lprev l h = last (h # xs)"
    using assms seg_append [of l "h # xs" "[h]"] by (auto simp: ring_def linked_def)
qed

lemma ring_at:
  assumes "ring l h (xs @ p # ys)"
  shows "lnext l p = hd (ys @ [h])" and "lprev l p = last (h # xs)"
  using ring_ends [OF assms [unfolded ring_rotate [of l h]]] by (cases ys; auto split: if_splits)+

lemma ring_unique:
  assumes "ring l h xs" and "ring l h ys"
  shows "xs = ys"
proof -
  have "h \<notin> set xs \<Longrightarrow> h \<notin> set ys \<Longrightarrow> seg l (p # xs @ [h]) \<Longrightarrow> seg l (p # ys @ [h]) \<Longrightarrow> xs = ys" for p
  proof (induction xs arbitrary: p ys)
    case Nil
    then show ?case by (cases ys) (auto simp: linked_def)
  next
    case (Cons x xs)
    then obtain y zs where ys: "ys = y # zs" by (cases ys) (auto simp: linked_def)
    with Cons.prems have "y = x" by (auto simp: linked_def)
    with Cons.prems ys Cons.IH [of zs x] show ?case by simp
  qed
  with assms show ?thesis by (auto simp: ring_def)
qed

section \<open>The operations on rings\<close>

text \<open>Which addresses an operation writes.\<close>

abbreviation writes :: "'p set \<Rightarrow> 'p links \<Rightarrow> 'p links \<Rightarrow> bool" where
  "writes S l l' \<equiv> same_at (- S) l l'"

lemma writes_link [intro]: "writes S l0 l \<Longrightarrow> p \<in> S \<Longrightarrow> q \<in> S \<Longrightarrow> writes S l0 (link p q l)"
  by (auto simp: same_at_def)

lemma writes_refl [intro, simp]: "writes S l l"
  by (simp add: same_at_def)

lemma writes_mono: "writes S l l' \<Longrightarrow> S \<subseteq> T \<Longrightarrow> writes T l l'"
  by (auto simp: same_at_def)

lemma writes_trans: "writes S l l' \<Longrightarrow> writes S l' l'' \<Longrightarrow> writes S l l''"
  by (auto simp: same_at_def)

lemma as_links:
  "raw_list_add new prev next l = link prev new (link new next l)"
  "raw_list_del prev next l = link prev next l"
  "INIT_LIST_HEAD p l = link p p l"
  by (simp_all add: raw_list_add_def raw_list_del_def INIT_LIST_HEAD_def Let_def link_def set_next_def set_prev_def)

lemma ring_init: "ring (INIT_LIST_HEAD p l) p []" "writes {p} l (INIT_LIST_HEAD p l)"
  by (simp_all add: as_links ring_def linked_link) auto

lemma ring_add:
  assumes "ring l h xs" and "new \<notin> set (h # xs)"
  shows "ring (list_add new h l) h (new # xs)" and "writes (insert new (set (h # xs))) l (list_add new h l)"
proof -
  show "ring (list_add new h l) h (new # xs)"
    using assms by (cases xs) (auto simp: list_add_def as_links ring_ends [OF assms(1)] ring_def seg_link linked_link butlast_append)
  have "hd (xs @ [h]) \<in> set (h # xs)" by (cases xs) simp_all
  then show "writes (insert new (set (h # xs))) l (list_add new h l)"
    unfolding list_add_def as_links ring_ends [OF assms(1)] by (intro writes_link writes_refl) simp_all
qed

lemma ring_add_at:
  assumes "ring l h (xs @ p # ys)" and "new \<notin> set (h # xs @ p # ys)"
  shows "ring (list_add new p l) h (xs @ p # new # ys)" and "writes (insert new (set (h # xs @ p # ys))) l (list_add new p l)"
  using ring_add [OF assms(1) [unfolded ring_rotate [of l h]], of new] assms(2) ring_rotate [of "list_add new p l" p "new # ys" h xs]
  by (simp_all add: insert_commute Un_commute)

lemma list_add_tail_eq:
  assumes "ring l h xs"
  shows "list_add_tail new h l = list_add new (lprev l h) l"
proof (cases xs rule: rev_cases)
  case Nil
  then show ?thesis using ring_ends [OF assms] by (simp add: list_add_tail_def list_add_def)
next
  case (snoc ys y)
  with assms have "lnext l y = h" using ring_at [of l h ys y "[]"] by simp
  then show ?thesis using ring_ends [OF assms] snoc by (simp add: list_add_tail_def list_add_def)
qed

lemma ring_add_tail:
  assumes "ring l h xs" and "new \<notin> set (h # xs)"
  shows "ring (list_add_tail new h l) h (xs @ [new])" and "writes (insert new (set (h # xs))) l (list_add_tail new h l)"
proof -
  have "ring (list_add_tail new h l) h (xs @ [new]) \<and> writes (insert new (set (h # xs))) l (list_add_tail new h l)"
  proof (cases xs rule: rev_cases)
    case Nil
    then show ?thesis using assms ring_ends(2) [OF assms(1)] ring_add [OF assms] by (simp add: list_add_tail_eq [OF assms(1)])
  next
    case (snoc ys y)
    then show ?thesis
      using assms ring_ends(2) [OF assms(1)] ring_add_at [of l h ys y "[]" new] by (simp add: list_add_tail_eq [OF assms(1)])
  qed
  then show "ring (list_add_tail new h l) h (xs @ [new])" "writes (insert new (set (h # xs))) l (list_add_tail new h l)" by simp_all
qed

lemma ring_add_tail_at:
  assumes "ring l h (xs @ p # ys)" and "new \<notin> set (h # xs @ p # ys)"
  shows "ring (list_add_tail new p l) h (xs @ new # p # ys)" and "writes (insert new (set (h # xs @ p # ys))) l (list_add_tail new p l)"
  using ring_add_tail [OF assms(1) [unfolded ring_rotate [of l h]], of new] assms(2) ring_rotate [of "list_add_tail new p l" h "xs @ [new]" p ys]
  by (simp_all add: insert_commute Un_commute)

lemma last_not_butlast: "distinct xs \<Longrightarrow> xs \<noteq> [] \<Longrightarrow> last xs \<notin> set (butlast xs)"
  by (cases xs rule: rev_cases) auto

text \<open>Taking a segment out of a ring, and putting one in.\<close>

lemma ring_drop:
  assumes "ring l h (xs @ sec @ ys)" and "l' = link (last (h # xs)) (hd (ys @ [h])) l" and "sec \<noteq> []"
  shows "ring l' h (xs @ ys)" and "seg l' sec" and "writes (set (h # xs @ ys)) l l'"
proof -
  define p n where ends: "p = last (h # xs)" "n = hd (ys @ [h])"
  have l': "l' = link p n l" by (simp add: assms(2) ends)
  have d: "distinct (h # xs @ sec @ ys)" using assms(1) by (simp add: ring_def)
  have sg: "seg l (h # xs)" "seg l sec" "seg l (ys @ [h])"
    using assms seg_append [of l "h # xs" "sec @ ys @ [h]"] seg_append [of l sec "ys @ [h]"] by (simp_all add: ring_def)
  have mem: "p \<in> set (h # xs)" "n \<in> set (ys @ [h])"
    unfolding ends using last_in_set [of "h # xs"] by (simp_all add: hd_append del: last.simps)
  have "distinct (h # xs)" using d by auto
  with ends(1) have "p \<notin> set (butlast (h # xs))" using last_not_butlast [of "h # xs"] by blast
  moreover have "n \<notin> set (tl (ys @ [h]))" using d unfolding ends by (cases ys) auto
  ultimately have "seg l' (h # xs)" "seg l' (ys @ [h])" using sg d mem unfolding l' by (subst seg_link; auto)+
  moreover have "linked l' (last (h # xs)) (hd (ys @ [h]))" unfolding l' ends by (simp add: linked_link)
  ultimately have "seg l' ((h # xs) @ ys @ [h])" unfolding seg_append [of l' "h # xs"] by simp
  with d show "ring l' h (xs @ ys)" by (auto simp: ring_def)
  show "seg l' sec" using sg(2) d mem unfolding l'
    by (subst seg_link) (auto dest: in_set_butlastD list.set_sel(2) [OF assms(3)])
  show "writes (set (h # xs @ ys)) l l'" unfolding l' using mem by (intro writes_link writes_refl) auto
qed

lemma ring_insert:
  assumes "ring l h zs" and "seg l sec" and "sec \<noteq> []" and "distinct sec" and "set sec \<inter> set (h # zs) = {}"
    and "l' = link (last sec) h (link (last (h # zs)) (hd sec) l)"
  shows "ring l' h (zs @ sec)" and "writes (set sec \<union> set (h # zs)) l l'"
proof -
  define p f g where ends: "p = last (h # zs)" "f = hd sec" "g = last sec"
  have l': "l' = link g h (link p f l)" by (simp add: assms(6) ends)
  have mem: "p \<in> set (h # zs)" "f \<in> set sec" "g \<in> set sec"
    unfolding ends using assms(3) last_in_set [of "h # zs"] by (simp_all del: last.simps)
  have "distinct (h # zs)" and sg: "seg l (h # zs)" using assms(1) seg_append [of l "h # zs" "[h]"] by (auto simp: ring_def)
  then have "p \<notin> set (butlast (h # zs))" "h \<notin> set zs" unfolding ends using last_not_butlast [of "h # zs"] by auto
  moreover have "g \<notin> set (butlast (h # zs))" using mem(3) assms(5) in_set_butlastD [of g "h # zs"] by blast
  ultimately have one: "seg l' (h # zs)" using sg assms(5) mem unfolding l'
    by (subst seg_link; (subst seg_link)?) (auto dest: in_set_butlastD simp del: butlast.simps)
  have "f \<notin> set (tl sec)" using assms(3,4) unfolding ends by (cases sec) auto
  moreover have "g \<notin> set (butlast sec)" using last_not_butlast [OF assms(4,3)] by (simp add: ends)
  ultimately have two: "seg l' sec" using assms(2,5) mem unfolding l'
    by (subst seg_link; (subst seg_link)?) (auto dest: in_set_butlastD list.set_sel(2) [OF assms(3)])
  have "linked l' p f" "linked l' g h" unfolding l' using assms(5) mem by (auto simp: linked_link)
  then have "seg l' ((h # zs) @ sec @ [h])"
    unfolding seg_append [of l' "h # zs"] seg_append [of l' sec] using one two assms(3) by (simp add: ends)
  then show "ring l' h (zs @ sec)" using \<open>distinct (h # zs)\<close> assms(4,5) by (auto simp: ring_def)
  show "writes (set sec \<union> set (h # zs)) l l'" unfolding l' using mem by (intro writes_link writes_refl) auto
qed

lemma ring_del:
  assumes "ring l h (xs @ e # ys)"
  shows "ring (list_del_entry e l) h (xs @ ys)" and "writes (set (h # xs @ ys)) l (list_del_entry e l)"
proof -
  have "list_del_entry e l = link (last (h # xs)) (hd (ys @ [h])) l"
    by (simp add: list_del_entry_def as_links ring_at [OF assms])
  from ring_drop [of l h xs "[e]" ys, OF _ this] assms
  show "ring (list_del_entry e l) h (xs @ ys)" "writes (set (h # xs @ ys)) l (list_del_entry e l)" by simp_all
qed

lemma list_replace_eq:
  assumes "lnext l old \<noteq> old" and "new \<noteq> old"
  shows "list_replace old new l = link (lprev l old) new (link new (lnext l old) l)"
  using assms by (simp add: list_replace_def link_def set_next_def set_prev_def Let_def)

lemma ring_replace:
  assumes "ring l old xs" and "new \<notin> set (old # xs)"
  shows "ring (list_replace old new l) new xs" and "writes (insert new (set (old # xs))) l (list_replace old new l)"
proof -
  have "ring (list_replace old new l) new xs \<and> writes (insert new (set (old # xs))) l (list_replace old new l)"
  proof (cases xs)
    case Nil
    then show ?thesis using assms ring_ends [OF assms(1)]
      by (auto simp: list_replace_def Let_def ring_def linked_def same_at_def)
  next
    case (Cons y ys)
    have d: "distinct (old # xs)" and sg: "seg l xs"
      using assms(1) seg_append [of l "old # xs" "[old]"] Cons by (auto simp: ring_def)
    have ends: "lnext l old = y" "lprev l old = last xs" using ring_ends [OF assms(1)] Cons by simp_all
    with d assms(2) Cons have l': "list_replace old new l = link (last xs) new (link new y l)"
      by (subst list_replace_eq) auto
    have "last xs \<notin> set (butlast xs)" using last_not_butlast [of xs] d Cons by simp
    with d sg assms(2) Cons have "seg (list_replace old new l) xs"
      unfolding l' by (subst seg_link; (subst seg_link)?) (auto dest: in_set_butlastD)
    moreover have "linked (list_replace old new l) new y" "linked (list_replace old new l) (last xs) new"
      using assms(2) Cons unfolding l' by (auto simp: linked_link)
    ultimately have "seg (list_replace old new l) (new # xs @ [new])"
      using seg_append [of "list_replace old new l" "new # xs" "[new]"] Cons by auto
    moreover have "writes (insert new (set (old # xs))) l (list_replace old new l)"
      unfolding l' using Cons by (intro writes_link writes_refl) simp_all
    ultimately show ?thesis using d assms(2) by (auto simp: ring_def)
  qed
  then show "ring (list_replace old new l) new xs" "writes (insert new (set (old # xs))) l (list_replace old new l)" by simp_all
qed

lemma ring_replace_at:
  assumes "ring l h (xs @ old # ys)" and "new \<notin> set (h # xs @ old # ys)"
  shows "ring (list_replace old new l) h (xs @ new # ys)"
    and "writes (insert new (set (h # xs @ old # ys))) l (list_replace old new l)"
  using ring_replace [OF assms(1) [unfolded ring_rotate [of l h]], of new] assms(2) ring_rotate [of "list_replace old new l" h xs new ys]
  by (simp_all add: insert_commute Un_commute)

lemma ring_del_init:
  assumes "ring l h (xs @ e # ys)"
  shows "ring (list_del_init e l) h (xs @ ys)" and "ring (list_del_init e l) e []"
    and "writes (set (h # xs @ e # ys)) l (list_del_init e l)"
proof -
  let ?l = "list_del_entry e l"
  have "e \<notin> set (h # xs @ ys)" using assms by (auto simp: ring_def)
  then have "same_at (set (h # xs @ ys)) ?l (list_del_init e l)"
    using ring_init(2) [of e ?l] by (auto simp: list_del_init_def same_at_def)
  then show "ring (list_del_init e l) h (xs @ ys)" using ring_same [of h "xs @ ys"] ring_del(1) [OF assms] by simp
  show "ring (list_del_init e l) e []" by (simp add: list_del_init_def ring_init)
  show "writes (set (h # xs @ e # ys)) l (list_del_init e l)"
    unfolding list_del_init_def
    by (rule writes_trans [OF writes_mono [OF ring_del(2) [OF assms]] writes_mono [OF ring_init(2)]]) auto
qed

lemma ring_splice:
  assumes "ring l q (y # ys)" and "ring l p xs" and "set (q # y # ys) \<inter> set (p # xs) = {}"
  shows "ring (raw_list_splice q p (lnext l p) l) p (y # ys @ xs)"
    and "writes (set (q # y # ys) \<union> set (p # xs)) l (raw_list_splice q p (lnext l p) l)"
proof -
  let ?z = "last (y # ys)" and ?n = "hd (xs @ [p])"
  let ?l = "raw_list_splice q p (lnext l p) l"
  have l': "?l = link ?z ?n (link p y l)"
    by (simp add: raw_list_splice_def Let_def ring_ends [OF assms(1)] ring_ends [OF assms(2)] link_def set_next_def set_prev_def)
  have d: "distinct (p # y # ys @ xs)" and sg: "seg l (y # ys)" "seg l (xs @ [p])"
    using assms seg_append [of l "y # ys" "[q]"] seg_append [of l "[p]" "xs @ [p]"] by (auto simp: ring_def)
  have ends: "?z \<in> set (y # ys)" "?n \<in> set (p # xs)" by simp (cases xs, simp_all)
  have "?z \<notin> set (butlast (y # ys))" using d by (cases ys rule: rev_cases) auto
  moreover have "?n \<notin> set (y # ys)" using ends(2) d by auto
  ultimately have 1: "seg ?l (y # ys)" unfolding l' using d sg(1) by (subst seg_link; (subst seg_link)?) (auto dest: in_set_butlastD)
  have "?n \<notin> set (tl (xs @ [p]))" using d by (cases xs) auto
  moreover have "?z \<notin> set (xs @ [p])" using ends(1) d by auto
  moreover have "y \<notin> set (tl (xs @ [p]))" "p \<notin> set (butlast (xs @ [p]))" using d by (cases xs; auto)+
  ultimately have 2: "seg ?l (xs @ [p])" unfolding l' using sg(2) by (subst seg_link; (subst seg_link)?) (auto dest: in_set_butlastD)
  have "linked ?l p y" "linked ?l ?z ?n" using d ends unfolding l' by (auto simp: linked_link)
  with 1 2 have "seg ?l ((p # y # ys) @ xs @ [p])" unfolding seg_append [of ?l "p # y # ys"] by simp
  with d show "ring ?l p (y # ys @ xs)" by (simp add: ring_def)
  show "writes (set (q # y # ys) \<union> set (p # xs)) l ?l" unfolding l' using ends by (intro writes_link writes_refl) auto
qed

lemma ring_splice_at:
  assumes "ring l q (y # zs)" and "ring l h (xs @ p # ys)" and "set (q # y # zs) \<inter> set (h # xs @ p # ys) = {}"
  shows "ring (raw_list_splice q p (lnext l p) l) h (xs @ p # y # zs @ ys)"
    and "writes (set (q # y # zs) \<union> set (h # xs @ p # ys)) l (raw_list_splice q p (lnext l p) l)"
  using ring_splice [OF assms(1) assms(2) [unfolded ring_rotate [of l h]]] assms(3)
    ring_rotate [of "raw_list_splice q p (lnext l p) l" h xs p "y # zs @ ys"]
  by (auto simp: insert_commute Un_commute intro: writes_mono)

lemma splice_tail_eq:
  assumes "ring l p xs"
  shows "raw_list_splice q (lprev l p) p l = raw_list_splice q (lprev l p) (lnext l (lprev l p)) l"
proof (cases xs rule: rev_cases)
  case Nil
  then show ?thesis using ring_ends [OF assms] by simp
next
  case (snoc ys y)
  then show ?thesis using ring_ends [OF assms] ring_at [of l p ys y "[]"] assms by simp
qed

lemma ring_splice_tail:
  assumes "ring l q (y # ys)" and "ring l p xs" and "set (q # y # ys) \<inter> set (p # xs) = {}"
  shows "ring (raw_list_splice q (lprev l p) p l) p (xs @ y # ys)"
    and "writes (set (q # y # ys) \<union> set (p # xs)) l (raw_list_splice q (lprev l p) p l)"
proof -
  have "ring (raw_list_splice q (lprev l p) p l) p (xs @ y # ys)
      \<and> writes (set (q # y # ys) \<union> set (p # xs)) l (raw_list_splice q (lprev l p) p l)"
  proof (cases xs rule: rev_cases)
    case Nil
    then show ?thesis using ring_splice [OF assms] ring_ends [OF assms(2)] by simp
  next
    case (snoc zs z)
    with assms ring_ends(2) [OF assms(2)] have "lprev l p = z" by simp
    then show ?thesis
      using ring_splice_at [of l q y ys p zs z "[]"] snoc assms unfolding splice_tail_eq [OF assms(2)] by simp
  qed
  then show "ring (raw_list_splice q (lprev l p) p l) p (xs @ y # ys)"
    "writes (set (q # y # ys) \<union> set (p # xs)) l (raw_list_splice q (lprev l p) p l)" by simp_all
qed

lemma ring_splice_tail_at:
  assumes "ring l q (y # zs)" and "ring l h (xs @ p # ys)" and "set (q # y # zs) \<inter> set (h # xs @ p # ys) = {}"
  shows "ring (raw_list_splice q (lprev l p) p l) h (xs @ (y # zs) @ p # ys)"
    and "writes (set (q # y # zs) \<union> set (h # xs @ p # ys)) l (raw_list_splice q (lprev l p) p l)"
  using ring_splice_tail [OF assms(1) assms(2) [unfolded ring_rotate [of l h]]] assms(3)
    ring_rotate [of "raw_list_splice q (lprev l p) p l" h "xs @ y # zs" p ys]
  by (auto simp: insert_commute Un_commute intro: writes_mono)

lemma ring_cut:
  assumes "ring l h (xs @ e # ys)" and "q \<notin> set (h # xs @ e # ys)"
  shows "ring (raw_list_cut_position q h e l) q (xs @ [e])" and "ring (raw_list_cut_position q h e l) h ys"
    and "writes (insert q (set (h # xs @ e # ys))) l (raw_list_cut_position q h e l)"
proof -
  let ?f = "hd (xs @ [e])" and ?n = "hd (ys @ [h])" and ?l = "raw_list_cut_position q h e l"
  have "lnext l h = ?f" using ring_ends(1) [OF assms(1)] by (cases xs) simp_all
  then have l': "?l = link h ?n (link e q (link q ?f l))"
    by (simp add: raw_list_cut_position_def Let_def ring_at(1) [OF assms(1)] link_def set_next_def set_prev_def)
  have d: "distinct (q # h # xs @ e # ys)" and sg: "seg l (xs @ [e])" "seg l (ys @ [h])"
    using assms seg_split [of l "h # xs" e "ys @ [h]"] seg_append [of l "[h]" "xs @ [e]"] seg_append [of l "[e]" "ys @ [h]"]
    by (auto simp: ring_def)
  have f: "?f \<in> set (xs @ [e])" "?f \<notin> set (tl (xs @ [e]))" using d by (cases xs; auto)+
  have n: "?n \<in> set (ys @ [h])" "?n \<notin> set (tl (ys @ [h]))" using d by (cases ys; auto)+
  have tls: "set (tl (xs @ [e])) \<subseteq> set (xs @ [e])" "set (tl (ys @ [h])) \<subseteq> set (ys @ [h])" by (cases xs; auto) (cases ys; auto)
  have 1: "seg ?l (xs @ [e])" unfolding l' using d sg(1) f n tls
    by (subst seg_link; (subst seg_link)?; (subst seg_link)?) auto
  have 2: "seg ?l (ys @ [h])" unfolding l' using d sg(2) f n tls
    by (subst seg_link; (subst seg_link)?; (subst seg_link)?) auto
  have lk: "linked ?l q ?f" "linked ?l e q" "linked ?l h ?n" unfolding l' using d f n by (auto simp: linked_link)
  have "seg ?l ((xs @ [e]) @ [q])" unfolding seg_append [of ?l "xs @ [e]"] using 1 lk by simp
  then have "seg ?l ([q] @ (xs @ [e]) @ [q])" unfolding seg_append [of ?l "[q]"] using lk by (cases xs) simp_all
  with d show "ring ?l q (xs @ [e])" by (auto simp: ring_def)
  have "seg ?l ([h] @ ys @ [h])" unfolding seg_append [of ?l "[h]"] using 2 lk by simp
  with d show "ring ?l h ys" by (auto simp: ring_def)
  show "writes (insert q (set (h # xs @ e # ys))) l ?l" unfolding l' using f n by (intro writes_link writes_refl) auto
qed

lemma bulk_move_links:
  assumes "ring l h (xs @ sec @ ys)" and "sec \<noteq> []"
  shows "list_bulk_move_tail h (hd sec) (last sec) l
    = link (last sec) h (link (last (h # xs @ ys)) (hd sec) (link (last (h # xs)) (hd (ys @ [h])) l))"
proof -
  define p n t f g where ends: "p = last (h # xs)" "n = hd (ys @ [h])" "t = last (h # xs @ ys)" "f = hd sec" "g = last sec"
  have d: "distinct (h # xs @ sec @ ys)" using assms(1) by (simp add: ring_def)
  have sec: "sec = f # tl sec" "sec = butlast sec @ [g]" using assms(2) by (simp_all add: ends)
  have at: "lprev l f = p" "lnext l g = n"
    using ring_at(2) [of l h xs f "tl sec @ ys"] ring_at(1) [of l h "xs @ butlast sec" g ys] assms(1) sec unfolding ends(1,2)
    by (metis append_Cons append_assoc, metis append_Cons append_assoc append_Nil)
  have mem: "p \<in> set (h # xs)" "n \<in> set (ys @ [h])" "f \<in> set sec" "g \<in> set sec"
    unfolding ends using assms(2) last_in_set [of "h # xs"] by (simp_all add: hd_append del: last.simps)
  have t: "(if n = h then p else lprev l h) = t"
    using ring_ends(2) [OF assms(1)] d unfolding ends by (cases ys) auto
  have "g \<noteq> p" "f \<noteq> n" "f \<noteq> h" using d mem by auto
  then have "list_bulk_move_tail h f g l = link g h (link t f (link p n l))"
    using t at by (auto simp: list_bulk_move_tail_def Let_def link_def set_next_def set_prev_def)
  then show ?thesis by (simp add: ends)
qed

lemma ring_bulk_move:
  assumes "ring l h (xs @ sec @ ys)" and "sec \<noteq> []"
  shows "ring (list_bulk_move_tail h (hd sec) (last sec) l) h (xs @ ys @ sec)"
    and "writes (set (h # xs @ sec @ ys)) l (list_bulk_move_tail h (hd sec) (last sec) l)"
proof -
  note drop = ring_drop [OF assms(1) refl assms(2)]
  have d: "distinct sec" "set sec \<inter> set (h # xs @ ys) = {}" using assms(1) by (auto simp: ring_def)
  note ins = ring_insert [OF drop(1,2) assms(2) d bulk_move_links [OF assms]]
  show "ring (list_bulk_move_tail h (hd sec) (last sec) l) h (xs @ ys @ sec)" using ins(1) by simp
  show "writes (set (h # xs @ sec @ ys)) l (list_bulk_move_tail h (hd sec) (last sec) l)"
    by (rule writes_trans [OF writes_mono [OF drop(3)] writes_mono [OF ins(2)]]) auto
qed

text \<open>Rotating: the first entry goes to the end, or the head goes before an entry.\<close>

lemma ring_rotate_left:
  assumes "ring l h xs"
  shows "ring (list_rotate_left h l) h (rotate1 xs)" and "writes (set (h # xs)) l (list_rotate_left h l)"
proof -
  have "ring (list_rotate_left h l) h (rotate1 xs) \<and> writes (set (h # xs)) l (list_rotate_left h l)"
  proof (cases xs)
    case Nil
    then show ?thesis using assms ring_ends [OF assms] by (simp add: list_rotate_left_def list_empty_def)
  next
    case (Cons x ys)
    have nx: "lnext l h = x" "x \<notin> set (h # ys)" using ring_ends(1) [OF assms] assms Cons by (auto simp: ring_def)
    note del = ring_del [of l h "[]" x ys, simplified, OF assms [unfolded Cons]]
    note ins = ring_add_tail [OF del(1) nx(2)]
    have "list_rotate_left h l = list_add_tail x h (list_del_entry x l)"
      using nx by (simp add: list_rotate_left_def list_empty_def list_move_tail_def)
    moreover have "writes (set (h # xs)) l (list_add_tail x h (list_del_entry x l))"
      by (rule writes_trans [OF writes_mono [OF del(2)] writes_mono [OF ins(2)]]) (auto simp: Cons)
    ultimately show ?thesis using ins(1) Cons by simp
  qed
  then show "ring (list_rotate_left h l) h (rotate1 xs)" "writes (set (h # xs)) l (list_rotate_left h l)" by simp_all
qed

lemma ring_rotate_to_front:
  assumes "ring l h (xs @ e # ys)"
  shows "ring (list_rotate_to_front e h l) h (e # ys @ xs)" and "writes (set (h # xs @ e # ys)) l (list_rotate_to_front e h l)"
proof -
  have h: "h \<notin> set (e # ys @ xs)" using assms by (auto simp: ring_def)
  note del = ring_del [OF assms [unfolded ring_rotate [of l h]]]
  note ins = ring_add_tail [OF del(1) h]
  show "ring (list_rotate_to_front e h l) h (e # ys @ xs)"
    using ins(1) ring_rotate [of _ h "[]" e "ys @ xs"] by (simp add: list_rotate_to_front_def list_move_tail_def)
  show "writes (set (h # xs @ e # ys)) l (list_rotate_to_front e h l)"
    unfolding list_rotate_to_front_def list_move_tail_def
    by (rule writes_trans [OF writes_mono [OF del(2)] writes_mono [OF ins(2)]]) auto
qed

end
