(* ===== verification/ListRefine.thy ===== *)
theory ListRefine
  imports ListHead Simulation
begin

text \<open>
  The linked lists of \<open>ListHead\<close> against a specification without pointers: a map from heads to lists.  Any
  sequence of operations on any number of lists in one memory gives what the specification gives; this is the
  locale \<open>simulation\<close>, interpreted for the operations of \<open>list.h\<close>.
\<close>

section \<open>Lists without pointers\<close>

text \<open>
  The specification: the lists that exist, by their heads.  \<open>at_list p F m\<close> changes the list to which the
  address \<open>p\<close> belongs, as the head or as an entry.
\<close>

type_synonym 'p lists = "'p \<Rightarrow> 'p list option"

definition at_list :: "'p \<Rightarrow> ('p \<Rightarrow> 'p list \<Rightarrow> 'p list) \<Rightarrow> 'p lists \<Rightarrow> 'p lists" where
  "at_list p F m = (\<lambda>h. map_option (\<lambda>xs. if p \<in> set (h # xs) then F h xs else xs) (m h))"

definition after :: "'p \<Rightarrow> 'p list \<Rightarrow> 'p \<Rightarrow> 'p list \<Rightarrow> 'p list" where
  "after p new h xs =
     (if p = h then new @ xs else takeWhile (\<lambda>x. x \<noteq> p) xs @ p # new @ tl (dropWhile (\<lambda>x. x \<noteq> p) xs))"

definition before :: "'p \<Rightarrow> 'p list \<Rightarrow> 'p \<Rightarrow> 'p list \<Rightarrow> 'p list" where
  "before p new h xs =
     (if p = h then xs @ new else takeWhile (\<lambda>x. x \<noteq> p) xs @ new @ dropWhile (\<lambda>x. x \<noteq> p) xs)"

definition cells :: "'p lists \<Rightarrow> 'p set" where
  "cells m = {p. \<exists>h xs. m h = Some xs \<and> p \<in> set (h # xs)}"

definition entries_in :: "'p lists \<Rightarrow> 'p set" where
  "entries_in m = {p. \<exists>h xs. m h = Some xs \<and> p \<in> set xs}"

definition rings :: "'p links \<Rightarrow> 'p lists \<Rightarrow> bool" where
  "rings l m \<longleftrightarrow> (\<forall>h xs. m h = Some xs \<longrightarrow> ring l h xs)
    \<and> (\<forall>h xs h' xs'. m h = Some xs \<longrightarrow> m h' = Some xs' \<longrightarrow> h \<noteq> h' \<longrightarrow> set (h # xs) \<inter> set (h' # xs') = {})"

lemma ringsD: "rings l m \<Longrightarrow> m h = Some xs \<Longrightarrow> ring l h xs"
  by (simp add: rings_def)

lemma rings_apart: "rings l m \<Longrightarrow> m h = Some xs \<Longrightarrow> m h' = Some xs' \<Longrightarrow> p \<in> set (h # xs) \<Longrightarrow> p \<in> set (h' # xs') \<Longrightarrow> h' = h"
  unfolding rings_def by blast

lemma ringsI:
  assumes "\<And>h xs. m h = Some xs \<Longrightarrow> ring l h xs"
    and "\<And>h xs h' xs' p. m h = Some xs \<Longrightarrow> m h' = Some xs' \<Longrightarrow> p \<in> set (h # xs) \<Longrightarrow> p \<in> set (h' # xs') \<Longrightarrow> h = h'"
  shows "rings l m"
  unfolding rings_def using assms by blast

lemma cellsI: "m h = Some xs \<Longrightarrow> p \<in> set (h # xs) \<Longrightarrow> p \<in> cells m"
  by (auto simp: cells_def)

lemma cellsE: "p \<in> cells m \<Longrightarrow> (\<And>h xs. m h = Some xs \<Longrightarrow> p \<in> set (h # xs) \<Longrightarrow> P) \<Longrightarrow> P"
  by (auto simp: cells_def)

lemma at_list_eq:
  assumes "rings l m" and "m h = Some xs" and "p \<in> set (h # xs)"
  shows "at_list p F m = m(h \<mapsto> F h xs)"
proof
  fix k
  show "at_list p F m k = (m(h \<mapsto> F h xs)) k"
  proof (cases "m k")
    case None
    then show ?thesis using assms(2) by (auto simp: at_list_def)
  next
    case (Some ys)
    moreover have "k = h" if "p \<in> set (k # ys)" by (rule rings_apart [OF assms(1,2) Some assms(3) that])
    ultimately show ?thesis using assms(2,3) by (cases "k = h") (auto simp: at_list_def)
  qed
qed

lemma rings_forget: "rings l m \<Longrightarrow> rings l (m(p := None))"
  unfolding rings_def by auto

lemma cells_forget:
  assumes "rings l m" and "m p = Some xs"
  shows "cells (m(p := None)) \<inter> set (p # xs) = {}"
proof -
  have False if "x \<in> cells (m(p := None))" "x \<in> set (p # xs)" for x
  proof -
    from that(1) obtain h ys where "m h = Some ys" "h \<noteq> p" "x \<in> set (h # ys)" by (auto elim!: cellsE split: if_splits)
    with rings_apart [OF assms this(1) that(2)] show False by blast
  qed
  then show ?thesis by blast
qed

lemma rings_writes:
  assumes "rings l m" and "writes S l l'" and "S \<inter> cells m = {}"
  shows "rings l' m"
proof -
  have "ring l' h xs" if "m h = Some xs" for h xs
  proof -
    have "same_at (set (h # xs)) l l'" using assms(2,3) cellsI [of m, OF that] unfolding same_at_def by blast
    from ring_same [OF this] ringsD [OF assms(1) that] show ?thesis by simp
  qed
  with assms(1) show ?thesis unfolding rings_def by blast
qed

lemma rings_new:
  assumes "rings l m" and "ring l q ys" and "set (q # ys) \<inter> cells (m(q := None)) = {}"
  shows "rings l (m(q \<mapsto> ys))"
proof (rule ringsI)
  have old: "h = q" if "m h = Some xs" "p \<in> set (h # xs)" "p \<in> set (q # ys)" for h xs p
    using that assms(3) cellsI [of "m(q := None)" h xs p] by (cases "h = q") auto
  show "ring l h xs" if "(m(q \<mapsto> ys)) h = Some xs" for h xs
    using that assms(2) ringsD [OF assms(1)] by (cases "h = q") auto
  show "h = h'" if "(m(q \<mapsto> ys)) h = Some xs" "(m(q \<mapsto> ys)) h' = Some xs'" "p \<in> set (h # xs)" "p \<in> set (h' # xs')"
    for h xs h' xs' p
  proof (cases "h = q \<or> h' = q")
    case True
    then show ?thesis using that old [of h xs p] old [of h' xs' p] by (cases "h = q"; cases "h' = q") auto
  next
    case False
    then show ?thesis using that rings_apart [OF assms(1), of h' xs' h xs p] by auto
  qed
qed

lemma rings_update:
  assumes "rings l m" and "m h = Some xs" and "ring l' h xs'" and "set xs' \<subseteq> set (h # xs) \<union> N"
    and "N \<inter> cells m = {}" and "writes (set (h # xs) \<union> N) l l'"
  shows "rings l' (m(h \<mapsto> xs'))"
proof -
  note cut = cells_forget [OF assms(1,2)]
  have N: "N \<inter> cells (m(h := None)) = {}" using assms(5) by (auto simp: cells_def split: if_splits)
  have "rings l' (m(h := None))"
    using rings_writes [OF rings_forget [OF assms(1)] assms(6), of h] cut N by auto
  from rings_new [OF this assms(3)] assms(2,4) cut N show ?thesis by auto
qed

lemma split_entry:
  assumes "distinct xs" and "p \<in> set xs"
  obtains as bs where "xs = as @ p # bs" and "p \<notin> set as" and "p \<notin> set bs"
    and "takeWhile (\<lambda>x. x \<noteq> p) xs = as" and "dropWhile (\<lambda>x. x \<noteq> p) xs = p # bs"
proof -
  obtain as bs where xs: "xs = as @ p # bs" "p \<notin> set as" using split_list_first [OF assms(2)] by blast
  show thesis
  proof (rule that [OF xs])
    show "p \<notin> set bs" using assms(1) xs by auto
    show "takeWhile (\<lambda>x. x \<noteq> p) xs = as" "dropWhile (\<lambda>x. x \<noteq> p) xs = p # bs"
      using xs by (auto simp: takeWhile_append takeWhile_eq_all_conv dropWhile_append)
  qed
qed

text \<open>The operations at an address of a ring, be it the head or an entry.\<close>

lemma entry_cases:
  assumes "ring l h xs" and "p \<in> set (h # xs)"
  obtains "p = h" | as bs where "p \<noteq> h" and "xs = as @ p # bs" and "p \<notin> set as"
    and "takeWhile (\<lambda>x. x \<noteq> p) xs = as" and "dropWhile (\<lambda>x. x \<noteq> p) xs = p # bs"
proof (cases "p = h")
  case False
  with assms have "distinct xs" "p \<in> set xs" by (auto simp: ring_def)
  then show thesis by (rule split_entry) (rule that(2) [OF False])
qed

lemma add_at_cell:
  assumes "ring l h xs" and "p \<in> set (h # xs)" and "new \<notin> set (h # xs)"
  shows "ring (list_add new p l) h (after p [new] h xs) \<and> writes (set (h # xs) \<union> {new}) l (list_add new p l)"
  using assms(1,2)
proof (cases rule: entry_cases)
  case 1
  then show ?thesis using ring_add [OF assms(1,3)] by (simp add: after_def)
next
  case (2 as bs)
  then show ?thesis using ring_add_at [of l h as p bs new] assms by (simp add: after_def)
qed

lemma add_tail_at_cell:
  assumes "ring l h xs" and "p \<in> set (h # xs)" and "new \<notin> set (h # xs)"
  shows "ring (list_add_tail new p l) h (before p [new] h xs) \<and> writes (set (h # xs) \<union> {new}) l (list_add_tail new p l)"
  using assms(1,2)
proof (cases rule: entry_cases)
  case 1
  then show ?thesis using ring_add_tail [OF assms(1,3)] by (simp add: before_def)
next
  case (2 as bs)
  then show ?thesis using ring_add_tail_at [of l h as p bs new] assms by (simp add: before_def)
qed

lemma splice_at_cell:
  assumes "ring l h xs" and "p \<in> set (h # xs)" and "ring l q ys" and "ys \<noteq> []" and "set (q # ys) \<inter> set (h # xs) = {}"
  shows "ring (raw_list_splice q p (lnext l p) l) h (after p ys h xs)
    \<and> writes (set (h # xs) \<union> set (q # ys)) l (raw_list_splice q p (lnext l p) l)"
proof -
  obtain z zs where ys: "ys = z # zs" using assms(4) by (cases ys) auto
  show ?thesis using assms(1,2)
  proof (cases rule: entry_cases)
    case 1
    then show ?thesis using ring_splice [of l q z zs h xs] assms(1,3,5) ys by (simp add: after_def Un_commute)
  next
    case (2 as bs)
    then show ?thesis using ring_splice_at [of l q z zs h as p bs] assms(1,3,5) ys by (simp add: after_def Un_commute)
  qed
qed

lemma splice_tail_at_cell:
  assumes "ring l h xs" and "p \<in> set (h # xs)" and "ring l q ys" and "ys \<noteq> []" and "set (q # ys) \<inter> set (h # xs) = {}"
  shows "ring (raw_list_splice q (lprev l p) p l) h (before p ys h xs)
    \<and> writes (set (h # xs) \<union> set (q # ys)) l (raw_list_splice q (lprev l p) p l)"
proof -
  obtain z zs where ys: "ys = z # zs" using assms(4) by (cases ys) auto
  show ?thesis using assms(1,2)
  proof (cases rule: entry_cases)
    case 1
    then show ?thesis using ring_splice_tail [of l q z zs h xs] assms(1,3,5) ys by (simp add: before_def Un_commute)
  next
    case (2 as bs)
    then show ?thesis using ring_splice_tail_at [of l q z zs h as p bs] assms(1,3,5) ys by (simp add: before_def Un_commute)
  qed
qed

lemma set_places:
  "p \<in> set (h # xs) \<Longrightarrow> set (after p ys h xs) \<subseteq> set (h # xs) \<union> set ys"
  "p \<in> set (h # xs) \<Longrightarrow> set (before p ys h xs) \<subseteq> set (h # xs) \<union> set ys"
  by (auto simp: after_def before_def dest: set_takeWhileD set_dropWhileD list.set_sel(2) [rotated]
      split: if_splits) (metis list.sel(2) list.set_sel(2) set_dropWhileD)+

section \<open>The operations on all lists\<close>

text \<open>An address that may be added: it belongs to no list, or is initialised.\<close>

definition addable :: "'p lists \<Rightarrow> 'p \<Rightarrow> bool" where
  "addable m p \<longleftrightarrow> p \<notin> cells m \<or> m p = Some []"

lemma addable_out:
  assumes "rings l m" and "addable m p"
  shows "p \<notin> cells (m(p := None))"
proof (cases "m p")
  case None
  then have "m(p := None) = m" by auto
  with None assms(2) show ?thesis by (simp add: addable_def)
next
  case (Some xs)
  then show ?thesis using cells_forget [OF assms(1) Some] by auto
qed

lemma rings_add:
  assumes "rings l m" and "addable m new" and "p \<in> cells (m(new := None))"
  shows "rings (list_add new p l) (at_list p (after p [new]) (m(new := None)))"
    and "rings (list_add_tail new p l) (at_list p (before p [new]) (m(new := None)))"
proof -
  let ?m = "m(new := None)"
  note out = addable_out [OF assms(1,2)] and r = rings_forget [OF assms(1), of new]
  from assms(3) obtain h xs where h: "?m h = Some xs" "p \<in> set (h # xs)" by (rule cellsE)
  have new: "new \<notin> set (h # xs)" using out cellsI [of ?m, OF h(1)] by blast
  note ring = ringsD [OF r h(1)] and sub = set_places [OF h(2), of "[new]"]
  have N: "{new} \<inter> cells ?m = {}" using out by simp
  show "rings (list_add new p l) (at_list p (after p [new]) ?m)"
    unfolding at_list_eq [OF r h] using add_at_cell [OF ring h(2) new] sub(1) N
    by (intro rings_update [where m = ?m and N = "{new}", OF r h(1)]) simp_all
  show "rings (list_add_tail new p l) (at_list p (before p [new]) ?m)"
    unfolding at_list_eq [OF r h] using add_tail_at_cell [OF ring h(2) new] sub(2) N
    by (intro rings_update [where m = ?m and N = "{new}", OF r h(1)]) simp_all
qed

lemma rings_init:
  assumes "rings l m" and "p \<notin> entries_in m"
  shows "rings (INIT_LIST_HEAD p l) (m(p \<mapsto> []))"
proof -
  have out: "p \<notin> cells (m(p := None))" using assms(2) by (auto simp: entries_in_def cells_def split: if_splits)
  have "rings (INIT_LIST_HEAD p l) (m(p := None))"
    using out by (intro rings_writes [OF rings_forget [OF assms(1)] ring_init(2)]) simp
  from rings_new [OF this ring_init(1)] out show ?thesis by simp
qed

text \<open>Taking an entry, or an initialised address, out.\<close>

definition takeable :: "'p lists \<Rightarrow> 'p \<Rightarrow> bool" where
  "takeable m e \<longleftrightarrow> e \<in> entries_in m \<or> m e = Some []"

definition take_out :: "'p \<Rightarrow> 'p lists \<Rightarrow> 'p lists" where
  "take_out e m = (at_list e (\<lambda>h. remove1 e) m)(e := None)"

lemma link_linked: "linked l p q \<Longrightarrow> link p q l = l"
  unfolding linked_def link_def by (cases l) (auto simp: fun_upd_idem)

lemma entry_no_head:
  assumes "rings l m" and "m h = Some xs" and "e \<in> set xs"
  shows "m e = None"
proof (cases "m e")
  case (Some ys)
  have "e = h" by (rule rings_apart [OF assms(1,2) Some, of e]) (use assms(3) in simp_all)
  with ringsD [OF assms(1,2)] assms(3) show ?thesis by (simp add: ring_def)
qed

lemma take_out_entry:
  assumes "rings l m" and "m h = Some xs" and "e \<in> set xs"
  shows "take_out e m = m(h \<mapsto> remove1 e xs)"
proof -
  have "m e = None" by (rule entry_no_head [OF assms])
  moreover have "e \<noteq> h" using calculation assms(2) by auto
  ultimately show ?thesis using at_list_eq [OF assms(1,2), of e] assms(3) by (auto simp: take_out_def)
qed

lemma take_out_single: "rings l m \<Longrightarrow> m e = Some [] \<Longrightarrow> take_out e m = m(e := None)"
  using at_list_eq [of l m e "[]" e] by (auto simp: take_out_def)

lemma rings_take_out:
  assumes "rings l m" and "takeable m e"
  shows "rings (list_del_entry e l) (take_out e m)" and "e \<notin> cells (take_out e m)"
proof -
  have "rings (list_del_entry e l) (take_out e m) \<and> e \<notin> cells (take_out e m)"
  proof (cases "m e = Some []")
    case True
    have "linked l (lprev l e) (lnext l e)" using ring_ends [OF ringsD [OF assms(1) True]] by (simp add: linked_def)
    then have "list_del_entry e l = l" by (simp add: list_del_entry_def as_links link_linked)
    then show ?thesis using rings_forget [OF assms(1)] cells_forget [OF assms(1) True] take_out_single [OF assms(1) True] by auto
  next
    case False
    with assms(2) obtain h xs where h: "m h = Some xs" "e \<in> set xs" by (auto simp: takeable_def entries_in_def)
    note eq = take_out_entry [OF assms(1) h] and r = ringsD [OF assms(1) h(1)]
    obtain as bs where xs: "xs = as @ e # bs" "e \<notin> set as" "e \<notin> set bs"
      using r h(2) split_entry [of xs e] unfolding ring_def by (metis distinct.simps(2))
    note del = ring_del [OF r [unfolded xs(1)]]
    have rings: "rings (list_del_entry e l) (take_out e m)" unfolding eq
    proof (rule rings_update [where m = m and N = "{}", OF assms(1) h(1)])
      show "ring (list_del_entry e l) h (remove1 e xs)" using del(1) xs by (simp add: remove1_append)
      show "writes (set (h # xs) \<union> {}) l (list_del_entry e l)" by (rule writes_mono [OF del(2)]) (auto simp: xs)
    qed (use set_remove1_subset [of e xs] in auto)
    have "e \<notin> cells (take_out e m)"
    proof
      assume "e \<in> cells (take_out e m)"
      then obtain k ys where k: "(m(h \<mapsto> remove1 e xs)) k = Some ys" "e \<in> set (k # ys)" unfolding eq by (rule cellsE)
      have "e \<noteq> h" using r h(2) by (auto simp: ring_def)
      with k xs have "k \<noteq> h" by (auto simp: remove1_append)
      with k rings_apart [OF assms(1) h(1), of k ys e] h(2) show False by simp
    qed
    with rings show ?thesis by simp
  qed
  then show "rings (list_del_entry e l) (take_out e m)" "e \<notin> cells (take_out e m)" by simp_all
qed

lemma take_out_self [simp]: "(take_out e m)(e := None) = take_out e m"
  by (simp add: take_out_def)

lemma rings_del:
  assumes "rings l m" and "takeable m e"
  shows "rings (list_del poison e l) (take_out e m)"
    and "rings (list_del_init e l) ((take_out e m)(e \<mapsto> []))"
    and "rings (list_del_init_careful e l) ((take_out e m)(e \<mapsto> []))"
proof -
  note out = rings_take_out [OF assms]
  show "rings (list_del poison e l) (take_out e m)"
    by (rule rings_writes [OF out(1), of "{e}"]) (use out(2) in \<open>auto simp: list_del_def Let_def same_at_def\<close>)
  have "e \<notin> entries_in (take_out e m)" using out(2) by (auto simp: entries_in_def cells_def)
  from rings_init [OF out(1) this] show "rings (list_del_init e l) ((take_out e m)(e \<mapsto> []))"
    by (simp add: list_del_init_def)
  moreover have "list_del_init_careful e l = list_del_init e l"
    by (simp add: list_del_init_careful_def list_del_init_def INIT_LIST_HEAD_def set_next_def set_prev_def)
  ultimately show "rings (list_del_init_careful e l) ((take_out e m)(e \<mapsto> []))" by simp
qed

lemma rings_move:
  assumes "rings l m" and "takeable m e" and "p \<in> cells (take_out e m)"
  shows "rings (list_move e p l) (at_list p (after p [e]) (take_out e m))"
    and "rings (list_move_tail e p l) (at_list p (before p [e]) (take_out e m))"
proof -
  note out = rings_take_out [OF assms(1,2)]
  have "addable (take_out e m) e" using out(2) by (simp add: addable_def)
  from rings_add [OF out(1) this, of p] assms(3)
  show "rings (list_move e p l) (at_list p (after p [e]) (take_out e m))"
    and "rings (list_move_tail e p l) (at_list p (before p [e]) (take_out e m))"
    by (simp_all add: list_move_def list_move_tail_def)
qed

text \<open>Replacing an address, which is a head or an entry.\<close>

definition put_for :: "'p \<Rightarrow> 'p \<Rightarrow> 'p lists \<Rightarrow> 'p lists" where
  "put_for old new m =
     (case m old of
        Some xs \<Rightarrow> m(old := None, new \<mapsto> xs)
      | None \<Rightarrow> at_list old (\<lambda>h. map (\<lambda>x. if x = old then new else x)) (m(new := None)))"

lemma map_replace: "p \<notin> set as \<Longrightarrow> p \<notin> set bs \<Longrightarrow> map (\<lambda>x. if x = p then q else x) (as @ p # bs) = as @ q # bs"
  by (auto intro!: map_idI)

lemma rings_replace_head:
  assumes "rings l m" and "addable m new" and "new \<noteq> old" and "m old = Some xs"
  shows "rings (list_replace old new l) (put_for old new m)" and "old \<notin> cells (put_for old new m)"
proof -
  have eq: "put_for old new m = m(new := None, old := None, new \<mapsto> xs)" using assms(3,4) by (auto simp: put_for_def)
  let ?m = "m(new := None)"
  note r = rings_forget [OF assms(1), of new] and out = addable_out [OF assms(1,2)]
  have old: "?m old = Some xs" using assms(3,4) by simp
  have new: "new \<notin> set (old # xs)" using out cellsI [of ?m, OF old] by blast
  note rep = ring_replace [OF ringsD [OF assms(1,4)] new]
  note cut = cells_forget [of l ?m, OF r old]
  have cut2: "new \<notin> cells (?m(old := None))" using out by (auto simp: cells_def split: if_splits)
  have "rings (list_replace old new l) (?m(old := None))"
    by (rule rings_writes [OF rings_forget [OF r] rep(2)]) (use cut cut2 in auto)
  from rings_new [OF this rep(1)] cut cut2 show "rings (list_replace old new l) (put_for old new m)"
    unfolding eq by auto
  show "old \<notin> cells (put_for old new m)"
  proof
    assume "old \<in> cells (put_for old new m)"
    then obtain h ys where h: "put_for old new m h = Some ys" "old \<in> set (h # ys)" by (rule cellsE)
    then show False
    proof (cases "h = new")
      case True
      with h eq assms(3) ringsD [OF assms(1,4)] show ?thesis by (auto simp: ring_def)
    next
      case False
      with h eq cellsI [of "?m(old := None)" h ys old] cut show ?thesis by (auto split: if_splits)
    qed
  qed
qed

lemma rings_replace_entry:
  assumes "rings l m" and "addable m new" and "new \<noteq> old" and "m h = Some xs" and "old \<in> set xs"
  shows "rings (list_replace old new l) (put_for old new m)" and "old \<notin> cells (put_for old new m)"
    and "put_for old new m = m(new := None, h \<mapsto> map (\<lambda>x. if x = old then new else x) xs)"
proof -
  let ?m = "m(new := None)" and ?xs = "map (\<lambda>x. if x = old then new else x) xs"
  note r = rings_forget [OF assms(1), of new] and out = addable_out [OF assms(1,2)]
  have h: "h \<noteq> new" "h \<noteq> old" using assms(2,4,5) entry_no_head [OF assms(1,4,5)] by (auto simp: addable_def cells_def)
  then have h': "?m h = Some xs" using assms(4) by simp
  have new: "new \<notin> set (h # xs)" using out cellsI [of ?m, OF h'] by blast
  show eq: "put_for old new m = m(new := None, h \<mapsto> ?xs)"
    using entry_no_head [OF assms(1,4,5)] at_list_eq [where m = ?m and p = old, OF r h'] assms(5) by (simp add: put_for_def)
  obtain as bs where xs: "xs = as @ old # bs" "old \<notin> set as" "old \<notin> set bs"
    using ringsD [OF assms(1,4)] assms(5) split_entry [of xs old] unfolding ring_def by (metis distinct.simps(2))
  note rep = ring_replace_at [OF ringsD [OF assms(1,4), unfolded xs(1)] new [unfolded xs(1)]]
  show "rings (list_replace old new l) (put_for old new m)" unfolding eq
  proof (rule rings_update [where m = ?m and N = "{new}", OF r h'])
    show "ring (list_replace old new l) h ?xs" using rep(1) unfolding xs(1) map_replace [OF xs(2,3)] .
    show "writes (set (h # xs) \<union> {new}) l (list_replace old new l)" by (rule writes_mono [OF rep(2)]) (auto simp: xs)
  qed (use out in auto)
  show "old \<notin> cells (put_for old new m)"
  proof
    assume "old \<in> cells (put_for old new m)"
    then obtain k ys where k: "(?m(h \<mapsto> ?xs)) k = Some ys" "old \<in> set (k # ys)" unfolding eq by (rule cellsE)
    with assms(3) h have "k \<noteq> h" by (auto split: if_splits)
    with k have "m k = Some ys" by (auto split: if_splits)
    from rings_apart [OF assms(1,4) this _ k(2)] assms(5) \<open>k \<noteq> h\<close> show False by simp
  qed
qed

lemma rings_replace:
  assumes "rings l m" and "addable m new" and "new \<noteq> old" and "old \<in> cells m"
  shows "rings (list_replace old new l) (put_for old new m)"
    and "rings (list_replace_init old new l) ((put_for old new m)(old \<mapsto> []))"
proof -
  from assms(4) obtain h xs where h: "m h = Some xs" "old \<in> set (h # xs)" by (rule cellsE)
  have ok: "rings (list_replace old new l) (put_for old new m)" "old \<notin> cells (put_for old new m)"
    using h rings_replace_head [OF assms(1-3), of xs] rings_replace_entry(1,2) [OF assms(1-3), of h xs]
    by (cases "old = h"; simp)+
  then show "rings (list_replace old new l) (put_for old new m)" by simp
  have "old \<notin> entries_in (put_for old new m)" using ok(2) by (auto simp: entries_in_def cells_def)
  from rings_init [OF ok(1) this] show "rings (list_replace_init old new l) ((put_for old new m)(old \<mapsto> []))"
    by (simp add: list_replace_init_def)
qed

text \<open>Exchanging two entries, of one list or of two.\<close>

definition exchange :: "'p \<Rightarrow> 'p \<Rightarrow> 'p \<Rightarrow> 'p" where
  "exchange a b x = (if x = a then b else if x = b then a else x)"

definition exchange_entries :: "'p \<Rightarrow> 'p \<Rightarrow> 'p lists \<Rightarrow> 'p lists" where
  "exchange_entries a b m = (\<lambda>h. map_option (map (exchange a b)) (m h))"

lemma after_last:
  assumes "distinct (h # us @ vs)" and "p = last (h # us)"
  shows "after p new h (us @ vs) = us @ new @ vs"
proof (cases us rule: rev_cases)
  case Nil
  then show ?thesis using assms by (simp add: after_def)
next
  case (snoc ws w)
  have "w \<notin> set ws" "w \<noteq> h" "p = w" using assms snoc by auto
  moreover have "takeWhile (\<lambda>x. x \<noteq> w) (us @ vs) = ws" "dropWhile (\<lambda>x. x \<noteq> w) (us @ vs) = w # vs"
    using \<open>w \<notin> set ws\<close> unfolding snoc by (auto simp: takeWhile_append takeWhile_eq_all_conv dropWhile_append)
  ultimately show ?thesis by (simp add: after_def snoc)
qed

lemma put_for_all:
  assumes "rings l m" and "m new = None" and "a \<in> entries_in m"
  shows "put_for a new m = (\<lambda>h. map_option (map (\<lambda>x. if x = a then new else x)) (m h))"
proof -
  from assms(3) obtain h xs where h: "m h = Some xs" "a \<in> set xs" by (auto simp: entries_in_def)
  have "m(new := None) = m" using assms(2) by auto
  then have eq: "put_for a new m = m(h \<mapsto> map (\<lambda>x. if x = a then new else x) xs)"
    using entry_no_head [OF assms(1) h] at_list_eq [OF assms(1) h(1), of a] h(2) by (simp add: put_for_def)
  have "map (\<lambda>x. if x = a then new else x) ys = ys" if "m k = Some ys" "k \<noteq> h" for k ys
  proof (rule map_idI)
    fix x
    assume "x \<in> set ys"
    with that rings_apart [OF assms(1) h(1) that(1), of a] h(2) show "(if x = a then new else x) = x" by auto
  qed
  then have "(m(h \<mapsto> map (\<lambda>x. if x = a then new else x) xs)) k = map_option (map (\<lambda>x. if x = a then new else x)) (m k)" for k
    using h(1) by (cases "k = h"; cases "m k") simp_all
  then show ?thesis unfolding eq by blast
qed

lemma entries_take_out:
  assumes "rings l m" and "a \<in> entries_in m" and "a \<noteq> b" and "b \<in> entries_in m"
  shows "a \<in> entries_in (take_out b m)"
proof -
  from assms(2,4) obtain h xs k ys where h: "m h = Some xs" "a \<in> set xs" and k: "m k = Some ys" "b \<in> set ys"
    by (auto simp: entries_in_def)
  have "(take_out b m) h = Some (if h = k then remove1 b ys else xs)" unfolding take_out_entry [OF assms(1) k] using h k by auto
  moreover have "a \<in> set (if h = k then remove1 b ys else xs)" using h k assms(3) by auto
  ultimately show ?thesis unfolding entries_in_def by blast
qed

lemma swap_lists:
  assumes "rings l m" and "a \<noteq> b" and "a \<in> entries_in m" and "m k = Some (us @ b # vs)"
    and "p = last (k # us)"
  shows "let m2 = put_for a b (take_out b m); p' = (if p = a then b else p)
    in p' \<in> cells m2 \<and> at_list p' (after p' [a]) m2 = exchange_entries a b m"
proof -
  let ?f = "\<lambda>x. if x = a then b else x" and ?p = "if p = a then b else p"
  define m1 m2 where "m1 = take_out b m" and "m2 = put_for a b m1"
  have d: "distinct (k # us @ b # vs)" using ringsD [OF assms(1,4)] by (simp add: ring_def)
  have b: "b \<in> entries_in m" "takeable m b" using assms(4) unfolding entries_in_def takeable_def by (blast intro: in_set_conv_decomp [THEN iffD2])+
  note r1 = rings_take_out [OF assms(1) b(2), folded m1_def]
  have m1: "m1 = m(k \<mapsto> us @ vs)" using take_out_entry [OF assms(1,4), of b] d by (simp add: m1_def remove1_append)
  have mb: "m1 b = None" by (simp add: m1_def take_out_def)
  have a1: "a \<in> entries_in m1" unfolding m1_def by (rule entries_take_out [OF assms(1,3,2) b(1)])
  have ak: "a \<noteq> k" using assms(3,4) entry_no_head [OF assms(1)] by (auto simp: entries_in_def)
  have m2: "m2 = (\<lambda>h. map_option (map ?f) (m1 h))" unfolding m2_def by (rule put_for_all [OF r1(1) mb a1])
  have r2: "rings (list_replace a b (list_del_entry b l)) m2" unfolding m2_def
    by (rule rings_replace(1) [OF r1(1)]) (use r1(2) a1 assms(2) in \<open>auto simp: addable_def entries_in_def cells_def\<close>)
  have mk: "m2 k = Some (map ?f us @ map ?f vs)" by (simp add: m2 m1)
  have p': "?p = last (k # map ?f us)" using assms(5) ak by (cases us rule: rev_cases) auto
  then have mem: "?p \<in> set (k # map ?f us @ map ?f vs)" by (cases us rule: rev_cases) auto
  have "distinct (k # map ?f us @ map ?f vs)" using ringsD [OF r2 mk] by (simp add: ring_def)
  from after_last [OF this p', of "[a]"] have new: "at_list ?p (after ?p [a]) m2 = m2(k \<mapsto> map ?f us @ a # map ?f vs)"
    using at_list_eq [OF r2 mk mem] by simp
  have exch: "map (exchange a b) ys = map ?f ys" if "b \<notin> set ys" for ys using that by (auto simp: exchange_def)
  have other: "b \<notin> set ys" if "m h = Some ys" "h \<noteq> k" for h ys
    using that rings_apart [OF assms(1,4) that(1), of b] by auto
  have "exchange_entries a b m = m2(k \<mapsto> map ?f us @ a # map ?f vs)"
  proof
    fix q
    show "exchange_entries a b m q = (m2(k \<mapsto> map ?f us @ a # map ?f vs)) q"
    proof (cases "q = k")
      case True
      then show ?thesis using d exch [of us] exch [of vs] assms(2,4) by (simp add: exchange_entries_def) (simp add: exchange_def)
    next
      case False
      then show ?thesis using exch [OF other] by (cases "m q") (auto simp: exchange_entries_def m2 m1)
    qed
  qed
  with new cellsI [of m2, OF mk mem] show ?thesis unfolding Let_def m1_def [symmetric] m2_def [symmetric] by simp
qed

lemma rings_swap:
  assumes "rings l m" and "a \<noteq> b" and "a \<in> entries_in m" and "b \<in> entries_in m"
  shows "rings (list_swap poison a b l) (exchange_entries a b m)"
proof -
  from assms(4) obtain k ys where "m k = Some ys" "b \<in> set ys" by (auto simp: entries_in_def)
  then obtain us vs where k: "m k = Some (us @ b # vs)" by (metis split_list)
  have p: "lprev l b = last (k # us)" by (rule ring_at(2) [OF ringsD [OF assms(1) k]])
  let ?l1 = "list_del poison b l"
  define m1 m2 p' where m12: "m1 = take_out b m" "m2 = put_for a b m1" "p' = (if lprev l b = a then b else lprev l b)"
  note lists = swap_lists [OF assms(1,2,3) k p, unfolded Let_def, folded m12(1), folded m12(2,3)]
  have tb: "takeable m b" using assms(4) by (simp add: takeable_def)
  have r1: "rings ?l1 m1" "b \<notin> cells m1" unfolding m12(1) using rings_del(1) [OF assms(1) tb] rings_take_out(2) [OF assms(1) tb] by simp_all
  obtain h xs where h: "m1 h = Some xs" "a \<in> set xs"
    using entries_take_out [OF assms(1,3,2,4)] unfolding m12(1) by (auto simp: entries_in_def)
  have "addable m1 b" using r1(2) by (simp add: addable_def)
  note rep = rings_replace_entry [OF r1(1) this assms(2) [symmetric] h, folded m12(2)]
  have "addable m2 a" "m2(a := None) = m2"
    using rep(2) by (auto simp: addable_def cells_def fun_eq_iff) (metis not_Some_eq)
  then have "rings (list_add a p' (list_replace a b ?l1)) (at_list p' (after p' [a]) m2)"
    using rings_add(1) [OF rep(1), of a p'] lists by simp
  then show ?thesis using lists by (simp add: list_swap_def Let_def m12(3))
qed

text \<open>Joining: the entries of the list \<open>q\<close> go next to \<open>p\<close>; the head \<open>q\<close> is left behind.\<close>

lemma list_empty_ring: "ring l h xs \<Longrightarrow> list_empty h l \<longleftrightarrow> xs = []"
  using ring_ends(1) [of l h xs] by (cases xs) (auto simp: list_empty_def ring_def)

lemma rings_splice_raw:
  assumes "rings l m" and "m q = Some ys" and "ys \<noteq> []" and "p \<in> cells (m(q := None))"
  shows "rings (raw_list_splice q p (lnext l p) l) (at_list p (after p ys) (m(q := None)))"
    and "rings (raw_list_splice q (lprev l p) p l) (at_list p (before p ys) (m(q := None)))"
proof -
  let ?m = "m(q := None)"
  note out = cells_forget [OF assms(1,2)] and r = rings_forget [OF assms(1), of q] and rq = ringsD [OF assms(1,2)]
  from assms(4) obtain h xs where h: "?m h = Some xs" "p \<in> set (h # xs)" by (rule cellsE)
  have new: "set (q # ys) \<inter> set (h # xs) = {}" using out cellsI [of ?m, OF h(1)] by blast
  note ring = ringsD [OF r h(1)] and sub = set_places [OF h(2), of ys]
  have N: "set (q # ys) \<inter> cells ?m = {}" using out by blast
  show "rings (raw_list_splice q p (lnext l p) l) (at_list p (after p ys) ?m)"
    unfolding at_list_eq [where m = ?m, OF r h] using splice_at_cell [OF ring h(2) rq assms(3) new] sub(1) N
    by (intro rings_update [where m = ?m and N = "set (q # ys)", OF r h(1)]) auto
  show "rings (raw_list_splice q (lprev l p) p l) (at_list p (before p ys) ?m)"
    unfolding at_list_eq [where m = ?m, OF r h] using splice_tail_at_cell [OF ring h(2) rq assms(3) new] sub(2) N
    by (intro rings_update [where m = ?m and N = "set (q # ys)", OF r h(1)]) auto
qed

lemma rings_splice:
  assumes "rings l m" and "m q = Some ys" and "p \<in> cells (m(q := None))"
  shows "rings (list_splice q p l) (if ys = [] then m else at_list p (after p ys) (m(q := None)))"
    and "rings (list_splice_tail q p l) (if ys = [] then m else at_list p (before p ys) (m(q := None)))"
  using rings_splice_raw [OF assms(1,2) _ assms(3)] list_empty_ring [OF ringsD [OF assms(1,2)]] assms(1)
  by (simp_all add: list_splice_def list_splice_tail_def)

lemma head_not_placed:
  assumes "rings l m" and "m q = Some ys" and "p \<in> cells (m(q := None))"
  shows "q \<notin> entries_in (at_list p (after p ys) (m(q := None)))" and "q \<notin> entries_in (at_list p (before p ys) (m(q := None)))"
proof -
  let ?m = "m(q := None)"
  note out = cells_forget [OF assms(1,2)] and r = rings_forget [OF assms(1), of q]
  from assms(3) obtain h xs where h: "?m h = Some xs" "p \<in> set (h # xs)" by (rule cellsE)
  have q: "q \<notin> set (h # xs)" "q \<notin> set ys" "q \<notin> cells ?m"
    using out cellsI [of ?m, OF h(1)] ringsD [OF assms(1,2)] by (auto simp: ring_def)
  have other: "q \<notin> set zs" if "(?m(h \<mapsto> ws)) k = Some zs" "q \<notin> set ws" for k ws zs
    using that q(3) cellsI [of ?m k zs q] by (cases "k = h") auto
  show "q \<notin> entries_in (at_list p (after p ys) ?m)" "q \<notin> entries_in (at_list p (before p ys) ?m)"
    unfolding at_list_eq [where m = ?m, OF r h] entries_in_def
    using set_places [OF h(2), of ys] q other by blast+
qed

lemma rings_splice_init:
  assumes "rings l m" and "m q = Some ys" and "p \<in> cells (m(q := None))"
  shows "rings (list_splice_init q p l) (if ys = [] then m else (at_list p (after p ys) (m(q := None)))(q \<mapsto> []))"
    and "rings (list_splice_tail_init q p l) (if ys = [] then m else (at_list p (before p ys) (m(q := None)))(q \<mapsto> []))"
  using rings_splice_raw [OF assms(1,2) _ assms(3)] list_empty_ring [OF ringsD [OF assms(1,2)]] assms(1)
    rings_init [OF _ head_not_placed(1) [OF assms]] rings_init [OF _ head_not_placed(2) [OF assms]]
  by (simp_all add: list_splice_init_def list_splice_tail_init_def)

text \<open>Cutting: the list \<open>q\<close> gets the front, whatever it had before.\<close>

lemma rings_cut_raw:
  assumes "rings l m" and "m h = Some (xs @ e # ys)" and "q \<noteq> h" and "q \<notin> entries_in m"
  shows "rings (raw_list_cut_position q h e l) (m(h \<mapsto> ys, q \<mapsto> xs @ [e]))"
proof -
  let ?m = "m(q := None)" and ?l = "raw_list_cut_position q h e l"
  note r = rings_forget [OF assms(1), of q] and rh = ringsD [OF assms(1,2)]
  have h: "?m h = Some (xs @ e # ys)" using assms(2,3) by simp
  have q: "q \<notin> cells ?m" using assms(4) by (auto simp: entries_in_def cells_def split: if_splits)
  then have "q \<notin> set (h # xs @ e # ys)" using cellsI [of ?m, OF h] by blast
  note cut = ring_cut [OF rh this]
  have "rings ?l (?m(h \<mapsto> ys))"
    by (rule rings_update [where m = ?m and N = "{q}", OF r h cut(2)]) (use q in \<open>auto intro: writes_mono [OF cut(3)]\<close>)
  moreover have "set (q # xs @ [e]) \<inter> cells ((?m(h \<mapsto> ys))(q := None)) = {}"
  proof -
    have False if "x \<in> set (q # xs @ [e])" "(m(q := None, h \<mapsto> ys, q := None)) k = Some zs" "x \<in> set (k # zs)" for x k zs
    proof (cases "k = h")
      case True
      then show ?thesis using that rh \<open>q \<notin> set (h # xs @ e # ys)\<close> by (auto simp: ring_def split: if_splits)
    next
      case False
      with that have k: "m k = Some zs" "k \<noteq> q" by (auto split: if_splits)
      then have "x \<noteq> q" using q cellsI [of ?m k zs q] that(3) by auto
      with rings_apart [OF assms(1,2) k(1), of x] that False show ?thesis by auto
    qed
    then show ?thesis unfolding cells_def by blast
  qed
  ultimately show ?thesis using rings_new [of ?l "?m(h \<mapsto> ys)" q "xs @ [e]"] cut(1) assms(3)
    by (simp add: fun_upd_twist [of h q])
qed

lemma list_is_singular_ring: "ring l h xs \<Longrightarrow> list_is_singular h l \<longleftrightarrow> length xs = 1"
  using ring_ends [of l h xs]
  by (cases xs rule: remdups_adj.cases) (auto simp: list_is_singular_def list_empty_def ring_def split: if_splits)

definition cut_after :: "'p \<Rightarrow> 'p \<Rightarrow> 'p \<Rightarrow> 'p list \<Rightarrow> 'p lists \<Rightarrow> 'p lists" where
  "cut_after q h e xs m =
     (if xs = [] then m
      else if e = h then m(q \<mapsto> [])
      else m(h \<mapsto> tl (dropWhile (\<lambda>x. x \<noteq> e) xs), q \<mapsto> takeWhile (\<lambda>x. x \<noteq> e) xs @ [e]))"

lemma rings_cut_position:
  assumes "rings l m" and "m h = Some xs" and "e \<in> set (h # xs)" and "q \<noteq> h" and "q \<notin> entries_in m"
  shows "rings (list_cut_position q h e l) (cut_after q h e xs m)"
proof -
  note r = ringsD [OF assms(1,2)]
  have first: "e = lnext l h" if "length xs = 1" "e \<noteq> h"
    using that assms(3) ring_ends(1) [OF r] by (cases xs) auto
  show ?thesis using r assms(3)
  proof (cases rule: entry_cases)
    case 1
    then show ?thesis using rings_init [OF assms(1,5)] assms(1) list_empty_ring [OF r]
      by (simp add: list_cut_position_def cut_after_def list_is_head_def)
  next
    case (2 as bs)
    then show ?thesis using rings_cut_raw [OF assms(1) _ assms(4,5), of as e bs] assms(2) list_empty_ring [OF r]
        list_is_singular_ring [OF r] first by (auto simp: list_cut_position_def cut_after_def list_is_head_def)
  qed
qed

lemma cut_before_eq:
  assumes "ring l h (ys @ z # zs)"
  shows "list_cut_before q h (hd (zs @ [h])) l = raw_list_cut_position q h z l"
proof -
  have d: "distinct (h # ys @ z # zs)" using assms by (simp add: ring_def)
  define e where "e = hd (zs @ [h])"
  have e: "e \<in> set (h # zs)" unfolding e_def by (cases zs) auto
  have "lnext l z = e" using ring_at(1) [OF assms] by (simp add: e_def)
  moreover have "lprev l e = z"
  proof (cases zs)
    case Nil
    then show ?thesis using ring_ends(2) [OF assms] by (simp add: e_def)
  next
    case (Cons a bs)
    then show ?thesis using ring_at(2) [of l h "ys @ [z]" a bs] assms by (simp add: e_def)
  qed
  moreover have "lnext l h \<noteq> e" using ring_ends(1) [OF assms] d e by (cases ys) auto
  ultimately have "list_cut_before q h e l = raw_list_cut_position q h z l"
    by (simp add: list_cut_before_def raw_list_cut_position_def Let_def set_next_def set_prev_def)
  then show ?thesis by (simp add: e_def)
qed

lemma rings_cut_before:
  assumes "rings l m" and "m h = Some xs" and "e \<in> set (h # xs)" and "q \<noteq> h" and "q \<notin> entries_in m"
  shows "rings (list_cut_before q h e l) (m(h \<mapsto> dropWhile (\<lambda>x. x \<noteq> e) xs, q \<mapsto> takeWhile (\<lambda>x. x \<noteq> e) xs))"
proof -
  note r = ringsD [OF assms(1,2)]
  define us vs where uv: "us = takeWhile (\<lambda>x. x \<noteq> e) xs" "vs = dropWhile (\<lambda>x. x \<noteq> e) xs"
  have xs: "xs = us @ vs" by (simp add: uv)
  have e: "hd (vs @ [h]) = e"
  proof (cases vs)
    case Nil
    then have "e \<notin> set xs" by (auto simp: uv)
    with Nil assms(3) show ?thesis by simp
  next
    case (Cons a bs)
    then show ?thesis using hd_dropWhile [of "\<lambda>x. x \<noteq> e" xs] by (auto simp: uv)
  qed
  show ?thesis
  proof (cases us rule: rev_cases)
    case Nil
    then have "lnext l h = e" using e ring_ends(1) [OF r] xs by simp
    moreover have "m(h \<mapsto> vs, q \<mapsto> us) = m(q \<mapsto> [])" using Nil xs assms(2,4) by auto
    ultimately show ?thesis using rings_init [OF assms(1,5)] by (simp add: list_cut_before_def uv)
  next
    case (snoc ys z)
    then have "rings (raw_list_cut_position q h z l) (m(h \<mapsto> vs, q \<mapsto> us))"
      using rings_cut_raw [OF assms(1) _ assms(4,5), of ys z vs] assms(2) xs by simp
    moreover have "list_cut_before q h e l = raw_list_cut_position q h z l"
      using cut_before_eq [of l h ys z vs q] r xs snoc e by simp
    ultimately show ?thesis by (simp add: uv)
  qed
qed

text \<open>Moving entries inside of a list.\<close>

definition section_to_end :: "'p \<Rightarrow> 'p \<Rightarrow> 'p list \<Rightarrow> 'p list" where
  "section_to_end f g xs =
     (let rest = dropWhile (\<lambda>x. x \<noteq> f) xs
      in takeWhile (\<lambda>x. x \<noteq> f) xs @ tl (dropWhile (\<lambda>x. x \<noteq> g) rest) @ takeWhile (\<lambda>x. x \<noteq> g) rest @ [g])"

lemma rings_bulk_move:
  assumes "rings l m" and "m h = Some xs" and "f \<in> set xs" and "g \<in> set (dropWhile (\<lambda>x. x \<noteq> f) xs)"
  shows "rings (list_bulk_move_tail h f g l) (m(h \<mapsto> section_to_end f g xs))"
proof -
  note r = ringsD [OF assms(1,2)]
  have d: "distinct xs" using r by (simp add: ring_def)
  then obtain as bs where f: "xs = as @ f # bs" "takeWhile (\<lambda>x. x \<noteq> f) xs = as" "dropWhile (\<lambda>x. x \<noteq> f) xs = f # bs"
    using split_entry [OF d assms(3)] by metis
  have "distinct (f # bs)" "g \<in> set (f # bs)" using d f assms(4) by auto
  then obtain cs ds where g: "f # bs = cs @ g # ds" "takeWhile (\<lambda>x. x \<noteq> g) (f # bs) = cs" "dropWhile (\<lambda>x. x \<noteq> g) (f # bs) = g # ds"
    using split_entry [of "f # bs" g] by metis
  have xs: "xs = as @ (cs @ [g]) @ ds" using f g by simp
  have hd: "hd (cs @ [g]) = f" using g(1) by (cases cs) auto
  note bulk = ring_bulk_move [OF r [unfolded xs], simplified hd last_snoc]
  have eq: "section_to_end f g xs = as @ ds @ cs @ [g]" unfolding section_to_end_def Let_def f(2,3) g(2,3) by simp
  show ?thesis unfolding eq
    by (rule rings_update [where m = m and N = "{}", OF assms(1,2)]) (use bulk xs in auto)
qed

lemma rings_rotate_left:
  assumes "rings l m" and "m h = Some xs"
  shows "rings (list_rotate_left h l) (m(h \<mapsto> rotate1 xs))"
  using ring_rotate_left [OF ringsD [OF assms]]
  by (intro rings_update [where m = m and N = "{}", OF assms]) auto

lemma rings_rotate_to_front:
  assumes "rings l m" and "m h = Some xs" and "e \<in> set xs"
  shows "rings (list_rotate_to_front e h l) (m(h \<mapsto> dropWhile (\<lambda>x. x \<noteq> e) xs @ takeWhile (\<lambda>x. x \<noteq> e) xs))"
proof -
  note r = ringsD [OF assms(1,2)]
  then obtain as bs where xs: "xs = as @ e # bs" "takeWhile (\<lambda>x. x \<noteq> e) xs = as" "dropWhile (\<lambda>x. x \<noteq> e) xs = e # bs"
    using split_entry [OF _ assms(3)] unfolding ring_def by (metis distinct.simps(2))
  note rot = ring_rotate_to_front [OF r [unfolded xs(1)]]
  show ?thesis unfolding xs(2,3) using rot xs(1) by (intro rings_update [where m = m and N = "{}", OF assms(1,2)]) auto
qed

lemma entries_inI: "m h = Some xs \<Longrightarrow> e \<in> set xs \<Longrightarrow> e \<in> entries_in m"
  by (auto simp: entries_in_def)

text \<open>Iterating.\<close>

lemma list_walk_next: "h \<notin> set xs \<Longrightarrow> seg l (p # xs @ [h]) \<Longrightarrow> list_walk (lnext l) h (lnext l p) = Some xs"
proof (induction xs arbitrary: p)
  case Nil
  then show ?case by (subst list_walk.simps) (simp add: linked_def list_is_head_def)
next
  case (Cons x xs)
  then have "lnext l p = x" "list_walk (lnext l) h (lnext l x) = Some xs" by (simp_all add: linked_def)
  then show ?case using Cons.prems(1) by (subst list_walk.simps) (auto simp: list_is_head_def)
qed

lemma list_walk_prev: "h \<notin> set xs \<Longrightarrow> seg l (h # xs @ [p]) \<Longrightarrow> list_walk (lprev l) h (lprev l p) = Some (rev xs)"
proof (induction xs arbitrary: p rule: rev_induct)
  case Nil
  then show ?case by (subst list_walk.simps) (simp add: linked_def list_is_head_def)
next
  case (snoc x xs)
  then have "seg l (h # xs @ [x])" "linked l x p" using seg_split [of l "h # xs" x "[p]"] by simp_all
  then have "lprev l p = x" "list_walk (lprev l) h (lprev l x) = Some (rev xs)" using snoc by (simp_all add: linked_def)
  then show ?case using snoc.prems(1) by (subst list_walk.simps) (auto simp: list_is_head_def)
qed

lemma for_each_ring:
  assumes "ring l h xs"
  shows "list_for_each h l = Some xs" and "list_for_each_prev h l = Some (rev xs)"
    and "pos \<in> set xs \<Longrightarrow> list_for_each_continue pos h l = Some (tl (dropWhile (\<lambda>x. x \<noteq> pos) xs))"
proof -
  have h: "h \<notin> set xs" "seg l (h # xs @ [h])" "distinct xs" using assms by (simp_all add: ring_def)
  show "list_for_each h l = Some xs" using list_walk_next [OF h(1,2)] by (simp add: list_for_each_def)
  show "list_for_each_prev h l = Some (rev xs)" using list_walk_prev [OF h(1,2)] by (simp add: list_for_each_prev_def)
  assume "pos \<in> set xs"
  with h(3) obtain as bs where xs: "xs = as @ pos # bs" "dropWhile (\<lambda>x. x \<noteq> pos) xs = pos # bs"
    using split_entry [of xs pos] by metis
  have "seg l (pos # bs @ [h])" using h(2) seg_split [of l "h # as" pos "bs @ [h]"] by (simp add: xs(1))
  from list_walk_next [OF _ this] h(1) xs(1)
  show "list_for_each_continue pos h l = Some (tl (dropWhile (\<lambda>x. x \<noteq> pos) xs))"
    unfolding xs(2) by (simp add: list_for_each_continue_def)
qed

lemma rings_remove_all:
  assumes "rings l m" and "m h = Some xs"
  shows "\<exists>l'. list_for_each_safe list_del_init h l = Some l' \<and> rings l' (\<lambda>p. if p \<in> set (h # xs) then Some [] else m p)"
  using assms
proof (induction xs arbitrary: l m)
  case Nil
  have "lnext l h = h" using ring_ends(1) [OF ringsD [OF Nil]] by simp
  moreover have "(\<lambda>p. if p \<in> set [h] then Some [] else m p) = m" using Nil(2) by auto
  ultimately show ?case using Nil(1) unfolding list_for_each_safe_def by (subst safe_walk.simps) (simp add: list_is_head_def)
next
  case (Cons x xs)
  note r = ringsD [OF Cons.prems]
  have x: "lnext l h = x" "x \<noteq> h" "x \<notin> set xs" "lnext l x = hd (xs @ [h])"
    using ring_ends(1) [OF r] ring_at(1) [of l h "[]" x xs] r by (auto simp: ring_def)
  let ?l = "list_del_init x l" and ?m = "m(h \<mapsto> xs, x \<mapsto> [])"
  have "take_out x m = m(h \<mapsto> xs)" using take_out_entry [OF Cons.prems, of x] by simp
  moreover have "takeable m x" using entries_inI [where m = m, OF Cons.prems(2), of x] by (simp add: takeable_def)
  ultimately have r1: "rings ?l ?m" using rings_del(2) [OF Cons.prems(1), of x] by simp
  have m1: "?m h = Some xs" using x(2) by simp
  have n: "lnext ?l h = lnext l x" using ring_ends(1) [OF ringsD [OF r1 m1]] x(4) by simp
  have "list_for_each_safe list_del_init h l = list_for_each_safe list_del_init h ?l"
    unfolding list_for_each_safe_def x(1) n using x(2) by (subst safe_walk.simps) (simp add: list_is_head_def Let_def)
  moreover have "(\<lambda>p. if p \<in> set (h # xs) then Some [] else ?m p) = (\<lambda>p. if p \<in> set (h # x # xs) then Some [] else m p)"
    by auto
  ultimately show ?case using Cons.IH [OF r1 m1] by simp
qed

section \<open>Sequences of operations\<close>

datatype 'p list_op =
    Init 'p
  | Add 'p 'p | Add_Tail 'p 'p
  | Del 'p | Del_Init 'p | Del_Init_Careful 'p
  | Replace 'p 'p | Replace_Init 'p 'p | Swap 'p 'p
  | Move 'p 'p | Move_Tail 'p 'p
  | Bulk_Move_Tail 'p 'p 'p
  | Rotate_Left 'p | Rotate_To_Front 'p 'p
  | Cut_Position 'p 'p 'p | Cut_Before 'p 'p 'p
  | Splice 'p 'p | Splice_Tail 'p 'p | Splice_Init 'p 'p | Splice_Tail_Init 'p 'p
  | Is_First 'p 'p | Is_Last 'p 'p | Is_Empty 'p | Is_Empty_Careful 'p | Is_Singular 'p
  | For_Each 'p | For_Each_Continue 'p 'p | For_Each_Prev 'p
  | Remove_All 'p

datatype 'p list_out = Done | Truth bool | Entries "'p list"

fun list_step :: "'p \<times> 'p \<Rightarrow> 'p links \<Rightarrow> 'p list_op \<Rightarrow> ('p list_out \<times> 'p links) option" where
  "list_step poison l (Init p) = Some (Done, INIT_LIST_HEAD p l)"
| "list_step poison l (Add new p) = Some (Done, list_add new p l)"
| "list_step poison l (Add_Tail new p) = Some (Done, list_add_tail new p l)"
| "list_step poison l (Del e) = Some (Done, list_del poison e l)"
| "list_step poison l (Del_Init e) = Some (Done, list_del_init e l)"
| "list_step poison l (Del_Init_Careful e) = Some (Done, list_del_init_careful e l)"
| "list_step poison l (Replace old new) = Some (Done, list_replace old new l)"
| "list_step poison l (Replace_Init old new) = Some (Done, list_replace_init old new l)"
| "list_step poison l (Swap a b) = Some (Done, list_swap poison a b l)"
| "list_step poison l (Move e p) = Some (Done, list_move e p l)"
| "list_step poison l (Move_Tail e p) = Some (Done, list_move_tail e p l)"
| "list_step poison l (Bulk_Move_Tail h f g) = Some (Done, list_bulk_move_tail h f g l)"
| "list_step poison l (Rotate_Left h) = Some (Done, list_rotate_left h l)"
| "list_step poison l (Rotate_To_Front e h) = Some (Done, list_rotate_to_front e h l)"
| "list_step poison l (Cut_Position q h e) = Some (Done, list_cut_position q h e l)"
| "list_step poison l (Cut_Before q h e) = Some (Done, list_cut_before q h e l)"
| "list_step poison l (Splice q p) = Some (Done, list_splice q p l)"
| "list_step poison l (Splice_Tail q p) = Some (Done, list_splice_tail q p l)"
| "list_step poison l (Splice_Init q p) = Some (Done, list_splice_init q p l)"
| "list_step poison l (Splice_Tail_Init q p) = Some (Done, list_splice_tail_init q p l)"
| "list_step poison l (Is_First e h) = Some (Truth (list_is_first e h l), l)"
| "list_step poison l (Is_Last e h) = Some (Truth (list_is_last e h l), l)"
| "list_step poison l (Is_Empty h) = Some (Truth (list_empty h l), l)"
| "list_step poison l (Is_Empty_Careful h) = Some (Truth (list_empty_careful h l), l)"
| "list_step poison l (Is_Singular h) = Some (Truth (list_is_singular h l), l)"
| "list_step poison l (For_Each h) = map_option (\<lambda>xs. (Entries xs, l)) (list_for_each h l)"
| "list_step poison l (For_Each_Continue pos h) = map_option (\<lambda>xs. (Entries xs, l)) (list_for_each_continue pos h l)"
| "list_step poison l (For_Each_Prev h) = map_option (\<lambda>xs. (Entries xs, l)) (list_for_each_prev h l)"
| "list_step poison l (Remove_All h) = map_option (\<lambda>l. (Done, l)) (list_for_each_safe list_del_init h l)"

text \<open>The specification, and what a caller owes: entries are entries, and what is added is in no list.\<close>

fun lists_step :: "'p lists \<Rightarrow> 'p list_op \<Rightarrow> 'p list_out \<times> 'p lists" where
  "lists_step m (Init p) = (Done, m(p \<mapsto> []))"
| "lists_step m (Add new p) = (Done, at_list p (after p [new]) (m(new := None)))"
| "lists_step m (Add_Tail new p) = (Done, at_list p (before p [new]) (m(new := None)))"
| "lists_step m (Del e) = (Done, take_out e m)"
| "lists_step m (Del_Init e) = (Done, (take_out e m)(e \<mapsto> []))"
| "lists_step m (Del_Init_Careful e) = (Done, (take_out e m)(e \<mapsto> []))"
| "lists_step m (Replace old new) = (Done, put_for old new m)"
| "lists_step m (Replace_Init old new) = (Done, (put_for old new m)(old \<mapsto> []))"
| "lists_step m (Swap a b) = (Done, exchange_entries a b m)"
| "lists_step m (Move e p) = (Done, at_list p (after p [e]) (take_out e m))"
| "lists_step m (Move_Tail e p) = (Done, at_list p (before p [e]) (take_out e m))"
| "lists_step m (Bulk_Move_Tail h f g) = (Done, m(h := map_option (section_to_end f g) (m h)))"
| "lists_step m (Rotate_Left h) = (Done, m(h := map_option rotate1 (m h)))"
| "lists_step m (Rotate_To_Front e h) =
     (Done, m(h := map_option (\<lambda>xs. dropWhile (\<lambda>x. x \<noteq> e) xs @ takeWhile (\<lambda>x. x \<noteq> e) xs) (m h)))"
| "lists_step m (Cut_Position q h e) = (Done, cut_after q h e (the (m h)) m)"
| "lists_step m (Cut_Before q h e) =
     (Done, m(h := map_option (dropWhile (\<lambda>x. x \<noteq> e)) (m h), q := map_option (takeWhile (\<lambda>x. x \<noteq> e)) (m h)))"
| "lists_step m (Splice q p) = (Done, if m q = Some [] then m else at_list p (after p (the (m q))) (m(q := None)))"
| "lists_step m (Splice_Tail q p) = (Done, if m q = Some [] then m else at_list p (before p (the (m q))) (m(q := None)))"
| "lists_step m (Splice_Init q p) =
     (Done, if m q = Some [] then m else (at_list p (after p (the (m q))) (m(q := None)))(q \<mapsto> []))"
| "lists_step m (Splice_Tail_Init q p) =
     (Done, if m q = Some [] then m else (at_list p (before p (the (m q))) (m(q := None)))(q \<mapsto> []))"
| "lists_step m (Is_First e h) = (Truth (hd (the (m h)) = e), m)"
| "lists_step m (Is_Last e h) = (Truth (last (the (m h)) = e), m)"
| "lists_step m (Is_Empty h) = (Truth (m h = Some []), m)"
| "lists_step m (Is_Empty_Careful h) = (Truth (m h = Some []), m)"
| "lists_step m (Is_Singular h) = (Truth (length (the (m h)) = 1), m)"
| "lists_step m (For_Each h) = (Entries (the (m h)), m)"
| "lists_step m (For_Each_Continue pos h) = (Entries (tl (dropWhile (\<lambda>x. x \<noteq> pos) (the (m h)))), m)"
| "lists_step m (For_Each_Prev h) = (Entries (rev (the (m h))), m)"
| "lists_step m (Remove_All h) = (Done, \<lambda>p. if p \<in> set (h # the (m h)) then Some [] else m p)"

definition entry_of_list :: "'p lists \<Rightarrow> 'p \<Rightarrow> 'p \<Rightarrow> bool" where
  "entry_of_list m h e \<longleftrightarrow> (case m h of None \<Rightarrow> False | Some xs \<Rightarrow> e \<in> set xs)"

fun lists_permit :: "'p lists \<Rightarrow> 'p list_op \<Rightarrow> bool" where
  "lists_permit m (Init p) = (p \<notin> entries_in m)"
| "lists_permit m (Add new p) = (addable m new \<and> p \<in> cells (m(new := None)))"
| "lists_permit m (Add_Tail new p) = (addable m new \<and> p \<in> cells (m(new := None)))"
| "lists_permit m (Del e) = takeable m e"
| "lists_permit m (Del_Init e) = takeable m e"
| "lists_permit m (Del_Init_Careful e) = takeable m e"
| "lists_permit m (Replace old new) = (addable m new \<and> new \<noteq> old \<and> old \<in> cells m)"
| "lists_permit m (Replace_Init old new) = (addable m new \<and> new \<noteq> old \<and> old \<in> cells m)"
| "lists_permit m (Swap a b) = (a \<noteq> b \<and> a \<in> entries_in m \<and> b \<in> entries_in m)"
| "lists_permit m (Move e p) = (takeable m e \<and> p \<in> cells (take_out e m))"
| "lists_permit m (Move_Tail e p) = (takeable m e \<and> p \<in> cells (take_out e m))"
| "lists_permit m (Bulk_Move_Tail h f g) = (entry_of_list m h f \<and> g \<in> set (dropWhile (\<lambda>x. x \<noteq> f) (the (m h))))"
| "lists_permit m (Rotate_Left h) = (m h \<noteq> None)"
| "lists_permit m (Rotate_To_Front e h) = entry_of_list m h e"
| "lists_permit m (Cut_Position q h e) = ((e = h \<and> m h \<noteq> None \<or> entry_of_list m h e) \<and> q \<noteq> h \<and> q \<notin> entries_in m)"
| "lists_permit m (Cut_Before q h e) = ((e = h \<and> m h \<noteq> None \<or> entry_of_list m h e) \<and> q \<noteq> h \<and> q \<notin> entries_in m)"
| "lists_permit m (Splice q p) = (m q \<noteq> None \<and> p \<in> cells (m(q := None)))"
| "lists_permit m (Splice_Tail q p) = (m q \<noteq> None \<and> p \<in> cells (m(q := None)))"
| "lists_permit m (Splice_Init q p) = (m q \<noteq> None \<and> p \<in> cells (m(q := None)))"
| "lists_permit m (Splice_Tail_Init q p) = (m q \<noteq> None \<and> p \<in> cells (m(q := None)))"
| "lists_permit m (Is_First e h) = entry_of_list m h e"
| "lists_permit m (Is_Last e h) = entry_of_list m h e"
| "lists_permit m (Is_Empty h) = (m h \<noteq> None)"
| "lists_permit m (Is_Empty_Careful h) = (m h \<noteq> None)"
| "lists_permit m (Is_Singular h) = (m h \<noteq> None)"
| "lists_permit m (For_Each h) = (m h \<noteq> None)"
| "lists_permit m (For_Each_Continue pos h) = entry_of_list m h pos"
| "lists_permit m (For_Each_Prev h) = (m h \<noteq> None)"
| "lists_permit m (Remove_All h) = (m h \<noteq> None)"

lemma entry_of_listE:
  assumes "entry_of_list m h e"
  obtains xs where "m h = Some xs" and "e \<in> set xs"
  using assms by (auto simp: entry_of_list_def split: option.splits)

lemma list_is_ends:
  assumes "ring l h xs" and "e \<in> set xs"
  shows "list_is_first e h l \<longleftrightarrow> hd xs = e" and "list_is_last e h l \<longleftrightarrow> last xs = e"
proof -
  have h: "h \<notin> set xs" "distinct xs" using assms(1) by (simp_all add: ring_def)
  obtain as bs where xs: "xs = as @ e # bs" using split_list [OF assms(2)] by blast
  note at = ring_at [OF assms(1) [unfolded xs]]
  show "list_is_first e h l \<longleftrightarrow> hd xs = e"
    unfolding list_is_first_def at(2) using h by (cases as) (auto simp: xs)
  show "list_is_last e h l \<longleftrightarrow> last xs = e"
    unfolding list_is_last_def at(1) using h by (cases bs) (auto simp: xs)
qed

lemma list_empty_careful_ring: "ring l h xs \<Longrightarrow> list_empty_careful h l \<longleftrightarrow> xs = []"
  using ring_ends [of l h xs] by (cases xs) (auto simp: list_empty_careful_def list_is_head_def ring_def)

lemma rings_splice_cases:
  assumes "rings l m" and "m q = Some ys" and "p \<in> cells (m(q := None))"
  shows "ys = [] \<Longrightarrow> rings (list_splice q p l) m" and "ys = [] \<Longrightarrow> rings (list_splice_tail q p l) m"
    and "ys = [] \<Longrightarrow> rings (list_splice_init q p l) m" and "ys = [] \<Longrightarrow> rings (list_splice_tail_init q p l) m"
    and "ys \<noteq> [] \<Longrightarrow> rings (list_splice q p l) (at_list p (after p ys) (m(q := None)))"
    and "ys \<noteq> [] \<Longrightarrow> rings (list_splice_tail q p l) (at_list p (before p ys) (m(q := None)))"
    and "ys \<noteq> [] \<Longrightarrow> rings (list_splice_init q p l) ((at_list p (after p ys) (m(q := None)))(q \<mapsto> []))"
    and "ys \<noteq> [] \<Longrightarrow> rings (list_splice_tail_init q p l) ((at_list p (before p ys) (m(q := None)))(q \<mapsto> []))"
  using rings_splice [OF assms] rings_splice_init [OF assms] by simp_all

lemmas list_op_rings = rings_init rings_add rings_del rings_replace rings_swap rings_move rings_rotate_left rings_splice_cases

lemmas list_step_facts = list_empty_ring [OF ringsD] list_empty_careful_ring [OF ringsD] list_is_singular_ring [OF ringsD]
  for_each_ring [OF ringsD]

lemma list_step_sim:
  assumes "rings l m" and "lists_permit m op"
  shows "\<exists>l'. list_step poison l op = Some (fst (lists_step m op), l') \<and> rings l' (snd (lists_step m op))"
proof (cases op)
  case (Bulk_Move_Tail h f g)
  with assms(2) obtain xs where "m h = Some xs" "f \<in> set xs" by (auto elim: entry_of_listE)
  with Bulk_Move_Tail assms rings_bulk_move [OF assms(1), of h xs f g] show ?thesis by simp
next
  case (Rotate_To_Front e h)
  with assms(2) obtain xs where "m h = Some xs" "e \<in> set xs" by (auto elim: entry_of_listE)
  with Rotate_To_Front rings_rotate_to_front [OF assms(1), of h xs e] show ?thesis by simp
next
  case (Cut_Position q h e)
  with assms(2) obtain xs where "m h = Some xs" "e \<in> set (h # xs)" by (auto elim: entry_of_listE)
  with Cut_Position assms rings_cut_position [OF assms(1), of h xs e q] show ?thesis by simp
next
  case (Cut_Before q h e)
  with assms(2) obtain xs where "m h = Some xs" "e \<in> set (h # xs)" by (auto elim: entry_of_listE)
  with Cut_Before assms rings_cut_before [OF assms(1), of h xs e q] show ?thesis by simp
next
  case (Is_First e h)
  with assms(2) obtain xs where "m h = Some xs" "e \<in> set xs" by (auto elim: entry_of_listE)
  with Is_First assms list_is_ends [OF ringsD [OF assms(1)], of h xs e] show ?thesis by simp
next
  case (Is_Last e h)
  with assms(2) obtain xs where "m h = Some xs" "e \<in> set xs" by (auto elim: entry_of_listE)
  with Is_Last assms list_is_ends [OF ringsD [OF assms(1)], of h xs e] show ?thesis by simp
next
  case (For_Each_Continue pos h)
  with assms(2) obtain xs where "m h = Some xs" "pos \<in> set xs" by (auto elim: entry_of_listE)
  with For_Each_Continue assms for_each_ring(3) [OF ringsD [OF assms(1)], of h xs pos] show ?thesis by simp
next
  case (Remove_All h)
  with assms(2) obtain xs where "m h = Some xs" by auto
  with Remove_All rings_remove_all [OF assms(1), of h xs] show ?thesis by auto
qed (insert assms, auto simp: list_step_facts list_op_rings dest: ringsD)

interpretation linked: simulation "list_step poison" lists_step lists_permit rings
  by unfold_locales (rule list_step_sim)

text \<open>
  C34: the pointers of \<open>list.h\<close> implement lists.  Starting from any number of lists in one memory, every sequence
  of operations whose arguments are what they should be (what is added is in no list, what is moved or removed
  is an entry) gives the results of the same operations on lists without pointers: every loop over a list
  ends and sees its entries in order, forwards and backwards, and a list that no operation names is unchanged.
\<close>

theorem list_refines_lists:
  assumes "rings l m" and "permitted_run lists_permit lists_step m ops"
  shows "\<exists>l'. run (list_step poison) l ops = Some (fst (arun lists_step m ops), l') \<and> rings l' (snd (arun lists_step m ops))"
  by (rule linked.run_sim [OF assms])

definition blank :: "nat links" where
  "blank = \<lparr>lnext = (\<lambda>p. 0), lprev = (\<lambda>p. 0)\<rparr>"

lemma blank_rings: "rings blank (\<lambda>p. None)"
  by (simp add: rings_def)

lemma one_list:
  "at_list p F [h \<mapsto> xs] = [h \<mapsto> if p \<in> set (h # xs) then F h xs else xs]"
  "cells [h \<mapsto> xs] = set (h # xs)" "entries_in [h \<mapsto> xs] = set xs" "exchange_entries a b [h \<mapsto> xs] = [h \<mapsto> map (exchange a b) xs]"
  "h \<noteq> new \<Longrightarrow> [h \<mapsto> xs](new := None) = [h \<mapsto> xs]" "entries_in (\<lambda>p. None) = {}"
  by (auto simp: at_list_def cells_def entries_in_def exchange_entries_def split: if_splits)

theorem list_refines_lists_witness:
  "\<exists>l'. run (list_step (100, 200)) blank [Init 0, Add 1 0, Add 2 0, Add_Tail 3 0, Swap 1 3, For_Each 0, For_Each_Prev 0]
    = Some ([Done, Done, Done, Done, Done, Entries [2, 3, 1], Entries [1, 3, 2]], l')"
  using list_refines_lists [OF blank_rings, of "[Init 0, Add 1 0, Add 2 0, Add_Tail 3 0, Swap 1 3, For_Each 0, For_Each_Prev 0]" "(100, 200)"]
  by (auto simp: one_list addable_def after_def before_def exchange_def)

end
