(* ===== verification/Plist.thy ===== *)
theory Plist
  imports ListRefine
begin

text \<open>
  Lists with priorities (\<open>lib/src/linux/plist.c\<close>, \<open>lib/include/linux/plist.h\<close>): a ring of all nodes in the
  order of their priorities, and a ring of the first node of every priority, by which an insertion skips the
  others.  The pointers are those of \<open>ListHead\<close>: the addresses are the \<open>list_head\<close> members of one head and
  of its nodes, and \<open>list_entry\<close> goes from a member back to the node.  \<open>CONFIG_DEBUG_PLIST\<close> is not set.

  Both rings together are shown to be one sorted list, in which nodes of equal priority keep the order of
  their insertion.
\<close>

section \<open>The operations\<close>

datatype member = Head | Node_List nat | Prio_List nat

record plist =
  pl_links :: "member links"
  pl_prio :: "nat \<Rightarrow> 32 word"
  pl_warned :: bool

text \<open>\<open>list_entry\<close>: \<^const>\<open>None\<close> for the head, which is in no node.\<close>

fun node_entry :: "member \<Rightarrow> nat option" where
  "node_entry (Node_List n) = Some n"
| "node_entry _ = None"

fun prio_entry :: "member \<Rightarrow> nat option" where
  "prio_entry (Prio_List n) = Some n"
| "prio_entry _ = None"

definition on_links :: "(member links \<Rightarrow> member links) \<Rightarrow> plist \<Rightarrow> plist" where
  "on_links f s = s\<lparr>pl_links := f (pl_links s)\<rparr>"

definition plist_head_init :: "plist \<Rightarrow> plist" where
  "plist_head_init s = on_links (INIT_LIST_HEAD Head) s"

definition plist_node_init :: "nat \<Rightarrow> 32 word \<Rightarrow> plist \<Rightarrow> plist" where
  "plist_node_init node prio s =
     (let s = s\<lparr>pl_prio := (pl_prio s)(node := prio)\<rparr>;
          s = on_links (INIT_LIST_HEAD (Prio_List node)) s
      in on_links (INIT_LIST_HEAD (Node_List node)) s)"

definition plist_head_empty :: "plist \<Rightarrow> bool" where
  "plist_head_empty s = list_empty Head (pl_links s)"

definition plist_node_empty :: "nat \<Rightarrow> plist \<Rightarrow> bool" where
  "plist_node_empty node s = list_empty (Node_List node) (pl_links s)"

definition plist_first :: "plist \<Rightarrow> nat option" where
  "plist_first s = node_entry (lnext (pl_links s) Head)"

definition plist_last :: "plist \<Rightarrow> nat option" where
  "plist_last s = node_entry (lprev (pl_links s) Head)"

definition plist_next :: "nat \<Rightarrow> plist \<Rightarrow> nat option" where
  "plist_next pos s = node_entry (lnext (pl_links s) (Node_List pos))"

definition plist_prev :: "nat \<Rightarrow> plist \<Rightarrow> nat option" where
  "plist_prev pos s = node_entry (lprev (pl_links s) (Node_List pos))"

text \<open>The loop of \<open>plist_add\<close>: \<open>node_next\<close>, \<open>iter\<close> and \<open>prev\<close> when it ends.\<close>

partial_function (option) add_loop :: "plist \<Rightarrow> nat \<Rightarrow> nat \<Rightarrow> nat \<Rightarrow> nat option \<Rightarrow> (member \<times> nat \<times> nat option) option" where
  "add_loop s node first iter prev =
     (if sint (pl_prio s node) < sint (pl_prio s iter) then Some (Node_List iter, iter, prev)
      else do {
        next \<leftarrow> prio_entry (lnext (pl_links s) (Prio_List iter));
        if next \<noteq> first then add_loop s node first next (Some iter)
        else Some (Head, next, Some iter)
      })"

definition plist_add :: "nat \<Rightarrow> plist \<Rightarrow> plist option" where
  "plist_add node s =
     (let s = (if plist_node_empty node s then s else s\<lparr>pl_warned := True\<rparr>);
          s = (if list_empty (Prio_List node) (pl_links s) then s else s\<lparr>pl_warned := True\<rparr>)
      in if plist_head_empty s then Some (on_links (list_add_tail (Node_List node) Head) s)
         else do {
           first \<leftarrow> plist_first s;
           (node_next, iter, prev) \<leftarrow> add_loop s node first first None;
           let s = (if prev = None \<or> pl_prio s (the prev) \<noteq> pl_prio s node
                    then on_links (list_add_tail (Prio_List node) (Prio_List iter)) s else s);
           Some (on_links (list_add_tail (Node_List node) node_next) s)
         })"

definition plist_del :: "nat \<Rightarrow> plist \<Rightarrow> plist option" where
  "plist_del node s =
     do {
       s \<leftarrow> (if \<not> list_empty (Prio_List node) (pl_links s)
             then do {
               s \<leftarrow> (if lnext (pl_links s) (Node_List node) \<noteq> Head
                     then do {
                       next \<leftarrow> node_entry (lnext (pl_links s) (Node_List node));
                       Some (if list_empty (Prio_List next) (pl_links s)
                             then on_links (list_add (Prio_List next) (Prio_List node)) s else s)
                     }
                     else Some s);
               Some (on_links (list_del_init (Prio_List node)) s)
             }
             else Some s);
       Some (on_links (list_del_init (Node_List node)) s)
     }"

text \<open>The loop of \<open>plist_requeue\<close>; the cursor is the address of the member, which may be the head.\<close>

partial_function (option) requeue_loop :: "plist \<Rightarrow> nat \<Rightarrow> member \<Rightarrow> member option" where
  "requeue_loop s node pos =
     (if pos = Head then Some Head
      else do {
        iter \<leftarrow> node_entry pos;
        if pl_prio s node \<noteq> pl_prio s iter then Some (Node_List iter)
        else requeue_loop s node (lnext (pl_links s) pos)
      })"

text \<open>\<open>BUG_ON\<close> stops the program, which has no result.\<close>

definition plist_requeue :: "nat \<Rightarrow> plist \<Rightarrow> plist option" where
  "plist_requeue node s =
     (if plist_head_empty s then None
      else if plist_node_empty node s then None
      else if Some node = plist_last s then Some s
      else do {
        iter \<leftarrow> plist_next node s;
        if pl_prio s node \<noteq> pl_prio s iter then Some s
        else do {
          s \<leftarrow> plist_del node s;
          node_next \<leftarrow> requeue_loop s node (lnext (pl_links s) (Node_List iter));
          Some (on_links (list_add_tail (Node_List node) node_next) s)
        }
      })"

section \<open>The first nodes of the priorities\<close>

primrec lead :: "('a \<Rightarrow> 'b) \<Rightarrow> 'b option \<Rightarrow> 'a list \<Rightarrow> 'a list" where
  "lead k p [] = []"
| "lead k p (x # xs) = (if p = Some (k x) then lead k p xs else x # lead k (Some (k x)) xs)"

abbreviation leaders :: "('a \<Rightarrow> 'b) \<Rightarrow> 'a list \<Rightarrow> 'a list" where
  "leaders k \<equiv> lead k None"

lemma lead_append: "lead k p (xs @ ys) = lead k p xs @ lead k (if xs = [] then p else Some (k (last xs))) ys"
  by (induction xs arbitrary: p) auto

lemma lead_fresh: "ys = [] \<or> k (hd ys) \<noteq> c \<Longrightarrow> lead k (Some c) ys = leaders k ys"
  by (cases ys) auto

lemma set_lead: "set (lead k p xs) \<subseteq> set xs"
  by (induction xs arbitrary: p) auto

lemma distinct_lead: "distinct xs \<Longrightarrow> distinct (lead k p xs)"
  by (induction xs arbitrary: p) (auto dest: subsetD [OF set_lead])

lemma lead_Nil [simp]: "leaders k xs = [] \<longleftrightarrow> xs = []"
  by (cases xs) auto

lemma hd_leaders: "xs \<noteq> [] \<Longrightarrow> hd (leaders k xs) = hd xs"
  by (cases xs) auto

lemma last_leaders: "xs \<noteq> [] \<Longrightarrow> k (last (leaders k xs)) = k (last xs)"
  by (induction xs rule: rev_induct) (auto simp: lead_append)

section \<open>The two rings\<close>

text \<open>
  The lists of a \<open>plist\<close> with the nodes \<open>ns\<close>, of which \<open>ls\<close> are in the ring of the priorities; the members that
  are in no ring are initialised.
\<close>

fun plist_map :: "nat list \<Rightarrow> nat list \<Rightarrow> member lists" where
  "plist_map ns ls Head = Some (map Node_List ns)"
| "plist_map ns ls (Node_List n) = (if n \<in> set ns then None else Some [])"
| "plist_map ns ls (Prio_List n) =
     (if n \<notin> set ls then Some [] else if n = hd ls then Some (map Prio_List (tl ls)) else None)"

text \<open>The first entry of a ring is as good a head as any.\<close>

lemma rings_reroot:
  assumes "rings l m" and "m h = Some (xs @ p # ys)"
  shows "rings l (m(h := None, p \<mapsto> ys @ h # xs))"
proof -
  note r = ringsD [OF assms]
  have "set (p # ys @ h # xs) = set (h # xs @ p # ys)" by auto
  with cells_forget [OF assms] have "set (p # ys @ h # xs) \<inter> cells (m(h := None)) = {}" by auto
  moreover have "(m(h := None))(p := None) = m(h := None)"
    using entry_no_head [OF assms, of p] by auto
  ultimately show ?thesis
    using rings_new [OF rings_forget [OF assms(1)] r [unfolded ring_rotate [of l h]]] by simp
qed

lemma prio_ring:
  assumes "rings l (plist_map ns ls)" and "ls \<noteq> []"
  shows "ring l (Prio_List (hd ls)) (map Prio_List (tl ls))"
  by (rule ringsD [OF assms(1)]) (use assms(2) in simp)

lemma distinct_prio: "rings l (plist_map ns ls) \<Longrightarrow> distinct ls"
  using prio_ring [of l ns ls] by (cases ls) (auto simp: ring_def distinct_map)

lemma prio_at:
  assumes "rings l (plist_map ns (as @ n # bs))"
  shows "lnext l (Prio_List n) = Prio_List (hd (bs @ as @ [n]))"
proof (cases as)
  case Nil
  then show ?thesis using ring_ends(1) [OF prio_ring [OF assms]] by (cases bs) simp_all
next
  case (Cons a cs)
  then show ?thesis
    using ring_at(1) [of l "Prio_List a" "map Prio_List cs" "Prio_List n" "map Prio_List bs"] prio_ring [OF assms]
    by (cases bs) simp_all
qed

lemma list_empty_prio:
  assumes "rings l (plist_map ns ls)"
  shows "list_empty (Prio_List n) l \<longleftrightarrow> n \<notin> set ls \<or> ls = [n]"
proof (cases "n \<in> set ls")
  case False
  then have "plist_map ns ls (Prio_List n) = Some []" by simp
  from list_empty_ring [OF ringsD [OF assms this]] False show ?thesis by simp
next
  case True
  then obtain as bs where ls: "ls = as @ n # bs" by (metis split_list)
  have "distinct (as @ n # bs)" using distinct_prio [OF assms] ls by simp
  moreover have "hd (bs @ as @ [n]) = n \<longleftrightarrow> ls = [n]" using calculation ls by (cases bs; cases as) auto
  ultimately show ?thesis using prio_at [OF assms [unfolded ls]] True by (simp add: list_empty_def)
qed

lemma node_ring: "rings l (plist_map ns ls) \<Longrightarrow> ring l Head (map Node_List ns)"
  by (rule ringsD [of l "plist_map ns ls"]) simp_all

lemma node_at:
  assumes "rings l (plist_map (as @ n # bs) ls)"
  shows "lnext l (Node_List n) = hd (map Node_List bs @ [Head])"
  using ring_at(1) [of l Head "map Node_List as" "Node_List n" "map Node_List bs"] node_ring [OF assms] by simp

lemma distinct_nodes: "rings l (plist_map ns ls) \<Longrightarrow> distinct ns"
  using node_ring [of l ns ls] by (auto simp: ring_def distinct_map)

lemma node_empty:
  assumes "rings l (plist_map ns ls)"
  shows "list_empty Head l \<longleftrightarrow> ns = []" and "list_empty (Node_List n) l \<longleftrightarrow> n \<notin> set ns"
proof -
  show "list_empty Head l \<longleftrightarrow> ns = []" using list_empty_ring [OF node_ring [OF assms]] by simp
  show "list_empty (Node_List n) l \<longleftrightarrow> n \<notin> set ns"
  proof (cases "n \<in> set ns")
    case True
    then obtain as bs where ns: "ns = as @ n # bs" by (metis split_list)
    have "n \<notin> set bs" using distinct_nodes [OF assms] ns by simp
    then have "lnext l (Node_List n) \<noteq> Node_List n" using node_at [OF assms [unfolded ns]] by (cases bs) auto
    then show ?thesis using True by (simp add: list_empty_def)
  next
    case False
    then have "plist_map ns ls (Node_List n) = Some []" by simp
    from list_empty_ring [OF ringsD [OF assms this]] False show ?thesis by simp
  qed
qed

text \<open>The steps: one member enters or leaves its ring.\<close>

lemma link_node:
  assumes "rings l (plist_map (as @ bs) ls)" and "n \<notin> set (as @ bs)"
    and "p = (if bs = [] then Head else Node_List (hd bs))"
  shows "rings (list_add_tail (Node_List n) p l) (plist_map (as @ n # bs) ls)"
proof -
  let ?m = "plist_map (as @ bs) ls" and ?n = "Node_List n"
  have n: "addable ?m ?n" using assms(2) by (simp add: addable_def)
  have h: "(?m(?n := None)) Head = Some (map Node_List (as @ bs))" by simp
  have p: "p \<in> set (Head # map Node_List (as @ bs))" unfolding assms(3) by (cases bs) auto
  note r = rings_add(2) [OF assms(1) n cellsI [where m = "?m(?n := None)", OF h p]]
  have "hd bs \<notin> set as" if "bs \<noteq> []" using that distinct_nodes [OF assms(1)] by (cases bs) auto
  then have "before p [?n] Head (map Node_List (as @ bs)) = map Node_List (as @ n # bs)"
    unfolding before_def assms(3) by (cases bs) (auto simp: takeWhile_append takeWhile_eq_all_conv dropWhile_append)
  then have "at_list p (before p [?n]) (?m(?n := None)) = ?m(?n := None, Head \<mapsto> map Node_List (as @ n # bs))"
    using at_list_eq [where m = "?m(?n := None)", OF rings_forget [OF assms(1)] h p] by simp
  also have "\<dots> = plist_map (as @ n # bs) ls"
  proof
    show "(?m(?n := None, Head \<mapsto> map Node_List (as @ n # bs))) q = plist_map (as @ n # bs) ls q" for q by (cases q) auto
  qed
  finally show ?thesis using r by simp
qed

lemma unlink_node:
  assumes "rings l (plist_map (as @ n # bs) ls)"
  shows "rings (list_del_init (Node_List n) l) (plist_map (as @ bs) ls)"
proof -
  let ?m = "plist_map (as @ n # bs) ls" and ?n = "Node_List n"
  have h: "?m Head = Some (map Node_List (as @ n # bs))" by simp
  have e: "?n \<in> set (map Node_List (as @ n # bs))" by simp
  have t: "takeable ?m ?n" using entries_inI [where m = ?m, OF h e] by (simp add: takeable_def)
  have d: "n \<notin> set as" "n \<notin> set bs" using distinct_nodes [OF assms] by auto
  have "(take_out ?n ?m)(?n \<mapsto> []) = ?m(Head \<mapsto> map Node_List (as @ bs), ?n \<mapsto> [])"
    using take_out_entry [OF assms h e] d by (simp add: remove1_append image_iff)
  also have "\<dots> = plist_map (as @ bs) ls"
  proof
    show "(?m(Head \<mapsto> map Node_List (as @ bs), ?n \<mapsto> [])) q = plist_map (as @ bs) ls q" for q using d by (cases q) auto
  qed
  finally show ?thesis using rings_del(2) [OF assms t] by simp
qed

lemma link_prio:
  assumes "rings l (plist_map ns (as @ bs))" and "n \<notin> set (as @ bs)" and "as @ bs \<noteq> []"
    and "p = (if bs = [] then hd as else hd bs)"
  shows "rings (list_add_tail (Prio_List n) (Prio_List p) l) (plist_map ns (as @ n # bs))"
proof -
  let ?ls = "as @ bs"
  let ?m = "plist_map ns ?ls" and ?n = "Prio_List n" and ?h = "Prio_List (hd ?ls)" and ?p = "Prio_List p"
  have n: "addable ?m ?n" using assms(2) by (simp add: addable_def)
  have ne: "hd ?ls \<in> set ?ls" "hd ?ls \<noteq> n" using assms(2,3) hd_in_set [of ?ls] by auto
  then have h: "(?m(?n := None)) ?h = Some (map Prio_List (tl ?ls))" by auto
  have "p \<in> set ?ls" unfolding assms(4) using assms(3) by auto
  then have p: "?p \<in> set (?h # map Prio_List (tl ?ls))" using list.set_map [of Prio_List ?ls] assms(3) by (cases ?ls) auto
  note r = rings_add(2) [OF assms(1) n cellsI [where m = "?m(?n := None)", OF h p]]
  have at: "at_list ?p (before ?p [?n]) (?m(?n := None)) = ?m(?n := None, ?h \<mapsto> before ?p [?n] ?h (map Prio_List (tl ?ls)))"
    by (rule at_list_eq [where m = "?m(?n := None)", OF rings_forget [OF assms(1)] h p])
  note d = distinct_prio [OF assms(1)]
  define m' where "m' = ?m(?n := None, ?h \<mapsto> before ?p [?n] ?h (map Prio_List (tl ?ls)))"
  have r': "rings (list_add_tail ?n ?p l) m'" using r unfolding at m'_def .
  show ?thesis
  proof (cases as)
    case Nil
    then obtain b cs where bs: "bs = b # cs" using assms(3) by (cases bs) auto
    then have "m' ?h = Some (map Prio_List cs @ ?n # [])" using Nil assms(4) by (simp add: m'_def before_def)
    from rings_reroot [OF r' this] have "rings (list_add_tail ?n ?p l) (m'(?h := None, ?n \<mapsto> ?h # map Prio_List cs))" by simp
    moreover have "m'(?h := None, ?n \<mapsto> ?h # map Prio_List cs) = plist_map ns (as @ n # bs)"
    proof
      show "(m'(?h := None, ?n \<mapsto> ?h # map Prio_List cs)) q = plist_map ns (as @ n # bs) q" for q
        using Nil bs d assms(2) by (cases q) (auto simp: m'_def)
    qed
    ultimately show ?thesis by simp
  next
    case (Cons a cs)
    have "before ?p [?n] ?h (map Prio_List (tl ?ls)) = map Prio_List (cs @ n # bs)"
    proof (cases bs)
      case Nil
      then show ?thesis using Cons assms(4) by (simp add: before_def)
    next
      case (Cons b ds)
      then show ?thesis using \<open>as = a # cs\<close> d assms(4)
        by (auto simp: before_def takeWhile_append takeWhile_eq_all_conv dropWhile_append)
    qed
    then have "m' q = plist_map ns (as @ n # bs) q" for q
      using Cons d assms(2) by (cases q) (auto simp: m'_def)
    then have "m' = plist_map ns (as @ n # bs)" by blast
    then show ?thesis using r' by simp
  qed
qed

lemma link_prio_behind:
  assumes "rings l (plist_map ns (as @ n # bs))" and "x \<notin> set (as @ n # bs)"
  shows "rings (list_add (Prio_List x) (Prio_List n) l) (plist_map ns (as @ n # x # bs))"
proof -
  let ?ls = "as @ n # bs"
  let ?m = "plist_map ns ?ls" and ?x = "Prio_List x" and ?n = "Prio_List n" and ?h = "Prio_List (hd ?ls)"
  have "addable ?m ?x" using assms(2) by (simp add: addable_def)
  have "hd ?ls \<in> set ?ls" by (cases as) auto
  then have h: "(?m(?x := None)) ?h = Some (map Prio_List (tl ?ls))" using assms(2) by (cases as) auto
  have p: "?n \<in> set (?h # map Prio_List (tl ?ls))" by (cases as) auto
  note r = rings_add(1) [OF assms(1) \<open>addable ?m ?x\<close> cellsI [where m = "?m(?x := None)", OF h p]]
  note d = distinct_prio [OF assms(1)]
  have new: "after ?n [?x] ?h (map Prio_List (tl ?ls)) = map Prio_List (tl (as @ n # x # bs))"
  proof (cases as)
    case (Cons a cs)
    then show ?thesis using d by (auto simp: after_def takeWhile_append takeWhile_eq_all_conv dropWhile_append)
  qed (simp add: after_def)
  have "at_list ?n (after ?n [?x]) (?m(?x := None)) = ?m(?x := None, ?h \<mapsto> map Prio_List (tl (as @ n # x # bs)))"
    using at_list_eq [where m = "?m(?x := None)", OF rings_forget [OF assms(1)] h p] new by simp
  also have "\<dots> = plist_map ns (as @ n # x # bs)"
  proof
    show "(?m(?x := None, ?h \<mapsto> map Prio_List (tl (as @ n # x # bs)))) q = plist_map ns (as @ n # x # bs) q" for q
      using d assms(2) by (cases q; cases as) auto
  qed
  finally show ?thesis using r by simp
qed

lemma unlink_entry:
  assumes "rings l m" and "m h = Some (as @ e # bs)"
  shows "rings (list_del_init e l) (m(h \<mapsto> as @ bs, e \<mapsto> []))"
proof -
  have e: "e \<in> set (as @ e # bs)" "e \<notin> set as" using ringsD [OF assms] by (auto simp: ring_def)
  have "takeable m e" using entries_inI [where m = m, OF assms(2) e(1)] by (simp add: takeable_def)
  from rings_del(2) [OF assms(1) this] show ?thesis
    using take_out_entry [OF assms e(1)] e(2) by (simp add: remove1_append)
qed

lemma unlink_prio:
  assumes "rings l (plist_map ns (as @ n # bs))"
  shows "rings (list_del_init (Prio_List n) l) (plist_map ns (as @ bs))"
proof -
  let ?m = "plist_map ns (as @ n # bs)" and ?n = "Prio_List n"
  note d = distinct_prio [OF assms]
  show ?thesis
  proof (cases as)
    case (Cons a cs)
    have "?m (Prio_List a) = Some (map Prio_List cs @ ?n # map Prio_List bs)" using Cons by simp
    note r = unlink_entry [where m = ?m, OF assms this]
    have "?m(Prio_List a \<mapsto> map Prio_List cs @ map Prio_List bs, ?n \<mapsto> []) = plist_map ns (as @ bs)"
    proof
      show "(?m(Prio_List a \<mapsto> map Prio_List cs @ map Prio_List bs, ?n \<mapsto> [])) q = plist_map ns (as @ bs) q" for q
        using Cons d by (cases q) auto
    qed
    with r show ?thesis by simp
  next
    case Nil
    show ?thesis
    proof (cases bs)
      case (Cons b cs)
      have "?m ?n = Some ([] @ Prio_List b # map Prio_List cs)" using Nil Cons by simp
      note r = rings_reroot [where m = ?m, OF assms this]
      have "(?m(?n := None, Prio_List b \<mapsto> map Prio_List cs @ ?n # [])) (Prio_List b) = Some (map Prio_List cs @ ?n # [])" by simp
      note r = unlink_entry [where m = "?m(?n := None, Prio_List b \<mapsto> map Prio_List cs @ ?n # [])", OF r this]
      have "(?m(?n := None, Prio_List b \<mapsto> map Prio_List cs @ ?n # [], Prio_List b \<mapsto> map Prio_List cs @ [], ?n \<mapsto> [])) q
          = plist_map ns (as @ bs) q" for q using Nil Cons d by (cases q) auto
      then have "?m(?n := None, Prio_List b \<mapsto> map Prio_List cs @ ?n # [], Prio_List b \<mapsto> map Prio_List cs @ [], ?n \<mapsto> [])
          = plist_map ns (as @ bs)" by blast
      with r show ?thesis by simp
    next
      case empty: Nil
      have n: "?m ?n = Some []" using Nil empty by simp
      then have "takeable ?m ?n" by (simp add: takeable_def)
      moreover have "(take_out ?n ?m)(?n \<mapsto> []) = plist_map ns (as @ bs)"
      proof
        show "((take_out ?n ?m)(?n \<mapsto> [])) q = plist_map ns (as @ bs) q" for q
          unfolding take_out_single [OF assms n] using Nil empty by (cases q) auto
      qed
      ultimately show ?thesis using rings_del(2) [OF assms, of ?n] by simp
    qed
  qed
qed

section \<open>The operations on the list\<close>

text \<open>The key of a node is its priority as a signed number.\<close>

definition key :: "(nat \<Rightarrow> 32 word) \<Rightarrow> nat \<Rightarrow> int" where
  "key prio n = sint (prio n)"

lemma key_eq: "key p a = key p b \<longleftrightarrow> p a = p b"
  using signed_word_eqI [of "p a" "p b"] by (auto simp: key_def)

lemma on_links_sels [simp]:
  "pl_links (on_links f s) = f (pl_links s)" "pl_prio (on_links f s) = pl_prio s" "pl_warned (on_links f s) = pl_warned s"
  by (simp_all add: on_links_def)

definition plist_ok :: "plist \<Rightarrow> nat list \<Rightarrow> bool" where
  "plist_ok s ns \<longleftrightarrow> sorted (map (key (pl_prio s)) ns)
    \<and> rings (pl_links s) (plist_map ns (leaders (key (pl_prio s)) ns)) \<and> \<not> pl_warned s"

lemma add_loop_spec:
  assumes "rings (pl_links s) (plist_map ns (as @ bs))" and "\<forall>a\<in>set as. \<not> key (pl_prio s) node < key (pl_prio s) a"
    and "bs \<noteq> [] \<Longrightarrow> key (pl_prio s) node < key (pl_prio s) (hd bs)" and "as @ bs = us @ iter # vs" and "length us \<le> length as"
    and "first = hd (as @ bs)"
  shows "add_loop s node first iter (if us = [] then None else Some (last us))
    = Some (if bs = [] then Head else Node_List (hd bs), if bs = [] then first else hd bs, if as = [] then None else Some (last as))"
  using assms(4,5)
proof (induction vs arbitrary: us iter)
  case Nil
  have nx: "lnext (pl_links s) (Prio_List iter) = Prio_List (hd (us @ [iter]))" using prio_at [of _ ns us iter "[]"] assms(1) Nil(1) by simp
  have split: "bs = [] \<and> as = us @ [iter] \<or> bs = [iter] \<and> as = us"
    using Nil by (cases bs rule: rev_cases) auto
  have "hd (us @ [iter]) = first" using assms(6) Nil(1) by simp
  with split nx assms(2,3) show ?case by (subst add_loop.simps) (auto simp: key_def)
next
  case (Cons v vs)
  show ?case
  proof (cases "length us = length as")
    case True
    with Cons.prems(1) have "as = us" "bs = iter # v # vs" by (simp_all add: append_eq_append_conv)
    with assms(3) show ?thesis by (subst add_loop.simps) (simp add: key_def)
  next
    case False
    with Cons.prems have "length (us @ [iter]) \<le> length as" by simp
    moreover have iter: "iter \<in> set as"
    proof -
      have "(as @ bs) ! length us = iter" using Cons.prems(1) by simp
      with False Cons.prems(2) show ?thesis by (auto simp: nth_append split: if_splits)
    qed
    moreover have "lnext (pl_links s) (Prio_List iter) = Prio_List v"
      using prio_at [of _ ns us iter "v # vs"] assms(1) Cons.prems(1) by simp
    moreover have "v \<noteq> first" using distinct_prio [OF assms(1)] assms(6) Cons.prems(1) by (cases us) auto
    ultimately show ?thesis using Cons.IH [of "us @ [iter]" v] Cons.prems(1) assms(2)
      by (subst add_loop.simps) (auto simp: key_def)
  qed
qed

text \<open>Where a node belongs: behind the nodes whose priority is not larger.\<close>

definition insert_prio :: "(nat \<Rightarrow> int) \<Rightarrow> nat \<Rightarrow> nat list \<Rightarrow> nat list" where
  "insert_prio k n ns = takeWhile (\<lambda>x. k x \<le> k n) ns @ n # dropWhile (\<lambda>x. k x \<le> k n) ns"

lemma insert_prio_split:
  assumes "sorted (map k ns)"
  obtains as bs where "ns = as @ bs" and "insert_prio k n ns = as @ n # bs" and "\<forall>a\<in>set as. k a \<le> k n" and "\<forall>b\<in>set bs. k n < k b"
proof -
  define as bs where ab: "as = takeWhile (\<lambda>x. k x \<le> k n) ns" "bs = dropWhile (\<lambda>x. k x \<le> k n) ns"
  have ns: "ns = as @ bs" by (simp add: ab)
  have above: "k n < k b" if mem: "b \<in> set bs" for b
  proof -
    obtain c cs where bs: "bs = c # cs" using mem by (cases bs) auto
    then have "k n < k c" using hd_dropWhile [of "\<lambda>x. k x \<le> k n" ns, folded ab(2)] by simp
    moreover have "k c \<le> k b" using assms mem unfolding ns bs by (auto simp: sorted_append)
    ultimately show ?thesis by simp
  qed
  have below: "k a \<le> k n" if mem: "a \<in> set as" for a using set_takeWhileD [OF mem [unfolded ab(1)]] by simp
  have "insert_prio k n ns = as @ n # bs" by (simp only: insert_prio_def ab)
  from that [OF ns this] above below show thesis by blast
qed

lemma sorted_insert_prio:
  assumes "sorted (map k ns)"
  shows "sorted (map k (insert_prio k n ns))"
proof (rule insert_prio_split [OF assms])
  fix as bs
  assume "ns = as @ bs" "insert_prio k n ns = as @ n # bs" "\<forall>a\<in>set as. k a \<le> k n" "\<forall>b\<in>set bs. k n < k b"
  with assms show ?thesis by (fastforce simp: sorted_append)
qed

lemma leaders_split:
  assumes "as = [] \<or> bs = [] \<or> k (last as) \<noteq> k (hd bs)"
  shows "leaders k (as @ bs) = leaders k as @ leaders k bs"
  using assms lead_fresh [of bs k "k (last as)"] by (auto simp: lead_append)

lemma leaders_snoc: "leaders k (as @ [n]) = (if as \<noteq> [] \<and> k (last as) = k n then leaders k as else leaders k as @ [n])"
  by (auto simp: lead_append)

lemma plist_okD:
  assumes "plist_ok s ns" and "k = key (pl_prio s)"
  shows "sorted (map k ns)" and "rings (pl_links s) (plist_map ns (leaders k ns))" and "\<not> pl_warned s" and "distinct ns"
  using assms distinct_nodes by (auto simp: plist_ok_def)

lemma plist_first_last:
  assumes "plist_ok s ns"
  shows "plist_head_empty s \<longleftrightarrow> ns = []" and "plist_node_empty n s \<longleftrightarrow> n \<notin> set ns"
    and "ns \<noteq> [] \<Longrightarrow> plist_first s = Some (hd ns)" and "ns \<noteq> [] \<Longrightarrow> plist_last s = Some (last ns)"
proof -
  note r = plist_okD(2) [OF assms refl]
  show "plist_head_empty s \<longleftrightarrow> ns = []" "plist_node_empty n s \<longleftrightarrow> n \<notin> set ns"
    using node_empty [OF r] by (simp_all add: plist_head_empty_def plist_node_empty_def)
  show "plist_first s = Some (hd ns)" "plist_last s = Some (last ns)" if "ns \<noteq> []"
    using ring_ends [OF node_ring [OF r]] that by (simp_all add: plist_first_def plist_last_def hd_append list.map_sel(1) last_map)
qed

lemma leaders_insert:
  assumes "\<forall>a\<in>set as. k a \<le> k n" and "\<forall>b\<in>set bs. k n < (k b :: int)"
  shows "leaders k (as @ bs) = leaders k as @ leaders k bs"
    and "leaders k (as @ n # bs)
      = (if as \<noteq> [] \<and> k (last as) = k n then leaders k as @ leaders k bs else leaders k as @ n # leaders k bs)"
proof -
  show "leaders k (as @ bs) = leaders k as @ leaders k bs"
  proof (rule leaders_split, cases "as = [] \<or> bs = []")
    case False
    then have "k (last as) \<le> k n" "k n < k (hd bs)" using assms by simp_all
    then show "as = [] \<or> bs = [] \<or> k (last as) \<noteq> k (hd bs)" by simp
  qed blast
  have "leaders k ((as @ [n]) @ bs) = leaders k (as @ [n]) @ leaders k bs"
    using assms(2) by (intro leaders_split, cases "bs = []") force+
  then show "leaders k (as @ n # bs)
      = (if as \<noteq> [] \<and> k (last as) = k n then leaders k as @ leaders k bs else leaders k as @ n # leaders k bs)"
    by (simp add: leaders_snoc)
qed

lemma add_loop_first:
  assumes "rings (pl_links s) (plist_map ns (leaders k ns))" and "k = key (pl_prio s)" and "ns = as @ bs" and "ns \<noteq> []"
    and "\<forall>a\<in>set as. k a \<le> k n" and "\<forall>b\<in>set bs. k n < k b"
  shows "add_loop s n (hd ns) (hd ns) None
    = Some (if bs = [] then Head else Node_List (hd bs), if bs = [] then hd ns else hd bs, if as = [] then None else Some (last (leaders k as)))"
proof -
  note lead = leaders_insert(1) [OF assms(5,6)]
  have le: "\<forall>a\<in>set (leaders k as). \<not> k n < k a" using assms(5) set_lead [of k None as] by (fastforce simp: not_less)
  have gr: "k n < k (hd (leaders k bs))" if "leaders k bs \<noteq> []" using that assms(6) hd_leaders [of bs k] by simp
  have split: "leaders k as @ leaders k bs = [] @ hd ns # tl (leaders k ns)"
    using assms(3,4) hd_leaders [of ns k] lead by (metis append_Nil lead_Nil list.collapse)
  have first: "hd ns = hd (leaders k as @ leaders k bs)" using split by simp
  have r: "rings (pl_links s) (plist_map ns (leaders k as @ leaders k bs))" using assms(1,3) lead by simp
  note unf = assms(2)
  from add_loop_spec [OF r [unfolded unf] le [unfolded unf] gr [unfolded unf] split [unfolded unf] _ first [unfolded unf]]
  show ?thesis unfolding unf by (cases "bs = []") (auto simp: hd_leaders)
qed

lemma link_leader:
  assumes "rings l (plist_map ns (leaders k ns))" and "ns = as @ bs" and "ns \<noteq> []" and "n \<notin> set ns"
    and "\<forall>a\<in>set as. k a \<le> k n" and "\<forall>b\<in>set bs. k n < (k b :: int)"
  shows "rings (if as = [] \<or> k (last as) \<noteq> k n
      then list_add_tail (Prio_List n) (Prio_List (if bs = [] then hd ns else hd bs)) l else l) (plist_map ns (leaders k (as @ n # bs)))"
proof -
  note lead = leaders_insert [OF assms(5,6)]
  have r: "rings l (plist_map ns (leaders k as @ leaders k bs))" using assms(1,2) lead(1) by simp
  have fresh: "n \<notin> set (leaders k as @ leaders k bs)" using assms(2,4) set_lead [of k None as] set_lead [of k None bs] by auto
  have p: "(if bs = [] then hd ns else hd bs) = (if leaders k bs = [] then hd (leaders k as) else hd (leaders k bs))"
    using assms(2,3) by (auto simp: hd_leaders)
  have "leaders k as @ leaders k bs \<noteq> []" using assms(2,3) by simp
  from link_prio [OF r fresh this p] r lead(2) show ?thesis by auto
qed

lemma plist_add_ok:
  assumes "plist_ok s ns" and "n \<notin> set ns"
  shows "\<exists>s'. plist_add n s = Some s' \<and> plist_ok s' (insert_prio (key (pl_prio s)) n ns) \<and> pl_prio s' = pl_prio s"
proof -
  define k where "k = key (pl_prio s)"
  note ok = plist_okD [OF assms(1) k_def]
  have fresh: "n \<notin> set (leaders k ns)" using assms(2) set_lead by fastforce
  then have warn: "plist_node_empty n s" "list_empty (Prio_List n) (pl_links s)"
    using plist_first_last(2) [OF assms(1)] assms(2) list_empty_prio [OF ok(2)] by simp_all
  obtain as bs where ns: "ns = as @ bs" and ins: "insert_prio k n ns = as @ n # bs"
    and le: "\<forall>a\<in>set as. k a \<le> k n" and gr: "\<forall>b\<in>set bs. k n < k b"
    by (rule insert_prio_split [OF ok(1)])
  note lead = leaders_insert [OF le gr]
  have fin: "plist_ok s' (insert_prio (key (pl_prio s)) n ns)"
    if "pl_prio s' = pl_prio s" "\<not> pl_warned s'" "rings (pl_links s') (plist_map (as @ n # bs) (leaders k (as @ n # bs)))" for s'
    using that sorted_insert_prio [OF ok(1), of n] ins by (simp add: plist_ok_def k_def)
  show ?thesis
  proof (cases "ns = []")
    case True
    then have "as = []" "bs = []" using ns by simp_all
    have "rings (list_add_tail (Node_List n) Head (pl_links s)) (plist_map [n] [])"
      using link_node [of "pl_links s" "[]" "[]" "[]" n Head] ok(2) True by simp
    moreover have "plist_map [n] [] = plist_map [n] (leaders k [n])"
    proof
      show "plist_map [n] [] q = plist_map [n] (leaders k [n]) q" for q by (cases q) auto
    qed
    ultimately have "plist_ok (on_links (list_add_tail (Node_List n) Head) s) (insert_prio (key (pl_prio s)) n ns)"
      using fin [of "on_links (list_add_tail (Node_List n) Head) s"] ok(3) \<open>as = []\<close> \<open>bs = []\<close> by simp
    then show ?thesis using warn plist_first_last(1) [OF assms(1)] True by (simp add: plist_add_def)
  next
    case False
    let ?new = "as = [] \<or> k (last as) \<noteq> k n"
    let ?next = "if bs = [] then Head else Node_List (hd bs)" and ?iter = "if bs = [] then hd ns else hd bs"
    have loop: "add_loop s n (hd ns) (hd ns) None = Some (?next, ?iter, if as = [] then None else Some (last (leaders k as)))"
      by (rule add_loop_first [OF ok(2) k_def ns False le gr])
    have prio: "pl_prio s (last (leaders k as)) \<noteq> pl_prio s n \<longleftrightarrow> k (last as) \<noteq> k n" if "as \<noteq> []"
      using last_leaders [OF that, of k] key_eq [of "pl_prio s"] by (simp add: k_def)
    define s1 where "s1 = (if ?new then on_links (list_add_tail (Prio_List n) (Prio_List ?iter)) s else s)"
    have r1: "rings (pl_links s1) (plist_map ns (leaders k (as @ n # bs)))"
    proof -
      have "pl_links s1 = (if ?new then list_add_tail (Prio_List n) (Prio_List ?iter) (pl_links s) else pl_links s)"
        by (simp add: s1_def)
      then show ?thesis using link_leader [OF ok(2) ns False assms(2) le gr] by presburger
    qed
    have "rings (pl_links (on_links (list_add_tail (Node_List n) ?next) s1)) (plist_map (as @ n # bs) (leaders k (as @ n # bs)))"
      using link_node [of _ as bs _ n ?next] r1 ns assms(2) by simp
    moreover have "pl_prio s1 = pl_prio s" "pl_warned s1 = pl_warned s" by (simp_all add: s1_def)
    ultimately have "plist_ok (on_links (list_add_tail (Node_List n) ?next) s1) (insert_prio (key (pl_prio s)) n ns)"
      using fin [of "on_links (list_add_tail (Node_List n) ?next) s1"] ok(3) by simp
    moreover have "plist_add n s = Some (on_links (list_add_tail (Node_List n) ?next) s1)"
      using warn plist_first_last(1,3) [OF assms(1)] False loop prio by (simp add: plist_add_def s1_def) 
    ultimately show ?thesis using \<open>pl_prio s1 = pl_prio s\<close> by simp
  qed
qed

text \<open>The first half of \<open>plist_del\<close>: the node leaves the ring of the priorities, and its successor takes over.\<close>

definition leave_prio :: "nat \<Rightarrow> plist \<Rightarrow> plist option" where
  "leave_prio node s =
     (if \<not> list_empty (Prio_List node) (pl_links s)
      then do {
        s \<leftarrow> (if lnext (pl_links s) (Node_List node) \<noteq> Head
              then do {
                next \<leftarrow> node_entry (lnext (pl_links s) (Node_List node));
                Some (if list_empty (Prio_List next) (pl_links s)
                      then on_links (list_add (Prio_List next) (Prio_List node)) s else s)
              }
              else Some s);
        Some (on_links (list_del_init (Prio_List node)) s)
      }
      else Some s)"

lemma plist_del_eq: "plist_del node s = map_option (on_links (list_del_init (Node_List node))) (leave_prio node s)"
  by (simp add: plist_del_def leave_prio_def split: option.splits bind_splits)

lemma plist_map_single: "plist_map ns [x] = plist_map ns []"
proof
  show "plist_map ns [x] q = plist_map ns [] q" for q by (cases q) auto
qed

text \<open>How the first nodes change when a node that is one of them goes.\<close>

lemma leaders_without:
  assumes "sorted (map k (as @ n # bs))" and "as = [] \<or> k (last as) \<noteq> (k n :: int)"
  shows "leaders k (as @ n # bs) = leaders k as @ n # lead k (Some (k n)) bs"
    and "leaders k (as @ bs) = leaders k as @ (if bs \<noteq> [] \<and> k (hd bs) = k n then [hd bs] else []) @ lead k (Some (k n)) bs"
proof -
  show "leaders k (as @ n # bs) = leaders k as @ n # lead k (Some (k n)) bs"
    using assms(2) by (auto simp: lead_append)
  have "as = [] \<or> bs = [] \<or> k (last as) \<noteq> k (hd bs)"
  proof (cases "as = [] \<or> bs = []")
    case False
    then have "k (last as) < k n" using assms by (auto simp: sorted_append order.strict_iff_order)
    moreover have "k n \<le> k (hd bs)" using False assms(1) by (auto simp: sorted_append)
    ultimately show ?thesis by simp
  qed blast
  then have "leaders k (as @ bs) = leaders k as @ leaders k bs" by (rule leaders_split)
  moreover have "leaders k bs = (if bs \<noteq> [] \<and> k (hd bs) = k n then [hd bs] else []) @ lead k (Some (k n)) bs"
    by (cases bs) auto
  ultimately show "leaders k (as @ bs) = leaders k as @ (if bs \<noteq> [] \<and> k (hd bs) = k n then [hd bs] else []) @ lead k (Some (k n)) bs"
    by simp
qed

lemma leave_prio_ok:
  assumes "plist_ok s ns" and "ns = as @ n # bs" and "k = key (pl_prio s)"
  shows "\<exists>s'. leave_prio n s = Some s' \<and> rings (pl_links s') (plist_map ns (leaders k (as @ bs)))
    \<and> pl_prio s' = pl_prio s \<and> pl_warned s' = pl_warned s"
proof -
  note ok = plist_okD [OF assms(1,3)]
  note r = ok(2) [unfolded assms(2)]
  have d: "distinct (as @ n # bs)" using ok(4) assms(2) by simp
  show ?thesis
  proof (cases "as = [] \<or> k (last as) \<noteq> k n")
    case False
    then have same: "leaders k (as @ n # bs) = leaders k (as @ bs)" by (simp add: lead_append)
    moreover have "n \<notin> set (leaders k (as @ bs))" using d set_lead by fastforce
    ultimately have "leave_prio n s = Some s" using list_empty_prio [OF r] by (simp add: leave_prio_def)
    then show ?thesis using r same assms(2) by simp
  next
    case True
    note lead = leaders_without [OF ok(1) [unfolded assms(2)] True]
    note r = r [unfolded lead(1)]
    let ?rest = "lead k (Some (k n)) bs"
    have rest: "set ?rest \<subseteq> set bs" by (rule set_lead)
    show ?thesis
    proof (cases "as = [] \<and> ?rest = []")
      case True
      then have "leave_prio n s = Some s" using list_empty_prio [OF r, of n] by (simp add: leave_prio_def)
      moreover have "plist_map ns (leaders k (as @ bs)) = plist_map ns [n]"
        using True lead(2) by (simp add: plist_map_single)
      ultimately show ?thesis using r True assms(2) by simp
    next
      case False
      then have prio: "\<not> list_empty (Prio_List n) (pl_links s)" using list_empty_prio [OF r, of n] by (auto simp: append_eq_Cons_conv)
      note at = node_at [OF r]
      show ?thesis
      proof (cases "bs \<noteq> [] \<and> k (hd bs) = k n")
        case True
        then obtain b cs where bs: "bs = b # cs" by (cases bs) auto
        have fresh: "b \<notin> set (leaders k as @ n # ?rest)"
          using True bs d set_lead [of k None as] set_lead [of k "Some (k n)" cs] by auto
        let ?l = "list_add (Prio_List b) (Prio_List n) (pl_links s)"
        have "rings (list_del_init (Prio_List n) ?l) (plist_map ns (leaders k as @ b # ?rest))"
          using unlink_prio [OF link_prio_behind [OF r fresh]] assms(2) by simp
        moreover have "leave_prio n s = Some (on_links (list_del_init (Prio_List n)) (on_links (list_add (Prio_List b) (Prio_List n)) s))"
          using prio at bs fresh list_empty_prio [OF r, of b] by (simp add: leave_prio_def)
        ultimately show ?thesis using lead(2) True bs by simp
      next
        case no: False
        have "leave_prio n s = Some (on_links (list_del_init (Prio_List n)) s)"
        proof (cases bs)
          case (Cons b cs)
          then have "b \<in> set (leaders k as @ n # ?rest)" "b \<noteq> n" using no d by auto
          then have "\<not> list_empty (Prio_List b) (pl_links s)"
            using list_empty_prio [OF r, of b] by (auto simp: append_eq_Cons_conv)
          then show ?thesis using prio at Cons by (simp add: leave_prio_def)
        qed (use prio at in \<open>simp add: leave_prio_def\<close>)
        moreover have "leaders k (as @ bs) = leaders k as @ ?rest" using lead(2) no by auto
        ultimately show ?thesis using unlink_prio [OF r] assms(2) by simp
      qed
    qed
  qed
qed

lemma plist_del_ok:
  assumes "plist_ok s ns" and "n \<in> set ns"
  shows "\<exists>s'. plist_del n s = Some s' \<and> plist_ok s' (remove1 n ns) \<and> pl_prio s' = pl_prio s"
proof -
  obtain as bs where ns: "ns = as @ n # bs" using split_list [OF assms(2)] by blast
  note ok = plist_okD [OF assms(1) refl]
  have n: "n \<notin> set as" using ok(4) ns by simp
  obtain s' where s': "leave_prio n s = Some s'" "rings (pl_links s') (plist_map ns (leaders (key (pl_prio s)) (as @ bs)))"
      "pl_prio s' = pl_prio s" "pl_warned s' = pl_warned s"
    using leave_prio_ok [OF assms(1) ns refl] by blast
  have "plist_ok (on_links (list_del_init (Node_List n)) s') (as @ bs)"
    unfolding plist_ok_def using unlink_node [OF s'(2) [unfolded ns]] s'(3,4) ok(1,3) by (simp add: ns sorted_append)
  then show ?thesis using s'(1,3) n ns by (simp add: plist_del_eq remove1_append)
qed

lemma requeue_loop_spec:
  assumes "rings (pl_links s) (plist_map (xs @ ys) ls)"
  shows "requeue_loop s n (hd (map Node_List ys @ [Head]))
    = Some (hd (map Node_List (dropWhile (\<lambda>y. pl_prio s n = pl_prio s y) ys) @ [Head]))"
  using assms
proof (induction ys arbitrary: xs)
  case Nil
  then show ?case by (subst requeue_loop.simps) simp
next
  case (Cons y ys)
  have "lnext (pl_links s) (Node_List y) = hd (map Node_List ys @ [Head])" by (rule node_at [OF Cons.prems])
  then show ?case using Cons.IH [of "xs @ [y]"] Cons.prems by (subst requeue_loop.simps) simp
qed

lemma insert_prio_at:
  assumes "\<forall>a\<in>set xs. k a \<le> k n" and "ys = [] \<or> k n < k (hd ys)"
  shows "insert_prio k n (xs @ ys) = xs @ n # ys"
  using assms by (cases ys) (auto simp: insert_prio_def takeWhile_append dropWhile_append takeWhile_eq_all_conv)

lemma link_follower:
  assumes "rings l (plist_map (xs @ ys) (leaders k (xs @ ys)))" and "xs \<noteq> []" and "k (last xs) = k n" and "n \<notin> set (xs @ ys)"
  shows "rings (list_add_tail (Node_List n) (hd (map Node_List ys @ [Head])) l) (plist_map (xs @ n # ys) (leaders k (xs @ n # ys)))"
proof -
  have "leaders k (xs @ n # ys) = leaders k (xs @ ys)" using assms(2,3) by (simp add: lead_append)
  then show ?thesis using link_node [OF assms(1,4)] by (cases ys) simp_all
qed

lemma plist_requeue_ok:
  assumes "plist_ok s ns" and "n \<in> set ns"
  shows "\<exists>s'. plist_requeue n s = Some s' \<and> plist_ok s' (insert_prio (key (pl_prio s)) n (remove1 n ns)) \<and> pl_prio s' = pl_prio s"
proof -
  define k where "k = key (pl_prio s)"
  note ok = plist_okD [OF assms(1) k_def] and ends = plist_first_last [OF assms(1)]
  obtain as bs where ns: "ns = as @ n # bs" using split_list [OF assms(2)] by blast
  have d: "distinct (as @ n # bs)" using ok(4) unfolding ns .
  have s: "sorted (map k (as @ n # bs))" using ok(1) unfolding ns .
  have rem: "remove1 n ns = as @ bs" using d ns by (simp add: remove1_append)
  have le: "\<forall>a\<in>set as. k a \<le> k n" using s by (auto simp: sorted_append)
  have start: "\<not> plist_head_empty s" "\<not> plist_node_empty n s" "plist_last s = Some (last ns)"
    using ends(1,4) plist_first_last(2) [OF assms(1), of n] assms(2) by (auto simp del: not_None_eq)
  show ?thesis
  proof (cases "bs = [] \<or> k n < k (hd bs)")
    case True
    have same: "insert_prio (key (pl_prio s)) n (remove1 n ns) = ns"
      using insert_prio_at [OF le True] rem ns by (simp add: k_def)
    have "plist_requeue n s = Some s"
    proof (cases bs)
      case Nil
      then show ?thesis using start ns by (simp add: plist_requeue_def)
    next
      case (Cons b cs)
      have "last ns \<noteq> n" using d ns Cons by auto
      moreover have "plist_next n s = Some b" using node_at [OF ok(2) [unfolded ns]] Cons by (simp add: plist_next_def)
      moreover have "pl_prio s n \<noteq> pl_prio s b" using True Cons key_eq [of "pl_prio s" n b] by (auto simp: k_def)
      ultimately show ?thesis using start by (simp add: plist_requeue_def)
    qed
    then show ?thesis using assms(1) same by simp
  next
    case False
    then obtain b cs where bs: "bs = b # cs" by (cases bs) auto
    have kb: "k b = k n" using False bs s by (auto simp: sorted_append)
    have "last ns \<noteq> n" using d ns bs by auto
    moreover have "plist_next n s = Some b" using node_at [OF ok(2) [unfolded ns]] bs by (simp add: plist_next_def)
    moreover have "pl_prio s n = pl_prio s b" using kb key_eq [of "pl_prio s" b n] by (simp add: k_def)
    moreover obtain s1 where s1: "plist_del n s = Some s1" "plist_ok s1 (as @ bs)" "pl_prio s1 = pl_prio s"
      using plist_del_ok [OF assms] rem by auto
    note ok1 = plist_okD(2) [OF s1(2) refl]
    define us vs where uv: "us = takeWhile (\<lambda>y. k y = k n) cs" "vs = dropWhile (\<lambda>y. k y = k n) cs"
    have cs: "cs = us @ vs" by (simp add: uv)
    have "lnext (pl_links s1) (Node_List b) = hd (map Node_List cs @ [Head])" using node_at [of _ as b cs] ok1 bs by simp
    moreover have "requeue_loop s1 n (hd (map Node_List cs @ [Head])) = Some (hd (map Node_List vs @ [Head]))"
      using requeue_loop_spec [of s1 "as @ [b]" cs _ n] ok1 bs s1(3) key_eq [of "pl_prio s"]
      by (simp add: uv(2) k_def eq_commute [of "pl_prio s n"])
    ultimately have req: "plist_requeue n s = Some (on_links (list_add_tail (Node_List n) (hd (map Node_List vs @ [Head]))) s1)"
      using start s1(1) by (simp add: plist_requeue_def)
    let ?xs = "as @ b # us" and ?s = "on_links (list_add_tail (Node_List n) (hd (map Node_List vs @ [Head]))) s1"
    have us: "\<forall>u\<in>set us. k u = k n" unfolding uv(1) by (auto dest: set_takeWhileD)
    have below: "\<forall>a\<in>set ?xs. k a \<le> k n" using us le kb by auto
    have "vs = [] \<or> k n < k (hd vs)"
    proof (cases vs)
      case (Cons v ws)
      then have "k v \<noteq> k n" using hd_dropWhile [of "\<lambda>y. k y = k n" cs, folded uv(2)] by simp
      moreover have "k n \<le> k v" using s bs cs Cons by (auto simp: sorted_append)
      ultimately show ?thesis using Cons by simp
    qed simp
    from insert_prio_at [OF below this] have ins: "insert_prio k n (remove1 n ns) = ?xs @ n # vs"
      using rem bs cs by simp
    have "k (last ?xs) = k n" using us kb by (cases us rule: rev_cases) auto
    moreover have "rings (pl_links s1) (plist_map (?xs @ vs) (leaders k (?xs @ vs)))" using ok1 s1(3) bs cs by (simp add: k_def)
    moreover have "n \<notin> set (?xs @ vs)" using d bs cs by auto
    ultimately have "rings (pl_links ?s) (plist_map (?xs @ n # vs) (leaders k (?xs @ n # vs)))" using link_follower [of _ ?xs vs k n] by simp
    moreover have "sorted (map k (insert_prio k n (remove1 n ns)))"
      by (rule sorted_insert_prio) (use s rem in \<open>simp add: sorted_append\<close>)
    moreover have kk: "key (pl_prio ?s) = k" "\<not> pl_warned ?s" using s1(2) by (simp_all add: s1(3) k_def plist_ok_def)
    ultimately have "plist_ok ?s (insert_prio k n (remove1 n ns))" unfolding plist_ok_def kk(1) ins by blast
    then show ?thesis using req s1(3) by (simp add: k_def)
  qed
qed

section \<open>Sequences of operations\<close>

datatype plist_op = Node_Init nat "32 word" | Insert nat | Remove nat | Requeue nat | First | Last | Next nat | Empty

datatype plist_out = Finished | Node "nat option" | Truth_Value bool

record prio_list =
  nodes :: "nat list"
  prios :: "nat \<Rightarrow> 32 word"

fun plist_step :: "plist \<Rightarrow> plist_op \<Rightarrow> (plist_out \<times> plist) option" where
  "plist_step s (Node_Init n p) = Some (Finished, plist_node_init n p s)"
| "plist_step s (Insert n) = map_option (Pair Finished) (plist_add n s)"
| "plist_step s (Remove n) = map_option (Pair Finished) (plist_del n s)"
| "plist_step s (Requeue n) = map_option (Pair Finished) (plist_requeue n s)"
| "plist_step s First = Some (Node (plist_first s), s)"
| "plist_step s Last = Some (Node (plist_last s), s)"
| "plist_step s (Next n) = Some (Node (plist_next n s), s)"
| "plist_step s Empty = Some (Truth_Value (plist_head_empty s), s)"

text \<open>The specification: one sorted list, and what comes later stands behind its equals.\<close>

fun prio_step :: "prio_list \<Rightarrow> plist_op \<Rightarrow> plist_out \<times> prio_list" where
  "prio_step a (Node_Init n p) = (Finished, a\<lparr>prios := (prios a)(n := p)\<rparr>)"
| "prio_step a (Insert n) = (Finished, a\<lparr>nodes := insert_prio (key (prios a)) n (nodes a)\<rparr>)"
| "prio_step a (Remove n) = (Finished, a\<lparr>nodes := remove1 n (nodes a)\<rparr>)"
| "prio_step a (Requeue n) = (Finished, a\<lparr>nodes := insert_prio (key (prios a)) n (remove1 n (nodes a))\<rparr>)"
| "prio_step a First = (Node (Some (hd (nodes a))), a)"
| "prio_step a Last = (Node (Some (last (nodes a))), a)"
| "prio_step a (Next n) =
     (Node (case tl (dropWhile (\<lambda>x. x \<noteq> n) (nodes a)) of [] \<Rightarrow> None | b # _ \<Rightarrow> Some b), a)"
| "prio_step a Empty = (Truth_Value (nodes a = []), a)"

fun prio_permits :: "prio_list \<Rightarrow> plist_op \<Rightarrow> bool" where
  "prio_permits a (Node_Init n p) = (n \<notin> set (nodes a))"
| "prio_permits a (Insert n) = (n \<notin> set (nodes a))"
| "prio_permits a (Remove n) = (n \<in> set (nodes a))"
| "prio_permits a (Requeue n) = (n \<in> set (nodes a))"
| "prio_permits a First = (nodes a \<noteq> [])"
| "prio_permits a Last = (nodes a \<noteq> [])"
| "prio_permits a (Next n) = (n \<in> set (nodes a))"
| "prio_permits a Empty = True"

definition plist_rel :: "plist \<Rightarrow> prio_list \<Rightarrow> bool" where
  "plist_rel s a \<longleftrightarrow> plist_ok s (nodes a) \<and> pl_prio s = prios a"

lemma lead_cong: "\<forall>x\<in>set xs. f x = g x \<Longrightarrow> lead f p xs = lead g p xs"
  by (induction xs arbitrary: p) auto

lemma plist_node_init_ok:
  assumes "plist_ok s ns" and "n \<notin> set ns"
  shows "plist_ok (plist_node_init n p s) ns" and "pl_prio (plist_node_init n p s) = (pl_prio s)(n := p)"
proof -
  let ?m = "plist_map ns (leaders (key (pl_prio s)) ns)"
  note ok = plist_okD [OF assms(1) refl]
  show prio: "pl_prio (plist_node_init n p s) = (pl_prio s)(n := p)" by (simp add: plist_node_init_def)
  have same: "\<forall>x\<in>set ns. key ((pl_prio s)(n := p)) x = key (pl_prio s) x" using assms(2) by (auto simp: key_def)
  have heads: "?m (Prio_List n) = Some []" "?m (Node_List n) = Some []" using assms(2) set_lead by fastforce+
  have no: "q \<notin> entries_in ?m" if "?m q = Some []" for q
    using that entry_no_head [OF ok(2)] by (auto simp: entries_in_def)
  have upd: "?m(q \<mapsto> []) = ?m" if "?m q = Some []" for q using that by auto
  have "rings (INIT_LIST_HEAD (Prio_List n) (pl_links s)) ?m"
    using rings_init [OF ok(2) no [OF heads(1)]] upd [OF heads(1)] by simp
  from rings_init [OF this no [OF heads(2)]] upd [OF heads(2)]
  have "rings (pl_links (plist_node_init n p s)) ?m" by (simp add: plist_node_init_def on_links_def)
  then show "plist_ok (plist_node_init n p s) ns"
    using ok(1,3) same lead_cong [OF same] by (simp add: plist_ok_def prio cong: map_cong) (simp add: plist_node_init_def)
qed

lemma plist_next_ok:
  assumes "plist_ok s ns" and "n \<in> set ns"
  shows "plist_next n s = (case tl (dropWhile (\<lambda>x. x \<noteq> n) ns) of [] \<Rightarrow> None | b # _ \<Rightarrow> Some b)"
proof -
  note ok = plist_okD [OF assms(1) refl]
  obtain as bs where ns: "ns = as @ n # bs" "dropWhile (\<lambda>x. x \<noteq> n) ns = n # bs" using split_entry [OF ok(4) assms(2)] by metis
  show ?thesis unfolding ns(2) using node_at [OF ok(2) [unfolded ns(1)]] by (cases bs) (simp_all add: plist_next_def)
qed

lemma plist_step_sim:
  assumes "plist_rel s a" and "prio_permits a op"
  shows "\<exists>s'. plist_step s op = Some (fst (prio_step a op), s') \<and> plist_rel s' (snd (prio_step a op))"
proof -
  have ok: "plist_ok s (nodes a)" "pl_prio s = prios a" using assms(1) by (simp_all add: plist_rel_def)
  show ?thesis
    using assms(2) ok plist_node_init_ok [OF ok(1)] plist_add_ok [OF ok(1)] plist_del_ok [OF ok(1)] plist_requeue_ok [OF ok(1)]
      plist_first_last [OF ok(1)] plist_next_ok [OF ok(1)]
    by (cases op) (auto simp: plist_rel_def)
qed

interpretation priorities: simulation plist_step prio_step prio_permits plist_rel
  by unfold_locales (rule plist_step_sim)

text \<open>
  C35: the two rings of a \<open>plist\<close> implement one list that is sorted by priority.  Every sequence of operations with
  permitted arguments returns, without a warning and without stopping at a \<open>BUG_ON\<close>; a node is inserted behind
  all nodes of its own and of smaller priority values, requeueing moves it behind its equals, and the first
  node is one with the smallest value.
\<close>

theorem plist_refines_sorted_list:
  assumes "plist_rel s a" and "permitted_run prio_permits prio_step a ops"
  shows "\<exists>s'. run plist_step s ops = Some (fst (arun prio_step a ops), s') \<and> plist_rel s' (snd (arun prio_step a ops))
    \<and> sorted (map (\<lambda>n. sint (pl_prio s' n)) (nodes (snd (arun prio_step a ops)))) \<and> \<not> pl_warned s'"
proof -
  obtain s' where s': "run plist_step s ops = Some (fst (arun prio_step a ops), s')" "plist_rel s' (snd (arun prio_step a ops))"
    using priorities.run_sim [OF assms] by blast
  then show ?thesis by (auto simp: plist_rel_def plist_ok_def key_def [abs_def])
qed

definition fresh_plist :: plist where
  "fresh_plist = plist_head_init \<lparr>pl_links = \<lparr>lnext = (\<lambda>p. p), lprev = (\<lambda>p. p)\<rparr>, pl_prio = (\<lambda>n. 0), pl_warned = False\<rparr>"

lemma fresh_plist_rel: "plist_rel fresh_plist \<lparr>nodes = [], prios = (\<lambda>n. 0)\<rparr>"
proof -
  have all: "plist_map [] [] q = Some []" for q by (cases q) auto
  show ?thesis
    by (auto simp: plist_rel_def plist_ok_def fresh_plist_def plist_head_init_def on_links_def INIT_LIST_HEAD_def rings_def
        ring_def linked_def all)
qed

definition plist_demo :: "plist_op list" where
  "plist_demo = [Node_Init 1 5, Insert 1, Insert 2, Insert 3, Requeue 2, First]"

abbreviation (input) demo_prios :: "nat \<Rightarrow> 32 word" where
  "demo_prios \<equiv> (\<lambda>n. 0)(1 := 5)"

lemma plist_demo_steps:
  "prio_step \<lparr>nodes = [], prios = (\<lambda>n. 0)\<rparr> (Node_Init 1 5) = (Finished, \<lparr>nodes = [], prios = demo_prios\<rparr>)"
  "prio_step \<lparr>nodes = [], prios = demo_prios\<rparr> (Insert 1) = (Finished, \<lparr>nodes = [1], prios = demo_prios\<rparr>)"
  "prio_step \<lparr>nodes = [1], prios = demo_prios\<rparr> (Insert 2) = (Finished, \<lparr>nodes = [2, 1], prios = demo_prios\<rparr>)"
  "prio_step \<lparr>nodes = [2, 1], prios = demo_prios\<rparr> (Insert 3) = (Finished, \<lparr>nodes = [2, 3, 1], prios = demo_prios\<rparr>)"
  "prio_step \<lparr>nodes = [2, 3, 1], prios = demo_prios\<rparr> (Requeue 2) = (Finished, \<lparr>nodes = [3, 2, 1], prios = demo_prios\<rparr>)"
  "prio_step \<lparr>nodes = [3, 2, 1], prios = demo_prios\<rparr> First = (Node (Some 3), \<lparr>nodes = [3, 2, 1], prios = demo_prios\<rparr>)"
  by (simp_all add: insert_prio_def key_def)

lemma plist_demo_run:
  "permitted_run prio_permits prio_step \<lparr>nodes = [], prios = (\<lambda>n. 0)\<rparr> plist_demo"
  "fst (arun prio_step \<lparr>nodes = [], prios = (\<lambda>n. 0)\<rparr> plist_demo)
    = [Finished, Finished, Finished, Finished, Finished, Node (Some 3)]"
  unfolding plist_demo_def permitted_run.simps arun.simps plist_demo_steps Let_def split_conv snd_conv fst_conv by simp_all

theorem plist_refines_sorted_list_witness:
  "\<exists>s'. run plist_step fresh_plist plist_demo
    = Some ([Finished, Finished, Finished, Finished, Finished, Node (Some 3)], s')
    \<and> \<not> pl_warned s'"
  using plist_refines_sorted_list [OF fresh_plist_rel plist_demo_run(1)] unfolding plist_demo_run(2) by blast

end
