(* ===== verification/Strings.thy ===== *)
theory Strings
  imports Kstrtox "HOL-Library.Monad_Syntax" "HOL-Library.List_Lexorder"
begin

text \<open>
  The string and memory functions (\<open>lib/src/linux/string.c\<close>) on bytes of memory.  An address that is not
  mapped holds \<^const>\<open>None\<close>; an access to it, and a loop that does not end, is a call without a result.
  A pointer result is \<^const>\<open>None\<close> for \<open>NULL\<close>.  Sizes are natural numbers (of the range of \<open>size_t\<close>).
\<close>

section \<open>Memory\<close>

type_synonym memory = "nat \<Rightarrow> u8 option"

definition put_byte :: "nat \<Rightarrow> u8 \<Rightarrow> memory \<Rightarrow> memory option" where
  "put_byte p v m = (if m p = None then None else Some (m(p \<mapsto> v)))"

section \<open>Lengths and searches\<close>

partial_function (option) strlen_loop :: "memory \<Rightarrow> nat \<Rightarrow> nat option" where
  "strlen_loop m sc = do { c \<leftarrow> m sc; if c \<noteq> 0 then strlen_loop m (sc + 1) else Some sc }"

definition strlen :: "memory \<Rightarrow> nat \<Rightarrow> nat option" where
  "strlen m s = do { sc \<leftarrow> strlen_loop m s; Some (sc - s) }"









text \<open>The inner loops: whether a character is in a string.\<close>

partial_function (option) in_string :: "memory \<Rightarrow> u8 \<Rightarrow> nat \<Rightarrow> bool option" where
  "in_string m c a = do { x \<leftarrow> m a; if x \<noteq> 0 then if c = x then Some True else in_string m c (a + 1) else Some False }"





partial_function (option) strpbrk :: "memory \<Rightarrow> nat \<Rightarrow> nat \<Rightarrow> nat option option" where
  "strpbrk m cs ct =
     do {
       c \<leftarrow> m cs;
       if c \<noteq> 0 then do {
         found \<leftarrow> in_string m c ct;
         if found then Some (Some cs) else strpbrk m (cs + 1) ct
       } else Some None
     }"

text \<open>The token, the new value of \<open>*s\<close> and the memory.\<close>

definition strsep :: "memory \<Rightarrow> nat option \<Rightarrow> nat \<Rightarrow> (nat option \<times> nat option \<times> memory) option" where
  "strsep m s ct =
     (case s of
        None \<Rightarrow> Some (None, None, m)
      | Some sbegin \<Rightarrow>
          do {
            end' \<leftarrow> strpbrk m sbegin ct;
            case end' of
              None \<Rightarrow> Some (Some sbegin, None, m)
            | Some e \<Rightarrow> do { m \<leftarrow> put_byte e 0 m; Some (Some sbegin, Some (e + 1), m) }
          })"

section \<open>Memory areas\<close>

fun memset :: "memory \<Rightarrow> nat \<Rightarrow> u32 \<Rightarrow> nat \<Rightarrow> memory option" where
  "memset m xs c 0 = Some m"
| "memset m xs c (Suc count) = do { m \<leftarrow> put_byte xs (ucast c) m; memset m (xs + 1) c count }"

text \<open>The wider variants store the bytes of a value, in the order that the machine has them.\<close>

fun put_bytes :: "nat \<Rightarrow> u8 list \<Rightarrow> memory \<Rightarrow> memory option" where
  "put_bytes p [] m = Some m"
| "put_bytes p (v # vs) m = do { m \<leftarrow> put_byte p v m; put_bytes (p + 1) vs m }"

fun fill_values :: "memory \<Rightarrow> nat \<Rightarrow> u8 list \<Rightarrow> nat \<Rightarrow> memory option" where
  "fill_values m xs v 0 = Some m"
| "fill_values m xs v (Suc count) = do { m \<leftarrow> put_bytes xs v m; fill_values m (xs + length v) v count }"

definition memset16 :: "(u16 \<Rightarrow> u8 list) \<Rightarrow> memory \<Rightarrow> nat \<Rightarrow> u16 \<Rightarrow> nat \<Rightarrow> memory option" where
  "memset16 bytes_of m s v count = fill_values m s (bytes_of v) count"

definition memset32 :: "(u32 \<Rightarrow> u8 list) \<Rightarrow> memory \<Rightarrow> nat \<Rightarrow> u32 \<Rightarrow> nat \<Rightarrow> memory option" where
  "memset32 bytes_of m s v count = fill_values m s (bytes_of v) count"

definition memset64 :: "(u64 \<Rightarrow> u8 list) \<Rightarrow> memory \<Rightarrow> nat \<Rightarrow> u64 \<Rightarrow> nat \<Rightarrow> memory option" where
  "memset64 bytes_of m s v count = fill_values m s (bytes_of v) count"

text \<open>A copy upwards, as in \<open>memcpy\<close>, and one downwards; the pointers of the latter are behind the areas.\<close>

fun memcpy :: "memory \<Rightarrow> nat \<Rightarrow> nat \<Rightarrow> nat \<Rightarrow> memory option" where
  "memcpy m tmp s 0 = Some m"
| "memcpy m tmp s (Suc count) = do { x \<leftarrow> m s; m \<leftarrow> put_byte tmp x m; memcpy m (tmp + 1) (s + 1) count }"

fun copy_down :: "memory \<Rightarrow> nat \<Rightarrow> nat \<Rightarrow> nat \<Rightarrow> memory option" where
  "copy_down m tmp s 0 = Some m"
| "copy_down m tmp s (Suc count) = do { x \<leftarrow> m (s - 1); m \<leftarrow> put_byte (tmp - 1) x m; copy_down m (tmp - 1) (s - 1) count }"

definition memmove :: "memory \<Rightarrow> nat \<Rightarrow> nat \<Rightarrow> nat \<Rightarrow> memory option" where
  "memmove m dest src count =
     (if dest \<le> src then memcpy m dest src count else copy_down m (dest + count) (src + count) count)"

text \<open>
  The comparison of words is compiled with \<open>CONFIG_HAVE_EFFICIENT_UNALIGNED_ACCESS\<close>; two words of 8 bytes are equal
  when all their bytes are, so that their value does not matter.
\<close>

fun ld_bytes :: "memory \<Rightarrow> nat \<Rightarrow> nat \<Rightarrow> u8 list option" where
  "ld_bytes m p 0 = Some []"
| "ld_bytes m p (Suc n) = do { x \<leftarrow> m p; xs \<leftarrow> ld_bytes m (p + 1) n; Some (x # xs) }"

function skip_words :: "memory \<Rightarrow> nat \<Rightarrow> nat \<Rightarrow> nat \<Rightarrow> (nat \<times> nat \<times> nat) option" where
  "skip_words m u1 u2 count =
     (if count \<ge> 8
      then do {
        w1 \<leftarrow> ld_bytes m u1 8;
        w2 \<leftarrow> ld_bytes m u2 8;
        if w1 \<noteq> w2 then Some (u1, u2, count) else skip_words m (u1 + 8) (u2 + 8) (count - 8)
      }
      else Some (u1, u2, count))"
  by auto
termination by (relation "measure (\<lambda>(m, u1, u2, count). count)") auto

declare skip_words.simps [simp del]

fun memcmp_loop :: "memory \<Rightarrow> nat \<Rightarrow> nat \<Rightarrow> nat \<Rightarrow> int option" where
  "memcmp_loop m su1 su2 0 = Some 0"
| "memcmp_loop m su1 su2 (Suc count) =
     do {
       x \<leftarrow> m su1;
       y \<leftarrow> m su2;
       let res = uint x - uint y;
       if res \<noteq> 0 then Some res else memcmp_loop m (su1 + 1) (su2 + 1) count
     }"

definition memcmp :: "bool \<Rightarrow> memory \<Rightarrow> nat \<Rightarrow> nat \<Rightarrow> nat \<Rightarrow> int option" where
  "memcmp unaligned m cs ct count =
     do {
       (cs, ct, count) \<leftarrow> (if unaligned then skip_words m cs ct count else Some (cs, ct, count));
       memcmp_loop m cs ct count
     }"

definition bcmp :: "bool \<Rightarrow> memory \<Rightarrow> nat \<Rightarrow> nat \<Rightarrow> nat \<Rightarrow> int option" where
  "bcmp unaligned m a b len = memcmp unaligned m a b len"

fun memscan :: "memory \<Rightarrow> nat \<Rightarrow> u32 \<Rightarrow> nat \<Rightarrow> nat option" where
  "memscan m p c 0 = Some p"
| "memscan m p c (Suc n) = do { x \<leftarrow> m p; if x = ucast c then Some p else memscan m (p + 1) c n }"

fun memchr :: "memory \<Rightarrow> nat \<Rightarrow> u32 \<Rightarrow> nat \<Rightarrow> nat option option" where
  "memchr m p c 0 = Some None"
| "memchr m p c (Suc n) = do { x \<leftarrow> m p; if ucast c = x then Some (Some p) else memchr m (p + 1) c n }"

text \<open>The loop of \<open>strstr\<close> and \<open>strnstr\<close>; both call it only when the string to look for is not empty.\<close>

function strnstr_loop :: "bool \<Rightarrow> memory \<Rightarrow> nat \<Rightarrow> nat \<Rightarrow> nat \<Rightarrow> nat \<Rightarrow> nat option option" where
  "strnstr_loop unaligned m s1 s2 len l2 =
     (if len \<ge> l2 \<and> l2 \<noteq> 0
      then do {
        r \<leftarrow> memcmp unaligned m s1 s2 l2;
        if r = 0 then Some (Some s1) else strnstr_loop unaligned m (s1 + 1) s2 (len - 1) l2
      }
      else Some None)"
  by auto
termination by (relation "measure (\<lambda>(unaligned, m, s1, s2, len, l2). len)") auto

declare strnstr_loop.simps [simp del]


definition strnstr :: "bool \<Rightarrow> memory \<Rightarrow> nat \<Rightarrow> nat \<Rightarrow> nat \<Rightarrow> nat option option" where
  "strnstr unaligned m s1 s2 len =
     do { l2 \<leftarrow> strlen m s2; if l2 = 0 then Some (Some s1) else strnstr_loop unaligned m s1 s2 len l2 }"




section \<open>Copies of strings\<close>

partial_function (option) stpcpy :: "memory \<Rightarrow> nat \<Rightarrow> nat \<Rightarrow> (nat \<times> memory) option" where
  "stpcpy m dest src =
     do { x \<leftarrow> m src; m \<leftarrow> put_byte dest x m; if x \<noteq> 0 then stpcpy m (dest + 1) (src + 1) else Some (dest, m) }"

definition strcpy :: "memory \<Rightarrow> nat \<Rightarrow> nat \<Rightarrow> memory option" where
  "strcpy m dest src = do { (e, m) \<leftarrow> stpcpy m dest src; Some m }"

fun strncpy :: "memory \<Rightarrow> nat \<Rightarrow> nat \<Rightarrow> nat \<Rightarrow> memory option" where
  "strncpy m tmp src 0 = Some m"
| "strncpy m tmp src (Suc count) =
     do { x \<leftarrow> m src; m \<leftarrow> put_byte tmp x m; strncpy m (tmp + 1) (if x \<noteq> 0 then src + 1 else src) count }"


definition strcat :: "memory \<Rightarrow> nat \<Rightarrow> nat \<Rightarrow> memory option" where
  "strcat m dest src = do { dest \<leftarrow> strlen_loop m dest; strcpy m dest src }"




section \<open>Comparisons of strings\<close>



definition isupper :: "u8 \<Rightarrow> bool" where
  "isupper c \<longleftrightarrow> ctype_table ! unat c AND CT_U \<noteq> 0"

definition tolower :: "u8 \<Rightarrow> u8" where
  "tolower c = (if isupper c then c - (65 - 97) else c)"





section \<open>Strings in memory\<close>

primrec bytes :: "memory \<Rightarrow> nat \<Rightarrow> u8 list \<Rightarrow> bool" where
  "bytes m p [] = True"
| "bytes m p (x # xs) = (m p = Some x \<and> bytes m (p + 1) xs)"

definition cstr :: "memory \<Rightarrow> nat \<Rightarrow> u8 list \<Rightarrow> bool" where
  "cstr m p s \<longleftrightarrow> 0 \<notin> set s \<and> bytes m p (s @ [0])"

lemma cstr_simps [simp]:
  "cstr m p [] \<longleftrightarrow> m p = Some 0" "cstr m p (x # s) \<longleftrightarrow> x \<noteq> 0 \<and> m p = Some x \<and> cstr m (p + 1) s"
  by (auto simp: cstr_def)

lemma bytes_append: "bytes m p (xs @ ys) \<longleftrightarrow> bytes m p xs \<and> bytes m (p + length xs) ys"
  by (induction xs arbitrary: p) auto

lemma bytes_iff: "bytes m p xs \<longleftrightarrow> (\<forall>i<length xs. m (p + i) = Some (xs ! i))"
proof (induction xs arbitrary: p)
  case (Cons x xs)
  show ?case unfolding bytes.simps Cons.IH by (simp add: All_less_Suc2)
qed simp

lemma cstr_append: "cstr m p (s @ t) \<longleftrightarrow> 0 \<notin> set s \<and> bytes m p s \<and> cstr m (p + length s) t"
  by (auto simp: cstr_def bytes_append)

lemma cstr_unique: "cstr m p s \<Longrightarrow> cstr m p t \<Longrightarrow> s = t"
proof (induction s arbitrary: p t)
  case Nil
  then show ?case by (cases t) auto
next
  case (Cons x s)
  then show ?case by (cases t) auto
qed

section \<open>Searches\<close>

text \<open>The first place with a property, as a pointer.\<close>

definition first_at :: "('a \<Rightarrow> bool) \<Rightarrow> nat \<Rightarrow> 'a list \<Rightarrow> nat option" where
  "first_at P p xs = (if \<exists>x\<in>set xs. P x then Some (p + length (takeWhile (\<lambda>x. \<not> P x) xs)) else None)"

lemma first_at_simps [simp]:
  "first_at P p [] = None" "first_at P p (x # xs) = (if P x then Some p else first_at P (p + 1) xs)"
  by (simp_all add: first_at_def)

lemma strlen_loop_cstr: "cstr m p s \<Longrightarrow> strlen_loop m p = Some (p + length s)"
  by (induction s arbitrary: p; subst strlen_loop.simps) auto

lemma strlen_cstr: "cstr m p s \<Longrightarrow> strlen m p = Some (length s)"
  by (simp add: strlen_def strlen_loop_cstr)








lemma in_string_cstr: "cstr m a t \<Longrightarrow> in_string m c a = Some (c \<in> set t)"
  by (induction t arbitrary: a; subst in_string.simps) auto



lemma strpbrk_cstr: "cstr m p s \<Longrightarrow> cstr m a t \<Longrightarrow> strpbrk m p a = Some (first_at (\<lambda>x. x \<in> set t) p s)"
  by (induction s arbitrary: p; subst strpbrk.simps) (auto simp: in_string_cstr)

section \<open>Comparisons\<close>

text \<open>The sign of a comparison is the lexicographic order.\<close>

definition orders :: "int \<Rightarrow> u8 list \<Rightarrow> u8 list \<Rightarrow> bool" where
  "orders r s t \<longleftrightarrow> (r = 0 \<longleftrightarrow> s = t) \<and> (r < 0 \<longleftrightarrow> s < t)"

lemma orders_diff: "x \<noteq> y \<Longrightarrow> orders (uint x - uint y) (x # s) (y # t)"
  by (auto simp: orders_def word_less_def dest: word_uint_eqI)

lemma orders_Cons [simp]: "orders r (x # s) (x # t) \<longleftrightarrow> orders r s t"
  by (auto simp: orders_def)

lemma orders_append: "length c = n \<Longrightarrow> take n s = c \<Longrightarrow> take n t = c \<Longrightarrow> orders r s t \<longleftrightarrow> orders r (drop n s) (drop n t)"
proof -
  have "orders r (c @ s) (c @ t) \<longleftrightarrow> orders r s t" for c s t by (induction c) auto
  then show "length c = n \<Longrightarrow> take n s = c \<Longrightarrow> take n t = c \<Longrightarrow> orders r s t \<longleftrightarrow> orders r (drop n s) (drop n t)"
    by (metis append_take_drop_id)
qed




lemma tolower_0 [simp]: "tolower 0 = 0"
  by code_simp




section \<open>Memory areas\<close>

text \<open>Memory with an area overwritten, and areas that may be written.\<close>

definition over :: "nat \<Rightarrow> u8 list \<Rightarrow> memory \<Rightarrow> memory" where
  "over p xs m = (\<lambda>a. if p \<le> a \<and> a < p + length xs then Some (xs ! (a - p)) else m a)"

definition mapped :: "memory \<Rightarrow> nat \<Rightarrow> nat \<Rightarrow> bool" where
  "mapped m p n \<longleftrightarrow> (\<forall>i<n. m (p + i) \<noteq> None)"

lemma mapped_Suc: "mapped m p (Suc n) \<longleftrightarrow> m p \<noteq> None \<and> mapped m (p + 1) n"
  by (simp add: mapped_def All_less_Suc2)

lemma mapped_upd: "mapped m p n \<Longrightarrow> mapped (m(q \<mapsto> v)) p n"
  by (simp add: mapped_def)

lemma mapped_sub:
  assumes "mapped m p n" and "p \<le> q" and "q + k \<le> p + n"
  shows "mapped m q k"
  unfolding mapped_def
proof (intro allI impI)
  fix i
  assume "i < k"
  then have "q - p + i < n" using assms(2,3) by simp
  then have "m (p + (q - p + i)) \<noteq> None" using assms(1) unfolding mapped_def by blast
  then show "m (q + i) \<noteq> None" using assms(2) by (simp add: add.assoc [symmetric])
qed

lemma bytes_mapped: "bytes m p xs \<Longrightarrow> mapped m p (length xs)"
  by (simp add: bytes_iff mapped_def)

lemma over_Nil [simp]: "over p [] m = m"
  by (rule ext) (auto simp: over_def)

lemma over_Cons: "over p (x # xs) m = over (p + 1) xs (m(p \<mapsto> x))"
proof
  fix a
  consider "a < p" | "a = p" | i where "a = p + 1 + i" by (metis add.assoc less_imp_add_positive linorder_neqE_nat plus_1_eq_Suc gr0_implies_Suc)
  then show "over p (x # xs) m a = over (p + 1) xs (m(p \<mapsto> x)) a" by cases (auto simp: over_def)
qed

lemma over_snoc: "over p (xs @ [x]) m = over p xs (m(p + length xs \<mapsto> x))"
  by (auto simp: over_def nth_append fun_eq_iff)

lemma over_append: "over p (xs @ ys) m = over (p + length xs) ys (over p xs m)"
  by (auto simp: over_def nth_append fun_eq_iff)

lemma bytes_over: "bytes (over p xs m) p xs"
  by (simp add: bytes_iff over_def)


lemma bytes_upd: "bytes m q ys \<Longrightarrow> p < q \<or> q + length ys \<le> p \<Longrightarrow> bytes (m(p \<mapsto> x)) q ys"
  by (auto simp: bytes_iff)

lemma put_byte_mapped: "m p \<noteq> None \<Longrightarrow> put_byte p v m = Some (m(p \<mapsto> v))"
  by (simp add: put_byte_def)

lemma memset_over: "mapped m p n \<Longrightarrow> memset m p c n = Some (over p (replicate n (ucast c)) m)"
proof (induction n arbitrary: p m)
  case (Suc n)
  then have "m p \<noteq> None" "mapped (m(p \<mapsto> ucast c)) (p + 1) n" by (simp_all add: mapped_Suc mapped_upd)
  then show ?case using Suc.IH [of "m(p \<mapsto> ucast c)" "p + 1"] by (simp add: put_byte_mapped over_Cons del: not_None_eq fun_upd_apply)
qed simp

lemma put_bytes_over: "mapped m p (length vs) \<Longrightarrow> put_bytes p vs m = Some (over p vs m)"
proof (induction vs arbitrary: p m)
  case (Cons v vs)
  then have "m p \<noteq> None" "mapped (m(p \<mapsto> v)) (p + 1) (length vs)" by (simp_all add: mapped_Suc mapped_upd)
  then show ?case using Cons.IH [of "m(p \<mapsto> v)" "p + 1"] by (simp add: put_byte_mapped over_Cons del: not_None_eq fun_upd_apply)
qed simp

lemma mapped_over: "mapped m q n \<Longrightarrow> mapped (over p xs m) q n"
  by (simp add: mapped_def over_def)

lemma fill_values_over:
  "mapped m p (n * length v) \<Longrightarrow> fill_values m p v n = Some (over p (concat (replicate n v)) m)"
proof (induction n arbitrary: p m)
  case (Suc n)
  have "mapped m p (length v)" "mapped m (p + length v) (n * length v)"
    using Suc.prems by (auto intro: mapped_sub)
  then show ?case using Suc.IH [of "over p v m" "p + length v"] by (simp add: put_bytes_over mapped_over over_append)
qed simp

text \<open>The direction of a copy matters only where the areas overlap.\<close>

lemma memcpy_over:
  "bytes m s xs \<Longrightarrow> mapped m d (length xs) \<Longrightarrow> d \<le> s \<or> s + length xs \<le> d \<Longrightarrow> memcpy m d s (length xs) = Some (over d xs m)"
proof (induction xs arbitrary: d s m)
  case (Cons x xs)
  have "bytes (m(d \<mapsto> x)) (s + 1) xs" using Cons.prems by (intro bytes_upd) auto
  moreover have "m d \<noteq> None" "mapped (m(d \<mapsto> x)) (d + 1) (length xs)" using Cons.prems(2) by (simp_all add: mapped_Suc mapped_upd)
  moreover have "d + 1 \<le> s + 1 \<or> s + 1 + length xs \<le> d + 1" using Cons.prems(3) by auto
  ultimately show ?case using Cons.IH [of "m(d \<mapsto> x)" "s + 1" "d + 1"] Cons.prems(1)
    by (simp add: put_byte_mapped over_Cons del: not_None_eq fun_upd_apply)
qed simp

lemma copy_down_over:
  "bytes m s xs \<Longrightarrow> mapped m d (length xs) \<Longrightarrow> s \<le> d \<Longrightarrow> copy_down m (d + length xs) (s + length xs) (length xs) = Some (over d xs m)"
proof (induction xs arbitrary: m rule: rev_induct)
  case (snoc x xs)
  have "m (d + length xs) \<noteq> None" "mapped m d (length xs)" using snoc.prems(2) by (auto simp: mapped_def)
  moreover have "bytes (m(d + length xs \<mapsto> x)) s xs" using snoc.prems by (intro bytes_upd) (auto simp: bytes_append)
  moreover have "m (s + length xs) = Some x" using snoc.prems(1) by (simp add: bytes_append)
  ultimately show ?case using snoc.IH [of "m(d + length xs \<mapsto> x)"] snoc.prems(3)
    by (simp add: put_byte_mapped mapped_upd over_snoc del: not_None_eq fun_upd_apply)
qed simp

lemma memmove_over:
  assumes "bytes m s xs" and "mapped m d (length xs)"
  shows "memmove m d s (length xs) = Some (over d xs m)"
  using memcpy_over [OF assms] copy_down_over [OF assms] by (simp add: memmove_def)

text \<open>Words at once, or byte by byte: the comparison is the same.\<close>

lemma ld_bytes_bytes: "bytes m p xs \<Longrightarrow> n \<le> length xs \<Longrightarrow> ld_bytes m p n = Some (take n xs)"
proof (induction n arbitrary: p xs)
  case (Suc n)
  then show ?case by (cases xs) auto
qed simp

lemma bytes_drop: "bytes m p xs \<Longrightarrow> n \<le> length xs \<Longrightarrow> bytes m (p + n) (drop n xs)"
  using bytes_append [of m p "take n xs" "drop n xs"] by (simp add: min_absorb2)

lemma skip_words_spec:
  "bytes m p xs \<Longrightarrow> bytes m q ys \<Longrightarrow> length xs = n \<Longrightarrow> length ys = n \<Longrightarrow>
    \<exists>d\<le>n. skip_words m p q n = Some (p + d, q + d, n - d) \<and> take d xs = take d ys"
proof (induction n arbitrary: p q xs ys rule: less_induct)
  case (less n)
  show ?case
  proof (cases "n \<ge> 8 \<and> take 8 xs = take 8 ys")
    case True
    then have "\<exists>d\<le>n - 8. skip_words m (p + 8) (q + 8) (n - 8) = Some (p + 8 + d, q + 8 + d, n - 8 - d)
        \<and> take d (drop 8 xs) = take d (drop 8 ys)"
      using less.prems by (intro less.IH) (auto intro: bytes_drop)
    then obtain d where d: "d \<le> n - 8" "skip_words m (p + 8) (q + 8) (n - 8) = Some (p + 8 + d, q + 8 + d, n - 8 - d)"
        "take d (drop 8 xs) = take d (drop 8 ys)" by blast
    have "skip_words m p q n = skip_words m (p + 8) (q + 8) (n - 8)"
      using True less.prems ld_bytes_bytes [of m p xs 8] ld_bytes_bytes [of m q ys 8] by (subst skip_words.simps) simp
    moreover have "take (8 + d) xs = take (8 + d) ys" using True d(3) by (simp add: take_add)
    ultimately show ?thesis using d True by (intro exI [of _ "8 + d"]) (auto simp: add.assoc)
  next
    case False
    then have "skip_words m p q n = Some (p, q, n)"
      using less.prems ld_bytes_bytes [of m p xs 8] ld_bytes_bytes [of m q ys 8] by (subst skip_words.simps) auto
    then show ?thesis by (intro exI [of _ 0]) simp
  qed
qed

lemma memcmp_loop_spec:
  "bytes m p xs \<Longrightarrow> bytes m q ys \<Longrightarrow> length xs = length ys \<Longrightarrow>
    \<exists>r. memcmp_loop m p q (length xs) = Some r \<and> orders r xs ys"
proof (induction xs arbitrary: p q ys)
  case Nil
  then show ?case by (simp add: orders_def)
next
  case (Cons x xs)
  then obtain y zs where ys: "ys = y # zs" by (cases ys) auto
  show ?case
  proof (cases "x = y")
    case True
    then show ?thesis using Cons.IH [of "p + 1" "q + 1" zs] Cons.prems ys by auto
  next
    case False
    then have "uint x - uint y \<noteq> 0" using word_uint_eqI [of x y] by auto
    then show ?thesis using orders_diff [OF False] Cons.prems ys by simp
  qed
qed

lemma memcmp_spec:
  assumes "bytes m p xs" and "bytes m q ys" and "length xs = n" and "length ys = n"
  shows "\<exists>r. memcmp unaligned m p q n = Some r \<and> orders r xs ys"
proof (cases unaligned)
  case True
  obtain d where d: "d \<le> n" "skip_words m p q n = Some (p + d, q + d, n - d)" "take d xs = take d ys"
    using skip_words_spec [OF assms] by blast
  have "bytes m (p + d) (drop d xs)" "bytes m (q + d) (drop d ys)" using bytes_drop [OF assms(1), of d] bytes_drop [OF assms(2), of d] assms(3,4) d(1) by simp_all
  from memcmp_loop_spec [OF this] assms(3,4)
  have "\<exists>r. memcmp_loop m (p + d) (q + d) (n - d) = Some r \<and> orders r (drop d xs) (drop d ys)" by simp
  moreover have "orders r xs ys \<longleftrightarrow> orders r (drop d xs) (drop d ys)" for r
    by (rule orders_append [of "take d xs"]) (use d(1) assms(3) in simp, rule refl, rule d(3) [symmetric])
  ultimately show ?thesis using True d(2) by (simp add: memcmp_def)
next
  case False
  then show ?thesis using memcmp_loop_spec [OF assms(1,2)] assms(3,4) by (simp add: memcmp_def)
qed

lemma memscan_spec: "bytes m p xs \<Longrightarrow> memscan m p c (length xs) = Some (p + length (takeWhile (\<lambda>x. x \<noteq> ucast c) xs))"
  by (induction xs arbitrary: p) auto

lemma memchr_bytes: "bytes m p xs \<Longrightarrow> memchr m p c (length xs) = Some (first_at (\<lambda>x. x = ucast c) p xs)"
  by (induction xs arbitrary: p) auto


text \<open>The first place where a string occurs in another.\<close>

primrec sub_at :: "nat \<Rightarrow> u8 list \<Rightarrow> u8 list \<Rightarrow> nat option" where
  "sub_at p t [] = (if t = [] then Some p else None)"
| "sub_at p t (x # s) = (if take (length t) (x # s) = t then Some p else sub_at (p + 1) t s)"

lemma sub_at_short: "length s < length t \<Longrightarrow> sub_at p t s = None"
  by (induction s arbitrary: p) (auto dest: arg_cong [of _ _ length])

lemma strnstr_loop_spec:
  "bytes m p s \<Longrightarrow> bytes m q t \<Longrightarrow> t \<noteq> [] \<Longrightarrow> strnstr_loop unaligned m p q (length s) (length t) = Some (sub_at p t s)"
proof (induction s arbitrary: p)
  case Nil
  then show ?case by (subst strnstr_loop.simps) simp
next
  case (Cons x s)
  show ?case
  proof (cases "length t \<le> length (x # s)")
    case True
    have "bytes m p (take (length t) (x # s))"
      using Cons.prems(1) bytes_append [of m p "take (length t) (x # s)" "drop (length t) (x # s)"] by simp
    then obtain r where "memcmp unaligned m p q (length t) = Some r" "orders r (take (length t) (x # s)) t"
      using memcmp_spec [of m p "take (length t) (x # s)" q t "length t" unaligned] Cons.prems(2) True by auto
    then show ?thesis using True Cons.IH [of "p + 1"] Cons.prems by (subst strnstr_loop.simps) (auto simp: orders_def)
  next
    case False
    then show ?thesis using sub_at_short [of "x # s" t p] by (subst strnstr_loop.simps) simp
  qed
qed

lemma cstr_bytes: "cstr m p s \<Longrightarrow> bytes m p s"
  by (simp add: cstr_def bytes_append)

lemma sub_at_Nil [simp]: "sub_at p [] s = Some p"
  by (cases s) simp_all


lemma strnstr_cstr: "bytes m p s \<Longrightarrow> cstr m q t \<Longrightarrow> strnstr unaligned m p q (length s) = Some (sub_at p t s)"
  using strnstr_loop_spec [of m p s q t] by (auto simp: strnstr_def strlen_cstr cstr_bytes)






section \<open>Copies\<close>


text \<open>\<open>strncpy\<close> pads with zeros, while the source stays at its terminator.\<close>

lemma strncpy_zeros:
  "m s = Some 0 \<Longrightarrow> mapped m d n \<Longrightarrow> strncpy m d s n = Some (over d (replicate n 0) m)"
proof (induction n arbitrary: d m)
  case (Suc n)
  then have "m d \<noteq> None" "mapped (m(d \<mapsto> 0)) (d + 1) n" by (simp_all add: mapped_Suc mapped_upd)
  moreover have "(m(d \<mapsto> 0)) s = Some 0" using Suc.prems(1) by simp
  ultimately show ?case using Suc.IH [of "m(d \<mapsto> 0)" "d + 1"] Suc.prems(1)
    by (simp add: put_byte_mapped over_Cons del: not_None_eq fun_upd_apply)
qed simp

lemma strncpy_over:
  "cstr m s xs \<Longrightarrow> mapped m d n \<Longrightarrow> d \<le> s \<or> s + length xs < d \<Longrightarrow>
    strncpy m d s n = Some (over d (take n (xs @ replicate n 0)) m)"
proof (induction xs arbitrary: d s m n)
  case Nil
  then show ?case by (simp add: strncpy_zeros)
next
  case (Cons x xs)
  show ?case
  proof (cases n)
    case (Suc k)
    have "m d \<noteq> None" "mapped (m(d \<mapsto> x)) (d + 1) k" using Cons.prems(2) mapped_upd by (auto simp: mapped_Suc Suc)
    moreover have "cstr (m(d \<mapsto> x)) (s + 1) xs"
      using Cons.prems bytes_upd [of m "s + 1" "xs @ [0]" d x] by (auto simp: cstr_def)
    moreover have "d + 1 \<le> s + 1 \<or> s + 1 + length xs < d + 1" using Cons.prems(3) by auto
    moreover have "take k (xs @ replicate k 0) = take k (xs @ replicate (Suc k) 0)" by (simp del: replicate.simps)
    ultimately show ?thesis using Cons.IH [of "m(d \<mapsto> x)" "s + 1" "d + 1" k] Cons.prems(1)
      by (simp add: Suc put_byte_mapped over_Cons del: not_None_eq fun_upd_apply replicate.simps)
  qed simp
qed








lemma strsep_cstr:
  assumes "cstr m p s" and "cstr m q ct"
  shows "(\<forall>x\<in>set s. x \<notin> set ct) \<Longrightarrow> strsep m (Some p) q = Some (Some p, None, m)"
    and "s = tok @ c # rest \<Longrightarrow> c \<in> set ct \<Longrightarrow> \<forall>x\<in>set tok. x \<notin> set ct \<Longrightarrow>
      \<exists>m'. strsep m (Some p) q = Some (Some p, Some (p + length tok + 1), m') \<and> cstr m' p tok \<and> cstr m' (p + length tok + 1) rest
        \<and> (\<forall>a. a \<noteq> p + length tok \<longrightarrow> m' a = m a)"
proof -
  note pb = strpbrk_cstr [OF assms]
  show "strsep m (Some p) q = Some (Some p, None, m)" if "\<forall>x\<in>set s. x \<notin> set ct"
    using that pb by (simp add: strsep_def first_at_def)
  assume s: "s = tok @ c # rest" and c: "c \<in> set ct" and tok: "\<forall>x\<in>set tok. x \<notin> set ct"
  let ?e = "p + length tok" and ?m = "m(p + length tok \<mapsto> 0)"
  have "takeWhile (\<lambda>x. x \<notin> set ct) s = tok" using s c tok by (simp add: takeWhile_append takeWhile_eq_all_conv)
  then have "strpbrk m p q = Some (Some ?e)" using pb s c by (auto simp: first_at_def)
  moreover have "m ?e = Some c" "bytes m p tok" "0 \<notin> set tok" "cstr m (?e + 1) rest"
    using assms(1) by (simp_all add: s cstr_append)
  ultimately have "strsep m (Some p) q = Some (Some p, Some (?e + 1), ?m)" by (simp add: strsep_def put_byte_def)
  moreover have "cstr ?m p tok" using \<open>bytes m p tok\<close> \<open>0 \<notin> set tok\<close> bytes_upd [of m p tok ?e 0] by (simp add: cstr_def bytes_append)
  moreover have "cstr ?m (?e + 1) rest" using \<open>cstr m (?e + 1) rest\<close> bytes_upd [of m "?e + 1" "rest @ [0]" ?e 0] by (simp add: cstr_def)
  ultimately show "\<exists>m'. strsep m (Some p) q = Some (Some p, Some (p + length tok + 1), m') \<and> cstr m' p tok
      \<and> cstr m' (p + length tok + 1) rest \<and> (\<forall>a. a \<noteq> p + length tok \<longrightarrow> m' a = m a)" by fastforce
qed

section \<open>Properties\<close>


definition demo_memory :: memory where
  "demo_memory = over 10 [97, 98, 67, 0] (over 20 [98, 99, 0] (over 40 (replicate 16 7) (over 60 [65, 0, 0, 0, 0] (\<lambda>a. None))))"

lemma demo_strings: "cstr demo_memory 10 [97, 98, 67]" "cstr demo_memory 20 [98, 99]"
  by (simp_all add: demo_memory_def over_def)




text \<open>
  C39: \<open>memmove\<close> copies an area to any place that may be written, however the two overlap: the destination gets the old
  bytes of the source and nothing else changes.  \<open>memcpy\<close> does the same when the destination does not begin
  inside of the source, and the fills set exactly the given area.
\<close>

theorem memory_moves_exact:
  assumes "bytes m s xs" and "mapped m d (length xs)" and "\<And>v. length (bytes_of v) = 2" and "mapped m d (2 * n)"
  shows "memmove m d s (length xs) = Some (over d xs m) \<and> bytes (over d xs m) d xs
    \<and> (d \<le> s \<or> s + length xs \<le> d \<longrightarrow> memcpy m d s (length xs) = Some (over d xs m))
    \<and> memset m d c n = Some (over d (replicate n (ucast c)) m)
    \<and> memset16 bytes_of m d v n = Some (over d (concat (replicate n (bytes_of v))) m)"
proof -
  have "mapped m d n" by (rule mapped_sub [OF assms(4)]) auto
  then show ?thesis
    using memmove_over [OF assms(1,2)] memcpy_over [OF assms(1,2)] bytes_over memset_over [of m d n c]
      fill_values_over [of m d n "bytes_of v"] assms(3,4) by (simp add: memset16_def mult.commute)
qed

theorem memory_moves_exact_witness:
  "memmove demo_memory 41 40 7 = Some (over 41 (replicate 7 7) demo_memory)"
proof -
  have "bytes demo_memory 40 (replicate 7 7)" "mapped demo_memory 41 (length (replicate 7 (7 :: u8)))" "mapped demo_memory 41 (2 * 3)"
    by (auto simp: demo_memory_def over_def bytes_iff mapped_def nth_append)
  from memory_moves_exact [OF this(1,2) _ this(3), of "\<lambda>v. [ucast v, ucast (drop_bit 8 v)]" 0 0] show ?thesis by simp
qed



text \<open>
  \<open>strsep\<close> cuts a string at the first of the separators: it returns the front as a terminated string, leaves the
  rest, without the separator, as the string for the next call, and changes one byte.  Without a separator the
  whole string is the last token.
\<close>

theorem strsep_splits:
  assumes "cstr m p (tok @ c # rest)" and "cstr m q seps" and "c \<in> set seps" and "\<forall>x\<in>set tok. x \<notin> set seps"
    and "cstr m r s" and "\<forall>x\<in>set s. x \<notin> set seps"
  shows "(\<exists>m'. strsep m (Some p) q = Some (Some p, Some (p + length tok + 1), m') \<and> cstr m' p tok \<and> cstr m' (p + length tok + 1) rest
      \<and> (\<forall>a. a \<noteq> p + length tok \<longrightarrow> m' a = m a))
    \<and> strsep m (Some r) q = Some (Some r, None, m) \<and> strsep m None q = Some (None, None, m)"
  using strsep_cstr(2) [OF assms(1,2) refl assms(3,4)] strsep_cstr(1) [OF assms(5,2,6)] by (simp add: strsep_def)

theorem strsep_splits_witness:
  "\<exists>m'. strsep demo_memory (Some 10) 20 = Some (Some 10, Some 12, m') \<and> cstr m' 10 [97] \<and> cstr m' 12 [67]"
proof -
  have "cstr demo_memory 10 ([97] @ 98 # [67])" "cstr demo_memory 60 [65]" using demo_strings(1) by (simp_all add: demo_memory_def over_def)
  from strsep_splits [OF this(1) demo_strings(2) _ _ this(2)] show ?thesis by auto
qed



end
