(* ===== verification/Spec2Isabelle.thy ===== *)
theory Spec2Isabelle
  imports Notifier ResourceTree ResourceAlloc ResourceWalk ResourceRegion Devres Devm Hdmi ComponentRegistry KfifoRecord KlistIter SortCorrect BitmapSets BitmapAlloc BitmapOrder BitmapConv FdtSafety RtcLib HexText Plist Strings
begin

text \<open>
  A verification development for the core libraries of \<open>gfp-drivers\<close>: the driver base under
  \<open>kernel/src/driver/base\<close>, the HDMI frames and the calendar of \<open>kernel/src/driver/common\<close>, and the
  library under \<open>lib/src/linux\<close> (all paths are below \<open>src/\<close>).

  \<^bold>\<open>The parts and how they interact.\<close>  The library gives the driver base its data structures: ring
  buffers, reference-counted lists, bitmaps, sorting, numbers and strings, and the flattened device tree
  that describes the hardware.  The driver base manages what drivers own: a tree of address ranges from
  which devices request regions, a list of managed resources per device that is released in reverse
  order when the device goes away, notifier chains, and aggregate devices that are brought up when all
  their components are there.  The managed requests of \<open>Devm\<close> put releases of regions of the tree on the
  list of a device; the aggregate devices of \<open>Component\<close> open and release groups on that list around
  the callbacks of drivers; the bitmap functions search with \<open>FindBit\<close> and count with \<open>Hweight\<close>; the
  lists of \<open>Klist\<close> count with \<open>Refcount\<close>; the two rings of \<open>Plist\<close> are linked lists of \<open>ListHead\<close>; the
  strings of \<open>Strings\<close> are compared with the character table of \<open>Kstrtox\<close>.

  \<^bold>\<open>Conventions.\<close>  A struct is a record, an enumeration a datatype, an integer a word of its width, so
  that arithmetic wraps where the source's does; an \<open>int\<close> result is a word or an integer with its negative
  error numbers.  A function that can access memory outside of an object, hit undefined behaviour or
  run forever returns an option, and \<^const>\<open>None\<close> is that outcome: a theorem that a call gives
  \<^const>\<open>Some\<close> says that it returns and stays in bounds.  Loops without an obvious bound are
  \<open>partial_function (option)\<close>; there is no fuel.  The allocators of this repository are macros that
  return \<open>NULL\<close> (\<open>lib/include/linux/lynix-compat.h\<close>); where a function allocates, the outcome of the
  allocation is an argument, so that both branches are covered.  Callbacks (notifiers, release and
  alignment functions, drivers, comparisons) are arguments with their contracts as hypotheses.  Locks
  make an operation one step; \<open>Refcount\<close> splits operations at their atomic accesses instead.

  \<^bold>\<open>Shared theories.\<close>  \<open>Prelude\<close> has the integer types, error numbers and lemmas on words and lists.
  \<open>Simulation\<close> has the locale \<open>simulation\<close>, a program step against a step of a specification, whose
  theorem lifts one step to every sequence of operations; it is interpreted for elements and for records
  of the ring buffer, for reference-counted lists, for bitmaps, for linked lists (\<open>linked\<close>) and for
  priority lists (\<open>priorities\<close>).

  \<^bold>\<open>Driver base.\<close>
  \<^item> \<open>Notifier\<close> (\<open>notifier.c\<close>, \<open>notifier.h\<close>): chains as lists of block addresses over a store of blocks;
    the locale \<open>notifier_chain\<close> is interpreted for atomic, blocking and raw heads.  Registration keeps
    the chain ordered and free of duplicates; a veto rolls back exactly what was notified.
  \<^item> \<open>ResourceTree\<close>, \<open>ResourceAlloc\<close>, \<open>ResourceWalk\<close>, \<open>ResourceRegion\<close> (\<open>resource.c\<close>, \<open>ioport.h\<close>): the
    tree as a datatype with the range, flags and descriptor of each node and its children in order;
    well-formedness (children inside of the parent, ordered, disjoint) is preserved by requesting,
    inserting, removing and releasing; allocation finds an aligned slot whenever there is one; walks
    report the matching ranges; busy regions and splitting reservations.
  \<^item> \<open>Devres\<close>, \<open>Devm\<close> (\<open>devres.c\<close>, the managed functions of \<open>resource.c\<close>): the list of a device with entries
    and group markers, the two-pass removal and the order of the releases; the inductive relation
    \<open>devres_step\<close> and the safety of every reachable list; the locale \<open>undoable\<close> for managed requests,
    interpreted for the resource tree.
  \<^item> \<open>Component\<close>, \<open>ComponentRegistry\<close> (\<open>component.c\<close>): the registry as stores of components, aggregate
    devices and match arrays with explicit freeing; the locales \<open>component_driver\<close> and
    \<open>aggregate_driver\<close> are the contracts of drivers, with interpretations for drivers that use the
    managed resources; binding is all or nothing and the registry is safe in every reachable state.

  \<^bold>\<open>Library.\<close>
  \<^item> \<open>ListHead\<close>, \<open>ListRefine\<close> (\<open>list.h\<close>): two pointers per list head in one memory, every function as its
    sequence of stores; any number of lists that share the memory refine a map from heads to mathematical
    lists, so that an operation on one list leaves the others alone.
  \<^item> \<open>Plist\<close> (\<open>plist.c\<close>, \<open>plist.h\<close>): the ring of all nodes and the ring of the first node of each priority
    refine one list that is sorted by priority, first in first out among equals.
  \<^item> \<open>Strings\<close> (\<open>string.c\<close>): memory as a partial function from addresses to bytes; searches, comparisons,
    overlapping moves, copies into bounded buffers, tokens, and the search by words against the one by bytes.
  \<^item> \<open>Kstrtox\<close> (\<open>kstrtox.c\<close>, \<open>ctype.h\<close>), \<open>HexText\<close> (\<open>hexdump.c\<close>, \<open>uuid.c\<close>): numbers of every width are
    parsed exactly when they fit, errors included; bytes and UUIDs survive being written and read.
  \<^item> \<open>Kfifo\<close>, \<open>KfifoRecord\<close> (\<open>kfifo.c\<close>, \<open>kfifo.h\<close>): the ring with its free-running 32-bit indices; both
    kinds refine a bounded queue.
  \<^item> \<open>Refcount\<close> (\<open>refcount.h\<close>, \<open>refcount.c\<close>, \<open>kref.h\<close>): saturation under interleaving.
  \<^item> \<open>Klist\<close>, \<open>KlistIter\<close> (\<open>klist.c\<close>): removal during iteration; refinement of a list of nodes and
    completeness of an iteration.
  \<^item> \<open>HeapSort\<close>, \<open>Sort\<close>, \<open>SortCorrect\<close> (\<open>sort.c\<close>): the sort on indices is the reference, the one on byte
    offsets refines it; the locale \<open>exchange_loop\<close> covers the built-in exchanges.
  \<^item> \<open>Bitops\<close>, \<open>FindBit\<close>, \<open>Hweight\<close>, \<open>Bitmap\<close>, \<open>BitmapWords\<close>, \<open>BitmapSets\<close>, \<open>BitmapAlloc\<close>, \<open>BitmapOrder\<close>,
    \<open>BitmapConv\<close> (\<open>bits.h\<close>, \<open>find_bit.c\<close>, \<open>hweight.c\<close>, \<open>bitmap.c\<close>, \<open>bitmap.h\<close>): arrays of words in a heap
    with aliasing arguments; the operations refine sets of numbers; areas and regions of free bits.
  \<^item> \<open>Fdt\<close>, \<open>FdtRead\<close>, \<open>FdtReadSafe\<close>, \<open>FdtSafety\<close> (\<open>libfdt/fdt.c\<close>, \<open>libfdt/fdt_ro.c\<close>): a blob is memory with
    arbitrary bytes; the walks and searches return and stay inside of it, except for the wrap-around that
    \<open>fdt_next_tag\<close> does not check.  The locale \<open>node_search\<close> is a search over all nodes with a test; it
    is interpreted for phandles, property values and compatible strings.

  \<^bold>\<open>Common drivers.\<close>
  \<^item> \<open>Hdmi\<close> (\<open>video/hdmi.c\<close>): infoframes as a datatype, packing and unpacking of bytes with the checksum.
  \<^item> \<open>RtcLib\<close> (\<open>rtc/lib.c\<close>): seconds to a date and back, against the calendar counted year by year.

  \<^bold>\<open>Not modelled.\<close>  Printing to a log, debugfs and sysfs files; memory ordering; code that the
  configuration leaves out; the live device tree, the driver core and other parts that need the stubbed
  allocators or functions that are stubs here (probing, device links and device reference counts are dead
  code, see the findings); the drivers whose steps are accesses to device registers (PCI, ATA, SCSI,
  interrupt controllers, serial buses, regulators, clocks and others); the maple tree, XArray and
  red-black trees; the single-headed \<open>hlist\<close>; formatted printing; the functions that write flattened
  device trees.
\<close>

end
